(* ===== verification/Kernel_Prelude.thy ===== *)
theory Kernel_Prelude
  imports Main "HOL-Library.Word" "HOL-Library.Monad_Syntax"
begin

text \<open>
  What the components share: the names of the machine integers, the lemma collections of the
  development, the loop that returns from its body, the rounding macros of \<open>utils/math.h\<close> and
  \<open>memory/pmm.h\<close>, and the error numbers of \<open>include/errno.h\<close>.

  A C \<open>uint32_t\<close> (and \<open>size_t\<close>, \<open>unsigned\<close> and a pointer, all 32 bits wide on the i386 the
  kernel is built for) is a \<open>u32\<close>, so \<open>+\<close>, \<open>-\<close> and \<open>*\<close> wrap as they do in the machine.
\<close>

unbundle bit_operations_syntax

type_synonym u8 = "8 word"
type_synonym u16 = "16 word"
type_synonym u32 = "32 word"
type_synonym u64 = "64 word"

named_theorems op_defs \<open>definitions of the operations of a component\<close>
named_theorems inv_intros \<open>preservation lemmas of a component's invariant\<close>
named_theorems loop_simps \<open>unfolding of loops with a bounded counter\<close>

lemma u32_bound: "unat (x :: u32) < 4294967296"
proof -
  have "unat x < 2 ^ LENGTH(32)" by (rule unsigned_less)
  then show ?thesis by simp
qed

lemma u16_bound: "unat (x :: u16) < 65536"
proof -
  have "unat x < 2 ^ LENGTH(16)" by (rule unsigned_less)
  then show ?thesis by simp
qed

lemma unat_of_nat_u32: "n < 4294967296 \<Longrightarrow> unat (of_nat n :: u32) = n"
  by (simp add: unat_of_nat)

lemma sint_small: "x < 0x80000000 \<Longrightarrow> sint (x :: u32) = uint x"
  by (simp add: sint_uint signed_take_bit_int_eq_self_iff word_less_def order_trans [OF _ uint_ge_0])

section \<open>Positions in a ring\<close>

lemma ring_index_le:
  assumes "(t + i) mod n = (t + j) mod n" and "i \<le> j" and "j < (n :: nat)"
  shows "i = j"
proof -
  have "n dvd (t + j) - (t + i)"
    using assms(1,2) by (subst mod_eq_dvd_iff_nat [symmetric]) simp_all
  then have "n dvd j - i" by simp
  then show ?thesis
    using assms(2,3) by (metis diff_is_0_eq dvd_imp_le le_antisym less_imp_diff_less not_le not_gr_zero)
qed

lemma ring_index_inj:
  "(t + i) mod n = (t + j) mod n \<Longrightarrow> i < n \<Longrightarrow> j < (n :: nat) \<Longrightarrow> i = j"
  by (metis ring_index_le nle_le)

section \<open>Loops that return from their body\<close>

text \<open>
  \<open>for (i = a; i < b; ++i) body(i)\<close> where the body may \<open>return\<close>: the value of the first
  iteration that returns, \<open>None\<close> when the loop runs to its end.
\<close>

function for_find :: "nat \<Rightarrow> nat \<Rightarrow> (nat \<Rightarrow> 'a option) \<Rightarrow> 'a option" where
  "for_find i n body =
     (if i < n then (case body i of Some v \<Rightarrow> Some v | None \<Rightarrow> for_find (Suc i) n body)
      else None)"
  by pat_completeness auto
termination
  by (relation "measure (\<lambda>(i, n, body). n - i)") auto

declare for_find.simps [simp del]

lemma for_find_end [loop_simps]: "n \<le> i \<Longrightarrow> for_find i n body = None"
  by (subst for_find.simps) simp

lemma for_find_step [loop_simps]:
  "i < n \<Longrightarrow> for_find i n body =
     (case body i of Some v \<Rightarrow> Some v | None \<Rightarrow> for_find (Suc i) n body)"
  by (subst for_find.simps) simp

lemma for_find_None_iff:
  "for_find i n body = None \<longleftrightarrow> (\<forall>k. i \<le> k \<and> k < n \<longrightarrow> body k = None)"
proof (induction i n body rule: for_find.induct)
  case (1 i n body)
  show ?case
  proof (cases "i < n \<and> body i = None")
    case True
    then have "for_find i n body = for_find (Suc i) n body"
      by (simp add: for_find_step)
    also have "\<dots> = None \<longleftrightarrow> (\<forall>k. Suc i \<le> k \<and> k < n \<longrightarrow> body k = None)"
      using "1.IH" True by simp
    also have "\<dots> \<longleftrightarrow> (\<forall>k. i \<le> k \<and> k < n \<longrightarrow> body k = None)"
      using True by (metis Suc_leD Suc_leI le_neq_implies_less)
    finally show ?thesis .
  next
    case False
    then show ?thesis
      by (cases "i < n") (auto simp: for_find_step for_find_end)
  qed
qed

text \<open>The value comes from the first iteration that returns.\<close>

lemma for_find_SomeE:
  assumes "for_find i n body = Some v"
  obtains k where "i \<le> k" "k < n" "body k = Some v" "\<And>j. i \<le> j \<Longrightarrow> j < k \<Longrightarrow> body j = None"
  using assms
proof (induction i n body arbitrary: thesis rule: for_find.induct)
  case (1 i n body)
  from "1.prems"(2) have lt: "i < n"
    by (cases "i < n") (simp_all add: for_find_end)
  show ?case
  proof (cases "body i")
    case None
    with lt "1.prems"(2) have "for_find (Suc i) n body = Some v"
      by (simp add: for_find_step)
    then obtain k where k: "Suc i \<le> k" "k < n" "body k = Some v"
      "\<And>j. Suc i \<le> j \<Longrightarrow> j < k \<Longrightarrow> body j = None"
      using "1.IH" lt None by blast
    show ?thesis
      by (rule "1.prems"(1) [of k]) (use k None in \<open>auto dest: le_neq_implies_less\<close>)
  next
    case (Some w)
    with lt "1.prems"(2) have "body i = Some v"
      by (simp add: for_find_step)
    then show ?thesis
      using lt by (intro "1.prems"(1) [of i]) simp_all
  qed
qed

lemma for_find_first:
  assumes "i \<le> k" "k < n" "body k = Some v" "\<And>j. i \<le> j \<Longrightarrow> j < k \<Longrightarrow> body j = None"
  shows "for_find i n body = Some v"
  using assms
proof (induction "k - i" arbitrary: i)
  case 0
  then show ?case by (simp add: for_find_step)
next
  case (Suc d)
  then have "for_find (Suc i) n body = Some v" by simp
  moreover have "body i = None" using Suc by simp
  ultimately show ?case using Suc by (simp add: for_find_step)
qed

lemma for_find_0_SomeD:
  "for_find 0 n body = Some v \<Longrightarrow> \<exists>k < n. body k = Some v \<and> (\<forall>j < k. body j = None)"
  by (erule for_find_SomeE) blast

lemma for_find_cong: "(\<And>k. k < n \<Longrightarrow> f k = g k) \<Longrightarrow> for_find i n f = for_find i n g"
  by (induction i n f rule: for_find.induct) (metis for_find.simps option.case_eq_if)

text \<open>Two nested loops are one loop over the pairs of counters.\<close>

lemma for_find_nested:
  assumes "0 < n"
  shows "for_find 0 w (\<lambda>i. for_find 0 n (h i)) = for_find 0 (w * n) (\<lambda>k. h (k div n) (k mod n))"
proof (cases "for_find 0 w (\<lambda>i. for_find 0 n (h i))")
  case None
  have "h (k div n) (k mod n) = None" if "k < w * n" for k
  proof -
    have "k div n < w" "k mod n < n" using that assms by (simp_all add: less_mult_imp_div_less)
    then show ?thesis using None unfolding for_find_None_iff by blast
  qed
  then have "for_find 0 (w * n) (\<lambda>k. h (k div n) (k mod n)) = None"
    by (simp add: for_find_None_iff)
  with None show ?thesis by simp
next
  case (Some v)
  then obtain i where i: "i < w" "for_find 0 n (h i) = Some v" "\<And>i'. i' < i \<Longrightarrow> for_find 0 n (h i') = None"
    by (blast dest: for_find_0_SomeD)
  then obtain j where j: "j < n" "h i j = Some v" "\<And>j'. j' < j \<Longrightarrow> h i j' = None"
    by (blast dest: for_find_0_SomeD)
  have "for_find 0 (w * n) (\<lambda>k. h (k div n) (k mod n)) = Some v"
  proof (rule for_find_first [of 0 "i * n + j"])
    have "i * n + j < (i + 1) * n" using j(1) by simp
    also have "\<dots> \<le> w * n" using i(1) by (intro mult_right_mono) simp_all
    finally show "i * n + j < w * n" .
    show "h ((i * n + j) div n) ((i * n + j) mod n) = Some v" using j(1,2) by simp
    show "h (k div n) (k mod n) = None" if "k < i * n + j" for k
    proof (cases "k div n = i")
      case True
      then have "k mod n < j" using that div_mult_mod_eq [of k n] by simp
      then show ?thesis using j(3) True by simp
    next
      case False
      have "k < (i + 1) * n" using that j(1) by simp
      then have "k div n < i + 1" by (rule less_mult_imp_div_less)
      with False have "k div n < i" by simp
      from i(3) [OF this] show ?thesis using assms unfolding for_find_None_iff by simp
    qed
  qed simp
  with Some show ?thesis by simp
qed

section \<open>Rounding\<close>

text \<open>\<open>ALIGN_DOWN\<close>, \<open>ALIGN_UP\<close> and \<open>div_ceil\<close> of \<open>utils/math.h\<close>; \<open>PAGE_ALIGN\<close> of
  \<open>memory/pmm.h\<close>.\<close>

definition PMM_FRAME_SIZE :: u32 where
  "PMM_FRAME_SIZE = 4096"

definition ALIGN_DOWN :: "u32 \<Rightarrow> u32 \<Rightarrow> u32" where
  "ALIGN_DOWN base sz = base AND (- sz)"

definition ALIGN_UP :: "u32 \<Rightarrow> u32 \<Rightarrow> u32" where
  "ALIGN_UP base sz = ALIGN_DOWN (base + sz - 1) sz"

definition div_ceil :: "u32 \<Rightarrow> u32 \<Rightarrow> u32" where
  "div_ceil x y = x div y + (if x mod y > 0 then 1 else 0)"

definition PAGE_ALIGN :: "u32 \<Rightarrow> u32" where
  "PAGE_ALIGN addr = (addr + PMM_FRAME_SIZE - 1) AND NOT (PMM_FRAME_SIZE - 1)"

lemma and_minus_power: "(x :: u32) AND (- (2 ^ n)) = x - x mod 2 ^ n"
proof -
  have "x AND (- (2 ^ n)) = x AND NOT (mask n)"
    by (simp add: mask_eq_exp_minus_1 minus_exp_eq_not_mask)
  moreover have "(x AND NOT (mask n)) + take_bit n x = x"
    by (subst disjunctive_add_eq_or) (auto simp: bit_eq_iff bit_simps)
  ultimately show ?thesis
    by (simp add: take_bit_eq_mod eq_diff_eq)
qed

lemma unat_and_minus_power:
  assumes "n < 32"
  shows "unat ((x :: u32) AND (- (2 ^ n))) = unat x div 2 ^ n * 2 ^ n"
proof -
  have p: "unat ((2 :: u32) ^ n) = 2 ^ n"
    using assms unat_of_nat [where 'a = 32, of "2 ^ n"]
      power_strict_increasing [of n 32 "2 :: nat"] by simp
  have "x mod 2 ^ n \<le> x"
    by (simp add: word_le_nat_alt unat_mod_distrib)
  then have "unat (x - x mod 2 ^ n) = unat x - unat x mod 2 ^ n"
    by (simp add: unat_sub unat_mod_distrib p)
  then show ?thesis
    by (simp add: and_minus_power minus_mod_eq_div_mult)
qed

lemma unat_ALIGN_DOWN_frame: "unat (ALIGN_DOWN a PMM_FRAME_SIZE) = unat a div 4096 * 4096"
  using unat_and_minus_power [of 12 a] by (simp add: ALIGN_DOWN_def PMM_FRAME_SIZE_def)

lemma PAGE_ALIGN_eq: "PAGE_ALIGN a = (a + 4095) AND (- (2 ^ 12))"
  by (simp add: PAGE_ALIGN_def PMM_FRAME_SIZE_def add.commute)

lemma unat_PAGE_ALIGN:
  assumes "unat a + 4095 < 2 ^ 32"
  shows "unat (PAGE_ALIGN a) = (unat a + 4095) div 4096 * 4096"
proof -
  have "unat (a + 4095) = unat a + 4095"
    using assms by (simp add: unat_plus_if')
  then show ?thesis
    using unat_and_minus_power [of 12 "a + 4095"] by (simp add: PAGE_ALIGN_eq)
qed

lemma unat_ALIGN_UP_4:
  assumes "unat a + 3 < 2 ^ 32"
  shows "unat (ALIGN_UP a 4) = (unat a + 3) div 4 * 4"
proof -
  have "unat (a + 3) = unat a + 3"
    using assms by (simp add: unat_plus_if')
  then show ?thesis
    using unat_and_minus_power [of 2 "a + 3"]
    by (simp add: ALIGN_UP_def ALIGN_DOWN_def add.commute)
qed

lemma nat_div_ceil:
  assumes "0 < (b :: nat)"
  shows "(a + b - 1) div b = a div b + (if a mod b > 0 then 1 else 0)"
proof -
  have eq: "a + b - 1 = a div b * b + (a mod b + b - 1)"
    using assms by (metis Nat.add_diff_assoc2 One_nat_def Suc_leI add.assoc div_mult_mod_eq le_add2
        le_trans ordered_cancel_comm_monoid_diff_class.add_diff_assoc)
  have "(a mod b + b - 1) div b = (if a mod b > 0 then 1 else 0)"
  proof (cases "a mod b > 0")
    case True
    then obtain k where k: "a mod b = Suc k"
      by (auto dest: gr0_implies_Suc)
    then have "k < b"
      using assms mod_less_divisor [of b a] by simp
    then show ?thesis using k assms by (simp add: div_add_self2)
  qed (use assms in simp)
  moreover have "(a + b - 1) div b = a div b + (a mod b + b - 1) div b"
    unfolding eq using assms by (simp only: div_mult_self3)
  ultimately show ?thesis by simp
qed

lemma unat_div_ceil:
  assumes "0 < unat y" and "unat x < 2 ^ 32 - 1"
  shows "unat (div_ceil x y) = (unat x + unat y - 1) div unat y"
proof -
  have "unat x div unat y < 2 ^ 32 - 1"
    using assms(2) div_le_dividend [of "unat x" "unat y"] by linarith
  then have one: "unat (x div y + 1) = unat x div unat y + 1"
    by (simp add: unat_plus_if' unat_div_distrib)
  have pos: "x mod y > 0 \<longleftrightarrow> unat x mod unat y > 0"
    by (simp add: word_less_nat_alt unat_mod_distrib)
  have "(unat x + unat y - 1) div unat y = unat x div unat y + (if unat x mod unat y > 0 then 1 else 0)"
    by (rule nat_div_ceil) (rule assms(1))
  then show ?thesis
    using one pos by (simp add: div_ceil_def unat_div_distrib)
qed

section \<open>Error numbers\<close>

definition EPERM :: int where "EPERM = 1"
definition ENOENT :: int where "ENOENT = 2"
definition EINTR :: int where "EINTR = 4"
definition EIO :: int where "EIO = 5"
definition EBADF :: int where "EBADF = 9"
definition ECHILD :: int where "ECHILD = 10"
definition EAGAIN :: int where "EAGAIN = 11"
definition ENOMEM :: int where "ENOMEM = 12"
definition EFAULT :: int where "EFAULT = 14"
definition EBUSY :: int where "EBUSY = 16"
definition ENODEV :: int where "ENODEV = 19"
definition EINVAL :: int where "EINVAL = 22"
definition EMFILE :: int where "EMFILE = 24"
definition ENOTTY :: int where "ENOTTY = 25"
definition ERANGE :: int where "ERANGE = 34"
definition EPROTO :: int where "EPROTO = 71"
definition EMSGSIZE :: int where "EMSGSIZE = 90"
definition ESHUTDOWN :: int where "ESHUTDOWN = 108"
definition ERESTARTSYS :: int where "ERESTARTSYS = 512"

lemmas errno_defs = EPERM_def ENOENT_def EINTR_def EIO_def EBADF_def ECHILD_def EAGAIN_def ENOMEM_def EFAULT_def ENODEV_def
  EINVAL_def EMFILE_def ENOTTY_def EMSGSIZE_def ERESTARTSYS_def EBUSY_def ERANGE_def EPROTO_def ESHUTDOWN_def

section \<open>Lists\<close>

lemma find_append: "find P (xs @ ys) = (case find P xs of None \<Rightarrow> find P ys | Some x \<Rightarrow> Some x)"
  by (induction xs) auto

lemma sorted_last_le:
  fixes f :: "'a \<Rightarrow> 'b :: linorder"
  shows "sorted (map f xs) \<Longrightarrow> x \<in> set xs \<Longrightarrow> f x \<le> f (last xs)"
  by (cases xs rule: rev_cases) (auto simp: sorted_append)

end
