(* ===== verification/Frame_Bitmap.thy ===== *)
theory Frame_Bitmap
  imports Kernel_Prelude
begin

text \<open>
  Bitmaps of page frames. \<open>memory/pmm.c\<close> and \<open>memory/highmem.c\<close> hold the same code for two bitmaps,
  \<open>memory_bitmap\<close> and \<open>pkmap\<close>; the functions here are that code with the bitmap as an argument, and
  the theories of the two files apply them to their own bitmap.

  A bitmap is the flat memory at its address, so an index beyond its end reads and writes what follows
  it. The locale \<open>frame_bitmap\<close> is the contract the allocators rely on.
\<close>

section \<open>The operations\<close>

type_synonym bitmap = "nat \<Rightarrow> u32"

definition bm_set :: "u32 \<Rightarrow> bitmap \<Rightarrow> bitmap" where
  "bm_set frame m = m(unat (frame div 32) := m (unat (frame div 32)) OR push_bit (unat (frame mod 32)) 1)"

definition bm_unset :: "u32 \<Rightarrow> bitmap \<Rightarrow> bitmap" where
  "bm_unset frame m = m(unat (frame div 32) := m (unat (frame div 32)) AND NOT (push_bit (unat (frame mod 32)) 1))"

definition bm_test :: "u32 \<Rightarrow> bitmap \<Rightarrow> bool" where
  "bm_test frame m \<longleftrightarrow> m (unat (frame div 32)) AND push_bit (unat (frame mod 32)) 1 \<noteq> 0"

text \<open>The first clear bit of the first \<open>words\<close> words; \<open>None\<close> stands for the result \<open>-1\<close>.\<close>

definition bm_first_free :: "nat \<Rightarrow> bitmap \<Rightarrow> u32 option" where
  "bm_first_free words m =
     for_find 0 words (\<lambda>i.
       if m i \<noteq> 0xffffffff then
         for_find 0 32 (\<lambda>j. if m i AND push_bit j 1 = 0 then Some (of_nat i * 32 + of_nat j) else None)
       else None)"

text \<open>The innermost loop of the search for several frames, from \<open>count\<close> on with \<open>n\<close> rounds to go.\<close>

primrec bm_enough :: "nat \<Rightarrow> u32 \<Rightarrow> u32 \<Rightarrow> bitmap \<Rightarrow> nat \<Rightarrow> nat \<Rightarrow> bool" where
  "bm_enough 0 start sz m count free = False"
| "bm_enough (Suc n) start sz m count free =
     (let free' = (if \<not> bm_test (start + of_nat count) m then free + 1 else free)
      in if free' = unat sz then True else bm_enough n start sz m (count + 1) free')"

definition bm_first_frees :: "nat \<Rightarrow> u32 \<Rightarrow> bitmap \<Rightarrow> u32 option" where
  "bm_first_frees words sz m =
     (if sz = 0 then None
      else if sz = 1 then bm_first_free words m
      else
        for_find 0 words (\<lambda>i.
          if m i \<noteq> 0xffffffff then
            for_find 0 32 (\<lambda>j.
              if m i AND push_bit j 1 = 0 then
                let startingBit = of_nat i * 32 + of_nat j
                in if bm_enough (unat sz + 1) startingBit sz m 0 0 then Some startingBit else None
              else None)
          else None))"

section \<open>Bits\<close>

lemma bm_test_bit: "bm_test f m \<longleftrightarrow> bit (m (unat f div 32)) (unat f mod 32)"
  by (simp add: bm_test_def bit_iff_and_push_bit_not_eq_0 unat_div unat_mod)

lemma unat_frame_eq_iff: "unat (f :: u32) div 32 = unat g div 32 \<and> unat f mod 32 = unat g mod 32 \<longleftrightarrow> f = g"
  by (metis div_mult_mod_eq word_unat_eq_iff)

lemma bm_test_set: "bm_test g (bm_set f m) \<longleftrightarrow> g = f \<or> bm_test g m"
proof (cases "unat g div 32 = unat f div 32")
  case True
  then show ?thesis
    using unat_frame_eq_iff [of g f]
    by (auto simp: bm_test_bit bm_set_def bit_simps unat_div unat_mod)
qed (auto simp: bm_test_bit bm_set_def unat_div)

lemma bm_test_unset: "bm_test g (bm_unset f m) \<longleftrightarrow> g \<noteq> f \<and> bm_test g m"
proof (cases "unat g div 32 = unat f div 32")
  case True
  then show ?thesis
    using unat_frame_eq_iff [of g f]
    by (auto simp: bm_test_bit bm_unset_def bit_simps unat_div unat_mod)
qed (auto simp: bm_test_bit bm_unset_def unat_div)

text \<open>Frames as a word index and a position in the word.\<close>

lemma unat_frame: "i * 32 + j < 4294967296 \<Longrightarrow> unat (of_nat i * 32 + of_nat j :: u32) = i * 32 + j"
  using unat_of_nat_u32 [of "i * 32 + j"] by simp

lemma frame_of_nat: "of_nat (k div 32) * 32 + of_nat (k mod 32) = (of_nat k :: u32)"
proof -
  have "of_nat (k div 32) * 32 + of_nat (k mod 32) = (of_nat (k div 32 * 32 + k mod 32) :: u32)"
    by (simp only: of_nat_add of_nat_mult of_nat_numeral)
  then show ?thesis by (simp only: div_mult_mod_eq)
qed

lemma bit_full_word: "j < 32 \<Longrightarrow> bit (0xffffffff :: u32) j"
proof -
  have "(0xffffffff :: u32) = - 1" by simp
  then show "j < 32 \<Longrightarrow> ?thesis" by (simp only: bit_minus_1_iff) simp
qed

text \<open>The two nested loops visit the frames one after the other.\<close>

lemma scan_frames:
  "for_find 0 words (\<lambda>i. if m i \<noteq> 0xffffffff
       then for_find 0 32 (\<lambda>j. if m i AND push_bit j 1 = 0 then g (of_nat i * 32 + of_nat j) else None)
       else None) =
   for_find 0 (words * 32) (\<lambda>k. if bm_test (of_nat k) m then None else g (of_nat k :: u32))"
  if "words \<le> 134217728"
proof -
  let ?h = "\<lambda>i j. if bit (m i) j then None else g (of_nat i * 32 + of_nat j)"
  have "(if m i \<noteq> 0xffffffff
       then for_find 0 32 (\<lambda>j. if m i AND push_bit j 1 = 0 then g (of_nat i * 32 + of_nat j) else None)
       else None) = for_find 0 32 (?h i)" for i
  proof (cases "m i = 0xffffffff")
    case True
    then have "bit (m i) j" if "j < 32" for j using bit_full_word [OF that] by simp
    then have "for_find 0 32 (?h i) = None" by (simp add: for_find_None_iff)
    with True show ?thesis by simp
  next
    case False
    have "(\<lambda>j. if m i AND push_bit j 1 = 0 then g (of_nat i * 32 + of_nat j) else None) = ?h i"
      by (auto simp: bit_iff_and_push_bit_not_eq_0)
    with False show ?thesis by simp
  qed
  then have "for_find 0 words (\<lambda>i. if m i \<noteq> 0xffffffff
       then for_find 0 32 (\<lambda>j. if m i AND push_bit j 1 = 0 then g (of_nat i * 32 + of_nat j) else None)
       else None) = for_find 0 (words * 32) (\<lambda>k. ?h (k div 32) (k mod 32))"
    by (simp add: for_find_nested)
  also have "\<dots> = for_find 0 (words * 32) (\<lambda>k. if bm_test (of_nat k) m then None else g (of_nat k))"
  proof (rule for_find_cong)
    fix k assume "k < words * 32"
    then have "k < 4294967296" using that by simp
    then show "?h (k div 32) (k mod 32) = (if bm_test (of_nat k) m then None else g (of_nat k))"
      by (simp add: bm_test_bit unat_of_nat_u32 frame_of_nat)
  qed
  finally show ?thesis .
qed

lemma bm_first_free_eq:
  "words \<le> 134217728 \<Longrightarrow>
   bm_first_free words m = for_find 0 (words * 32) (\<lambda>k. if bm_test (of_nat k) m then None else Some (of_nat k))"
  unfolding bm_first_free_def by (rule scan_frames)

lemma bm_first_free_Some:
  assumes "bm_first_free words m = Some f" and w: "words \<le> 134217728"
  shows "unat f < words * 32 \<and> \<not> bm_test f m \<and> (\<forall>g. g < f \<longrightarrow> bm_test g m)"
proof -
  obtain k where k: "k < words * 32" "\<not> bm_test (of_nat k) m" "f = of_nat k"
    "\<And>k'. k' < k \<Longrightarrow> bm_test (of_nat k') m"
    using for_find_0_SomeD [OF assms(1) [unfolded bm_first_free_eq [OF w]]]
    by (metis option.distinct(1) option.inject)
  then have uf: "unat f = k" using w by (simp add: unat_of_nat_u32)
  have "bm_test g m" if "g < f" for g
    using k(4) [of "unat g"] that uf by (simp add: word_less_nat_alt)
  with k uf show ?thesis by auto
qed

lemma bm_first_free_None:
  assumes "bm_first_free words m = None" and w: "words \<le> 134217728" and "unat g < words * 32"
  shows "bm_test g m"
proof -
  have "(if bm_test (of_nat (unat g)) m then None else Some (of_nat (unat g) :: u32)) = None"
    using assms(1,3) unfolding bm_first_free_eq [OF w] for_find_None_iff by blast
  then show ?thesis by (simp split: if_splits)
qed

section \<open>Several frames\<close>

text \<open>How many of the \<open>n\<close> frames from \<open>start\<close> are free.\<close>

definition bm_free_count :: "u32 \<Rightarrow> nat \<Rightarrow> bitmap \<Rightarrow> nat" where
  "bm_free_count start n m = length (filter (\<lambda>k. \<not> bm_test (start + of_nat k) m) [0..<n])"

lemma bm_free_count_Suc:
  "bm_free_count start (Suc n) m = bm_free_count start n m + (if bm_test (start + of_nat n) m then 0 else 1)"
  by (simp add: bm_free_count_def)

lemma bm_free_count_mono: "n \<le> n' \<Longrightarrow> bm_free_count start n m \<le> bm_free_count start n' m"
  by (induction rule: dec_induct) (auto simp: bm_free_count_Suc)

lemma bm_free_count_le: "bm_free_count start n m \<le> n"
  unfolding bm_free_count_def using length_filter_le [of _ "[0..<n]"] by simp

lemma bm_enough_iff:
  "bm_free_count start count m < unat sz \<Longrightarrow>
   bm_enough n start sz m count (bm_free_count start count m) \<longleftrightarrow> unat sz \<le> bm_free_count start (count + n) m"
proof (induction n arbitrary: count)
  case (Suc n)
  let ?c = "bm_free_count start (Suc count) m"
  have c: "(if \<not> bm_test (start + of_nat count) m then bm_free_count start count m + 1 else bm_free_count start count m) = ?c"
    by (simp add: bm_free_count_Suc)
  show ?case
  proof (cases "?c = unat sz")
    case True
    then show ?thesis
      using bm_free_count_mono [of "Suc count" "count + Suc n" start m] c by (simp add: Let_def)
  next
    case False
    then have "?c < unat sz" using Suc.prems by (auto simp: bm_free_count_Suc split: if_splits)
    from Suc.IH [OF this] False c show ?thesis by (simp add: Let_def)
  qed
qed simp

lemma bm_enough_start:
  "0 < unat sz \<Longrightarrow> bm_enough (unat sz + 1) start sz m 0 0 \<longleftrightarrow> unat sz \<le> bm_free_count start (unat sz + 1) m"
  using bm_enough_iff [of start 0 m sz "unat sz + 1"] by (simp add: bm_free_count_def)

text \<open>The search accepts a range when at least \<open>sz\<close> of \<open>sz + 1\<close> frames are free.\<close>

lemma bm_first_frees_Some:
  assumes res: "bm_first_frees words sz m = Some f" and w: "words \<le> 134217728"
  shows "unat f < words * 32 \<and> \<not> bm_test f m \<and> unat sz \<le> bm_free_count f (unat sz + 1) m"
proof -
  have sz: "sz \<noteq> 0" using res by (auto simp: bm_first_frees_def)
  show ?thesis
  proof (cases "sz = 1")
    case True
    with res have first: "bm_first_free words m = Some f" by (simp add: bm_first_frees_def)
    then have "\<not> bm_test f m" using bm_first_free_Some [OF first w] by blast
    then have "1 \<le> bm_free_count f 1 m" by (simp add: bm_free_count_def)
    also have "\<dots> \<le> bm_free_count f 2 m" by (rule bm_free_count_mono) simp
    finally have "1 \<le> bm_free_count f 2 m" .
    then show ?thesis using bm_first_free_Some [OF first w] True by (simp add: numeral_2_eq_2)
  next
    case False
    let ?g = "\<lambda>s. if bm_enough (unat sz + 1) s sz m 0 0 then Some s else None"
    have "for_find 0 (words * 32) (\<lambda>k. if bm_test (of_nat k) m then None else ?g (of_nat k)) = Some f"
      using res [unfolded bm_first_frees_def Let_def] sz False scan_frames [OF w, of m ?g] by simp
    from for_find_0_SomeD [OF this] obtain k where k: "k < words * 32"
      "(if bm_test (of_nat k) m then None else ?g (of_nat k)) = Some f" by blast
    then have "f = of_nat k" "\<not> bm_test f m" "bm_enough (unat sz + 1) f sz m 0 0"
      by (auto split: if_splits simp del: bm_enough.simps)
    moreover have "0 < unat sz" using sz by (simp add: unat_gt_0)
    ultimately show ?thesis using k(1) w bm_enough_start by (simp add: unat_of_nat_u32 del: bm_enough.simps)
  qed
qed

text \<open>So at most one frame of an accepted range is in use, and none when the frame behind it is.\<close>

lemma bm_first_frees_used:
  assumes "bm_first_frees words sz m = Some f" and "words \<le> 134217728"
  shows "length (filter (\<lambda>k. bm_test (f + of_nat k) m) [0..<unat sz]) \<le> 1"
    and "bm_test (f + sz) m \<Longrightarrow> k < unat sz \<Longrightarrow> \<not> bm_test (f + of_nat k) m"
proof -
  have cnt: "unat sz \<le> bm_free_count f (unat sz) m + (if bm_test (f + sz) m then 0 else 1)"
    using bm_first_frees_Some [OF assms] bm_free_count_Suc [of f "unat sz" m] by simp
  have sum: "length (filter (\<lambda>k. bm_test (f + of_nat k) m) [0..<unat sz]) + bm_free_count f (unat sz) m = unat sz"
    unfolding bm_free_count_def using sum_length_filter_compl [of "\<lambda>k. bm_test (f + of_nat k) m" "[0..<unat sz]"] by simp
  show "length (filter (\<lambda>k. bm_test (f + of_nat k) m) [0..<unat sz]) \<le> 1"
    using cnt sum by (simp split: if_splits)
  show "\<not> bm_test (f + of_nat k) m" if "bm_test (f + sz) m" "k < unat sz"
  proof -
    have "length (filter (\<lambda>k. bm_test (f + of_nat k) m) [0..<unat sz]) = 0"
      using cnt sum unfolding if_P [OF that(1)] by linarith
    then show ?thesis using that(2) by (simp add: filter_empty_conv)
  qed
qed

section \<open>The contract of a frame bitmap\<close>

text \<open>Taking \<open>n\<close> frames one by one: search, then mark.\<close>

fun take_frames :: "('s \<Rightarrow> u32 option) \<Rightarrow> (u32 \<Rightarrow> 's \<Rightarrow> 's) \<Rightarrow> nat \<Rightarrow> 's \<Rightarrow> (u32 list \<times> 's) option" where
  "take_frames first mark 0 s = Some ([], s)"
| "take_frames first mark (Suc n) s =
     do {
       f \<leftarrow> first s;
       (fs, s') \<leftarrow> take_frames first mark n (mark f s);
       Some (f # fs, s')
     }"

locale frame_bitmap =
  fixes test :: "u32 \<Rightarrow> 's \<Rightarrow> bool"
    and mark :: "u32 \<Rightarrow> 's \<Rightarrow> 's"
    and clear :: "u32 \<Rightarrow> 's \<Rightarrow> 's"
    and first :: "'s \<Rightarrow> u32 option"
    and limit :: "'s \<Rightarrow> nat"
  assumes test_mark: "test g (mark f s) \<longleftrightarrow> g = f \<or> test g s"
    and test_clear: "test g (clear f s) \<longleftrightarrow> g \<noteq> f \<and> test g s"
    and limit_mark: "limit (mark f s) = limit s"
    and first_free: "first s = Some f \<Longrightarrow> unat f < limit s \<and> \<not> test f s"
    and first_least: "first s = Some f \<Longrightarrow> g < f \<Longrightarrow> test g s"
    and first_full: "first s = None \<Longrightarrow> unat g < limit s \<Longrightarrow> test g s"
begin

text \<open>Frames taken one after the other are different, were free before and are in use afterwards; nothing
  else changes.\<close>

lemma take_frames_sound:
  "take_frames first mark n s = Some (fs, s') \<Longrightarrow>
   length fs = n \<and> distinct fs \<and> (\<forall>f \<in> set fs. \<not> test f s \<and> unat f < limit s) \<and>
   (\<forall>g. test g s' \<longleftrightarrow> g \<in> set fs \<or> test g s)"
proof (induction n arbitrary: s fs)
  case (Suc n)
  then obtain f fs' where f: "first s = Some f" "take_frames first mark n (mark f s) = Some (fs', s')" "fs = f # fs'"
    by (auto simp: bind_eq_Some_conv)
  from Suc.IH [OF f(2)] first_free [OF f(1)] show ?case
    unfolding f(3) test_mark limit_mark by auto
qed simp

text \<open>A search fails only when no frame below the limit is free, so \<open>n\<close> frames are found when there
  are \<open>n\<close>.\<close>

lemma take_frames_complete:
  "n \<le> card {f. unat f < limit s \<and> \<not> test f s} \<Longrightarrow> \<exists>fs s'. take_frames first mark n s = Some (fs, s')"
proof (induction n arbitrary: s)
  case (Suc n)
  have "first s \<noteq> None"
  proof
    assume none: "first s = None"
    have "{f. unat f < limit s \<and> \<not> test f s} = {}" using first_full [OF none] by auto
    then have "card {f. unat f < limit s \<and> \<not> test f s} = 0" by (simp only: card.empty)
    then show False using Suc.prems by linarith
  qed
  then obtain f where f: "first s = Some f" by auto
  have "{g. unat g < limit (mark f s) \<and> \<not> test g (mark f s)} = {g. unat g < limit s \<and> \<not> test g s} - {f}"
    by (auto simp: test_mark limit_mark)
  then have "card {g. unat g < limit (mark f s) \<and> \<not> test g (mark f s)} = card {g. unat g < limit s \<and> \<not> test g s} - 1"
    using first_free [OF f] by simp
  then have "n \<le> card {g. unat g < limit (mark f s) \<and> \<not> test g (mark f s)}" using Suc.prems by simp
  from Suc.IH [OF this] f show ?case by auto
qed simp

text \<open>Giving a frame back undoes taking it.\<close>

lemma clear_mark: "\<not> test f s \<Longrightarrow> test g (clear f (mark f s)) \<longleftrightarrow> test g s"
  by (auto simp: test_clear test_mark)

end

end
