(* ===== verification/Pmm.thy ===== *)
theory Pmm
  imports Frame_Bitmap
begin

text \<open>
  The physical memory manager, \<open>kernel/memory/pmm.c\<close>: a bitmap with one bit per page frame, set for
  a frame in use, and a count of the used frames.

  The lemmas show that the single-frame allocator is sound and complete (it interprets the contract
  \<open>frame_bitmap\<close>), that freeing undoes allocating, that the frames of the kernel image are never
  free after the initialisation, and what the allocator of several frames guarantees and what not.
\<close>

section \<open>The state and the operations\<close>

record pmm =
  memory_bitmap :: bitmap
  max_frames :: u32
  used_frames :: u32
  memory_size :: u32
  memory_bitmap_size :: u32

definition PMM_FRAMES_PER_BYTE :: u32 where
  "PMM_FRAMES_PER_BYTE = 8"

definition memory_bitmap_set :: "u32 \<Rightarrow> pmm \<Rightarrow> pmm" where
  "memory_bitmap_set frame s = s\<lparr>memory_bitmap := bm_set frame (memory_bitmap s)\<rparr>"

definition memory_bitmap_unset :: "u32 \<Rightarrow> pmm \<Rightarrow> pmm" where
  "memory_bitmap_unset frame s = s\<lparr>memory_bitmap := bm_unset frame (memory_bitmap s)\<rparr>"

definition memory_bitmap_test :: "u32 \<Rightarrow> pmm \<Rightarrow> bool" where
  "memory_bitmap_test frame s = bm_test frame (memory_bitmap s)"

definition memory_bitmap_first_free :: "pmm \<Rightarrow> u32 option" where
  "memory_bitmap_first_free s = bm_first_free (unat (max_frames s div 32)) (memory_bitmap s)"

definition memory_bitmap_first_frees :: "u32 \<Rightarrow> pmm \<Rightarrow> u32 option" where
  "memory_bitmap_first_frees sz s = bm_first_frees (unat (max_frames s div 32)) sz (memory_bitmap s)"

text \<open>\<open>memset(bitmap, 0xff, n)\<close> on the words of the bitmap.\<close>

definition memset_ff :: "nat \<Rightarrow> bitmap \<Rightarrow> bitmap" where
  "memset_ff n m =
     (\<lambda>i. if 4 * i + 4 \<le> n then 0xffffffff
          else if 4 * i < n then m i OR mask (8 * (n - 4 * i)) else m i)"

definition pmm_init_region :: "u32 \<Rightarrow> u32 \<Rightarrow> pmm \<Rightarrow> pmm" where
  "pmm_init_region addr len s =
     (let frame = addr div PMM_FRAME_SIZE; frames = div_ceil len PMM_FRAME_SIZE
      in memory_bitmap_set 0
           (fold (\<lambda>i s. let s1 = memory_bitmap_unset (frame + of_nat i) s
                        in s1\<lparr>used_frames := used_frames s1 - 1\<rparr>) [0..<unat frames] s))"

definition pmm_deinit_region :: "u32 \<Rightarrow> u32 \<Rightarrow> pmm \<Rightarrow> pmm" where
  "pmm_deinit_region addr len s =
     (let frame = addr div PMM_FRAME_SIZE; frames = div_ceil len PMM_FRAME_SIZE
      in fold (\<lambda>i s. let s1 = memory_bitmap_set (frame + of_nat i) s
                     in s1\<lparr>used_frames := used_frames s1 + 1\<rparr>) [0..<unat frames] s)"

text \<open>The memory map of the boot loader, as the list of its entries.\<close>

record mmap_entry =
  mmap_addr :: u64
  mmap_len :: u64
  mmap_type :: u32

fun pmm_regions :: "mmap_entry list \<Rightarrow> pmm \<Rightarrow> pmm" where
  "pmm_regions [] s = s"
| "pmm_regions (mmap # mmaps) s =
     (if 4 < mmap_type mmap \<and> mmap_addr mmap = 0 then s
      else pmm_regions mmaps
        (if mmap_type mmap = 1 then pmm_init_region (ucast (mmap_addr mmap)) (ucast (mmap_len mmap)) s else s))"

text \<open>The addresses of the kernel image come from the linker script.\<close>

definition pmm_init :: "u32 \<Rightarrow> u32 \<Rightarrow> u32 \<Rightarrow> u32 \<Rightarrow> u32 \<Rightarrow> mmap_entry list \<Rightarrow> pmm \<Rightarrow> pmm" where
  "pmm_init KERNEL_BOOT KERNEL_START KERNEL_END mem_lower mem_upper mmaps s =
     (let s1 = s\<lparr>memory_size := (mem_lower + mem_upper) * 1024\<rparr>;
          s2 = s1\<lparr>max_frames := div_ceil (memory_size s1) PMM_FRAME_SIZE,
                  used_frames := div_ceil (memory_size s1) PMM_FRAME_SIZE\<rparr>;
          s3 = s2\<lparr>memory_bitmap_size := div_ceil (max_frames s2) PMM_FRAMES_PER_BYTE\<rparr>;
          s4 = s3\<lparr>memory_bitmap := memset_ff (unat (memory_bitmap_size s3)) (memory_bitmap s3)\<rparr>;
          s5 = pmm_regions mmaps s4;
          s6 = pmm_deinit_region 0 KERNEL_BOOT s5
      in pmm_deinit_region KERNEL_BOOT (KERNEL_END - KERNEL_START + memory_bitmap_size s6) s6)"

definition pmm_alloc_block :: "pmm \<Rightarrow> u32 \<times> pmm" where
  "pmm_alloc_block s =
     (if max_frames s \<le> used_frames s then (0, s)
      else
        case memory_bitmap_first_free s of
          None \<Rightarrow> (0, s)
        | Some frame \<Rightarrow>
            let s1 = memory_bitmap_set frame s; s2 = s1\<lparr>used_frames := used_frames s1 + 1\<rparr>
            in (frame * PMM_FRAME_SIZE, s2))"

definition pmm_alloc_blocks :: "u32 \<Rightarrow> pmm \<Rightarrow> u32 \<times> pmm" where
  "pmm_alloc_blocks sz s =
     (if max_frames s - used_frames s < sz then (0, s)
      else
        case memory_bitmap_first_frees sz s of
          None \<Rightarrow> (0, s)
        | Some frame \<Rightarrow>
            (frame * PMM_FRAME_SIZE,
             fold (\<lambda>i s. let s1 = memory_bitmap_set (frame + of_nat i) s
                         in s1\<lparr>used_frames := used_frames s1 + 1\<rparr>) [0..<unat sz] s))"

definition pmm_free_block :: "u32 \<Rightarrow> pmm \<Rightarrow> pmm" where
  "pmm_free_block p s =
     (let frame = p div PMM_FRAME_SIZE; s1 = memory_bitmap_unset frame s
      in s1\<lparr>used_frames := used_frames s1 - 1\<rparr>)"

definition pmm_mark_used_addr :: "u32 \<Rightarrow> pmm \<Rightarrow> pmm" where
  "pmm_mark_used_addr paddr s =
     (let frame = paddr div PMM_FRAME_SIZE
      in if \<not> memory_bitmap_test frame s then
           let s1 = memory_bitmap_set frame s in s1\<lparr>used_frames := used_frames s1 + 1\<rparr>
         else s)"

definition get_total_frames :: "pmm \<Rightarrow> u32" where
  "get_total_frames s = max_frames s"

section \<open>The bitmap of the physical memory as a frame bitmap\<close>

definition pmm_limit :: "pmm \<Rightarrow> nat" where
  "pmm_limit s = unat (max_frames s div 32) * 32"

lemma memory_bitmap_simps [simp]:
  "max_frames (memory_bitmap_set f s) = max_frames s" "used_frames (memory_bitmap_set f s) = used_frames s"
  "max_frames (memory_bitmap_unset f s) = max_frames s" "used_frames (memory_bitmap_unset f s) = used_frames s"
  "memory_bitmap_test g (memory_bitmap_set f s) \<longleftrightarrow> g = f \<or> memory_bitmap_test g s"
  "memory_bitmap_test g (memory_bitmap_unset f s) \<longleftrightarrow> g \<noteq> f \<and> memory_bitmap_test g s"
  "memory_bitmap_test g (s\<lparr>used_frames := u\<rparr>) \<longleftrightarrow> memory_bitmap_test g s"
  by (simp_all add: memory_bitmap_set_def memory_bitmap_unset_def memory_bitmap_test_def bm_test_set bm_test_unset)

lemma words_bound: "unat (max_frames s div 32) \<le> 134217728"
  using u32_bound [of "max_frames s"] by (simp add: unat_div)

interpretation pm: frame_bitmap memory_bitmap_test memory_bitmap_set memory_bitmap_unset memory_bitmap_first_free pmm_limit
proof
  fix s :: pmm and f g :: u32
  assume f: "memory_bitmap_first_free s = Some f"
  then show "unat f < pmm_limit s \<and> \<not> memory_bitmap_test f s"
    using bm_first_free_Some [OF _ words_bound] unfolding memory_bitmap_first_free_def memory_bitmap_test_def pmm_limit_def
    by blast
  show "g < f \<Longrightarrow> memory_bitmap_test g s"
    using bm_first_free_Some [OF _ words_bound] f unfolding memory_bitmap_first_free_def memory_bitmap_test_def by blast
next
  fix s :: pmm and g :: u32
  assume "memory_bitmap_first_free s = None" "unat g < pmm_limit s"
  then show "memory_bitmap_test g s"
    using bm_first_free_None [OF _ words_bound] unfolding memory_bitmap_first_free_def memory_bitmap_test_def pmm_limit_def
    by blast
qed (simp_all add: pmm_limit_def)

section \<open>Regions\<close>

definition region_frames :: "u32 \<Rightarrow> u32 \<Rightarrow> u32 set" where
  "region_frames addr len =
     (\<lambda>i. addr div PMM_FRAME_SIZE + of_nat i) ` {0..<unat (div_ceil len PMM_FRAME_SIZE)}"

lemma fold_unset:
  "memory_bitmap_test g (fold (\<lambda>i s. (memory_bitmap_unset (frame + of_nat i) s)\<lparr>used_frames := used_frames s - 1\<rparr>) is s) \<longleftrightarrow>
     g \<notin> (\<lambda>i. frame + of_nat i) ` set is \<and> memory_bitmap_test g s"
  by (induction "is" arbitrary: s) auto

lemma fold_set:
  "memory_bitmap_test g (fold (\<lambda>i s. (memory_bitmap_set (frame + of_nat i) s)\<lparr>used_frames := used_frames s + 1\<rparr>) is s) \<longleftrightarrow>
     g \<in> (\<lambda>i. frame + of_nat i) ` set is \<or> memory_bitmap_test g s"
  by (induction "is" arbitrary: s) auto

lemma fold_set_frames:
  "max_frames (fold (\<lambda>i s. (memory_bitmap_set (frame + of_nat i) s)\<lparr>used_frames := used_frames s + 1\<rparr>) is s) = max_frames s"
  "used_frames (fold (\<lambda>i s. (memory_bitmap_set (frame + of_nat i) s)\<lparr>used_frames := used_frames s + 1\<rparr>) is s) =
     used_frames s + of_nat (length is)"
  by (induction "is" arbitrary: s) simp_all

lemma pmm_init_region_test:
  "memory_bitmap_test g (pmm_init_region addr len s) \<longleftrightarrow>
     g = 0 \<or> g \<notin> region_frames addr len \<and> memory_bitmap_test g s"
  by (simp add: pmm_init_region_def region_frames_def Let_def fold_unset)

lemma pmm_deinit_region_test:
  "memory_bitmap_test g (pmm_deinit_region addr len s) \<longleftrightarrow>
     g \<in> region_frames addr len \<or> memory_bitmap_test g s"
  by (simp add: pmm_deinit_region_def region_frames_def Let_def fold_set)

text \<open>A frame is freed by the memory map only when an available region covers it.\<close>

lemma pmm_regions_test:
  "\<not> memory_bitmap_test g (pmm_regions mmaps s) \<Longrightarrow> memory_bitmap_test g s \<Longrightarrow>
   g \<noteq> 0 \<and> (\<exists>e \<in> set mmaps. mmap_type e = 1 \<and> g \<in> region_frames (ucast (mmap_addr e)) (ucast (mmap_len e)))"
proof (induction mmaps arbitrary: s)
  case (Cons e es)
  show ?case
  proof (cases "4 < mmap_type e \<and> mmap_addr e = 0")
    case True
    then show ?thesis using Cons.prems by simp
  next
    case False
    let ?s = "if mmap_type e = 1 then pmm_init_region (ucast (mmap_addr e)) (ucast (mmap_len e)) s else s"
    have rest: "\<not> memory_bitmap_test g (pmm_regions es ?s)" using Cons.prems(1) False by auto
    show ?thesis
    proof (cases "memory_bitmap_test g ?s")
      case True
      from Cons.IH [OF rest True] show ?thesis by auto
    next
      case False
      then show ?thesis using Cons.prems(2) by (auto simp: pmm_init_region_test split: if_splits)
    qed
  qed
qed simp

lemma memset_ff_test:
  assumes "unat g < 8 * n"
  shows "bm_test g (memset_ff n m)"
proof -
  let ?i = "unat g div 32" and ?j = "unat g mod 32"
  have g: "unat g = 32 * ?i + ?j" "?j < 32" by simp_all
  show ?thesis
  proof (cases "4 * ?i + 4 \<le> n")
    case True
    then show ?thesis using bit_full_word [OF g(2)] by (simp add: bm_test_bit memset_ff_def)
  next
    case False
    have "?j < 8 * (n - 4 * ?i)" using assms g by linarith
    moreover have "4 * ?i < n" using assms g by linarith
    ultimately show ?thesis using False g(2) by (simp add: bm_test_bit memset_ff_def bit_simps)
  qed
qed

lemma pmm_regions_size: "memory_bitmap_size (pmm_regions mmaps s) = memory_bitmap_size s"
proof (induction mmaps arbitrary: s)
  case (Cons e es)
  have "memory_bitmap_size (fold (\<lambda>i s. (memory_bitmap_unset (fr + of_nat i) s)\<lparr>used_frames := used_frames s - 1\<rparr>) is s) =
      memory_bitmap_size s" for fr "is" s
    by (induction "is" arbitrary: s) (auto simp: memory_bitmap_unset_def)
  then have "memory_bitmap_size (pmm_init_region a l s) = memory_bitmap_size s" for a l s
    by (simp add: pmm_init_region_def memory_bitmap_set_def Let_def)
  then show ?case using Cons by simp
qed simp

lemma pmm_deinit_region_size: "memory_bitmap_size (pmm_deinit_region a l t) = memory_bitmap_size t"
proof -
  have "memory_bitmap_size (fold (\<lambda>i s. (memory_bitmap_set (fr + of_nat i) s)\<lparr>used_frames := used_frames s + 1\<rparr>) is t) =
      memory_bitmap_size t" for fr "is"
    by (induction "is" arbitrary: t) (auto simp: memory_bitmap_set_def)
  then show ?thesis by (simp add: pmm_deinit_region_def Let_def)
qed

lemma pmm_init_size:
  "memory_bitmap_size (pmm_init kb ks ke mem_lower mem_upper mmaps s) =
     div_ceil (div_ceil ((mem_lower + mem_upper) * 1024) PMM_FRAME_SIZE) PMM_FRAMES_PER_BYTE"
  by (simp add: pmm_init_def Let_def pmm_deinit_region_size pmm_regions_size)

section \<open>Allocation\<close>

text \<open>The frame number of an address below 4 GiB.\<close>

lemma frame_addr: "unat f < 1048576 \<Longrightarrow> f * PMM_FRAME_SIZE div PMM_FRAME_SIZE = f \<and> unat (f * PMM_FRAME_SIZE) = unat f * 4096"
proof -
  assume "unat f < 1048576"
  then have "unat (f * 4096) = unat f * 4096" by (subst unat_mult_lem [THEN iffD1]) simp_all
  then show ?thesis by (simp add: PMM_FRAME_SIZE_def word_unat_eq_iff unat_div)
qed

lemma pmm_limit_le: "max_frames s \<le> 1048576 \<Longrightarrow> pmm_limit s \<le> 1048576"
  by (simp add: pmm_limit_def word_le_nat_alt unat_div)

definition pmm_ok :: "pmm \<Rightarrow> bool" where
  "pmm_ok s \<longleftrightarrow> max_frames s \<le> 1048576 \<and> memory_bitmap_test 0 s"

lemma pmm_alloc_block_cases:
  assumes ok: "pmm_ok s" and alloc: "pmm_alloc_block s = (p, s')"
  shows "(p = 0 \<and> s' = s) \<or>
    (\<exists>f. memory_bitmap_first_free s = Some f \<and> p = f * PMM_FRAME_SIZE \<and> p div PMM_FRAME_SIZE = f \<and> p \<noteq> 0 \<and>
       unat p = unat f * 4096 \<and> s' = (memory_bitmap_set f s)\<lparr>used_frames := used_frames s + 1\<rparr>)"
proof (cases "max_frames s \<le> used_frames s \<or> memory_bitmap_first_free s = None")
  case True
  then show ?thesis using alloc by (auto simp: pmm_alloc_block_def split: if_splits)
next
  case False
  then obtain f where f: "memory_bitmap_first_free s = Some f" by auto
  have "unat f < 1048576"
    using pm.first_free [OF f] pmm_limit_le [of s] ok by (simp add: pmm_ok_def)
  note fa = frame_addr [OF this]
  have "f \<noteq> 0" using pm.first_free [OF f] ok by (auto simp: pmm_ok_def)
  then have "f * PMM_FRAME_SIZE \<noteq> 0" using fa by (metis div_word_self unat_0 unat_eq_zero mult_is_0 zero_neq_numeral)
  then show ?thesis using alloc False f fa by (auto simp: pmm_alloc_block_def Let_def)
qed

lemma pmm_ok_alloc: "pmm_ok s \<Longrightarrow> pmm_ok (snd (pmm_alloc_block s))"
  using pmm_alloc_block_cases [of s "fst (pmm_alloc_block s)" "snd (pmm_alloc_block s)"]
  by (auto simp: pmm_ok_def)

text \<open>Several calls of the allocator.\<close>

fun pmm_allocs :: "nat \<Rightarrow> pmm \<Rightarrow> u32 list \<times> pmm" where
  "pmm_allocs 0 s = ([], s)"
| "pmm_allocs (Suc n) s =
     (let (p, s1) = pmm_alloc_block s; (ps, s2) = pmm_allocs n s1 in (p # ps, s2))"

lemma pmm_allocs_used:
  assumes "pmm_ok s" and "memory_bitmap_test g s"
  shows "memory_bitmap_test g (snd (pmm_allocs n s)) \<and> (\<forall>p \<in> set (fst (pmm_allocs n s)). p \<noteq> 0 \<longrightarrow> p div PMM_FRAME_SIZE \<noteq> g)"
  using assms
proof (induction n arbitrary: s)
  case (Suc n)
  obtain p s1 where a: "pmm_alloc_block s = (p, s1)" by (cases "pmm_alloc_block s")
  from pmm_alloc_block_cases [OF Suc.prems(1) a]
  have "memory_bitmap_test g s1" and "p \<noteq> 0 \<longrightarrow> p div PMM_FRAME_SIZE \<noteq> g"
    using Suc.prems(2) pm.first_free [of s] by auto
  moreover have "pmm_ok s1" using pmm_ok_alloc [OF Suc.prems(1)] a by simp
  ultimately show ?case using Suc.IH [of s1] a by (auto simp: case_prod_beta Let_def)
qed simp

lemma pmm_allocs_distinct:
  assumes "pmm_ok s"
  shows "distinct (filter (\<lambda>p. p \<noteq> 0) (fst (pmm_allocs n s))) \<and>
         (\<forall>p \<in> set (fst (pmm_allocs n s)). p \<noteq> 0 \<longrightarrow> \<not> memory_bitmap_test (p div PMM_FRAME_SIZE) s)"
  using assms
proof (induction n arbitrary: s)
  case (Suc n)
  obtain p s1 where a: "pmm_alloc_block s = (p, s1)" by (cases "pmm_alloc_block s")
  have ok1: "pmm_ok s1" using pmm_ok_alloc [OF Suc.prems] a by simp
  note IH = Suc.IH [OF ok1]
  from pmm_alloc_block_cases [OF Suc.prems a] show ?case
  proof (elim disjE exE conjE)
    assume "p = 0" "s1 = s"
    then show ?thesis using IH a by (simp add: case_prod_beta Let_def)
  next
    fix f assume f: "memory_bitmap_first_free s = Some f" "p div PMM_FRAME_SIZE = f" "p \<noteq> 0"
      "s1 = (memory_bitmap_set f s)\<lparr>used_frames := used_frames s + 1\<rparr>"
    have "memory_bitmap_test f s1" using f(4) by simp
    from pmm_allocs_used [OF ok1 this, of n] have "p \<notin> set (filter (\<lambda>p. p \<noteq> 0) (fst (pmm_allocs n s1)))"
      using f(2) by auto
    then show ?thesis using IH a f pm.first_free [OF f(1)] by (auto simp: case_prod_beta Let_def)
  qed
qed simp

section \<open>The properties\<close>

definition pmm_example :: pmm where
  "pmm_example =
     \<lparr>memory_bitmap = (\<lambda>i. if i = 0 then 0b101 else 0), max_frames = 64, used_frames = 2, memory_size = 262144,
      memory_bitmap_size = 8\<rparr>"

lemma pmm_example_ok: "pmm_ok pmm_example"
  by (simp add: pmm_ok_def pmm_example_def memory_bitmap_test_def bm_test_def)

text \<open>C34: \<open>pmm_alloc_block\<close> returns 0 and changes nothing, or the address of a page frame that was free:
  page aligned, below the searched limit, the smallest free frame; it marks exactly this frame as used
  and counts it. It fails only when the count says that all frames are used or when no frame of the
  searched words is free. Giving the block back with \<open>pmm_free_block\<close> restores the bitmap and the
  count.\<close>

theorem pmm_alloc_block_correct:
  assumes "pmm_ok s" and "pmm_alloc_block s = (p, s')"
  shows "if p = 0 then s' = s \<and> (max_frames s \<le> used_frames s \<or> (\<forall>g. unat g < pmm_limit s \<longrightarrow> memory_bitmap_test g s))
         else 4096 dvd unat p \<and> \<not> memory_bitmap_test (p div PMM_FRAME_SIZE) s \<and> unat (p div PMM_FRAME_SIZE) < pmm_limit s \<and>
           (\<forall>g. g < p div PMM_FRAME_SIZE \<longrightarrow> memory_bitmap_test g s) \<and>
           (\<forall>g. memory_bitmap_test g s' \<longleftrightarrow> g = p div PMM_FRAME_SIZE \<or> memory_bitmap_test g s) \<and>
           used_frames s' = used_frames s + 1 \<and>
           (\<forall>g. memory_bitmap_test g (pmm_free_block p s') \<longleftrightarrow> memory_bitmap_test g s) \<and>
           used_frames (pmm_free_block p s') = used_frames s"
proof (cases "p = 0")
  case True
  have "max_frames s \<le> used_frames s \<or> memory_bitmap_first_free s = None"
  proof (rule ccontr)
    assume nt: "\<not> ?thesis"
    then obtain f where f: "memory_bitmap_first_free s = Some f" by auto
    then have "p = f * PMM_FRAME_SIZE" and "f \<noteq> 0" and "unat f < 1048576"
      using nt assms(2) pm.first_free [OF f] assms(1) pmm_limit_le [of s]
      by (auto simp: pmm_alloc_block_def Let_def pmm_ok_def)
    then show False using frame_addr [of f] True by auto
  qed
  then show ?thesis
    using pmm_alloc_block_cases [OF assms] True pm.first_full [of s] by auto
next
  case False
  then obtain f where f: "memory_bitmap_first_free s = Some f" "p div PMM_FRAME_SIZE = f" "unat p = unat f * 4096"
      "s' = (memory_bitmap_set f s)\<lparr>used_frames := used_frames s + 1\<rparr>"
    using pmm_alloc_block_cases [OF assms] by auto
  then show ?thesis
    using False pm.first_free [OF f(1)] pm.first_least [OF f(1)] by (auto simp: pmm_free_block_def Let_def)
qed

theorem pmm_alloc_block_correct_witness:
  "fst (pmm_alloc_block pmm_example) = 4096 \<and> \<not> memory_bitmap_test 1 pmm_example \<and>
   memory_bitmap_test 1 (snd (pmm_alloc_block pmm_example))"
proof -
  have p: "fst (pmm_alloc_block pmm_example) = 4096"
    by code_simp
  then have "pmm_alloc_block pmm_example = (4096, snd (pmm_alloc_block pmm_example))" by (metis prod.collapse)
  from pmm_alloc_block_correct [OF pmm_example_ok this] p show ?thesis
    by (simp add: PMM_FRAME_SIZE_def)
qed

text \<open>C35: The addresses that any number of calls of \<open>pmm_alloc_block\<close> return, failures apart, are pairwise
  different, and none of them is the address of a frame that was in use.\<close>

theorem pmm_allocs_disjoint:
  assumes "pmm_ok s"
  shows "distinct (filter (\<lambda>p. p \<noteq> 0) (fst (pmm_allocs n s))) \<and>
         (\<forall>p \<in> set (fst (pmm_allocs n s)). p \<noteq> 0 \<longrightarrow> \<not> memory_bitmap_test (p div PMM_FRAME_SIZE) s)"
  by (rule pmm_allocs_distinct [OF assms])

theorem pmm_allocs_disjoint_witness:
  "fst (pmm_allocs 2 pmm_example) = [4096, 12288] \<and> distinct (filter (\<lambda>p. p \<noteq> 0) (fst (pmm_allocs 2 pmm_example)))"
proof
  show "fst (pmm_allocs 2 pmm_example) = [4096, 12288]" by code_simp
  show "distinct (filter (\<lambda>p. p \<noteq> 0) (fst (pmm_allocs 2 pmm_example)))"
    using pmm_allocs_disjoint [OF pmm_example_ok] by blast
qed

text \<open>\<open>pmm_alloc_blocks\<close> returns 0 and changes nothing, or marks exactly the \<open>sz\<close> consecutive frames
  from the returned address on and counts them. The first of them was free and at most one of the
  others was in use; none was in use when the frame behind the range is.\<close>

theorem pmm_alloc_blocks_range:
  assumes "pmm_alloc_blocks sz s = (p, s')"
  shows "p = 0 \<and> s' = s \<or>
    (\<exists>f. p = f * PMM_FRAME_SIZE \<and> unat f < pmm_limit s \<and> \<not> memory_bitmap_test f s \<and>
       (\<forall>g. memory_bitmap_test g s' \<longleftrightarrow> (\<exists>k < unat sz. g = f + of_nat k) \<or> memory_bitmap_test g s) \<and>
       used_frames s' = used_frames s + sz \<and>
       length (filter (\<lambda>k. memory_bitmap_test (f + of_nat k) s) [0..<unat sz]) \<le> 1 \<and>
       (memory_bitmap_test (f + sz) s \<longrightarrow> (\<forall>k < unat sz. \<not> memory_bitmap_test (f + of_nat k) s)))"
proof (cases "max_frames s - used_frames s < sz \<or> memory_bitmap_first_frees sz s = None")
  case True
  then show ?thesis using assms by (auto simp: pmm_alloc_blocks_def split: if_splits)
next
  case False
  then obtain f where f: "memory_bitmap_first_frees sz s = Some f" by auto
  then have res: "p = f * PMM_FRAME_SIZE"
    "s' = fold (\<lambda>i s. (memory_bitmap_set (f + of_nat i) s)\<lparr>used_frames := used_frames s + 1\<rparr>) [0..<unat sz] s"
    using assms False by (auto simp: pmm_alloc_blocks_def Let_def)
  have found: "bm_first_frees (unat (max_frames s div 32)) sz (memory_bitmap s) = Some f"
    using f by (simp add: memory_bitmap_first_frees_def)
  have "\<forall>g. memory_bitmap_test g s' \<longleftrightarrow> (\<exists>k < unat sz. g = f + of_nat k) \<or> memory_bitmap_test g s"
    unfolding res(2) fold_set by auto
  moreover have "used_frames s' = used_frames s + sz"
    unfolding res(2) fold_set_frames by simp
  moreover have "unat f < pmm_limit s" "\<not> memory_bitmap_test f s"
    using bm_first_frees_Some [OF found words_bound] by (simp_all add: pmm_limit_def memory_bitmap_test_def)
  ultimately show ?thesis
    using res(1) bm_first_frees_used [OF found words_bound] by (auto simp: memory_bitmap_test_def)
qed

theorem pmm_alloc_blocks_range_witness:
  "\<exists>s'. pmm_alloc_blocks 2 pmm_example = (4096, s') \<and> (\<forall>g \<in> {1, 2}. memory_bitmap_test g s') \<and> used_frames s' = 4"
proof -
  have p: "fst (pmm_alloc_blocks 2 pmm_example) = 4096" by code_simp
  have "(\<forall>g \<in> {1, 2}. memory_bitmap_test g (snd (pmm_alloc_blocks 2 pmm_example)))" by code_simp
  moreover have a: "pmm_alloc_blocks 2 pmm_example = (4096, snd (pmm_alloc_blocks 2 pmm_example))"
    using p by (metis prod.collapse)
  moreover from pmm_alloc_blocks_range [OF a] have "used_frames (snd (pmm_alloc_blocks 2 pmm_example)) = 4"
    by (auto simp: pmm_example_def)
  ultimately show ?thesis by blast
qed

text \<open>The range may contain a frame in use: with the frames 0 and 2 in use, a request for two frames is
  answered with the frames 1 and 2.\<close>

lemma pmm_alloc_blocks_overlap:
  "memory_bitmap_test 2 pmm_example \<and> memory_bitmap_first_frees 2 pmm_example = Some 1"
  by code_simp

text \<open>After \<open>pmm_init\<close> the frames below the kernel and the frames of the kernel image and of the bitmap
  are in use, whatever the memory map of the boot loader says, and every frame of the managed memory
  that is free lies in an available region of that map and is not frame 0.\<close>

theorem pmm_init_reserves_kernel:
  assumes "s' = pmm_init KERNEL_BOOT KERNEL_START KERNEL_END mem_lower mem_upper mmaps s"
  shows "(\<forall>g \<in> region_frames 0 KERNEL_BOOT. memory_bitmap_test g s') \<and>
    (\<forall>g \<in> region_frames KERNEL_BOOT (KERNEL_END - KERNEL_START + memory_bitmap_size s'). memory_bitmap_test g s') \<and>
    (\<forall>g. unat g < 8 * unat (memory_bitmap_size s') \<longrightarrow> \<not> memory_bitmap_test g s' \<longrightarrow>
       g \<noteq> 0 \<and> (\<exists>e \<in> set mmaps. mmap_type e = 1 \<and> g \<in> region_frames (ucast (mmap_addr e)) (ucast (mmap_len e))))"
proof -
  let ?fs = "div_ceil ((mem_lower + mem_upper) * 1024) PMM_FRAME_SIZE"
  let ?bs = "div_ceil ?fs PMM_FRAMES_PER_BYTE"
  let ?s4 = "s\<lparr>memory_size := (mem_lower + mem_upper) * 1024, max_frames := ?fs, used_frames := ?fs,
      memory_bitmap_size := ?bs, memory_bitmap := memset_ff (unat ?bs) (memory_bitmap s)\<rparr>"
  let ?s5 = "pmm_regions mmaps ?s4" and ?len = "KERNEL_END - KERNEL_START + ?bs"
  have s': "s' = pmm_deinit_region KERNEL_BOOT ?len (pmm_deinit_region 0 KERNEL_BOOT ?s5)"
    using assms by (simp add: pmm_init_def Let_def pmm_deinit_region_size pmm_regions_size)
  have size': "memory_bitmap_size s' = ?bs" unfolding assms by (rule pmm_init_size)
  have "memory_bitmap_test g ?s4" if "unat g < 8 * unat ?bs" for g
    using memset_ff_test [OF that] by (simp add: memory_bitmap_test_def)
  with pmm_regions_test show ?thesis
    unfolding size' unfolding s' by (auto simp: pmm_deinit_region_test)
qed

theorem pmm_init_reserves_kernel_witness:
  "memory_bitmap_test 257 (pmm_init 0x100000 0xC0100000 0xC0101000 640 4096
     [\<lparr>mmap_addr = 0x100000, mmap_len = 0x400000, mmap_type = 1\<rparr>] pmm_example)"
proof -
  let ?s = "pmm_init 0x100000 0xC0100000 0xC0101000 640 4096
     [\<lparr>mmap_addr = 0x100000, mmap_len = 0x400000, mmap_type = 1\<rparr>] pmm_example"
  have "memory_bitmap_size ?s = 148" unfolding pmm_init_size by code_simp
  moreover have "257 \<in> region_frames 0x100000 (0xC0101000 - 0xC0100000 + 148)" by code_simp
  ultimately show ?thesis
    using pmm_init_reserves_kernel [OF refl] by metis
qed

end
