(* ===== verification/Vmm.thy ===== *)
theory Vmm
  imports Pmm
begin

text \<open>
  The virtual memory manager, \<open>kernel/memory/vmm.c\<close>, on a model of the i386 paging unit.

  The physical memory is a map from the addresses of words to words. An access to a virtual address
  walks the page directory at \<open>cr3\<close> and a page table, as the processor does; the kernel reaches its
  own page tables through the last entry of the directory, which points to the directory itself, and
  the model of its operations makes the same accesses. The lemmas show what this trick relies on:
  with the directory entry in place, \<open>vmm_map_address\<close> makes the processor translate the page to the
  frame and leaves every other translation alone, and \<open>vmm_unmap_address\<close> takes the translation away.
  There are no access rights and no translation buffer in the model; every change of an entry in the
  code is followed by the flush of the buffer's entry.
\<close>

section \<open>The paging unit\<close>

record vmm =
  pmem :: "u32 \<Rightarrow> u32"
  pdbr :: u32
  vmm_pmm :: pmm

definition get_page_directory_index :: "u32 \<Rightarrow> u32" where
  "get_page_directory_index x = drop_bit 22 x AND 0x3ff"

definition get_page_table_entry_index :: "u32 \<Rightarrow> u32" where
  "get_page_table_entry_index x = drop_bit 12 x AND 0x3ff"

definition is_page_enabled :: "u32 \<Rightarrow> bool" where
  "is_page_enabled x \<longleftrightarrow> x AND 0x1 \<noteq> 0"

text \<open>The frame an entry points to, and the two steps of the translation.\<close>

definition entry_frame :: "u32 \<Rightarrow> u32" where
  "entry_frame e = e AND 0xfffff000"

definition mmu_entry :: "vmm \<Rightarrow> u32 \<Rightarrow> u32 option" where
  "mmu_entry m v =
     (let pde = pmem m (pdbr m + 4 * get_page_directory_index v)
      in if is_page_enabled pde then Some (entry_frame pde + 4 * get_page_table_entry_index v) else None)"

definition mmu_translate :: "vmm \<Rightarrow> u32 \<Rightarrow> u32 option" where
  "mmu_translate m v =
     do {
       pa \<leftarrow> mmu_entry m v;
       (if is_page_enabled (pmem m pa) then Some (entry_frame (pmem m pa) + (v AND 0xfff)) else None)
     }"

text \<open>Accesses of the kernel; \<open>None\<close> is a page fault.\<close>

definition vread :: "u32 \<Rightarrow> vmm \<Rightarrow> u32 option" where
  "vread v m = map_option (pmem m) (mmu_translate m v)"

definition vwrite :: "u32 \<Rightarrow> u32 \<Rightarrow> vmm \<Rightarrow> vmm option" where
  "vwrite v x m = map_option (\<lambda>p. m\<lparr>pmem := (pmem m)(p := x)\<rparr>) (mmu_translate m v)"

section \<open>The operations\<close>

definition PAGE_TABLE_BASE :: u32 where
  "PAGE_TABLE_BASE = 0xFFC00000"

definition I86_PTE_PRESENT :: u32 where "I86_PTE_PRESENT = 1"

definition I86_PTE_WRITABLE :: u32 where "I86_PTE_WRITABLE = 2"

definition I86_PTE_USER :: u32 where "I86_PTE_USER = 4"

definition I86_PTE_FRAME :: u32 where "I86_PTE_FRAME = 0x7FFFF000"

definition pt_entry_add_attrib :: "u32 \<Rightarrow> u32 \<Rightarrow> u32" where
  "pt_entry_add_attrib e attr = e OR attr"

definition pt_entry_set_frame :: "u32 \<Rightarrow> u32 \<Rightarrow> u32" where
  "pt_entry_set_frame e addr = (e AND NOT I86_PTE_FRAME) OR addr"

text \<open>The word of the window that shows the entry of the page \<open>virt\<close>.\<close>

definition table_slot :: "u32 \<Rightarrow> u32" where
  "table_slot virt =
     PAGE_TABLE_BASE + get_page_directory_index virt * PMM_FRAME_SIZE + 4 * get_page_table_entry_index virt"

definition vmm_get_physical_address :: "u32 \<Rightarrow> bool \<Rightarrow> vmm \<Rightarrow> u32 option" where
  "vmm_get_physical_address vaddr is_page m =
     do {
       paddr \<leftarrow> vread (table_slot vaddr) m;
       Some (if is_page then paddr else (paddr AND NOT 0xfff) OR (vaddr AND 0xfff))
     }"

text \<open>\<open>memset(table, 0, sizeof(struct ptable))\<close>, word by word.\<close>

fun clear_words :: "u32 \<Rightarrow> nat \<Rightarrow> vmm \<Rightarrow> vmm option" where
  "clear_words v 0 m = Some m"
| "clear_words v (Suc n) m = Option.bind (vwrite v 0 m) (clear_words (v + 4) n)"

definition vmm_create_page_table :: "u32 \<Rightarrow> u32 \<Rightarrow> u32 \<Rightarrow> vmm \<Rightarrow> vmm option" where
  "vmm_create_page_table va_dir virt flags m =
     do {
       pde \<leftarrow> vread (va_dir + 4 * get_page_directory_index virt) m;
       (if is_page_enabled pde then Some m
        else
          do {
            let (pa_table, pm) = pmm_alloc_block (vmm_pmm m);
            m1 \<leftarrow> vwrite (va_dir + 4 * get_page_directory_index virt) (pa_table OR flags) (m\<lparr>vmm_pmm := pm\<rparr>);
            clear_words (PAGE_TABLE_BASE + get_page_directory_index virt * PMM_FRAME_SIZE) 1024 m1
          })
     }"

definition vmm_map_address :: "u32 \<Rightarrow> u32 \<Rightarrow> u32 \<Rightarrow> u32 \<Rightarrow> vmm \<Rightarrow> vmm option" where
  "vmm_map_address va_dir virt phys flags m =
     do {
       pde \<leftarrow> vread (va_dir + 4 * get_page_directory_index virt) m;
       m1 \<leftarrow> (if \<not> is_page_enabled pde then vmm_create_page_table va_dir virt flags m else Some m);
       vwrite (table_slot virt) (phys OR flags) m1
     }"

definition vmm_unmap_address :: "u32 \<Rightarrow> u32 \<Rightarrow> vmm \<Rightarrow> vmm option" where
  "vmm_unmap_address va_dir virt m =
     do {
       pde \<leftarrow> vread (va_dir + 4 * get_page_directory_index virt) m;
       (if \<not> is_page_enabled pde then Some m
        else
          do {
            pte \<leftarrow> vread (table_slot virt) m;
            (if \<not> is_page_enabled pte then Some m else vwrite (table_slot virt) 0 m)
          })
     }"

text \<open>The loop over the pages of a range; a failed assertion does not return.\<close>

partial_function (option) unmap_loop :: "u32 \<Rightarrow> u32 \<Rightarrow> u32 \<Rightarrow> vmm \<Rightarrow> vmm option" where
  "unmap_loop va_dir addr vm_end m =
     (if addr < vm_end
      then Option.bind (vmm_unmap_address va_dir addr m) (unmap_loop va_dir (addr + PMM_FRAME_SIZE) vm_end)
      else Some m)"

definition vmm_unmap_range :: "u32 \<Rightarrow> u32 \<Rightarrow> u32 \<Rightarrow> vmm \<Rightarrow> vmm option" where
  "vmm_unmap_range va_dir vm_start vm_end m =
     (if PAGE_ALIGN vm_start \<noteq> vm_start \<or> PAGE_ALIGN vm_end \<noteq> vm_end then None
      else unmap_loop va_dir vm_start vm_end m)"

section \<open>Addresses\<close>

lemma unat_pd_index: "unat (get_page_directory_index v) = unat v div 4194304"
proof -
  have "unat (drop_bit 22 v AND mask 10) = unat v div 4194304 mod 1024"
    by (simp add: unsigned_drop_bit_eq take_bit_eq_mask [symmetric] unsigned_take_bit_eq drop_bit_eq_div take_bit_eq_mod
        unat_mod_distrib unat_div_distrib)
  moreover have "unat v div 4194304 < 1024" using u32_bound [of v] by simp
  ultimately show ?thesis by (simp add: get_page_directory_index_def mask_eq_exp_minus_1)
qed

lemma unat_pt_index: "unat (get_page_table_entry_index v) = unat v div 4096 mod 1024"
proof -
  have "unat (drop_bit 12 v AND mask 10) = unat v div 4096 mod 1024"
    by (simp add: unsigned_drop_bit_eq take_bit_eq_mask [symmetric] unsigned_take_bit_eq drop_bit_eq_div take_bit_eq_mod
        unat_mod_distrib unat_div_distrib)
  then show ?thesis by (simp add: get_page_table_entry_index_def mask_eq_exp_minus_1)
qed

lemma unat_offset: "unat (v AND 0xfff :: u32) = unat v mod 4096"
proof -
  have "unat (v AND mask 12) = unat v mod 4096"
    by (simp add: take_bit_eq_mask [symmetric] unsigned_take_bit_eq take_bit_eq_mod unat_mod_distrib)
  then show ?thesis by (simp add: mask_eq_exp_minus_1)
qed

lemma unat_entry_frame: "unat (entry_frame e) = unat e div 4096 * 4096"
proof -
  have "(0xfffff000 :: u32) = - (2 ^ 12)" by simp
  then have "entry_frame e = e AND (- (2 ^ 12))" by (simp only: entry_frame_def)
  then show ?thesis using unat_and_minus_power [of 12 e] by simp
qed

lemma pd_index_less: "unat (get_page_directory_index v) < 1024"
  using u32_bound [of v] by (simp add: unat_pd_index)

lemma pt_index_less: "unat (get_page_table_entry_index v) < 1024"
  by (simp add: unat_pt_index)

lemma unat_pd_index_page: "unat (get_page_directory_index v) = unat v div 4096 div 1024"
  by (simp add: unat_pd_index flip: div_mult2_eq)

text \<open>The words of a page frame.\<close>

lemma unat_frame_slot:
  assumes "unat (a :: u32) mod 4096 = 0" and "unat i < 1024"
  shows "unat (a + 4 * i) = unat a + 4 * unat i"
proof -
  obtain k where "unat a = 4096 * k" using assms(1) by (auto simp: mod_eq_0_iff_dvd elim: dvdE)
  then have "unat a \<le> 4294963200" using u32_bound [of a] by simp
  moreover have "unat (4 * i) = 4 * unat i" using assms(2) by (subst unat_mult_lem [THEN iffD1]) simp_all
  ultimately show ?thesis using assms(2) by (subst unat_plus_if') simp
qed

lemma frame_slot_inj:
  assumes "unat (a :: u32) mod 4096 = 0" "unat b mod 4096 = 0" "unat i < 1024" "unat j < 1024"
  shows "a + 4 * i = b + 4 * j \<longleftrightarrow> a = b \<and> i = j"
proof
  assume "a + 4 * i = b + 4 * j"
  then have eq: "unat a + 4 * unat i = unat b + 4 * unat j"
    using unat_frame_slot [OF assms(1,3)] unat_frame_slot [OF assms(2,4)] by simp
  obtain k l where kl: "unat a = 4096 * k" "unat b = 4096 * l"
    using assms(1,2) by (auto simp: mod_eq_0_iff_dvd elim!: dvdE)
  with eq have "unat i + 1024 * k = unat j + 1024 * l" by simp
  then have "(unat i + 1024 * k) div 1024 = (unat j + 1024 * l) div 1024" by simp
  then have "k = l" using assms(3,4) by simp
  with eq kl show "a = b \<and> i = j" by (simp add: word_unat_eq_iff)
qed simp

lemma entry_frame_aligned: "unat (entry_frame e) mod 4096 = 0"
  by (simp add: unat_entry_frame)

text \<open>The window onto the page tables.\<close>

lemma unat_table_slot:
  "unat (table_slot v) = 4290772992 + unat (get_page_directory_index v) * 4096 + 4 * unat (get_page_table_entry_index v)"
proof -
  let ?d = "get_page_directory_index v" and ?t = "get_page_table_entry_index v"
  have d: "unat (?d * 4096) = unat ?d * 4096"
    using pd_index_less [of v] by (subst unat_mult_lem [THEN iffD1]) simp_all
  have t: "unat (4 * ?t) = 4 * unat ?t"
    using pt_index_less [of v] by (subst unat_mult_lem [THEN iffD1]) simp_all
  have dt: "unat (PAGE_TABLE_BASE + ?d * 4096) = 4290772992 + unat ?d * 4096"
    using pd_index_less [of v] by (subst unat_plus_if') (simp add: d PAGE_TABLE_BASE_def)
  then show ?thesis
    using pd_index_less [of v] pt_index_less [of v]
    unfolding table_slot_def PMM_FRAME_SIZE_def by (subst unat_plus_if') (simp add: dt t)
qed

lemma table_slot_index:
  "unat (get_page_directory_index (table_slot v)) = 1023"
  "get_page_table_entry_index (table_slot v) = get_page_directory_index v"
  "table_slot v AND 0xfff = 4 * get_page_table_entry_index v"
proof -
  have b: "unat (get_page_directory_index v) < 1024" "unat (get_page_table_entry_index v) < 1024"
    by (rule pd_index_less pt_index_less)+
  have t: "unat (4 * get_page_table_entry_index v) = 4 * unat (get_page_table_entry_index v)"
    using b(2) by (subst unat_mult_lem [THEN iffD1]) simp_all
  have u: "unat (table_slot v) = 4 * unat (get_page_table_entry_index v) + (1047552 + unat (get_page_directory_index v)) * 4096"
    by (simp add: unat_table_slot)
  have page: "unat (table_slot v) div 4096 = 1047552 + unat (get_page_directory_index v)"
    using b(2) unfolding u by (subst div_mult_self1) simp_all
  have page2: "1047552 + unat (get_page_directory_index v) = unat (get_page_directory_index v) + 1023 * 1024"
    by simp
  show "unat (get_page_directory_index (table_slot v)) = 1023"
    using b(1) unfolding unat_pd_index_page [of "table_slot v"] page page2 by (subst div_mult_self1) simp_all
  show "get_page_table_entry_index (table_slot v) = get_page_directory_index v"
    using b(1) unfolding word_unat_eq_iff unat_pt_index [of "table_slot v"] page page2 by (subst mod_mult_self1) simp_all
  show "table_slot v AND 0xfff = 4 * get_page_table_entry_index v"
    using b(2) unfolding word_unat_eq_iff unat_offset u t by (subst mod_mult_self1) simp_all
qed

section \<open>The recursive page directory\<close>

abbreviation dir_entry :: "vmm \<Rightarrow> u32 \<Rightarrow> u32" where
  "dir_entry m d \<equiv> pmem m (pdbr m + 4 * d)"

definition recursive_dir :: "vmm \<Rightarrow> bool" where
  "recursive_dir m \<longleftrightarrow> is_page_enabled (dir_entry m 1023) \<and> entry_frame (dir_entry m 1023) = pdbr m"

lemma pd_index_1023: "unat d = 1023 \<Longrightarrow> d = (1023 :: u32)"
  by (simp add: word_unat_eq_iff)

text \<open>The word of the window that belongs to a page is its page table entry.\<close>

lemma table_slot_translate:
  assumes "recursive_dir m"
  shows "mmu_translate m (table_slot v) = mmu_entry m v"
proof -
  have "mmu_entry m (table_slot v) = Some (pdbr m + 4 * get_page_directory_index v)"
    using assms pd_index_1023 [OF table_slot_index(1) [of v]]
    by (simp add: mmu_entry_def recursive_dir_def table_slot_index(2))
  then show ?thesis
    by (simp add: mmu_translate_def mmu_entry_def [of m v] table_slot_index(3))
qed

text \<open>The tables are in frames of their own.\<close>

definition paging_ok :: "vmm \<Rightarrow> bool" where
  "paging_ok m \<longleftrightarrow>
     recursive_dir m \<and>
     (\<forall>d. unat d < 1023 \<longrightarrow> is_page_enabled (dir_entry m d) \<longrightarrow> entry_frame (dir_entry m d) \<noteq> pdbr m) \<and>
     (\<forall>d d'. unat d < 1023 \<longrightarrow> unat d' < 1023 \<longrightarrow> is_page_enabled (dir_entry m d) \<longrightarrow> is_page_enabled (dir_entry m d') \<longrightarrow>
        entry_frame (dir_entry m d) = entry_frame (dir_entry m d') \<longrightarrow> d = d')"

lemma paging_aligned: "paging_ok m \<Longrightarrow> unat (pdbr m) mod 4096 = 0"
  using entry_frame_aligned [of "dir_entry m 1023"] by (auto simp: paging_ok_def recursive_dir_def)

lemma paging_recursive: "paging_ok m \<Longrightarrow> entry_frame (dir_entry m 1023) = pdbr m \<and> is_page_enabled (dir_entry m 1023)"
  by (simp add: paging_ok_def recursive_dir_def)

lemma paging_table: "paging_ok m \<Longrightarrow> unat d < 1023 \<Longrightarrow> is_page_enabled (dir_entry m d) \<Longrightarrow> entry_frame (dir_entry m d) \<noteq> pdbr m"
  by (simp add: paging_ok_def)

lemma mmu_entry_cong:
  assumes "pdbr m' = pdbr m" and "dir_entry m' (get_page_directory_index v) = dir_entry m (get_page_directory_index v)"
  shows "mmu_entry m' v = mmu_entry m v"
  using assms by (simp add: mmu_entry_def)

text \<open>Two pages whose entries are at the same address are the same page.\<close>

lemma same_page:
  "get_page_directory_index v = get_page_directory_index w \<Longrightarrow> get_page_table_entry_index v = get_page_table_entry_index w \<Longrightarrow>
   v AND 0xfffff000 = w AND 0xfffff000"
proof -
  assume a: "get_page_directory_index v = get_page_directory_index w" "get_page_table_entry_index v = get_page_table_entry_index w"
  then have "unat v div 4096 div 1024 = unat w div 4096 div 1024" "unat v div 4096 mod 1024 = unat w div 4096 mod 1024"
    by (simp_all flip: unat_pd_index_page unat_pt_index)
  then have "unat v div 4096 = unat w div 4096" by (metis div_mult_mod_eq)
  then show ?thesis
    using unat_entry_frame [of v] unat_entry_frame [of w] by (simp add: word_unat_eq_iff entry_frame_def)
qed

lemma same_page_index:
  assumes "v AND 0xfffff000 = w AND (0xfffff000 :: u32)"
  shows "get_page_directory_index v = get_page_directory_index w" "get_page_table_entry_index v = get_page_table_entry_index w"
proof -
  have "unat v div 4096 * 4096 = unat w div 4096 * 4096"
    using assms unat_entry_frame [of v] unat_entry_frame [of w] by (simp add: entry_frame_def)
  then have "unat v div 4096 = unat w div 4096" by simp
  then show "get_page_directory_index v = get_page_directory_index w" "get_page_table_entry_index v = get_page_table_entry_index w"
    by (simp_all add: word_unat_eq_iff unat_pd_index_page unat_pt_index)
qed

section \<open>Writing a page table entry\<close>

abbreviation page_of :: "u32 \<Rightarrow> u32" where
  "page_of v \<equiv> v AND 0xfffff000"

abbreviation user_dir :: "u32 \<Rightarrow> bool" where
  "user_dir v \<equiv> unat (get_page_directory_index v) < 1023"

lemma dir_index_cases: "user_dir v \<or> get_page_directory_index v = 1023"
  using pd_index_less [of v] pd_index_1023 [of "get_page_directory_index v"] by linarith

text \<open>The directory is not touched by a write to a page table.\<close>

lemma table_write_dir:
  assumes ok: "paging_ok m" and u: "unat d0 < 1023" and en: "is_page_enabled (dir_entry m d0)"
    and t: "unat t < 1024" and d: "unat d < 1024"
  shows "pmem (m\<lparr>pmem := (pmem m)(entry_frame (dir_entry m d0) + 4 * t := x)\<rparr>) (pdbr m + 4 * d) = dir_entry m d"
proof -
  have "pdbr m + 4 * d \<noteq> entry_frame (dir_entry m d0) + 4 * t"
    using frame_slot_inj [OF paging_aligned [OF ok] entry_frame_aligned d t, of "dir_entry m d0"]
      paging_table [OF ok u en] by metis
  then show ?thesis by simp
qed

lemma paging_ok_cong:
  assumes "paging_ok m" and "pdbr m' = pdbr m" and "\<And>d. unat d < 1024 \<Longrightarrow> dir_entry m' d = dir_entry m d"
  shows "paging_ok m'"
proof -
  have "dir_entry m' 1023 = dir_entry m 1023" by (rule assms(3)) simp
  moreover have "\<And>d. unat d < 1023 \<Longrightarrow> dir_entry m' d = dir_entry m d" by (rule assms(3)) simp
  ultimately show ?thesis using assms(1,2) by (simp add: paging_ok_def recursive_dir_def)
qed

lemma table_write:
  fixes x :: u32
  assumes ok: "paging_ok m" and u: "unat d0 < 1023" and en: "is_page_enabled (dir_entry m d0)" and t: "unat t < 1024"
  defines "m' \<equiv> m\<lparr>pmem := (pmem m)(entry_frame (dir_entry m d0) + 4 * t := x)\<rparr>"
  shows "paging_ok m'"
    and "\<And>v. get_page_directory_index v = d0 \<Longrightarrow> get_page_table_entry_index v = t \<Longrightarrow>
        mmu_translate m' v = (if is_page_enabled x then Some (entry_frame x + (v AND 0xfff)) else None)"
    and "\<And>v. get_page_directory_index v \<noteq> d0 \<or> get_page_table_entry_index v \<noteq> t \<Longrightarrow> mmu_translate m' v = mmu_translate m v"
proof -
  have dir: "dir_entry m' d = dir_entry m d" if "unat d < 1024" for d
    using table_write_dir [OF ok u en t that, of x] by (simp add: m'_def)
  have [simp]: "pdbr m' = pdbr m" by (simp add: m'_def)
  show "paging_ok m'" by (rule paging_ok_cong [OF ok]) (simp, rule dir)
  have entry: "mmu_entry m' v = mmu_entry m v" for v
    by (rule mmu_entry_cong) (simp, rule dir [OF pd_index_less])
  show "mmu_translate m' v = (if is_page_enabled x then Some (entry_frame x + (v AND 0xfff)) else None)"
    if "get_page_directory_index v = d0" "get_page_table_entry_index v = t" for v
  proof -
    have "mmu_entry m v = Some (entry_frame (dir_entry m d0) + 4 * t)"
      using en that by (simp add: mmu_entry_def)
    then show ?thesis by (simp add: mmu_translate_def entry) (simp add: m'_def)
  qed
  show "mmu_translate m' v = mmu_translate m v"
    if ne: "get_page_directory_index v \<noteq> d0 \<or> get_page_table_entry_index v \<noteq> t" for v
  proof (cases "mmu_entry m v")
    case None
    then show ?thesis by (simp add: mmu_translate_def entry)
  next
    case (Some qa)
    let ?d = "get_page_directory_index v"
    have qa: "qa = entry_frame (dir_entry m ?d) + 4 * get_page_table_entry_index v" and en': "is_page_enabled (dir_entry m ?d)"
      using Some by (auto simp: mmu_entry_def Let_def split: if_splits)
    have "qa \<noteq> entry_frame (dir_entry m d0) + 4 * t"
    proof
      assume "qa = entry_frame (dir_entry m d0) + 4 * t"
      then have eq: "entry_frame (dir_entry m ?d) = entry_frame (dir_entry m d0)" "get_page_table_entry_index v = t"
        using frame_slot_inj [OF entry_frame_aligned entry_frame_aligned pt_index_less t] unfolding qa by blast+
      show False
      proof (cases "user_dir v")
        case True
        then have "?d = d0" using ok u en en' eq(1) unfolding paging_ok_def by blast
        with ne eq(2) show False by simp
      next
        case False
        then have "?d = 1023" using dir_index_cases [of v] by simp
        then show False using eq(1) paging_table [OF ok u en] paging_recursive [OF ok] by metis
      qed
    qed
    then have "pmem m' qa = pmem m qa" by (simp add: m'_def)
    then show ?thesis using Some by (simp add: mmu_translate_def entry)
  qed
qed

lemma vwrite_slot:
  assumes "paging_ok m" and "is_page_enabled (dir_entry m (get_page_directory_index v))"
  shows "vwrite (table_slot v) x m =
    Some (m\<lparr>pmem := (pmem m)(entry_frame (dir_entry m (get_page_directory_index v)) + 4 * get_page_table_entry_index v := x)\<rparr>)"
  using assms table_slot_translate [of m v] by (simp add: vwrite_def paging_ok_def mmu_entry_def)

lemma vread_slot:
  assumes "paging_ok m" and "is_page_enabled (dir_entry m (get_page_directory_index v))"
  shows "vread (table_slot v) m =
    Some (pmem m (entry_frame (dir_entry m (get_page_directory_index v)) + 4 * get_page_table_entry_index v))"
  using assms table_slot_translate [of m v] by (simp add: vread_def paging_ok_def mmu_entry_def)

section \<open>A new page table\<close>

text \<open>Every frame of a table, and the directory, is marked as used in the physical memory manager.\<close>

definition tables_used :: "vmm \<Rightarrow> bool" where
  "tables_used m \<longleftrightarrow>
     pmm_ok (vmm_pmm m) \<and>
     (\<forall>d. unat d < 1024 \<longrightarrow> is_page_enabled (dir_entry m d) \<longrightarrow>
        memory_bitmap_test (entry_frame (dir_entry m d) div PMM_FRAME_SIZE) (vmm_pmm m))"

text \<open>The page with given indices.\<close>

lemma page_at:
  assumes "unat d < 1024" and "k < 1024"
  shows "\<exists>v. get_page_directory_index v = d \<and> get_page_table_entry_index v = of_nat k \<and>
           table_slot v = PAGE_TABLE_BASE + d * PMM_FRAME_SIZE + 4 * of_nat k"
proof -
  let ?v = "of_nat ((unat d * 1024 + k) * 4096) :: u32"
  have "(unat d * 1024 + k) * 4096 < 4294967296" using assms by simp
  then have v: "unat ?v div 4096 = unat d * 1024 + k" by (subst unat_of_nat_u32) simp_all
  have "get_page_directory_index ?v = d"
    using assms v by (simp add: word_unat_eq_iff unat_pd_index_page)
  moreover have "get_page_table_entry_index ?v = of_nat k"
    using assms v by (simp add: word_unat_eq_iff unat_pt_index unat_of_nat_u32)
  ultimately show ?thesis by (metis table_slot_def)
qed

lemma clear_words_table:
  assumes "paging_ok m" and u: "unat d < 1023" and "is_page_enabled (dir_entry m d)" and "k + n = 1024"
  shows "\<exists>m'. clear_words (PAGE_TABLE_BASE + d * PMM_FRAME_SIZE + 4 * of_nat k) n m = Some m' \<and>
           paging_ok m' \<and> pdbr m' = pdbr m \<and> vmm_pmm m' = vmm_pmm m \<and>
           (\<forall>e. unat e < 1024 \<longrightarrow> dir_entry m' e = dir_entry m e) \<and>
           (\<forall>v. mmu_translate m' v =
              (if get_page_directory_index v = d \<and> k \<le> unat (get_page_table_entry_index v) then None else mmu_translate m v))"
  using assms(1,3,4)
proof (induction n arbitrary: k m)
  case 0
  have "\<not> k \<le> unat (get_page_table_entry_index v)" for v
    using pt_index_less [of v] 0 by simp
  with 0 show ?case by simp
next
  case (Suc n)
  have k: "k < 1024" using Suc.prems(3) by simp
  have d: "unat d < 1024" using u by simp
  obtain v where v: "get_page_directory_index v = d" "get_page_table_entry_index v = of_nat k"
      "table_slot v = PAGE_TABLE_BASE + d * PMM_FRAME_SIZE + 4 * of_nat k"
    using page_at [OF d k] by blast
  let ?m1 = "m\<lparr>pmem := (pmem m)(entry_frame (dir_entry m d) + 4 * of_nat k := 0)\<rparr>"
  have kk: "unat (of_nat k :: u32) < 1024" using k by (simp add: unat_of_nat_u32)
  note tw = table_write [OF Suc.prems(1) u Suc.prems(2) kk, where x = 0]
  have w: "vwrite (table_slot v) 0 m = Some ?m1"
    using vwrite_slot [OF Suc.prems(1), of v 0] Suc.prems(2) v by simp
  have dir: "dir_entry ?m1 e = dir_entry m e" if "unat e < 1024" for e
    using table_write_dir [OF Suc.prems(1) u Suc.prems(2) kk that, of 0] by simp
  have en1: "is_page_enabled (dir_entry ?m1 d)" using dir [OF d] Suc.prems(2) by simp
  have kn: "Suc k + n = 1024" using Suc.prems(3) by simp
  obtain m' where m': "clear_words (PAGE_TABLE_BASE + d * PMM_FRAME_SIZE + 4 * of_nat (Suc k)) n ?m1 = Some m'"
      "paging_ok m'" "pdbr m' = pdbr ?m1" "vmm_pmm m' = vmm_pmm ?m1"
      "\<forall>e. unat e < 1024 \<longrightarrow> dir_entry m' e = dir_entry ?m1 e"
      "\<forall>v. mmu_translate m' v =
         (if get_page_directory_index v = d \<and> Suc k \<le> unat (get_page_table_entry_index v) then None else mmu_translate ?m1 v)"
    using Suc.IH [OF tw(1) en1 kn] by blast
  have "clear_words (PAGE_TABLE_BASE + d * PMM_FRAME_SIZE + 4 * of_nat k) (Suc n) m = Some m'"
    using w m'(1) v(3) by (simp add: algebra_simps)
  moreover have "mmu_translate m' w =
      (if get_page_directory_index w = d \<and> k \<le> unat (get_page_table_entry_index w) then None else mmu_translate m w)" for w
  proof (cases "get_page_directory_index w = d \<and> get_page_table_entry_index w = of_nat k")
    case True
    then have "unat (get_page_table_entry_index w) = k" using k by (simp add: unat_of_nat_u32)
    then show ?thesis using m'(6) tw(2) [of w] True by (simp add: is_page_enabled_def)
  next
    case False
    then have "get_page_directory_index w \<noteq> d \<or> unat (get_page_table_entry_index w) \<noteq> k"
      using k by (auto simp: word_unat_eq_iff unat_of_nat_u32)
    moreover have "mmu_translate ?m1 w = mmu_translate m w" using tw(3) [of w] False by blast
    ultimately show ?thesis using m'(6) by (cases "get_page_directory_index w = d") (auto simp: Suc_le_eq)
  qed
  ultimately show ?case using m'(2-5) dir by auto
qed

lemma entry_or_flags:
  assumes a: "unat a mod 4096 = 0" and f: "unat (flags :: u32) < 4096" and e: "is_page_enabled flags"
  shows "entry_frame (a OR flags) = a" and "is_page_enabled (a OR flags)"
proof -
  have "\<not> bit flags n" if "12 \<le> n" for n
  proof -
    have "unat flags < 2 ^ n" using f power_increasing [OF that, of "2 :: nat"] by simp
    then have "\<not> bit (unat flags) n" by (simp add: bit_iff_odd)
    then show ?thesis by (simp add: bit_unsigned_iff)
  qed
  moreover have "\<not> bit a n" if "n < 12" for n
  proof -
    obtain k where "unat a = 4096 * k" using a by (auto simp: mod_eq_0_iff_dvd elim: dvdE)
    then have "unat a = push_bit 12 k" by (simp add: push_bit_eq_mult)
    then have "\<not> bit (unat a) n" using that by (simp add: bit_push_bit_iff)
    then show ?thesis using that by (simp add: bit_unsigned_iff)
  qed
  moreover have "(0xfffff000 :: u32) = NOT (mask 12)" by (simp add: mask_eq_exp_minus_1)
  ultimately show "entry_frame (a OR flags) = a"
    unfolding entry_frame_def by (auto simp: bit_eq_iff bit_simps)
  have "bit flags 0" using e by (simp add: is_page_enabled_def and_one_eq odd_iff_mod_2_eq_one bit_0)
  then have "bit (a OR flags) 0" by (simp add: bit_or_iff)
  then show "is_page_enabled (a OR flags)" by (simp add: is_page_enabled_def and_one_eq bit_0 odd_iff_mod_2_eq_one)
qed

text \<open>A directory entry that was not present gets a table in a frame no other table uses.\<close>

lemma new_table:
  assumes ok: "paging_ok m" and used: "tables_used m" and u: "unat d < 1023"
    and off: "\<not> is_page_enabled (dir_entry m d)" and alloc: "pmm_alloc_block (vmm_pmm m) = (pa, pm)" "pa \<noteq> 0"
    and flags: "unat flags < 4096" "is_page_enabled flags"
  defines "m1 \<equiv> m\<lparr>vmm_pmm := pm, pmem := (pmem m)(pdbr m + 4 * d := pa OR flags)\<rparr>"
  shows "paging_ok m1" and "tables_used m1" and "is_page_enabled (dir_entry m1 d)"
    and "\<And>v. user_dir v \<Longrightarrow> get_page_directory_index v \<noteq> d \<Longrightarrow> mmu_translate m1 v = mmu_translate m v"
proof -
  obtain f where f: "memory_bitmap_first_free (vmm_pmm m) = Some f" "pa div PMM_FRAME_SIZE = f" "unat pa = unat f * 4096"
      "pm = (memory_bitmap_set f (vmm_pmm m))\<lparr>used_frames := used_frames (vmm_pmm m) + 1\<rparr>"
    using pmm_alloc_block_cases [OF _ alloc(1)] alloc(2) used by (auto simp: tables_used_def)
  have free: "\<not> memory_bitmap_test f (vmm_pmm m)" using pm.first_free [OF f(1)] by blast
  have al: "unat pa mod 4096 = 0" using f(3) by simp
  have new: "entry_frame (pa OR flags) = pa" "is_page_enabled (pa OR flags)"
    by (rule entry_or_flags [OF al flags])+
  have fresh: "entry_frame (dir_entry m e) \<noteq> pa" if "unat e < 1024" "is_page_enabled (dir_entry m e)" for e
  proof
    assume "entry_frame (dir_entry m e) = pa"
    then have "memory_bitmap_test f (vmm_pmm m)" using used that f(2) unfolding tables_used_def by metis
    with free show False by simp
  qed
  have [simp]: "pdbr m1 = pdbr m" by (simp add: m1_def)
  have dir: "dir_entry m1 e = (if e = d then pa OR flags else dir_entry m e)" if "unat e < 1024" for e
    using frame_slot_inj [OF paging_aligned [OF ok] paging_aligned [OF ok] that, of d] u by (auto simp: m1_def)
  have rec: "dir_entry m1 1023 = dir_entry m 1023" using dir [of 1023] u by auto
  have pdbr_ne: "pa \<noteq> pdbr m" using fresh [of 1023] paging_recursive [OF ok] by auto
  have lt: "unat e < 1024" if "unat e < 1023" for e :: u32 using that by simp
  have inj: "e = e'" if "unat e < 1023" "unat e' < 1023" "is_page_enabled (dir_entry m e)" "is_page_enabled (dir_entry m e')"
      "entry_frame (dir_entry m e) = entry_frame (dir_entry m e')" for e e'
    using ok that unfolding paging_ok_def by blast
  show "paging_ok m1"
    unfolding paging_ok_def recursive_dir_def
  proof (intro conjI allI impI)
    show "is_page_enabled (dir_entry m1 1023)" "entry_frame (dir_entry m1 1023) = pdbr m1"
      using rec paging_recursive [OF ok] by simp_all
  next
    fix e assume "unat e < 1023" "is_page_enabled (dir_entry m1 e)"
    then show "entry_frame (dir_entry m1 e) \<noteq> pdbr m1"
      using dir [OF lt, of e] paging_table [OF ok, of e] new pdbr_ne by (auto split: if_splits)
  next
    fix e e' assume e: "unat e < 1023" "unat e' < 1023" "is_page_enabled (dir_entry m1 e)" "is_page_enabled (dir_entry m1 e')"
      "entry_frame (dir_entry m1 e) = entry_frame (dir_entry m1 e')"
    show "e = e'"
    proof (cases "e = d \<or> e' = d")
      case True
      then show ?thesis
        using e dir [OF lt, of e] dir [OF lt, of e'] new(1) fresh [OF lt, of e] fresh [OF lt, of e'] by (auto split: if_splits)
    next
      case False
      then show ?thesis using e inj [of e e'] dir [OF lt, of e] dir [OF lt, of e'] by simp
    qed
  qed
  show "tables_used m1"
    unfolding tables_used_def
  proof (intro conjI allI impI)
    show "pmm_ok (vmm_pmm m1)" using used f(4) by (simp add: m1_def tables_used_def pmm_ok_def)
  next
    fix e assume e: "unat e < 1024" "is_page_enabled (dir_entry m1 e)"
    show "memory_bitmap_test (entry_frame (dir_entry m1 e) div PMM_FRAME_SIZE) (vmm_pmm m1)"
    proof (cases "e = d")
      case True
      then show ?thesis using dir [OF e(1)] new(1) f(2,4) by (simp add: m1_def)
    next
      case False
      then show ?thesis using dir [OF e(1)] e used f(4) by (simp add: m1_def tables_used_def)
    qed
  qed
  show "is_page_enabled (dir_entry m1 d)" using dir [of d] u new(2) by simp
  show "mmu_translate m1 v = mmu_translate m v" if "user_dir v" "get_page_directory_index v \<noteq> d" for v
  proof -
    let ?e = "get_page_directory_index v"
    have entry: "mmu_entry m1 v = mmu_entry m v"
      using dir [OF pd_index_less [of v]] that(2) by (simp add: mmu_entry_def)
    have "pmem m1 qa = pmem m qa" if "mmu_entry m v = Some qa" for qa
    proof -
      have qa: "qa = entry_frame (dir_entry m ?e) + 4 * get_page_table_entry_index v" "is_page_enabled (dir_entry m ?e)"
        using that by (auto simp: mmu_entry_def Let_def split: if_splits)
      have "entry_frame (dir_entry m ?e) \<noteq> pdbr m" by (rule paging_table [OF ok \<open>user_dir v\<close> qa(2)])
      then have "qa \<noteq> pdbr m + 4 * d"
        using frame_slot_inj [OF entry_frame_aligned paging_aligned [OF ok] pt_index_less, of d "dir_entry m ?e" v] u
        unfolding qa(1) by auto
      then show ?thesis by (simp add: m1_def)
    qed
    then show ?thesis by (cases "mmu_entry m v") (simp_all add: mmu_translate_def entry)
  qed
qed

text \<open>The pointer \<open>va_dir\<close> points to the current directory.\<close>

definition dir_pointer :: "u32 \<Rightarrow> vmm \<Rightarrow> bool" where
  "dir_pointer va_dir m \<longleftrightarrow> (\<forall>d. unat d < 1024 \<longrightarrow> mmu_translate m (va_dir + 4 * d) = Some (pdbr m + 4 * d))"

lemma mmu_translate_pmm [simp]: "mmu_translate (m\<lparr>vmm_pmm := pm\<rparr>) v = mmu_translate m v"
  by (simp add: mmu_translate_def mmu_entry_def Let_def cong: if_cong)

lemma vread_dir:
  "dir_pointer va_dir m \<Longrightarrow> vread (va_dir + 4 * get_page_directory_index v) m = Some (dir_entry m (get_page_directory_index v))"
  using pd_index_less [of v] by (simp add: vread_def dir_pointer_def)

lemma vmm_create_page_table_ok:
  assumes ok: "paging_ok m" and used: "tables_used m" and dirp: "dir_pointer va_dir m" and u: "user_dir virt"
    and off: "\<not> is_page_enabled (dir_entry m (get_page_directory_index virt))"
    and alloc: "fst (pmm_alloc_block (vmm_pmm m)) \<noteq> 0"
    and flags: "unat flags < 4096" "is_page_enabled flags"
  shows "\<exists>m'. vmm_create_page_table va_dir virt flags m = Some m' \<and> paging_ok m' \<and> tables_used m' \<and>
           is_page_enabled (dir_entry m' (get_page_directory_index virt)) \<and>
           (\<forall>v. user_dir v \<longrightarrow> mmu_translate m' v = mmu_translate m v)"
proof -
  let ?d = "get_page_directory_index virt"
  obtain pa pm where a: "pmm_alloc_block (vmm_pmm m) = (pa, pm)" by (cases "pmm_alloc_block (vmm_pmm m)")
  let ?m1 = "m\<lparr>vmm_pmm := pm, pmem := (pmem m)(pdbr m + 4 * ?d := pa OR flags)\<rparr>"
  have "pa \<noteq> 0" using alloc a by simp
  note nt = new_table [OF ok used u off a this flags]
  have w: "vwrite (va_dir + 4 * ?d) (pa OR flags) (m\<lparr>vmm_pmm := pm\<rparr>) = Some ?m1"
    using dirp pd_index_less [of virt] by (simp add: vwrite_def dir_pointer_def)
  obtain m' where m': "clear_words (PAGE_TABLE_BASE + ?d * PMM_FRAME_SIZE + 4 * of_nat 0) 1024 ?m1 = Some m'" "paging_ok m'"
      "pdbr m' = pdbr ?m1" "vmm_pmm m' = vmm_pmm ?m1" "\<forall>e. unat e < 1024 \<longrightarrow> dir_entry m' e = dir_entry ?m1 e"
      "\<forall>v. mmu_translate m' v = (if get_page_directory_index v = ?d \<and> 0 \<le> unat (get_page_table_entry_index v) then None else mmu_translate ?m1 v)"
    using clear_words_table [OF nt(1) u nt(3) add_0] by (elim exE conjE)
  have "vmm_create_page_table va_dir virt flags m = Some m'"
    using vread_dir [OF dirp, of virt] off a w m'(1) by (simp add: vmm_create_page_table_def)
  moreover have "tables_used m'" using nt(2) m'(3-5) by (simp add: tables_used_def)
  moreover have "is_page_enabled (dir_entry m' ?d)" using nt(3) m'(5) pd_index_less [of virt] by simp
  moreover have "mmu_translate m' v = mmu_translate m v" if "user_dir v" for v
  proof (cases "get_page_directory_index v = ?d")
    case True
    then have "mmu_translate m v = None" using off by (simp add: mmu_translate_def mmu_entry_def)
    then show ?thesis using m'(6) True by simp
  next
    case False
    then show ?thesis using m'(6) nt(4) [OF that] by simp
  qed
  ultimately show ?thesis using m'(2) by blast
qed

lemma vmm_map_address_ok:
  assumes ok: "paging_ok m" and used: "tables_used m" and dirp: "dir_pointer va_dir m" and u: "user_dir virt"
    and alloc: "is_page_enabled (dir_entry m (get_page_directory_index virt)) \<or> fst (pmm_alloc_block (vmm_pmm m)) \<noteq> 0"
    and flags: "unat flags < 4096" "is_page_enabled flags" and phys: "unat phys mod 4096 = 0"
  shows "\<exists>m'. vmm_map_address va_dir virt phys flags m = Some m' \<and> paging_ok m' \<and> tables_used m' \<and>
           (\<forall>v. user_dir v \<longrightarrow> mmu_translate m' v =
              (if page_of v = page_of virt then Some (phys + (v AND 0xfff)) else mmu_translate m v))"
proof -
  let ?d = "get_page_directory_index virt" and ?t = "get_page_table_entry_index virt"
  have "\<exists>m1. (if \<not> is_page_enabled (dir_entry m ?d) then vmm_create_page_table va_dir virt flags m else Some m) = Some m1 \<and>
      paging_ok m1 \<and> tables_used m1 \<and> is_page_enabled (dir_entry m1 ?d) \<and>
      (\<forall>v. user_dir v \<longrightarrow> mmu_translate m1 v = mmu_translate m v)"
  proof (cases "is_page_enabled (dir_entry m ?d)")
    case False
    with vmm_create_page_table_ok [OF ok used dirp u False _ flags] alloc show ?thesis by auto
  qed (use ok used in auto)
  then obtain m1 where m1: "(if \<not> is_page_enabled (dir_entry m ?d) then vmm_create_page_table va_dir virt flags m else Some m) = Some m1"
      "paging_ok m1" "tables_used m1" "is_page_enabled (dir_entry m1 ?d)" "\<forall>v. user_dir v \<longrightarrow> mmu_translate m1 v = mmu_translate m v"
    by blast
  let ?m' = "m1\<lparr>pmem := (pmem m1)(entry_frame (dir_entry m1 ?d) + 4 * ?t := phys OR flags)\<rparr>"
  note tw = table_write [OF m1(2) u m1(4) pt_index_less [of virt], where x = "phys OR flags"]
  have e: "entry_frame (phys OR flags) = phys" "is_page_enabled (phys OR flags)"
    by (rule entry_or_flags [OF phys flags])+
  have "vmm_map_address va_dir virt phys flags m = Some ?m'"
    using vread_dir [OF dirp, of virt] m1(1) vwrite_slot [OF m1(2,4)] by (simp add: vmm_map_address_def)
  moreover have "tables_used ?m'"
    using m1(3) table_write_dir [OF m1(2) u m1(4) pt_index_less [of virt], of _ "phys OR flags"] by (simp add: tables_used_def)
  moreover have "mmu_translate ?m' v = (if page_of v = page_of virt then Some (phys + (v AND 0xfff)) else mmu_translate m v)"
    if "user_dir v" for v
  proof (cases "page_of v = page_of virt")
    case True
    then show ?thesis using tw(2) [OF same_page_index [OF True]] e by simp
  next
    case False
    then have "get_page_directory_index v \<noteq> ?d \<or> get_page_table_entry_index v \<noteq> ?t" using same_page [of v virt] by blast
    then show ?thesis using False tw(3) m1(5) that by simp
  qed
  ultimately show ?thesis using tw(1) by blast
qed

lemma vmm_unmap_address_ok:
  assumes ok: "paging_ok m" and dirp: "dir_pointer va_dir m" and u: "user_dir virt"
  shows "\<exists>m'. vmm_unmap_address va_dir virt m = Some m' \<and> paging_ok m' \<and> vmm_pmm m' = vmm_pmm m \<and>
           (\<forall>v. mmu_translate m' v = (if page_of v = page_of virt then None else mmu_translate m v))"
proof -
  let ?d = "get_page_directory_index virt" and ?t = "get_page_table_entry_index virt"
  have vd: "vread (va_dir + 4 * ?d) m = Some (dir_entry m ?d)" by (rule vread_dir [OF dirp])
  have entry: "mmu_entry m v = mmu_entry m virt" if "page_of v = page_of virt" for v
    using same_page_index [OF that] by (simp add: mmu_entry_def Let_def)
  consider (no_table) "\<not> is_page_enabled (dir_entry m ?d)"
    | (no_page) "is_page_enabled (dir_entry m ?d)" "\<not> is_page_enabled (pmem m (entry_frame (dir_entry m ?d) + 4 * ?t))"
    | (mapped) "is_page_enabled (dir_entry m ?d)" "is_page_enabled (pmem m (entry_frame (dir_entry m ?d) + 4 * ?t))"
    by blast
  then show ?thesis
  proof cases
    case no_table
    then have "mmu_entry m virt = None" by (simp add: mmu_entry_def)
    then have "mmu_translate m v = None" if "page_of v = page_of virt" for v
      using entry [OF that] by (simp add: mmu_translate_def)
    then show ?thesis using no_table vd ok by (auto simp: vmm_unmap_address_def)
  next
    case no_page
    then have "mmu_entry m virt = Some (entry_frame (dir_entry m ?d) + 4 * ?t)" by (simp add: mmu_entry_def)
    then have "mmu_translate m v = None" if "page_of v = page_of virt" for v
      using entry [OF that] no_page(2) by (simp add: mmu_translate_def)
    then show ?thesis using no_page vd vread_slot [OF ok no_page(1)] ok by (auto simp: vmm_unmap_address_def)
  next
    case mapped
    let ?m' = "m\<lparr>pmem := (pmem m)(entry_frame (dir_entry m ?d) + 4 * ?t := 0)\<rparr>"
    note tw = table_write [OF ok u mapped(1) pt_index_less [of virt], where x = 0]
    have "vmm_unmap_address va_dir virt m = Some ?m'"
      using vd vread_slot [OF ok mapped(1)] vwrite_slot [OF ok mapped(1)] mapped by (simp add: vmm_unmap_address_def)
    moreover have "mmu_translate ?m' v = (if page_of v = page_of virt then None else mmu_translate m v)" for v
    proof (cases "page_of v = page_of virt")
      case True
      then show ?thesis using tw(2) [OF same_page_index [OF True]] by (simp add: is_page_enabled_def)
    next
      case False
      then show ?thesis using same_page [of v virt] tw(3) [of v] by auto
    qed
    ultimately show ?thesis using tw(1) by auto
  qed
qed

section \<open>Ranges\<close>

lemma unat_page_of: "unat (page_of v) = unat v div 4096 * 4096"
  using unat_entry_frame [of v] by (simp add: entry_frame_def)

lemma unmap_loop_ok:
  assumes "paging_ok m" and "dir_pointer va_dir m"
    and "unat addr = 4096 * a" and "unat vm_end = 4096 * (a + n)" and "unat vm_end \<le> 4290772992"
    and "\<And>d. unat d < 1024 \<Longrightarrow> \<not> (a \<le> unat (va_dir + 4 * d) div 4096 \<and> unat (va_dir + 4 * d) div 4096 < a + n)"
  shows "\<exists>m'. unmap_loop va_dir addr vm_end m = Some m' \<and> paging_ok m' \<and> vmm_pmm m' = vmm_pmm m \<and>
           (\<forall>v. mmu_translate m' v =
              (if a \<le> unat v div 4096 \<and> unat v div 4096 < a + n then None else mmu_translate m v))"
  using assms
proof (induction n arbitrary: a addr m)
  case 0
  then have "\<not> addr < vm_end" by (simp add: word_less_nat_alt)
  with 0 show ?case by (subst unmap_loop.simps) auto
next
  case (Suc n)
  have lt: "addr < vm_end" using Suc.prems(3,4) by (simp add: word_less_nat_alt)
  have next_addr: "unat (addr + PMM_FRAME_SIZE) = 4096 * Suc a"
    using Suc.prems(3-5) by (simp add: PMM_FRAME_SIZE_def unat_plus_if')
  have "unat addr div 4194304 < 1023"
    using Suc.prems(3-5) by (simp add: less_mult_imp_div_less)
  then have u: "user_dir addr" by (simp add: unat_pd_index)
  have page: "page_of v = page_of addr \<longleftrightarrow> unat v div 4096 = a" for v
    using Suc.prems(3) by (simp add: word_unat_eq_iff unat_page_of)
  obtain m1 where m1: "vmm_unmap_address va_dir addr m = Some m1" "paging_ok m1" "vmm_pmm m1 = vmm_pmm m"
      "\<forall>v. mmu_translate m1 v = (if page_of v = page_of addr then None else mmu_translate m v)"
    using vmm_unmap_address_ok [OF Suc.prems(1,2) u] by blast
  have "pdbr m1 = pdbr m"
    using m1(1) by (auto simp: vmm_unmap_address_def vwrite_def bind_eq_Some_conv split: if_splits)
  moreover have "unat (va_dir + 4 * d) div 4096 \<noteq> a" if "unat d < 1024" for d
    using Suc.prems(6) [OF that] by auto
  ultimately have dp: "dir_pointer va_dir m1"
    using Suc.prems(2) m1(4) page by (simp add: dir_pointer_def)
  have e: "unat vm_end = 4096 * (Suc a + n)" using Suc.prems(4) by simp
  have out: "\<not> (Suc a \<le> unat (va_dir + 4 * d) div 4096 \<and> unat (va_dir + 4 * d) div 4096 < Suc a + n)" if "unat d < 1024" for d
    using Suc.prems(6) [OF that] by auto
  obtain m' where m': "unmap_loop va_dir (addr + PMM_FRAME_SIZE) vm_end m1 = Some m'" "paging_ok m'" "vmm_pmm m' = vmm_pmm m1"
      "\<forall>v. mmu_translate m' v = (if Suc a \<le> unat v div 4096 \<and> unat v div 4096 < Suc a + n then None else mmu_translate m1 v)"
    using Suc.IH [OF m1(2) dp next_addr e Suc.prems(5) out] by blast
  have "unmap_loop va_dir addr vm_end m = Some m'"
    using lt m1(1) m'(1) by (subst unmap_loop.simps) simp
  moreover have "mmu_translate m' v = (if a \<le> unat v div 4096 \<and> unat v div 4096 < a + Suc n then None else mmu_translate m v)" for v
    using m'(4) m1(4) page [of v] by (cases "unat v div 4096 = a") (auto simp: le_less_Suc_eq Suc_le_eq)
  ultimately show ?case using m'(2,3) m1(3) by auto
qed

section \<open>The properties\<close>

text \<open>A machine with one page table: the directory in frame 1, mapped at \<open>0xC0000000\<close>, the table in frame 2.\<close>

definition vmm_example :: vmm where
  "vmm_example =
     \<lparr>pmem = (\<lambda>a. if a = 0x1000 + 4 * 1023 then 0x1003 else if a = 0x1000 + 4 * 768 then 0x2003
                  else if a = 0x2000 then 0x1003 else if a = 0x2004 then 0x7003 else 0),
      pdbr = 0x1000,
      vmm_pmm = \<lparr>memory_bitmap = (\<lambda>i. if i = 0 then 0b111 else 0), max_frames = 64, used_frames = 3,
                memory_size = 262144, memory_bitmap_size = 8\<rparr>\<rparr>"

lemma vmm_example_dir:
  assumes "unat d < 1024"
  shows "dir_entry vmm_example d = (if d = 1023 then 0x1003 else if d = 768 then 0x2003 else 0)"
proof -
  have "4 * d = 3072 \<longleftrightarrow> d = 768" "4 * d = 4092 \<longleftrightarrow> d = 1023"
    using frame_slot_inj [of "0x1000" "0x1000" d 768] frame_slot_inj [of "0x1000" "0x1000" d 1023] assms by simp_all
  moreover have "0x1000 + 4 * d \<noteq> (0x2000 :: u32)" "0x1000 + 4 * d \<noteq> (0x2004 :: u32)"
    using unat_frame_slot [of "0x1000" d] assms by (auto simp: word_unat_eq_iff)
  ultimately show ?thesis by (simp add: vmm_example_def)
qed

lemma vmm_example_ok: "paging_ok vmm_example" "tables_used vmm_example" "dir_pointer 0xC0000000 vmm_example"
proof -
  have e: "entry_frame 0x1003 = 0x1000" "entry_frame 0x2003 = 0x2000" "is_page_enabled 0x1003" "is_page_enabled 0x2003"
    "\<not> is_page_enabled 0" "pdbr vmm_example = 0x1000"
    by (simp_all add: entry_frame_def is_page_enabled_def vmm_example_def)
  show "paging_ok vmm_example"
    unfolding paging_ok_def recursive_dir_def using vmm_example_dir [of 1023] vmm_example_dir e by (auto split: if_splits)
  show "tables_used vmm_example"
    unfolding tables_used_def
  proof (intro conjI allI impI)
    show "pmm_ok (vmm_pmm vmm_example)"
      by (simp add: vmm_example_def pmm_ok_def memory_bitmap_test_def bm_test_def)
  next
    fix d assume d: "unat d < 1024" "is_page_enabled (dir_entry vmm_example d)"
    then show "memory_bitmap_test (entry_frame (dir_entry vmm_example d) div PMM_FRAME_SIZE) (vmm_pmm vmm_example)"
      using vmm_example_dir [OF d(1)] e
      by (auto simp: vmm_example_def memory_bitmap_test_def bm_test_def PMM_FRAME_SIZE_def split: if_splits)
  qed
  show "dir_pointer 0xC0000000 vmm_example"
    unfolding dir_pointer_def
  proof (intro allI impI)
    fix d :: u32 assume d: "unat d < 1024"
    let ?v = "0xC0000000 + 4 * d"
    have v: "unat ?v = 4 * unat d + 786432 * 4096" using unat_frame_slot [of "0xC0000000" d] d by simp
    then have page: "unat ?v div 4096 = 786432" using d by simp
    have "unat (4 * d) = 4 * unat d" using d by (subst unat_mult_lem [THEN iffD1]) simp_all
    moreover have "unat ?v mod 4096 = 4 * unat d" unfolding v using d by (subst mod_mult_self1) simp
    ultimately have "get_page_directory_index ?v = 768" "get_page_table_entry_index ?v = 0" "?v AND 0xfff = 4 * d"
      using page by (simp_all add: word_unat_eq_iff unat_pd_index_page unat_pt_index unat_offset)
    moreover have "mmu_entry vmm_example ?v = Some 0x2000"
      using calculation vmm_example_dir [of 768] e by (simp add: mmu_entry_def)
    ultimately show "mmu_translate vmm_example ?v = Some (pdbr vmm_example + 4 * d)"
      using e by (simp add: mmu_translate_def) (simp add: vmm_example_def)
  qed
qed

text \<open>C11: \<open>vmm_map_address\<close>, working through the recursive page directory, makes the processor translate
  every address of the page to the frame, and leaves the translation of every other page below the
  window of the page tables alone, also when it has to add a page table; the directory stays
  well-formed, and every table stays in a frame of its own that the physical memory manager knows as
  used.\<close>

theorem vmm_map_address_correct:
  assumes "paging_ok m" and "tables_used m" and "dir_pointer va_dir m" and "unat virt < 0xFFC00000"
    and "is_page_enabled (dir_entry m (get_page_directory_index virt)) \<or> fst (pmm_alloc_block (vmm_pmm m)) \<noteq> 0"
    and "unat flags < 4096" and "is_page_enabled flags" and "unat phys mod 4096 = 0"
  shows "\<exists>m'. vmm_map_address va_dir virt phys flags m = Some m' \<and> paging_ok m' \<and> tables_used m' \<and>
           (\<forall>v. unat v < 0xFFC00000 \<longrightarrow> mmu_translate m' v =
              (if v AND 0xfffff000 = virt AND 0xfffff000 then Some (phys + (v AND 0xfff)) else mmu_translate m v))"
proof -
  have u: "user_dir v" if "unat v < 0xFFC00000" for v
    using that by (simp add: unat_pd_index less_mult_imp_div_less)
  from vmm_map_address_ok [OF assms(1-3) u [OF assms(4)] assms(5-8)] u show ?thesis by blast
qed

theorem vmm_map_address_correct_witness:
  "\<exists>m'. vmm_map_address 0xC0000000 0x40000000 0x5000 7 vmm_example = Some m' \<and>
     mmu_translate m' 0x40000123 = Some 0x5123 \<and> mmu_translate m' 0xC0000004 = mmu_translate vmm_example 0xC0000004"
proof -
  have "fst (pmm_alloc_block (vmm_pmm vmm_example)) \<noteq> 0" by code_simp
  moreover have "is_page_enabled 7" by (simp add: is_page_enabled_def)
  ultimately obtain m' where m': "vmm_map_address 0xC0000000 0x40000000 0x5000 7 vmm_example = Some m'"
     "\<forall>v. unat v < 0xFFC00000 \<longrightarrow> mmu_translate m' v =
        (if v AND 0xfffff000 = 0x40000000 AND 0xfffff000 then Some (0x5000 + (v AND 0xfff)) else mmu_translate vmm_example v)"
    using vmm_map_address_correct [OF vmm_example_ok, of "0x40000000" 7 "0x5000"] by auto
  have "mmu_translate m' 0x40000123 = Some 0x5123" "mmu_translate m' 0xC0000004 = mmu_translate vmm_example 0xC0000004"
    by (simp_all add: m'(2))
  with m'(1) show ?thesis by blast
qed

text \<open>C38: \<open>vmm_unmap_range\<close> of page-aligned bounds ends, takes the translation away from every page of the range
  and leaves every other translation and the physical memory manager alone, for a range below the
  window of the page tables that does not contain the page directory itself.\<close>

theorem vmm_unmap_range_correct:
  assumes "paging_ok m" and "dir_pointer va_dir m"
    and "unat vm_start = 4096 * a" and "unat vm_end = 4096 * b" and "a \<le> b" and "unat vm_end \<le> 0xFFC00000"
    and "\<And>d. unat d < 1024 \<Longrightarrow> \<not> (vm_start \<le> va_dir + 4 * d \<and> va_dir + 4 * d < vm_end)"
  shows "\<exists>m'. vmm_unmap_range va_dir vm_start vm_end m = Some m' \<and> paging_ok m' \<and> vmm_pmm m' = vmm_pmm m \<and>
           (\<forall>v. mmu_translate m' v = (if vm_start \<le> v \<and> v < vm_end then None else mmu_translate m v))"
proof -
  have range: "vm_start \<le> v \<and> v < vm_end \<longleftrightarrow> a \<le> unat v div 4096 \<and> unat v div 4096 < b" for v
    using assms(3,4) by (simp add: word_le_nat_alt word_less_nat_alt less_eq_div_iff_mult_less_eq div_less_iff_less_mult mult.commute)
  have b: "a + (b - a) = b" and e: "unat vm_end = 4096 * (a + (b - a))" using assms(4,5) by simp_all
  have al: "PAGE_ALIGN x = x" if "unat x = 4096 * k" "unat x \<le> 4290772992" for x k
  proof -
    have "unat (PAGE_ALIGN x) = (4096 * k + 4095) div 4096 * 4096"
      using that by (subst unat_PAGE_ALIGN) simp_all
    also have "(4096 * k + 4095) div 4096 = k" by simp
    finally show ?thesis using that(1) by (simp add: word_unat_eq_iff)
  qed
  have bounds: "unat vm_start \<le> 4290772992" "unat vm_end \<le> 4290772992" using assms(3-6) by simp_all
  have "\<not> (a \<le> unat (va_dir + 4 * d) div 4096 \<and> unat (va_dir + 4 * d) div 4096 < a + (b - a))" if "unat d < 1024" for d
    using assms(7) [OF that] range [of "va_dir + 4 * d"] b by simp
  from unmap_loop_ok [OF assms(1-3) e bounds(2) this]
  show ?thesis
    using al [OF assms(3) bounds(1)] al [OF assms(4) bounds(2)] range b by (simp add: vmm_unmap_range_def)
qed

theorem vmm_unmap_range_correct_witness:
  "mmu_translate vmm_example 0xC0001004 = Some 0x7004 \<and>
   (\<exists>m'. vmm_unmap_range 0xC0000000 0xC0001000 0xC0003000 vmm_example = Some m' \<and>
      mmu_translate m' 0xC0001004 = None \<and> mmu_translate m' 0xC0000004 = Some 0x1004)"
proof -
  have "\<not> ((0xC0001000 :: u32) \<le> 0xC0000000 + 4 * d \<and> 0xC0000000 + 4 * d < (0xC0003000 :: u32))" if "unat d < 1024" for d
    using unat_frame_slot [of "0xC0000000" d] that by (simp add: word_le_nat_alt)
  then obtain m' where m': "vmm_unmap_range 0xC0000000 0xC0001000 0xC0003000 vmm_example = Some m'"
      "\<forall>v. mmu_translate m' v = (if 0xC0001000 \<le> v \<and> v < 0xC0003000 then None else mmu_translate vmm_example v)"
    using vmm_unmap_range_correct [OF vmm_example_ok(1,3), where vm_start = "0xC0001000" and a = "0xC0001" and vm_end = "0xC0003000" and b = "0xC0003"]
    by auto
  moreover have "mmu_translate vmm_example 0xC0001004 = Some 0x7004" "mmu_translate vmm_example 0xC0000004 = Some 0x1004" by code_simp+
  ultimately show ?thesis by simp
qed

end
