(* ===== verification/Highmem.thy ===== *)
theory Highmem
  imports Vmm
begin

text \<open>
  Temporary kernel mappings, \<open>kernel/memory/highmem.c\<close>: a bitmap of the page slots from
  \<open>PKMAP_BASE\<close> on, and the mapping and unmapping of pages into them. The bitmap is the second
  interpretation of the contract \<open>frame_bitmap\<close>; the mappings use the theorems on the virtual
  memory manager.
\<close>

section \<open>The operations\<close>

record highmem =
  pkmap :: bitmap
  hm_vmm :: vmm

record page =
  page_frame :: u32
  page_virtual :: u32

record pages =
  pages_paddr :: u32
  number_of_frames :: u32
  pages_vaddr :: u32

definition PKMAP_BASE :: u32 where
  "PKMAP_BASE = 0xE0000000"

definition LAST_PKMAP :: nat where
  "LAST_PKMAP = 1024"

definition pkmap_bitmap_set :: "u32 \<Rightarrow> highmem \<Rightarrow> highmem" where
  "pkmap_bitmap_set block s = s\<lparr>pkmap := bm_set block (pkmap s)\<rparr>"

definition pkmap_bitmap_unset :: "u32 \<Rightarrow> highmem \<Rightarrow> highmem" where
  "pkmap_bitmap_unset block s = s\<lparr>pkmap := bm_unset block (pkmap s)\<rparr>"

definition pkmap_bitmap_test :: "u32 \<Rightarrow> highmem \<Rightarrow> bool" where
  "pkmap_bitmap_test block s = bm_test block (pkmap s)"

definition get_pkmap_free :: "highmem \<Rightarrow> u32 option" where
  "get_pkmap_free s = bm_first_free LAST_PKMAP (pkmap s)"

definition get_pkmaps_free :: "u32 \<Rightarrow> highmem \<Rightarrow> u32 option" where
  "get_pkmaps_free sz s = bm_first_frees LAST_PKMAP sz (pkmap s)"

text \<open>The result \<open>-1\<close> of a search that fails is used as a block number without a check.\<close>

definition block_number :: "u32 option \<Rightarrow> u32" where
  "block_number r = (case r of Some b \<Rightarrow> b | None \<Rightarrow> - 1)"

definition kmap :: "u32 \<Rightarrow> page \<Rightarrow> highmem \<Rightarrow> (page \<times> highmem) option" where
  "kmap pdir p s =
     do {
       let block = block_number (get_pkmap_free s);
       let vaddr = block * PMM_FRAME_SIZE + PKMAP_BASE;
       let s1 = pkmap_bitmap_set block s;
       m \<leftarrow> vmm_map_address pdir vaddr (page_frame p) (I86_PTE_PRESENT OR I86_PTE_WRITABLE) (hm_vmm s1);
       Some (p\<lparr>page_virtual := vaddr\<rparr>, s1\<lparr>hm_vmm := m\<rparr>)
     }"

fun kmaps_loop :: "u32 \<Rightarrow> u32 \<Rightarrow> u32 \<Rightarrow> pages \<Rightarrow> nat list \<Rightarrow> highmem \<Rightarrow> highmem option" where
  "kmaps_loop pdir block vaddr p [] s = Some s"
| "kmaps_loop pdir block vaddr p (i # is) s =
     do {
       let s1 = pkmap_bitmap_set (block + of_nat i) s;
       m \<leftarrow> vmm_map_address pdir (vaddr + of_nat i * PMM_FRAME_SIZE) (pages_paddr p + of_nat i * PMM_FRAME_SIZE)
              (I86_PTE_PRESENT OR I86_PTE_WRITABLE) (hm_vmm s1);
       kmaps_loop pdir block vaddr p is (s1\<lparr>hm_vmm := m\<rparr>)
     }"

definition kmaps :: "u32 \<Rightarrow> pages \<Rightarrow> highmem \<Rightarrow> (pages \<times> highmem) option" where
  "kmaps pdir p s =
     do {
       let block = block_number (get_pkmaps_free (number_of_frames p) s);
       let vaddr = block * PMM_FRAME_SIZE + PKMAP_BASE;
       s1 \<leftarrow> kmaps_loop pdir block vaddr p [0..<unat (number_of_frames p)] s;
       Some (p\<lparr>pages_vaddr := vaddr\<rparr>, s1)
     }"

definition kunmap :: "u32 \<Rightarrow> page \<Rightarrow> highmem \<Rightarrow> highmem option" where
  "kunmap pdir p s =
     (if page_virtual p = 0 then Some s
      else
        do {
          let block = (page_virtual p - PKMAP_BASE) div PMM_FRAME_SIZE;
          let s1 = pkmap_bitmap_unset block s;
          m \<leftarrow> vmm_unmap_address pdir (page_virtual p) (hm_vmm s1);
          Some (s1\<lparr>hm_vmm := m\<rparr>)
        })"

fun kunmaps_loop :: "u32 \<Rightarrow> u32 \<Rightarrow> pages \<Rightarrow> nat list \<Rightarrow> highmem \<Rightarrow> highmem option" where
  "kunmaps_loop pdir block p [] s = Some s"
| "kunmaps_loop pdir block p (i # is) s =
     do {
       let s1 = pkmap_bitmap_unset (block + of_nat i) s;
       m \<leftarrow> vmm_unmap_address pdir (pages_vaddr p + of_nat i * PMM_FRAME_SIZE) (hm_vmm s1);
       kunmaps_loop pdir block p is (s1\<lparr>hm_vmm := m\<rparr>)
     }"

definition kunmaps :: "u32 \<Rightarrow> pages \<Rightarrow> highmem \<Rightarrow> highmem option" where
  "kunmaps pdir p s =
     (if pages_vaddr p = 0 then Some s
      else kunmaps_loop pdir ((pages_vaddr p - PKMAP_BASE) div PMM_FRAME_SIZE) p [0..<unat (number_of_frames p)] s)"

section \<open>The slots as a frame bitmap\<close>

lemma pkmap_simps [simp]:
  "hm_vmm (pkmap_bitmap_set b s) = hm_vmm s" "hm_vmm (pkmap_bitmap_unset b s) = hm_vmm s"
  "pkmap_bitmap_test c (pkmap_bitmap_set b s) \<longleftrightarrow> c = b \<or> pkmap_bitmap_test c s"
  "pkmap_bitmap_test c (pkmap_bitmap_unset b s) \<longleftrightarrow> c \<noteq> b \<and> pkmap_bitmap_test c s"
  "pkmap_bitmap_test c (s\<lparr>hm_vmm := m\<rparr>) \<longleftrightarrow> pkmap_bitmap_test c s"
  by (simp_all add: pkmap_bitmap_set_def pkmap_bitmap_unset_def pkmap_bitmap_test_def bm_test_set bm_test_unset)

definition pkmap_limit :: "highmem \<Rightarrow> nat" where
  "pkmap_limit s = 32768"

interpretation pk: frame_bitmap pkmap_bitmap_test pkmap_bitmap_set pkmap_bitmap_unset get_pkmap_free pkmap_limit
proof
  have w: "LAST_PKMAP \<le> 134217728" by (simp add: LAST_PKMAP_def)
  fix s :: highmem and f g :: u32
  show "unat f < pkmap_limit s \<and> \<not> pkmap_bitmap_test f s" if "get_pkmap_free s = Some f"
    using bm_first_free_Some [OF that [unfolded get_pkmap_free_def] w]
    by (simp add: pkmap_limit_def LAST_PKMAP_def pkmap_bitmap_test_def)
  show "pkmap_bitmap_test g s" if "get_pkmap_free s = Some f" "g < f"
    using bm_first_free_Some [OF that(1) [unfolded get_pkmap_free_def] w] that(2) by (simp add: pkmap_bitmap_test_def)
  show "pkmap_bitmap_test g s" if "get_pkmap_free s = None" "unat g < pkmap_limit s"
    using bm_first_free_None [OF that(1) [unfolded get_pkmap_free_def] w, of g] that(2)
    by (simp add: pkmap_limit_def LAST_PKMAP_def pkmap_bitmap_test_def)
qed (simp_all add: pkmap_limit_def)

section \<open>The properties\<close>

lemma slot_address:
  assumes "unat b < 32768"
  shows "unat (b * PMM_FRAME_SIZE + PKMAP_BASE) = 4096 * (917504 + unat b)"
    and "(b * PMM_FRAME_SIZE + PKMAP_BASE - PKMAP_BASE) div PMM_FRAME_SIZE = b"
proof -
  have m: "unat (b * PMM_FRAME_SIZE) = unat b * 4096"
    using assms unfolding PMM_FRAME_SIZE_def by (subst unat_mult_lem [THEN iffD1]) simp_all
  then show "unat (b * PMM_FRAME_SIZE + PKMAP_BASE) = 4096 * (917504 + unat b)"
    using assms by (subst unat_plus_if') (simp add: PKMAP_BASE_def)
  show "(b * PMM_FRAME_SIZE + PKMAP_BASE - PKMAP_BASE) div PMM_FRAME_SIZE = b"
    using m by (simp add: word_unat_eq_iff unat_div PMM_FRAME_SIZE_def)
qed

text \<open>\<open>kmap\<close> with a free slot maps the page into the first free slot: the slot was free and is now taken,
  the processor translates its addresses to the frame of the page, and all other slots and all
  translations of other pages stay. \<open>kunmap\<close> then frees exactly this slot and takes the translation
  away again.\<close>

theorem kmap_kunmap_correct:
  assumes "paging_ok (hm_vmm s)" and "tables_used (hm_vmm s)" and "dir_pointer pdir (hm_vmm s)"
    and "get_pkmap_free s = Some b" and "unat (page_frame p) mod 4096 = 0"
    and "v = b * PMM_FRAME_SIZE + PKMAP_BASE"
    and "is_page_enabled (dir_entry (hm_vmm s) (get_page_directory_index v)) \<or> fst (pmm_alloc_block (vmm_pmm (hm_vmm s))) \<noteq> 0"
  shows "\<exists>p' s'. kmap pdir p s = Some (p', s') \<and> page_virtual p' = v \<and> \<not> pkmap_bitmap_test b s \<and>
           (\<forall>c. pkmap_bitmap_test c s' \<longleftrightarrow> c = b \<or> pkmap_bitmap_test c s) \<and> paging_ok (hm_vmm s') \<and>
           (\<forall>w. unat w < 0xFFC00000 \<longrightarrow> mmu_translate (hm_vmm s') w =
              (if w AND 0xfffff000 = v AND 0xfffff000 then Some (page_frame p + (w AND 0xfff)) else mmu_translate (hm_vmm s) w)) \<and>
           (dir_pointer pdir (hm_vmm s') \<longrightarrow>
              (\<exists>s''. kunmap pdir p' s' = Some s'' \<and> (\<forall>c. pkmap_bitmap_test c s'' \<longleftrightarrow> pkmap_bitmap_test c s) \<and>
                 mmu_translate (hm_vmm s'') v = None))"
proof -
  have b: "unat b < 32768" "\<not> pkmap_bitmap_test b s"
    using pk.first_free [OF assms(4)] by (simp_all add: pkmap_limit_def)
  have uv: "unat v = 4096 * (917504 + unat b)" using slot_address(1) [OF b(1)] assms(6) by simp
  have u: "user_dir w" if "unat w < 0xFFC00000" for w
    using that by (simp add: unat_pd_index less_mult_imp_div_less)
  have v: "user_dir v" using u uv b(1) by simp
  have fl: "unat (I86_PTE_PRESENT OR I86_PTE_WRITABLE) < 4096" "is_page_enabled (I86_PTE_PRESENT OR I86_PTE_WRITABLE)"
    by (simp_all add: I86_PTE_PRESENT_def I86_PTE_WRITABLE_def is_page_enabled_def)
  obtain m' where m': "vmm_map_address pdir v (page_frame p) (I86_PTE_PRESENT OR I86_PTE_WRITABLE) (hm_vmm s) = Some m'"
      "paging_ok m'" "\<forall>w. user_dir w \<longrightarrow> mmu_translate m' w =
         (if page_of w = page_of v then Some (page_frame p + (w AND 0xfff)) else mmu_translate (hm_vmm s) w)"
    using vmm_map_address_ok [OF assms(1-3) v assms(7) fl assms(5)] by blast
  let ?s' = "(pkmap_bitmap_set b s)\<lparr>hm_vmm := m'\<rparr>" and ?p' = "p\<lparr>page_virtual := v\<rparr>"
  have k: "kmap pdir p s = Some (?p', ?s')"
    using assms(4,6) m'(1) by (simp add: kmap_def block_number_def)
  have "\<exists>s''. kunmap pdir ?p' ?s' = Some s'' \<and> (\<forall>c. pkmap_bitmap_test c s'' \<longleftrightarrow> pkmap_bitmap_test c s) \<and>
      mmu_translate (hm_vmm s'') v = None" if dp: "dir_pointer pdir m'"
  proof -
    obtain m'' where m'': "vmm_unmap_address pdir v m' = Some m''" "mmu_translate m'' v = None"
      using vmm_unmap_address_ok [OF m'(2) dp v] by auto
    have "v \<noteq> 0" using uv by (auto simp: word_unat_eq_iff)
    then have "kunmap pdir ?p' ?s' = Some ((pkmap_bitmap_unset b ?s')\<lparr>hm_vmm := m''\<rparr>)"
      using m''(1) slot_address(2) [OF b(1)] by (simp add: kunmap_def assms(6))
    then show ?thesis using m''(2) b(2) by auto
  qed
  then show ?thesis using k b(2) m'(2,3) u by auto
qed

theorem kmap_kunmap_correct_witness:
  "\<exists>p' s'. kmap 0xC0000000 \<lparr>page_frame = 0x5000, page_virtual = 0\<rparr> \<lparr>pkmap = (\<lambda>_. 0), hm_vmm = vmm_example\<rparr> = Some (p', s') \<and>
     page_virtual p' = 0xE0000000 \<and> mmu_translate (hm_vmm s') 0xE0000010 = Some 0x5010"
proof -
  let ?s = "\<lparr>pkmap = (\<lambda>_. 0), hm_vmm = vmm_example\<rparr>" and ?p = "\<lparr>page_frame = 0x5000, page_virtual = 0\<rparr>"
  have h: "paging_ok (hm_vmm ?s)" "tables_used (hm_vmm ?s)" "dir_pointer 0xC0000000 (hm_vmm ?s)"
    using vmm_example_ok by simp_all
  have free: "get_pkmap_free ?s = Some 0"
    by (simp add: get_pkmap_free_def bm_first_free_def LAST_PKMAP_def for_find_step)
  have al: "unat (page_frame ?p) mod 4096 = 0" by simp
  have v: "0xE0000000 = (0 :: u32) * PMM_FRAME_SIZE + PKMAP_BASE" by (simp add: PKMAP_BASE_def)
  have "fst (pmm_alloc_block (vmm_pmm vmm_example)) \<noteq> 0" by code_simp
  then have alloc: "is_page_enabled (dir_entry (hm_vmm ?s) (get_page_directory_index 0xE0000000)) \<or>
      fst (pmm_alloc_block (vmm_pmm (hm_vmm ?s))) \<noteq> 0" by simp
  obtain p' s' where r: "kmap 0xC0000000 ?p ?s = Some (p', s')" "page_virtual p' = 0xE0000000"
      "\<forall>w. unat w < 0xFFC00000 \<longrightarrow> mmu_translate (hm_vmm s') w =
         (if w AND 0xfffff000 = 0xE0000000 AND 0xfffff000 then Some (page_frame ?p + (w AND 0xfff)) else mmu_translate (hm_vmm ?s) w)"
    using kmap_kunmap_correct [OF h free al v alloc] by (elim exE conjE) blast
  have "mmu_translate (hm_vmm s') 0xE0000010 = Some 0x5010" by (simp add: r(3))
  with r(1,2) show ?thesis by blast
qed

end
