(* ===== verification/Malloc.thy ===== *)
theory Malloc
  imports Vmm
begin

text \<open>
  The kernel heap, \<open>kernel/memory/malloc.c\<close> and \<open>sbrk.c\<close>: a singly linked list of blocks, each with
  a header in front of its payload, on a heap that \<open>sbrk\<close> extends page by page.

  The model keeps the headers by their addresses; the payload bytes, which the code only clears or
  copies, are not part of it. The lemmas show that an allocation returns a block of the requested size
  that overlaps no other block and leaves every block in use alone, and that a freed block is reused.
\<close>

section \<open>The state and the operations\<close>

record block_meta =
  block_size :: u32
  block_next :: u32
  block_free :: bool
  block_magic :: u32

record kheap =
  hdr :: "u32 \<Rightarrow> block_meta"
  kblocklist :: u32
  kernel_heap_current :: u32
  kernel_remaining_from_last_used :: u32
  heap_vmm :: vmm
  heap_dir :: u32

definition BLOCK_MAGIC :: u32 where
  "BLOCK_MAGIC = 0x464E"

definition KERNEL_HEAP_TOP :: u32 where
  "KERNEL_HEAP_TOP = 0xF0000000"

definition KERNEL_HEAP_BOTTOM :: u32 where
  "KERNEL_HEAP_BOTTOM = 0xD0000000"

text \<open>\<open>sizeof(struct block_meta)\<close>: two words, a \<open>bool\<close> with its padding, and a word.\<close>

definition META_SIZE :: u32 where
  "META_SIZE = 16"

abbreviation upd_hdr :: "u32 \<Rightarrow> (block_meta \<Rightarrow> block_meta) \<Rightarrow> kheap \<Rightarrow> kheap" where
  "upd_hdr a f s \<equiv> s\<lparr>hdr := (hdr s)(a := f (hdr s a))\<rparr>"

text \<open>The loop of \<open>sbrk\<close> that maps the new pages; it returns the first page address beyond the new end.\<close>

partial_function (option) sbrk_map :: "u32 \<Rightarrow> u32 \<Rightarrow> u32 \<Rightarrow> u32 \<Rightarrow> vmm \<Rightarrow> (u32 \<times> vmm) option" where
  "sbrk_map va_dir page_addr paddr heap_end m =
     (if page_addr < heap_end then
        Option.bind (vmm_map_address va_dir page_addr paddr (I86_PTE_PRESENT OR I86_PTE_WRITABLE) m)
          (sbrk_map va_dir (page_addr + PMM_FRAME_SIZE) (paddr + PMM_FRAME_SIZE) heap_end)
      else Some (page_addr, m))"

definition sbrk :: "u32 \<Rightarrow> kheap \<Rightarrow> (u32 \<times> kheap) option" where
  "sbrk n s =
     (if n = 0 then Some (kernel_heap_current s, s)
      else
        do {
          let heap_base = kernel_heap_current s;
          s1 \<leftarrow>
            (if n \<le> kernel_remaining_from_last_used s then
               Some (s\<lparr>kernel_remaining_from_last_used := kernel_remaining_from_last_used s - n\<rparr>)
             else
               do {
                 let (paddr, pm) = pmm_alloc_blocks (div_ceil (n - kernel_remaining_from_last_used s) PMM_FRAME_SIZE)
                                     (vmm_pmm (heap_vmm s));
                 let page_addr = div_ceil (kernel_heap_current s) PMM_FRAME_SIZE * PMM_FRAME_SIZE;
                 (page_addr, m) \<leftarrow> sbrk_map (heap_dir s) page_addr paddr (kernel_heap_current s + n)
                                     ((heap_vmm s)\<lparr>vmm_pmm := pm\<rparr>);
                 Some (s\<lparr>heap_vmm := m,
                         kernel_remaining_from_last_used := page_addr - (kernel_heap_current s + n)\<rparr>)
               });
          Some (heap_base, s1\<lparr>kernel_heap_current := kernel_heap_current s1 + n\<rparr>)
        })"

text \<open>A failed assertion does not return.\<close>

definition assert_kblock_valid :: "u32 \<Rightarrow> kheap \<Rightarrow> unit option" where
  "assert_kblock_valid block s =
     (if block_magic (hdr s block) \<noteq> BLOCK_MAGIC \<or> 0x2000000 < block_size (hdr s block) then None else Some ())"

text \<open>The result is the block and the last block visited; address 0 is \<open>NULL\<close>.\<close>

partial_function (option) find_free_block_loop :: "u32 \<Rightarrow> kheap \<Rightarrow> u32 \<Rightarrow> u32 \<Rightarrow> (u32 \<times> u32) option" where
  "find_free_block_loop sz s lst current =
     (if current \<noteq> 0 \<and> \<not> (block_free (hdr s current) \<and> sz \<le> block_size (hdr s current)) then
        Option.bind (assert_kblock_valid current s) (\<lambda>_.
          let nxt = block_next (hdr s current)
          in Option.bind (if nxt \<noteq> 0 then assert_kblock_valid nxt s else Some ())
               (\<lambda>_. find_free_block_loop sz s current nxt))
      else Some (current, lst))"

definition find_free_block :: "u32 \<Rightarrow> u32 \<Rightarrow> kheap \<Rightarrow> (u32 \<times> u32) option" where
  "find_free_block lst sz s = find_free_block_loop sz s lst (kblocklist s)"

definition split_block :: "u32 \<Rightarrow> u32 \<Rightarrow> kheap \<Rightarrow> kheap" where
  "split_block block sz s =
     (if sz + META_SIZE < block_size (hdr s block) then
        let splited_block = block + META_SIZE + sz;
            s1 = upd_hdr splited_block (\<lambda>_. \<lparr>block_size = block_size (hdr s block) - sz - META_SIZE,
                   block_next = block_next (hdr s block), block_free = True, block_magic = BLOCK_MAGIC\<rparr>) s
        in upd_hdr block (\<lambda>b. b\<lparr>block_size := sz, block_next := splited_block\<rparr>) s1
      else s)"

definition request_space :: "u32 \<Rightarrow> u32 \<Rightarrow> kheap \<Rightarrow> (u32 \<times> kheap) option" where
  "request_space lst sz s =
     do {
       (block, s1) \<leftarrow> sbrk (sz + META_SIZE) s;
       let s2 = (if lst \<noteq> 0 then upd_hdr lst (\<lambda>b. b\<lparr>block_next := block\<rparr>) s1 else s1);
       Some (block, upd_hdr block (\<lambda>_. \<lparr>block_size = sz, block_next = 0, block_free = False, block_magic = BLOCK_MAGIC\<rparr>) s2)
     }"

definition kmalloc :: "u32 \<Rightarrow> kheap \<Rightarrow> (u32 \<times> kheap) option" where
  "kmalloc n s =
     (if n = 0 then Some (0, s)
      else
        do {
          let sz = ALIGN_UP n 4;
          (block, s1) \<leftarrow>
            (if kblocklist s \<noteq> 0 then
               do {
                 (block, lst) \<leftarrow> find_free_block (kblocklist s) sz s;
                 (if block \<noteq> 0 then Some (block, split_block block sz (upd_hdr block (\<lambda>b. b\<lparr>block_free := False\<rparr>) s))
                  else request_space lst sz s)
               }
             else
               do {
                 (block, s1) \<leftarrow> request_space 0 sz s;
                 Some (block, s1\<lparr>kblocklist := block\<rparr>)
               });
          assert_kblock_valid block s1;
          Some (if block \<noteq> 0 then block + META_SIZE else 0, s1)
        })"

definition kcalloc :: "u32 \<Rightarrow> u32 \<Rightarrow> kheap \<Rightarrow> (u32 \<times> kheap) option" where
  "kcalloc n sz s = kmalloc (n * sz) s"

definition get_block_ptr :: "u32 \<Rightarrow> u32" where
  "get_block_ptr ptr = ptr - META_SIZE"

definition kfree :: "u32 \<Rightarrow> kheap \<Rightarrow> kheap option" where
  "kfree ptr s =
     (if ptr = 0 then Some s
      else
        do {
          let block = get_block_ptr ptr;
          assert_kblock_valid block s;
          Some (upd_hdr block (\<lambda>b. b\<lparr>block_free := True\<rparr>) s)
        })"

text \<open>The inner loop of \<open>kalign_heap\<close> as it is written: it follows \<open>next\<close> while it is \<open>NULL\<close>, so it
  ends at once, or it reads the header at address 0.\<close>

definition kalign_last :: "kheap \<Rightarrow> u32 option" where
  "kalign_last s = (if block_next (hdr s (kblocklist s)) \<noteq> 0 then Some (kblocklist s) else None)"

partial_function (option) kalign_loop :: "u32 \<Rightarrow> u32 \<Rightarrow> kheap \<Rightarrow> (u32 \<times> kheap) option" where
  "kalign_loop sz padding_size s =
     (if padding_size \<le> KERNEL_HEAP_TOP then
        (if META_SIZE * 2 < padding_size then
           Option.bind (kalign_last s) (\<lambda>lst.
             map_option (\<lambda>(block, s1). (block + META_SIZE, s1)) (request_space lst (padding_size - META_SIZE * 2) s))
         else kalign_loop sz (padding_size + sz) s)
      else Some (0, s))"

definition kalign_heap :: "u32 \<Rightarrow> kheap \<Rightarrow> (u32 \<times> kheap) option" where
  "kalign_heap sz s =
     do {
       (heap_addr, s) \<leftarrow> sbrk 0 s;
       (if heap_addr mod sz = 0 then Some (0, s)
        else kalign_loop sz (div_ceil heap_addr sz * sz - heap_addr) s)
     }"

definition krealloc :: "u32 \<Rightarrow> u32 \<Rightarrow> kheap \<Rightarrow> (u32 \<times> kheap) option" where
  "krealloc ptr sz s =
     (if ptr = 0 \<and> sz = 0 then map_option (\<lambda>s1. (0, s1)) (kfree ptr s)
      else kcalloc sz 1 s)"

section \<open>The list of blocks\<close>

abbreviation block_end :: "(u32 \<Rightarrow> block_meta) \<Rightarrow> u32 \<Rightarrow> nat" where
  "block_end h a \<equiv> unat a + 16 + unat (block_size (h a))"

text \<open>The blocks at the addresses \<open>as\<close> are linked in this order, in increasing order of addresses and without
  overlap; the last one points to \<open>q\<close> and ends at \<open>e\<close> or before.\<close>

primrec block_seg :: "(u32 \<Rightarrow> block_meta) \<Rightarrow> u32 list \<Rightarrow> u32 \<Rightarrow> nat \<Rightarrow> bool" where
  "block_seg h [] q e \<longleftrightarrow> True"
| "block_seg h (a # as) q e \<longleftrightarrow>
     a \<noteq> 0 \<and> block_magic (h a) = BLOCK_MAGIC \<and> unat (block_size (h a)) \<le> 0x2000000 \<and>
     block_next (h a) = (case as of [] \<Rightarrow> q | b # _ \<Rightarrow> b) \<and>
     block_end h a \<le> (case as of [] \<Rightarrow> e | b # _ \<Rightarrow> unat b) \<and> block_seg h as q e"

definition heap_inv :: "kheap \<Rightarrow> u32 list \<Rightarrow> bool" where
  "heap_inv s as \<longleftrightarrow>
     block_seg (hdr s) as 0 (unat (kernel_heap_current s)) \<and>
     kblocklist s = (case as of [] \<Rightarrow> 0 | a # _ \<Rightarrow> a) \<and> kernel_heap_current s \<noteq> 0"

lemma block_seg_append:
  "block_seg h (xs @ y # ys) q e \<longleftrightarrow> block_seg h xs y (unat y) \<and> block_seg h (y # ys) q e"
proof (induction xs)
  case (Cons x xs)
  then show ?case by (cases xs) auto
qed simp

lemma block_seg_cong: "(\<And>a. a \<in> set as \<Longrightarrow> h' a = h a) \<Longrightarrow> block_seg h' as q e = block_seg h as q e"
  by (induction as) (auto split: list.split)

lemma block_seg_mono: "block_seg h as q e \<Longrightarrow> e \<le> e' \<Longrightarrow> block_seg h as q e'"
  by (induction as) (auto split: list.splits)

lemma block_seg_end: "block_seg h as q e \<Longrightarrow> a \<in> set as \<Longrightarrow> block_end h a \<le> e"
proof (induction as arbitrary: a)
  case (Cons b as)
  have rest: "block_end h c \<le> e" if "c \<in> set as" for c using Cons.IH [OF _ that] Cons.prems(1) by simp
  have "block_end h b \<le> e"
  proof (cases as)
    case Nil
    then show ?thesis using Cons.prems(1) by simp
  next
    case (Cons c cs)
    then show ?thesis using rest [of c] \<open>block_seg h (b # as) q e\<close> by auto
  qed
  with rest Cons.prems(2) show ?case by auto
qed simp

text \<open>All blocks of a segment lie behind the first one.\<close>

lemma block_seg_after: "block_seg h (a # as) q e \<Longrightarrow> b \<in> set as \<Longrightarrow> block_end h a \<le> unat b"
proof (induction as arbitrary: a)
  case (Cons c cs)
  show ?case
  proof (cases "b = c")
    case False
    then have "block_end h c \<le> unat b" using Cons.IH [of c] Cons.prems by auto
    moreover have "block_end h a \<le> unat c" using Cons.prems(1) by simp
    ultimately show ?thesis by linarith
  qed (use Cons.prems in simp)
qed simp

lemma block_seg_before: "block_seg h as q (unat e) \<Longrightarrow> a \<in> set as \<Longrightarrow> unat a < unat e"
  using block_seg_end [of h as q "unat e" a] by simp

text \<open>Two blocks do not overlap.\<close>

lemma block_seg_disjoint:
  "block_seg h as q e \<Longrightarrow> a \<in> set as \<Longrightarrow> b \<in> set as \<Longrightarrow> a \<noteq> b \<Longrightarrow> block_end h a \<le> unat b \<or> block_end h b \<le> unat a"
proof (induction as)
  case (Cons c cs)
  consider "a = c" "b \<in> set cs" | "b = c" "a \<in> set cs" | "a \<in> set cs" "b \<in> set cs"
    using Cons.prems by auto
  then show ?case
  proof cases
    case 1
    then show ?thesis using block_seg_after [OF Cons.prems(1)] by auto
  next
    case 2
    then show ?thesis using block_seg_after [OF Cons.prems(1)] by auto
  next
    case 3
    then show ?thesis using Cons.IH Cons.prems by auto
  qed
qed simp

lemma block_seg_distinct: "block_seg h as q e \<Longrightarrow> distinct as"
proof (induction as)
  case (Cons a as)
  have "a \<notin> set as" using block_seg_after [OF Cons.prems, of a] by auto
  with Cons show ?case by simp
qed simp

lemma block_seg_valid: "block_seg h as q e \<Longrightarrow> a \<in> set as \<Longrightarrow> a \<noteq> 0 \<and> block_magic (h a) = BLOCK_MAGIC \<and> unat (block_size (h a)) \<le> 0x2000000"
  by (induction as) auto

lemma assert_valid:
  assumes "block_seg (hdr s) as q e" and "a \<in> set as"
  shows "assert_kblock_valid a s = Some ()"
proof -
  have "\<not> 0x2000000 < block_size (hdr s a)"
    using block_seg_valid [OF assms] by (simp add: word_less_nat_alt)
  then show ?thesis using block_seg_valid [OF assms] by (simp add: assert_kblock_valid_def)
qed

section \<open>The search\<close>

abbreviation fits :: "u32 \<Rightarrow> kheap \<Rightarrow> u32 \<Rightarrow> bool" where
  "fits sz s a \<equiv> block_free (hdr s a) \<and> sz \<le> block_size (hdr s a)"

lemma find_free_block_loop_eq:
  assumes "block_seg (hdr s) as 0 e"
  shows "find_free_block_loop sz s lst (case as of [] \<Rightarrow> 0 | a # _ \<Rightarrow> a) =
    Some (case dropWhile (\<lambda>a. \<not> fits sz s a) as of [] \<Rightarrow> 0 | b # _ \<Rightarrow> b,
          last (lst # takeWhile (\<lambda>a. \<not> fits sz s a) as))"
  using assms
proof (induction as arbitrary: lst)
  case Nil
  then show ?case by (subst find_free_block_loop.simps) simp
next
  case (Cons a as)
  have seg: "block_seg (hdr s) as 0 e" using Cons.prems by simp
  have nx: "block_next (hdr s a) = (case as of [] \<Rightarrow> 0 | b # _ \<Rightarrow> b)" and ne: "a \<noteq> 0" using Cons.prems by auto
  show ?case
  proof (cases "fits sz s a")
    case True
    then show ?thesis by (subst find_free_block_loop.simps) simp
  next
    case False
    have va: "assert_kblock_valid a s = Some ()" by (rule assert_valid [OF Cons.prems]) simp
    have vn: "(if block_next (hdr s a) \<noteq> 0 then assert_kblock_valid (block_next (hdr s a)) s else Some ()) = Some ()"
      using assert_valid [OF seg] nx by (cases as) auto
    have "find_free_block_loop sz s lst a = find_free_block_loop sz s a (block_next (hdr s a))"
      using False ne va vn by (subst find_free_block_loop.simps) (simp add: Let_def)
    then show ?thesis using Cons.IH [OF seg, of a] nx False by simp
  qed
qed

section \<open>Allocation\<close>

text \<open>A new block at the end of the heap.\<close>

lemma sbrk_base:
  assumes "sbrk n s = Some (b, s')" and "n \<noteq> 0"
  shows "b = kernel_heap_current s" "kernel_heap_current s' = kernel_heap_current s + n" "hdr s' = hdr s" "kblocklist s' = kblocklist s"
  using assms by (auto simp: sbrk_def Let_def bind_eq_Some_conv split: if_splits prod.splits)

lemma request_space_inv:
  assumes inv: "heap_inv s as" and sz: "0 < unat sz" "unat sz \<le> 0x2000000"
    and room: "unat (kernel_heap_current s) + 16 + unat sz < 4294967296"
    and sb: "sbrk (sz + META_SIZE) s = Some (b, s1)" and lst: "lst = (if as = [] then 0 else last as)"
  shows "\<exists>s2. request_space lst sz s = Some (b, s2) \<and> b = kernel_heap_current s \<and>
           block_seg (hdr s2) (as @ [b]) 0 (unat (kernel_heap_current s2)) \<and>
           kernel_heap_current s2 = kernel_heap_current s + sz + META_SIZE \<and> kblocklist s2 = kblocklist s \<and>
           hdr s2 b = \<lparr>block_size = sz, block_next = 0, block_free = False, block_magic = BLOCK_MAGIC\<rparr> \<and>
           (\<forall>a \<in> set as. a \<noteq> b \<and> hdr s2 a = (hdr s a)\<lparr>block_next := block_next (hdr s2 a)\<rparr>)"
proof -
  have u: "unat (sz + META_SIZE) = unat sz + 16" using sz by (simp add: META_SIZE_def unat_plus_if')
  have ne: "sz + META_SIZE \<noteq> 0"
  proof
    assume "sz + META_SIZE = 0"
    with u show False by simp
  qed
  have cur: "unat (kernel_heap_current s + (sz + META_SIZE)) = unat (kernel_heap_current s) + 16 + unat sz"
    using u room by (subst unat_plus_if') simp
  note base = sbrk_base [OF sb ne]
  let ?new = "\<lparr>block_size = sz, block_next = 0, block_free = False, block_magic = BLOCK_MAGIC\<rparr>"
  let ?s2 = "upd_hdr b (\<lambda>_. ?new) (if lst \<noteq> 0 then upd_hdr lst (\<lambda>x. x\<lparr>block_next := b\<rparr>) s1 else s1)"
  have seg: "block_seg (hdr s) as 0 (unat (kernel_heap_current s))" and c0: "kernel_heap_current s \<noteq> 0"
    using inv by (auto simp: heap_inv_def)
  have fresh: "a \<noteq> b" if "a \<in> set as" for a
    using block_seg_before [OF seg that] base(1) by auto
  have last0: "as \<noteq> [] \<Longrightarrow> lst \<noteq> 0" using block_seg_valid [OF seg, of lst] lst by simp
  have h: "hdr ?s2 a = (hdr s a)\<lparr>block_next := (if a = lst then b else block_next (hdr s a))\<rparr>" if "a \<in> set as" for a
  proof -
    have "as \<noteq> []" using that by auto
    then show ?thesis using last0 fresh [OF that] base(3) by simp
  qed
  have new: "hdr ?s2 b = ?new" by simp
  have "block_seg (hdr ?s2) as b (unat b)"
  proof (cases as rule: rev_cases)
    case Nil
    then show ?thesis by simp
  next
    case (snoc bs l)
    have l: "lst = l" using lst snoc by simp
    have "l \<notin> set bs" using block_seg_distinct [OF seg] snoc by simp
    then have eq: "hdr ?s2 a = hdr s a" if "a \<in> set bs" for a using h [of a] that snoc l by auto
    have "block_seg (hdr s) bs l (unat l)" "block_seg (hdr s) [l] 0 (unat (kernel_heap_current s))"
      using seg snoc block_seg_append [of "hdr s" bs l "[]"] by simp_all
    moreover have "hdr ?s2 l = (hdr s l)\<lparr>block_next := b\<rparr>" using h [of l] snoc l by simp
    ultimately have "block_seg (hdr ?s2) bs l (unat l)" "block_seg (hdr ?s2) [l] b (unat b)"
      using block_seg_cong [of bs "hdr ?s2" "hdr s" l "unat l"] eq base(1) by simp_all
    then show ?thesis using snoc block_seg_append [of "hdr ?s2" bs l "[]"] by simp
  qed
  moreover have "block_seg (hdr ?s2) [b] 0 (unat (kernel_heap_current s1))"
    using c0 base sz cur new by simp
  ultimately have "block_seg (hdr ?s2) (as @ [b]) 0 (unat (kernel_heap_current s1))"
    using block_seg_append [of "hdr ?s2" as b "[]"] by simp
  then show ?thesis
    using sb base fresh h new by (intro exI [of _ ?s2]) (auto simp: request_space_def Let_def add.assoc)
qed

text \<open>A free block that is large enough is cut when the rest has room for a header.\<close>

lemma split_block_inv:
  assumes inv: "heap_inv s (pre @ b # suf)" and fit: "sz \<le> block_size (hdr s b)"
  shows "\<exists>as. heap_inv (split_block b sz s) as \<and> b \<in> set as \<and> set (pre @ suf) \<subseteq> set as \<and>
           (\<forall>a \<in> set (pre @ suf). hdr (split_block b sz s) a = hdr s a) \<and>
           sz \<le> block_size (hdr (split_block b sz s) b) \<and> block_free (hdr (split_block b sz s) b) = block_free (hdr s b) \<and>
           kernel_heap_current (split_block b sz s) = kernel_heap_current s"
proof (cases "sz + META_SIZE < block_size (hdr s b)")
  case False
  then show ?thesis using inv fit
    by (intro exI [of _ "pre @ b # suf"]) (auto simp: split_block_def)
next
  case True
  let ?e = "unat (kernel_heap_current s)" and ?sb = "b + META_SIZE + sz"
  let ?new = "\<lparr>block_size = block_size (hdr s b) - sz - META_SIZE, block_next = block_next (hdr s b), block_free = True, block_magic = BLOCK_MAGIC\<rparr>"
  let ?s = "split_block b sz s"
  have segs: "block_seg (hdr s) pre b (unat b)" "block_seg (hdr s) (b # suf) 0 ?e" and c0: "kernel_heap_current s \<noteq> 0"
    using inv block_seg_append [of "hdr s" pre b suf 0 ?e] by (auto simp: heap_inv_def)
  have bend: "block_end (hdr s) b \<le> ?e" using block_seg_end [OF segs(2), of b] by simp
  have small: "unat (block_size (hdr s b)) \<le> 0x2000000" using segs(2) by simp
  have szs: "unat (sz + META_SIZE) = unat sz + 16"
    using fit small by (simp add: META_SIZE_def unat_plus_if' word_le_nat_alt)
  then have lt: "unat sz + 16 < unat (block_size (hdr s b))" using True by (simp add: word_less_nat_alt)
  have usb: "unat ?sb = unat b + 16 + unat sz"
    using bend lt u32_bound [of "kernel_heap_current s"] by (simp add: META_SIZE_def unat_plus_if')
  have rest: "unat (block_size (hdr s b) - sz - META_SIZE) = unat (block_size (hdr s b)) - unat sz - 16"
  proof -
    have "block_size (hdr s b) - sz - META_SIZE = block_size (hdr s b) - (sz + META_SIZE)" by simp
    moreover have "unat (block_size (hdr s b) - (sz + META_SIZE)) = unat (block_size (hdr s b)) - (unat sz + 16)"
      using True szs by (subst unat_sub) simp_all
    ultimately show ?thesis by (metis diff_diff_left)
  qed
  have sb_suf: "?sb \<noteq> a" if "a \<in> set suf" for a
    using block_seg_after [OF segs(2) that] usb lt by auto
  have sb_pre: "?sb \<noteq> a" "b \<noteq> a" if "a \<in> set pre" for a
    using block_seg_before [OF segs(1) that] usb by auto
  have sb_b: "?sb \<noteq> b"
  proof
    assume "?sb = b"
    with usb have "unat b = unat b + 16 + unat sz" by metis
    then show False by simp
  qed
  have b_suf: "b \<noteq> a" if "a \<in> set suf" for a
    using block_seg_after [OF segs(2) that] by auto
  have h: "hdr ?s = (hdr s)(?sb := ?new, b := (hdr s b)\<lparr>block_size := sz, block_next := ?sb\<rparr>)"
    using True sb_b by (auto simp: split_block_def Let_def)
  have keep: "hdr ?s a = hdr s a" if "a \<in> set (pre @ suf)" for a
    using that sb_suf [of a] sb_pre [of a] b_suf [of a] unfolding h by auto
  have "block_seg (hdr ?s) pre b (unat b)"
    using segs(1) block_seg_cong [of pre "hdr ?s" "hdr s"] keep by simp
  moreover have "block_seg (hdr ?s) suf 0 ?e"
    using segs(2) block_seg_cong [of suf "hdr ?s" "hdr s"] keep by simp
  moreover have "hdr ?s ?sb = ?new" "hdr ?s b = (hdr s b)\<lparr>block_size := sz, block_next := ?sb\<rparr>"
    using sb_b unfolding h by simp_all
  moreover have "?sb \<noteq> 0" using usb by auto
  ultimately have "block_seg (hdr ?s) (pre @ b # ?sb # suf) 0 ?e"
    using segs(2) usb rest lt small by (simp add: block_seg_append)
  moreover have "kernel_heap_current ?s = kernel_heap_current s" "kblocklist ?s = kblocklist s"
    by (simp_all add: split_block_def Let_def)
  ultimately have "heap_inv ?s (pre @ b # ?sb # suf)"
    using inv c0 by (cases pre) (auto simp: heap_inv_def)
  then show ?thesis
    using keep h sb_b \<open>kernel_heap_current ?s = kernel_heap_current s\<close>
    by (intro exI [of _ "pre @ b # ?sb # suf"]) auto
qed

lemma align_request:
  assumes "n \<noteq> 0" and "unat n \<le> 0x1fffffc"
  shows "0 < unat (ALIGN_UP n 4)" "unat (ALIGN_UP n 4) \<le> 0x2000000" "n \<le> ALIGN_UP n 4"
proof -
  have u: "unat (ALIGN_UP n 4) = (unat n + 3) div 4 * 4" using assms(2) by (intro unat_ALIGN_UP_4) simp
  have ge: "unat n \<le> (unat n + 3) div 4 * 4" by presburger
  have "0 < unat n" using assms(1) by (simp add: unat_gt_0)
  then show "0 < unat (ALIGN_UP n 4)" "unat (ALIGN_UP n 4) \<le> 0x2000000" "n \<le> ALIGN_UP n 4"
    using u ge assms(2) by (simp_all add: word_le_nat_alt)
qed

text \<open>What an allocation promises: a block \<open>b\<close> of at least \<open>n\<close> bytes that no one had, and every block in use as
  it was.\<close>

definition allocated :: "u32 \<Rightarrow> kheap \<Rightarrow> u32 list \<Rightarrow> u32 \<Rightarrow> kheap \<Rightarrow> u32 list \<Rightarrow> bool" where
  "allocated n s as b s' as' \<longleftrightarrow>
     heap_inv s' as' \<and> b \<in> set as' \<and> \<not> block_free (hdr s' b) \<and> n \<le> block_size (hdr s' b) \<and>
     (b \<in> set as \<longrightarrow> block_free (hdr s b)) \<and>
     (\<forall>a \<in> set as. \<not> block_free (hdr s a) \<longrightarrow>
        a \<in> set as' \<and> a \<noteq> b \<and> \<not> block_free (hdr s' a) \<and> block_size (hdr s' a) = block_size (hdr s a))"

lemma request_space_allocated:
  assumes inv: "heap_inv s as" and n: "n \<noteq> 0" "unat n \<le> 0x1fffffc"
    and room: "unat (kernel_heap_current s) + 16 + unat (ALIGN_UP n 4) < 4294967296"
    and sb: "sbrk (ALIGN_UP n 4 + META_SIZE) s = Some r"
  shows "\<exists>b s2. request_space (if as = [] then 0 else last as) (ALIGN_UP n 4) s = Some (b, s2) \<and> b \<noteq> 0 \<and>
           allocated n s as b (if as = [] then s2\<lparr>kblocklist := b\<rparr> else s2) (as @ [b])"
proof -
  obtain b s1 where r: "r = (b, s1)" by (cases r)
  note al = align_request [OF n]
  obtain s2 where s2: "request_space (if as = [] then 0 else last as) (ALIGN_UP n 4) s = Some (b, s2)" "b = kernel_heap_current s"
      "block_seg (hdr s2) (as @ [b]) 0 (unat (kernel_heap_current s2))"
      "kernel_heap_current s2 = kernel_heap_current s + ALIGN_UP n 4 + META_SIZE" "kblocklist s2 = kblocklist s"
      "hdr s2 b = \<lparr>block_size = ALIGN_UP n 4, block_next = 0, block_free = False, block_magic = BLOCK_MAGIC\<rparr>"
      "\<forall>a \<in> set as. a \<noteq> b \<and> hdr s2 a = (hdr s a)\<lparr>block_next := block_next (hdr s2 a)\<rparr>"
    using request_space_inv [OF inv al(1,2) room sb [unfolded r] refl] by blast
  have c0: "kernel_heap_current s \<noteq> 0" using inv by (simp add: heap_inv_def)
  have "unat (kernel_heap_current s2) = unat (kernel_heap_current s) + unat (ALIGN_UP n 4) + 16"
    using room al(2) unfolding s2(4) by (simp add: META_SIZE_def unat_plus_if')
  then have c2: "kernel_heap_current s2 \<noteq> 0" using al(1) by auto
  have hinv: "heap_inv (if as = [] then s2\<lparr>kblocklist := b\<rparr> else s2) (as @ [b])"
    using s2(3,5) inv c2 by (cases as) (auto simp: heap_inv_def)
  have keep: "block_free (hdr s2 a) = block_free (hdr s a)" "block_size (hdr s2 a) = block_size (hdr s a)" if "a \<in> set as" for a
  proof -
    have eq: "hdr s2 a = (hdr s a)\<lparr>block_next := block_next (hdr s2 a)\<rparr>" using s2(7) that by blast
    show "block_free (hdr s2 a) = block_free (hdr s a)" using arg_cong [OF eq, of block_free] by simp
    show "block_size (hdr s2 a) = block_size (hdr s a)" using arg_cong [OF eq, of block_size] by simp
  qed
  show ?thesis
    using s2(1,2,6,7) c0 hinv keep al(3)
    by (intro exI [of _ b] exI [of _ s2]) (auto simp: allocated_def)
qed

lemma split_block_allocated:
  assumes inv: "heap_inv s (pre @ b # suf)" and fr: "block_free (hdr s b)" and fit: "sz \<le> block_size (hdr s b)" and n: "n \<le> sz"
  shows "\<exists>as'. allocated n s (pre @ b # suf) b (split_block b sz (upd_hdr b (\<lambda>x. x\<lparr>block_free := False\<rparr>) s)) as'"
proof -
  let ?s1 = "upd_hdr b (\<lambda>x. x\<lparr>block_free := False\<rparr>) s"
  have seg: "block_seg (hdr s) (pre @ b # suf) 0 (unat (kernel_heap_current s))" using inv by (simp add: heap_inv_def)
  have d: "b \<notin> set pre" "b \<notin> set suf" using block_seg_distinct [OF seg] by auto
  have eq: "block_seg (hdr ?s1) as q e = block_seg (hdr s) as q e" for as q e
    by (induction as) (auto split: list.split)
  have inv1: "heap_inv ?s1 (pre @ b # suf)" using inv eq by (simp add: heap_inv_def)
  obtain as' where as': "heap_inv (split_block b sz ?s1) as'" "b \<in> set as'" "set (pre @ suf) \<subseteq> set as'"
      "\<forall>a \<in> set (pre @ suf). hdr (split_block b sz ?s1) a = hdr ?s1 a" "sz \<le> block_size (hdr (split_block b sz ?s1) b)"
      "block_free (hdr (split_block b sz ?s1) b) = block_free (hdr ?s1 b)"
    using split_block_inv [OF inv1, of sz] fit by auto
  have "hdr (split_block b sz ?s1) a = hdr s a" if "a \<in> set (pre @ suf)" for a
    using as'(4) that d by auto
  then show ?thesis
    using as'(1-3,5,6) fr n by (intro exI [of _ as']) (auto simp: allocated_def)
qed

lemma dropWhile_split: "dropWhile P xs = b # ys \<Longrightarrow> \<exists>zs. xs = zs @ b # ys \<and> \<not> P b"
  by (metis hd_dropWhile list.distinct(1) list.sel(1) takeWhile_dropWhile_id)

lemma allocated_valid: "allocated n s as b s' as' \<Longrightarrow> assert_kblock_valid b s' = Some ()"
  using assert_valid [of s' as' 0 _ b] by (auto simp: allocated_def heap_inv_def)

text \<open>The search from the head of a well-formed list.\<close>

lemma find_free_block_eq:
  assumes inv: "heap_inv s as"
  shows "find_free_block (kblocklist s) sz s =
    Some (case dropWhile (\<lambda>a. \<not> fits sz s a) as of [] \<Rightarrow> 0 | b # _ \<Rightarrow> b,
          last (kblocklist s # takeWhile (\<lambda>a. \<not> fits sz s a) as))"
proof -
  have seg: "block_seg (hdr s) as 0 (unat (kernel_heap_current s))"
    and bl: "kblocklist s = (case as of [] \<Rightarrow> 0 | a # _ \<Rightarrow> a)" using inv by (auto simp: heap_inv_def)
  show ?thesis
    using find_free_block_loop_eq [OF seg, of sz "kblocklist s"] unfolding find_free_block_def bl [symmetric] .
qed

lemma find_free_block_none:
  assumes inv: "heap_inv s as" and none: "\<forall>a \<in> set as. \<not> fits sz s a" and ne: "as \<noteq> []"
  shows "find_free_block (kblocklist s) sz s = Some (0, last as)"
proof -
  have tw: "takeWhile (\<lambda>a. \<not> fits sz s a) as = as" "dropWhile (\<lambda>a. \<not> fits sz s a) as = []"
    using none by (auto simp: takeWhile_eq_all_conv dropWhile_eq_Nil_conv)
  show ?thesis using find_free_block_eq [OF inv, of sz] ne unfolding tw by simp
qed

lemma find_free_block_some:
  assumes inv: "heap_inv s as" and "a \<in> set as" "fits sz s a"
  obtains pre c suf lst where "as = pre @ c # suf" "fits sz s c" "find_free_block (kblocklist s) sz s = Some (c, lst)"
proof -
  have "dropWhile (\<lambda>a. \<not> fits sz s a) as \<noteq> []" using assms(2,3) by (auto simp: dropWhile_eq_Nil_conv)
  then obtain c suf where c: "dropWhile (\<lambda>a. \<not> fits sz s a) as = c # suf" unfolding neq_Nil_conv by blast
  obtain pre where "as = pre @ c # suf" "fits sz s c" using dropWhile_split [OF c] by auto
  moreover have "find_free_block (kblocklist s) sz s = Some (c, last (kblocklist s # takeWhile (\<lambda>a. \<not> fits sz s a) as))"
    using find_free_block_eq [OF inv, of sz] c by simp
  ultimately show ?thesis by (rule that)
qed

lemma heap_inv_nonzero: "heap_inv s as \<Longrightarrow> a \<in> set as \<Longrightarrow> a \<noteq> 0"
  using block_seg_valid [of "hdr s" as 0 _ a] by (auto simp: heap_inv_def)

lemma heap_inv_list: "heap_inv s as \<Longrightarrow> as \<noteq> [] \<Longrightarrow> kblocklist s \<noteq> 0"
  by (cases as) (auto simp: heap_inv_def)

text \<open>A free block of the size is used, and the heap does not grow.\<close>

lemma kmalloc_reuses:
  assumes inv: "heap_inv s as" and n: "n \<noteq> 0" "unat n \<le> 0x1fffffc" and a: "a \<in> set as" "fits (ALIGN_UP n 4) s a"
  shows "\<exists>b s' as'. kmalloc n s = Some (b + META_SIZE, s') \<and> allocated n s as b s' as' \<and>
           kernel_heap_current s' = kernel_heap_current s"
proof -
  let ?sz = "ALIGN_UP n 4"
  obtain pre c suf lst where as: "as = pre @ c # suf" "fits ?sz s c" and f: "find_free_block (kblocklist s) ?sz s = Some (c, lst)"
    by (rule find_free_block_some [OF inv a])
  let ?s' = "split_block c ?sz (upd_hdr c (\<lambda>x. x\<lparr>block_free := False\<rparr>) s)"
  obtain as' where al: "allocated n s as c ?s' as'"
    using split_block_allocated [of s pre c suf ?sz n] inv as(2) align_request(3) [OF n] unfolding as(1) by blast
  have "kernel_heap_current ?s' = kernel_heap_current s" by (simp add: split_block_def Let_def)
  moreover have "kmalloc n s = Some (c + META_SIZE, ?s')"
    using f n(1) heap_inv_list [OF inv] heap_inv_nonzero [OF inv, of c] allocated_valid [OF al] as(1)
    by (simp add: kmalloc_def Let_def)
  ultimately show ?thesis using al by blast
qed

lemma kmalloc_extends:
  assumes inv: "heap_inv s as" and n: "n \<noteq> 0" "unat n \<le> 0x1fffffc" and none: "\<forall>a \<in> set as. \<not> fits (ALIGN_UP n 4) s a"
    and room: "unat (kernel_heap_current s) + 16 + unat (ALIGN_UP n 4) < 4294967296"
    and sb: "sbrk (ALIGN_UP n 4 + META_SIZE) s = Some r"
  shows "\<exists>b s' as'. kmalloc n s = Some (b + META_SIZE, s') \<and> allocated n s as b s' as'"
proof -
  let ?sz = "ALIGN_UP n 4"
  obtain b s2 where new: "request_space (if as = [] then 0 else last as) ?sz s = Some (b, s2)" "b \<noteq> 0"
      "allocated n s as b (if as = [] then s2\<lparr>kblocklist := b\<rparr> else s2) (as @ [b])"
    using request_space_allocated [OF inv n room sb] by blast
  note new_valid = allocated_valid [OF new(3)]
  have "kmalloc n s = Some (b + META_SIZE, if as = [] then s2\<lparr>kblocklist := b\<rparr> else s2)"
  proof (cases "as = []")
    case True
    then have "kblocklist s = 0" using inv by (simp add: heap_inv_def)
    then show ?thesis using True new(1,2) new_valid n(1) by (simp add: kmalloc_def Let_def)
  next
    case False
    then show ?thesis
      using new(1,2) new_valid n(1) find_free_block_none [OF inv none False] heap_inv_list [OF inv False]
      by (simp add: kmalloc_def Let_def)
  qed
  with new(3) show ?thesis by blast
qed

section \<open>The properties\<close>

text \<open>A heap with a block in use, a free one and another in use.\<close>

definition heap_example :: kheap where
  "heap_example =
     \<lparr>hdr = (\<lambda>_. \<lparr>block_size = 0, block_next = 0, block_free = False, block_magic = 0\<rparr>)
        (0xD0000000 := \<lparr>block_size = 16, block_next = 0xD0000020, block_free = False, block_magic = BLOCK_MAGIC\<rparr>,
         0xD0000020 := \<lparr>block_size = 64, block_next = 0xD0000070, block_free = True, block_magic = BLOCK_MAGIC\<rparr>,
         0xD0000070 := \<lparr>block_size = 16, block_next = 0, block_free = False, block_magic = BLOCK_MAGIC\<rparr>),
      kblocklist = 0xD0000000, kernel_heap_current = 0xD0000090, kernel_remaining_from_last_used = 0xF70,
      heap_vmm = vmm_example, heap_dir = 0xC0000000\<rparr>"

lemma heap_example_inv: "heap_inv heap_example [0xD0000000, 0xD0000020, 0xD0000070]"
  by (simp add: heap_inv_def heap_example_def)

text \<open>C1: On a well-formed heap \<open>kmalloc\<close> returns, when \<open>sbrk\<close> can extend the heap, the payload of a block that
  is in use now and was not before, is at least as large as asked for, and shares no byte with any other block; every
  block that was in use still is, with its size, and the heap stays well-formed.\<close>

theorem kmalloc_correct:
  assumes inv: "heap_inv s as" and n: "n \<noteq> 0" "unat n \<le> 0x1fffffc"
    and room: "unat (kernel_heap_current s) + 16 + unat (ALIGN_UP n 4) < 4294967296"
    and sb: "sbrk (ALIGN_UP n 4 + META_SIZE) s \<noteq> None"
  shows "\<exists>b s' as'. kmalloc n s = Some (b + META_SIZE, s') \<and> heap_inv s' as' \<and> b \<in> set as' \<and>
    \<not> block_free (hdr s' b) \<and> n \<le> block_size (hdr s' b) \<and> (b \<in> set as \<longrightarrow> block_free (hdr s b)) \<and>
    (\<forall>a \<in> set as'. a \<noteq> b \<longrightarrow> block_end (hdr s') a \<le> unat b \<or> block_end (hdr s') b \<le> unat a) \<and>
    (\<forall>a \<in> set as. \<not> block_free (hdr s a) \<longrightarrow>
       a \<in> set as' \<and> \<not> block_free (hdr s' a) \<and> block_size (hdr s' a) = block_size (hdr s a))"
proof -
  obtain b s' as' where m: "kmalloc n s = Some (b + META_SIZE, s')" "allocated n s as b s' as'"
  proof (cases "\<forall>a \<in> set as. \<not> fits (ALIGN_UP n 4) s a")
    case True
    then show ?thesis using kmalloc_extends [OF inv n _ room] sb that by blast
  next
    case False
    then show ?thesis using kmalloc_reuses [OF inv n] that by blast
  qed
  have "block_end (hdr s') a \<le> unat b \<or> block_end (hdr s') b \<le> unat a" if "a \<in> set as'" "a \<noteq> b" for a
    using m(2) block_seg_disjoint [of "hdr s'" as' 0 _ a b] that by (auto simp: allocated_def heap_inv_def)
  with m show ?thesis
    by (intro exI [of _ b] exI [of _ s'] exI [of _ as']) (auto simp: allocated_def)
qed

theorem kmalloc_correct_witness:
  "\<exists>b s' as'. kmalloc 100 heap_example = Some (b + META_SIZE, s') \<and> heap_inv s' as' \<and> b \<in> set as' \<and>
     100 \<le> block_size (hdr s' b) \<and> block_size (hdr s' 0xD0000070) = 16"
proof -
  have "ALIGN_UP 100 4 = (100 :: u32)" by code_simp
  moreover have "sbrk (100 + META_SIZE) heap_example \<noteq> None"
    by (simp add: sbrk_def heap_example_def META_SIZE_def)
  ultimately show ?thesis
    using kmalloc_correct [OF heap_example_inv, of 100] by (fastforce simp: heap_example_def)
qed

text \<open>C33: \<open>kfree\<close> of the payload of a block in use marks this block free and changes nothing else; the heap stays
  well-formed, and a later request that fits the freed block is served without extending the heap.\<close>

theorem kfree_correct:
  assumes inv: "heap_inv s as" and b: "b \<in> set as"
  shows "\<exists>s'. kfree (b + META_SIZE) s = Some s' \<and> heap_inv s' as \<and> block_free (hdr s' b) \<and>
    block_size (hdr s' b) = block_size (hdr s b) \<and> (\<forall>a. a \<noteq> b \<longrightarrow> hdr s' a = hdr s a) \<and>
    (\<forall>n. n \<noteq> 0 \<longrightarrow> unat n \<le> 0x1fffffc \<longrightarrow> ALIGN_UP n 4 \<le> block_size (hdr s b) \<longrightarrow>
       (\<exists>p s''. kmalloc n s' = Some (p, s'') \<and> p \<noteq> 0 \<and> kernel_heap_current s'' = kernel_heap_current s))"
proof -
  let ?s' = "upd_hdr b (\<lambda>x. x\<lparr>block_free := True\<rparr>) s"
  have seg: "block_seg (hdr s) as 0 (unat (kernel_heap_current s))" using inv by (simp add: heap_inv_def)
  have eq: "block_seg (hdr ?s') as q e = block_seg (hdr s) as q e" for as q e
    by (induction as) (auto split: list.split)
  have inv': "heap_inv ?s' as" using inv eq by (simp add: heap_inv_def)
  have "unat (b + META_SIZE) = unat b + 16"
    using block_seg_end [OF seg b] u32_bound [of "kernel_heap_current s"] by (simp add: META_SIZE_def unat_plus_if')
  then have ne: "b + META_SIZE \<noteq> 0" by (metis add_is_0 unsigned_0 zero_neq_numeral)
  have free: "kfree (b + META_SIZE) s = Some ?s'"
    using assert_valid [OF seg b] ne by (simp add: kfree_def get_block_ptr_def Let_def)
  have "\<exists>p s''. kmalloc n ?s' = Some (p, s'') \<and> p \<noteq> 0 \<and> kernel_heap_current s'' = kernel_heap_current s"
    if n: "n \<noteq> 0" "unat n \<le> 0x1fffffc" "ALIGN_UP n 4 \<le> block_size (hdr s b)" for n
  proof -
    obtain c s'' as' where c: "kmalloc n ?s' = Some (c + META_SIZE, s'')" "allocated n ?s' as c s'' as'"
        "kernel_heap_current s'' = kernel_heap_current ?s'"
      using kmalloc_reuses [OF inv' n(1,2) b] n(3) by auto
    have "c + META_SIZE \<noteq> 0"
    proof -
      have "block_end (hdr s'') c \<le> unat (kernel_heap_current s'')"
        using c(2) block_seg_end [of "hdr s''" as' 0 _ c] by (auto simp: allocated_def heap_inv_def)
      then have "unat (c + META_SIZE) = unat c + 16"
        using u32_bound [of "kernel_heap_current s''"] by (simp add: META_SIZE_def unat_plus_if')
      then show ?thesis by (metis add_is_0 unsigned_0 zero_neq_numeral)
    qed
    with c(1,3) show ?thesis by auto
  qed
  with free inv' show ?thesis by (intro exI [of _ ?s']) auto
qed

theorem kfree_correct_witness:
  "\<exists>s' p s''. kfree 0xD0000010 heap_example = Some s' \<and> block_free (hdr s' 0xD0000000) \<and>
     kmalloc 13 s' = Some (p, s'') \<and> p \<noteq> 0 \<and> kernel_heap_current s'' = 0xD0000090"
proof -
  obtain s' where s': "kfree (0xD0000000 + META_SIZE) heap_example = Some s'" "block_free (hdr s' 0xD0000000)"
      "\<forall>n. n \<noteq> 0 \<longrightarrow> unat n \<le> 0x1fffffc \<longrightarrow> ALIGN_UP n 4 \<le> block_size (hdr heap_example 0xD0000000) \<longrightarrow>
         (\<exists>p s''. kmalloc n s' = Some (p, s'') \<and> p \<noteq> 0 \<and> kernel_heap_current s'' = kernel_heap_current heap_example)"
    using kfree_correct [OF heap_example_inv list.set_intros(1)] by (elim exE conjE) simp
  have "ALIGN_UP 13 4 = (16 :: u32)" by code_simp
  moreover have "block_size (hdr heap_example 0xD0000000) = 16" "kernel_heap_current heap_example = 0xD0000090"
    by (simp_all add: heap_example_def)
  ultimately obtain p s'' where "kmalloc 13 s' = Some (p, s'')" "p \<noteq> 0" "kernel_heap_current s'' = 0xD0000090"
    using s'(3) [rule_format, of 13] by auto
  then show ?thesis using s'(1,2) by (auto simp: META_SIZE_def)
qed

end
