(* ===== verification/List_Head.thy ===== *)
theory List_Head
  imports Kernel_Prelude
begin

text \<open>
  The intrusive doubly linked lists of \<open>kernel/include/list.h\<close>, at the level of the pointers.

  A store maps the address of a \<open>struct list_head\<close> to its two fields; a null pointer is
  \<open>None\<close>. Writing through a null pointer is the outcome \<open>None\<close> of an operation. The predicate
  \<open>ring\<close> says that a head and a list of entries form a circular list in the store; the lemmas
  show that each operation performs the corresponding operation on that list of entries, that it
  never writes through a null pointer, and that it leaves every disjoint ring alone.
\<close>

section \<open>The store and the operations\<close>

record 'a list_head =
  lnext :: "'a option"
  lprev :: "'a option"

type_synonym 'a lstore = "'a \<Rightarrow> 'a list_head"

text \<open>An entry of memory that \<open>kcalloc\<close> returned or that \<open>list_del\<close> has left.\<close>

abbreviation null_entry :: "'a list_head" where
  "null_entry \<equiv> \<lparr>lnext = None, lprev = None\<rparr>"

text \<open>\<open>p->next = v\<close> and \<open>p->prev = v\<close>.\<close>

definition write_next :: "'a option \<Rightarrow> 'a option \<Rightarrow> 'a lstore \<Rightarrow> 'a lstore option" where
  "write_next p v m = (case p of None \<Rightarrow> None | Some a \<Rightarrow> Some (m(a := (m a)\<lparr>lnext := v\<rparr>)))"

definition write_prev :: "'a option \<Rightarrow> 'a option \<Rightarrow> 'a lstore \<Rightarrow> 'a lstore option" where
  "write_prev p v m = (case p of None \<Rightarrow> None | Some a \<Rightarrow> Some (m(a := (m a)\<lparr>lprev := v\<rparr>)))"

definition INIT_LIST_HEAD :: "'a \<Rightarrow> 'a lstore \<Rightarrow> 'a lstore" where
  "INIT_LIST_HEAD l m = m(l := \<lparr>lnext = Some l, lprev = Some l\<rparr>)"

definition list_del_entry_valid :: "'a \<Rightarrow> 'a lstore \<Rightarrow> bool" where
  "list_del_entry_valid entry m \<longleftrightarrow> lnext (m entry) \<noteq> None \<and> lprev (m entry) \<noteq> None"

text \<open>\<open>__list_add\<close>, with the four writes in the order of the source.\<close>

definition list_add_between ::
    "'a \<Rightarrow> 'a option \<Rightarrow> 'a option \<Rightarrow> 'a lstore \<Rightarrow> 'a lstore option" where
  "list_add_between new prev nxt m =
     do {
       m1 \<leftarrow> write_prev nxt (Some new) m;
       m2 \<leftarrow> write_next (Some new) nxt m1;
       m3 \<leftarrow> write_prev (Some new) prev m2;
       write_next prev (Some new) m3
     }"

definition list_add :: "'a \<Rightarrow> 'a \<Rightarrow> 'a lstore \<Rightarrow> 'a lstore option" where
  "list_add new head m = list_add_between new (Some head) (lnext (m head)) m"

definition list_add_tail :: "'a \<Rightarrow> 'a \<Rightarrow> 'a lstore \<Rightarrow> 'a lstore option" where
  "list_add_tail new head m = list_add_between new (lprev (m head)) (Some head) m"

text \<open>\<open>__list_del\<close> and the operations built on it.\<close>

definition list_del_between :: "'a option \<Rightarrow> 'a option \<Rightarrow> 'a lstore \<Rightarrow> 'a lstore option" where
  "list_del_between prev nxt m =
     do {
       m1 \<leftarrow> write_prev nxt prev m;
       write_next prev nxt m1
     }"

definition list_del_entry :: "'a \<Rightarrow> 'a lstore \<Rightarrow> 'a lstore option" where
  "list_del_entry entry m =
     (if \<not> list_del_entry_valid entry m then Some m
      else list_del_between (lprev (m entry)) (lnext (m entry)) m)"

definition list_del :: "'a \<Rightarrow> 'a lstore \<Rightarrow> 'a lstore option" where
  "list_del entry m =
     do {
       m1 \<leftarrow> list_del_entry entry m;
       m2 \<leftarrow> write_next (Some entry) None m1;
       write_prev (Some entry) None m2
     }"

definition list_del_init :: "'a \<Rightarrow> 'a lstore \<Rightarrow> 'a lstore option" where
  "list_del_init entry m =
     do {
       m1 \<leftarrow> list_del_entry entry m;
       Some (INIT_LIST_HEAD entry m1)
     }"

definition list_is_last :: "'a \<Rightarrow> 'a \<Rightarrow> 'a lstore \<Rightarrow> bool" where
  "list_is_last l head m \<longleftrightarrow> lnext (m l) = Some head"

definition list_empty :: "'a \<Rightarrow> 'a lstore \<Rightarrow> bool" where
  "list_empty head m \<longleftrightarrow> lnext (m head) = Some head"

text \<open>\<open>list_first_entry_or_null\<close>: the pointer of the first entry, or null.\<close>

definition list_first_entry_or_null :: "'a \<Rightarrow> 'a lstore \<Rightarrow> 'a option" where
  "list_first_entry_or_null head m =
     (if lnext (m head) \<noteq> Some head then lnext (m head) else None)"

text \<open>
  \<open>list_for_each\<close>: the addresses the cursor visits before it is back at the head. The walk
  may run into a null pointer or never come back, so it is given a number of steps; \<open>None\<close> is
  a walk that faults or is not over yet.
\<close>

fun list_walk :: "nat \<Rightarrow> 'a \<Rightarrow> 'a option \<Rightarrow> 'a lstore \<Rightarrow> 'a list option" where
  "list_walk 0 head pos m = (if pos = Some head then Some [] else None)"
| "list_walk (Suc n) head pos m =
     (if pos = Some head then Some []
      else case pos of None \<Rightarrow> None
           | Some a \<Rightarrow> map_option ((#) a) (list_walk n head (lnext (m a)) m))"

definition list_for_each :: "nat \<Rightarrow> 'a \<Rightarrow> 'a lstore \<Rightarrow> 'a list option" where
  "list_for_each n head m = list_walk n head (lnext (m head)) m"

section \<open>Rings\<close>

text \<open>\<open>dseg m p xs q\<close>: from \<open>p\<close> the forward pointers lead through \<open>xs\<close> to \<open>q\<close>, and the
  backward pointers lead back.\<close>

primrec dseg :: "'a lstore \<Rightarrow> 'a \<Rightarrow> 'a list \<Rightarrow> 'a \<Rightarrow> bool" where
  "dseg m p [] q \<longleftrightarrow> lnext (m p) = Some q \<and> lprev (m q) = Some p"
| "dseg m p (x # xs) q \<longleftrightarrow> lnext (m p) = Some x \<and> lprev (m x) = Some p \<and> dseg m x xs q"

definition ring :: "'a lstore \<Rightarrow> 'a \<Rightarrow> 'a list \<Rightarrow> bool" where
  "ring m a xs \<longleftrightarrow> dseg m a xs a \<and> distinct (a # xs)"

lemmas list_ops_defs = list_add_between_def list_add_def list_add_tail_def list_del_between_def
  list_del_entry_valid_def list_del_entry_def list_del_def list_del_init_def INIT_LIST_HEAD_def
  write_next_def write_prev_def

lemma dseg_append: "dseg m p (xs @ y # ys) q \<longleftrightarrow> dseg m p xs y \<and> dseg m y ys q"
  by (induction xs arbitrary: p) auto

lemma dseg_cong:
  assumes "\<And>x. x \<in> insert p (set xs) \<Longrightarrow> lnext (m' x) = lnext (m x)"
    and "\<And>x. x \<in> insert q (set xs) \<Longrightarrow> lprev (m' x) = lprev (m x)"
  shows "dseg m' p xs q \<longleftrightarrow> dseg m p xs q"
  using assms by (induction xs arbitrary: p) auto

lemma ring_rotate: "ring m a (xs @ b # ys) \<longleftrightarrow> ring m b (ys @ a # xs)"
  by (auto simp: ring_def dseg_append)

text \<open>A ring depends on the fields of its members only.\<close>

lemma ring_frame:
  assumes "ring m a xs" and "\<And>x. x \<in> set (a # xs) \<Longrightarrow> m' x = m x"
  shows "ring m' a xs"
  using assms dseg_cong [of a xs m' m a] by (auto simp: ring_def)

lemma ring_self_frame: "ring m a [] \<Longrightarrow> m' a = m a \<Longrightarrow> ring m' a []"
  by (rule ring_frame) simp_all

lemma ring_next: "ring m a xs \<Longrightarrow> lnext (m a) = Some (hd (xs @ [a]))"
  by (cases xs) (auto simp: ring_def)

lemma ring_prev: "ring m a xs \<Longrightarrow> lprev (m a) = Some (last (a # xs))"
  by (cases xs rule: rev_cases) (auto simp: ring_def dseg_append)

lemma ring_empty_iff: "ring m a xs \<Longrightarrow> list_empty a m \<longleftrightarrow> xs = []"
  by (cases xs) (auto simp: ring_def list_empty_def)

lemma ring_init: "ring (INIT_LIST_HEAD a m) a []"
  by (simp add: ring_def INIT_LIST_HEAD_def)

lemma ring_first_entry:
  "ring m a xs \<Longrightarrow> list_first_entry_or_null a m = (case xs of [] \<Rightarrow> None | x # _ \<Rightarrow> Some x)"
  by (cases xs) (auto simp: list_first_entry_or_null_def ring_def)

text \<open>The pointers of an inner entry.\<close>

lemma ring_next_inner: "ring m a (xs @ x # ys) \<Longrightarrow> lnext (m x) = Some (hd (ys @ [a]))"
  by (cases ys) (auto simp: ring_def dseg_append)

lemma ring_head_inner: "ring m a (xs @ x # ys) \<Longrightarrow> x \<noteq> a"
  by (auto simp: ring_def)

lemma ring_last_inner: "ring m a (xs @ x # ys) \<Longrightarrow> list_is_last x a m \<longleftrightarrow> ys = []"
  using ring_next_inner [of m a xs x ys] by (cases ys) (auto simp: list_is_last_def ring_def)

text \<open>A store determines the entries: two rings at one head are the same.\<close>

lemma dseg_unique:
  "\<lbrakk>dseg m p xs q; dseg m p ys q; q \<notin> set xs; q \<notin> set ys\<rbrakk> \<Longrightarrow> xs = ys"
proof (induction xs arbitrary: p ys)
  case Nil
  then show ?case by (cases ys) auto
next
  case (Cons x xs)
  then show ?case by (cases ys) auto
qed

lemma ring_unique: "ring m a xs \<Longrightarrow> ring m a ys \<Longrightarrow> xs = ys"
  by (auto simp: ring_def intro: dseg_unique)

text \<open>Walking a ring visits exactly its entries, in order.\<close>

lemma list_walk_dseg:
  "\<lbrakk>dseg m p xs q; q \<notin> set xs; length xs \<le> n\<rbrakk> \<Longrightarrow> list_walk n q (lnext (m p)) m = Some xs"
proof (induction xs arbitrary: p n)
  case Nil
  then show ?case by (cases n) auto
next
  case (Cons x xs)
  then obtain k where "n = Suc k" by (cases n) auto
  with Cons show ?case by auto
qed

lemma list_for_each_ring:
  "ring m a xs \<Longrightarrow> length xs \<le> n \<Longrightarrow> list_for_each n a m = Some xs"
  by (auto simp: list_for_each_def ring_def intro: list_walk_dseg)

section \<open>Insertion and removal\<close>

lemma list_add_ring:
  assumes "ring m a xs" and "n \<notin> set (a # xs)"
  shows "\<exists>m'. list_add n a m = Some m' \<and> ring m' a (n # xs) \<and>
           (\<forall>x. x \<notin> set (a # n # xs) \<longrightarrow> m' x = m x)"
proof (cases xs)
  case Nil
  with assms show ?thesis
    by (auto simp: list_ops_defs ring_def)
next
  case (Cons y ys)
  let ?m = "((m(y := (m y)\<lparr>lprev := Some n\<rparr>))(n := \<lparr>lnext = Some y, lprev = Some a\<rparr>))
              (a := (m a)\<lparr>lnext := Some n\<rparr>)"
  have neq: "a \<noteq> y" "n \<noteq> y" "n \<noteq> a"
    using assms Cons by (auto simp: ring_def)
  have m': "list_add n a m = Some ?m"
    using assms Cons neq by (auto simp: list_ops_defs ring_def fun_eq_iff)
  have "dseg ?m y ys a \<longleftrightarrow> dseg m y ys a"
    using assms Cons neq by (intro dseg_cong) (auto simp: ring_def)
  then have "ring ?m a (n # xs)"
    using assms Cons neq by (auto simp: ring_def)
  with m' show ?thesis
    using Cons by auto
qed

text \<open>Adding at the tail is adding after the last member of the ring.\<close>

lemma list_add_tail_eq: "ring m a xs \<Longrightarrow> list_add_tail n a m = list_add n (last (a # xs)) m"
  by (cases xs rule: rev_cases)
     (auto simp: list_add_tail_def list_add_def ring_def dseg_append)

lemma list_add_tail_ring:
  assumes "ring m a xs" and "n \<notin> set (a # xs)"
  shows "\<exists>m'. list_add_tail n a m = Some m' \<and> ring m' a (xs @ [n]) \<and>
           (\<forall>x. x \<notin> set (a # n # xs) \<longrightarrow> m' x = m x)"
proof (cases xs rule: rev_cases)
  case Nil
  with assms list_add_ring [of m a xs n] show ?thesis
    by (simp add: list_add_tail_eq)
next
  case (snoc zs z)
  then have "ring m z (a # zs)"
    using assms(1) ring_rotate [of m a zs z "[]"] by simp
  moreover have "n \<notin> set (z # a # zs)"
    using assms(2) snoc by auto
  ultimately obtain m' where m': "list_add n z m = Some m'" "ring m' z (n # a # zs)"
    and fr: "\<forall>x. x \<notin> set (z # n # a # zs) \<longrightarrow> m' x = m x"
    using list_add_ring [of m z "a # zs" n] by blast
  have "ring m' a (zs @ [z, n])"
    using m'(2) ring_rotate [of m' z "[n]" a zs] by simp
  with m' fr show ?thesis
    using assms(1) snoc by (auto simp: list_add_tail_eq)
qed

lemma list_del_entry_ring:
  assumes "ring m e (x # xs)"
  shows "\<exists>m'. list_del_entry e m = Some m' \<and> ring m' x xs \<and>
           (\<forall>y. y \<notin> set (x # xs) \<longrightarrow> m' y = m y)"
proof (cases xs rule: rev_cases)
  case Nil
  with assms show ?thesis
    by (auto simp: list_ops_defs ring_def)
next
  case (snoc ys z)
  let ?m = "(m(x := (m x)\<lparr>lprev := Some z\<rparr>))(z := (m z)\<lparr>lnext := Some x\<rparr>)"
  have neq: "e \<noteq> x" "e \<noteq> z" "x \<noteq> z"
    using assms snoc by (auto simp: ring_def)
  have m': "list_del_entry e m = Some ?m"
    using assms snoc neq by (auto simp: list_ops_defs ring_def dseg_append fun_eq_iff)
  have "dseg ?m x ys z \<longleftrightarrow> dseg m x ys z"
    using assms snoc neq by (intro dseg_cong) (auto simp: ring_def)
  then have "ring ?m x (ys @ [z])"
    using assms snoc neq by (auto simp: ring_def dseg_append)
  with m' snoc show ?thesis by auto
qed

lemma list_del_entry_self: "ring m e [] \<Longrightarrow> list_del_entry e m = Some m"
  by (auto simp: list_ops_defs ring_def fun_eq_iff)

text \<open>Removing an inner entry from a ring given by its head.\<close>

lemma list_del_entry_inner:
  assumes "ring m a (xs @ e # ys)"
  shows "\<exists>m'. list_del_entry e m = Some m' \<and> ring m' a (xs @ ys) \<and>
           (\<forall>y. y \<notin> set (a # xs @ ys) \<longrightarrow> m' y = m y)"
proof -
  have "ring m e (ys @ a # xs)"
    using assms by (simp add: ring_rotate)
  then obtain z zs where z: "ys @ a # xs = z # zs"
    by (cases "ys @ a # xs") auto
  obtain m' where m': "list_del_entry e m = Some m'" "ring m' z zs"
    "\<forall>y. y \<notin> set (z # zs) \<longrightarrow> m' y = m y"
    using list_del_entry_ring [of m e z zs] \<open>ring m e (ys @ a # xs)\<close> z by auto
  have "ring m' a (xs @ ys)"
  proof (cases ys)
    case Nil
    with z m'(2) show ?thesis by simp
  next
    case (Cons w ws)
    with z m'(2) ring_rotate [of m' w ws a xs] show ?thesis by simp
  qed
  moreover have "set (z # zs) = set (a # xs @ ys)"
    unfolding z [symmetric] by auto
  ultimately show ?thesis
    using m' by metis
qed

lemma list_del_ring:
  assumes "ring m a (xs @ e # ys)"
  shows "\<exists>m'. list_del e m = Some m' \<and> ring m' a (xs @ ys) \<and>
           lnext (m' e) = None \<and> lprev (m' e) = None \<and>
           (\<forall>y. y \<notin> set (a # xs @ e # ys) \<longrightarrow> m' y = m y)"
proof -
  obtain m1 where m1: "list_del_entry e m = Some m1" "ring m1 a (xs @ ys)"
    "\<forall>y. y \<notin> set (a # xs @ ys) \<longrightarrow> m1 y = m y"
    using list_del_entry_inner [OF assms] by blast
  let ?m = "m1(e := (m1 e)\<lparr>lnext := None, lprev := None\<rparr>)"
  have "list_del e m = Some ?m"
    using m1(1) by (simp add: list_del_def write_next_def write_prev_def)
  moreover have "ring ?m a (xs @ ys)"
    using m1(2) by (rule ring_frame) (use assms in \<open>auto simp: ring_def\<close>)
  ultimately show ?thesis
    using m1(3) by auto
qed

lemma list_del_init_ring:
  assumes "ring m a (xs @ e # ys)"
  shows "\<exists>m'. list_del_init e m = Some m' \<and> ring m' a (xs @ ys) \<and> ring m' e [] \<and>
           (\<forall>y. y \<notin> set (a # xs @ e # ys) \<longrightarrow> m' y = m y)"
proof -
  obtain m1 where m1: "list_del_entry e m = Some m1" "ring m1 a (xs @ ys)"
    "\<forall>y. y \<notin> set (a # xs @ ys) \<longrightarrow> m1 y = m y"
    using list_del_entry_inner [OF assms] by blast
  let ?m = "INIT_LIST_HEAD e m1"
  have "list_del_init e m = Some ?m"
    using m1(1) by (simp add: list_del_init_def)
  moreover have "ring ?m a (xs @ ys)"
    using m1(2) by (rule ring_frame) (use assms in \<open>auto simp: ring_def INIT_LIST_HEAD_def\<close>)
  ultimately show ?thesis
    using m1(3) ring_init [of e m1] by (auto simp: INIT_LIST_HEAD_def)
qed

lemma list_del_init_self: "ring m e [] \<Longrightarrow> list_del_init e m = Some m"
  by (auto simp: list_del_init_def list_del_entry_self)
     (auto simp: INIT_LIST_HEAD_def ring_def fun_eq_iff)

text \<open>Deleting an entry whose pointers are already null changes no other entry.\<close>

lemma list_del_poisoned:
  "lnext (m e) = None \<Longrightarrow> lprev (m e) = None \<Longrightarrow> list_del e m = Some m"
  by (auto simp: list_ops_defs fun_eq_iff)

section \<open>Rings without a head\<close>

text \<open>
  A circular list of which every member may serve as the head: \<open>cyc m xs\<close> says that the members
  of \<open>xs\<close> form one ring, in this order up to rotation.
\<close>

definition cyc :: "'a lstore \<Rightarrow> 'a list \<Rightarrow> bool" where
  "cyc m xs \<longleftrightarrow> (case xs of [] \<Rightarrow> True | a # ys \<Rightarrow> ring m a ys)"

lemma cyc_simps [simp]: "cyc m []" "cyc m (a # xs) \<longleftrightarrow> ring m a xs"
  by (simp_all add: cyc_def)

lemma cyc_rotate: "cyc m (xs @ ys) \<longleftrightarrow> cyc m (ys @ xs)"
proof (cases xs)
  case (Cons a as)
  show ?thesis
  proof (cases ys)
    case (Cons b bs)
    with \<open>xs = a # as\<close> show ?thesis
      using ring_rotate [of m a as b bs] by simp
  qed simp
qed simp

lemma cyc_distinct: "cyc m xs \<Longrightarrow> distinct xs"
  by (cases xs) (auto simp: ring_def)

lemma cyc_frame: "cyc m xs \<Longrightarrow> (\<And>x. x \<in> set xs \<Longrightarrow> m' x = m x) \<Longrightarrow> cyc m' xs"
  by (cases xs) (auto intro: ring_frame)

lemma cyc_at: "cyc m (xs @ b # ys) \<longleftrightarrow> ring m b (ys @ xs)"
  using cyc_rotate [of m xs "b # ys"] by simp

lemma cyc_next: "cyc m (xs @ b # ys) \<Longrightarrow> lnext (m b) = Some (hd (ys @ xs @ [b]))"
  using ring_next [of m b "ys @ xs"] by (simp add: cyc_at)

lemma cyc_list_empty: "cyc m (xs @ b # ys) \<Longrightarrow> list_empty b m \<longleftrightarrow> xs = [] \<and> ys = []"
  using ring_empty_iff [of m b "ys @ xs"] by (auto simp: cyc_at)

lemma cyc_add_before:
  assumes "cyc m (xs @ b # ys)" and "n \<notin> set (xs @ b # ys)"
  shows "\<exists>m'. list_add_tail n b m = Some m' \<and> cyc m' (xs @ n # b # ys) \<and>
           (\<forall>x. x \<notin> set (n # xs @ b # ys) \<longrightarrow> m' x = m x)"
proof -
  have r: "ring m b (ys @ xs)" and f: "n \<notin> set (b # ys @ xs)"
    using assms by (simp_all add: cyc_at)
  obtain m' where m': "list_add_tail n b m = Some m'" "ring m' b ((ys @ xs) @ [n])"
    "\<forall>x. x \<notin> set (b # n # ys @ xs) \<longrightarrow> m' x = m x"
    using list_add_tail_ring [OF r f] by (elim exE conjE)
  have "cyc m' ((b # ys) @ xs @ [n])"
    using m'(2) by simp
  then have "cyc m' (xs @ n # b # ys)"
    using cyc_rotate [of m' "b # ys" "xs @ [n]"] by simp
  with m'(1,3) show ?thesis by auto
qed

lemma cyc_add_after:
  assumes "cyc m (xs @ b # ys)" and "n \<notin> set (xs @ b # ys)"
  shows "\<exists>m'. list_add n b m = Some m' \<and> cyc m' (xs @ b # n # ys) \<and>
           (\<forall>x. x \<notin> set (n # xs @ b # ys) \<longrightarrow> m' x = m x)"
proof -
  have r: "ring m b (ys @ xs)" and f: "n \<notin> set (b # ys @ xs)"
    using assms by (simp_all add: cyc_at)
  obtain m' where m': "list_add n b m = Some m'" "ring m' b (n # ys @ xs)"
    "\<forall>x. x \<notin> set (b # n # ys @ xs) \<longrightarrow> m' x = m x"
    using list_add_ring [OF r f] by (elim exE conjE)
  have "cyc m' ((b # n # ys) @ xs)"
    using m'(2) by simp
  then have "cyc m' (xs @ b # n # ys)"
    using cyc_rotate [of m' xs "b # n # ys"] by simp
  with m'(1,3) show ?thesis by auto
qed

lemma cyc_del_init:
  assumes "cyc m (xs @ e # ys)"
  shows "\<exists>m'. list_del_init e m = Some m' \<and> cyc m' (xs @ ys) \<and> ring m' e [] \<and>
           (\<forall>x. x \<notin> set (xs @ e # ys) \<longrightarrow> m' x = m x)"
proof (cases "ys @ xs")
  case Nil
  then have "ring m e []" using assms by (simp add: cyc_at)
  then show ?thesis using Nil by (auto simp: list_del_init_self)
next
  case (Cons z zs)
  have "cyc m (([z] @ zs) @ e # [])"
    using assms Cons cyc_rotate [of m "xs @ [e]" ys] cyc_rotate [of m "[e]" "z # zs"]
    by (simp add: cyc_at)
  then have r: "ring m z (zs @ e # [])" by simp
  obtain m' where m': "list_del_init e m = Some m'" "ring m' z (zs @ [])" "ring m' e []"
    "\<forall>y. y \<notin> set (z # zs @ e # []) \<longrightarrow> m' y = m y"
    using list_del_init_ring [OF r] by (elim exE conjE)
  have "cyc m' (ys @ xs)" using m'(2) Cons by simp
  then have "cyc m' (xs @ ys)" using cyc_rotate [of m' xs ys] by simp
  moreover have "set (z # zs) = set (xs @ ys)"
    using arg_cong [OF Cons, of set] by auto
  ultimately show ?thesis
    using m'(1,3,4) by auto
qed

section \<open>The interface of a list of entries\<close>

text \<open>
  What the clients of the lists rely on: entries are appended at the tail, taken from the front
  and removed from anywhere, and the entries form the list that these operations say.
\<close>

locale entry_list =
  fixes rep :: "'s \<Rightarrow> 'a \<Rightarrow> 'a list \<Rightarrow> bool"
    and init :: "'a \<Rightarrow> 's \<Rightarrow> 's"
    and add_tail :: "'a \<Rightarrow> 'a \<Rightarrow> 's \<Rightarrow> 's option"
    and del :: "'a \<Rightarrow> 's \<Rightarrow> 's option"
    and first :: "'a \<Rightarrow> 's \<Rightarrow> 'a option"
  assumes rep_init: "rep (init h s) h []"
    and rep_distinct: "rep s h xs \<Longrightarrow> distinct (h # xs)"
    and rep_add_tail: "rep s h xs \<Longrightarrow> x \<notin> set (h # xs) \<Longrightarrow>
      \<exists>s'. add_tail x h s = Some s' \<and> rep s' h (xs @ [x])"
    and rep_del: "rep s h (xs @ x # ys) \<Longrightarrow> \<exists>s'. del x s = Some s' \<and> rep s' h (xs @ ys)"
    and rep_first: "rep s h xs \<Longrightarrow> first h s = (case xs of [] \<Rightarrow> None | x # _ \<Rightarrow> Some x)"
begin

text \<open>Appending a sequence of entries, one by one.\<close>

lemma add_tail_all:
  "\<lbrakk>rep s h xs; distinct (h # xs @ ys)\<rbrakk> \<Longrightarrow>
     \<exists>s'. fold (\<lambda>y so. Option.bind so (add_tail y h)) ys (Some s) = Some s' \<and> rep s' h (xs @ ys)"
proof (induction ys arbitrary: s xs)
  case Nil
  then show ?case by simp
next
  case (Cons y ys)
  then obtain s1 where s1: "add_tail y h s = Some s1" "rep s1 h (xs @ [y])"
    using rep_add_tail [of s h xs y] by auto
  moreover have "distinct (h # (xs @ [y]) @ ys)"
    using Cons.prems(2) by auto
  ultimately show ?case
    using Cons.IH [of s1 "xs @ [y]"] by simp
qed

text \<open>First in, first out: what is taken after an append is the oldest entry.\<close>

lemma add_tail_then_take:
  assumes "rep s h (x # xs)" and "y \<notin> set (h # x # xs)"
  shows "\<exists>s1 s2. add_tail y h s = Some s1 \<and> first h s1 = Some x \<and>
           del x s1 = Some s2 \<and> rep s2 h (xs @ [y])"
proof -
  obtain s1 where s1: "add_tail y h s = Some s1" "rep s1 h (x # xs @ [y])"
    using rep_add_tail [OF assms] by auto
  moreover have "first h s1 = Some x"
    using rep_first [OF s1(2)] by simp
  moreover obtain s2 where "del x s1 = Some s2" "rep s2 h (xs @ [y])"
    using rep_del [of s1 h "[]" x "xs @ [y]"] s1(2) by auto
  ultimately show ?thesis by blast
qed

end

interpretation ll: entry_list ring INIT_LIST_HEAD list_add_tail list_del list_first_entry_or_null
proof
  fix s :: "'a lstore" and h x :: 'a and xs ys :: "'a list"
  show "ring (INIT_LIST_HEAD h s) h []"
    by (rule ring_init)
  show "distinct (h # xs)" if "ring s h xs"
    using that by (simp add: ring_def)
  show "\<exists>s'. list_add_tail x h s = Some s' \<and> ring s' h (xs @ [x])"
    if "ring s h xs" "x \<notin> set (h # xs)"
    using list_add_tail_ring [OF that] by blast
  show "\<exists>s'. list_del x s = Some s' \<and> ring s' h (xs @ ys)" if "ring s h (xs @ x # ys)"
    using list_del_ring [OF that] by blast
  show "list_first_entry_or_null h s = (case xs of [] \<Rightarrow> None | x # _ \<Rightarrow> Some x)"
    if "ring s h xs"
    using that by (rule ring_first_entry)
qed

section \<open>Properties\<close>

text \<open>Inserting an entry that is not yet on a list with \<open>list_add\<close> or \<open>list_add_tail\<close> never
  writes through a null pointer, puts the entry at the front or at the end of the list, and leaves
  every list_head outside this list as it was.\<close>

theorem list_insert_correct:
  assumes "ring m head xs" and "new \<notin> set (head # xs)"
  shows "\<exists>m1 m2. list_add new head m = Some m1 \<and> ring m1 head (new # xs) \<and>
           list_add_tail new head m = Some m2 \<and> ring m2 head (xs @ [new]) \<and>
           (\<forall>x. x \<notin> set (head # new # xs) \<longrightarrow> m1 x = m x \<and> m2 x = m x)"
  using list_add_ring [OF assms] list_add_tail_ring [OF assms] by blast

theorem list_insert_correct_witness:
  "\<exists>m1 m2. list_add 1 0 (INIT_LIST_HEAD (0 :: nat) (\<lambda>_. null_entry)) = Some m1 \<and> ring m1 0 [1] \<and>
     list_add_tail 1 0 (INIT_LIST_HEAD (0 :: nat) (\<lambda>_. null_entry)) = Some m2 \<and> ring m2 0 [1]"
  using list_insert_correct [OF ring_init [of "0 :: nat" "\<lambda>_. null_entry"], of 1] by auto

text \<open>\<open>list_del\<close> of an entry of a list removes that entry and no other, keeps the order of the
  rest, leaves null pointers in the removed entry, and touches nothing outside the list; a second
  \<open>list_del\<close> of the same entry then changes nothing.\<close>

theorem list_del_correct:
  assumes "ring m head (xs @ entry # ys)"
  shows "\<exists>m'. list_del entry m = Some m' \<and> ring m' head (xs @ ys) \<and>
           (\<forall>x. x \<notin> set (head # xs @ entry # ys) \<longrightarrow> m' x = m x) \<and>
           list_del entry m' = Some m'"
  using list_del_ring [OF assms] list_del_poisoned by metis

theorem list_del_correct_witness:
  "\<exists>m'. list_del 1 ((\<lambda>_. null_entry)
        (0 := \<lparr>lnext = Some 1, lprev = Some 1\<rparr>, 1 := \<lparr>lnext = Some (0 :: nat), lprev = Some 0\<rparr>)) = Some m' \<and>
     ring m' 0 [] \<and> list_del 1 m' = Some m'"
proof -
  have "ring ((\<lambda>_. null_entry)
        (0 := \<lparr>lnext = Some 1, lprev = Some 1\<rparr>, 1 := \<lparr>lnext = Some (0 :: nat), lprev = Some 0\<rparr>)) 0 ([] @ 1 # [])"
    by (simp add: ring_def)
  from list_del_correct [OF this] show ?thesis by auto
qed

end
