(* ===== verification/Mmap.thy ===== *)
theory Mmap
  imports Vmm List_Head
begin

text \<open>
  The memory areas of a process, \<open>kernel/memory/mmap.c\<close>, with \<open>struct mm_struct\<close> and
  \<open>struct vm_area_struct\<close> of \<open>proc/task.h\<close>.

  The areas hang on the list \<open>mm->mmap\<close> through their \<open>vm_sibling\<close>, on the pointer level of
  \<open>List_Head\<close>: the node 0 is the list head, every other number is an area. The address that \<open>kcalloc\<close>
  returns for a new area is an argument of the operations that allocate one. The lemmas show that a new
  area is linked in the order of addresses and overlaps no other one, and where the code does not do that.
\<close>

section \<open>The state and the operations\<close>

record vm_area_struct =
  vm_start :: u32
  vm_end :: u32
  vm_flags :: u32
  vm_file :: "nat option"

record mm_struct =
  mmap :: "nat lstore"
  areas :: "nat \<Rightarrow> vm_area_struct"
  free_area_cache :: u32
  start_brk :: u32
  brk :: u32
  end_brk :: u32
  mm_vmm :: vmm
  mm_pdir :: u32

definition mmap_head :: nat where
  "mmap_head = 0"

abbreviation upd_area :: "nat \<Rightarrow> (vm_area_struct \<Rightarrow> vm_area_struct) \<Rightarrow> mm_struct \<Rightarrow> mm_struct" where
  "upd_area a f mm \<equiv> mm\<lparr>areas := (areas mm)(a := f (areas mm a))\<rparr>"

text \<open>The loop over the areas. It returns the list and the address that was found; a loop that runs into a null
  pointer or never comes back to the head does not return.\<close>

partial_function (option) unmapped_loop ::
    "u32 \<Rightarrow> u32 \<Rightarrow> nat \<Rightarrow> mm_struct \<Rightarrow> nat option \<Rightarrow> (nat lstore \<times> u32) option" where
  "unmapped_loop addr len vma mm pos =
     (case pos of None \<Rightarrow> None
      | Some iter \<Rightarrow>
          if iter = mmap_head then Some (mmap mm, addr)
          else
            let nxt = lnext (mmap mm iter);
                is_last_entry = list_is_last iter mmap_head (mmap mm);
                next_start = (case nxt of None \<Rightarrow> 0 | Some n \<Rightarrow> vm_start (areas mm n))
            in if addr + len \<le> vm_start (areas mm iter) then
                 map_option (\<lambda>l. (l, addr)) (list_add iter mmap_head (mmap mm))
               else if vm_end (areas mm iter) \<le> addr \<and> (is_last_entry \<or> \<not> is_last_entry \<and> addr + len \<le> next_start) then
                 map_option (\<lambda>l. (l, addr)) (list_add vma iter (mmap mm))
               else if \<not> is_last_entry \<and> (vm_end (areas mm iter) \<le> addr \<and> addr < next_start) \<and>
                       len \<le> next_start - vm_end (areas mm iter) then
                 map_option (\<lambda>l. (l, next_start - len)) (list_add vma iter (mmap mm))
               else unmapped_loop addr len vma mm nxt)"

text \<open>The address at which the search starts.\<close>

definition hint_addr :: "u32 \<Rightarrow> mm_struct \<Rightarrow> u32" where
  "hint_addr addr mm =
     (if addr = 0 \<or> addr < end_brk mm then max (free_area_cache mm) (end_brk mm) else addr)"

definition get_unmapped_area :: "nat \<Rightarrow> u32 \<Rightarrow> u32 \<Rightarrow> mm_struct \<Rightarrow> (nat \<times> mm_struct) option" where
  "get_unmapped_area vma addr len mm =
     do {
       let mm = upd_area vma (\<lambda>_. \<lparr>vm_start = 0, vm_end = 0, vm_flags = 0, vm_file = None\<rparr>) mm;
       let addr = hint_addr addr mm;
       (if addr = PAGE_ALIGN addr then Some () else None);
       let len = PAGE_ALIGN len;
       (l, found_addr) \<leftarrow>
         (if list_empty mmap_head (mmap mm) then map_option (\<lambda>l. (l, addr)) (list_add vma mmap_head (mmap mm))
          else unmapped_loop addr len vma mm (lnext (mmap mm mmap_head)));
       let mm = mm\<lparr>mmap := l\<rparr>;
       Some (vma,
         if found_addr \<noteq> 0 then
           (upd_area vma (\<lambda>a. a\<lparr>vm_start := found_addr, vm_end := found_addr + len\<rparr>) mm)\<lparr>free_area_cache := found_addr + len\<rparr>
         else mm)
     }"

partial_function (option) find_vma_loop :: "mm_struct \<Rightarrow> u32 \<Rightarrow> nat option \<Rightarrow> nat option option" where
  "find_vma_loop mm addr pos =
     (case pos of None \<Rightarrow> None
      | Some iter \<Rightarrow>
          if iter = mmap_head then Some None
          else if vm_start (areas mm iter) \<le> addr \<and> addr < vm_end (areas mm iter) then Some (Some iter)
          else find_vma_loop mm addr (lnext (mmap mm iter)))"

definition find_vma :: "mm_struct \<Rightarrow> u32 \<Rightarrow> nat option option" where
  "find_vma mm addr = find_vma_loop mm addr (lnext (mmap mm mmap_head))"

text \<open>The copy of \<open>vma_expand\<close> over \<open>vma\<close> in the last case copies the list links as well: no link of a neighbour leads
  to \<open>vma\<close>, and the neighbours keep pointing to the freed area.\<close>

definition expand_area :: "nat \<Rightarrow> nat \<Rightarrow> u32 \<Rightarrow> bool \<Rightarrow> mm_struct \<Rightarrow> mm_struct option" where
  "expand_area new vma address fixed mm =
     (let address = PAGE_ALIGN address
      in if address \<le> vm_end (areas mm vma) then Some mm
         else if list_is_last vma mmap_head (mmap mm) then Some (upd_area vma (\<lambda>a. a\<lparr>vm_end := address\<rparr>) mm)
         else
           (case lnext (mmap mm vma) of None \<Rightarrow> None
            | Some nxt \<Rightarrow>
                if address \<le> vm_start (areas mm nxt) then Some (upd_area vma (\<lambda>a. a\<lparr>vm_end := address\<rparr>) mm)
                else if fixed then None
                else
                  do {
                    l \<leftarrow> list_del vma (mmap mm);
                    (vma_expand, mm) \<leftarrow> get_unmapped_area new 0 (address - vm_start (areas mm vma)) (mm\<lparr>mmap := l\<rparr>);
                    Some (mm\<lparr>areas := (areas mm)(vma := areas mm vma_expand),
                             mmap := (mmap mm)(vma := mmap mm vma_expand)\<rparr>)
                  }))"

definition do_munmap :: "u32 \<Rightarrow> u32 \<Rightarrow> mm_struct \<Rightarrow> mm_struct option" where
  "do_munmap addr len mm =
     do {
       v \<leftarrow> find_vma mm addr;
       (case v of None \<Rightarrow> Some mm
        | Some vma \<Rightarrow>
            if vm_start (areas mm vma) < addr then Some mm
            else
              let len = PAGE_ALIGN len
              in if len \<le> vm_end (areas mm vma) - vm_start (areas mm vma) then
                   Some (upd_area vma (\<lambda>a. a\<lparr>vm_end := addr\<rparr>) mm)
                 else map_option (\<lambda>l. mm\<lparr>mmap := l\<rparr>) (list_del vma (mmap mm)))
     }"

text \<open>The loop of \<open>do_mmap\<close> that gives every page of the area a frame of its own.\<close>

partial_function (option) mmap_pages :: "u32 \<Rightarrow> u32 \<Rightarrow> u32 \<Rightarrow> vmm \<Rightarrow> vmm option" where
  "mmap_pages pdir vaddr e m =
     (if vaddr < e then
        let (paddr, pm) = pmm_alloc_block (vmm_pmm m)
        in Option.bind (vmm_map_address pdir vaddr paddr (I86_PTE_PRESENT OR I86_PTE_WRITABLE OR I86_PTE_USER) (m\<lparr>vmm_pmm := pm\<rparr>))
             (mmap_pages pdir (vaddr + PMM_FRAME_SIZE) e)
      else Some m)"

text \<open>\<open>fd_file\<close> is the file table of the process and \<open>file_mmap\<close> the operation \<open>f_op->mmap\<close> of the file.\<close>

definition do_mmap ::
    "(int \<Rightarrow> nat option) \<Rightarrow> (nat \<Rightarrow> nat \<Rightarrow> mm_struct \<Rightarrow> mm_struct option) \<Rightarrow> nat \<Rightarrow> u32 \<Rightarrow> u32 \<Rightarrow> int \<Rightarrow> mm_struct \<Rightarrow>
     (u32 \<times> mm_struct) option" where
  "do_mmap fd_file file_mmap new addr len fd mm =
     do {
       let file = (if 0 \<le> fd then fd_file fd else None);
       let aligned_addr = ALIGN_DOWN addr PMM_FRAME_SIZE;
       v \<leftarrow> find_vma mm aligned_addr;
       (vma, mm) \<leftarrow>
         (case v of None \<Rightarrow> get_unmapped_area new aligned_addr len mm
          | Some vma \<Rightarrow>
              if vm_end (areas mm vma) < addr + len then map_option (\<lambda>mm. (vma, mm)) (expand_area new vma (addr + len) True mm)
              else Some (vma, mm));
       mm \<leftarrow>
         (case file of
            Some f \<Rightarrow> map_option (upd_area vma (\<lambda>a. a\<lparr>vm_file := Some f\<rparr>)) (file_mmap f vma mm)
          | None \<Rightarrow>
              map_option (\<lambda>m. mm\<lparr>mm_vmm := m\<rparr>)
                (mmap_pages (mm_pdir mm) (vm_start (areas mm vma)) (vm_end (areas mm vma)) (mm_vmm mm)));
       Some (if addr \<noteq> 0 then addr else vm_start (areas mm vma), mm)
     }"

text \<open>The two loops of \<open>do_brk\<close>.\<close>

partial_function (option) brk_map :: "u32 \<Rightarrow> u32 \<Rightarrow> u32 \<Rightarrow> u32 \<Rightarrow> vmm \<Rightarrow> vmm option" where
  "brk_map pdir vaddr paddr e m =
     (if vaddr < e then
        Option.bind (vmm_map_address pdir vaddr paddr (I86_PTE_PRESENT OR I86_PTE_WRITABLE OR I86_PTE_USER) m)
          (brk_map pdir (vaddr + PMM_FRAME_SIZE) (paddr + PMM_FRAME_SIZE) e)
      else Some m)"

partial_function (option) brk_unmap :: "u32 \<Rightarrow> u32 \<Rightarrow> u32 \<Rightarrow> vmm \<Rightarrow> vmm option" where
  "brk_unmap pdir addr e m =
     (if addr < e then Option.bind (vmm_unmap_address pdir addr m) (brk_unmap pdir (addr + PMM_FRAME_SIZE) e)
      else Some m)"

text \<open>\<open>new_vma\<close> is a copy of the area, links included, so \<open>expand_area\<close> sees the neighbours of the original. The last
  statement copies it back.\<close>

definition do_brk ::
    "(nat \<Rightarrow> nat \<Rightarrow> mm_struct \<Rightarrow> mm_struct option) \<Rightarrow> nat \<Rightarrow> nat \<Rightarrow> u32 \<Rightarrow> u32 \<Rightarrow> mm_struct \<Rightarrow> mm_struct option" where
  "do_brk file_mmap new_vma new addr len mm =
     do {
       v \<leftarrow> find_vma mm addr;
       let new_brk = PAGE_ALIGN (addr + len);
       let mm = mm\<lparr>brk := new_brk\<rparr>;
       (case v of None \<Rightarrow> Some mm
        | Some vma \<Rightarrow>
            if new_brk \<le> vm_end (areas mm vma) then Some mm
            else
              do {
                let mm = mm\<lparr>areas := (areas mm)(new_vma := areas mm vma), mmap := (mmap mm)(new_vma := mmap mm vma)\<rparr>;
                mm \<leftarrow> (if brk mm < new_brk then expand_area new new_vma new_brk True mm
                      else Some (upd_area new_vma (\<lambda>a. a\<lparr>vm_end := new_brk\<rparr>) mm));
                mm \<leftarrow>
                  (case vm_file (areas mm vma) of
                     Some f \<Rightarrow> file_mmap f new_vma mm
                   | None \<Rightarrow>
                       if vm_end (areas mm vma) < vm_end (areas mm new_vma) then
                         let nframes = (vm_end (areas mm new_vma) - vm_end (areas mm vma)) div PMM_FRAME_SIZE;
                             (paddr, pm) = pmm_alloc_blocks nframes (vmm_pmm (mm_vmm mm))
                         in map_option (\<lambda>m. mm\<lparr>mm_vmm := m\<rparr>)
                              (brk_map (mm_pdir mm) (vm_end (areas mm vma)) paddr (vm_end (areas mm new_vma)) ((mm_vmm mm)\<lparr>vmm_pmm := pm\<rparr>))
                       else if vm_end (areas mm new_vma) < vm_end (areas mm vma) then
                         map_option (\<lambda>m. mm\<lparr>mm_vmm := m\<rparr>)
                           (brk_unmap (mm_pdir mm) (vm_end (areas mm new_vma)) (vm_end (areas mm vma)) (mm_vmm mm))
                       else Some mm);
                Some (mm\<lparr>areas := (areas mm)(vma := areas mm new_vma), mmap := (mmap mm)(vma := mmap mm new_vma)\<rparr>)
              })
     }"

section \<open>Ordered areas\<close>

definition areas_ok :: "mm_struct \<Rightarrow> nat list \<Rightarrow> bool" where
  "areas_ok mm xs \<longleftrightarrow>
     ring (mmap mm) mmap_head xs \<and>
     (\<forall>x \<in> set xs. 0 < vm_start (areas mm x) \<and> vm_start (areas mm x) \<le> vm_end (areas mm x)) \<and>
     sorted_wrt (\<lambda>x y. vm_end (areas mm x) \<le> vm_start (areas mm y)) xs"

text \<open>The place between the areas \<open>pre\<close> and \<open>post\<close> has room for \<open>len\<close> bytes, at \<open>addr\<close> or at the end of the gap
  that \<open>addr\<close> lies in.\<close>

definition has_gap :: "mm_struct \<Rightarrow> nat list \<Rightarrow> nat list \<Rightarrow> u32 \<Rightarrow> u32 \<Rightarrow> bool" where
  "has_gap mm pre post addr len \<longleftrightarrow>
     (if pre = [] then post = []
      else vm_end (areas mm (last pre)) \<le> addr \<and>
           (post = [] \<or> addr + len \<le> vm_start (areas mm (hd post)) \<or>
            addr < vm_start (areas mm (hd post)) \<and> len \<le> vm_start (areas mm (hd post)) - vm_end (areas mm (last pre))))"

definition gap_addr :: "mm_struct \<Rightarrow> nat list \<Rightarrow> u32 \<Rightarrow> u32 \<Rightarrow> u32" where
  "gap_addr mm post addr len =
     (if post = [] \<or> addr + len \<le> vm_start (areas mm (hd post)) then addr else vm_start (areas mm (hd post)) - len)"

text \<open>The loop of \<open>get_unmapped_area\<close> at an entry: it stops there, or it goes on.\<close>

lemma unmapped_loop_hit:
  assumes r: "ring (mmap mm) mmap_head (pre @ x # post)" and g: "has_gap mm (pre @ [x]) post addr len"
    and n: "\<not> addr + len \<le> vm_start (areas mm x)"
  shows "unmapped_loop addr len vma mm (Some x) =
    map_option (\<lambda>l. (l, gap_addr mm post addr len)) (list_add vma x (mmap mm))"
  using ring_head_inner [OF r] ring_last_inner [OF r] ring_next_inner [OF r] g n
  by (subst unmapped_loop.simps) (cases post; auto simp: Let_def has_gap_def gap_addr_def)

lemma unmapped_loop_skip:
  assumes r: "ring (mmap mm) mmap_head (pre @ x # y # post)" and le: "vm_start (areas mm y) \<le> addr"
    and n: "\<not> addr + len \<le> vm_start (areas mm x)" "\<not> addr + len \<le> vm_start (areas mm y)"
  shows "unmapped_loop addr len vma mm (Some x) = unmapped_loop addr len vma mm (Some y)"
  using ring_head_inner [OF r] ring_last_inner [OF r] ring_next_inner [OF r] le n
  by (subst unmapped_loop.simps) (auto simp: Let_def)

lemma unmapped_loop_run:
  assumes r: "ring (mmap mm) mmap_head (dn @ pre @ x # post)" and g: "has_gap mm (pre @ [x]) post addr len"
    and n: "\<forall>y \<in> set (pre @ [x]). vm_start (areas mm y) \<le> addr \<and> \<not> addr + len \<le> vm_start (areas mm y)"
  shows "unmapped_loop addr len vma mm (Some (hd (pre @ [x]))) =
    map_option (\<lambda>l. (l, gap_addr mm post addr len)) (list_add vma x (mmap mm))"
  using r n g
proof (induction pre arbitrary: dn)
  case Nil
  then show ?case using unmapped_loop_hit [of mm dn x post addr len vma] by (simp add: has_gap_def)
next
  case (Cons y pre)
  have "unmapped_loop addr len vma mm (Some (hd (pre @ [x]))) =
      map_option (\<lambda>l. (l, gap_addr mm post addr len)) (list_add vma x (mmap mm))"
    using Cons.IH [of "dn @ [y]"] Cons.prems by (simp add: has_gap_def)
  moreover note prems = Cons.prems
  have "unmapped_loop addr len vma mm (Some y) = unmapped_loop addr len vma mm (Some (hd (pre @ [x])))"
  proof (cases pre)
    case Nil
    then show ?thesis using unmapped_loop_skip [of mm dn y x post addr len vma] Cons.prems by simp
  next
    case (Cons z zs)
    then show ?thesis using unmapped_loop_skip [of mm dn y z "zs @ x # post" addr len vma] prems by simp
  qed
  ultimately show ?case by simp
qed

text \<open>The areas before the gap end at or before it, so the loop reaches it.\<close>

lemma areas_before:
  assumes ok: "areas_ok mm (pre @ x # post)" and le: "vm_end (areas mm x) \<le> addr" and y: "y \<in> set (pre @ [x])"
  shows "vm_start (areas mm y) \<le> addr" "vm_end (areas mm y) \<le> addr"
proof -
  have a: "vm_start (areas mm z) \<le> vm_end (areas mm z)" if "z \<in> set (pre @ x # post)" for z
    using ok that by (auto simp: areas_ok_def)
  have "vm_end (areas mm y) \<le> vm_end (areas mm x)"
    using y ok a [of x] by (auto simp: areas_ok_def sorted_wrt_append intro: order_trans)
  then show "vm_end (areas mm y) \<le> addr" using le by (rule order_trans)
  moreover have "vm_start (areas mm y) \<le> vm_end (areas mm y)" using a y by auto
  ultimately show "vm_start (areas mm y) \<le> addr" by (rule order_trans [rotated])
qed

lemma gap_addr_bounds:
  assumes g: "has_gap mm (pre @ [x]) post addr len" and ov: "unat addr + unat len < 4294967296"
  shows "vm_end (areas mm x) \<le> gap_addr mm post addr len"
    "unat (gap_addr mm post addr len + len) = unat (gap_addr mm post addr len) + unat len"
    "post \<noteq> [] \<Longrightarrow> gap_addr mm post addr len + len \<le> vm_start (areas mm (hd post))"
proof -
  let ?e = "vm_end (areas mm x)" and ?n = "vm_start (areas mm (hd post))"
  have sum: "unat (addr + len) = unat addr + unat len" using ov by (simp add: unat_plus_if')
  show "?e \<le> gap_addr mm post addr len"
    "unat (gap_addr mm post addr len + len) = unat (gap_addr mm post addr len) + unat len"
    "post \<noteq> [] \<Longrightarrow> gap_addr mm post addr len + len \<le> ?n"
  proof (atomize (full), cases "post = [] \<or> addr + len \<le> ?n")
    case True
    then show "?e \<le> gap_addr mm post addr len \<and>
      unat (gap_addr mm post addr len + len) = unat (gap_addr mm post addr len) + unat len \<and>
      (post \<noteq> [] \<longrightarrow> gap_addr mm post addr len + len \<le> ?n)"
      using g sum by (auto simp: has_gap_def gap_addr_def)
  next
    case False
    then have c: "?e \<le> addr" "addr < ?n" "len \<le> ?n - ?e" using g by (auto simp: has_gap_def)
    have u: "unat (?n - ?e) = unat ?n - unat ?e" using c by (intro unat_sub) simp
    have l: "len \<le> ?n" using c u by (simp add: word_le_nat_alt)
    then have "unat (?n - len) = unat ?n - unat len" by (rule unat_sub)
    then show "?e \<le> gap_addr mm post addr len \<and>
      unat (gap_addr mm post addr len + len) = unat (gap_addr mm post addr len) + unat len \<and>
      (post \<noteq> [] \<longrightarrow> gap_addr mm post addr len + len \<le> ?n)"
      using False c u l by (simp add: gap_addr_def word_le_nat_alt word_less_nat_alt)
  qed
qed

lemma hint_addr_upd [simp]: "hint_addr addr (mm\<lparr>areas := f\<rparr>) = hint_addr addr mm"
  by (simp add: hint_addr_def)

lemma get_unmapped_area_place:
  assumes ok: "areas_ok mm (pre @ post)" and new: "vma \<notin> set (mmap_head # pre @ post)"
    and a: "a = hint_addr addr mm" "a = PAGE_ALIGN a" "a \<noteq> 0"
    and len: "PAGE_ALIGN len \<noteq> 0" "unat a + unat (PAGE_ALIGN len) < 4294967296"
    and g: "has_gap mm pre post a (PAGE_ALIGN len)"
  shows "\<exists>l. ring l mmap_head (pre @ vma # post) \<and>
    get_unmapped_area vma addr len mm =
      Some (vma, mm\<lparr>mmap := l,
        areas := (areas mm)(vma := \<lparr>vm_start = gap_addr mm post a (PAGE_ALIGN len),
                                    vm_end = gap_addr mm post a (PAGE_ALIGN len) + PAGE_ALIGN len, vm_flags = 0, vm_file = None\<rparr>),
        free_area_cache := gap_addr mm post a (PAGE_ALIGN len) + PAGE_ALIGN len\<rparr>)"
proof (cases "pre = []")
  case True
  then have [simp]: "pre = []" "post = []" using g by (auto simp: has_gap_def)
  have r: "ring (mmap mm) mmap_head []" using ok by (simp add: areas_ok_def)
  obtain l where l: "list_add vma mmap_head (mmap mm) = Some l" "ring l mmap_head [vma]"
    using list_add_ring [OF r, of vma] new by auto
  have "list_empty mmap_head (mmap mm)" using ring_empty_iff [OF r] by simp
  then show ?thesis
    using l a(3) a(2) [symmetric] unfolding get_unmapped_area_def Let_def
    by (auto simp: gap_addr_def a(1) [symmetric] intro!: exI [of _ l])
next
  case False
  then obtain pre' x where pre: "pre = pre' @ [x]" by (metis rev_exhaust)
  let ?len = "PAGE_ALIGN len"
  let ?mm = "upd_area vma (\<lambda>_. \<lparr>vm_start = 0, vm_end = 0, vm_flags = 0, vm_file = None\<rparr>) mm"
  have ok': "areas_ok mm (pre' @ x # post)" and r: "ring (mmap mm) mmap_head (pre' @ x # post)"
    using ok pre by (simp_all add: areas_ok_def)
  have keep: "areas ?mm y = areas mm y" if "y \<in> set (pre' @ x # post)" for y using new that pre by auto
  have gx: "has_gap ?mm (pre' @ [x]) post a ?len = has_gap mm pre post a ?len" "gap_addr ?mm post a ?len = gap_addr mm post a ?len"
    using keep pre by (cases post; auto simp: has_gap_def gap_addr_def)+
  have le: "vm_end (areas mm x) \<le> a" using g pre by (simp add: has_gap_def)
  have lt: "\<not> a + ?len \<le> vm_start (areas mm y)" if "y \<in> set (pre' @ [x])" for y
    using areas_before(1) [OF ok' le that] len
    by (simp add: word_le_nat_alt unat_plus_if' unat_gt_0 [symmetric] del: unat_eq_0 unat_gt_0)
  have run: "unmapped_loop a ?len vma ?mm (Some (hd (pre' @ [x]))) =
      map_option (\<lambda>l. (l, gap_addr mm post a ?len)) (list_add vma x (mmap mm))"
    using unmapped_loop_run [of ?mm "[]" pre' x post a ?len vma] r g gx areas_before(1) [OF ok' le] lt keep by simp
  obtain l where l: "list_add vma x (mmap mm) = Some l" "ring l mmap_head (pre' @ x # vma # post)"
    using cyc_add_after [of "mmap mm" "mmap_head # pre'" x post vma] r new pre by auto
  have "\<not> list_empty mmap_head (mmap mm)" "lnext (mmap mm mmap_head) = Some (hd (pre' @ [x]))"
    using ring_empty_iff [OF r] ring_next [OF r] by (auto simp: hd_append)
  moreover have "gap_addr mm post a ?len \<noteq> 0"
    using gap_addr_bounds(1) [of mm pre' x post a ?len] g pre len(2) ok' by (auto simp: areas_ok_def)
  ultimately show ?thesis
    using l run a(2) [symmetric] pre unfolding get_unmapped_area_def Let_def
    by (auto simp: a(1) [symmetric] intro!: exI [of _ l])
qed

lemma find_vma_loop_eq:
  assumes "ring (mmap mm) mmap_head (dn @ xs)"
  shows "find_vma_loop mm addr (Some (hd (xs @ [mmap_head]))) =
    Some (find (\<lambda>x. vm_start (areas mm x) \<le> addr \<and> addr < vm_end (areas mm x)) xs)"
  using assms
proof (induction xs arbitrary: dn)
  case Nil
  then show ?case by (subst find_vma_loop.simps) simp
next
  case (Cons x xs)
  have "lnext (mmap mm x) = Some (hd (xs @ [mmap_head]))" "x \<noteq> mmap_head"
    using ring_next_inner [OF Cons.prems] ring_head_inner [OF Cons.prems] by simp_all
  moreover have "find_vma_loop mm addr (Some (hd (xs @ [mmap_head]))) =
      Some (find (\<lambda>x. vm_start (areas mm x) \<le> addr \<and> addr < vm_end (areas mm x)) xs)"
    using Cons.IH [of "dn @ [x]"] Cons.prems by simp
  ultimately show ?case by (subst find_vma_loop.simps) simp
qed

text \<open>On a ring the search ends, with the first area that contains the address.\<close>

lemma find_vma_eq:
  assumes "ring (mmap mm) mmap_head xs"
  shows "find_vma mm addr = Some (find (\<lambda>x. vm_start (areas mm x) \<le> addr \<and> addr < vm_end (areas mm x)) xs)"
  using find_vma_loop_eq [of mm "[]" xs addr] assms ring_next [OF assms] by (simp add: find_vma_def)

text \<open>When the request ends before the first area, the code links that area a second time instead of the new one: its
  forward pointer leads to itself, and no walk over the list ends.\<close>

lemma get_unmapped_area_before_first:
  assumes r: "ring (mmap mm) mmap_head (x # xs)" and le: "addr + len \<le> vm_start (areas mm x)"
  shows "\<exists>l. unmapped_loop addr len vma mm (Some x) = Some (l, addr) \<and> (\<forall>n. list_for_each n mmap_head l = None)"
proof -
  have ne: "x \<noteq> mmap_head" and nx: "lnext (mmap mm mmap_head) = Some x" using r by (auto simp: ring_def)
  define l where "l = (mmap mm)(x := \<lparr>lnext = Some x, lprev = Some mmap_head\<rparr>, mmap_head := (mmap mm mmap_head)\<lparr>lnext := Some x\<rparr>)"
  have "list_add x mmap_head (mmap mm) = Some l"
    using ne nx by (auto simp: list_ops_defs l_def)
  then have "unmapped_loop addr len vma mm (Some x) = Some (l, addr)"
    using ne le by (subst unmapped_loop.simps) (simp add: Let_def)
  moreover have "list_walk n mmap_head (Some x) l = None" for n
    using ne by (induction n) (auto simp: l_def)
  then have "list_for_each n mmap_head l = None" for n by (simp add: list_for_each_def l_def)
  ultimately show ?thesis by blast
qed

section \<open>The properties\<close>

text \<open>A process with two areas and a gap of sixteen pages between them.\<close>

definition mm_example :: mm_struct where
  "mm_example =
     \<lparr>mmap = (\<lambda>_. null_entry)
        (0 := \<lparr>lnext = Some 1, lprev = Some 2\<rparr>, 1 := \<lparr>lnext = Some 2, lprev = Some 0\<rparr>, 2 := \<lparr>lnext = Some 0, lprev = Some 1\<rparr>),
      areas = (\<lambda>_. \<lparr>vm_start = 0, vm_end = 0, vm_flags = 0, vm_file = None\<rparr>)
        (1 := \<lparr>vm_start = 0x1000, vm_end = 0x4000, vm_flags = 0, vm_file = None\<rparr>,
         2 := \<lparr>vm_start = 0x14000, vm_end = 0x16000, vm_flags = 0, vm_file = None\<rparr>),
      free_area_cache = 0x13000, start_brk = 0x3000, brk = 0x3000, end_brk = 0x4000, mm_vmm = vmm_example, mm_pdir = 0xC0000000\<rparr>"

lemma mm_example_ok: "areas_ok mm_example ([1] @ [2])"
  by (simp add: areas_ok_def mm_example_def ring_def mmap_head_def)

text \<open>C28: \<open>get_unmapped_area\<close> on ordered, disjoint areas with a gap behind one of them that has room for the request (or
  with no area at all) ends; it links the new area into that gap, page-aligned length included, so that the areas are
  again ordered and disjoint, remembers the end of the new area and changes no other area. The search is at the hint,
  or at the end of the gap when the hint lies in it too far up.\<close>

theorem get_unmapped_area_correct:
  assumes "areas_ok mm (pre @ post)" and "vma \<notin> set (mmap_head # pre @ post)"
    and "a = hint_addr addr mm" and "a = PAGE_ALIGN a" and "a \<noteq> 0"
    and "PAGE_ALIGN len \<noteq> 0" and "unat a + unat (PAGE_ALIGN len) < 4294967296"
    and "has_gap mm pre post a (PAGE_ALIGN len)"
  shows "\<exists>mm'. get_unmapped_area vma addr len mm = Some (vma, mm') \<and> areas_ok mm' (pre @ vma # post) \<and>
    unat (vm_end (areas mm' vma)) = unat (vm_start (areas mm' vma)) + unat (PAGE_ALIGN len) \<and>
    free_area_cache mm' = vm_end (areas mm' vma) \<and> (\<forall>x. x \<noteq> vma \<longrightarrow> areas mm' x = areas mm x)"
proof -
  let ?len = "PAGE_ALIGN len" and ?f = "gap_addr mm post a (PAGE_ALIGN len)"
  obtain l where l: "ring l mmap_head (pre @ vma # post)"
    and res: "get_unmapped_area vma addr len mm =
      Some (vma, mm\<lparr>mmap := l, areas := (areas mm)(vma := \<lparr>vm_start = ?f, vm_end = ?f + ?len, vm_flags = 0, vm_file = None\<rparr>),
        free_area_cache := ?f + ?len\<rparr>)"
    using get_unmapped_area_place [OF assms] by blast
  let ?ar = "(areas mm)(vma := \<lparr>vm_start = ?f, vm_end = ?f + ?len, vm_flags = 0, vm_file = None\<rparr>)"
  have ok: "areas_ok mm (pre @ post)" by (rule assms(1))
  have b: "unat (?f + ?len) = unat ?f + unat ?len \<and> 0 < ?f \<and> (\<forall>x \<in> set pre. vm_end (areas mm x) \<le> ?f) \<and>
      (post \<noteq> [] \<longrightarrow> ?f + ?len \<le> vm_start (areas mm (hd post)))"
  proof (cases pre rule: rev_cases)
    case Nil
    then have "?f = a" "post = []" using assms(8) by (auto simp: has_gap_def gap_addr_def)
    then show ?thesis using Nil assms(5,7) by (simp add: unat_plus_if' word_gt_0)
  next
    case (snoc pre' y)
    note gb = gap_addr_bounds [of mm pre' y post a ?len, OF assms(8) [unfolded snoc] assms(7)]
    have ok': "areas_ok mm (pre' @ y # post)" using ok snoc by simp
    then have "0 < vm_end (areas mm y)" by (auto simp: areas_ok_def)
    with gb(1) have "0 < ?f" by (rule less_le_trans [rotated])
    with gb areas_before(2) [OF ok' gb(1)] show ?thesis using snoc by auto
  qed
  have "\<forall>x \<in> set post. ?f + ?len \<le> vm_start (areas mm x)"
    using b ok by (cases post) (auto simp: areas_ok_def sorted_wrt_append intro: order_trans)
  moreover have "?f \<le> ?f + ?len" using b by (simp add: word_le_nat_alt)
  moreover have "sorted_wrt (\<lambda>x y. vm_end (?ar x) \<le> vm_start (?ar y)) xs"
    if "sorted_wrt (\<lambda>x y. vm_end (areas mm x) \<le> vm_start (areas mm y)) xs" "set xs \<subseteq> set (pre @ post)" for xs
    by (rule sorted_wrt_mono_rel [OF _ that(1)]) (use that(2) assms(2) in auto)
  then have "sorted_wrt (\<lambda>x y. vm_end (?ar x) \<le> vm_start (?ar y)) pre" "sorted_wrt (\<lambda>x y. vm_end (?ar x) \<le> vm_start (?ar y)) post"
    using ok by (simp_all add: areas_ok_def sorted_wrt_append)
  ultimately have "areas_ok (mm\<lparr>mmap := l, areas := ?ar, free_area_cache := ?f + ?len\<rparr>) (pre @ vma # post)"
    using ok b l assms(2) by (auto simp: areas_ok_def sorted_wrt_append)
  then show ?thesis using res b by (intro exI [of _ "mm\<lparr>mmap := l, areas := ?ar, free_area_cache := ?f + ?len\<rparr>"]) simp
qed

theorem get_unmapped_area_correct_witness:
  "\<exists>mm'. get_unmapped_area 3 0 0x2fff mm_example = Some (3, mm') \<and> areas_ok mm' [1, 3, 2] \<and>
     unat (vm_end (areas mm' 3)) = unat (vm_start (areas mm' 3)) + 0x3000"
proof -
  have "hint_addr 0 mm_example = 0x13000" "PAGE_ALIGN 0x13000 = 0x13000" "PAGE_ALIGN 0x2fff = 0x3000"
    by (simp_all add: hint_addr_def mm_example_def max_def PAGE_ALIGN_def PMM_FRAME_SIZE_def)
  moreover have "has_gap mm_example [1] [2] 0x13000 0x3000" by (simp add: has_gap_def mm_example_def)
  ultimately show ?thesis
    using get_unmapped_area_correct [OF mm_example_ok, of 3 "0x13000" 0 "0x2fff"] by (auto simp: mmap_head_def)
qed

end
