(* ===== verification/Timer.thy ===== *)
theory Timer
  imports List_Head
begin

text \<open>
  The software timers of \<open>kernel/system/timer.c\<close>.

  The timers hang on one list through their \<open>sibling\<close>, on the pointer level of \<open>List_Head\<close>: the node 0 is the
  head \<open>list_of_timer\<close>, every other number is a timer. What the call-backs do to the rest of the kernel is a part
  \<open>world\<close> of the state. The lemmas show where \<open>add_timer\<close> puts a timer, and that the interrupt handler calls the
  call-backs of exactly the expired timers, each once, also when a call-back deletes or re-arms its timer.
\<close>

section \<open>The state and the operations\<close>

record 'w timers =
  list_of_timer :: "nat lstore"
  expires :: "nat \<Rightarrow> u64"
  magic :: "nat \<Rightarrow> u32"
  world :: 'w

definition TIMER_MAGIC :: u32 where
  "TIMER_MAGIC = 0x4b87ad6e"

definition timer_head :: nat where
  "timer_head = 0"

text \<open>A timer with a wrong magic number raises the debug exception, which does not return.\<close>

definition assert_timer_valid :: "nat \<Rightarrow> 'w timers \<Rightarrow> unit option" where
  "assert_timer_valid t s = (if magic s t \<noteq> TIMER_MAGIC then None else Some ())"

definition is_actived_timer :: "nat \<Rightarrow> 'w timers \<Rightarrow> bool" where
  "is_actived_timer t s \<longleftrightarrow> lprev (list_of_timer s t) \<noteq> None \<and> lnext (list_of_timer s t) \<noteq> None"

text \<open>The loop of \<open>add_timer\<close>; the result is the last timer that does not expire later than the new one.\<close>

partial_function (option) add_timer_loop :: "nat \<Rightarrow> 'w timers \<Rightarrow> nat option \<Rightarrow> nat option \<Rightarrow> nat option option" where
  "add_timer_loop timer s node pos =
     (case pos of None \<Rightarrow> None
      | Some iter \<Rightarrow>
          if iter = timer_head then Some node
          else
            Option.bind (assert_timer_valid iter s) (\<lambda>_.
              if expires s timer < expires s iter then Some node
              else add_timer_loop timer s (Some iter) (lnext (list_of_timer s iter))))"

definition add_timer :: "nat \<Rightarrow> 'w timers \<Rightarrow> 'w timers option" where
  "add_timer timer s =
     do {
       node \<leftarrow> add_timer_loop timer s None (lnext (list_of_timer s timer_head));
       l \<leftarrow> (case node of Some n \<Rightarrow> list_add timer n (list_of_timer s)
             | None \<Rightarrow> list_add_tail timer timer_head (list_of_timer s));
       Some (s\<lparr>list_of_timer := l\<rparr>)
     }"

definition del_timer :: "nat \<Rightarrow> 'w timers \<Rightarrow> 'w timers option" where
  "del_timer timer s = map_option (\<lambda>l. s\<lparr>list_of_timer := l\<rparr>) (list_del timer (list_of_timer s))"

definition mod_timer :: "nat \<Rightarrow> u64 \<Rightarrow> 'w timers \<Rightarrow> 'w timers option" where
  "mod_timer timer exp s =
     do {
       s \<leftarrow> del_timer timer s;
       add_timer timer (s\<lparr>expires := (expires s)(timer := exp)\<rparr>)
     }"

text \<open>The loop of the handler: \<open>func\<close> is the call-back of a timer, the next timer is read before it runs.\<close>

partial_function (option) timer_loop ::
    "(nat \<Rightarrow> 'w timers \<Rightarrow> 'w timers option) \<Rightarrow> u64 \<Rightarrow> nat option \<Rightarrow> 'w timers \<Rightarrow> 'w timers option" where
  "timer_loop func cms pos s =
     (case pos of None \<Rightarrow> None
      | Some iter \<Rightarrow>
          if iter = timer_head then Some s
          else
            let nxt = lnext (list_of_timer s iter)
            in Option.bind (assert_timer_valid iter s) (\<lambda>_.
                 Option.bind (if expires s iter \<le> cms then func iter s else Some s) (timer_loop func cms nxt)))"

definition timer_schedule_handler :: "(nat \<Rightarrow> 'w timers \<Rightarrow> 'w timers option) \<Rightarrow> u64 \<Rightarrow> 'w timers \<Rightarrow> 'w timers option" where
  "timer_schedule_handler func cms s = timer_loop func cms (lnext (list_of_timer s timer_head)) s"

definition timer_init :: "'w timers \<Rightarrow> 'w timers" where
  "timer_init s = s\<lparr>list_of_timer := INIT_LIST_HEAD timer_head (list_of_timer s)\<rparr>"

section \<open>Insertion\<close>

definition timers_ok :: "'w timers \<Rightarrow> nat list \<Rightarrow> bool" where
  "timers_ok s xs \<longleftrightarrow> ring (list_of_timer s) timer_head xs \<and> (\<forall>x \<in> set xs. magic s x = TIMER_MAGIC)"

lemma add_timer_loop_eq:
  assumes "ring (list_of_timer s) timer_head (dn @ xs)" and "\<forall>x \<in> set xs. magic s x = TIMER_MAGIC"
  shows "add_timer_loop timer s (if dn = [] then None else Some (last dn)) (Some (hd (xs @ [timer_head]))) =
    Some (let ys = dn @ takeWhile (\<lambda>x. \<not> expires s timer < expires s x) xs in if ys = [] then None else Some (last ys))"
  using assms
proof (induction xs arbitrary: dn)
  case Nil
  then show ?case by (subst add_timer_loop.simps) simp
next
  case (Cons x xs)
  have nx: "lnext (list_of_timer s x) = Some (hd (xs @ [timer_head]))" "x \<noteq> timer_head"
    using ring_next_inner [OF Cons.prems(1)] ring_head_inner [OF Cons.prems(1)] by simp_all
  have "add_timer_loop timer s (Some x) (Some (hd (xs @ [timer_head]))) =
      Some (let ys = dn @ x # takeWhile (\<lambda>x. \<not> expires s timer < expires s x) xs in if ys = [] then None else Some (last ys))"
    using Cons.IH [of "dn @ [x]"] Cons.prems by simp
  with nx Cons.prems(2) show ?case
    by (subst add_timer_loop.simps) (simp add: assert_timer_valid_def Let_def)
qed

text \<open>The new timer goes behind those that do not expire later; when there is none, it goes to the end of the list.\<close>

lemma add_timer_place:
  assumes ok: "timers_ok s xs" and new: "timer \<notin> set (timer_head # xs)" "magic s timer = TIMER_MAGIC"
  defines "pre \<equiv> takeWhile (\<lambda>x. \<not> expires s timer < expires s x) xs"
    and "post \<equiv> dropWhile (\<lambda>x. \<not> expires s timer < expires s x) xs"
  shows "\<exists>l. add_timer timer s = Some (s\<lparr>list_of_timer := l\<rparr>) \<and>
    timers_ok (s\<lparr>list_of_timer := l\<rparr>) (if pre = [] then xs @ [timer] else pre @ timer # post) \<and>
    (\<forall>y. y \<notin> set (timer_head # timer # xs) \<longrightarrow> l y = list_of_timer s y)"
proof -
  have r: "ring (list_of_timer s) timer_head xs" and m: "\<forall>x \<in> set xs. magic s x = TIMER_MAGIC"
    using ok by (auto simp: timers_ok_def)
  have split: "xs = pre @ post" by (simp add: pre_def post_def)
  have node: "add_timer_loop timer s None (lnext (list_of_timer s timer_head)) = Some (if pre = [] then None else Some (last pre))"
    using add_timer_loop_eq [of s "[]" xs timer] r m ring_next [OF r] by (simp add: Let_def pre_def)
  show ?thesis
  proof (cases pre rule: rev_cases)
    case Nil
    obtain l where "list_add_tail timer timer_head (list_of_timer s) = Some l" "ring l timer_head (xs @ [timer])"
        "\<forall>y. y \<notin> set (timer_head # timer # xs) \<longrightarrow> l y = list_of_timer s y"
      using list_add_tail_ring [OF r new(1)] by blast
    then show ?thesis using Nil node m new(2) by (auto simp: add_timer_def timers_ok_def intro!: exI [of _ l])
  next
    case (snoc pre' y)
    obtain l where "list_add timer y (list_of_timer s) = Some l" "ring l timer_head (pre' @ y # timer # post)"
        "\<forall>z. z \<notin> set (timer_head # timer # xs) \<longrightarrow> l z = list_of_timer s z"
      using cyc_add_after [of "list_of_timer s" "timer_head # pre'" y post timer] r new(1) unfolding split snoc by auto
    moreover have "\<forall>x \<in> set (pre @ post). magic s x = TIMER_MAGIC" using m split by simp
    ultimately show ?thesis using snoc node new(2) by (auto simp: add_timer_def timers_ok_def intro!: exI [of _ l])
  qed
qed

text \<open>So an ordered list stays ordered, unless the new timer expires before all others.\<close>

lemma add_timer_sorted:
  assumes ok: "timers_ok s xs" and new: "timer \<notin> set (timer_head # xs)" "magic s timer = TIMER_MAGIC"
    and so: "sorted (map (expires s) xs)" and first: "xs = [] \<or> \<not> expires s timer < expires s (hd xs)"
  shows "\<exists>s' ys. add_timer timer s = Some s' \<and> timers_ok s' ys \<and> sorted (map (expires s') ys) \<and> set ys = insert timer (set xs)"
proof -
  let ?P = "\<lambda>x. \<not> expires s timer < expires s x"
  have split: "xs = takeWhile ?P xs @ dropWhile ?P xs" by simp
  have pre: "expires s x \<le> expires s timer" if "x \<in> set (takeWhile ?P xs)" for x
    using set_takeWhileD [OF that] by (simp add: not_less)
  have post: "expires s timer \<le> expires s x" if x: "x \<in> set (dropWhile ?P xs)" for x
  proof -
    obtain y ys where Cons: "dropWhile ?P xs = y # ys" using x by (metis list.set_cases)
    then have "expires s timer < expires s y" by (metis hd_dropWhile list.distinct(1) list.sel(1))
    moreover have "sorted (map (expires s) (dropWhile ?P xs))" using so split by (metis map_append sorted_append)
    then have "expires s y \<le> expires s x" using x Cons by auto
    ultimately show ?thesis by simp
  qed
  have "takeWhile ?P xs = [] \<Longrightarrow> xs = []" using first by (cases xs) auto
  then have eq: "(if takeWhile ?P xs = [] then xs @ [timer] else takeWhile ?P xs @ timer # dropWhile ?P xs) =
      takeWhile ?P xs @ timer # dropWhile ?P xs"
    by auto
  have "sorted (map (expires s) (takeWhile ?P xs)) \<and> sorted (map (expires s) (dropWhile ?P xs))"
    using so split by (metis map_append sorted_append)
  then have "sorted (map (expires s) (takeWhile ?P xs @ timer # dropWhile ?P xs))"
    using pre post by (auto simp: sorted_append intro: order_trans)
  moreover have "set (takeWhile ?P xs @ timer # dropWhile ?P xs) = insert timer (set xs)"
    by (metis Un_insert_right list.simps(15) set_append split)
  ultimately show ?thesis
    using add_timer_place [OF ok new] unfolding eq by (elim exE conjE) (intro exI conjI, assumption+, simp_all)
qed

text \<open>A timer that expires before all others is put at the end.\<close>

lemma add_timer_earliest_last:
  assumes "timers_ok s (x # xs)" and "timer \<notin> set (timer_head # x # xs)" "magic s timer = TIMER_MAGIC"
    and "expires s timer < expires s x"
  shows "\<exists>s'. add_timer timer s = Some s' \<and> timers_ok s' (x # xs @ [timer])"
  using add_timer_place [OF assms(1-3)] assms(4) by auto

section \<open>The handler\<close>

text \<open>
  A call-back changes the rest of the kernel, and it deletes or re-arms timers by the operations above. Which of them it
  calls may depend on the state it finds: \<open>thread_sleep_timer\<close> and \<open>process_sig_alarm_timer\<close> delete their timer,
  \<open>tcp_persist_timer\<close> deletes or re-arms its own, \<open>tcp_retransmit_timer\<close> re-arms its own, and \<open>tcp_msl_timer\<close>
  deletes its own twice and the two other timers of its connection, which are not armed in \<open>TCP_TIME_WAIT\<close>.
\<close>

datatype timer_call = Del_timer nat | Mod_timer nat u64

fun run_call :: "timer_call \<Rightarrow> 'w timers \<Rightarrow> 'w timers option" where
  "run_call (Del_timer t) s = del_timer t s"
| "run_call (Mod_timer t e) s = mod_timer t e s"

primrec timer_calls :: "timer_call list \<Rightarrow> 'w timers \<Rightarrow> 'w timers option" where
  "timer_calls [] s = Some s"
| "timer_calls (c # cs) s = Option.bind (run_call c s) (timer_calls cs)"

definition callback :: "(nat \<Rightarrow> 'w \<Rightarrow> timer_call list) \<Rightarrow> (nat \<Rightarrow> 'w \<Rightarrow> 'w) \<Rightarrow> nat \<Rightarrow> 'w timers \<Rightarrow> 'w timers option" where
  "callback calls g t s = map_option (\<lambda>s'. s'\<lparr>world := g t (world s)\<rparr>) (timer_calls (calls t (world s)) s)"

text \<open>What the calls mean for the armed timers, a map from timers to the times they expire at.\<close>

fun timer_effect :: "timer_call \<Rightarrow> (nat \<rightharpoonup> u64) \<Rightarrow> (nat \<rightharpoonup> u64)" where
  "timer_effect (Del_timer t) m = m(t := None)"
| "timer_effect (Mod_timer t e) m = m(t \<mapsto> e)"

definition fire :: "(nat \<Rightarrow> 'w \<Rightarrow> timer_call list) \<Rightarrow> (nat \<Rightarrow> 'w \<Rightarrow> 'w) \<Rightarrow> nat \<Rightarrow> 'w \<times> (nat \<rightharpoonup> u64) \<Rightarrow> 'w \<times> (nat \<rightharpoonup> u64)" where
  "fire calls g t wm = (g t (fst wm), fold timer_effect (calls t (fst wm)) (snd wm))"

definition armed :: "'w timers \<Rightarrow> nat list \<Rightarrow> nat \<rightharpoonup> u64" where
  "armed s xs = (\<lambda>x. if x \<in> set xs then Some (expires s x) else None)"

definition unlinked :: "'w timers \<Rightarrow> nat \<Rightarrow> bool" where
  "unlinked s t \<longleftrightarrow> lnext (list_of_timer s t) = None \<and> lprev (list_of_timer s t) = None"

text \<open>A call-back re-arms only its own timer, for a time that is still to come, and deletes only its own timer and timers
  that are not armed.\<close>

fun call_ok :: "u64 \<Rightarrow> nat set \<Rightarrow> nat \<Rightarrow> timer_call \<Rightarrow> bool" where
  "call_ok cms J x (Del_timer t) \<longleftrightarrow> t = x \<or> t \<in> J"
| "call_ok cms J x (Mod_timer t e) \<longleftrightarrow> t = x \<and> cms < e"

lemma ring_linked:
  assumes "ring m a xs" "x \<in> set (a # xs)"
  shows "lnext (m x) \<noteq> None"
proof (cases "x = a")
  case True
  then show ?thesis using ring_next [OF assms(1)] by simp
next
  case False
  then obtain us vs where "xs = us @ x # vs" using assms(2) by (metis set_ConsD split_list)
  then show ?thesis using ring_next_inner [of m a us x vs] assms(1) by simp
qed

lemma unlinked_off: "timers_ok s xs \<Longrightarrow> unlinked s t \<Longrightarrow> t \<notin> set (timer_head # xs)"
  using ring_linked by (fastforce simp: timers_ok_def unlinked_def)

lemma filter_absent: "x \<notin> set xs \<Longrightarrow> filter (\<lambda>y. y \<noteq> x) xs = xs"
  by (rule filter_True) auto

lemma filter_other: "distinct (us @ x # vs) \<Longrightarrow> filter (\<lambda>y. y \<noteq> x) (us @ x # vs) = us @ vs"
  by (simp add: filter_absent)

text \<open>Deleting a timer, armed or not.\<close>

lemma del_timer_any:
  assumes ok: "timers_ok s xs" and t: "t \<in> set xs \<or> unlinked s t"
  shows "\<exists>l. del_timer t s = Some (s\<lparr>list_of_timer := l\<rparr>) \<and> timers_ok (s\<lparr>list_of_timer := l\<rparr>) (filter (\<lambda>y. y \<noteq> t) xs) \<and>
    unlinked (s\<lparr>list_of_timer := l\<rparr>) t \<and> (\<forall>y. unlinked s y \<longrightarrow> unlinked (s\<lparr>list_of_timer := l\<rparr>) y)"
proof (cases "t \<in> set xs")
  case True
  then obtain us vs where xs: "xs = us @ t # vs" by (meson split_list)
  have r: "ring (list_of_timer s) timer_head (us @ t # vs)" using ok xs by (simp add: timers_ok_def)
  obtain l where l: "list_del t (list_of_timer s) = Some l" "ring l timer_head (us @ vs)" "lnext (l t) = None"
      "lprev (l t) = None" "\<forall>y. y \<notin> set (timer_head # us @ t # vs) \<longrightarrow> l y = list_of_timer s y"
    using list_del_ring [OF r] by blast
  have "filter (\<lambda>y. y \<noteq> t) xs = us @ vs" unfolding xs by (rule filter_other) (use r in \<open>simp add: ring_def\<close>)
  moreover have "unlinked (s\<lparr>list_of_timer := l\<rparr>) y" if "unlinked s y" for y
    using that unlinked_off [OF ok that] l(5) xs by (simp add: unlinked_def)
  ultimately show ?thesis using l ok xs by (auto simp: del_timer_def timers_ok_def unlinked_def intro!: exI [of _ l])
next
  case False
  then have n: "lnext (list_of_timer s t) = None" "lprev (list_of_timer s t) = None" using t by (auto simp: unlinked_def)
  have "filter (\<lambda>y. y \<noteq> t) xs = xs" using False by (rule filter_absent)
  then show ?thesis
    using list_del_poisoned [of "list_of_timer s" t] ok n by (auto simp: del_timer_def unlinked_def intro!: exI [of _ "list_of_timer s"])
qed

text \<open>The state in the middle of a call-back of \<open>x\<close>: the entries before and behind the handler's position, up to \<open>x\<close>
  itself, are those the call-back began with, and the next entry is still the one the handler has read.\<close>

definition mid_call :: "u64 \<Rightarrow> nat set \<Rightarrow> nat \<Rightarrow> nat list \<Rightarrow> nat list \<Rightarrow> 'w timers \<Rightarrow> nat list \<Rightarrow> nat list \<Rightarrow> 'w timers \<Rightarrow> bool" where
  "mid_call cms J x dn0 xs0 s0 dn xs s \<longleftrightarrow>
     timers_ok s (dn @ xs) \<and> filter (\<lambda>y. y \<noteq> x) dn = dn0 \<and> filter (\<lambda>y. y \<noteq> x) xs = xs0 \<and>
     hd (xs @ [timer_head]) = hd (xs0 @ [timer_head]) \<and> (x \<in> set xs \<longrightarrow> cms < expires s x) \<and>
     (x \<in> set (dn @ xs) \<or> unlinked s x) \<and> (\<forall>y \<in> J. unlinked s y) \<and> x \<notin> J \<and> x \<noteq> timer_head \<and>
     (\<forall>y. y \<noteq> x \<longrightarrow> expires s y = expires s0 y) \<and> world s = world s0 \<and> magic s x = TIMER_MAGIC"

lemma mid_del:
  assumes m: "mid_call cms J x dn0 xs0 s0 dn xs s"
  shows "\<exists>l. del_timer x s = Some (s\<lparr>list_of_timer := l\<rparr>) \<and> mid_call cms J x dn0 xs0 s0 dn0 xs0 (s\<lparr>list_of_timer := l\<rparr>) \<and>
    x \<notin> set (dn0 @ xs0)"
proof -
  have ok: "timers_ok s (dn @ xs)" and x: "x \<in> set (dn @ xs) \<or> unlinked s x" using m by (simp_all add: mid_call_def)
  have "filter (\<lambda>y. y \<noteq> x) (dn @ xs) = dn0 @ xs0" "x \<notin> set dn0" "x \<notin> set xs0" using m by (auto simp: mid_call_def)
  then show ?thesis
    using del_timer_any [OF ok x] m by (auto simp: mid_call_def filter_absent)
qed

text \<open>Where the re-armed timer goes: not between the handler and the entry it reads next.\<close>

lemma placed_split:
  fixes P :: "'a \<Rightarrow> bool"
  assumes "x \<notin> set (dn @ xs)" "h \<noteq> x"
  defines "pre \<equiv> takeWhile P (dn @ xs)" and "post \<equiv> dropWhile P (dn @ xs)"
  shows "\<exists>dn' xs'. (if pre = [] then (dn @ xs) @ [x] else pre @ x # post) = dn' @ xs' \<and> filter (\<lambda>y. y \<noteq> x) dn' = dn \<and>
    filter (\<lambda>y. y \<noteq> x) xs' = xs \<and> hd (xs' @ [h]) = hd (xs @ [h])"
proof -
  have n: "x \<notin> set dn" "x \<notin> set xs" "x \<notin> set (takeWhile P dn)" "x \<notin> set (dropWhile P dn)" "x \<notin> set (takeWhile P xs)" "x \<notin> set (dropWhile P xs)"
    using assms(1) by (auto dest: set_takeWhileD set_dropWhileD)
  consider "pre = []" "xs = []" | "pre = []" "xs \<noteq> []" | "pre \<noteq> []" "\<exists>y \<in> set dn. \<not> P y"
    | "pre \<noteq> []" "\<forall>y \<in> set dn. P y" "takeWhile P xs = []" | "pre \<noteq> []" "\<forall>y \<in> set dn. P y" "takeWhile P xs \<noteq> []"
    by blast
  then show ?thesis
  proof cases
    case 1
    then show ?thesis using n by (intro exI [of _ "dn @ [x]"] exI [of _ "[]"]) (auto simp: filter_absent)
  next
    case 2
    then show ?thesis using n by (intro exI [of _ dn] exI [of _ "xs @ [x]"]) (auto simp: filter_absent)
  next
    case 3
    then have "pre = takeWhile P dn" "post = dropWhile P dn @ xs" by (auto simp: pre_def post_def)
    then show ?thesis using 3 n
      by (intro exI [of _ "takeWhile P dn @ x # dropWhile P dn"] exI [of _ xs]) (auto simp: filter_absent)
  next
    case 4
    then have "pre = dn" "post = xs" by (auto simp: pre_def post_def takeWhile_eq_Nil_iff) (cases xs; auto)
    then show ?thesis using 4 n by (intro exI [of _ "dn @ [x]"] exI [of _ xs]) (auto simp: filter_absent)
  next
    case 5
    then have "pre = dn @ takeWhile P xs" "post = dropWhile P xs" by (auto simp: pre_def post_def)
    moreover have "hd (takeWhile P xs) = hd xs" "xs \<noteq> []" using 5(3) by (cases xs; auto split: if_splits)+
    ultimately show ?thesis using 5 n
      by (intro exI [of _ dn] exI [of _ "takeWhile P xs @ x # dropWhile P xs"]) (auto simp: filter_absent)
  qed
qed

lemma mid_add:
  assumes m: "mid_call cms J x dn0 xs0 s0 dn0 xs0 s" and x: "x \<notin> set (dn0 @ xs0)" and e: "cms < expires s x"
  shows "\<exists>l dn xs. add_timer x s = Some (s\<lparr>list_of_timer := l\<rparr>) \<and> mid_call cms J x dn0 xs0 s0 dn xs (s\<lparr>list_of_timer := l\<rparr>) \<and>
    x \<in> set (dn @ xs)"
proof -
  let ?P = "\<lambda>y. \<not> expires s x < expires s y"
  have ok: "timers_ok s (dn0 @ xs0)" and new: "x \<notin> set (timer_head # dn0 @ xs0)" "magic s x = TIMER_MAGIC"
    using m x by (auto simp: mid_call_def)
  obtain l where l: "add_timer x s = Some (s\<lparr>list_of_timer := l\<rparr>)"
      "timers_ok (s\<lparr>list_of_timer := l\<rparr>)
        (if takeWhile ?P (dn0 @ xs0) = [] then (dn0 @ xs0) @ [x] else takeWhile ?P (dn0 @ xs0) @ x # dropWhile ?P (dn0 @ xs0))"
      "\<forall>y. y \<notin> set (timer_head # x # dn0 @ xs0) \<longrightarrow> l y = list_of_timer s y"
    using add_timer_place [OF ok new] by blast
  obtain dn xs where d: "(if takeWhile ?P (dn0 @ xs0) = [] then (dn0 @ xs0) @ [x] else takeWhile ?P (dn0 @ xs0) @ x # dropWhile ?P (dn0 @ xs0)) = dn @ xs"
      "filter (\<lambda>y. y \<noteq> x) dn = dn0" "filter (\<lambda>y. y \<noteq> x) xs = xs0" "hd (xs @ [timer_head]) = hd (xs0 @ [timer_head])"
    using placed_split [OF x, of timer_head ?P] new(1) by auto
  have "x \<in> set (dn @ xs)" unfolding d(1) [symmetric] by simp
  moreover have "unlinked (s\<lparr>list_of_timer := l\<rparr>) y" if "y \<in> J" for y
  proof -
    have "unlinked s y" "y \<noteq> x" using m that by (auto simp: mid_call_def)
    then show ?thesis using unlinked_off [OF ok, of y] l(3) by (auto simp: unlinked_def)
  qed
  moreover have "timers_ok (s\<lparr>list_of_timer := l\<rparr>) (dn @ xs)" using l(2) unfolding d(1) .
  ultimately show ?thesis using l(1) d m e
    by (intro exI [of _ l] exI [of _ dn] exI [of _ xs]) (simp add: mid_call_def)
qed

lemma armed_other:
  "mid_call cms J x dn0 xs0 s0 dn xs s \<Longrightarrow> y \<noteq> x \<Longrightarrow> armed s (dn @ xs) y = armed s0 (dn0 @ xs0) y"
  by (auto simp: mid_call_def armed_def)

lemma mid_call_step:
  assumes m: "mid_call cms J x dn0 xs0 s0 dn xs s" and c: "call_ok cms J x c"
  shows "\<exists>s' dn' xs'. run_call c s = Some s' \<and> mid_call cms J x dn0 xs0 s0 dn' xs' s' \<and>
    armed s' (dn' @ xs') = timer_effect c (armed s (dn @ xs))"
proof -
  note other = armed_other
  obtain l where l: "del_timer x s = Some (s\<lparr>list_of_timer := l\<rparr>)"
      "mid_call cms J x dn0 xs0 s0 dn0 xs0 (s\<lparr>list_of_timer := l\<rparr>)" "x \<notin> set (dn0 @ xs0)"
    using mid_del [OF m] by blast
  have own: "armed s' (dn' @ xs') = (armed s (dn @ xs))(x := armed s' (dn' @ xs') x)"
    if "mid_call cms J x dn0 xs0 s0 dn' xs' s'" for dn' xs' and s' :: "'a timers"
    using other [OF that] other [OF m] by (auto simp: fun_eq_iff)
  show ?thesis
  proof (cases c)
    case (Del_timer t)
    consider "t = x" | "t \<noteq> x" "t \<in> J" using c Del_timer by auto
    then show ?thesis
    proof cases
      case 1
      have "armed (s\<lparr>list_of_timer := l\<rparr>) (dn0 @ xs0) x = None" using l(3) by (simp add: armed_def)
      then show ?thesis using l(1,2) own [OF l(2)] Del_timer 1 by (intro exI conjI) simp_all
    next
      case 2
      have u: "unlinked s t" and ok: "timers_ok s (dn @ xs)" using m 2 by (auto simp: mid_call_def)
      have "del_timer t s = Some s"
        using list_del_poisoned [of "list_of_timer s" t] u by (simp add: del_timer_def unlinked_def)
      moreover have "armed s (dn @ xs) t = None" using unlinked_off [OF ok u] by (simp add: armed_def)
      ultimately show ?thesis using m Del_timer by (intro exI conjI) (simp_all add: fun_upd_idem)
    qed
  next
    case (Mod_timer t e)
    then have t: "t = x" "cms < e" using c by auto
    let ?s = "s\<lparr>list_of_timer := l, expires := (expires s)(x := e)\<rparr>"
    have "mid_call cms J x dn0 xs0 s0 dn0 xs0 ?s" using l(2,3) by (auto simp: mid_call_def timers_ok_def unlinked_def)
    then obtain l' dn' xs' where l': "add_timer x ?s = Some (?s\<lparr>list_of_timer := l'\<rparr>)"
        "mid_call cms J x dn0 xs0 s0 dn' xs' (?s\<lparr>list_of_timer := l'\<rparr>)" "x \<in> set (dn' @ xs')"
      using mid_add [of cms J x dn0 xs0 s0 ?s] l(3) t by auto
    have "armed (?s\<lparr>list_of_timer := l'\<rparr>) (dn' @ xs') x = Some e" using l'(3) by (simp add: armed_def)
    then show ?thesis using l(1) l'(1,2) own [OF l'(2)] Mod_timer t(1) by (intro exI conjI) (simp_all add: mod_timer_def)
  qed
qed

lemma mid_calls:
  assumes "mid_call cms J x dn0 xs0 s0 dn xs s" and "\<forall>c \<in> set cs. call_ok cms J x c"
  shows "\<exists>s' dn' xs'. timer_calls cs s = Some s' \<and> mid_call cms J x dn0 xs0 s0 dn' xs' s' \<and>
    armed s' (dn' @ xs') = fold timer_effect cs (armed s (dn @ xs))"
  using assms
proof (induction cs arbitrary: s dn xs)
  case Nil
  then show ?case by auto
next
  case (Cons c cs)
  obtain s1 dn1 xs1 where 1: "run_call c s = Some s1" "mid_call cms J x dn0 xs0 s0 dn1 xs1 s1"
      "armed s1 (dn1 @ xs1) = timer_effect c (armed s (dn @ xs))"
    using mid_call_step [OF Cons.prems(1), of c] Cons.prems(2) by (metis list.set_intros(1))
  then show ?case using Cons.IH [OF 1(2)] Cons.prems(2) by auto
qed

text \<open>One call-back, as the handler runs it.\<close>

lemma callback_run:
  assumes ok: "timers_ok s (dn @ x # xs)" and j: "\<forall>y \<in> J. unlinked s y" and c: "\<forall>w. \<forall>c \<in> set (calls x w). call_ok cms J x c"
  shows "\<exists>s' dn' xs'. callback calls g x s = Some s' \<and> timers_ok s' (dn' @ xs') \<and> hd (xs' @ [timer_head]) = hd (xs @ [timer_head]) \<and>
    length xs' \<le> Suc (length xs) \<and> set (dn' @ xs') \<subseteq> set (dn @ x # xs) \<and> (\<forall>y \<in> J. unlinked s' y) \<and>
    filter (\<lambda>y. expires s' y \<le> cms) xs' = filter (\<lambda>y. expires s y \<le> cms) xs \<and>
    (world s', armed s' (dn' @ xs')) = fire calls g x (world s, armed s (dn @ x # xs))"
proof -
  have r: "ring (list_of_timer s) timer_head (dn @ x # xs)" using ok by (simp add: timers_ok_def)
  have n: "x \<notin> set dn" "x \<notin> set xs" "x \<noteq> timer_head" using r by (auto simp: ring_def)
  have "x \<notin> J" using unlinked_off [OF ok] j by auto
  then have m: "mid_call cms J x dn xs s (dn @ [x]) xs s"
    using ok j n by (simp add: mid_call_def filter_absent timers_ok_def)
  obtain s1 dn1 xs1 where 1: "timer_calls (calls x (world s)) s = Some s1" "mid_call cms J x dn xs s dn1 xs1 s1"
      "armed s1 (dn1 @ xs1) = fold timer_effect (calls x (world s)) (armed s ((dn @ [x]) @ xs))"
    using mid_calls [OF m] c by blast
  have d: "distinct (dn1 @ xs1)" using 1(2) by (auto simp: mid_call_def timers_ok_def ring_def)
  have f: "filter (\<lambda>y. y \<noteq> x) xs1 = xs" "filter (\<lambda>y. y \<noteq> x) dn1 = dn" using 1(2) by (auto simp: mid_call_def)
  have "length xs1 \<le> Suc (length xs)"
  proof (cases "x \<in> set xs1")
    case True
    then obtain us vs where "xs1 = us @ x # vs" by (meson split_list)
    then show ?thesis using f(1) d filter_other [of us x vs] by auto
  qed (use f(1) in \<open>simp add: filter_absent\<close>)
  moreover have "set (dn1 @ xs1) \<subseteq> set (dn @ x # xs)" using f by auto
  moreover have "filter (\<lambda>y. expires s1 y \<le> cms) xs1 = filter (\<lambda>y. expires s y \<le> cms) xs"
  proof -
    have e: "x \<in> set xs1 \<longrightarrow> cms < expires s1 x" "\<forall>y. y \<noteq> x \<longrightarrow> expires s1 y = expires s y"
      using 1(2) by (simp_all add: mid_call_def)
    have "filter (\<lambda>y. expires s1 y \<le> cms) xs1 = filter (\<lambda>y. expires s y \<le> cms) (filter (\<lambda>y. y \<noteq> x) xs1)"
      unfolding filter_filter by (rule filter_cong [OF refl]) (use e in \<open>metis not_le\<close>)
    then show ?thesis using f(1) by simp
  qed
  moreover have "timers_ok (s1\<lparr>world := w\<rparr>) (dn1 @ xs1)" "unlinked (s1\<lparr>world := w\<rparr>) y = unlinked s1 y"
      "armed (s1\<lparr>world := w\<rparr>) (dn1 @ xs1) = armed s1 (dn1 @ xs1)" for w y
    using 1(2) by (simp_all add: mid_call_def timers_ok_def unlinked_def armed_def cong: if_cong)
  ultimately show ?thesis
    using 1 by (intro exI [of _ "s1\<lparr>world := g x (world s)\<rparr>"] exI [of _ dn1] exI [of _ xs1])
      (simp add: callback_def fire_def mid_call_def)
qed

lemma timer_loop_run:
  assumes "timers_ok s (dn @ xs)" and "\<forall>y \<in> J. unlinked s y" and "set (dn @ xs) \<subseteq> X"
    and c: "\<forall>x \<in> X. \<forall>w. \<forall>c \<in> set (calls x w). call_ok cms J x c"
  shows "\<exists>s' ys. timer_loop (callback calls g) cms (Some (hd (xs @ [timer_head]))) s = Some s' \<and> timers_ok s' ys \<and>
    (world s', armed s' ys) = fold (fire calls g) (filter (\<lambda>x. expires s x \<le> cms) xs) (world s, armed s (dn @ xs))"
  using assms(1-3)
proof (induction "length xs + length (filter (\<lambda>x. expires s x \<le> cms) xs)" arbitrary: s dn xs rule: less_induct)
  case less
  show ?case
  proof (cases xs)
    case Nil
    then show ?thesis using less.prems by (subst timer_loop.simps) auto
  next
    case (Cons x zs)
    have r: "ring (list_of_timer s) timer_head (dn @ x # zs)" and m: "magic s x = TIMER_MAGIC"
      using less.prems Cons by (auto simp: timers_ok_def)
    have loop: "timer_loop f cms (Some (hd (xs @ [timer_head]))) s =
        Option.bind (if expires s x \<le> cms then f x s else Some s) (timer_loop f cms (Some (hd (zs @ [timer_head]))))" for f
      using ring_next_inner [OF r] ring_head_inner [OF r] m Cons
      by (subst timer_loop.simps) (simp add: Let_def assert_timer_valid_def)
    show ?thesis
    proof (cases "expires s x \<le> cms")
      case False
      then show ?thesis using less.hyps [of zs s "dn @ [x]"] less.prems Cons loop by auto
    next
      case True
      have "\<forall>w. \<forall>c \<in> set (calls x w). call_ok cms J x c" using c less.prems(3) Cons by auto
      from callback_run [where g = g and calls = calls and x = x and J = J and cms = cms, OF less.prems(1) [unfolded Cons] less.prems(2) this] obtain s1 dn1 xs1 where 1: "callback calls g x s = Some s1" "timers_ok s1 (dn1 @ xs1)"
          "hd (xs1 @ [timer_head]) = hd (zs @ [timer_head])" "length xs1 \<le> Suc (length zs)"
          "set (dn1 @ xs1) \<subseteq> set (dn @ x # zs)" "\<forall>y \<in> J. unlinked s1 y"
          "filter (\<lambda>y. expires s1 y \<le> cms) xs1 = filter (\<lambda>y. expires s y \<le> cms) zs"
          "(world s1, armed s1 (dn1 @ xs1)) = fire calls g x (world s, armed s (dn @ x # zs))"
        by (elim exE conjE) (rule that)
      have "length xs1 + length (filter (\<lambda>y. expires s1 y \<le> cms) xs1) < length xs + length (filter (\<lambda>y. expires s y \<le> cms) xs)"
        using 1(4,7) Cons True by simp
      moreover have "set (dn1 @ xs1) \<subseteq> X" using 1(5) less.prems(3) Cons by auto
      ultimately obtain s' ys where s': "timer_loop (callback calls g) cms (Some (hd (xs1 @ [timer_head]))) s1 = Some s'" "timers_ok s' ys"
          "(world s', armed s' ys) = fold (fire calls g) (filter (\<lambda>x. expires s1 x \<le> cms) xs1) (world s1, armed s1 (dn1 @ xs1))"
        using less.hyps [of xs1 s1 dn1] 1(2,6) by blast
      then have "timer_loop (callback calls g) cms (Some (hd (xs @ [timer_head]))) s = Some s'" using loop True 1(1,3) by simp
      moreover have "(world s', armed s' ys) = fold (fire calls g) (filter (\<lambda>x. expires s x \<le> cms) xs) (world s, armed s (dn @ xs))"
        using s'(3) 1(7,8) Cons True by simp
      ultimately show ?thesis using s'(2) by blast
    qed
  qed
qed

text \<open>The call-backs touch neither a timer that has not expired nor a timer they are not called for.\<close>

lemma fire_other:
  assumes "\<forall>w. \<forall>c \<in> set (calls x w). call_ok cms J x c" "y \<noteq> x" "y \<notin> J"
  shows "snd (fire calls g x wm) y = snd wm y"
proof -
  have "fold timer_effect cs m y = m y" if "\<forall>c \<in> set cs. call_ok cms J x c" for cs m
    using that
  proof (induction cs arbitrary: m)
    case (Cons c cs)
    then show ?case using assms(2,3) by (cases c) auto
  qed simp
  then show ?thesis using assms(1) by (simp add: fire_def)
qed

lemma fires_other:
  assumes "\<forall>x \<in> set xs. \<forall>w. \<forall>c \<in> set (calls x w). call_ok cms J x c" "y \<notin> set xs" "y \<notin> J"
  shows "snd (fold (fire calls g) xs wm) y = snd wm y"
  using assms(1,2)
proof (induction xs arbitrary: wm)
  case (Cons x xs)
  then show ?case using fire_other [of calls x cms J y g wm] assms(3) by simp
qed simp

section \<open>The property\<close>

text \<open>C40: The timer interrupt handler ends, and its effect is that of the call-backs of exactly the timers that have
  expired, each called once and in the order of the list: on the rest of the kernel, and on the armed timers with the
  times they expire at, of which the list afterwards holds exactly those. A timer that has not expired stays armed for
  its time. A call-back may delete or re-arm its timer by \<open>del_timer\<close> and \<open>mod_timer\<close> any number of times, as
  long as the new time is still to come, and delete timers that are not armed; a re-armed timer that the handler meets
  again is not called again.\<close>

theorem timer_schedule_handler_correct:
  assumes "timers_ok s xs" and "\<forall>x \<in> set xs. \<forall>w. \<forall>c \<in> set (calls x w). call_ok cms {t. unlinked s t} x c"
  shows "\<exists>s' ys. timer_schedule_handler (callback calls g) cms s = Some s' \<and> timers_ok s' ys \<and>
    (world s', armed s' ys) = fold (fire calls g) (filter (\<lambda>x. expires s x \<le> cms) xs) (world s, armed s xs) \<and>
    (\<forall>x \<in> set xs. cms < expires s x \<longrightarrow> x \<in> set ys \<and> expires s' x = expires s x)"
proof -
  let ?J = "{t. unlinked s t}" and ?xs = "filter (\<lambda>x. expires s x \<le> cms) xs"
  have "lnext (list_of_timer s timer_head) = Some (hd (xs @ [timer_head]))"
    using assms(1) ring_next [of "list_of_timer s" timer_head xs] by (simp add: timers_ok_def)
  then obtain s' ys where s': "timer_schedule_handler (callback calls g) cms s = Some s'" "timers_ok s' ys"
      "(world s', armed s' ys) = fold (fire calls g) ?xs (world s, armed s xs)"
    using timer_loop_run [of s "[]" xs ?J "set xs" calls cms g] assms unfolding timer_schedule_handler_def by auto
  have "x \<in> set ys \<and> expires s' x = expires s x" if x: "x \<in> set xs" "cms < expires s x" for x
  proof -
    have "x \<notin> ?J" using unlinked_off [OF assms(1)] x(1) by auto
    moreover have "x \<notin> set ?xs" using x(2) by (simp add: not_le)
    ultimately have "snd (fold (fire calls g) ?xs (world s, armed s xs)) x = armed s xs x"
      using fires_other [of ?xs calls cms ?J x g "(world s, armed s xs)"] assms(2) by simp
    then have "armed s' ys x = armed s xs x" using s'(3) by (metis snd_conv)
    then show ?thesis using x(1) by (simp add: armed_def split: if_splits)
  qed
  with s' show ?thesis by blast
qed

definition timers_example :: "nat list timers" where
  "timers_example =
     \<lparr>list_of_timer = (\<lambda>_. null_entry)
        (0 := \<lparr>lnext = Some 1, lprev = Some 3\<rparr>, 1 := \<lparr>lnext = Some 2, lprev = Some 0\<rparr>,
         2 := \<lparr>lnext = Some 3, lprev = Some 1\<rparr>, 3 := \<lparr>lnext = Some 0, lprev = Some 2\<rparr>),
      expires = (\<lambda>_. 0)(1 := 10, 2 := 20, 3 := 5), magic = (\<lambda>_. TIMER_MAGIC), world = []\<rparr>"

text \<open>Two of three timers have expired, one behind a timer that has not: the first is re-armed, as by
  \<open>tcp_retransmit_timer\<close>, the other deletes itself twice and two timers that are not armed, as \<open>tcp_msl_timer\<close>
  does.\<close>

definition calls_example :: "nat \<Rightarrow> nat list \<Rightarrow> timer_call list" where
  "calls_example t w = (if t = 1 then [Mod_timer 1 30] else [Del_timer t, Del_timer t, Del_timer 8, Del_timer 9])"

theorem timer_schedule_handler_correct_witness:
  "\<exists>s' ys. timer_schedule_handler (callback calls_example (\<lambda>t w. w @ [t])) 12 timers_example = Some s' \<and>
     timers_ok s' ys \<and> world s' = [1, 3] \<and> armed s' ys = [1 \<mapsto> 30, 2 \<mapsto> 20]"
proof -
  have "timers_ok timers_example [1, 2, 3]"
    by (simp add: timers_ok_def timers_example_def ring_def timer_head_def)
  moreover have "\<forall>x \<in> set [1, 2, 3]. \<forall>w. \<forall>c \<in> set (calls_example x w). call_ok 12 {t. unlinked timers_example t} x c"
    by (simp add: calls_example_def unlinked_def timers_example_def)
  moreover have "filter (\<lambda>x. expires timers_example x \<le> 12) [1, 2, 3] = [1, 3]" by (simp add: timers_example_def)
  moreover have "armed timers_example [1, 2, 3] = [1 \<mapsto> 10, 2 \<mapsto> 20, 3 \<mapsto> 5]" by (auto simp: armed_def timers_example_def)
  moreover have "world timers_example = []" by (simp add: timers_example_def)
  ultimately obtain s' ys where 1: "timer_schedule_handler (callback calls_example (\<lambda>t w. w @ [t])) 12 timers_example = Some s'"
      "timers_ok s' ys" "(world s', armed s' ys) = fold (fire calls_example (\<lambda>t w. w @ [t])) [1, 3] ([], [1 \<mapsto> 10, 2 \<mapsto> 20, 3 \<mapsto> 5])"
    using timer_schedule_handler_correct [of timers_example "[1, 2, 3]" calls_example 12 "\<lambda>t w. w @ [t]"] by metis
  have "fold (fire calls_example (\<lambda>t w. w @ [t])) [1, 3] ([], [1 \<mapsto> 10, 2 \<mapsto> 20, 3 \<mapsto> 5]) = ([1, 3], [1 \<mapsto> 30, 2 \<mapsto> 20])"
    by (simp add: fire_def calls_example_def fun_eq_iff)
  then show ?thesis using 1 by auto
qed

end
