(* ===== verification/Plist.thy ===== *)
theory Plist
  imports List_Head
begin

text \<open>
  The priority-sorted lists of \<open>kernel/utils/plist.c\<close> and \<open>plist.h\<close>, on the pointer level.

  A \<open>plist_node\<close> carries two \<open>list_head\<close>s: \<open>node_list\<close> links it into the list of all nodes,
  \<open>prio_list\<close> links the first node of every priority into a ring that the insertion uses to
  skip over whole priority classes. \<open>plist_rep\<close> says what the two rings look like for a
  list of nodes; the main lemmas show that \<open>plist_add\<close> inserts a node behind all nodes of its
  own or a smaller priority value, that \<open>plist_del\<close> removes one node, and that both keep the two
  rings as they should be.
\<close>

section \<open>The store and the operations\<close>

text \<open>The addresses of the \<open>list_head\<close>s: of a \<open>plist_head\<close>, and the two of a node.\<close>

datatype ('h, 'n) paddr = HeadList 'h | NodeList 'n | PrioList 'n

record ('h, 'n) pstore =
  links :: "('h, 'n) paddr lstore"
  prio :: "'n \<Rightarrow> int"

text \<open>\<open>list_entry(ptr, struct plist_node, node_list)\<close> and the same for \<open>prio_list\<close>: a pointer that is
  not the named member of a node gives no node.\<close>

definition node_entry :: "('h, 'n) paddr \<Rightarrow> 'n option" where
  "node_entry p = (case p of NodeList n \<Rightarrow> Some n | _ \<Rightarrow> None)"

definition prio_entry :: "('h, 'n) paddr \<Rightarrow> 'n option" where
  "prio_entry p = (case p of PrioList n \<Rightarrow> Some n | _ \<Rightarrow> None)"

definition plist_head_init :: "'h \<Rightarrow> ('h, 'n) pstore \<Rightarrow> ('h, 'n) pstore" where
  "plist_head_init h s = s\<lparr>links := INIT_LIST_HEAD (HeadList h) (links s)\<rparr>"

definition plist_node_init :: "'n \<Rightarrow> int \<Rightarrow> ('h, 'n) pstore \<Rightarrow> ('h, 'n) pstore" where
  "plist_node_init n p s =
     s\<lparr>prio := (prio s)(n := p),
       links := INIT_LIST_HEAD (NodeList n) (INIT_LIST_HEAD (PrioList n) (links s))\<rparr>"

definition plist_head_empty :: "'h \<Rightarrow> ('h, 'n) pstore \<Rightarrow> bool" where
  "plist_head_empty h s = list_empty (HeadList h) (links s)"

definition plist_node_empty :: "'n \<Rightarrow> ('h, 'n) pstore \<Rightarrow> bool" where
  "plist_node_empty n s = list_empty (NodeList n) (links s)"

definition plist_first :: "'h \<Rightarrow> ('h, 'n) pstore \<Rightarrow> 'n option" where
  "plist_first h s = Option.bind (lnext (links s (HeadList h))) node_entry"

definition plist_last :: "'h \<Rightarrow> ('h, 'n) pstore \<Rightarrow> 'n option" where
  "plist_last h s = Option.bind (lprev (links s (HeadList h))) node_entry"

definition plist_next :: "'n \<Rightarrow> ('h, 'n) pstore \<Rightarrow> 'n option" where
  "plist_next n s = Option.bind (lnext (links s (NodeList n))) node_entry"

text \<open>
  The loop of \<open>plist_add\<close>: the values of \<open>iter\<close>, \<open>prev\<close> and \<open>node_next\<close> when it is left.
\<close>

partial_function (option) plist_add_scan ::
    "('h, 'n) pstore \<Rightarrow> 'n \<Rightarrow> 'h \<Rightarrow> 'n \<Rightarrow> 'n \<Rightarrow> 'n option \<Rightarrow> ('n \<times> 'n option \<times> ('h, 'n) paddr) option" where
  "plist_add_scan s node h first iter prev =
     (if prio s node < prio s iter then Some (iter, prev, NodeList iter)
      else Option.bind (Option.bind (lnext (links s (PrioList iter))) prio_entry)
        (\<lambda>next_iter. if next_iter \<noteq> first then plist_add_scan s node h first next_iter (Some iter)
                else Some (next_iter, Some iter, HeadList h)))"

definition plist_add :: "'n \<Rightarrow> 'h \<Rightarrow> ('h, 'n) pstore \<Rightarrow> ('h, 'n) pstore option" where
  "plist_add node h s =
     (if plist_head_empty h s then
        do {
          m \<leftarrow> list_add_tail (NodeList node) (HeadList h) (links s);
          Some (s\<lparr>links := m\<rparr>)
        }
      else
        do {
          first \<leftarrow> plist_first h s;
          (iter, prev, node_next) \<leftarrow> plist_add_scan s node h first first None;
          m1 \<leftarrow> (if prev = None \<or> prio s (the prev) \<noteq> prio s node
                then list_add_tail (PrioList node) (PrioList iter) (links s) else Some (links s));
          m2 \<leftarrow> list_add_tail (NodeList node) node_next m1;
          Some (s\<lparr>links := m2\<rparr>)
        })"

definition plist_del :: "'n \<Rightarrow> 'h \<Rightarrow> ('h, 'n) pstore \<Rightarrow> ('h, 'n) pstore option" where
  "plist_del node h s =
     do {
       m1 \<leftarrow>
         (if \<not> list_empty (PrioList node) (links s) then
            do {
              m \<leftarrow>
                (if lnext (links s (NodeList node)) \<noteq> Some (HeadList h) then
                   do {
                     nxt \<leftarrow> plist_next node s;
                     (if list_empty (PrioList nxt) (links s)
                      then list_add (PrioList nxt) (PrioList node) (links s) else Some (links s))
                   }
                 else Some (links s));
              list_del_init (PrioList node) m
            }
          else Some (links s));
       m2 \<leftarrow> list_del_init (NodeList node) m1;
       Some (s\<lparr>links := m2\<rparr>)
     }"

text \<open>The loop of \<open>plist_requeue\<close>: the first node behind \<open>iter\<close> with another priority, or the head.\<close>

partial_function (option) plist_requeue_scan ::
    "('h, 'n) pstore \<Rightarrow> 'n \<Rightarrow> 'h \<Rightarrow> 'n \<Rightarrow> ('h, 'n) paddr option" where
  "plist_requeue_scan s node h iter =
     (if lnext (links s (NodeList iter)) = Some (HeadList h) then Some (HeadList h)
      else Option.bind (plist_next iter s)
        (\<lambda>next_iter. if prio s node \<noteq> prio s next_iter then Some (NodeList next_iter)
                else plist_requeue_scan s node h next_iter))"

definition plist_requeue :: "'n \<Rightarrow> 'h \<Rightarrow> ('h, 'n) pstore \<Rightarrow> ('h, 'n) pstore option" where
  "plist_requeue node h s =
     (if plist_last h s = Some node then Some s
      else
        do {
          iter \<leftarrow> plist_next node s;
          (if prio s node \<noteq> prio s iter then Some s
           else
             do {
               s1 \<leftarrow> plist_del node h s;
               node_next \<leftarrow> plist_requeue_scan s1 node h iter;
               m \<leftarrow> list_add_tail (NodeList node) node_next (links s1);
               Some (s1\<lparr>links := m\<rparr>)
             })
        })"

text \<open>The loop \<open>plist_for_each_entry\<close>, with a body that works on the store; \<open>p\<close> is the cursor.\<close>

partial_function (option) plist_for_each ::
    "'h \<Rightarrow> ('n \<Rightarrow> ('h, 'n) pstore \<Rightarrow> ('h, 'n) pstore) \<Rightarrow> ('h, 'n) paddr option \<Rightarrow> ('h, 'n) pstore \<Rightarrow>
     ('h, 'n) pstore option" where
  "plist_for_each h body p s =
     (case p of
        None \<Rightarrow> None
      | Some a \<Rightarrow>
          if a = HeadList h then Some s
          else Option.bind (node_entry a)
            (\<lambda>n. plist_for_each h body (lnext (links (body n s) (NodeList n))) (body n s)))"

section \<open>The two rings of a priority list\<close>

text \<open>The nodes that begin a priority class, given the priority of the node before the list.\<close>

primrec leaders_after :: "('n \<Rightarrow> int) \<Rightarrow> int option \<Rightarrow> 'n list \<Rightarrow> 'n list" where
  "leaders_after p q [] = []"
| "leaders_after p q (x # xs) =
     (if q = Some (p x) then leaders_after p (Some (p x)) xs
      else x # leaders_after p (Some (p x)) xs)"

definition leaders :: "('n \<Rightarrow> int) \<Rightarrow> 'n list \<Rightarrow> 'n list" where
  "leaders p xs = leaders_after p None xs"

definition plist_rep :: "('h, 'n) pstore \<Rightarrow> 'h \<Rightarrow> 'n list \<Rightarrow> bool" where
  "plist_rep s h ns \<longleftrightarrow>
     cyc (links s) (HeadList h # map NodeList ns) \<and> sorted (map (prio s) ns) \<and>
     cyc (links s) (map PrioList (leaders (prio s) ns)) \<and>
     (\<forall>n \<in> set ns - set (leaders (prio s) ns). ring (links s) (PrioList n) [])"

text \<open>A node on no list, as \<open>plist_node_init\<close> and \<open>plist_del\<close> leave it.\<close>

definition detached :: "('h, 'n) pstore \<Rightarrow> 'n \<Rightarrow> bool" where
  "detached s n \<longleftrightarrow> ring (links s) (NodeList n) [] \<and> ring (links s) (PrioList n) []"

lemma leaders_after_append:
  "leaders_after p q (xs @ ys) =
     leaders_after p q xs @ leaders_after p (if xs = [] then q else Some (p (last xs))) ys"
  by (induction xs arbitrary: q) auto

lemma leaders_append:
  "leaders p (xs @ ys) =
     leaders p xs @ (if xs = [] then leaders p ys else leaders_after p (Some (p (last xs))) ys)"
  by (simp add: leaders_def leaders_after_append)

lemma leaders_after_eq:
  "ys = [] \<or> q \<noteq> Some (p (hd ys)) \<Longrightarrow> leaders_after p q ys = leaders p ys"
  by (cases ys) (auto simp: leaders_def)

lemma leaders_Cons: "leaders p (x # xs) = x # leaders_after p (Some (p x)) xs"
  by (simp add: leaders_def)

lemma leaders_after_subset: "set (leaders_after p q xs) \<subseteq> set xs"
  by (induction xs arbitrary: q) auto

lemma leaders_subset: "set (leaders p xs) \<subseteq> set xs"
  by (simp add: leaders_def leaders_after_subset)

lemma leaders_Nil [simp]: "leaders p [] = []"
  by (simp add: leaders_def)

lemma leaders_Nil_iff [simp]: "leaders p xs = [] \<longleftrightarrow> xs = []"
  by (cases xs) (auto simp: leaders_def)

lemma hd_leaders: "xs \<noteq> [] \<Longrightarrow> hd (leaders p xs) = hd xs"
  by (cases xs) (auto simp: leaders_def)

text \<open>The last leader has the priority of the last node.\<close>

lemma prio_last_leaders_after:
  "leaders_after p q xs \<noteq> [] \<Longrightarrow> p (last (leaders_after p q xs)) = p (last xs)"
proof (induction xs rule: rev_induct)
  case (snoc x xs)
  then show ?case
    by (cases "xs = []") (auto simp: leaders_after_append split: if_splits)
qed simp

lemma prio_last_leaders: "xs \<noteq> [] \<Longrightarrow> p (last (leaders p xs)) = p (last xs)"
  using prio_last_leaders_after [of p None xs] leaders_Nil_iff [of p xs] by (simp add: leaders_def)

lemma leaders_cong: "(\<And>x. x \<in> set xs \<Longrightarrow> p x = p' x) \<Longrightarrow> leaders p xs = leaders p' xs"
proof -
  assume "\<And>x. x \<in> set xs \<Longrightarrow> p x = p' x"
  then have "leaders_after p q xs = leaders_after p' q xs" for q
    by (induction xs arbitrary: q) auto
  then show ?thesis by (simp add: leaders_def)
qed

section \<open>Insertion\<close>

lemma plist_add_scan_eq:
  assumes "dseg (links s) (PrioList iter) (map PrioList vs) (PrioList first)" and "first \<notin> set vs"
  shows "plist_add_scan s n h first iter prev =
    (let ts = takeWhile (\<lambda>x. prio s x \<le> prio s n) (iter # vs);
         pv = (if ts = [] then prev else Some (last ts))
     in case dropWhile (\<lambda>x. prio s x \<le> prio s n) (iter # vs) of
          [] \<Rightarrow> Some (first, pv, HeadList h)
        | v # _ \<Rightarrow> Some (v, pv, NodeList v))"
  using assms
proof (induction vs arbitrary: iter prev)
  case Nil
  then show ?case
    by (subst plist_add_scan.simps) (auto simp: prio_entry_def)
next
  case (Cons v vs)
  then have "plist_add_scan s n h first v (Some iter) =
    (let ts = takeWhile (\<lambda>x. prio s x \<le> prio s n) (v # vs);
         pv = (if ts = [] then Some iter else Some (last ts))
     in case dropWhile (\<lambda>x. prio s x \<le> prio s n) (v # vs) of
          [] \<Rightarrow> Some (first, pv, HeadList h)
        | v # _ \<Rightarrow> Some (v, pv, NodeList v))"
    by auto
  with Cons.prems show ?case
    by (subst plist_add_scan.simps, cases "prio s v \<le> prio s n")
       (auto simp: prio_entry_def Let_def cong: list.case_cong)
qed

text \<open>Where a priority splits a sorted list, the leaders split too.\<close>

lemma leaders_split:
  assumes "\<forall>x \<in> set as. p x \<le> k" and "\<forall>x \<in> set bs. k < p x"
  shows "leaders p (as @ bs) = leaders p as @ leaders p bs"
proof (cases "as = []")
  case False
  then have "p (last as) \<le> k" using assms(1) by simp
  then have "bs = [] \<or> Some (p (last as)) \<noteq> Some (p (hd bs))"
    using assms(2) by (cases bs) auto
  with False show ?thesis
    by (simp add: leaders_append leaders_after_eq)
qed (simp add: leaders_def)

lemma leaders_insert:
  assumes "\<forall>x \<in> set as. p x \<le> p n" and "\<forall>x \<in> set bs. p n < p x"
  shows "leaders p (as @ n # bs) =
    leaders p as @ (if as \<noteq> [] \<and> p (last as) = p n then [] else [n]) @ leaders p bs"
proof -
  have "leaders_after p (Some (p n)) bs = leaders p bs"
    using assms(2) by (intro leaders_after_eq) (cases bs; auto)
  then show ?thesis
    by (cases "as = []") (simp_all add: leaders_append leaders_Cons)
qed

lemma prio_ring_insert:
  fixes m :: "('h, 'n) paddr lstore"
  assumes ring: "cyc m (map PrioList (leaders p (as @ bs)))"
    and selfs: "\<forall>x \<in> set (as @ bs) - set (leaders p (as @ bs)). ring m (PrioList x) []"
    and n: "ring m (PrioList n) []" "n \<notin> set (as @ bs)" "as @ bs \<noteq> []"
    and le: "\<forall>x \<in> set as. p x \<le> p n" and gt: "\<forall>x \<in> set bs. p n < p x"
  shows "\<exists>m1. (if as = [] \<or> p (last as) \<noteq> p n
               then list_add_tail (PrioList n) (PrioList (if bs = [] then hd as else hd bs)) m
               else Some m) = Some m1 \<and>
      cyc m1 (map PrioList (leaders p (as @ n # bs))) \<and>
      (\<forall>x \<in> set (as @ n # bs) - set (leaders p (as @ n # bs)). ring m1 (PrioList x) []) \<and>
      (\<forall>a. a \<notin> PrioList ` set (n # as @ bs) \<longrightarrow> m1 a = m a)"
proof (cases "as = [] \<or> p (last as) \<noteq> p n")
  case False
  then have "leaders p (as @ n # bs) = leaders p (as @ bs)"
    using le gt by (simp add: leaders_insert leaders_split [OF le gt])
  with False ring selfs n show ?thesis by auto
next
  case True
  let ?A = "map PrioList (leaders p as) :: ('h, 'n) paddr list"
  let ?B = "map PrioList (leaders p bs) :: ('h, 'n) paddr list"
  have old: "leaders p (as @ bs) = leaders p as @ leaders p bs"
    by (rule leaders_split [OF le gt])
  have new: "leaders p (as @ n # bs) = leaders p as @ n # leaders p bs"
    using True le gt by (auto simp: leaders_insert)
  have fresh: "PrioList n \<notin> set (?A @ ?B)"
    using n(2) leaders_subset [of p as] leaders_subset [of p bs] by auto
  have "\<exists>m1. list_add_tail (PrioList n) (PrioList (if bs = [] then hd as else hd bs)) m = Some m1 \<and>
      cyc m1 (?A @ PrioList n # ?B) \<and> (\<forall>x. x \<notin> set (PrioList n # ?A @ ?B) \<longrightarrow> m1 x = m x)"
  proof (cases bs)
    case (Cons b bs')
    then obtain B' where B': "?B = PrioList b # B'" by (simp add: leaders_Cons)
    have "cyc m (?A @ PrioList b # B')" using ring old B' by simp
    moreover have "PrioList n \<notin> set (?A @ PrioList b # B')" using fresh unfolding B' .
    ultimately show ?thesis
      using cyc_add_before [of m ?A "PrioList b" B' "PrioList n"] Cons unfolding B' by simp
  next
    case Nil
    then obtain a as' where as: "as = a # as'" using n(3) by (cases as) auto
    then obtain A' where A': "?A = PrioList a # A'" by (simp add: leaders_Cons)
    have "cyc m ([] @ PrioList a # A')" using ring old A' Nil by (simp add: leaders_def)
    moreover have "PrioList n \<notin> set ([] @ PrioList a # A')" using fresh unfolding A' by simp
    ultimately obtain m1 where m1: "list_add_tail (PrioList n) (PrioList a) m = Some m1"
      "cyc m1 ([PrioList n] @ ?A)" "\<forall>x. x \<notin> set (PrioList n # ?A) \<longrightarrow> m1 x = m x"
      using cyc_add_before [of m "[]" "PrioList a" A' "PrioList n"] unfolding A' by auto
    have "cyc m1 (?A @ [PrioList n])" using m1(2) by (simp only: cyc_rotate)
    with m1 Nil as show ?thesis by (auto simp: leaders_def)
  qed
  then obtain m1 where m1: "list_add_tail (PrioList n) (PrioList (if bs = [] then hd as else hd bs)) m = Some m1"
    "cyc m1 (?A @ PrioList n # ?B)" "\<forall>x. x \<notin> set (PrioList n # ?A @ ?B) \<longrightarrow> m1 x = m x"
    by blast
  have "\<forall>x \<in> set (as @ n # bs) - set (leaders p (as @ n # bs)). ring m1 (PrioList x) []"
  proof
    fix x assume x: "x \<in> set (as @ n # bs) - set (leaders p (as @ n # bs))"
    then have "ring m (PrioList x) []" using selfs old new by auto
    moreover have "m1 (PrioList x) = m (PrioList x)" using x m1(3) new by auto
    ultimately show "ring m1 (PrioList x) []" by (auto intro: ring_self_frame)
  qed
  moreover have "\<forall>a. a \<notin> PrioList ` set (n # as @ bs) \<longrightarrow> m1 a = m a"
    using m1(3) leaders_subset [of p as] leaders_subset [of p bs] by auto
  ultimately show ?thesis
    using True m1(1,2) new by auto
qed

text \<open>The addresses a priority list lives at.\<close>

definition plist_addrs :: "'h \<Rightarrow> 'n list \<Rightarrow> ('h, 'n) paddr set" where
  "plist_addrs h ns = insert (HeadList h) (NodeList ` set ns \<union> PrioList ` set ns)"

lemma plist_rep_distinct: "plist_rep s h ns \<Longrightarrow> distinct ns"
  unfolding plist_rep_def by (auto simp: ring_def distinct_map)

lemma plist_head_empty_rep: "plist_rep s h ns \<Longrightarrow> plist_head_empty h s \<longleftrightarrow> ns = []"
  by (auto simp: plist_rep_def plist_head_empty_def ring_empty_iff)

lemma plist_first_rep: "plist_rep s h (x # xs) \<Longrightarrow> plist_first h s = Some x"
  by (auto simp: plist_rep_def plist_first_def ring_def node_entry_def)

lemma plist_last_rep: "plist_rep s h ns \<Longrightarrow> ns \<noteq> [] \<Longrightarrow> plist_last h s = Some (last ns)"
  by (cases ns rule: rev_cases) (auto simp: plist_rep_def plist_last_def ring_def node_entry_def dseg_append)

text \<open>The node goes in front of \<open>node_next\<close>.\<close>

lemma node_ring_insert:
  fixes m :: "('h, 'n) paddr lstore"
  assumes "cyc m (HeadList h # map NodeList (as @ bs))" and "n \<notin> set (as @ bs)"
  shows "\<exists>m1. list_add_tail (NodeList n) (case bs of [] \<Rightarrow> HeadList h | b # _ \<Rightarrow> NodeList b) m = Some m1 \<and>
      cyc m1 (HeadList h # map NodeList (as @ n # bs)) \<and>
      (\<forall>a. a \<noteq> HeadList h \<and> a \<notin> NodeList ` set (n # as @ bs) \<longrightarrow> m1 a = m a)"
proof (cases bs)
  case Nil
  have "ring m (HeadList h) (map NodeList as)" and "NodeList n \<notin> set (HeadList h # map NodeList as)"
    using assms Nil by auto
  from list_add_tail_ring [OF this] show ?thesis using Nil by auto
next
  case (Cons b bs')
  have "cyc m ((HeadList h # map NodeList as) @ NodeList b # map NodeList bs')"
    and "NodeList n \<notin> set ((HeadList h # map NodeList as) @ NodeList b # map NodeList bs')"
    using assms Cons by auto
  from cyc_add_before [OF this] show ?thesis using Cons by auto
qed

lemma plist_add_scan_rep:
  assumes rep: "plist_rep s h (as @ bs)" and ne: "as @ bs \<noteq> []"
    and le: "\<forall>x \<in> set as. prio s x \<le> prio s n" and gt: "\<forall>x \<in> set bs. prio s n < prio s x"
  shows "plist_add_scan s n h (hd (as @ bs)) (hd (as @ bs)) None =
    Some (if bs = [] then hd as else hd bs,
          if as = [] then None else Some (last (leaders (prio s) as)),
          case bs of [] \<Rightarrow> HeadList h | b # _ \<Rightarrow> NodeList b)"
proof -
  let ?p = "prio s" and ?le = "\<lambda>x. prio s x \<le> prio s n"
  obtain f fs where f: "leaders ?p (as @ bs) = f # fs"
    using ne by (cases "leaders ?p (as @ bs)") auto
  then have hd: "f = hd (as @ bs)"
    using hd_leaders [OF ne, of ?p] by simp
  have "cyc (links s) (map PrioList (leaders ?p (as @ bs)))"
    using rep by (simp add: plist_rep_def)
  then have "dseg (links s) (PrioList f) (map PrioList fs) (PrioList f)" and "f \<notin> set fs"
    unfolding f by (auto simp: ring_def)
  then have scan: "plist_add_scan s n h f f None =
    (let ts = takeWhile ?le (f # fs); pv = (if ts = [] then None else Some (last ts))
     in case dropWhile ?le (f # fs) of [] \<Rightarrow> Some (f, pv, HeadList h) | v # _ \<Rightarrow> Some (v, pv, NodeList v))"
    by (rule plist_add_scan_eq)
  have "f # fs = leaders ?p as @ leaders ?p bs"
    using f leaders_split [OF le gt] by simp
  moreover have "\<forall>x \<in> set (leaders ?p as). ?le x" "\<forall>x \<in> set (leaders ?p bs). \<not> ?le x"
    using le gt leaders_subset [of ?p as] leaders_subset [of ?p bs] by (auto simp: not_le)
  moreover from this(2) have "bs = [] \<or> \<not> ?le (hd (leaders ?p bs))"
    by (cases bs) (auto simp: leaders_Cons)
  ultimately have "takeWhile ?le (f # fs) = leaders ?p as" "dropWhile ?le (f # fs) = leaders ?p bs"
    by (simp_all add: takeWhile_append dropWhile_append2 takeWhile_eq_all_conv dropWhile_eq_self_iff
        takeWhile_eq_Nil_iff)
  then show ?thesis
    using scan hd ne by (cases bs) (auto simp: leaders_Cons Let_def leaders_def [of _ "[]"])
qed

lemma plist_add_eq:
  assumes "\<not> plist_head_empty h s" and "plist_first h s = Some f"
    and "plist_add_scan s n h f f None = Some (iter, prev, nn)"
    and "(if prev = None \<or> prio s (the prev) \<noteq> prio s n
          then list_add_tail (PrioList n) (PrioList iter) (links s) else Some (links s)) = Some m1"
  shows "plist_add n h s = Option.bind (list_add_tail (NodeList n) nn m1) (\<lambda>m2. Some (s\<lparr>links := m2\<rparr>))"
  using assms by (simp add: plist_add_def)

text \<open>\<open>plist_add\<close> on a list that its node's priority splits.\<close>

lemma plist_add_split:
  assumes rep: "plist_rep s h (as @ bs)" and det: "detached s n" and n: "n \<notin> set (as @ bs)"
    and le: "\<forall>x \<in> set as. prio s x \<le> prio s n" and gt: "\<forall>x \<in> set bs. prio s n < prio s x"
  shows "\<exists>s'. plist_add n h s = Some s' \<and> plist_rep s' h (as @ n # bs) \<and> prio s' = prio s \<and>
           (\<forall>a. a \<notin> plist_addrs h (n # as @ bs) \<longrightarrow> links s' a = links s a)"
proof -
  let ?p = "prio s" and ?nn = "case bs of [] \<Rightarrow> HeadList h | b # _ \<Rightarrow> NodeList b"
  have srt: "sorted (map ?p (as @ n # bs))"
    using rep le gt by (auto simp: plist_rep_def sorted_append less_imp_le)
  have sel: "ring (links s) (PrioList n) []" using det by (simp add: detached_def)
  have "\<exists>m1. cyc m1 (map PrioList (leaders ?p (as @ n # bs))) \<and>
      (\<forall>x \<in> set (as @ n # bs) - set (leaders ?p (as @ n # bs)). ring m1 (PrioList x) []) \<and>
      (\<forall>a. a \<notin> PrioList ` set (n # as @ bs) \<longrightarrow> m1 a = links s a) \<and>
      (\<forall>m2. list_add_tail (NodeList n) ?nn m1 = Some m2 \<longrightarrow> plist_add n h s = Some (s\<lparr>links := m2\<rparr>))"
  proof (cases "as @ bs = []")
    case True
    then show ?thesis
      using sel plist_head_empty_rep [OF rep]
      by (intro exI [of _ "links s"]) (auto simp: plist_add_def leaders_Cons)
  next
    case False
    obtain m1 where m1: "(if as = [] \<or> ?p (last as) \<noteq> ?p n
               then list_add_tail (PrioList n) (PrioList (if bs = [] then hd as else hd bs)) (links s)
               else Some (links s)) = Some m1"
      "cyc m1 (map PrioList (leaders ?p (as @ n # bs)))"
      "\<forall>x \<in> set (as @ n # bs) - set (leaders ?p (as @ n # bs)). ring m1 (PrioList x) []"
      "\<forall>a. a \<notin> PrioList ` set (n # as @ bs) \<longrightarrow> m1 a = links s a"
      using prio_ring_insert [OF _ _ sel n False le gt] rep unfolding plist_rep_def by blast
    have ne: "\<not> plist_head_empty h s"
      using plist_head_empty_rep [OF rep] False by simp
    have first: "plist_first h s = Some (hd (as @ bs))"
      using rep False plist_first_rep [of s h "hd (as @ bs)" "tl (as @ bs)"] by simp
    have "plist_add n h s = Option.bind (list_add_tail (NodeList n) ?nn m1) (\<lambda>m2. Some (s\<lparr>links := m2\<rparr>))"
      by (rule plist_add_eq [OF ne first plist_add_scan_rep [OF rep False le gt]])
         (use m1(1) in \<open>cases "as = []"; simp add: prio_last_leaders\<close>)
    with m1(2-4) show ?thesis by auto
  qed
  then obtain m1 where m1: "cyc m1 (map PrioList (leaders ?p (as @ n # bs)))"
      "\<forall>x \<in> set (as @ n # bs) - set (leaders ?p (as @ n # bs)). ring m1 (PrioList x) []"
      "\<forall>a. a \<notin> PrioList ` set (n # as @ bs) \<longrightarrow> m1 a = links s a"
      "\<And>m2. list_add_tail (NodeList n) ?nn m1 = Some m2 \<Longrightarrow> plist_add n h s = Some (s\<lparr>links := m2\<rparr>)"
    by blast
  have nodes: "cyc m1 (HeadList h # map NodeList (as @ bs))"
    by (rule cyc_frame [of "links s"]) (use rep m1(3) in \<open>auto simp: plist_rep_def\<close>)
  obtain m2 where m2: "list_add_tail (NodeList n) ?nn m1 = Some m2"
      "cyc m2 (HeadList h # map NodeList (as @ n # bs))"
      "\<forall>a. a \<noteq> HeadList h \<and> a \<notin> NodeList ` set (n # as @ bs) \<longrightarrow> m2 a = m1 a"
    using node_ring_insert [OF nodes n] by (elim exE conjE)
  have pr: "m2 (PrioList x) = m1 (PrioList x)" for x
    using m2(3) by auto
  have "cyc m2 (map PrioList (leaders ?p (as @ n # bs)))"
    by (rule cyc_frame [OF m1(1)]) (auto simp: pr)
  moreover have "\<forall>x \<in> set (as @ n # bs) - set (leaders ?p (as @ n # bs)). ring m2 (PrioList x) []"
    using m1(2) by (auto simp: pr intro: ring_self_frame)
  ultimately have "plist_rep (s\<lparr>links := m2\<rparr>) h (as @ n # bs)"
    using m2(2) srt by (simp add: plist_rep_def)
  then show ?thesis
    using m1(3) m1(4) [OF m2(1)] m2(3) by (auto simp: plist_addrs_def)
qed

section \<open>Removal\<close>

text \<open>The priority part of \<open>plist_del\<close>: when a class loses its leader the next node of the class, if
  there is one, takes its place.\<close>

lemma prio_ring_delete:
  fixes m :: "('h, 'n) paddr lstore"
  assumes ring: "cyc m (map PrioList (leaders p (as @ n # bs)))"
    and selfs: "\<forall>x \<in> set (as @ n # bs) - set (leaders p (as @ n # bs)). ring m (PrioList x) []"
    and dist: "distinct (as @ n # bs)" and srt: "sorted (map p (as @ n # bs))"
  shows "\<exists>m1. (if \<not> list_empty (PrioList n) m
               then Option.bind (if bs \<noteq> [] \<and> list_empty (PrioList (hd bs)) m
                                 then list_add (PrioList (hd bs)) (PrioList n) m else Some m)
                      (list_del_init (PrioList n))
               else Some m) = Some m1 \<and>
      cyc m1 (map PrioList (leaders p (as @ bs))) \<and>
      (\<forall>x \<in> set (as @ bs) - set (leaders p (as @ bs)). ring m1 (PrioList x) []) \<and>
      ring m1 (PrioList n) [] \<and>
      (\<forall>a. a \<notin> PrioList ` set (n # as @ bs) \<longrightarrow> m1 a = m a)"
proof (cases "as \<noteq> [] \<and> p (last as) = p n")
  case True
  then have eq: "leaders p (as @ n # bs) = leaders p (as @ bs)"
    by (simp add: leaders_append)
  moreover have "n \<notin> set (leaders p (as @ bs))"
    using dist leaders_subset [of p "as @ bs"] by auto
  ultimately have n: "ring m (PrioList n) []" using selfs by simp
  then have "list_empty (PrioList n) m" by (simp add: ring_empty_iff)
  with ring selfs eq n show ?thesis by auto
next
  case lead: False
  let ?L = "map PrioList (leaders p as) :: ('h, 'n) paddr list"
  let ?R = "leaders_after p (Some (p n)) bs"
  have old: "leaders p (as @ n # bs) = leaders p as @ n # ?R"
    using lead by (cases "as = []") (auto simp: leaders_append leaders_Cons)
  have cyc: "cyc m (?L @ PrioList n # map PrioList ?R)"
    using ring old by simp
  have sub: "set (leaders p as) \<subseteq> set as" "set ?R \<subseteq> set bs"
    by (rule leaders_subset leaders_after_subset)+
  have emp: "list_empty (PrioList n) m \<longleftrightarrow> as = [] \<and> ?R = []"
    using cyc_list_empty [OF cyc] by simp
  consider (nil) "bs = []"
    | (same) b bs' where "bs = b # bs'" "p b = p n"
    | (other) b bs' where "bs = b # bs'" "p b \<noteq> p n"
    by (cases bs) auto
  then show ?thesis
  proof cases
    case nil
    show ?thesis
    proof (cases "as = []")
      case True
      with nil cyc emp show ?thesis by (auto simp: leaders_def)
    next
      case False
      have del: "cyc m (?L @ PrioList n # [])" using cyc nil by simp
      obtain m1 where m1: "list_del_init (PrioList n) m = Some m1" "cyc m1 (?L @ [])"
        "ring m1 (PrioList n) []" "\<forall>x. x \<notin> set (?L @ PrioList n # []) \<longrightarrow> m1 x = m x"
        using cyc_del_init [OF del] by (elim exE conjE)
      have "\<forall>x \<in> set as - set (leaders p as). ring m1 (PrioList x) []"
      proof
        fix x assume x: "x \<in> set as - set (leaders p as)"
        then have "ring m (PrioList x) []" and "x \<noteq> n" using selfs old nil dist by auto
        moreover from this(2) have "m1 (PrioList x) = m (PrioList x)" using x m1(4) by auto
        ultimately show "ring m1 (PrioList x) []" by (auto intro: ring_self_frame)
      qed
      moreover have "\<forall>a. a \<notin> PrioList ` set (n # as) \<longrightarrow> m1 a = m a"
        using m1(4) sub by auto
      ultimately show ?thesis using False nil emp m1(1-3) by simp
    qed
  next
    case same
    let ?R' = "leaders_after p (Some (p b)) bs'"
    have R: "?R = ?R'" using same by simp
    have new: "leaders p (as @ bs) = leaders p as @ b # ?R'"
      using lead same by (cases "as = []") (auto simp: leaders_append leaders_Cons)
    have b: "b \<notin> set (leaders p as @ n # ?R')"
      using dist sub same R leaders_after_subset [of p "Some (p b)" bs'] by auto
    then have self: "ring m (PrioList b) []" using selfs old same R by auto
    show ?thesis
    proof (cases "list_empty (PrioList n) m")
      case True
      then have "as = []" "?R' = []" using emp R by auto
      with True cyc R new self old selfs same dist show ?thesis by auto
    next
      case False
      have fresh: "PrioList b \<notin> set (?L @ PrioList n # map PrioList ?R)" using b R by auto
      obtain m0 where m0: "list_add (PrioList b) (PrioList n) m = Some m0"
        "cyc m0 (?L @ PrioList n # PrioList b # map PrioList ?R)"
        "\<forall>x. x \<notin> set (PrioList b # ?L @ PrioList n # map PrioList ?R) \<longrightarrow> m0 x = m x"
        using cyc_add_after [OF cyc fresh] by auto
      obtain m1 where m1: "list_del_init (PrioList n) m0 = Some m1"
        "cyc m1 (?L @ PrioList b # map PrioList ?R)" "ring m1 (PrioList n) []"
        "\<forall>x. x \<notin> set (?L @ PrioList n # PrioList b # map PrioList ?R) \<longrightarrow> m1 x = m0 x"
        using cyc_del_init [OF m0(2)] by (elim exE conjE)
      have frame: "m1 x = m x" if "x \<notin> PrioList ` set (leaders p as @ n # b # ?R')" for x
        using that m0(3) m1(4) R by auto
      have "\<forall>x \<in> set (as @ bs) - set (leaders p (as @ bs)). ring m1 (PrioList x) []"
      proof
        fix x assume x: "x \<in> set (as @ bs) - set (leaders p (as @ bs))"
        then have "ring m (PrioList x) []" and "x \<noteq> n" using selfs old new R dist by auto
        moreover from this(2) have "m1 (PrioList x) = m (PrioList x)" using x new by (intro frame) auto
        ultimately show "ring m1 (PrioList x) []" by (auto intro: ring_self_frame)
      qed
      moreover have "\<forall>a. a \<notin> PrioList ` set (n # as @ bs) \<longrightarrow> m1 a = m a"
      proof -
        have "set (leaders p as @ n # b # ?R') \<subseteq> set (n # as @ bs)" using sub R same by auto
        then show ?thesis using frame by blast
      qed
      ultimately show ?thesis
        using False same self m0(1) m1(1-3) new R by (simp add: ring_empty_iff)
    qed
  next
    case other
    let ?R' = "leaders_after p (Some (p b)) bs'"
    have R: "?R = b # ?R'" using other by simp
    have "as \<noteq> [] \<Longrightarrow> p (last as) \<le> p n \<and> p n \<le> p b"
      using srt other by (auto simp: sorted_append)
    then have new: "leaders p (as @ bs) = leaders p as @ ?R"
      using other by (cases "as = []") (auto simp: leaders_append leaders_Cons)
    have nb: "cyc m ((?L @ [PrioList n]) @ PrioList b # map PrioList ?R')"
      using cyc R by simp
    have "\<not> list_empty (PrioList b) m" "\<not> list_empty (PrioList n) m"
      using cyc_list_empty [OF nb] emp R by auto
    moreover obtain m1 where m1: "list_del_init (PrioList n) m = Some m1"
      "cyc m1 (?L @ map PrioList ?R)" "ring m1 (PrioList n) []"
      "\<forall>x. x \<notin> set (?L @ PrioList n # map PrioList ?R) \<longrightarrow> m1 x = m x"
      using cyc_del_init [OF cyc] by (elim exE conjE)
    moreover have "\<forall>x \<in> set (as @ bs) - set (leaders p (as @ bs)). ring m1 (PrioList x) []"
    proof
      fix x assume x: "x \<in> set (as @ bs) - set (leaders p (as @ bs))"
      then have "ring m (PrioList x) []" and "x \<noteq> n" using selfs old new dist by auto
      moreover from this(2) have "m1 (PrioList x) = m (PrioList x)" using x new m1(4) by auto
      ultimately show "ring m1 (PrioList x) []" by (auto intro: ring_self_frame)
    qed
    moreover have "\<forall>a. a \<notin> PrioList ` set (n # as @ bs) \<longrightarrow> m1 a = m a"
      using m1(4) sub by auto
    ultimately show ?thesis using other(1) new by simp
  qed
qed

lemma plist_del_split:
  assumes rep: "plist_rep s h (as @ n # bs)"
  shows "\<exists>s'. plist_del n h s = Some s' \<and> plist_rep s' h (as @ bs) \<and> detached s' n \<and>
           prio s' = prio s \<and> (\<forall>a. a \<notin> plist_addrs h (n # as @ bs) \<longrightarrow> links s' a = links s a)"
proof -
  let ?p = "prio s"
  have dist: "distinct (as @ n # bs)" by (rule plist_rep_distinct [OF rep])
  have parts: "cyc (links s) (map PrioList (leaders ?p (as @ n # bs)))"
    "\<forall>x \<in> set (as @ n # bs) - set (leaders ?p (as @ n # bs)). ring (links s) (PrioList x) []"
    "sorted (map ?p (as @ n # bs))" "cyc (links s) ((HeadList h # map NodeList as) @ NodeList n # map NodeList bs)"
    using rep unfolding plist_rep_def by simp_all
  have srt: "sorted (map ?p (as @ bs))" using parts(3) by (auto simp: sorted_append)
  obtain m1 where m1: "(if \<not> list_empty (PrioList n) (links s)
               then Option.bind (if bs \<noteq> [] \<and> list_empty (PrioList (hd bs)) (links s)
                                 then list_add (PrioList (hd bs)) (PrioList n) (links s) else Some (links s))
                      (list_del_init (PrioList n))
               else Some (links s)) = Some m1"
      "cyc m1 (map PrioList (leaders ?p (as @ bs)))"
      "\<forall>x \<in> set (as @ bs) - set (leaders ?p (as @ bs)). ring m1 (PrioList x) []"
      "ring m1 (PrioList n) []" "\<forall>a. a \<notin> PrioList ` set (n # as @ bs) \<longrightarrow> m1 a = links s a"
    using prio_ring_delete [OF parts(1,2) dist parts(3)] by (elim exE conjE)
  have "lnext (links s (NodeList n)) = Some (case bs of [] \<Rightarrow> HeadList h | b # _ \<Rightarrow> NodeList b)"
    using cyc_next [OF parts(4)] by (cases bs) simp_all
  then have nxt: "lnext (links s (NodeList n)) \<noteq> Some (HeadList h) \<longleftrightarrow> bs \<noteq> []"
    "bs \<noteq> [] \<Longrightarrow> plist_next n s = Some (hd bs)"
    by (cases bs; simp add: plist_next_def node_entry_def)+
  have nodes: "cyc m1 ((HeadList h # map NodeList as) @ NodeList n # map NodeList bs)"
    by (rule cyc_frame [OF parts(4)]) (use m1(5) in auto)
  obtain m2 where m2: "list_del_init (NodeList n) m1 = Some m2"
      "cyc m2 ((HeadList h # map NodeList as) @ map NodeList bs)" "ring m2 (NodeList n) []"
      "\<forall>x. x \<notin> set ((HeadList h # map NodeList as) @ NodeList n # map NodeList bs) \<longrightarrow> m2 x = m1 x"
    using cyc_del_init [OF nodes] by (elim exE conjE)
  have pr: "m2 (PrioList x) = m1 (PrioList x)" for x
    using m2(4) by auto
  have "plist_del n h s = Some (s\<lparr>links := m2\<rparr>)"
    using m1(1) m2(1) nxt unfolding plist_del_def
    by (cases "list_empty (PrioList n) (links s)"; cases "bs = []";
        cases "list_empty (PrioList (hd bs)) (links s)") (auto simp: bind_eq_Some_conv)
  moreover have "cyc m2 (map PrioList (leaders ?p (as @ bs)))"
    by (rule cyc_frame [OF m1(2)]) (auto simp: pr)
  moreover have "\<forall>x \<in> set (as @ bs) - set (leaders ?p (as @ bs)). ring m2 (PrioList x) []"
    using m1(3) by (auto simp: pr intro: ring_self_frame)
  moreover have "ring m2 (PrioList n) []"
    using m1(4) by (auto simp: pr intro: ring_self_frame)
  moreover have "\<forall>a. a \<notin> plist_addrs h (n # as @ bs) \<longrightarrow> m2 a = links s a"
    using m1(5) m2(4) by (auto simp: plist_addrs_def)
  ultimately show ?thesis
    using m2(2,3) srt by (simp add: plist_rep_def detached_def)
qed

text \<open>Deleting a node that is on no list changes nothing.\<close>

lemma plist_del_detached: "detached s n \<Longrightarrow> plist_del n h s = Some s"
proof -
  assume d: "detached s n"
  then have "list_empty (PrioList n) (links s)"
    using ring_empty_iff [of "links s" "PrioList n" "[]"] by (simp add: detached_def)
  with d show ?thesis by (simp add: plist_del_def detached_def list_del_init_self)
qed

lemma plist_rep_init: "plist_rep (plist_head_init h s) h []"
  by (simp add: plist_rep_def plist_head_init_def ring_init leaders_def)

lemma detached_init: "detached (plist_node_init n p s) n"
proof -
  have "ring (links (plist_node_init n p s)) (PrioList n) []"
    by (rule ring_frame [OF ring_init [of "PrioList n" "links s"]])
       (simp add: plist_node_init_def INIT_LIST_HEAD_def)
  then show ?thesis by (simp add: detached_def plist_node_init_def ring_init)
qed

text \<open>A list and a detached node depend on their own addresses only.\<close>

lemma plist_rep_frame:
  assumes rep: "plist_rep s h ns" and eq: "\<And>a. a \<in> plist_addrs h ns \<Longrightarrow> links s' a = links s a"
    and pr: "\<And>x. x \<in> set ns \<Longrightarrow> prio s' x = prio s x"
  shows "plist_rep s' h ns"
proof -
  have l: "leaders (prio s') ns = leaders (prio s) ns" by (rule leaders_cong) (rule pr)
  have srt: "map (prio s') ns = map (prio s) ns" using pr by simp
  have "cyc (links s') (HeadList h # map NodeList ns)"
    by (rule cyc_frame [of "links s"]) (use rep eq in \<open>auto simp: plist_rep_def plist_addrs_def\<close>)
  moreover have "cyc (links s') (map PrioList (leaders (prio s) ns))"
    by (rule cyc_frame [of "links s"])
       (use rep eq leaders_subset [of "prio s" ns] in \<open>auto simp: plist_rep_def plist_addrs_def\<close>)
  moreover have "\<forall>x \<in> set ns - set (leaders (prio s) ns). ring (links s') (PrioList x) []"
    using rep eq by (auto simp: plist_rep_def plist_addrs_def intro: ring_self_frame)
  ultimately show ?thesis using rep by (simp add: plist_rep_def l srt)
qed

lemma detached_frame:
  assumes "detached s n" and "links s' (NodeList n) = links s (NodeList n)"
    and "links s' (PrioList n) = links s (PrioList n)"
  shows "detached s' n"
  using assms by (auto simp: detached_def intro: ring_self_frame)

section \<open>Moving a node behind its class\<close>

lemma plist_requeue_scan_eq:
  assumes "cyc (links s) (HeadList h # map NodeList (as @ b # bs))"
  shows "plist_requeue_scan s n h b =
    Some (case dropWhile (\<lambda>x. prio s x = prio s n) bs of [] \<Rightarrow> HeadList h | v # _ \<Rightarrow> NodeList v)"
  using assms
proof (induction bs arbitrary: as b)
  case Nil
  have "cyc (links s) ((HeadList h # map NodeList as) @ NodeList b # [])" using Nil by simp
  then have "lnext (links s (NodeList b)) = Some (HeadList h)"
    using cyc_next [of "links s" "HeadList h # map NodeList as" "NodeList b" "[]"] by simp
  then show ?case by (subst plist_requeue_scan.simps) simp
next
  case (Cons c bs)
  have "cyc (links s) ((HeadList h # map NodeList as) @ NodeList b # map NodeList (c # bs))"
    using Cons.prems by simp
  then have nx: "lnext (links s (NodeList b)) = Some (NodeList c)"
    using cyc_next [of "links s" "HeadList h # map NodeList as" "NodeList b" "map NodeList (c # bs)"] by simp
  have "plist_requeue_scan s n h c =
    Some (case dropWhile (\<lambda>x. prio s x = prio s n) bs of [] \<Rightarrow> HeadList h | v # _ \<Rightarrow> NodeList v)"
    by (rule Cons.IH [of "as @ [b]"]) (use Cons.prems in simp)
  with nx show ?case
    by (subst plist_requeue_scan.simps) (auto simp: plist_next_def node_entry_def)
qed

lemma leaders_same: "as \<noteq> [] \<Longrightarrow> p (last as) = p n \<Longrightarrow> leaders p (as @ n # bs) = leaders p (as @ bs)"
  by (simp add: leaders_append)

text \<open>\<open>cs\<close> are the nodes of the class of \<open>n\<close> that follow it.\<close>

lemma plist_requeue_split:
  assumes rep: "plist_rep s h (as @ n # cs @ ds)" and cs: "\<forall>x \<in> set cs. prio s x = prio s n"
    and ds: "ds = [] \<or> prio s (hd ds) \<noteq> prio s n"
  shows "\<exists>s'. plist_requeue n h s = Some s' \<and> plist_rep s' h (as @ cs @ n # ds) \<and> prio s' = prio s"
proof -
  have dist: "distinct (as @ n # cs @ ds)" by (rule plist_rep_distinct [OF rep])
  have nodes: "cyc (links s) ((HeadList h # map NodeList as) @ NodeList n # map NodeList (cs @ ds))"
    using rep by (simp add: plist_rep_def)
  have lst: "plist_last h s = Some (last (as @ n # cs @ ds))"
    using plist_last_rep [OF rep] by simp
  have nx: "plist_next n s = Some (hd (cs @ ds))" if "cs @ ds \<noteq> []"
    using cyc_next [OF nodes] that
    by (cases "cs @ ds") (auto simp: plist_next_def node_entry_def)
  show ?thesis
  proof (cases cs)
    case Nil
    have "plist_requeue n h s = Some s"
    proof (cases ds)
      case (Cons d ds')
      then show ?thesis using lst nx ds Nil dist by (auto simp: plist_requeue_def)
    qed (use lst Nil in \<open>simp add: plist_requeue_def\<close>)
    then show ?thesis using rep Nil by simp
  next
    case (Cons c cs')
    have ne: "plist_last h s \<noteq> Some n"
      using lst dist Cons last_in_set [of "cs @ ds"] by auto
    obtain s1 where s1: "plist_del n h s = Some s1" "plist_rep s1 h (as @ cs @ ds)" "detached s1 n"
      "prio s1 = prio s"
      using plist_del_split [OF rep] by (elim exE conjE)
    have nodes1: "cyc (links s1) (HeadList h # map NodeList ((as @ cs) @ ds))"
      using s1(2) by (simp add: plist_rep_def)
    have drop: "dropWhile (\<lambda>x. prio s1 x = prio s1 n) (cs' @ ds) = ds"
      using cs ds Cons s1(4) by (auto simp: dropWhile_append2 dropWhile_eq_self_iff)
    have scan: "plist_requeue_scan s1 n h c = Some (case ds of [] \<Rightarrow> HeadList h | v # _ \<Rightarrow> NodeList v)"
      using plist_requeue_scan_eq [of s1 h as c "cs' @ ds" n] nodes1 Cons drop by simp
    have fresh: "n \<notin> set ((as @ cs) @ ds)" using dist by auto
    obtain m where m: "list_add_tail (NodeList n) (case ds of [] \<Rightarrow> HeadList h | v # _ \<Rightarrow> NodeList v) (links s1) = Some m"
      "cyc m (HeadList h # map NodeList ((as @ cs) @ n # ds))"
      "\<forall>a. a \<noteq> HeadList h \<and> a \<notin> NodeList ` set (n # (as @ cs) @ ds) \<longrightarrow> m a = links s1 a"
      using node_ring_insert [OF nodes1 fresh] by (elim exE conjE)
    have pr: "m (PrioList x) = links s1 (PrioList x)" for x using m(3) by auto
    have lead: "leaders (prio s) ((as @ cs) @ n # ds) = leaders (prio s) ((as @ cs) @ ds)"
      by (rule leaders_same) (use Cons cs in auto)
    have "cyc m (map PrioList (leaders (prio s) (as @ cs @ ds)))"
      by (rule cyc_frame [of "links s1"]) (use s1(2,4) pr in \<open>auto simp: plist_rep_def\<close>)
    moreover have "\<forall>x \<in> set (n # as @ cs @ ds) - set (leaders (prio s) (as @ cs @ ds)). ring m (PrioList x) []"
    proof
      fix x assume "x \<in> set (n # as @ cs @ ds) - set (leaders (prio s) (as @ cs @ ds))"
      then have "ring (links s1) (PrioList x) []"
        using s1(2-4) by (auto simp: plist_rep_def detached_def)
      then show "ring m (PrioList x) []" by (rule ring_self_frame) (rule pr)
    qed
    moreover have "sorted (map (prio s) (as @ cs @ n # ds))"
      using rep cs by (auto simp: plist_rep_def sorted_append)
    ultimately have "plist_rep (s1\<lparr>links := m\<rparr>) h (as @ cs @ n # ds)"
      using m(2) lead s1(4) by (auto simp: plist_rep_def)
    moreover have "plist_requeue n h s = Some (s1\<lparr>links := m\<rparr>)"
      using ne nx cs Cons s1(1) scan m(1) by (simp add: plist_requeue_def)
    ultimately show ?thesis using s1(4) by auto
  qed
qed

section \<open>Walking a list\<close>

lemma plist_for_each_dseg:
  assumes "dseg (links s) p (map NodeList ns) (HeadList h)"
    and keep: "\<And>n s. links (body n s) = links s"
  shows "plist_for_each h body (lnext (links s p)) s = Some (fold body ns s)"
  using assms(1)
proof (induction ns arbitrary: p s)
  case Nil
  then show ?case by (subst plist_for_each.simps) simp
next
  case (Cons n ns)
  then have "dseg (links (body n s)) (NodeList n) (map NodeList ns) (HeadList h)" by (simp add: keep)
  from Cons.IH [OF this] Cons.prems show ?case
    by (subst plist_for_each.simps) (simp add: node_entry_def)
qed

lemma plist_for_each_rep:
  assumes "plist_rep s h ns" and "\<And>n s. links (body n s) = links s"
  shows "plist_for_each h body (lnext (links s (HeadList h))) s = Some (fold body ns s)"
  using assms by (auto simp: plist_rep_def ring_def intro: plist_for_each_dseg)

text \<open>Adding one number to the priorities of a list keeps it a priority list.\<close>

lemma leaders_shift:
  assumes "\<And>x. x \<in> set ns \<Longrightarrow> p' x = p x + (c :: int)"
  shows "leaders p' ns = leaders p ns"
proof -
  have "leaders_after p' (map_option (\<lambda>k. k + c) q) ns = leaders_after p q ns" for q
    using assms
  proof (induction ns arbitrary: q)
    case (Cons x xs)
    then show ?case using Cons.IH [of "Some (p x)"] by (cases q) auto
  qed simp
  from this [of None] show ?thesis by (simp add: leaders_def)
qed

lemma plist_rep_shift:
  assumes rep: "plist_rep s h ns" and "links s' = links s"
    and sh: "\<And>x. x \<in> set ns \<Longrightarrow> prio s' x = prio s x + c"
  shows "plist_rep s' h ns"
proof -
  have "map (prio s') ns = map (\<lambda>k. k + c) (map (prio s) ns)" using sh by simp
  moreover have "sorted (map (\<lambda>k. k + c) ks) = sorted ks" for ks :: "int list"
    by (induction ks) auto
  ultimately have "sorted (map (prio s') ns)" using rep by (simp add: plist_rep_def del: map_map)
  then show ?thesis
    using assms leaders_shift [of ns "prio s'" "prio s" c] by (simp add: plist_rep_def)
qed

section \<open>A family of priority lists over one set of nodes\<close>

definition prio_insert :: "('n \<Rightarrow> int) \<Rightarrow> 'n \<Rightarrow> 'n list \<Rightarrow> 'n list" where
  "prio_insert p n ns = takeWhile (\<lambda>x. p x \<le> p n) ns @ n # dropWhile (\<lambda>x. p x \<le> p n) ns"

text \<open>\<open>Q h\<close> is the list at the head \<open>h\<close>; a node is on one of the lists at most, and a node on none is
  detached.\<close>

definition queues :: "('h, 'n) pstore \<Rightarrow> ('h \<Rightarrow> 'n list) \<Rightarrow> bool" where
  "queues s Q \<longleftrightarrow>
     (\<forall>h. plist_rep s h (Q h)) \<and> (\<forall>h h' n. n \<in> set (Q h) \<longrightarrow> n \<in> set (Q h') \<longrightarrow> h = h') \<and>
     (\<forall>n. (\<forall>h. n \<notin> set (Q h)) \<longrightarrow> detached s n)"

lemma set_prio_insert [simp]: "set (prio_insert p n ns) = insert n (set ns)"
  using set_append [of "takeWhile (\<lambda>x. p x \<le> p n) ns" "dropWhile (\<lambda>x. p x \<le> p n) ns"]
  by (simp add: prio_insert_def)

lemma plist_add_rep:
  assumes rep: "plist_rep s h ns" and "detached s n" and "n \<notin> set ns"
  shows "\<exists>s'. plist_add n h s = Some s' \<and> plist_rep s' h (prio_insert (prio s) n ns) \<and> prio s' = prio s \<and>
           (\<forall>a. a \<notin> plist_addrs h (n # ns) \<longrightarrow> links s' a = links s a)"
proof -
  let ?le = "\<lambda>x. prio s x \<le> prio s n"
  have srt: "sorted (map (prio s) ns)" using rep by (simp add: plist_rep_def)
  have gt: "\<forall>x \<in> set (dropWhile ?le ns). prio s n < prio s x"
  proof (cases "dropWhile ?le ns")
    case (Cons d ds)
    then have "prio s n < prio s d" using hd_dropWhile [of ?le ns] by simp
    moreover have "sorted (map (prio s) (d # ds))"
      using srt sorted_append [of "map (prio s) (takeWhile ?le ns)" "map (prio s) (d # ds)"] Cons
      by (metis map_append takeWhile_dropWhile_id)
    ultimately show ?thesis using Cons by auto
  next
    case Nil
    then show ?thesis by (simp only: list.set ball_empty)
  qed
  show ?thesis
    using plist_add_split [of s h "takeWhile ?le ns" "dropWhile ?le ns" n] assms gt
    by (auto simp: prio_insert_def dest: set_takeWhileD)
qed

text \<open>The three laws a user of the lists relies on.\<close>

lemma queues_init:
  assumes "\<And>h. plist_rep s h []" and "\<And>n. detached s n"
  shows "queues s (\<lambda>_. [])"
  using assms by (simp add: queues_def)

lemma queuesI:
  assumes "\<And>h. plist_rep s h (Q h)" and "\<And>h h' n. n \<in> set (Q h) \<Longrightarrow> n \<in> set (Q h') \<Longrightarrow> h = h'"
    and "\<And>n. (\<And>h. n \<notin> set (Q h)) \<Longrightarrow> detached s n"
  shows "queues s Q"
  using assms unfolding queues_def by blast

lemma queues_rep: "queues s Q \<Longrightarrow> plist_rep s h (Q h)"
  by (simp add: queues_def)

lemma queues_member: "queues s Q \<Longrightarrow> n \<in> set (Q h) \<Longrightarrow> n \<in> set (Q h') \<Longrightarrow> h = h'"
  unfolding queues_def by blast

lemma queues_detached: "queues s Q \<Longrightarrow> (\<And>h. n \<notin> set (Q h)) \<Longrightarrow> detached s n"
  by (simp add: queues_def)

lemma queues_add:
  assumes q: "queues s Q" and n: "\<And>h. n \<notin> set (Q h)"
  shows "\<exists>s'. plist_add n h s = Some s' \<and> queues s' (Q(h := prio_insert (prio s) n (Q h))) \<and> prio s' = prio s"
proof -
  obtain s' where s': "plist_add n h s = Some s'" "plist_rep s' h (prio_insert (prio s) n (Q h))"
      "prio s' = prio s" "\<forall>a. a \<notin> plist_addrs h (n # Q h) \<longrightarrow> links s' a = links s a"
    using plist_add_rep [OF queues_rep [OF q, of h] queues_detached [OF q n] n] by (elim exE conjE)
  have other: "links s' a = links s a" if "a \<in> {NodeList x, PrioList x}" "x \<notin> set (n # Q h)" for a x
    using that s'(4) by (auto simp: plist_addrs_def)
  have "queues s' (Q(h := prio_insert (prio s) n (Q h)))"
  proof (rule queuesI)
    fix k
    have "plist_rep s' k (Q k)" if "k \<noteq> h"
    proof (rule plist_rep_frame [OF queues_rep [OF q]])
      have out: "x \<notin> set (n # Q h)" if "x \<in> set (Q k)" for x
        using queues_member [OF q that, of h] that n \<open>k \<noteq> h\<close> by auto
      show "links s' a = links s a" if "a \<in> plist_addrs k (Q k)" for a
        using that out other \<open>k \<noteq> h\<close> s'(4) by (auto simp: plist_addrs_def)
    qed (simp add: s'(3))
    then show "plist_rep s' k ((Q(h := prio_insert (prio s) n (Q h))) k)" using s'(2) by simp
  next
    fix x assume none: "\<And>k. x \<notin> set ((Q(h := prio_insert (prio s) n (Q h))) k)"
    have x: "x \<notin> set (Q k)" "x \<notin> set (n # Q h)" for k
      using none [of k] none [of h] by (cases "k = h"; simp)+
    show "detached s' x"
      using detached_frame [OF queues_detached [OF q x(1)]] other x(2) by simp
  qed (use n queues_member [OF q] in \<open>auto split: if_splits\<close>)
  with s'(1,3) show ?thesis by blast
qed

lemma queues_del:
  assumes q: "queues s Q" and n: "n \<in> set (Q h)"
  shows "\<exists>s'. plist_del n h s = Some s' \<and> queues s' (Q(h := remove1 n (Q h))) \<and> prio s' = prio s"
proof -
  obtain as bs where split: "Q h = as @ n # bs" using n by (auto dest: split_list)
  have rep: "plist_rep s h (as @ n # bs)" using queues_rep [OF q, of h] split by simp
  have dist: "distinct (as @ n # bs)" by (rule plist_rep_distinct [OF rep])
  then have rm: "remove1 n (Q h) = as @ bs" using split by (simp add: remove1_append)
  obtain s' where s': "plist_del n h s = Some s'" "plist_rep s' h (as @ bs)" "detached s' n"
      "prio s' = prio s" "\<forall>a. a \<notin> plist_addrs h (n # as @ bs) \<longrightarrow> links s' a = links s a"
    using plist_del_split [OF rep] by (elim exE conjE)
  have other: "links s' a = links s a" if "a \<in> {NodeList x, PrioList x}" "x \<notin> set (Q h)" for a x
    using that s'(5) split by (auto simp: plist_addrs_def)
  have "queues s' (Q(h := as @ bs))"
  proof (rule queuesI)
    fix k
    have "plist_rep s' k (Q k)" if "k \<noteq> h"
    proof (rule plist_rep_frame [OF queues_rep [OF q]])
      have out: "x \<notin> set (Q h)" if "x \<in> set (Q k)" for x
        using queues_member [OF q that, of h] \<open>k \<noteq> h\<close> by auto
      show "links s' a = links s a" if "a \<in> plist_addrs k (Q k)" for a
        using that out other \<open>k \<noteq> h\<close> s'(5) by (auto simp: plist_addrs_def)
    qed (simp add: s'(4))
    then show "plist_rep s' k ((Q(h := as @ bs)) k)" using s'(2) by simp
  next
    fix x assume none: "\<And>k. x \<notin> set ((Q(h := as @ bs)) k)"
    show "detached s' x"
    proof (cases "x = n")
      case False
      then have x: "x \<notin> set (Q k)" for k
        using none [of k] split by (cases "k = h") auto
      show ?thesis using detached_frame [OF queues_detached [OF q x]] other x by simp
    qed (simp add: s'(3))
  next
    fix k k' x assume "x \<in> set ((Q(h := as @ bs)) k)" "x \<in> set ((Q(h := as @ bs)) k')"
    then have "x \<in> set (Q k)" "x \<in> set (Q k')" using split by (auto split: if_splits)
    then show "k = k'" by (rule queues_member [OF q])
  qed
  with s'(1,4) rm show ?thesis by auto
qed

lemma queues_del_absent: "queues s Q \<Longrightarrow> (\<And>h. n \<notin> set (Q h)) \<Longrightarrow> plist_del n h s = Some s"
  by (rule plist_del_detached) (rule queues_detached)

lemma queues_first: "queues s Q \<Longrightarrow> Q h = x # xs \<Longrightarrow> plist_first h s = Some x"
  using plist_first_rep [of s h x xs] queues_rep [of s Q h] by simp

lemma queues_empty: "queues s Q \<Longrightarrow> plist_head_empty h s \<longleftrightarrow> Q h = []"
  by (rule plist_head_empty_rep) (rule queues_rep)

section \<open>The interface to the users of priority lists\<close>

text \<open>
  What the scheduler relies on: \<open>view s Q\<close> says which nodes are on which list; adding a free node
  inserts it behind the nodes with no larger key; removing works for a node on the list and for a
  node on no list at all, where it does nothing.
\<close>

locale prio_lists =
  fixes view :: "'s \<Rightarrow> ('h \<Rightarrow> 'n list) \<Rightarrow> bool"
    and key :: "'s \<Rightarrow> 'n \<Rightarrow> int"
    and add :: "'n \<Rightarrow> 'h \<Rightarrow> 's \<Rightarrow> 's option"
    and del :: "'n \<Rightarrow> 'h \<Rightarrow> 's \<Rightarrow> 's option"
    and first :: "'h \<Rightarrow> 's \<Rightarrow> 'n option"
    and is_empty :: "'h \<Rightarrow> 's \<Rightarrow> bool"
  assumes add_law: "view s Q \<Longrightarrow> (\<And>h. n \<notin> set (Q h)) \<Longrightarrow>
      \<exists>s'. add n h s = Some s' \<and> view s' (Q(h := prio_insert (key s) n (Q h))) \<and> key s' = key s"
    and del_law: "view s Q \<Longrightarrow> n \<in> set (Q h) \<Longrightarrow>
      \<exists>s'. del n h s = Some s' \<and> view s' (Q(h := remove1 n (Q h))) \<and> key s' = key s"
    and del_absent: "view s Q \<Longrightarrow> (\<And>h. n \<notin> set (Q h)) \<Longrightarrow> del n h s = Some s"
    and first_law: "view s Q \<Longrightarrow> Q h = x # xs \<Longrightarrow> first h s = Some x"
    and empty_law: "view s Q \<Longrightarrow> is_empty h s \<longleftrightarrow> Q h = []"
    and once: "view s Q \<Longrightarrow> n \<in> set (Q h) \<Longrightarrow> n \<in> set (Q h') \<Longrightarrow> h = h'"
    and sorted_law: "view s Q \<Longrightarrow> sorted (map (key s) (Q h))"
    and distinct_law: "view s Q \<Longrightarrow> distinct (Q h)"
begin

text \<open>The first node of a list has the smallest key of the list.\<close>

lemma first_minimal:
  assumes "view s Q" and "x \<in> set (Q h)"
  shows "\<exists>f. first h s = Some f \<and> f \<in> set (Q h) \<and> key s f \<le> key s x"
proof -
  obtain f fs where f: "Q h = f # fs" using assms(2) by (cases "Q h") auto
  moreover have "key s f \<le> key s x"
    using sorted_law [OF assms(1), of h] assms(2) f by auto
  ultimately show ?thesis using first_law [OF assms(1) f] by auto
qed

text \<open>Taking the first node off a list leaves the rest of the list, and the node is free.\<close>

lemma pop:
  assumes v: "view s Q" and q: "Q h = x # xs"
  shows "\<exists>s'. first h s = Some x \<and> del x h s = Some s' \<and> view s' (Q(h := xs)) \<and> key s' = key s \<and>
           (\<forall>k. x \<notin> set ((Q(h := xs)) k))"
proof -
  have "x \<notin> set ((Q(h := xs)) k)" for k
    using once [OF v, of x h k] distinct_law [OF v, of h] q by (cases "k = h") auto
  then show ?thesis using del_law [OF v, of x h] first_law [OF v q] q by auto
qed

text \<open>A node that is on the list \<open>h\<close> or on no list moves to the list \<open>h'\<close>.\<close>

lemma move:
  assumes v: "view s Q" and n: "\<And>k. k \<noteq> h \<Longrightarrow> n \<notin> set (Q k)"
  shows "\<exists>s1 s2. del n h s = Some s1 \<and> view s1 (Q(h := remove1 n (Q h))) \<and>
           add n h' s1 = Some s2 \<and> key s2 = key s \<and>
           view s2 (let Q1 = Q(h := remove1 n (Q h)) in Q1(h' := prio_insert (key s) n (Q1 h')))"
proof -
  let ?Q1 = "Q(h := remove1 n (Q h))"
  have "\<exists>s1. del n h s = Some s1 \<and> view s1 ?Q1 \<and> key s1 = key s"
  proof (cases "n \<in> set (Q h)")
    case False
    then have "n \<notin> set (Q k)" for k using n by (cases "k = h") auto
    moreover have "?Q1 = Q" using False by (simp add: remove1_idem)
    ultimately show ?thesis using del_absent [OF v] v by simp
  qed (rule del_law [OF v])
  then obtain s1 where s1: "del n h s = Some s1" "view s1 ?Q1" "key s1 = key s" by blast
  have free: "n \<notin> set (?Q1 k)" for k
    using n distinct_law [OF v, of h] by (cases "k = h") auto
  show ?thesis
    using add_law [OF s1(2) free, of h'] unfolding Let_def s1(3) by (metis s1(1,2))
qed

end

interpretation pq: prio_lists queues prio plist_add plist_del plist_first plist_head_empty
proof
  show "distinct (Q h)" if "queues s Q" for s Q h
    using that by (rule plist_rep_distinct [OF queues_rep])
  show "sorted (map (prio s) (Q h))" if "queues s Q" for s Q h
    using queues_rep [OF that, of h] by (simp add: plist_rep_def)
qed (rule queues_add queues_del queues_del_absent queues_first queues_empty queues_member; assumption)+

section \<open>The properties\<close>

text \<open>A store in which every head is an empty list and every node is on no list.\<close>

definition plist_boot :: "('n \<Rightarrow> int) \<Rightarrow> ('h, 'n) pstore" where
  "plist_boot p = \<lparr>links = (\<lambda>a. \<lparr>lnext = Some a, lprev = Some a\<rparr>), prio = p\<rparr>"

lemma queues_boot: "queues (plist_boot p) (\<lambda>_. [])"
  by (simp add: queues_def plist_rep_def detached_def ring_def plist_boot_def)

lemma plist_example:
  "\<exists>s :: (nat, nat) pstore. plist_rep s 0 [1, 2, 3] \<and> prio s 1 = 5 \<and> prio s 2 = 5 \<and> prio s 3 = 9"
proof -
  let ?p = "\<lambda>n :: nat. if n = 3 then 9 else 5 :: int"
  obtain s1 :: "(nat, nat) pstore" where s1: "queues s1 ((\<lambda>_. [])(0 := [1]))" "prio s1 = ?p"
    using queues_add [OF queues_boot [of ?p], of 1 0] by (auto simp: prio_insert_def plist_boot_def)
  obtain s2 :: "(nat, nat) pstore" where s2: "queues s2 ((\<lambda>_. [])(0 := [1, 2]))" "prio s2 = ?p"
    using queues_add [OF s1(1), of 2 0] s1(2) by (auto simp: prio_insert_def)
  obtain s3 :: "(nat, nat) pstore" where s3: "queues s3 ((\<lambda>_. [])(0 := [1, 2, 3]))" "prio s3 = ?p"
    using queues_add [OF s2(1), of 3 0] s2(2) by (auto simp: prio_insert_def)
  from queues_rep [OF s3(1), of 0] s3(2) show ?thesis by auto
qed

text \<open>C22: \<open>plist_add\<close> of a node that is on no list succeeds and leaves a well-formed priority list, both
  rings included, in which the node stands behind every node whose priority value is not larger than
  its own and in front of every other one; the order of the other nodes and all priorities stay, and
  no \<open>list_head\<close> outside the list and the node is written.\<close>

theorem plist_add_correct:
  assumes "plist_rep s h ns" and "detached s n" and "n \<notin> set ns"
  shows "\<exists>s'. plist_add n h s = Some s' \<and>
           plist_rep s' h (takeWhile (\<lambda>x. prio s x \<le> prio s n) ns @ n # dropWhile (\<lambda>x. prio s x \<le> prio s n) ns) \<and>
           prio s' = prio s \<and>
           (\<forall>a. a \<notin> insert (HeadList h) (NodeList ` set (n # ns) \<union> PrioList ` set (n # ns)) \<longrightarrow> links s' a = links s a)"
  using plist_add_rep [OF assms] by (simp add: prio_insert_def plist_addrs_def)

theorem plist_add_correct_witness:
  "\<exists>s'. plist_add 1 0 (plist_node_init 1 5 (plist_boot (\<lambda>_. 0) :: (nat, nat) pstore)) = Some s' \<and>
     plist_rep s' 0 [1] \<and> prio s' 1 = 5"
proof -
  let ?s = "plist_node_init 1 5 (plist_boot (\<lambda>_. 0)) :: (nat, nat) pstore"
  have "plist_rep ?s 0 []"
    by (simp add: plist_rep_def ring_def plist_node_init_def plist_boot_def INIT_LIST_HEAD_def)
  from plist_add_correct [OF this detached_init] show ?thesis
    by (auto simp: plist_node_init_def)
qed

text \<open>C32: \<open>plist_del\<close> of a node on the list succeeds, leaves the other nodes as a well-formed priority
  list in their order (when the node led its priority class the next node of the class becomes the
  leader), and leaves the node detached, so that a second \<open>plist_del\<close> of it, with whatever head,
  changes nothing.\<close>

theorem plist_del_correct:
  assumes "plist_rep s h (as @ n # bs)"
  shows "\<exists>s'. plist_del n h s = Some s' \<and> plist_rep s' h (as @ bs) \<and> detached s' n \<and>
           prio s' = prio s \<and> (\<forall>h'. plist_del n h' s' = Some s')"
  using plist_del_split [OF assms] plist_del_detached by metis

theorem plist_del_correct_witness:
  "\<exists>s s' :: (nat, nat) pstore. plist_rep s 0 [1, 2, 3] \<and> plist_del 1 0 s = Some s' \<and>
     plist_rep s' 0 [2, 3] \<and> plist_del 1 7 s' = Some s'"
proof -
  obtain s :: "(nat, nat) pstore" where s: "plist_rep s 0 ([] @ 1 # [2, 3])"
    using plist_example by auto
  from plist_del_correct [OF s] s show ?thesis by auto
qed

text \<open>\<open>plist_requeue\<close> moves a node behind the nodes of its own priority that follow it and keeps the
  list well-formed; its loop ends.\<close>

theorem plist_requeue_correct:
  assumes "plist_rep s h (as @ n # cs @ ds)" and "\<forall>x \<in> set cs. prio s x = prio s n"
    and "ds = [] \<or> prio s (hd ds) \<noteq> prio s n"
  shows "\<exists>s'. plist_requeue n h s = Some s' \<and> plist_rep s' h (as @ cs @ n # ds) \<and> prio s' = prio s"
  by (rule plist_requeue_split [OF assms])

theorem plist_requeue_correct_witness:
  "\<exists>s s' :: (nat, nat) pstore. plist_rep s 0 [1, 2, 3] \<and> plist_requeue 1 0 s = Some s' \<and>
     plist_rep s' 0 [2, 1, 3]"
proof -
  obtain s :: "(nat, nat) pstore" where s: "plist_rep s 0 ([] @ 1 # [2] @ [3])"
      "prio s 1 = 5" "prio s 2 = 5" "prio s 3 = 9"
    using plist_example by auto
  from plist_requeue_correct [OF s(1)] s show ?thesis by auto
qed

end
