(* ===== verification/Sched.thy ===== *)
theory Sched
  imports Plist
begin

text \<open>
  The scheduler, \<open>kernel/proc/sched.c\<close>, with the threads and policies of \<open>proc/task.h\<close> and the
  wait queues of \<open>proc/wait.h\<close>.

  The state holds the five priority lists on the pointer level, the threads, the current thread and
  process, the lock counter at its width and the interrupt flag. The main lemmas show that every
  thread is on exactly the list its state and policy name, whatever the scheduler does, that
  \<open>schedule\<close> switches to the first thread in the order of policies and priorities, and that the
  timer handler rotates the threads of the application policy.
\<close>

section \<open>Threads and the scheduler state\<close>

datatype thread_state = THREAD_NEW | THREAD_READY | THREAD_RUNNING | THREAD_WAITING | THREAD_TERMINATED

datatype thread_policy = THREAD_KERNEL_POLICY | THREAD_SYSTEM_POLICY | THREAD_APP_POLICY

text \<open>The five global \<open>plist_head\<close>s.\<close>

datatype sched_list = kernel_ready_list | system_ready_list | app_ready_list | waiting_list | terminated_list

text \<open>A thread; its \<open>sched_sibling\<close> lives in the store of the priority lists, under its number.\<close>

record thread =
  thread_flags :: u32
  state :: thread_state
  policy :: thread_policy
  thread_parent :: nat
  kernel_stack :: u32
  pending :: u32
  blocked :: u32
  time_slice :: u32

text \<open>
  \<open>proc_cr3\<close> is the physical address of the page directory of a process, \<open>tss_esp0\<close> and \<open>cr3\<close> are
  the two registers a switch sets; \<open>interrupts\<close> is the interrupt flag.
\<close>

record sched =
  plists :: "(sched_list, nat) pstore"
  threads :: "nat \<Rightarrow> thread"
  current_thread :: nat
  current_process :: nat
  scheduler_lock_counter :: u32
  interrupts :: bool
  proc_cr3 :: "nat \<Rightarrow> u32"
  tss_esp0 :: u32
  cr3 :: u32

abbreviation upd_thread :: "nat \<Rightarrow> (thread \<Rightarrow> thread) \<Rightarrow> sched \<Rightarrow> sched" where
  "upd_thread t f s \<equiv> s\<lparr>threads := (threads s)(t := f (threads s t))\<rparr>"

definition TIF_SIGNAL_MANUAL :: u32 where
  "TIF_SIGNAL_MANUAL = 0x1"

definition INT_MAX :: int where
  "INT_MAX = 2147483647"

section \<open>The operations\<close>

definition lock_scheduler :: "sched \<Rightarrow> sched" where
  "lock_scheduler s = s\<lparr>interrupts := False, scheduler_lock_counter := scheduler_lock_counter s + 1\<rparr>"

definition unlock_scheduler :: "sched \<Rightarrow> sched" where
  "unlock_scheduler s =
     (let s1 = s\<lparr>scheduler_lock_counter := scheduler_lock_counter s - 1\<rparr>
      in if scheduler_lock_counter s1 = 0 then s1\<lparr>interrupts := True\<rparr> else s1)"

definition get_next_thread_from_list :: "sched_list \<Rightarrow> sched \<Rightarrow> nat option option" where
  "get_next_thread_from_list l s =
     (if plist_head_empty l (plists s) then Some None
      else map_option Some (plist_first l (plists s)))"

definition get_next_thread_to_run :: "sched \<Rightarrow> nat option option" where
  "get_next_thread_to_run s =
     do {
       nt \<leftarrow> get_next_thread_from_list kernel_ready_list s;
       nt \<leftarrow> (if nt = None then get_next_thread_from_list system_ready_list s else Some nt);
       (if nt = None then get_next_thread_from_list app_ready_list s else Some nt)
     }"

definition pop_next_thread_from_list :: "sched_list \<Rightarrow> sched \<Rightarrow> (nat option \<times> sched) option" where
  "pop_next_thread_from_list l s =
     (if plist_head_empty l (plists s) then Some (None, s)
      else
        do {
          th \<leftarrow> plist_first l (plists s);
          ps \<leftarrow> plist_del th l (plists s);
          Some (Some th, s\<lparr>plists := ps\<rparr>)
        })"

definition pop_next_thread_to_run :: "sched \<Rightarrow> (nat option \<times> sched) option" where
  "pop_next_thread_to_run s =
     do {
       (nt, s) \<leftarrow> pop_next_thread_from_list kernel_ready_list s;
       (nt, s) \<leftarrow> (if nt = None then pop_next_thread_from_list system_ready_list s else Some (nt, s));
       (if nt = None then pop_next_thread_from_list app_ready_list s else Some (nt, s))
     }"

definition get_list_from_thread :: "thread_state \<Rightarrow> thread_policy \<Rightarrow> sched_list option" where
  "get_list_from_thread st pol =
     (if st = THREAD_READY then
        (if pol = THREAD_KERNEL_POLICY then Some kernel_ready_list
         else if pol = THREAD_SYSTEM_POLICY then Some system_ready_list
         else Some app_ready_list)
      else if st = THREAD_WAITING then Some waiting_list
      else if st = THREAD_TERMINATED then Some terminated_list
      else None)"

text \<open>A list that does not exist (\<open>NULL\<close>) is a fault in \<open>plist_head_empty\<close>.\<close>

definition get_top_priority_from_list :: "thread_state \<Rightarrow> thread_policy \<Rightarrow> sched \<Rightarrow> int option" where
  "get_top_priority_from_list st pol s =
     do {
       h \<leftarrow> get_list_from_thread st pol;
       (if \<not> plist_head_empty h (plists s)
        then map_option (prio (plists s)) (plist_first h (plists s)) else Some INT_MAX)
     }"

definition queue_thread :: "nat \<Rightarrow> sched \<Rightarrow> sched option" where
  "queue_thread th s =
     (case get_list_from_thread (state (threads s th)) (policy (threads s th)) of
        Some h \<Rightarrow> map_option (\<lambda>ps. s\<lparr>plists := ps\<rparr>) (plist_add th h (plists s))
      | None \<Rightarrow> Some s)"

definition remove_thread :: "nat \<Rightarrow> sched \<Rightarrow> sched option" where
  "remove_thread th s =
     (case get_list_from_thread (state (threads s th)) (policy (threads s th)) of
        Some h \<Rightarrow> map_option (\<lambda>ps. s\<lparr>plists := ps\<rparr>) (plist_del th h (plists s))
      | None \<Rightarrow> Some s)"

definition update_thread :: "nat \<Rightarrow> thread_state \<Rightarrow> sched \<Rightarrow> sched option" where
  "update_thread th st s =
     (if state (threads s th) = st then Some s
      else
        do {
          let s1 = lock_scheduler s;
          s2 \<leftarrow> remove_thread th s1;
          let s3 = upd_thread th (\<lambda>t. t\<lparr>state := st\<rparr>) s2;
          s4 \<leftarrow> queue_thread th s3;
          Some (unlock_scheduler s4)
        })"

text \<open>The switch loads the stack and the page directory of the next thread and ends with \<open>sti\<close>.\<close>

definition do_switch :: "u32 \<Rightarrow> sched \<Rightarrow> sched" where
  "do_switch paddr_cr3 s = s\<lparr>cr3 := paddr_cr3, interrupts := True\<rparr>"

definition switch_thread :: "nat \<Rightarrow> sched \<Rightarrow> sched option" where
  "switch_thread nt s =
     (if current_thread s = nt then
        update_thread nt THREAD_RUNNING (upd_thread nt (\<lambda>t. t\<lparr>time_slice := 0\<rparr>) s)
      else
        do {
          let s1 = upd_thread nt (\<lambda>t. t\<lparr>time_slice := 0\<rparr>) (s\<lparr>current_thread := nt\<rparr>);
          s2 \<leftarrow> update_thread nt THREAD_RUNNING s1;
          let s3 = s2\<lparr>current_process := thread_parent (threads s2 nt)\<rparr>;
          let paddr_cr3 = proc_cr3 s3 (thread_parent (threads s3 nt));
          let s4 = s3\<lparr>tss_esp0 := kernel_stack (threads s3 nt)\<rparr>;
          Some (do_switch paddr_cr3 s4)
        })"

text \<open>
  The loop of \<open>schedule\<close> that waits for a thread. Every \<open>halt\<close> ends with an interrupt; \<open>irqs\<close> are the
  effects of the interrupts in their order. When they are used up the processor is still halted and
  the result has no thread.
\<close>

fun schedule_wait :: "(sched \<Rightarrow> sched option) list \<Rightarrow> sched \<Rightarrow> (nat option \<times> sched) option" where
  "schedule_wait [] s = Some (None, unlock_scheduler s)"
| "schedule_wait (irq # irqs) s =
     do {
       s1 \<leftarrow> irq (unlock_scheduler s);
       (nt, s2) \<leftarrow> pop_next_thread_to_run (lock_scheduler s1);
       let nt = (if nt = None \<and> state (threads s2 (current_thread s2)) = THREAD_RUNNING
                 then Some (current_thread s2) else nt);
       (if nt = None then schedule_wait irqs s2 else Some (nt, s2))
     }"

definition schedule :: "(sched \<Rightarrow> sched option) \<Rightarrow> (sched \<Rightarrow> sched option) list \<Rightarrow> sched \<Rightarrow> sched option" where
  "schedule handle_signal irqs s =
     (if state (threads s (current_thread s)) = THREAD_RUNNING then Some s
      else
        do {
          (nt, s2) \<leftarrow> pop_next_thread_to_run (lock_scheduler s);
          (nt, s3) \<leftarrow> (if nt = None then schedule_wait irqs s2 else Some (nt, s2));
          (case nt of
             None \<Rightarrow> Some s3
           | Some t \<Rightarrow>
               do {
                 s4 \<leftarrow> switch_thread t s3;
                 let ct = threads s4 (current_thread s4);
                 s5 \<leftarrow> (if pending ct \<noteq> 0 \<and> thread_flags ct AND TIF_SIGNAL_MANUAL = 0
                       then handle_signal s4 else Some s4);
                 Some (unlock_scheduler s5)
               })
        })"

definition SLICE_THRESHOLD :: u32 where
  "SLICE_THRESHOLD = 8"

text \<open>The rescaling of the application list in the timer handler.\<close>

definition scale_node :: "int \<Rightarrow> nat \<Rightarrow> (sched_list, nat) pstore \<Rightarrow> (sched_list, nat) pstore" where
  "scale_node scale n ps = ps\<lparr>prio := (prio ps)(n := prio ps n - scale)\<rparr>"

definition rescale_app_list :: "nat \<Rightarrow> (sched_list, nat) pstore \<Rightarrow> (sched_list, nat) pstore option" where
  "rescale_app_list ct ps =
     do {
       first_thd \<leftarrow> plist_first app_ready_list ps;
       last_thd \<leftarrow> plist_last app_ready_list ps;
       let scale = prio ps first_thd;
       ps1 \<leftarrow> plist_for_each app_ready_list (scale_node scale) (lnext (links ps (HeadList app_ready_list))) ps;
       Some (ps1\<lparr>prio := (prio ps1)(ct := prio ps1 last_thd + 1)\<rparr>)
     }"

definition irq_schedule_handler ::
    "(sched \<Rightarrow> sched option) \<Rightarrow> (sched \<Rightarrow> sched option) list \<Rightarrow> sched \<Rightarrow> sched option" where
  "irq_schedule_handler handle_signal irqs s =
     (let ct = current_thread s in
      if policy (threads s ct) \<noteq> THREAD_APP_POLICY \<or> state (threads s ct) \<noteq> THREAD_RUNNING then Some s
      else
        do {
          let s1 = upd_thread ct (\<lambda>t. t\<lparr>time_slice := time_slice t + 1\<rparr>) (lock_scheduler s);
          (is_schedulable, s2) \<leftarrow>
            (if SLICE_THRESHOLD \<le> time_slice (threads s1 ct) then
               do {
                 nt \<leftarrow> get_next_thread_to_run s1;
                 (case nt of
                    None \<Rightarrow> Some (False, s1)
                  | Some nt \<Rightarrow>
                      do {
                        s2 \<leftarrow> (if policy (threads s1 nt) = THREAD_APP_POLICY
                              then map_option (\<lambda>ps. s1\<lparr>plists := ps\<rparr>) (rescale_app_list ct (plists s1))
                              else Some s1);
                        s3 \<leftarrow> update_thread ct THREAD_READY s2;
                        Some (True, s3)
                      })
               }
             else Some (False, s1));
          let s3 = unlock_scheduler s2;
          (if is_schedulable \<and> scheduler_lock_counter s3 = 0
           then schedule handle_signal irqs s3 else Some s3)
        })"

text \<open>\<open>poll_wakeup\<close> (\<open>fs/poll.c\<close>), the wake-up function of \<open>DEFINE_WAIT\<close>, and \<open>wake_up\<close>.\<close>

definition poll_wakeup :: "nat \<Rightarrow> sched \<Rightarrow> sched option" where
  "poll_wakeup th s = update_thread th THREAD_READY s"

record wait_queue_entry =
  wait_thread :: nat
  wait_func :: "nat \<Rightarrow> sched \<Rightarrow> sched option"

fun wake_up :: "wait_queue_entry list \<Rightarrow> sched \<Rightarrow> sched option" where
  "wake_up [] s = Some s"
| "wake_up (iter # hq) s = Option.bind (wait_func iter (wait_thread iter) s) (wake_up hq)"

definition sched_init :: "sched \<Rightarrow> sched" where
  "sched_init s =
     s\<lparr>plists :=
         plist_head_init terminated_list (plist_head_init waiting_list (plist_head_init app_ready_list
           (plist_head_init system_ready_list (plist_head_init kernel_ready_list (plists s)))))\<rparr>"

lemmas sched_defs = lock_scheduler_def unlock_scheduler_def queue_thread_def remove_thread_def
  update_thread_def do_switch_def switch_thread_def

section \<open>The invariant: every thread is on the list its state and policy name\<close>

definition list_of :: "sched \<Rightarrow> nat \<Rightarrow> sched_list option" where
  "list_of s t = get_list_from_thread (state (threads s t)) (policy (threads s t))"

text \<open>The invariant but for one thread, which may be missing on its list: what holds between the pop of
  a thread and the change of its state.\<close>

definition sched_but :: "nat \<Rightarrow> sched \<Rightarrow> (sched_list \<Rightarrow> nat list) \<Rightarrow> bool" where
  "sched_but t0 s Q \<longleftrightarrow>
     queues (plists s) Q \<and> (\<forall>t h. t \<noteq> t0 \<longrightarrow> (t \<in> set (Q h) \<longleftrightarrow> list_of s t = Some h)) \<and>
     (\<forall>h. t0 \<in> set (Q h) \<longrightarrow> list_of s t0 = Some h)"

definition sched_ok :: "sched \<Rightarrow> (sched_list \<Rightarrow> nat list) \<Rightarrow> bool" where
  "sched_ok s Q \<longleftrightarrow> queues (plists s) Q \<and> (\<forall>t h. t \<in> set (Q h) \<longleftrightarrow> list_of s t = Some h)"

lemma sched_ok_but: "sched_ok s Q \<Longrightarrow> sched_but t s Q"
  by (simp add: sched_ok_def sched_but_def)

lemma sched_ok_queues: "sched_ok s Q \<Longrightarrow> queues (plists s) Q"
  by (simp add: sched_ok_def)

text \<open>The invariant reads the lists, the states and the policies only.\<close>

lemma list_of_cong:
  "state (threads s' t) = state (threads s t) \<Longrightarrow> policy (threads s' t) = policy (threads s t) \<Longrightarrow>
   list_of s' t = list_of s t"
  by (simp add: list_of_def)

lemma sched_ok_cong:
  assumes "plists s' = plists s" and "\<And>t. list_of s' t = list_of s t"
  shows "sched_ok s' Q = sched_ok s Q"
  using assms by (simp add: sched_ok_def)

lemma sched_but_cong:
  assumes "plists s' = plists s" and "\<And>t. list_of s' t = list_of s t"
  shows "sched_but t0 s' Q = sched_but t0 s Q"
  using assms by (simp add: sched_but_def)

lemma lock_scheduler_simps [simp]:
  "plists (lock_scheduler s) = plists s" "threads (lock_scheduler s) = threads s"
  "current_thread (lock_scheduler s) = current_thread s"
  "scheduler_lock_counter (lock_scheduler s) = scheduler_lock_counter s + 1"
  "interrupts (lock_scheduler s) = False"
  "plists (unlock_scheduler s) = plists s" "threads (unlock_scheduler s) = threads s"
  "current_thread (unlock_scheduler s) = current_thread s"
  "scheduler_lock_counter (unlock_scheduler s) = scheduler_lock_counter s - 1"
  "interrupts (unlock_scheduler s) \<longleftrightarrow> scheduler_lock_counter s = 1 \<or> interrupts s"
  by (auto simp: lock_scheduler_def unlock_scheduler_def Let_def)

lemma lock_list_of [simp]:
  "list_of (lock_scheduler s) t = list_of s t" "list_of (unlock_scheduler s) t = list_of s t"
  "sched_ok (lock_scheduler s) Q = sched_ok s Q" "sched_ok (unlock_scheduler s) Q = sched_ok s Q"
  by (simp_all add: list_of_def sched_ok_def)

subsection \<open>Changing the state of a thread\<close>

text \<open>The lists after thread \<open>t\<close> has left its list and gone to the list \<open>l\<close>, if there is one.\<close>

definition requeue :: "(nat \<Rightarrow> int) \<Rightarrow> nat \<Rightarrow> sched_list option \<Rightarrow> (sched_list \<Rightarrow> nat list) \<Rightarrow> sched_list \<Rightarrow> nat list" where
  "requeue p t l Q h = (if l = Some h then prio_insert p t (remove1 t (Q h)) else remove1 t (Q h))"

lemma set_requeue:
  "distinct (Q h) \<Longrightarrow> set (requeue p t l Q h) = (if l = Some h then insert t (set (Q h)) else set (Q h) - {t})"
  by (auto simp: requeue_def)

lemma requeue_other: "t \<notin> set (Q h) \<Longrightarrow> l \<noteq> Some h \<Longrightarrow> requeue p t l Q h = Q h"
  by (simp add: requeue_def remove1_idem)

lemma update_thread_lists:
  assumes but: "sched_but t s Q" and ne: "state (threads s t) \<noteq> st"
  shows "\<exists>ps. update_thread t st s =
             Some (unlock_scheduler ((upd_thread t (\<lambda>x. x\<lparr>state := st\<rparr>) (lock_scheduler s))\<lparr>plists := ps\<rparr>)) \<and>
           queues ps (requeue (prio (plists s)) t (get_list_from_thread st (policy (threads s t))) Q) \<and>
           prio ps = prio (plists s)"
proof -
  let ?l = "get_list_from_thread st (policy (threads s t))"
  have q: "queues (plists s) Q" and mem: "\<And>h. t \<in> set (Q h) \<Longrightarrow> list_of s t = Some h"
    using but by (auto simp: sched_but_def)
  have "\<exists>ps1. remove_thread t (lock_scheduler s) = Some (lock_scheduler (s\<lparr>plists := ps1\<rparr>)) \<and>
      queues ps1 (\<lambda>h. remove1 t (Q h)) \<and> prio ps1 = prio (plists s)"
  proof (cases "list_of s t")
    case None
    then have "t \<notin> set (Q h)" for h using mem [of h] by auto
    then have "(\<lambda>h. remove1 t (Q h)) = Q" by (auto simp: remove1_idem)
    then show ?thesis
      using None q by (intro exI [of _ "plists s"]) (auto simp: remove_thread_def list_of_def)
  next
    case (Some h)
    then have out: "t \<notin> set (Q k)" if "k \<noteq> h" for k using mem [of k] that by auto
    have Q: "Q(h := remove1 t (Q h)) = (\<lambda>h. remove1 t (Q h))"
      using out by (auto simp: remove1_idem)
    obtain ps1 ps2 where ps: "plist_del t h (plists s) = Some ps1" "queues ps1 (Q(h := remove1 t (Q h)))"
      and kept: "plist_add t h ps1 = Some ps2" "prio ps2 = prio (plists s)"
      using pq.move [OF q, of h t h] out by metis
    have "prio ps1 = prio (plists s)"
      using ps pq.del_law [OF q, of t h] pq.del_absent [OF q, of t h] out by (metis option.inject)
    with Some ps Q show ?thesis
      by (intro exI [of _ ps1]) (simp add: remove_thread_def list_of_def lock_scheduler_def)
  qed
  then obtain ps1 where rem: "remove_thread t (lock_scheduler s) = Some (lock_scheduler (s\<lparr>plists := ps1\<rparr>))"
    and q1: "queues ps1 (\<lambda>h. remove1 t (Q h))" and p1: "prio ps1 = prio (plists s)" by blast
  have free: "t \<notin> set (remove1 t (Q h))" for h
    using pq.distinct_law [OF q, of h] by simp
  let ?s3 = "upd_thread t (\<lambda>x. x\<lparr>state := st\<rparr>) (lock_scheduler (s\<lparr>plists := ps1\<rparr>))"
  have "\<exists>ps. queue_thread t ?s3 = Some (?s3\<lparr>plists := ps\<rparr>) \<and>
      queues ps (requeue (prio (plists s)) t ?l Q) \<and> prio ps = prio (plists s)"
  proof (cases ?l)
    case None
    then show ?thesis using q1 p1
      by (intro exI [of _ ps1]) (simp add: queue_thread_def requeue_def [abs_def])
  next
    case (Some h)
    have "(\<lambda>k. remove1 t (Q k))(h := prio_insert (prio ps1) t (remove1 t (Q h))) =
        requeue (prio (plists s)) t (Some h) Q"
      by (auto simp: requeue_def p1)
    with Some pq.add_law [OF q1 free, of h] p1 show ?thesis
      by (auto simp: queue_thread_def)
  qed
  then obtain ps where qt: "queue_thread t ?s3 = Some (?s3\<lparr>plists := ps\<rparr>)"
    and res: "queues ps (requeue (prio (plists s)) t ?l Q)" "prio ps = prio (plists s)" by blast
  have "update_thread t st s = Some (unlock_scheduler (?s3\<lparr>plists := ps\<rparr>))"
    using ne rem qt by (simp add: update_thread_def)
  then show ?thesis using res
    by (intro exI [of _ ps]) (simp add: lock_scheduler_def)
qed

lemma update_thread_ok:
  assumes but: "sched_but t s Q" and ne: "state (threads s t) \<noteq> st"
  shows "\<exists>s'. update_thread t st s = Some s' \<and>
           sched_ok s' (requeue (prio (plists s)) t (get_list_from_thread st (policy (threads s t))) Q) \<and>
           threads s' = (threads s)(t := (threads s t)\<lparr>state := st\<rparr>) \<and>
           prio (plists s') = prio (plists s) \<and> current_thread s' = current_thread s \<and>
           scheduler_lock_counter s' = scheduler_lock_counter s \<and>
           interrupts s' = (scheduler_lock_counter s = 0)"
proof -
  let ?l = "get_list_from_thread st (policy (threads s t))"
  obtain ps where up: "update_thread t st s =
      Some (unlock_scheduler ((upd_thread t (\<lambda>x. x\<lparr>state := st\<rparr>) (lock_scheduler s))\<lparr>plists := ps\<rparr>))"
    and q: "queues ps (requeue (prio (plists s)) t ?l Q)" and p: "prio ps = prio (plists s)"
    using update_thread_lists [OF assms] by blast
  have dist: "distinct (Q h)" for h
    using but pq.distinct_law [of "plists s" Q h] by (simp add: sched_but_def)
  have mem: "x \<in> set (requeue (prio (plists s)) t ?l Q h) \<longleftrightarrow>
      (if x = t then ?l = Some h else list_of s x = Some h)" for x h
    using but dist [of h] by (auto simp: set_requeue sched_but_def)
  have "sched_ok (unlock_scheduler ((upd_thread t (\<lambda>x. x\<lparr>state := st\<rparr>) (lock_scheduler s))\<lparr>plists := ps\<rparr>))
      (requeue (prio (plists s)) t ?l Q)"
    using q mem by (auto simp: sched_ok_def list_of_def lock_scheduler_def)
  with up p show ?thesis by (auto simp: lock_scheduler_def)
qed

subsection \<open>Choosing the next thread\<close>

text \<open>The first thread in the order of the three ready lists.\<close>

definition next_ready :: "(sched_list \<Rightarrow> nat list) \<Rightarrow> nat option" where
  "next_ready Q =
     (case Q kernel_ready_list @ Q system_ready_list @ Q app_ready_list of [] \<Rightarrow> None | t # _ \<Rightarrow> Some t)"

fun policy_rank :: "thread_policy \<Rightarrow> nat" where
  "policy_rank THREAD_KERNEL_POLICY = 0"
| "policy_rank THREAD_SYSTEM_POLICY = 1"
| "policy_rank THREAD_APP_POLICY = 2"

lemma get_next_thread_from_list_eq:
  assumes "queues (plists s) Q"
  shows "get_next_thread_from_list l s = Some (case Q l of [] \<Rightarrow> None | t # _ \<Rightarrow> Some t)"
  using pq.empty_law [OF assms, of l] pq.first_law [OF assms, of l]
  by (cases "Q l") (auto simp: get_next_thread_from_list_def)

lemma get_next_thread_to_run_eq:
  assumes "queues (plists s) Q"
  shows "get_next_thread_to_run s = Some (next_ready Q)"
  by (auto simp: get_next_thread_to_run_def get_next_thread_from_list_eq [OF assms] next_ready_def split: list.split)

lemma pop_next_thread_from_list_eq:
  assumes q: "queues (plists s) Q"
  shows "case Q l of
      [] \<Rightarrow> pop_next_thread_from_list l s = Some (None, s)
    | t # ts \<Rightarrow> \<exists>ps. pop_next_thread_from_list l s = Some (Some t, s\<lparr>plists := ps\<rparr>) \<and>
                 queues ps (Q(l := ts)) \<and> prio ps = prio (plists s)"
proof (cases "Q l")
  case (Cons t ts)
  obtain ps where "plist_first l (plists s) = Some t" "plist_del t l (plists s) = Some ps"
      "queues ps (Q(l := ts))" "prio ps = prio (plists s)"
    using pq.pop [OF q Cons] by blast
  then show ?thesis using Cons pq.empty_law [OF q, of l] by (auto simp: pop_next_thread_from_list_def)
qed (use pq.empty_law [OF q, of l] in \<open>simp add: pop_next_thread_from_list_def\<close>)

lemma pop_next_thread_to_run_eq:
  assumes q: "queues (plists s) Q"
  shows "case next_ready Q of
      None \<Rightarrow> pop_next_thread_to_run s = Some (None, s)
    | Some t \<Rightarrow> \<exists>ps. pop_next_thread_to_run s = Some (Some t, s\<lparr>plists := ps\<rparr>) \<and>
                 queues ps (\<lambda>h. remove1 t (Q h)) \<and> prio ps = prio (plists s)"
proof -
  have upd: "Q(l := ts) = (\<lambda>h. remove1 t (Q h))" if "Q l = t # ts" for l t ts
  proof
    fix h
    have "t \<notin> set (Q h)" if "h \<noteq> l"
      using pq.once [OF q, of t l h] \<open>Q l = t # ts\<close> that by auto
    then show "(Q(l := ts)) h = remove1 t (Q h)" using that by (simp add: remove1_idem)
  qed
  show ?thesis
    using pop_next_thread_from_list_eq [OF q, of kernel_ready_list]
      pop_next_thread_from_list_eq [OF q, of system_ready_list]
      pop_next_thread_from_list_eq [OF q, of app_ready_list]
    by (cases "Q kernel_ready_list"; cases "Q system_ready_list"; cases "Q app_ready_list")
       (auto simp: pop_next_thread_to_run_def next_ready_def upd)
qed

lemma ready_list_of:
  "list_of s t = Some h \<Longrightarrow> h \<in> {kernel_ready_list, system_ready_list, app_ready_list} \<longleftrightarrow> state (threads s t) = THREAD_READY"
  by (auto simp: list_of_def get_list_from_thread_def split: if_splits)

lemma next_ready_mem:
  "next_ready Q = Some t \<Longrightarrow> \<exists>h \<in> {kernel_ready_list, system_ready_list, app_ready_list}. t \<in> set (Q h)"
  by (cases "Q kernel_ready_list"; cases "Q system_ready_list"; cases "Q app_ready_list")
     (auto simp: next_ready_def)

lemma next_ready_state:
  assumes ok: "sched_ok s Q" and "next_ready Q = Some t"
  shows "state (threads s t) = THREAD_READY"
proof -
  obtain h where h: "h \<in> {kernel_ready_list, system_ready_list, app_ready_list}" "t \<in> set (Q h)"
    using next_ready_mem [OF assms(2)] by blast
  then have "list_of s t = Some h" using ok by (simp add: sched_ok_def)
  with ready_list_of [OF this] h(1) show ?thesis by simp
qed

text \<open>The chosen thread is minimal among the ready ones: by policy, then by priority value.\<close>

lemma next_ready_minimal:
  assumes ok: "sched_ok s Q" and y: "state (threads s y) = THREAD_READY"
  shows "\<exists>t. next_ready Q = Some t \<and>
           (policy_rank (policy (threads s t)) < policy_rank (policy (threads s y)) \<or>
            policy (threads s t) = policy (threads s y) \<and> prio (plists s) t \<le> prio (plists s) y)"
proof -
  have mem: "t \<in> set (Q h) \<longleftrightarrow> list_of s t = Some h" for t h using ok by (simp add: sched_ok_def)
  have srt: "sorted (map (prio (plists s)) (Q h))" for h
    by (rule pq.sorted_law [OF sched_ok_queues [OF ok]])
  have pol: "policy (threads s t) = (case h of kernel_ready_list \<Rightarrow> THREAD_KERNEL_POLICY
      | system_ready_list \<Rightarrow> THREAD_SYSTEM_POLICY | app_ready_list \<Rightarrow> THREAD_APP_POLICY | _ \<Rightarrow> policy (threads s t))"
    if "t \<in> set (Q h)" for t h
    using that by (cases "policy (threads s t)")
      (auto simp: mem list_of_def get_list_from_thread_def split: if_splits)
  obtain hy where hy: "y \<in> set (Q hy)" "hy \<in> {kernel_ready_list, system_ready_list, app_ready_list}"
    using y by (cases "policy (threads s y)") (auto simp: mem list_of_def get_list_from_thread_def)
  have le: "prio (plists s) t \<le> prio (plists s) y" if "Q h = t # ts" "y \<in> set (Q h)" for t ts h
    using srt [of h] that by auto
  show ?thesis
    using hy pol [OF hy(1)]
      pol [of "hd (Q kernel_ready_list)" kernel_ready_list] pol [of "hd (Q system_ready_list)" system_ready_list]
      pol [of "hd (Q app_ready_list)" app_ready_list]
      le [of kernel_ready_list] le [of system_ready_list] le [of app_ready_list]
    by (cases "Q kernel_ready_list"; cases "Q system_ready_list"; cases "Q app_ready_list")
       (auto simp: next_ready_def)
qed

subsection \<open>Switching\<close>

definition run_thread :: "nat \<Rightarrow> (nat \<Rightarrow> thread) \<Rightarrow> nat \<Rightarrow> thread" where
  "run_thread t ths = ths(t := (ths t)\<lparr>time_slice := 0, state := THREAD_RUNNING\<rparr>)"

text \<open>What a completed switch to thread \<open>t\<close> leaves behind.\<close>

definition switched :: "nat \<Rightarrow> sched \<Rightarrow> sched \<Rightarrow> bool" where
  "switched t s s' \<longleftrightarrow>
     current_thread s' = t \<and> threads s' = run_thread t (threads s) \<and>
     prio (plists s') = prio (plists s) \<and>
     scheduler_lock_counter s' = scheduler_lock_counter s \<and>
     (current_thread s \<noteq> t \<longrightarrow>
        current_process s' = thread_parent (threads s t) \<and> tss_esp0 s' = kernel_stack (threads s t) \<and>
        cr3 s' = proc_cr3 s (thread_parent (threads s t)) \<and> interrupts s')"

lemma update_thread_keeps:
  assumes "update_thread t st s = Some s'"
  shows "proc_cr3 s' = proc_cr3 s"
  using assms
  by (auto simp: update_thread_def remove_thread_def queue_thread_def lock_scheduler_def unlock_scheduler_def
      Let_def bind_eq_Some_conv split: if_splits option.splits)

lemma requeue_None: "requeue p t None Q = (\<lambda>h. remove1 t (Q h))"
  by (simp add: requeue_def [abs_def])

lemma switch_thread_ok:
  assumes but: "sched_but t s Q" and ne: "state (threads s t) \<noteq> THREAD_RUNNING"
  shows "\<exists>s'. switch_thread t s = Some s' \<and> sched_ok s' (\<lambda>h. remove1 t (Q h)) \<and> switched t s s'"
proof -
  let ?z = "\<lambda>s. upd_thread t (\<lambda>x. x\<lparr>time_slice := 0\<rparr>) s"
  have none: "get_list_from_thread THREAD_RUNNING p = None" for p
    by (simp add: get_list_from_thread_def)
  show ?thesis
  proof (cases "current_thread s = t")
    case True
    have b: "sched_but t (?z s) Q"
      using but by (subst sched_but_cong [where s = s]) (auto simp: list_of_def)
    have n: "state (threads (?z s) t) \<noteq> THREAD_RUNNING" using ne by simp
    from update_thread_ok [OF b n] True show ?thesis
      by (auto simp: switch_thread_def switched_def run_thread_def requeue_None none)
  next
    case False
    let ?s1 = "?z (s\<lparr>current_thread := t\<rparr>)"
    have b: "sched_but t ?s1 Q"
      using but by (subst sched_but_cong [where s = s]) (auto simp: list_of_def)
    have n: "state (threads ?s1 t) \<noteq> THREAD_RUNNING" using ne by simp
    obtain s2 where s2: "update_thread t THREAD_RUNNING ?s1 = Some s2" "sched_ok s2 (\<lambda>h. remove1 t (Q h))"
      "threads s2 = (threads ?s1)(t := (threads ?s1 t)\<lparr>state := THREAD_RUNNING\<rparr>)"
      "prio (plists s2) = prio (plists s)" "current_thread s2 = t"
      "scheduler_lock_counter s2 = scheduler_lock_counter s"
      using update_thread_ok [OF b n] by (auto simp: requeue_None none)
    let ?s4 = "do_switch (proc_cr3 s2 (thread_parent (threads s2 t)))
        (s2\<lparr>current_process := thread_parent (threads s2 t), tss_esp0 := kernel_stack (threads s2 t)\<rparr>)"
    have "switch_thread t s = Some ?s4"
      using False s2(1) by (simp add: switch_thread_def)
    moreover have "sched_ok ?s4 (\<lambda>h. remove1 t (Q h))"
      using s2(2) by (subst sched_ok_cong [where s = s2]) (auto simp: list_of_def do_switch_def)
    moreover have "switched t s ?s4"
      using s2(3-6) update_thread_keeps [OF s2(1)] by (simp add: switched_def run_thread_def do_switch_def)
    ultimately show ?thesis by blast
  qed
qed

text \<open>The end of \<open>schedule\<close>: pending signals, then the lock.\<close>

definition schedule_tail :: "(sched \<Rightarrow> sched option) \<Rightarrow> sched \<Rightarrow> sched option" where
  "schedule_tail handle_signal s4 =
     Option.bind
       (if pending (threads s4 (current_thread s4)) \<noteq> 0 \<and>
           thread_flags (threads s4 (current_thread s4)) AND TIF_SIGNAL_MANUAL = 0
        then handle_signal s4 else Some s4) (\<lambda>s5. Some (unlock_scheduler s5))"

lemma schedule_unfold:
  "state (threads s (current_thread s)) \<noteq> THREAD_RUNNING \<Longrightarrow>
   pop_next_thread_to_run (lock_scheduler s) = Some (Some t, s2) \<Longrightarrow> switch_thread t s2 = Some s4 \<Longrightarrow>
   schedule hs irqs s = schedule_tail hs s4"
  by (simp add: schedule_def schedule_tail_def)

text \<open>When a thread is ready, \<open>schedule\<close> switches to the first one.\<close>

lemma schedule_ready:
  assumes ok: "sched_ok s Q" and cur: "state (threads s (current_thread s)) \<noteq> THREAD_RUNNING"
    and nr: "next_ready Q = Some t"
  shows "\<exists>s4. schedule hs irqs s = schedule_tail hs s4 \<and> sched_ok s4 (\<lambda>h. remove1 t (Q h)) \<and>
           switched t (lock_scheduler s) s4"
proof -
  have q: "queues (plists (lock_scheduler s)) Q" using sched_ok_queues [OF ok] by simp
  obtain ps where ps: "pop_next_thread_to_run (lock_scheduler s) = Some (Some t, (lock_scheduler s)\<lparr>plists := ps\<rparr>)"
      "queues ps (\<lambda>h. remove1 t (Q h))" "prio ps = prio (plists s)"
    using pop_next_thread_to_run_eq [OF q] nr by auto
  let ?s2 = "(lock_scheduler s)\<lparr>plists := ps\<rparr>"
  have dist: "distinct (Q h)" for h by (rule pq.distinct_law [OF sched_ok_queues [OF ok]])
  have "sched_but t ?s2 (\<lambda>h. remove1 t (Q h))"
    using ok ps(2) dist by (auto simp: sched_but_def sched_ok_def list_of_def)
  moreover have "state (threads ?s2 t) \<noteq> THREAD_RUNNING"
    using next_ready_state [OF ok nr] by simp
  ultimately obtain s4 where s4: "switch_thread t ?s2 = Some s4"
      "sched_ok s4 (\<lambda>h. remove1 t (remove1 t (Q h)))" "switched t ?s2 s4"
    using switch_thread_ok by blast
  have "remove1 t (remove1 t (Q h)) = remove1 t (Q h)" for h
    using dist [of h] by (simp add: remove1_idem)
  with s4(2) have "sched_ok s4 (\<lambda>h. remove1 t (Q h))" by simp
  moreover have "switched t (lock_scheduler s) s4"
    using s4(3) ps(3) by (simp add: switched_def)
  ultimately show ?thesis
    using schedule_unfold [OF cur ps(1) s4(1)] by blast
qed

subsection \<open>Waiting for a thread\<close>

text \<open>An interrupt, or a signal handler, that keeps the invariant and leaves the lock counter as it was.\<close>

definition keeps_ok :: "(sched \<Rightarrow> sched option) \<Rightarrow> bool" where
  "keeps_ok f \<longleftrightarrow>
     (\<forall>s Q. sched_ok s Q \<longrightarrow>
        (\<exists>s' Q'. f s = Some s' \<and> sched_ok s' Q' \<and> scheduler_lock_counter s' = scheduler_lock_counter s))"

lemma keeps_okD:
  assumes "keeps_ok f" and "sched_ok s Q"
  obtains s' Q' where "f s = Some s'" and "sched_ok s' Q'"
    and "scheduler_lock_counter s' = scheduler_lock_counter s"
  using assms unfolding keeps_ok_def by blast

lemma keeps_ok_update_thread: "keeps_ok (update_thread t st)"
  unfolding keeps_ok_def
proof (intro allI impI)
  fix s Q assume ok: "sched_ok s Q"
  show "\<exists>s' Q'. update_thread t st s = Some s' \<and> sched_ok s' Q' \<and>
      scheduler_lock_counter s' = scheduler_lock_counter s"
  proof (cases "state (threads s t) = st")
    case True
    with ok show ?thesis by (auto simp: update_thread_def)
  next
    case False
    from update_thread_ok [OF sched_ok_but [OF ok] False] show ?thesis by blast
  qed
qed

lemma keeps_ok_Some: "keeps_ok Some"
  by (auto simp: keeps_ok_def)

lemma keeps_ok_bind: "keeps_ok f \<Longrightarrow> keeps_ok g \<Longrightarrow> keeps_ok (\<lambda>s. Option.bind (f s) g)"
  unfolding keeps_ok_def by (metis Option.bind.bind_lunit)

lemma pop_ok:
  assumes ok: "sched_ok s Q"
  shows "\<exists>nt s1. pop_next_thread_to_run s = Some (nt, s1) \<and> threads s1 = threads s \<and>
           current_thread s1 = current_thread s \<and> scheduler_lock_counter s1 = scheduler_lock_counter s \<and>
           (case nt of None \<Rightarrow> sched_ok s1 Q
            | Some t \<Rightarrow> (\<exists>Q'. sched_but t s1 Q') \<and> state (threads s1 t) = THREAD_READY)"
proof (cases "next_ready Q")
  case None
  then show ?thesis using pop_next_thread_to_run_eq [OF sched_ok_queues [OF ok]] ok by auto
next
  case (Some t)
  then obtain ps where ps: "pop_next_thread_to_run s = Some (Some t, s\<lparr>plists := ps\<rparr>)"
      "queues ps (\<lambda>h. remove1 t (Q h))"
    using pop_next_thread_to_run_eq [OF sched_ok_queues [OF ok]] by auto
  have "distinct (Q h)" for h by (rule pq.distinct_law [OF sched_ok_queues [OF ok]])
  then have "sched_but t (s\<lparr>plists := ps\<rparr>) (\<lambda>h. remove1 t (Q h))"
    using ok ps(2) by (auto simp: sched_but_def sched_ok_def list_of_def)
  then show ?thesis using ps(1) next_ready_state [OF ok Some] by auto
qed

lemma schedule_wait_ok:
  assumes "sched_ok s Q" and "\<forall>irq \<in> set irqs. keeps_ok irq"
  shows "\<exists>nt s1. schedule_wait irqs s = Some (nt, s1) \<and>
           (case nt of
              None \<Rightarrow> (\<exists>Q'. sched_ok s1 Q') \<and> scheduler_lock_counter s1 = scheduler_lock_counter s - 1
            | Some t \<Rightarrow> (\<exists>Q'. sched_but t s1 Q') \<and> scheduler_lock_counter s1 = scheduler_lock_counter s \<and>
                (state (threads s1 t) = THREAD_READY \<or> state (threads s1 t) = THREAD_RUNNING \<and> t = current_thread s1))"
  using assms
proof (induction irqs arbitrary: s Q)
  case Nil
  then show ?case by auto
next
  case (Cons irq irqs)
  have "keeps_ok irq" "sched_ok (unlock_scheduler s) Q" using Cons.prems by simp_all
  then obtain s1 Q1 where s1: "irq (unlock_scheduler s) = Some s1" "sched_ok s1 Q1"
      "scheduler_lock_counter s1 = scheduler_lock_counter s - 1"
    by (rule keeps_okD) simp
  have "sched_ok (lock_scheduler s1) Q1" using s1(2) by simp
  from pop_ok [OF this] obtain nt s2 where pop: "pop_next_thread_to_run (lock_scheduler s1) = Some (nt, s2)"
      "scheduler_lock_counter s2 = scheduler_lock_counter s"
      "case nt of None \<Rightarrow> sched_ok s2 Q1
         | Some t \<Rightarrow> (\<exists>Q'. sched_but t s2 Q') \<and> state (threads s2 t) = THREAD_READY"
    using s1(3) by auto
  show ?case
  proof (cases nt)
    case (Some t)
    then show ?thesis using s1(1) pop by auto
  next
    case None
    then have ok2: "sched_ok s2 Q1" using pop(3) by simp
    show ?thesis
    proof (cases "state (threads s2 (current_thread s2)) = THREAD_RUNNING")
      case True
      then show ?thesis using s1(1) pop None sched_ok_but [OF ok2] by auto
    next
      case False
      from Cons.IH [OF ok2] Cons.prems(2) s1(1) pop(1,2) None False show ?thesis
        by (auto split: option.splits)
    qed
  qed
qed

lemma switch_thread_running:
  assumes but: "sched_but t s Q" and "state (threads s t) = THREAD_RUNNING" and "current_thread s = t"
  shows "\<exists>s'. switch_thread t s = Some s' \<and> (\<exists>Q'. sched_ok s' Q') \<and> current_thread s' = t \<and>
           state (threads s' t) = THREAD_RUNNING \<and> scheduler_lock_counter s' = scheduler_lock_counter s"
proof -
  let ?s = "upd_thread t (\<lambda>x. x\<lparr>time_slice := 0\<rparr>) s"
  have "list_of s t = None" using assms(2) by (simp add: list_of_def get_list_from_thread_def)
  then have "sched_ok s Q" using but unfolding sched_but_def sched_ok_def by (metis option.distinct(1))
  then have "sched_ok ?s Q" by (subst sched_ok_cong [where s = s]) (auto simp: list_of_def)
  then show ?thesis using assms(2,3) by (auto simp: switch_thread_def update_thread_def)
qed

lemma schedule_total:
  assumes ok: "sched_ok s Q" and irqs: "\<forall>irq \<in> set irqs. keeps_ok irq" and hs: "keeps_ok hs"
  shows "\<exists>s' Q'. schedule hs irqs s = Some s' \<and> sched_ok s' Q' \<and>
           scheduler_lock_counter s' = scheduler_lock_counter s"
proof (cases "state (threads s (current_thread s)) = THREAD_RUNNING")
  case True
  then show ?thesis using ok by (auto simp: schedule_def)
next
  case False
  have "sched_ok (lock_scheduler s) Q" using ok by simp
  from pop_ok [OF this] obtain nt0 s2 where pop: "pop_next_thread_to_run (lock_scheduler s) = Some (nt0, s2)"
      "scheduler_lock_counter s2 = scheduler_lock_counter s + 1"
      "case nt0 of None \<Rightarrow> sched_ok s2 Q | Some t \<Rightarrow> (\<exists>Q'. sched_but t s2 Q') \<and> state (threads s2 t) = THREAD_READY"
    by auto
  have "\<exists>nt s3. (if nt0 = None then schedule_wait irqs s2 else Some (nt0, s2)) = Some (nt, s3) \<and>
      (case nt of
         None \<Rightarrow> (\<exists>Q'. sched_ok s3 Q') \<and> scheduler_lock_counter s3 = scheduler_lock_counter s
       | Some t \<Rightarrow> (\<exists>Q'. sched_but t s3 Q') \<and> scheduler_lock_counter s3 = scheduler_lock_counter s + 1 \<and>
           (state (threads s3 t) = THREAD_READY \<or> state (threads s3 t) = THREAD_RUNNING \<and> t = current_thread s3))"
  proof (cases nt0)
    case None
    then have "sched_ok s2 Q" using pop(3) by simp
    from schedule_wait_ok [OF this irqs] None pop(2) show ?thesis by (auto split: option.splits)
  qed (use pop in auto)
  then obtain nt s3 where w: "(if nt0 = None then schedule_wait irqs s2 else Some (nt0, s2)) = Some (nt, s3)"
      "case nt of
         None \<Rightarrow> (\<exists>Q'. sched_ok s3 Q') \<and> scheduler_lock_counter s3 = scheduler_lock_counter s
       | Some t \<Rightarrow> (\<exists>Q'. sched_but t s3 Q') \<and> scheduler_lock_counter s3 = scheduler_lock_counter s + 1 \<and>
           (state (threads s3 t) = THREAD_READY \<or> state (threads s3 t) = THREAD_RUNNING \<and> t = current_thread s3)"
    by blast
  show ?thesis
  proof (cases nt)
    case None
    then show ?thesis using False pop(1) w by (auto simp: schedule_def)
  next
    case (Some t)
    then obtain Q3 where b: "sched_but t s3 Q3" "scheduler_lock_counter s3 = scheduler_lock_counter s + 1"
      "state (threads s3 t) = THREAD_READY \<or> state (threads s3 t) = THREAD_RUNNING \<and> t = current_thread s3"
      using w(2) by auto
    obtain s4 Q4 where s4: "switch_thread t s3 = Some s4" "sched_ok s4 Q4"
      "scheduler_lock_counter s4 = scheduler_lock_counter s + 1"
    proof (cases "state (threads s3 t) = THREAD_RUNNING")
      case True
      with b(3) have "current_thread s3 = t" by auto
      from switch_thread_running [OF b(1) True this] b(2) that show ?thesis by auto
    next
      case False
      from switch_thread_ok [OF b(1) False] b(2) that show ?thesis unfolding switched_def by metis
    qed
    obtain s5 Q5 where "(if pending (threads s4 (current_thread s4)) \<noteq> 0 \<and>
           thread_flags (threads s4 (current_thread s4)) AND TIF_SIGNAL_MANUAL = 0
        then hs s4 else Some s4) = Some s5" "sched_ok s5 Q5" "scheduler_lock_counter s5 = scheduler_lock_counter s + 1"
      using keeps_okD [OF hs s4(2)] s4(2,3) by (metis (no_types, lifting))
    then show ?thesis
      using False pop(1) w(1) Some s4(1) by (auto simp: schedule_def Let_def)
  qed
qed

subsection \<open>The timer handler\<close>

lemma scale_node_simps [simp]:
  "links (scale_node k n ps) = links ps" "prio (scale_node k n ps) = (prio ps)(n := prio ps n - k)"
  by (simp_all add: scale_node_def)

lemma fold_scale_node:
  "distinct ns \<Longrightarrow> links (fold (scale_node k) ns ps) = links ps \<and>
     prio (fold (scale_node k) ns ps) = (\<lambda>x. if x \<in> set ns then prio ps x - k else prio ps x)"
proof (induction ns arbitrary: ps)
  case (Cons n ns)
  then have IH: "links (fold (scale_node k) ns (scale_node k n ps)) = links (scale_node k n ps)"
    "prio (fold (scale_node k) ns (scale_node k n ps)) =
       (\<lambda>x. if x \<in> set ns then prio (scale_node k n ps) x - k else prio (scale_node k n ps) x)"
    by auto
  show ?case using Cons.prems by (auto simp: IH fun_eq_iff)
qed simp

text \<open>Priorities of a whole list may move by one number, and those of nodes on no list in any way.\<close>

lemma queues_reprio:
  assumes q: "queues ps Q" and l: "links ps' = links ps"
    and app: "\<And>x. x \<in> set (Q ha) \<Longrightarrow> prio ps' x = prio ps x + c"
    and other: "\<And>h x. h \<noteq> ha \<Longrightarrow> x \<in> set (Q h) \<Longrightarrow> prio ps' x = prio ps x"
  shows "queues ps' Q"
proof (rule queuesI)
  fix h show "plist_rep ps' h (Q h)"
  proof (cases "h = ha")
    case True
    then show ?thesis using plist_rep_shift [OF queues_rep [OF q] l] app by blast
  next
    case False
    show ?thesis by (rule plist_rep_frame [OF queues_rep [OF q]]) (use l other False in auto)
  qed
next
  fix n assume "\<And>h. n \<notin> set (Q h)"
  from detached_frame [OF queues_detached [OF q this]] l show "detached ps' n" by simp
qed (rule queues_member [OF q])

lemma rescale_app_list_ok:
  assumes q: "queues ps Q" and app: "Q app_ready_list = f # fs" and ct: "\<And>h. ct \<notin> set (Q h)"
  shows "\<exists>ps'. rescale_app_list ct ps = Some ps' \<and> queues ps' Q \<and> links ps' = links ps \<and>
           prio ps' = (\<lambda>x. if x = ct then prio ps (last (f # fs)) - prio ps f + 1
                          else if x \<in> set (f # fs) then prio ps x - prio ps f else prio ps x)"
proof -
  have rep: "plist_rep ps app_ready_list (f # fs)" using queues_rep [OF q, of app_ready_list] app by simp
  have dist: "distinct (f # fs)" by (rule plist_rep_distinct [OF rep])
  let ?ps1 = "fold (scale_node (prio ps f)) (f # fs) ps"
  let ?ps' = "?ps1\<lparr>prio := (prio ?ps1)(ct := prio ?ps1 (last (f # fs)) + 1)\<rparr>"
  have ps1: "links ?ps1 = links ps"
    "prio ?ps1 = (\<lambda>x. if x \<in> set (f # fs) then prio ps x - prio ps f else prio ps x)"
    using fold_scale_node [OF dist, of "prio ps f" ps] by (simp_all only: conj_commute)
  have walk: "plist_for_each app_ready_list (scale_node (prio ps f)) (lnext (links ps (HeadList app_ready_list))) ps =
      Some ?ps1"
    by (rule plist_for_each_rep [OF rep]) (simp add: scale_node_def)
  have "rescale_app_list ct ps = Some ?ps'"
    using plist_first_rep [OF rep] plist_last_rep [OF rep] walk by (simp add: rescale_app_list_def Let_def)
  moreover have pr: "prio ?ps' = (\<lambda>x. if x = ct then prio ps (last (f # fs)) - prio ps f + 1
                          else if x \<in> set (f # fs) then prio ps x - prio ps f else prio ps x)"
    using ps1(2) last_in_set [of "f # fs"] by auto
  moreover have "queues ?ps' Q"
  proof (rule queues_reprio [OF q, where ha = app_ready_list and c = "- prio ps f"])
    fix h x assume "h \<noteq> app_ready_list" "x \<in> set (Q h)"
    then show "prio ?ps' x = prio ps x"
      using ct [of h] queues_member [OF q, of x h app_ready_list] app unfolding pr by auto
  next
    fix x assume "x \<in> set (Q app_ready_list)"
    then show "prio ?ps' x = prio ps x + - prio ps f"
      using ct [of app_ready_list] app unfolding pr by auto
  qed (use ps1(1) in simp)
  ultimately show ?thesis using ps1(1) by (intro exI [of _ ?ps']) simp
qed

text \<open>The current thread is on no list while it runs.\<close>

lemma running_off_lists: "sched_ok s Q \<Longrightarrow> state (threads s t) = THREAD_RUNNING \<Longrightarrow> t \<notin> set (Q h)"
  by (auto simp: sched_ok_def list_of_def get_list_from_thread_def)

text \<open>A tick before the slice is used up only counts.\<close>

lemma irq_schedule_handler_count:
  assumes "policy (threads s ct) = THREAD_APP_POLICY" and "state (threads s ct) = THREAD_RUNNING"
    and "ct = current_thread s" and "\<not> SLICE_THRESHOLD \<le> time_slice (threads s ct) + 1"
  shows "irq_schedule_handler hs irqs s =
    Some (unlock_scheduler (upd_thread ct (\<lambda>t. t\<lparr>time_slice := time_slice t + 1\<rparr>) (lock_scheduler s)))"
  using assms by (simp add: irq_schedule_handler_def Let_def)

lemma irq_schedule_handler_off:
  assumes "policy (threads s (current_thread s)) \<noteq> THREAD_APP_POLICY \<or>
      state (threads s (current_thread s)) \<noteq> THREAD_RUNNING"
  shows "irq_schedule_handler hs irqs s = Some s"
  using assms by (auto simp: irq_schedule_handler_def)

lemma irq_schedule_handler_unfold:
  assumes ct: "ct = current_thread s" and "policy (threads s ct) = THREAD_APP_POLICY"
    and "state (threads s ct) = THREAD_RUNNING"
    and s1: "s1 = (lock_scheduler s)\<lparr>threads := (threads s)(ct := (threads s ct)\<lparr>time_slice := time_slice (threads s ct) + 1\<rparr>)\<rparr>"
    and "SLICE_THRESHOLD \<le> time_slice (threads s ct) + 1"
    and "get_next_thread_to_run s1 = Some (Some nt)"
    and "(if policy (threads s1 nt) = THREAD_APP_POLICY
          then map_option (\<lambda>ps. s1\<lparr>plists := ps\<rparr>) (rescale_app_list ct (plists s1)) else Some s1) = Some s2"
    and "update_thread ct THREAD_READY s2 = Some s3"
  shows "irq_schedule_handler hs irqs s =
      (if scheduler_lock_counter s3 = 1 then schedule hs irqs (unlock_scheduler s3) else Some (unlock_scheduler s3))"
proof -
  have "time_slice (threads s1 ct) = time_slice (threads s ct) + 1"
    using s1 by simp
  with assms(2,3,5-) show ?thesis
    by (simp add: irq_schedule_handler_def Let_def s1 [symmetric] ct [symmetric])
qed

text \<open>When the slice is used up and another thread is ready, the current thread becomes ready: behind
  all application threads if the next thread is one of them.\<close>

lemma irq_schedule_handler_preempt:
  assumes ok: "sched_ok s Q" and ct: "ct = current_thread s"
    and app: "policy (threads s ct) = THREAD_APP_POLICY" and run: "state (threads s ct) = THREAD_RUNNING"
    and slice: "SLICE_THRESHOLD \<le> time_slice (threads s ct) + 1" and nr: "next_ready Q = Some nt"
  shows "\<exists>s2 Q2. irq_schedule_handler hs irqs s =
             (if scheduler_lock_counter s = 0 then schedule hs irqs s2 else Some s2) \<and>
           sched_ok s2 Q2 \<and> current_thread s2 = ct \<and> scheduler_lock_counter s2 = scheduler_lock_counter s \<and>
           threads s2 = (threads s)(ct := (threads s ct)\<lparr>time_slice := time_slice (threads s ct) + 1, state := THREAD_READY\<rparr>) \<and>
           (\<forall>h. h \<noteq> app_ready_list \<longrightarrow> Q2 h = Q h) \<and>
           (policy (threads s nt) = THREAD_APP_POLICY \<longrightarrow> Q2 app_ready_list = Q app_ready_list @ [ct])"
proof -
  let ?s1 = "(lock_scheduler s)\<lparr>threads := (threads s)(ct := (threads s ct)\<lparr>time_slice := time_slice (threads s ct) + 1\<rparr>)\<rparr>"
  have off: "ct \<notin> set (Q h)" for h by (rule running_off_lists [OF ok run])
  have ok1: "sched_ok ?s1 Q"
    using ok by (subst sched_ok_cong [where s = s]) (auto simp: list_of_def)
  have get: "get_next_thread_to_run ?s1 = Some (Some nt)"
    using get_next_thread_to_run_eq [OF sched_ok_queues [OF ok1]] nr by simp
  have nne: "nt \<noteq> ct" using next_ready_mem [OF nr] off by auto
  have l: "get_list_from_thread THREAD_READY THREAD_APP_POLICY = Some app_ready_list"
    by (simp add: get_list_from_thread_def)
  have "\<exists>ps. (if policy (threads ?s1 nt) = THREAD_APP_POLICY
              then map_option (\<lambda>ps. ?s1\<lparr>plists := ps\<rparr>) (rescale_app_list ct (plists ?s1)) else Some ?s1) =
            Some (?s1\<lparr>plists := ps\<rparr>) \<and> queues ps Q \<and>
          (policy (threads s nt) = THREAD_APP_POLICY \<longrightarrow>
             (\<forall>x \<in> set (Q app_ready_list). prio ps x \<le> prio ps ct))"
  proof (cases "policy (threads s nt) = THREAD_APP_POLICY")
    case False
    then show ?thesis using nne sched_ok_queues [OF ok] by (intro exI [of _ "plists s"]) simp
  next
    case True
    have "list_of s nt = Some app_ready_list"
      using True next_ready_state [OF ok nr] by (simp add: list_of_def l)
    then have "nt \<in> set (Q app_ready_list)" using ok by (simp add: sched_ok_def)
    then obtain f fs where f: "Q app_ready_list = f # fs" by (cases "Q app_ready_list") auto
    obtain ps where ps: "rescale_app_list ct (plists s) = Some ps" "queues ps Q"
      "prio ps = (\<lambda>x. if x = ct then prio (plists s) (last (f # fs)) - prio (plists s) f + 1
         else if x \<in> set (f # fs) then prio (plists s) x - prio (plists s) f else prio (plists s) x)"
      using rescale_app_list_ok [OF sched_ok_queues [OF ok] f off] by blast
    have srt: "sorted (map (prio (plists s)) (f # fs))"
      using pq.sorted_law [OF sched_ok_queues [OF ok], of app_ready_list] f by simp
    have "prio (plists s) x \<le> prio (plists s) (last (f # fs))" if "x \<in> set (f # fs)" for x
      using srt that by (rule sorted_last_le)
    then have "\<forall>x \<in> set (Q app_ready_list). prio ps x \<le> prio ps ct"
      using off [of app_ready_list] unfolding f ps(3) by fastforce
    then show ?thesis using True nne ps(1,2) by auto
  qed
  then obtain ps where res: "(if policy (threads ?s1 nt) = THREAD_APP_POLICY
              then map_option (\<lambda>ps. ?s1\<lparr>plists := ps\<rparr>) (rescale_app_list ct (plists ?s1)) else Some ?s1) =
            Some (?s1\<lparr>plists := ps\<rparr>)" "queues ps Q"
      "policy (threads s nt) = THREAD_APP_POLICY \<Longrightarrow> \<forall>x \<in> set (Q app_ready_list). prio ps x \<le> prio ps ct"
    by blast
  let ?s2 = "?s1\<lparr>plists := ps\<rparr>" and ?Q2 = "requeue (prio ps) ct (Some app_ready_list) Q"
  have ok2: "sched_ok ?s2 Q" using ok1 res(2) by (simp add: sched_ok_def list_of_def)
  have ne: "state (threads ?s2 ct) \<noteq> THREAD_READY" using run by simp
  obtain s3 where s3: "update_thread ct THREAD_READY ?s2 = Some s3" "sched_ok s3 ?Q2"
      "threads s3 = (threads ?s2)(ct := (threads ?s2 ct)\<lparr>state := THREAD_READY\<rparr>)"
      "current_thread s3 = current_thread s" "scheduler_lock_counter s3 = scheduler_lock_counter s + 1"
    using update_thread_ok [OF sched_ok_but [OF ok2] ne] app l by auto
  have "irq_schedule_handler hs irqs s =
      (if scheduler_lock_counter s = 0 then schedule hs irqs (unlock_scheduler s3) else Some (unlock_scheduler s3))"
    using irq_schedule_handler_unfold [OF ct app run refl slice get res(1) s3(1)] s3(5) by simp
  moreover have "?Q2 h = Q h" if "h \<noteq> app_ready_list" for h
    by (rule requeue_other) (use off that in auto)
  moreover have "?Q2 app_ready_list = Q app_ready_list @ [ct]" if "policy (threads s nt) = THREAD_APP_POLICY"
    using res(3) [OF that] off [of app_ready_list]
    by (simp add: requeue_def prio_insert_def remove1_idem takeWhile_eq_all_conv [THEN iffD2] dropWhile_eq_Nil_conv [THEN iffD2])
  ultimately show ?thesis
    using s3(2-5) ct by (intro exI [of _ "unlock_scheduler s3"] exI [of _ ?Q2]) auto
qed

lemma keeps_ok_irq_schedule_handler:
  assumes irqs: "\<forall>irq \<in> set irqs. keeps_ok irq" and hs: "keeps_ok hs"
  shows "keeps_ok (irq_schedule_handler hs irqs)"
  unfolding keeps_ok_def
proof (intro allI impI)
  fix s Q assume ok: "sched_ok s Q"
  let ?ct = "current_thread s"
  show "\<exists>s' Q'. irq_schedule_handler hs irqs s = Some s' \<and> sched_ok s' Q' \<and>
      scheduler_lock_counter s' = scheduler_lock_counter s"
  proof (cases "policy (threads s ?ct) = THREAD_APP_POLICY \<and> state (threads s ?ct) = THREAD_RUNNING")
    case False
    then show ?thesis using ok irq_schedule_handler_off [of s hs irqs] by auto
  next
    case on: True
    let ?s1 = "upd_thread ?ct (\<lambda>t. t\<lparr>time_slice := time_slice t + 1\<rparr>) (lock_scheduler s)"
    have ok1: "sched_ok ?s1 Q"
      using ok by (subst sched_ok_cong [where s = s]) (auto simp: list_of_def)
    show ?thesis
    proof (cases "SLICE_THRESHOLD \<le> time_slice (threads s ?ct) + 1")
      case False
      then show ?thesis using irq_schedule_handler_count [of s ?ct hs irqs] on ok1 by auto
    next
      case slice: True
      show ?thesis
      proof (cases "next_ready Q")
        case None
        then have "get_next_thread_to_run ?s1 = Some None"
          using get_next_thread_to_run_eq [OF sched_ok_queues [OF ok1]] by simp
        then have "irq_schedule_handler hs irqs s = Some (unlock_scheduler ?s1)"
          using on slice by (simp add: irq_schedule_handler_def Let_def)
        then show ?thesis using ok1 by (intro exI [of _ "unlock_scheduler ?s1"] exI [of _ Q]) simp
      next
        case (Some nt)
        from irq_schedule_handler_preempt [OF ok refl _ _ slice Some] on
        obtain s2 Q2 where s2: "irq_schedule_handler hs irqs s =
             (if scheduler_lock_counter s = 0 then schedule hs irqs s2 else Some s2)"
           "sched_ok s2 Q2" "scheduler_lock_counter s2 = scheduler_lock_counter s" by blast
        show ?thesis using schedule_total [OF s2(2) irqs hs] s2 by auto
      qed
    qed
  qed
qed

subsection \<open>Round robin\<close>

fun ticks :: "(sched \<Rightarrow> sched option) \<Rightarrow> nat \<Rightarrow> sched \<Rightarrow> sched option" where
  "ticks hs 0 s = Some s"
| "ticks hs (Suc n) s = Option.bind (irq_schedule_handler hs [] s) (ticks hs n)"

lemma ticks_add: "ticks hs (m + n) s = Option.bind (ticks hs m s) (ticks hs n)"
proof (induction m arbitrary: s)
  case (Suc m)
  then show ?case by (cases "irq_schedule_handler hs [] s") simp_all
qed simp

text \<open>Only application threads are ready, one of them runs, and no signal is pending.\<close>

definition app_only :: "sched \<Rightarrow> (sched_list \<Rightarrow> nat list) \<Rightarrow> bool" where
  "app_only s Q \<longleftrightarrow>
     sched_ok s Q \<and> Q kernel_ready_list = [] \<and> Q system_ready_list = [] \<and>
     policy (threads s (current_thread s)) = THREAD_APP_POLICY \<and>
     state (threads s (current_thread s)) = THREAD_RUNNING \<and>
     scheduler_lock_counter s = 0 \<and> (\<forall>t. pending (threads s t) = 0)"

lemma tick_count:
  assumes st: "app_only s Q" and slice: "unat (time_slice (threads s (current_thread s))) < 7"
  shows "\<exists>s'. irq_schedule_handler hs [] s = Some s' \<and> app_only s' Q \<and> current_thread s' = current_thread s \<and>
           unat (time_slice (threads s' (current_thread s))) = Suc (unat (time_slice (threads s (current_thread s))))"
proof -
  let ?ct = "current_thread s" and ?x = "time_slice (threads s (current_thread s))"
  have inc: "unat (?x + 1) = Suc (unat ?x)"
    using slice by (subst unat_plus_if') simp
  then have "\<not> SLICE_THRESHOLD \<le> ?x + 1"
    using slice by (simp add: SLICE_THRESHOLD_def word_le_nat_alt)
  then have "irq_schedule_handler hs [] s =
      Some (unlock_scheduler (upd_thread ?ct (\<lambda>t. t\<lparr>time_slice := time_slice t + 1\<rparr>) (lock_scheduler s)))" (is "_ = Some ?s'")
    using st by (intro irq_schedule_handler_count) (auto simp: app_only_def)
  moreover have "sched_ok ?s' Q"
    using st by (subst sched_ok_cong [where s = s]) (auto simp: list_of_def app_only_def)
  ultimately show ?thesis using st inc by (auto simp: app_only_def)
qed

lemma tick_rotate:
  assumes st: "app_only s Q" and slice: "unat (time_slice (threads s (current_thread s))) = 7"
    and f: "Q app_ready_list = f # fs"
  shows "\<exists>s'. irq_schedule_handler hs [] s = Some s' \<and> app_only s' (Q(app_ready_list := fs @ [current_thread s])) \<and>
           current_thread s' = f \<and> time_slice (threads s' f) = 0"
proof -
  let ?ct = "current_thread s" and ?Q = "Q(app_ready_list := fs @ [current_thread s])"
  have ok: "sched_ok s Q" using st by (simp add: app_only_def)
  have sl: "SLICE_THRESHOLD \<le> time_slice (threads s ?ct) + 1"
    using slice by (simp add: SLICE_THRESHOLD_def word_le_nat_alt unat_plus_if')
  have nr: "next_ready Q = Some f" using st f by (simp add: next_ready_def app_only_def)
  have ap: "policy (threads s ?ct) = THREAD_APP_POLICY" and ru: "state (threads s ?ct) = THREAD_RUNNING"
    and lc: "scheduler_lock_counter s = 0"
    using st by (simp_all add: app_only_def)
  obtain s2 Q2 where s2: "irq_schedule_handler hs [] s = schedule hs [] s2" "sched_ok s2 Q2"
      "current_thread s2 = ?ct" "scheduler_lock_counter s2 = 0"
      "threads s2 = (threads s)(?ct := (threads s ?ct)\<lparr>time_slice := time_slice (threads s ?ct) + 1, state := THREAD_READY\<rparr>)"
      "\<forall>h. h \<noteq> app_ready_list \<longrightarrow> Q2 h = Q h"
      "policy (threads s f) = THREAD_APP_POLICY \<longrightarrow> Q2 app_ready_list = Q app_ready_list @ [?ct]"
    using irq_schedule_handler_preempt [OF ok refl ap ru sl nr, of hs "[]"] unfolding lc by auto
  have "f \<in> set (Q app_ready_list)" using f by simp
  then have "list_of s f = Some app_ready_list" using ok by (simp add: sched_ok_def)
  then have pf: "policy (threads s f) = THREAD_APP_POLICY"
    by (cases "policy (threads s f)") (auto simp: list_of_def get_list_from_thread_def split: if_splits)
  have fne: "f \<noteq> ?ct" using running_off_lists [OF ok, of ?ct app_ready_list] st f by (auto simp: app_only_def)
  have Q2: "Q2 = Q(app_ready_list := f # fs @ [?ct])"
    using s2(6,7) pf f by (auto simp: fun_eq_iff)
  have cur: "state (threads s2 (current_thread s2)) \<noteq> THREAD_RUNNING" using s2(3,5) by simp
  have nr2: "next_ready Q2 = Some f" using st Q2 by (simp add: next_ready_def app_only_def)
  obtain s4 where s4: "schedule hs [] s2 = schedule_tail hs s4" "sched_ok s4 (\<lambda>h. remove1 f (Q2 h))"
      "switched f (lock_scheduler s2) s4"
    using schedule_ready [OF s2(2) cur nr2] by blast
  have "distinct (f # fs @ [?ct])"
    using pq.distinct_law [OF sched_ok_queues [OF s2(2)], of app_ready_list] Q2 by simp
  have "remove1 f (Q2 h) = ?Q h" for h
  proof (cases "h = app_ready_list")
    case False
    then have "f \<notin> set (Q h)" using pq.once [OF sched_ok_queues [OF ok], of f h app_ready_list] f by auto
    then show ?thesis using Q2 False by (simp add: remove1_idem)
  qed (simp add: Q2)
  then have "(\<lambda>h. remove1 f (Q2 h)) = ?Q" by (rule ext)
  then have ok4: "sched_ok s4 ?Q" using s4(2) by (simp only:)
  have th4: "threads s4 = run_thread f (threads s2)" "current_thread s4 = f" "scheduler_lock_counter s4 = 1"
    using s4(3) s2(4) by (simp_all add: switched_def)
  have pend: "pending (threads s4 t) = 0" for t
    using st s2(5) by (simp add: th4 run_thread_def app_only_def)
  then have "schedule hs [] s2 = Some (unlock_scheduler s4)"
    using s4(1) by (simp add: schedule_tail_def)
  moreover have "app_only (unlock_scheduler s4) ?Q"
    using ok4 st pend fne pf s2(5) by (simp add: app_only_def th4 run_thread_def)
  ultimately show ?thesis
    using s2(1) by (intro exI [of _ "unlock_scheduler s4"]) (simp add: th4 run_thread_def)
qed

lemma ticks_slice:
  assumes "app_only s Q" and "unat (time_slice (threads s (current_thread s))) + n \<le> 7"
  shows "\<exists>s'. ticks hs n s = Some s' \<and> app_only s' Q \<and> current_thread s' = current_thread s \<and>
           unat (time_slice (threads s' (current_thread s))) = unat (time_slice (threads s (current_thread s))) + n"
  using assms
proof (induction n arbitrary: s)
  case (Suc n)
  then obtain s1 where s1: "irq_schedule_handler hs [] s = Some s1" "app_only s1 Q" "current_thread s1 = current_thread s"
      "unat (time_slice (threads s1 (current_thread s))) = Suc (unat (time_slice (threads s (current_thread s))))"
    using tick_count [OF Suc.prems(1), of hs] by auto
  from Suc.IH [OF s1(2)] s1 Suc.prems(2) show ?case by auto
qed simp

lemma ticks_round:
  assumes st: "app_only s Q" and "time_slice (threads s (current_thread s)) = 0" and f: "Q app_ready_list = f # fs"
  shows "\<exists>s'. ticks hs 8 s = Some s' \<and> app_only s' (Q(app_ready_list := fs @ [current_thread s])) \<and>
           current_thread s' = f \<and> time_slice (threads s' f) = 0"
proof -
  obtain s1 where s1: "ticks hs 7 s = Some s1" "app_only s1 Q" "current_thread s1 = current_thread s"
      "unat (time_slice (threads s1 (current_thread s1))) = 7"
    using ticks_slice [OF st, of 7 hs] assms(2) by auto
  have "ticks hs 8 s = irq_schedule_handler hs [] s1"
    using ticks_add [of hs 7 "Suc 0" s] s1(1) by (cases "irq_schedule_handler hs [] s1") simp_all
  with tick_rotate [OF s1(2,4) f, of hs] s1(3) show ?thesis by simp
qed

section \<open>The properties\<close>

text \<open>Four threads: 0 runs, 1 and 2 are ready application threads, 3 is a kernel thread that waits for
  nothing yet.\<close>

definition sched_example :: sched where
  "sched_example =
     \<lparr>plists = the (plist_add 2 app_ready_list (the (plist_add 1 app_ready_list (plist_boot (\<lambda>_. 5))))),
      threads = (\<lambda>t. \<lparr>thread_flags = 0,
        state = (if t = 0 then THREAD_RUNNING else if t \<in> {1, 2} then THREAD_READY else THREAD_NEW),
        policy = (if t = 3 then THREAD_KERNEL_POLICY else THREAD_APP_POLICY), thread_parent = t, kernel_stack = 0,
        pending = 0, blocked = 0, time_slice = 0\<rparr>),
      current_thread = 0, current_process = 0, scheduler_lock_counter = 0, interrupts = True,
      proc_cr3 = (\<lambda>_. 0), tss_esp0 = 0, cr3 = 0\<rparr>"

lemma sched_example_ok: "sched_ok sched_example ((\<lambda>_. [])(app_ready_list := [1, 2]))"
proof -
  let ?ps = "plist_boot (\<lambda>_. 5) :: (sched_list, nat) pstore"
  obtain s1 where s1: "plist_add 1 app_ready_list ?ps = Some s1" "queues s1 ((\<lambda>_. [])(app_ready_list := [1]))"
      "prio s1 = (\<lambda>_. 5)"
    using queues_add [OF queues_boot [of "\<lambda>_ :: nat. 5"], of 1 app_ready_list]
    by (auto simp: prio_insert_def plist_boot_def)
  obtain s2 where s2: "plist_add 2 app_ready_list s1 = Some s2"
      "queues s2 ((\<lambda>_. [])(app_ready_list := [1, 2]))"
    using queues_add [OF s1(2), of 2 app_ready_list] s1(3) by (auto simp: prio_insert_def)
  have "plists sched_example = s2" using s1(1) s2(1) by (simp add: sched_example_def)
  then show ?thesis using s2(2)
    by (auto simp: sched_ok_def list_of_def get_list_from_thread_def sched_example_def)
qed

text \<open>C13: \<open>update_thread\<close> keeps every thread on exactly the list its state and policy name. It never
  faults, changes nothing of the threads but the state of the one, leaves the lock counter as it was,
  and takes the thread from its old list and puts it on the new one behind the threads of no larger
  priority value, the other threads of every list in their order. It returns with interrupts enabled
  exactly when the scheduler lock was free.\<close>

theorem update_thread_correct:
  assumes "sched_ok s Q" and "state (threads s t) \<noteq> st"
  shows "\<exists>s' Q'. update_thread t st s = Some s' \<and> sched_ok s' Q' \<and>
           threads s' = (threads s)(t := (threads s t)\<lparr>state := st\<rparr>) \<and>
           scheduler_lock_counter s' = scheduler_lock_counter s \<and>
           interrupts s' = (scheduler_lock_counter s = 0) \<and>
           (\<forall>h. Q' h = (if get_list_from_thread st (policy (threads s t)) = Some h
                        then prio_insert (prio (plists s)) t (remove1 t (Q h)) else remove1 t (Q h)))"
  using update_thread_ok [OF sched_ok_but [OF assms(1)] assms(2)] unfolding requeue_def by blast

theorem update_thread_correct_witness:
  "\<exists>s'. update_thread 3 THREAD_READY sched_example = Some s' \<and> state (threads s' 3) = THREAD_READY \<and>
     plist_head_empty kernel_ready_list (plists s') = False"
proof -
  have "state (threads sched_example 3) \<noteq> THREAD_READY" by (simp add: sched_example_def)
  from update_thread_correct [OF sched_example_ok this] obtain s' Q' where
    s': "update_thread 3 THREAD_READY sched_example = Some s'" "sched_ok s' Q'"
      "state (threads s' 3) = THREAD_READY" "Q' kernel_ready_list = [3]"
    by (auto simp: sched_example_def get_list_from_thread_def prio_insert_def)
  then show ?thesis using queues_empty [OF sched_ok_queues [OF s'(2)], of kernel_ready_list] by auto
qed

text \<open>C24: When a thread is ready, \<open>schedule\<close>, called by a thread that is not running any more, switches
  to a ready thread of the first policy (kernel before system before application) and, in it, of the
  smallest priority value. The thread then runs with an empty time slice, has left its ready list, and
  the lists of all other threads are as before; what remains of the call is the handling of its
  pending signals and the release of the lock.\<close>

theorem schedule_picks_first:
  assumes "sched_ok s Q" and "state (threads s (current_thread s)) \<noteq> THREAD_RUNNING"
    and "state (threads s y) = THREAD_READY"
  shows "\<exists>t s4. schedule handle_signal irqs s = schedule_tail handle_signal s4 \<and>
           state (threads s t) = THREAD_READY \<and>
           (\<forall>x. state (threads s x) = THREAD_READY \<longrightarrow>
              policy_rank (policy (threads s t)) < policy_rank (policy (threads s x)) \<or>
              policy (threads s t) = policy (threads s x) \<and> prio (plists s) t \<le> prio (plists s) x) \<and>
           current_thread s4 = t \<and>
           threads s4 = (threads s)(t := (threads s t)\<lparr>time_slice := 0, state := THREAD_RUNNING\<rparr>) \<and>
           sched_ok s4 (\<lambda>h. remove1 t (Q h)) \<and> scheduler_lock_counter s4 = scheduler_lock_counter s + 1"
proof -
  obtain t where t: "next_ready Q = Some t" using next_ready_minimal [OF assms(1,3)] by blast
  obtain s4 where s4: "schedule handle_signal irqs s = schedule_tail handle_signal s4"
      "sched_ok s4 (\<lambda>h. remove1 t (Q h))" "switched t (lock_scheduler s) s4"
    using schedule_ready [OF assms(1,2) t] by blast
  have "policy_rank (policy (threads s t)) < policy_rank (policy (threads s x)) \<or>
      policy (threads s t) = policy (threads s x) \<and> prio (plists s) t \<le> prio (plists s) x"
    if "state (threads s x) = THREAD_READY" for x
    using next_ready_minimal [OF assms(1) that] t by auto
  then show ?thesis
    using s4 next_ready_state [OF assms(1) t]
    by (intro exI [of _ t] exI [of _ s4]) (auto simp: switched_def run_thread_def)
qed

theorem schedule_picks_first_witness:
  "\<exists>t s4. schedule Some [] (sched_example\<lparr>current_thread := 3\<rparr>) = schedule_tail Some s4 \<and>
     policy (threads sched_example t) \<noteq> THREAD_KERNEL_POLICY \<and> current_thread s4 = t"
proof -
  let ?s = "sched_example\<lparr>current_thread := 3\<rparr>"
  have "sched_ok ?s ((\<lambda>_. [])(app_ready_list := [1, 2]))"
    using sched_example_ok by (subst sched_ok_cong [where s = sched_example]) (simp_all add: list_of_def)
  from schedule_picks_first [OF this, of 1 Some "[]"] obtain t s4 where
    "schedule Some [] ?s = schedule_tail Some s4" "state (threads sched_example t) = THREAD_READY" "current_thread s4 = t"
    by (auto simp: sched_example_def)
  moreover from this(2) have "policy (threads sched_example t) \<noteq> THREAD_KERNEL_POLICY"
    by (auto simp: sched_example_def split: if_splits)
  ultimately show ?thesis by blast
qed

text \<open>C25: \<open>schedule\<close> never faults and keeps the invariant and the lock counter, for every number of
  interrupts taken while it waits for a thread and every signal handler, as long as these keep the
  invariant and the lock counter themselves; \<open>update_thread\<close>, and so \<open>poll_wakeup\<close>, is one that
  does.\<close>

theorem schedule_keeps_invariant:
  assumes "sched_ok s Q" and "\<forall>irq \<in> set irqs. keeps_ok irq" and "keeps_ok handle_signal"
  shows "(\<exists>s' Q'. schedule handle_signal irqs s = Some s' \<and> sched_ok s' Q' \<and>
            scheduler_lock_counter s' = scheduler_lock_counter s) \<and>
         keeps_ok (poll_wakeup t) \<and> keeps_ok (irq_schedule_handler handle_signal irqs)"
  using schedule_total [OF assms] keeps_ok_irq_schedule_handler [OF assms(2,3)] keeps_ok_update_thread [of t THREAD_READY]
  by (simp add: poll_wakeup_def [abs_def])

theorem schedule_keeps_invariant_witness:
  "\<exists>s' Q'. schedule Some [poll_wakeup 3] sched_example = Some s' \<and> sched_ok s' Q'"
proof -
  have "\<forall>irq \<in> set [poll_wakeup 3]. keeps_ok irq"
    using keeps_ok_update_thread [of 3 THREAD_READY] by (simp add: poll_wakeup_def [abs_def])
  from schedule_keeps_invariant [OF sched_example_ok this keeps_ok_Some] show ?thesis by blast
qed

text \<open>C30: Round robin. With application threads only and no pending signals, every eight timer
  interrupts hand the processor on: after \<open>8 * k\<close> of them the running thread and the ready list
  behind it are the original sequence rotated by \<open>k\<close>, so every thread gets its slice before any
  thread gets a second one.\<close>

theorem round_robin:
  assumes "app_only s Q" and "time_slice (threads s (current_thread s)) = 0" and "Q app_ready_list \<noteq> []"
  shows "\<exists>s' Q'. ticks handle_signal (8 * k) s = Some s' \<and> app_only s' Q' \<and>
           current_thread s' # Q' app_ready_list = rotate k (current_thread s # Q app_ready_list)"
proof -
  have "\<exists>s' Q'. ticks handle_signal (8 * k) s = Some s' \<and> app_only s' Q' \<and>
           current_thread s' # Q' app_ready_list = rotate k (current_thread s # Q app_ready_list) \<and>
           time_slice (threads s' (current_thread s')) = 0 \<and> Q' app_ready_list \<noteq> []"
    using assms
  proof (induction k arbitrary: s Q)
    case (Suc k)
    obtain f fs where f: "Q app_ready_list = f # fs" using Suc.prems(3) by (cases "Q app_ready_list") auto
    obtain s1 where s1: "ticks handle_signal 8 s = Some s1"
        "app_only s1 (Q(app_ready_list := fs @ [current_thread s]))" "current_thread s1 = f"
        "time_slice (threads s1 f) = 0"
      using ticks_round [OF Suc.prems(1,2) f] by blast
    have "ticks handle_signal (8 * Suc k) s = ticks handle_signal (8 * k) s1"
      using ticks_add [of handle_signal 8 "8 * k" s] s1(1) by (simp add: add.commute)
    moreover have "rotate (Suc k) (current_thread s # f # fs) = rotate k (f # fs @ [current_thread s])"
      by (simp add: rotate1_rotate_swap)
    ultimately show ?case using Suc.IH [OF s1(2)] s1(3,4) f by (simp del: rotate_Suc)
  qed auto
  then show ?thesis by blast
qed

theorem round_robin_witness:
  "\<exists>s' Q'. ticks Some (8 * 2) sched_example = Some s' \<and> current_thread s' # Q' app_ready_list = [2, 0, 1] \<and> sched_ok s' Q'"
proof -
  have "app_only sched_example ((\<lambda>_. [])(app_ready_list := [1, 2]))"
    using sched_example_ok by (simp add: app_only_def) (simp add: sched_example_def)
  from round_robin [OF this, of Some 2] show ?thesis
    by (auto simp: sched_example_def app_only_def numeral_2_eq_2)
qed

end
