(* ===== verification/Semaphore.thy ===== *)
theory Semaphore
  imports Sched
begin

text \<open>
  Semaphores and spin locks, \<open>kernel/locking/semaphore.c\<close>, \<open>semaphore.h\<close> and \<open>spinlock.h\<close>, on top
  of the scheduler.

  The wait list of \<open>semaphore_waiter\<close>s is the list of their threads in the order of the list. The
  lemmas show the hand-off of a released semaphore to the first waiter and, for every sequence of
  acquisitions, releases by holders and other scheduler activity that wakes no waiter, that the threads
  whose acquisition has returned are never more than the units.
\<close>

section \<open>The operations\<close>

text \<open>\<open>xchg_8\<close> takes the lock when it was free. When it is held the loop runs as long as it stays held:
  with one processor the call does not return.\<close>

definition spin_lock :: "bool \<Rightarrow> bool option" where
  "spin_lock lock = (if \<not> lock then Some True else None)"

definition spin_unlock :: "bool \<Rightarrow> bool" where
  "spin_unlock lock = False"

definition spin_trylock :: "bool \<Rightarrow> bool \<times> bool" where
  "spin_trylock lock = (lock, True)"

record semaphore =
  sem_lock :: bool
  sem_count :: u32
  sem_capacity :: u32
  sem_wait_list :: "nat list"

definition sema_init :: "u32 \<Rightarrow> semaphore" where
  "sema_init val = \<lparr>sem_lock = False, sem_count = val, sem_capacity = val, sem_wait_list = []\<rparr>"

definition acquire_semaphore ::
    "(sched \<Rightarrow> sched option) \<Rightarrow> (sched \<Rightarrow> sched option) list \<Rightarrow> semaphore \<Rightarrow> sched \<Rightarrow> (semaphore \<times> sched) option" where
  "acquire_semaphore handle_signal irqs sem s =
     do {
       let s1 = s\<lparr>interrupts := False\<rparr>;
       l \<leftarrow> spin_lock (sem_lock sem);
       let sem1 = sem\<lparr>sem_lock := l\<rparr>;
       (if 0 < sem_count sem1 then
          Some (sem1\<lparr>sem_count := sem_count sem1 - 1, sem_lock := spin_unlock l\<rparr>, s1\<lparr>interrupts := True\<rparr>)
        else
          do {
            let sem2 = sem1\<lparr>sem_wait_list := sem_wait_list sem1 @ [current_thread s1]\<rparr>;
            s2 \<leftarrow> update_thread (current_thread s1) THREAD_WAITING s1;
            let sem3 = sem2\<lparr>sem_lock := spin_unlock (sem_lock sem2)\<rparr>;
            s3 \<leftarrow> schedule handle_signal irqs s2;
            Some (sem3, s3)
          })
     }"

definition release_semaphore :: "semaphore \<Rightarrow> sched \<Rightarrow> (semaphore \<times> sched) option" where
  "release_semaphore sem s =
     do {
       let s1 = s\<lparr>interrupts := False\<rparr>;
       l \<leftarrow> spin_lock (sem_lock sem);
       let sem1 = sem\<lparr>sem_lock := l\<rparr>;
       (sem2, s2) \<leftarrow>
         (case sem_wait_list sem1 of
            [] \<Rightarrow> Some (if sem_count sem1 < sem_capacity sem1 then sem1\<lparr>sem_count := sem_count sem1 + 1\<rparr> else sem1, s1)
          | w # ws \<Rightarrow>
              map_option (\<lambda>s2. (sem1\<lparr>sem_wait_list := ws\<rparr>, s2)) (update_thread w THREAD_READY s1));
       Some (sem2\<lparr>sem_lock := spin_unlock (sem_lock sem2)\<rparr>, s2\<lparr>interrupts := True\<rparr>)
     }"

text \<open>How a call that may have to wait ends: with its result, or with its thread waiting and another one running.\<close>

datatype outcome = Ret int | Blocked

section \<open>The single operations\<close>

lemma sched_ok_interrupts [simp]: "sched_ok (s\<lparr>interrupts := b\<rparr>) Q = sched_ok s Q"
  by (rule sched_ok_cong) (simp_all add: list_of_def)

lemma acquire_free:
  "\<not> sem_lock sem \<Longrightarrow> 0 < sem_count sem \<Longrightarrow>
   acquire_semaphore hs irqs sem s = Some (sem\<lparr>sem_lock := False, sem_count := sem_count sem - 1\<rparr>, s\<lparr>interrupts := True\<rparr>)"
  by (simp add: acquire_semaphore_def spin_lock_def spin_unlock_def)

lemma acquire_wait:
  assumes "\<not> sem_lock sem" and "sem_count sem = 0" and "acquire_semaphore hs irqs sem s = Some (sem', s')"
  shows "sem' = sem\<lparr>sem_lock := False, sem_wait_list := sem_wait_list sem @ [current_thread s]\<rparr>"
  using assms by (auto simp: acquire_semaphore_def spin_lock_def spin_unlock_def Let_def bind_eq_Some_conv)

lemma acquire_total:
  assumes "\<not> sem_lock sem" and "sched_ok s Q" and "\<forall>irq \<in> set irqs. keeps_ok irq" and "keeps_ok hs"
  shows "\<exists>sem' s' Q'. acquire_semaphore hs irqs sem s = Some (sem', s') \<and> sched_ok s' Q'"
proof (cases "0 < sem_count sem")
  case True
  then show ?thesis using acquire_free [OF assms(1), of hs irqs s] assms(2) by auto
next
  case False
  have "sched_ok (s\<lparr>interrupts := False\<rparr>) Q" using assms(2) by simp
  from keeps_okD [OF keeps_ok_update_thread this] obtain s2 Q2 where
    s2: "update_thread (current_thread s) THREAD_WAITING (s\<lparr>interrupts := False\<rparr>) = Some s2" "sched_ok s2 Q2"
    by metis
  from schedule_total [OF s2(2) assms(3,4)] s2(1) False assms(1) show ?thesis
    by (auto simp: acquire_semaphore_def spin_lock_def Let_def)
qed

text \<open>A release hands the semaphore to the first waiter, or counts it up to the capacity.\<close>

lemma release_total:
  assumes "\<not> sem_lock sem" and "sched_ok s Q"
  shows "\<exists>s' Q'. release_semaphore sem s =
      Some ((case sem_wait_list sem of
               [] \<Rightarrow> if sem_count sem < sem_capacity sem then sem\<lparr>sem_lock := False, sem_count := sem_count sem + 1\<rparr>
                     else sem\<lparr>sem_lock := False\<rparr>
             | w # ws \<Rightarrow> sem\<lparr>sem_lock := False, sem_wait_list := ws\<rparr>), s') \<and> sched_ok s' Q' \<and>
      (\<forall>w ws. sem_wait_list sem = w # ws \<longrightarrow> state (threads s' w) = THREAD_READY)"
proof (cases "sem_wait_list sem")
  case Nil
  then show ?thesis using assms
    by (intro exI [of _ "s\<lparr>interrupts := True\<rparr>"] exI [of _ Q])
       (simp add: release_semaphore_def spin_lock_def spin_unlock_def)
next
  case (Cons w ws)
  let ?s1 = "s\<lparr>interrupts := False\<rparr>"
  have ok: "sched_ok ?s1 Q" using assms(2) by simp
  have "\<exists>s2 Q2. update_thread w THREAD_READY ?s1 = Some s2 \<and> sched_ok s2 Q2 \<and> state (threads s2 w) = THREAD_READY"
  proof (cases "state (threads ?s1 w) = THREAD_READY")
    case True
    then show ?thesis using ok by (auto simp: update_thread_def)
  next
    case False
    from update_thread_ok [OF sched_ok_but [OF ok] False] show ?thesis by auto
  qed
  then obtain s2 Q2 where "update_thread w THREAD_READY ?s1 = Some s2" "sched_ok s2 Q2" "state (threads s2 w) = THREAD_READY"
    by blast
  then show ?thesis using Cons assms(1)
    by (intro exI [of _ "s2\<lparr>interrupts := True\<rparr>"] exI [of _ Q2])
       (simp add: release_semaphore_def spin_lock_def spin_unlock_def)
qed

section \<open>Threads that sleep\<close>

definition runs :: "sched \<Rightarrow> nat \<Rightarrow> bool" where
  "runs s t \<longleftrightarrow> current_thread s = t \<and> state (threads s t) = THREAD_RUNNING"

definition sleeping :: "nat set \<Rightarrow> sched \<Rightarrow> bool" where
  "sleeping W s \<longleftrightarrow> (\<forall>t \<in> W. state (threads s t) = THREAD_WAITING)"

text \<open>An interrupt, or a signal handler, that wakes none of the threads.\<close>

definition spares :: "nat set \<Rightarrow> (sched \<Rightarrow> sched option) \<Rightarrow> bool" where
  "spares W f \<longleftrightarrow> keeps_ok f \<and> (\<forall>s s'. f s = Some s' \<longrightarrow> sleeping W s \<longrightarrow> sleeping W s')"

lemma spares_keeps_ok: "spares W f \<Longrightarrow> keeps_ok f"
  by (simp add: spares_def)

lemma spares_Some: "spares W Some"
  by (simp add: spares_def keeps_ok_Some)

lemma sleeping_lock [simp]: "sleeping W (lock_scheduler s) = sleeping W s" "sleeping W (unlock_scheduler s) = sleeping W s"
  by (simp_all add: sleeping_def)

lemma schedule_wait_sleeping:
  assumes "sched_ok s Q" and "\<forall>irq \<in> set irqs. spares W irq" and "sleeping W s" and "schedule_wait irqs s = Some (nt, s1)"
  shows "sleeping W s1"
  using assms
proof (induction irqs arbitrary: s Q)
  case (Cons irq irqs)
  have i: "keeps_ok irq" "sched_ok (unlock_scheduler s) Q" using Cons.prems by (simp_all add: spares_def)
  from keeps_okD [OF i] obtain s2 Q2 where s2: "irq (unlock_scheduler s) = Some s2" "sched_ok s2 Q2" by blast
  then have w2: "sleeping W s2" using Cons.prems(2,3) by (auto simp: spares_def)
  have "sched_ok (lock_scheduler s2) Q2" using s2(2) by simp
  from pop_ok [OF this] obtain nt' s3 where s3: "pop_next_thread_to_run (lock_scheduler s2) = Some (nt', s3)"
      "threads s3 = threads s2" "nt' = None \<longrightarrow> sched_ok s3 Q2"
    by (fastforce split: option.splits)
  then have w3: "sleeping W s3" using w2 by (simp add: sleeping_def)
  show ?case
  proof (cases "nt' = None \<and> state (threads s3 (current_thread s3)) \<noteq> THREAD_RUNNING")
    case True
    then show ?thesis using Cons.IH [of s3 Q2] Cons.prems(2,4) s2(1) s3 w3 by simp
  next
    case False
    then show ?thesis using Cons.prems(4) s2(1) s3(1) w3 by (auto split: if_splits)
  qed
qed auto

lemma switch_thread_sleeping:
  assumes but: "sched_but t s Q" and t: "state (threads s t) = THREAD_READY \<or> state (threads s t) = THREAD_RUNNING \<and> t = current_thread s"
    and w: "sleeping W s" and s': "switch_thread t s = Some s'"
  shows "sleeping W s'"
proof (cases "state (threads s t) = THREAD_RUNNING")
  case True
  then have "s' = upd_thread t (\<lambda>x. x\<lparr>time_slice := 0\<rparr>) s" using t s' by (auto simp: switch_thread_def update_thread_def)
  then show ?thesis using w by (simp add: sleeping_def)
next
  case False
  then have "threads s' = run_thread t (threads s)" "t \<notin> W"
    using switch_thread_ok [OF but False] s' t w by (auto simp: switched_def sleeping_def)
  then show ?thesis using w by (auto simp: sleeping_def run_thread_def)
qed

text \<open>\<open>schedule\<close> wakes no thread by itself.\<close>

lemma schedule_sleeping:
  assumes ok: "sched_ok s Q" and irqs: "\<forall>irq \<in> set irqs. spares W irq" and hs: "spares W hs"
    and w: "sleeping W s" and s': "schedule hs irqs s = Some s'"
  shows "sleeping W s'"
proof (cases "state (threads s (current_thread s)) = THREAD_RUNNING")
  case True
  then show ?thesis using s' w by (simp add: schedule_def)
next
  case False
  have "sched_ok (lock_scheduler s) Q" using ok by simp
  from pop_ok [OF this] obtain nt0 s2 where pop: "pop_next_thread_to_run (lock_scheduler s) = Some (nt0, s2)" "threads s2 = threads s"
      "case nt0 of None \<Rightarrow> sched_ok s2 Q | Some t \<Rightarrow> (\<exists>Q'. sched_but t s2 Q') \<and> state (threads s2 t) = THREAD_READY"
    by auto
  have w2: "sleeping W s2" using w pop(2) by (simp add: sleeping_def)
  obtain nt s3 where 3: "(if nt0 = None then schedule_wait irqs s2 else Some (nt0, s2)) = Some (nt, s3)" "sleeping W s3"
    "\<And>t. nt = Some t \<Longrightarrow> (\<exists>Q'. sched_but t s3 Q') \<and>
        (state (threads s3 t) = THREAD_READY \<or> state (threads s3 t) = THREAD_RUNNING \<and> t = current_thread s3)"
  proof (cases nt0)
    case None
    then have ok2: "sched_ok s2 Q" using pop(3) by simp
    have "\<forall>irq \<in> set irqs. keeps_ok irq" using irqs by (simp add: spares_def)
    from schedule_wait_ok [OF ok2 this] obtain nt s3 where "schedule_wait irqs s2 = Some (nt, s3)"
        "\<And>t. nt = Some t \<Longrightarrow> (\<exists>Q'. sched_but t s3 Q') \<and>
          (state (threads s3 t) = THREAD_READY \<or> state (threads s3 t) = THREAD_RUNNING \<and> t = current_thread s3)"
      by fastforce
    then show thesis using that [of nt s3] schedule_wait_sleeping [OF ok2 irqs w2] None by simp
  qed (use pop(3) w2 that in auto)
  show ?thesis
  proof (cases nt)
    case None
    then show ?thesis using s' False pop(1) 3(1,2) by (auto simp: schedule_def)
  next
    case (Some t)
    then obtain s4 where 4: "switch_thread t s3 = Some s4" "schedule_tail hs s4 = Some s'"
      using s' False pop(1) 3(1) by (auto simp: schedule_def schedule_tail_def Let_def bind_eq_Some_conv)
    have "sleeping W s4" using switch_thread_sleeping [OF _ _ 3(2) 4(1)] 3(3) [OF Some] by blast
    then show ?thesis using 4(2) hs by (auto simp: schedule_tail_def spares_def bind_eq_Some_conv split: if_splits)
  qed
qed

lemma update_thread_sleeping:
  assumes "sched_ok s Q" and "update_thread t st s = Some s'" and "sleeping W s" and "st \<noteq> THREAD_WAITING \<Longrightarrow> t \<notin> W"
  shows "sleeping (if st = THREAD_WAITING then insert t W else W) s'"
proof (cases "state (threads s t) = st")
  case True
  then show ?thesis using assms(2,3) by (auto simp: update_thread_def sleeping_def)
next
  case False
  then have "threads s' = (threads s)(t := (threads s t)\<lparr>state := st\<rparr>)"
    using update_thread_ok [OF sched_ok_but [OF assms(1)] False] assms(2) by auto
  then show ?thesis using assms(3,4) by (auto simp: sleeping_def)
qed

text \<open>A thread that puts itself to sleep and calls \<open>schedule\<close> gives the processor to the first ready thread.\<close>

lemma next_ready_sleep:
  assumes "sched_ok s Q" and "runs s t"
  shows "next_ready (requeue p t (get_list_from_thread THREAD_WAITING pol) Q) = next_ready Q"
proof -
  have "t \<notin> set (Q h)" for h using running_off_lists [OF assms(1)] assms(2) by (auto simp: runs_def)
  then show ?thesis by (simp add: next_ready_def requeue_def get_list_from_thread_def remove1_idem)
qed

lemma sleep_switches:
  assumes ok: "sched_ok s Q" and t: "runs s t" and u: "next_ready Q = Some u" and hs: "hs = Some \<or> pending (threads s u) = 0"
  shows "\<exists>s1 s2. update_thread t THREAD_WAITING s = Some s1 \<and> schedule hs irqs s1 = Some s2 \<and> runs s2 u \<and> u \<noteq> t \<and>
    state (threads s2 t) = THREAD_WAITING"
proof -
  have ne: "state (threads s t) \<noteq> THREAD_WAITING" and ct: "current_thread s = t" using t by (simp_all add: runs_def)
  let ?Q = "requeue (prio (plists s)) t (get_list_from_thread THREAD_WAITING (policy (threads s t))) Q"
  obtain s1 where s1: "update_thread t THREAD_WAITING s = Some s1" "sched_ok s1 ?Q"
      "threads s1 = (threads s)(t := (threads s t)\<lparr>state := THREAD_WAITING\<rparr>)" "current_thread s1 = t"
    using update_thread_ok [OF sched_ok_but [OF ok] ne] ct by blast
  have "next_ready ?Q = Some u" using next_ready_sleep [OF ok t] u by simp
  then obtain s4 where s4: "schedule hs irqs s1 = schedule_tail hs s4" "switched u (lock_scheduler s1) s4"
    using schedule_ready [OF s1(2), of u hs irqs] s1(3,4) by auto
  have ut: "u \<noteq> t" using next_ready_state [OF ok u] t by (auto simp: runs_def)
  have "schedule_tail hs s4 = Some (unlock_scheduler s4)"
    using hs s4(2) s1(3) ut by (auto simp: schedule_tail_def switched_def run_thread_def)
  then show ?thesis using s1(1,3) s4 ut by (auto simp: switched_def run_thread_def runs_def)
qed

text \<open>The threads that a \<open>wake_up\<close> with the wake-up functions of \<open>DEFINE_WAIT\<close> makes ready.\<close>

lemma update_thread_state:
  assumes "sched_ok s Q"
  shows "\<exists>s' Q'. update_thread t st s = Some s' \<and> sched_ok s' Q' \<and> current_thread s' = current_thread s \<and>
    (\<forall>u. state (threads s' u) = (if u = t then st else state (threads s u)))"
proof (cases "state (threads s t) = st")
  case True
  then show ?thesis using assms by (auto simp: update_thread_def)
next
  case False
  from update_thread_ok [OF sched_ok_but [OF assms] False] show ?thesis by fastforce
qed

lemma wake_up_state:
  assumes "sched_ok s Q" and "\<forall>e \<in> set ws. wait_func e = poll_wakeup"
  shows "\<exists>s' Q'. wake_up ws s = Some s' \<and> sched_ok s' Q' \<and> current_thread s' = current_thread s \<and>
    (\<forall>u. state (threads s' u) = (if u \<in> wait_thread ` set ws then THREAD_READY else state (threads s u)))"
  using assms
proof (induction ws arbitrary: s Q)
  case Nil
  then show ?case by auto
next
  case (Cons w ws)
  obtain s1 Q1 where s1: "update_thread (wait_thread w) THREAD_READY s = Some s1" "sched_ok s1 Q1" "current_thread s1 = current_thread s"
      "\<forall>u. state (threads s1 u) = (if u = wait_thread w then THREAD_READY else state (threads s u))"
    using update_thread_state [OF Cons.prems(1)] by blast
  obtain s2 Q2 where "wake_up ws s1 = Some s2" "sched_ok s2 Q2" "current_thread s2 = current_thread s1"
      "\<forall>u. state (threads s2 u) = (if u \<in> wait_thread ` set ws then THREAD_READY else state (threads s1 u))"
    using Cons.IH [OF s1(2)] Cons.prems(2) by auto
  then show ?case using s1 Cons.prems(2) by (intro exI [of _ s2] exI [of _ Q2]) (auto simp: poll_wakeup_def)
qed

text \<open>A thread that goes to sleep, with interrupts and signal handlers that do not wake it.\<close>

lemma block_effect:
  assumes ok: "sched_ok s Q" and t: "runs s t" and irqs: "\<forall>irq \<in> set irqs. spares {t} irq" and hs: "spares {t} hs"
  shows "\<exists>s1 s2 Q2. update_thread t THREAD_WAITING s = Some s1 \<and> schedule hs irqs s1 = Some s2 \<and> sched_ok s2 Q2 \<and>
    state (threads s2 t) = THREAD_WAITING \<and> (\<forall>u. next_ready Q = Some u \<and> pending (threads s u) = 0 \<longrightarrow> runs s2 u)"
proof -
  obtain s1 Q1 where s1: "update_thread t THREAD_WAITING s = Some s1" "sched_ok s1 Q1" "state (threads s1 t) = THREAD_WAITING"
    using update_thread_state [OF ok, of t THREAD_WAITING] by auto
  have "\<forall>irq \<in> set irqs. keeps_ok irq" "keeps_ok hs" using irqs hs by (simp_all add: spares_def)
  then obtain s2 Q2 where s2: "schedule hs irqs s1 = Some s2" "sched_ok s2 Q2" using schedule_total [OF s1(2), of irqs hs] by auto
  have "sleeping {t} s2" using schedule_sleeping [OF s1(2) irqs hs _ s2(1)] s1(3) by (simp add: sleeping_def)
  moreover have "runs s2 u" if "next_ready Q = Some u \<and> pending (threads s u) = 0" for u
    using sleep_switches [OF ok t, of u hs irqs] that s1(1) s2(1) by auto
  ultimately show ?thesis using s1(1) s2 by (auto simp: sleeping_def)
qed

section \<open>Mutual exclusion\<close>

text \<open>
  The steps of a system with one semaphore. A configuration is the semaphore, the scheduler, the threads that are inside
  \<open>acquire_semaphore\<close>, and the threads whose calls of it have returned and that have not released since. A thread acts only
  when it runs. A call of \<open>acquire_semaphore\<close> has returned when the thread that made it runs behind it: at once when it
  was not put to sleep, and otherwise when it has been made ready and \<open>schedule\<close> has chosen it. \<open>other\<close> is everything else
  that happens to the scheduler, except that nothing but a release wakes a thread of the wait list; the interrupts and signal
  handlers that run inside \<open>schedule\<close> do not either.
\<close>

inductive sem_step ::
    "semaphore \<times> sched \<times> nat list \<times> nat list \<Rightarrow> semaphore \<times> sched \<times> nat list \<times> nat list \<Rightarrow> bool" where
  acquire: "runs s t \<Longrightarrow> t \<notin> set inside \<Longrightarrow> \<forall>irq \<in> set irqs. spares (insert t (set (sem_wait_list sem))) irq \<Longrightarrow>
    spares (insert t (set (sem_wait_list sem))) hs \<Longrightarrow> acquire_semaphore hs irqs sem s = Some (sem', s') \<Longrightarrow>
    sem_step (sem, s, inside, hold) (sem', s', t # inside, hold)"
| return: "runs s t \<Longrightarrow> t \<in> set inside \<Longrightarrow> sem_step (sem, s, inside, hold) (sem, s, remove1 t inside, t # hold)"
| release: "runs s t \<Longrightarrow> t \<notin> set inside \<Longrightarrow> t \<in> set hold \<Longrightarrow> release_semaphore sem s = Some (sem', s') \<Longrightarrow>
    sem_step (sem, s, inside, hold) (sem', s', inside, remove1 t hold)"
| other: "sched_ok s' Q' \<Longrightarrow> sleeping (set (sem_wait_list sem)) s' \<Longrightarrow> sem_step (sem, s, inside, hold) (sem, s', inside, hold)"

definition sem_inv :: "semaphore \<times> sched \<times> nat list \<times> nat list \<Rightarrow> bool" where
  "sem_inv c = (case c of (sem, s, inside, hold) \<Rightarrow>
     \<not> sem_lock sem \<and> (\<exists>Q. sched_ok s Q) \<and> distinct inside \<and> distinct (sem_wait_list sem) \<and>
     set (sem_wait_list sem) \<subseteq> set inside \<and> sleeping (set (sem_wait_list sem)) s \<and>
     unat (sem_count sem) + length hold + length inside = unat (sem_capacity sem) + length (sem_wait_list sem) \<and>
     (sem_wait_list sem \<noteq> [] \<longrightarrow> sem_count sem = 0))"

lemma unat_pred: "0 < (x :: u32) \<Longrightarrow> unat (x - 1) + 1 = unat x"
  by (subst unat_sub) (auto simp: word_le_nat_alt word_less_nat_alt)

lemma sleeping_interrupts [simp]: "sleeping W (s\<lparr>interrupts := b\<rparr>) = sleeping W s"
  by (simp add: sleeping_def)

lemma runs_not_sleeping: "runs s t \<Longrightarrow> sleeping W s \<Longrightarrow> t \<notin> W"
  by (auto simp: runs_def sleeping_def)

lemma acquire_inv:
  assumes inv: "sem_inv (sem, s, inside, hold)" and t: "runs s t" "t \<notin> set inside"
    and irqs: "\<forall>irq \<in> set irqs. spares (insert t (set (sem_wait_list sem))) irq" and hs: "spares (insert t (set (sem_wait_list sem))) hs"
    and acq: "acquire_semaphore hs irqs sem s = Some (sem', s')"
  shows "sem_inv (sem', s', t # inside, hold) \<and> sem_capacity sem' = sem_capacity sem"
proof (cases "0 < sem_count sem")
  case True
  then have "sem' = sem\<lparr>sem_lock := False, sem_count := sem_count sem - 1\<rparr>" "s' = s\<lparr>interrupts := True\<rparr>"
    using acq inv acquire_free [of sem hs irqs s] by (auto simp: sem_inv_def)
  then show ?thesis using inv t(2) unat_pred [OF True] True by (auto simp: sem_inv_def)
next
  case False
  let ?W = "set (sem_wait_list sem)" and ?s = "s\<lparr>interrupts := False\<rparr>"
  obtain Q where ok: "sched_ok ?s Q" and lock: "\<not> sem_lock sem" and w: "sleeping ?W ?s" using inv by (auto simp: sem_inv_def)
  have c: "sem_count sem = 0" "current_thread s = t" using False t(1) by (simp_all add: runs_def word_greater_zero_iff)
  have sem': "sem' = sem\<lparr>sem_lock := False, sem_wait_list := sem_wait_list sem @ [t]\<rparr>"
    using acquire_wait [OF lock c(1) acq] c(2) by simp
  obtain s2 where s2: "update_thread t THREAD_WAITING ?s = Some s2" "schedule hs irqs s2 = Some s'"
    using acq lock c by (auto simp: acquire_semaphore_def spin_lock_def Let_def bind_eq_Some_conv)
  obtain Q2 where ok2: "sched_ok s2 Q2" using keeps_okD [OF keeps_ok_update_thread ok] s2(1) by (metis option.inject)
  have w2: "sleeping (insert t ?W) s2" using update_thread_sleeping [OF ok s2(1) w] by simp
  have "\<forall>irq \<in> set irqs. keeps_ok irq" "keeps_ok hs" using irqs hs by (simp_all add: spares_def)
  from schedule_total [OF ok2 this] s2(2) obtain Q' where "sched_ok s' Q'" by auto
  moreover have "sleeping (insert t ?W) s'" by (rule schedule_sleeping [OF ok2 irqs hs w2 s2(2)])
  moreover have "t \<notin> ?W" using t inv by (auto simp: sem_inv_def)
  ultimately show ?thesis using inv t(2) sem' c(1) by (auto simp: sem_inv_def)
qed

lemma release_inv:
  assumes inv: "sem_inv (sem, s, inside, hold)" and t: "t \<in> set hold" and rel: "release_semaphore sem s = Some (sem', s')"
  shows "sem_inv (sem', s', inside, remove1 t hold) \<and> sem_capacity sem' = sem_capacity sem"
proof -
  have len: "length (remove1 t hold) + 1 = length hold" using t by (simp add: length_remove1) (cases hold; simp)
  let ?s = "s\<lparr>interrupts := False\<rparr>"
  obtain Q where ok: "sched_ok ?s Q" and lock: "\<not> sem_lock sem" using inv by (auto simp: sem_inv_def)
  show ?thesis
  proof (cases "sem_wait_list sem")
    case Nil
    have "unat (sem_count sem) < unat (sem_capacity sem)" using inv len Nil by (simp add: sem_inv_def)
    then have lt: "sem_count sem < sem_capacity sem" and c: "unat (sem_count sem + 1) = unat (sem_count sem) + 1"
      using u32_bound [of "sem_capacity sem"] by (simp_all add: word_less_nat_alt unat_plus_if')
    have "sem' = sem\<lparr>sem_lock := False, sem_count := sem_count sem + 1\<rparr>" "s' = s\<lparr>interrupts := True\<rparr>"
      using rel Nil lt lock by (auto simp: release_semaphore_def spin_lock_def spin_unlock_def)
    then show ?thesis using inv Nil len c by (auto simp: sem_inv_def)
  next
    case (Cons w ws)
    obtain s2 where s2: "update_thread w THREAD_READY ?s = Some s2" "s' = s2\<lparr>interrupts := True\<rparr>"
      and sem': "sem' = sem\<lparr>sem_lock := False, sem_wait_list := ws\<rparr>"
      using rel Cons lock by (auto simp: release_semaphore_def spin_lock_def spin_unlock_def bind_eq_Some_conv)
    obtain Q2 where "sched_ok s2 Q2" using keeps_okD [OF keeps_ok_update_thread ok] s2(1) by (metis option.inject)
    moreover have "sleeping (set ws) ?s" "w \<notin> set ws" using inv Cons by (auto simp: sem_inv_def sleeping_def)
    then have "sleeping (set ws) s2" using update_thread_sleeping [OF ok s2(1), of "set ws"] by simp
    ultimately show ?thesis using inv Cons len sem' s2(2) by (auto simp: sem_inv_def)
  qed
qed

lemma sem_step_inv:
  assumes "sem_step c c'" and "sem_inv c"
  shows "sem_inv c' \<and> sem_capacity (fst c') = sem_capacity (fst c)"
  using assms
proof (induction rule: sem_step.induct)
  case (acquire s t inside irqs sem hs sem' s' hold)
  then show ?case using acquire_inv by simp
next
  case (return s t inside sem hold)
  then have "t \<notin> set (sem_wait_list sem)" using runs_not_sleeping by (auto simp: sem_inv_def)
  moreover have "length (remove1 t inside) + 1 = length inside" using return(2) by (simp add: length_remove1) (cases inside; simp)
  ultimately show ?case using return by (auto simp: sem_inv_def)
next
  case (release s t inside hold sem sem' s')
  then show ?case using release_inv by simp
qed (auto simp: sem_inv_def)

lemma sem_steps_inv: "sem_step\<^sup>*\<^sup>* c c' \<Longrightarrow> sem_inv c \<Longrightarrow> sem_inv c' \<and> sem_capacity (fst c') = sem_capacity (fst c)"
  by (induction rule: rtranclp_induct) (auto dest: sem_step_inv)

text \<open>A thread that finds no unit.\<close>

lemma acquire_sleeps:
  assumes lock: "\<not> sem_lock sem" and c: "sem_count sem = 0" and ok: "sched_ok s Q" and t: "runs s t" and u: "next_ready Q = Some u"
  shows "\<exists>sem' s'. acquire_semaphore Some irqs sem s = Some (sem', s') \<and> t \<in> set (sem_wait_list sem') \<and>
    state (threads s' t) = THREAD_WAITING \<and> runs s' u \<and> u \<noteq> t"
proof -
  let ?s = "s\<lparr>interrupts := False\<rparr>"
  have "sched_ok ?s Q" "runs ?s t" "current_thread s = t" using ok t by (simp_all add: runs_def)
  from sleep_switches [OF this(1,2) u, of Some irqs] this(3) show ?thesis
    using lock c by (auto simp: acquire_semaphore_def spin_lock_def spin_unlock_def)
qed

text \<open>
  Something else than a release can wake a waiter: \<open>do_kill\<close> makes the thread of its target ready when it sends \<open>SIGKILL\<close> or
  \<open>SIGCONT\<close>. The thread then runs behind its acquisition, as one that has been given a unit.
\<close>

lemma woken_waiter_runs:
  assumes ok: "sched_ok s Q" and w: "state (threads s t) = THREAD_WAITING" and none: "next_ready Q = None"
    and cur: "state (threads s (current_thread s)) = THREAD_WAITING"
  shows "\<exists>s1 s2. update_thread t THREAD_READY s = Some s1 \<and> schedule Some [] s1 = Some s2 \<and> runs s2 t"
proof -
  have ne: "state (threads s t) \<noteq> THREAD_READY" using w by simp
  let ?Q = "requeue (prio (plists s)) t (get_list_from_thread THREAD_READY (policy (threads s t))) Q"
  obtain s1 where s1: "update_thread t THREAD_READY s = Some s1" "sched_ok s1 ?Q"
      "threads s1 = (threads s)(t := (threads s t)\<lparr>state := THREAD_READY\<rparr>)" "current_thread s1 = current_thread s"
    using update_thread_ok [OF sched_ok_but [OF ok] ne] by blast
  have "Q h = []" if "h \<in> {kernel_ready_list, system_ready_list, app_ready_list}" for h
    using none that by (auto simp: next_ready_def split: list.splits)
  then have "next_ready ?Q = Some t"
    by (simp add: next_ready_def requeue_def get_list_from_thread_def prio_insert_def)
  moreover have "state (threads s1 (current_thread s1)) \<noteq> THREAD_RUNNING" using s1(3,4) cur by simp
  ultimately obtain s4 where s4: "schedule Some [] s1 = schedule_tail Some s4" "switched t (lock_scheduler s1) s4"
    using schedule_ready [OF s1(2), of t Some "[]"] by blast
  then show ?thesis using s1(1) by (auto simp: schedule_tail_def switched_def run_thread_def runs_def)
qed

section \<open>The properties\<close>

text \<open>C21: Mutual exclusion: from a fresh semaphore of \<open>n\<close> units, whatever acquisitions, releases by holders and
  other activity follow in whatever order, as long as nothing but a release wakes a waiter, the threads whose acquisition
  has returned and that have not released are never more than \<open>n\<close>: the free units, these threads and the threads on
  their way out of an acquisition add up to \<open>n\<close>. A thread waits only when no unit is free; it sleeps, does not run, and
  the next thread that finds no unit goes to sleep behind it and leaves the processor to the first ready thread.\<close>

theorem semaphore_mutual_exclusion:
  assumes "sched_ok s Q" and "sem_step\<^sup>*\<^sup>* (sema_init n, s, [], []) (sem, s', inside, hold)"
  shows "unat (sem_count sem) + length hold + length (filter (\<lambda>t. t \<notin> set (sem_wait_list sem)) inside) = unat n \<and>
    length hold \<le> unat n \<and> \<not> sem_lock sem \<and> (sem_wait_list sem \<noteq> [] \<longrightarrow> sem_count sem = 0) \<and>
    (\<forall>t \<in> set (sem_wait_list sem). t \<in> set inside \<and> state (threads s' t) = THREAD_WAITING \<and> \<not> runs s' t) \<and>
    (\<forall>t u Q irqs. runs s' t \<and> sem_count sem = 0 \<and> sched_ok s' Q \<and> next_ready Q = Some u \<longrightarrow>
       (\<exists>sem' s''. acquire_semaphore Some irqs sem s' = Some (sem', s'') \<and> t \<in> set (sem_wait_list sem') \<and>
          state (threads s'' t) = THREAD_WAITING \<and> runs s'' u \<and> u \<noteq> t))"
proof -
  have "sem_inv (sema_init n, s, [], [])" using assms(1) by (auto simp: sem_inv_def sema_init_def sleeping_def)
  with sem_steps_inv [OF assms(2)] have inv: "sem_inv (sem, s', inside, hold)" and cap: "sem_capacity sem = n"
    by (auto simp: sema_init_def)
  have d: "distinct inside" "distinct (sem_wait_list sem)" "set (sem_wait_list sem) \<subseteq> set inside" using inv by (auto simp: sem_inv_def)
  have "set (filter (\<lambda>t. t \<in> set (sem_wait_list sem)) inside) = set (sem_wait_list sem)" using d(3) by auto
  then have "length (filter (\<lambda>t. t \<in> set (sem_wait_list sem)) inside) = length (sem_wait_list sem)"
    using d(1,2) by (metis distinct_card distinct_filter)
  then have sum: "unat (sem_count sem) + length hold + length (filter (\<lambda>t. t \<notin> set (sem_wait_list sem)) inside) = unat n"
    using inv cap sum_length_filter_compl [of "\<lambda>t. t \<in> set (sem_wait_list sem)" inside] by (simp add: sem_inv_def)
  have "t \<in> set inside \<and> state (threads s' t) = THREAD_WAITING \<and> \<not> runs s' t" if "t \<in> set (sem_wait_list sem)" for t
    using that inv d(3) by (auto simp: sem_inv_def sleeping_def runs_def)
  moreover have "\<not> sem_lock sem" "sem_wait_list sem \<noteq> [] \<longrightarrow> sem_count sem = 0" using inv by (simp_all add: sem_inv_def)
  ultimately show ?thesis using sum acquire_sleeps by auto
qed

text \<open>A thread has taken the only unit; when it asks for another one, the next thread runs.\<close>

theorem semaphore_mutual_exclusion_witness:
  "\<exists>sem s'. sem_step\<^sup>*\<^sup>* (sema_init 1, sched_example, [], []) (sem, s', [], [0]) \<and> length [0 :: nat] \<le> unat (1 :: u32) \<and>
     sem_count sem = 0 \<and> (\<exists>sem' s''. acquire_semaphore Some [] sem s' = Some (sem', s'') \<and> sem_wait_list sem = [] \<and>
       0 \<in> set (sem_wait_list sem') \<and> runs s'' 1)"
proof -
  let ?Q = "(\<lambda>_. [])(app_ready_list := [1, 2])" and ?sem = "(sema_init 1)\<lparr>sem_lock := False, sem_count := 0\<rparr>"
  let ?s = "sched_example\<lparr>interrupts := True\<rparr>"
  have r: "runs sched_example 0" "runs ?s 0" by (simp_all add: runs_def sched_example_def)
  have "sem_step (sema_init 1, sched_example, [], []) (?sem, ?s, [0], [])"
    by (rule sem_step.acquire [where irqs = "[]" and hs = Some]) (use r in \<open>simp_all add: spares_Some sema_init_def acquire_free\<close>)
  moreover have "sem_step (?sem, ?s, [0], []) (?sem, ?s, [], [0])"
    using sem_step.return [OF r(2), of "[0]" ?sem "[]"] by simp
  ultimately have steps: "sem_step\<^sup>*\<^sup>* (sema_init 1, sched_example, [], []) (?sem, ?s, [], [0])" by simp
  have "sched_ok ?s ?Q" "next_ready ?Q = Some 1" using sched_example_ok by (simp_all add: next_ready_def)
  then have "\<exists>sem' s''. acquire_semaphore Some [] ?sem ?s = Some (sem', s'') \<and> 0 \<in> set (sem_wait_list sem') \<and> runs s'' 1"
    using semaphore_mutual_exclusion [OF sched_example_ok steps] r(2) by fastforce
  then show ?thesis using steps semaphore_mutual_exclusion [OF sched_example_ok steps]
    by (intro exI [of _ ?sem] exI [of _ ?s]) (simp add: sema_init_def)
qed

text \<open>\<open>acquire_semaphore\<close> and \<open>release_semaphore\<close> of an unlocked semaphore always return and keep the
  scheduler's invariant; a release with waiters removes the first one from the wait list, makes it
  ready and leaves the count alone, and a release without waiters counts up, never beyond the
  capacity.\<close>

theorem semaphore_release_correct:
  assumes "\<not> sem_lock sem" and "sched_ok s Q"
  shows "\<exists>sem' s' Q'. release_semaphore sem s = Some (sem', s') \<and> sched_ok s' Q' \<and> \<not> sem_lock sem' \<and>
           (case sem_wait_list sem of
              [] \<Rightarrow> sem_wait_list sem' = [] \<and>
                    sem_count sem' = (if sem_count sem < sem_capacity sem then sem_count sem + 1 else sem_count sem)
            | w # ws \<Rightarrow> sem_wait_list sem' = ws \<and> sem_count sem' = sem_count sem \<and>
                    state (threads s' w) = THREAD_READY) \<and>
           (\<exists>sem' s' Q'. acquire_semaphore Some [] sem s = Some (sem', s') \<and> sched_ok s' Q')"
  using release_total [OF assms] acquire_total [OF assms, of "[]" Some] keeps_ok_Some
  by (fastforce split: list.splits)

theorem semaphore_release_correct_witness:
  "\<exists>sem' s' Q'. release_semaphore (\<lparr>sem_lock = False, sem_count = 0, sem_capacity = 1, sem_wait_list = [3]\<rparr>) sched_example =
     Some (sem', s') \<and> sched_ok s' Q' \<and> sem_wait_list sem' = [] \<and> state (threads s' 3) = THREAD_READY"
  using semaphore_release_correct [OF _ sched_example_ok,
      of "\<lparr>sem_lock = False, sem_count = 0, sem_capacity = 1, sem_wait_list = [3]\<rparr>"] by auto

text \<open>
  \<open>acquire_semaphore\<close> and \<open>release_semaphore\<close> disable interrupts for the time they hold the spin lock,
  but the \<open>update_thread\<close> in between enables them again when the scheduler lock is free, while the spin
  lock is still held.
\<close>

lemma update_thread_enables_interrupts:
  assumes "sched_ok s Q" and "state (threads s t) \<noteq> st" and "scheduler_lock_counter s = 0"
  shows "\<exists>s'. update_thread t st (s\<lparr>interrupts := False\<rparr>) = Some s' \<and> interrupts s'"
proof -
  have "sched_but t (s\<lparr>interrupts := False\<rparr>) Q" using assms(1) by (intro sched_ok_but) simp
  from update_thread_ok [OF this] assms(2,3) show ?thesis by auto
qed

end
