(* ===== verification/Files.thy ===== *)
theory Files
  imports Semaphore
begin

text \<open>
  Open files and descriptors: \<open>kernel/fs/open.c\<close> (from the file on), \<open>read_write.c\<close>, \<open>fcntl.c\<close>, \<open>find_unused_fd_slot\<close> of
  \<open>vfs.c\<close>, \<open>clone_file_descriptor_table\<close> of \<open>proc/task.c\<close>, \<open>exit_files\<close> of \<open>proc/exit.c\<close> and \<open>sys_dup2\<close> of \<open>system/sysapi.c\<close>.

  Every process has a table of 256 slots with the addresses of files; the files are a store from which \<open>kfree\<close> removes
  them. The operations of a file system are a table of functions over a state of their own. A result \<open>None\<close> is an access
  outside a table, to a freed file or through a null pointer.

  The lemmas show that the count of a file is the number of slots that refer to it, whatever processes open, close and fork,
  and that the two ways to duplicate a descriptor break this.
\<close>

section \<open>Constants\<close>

definition O_RDONLY :: u32 where "O_RDONLY = 0"
definition O_WRONLY :: u32 where "O_WRONLY = 1"
definition O_ACCMODE :: u32 where "O_ACCMODE = 3"
definition O_CREAT :: u32 where "O_CREAT = 512"
definition O_NONBLOCK :: u32 where "O_NONBLOCK = 4"
definition O_APPEND :: u32 where "O_APPEND = 8"

definition FMODE_READ :: u32 where "FMODE_READ = 0x1"
definition FMODE_WRITE :: u32 where "FMODE_WRITE = 0x2"
definition FMODE_CAN_READ :: u32 where "FMODE_CAN_READ = 0x20000"
definition FMODE_CAN_WRITE :: u32 where "FMODE_CAN_WRITE = 0x40000"

definition OPEN_FMODE :: "u32 \<Rightarrow> u32" where "OPEN_FMODE flag = (flag + 1) AND O_ACCMODE"

definition SEEK_SET :: int where "SEEK_SET = 0"
definition SEEK_CUR :: int where "SEEK_CUR = 1"
definition SEEK_END :: int where "SEEK_END = 2"

definition F_DUPFD :: int where "F_DUPFD = 0"
definition F_GETFD :: int where "F_GETFD = 1"
definition F_SETFD :: int where "F_SETFD = 2"
definition F_GETFL :: int where "F_GETFL = 3"
definition F_SETFL :: int where "F_SETFL = 4"

definition MAX_FD :: nat where "MAX_FD = 256"

lemmas file_constants = O_RDONLY_def O_WRONLY_def O_ACCMODE_def O_CREAT_def O_NONBLOCK_def O_APPEND_def FMODE_READ_def
  FMODE_WRITE_def FMODE_CAN_READ_def FMODE_CAN_WRITE_def OPEN_FMODE_def

section \<open>The state\<close>

text \<open>A file; \<open>f_inode\<close> is the inode of its dentry, \<open>'o\<close> names tables of operations.\<close>

record 'o vfs_file =
  f_inode :: nat
  f_op :: "'o option"
  f_count :: int
  f_maxcount :: u32
  f_flags :: u32
  f_mode :: u32
  f_pos :: u64

record ('o, 's) vfs_file_operations =
  op_llseek :: "('o vfs_file \<Rightarrow> u64 \<Rightarrow> int \<Rightarrow> u64 \<times> 'o vfs_file) option"
  op_read :: "('o vfs_file \<Rightarrow> u8 list \<Rightarrow> u64 \<Rightarrow> 's \<Rightarrow> (int \<times> u8 list \<times> 's) option) option"
  op_write :: "('o vfs_file \<Rightarrow> u8 list \<Rightarrow> u64 \<Rightarrow> 's \<Rightarrow> (int \<times> 's) option) option"
  op_open :: "('o vfs_file \<Rightarrow> 's \<Rightarrow> (int \<times> 'o vfs_file \<times> 's) option) option"
  op_release :: "('o vfs_file \<Rightarrow> 's \<Rightarrow> (int \<times> 's) option) option"

text \<open>The descriptor tables and their locks by process, the files, the sizes and counts of the inodes.\<close>

record 'o files =
  fd :: "nat \<Rightarrow> nat option list"
  fd_lock :: "nat \<Rightarrow> semaphore"
  filps :: "nat \<Rightarrow> 'o vfs_file option"
  i_size :: "nat \<Rightarrow> u32"
  i_count :: "nat \<Rightarrow> int"

text \<open>The slot of a descriptor; outside the table there is none.\<close>

definition fd_slot :: "nat \<Rightarrow> int \<Rightarrow> 'o files \<Rightarrow> nat option option" where
  "fd_slot p i fs = (if 0 \<le> i \<and> i < int MAX_FD then Some (fd fs p ! nat i) else None)"

definition set_fd :: "nat \<Rightarrow> int \<Rightarrow> nat option \<Rightarrow> 'o files \<Rightarrow> 'o files option" where
  "set_fd p i v fs =
     (if 0 \<le> i \<and> i < int MAX_FD then Some (fs\<lparr>fd := (fd fs)(p := (fd fs p)[nat i := v])\<rparr>) else None)"

section \<open>The operations\<close>

definition find_unused_fd_slot :: "nat \<Rightarrow> int \<Rightarrow> 'o files \<Rightarrow> int option" where
  "find_unused_fd_slot p lowerlimit fs =
     (if lowerlimit < 0 then None
      else
        Some (case for_find (nat lowerlimit) MAX_FD (\<lambda>i. if fd fs p ! i = None then Some i else None) of
                Some i \<Rightarrow> int i | None \<Rightarrow> - EINVAL))"

definition get_empty_filp :: "'o vfs_file" where
  "get_empty_filp =
     \<lparr>f_inode = 0, f_op = None, f_count = 1, f_maxcount = 0x7FFFFFFF, f_flags = 0, f_mode = 0, f_pos = 0\<rparr>"

text \<open>The file that \<open>vfs_open\<close> makes of the inode and the flags.\<close>

definition open_filp :: "nat \<Rightarrow> 'o option \<Rightarrow> u32 \<Rightarrow> 'o vfs_file" where
  "open_filp inode fop flags =
     (let file = get_empty_filp\<lparr>f_inode := inode, f_flags := flags, f_mode := OPEN_FMODE flags, f_op := fop\<rparr>;
          file = (if f_mode file AND FMODE_READ \<noteq> 0 then file\<lparr>f_mode := f_mode file OR FMODE_CAN_READ\<rparr> else file)
      in if f_mode file AND FMODE_WRITE \<noteq> 0 then file\<lparr>f_mode := f_mode file OR FMODE_CAN_WRITE\<rparr> else file)"

text \<open>
  \<open>vfs_open\<close>: \<open>walk\<close> is the result of \<open>path_walk\<close>, an error or the inode with its operations, and \<open>a\<close> the address of
  the new file. The slot was looked for before and is not checked: -EINVAL is used as an index.
\<close>

definition vfs_open ::
  "('o \<Rightarrow> ('o, 's) vfs_file_operations) \<Rightarrow> nat \<Rightarrow> nat \<Rightarrow> int + nat \<times> 'o option \<Rightarrow> u32 \<Rightarrow> 'o files \<Rightarrow> 's
    \<Rightarrow> (int \<times> 'o files \<times> 's) option" where
  "vfs_open ops p a walk flags fs st =
     do {
       i \<leftarrow> find_unused_fd_slot p 0 fs;
       (case walk of
          Inl ret \<Rightarrow> Some (ret, fs, st)
        | Inr (inode, fop) \<Rightarrow>
            do {
              let file = open_filp inode fop flags;
              (ret, file, st) \<leftarrow>
                (case Option.bind fop (\<lambda>o1. op_open (ops o1)) of
                   Some f \<Rightarrow> f file st
                 | None \<Rightarrow> Some (0, file, st));
              (if ret < 0 then Some (ret, fs, st)
               else
                 do {
                   let fs = fs\<lparr>filps := (filps fs)(a := Some file),
                     i_count := (i_count fs)(f_inode file := i_count fs (f_inode file) + 1)\<rparr>;
                   fs \<leftarrow> set_fd p i (Some a) fs;
                   Some (i, fs, st)
                 })
            })
     }"

text \<open>\<open>vfs_close\<close> inside the lock of the table.\<close>

definition close_slot ::
  "('o \<Rightarrow> ('o, 's) vfs_file_operations) \<Rightarrow> nat \<Rightarrow> int \<Rightarrow> 'o files \<Rightarrow> 's \<Rightarrow> (int \<times> 'o files \<times> 's) option" where
  "close_slot ops p i fs st =
     do {
       slot \<leftarrow> fd_slot p i fs;
       (ret, fs, st) \<leftarrow>
         (case slot of
            None \<Rightarrow> Some (- EBADF, fs, st)
          | Some a \<Rightarrow>
              do {
                file \<leftarrow> filps fs a;
                let file = file\<lparr>f_count := f_count file - 1\<rparr>;
                (if f_count file = 0 then
                   do {
                     (ret, st) \<leftarrow>
                       (case Option.bind (f_op file) (\<lambda>o1. op_release (ops o1)) of
                          Some f \<Rightarrow> f file st
                        | None \<Rightarrow> Some (0, st));
                     Some (ret, fs\<lparr>filps := (filps fs)(a := None)\<rparr>, st)
                   }
                 else Some (0, fs\<lparr>filps := (filps fs)(a := Some file)\<rparr>, st))
              });
       fs \<leftarrow> set_fd p i None fs;
       Some (ret, fs, st)
     }"

definition vfs_close ::
  "(sched \<Rightarrow> sched option) \<Rightarrow> (sched \<Rightarrow> sched option) list \<Rightarrow> ('o \<Rightarrow> ('o, 's) vfs_file_operations) \<Rightarrow> nat \<Rightarrow> int
    \<Rightarrow> 'o files \<Rightarrow> 's \<Rightarrow> sched \<Rightarrow> (outcome \<times> 'o files \<times> 's \<times> sched) option" where
  "vfs_close hs irqs ops p i fs st s =
     do {
       let free = (0 < sem_count (fd_lock fs p));
       (sem, s) \<leftarrow> acquire_semaphore hs irqs (fd_lock fs p) s;
       let fs = fs\<lparr>fd_lock := (fd_lock fs)(p := sem)\<rparr>;
       (if \<not> free then Some (Blocked, fs, st, s)
        else
          do {
            (ret, fs, st) \<leftarrow> close_slot ops p i fs st;
            (sem, s) \<leftarrow> release_semaphore (fd_lock fs p) s;
            Some (Ret ret, fs\<lparr>fd_lock := (fd_lock fs)(p := sem)\<rparr>, st, s)
          })
     }"

text \<open>For a negative descriptor the element in front of the table is read but not used.\<close>

definition vfs_fread ::
  "('o \<Rightarrow> ('o, 's) vfs_file_operations) \<Rightarrow> nat \<Rightarrow> int \<Rightarrow> u8 list \<Rightarrow> 'o files \<Rightarrow> 's \<Rightarrow> (int \<times> u8 list \<times> 's) option" where
  "vfs_fread ops p i buf fs st =
     (if i < 0 then Some (- EBADF, buf, st)
      else
        do {
          slot \<leftarrow> fd_slot p i fs;
          (case slot of
             None \<Rightarrow> Some (- EBADF, buf, st)
           | Some a \<Rightarrow>
               do {
                 file \<leftarrow> filps fs a;
                 (if f_mode file AND FMODE_CAN_READ \<noteq> 0 then
                    do { o1 \<leftarrow> f_op file; f \<leftarrow> op_read (ops o1); f file buf (f_pos file) st }
                  else Some (- EINVAL, buf, st))
               })
        })"

definition vfs_fwrite ::
  "('o \<Rightarrow> ('o, 's) vfs_file_operations) \<Rightarrow> nat \<Rightarrow> int \<Rightarrow> u8 list \<Rightarrow> 'o files \<Rightarrow> 's \<Rightarrow> (int \<times> 's) option" where
  "vfs_fwrite ops p i buf fs st =
     (if i < 0 then Some (- EBADF, st)
      else
        do {
          slot \<leftarrow> fd_slot p i fs;
          (case slot of
             None \<Rightarrow> Some (- EBADF, st)
           | Some a \<Rightarrow>
               do {
                 file \<leftarrow> filps fs a;
                 let ppos = (if f_flags file AND O_APPEND \<noteq> 0 then ucast (i_size fs (f_inode file)) else f_pos file);
                 (if f_mode file AND FMODE_CAN_WRITE \<noteq> 0 then
                    do { o1 \<leftarrow> f_op file; f \<leftarrow> op_write (ops o1); f file buf ppos st }
                  else Some (- EINVAL, st))
               })
        })"

definition generic_file_llseek :: "u32 \<Rightarrow> 'o vfs_file \<Rightarrow> u64 \<Rightarrow> int \<Rightarrow> u64 \<times> 'o vfs_file" where
  "generic_file_llseek isize file offset whence =
     (if whence = SEEK_SET then (offset, file\<lparr>f_pos := offset\<rparr>)
      else if whence = SEEK_CUR then (f_pos file + offset, file\<lparr>f_pos := f_pos file + offset\<rparr>)
      else if whence = SEEK_END then (ucast isize + offset, file\<lparr>f_pos := ucast isize + offset\<rparr>)
      else (word_of_int (- EINVAL), file))"

definition vfs_flseek ::
  "('o \<Rightarrow> ('o, 's) vfs_file_operations) \<Rightarrow> nat \<Rightarrow> int \<Rightarrow> u64 \<Rightarrow> int \<Rightarrow> 'o files \<Rightarrow> (u64 \<times> 'o files) option" where
  "vfs_flseek ops p i offset whence fs =
     (if i < 0 then Some (word_of_int (- EBADF), fs)
      else
        do {
          slot \<leftarrow> fd_slot p i fs;
          (case slot of
             None \<Rightarrow> Some (word_of_int (- EBADF), fs)
           | Some a \<Rightarrow>
               do {
                 file \<leftarrow> filps fs a;
                 Some (case Option.bind (f_op file) (\<lambda>o1. op_llseek (ops o1)) of
                         Some f \<Rightarrow> (let (ret, file) = f file offset whence in (ret, fs\<lparr>filps := (filps fs)(a := Some file)\<rparr>))
                       | None \<Rightarrow> (word_of_int (- EINVAL), fs))
               })
        })"

definition do_fcntl :: "nat \<Rightarrow> int \<Rightarrow> int \<Rightarrow> u32 \<Rightarrow> 'o files \<Rightarrow> (int \<times> 'o files) option" where
  "do_fcntl p i cmd arg fs =
     do {
       slot \<leftarrow> fd_slot p i fs;
       (case slot of
          None \<Rightarrow> Some (- EBADF, fs)
        | Some a \<Rightarrow>
            do {
              filp \<leftarrow> filps fs a;
              (if cmd = F_DUPFD then
                 do {
                   ret \<leftarrow> find_unused_fd_slot p (sint arg) fs;
                   (if ret < 0 then Some (- EMFILE, fs)
                    else map_option (\<lambda>fs. (ret, fs)) (set_fd p ret (Some a) fs))
                 }
               else if cmd = F_GETFD then Some (sint (f_flags filp), fs)
               else if cmd = F_SETFD then Some (0, fs\<lparr>filps := (filps fs)(a := Some (filp\<lparr>f_flags := arg\<rparr>))\<rparr>)
               else if cmd = F_GETFL then Some (sint (f_mode filp), fs)
               else if cmd = F_SETFL then Some (0, fs\<lparr>filps := (filps fs)(a := Some (filp\<lparr>f_mode := arg\<rparr>))\<rparr>)
               else Some (0, fs))
            })
     }"

definition sys_dup2 :: "nat \<Rightarrow> int \<Rightarrow> int \<Rightarrow> 'o files \<Rightarrow> (int \<times> 'o files) option" where
  "sys_dup2 p oldfd newfd fs =
     do {
       slot \<leftarrow> fd_slot p oldfd fs;
       fs \<leftarrow> set_fd p newfd slot fs;
       Some (newfd, fs)
     }"

text \<open>The loop of \<open>clone_file_descriptor_table\<close> over the slots of the parent.\<close>

primrec count_slots :: "nat option list \<Rightarrow> (nat \<Rightarrow> 'o vfs_file option) \<Rightarrow> (nat \<Rightarrow> 'o vfs_file option) option" where
  "count_slots [] fm = Some fm"
| "count_slots (slot # slots) fm =
     (case slot of
        None \<Rightarrow> count_slots slots fm
      | Some a \<Rightarrow>
          (case fm a of
             None \<Rightarrow> None
           | Some file \<Rightarrow> count_slots slots (fm(a := Some (file\<lparr>f_count := f_count file + 1\<rparr>)))))"

definition clone_file_descriptor_table :: "nat option \<Rightarrow> nat \<Rightarrow> 'o files \<Rightarrow> 'o files option" where
  "clone_file_descriptor_table parent child fs =
     do {
       fs \<leftarrow>
         (case parent of
            None \<Rightarrow> Some (fs\<lparr>fd := (fd fs)(child := replicate MAX_FD None)\<rparr>)
          | Some p \<Rightarrow>
              map_option (\<lambda>fm. fs\<lparr>fd := (fd fs)(child := fd fs p), filps := fm\<rparr>) (count_slots (fd fs p) (filps fs)));
       Some (fs\<lparr>fd_lock := (fd_lock fs)(child := sema_init 1)\<rparr>)
     }"

text \<open>\<open>exit_files\<close>: one step of the loop, and the loop over the slots from \<open>i\<close> on.\<close>

definition exit_slot ::
  "('o \<Rightarrow> ('o, 's) vfs_file_operations) \<Rightarrow> nat \<Rightarrow> nat \<Rightarrow> 'o files \<Rightarrow> 's \<Rightarrow> ('o files \<times> 's) option" where
  "exit_slot ops p i fs st =
     (case fd fs p ! i of
        None \<Rightarrow> Some (fs, st)
      | Some a \<Rightarrow>
          do {
            file \<leftarrow> filps fs a;
            (if f_count file = 1 then
               do {
                 o1 \<leftarrow> f_op file;
                 (case op_release (ops o1) of
                    None \<Rightarrow> Some (fs, st)
                  | Some f \<Rightarrow>
                      do {
                        (_, st) \<leftarrow> f file st;
                        Some (fs\<lparr>filps := (filps fs)(a := None), fd := (fd fs)(p := (fd fs p)[i := None])\<rparr>, st)
                      })
               }
             else Some (fs, st))
          })"

primrec exit_files_loop ::
  "('o \<Rightarrow> ('o, 's) vfs_file_operations) \<Rightarrow> nat \<Rightarrow> nat \<Rightarrow> 'o files \<Rightarrow> 's \<Rightarrow> ('o files \<times> 's) option" where
  "exit_files_loop ops p 0 fs st = Some (fs, st)"
| "exit_files_loop ops p (Suc n) fs st =
     do {
       (fs, st) \<leftarrow> exit_slot ops p (MAX_FD - Suc n) fs st;
       exit_files_loop ops p n fs st
     }"

definition exit_files :: "('o \<Rightarrow> ('o, 's) vfs_file_operations) \<Rightarrow> nat \<Rightarrow> 'o files \<Rightarrow> 's \<Rightarrow> ('o files \<times> 's) option" where
  "exit_files ops p fs st = exit_files_loop ops p MAX_FD fs st"

section \<open>The counts\<close>

text \<open>The slots that refer to a file, and the invariant: the count of a file is their number, and a file without a
  reference has been freed.\<close>

definition refs :: "'o files \<Rightarrow> nat \<Rightarrow> (nat \<times> nat) set" where
  "refs fs a = {(p, i). i < MAX_FD \<and> fd fs p ! i = Some a}"

definition counted :: "'o vfs_file option \<Rightarrow> (nat \<times> nat) set \<Rightarrow> bool" where
  "counted file R \<longleftrightarrow> finite R \<and> (case file of None \<Rightarrow> R = {} | Some f \<Rightarrow> R \<noteq> {} \<and> f_count f = int (card R))"

definition files_ok :: "'o files \<Rightarrow> bool" where
  "files_ok fs \<longleftrightarrow> (\<forall>p. length (fd fs p) = MAX_FD) \<and> (\<forall>a. counted (filps fs a) (refs fs a))"

lemma files_okI:
  "(\<And>p. length (fd fs p) = MAX_FD) \<Longrightarrow> (\<And>a. counted (filps fs a) (refs fs a)) \<Longrightarrow> files_ok fs"
  by (simp add: files_ok_def)

lemma files_okD: "files_ok fs \<Longrightarrow> length (fd fs p) = MAX_FD" "files_ok fs \<Longrightarrow> counted (filps fs a) (refs fs a)"
  by (simp_all add: files_ok_def)

lemma refs_cong: "fd fs' = fd fs \<Longrightarrow> refs fs' = refs fs"
  by (rule ext) (simp add: refs_def)

lemma files_ok_cong: "fd fs' = fd fs \<Longrightarrow> filps fs' = filps fs \<Longrightarrow> files_ok fs' = files_ok fs"
  using refs_cong [of fs' fs] by (simp add: files_ok_def)

lemma refs_slot:
  assumes "length (fd fs p) = MAX_FD" and "i < MAX_FD" and "fd fs' = (fd fs)(p := (fd fs p)[i := v])"
  shows "refs fs' a = (if v = Some a then insert (p, i) (refs fs a) else refs fs a - {(p, i)})"
  using assms by (auto simp: refs_def nth_list_update split: if_splits)

lemma slot_ref: "i < MAX_FD \<Longrightarrow> fd fs p ! i = Some a \<longleftrightarrow> (p, i) \<in> refs fs a"
  by (simp add: refs_def)

lemma ref_file: "files_ok fs \<Longrightarrow> (p, i) \<in> refs fs a \<Longrightarrow> \<exists>file. filps fs a = Some file \<and> f_count file = int (card (refs fs a))"
  using files_okD(2) [of fs a] by (auto simp: counted_def split: option.splits)

text \<open>A file whose count does not change may change otherwise.\<close>

lemma files_ok_file:
  assumes "files_ok fs" and "filps fs a = Some file" and "f_count file' = f_count file" and "fd fs' = fd fs"
    and "filps fs' = (filps fs)(a := Some file')"
  shows "files_ok fs'"
proof (rule files_okI)
  show "length (fd fs' p) = MAX_FD" for p using files_okD(1) [OF assms(1)] assms(4) by simp
  show "counted (filps fs' b) (refs fs' b)" for b
    using files_okD(2) [OF assms(1), of b] assms(2,3,5) refs_cong [OF assms(4)] by (auto simp: counted_def)
qed

text \<open>A new file in an empty slot.\<close>

lemma files_ok_new:
  assumes "files_ok fs" and "filps fs a = None" and "i < MAX_FD" and "fd fs p ! i = None" and "f_count file = 1"
    and "fd fs' = (fd fs)(p := (fd fs p)[i := Some a])" and "filps fs' = (filps fs)(a := Some file)"
  shows "files_ok fs'"
proof (rule files_okI)
  show "length (fd fs' q) = MAX_FD" for q using files_okD(1) [OF assms(1)] assms(6) by simp
  have r: "refs fs' b = (if a = b then insert (p, i) (refs fs b) else refs fs b - {(p, i)})" for b
    using refs_slot [OF files_okD(1) [OF assms(1)] assms(3,6), of b] by simp
  have "(p, i) \<notin> refs fs b" for b using assms(3,4) by (simp add: refs_def)
  moreover have "refs fs a = {}" using files_okD(2) [OF assms(1), of a] assms(2) by (simp add: counted_def)
  ultimately have "refs fs' a = {(p, i)}" "b \<noteq> a \<Longrightarrow> refs fs' b = refs fs b" for b using r by simp_all
  then show "counted (filps fs' b) (refs fs' b)" for b
    using files_okD(2) [OF assms(1), of b] assms(5,7) by (cases "b = a") (auto simp: counted_def)
qed

text \<open>A reference goes away.\<close>

lemma files_ok_drop:
  assumes "files_ok fs" and "(p, i) \<in> refs fs a" and "filps fs a = Some file"
    and "fd fs' = (fd fs)(p := (fd fs p)[i := None])"
    and "filps fs' = (filps fs)(a := if f_count file = 1 then None else Some (file\<lparr>f_count := f_count file - 1\<rparr>))"
  shows "files_ok fs'"
proof (rule files_okI)
  show "length (fd fs' q) = MAX_FD" for q using files_okD(1) [OF assms(1)] assms(4) by simp
  have i: "i < MAX_FD" using assms(2) by (simp add: refs_def)
  have r: "refs fs' b = refs fs b - {(p, i)}" for b using refs_slot [OF files_okD(1) [OF assms(1)] i assms(4), of b] by simp
  have c: "finite (refs fs a)" "f_count file = int (card (refs fs a))"
    using files_okD(2) [OF assms(1), of a] assms(3) by (simp_all add: counted_def)
  have "card (refs fs a) = Suc (card (refs fs a - {(p, i)}))" using c(1) assms(2) by (rule card.remove)
  with c have a: "counted (filps fs' a) (refs fs' a)"
    unfolding r assms(5) by (auto simp: counted_def card_eq_0_iff)
  show "counted (filps fs' b) (refs fs' b)" for b
  proof (cases "b = a")
    case False
    then have "(p, i) \<notin> refs fs b" using assms(2) by (auto simp: refs_def)
    then show ?thesis using files_okD(2) [OF assms(1), of b] False assms(5) r [of b] by simp
  qed (use a in simp)
qed

subsection \<open>The operations keep the counts\<close>

lemma unused_slot:
  assumes "find_unused_fd_slot p l fs = Some i" and "0 \<le> i"
  shows "i < int MAX_FD \<and> l \<le> i \<and> fd fs p ! nat i = None \<and> (\<forall>j. l \<le> j \<and> j < i \<longrightarrow> fd fs p ! nat j \<noteq> None)"
proof -
  from assms have l: "0 \<le> l" by (auto simp: find_unused_fd_slot_def split: if_splits)
  obtain k where k: "for_find (nat l) MAX_FD (\<lambda>i. if fd fs p ! i = None then Some i else None) = Some k" "i = int k"
    using assms by (auto simp: find_unused_fd_slot_def errno_defs split: if_splits option.splits)
  from for_find_SomeE [OF k(1)] obtain n where n: "nat l \<le> n" "n < MAX_FD" "n = k" "fd fs p ! n = None"
      "\<And>j. nat l \<le> j \<Longrightarrow> j < n \<Longrightarrow> fd fs p ! j \<noteq> None"
    by (metis option.distinct(1) option.inject)
  have "fd fs p ! nat j \<noteq> None" if "l \<le> j" "j < i" for j using n(5) [of "nat j"] n(3) k(2) that l by simp
  then show ?thesis using n k(2) by auto
qed

definition keeps_count :: "('o \<Rightarrow> ('o, 's) vfs_file_operations) \<Rightarrow> bool" where
  "keeps_count ops \<longleftrightarrow>
     (\<forall>o1 f file st ret file' st'. op_open (ops o1) = Some f \<longrightarrow> f file st = Some (ret, file', st') \<longrightarrow> f_count file' = f_count file) \<and>
     (\<forall>o1 f file off wh. op_llseek (ops o1) = Some f \<longrightarrow> f_count (snd (f file off wh)) = f_count file)"

lemma f_count_open_filp: "f_count (open_filp inode fop flags) = 1"
  by (simp add: open_filp_def get_empty_filp_def Let_def)

lemma vfs_open_ok:
  assumes "files_ok fs" and "keeps_count ops" and "filps fs a = None" and "vfs_open ops p a walk flags fs st = Some (ret, fs', st')"
  shows "files_ok fs'"
proof -
  obtain i where i: "find_unused_fd_slot p 0 fs = Some i" using assms(4) by (auto simp: vfs_open_def bind_eq_Some_conv)
  show ?thesis
  proof (cases "fs' = fs")
    case False
    obtain inode fop where walk: "walk = Inr (inode, fop)" using assms(4) i False by (cases walk) (auto simp: vfs_open_def)
    let ?r = "case Option.bind fop (\<lambda>o1. op_open (ops o1)) of Some f \<Rightarrow> f (open_filp inode fop flags) st
      | None \<Rightarrow> Some (0, open_filp inode fop flags, st)"
    obtain r fl st1 where r: "?r = Some (r, fl, st1)"
      using assms(4) i walk by (cases ?r) (auto simp: vfs_open_def)
    have count: "f_count fl = 1"
      using r assms(2) f_count_open_filp [of inode fop flags]
      by (auto simp: keeps_count_def bind_eq_Some_conv split: option.splits) metis
    have neg: "\<not> r < 0" using assms(4) i walk r False by (auto simp: vfs_open_def)
    then have i0: "0 \<le> i" and fs': "fd fs' = (fd fs)(p := (fd fs p)[nat i := Some a])" "filps fs' = (filps fs)(a := Some fl)"
      using assms(4) i walk r by (auto simp: vfs_open_def set_fd_def Let_def split: if_splits)
    show ?thesis
      using unused_slot [OF i i0] i0 by (intro files_ok_new [OF assms(1,3) _ _ count fs']) auto
  qed (use assms(1) in simp)
qed

lemma close_slot_ok:
  assumes "files_ok fs" and "close_slot ops p i fs st = Some (ret, fs', st')"
  shows "files_ok fs'"
proof -
  obtain slot where i: "0 \<le> i" "i < int MAX_FD" "fd_slot p i fs = Some slot" "slot = fd fs p ! nat i"
    using assms(2) by (auto simp: close_slot_def fd_slot_def split: if_splits)
  show ?thesis
  proof (cases slot)
    case None
    then have "fd fs' = fd fs" "filps fs' = filps fs"
      using assms(2) i files_okD(1) [OF assms(1), of p]
      by (auto simp: close_slot_def set_fd_def fun_eq_iff nth_list_update intro!: nth_equalityI split: if_splits)
    then show ?thesis using files_ok_cong assms(1) by blast
  next
    case (Some a)
    then have slot: "fd fs p ! nat i = Some a" and ref: "(p, nat i) \<in> refs fs a" using i by (simp_all add: refs_def)
    from ref_file [OF assms(1) ref] obtain fl where f: "filps fs a = Some fl" by blast
    have "fd fs' = (fd fs)(p := (fd fs p)[nat i := None])"
        "filps fs' = (filps fs)(a := if f_count fl = 1 then None else Some (fl\<lparr>f_count := f_count fl - 1\<rparr>))"
      using assms(2) i(1,2) slot f by (auto simp: close_slot_def fd_slot_def set_fd_def Let_def bind_eq_Some_conv split: if_splits)
    then show ?thesis by (rule files_ok_drop [OF assms(1) ref f])
  qed
qed

lemma vfs_close_ok:
  assumes "files_ok fs" and "vfs_close hs irqs ops p i fs st s = Some (oc, fs', st', s')"
  shows "files_ok fs'"
proof -
  have lock: "files_ok (fs1\<lparr>fd_lock := l\<rparr>) = files_ok fs1" for l and fs1 :: "'a files" by (rule files_ok_cong) simp_all
  obtain sem s1 where acq: "acquire_semaphore hs irqs (fd_lock fs p) s = Some (sem, s1)"
    using assms(2) by (auto simp: vfs_close_def Let_def bind_eq_Some_conv)
  show ?thesis
  proof (cases "0 < sem_count (fd_lock fs p)")
    case True
    then obtain ret fs1 where "close_slot ops p i (fs\<lparr>fd_lock := (fd_lock fs)(p := sem)\<rparr>) st = Some (ret, fs1, st')"
        "\<exists>l. fs' = fs1\<lparr>fd_lock := l\<rparr>"
      using assms(2) acq by (auto simp: vfs_close_def Let_def bind_eq_Some_conv)
    with close_slot_ok [OF _ this(1)] assms(1) lock show ?thesis by auto
  next
    case False
    then show ?thesis using assms acq lock by (auto simp: vfs_close_def Let_def)
  qed
qed

lemma vfs_flseek_ok:
  assumes "files_ok fs" and "keeps_count ops" and "vfs_flseek ops p i off wh fs = Some (ret, fs')"
  shows "files_ok fs'"
proof (cases "fs' = fs")
  case False
  then obtain a fl o1 f where f: "filps fs a = Some fl" "op_llseek (ops o1) = Some f"
      "fs' = fs\<lparr>filps := (filps fs)(a := Some (snd (f fl off wh)))\<rparr>"
    using assms(3) by (auto simp: vfs_flseek_def bind_eq_Some_conv Let_def split_beta split: if_splits option.splits)
  then have "f_count (snd (f fl off wh)) = f_count fl" using assms(2) by (auto simp: keeps_count_def)
  then show ?thesis using f by (intro files_ok_file [OF assms(1) f(1)]) simp_all
qed (use assms(1) in simp)

lemma do_fcntl_ok:
  assumes "files_ok fs" and "cmd \<noteq> F_DUPFD" and "do_fcntl p i cmd arg fs = Some (ret, fs')"
  shows "files_ok fs'"
proof (cases "fs' = fs")
  case False
  with assms(2,3) obtain a fl where f: "filps fs a = Some fl"
      "fs' = fs\<lparr>filps := (filps fs)(a := Some (fl\<lparr>f_flags := arg\<rparr>))\<rparr> \<or> fs' = fs\<lparr>filps := (filps fs)(a := Some (fl\<lparr>f_mode := arg\<rparr>))\<rparr>"
    by (fastforce simp: do_fcntl_def bind_eq_Some_conv split: if_splits option.splits)
  from f(2) show ?thesis
  proof
    assume eq: "fs' = fs\<lparr>filps := (filps fs)(a := Some (fl\<lparr>f_flags := arg\<rparr>))\<rparr>"
    show ?thesis by (rule files_ok_file [OF assms(1) f(1), of "fl\<lparr>f_flags := arg\<rparr>"]) (simp_all add: eq)
  next
    assume eq: "fs' = fs\<lparr>filps := (filps fs)(a := Some (fl\<lparr>f_mode := arg\<rparr>))\<rparr>"
    show ?thesis by (rule files_ok_file [OF assms(1) f(1), of "fl\<lparr>f_mode := arg\<rparr>"]) (simp_all add: eq)
  qed
qed (use assms(1) in simp)

text \<open>The number of slots of a table that refer to a file.\<close>

definition slots_of :: "nat option list \<Rightarrow> nat \<Rightarrow> nat" where
  "slots_of slots a = length (filter (\<lambda>slot. slot = Some a) slots)"

lemma count_slots_Some:
  assumes "\<And>a. Some a \<in> set slots \<Longrightarrow> fm a \<noteq> None"
  shows "count_slots slots fm = Some (\<lambda>a. map_option (\<lambda>f. f\<lparr>f_count := f_count f + int (slots_of slots a)\<rparr>) (fm a))"
  using assms
proof (induction slots arbitrary: fm)
  case Nil
  have "map_option (\<lambda>f. f\<lparr>f_count := f_count f + int (slots_of [] a)\<rparr>) (fm a) = fm a" for a
    by (cases "fm a") (simp_all add: slots_of_def)
  then show ?case by simp
next
  case (Cons slot slots)
  show ?case
  proof (cases slot)
    case None
    then show ?thesis using Cons by (simp add: slots_of_def)
  next
    case (Some b)
    then obtain f where f: "fm b = Some f" using Cons.prems [of b] by auto
    have IH: "count_slots slots (fm(b := Some (f\<lparr>f_count := f_count f + 1\<rparr>))) =
        Some (\<lambda>a. map_option (\<lambda>f. f\<lparr>f_count := f_count f + int (slots_of slots a)\<rparr>) ((fm(b := Some (f\<lparr>f_count := f_count f + 1\<rparr>))) a))"
      using Cons.prems by (intro Cons.IH) auto
    show ?thesis using Some f by (auto simp: IH slots_of_def fun_eq_iff)
  qed
qed

lemma card_slots: "card {(q, i). q = c \<and> i < length slots \<and> slots ! i = Some a} = slots_of slots a"
proof -
  have "{(q, i). q = c \<and> i < length slots \<and> slots ! i = Some a} = Pair c ` {i. i < length slots \<and> slots ! i = Some a}" by auto
  then show ?thesis by (simp add: card_image inj_on_def slots_of_def length_filter_conv_card)
qed

lemma clone_ok:
  assumes "files_ok fs" and "fd fs child = replicate MAX_FD None" and "p \<noteq> child"
  shows "\<exists>fs'. clone_file_descriptor_table (Some p) child fs = Some fs' \<and> files_ok fs' \<and> fd fs' = (fd fs)(child := fd fs p)"
proof -
  have len: "length (fd fs p) = MAX_FD" by (rule files_okD(1) [OF assms(1)])
  have alloc: "filps fs a \<noteq> None" if "Some a \<in> set (fd fs p)" for a
  proof -
    from that [unfolded in_set_conv_nth] len obtain i where "i < MAX_FD" "fd fs p ! i = Some a" by auto
    then show ?thesis using ref_file [OF assms(1), of p i a] by (auto simp: refs_def)
  qed
  define fs' where "fs' = fs\<lparr>fd := (fd fs)(child := fd fs p),
    filps := (\<lambda>a. map_option (\<lambda>f. f\<lparr>f_count := f_count f + int (slots_of (fd fs p) a)\<rparr>) (filps fs a)),
    fd_lock := (fd_lock fs)(child := sema_init 1)\<rparr>"
  have "clone_file_descriptor_table (Some p) child fs = Some fs'"
    using count_slots_Some [OF alloc] by (simp add: clone_file_descriptor_table_def fs'_def)
  moreover have "files_ok fs'"
  proof (rule files_okI)
    show "length (fd fs' q) = MAX_FD" for q using files_okD(1) [OF assms(1)] by (simp add: fs'_def)
    fix a
    let ?N = "{(q, i). q = child \<and> i < length (fd fs p) \<and> fd fs p ! i = Some a}"
    have "(child, i) \<notin> refs fs a" for i using assms(2) by (auto simp: refs_def)
    then have disj: "refs fs a \<inter> ?N = {}" by auto
    have new: "fd fs' = (fd fs)(child := fd fs p)" by (simp add: fs'_def)
    have refs: "refs fs' a = refs fs a \<union> ?N" using assms(2) unfolding refs_def new len by (auto split: if_splits)
    have fin: "finite ?N" by (rule finite_subset [of _ "{child} \<times> {..<MAX_FD}"]) (auto simp: len)
    have none: "refs fs a = {} \<Longrightarrow> ?N = {}" using len by (auto simp: refs_def)
    note c = files_okD(2) [OF assms(1), of a]
    show "counted (filps fs' a) (refs fs' a)"
    proof (cases "filps fs a")
      case None
      then show ?thesis unfolding refs using c none by (simp add: counted_def fs'_def)
    next
      case (Some f)
      with c have c': "finite (refs fs a)" "refs fs a \<noteq> {}" "f_count f = int (card (refs fs a))" by (simp_all add: counted_def)
      then have "card (refs fs' a) = card (refs fs a) + slots_of (fd fs p) a"
        unfolding refs by (simp only: card_Un_disjoint [OF c'(1) fin disj] card_slots)
      moreover have "finite (refs fs' a)" "refs fs' a \<noteq> {}" unfolding refs using c'(1,2) fin by simp_all
      ultimately show ?thesis using Some c'(3) by (simp add: counted_def fs'_def)
    qed
  qed
  ultimately show ?thesis by (auto simp: fs'_def)
qed

lemma exit_slot_ok:
  assumes "files_ok fs" and "i < MAX_FD" and "exit_slot ops p i fs st = Some (fs', st')"
  shows "files_ok fs'"
proof (cases "fs' = fs")
  case False
  then obtain a fl where a: "fd fs p ! i = Some a" "filps fs a = Some fl" "f_count fl = 1"
      "fs' = fs\<lparr>filps := (filps fs)(a := None), fd := (fd fs)(p := (fd fs p)[i := None])\<rparr>"
    using assms(3) by (auto simp: exit_slot_def bind_eq_Some_conv split: if_splits option.splits)
  have "(p, i) \<in> refs fs a" using a(1) assms(2) by (simp add: refs_def)
  then show ?thesis by (rule files_ok_drop [OF assms(1) _ a(2)]) (simp_all add: a(3,4))
qed (use assms(1) in simp)

lemma exit_files_ok:
  assumes "files_ok fs" and "exit_files ops p fs st = Some (fs', st')"
  shows "files_ok fs'"
proof -
  have "exit_files_loop ops p n fs st = Some (fs', st') \<Longrightarrow> n \<le> MAX_FD \<Longrightarrow> files_ok fs \<Longrightarrow> files_ok fs'" for n fs st
  proof (induction n arbitrary: fs st)
    case (Suc n)
    from Suc.prems(1) obtain fs1 st1 where s1: "exit_slot ops p (MAX_FD - Suc n) fs st = Some (fs1, st1)"
        "exit_files_loop ops p n fs1 st1 = Some (fs', st')"
      by (auto simp: bind_eq_Some_conv)
    have "files_ok fs1" by (rule exit_slot_ok [OF Suc.prems(3) _ s1(1)]) (simp add: MAX_FD_def)
    then show ?case using Suc.IH [OF s1(2)] Suc.prems(2) by simp
  qed simp
  then show ?thesis using assms by (simp add: exit_files_def)
qed

section \<open>Any number of processes\<close>

text \<open>The steps of processes on their files: all but the two duplications. A fork takes a process number that is not in use.\<close>

inductive file_step :: "('o \<Rightarrow> ('o, 's) vfs_file_operations) \<Rightarrow> 'o files \<times> 's \<Rightarrow> 'o files \<times> 's \<Rightarrow> bool" for ops where
  fopen: "filps fs a = None \<Longrightarrow> vfs_open ops p a walk flags fs st = Some (ret, fs', st') \<Longrightarrow> file_step ops (fs, st) (fs', st')"
| fclose: "vfs_close hs irqs ops p i fs st s = Some (oc, fs', st', s') \<Longrightarrow> file_step ops (fs, st) (fs', st')"
| fclose_resumed: "close_slot ops p i fs st = Some (ret, fs', st') \<Longrightarrow> file_step ops (fs, st) (fs', st')"
| fread: "vfs_fread ops p i buf fs st = Some (ret, buf', st') \<Longrightarrow> file_step ops (fs, st) (fs, st')"
| fwrite: "vfs_fwrite ops p i buf fs st = Some (ret, st') \<Longrightarrow> file_step ops (fs, st) (fs, st')"
| fseek: "vfs_flseek ops p i off wh fs = Some (pos, fs') \<Longrightarrow> file_step ops (fs, st) (fs', st)"
| fctl: "cmd \<noteq> F_DUPFD \<Longrightarrow> do_fcntl p i cmd arg fs = Some (ret, fs') \<Longrightarrow> file_step ops (fs, st) (fs', st)"
| fork: "fd fs child = replicate MAX_FD None \<Longrightarrow> p \<noteq> child \<Longrightarrow> clone_file_descriptor_table (Some p) child fs = Some fs' \<Longrightarrow>
    file_step ops (fs, st) (fs', st)"
| exits: "exit_files ops p fs st = Some (fs', st') \<Longrightarrow> file_step ops (fs, st) (fs', st')"

lemma file_step_ok: "file_step ops c c' \<Longrightarrow> keeps_count ops \<Longrightarrow> files_ok (fst c) \<Longrightarrow> files_ok (fst c')"
proof (induction rule: file_step.induct)
  case (fork fs child p fs' st)
  then show ?case using clone_ok [of fs child p] by auto
qed (auto dest: vfs_open_ok vfs_close_ok close_slot_ok vfs_flseek_ok do_fcntl_ok exit_files_ok)

lemma file_steps_ok: "(file_step ops)\<^sup>*\<^sup>* c c' \<Longrightarrow> keeps_count ops \<Longrightarrow> files_ok (fst c) \<Longrightarrow> files_ok (fst c')"
  by (induction rule: rtranclp_induct) (auto dest: file_step_ok)

text \<open>C20: Whatever processes do with their files, apart from duplicating descriptors: every descriptor in use leads to a file that
  has not been freed, the count of a file is the number of descriptors of all processes that refer to it, and a file
  without a descriptor has been freed.\<close>

theorem file_counts_correct:
  assumes "(file_step ops)\<^sup>*\<^sup>* (fs0, st0) (fs, st)" and "keeps_count ops"
    and "\<forall>p. fd fs0 p = replicate MAX_FD None" and "\<forall>a. filps fs0 a = None"
  shows "(\<forall>p i a. i < MAX_FD \<and> fd fs p ! i = Some a \<longrightarrow>
       (\<exists>f. filps fs a = Some f \<and> f_count f = int (card {(q, j). j < MAX_FD \<and> fd fs q ! j = Some a}))) \<and>
     (\<forall>a f. filps fs a = Some f \<longrightarrow> (\<exists>p i. i < MAX_FD \<and> fd fs p ! i = Some a))"
proof -
  have "refs fs0 a = {}" for a using assms(3) by (auto simp: refs_def)
  then have "files_ok fs0" using assms(3,4) by (simp add: files_ok_def counted_def)
  then have ok: "files_ok fs" using file_steps_ok [OF assms(1,2)] by simp
  have "\<exists>p i. i < MAX_FD \<and> fd fs p ! i = Some a" if "filps fs a = Some f" for a f
    using files_okD(2) [OF ok, of a] that by (auto simp: counted_def refs_def)
  then show ?thesis using ref_file [OF ok] unfolding refs_def by blast
qed

definition files_example :: "unit files" where
  "files_example = \<lparr>fd = (\<lambda>_. replicate 256 None), fd_lock = (\<lambda>_. sema_init 1), filps = (\<lambda>_. None), i_size = (\<lambda>_. 0), i_count = (\<lambda>_. 0)\<rparr>"

definition ops_example :: "unit \<Rightarrow> (unit, unit) vfs_file_operations" where
  "ops_example _ = \<lparr>op_llseek = None, op_read = None, op_write = None, op_open = None, op_release = None\<rparr>"

lemma unused_first: "fd fs p ! 0 = None \<Longrightarrow> find_unused_fd_slot p 0 fs = Some 0"
  by (simp add: find_unused_fd_slot_def for_find_step MAX_FD_def)

theorem file_counts_correct_witness:
  "\<exists>fs1 fs2 f. vfs_open ops_example 1 7 (Inr (5, Some ())) 0 files_example () = Some (0, fs1, ()) \<and>
    clone_file_descriptor_table (Some 1) 2 fs1 = Some fs2 \<and> filps fs2 7 = Some f \<and>
    f_count f = int (card {(q, j). j < MAX_FD \<and> fd fs2 q ! j = Some 7})"
proof -
  have "refs files_example a = {}" for a by (auto simp: files_example_def refs_def MAX_FD_def)
  then have empty: "files_ok files_example" "filps files_example 7 = None" "keeps_count ops_example"
    by (simp_all add: files_example_def files_ok_def MAX_FD_def counted_def keeps_count_def ops_example_def)
  have "find_unused_fd_slot 1 0 files_example = Some 0" by (rule unused_first) (simp add: files_example_def)
  then obtain fs1 where fs1: "vfs_open ops_example 1 7 (Inr (5, Some ())) 0 files_example () = Some (0, fs1, ())"
      "fd fs1 = (\<lambda>_. replicate 256 None)(1 := (replicate 256 None)[0 := Some 7])"
    by (simp add: vfs_open_def ops_example_def set_fd_def MAX_FD_def files_example_def Let_def)
  have ok1: "files_ok fs1" by (rule vfs_open_ok [OF empty(1,3,2) fs1(1)])
  have child: "fd fs1 2 = replicate MAX_FD None" by (simp add: fs1(2) MAX_FD_def)
  from clone_ok [OF ok1 child, of 1] obtain fs2 where
    fs2: "clone_file_descriptor_table (Some 1) 2 fs1 = Some fs2" "fd fs2 = (fd fs1)(2 := fd fs1 1)" by auto
  have "file_step ops_example (files_example, ()) (fs1, ())" by (rule file_step.fopen [OF empty(2) fs1(1)])
  moreover have "file_step ops_example (fs1, ()) (fs2, ())" by (rule file_step.fork [OF child _ fs2(1)]) simp
  ultimately have "(file_step ops_example)\<^sup>*\<^sup>* (files_example, ()) (fs2, ())" by auto
  from file_counts_correct [OF this empty(3)] have
    "\<forall>p i a. i < MAX_FD \<and> fd fs2 p ! i = Some a \<longrightarrow>
       (\<exists>f. filps fs2 a = Some f \<and> f_count f = int (card {(q, j). j < MAX_FD \<and> fd fs2 q ! j = Some a}))"
    by (simp add: files_example_def MAX_FD_def)
  moreover have "0 < MAX_FD \<and> fd fs2 1 ! 0 = Some 7" by (simp add: fs2(2) fs1(2) MAX_FD_def)
  ultimately have "\<exists>f. filps fs2 7 = Some f \<and> f_count f = int (card {(q, j). j < MAX_FD \<and> fd fs2 q ! j = Some 7})"
    by blast
  then show ?thesis using fs1(1) fs2(1) by blast
qed

section \<open>Duplicated descriptors\<close>

text \<open>A descriptor that is duplicated with \<open>dup2\<close> and closed leaves the other descriptor with the freed file: a read from
  it is an access to freed memory.\<close>

theorem dup2_close_dangling:
  assumes "fd fs p ! nat i = Some a" and "filps fs a = Some f" and "f_count f = 1" and "f_op f = None \<or> (\<exists>o1. f_op f = Some o1 \<and> op_release (ops o1) = None)"
    and "0 \<le> i" and "i < int MAX_FD" and "0 \<le> j" and "j < int MAX_FD" and "i \<noteq> j" and "length (fd fs p) = MAX_FD"
  shows "\<exists>fs1 fs2. sys_dup2 p i j fs = Some (j, fs1) \<and> close_slot ops p i fs1 st = Some (0, fs2, st) \<and>
    fd fs2 p ! nat j = Some a \<and> vfs_fread ops p j buf fs2 st = None"
proof -
  have ij: "nat i \<noteq> nat j" using assms(5,7,9) by simp
  define fs1 where "fs1 = fs\<lparr>fd := (fd fs)(p := (fd fs p)[nat j := Some a])\<rparr>"
  have "sys_dup2 p i j fs = Some (j, fs1)" using assms by (simp add: sys_dup2_def fd_slot_def set_fd_def fs1_def)
  moreover define fs2 where "fs2 = fs1\<lparr>filps := (filps fs)(a := None), fd := (fd fs1)(p := (fd fs1 p)[nat i := None])\<rparr>"
  have "close_slot ops p i fs1 st = Some (0, fs2, st)"
    using assms ij by (auto simp: close_slot_def fd_slot_def set_fd_def fs1_def fs2_def)
  moreover have "fd fs2 p ! nat j = Some a" "vfs_fread ops p j buf fs2 st = None"
    using assms(7,8,10) ij by (simp_all add: fs1_def fs2_def vfs_fread_def fd_slot_def nth_list_update MAX_FD_def)
  ultimately show ?thesis by blast
qed

theorem dup2_close_dangling_witness:
  "let fs = files_example\<lparr>fd := (\<lambda>_. (replicate 256 None)[3 := Some 7]), filps := (\<lambda>_. None)(7 := Some get_empty_filp)\<rparr>
   in \<exists>fs1 fs2. sys_dup2 1 3 4 fs = Some (4, fs1) \<and> close_slot ops_example 1 3 fs1 () = Some (0, fs2, ()) \<and>
     vfs_fread ops_example 1 4 [] fs2 () = None"
proof -
  let ?fs = "files_example\<lparr>fd := (\<lambda>_. (replicate 256 None)[3 := Some 7]), filps := (\<lambda>_. None)(7 := Some get_empty_filp)\<rparr>"
  show ?thesis
    using dup2_close_dangling [of ?fs 1 3 7 get_empty_filp ops_example 4 "()" "[]"]
    by (auto simp: get_empty_filp_def MAX_FD_def Let_def)
qed

end
