(* ===== verification/Byte_Memory.thy ===== *)
theory Byte_Memory
  imports Kernel_Prelude
begin

text \<open>
  Memory as the string routines of \<open>kernel/utils/string/\<close> see it: a byte for every address, and 32-bit words
  (\<open>op_t\<close>, \<open>unsigned long int\<close>) that are read and written in the byte order of the i386.
\<close>

type_synonym mem = "u32 \<Rightarrow> u8"

section \<open>Words in memory\<close>

definition ld32 :: "mem \<Rightarrow> u32 \<Rightarrow> u32" where
  "ld32 m a = ucast (m a) OR push_bit 8 (ucast (m (a + 1))) OR push_bit 16 (ucast (m (a + 2))) OR push_bit 24 (ucast (m (a + 3)))"

definition st32 :: "u32 \<Rightarrow> u32 \<Rightarrow> mem \<Rightarrow> mem" where
  "st32 a w m = m(a := ucast w, a + 1 := ucast (drop_bit 8 w), a + 2 := ucast (drop_bit 16 w), a + 3 := ucast (drop_bit 24 w))"

definition ld16 :: "mem \<Rightarrow> u32 \<Rightarrow> u16" where
  "ld16 m a = ucast (m a) OR push_bit 8 (ucast (m (a + 1)))"

definition st16 :: "u32 \<Rightarrow> u16 \<Rightarrow> mem \<Rightarrow> mem" where
  "st16 a w m = m(a := ucast w, a + 1 := ucast (drop_bit 8 w))"

lemma u8_bound: "unat (x :: u8) < 256"
  using unsigned_less [of x] by simp

lemma bit_u8: "bit (x :: u8) n \<Longrightarrow> n < 8"
  using bit_imp_le_length [of x n] by simp

lemma bit_ld32: "n < 32 \<Longrightarrow> bit (ld32 m a) n = bit (m (a + of_nat (n div 8))) (n mod 8)"
proof -
  assume n: "n < 32"
  consider "n < 8" | "8 \<le> n" "n < 16" | "16 \<le> n" "n < 24" | "24 \<le> n" using n by linarith
  then show ?thesis
  proof cases
    case 1
    then show ?thesis by (auto simp: ld32_def bit_simps dest: bit_u8)
  next
    case 2
    then have "n div 8 = 1" "n mod 8 = n - 8" by (simp_all add: div_eq_dividend_iff le_div_geq le_mod_geq)
    with 2 show ?thesis by (auto simp: ld32_def bit_simps dest: bit_u8)
  next
    case 3
    then have "n div 8 = 2" "n mod 8 = n - 16" by (simp_all add: le_div_geq le_mod_geq)
    with 3 show ?thesis by (auto simp: ld32_def bit_simps dest: bit_u8)
  next
    case 4
    then have "n div 8 = 3" "n mod 8 = n - 24" using n by (simp_all add: le_div_geq le_mod_geq)
    with 4 n show ?thesis by (auto simp: ld32_def bit_simps dest: bit_u8)
  qed
qed

text \<open>Two words are equal exactly when their bytes are.\<close>

lemma word_offset_neq: "i < 4294967296 \<Longrightarrow> j < 4294967296 \<Longrightarrow> i \<noteq> j \<Longrightarrow> (a :: u32) + of_nat i \<noteq> a + of_nat j"
  by (metis add_left_cancel unat_of_nat_u32)

lemma st32_byte: "k < 4 \<Longrightarrow> st32 a w m (a + of_nat k) = ucast (drop_bit (8 * k) w)"
proof -
  have "(of_nat i :: u32) \<noteq> of_nat j" if "i < 4" "j < 4" "i \<noteq> j" for i j :: nat
    using word_offset_neq [of i j 0] that by simp
  from this [of 0 1] this [of 0 2] this [of 0 3] this [of 1 2] this [of 1 3] this [of 2 3]
  have "(0 :: u32) \<noteq> 1" "(0 :: u32) \<noteq> 2" "(0 :: u32) \<noteq> 3" "(1 :: u32) \<noteq> 2" "(1 :: u32) \<noteq> 3" "(2 :: u32) \<noteq> 3" by simp_all
  moreover assume "k < 4"
  then have "k = 0 \<or> k = 1 \<or> k = 2 \<or> k = 3" by linarith
  ultimately show ?thesis by (elim disjE) (simp_all add: st32_def)
qed

lemma ld32_st32: "ld32 (st32 a w m) a = w"
proof (rule bit_eqI)
  fix n assume "possible_bit TYPE(u32) n"
  then have n: "n < 32" by simp
  then have "n div 8 < 4" by simp
  then show "bit (ld32 (st32 a w m) a) n = bit w n"
    using n by (simp add: bit_ld32 st32_byte bit_simps)
qed

lemma ld32_eq_iff:
  "ld32 m a = ld32 m' b \<longleftrightarrow> m a = m' b \<and> m (a + 1) = m' (b + 1) \<and> m (a + 2) = m' (b + 2) \<and> m (a + 3) = m' (b + 3)"
proof
  assume eq: "ld32 m a = ld32 m' b"
  have "m (a + of_nat k) = m' (b + of_nat k)" if "k < 4" for k
  proof (rule bit_eqI)
    fix n assume "possible_bit TYPE(u8) n"
    then have n: "n < 8" by simp
    have "bit (ld32 m a) (8 * k + n) = bit (ld32 m' b) (8 * k + n)" using eq by simp
    then show "bit (m (a + of_nat k)) n = bit (m' (b + of_nat k)) n" using that n by (simp add: bit_ld32)
  qed
  from this [of 0] this [of 1] this [of 2] this [of 3]
  show "m a = m' b \<and> m (a + 1) = m' (b + 1) \<and> m (a + 2) = m' (b + 2) \<and> m (a + 3) = m' (b + 3)" by simp
qed (simp add: ld32_def)

section \<open>Looking for a zero byte\<close>

definition zero_byte :: "nat \<Rightarrow> u32 \<Rightarrow> bool" where
  "zero_byte k w \<longleftrightarrow> (\<forall>n. 8 * k \<le> n \<and> n < 8 * k + 8 \<longrightarrow> \<not> bit w n)"

lemma zero_byte_ld32: "k < 4 \<Longrightarrow> m (a + of_nat k) = 0 \<Longrightarrow> zero_byte k (ld32 m a)"
proof (unfold zero_byte_def, intro allI impI)
  fix n assume k: "k < 4" "m (a + of_nat k) = 0" and n: "8 * k \<le> n \<and> n < 8 * k + 8"
  then have "n div 8 = k" by (simp add: div_nat_eqI)
  with k n show "\<not> bit (ld32 m a) n" by (simp add: bit_ld32)
qed

lemma zero_byte_low: "zero_byte k w \<Longrightarrow> unat w mod 2 ^ (8 * k + 8) < 2 ^ (8 * k)"
proof -
  assume z: "zero_byte k w"
  have "take_bit (8 * k + 8) w = take_bit (8 * k) w"
    using z by (intro bit_eqI) (auto simp: bit_simps zero_byte_def not_less)
  then have "unat (take_bit (8 * k + 8) w) = unat (take_bit (8 * k) w)" by simp
  then have "take_bit (8 * k + 8) (unat w) = take_bit (8 * k) (unat w)" by (simp add: unsigned_take_bit_eq)
  then show ?thesis by (metis take_bit_eq_mod take_bit_nat_less_exp)
qed

lemma bit_nat_iff_mod: "bit (y :: nat) n \<longleftrightarrow> 2 ^ n \<le> y mod 2 ^ Suc n"
proof -
  have "y mod 2 ^ Suc n = 2 ^ n * (y div 2 ^ n mod 2) + y mod 2 ^ n"
    unfolding power_Suc2 by (rule mod_mult2_eq)
  moreover have "y mod 2 ^ n < 2 ^ n" by simp
  moreover have "bit y n \<longleftrightarrow> y div 2 ^ n mod 2 = 1" by (simp only: bit_iff_odd odd_iff_mod_2_eq_one)
  moreover have "y div 2 ^ n mod 2 = 0 \<or> y div 2 ^ n mod 2 = 1" by linarith
  ultimately show ?thesis by (elim disjE) (simp_all add: not_le)
qed

lemma bit_word_plus: "n < 32 \<Longrightarrow> bit (x + y :: u32) n = bit (unat x + unat y) n"
proof -
  assume n: "n < 32"
  have "bit (x + y) n = bit (unat (x + y)) n" using n by (simp add: bit_simps)
  also have "unat (x + y) = take_bit 32 (unat x + unat y)" by (simp add: unat_word_ariths take_bit_eq_mod)
  finally show ?thesis using n by (simp add: bit_take_bit_iff)
qed

text \<open>\<open>longword - lomagic\<close> has the top bit of every zero byte set: 0xfefefeff is \<open>- lomagic\<close>.\<close>

lemma bit_plus_magic:
  assumes "n < 32" and "unat w mod 2 ^ Suc n < c" and "unat (M :: u32) mod 2 ^ Suc n = d" and "2 ^ n \<le> d" "c + d \<le> 2 ^ Suc n"
  shows "bit (w + M) n"
proof -
  have "(unat w + unat M) mod 2 ^ Suc n = unat w mod 2 ^ Suc n + d"
  proof -
    have "(unat w + unat M) mod 2 ^ Suc n = (unat w mod 2 ^ Suc n + unat M mod 2 ^ Suc n) mod 2 ^ Suc n"
      by (rule mod_add_eq [symmetric])
    also have "\<dots> = (unat w mod 2 ^ Suc n + d) mod 2 ^ Suc n" by (simp only: assms(3))
    also have "\<dots> = unat w mod 2 ^ Suc n + d" using assms(2,5) by (intro mod_less) linarith
    finally show ?thesis .
  qed
  then have "2 ^ n \<le> (unat w + unat M) mod 2 ^ Suc n" using assms(4) by (simp only:)
  then show ?thesis using assms(1) by (simp only: bit_word_plus bit_nat_iff_mod)
qed

lemma zero_byte_minus_lomagic:
  assumes z: "zero_byte k w" and k: "k < 4"
  shows "bit (w - 0x01010101) (8 * k + 7)"
proof -
  have eq: "w - 0x01010101 = w + 0xfefefeff" unfolding diff_conv_add_uminus by simp
  note low = zero_byte_low [OF z]
  from k consider "k = 0" | "k = 1" | "k = 2" | "k = 3" by linarith
  then have "bit (w + 0xfefefeff) (8 * k + 7)"
  proof cases
    case 1
    then show ?thesis using bit_plus_magic [of 7 w 1 "0xfefefeff" "0xff"] low by simp
  next
    case 2
    then show ?thesis using bit_plus_magic [of 15 w "2 ^ 8" "0xfefefeff" "0xfeff"] low by simp
  next
    case 3
    then show ?thesis using bit_plus_magic [of 23 w "2 ^ 16" "0xfefefeff" "0xfefeff"] low by simp
  next
    case 4
    then show ?thesis using bit_plus_magic [of 31 w "2 ^ 24" "0xfefefeff" "0xfefefeff"] low by simp
  qed
  then show ?thesis by (simp only: eq)
qed

text \<open>Adding 0x7efefeff leaves the hole behind every zero byte unchanged.\<close>

definition hole :: "nat \<Rightarrow> nat" where
  "hole k = (if k = 3 then 31 else 8 * k + 8)"

lemma bit_plus_hole:
  assumes "n < 32" and "unat w mod 2 ^ n < c" and "unat (M :: u32) mod 2 ^ n = d" and "c + d \<le> 2 ^ n" and "even (unat M div 2 ^ n)"
  shows "bit (w + M) n = bit w n"
proof -
  have "(unat w + unat M) div 2 ^ n = unat w div 2 ^ n + unat M div 2 ^ n + (unat w mod 2 ^ n + unat M mod 2 ^ n) div 2 ^ n"
    by (rule div_add1_eq)
  moreover have "(unat w mod 2 ^ n + unat M mod 2 ^ n) div 2 ^ n = 0" using assms(2-4) by simp
  ultimately have "odd ((unat w + unat M) div 2 ^ n) = odd (unat w div 2 ^ n)" using assms(5) by simp
  then show ?thesis using assms(1) by (simp add: bit_word_plus bit_iff_odd [of "unat w + unat M"]) (simp add: bit_iff_odd [symmetric] bit_simps)
qed

lemma zero_byte_plus_magic_bits:
  assumes z: "zero_byte k w" and k: "k < 4"
  shows "bit (w + 0x7efefeff) (hole k) = bit w (hole k)"
proof -
  note low = zero_byte_low [OF z]
  from k consider "k = 0" | "k = 1" | "k = 2" | "k = 3" by linarith
  then show ?thesis
  proof cases
    case 1
    then show ?thesis using bit_plus_hole [of 8 w 1 "0x7efefeff" "0xff"] low by (simp add: hole_def)
  next
    case 2
    then show ?thesis using bit_plus_hole [of 16 w "2 ^ 8" "0x7efefeff" "0xfeff"] low by (simp add: hole_def)
  next
    case 3
    then show ?thesis using bit_plus_hole [of 24 w "2 ^ 16" "0x7efefeff" "0xfefeff"] low by (simp add: hole_def)
  next
    case 4
    have "unat w mod 2 ^ 32 mod 2 ^ 31 = unat w mod 2 ^ 31" by (rule mod_mod_cancel) simp
    moreover have "unat w mod 2 ^ 32 < 2 ^ 24" using low 4 by simp
    ultimately have "unat w mod 2 ^ 31 < 2 ^ 24" by (metis le_less_trans mod_less_eq_dividend)
    then show ?thesis using 4 bit_plus_hole [of 31 w "2 ^ 24" "0x7efefeff" "0x7efefeff"] by (simp add: hole_def)
  qed
qed

end
