(* ===== verification/Str_Scan.thy ===== *)
theory Str_Scan
  imports Byte_Memory
begin

text \<open>
  The routines of \<open>kernel/utils/string/\<close> that look for a byte: \<open>strlen\<close>, \<open>strnlen\<close>, \<open>strchr\<close>, \<open>strchrnul\<close>,
  \<open>strrchr\<close>, \<open>strcspn\<close>, \<open>strpbrk\<close> and \<open>strsep\<close>.

  They go byte by byte up to a word boundary and then test four bytes at a time with a trick on the carries of an
  addition. The lemmas show that they compute what a search byte by byte computes, and that they end when it does.
\<close>

section \<open>The loops\<close>

text \<open>\<open>(unsigned long int)char_ptr & (sizeof(longword) - 1)\<close>: the bytes before the first word boundary. The
  result is \<open>Inl p\<close> when the loop returns at \<open>p\<close>, \<open>Inr p\<close> when it ends at the boundary \<open>p\<close>.\<close>

partial_function (option) byte_phase :: "(u8 \<Rightarrow> bool) \<Rightarrow> mem \<Rightarrow> u32 \<Rightarrow> (u32 + u32) option" where
  "byte_phase P m p =
     (if p AND 3 \<noteq> 0 then (if P (m p) then Some (Inl p) else byte_phase P m (p + 1))
      else Some (Inr p))"

text \<open>The loop over words: \<open>T\<close> is the test of the four bytes at once; when it fires without a hit, the loop goes on.\<close>

partial_function (option) word_phase :: "(u32 \<Rightarrow> bool) \<Rightarrow> (u8 \<Rightarrow> bool) \<Rightarrow> mem \<Rightarrow> u32 \<Rightarrow> u32 option" where
  "word_phase T P m p =
     (if T (ld32 m p) then
        if P (m p) then Some p
        else if P (m (p + 1)) then Some (p + 1)
        else if P (m (p + 2)) then Some (p + 2)
        else if P (m (p + 3)) then Some (p + 3)
        else word_phase T P m (p + 4)
      else word_phase T P m (p + 4))"

definition scan :: "(u32 \<Rightarrow> bool) \<Rightarrow> (u8 \<Rightarrow> bool) \<Rightarrow> mem \<Rightarrow> u32 \<Rightarrow> u32 option" where
  "scan T P m p =
     do {
       r \<leftarrow> byte_phase P m p;
       (case r of Inl q \<Rightarrow> Some q | Inr q \<Rightarrow> word_phase T P m q)
     }"

section \<open>The routines\<close>

definition himagic :: u32 where "himagic = 0x80808080"

definition lomagic :: u32 where "lomagic = 0x01010101"

definition magic_bits :: u32 where
  "magic_bits = drop_bit 1 (push_bit 1 (- 1 div 0xff * 0xfe)) OR 1"

definition strlen :: "mem \<Rightarrow> u32 \<Rightarrow> u32 option" where
  "strlen m str =
     map_option (\<lambda>p. p - str) (scan (\<lambda>w. (w - lomagic) AND NOT w AND himagic \<noteq> 0) (\<lambda>b. b = 0) m str)"

definition charmask :: "u8 \<Rightarrow> u32" where
  "charmask c = (let cm = ucast c OR push_bit 8 (ucast c) in cm OR push_bit 16 cm)"

text \<open>The test of \<open>strchr\<close> and \<open>strchrnul\<close>.\<close>

definition hole_test :: "u8 \<Rightarrow> u32 \<Rightarrow> bool" where
  "hole_test c w \<longleftrightarrow>
     ((w + magic_bits) XOR NOT w) AND NOT magic_bits \<noteq> 0 \<or>
     (((w XOR charmask c) + magic_bits) XOR NOT (w XOR charmask c)) AND NOT magic_bits \<noteq> 0"

text \<open>A null pointer is \<open>None\<close>; the outer \<open>None\<close> is a search that does not end.\<close>

definition strchr :: "mem \<Rightarrow> u32 \<Rightarrow> u8 \<Rightarrow> u32 option option" where
  "strchr m s c = map_option (\<lambda>p. if m p = c then Some p else None) (scan (hole_test c) (\<lambda>b. b = c \<or> b = 0) m s)"

definition strchrnul :: "mem \<Rightarrow> u32 \<Rightarrow> u8 \<Rightarrow> u32 option" where
  "strchrnul m s c = scan (hole_test c) (\<lambda>b. b = c \<or> b = 0) m s"

partial_function (option) strrchr_loop :: "mem \<Rightarrow> u32 \<Rightarrow> u8 \<Rightarrow> u32 option \<Rightarrow> u32 option option" where
  "strrchr_loop m s c found =
     Option.bind (strchr m s c) (\<lambda>p. case p of None \<Rightarrow> Some found | Some q \<Rightarrow> strrchr_loop m (q + 1) c (Some q))"

definition strrchr :: "mem \<Rightarrow> u32 \<Rightarrow> u8 \<Rightarrow> u32 option option" where
  "strrchr m s c = (if c = 0 then strchr m s 0 else strrchr_loop m s c None)"

text \<open>\<open>strnlen\<close>, with the pointer \<open>char_ptr\<close> of the last iteration as an argument of its loop.\<close>

partial_function (option) strnlen_words :: "mem \<Rightarrow> u32 \<Rightarrow> u32 \<Rightarrow> u32 \<Rightarrow> u32 option" where
  "strnlen_words m end_ptr longword_ptr char_ptr =
     (if longword_ptr < end_ptr then
        let longword = ld32 m longword_ptr
        in if (longword - lomagic) AND himagic \<noteq> 0 then
             if m longword_ptr = 0 then Some longword_ptr
             else if m (longword_ptr + 1) = 0 then Some (longword_ptr + 1)
             else if m (longword_ptr + 2) = 0 then Some (longword_ptr + 2)
             else if m (longword_ptr + 3) = 0 then Some (longword_ptr + 3)
             else strnlen_words m end_ptr (longword_ptr + 4) end_ptr
           else strnlen_words m end_ptr (longword_ptr + 4) end_ptr
      else Some char_ptr)"

definition strnlen :: "mem \<Rightarrow> u32 \<Rightarrow> u32 \<Rightarrow> u32 option" where
  "strnlen m str maxlen =
     (if maxlen = 0 then Some 0
      else
        do {
          let end_ptr = (if str + maxlen < str then NOT 0 else str + maxlen);
          r \<leftarrow> byte_phase (\<lambda>b. b = 0) m str;
          char_ptr \<leftarrow> (case r of Inl p \<Rightarrow> Some p | Inr p \<Rightarrow> strnlen_words m end_ptr p p);
          Some ((if end_ptr < char_ptr then end_ptr else char_ptr) - str)
        })"

text \<open>The table of \<open>strcspn\<close>: the bytes of \<open>reject\<close> and the byte 0.\<close>

partial_function (option) reject_table :: "mem \<Rightarrow> u32 \<Rightarrow> (u8 \<Rightarrow> u32) \<Rightarrow> (u8 \<Rightarrow> u32) option" where
  "reject_table m s p =
     (let tmp = m s; p1 = p(tmp := 1)
      in if tmp \<noteq> 0 then reject_table m (s + 1) p1 else Some p1)"

partial_function (option) strcspn_words :: "mem \<Rightarrow> (u8 \<Rightarrow> u32) \<Rightarrow> u32 \<Rightarrow> u32 option" where
  "strcspn_words m p s =
     (let s = s + 4; c0 = p (m s); c1 = p (m (s + 1)); c2 = p (m (s + 2)); c3 = p (m (s + 3))
      in if c0 OR c1 OR c2 OR c3 = 0 then strcspn_words m p s
         else Some (if c0 OR c1 \<noteq> 0 then s - c0 + 1 else s - c2 + 3))"

definition strcspn :: "mem \<Rightarrow> u32 \<Rightarrow> u32 \<Rightarrow> u32 option" where
  "strcspn m str reject =
     (if m reject = 0 \<or> m (reject + 1) = 0 then map_option (\<lambda>p. p - str) (strchrnul m str (m reject))
      else
        do {
          p \<leftarrow> reject_table m reject (\<lambda>_. 0);
          (if p (m str) \<noteq> 0 then Some 0
           else if p (m (str + 1)) \<noteq> 0 then Some 1
           else if p (m (str + 2)) \<noteq> 0 then Some 2
           else if p (m (str + 3)) \<noteq> 0 then Some 3
           else map_option (\<lambda>s. s - str) (strcspn_words m p (str AND NOT 3)))
        })"

definition strpbrk :: "mem \<Rightarrow> u32 \<Rightarrow> u32 \<Rightarrow> u32 option option" where
  "strpbrk m s accept =
     do {
       n \<leftarrow> strcspn m s accept;
       Some (if m (s + n) \<noteq> 0 then Some (s + n) else None)
     }"

text \<open>\<open>strsep\<close> returns the token, the new value of \<open>*stringp\<close> and the memory.\<close>

definition strsep :: "mem \<Rightarrow> u32 option \<Rightarrow> u32 \<Rightarrow> (u32 option \<times> u32 option \<times> mem) option" where
  "strsep m stringp delim =
     (case stringp of None \<Rightarrow> Some (None, None, m)
      | Some begin_ptr \<Rightarrow>
          do {
            n \<leftarrow> strcspn m begin_ptr delim;
            let end_ptr = begin_ptr + n;
            Some (if m end_ptr \<noteq> 0 then (Some begin_ptr, Some (end_ptr + 1), m(end_ptr := 0))
                  else (Some begin_ptr, None, m))
          })"

section \<open>The search byte by byte\<close>

text \<open>The first byte with \<open>P\<close> is at distance \<open>n\<close>.\<close>

definition first_at :: "(u8 \<Rightarrow> bool) \<Rightarrow> mem \<Rightarrow> u32 \<Rightarrow> nat \<Rightarrow> bool" where
  "first_at P m p n \<longleftrightarrow> (\<forall>i < n. \<not> P (m (p + of_nat i))) \<and> P (m (p + of_nat n))"

lemma first_at_0: "first_at P m p 0 \<longleftrightarrow> P (m p)"
  by (simp add: first_at_def)

lemma first_at_Suc: "first_at P m p (Suc n) \<longleftrightarrow> \<not> P (m p) \<and> first_at P m (p + 1) n"
  by (auto simp: first_at_def All_less_Suc2 add.assoc)

lemma first_at_step:
  assumes "first_at P m p n" and "k \<le> n"
  shows "first_at P m (p + of_nat k) (n - k)"
  using assms
proof (induction k arbitrary: p n)
  case (Suc k)
  then obtain n' where n: "n = Suc n'" by (cases n) auto
  with Suc.prems have "first_at P m (p + 1) n'" by (simp add: first_at_Suc)
  from Suc.IH [OF this] Suc.prems n show ?case by (simp add: add.assoc)
qed simp

lemma byte_phase_first:
  assumes "first_at P m p n"
  shows "byte_phase P m p = Some (Inl (p + of_nat n)) \<or>
    (\<exists>k \<le> n. byte_phase P m p = Some (Inr (p + of_nat k)) \<and> (p + of_nat k) AND 3 = 0)"
  using assms
proof (induction n arbitrary: p)
  case 0
  then show ?case
    by (subst (1 2) byte_phase.simps) (auto simp: first_at_0)
next
  case (Suc n)
  then have np: "\<not> P (m p)" and f: "first_at P m (p + 1) n" by (auto simp: first_at_Suc)
  show ?case
  proof (cases "p AND 3 = 0")
    case True
    then have "byte_phase P m p = Some (Inr p)" by (subst byte_phase.simps) simp
    then show ?thesis using True by (intro disjI2 exI [of _ 0]) simp
  next
    case False
    then have eq: "byte_phase P m p = byte_phase P m (p + 1)" using np by (subst byte_phase.simps) simp
    from Suc.IH [OF f] show ?thesis
    proof (elim disjE exE conjE)
      fix k assume "k \<le> n" "byte_phase P m (p + 1) = Some (Inr (p + 1 + of_nat k))" "(p + 1 + of_nat k) AND 3 = 0"
      with eq show ?thesis by (intro disjI2 exI [of _ "Suc k"]) (simp add: add.assoc)
    qed (simp add: eq add.assoc)
  qed
qed

lemma word_phase_first:
  assumes "first_at P m p n" and T: "\<And>a k. k < 4 \<Longrightarrow> P (m (a + of_nat k)) \<Longrightarrow> T (ld32 m a)"
  shows "word_phase T P m p = Some (p + of_nat n)"
  using assms(1)
proof (induction n arbitrary: p rule: less_induct)
  case (less n)
  show ?case
  proof (cases "n < 4")
    case True
    with less.prems have t: "T (ld32 m p)" using T [of n p] by (simp add: first_at_def)
    have b: "\<not> P (m (p + of_nat i))" if "i < n" for i using less.prems that by (simp add: first_at_def)
    have h: "P (m (p + of_nat n))" using less.prems by (simp add: first_at_def)
    from True consider "n = 0" | "n = 1" | "n = 2" | "n = 3" by linarith
    then show ?thesis using t h b [of 0] b [of 1] b [of 2]
      by cases (subst word_phase.simps, simp)+
  next
    case False
    then have nn: "\<not> P (m (p + of_nat i))" if "i < 4" for i using less.prems that by (simp add: first_at_def)
    have "first_at P m (p + 4) (n - 4)" using first_at_step [OF less.prems, of 4] False by simp
    then have "word_phase T P m (p + 4) = Some (p + 4 + of_nat (n - 4))" using less.IH [of "n - 4"] False by simp
    moreover have "p + 4 + of_nat (n - 4) = p + of_nat n" using False by (simp add: of_nat_diff)
    ultimately show ?thesis using nn [of 0] nn [of 1] nn [of 2] nn [of 3] by (subst word_phase.simps) simp
  qed
qed

lemma scan_first:
  assumes f: "first_at P m p n" and T: "\<And>a k. k < 4 \<Longrightarrow> P (m (a + of_nat k)) \<Longrightarrow> T (ld32 m a)"
  shows "scan T P m p = Some (p + of_nat n)"
  using byte_phase_first [OF f]
proof
  assume "\<exists>k \<le> n. byte_phase P m p = Some (Inr (p + of_nat k)) \<and> (p + of_nat k) AND 3 = 0"
  then obtain k where k: "k \<le> n" "byte_phase P m p = Some (Inr (p + of_nat k))" by blast
  have "word_phase T P m (p + of_nat k) = Some (p + of_nat k + of_nat (n - k))"
    using first_at_step [OF f k(1)] T by (rule word_phase_first)
  then show ?thesis using k by (simp add: scan_def of_nat_diff)
qed (simp add: scan_def)

section \<open>The tests of four bytes\<close>

lemma word_neq_0I: "bit (w :: u32) n \<Longrightarrow> w \<noteq> 0"
  by auto

lemma bit_himagic: "k < 4 \<Longrightarrow> bit himagic (8 * k + 7)"
proof -
  assume "k < 4"
  then consider "k = 0" | "k = 1" | "k = 2" | "k = 3" by linarith
  then show ?thesis by cases (simp_all add: himagic_def)
qed

lemma strnlen_test: "zero_byte k w \<Longrightarrow> k < 4 \<Longrightarrow> (w - lomagic) AND himagic \<noteq> 0"
  using zero_byte_minus_lomagic [of k w] bit_himagic [of k]
  by (intro word_neq_0I [of _ "8 * k + 7"]) (simp add: bit_and_iff lomagic_def)

lemma strlen_test: "zero_byte k w \<Longrightarrow> k < 4 \<Longrightarrow> (w - lomagic) AND NOT w AND himagic \<noteq> 0"
  using zero_byte_minus_lomagic [of k w] bit_himagic [of k]
  by (intro word_neq_0I [of _ "8 * k + 7"]) (simp add: bit_simps lomagic_def zero_byte_def)

lemma magic_bits_eq: "magic_bits = 0x7efefeff"
  by (simp add: magic_bits_def)

lemma hole_test_zero:
  assumes "zero_byte k w" and k: "k < 4"
  shows "((w + magic_bits) XOR NOT w) AND NOT magic_bits \<noteq> 0"
proof (rule word_neq_0I [of _ "hole k"])
  have h: "hole k < 32" using k by (simp add: hole_def)
  from k consider "k = 0" | "k = 1" | "k = 2" | "k = 3" by linarith
  then have "\<not> bit magic_bits (hole k)" by cases (simp_all add: magic_bits_eq hole_def)
  then show "bit (((w + magic_bits) XOR NOT w) AND NOT magic_bits) (hole k)"
    using zero_byte_plus_magic_bits [OF assms] h by (simp add: bit_simps magic_bits_eq [symmetric])
qed

lemma charmask_ld32: "charmask c = ld32 (\<lambda>_. c) 0"
  by (simp add: charmask_def ld32_def push_bit_or or.assoc Let_def)

lemma zero_byte_xor: "k < 4 \<Longrightarrow> m (a + of_nat k) = c \<Longrightarrow> zero_byte k (ld32 m a XOR charmask c)"
proof (unfold zero_byte_def, intro allI impI)
  fix n assume k: "k < 4" "m (a + of_nat k) = c" and n: "8 * k \<le> n \<and> n < 8 * k + 8"
  then have "n div 8 = k" by (simp add: div_nat_eqI)
  with k n show "\<not> bit (ld32 m a XOR charmask c) n" by (simp add: bit_xor_iff bit_ld32 charmask_ld32)
qed

lemma hole_test_hit:
  assumes "k < 4" and "m (a + of_nat k) = c \<or> m (a + of_nat k) = 0"
  shows "hole_test c (ld32 m a)"
  using assms(2)
proof
  assume "m (a + of_nat k) = c"
  from hole_test_zero [OF zero_byte_xor [of k m a c, OF assms(1) this] assms(1)] show ?thesis by (simp add: hole_test_def)
next
  assume "m (a + of_nat k) = 0"
  from hole_test_zero [OF zero_byte_ld32 [of k m a, OF assms(1) this] assms(1)] show ?thesis by (simp add: hole_test_def)
qed

section \<open>The routines and the search byte by byte\<close>

lemma strlen_first: "first_at (\<lambda>b. b = 0) m str n \<Longrightarrow> strlen m str = Some (of_nat n)"
  unfolding strlen_def by (subst scan_first) (simp_all add: strlen_test [OF zero_byte_ld32])

lemma strchrnul_first: "first_at (\<lambda>b. b = c \<or> b = 0) m s n \<Longrightarrow> strchrnul m s c = Some (s + of_nat n)"
  unfolding strchrnul_def by (rule scan_first) (auto intro: hole_test_hit)

lemma strchr_first:
  "first_at (\<lambda>b. b = c \<or> b = 0) m s n \<Longrightarrow> strchr m s c = Some (if m (s + of_nat n) = c then Some (s + of_nat n) else None)"
  unfolding strchr_def by (subst scan_first) (auto intro: hole_test_hit)

text \<open>The first loop ends within three bytes.\<close>

lemma and_3: "(p :: u32) AND 3 = take_bit 2 p"
  by (simp add: take_bit_eq_mask mask_eq_exp_minus_1)

lemma pad_4: "(x + (4 - x mod 4) mod 4) mod 4 = (0 :: nat)"
proof -
  have "x mod 4 + (4 - x mod 4) = 4" by simp
  then have "(x mod 4 + (4 - x mod 4)) mod 4 = 0" by simp
  then show ?thesis by (simp only: mod_add_right_eq mod_add_left_eq)
qed

lemma byte_phase_total:
  "\<exists>k < 4. (byte_phase P m p = Some (Inl (p + of_nat k)) \<and> first_at P m p k) \<or>
     (byte_phase P m p = Some (Inr (p + of_nat k)) \<and> (\<forall>i < k. \<not> P (m (p + of_nat i))))"
proof -
  have run: "\<exists>k \<le> d. (byte_phase P m p = Some (Inl (p + of_nat k)) \<and> first_at P m p k) \<or>
      (byte_phase P m p = Some (Inr (p + of_nat k)) \<and> (\<forall>i < k. \<not> P (m (p + of_nat i))))"
    if "(p + of_nat d) AND 3 = 0" for d p
    using that
  proof (induction d arbitrary: p)
    case 0
    then show ?case by (subst (1 2) byte_phase.simps) simp
  next
    case (Suc d)
    show ?case
    proof (cases "p AND 3 = 0 \<or> P (m p)")
      case True
      then show ?thesis by (intro exI [of _ 0]) (subst (1 2) byte_phase.simps, auto simp: first_at_0)
    next
      case False
      then have eq: "byte_phase P m p = byte_phase P m (p + 1)" by (subst byte_phase.simps) simp
      have "(p + 1 + of_nat d) AND 3 = 0" using Suc.prems by (simp add: add.assoc)
      from Suc.IH [OF this] obtain k where k: "k \<le> d"
        "(byte_phase P m (p + 1) = Some (Inl (p + 1 + of_nat k)) \<and> first_at P m (p + 1) k) \<or>
         (byte_phase P m (p + 1) = Some (Inr (p + 1 + of_nat k)) \<and> (\<forall>i < k. \<not> P (m (p + 1 + of_nat i))))" by blast
      then show ?thesis
        using eq False by (intro exI [of _ "Suc k"]) (auto simp: first_at_Suc All_less_Suc2 add.assoc)
    qed
  qed
  let ?d = "(4 - unat p mod 4) mod 4"
  have "unat ((p + of_nat ?d) AND 3) = unat (p + of_nat ?d) mod 4"
    by (simp add: and_3 take_bit_eq_mod unat_mod)
  also have "\<dots> = (unat p + ?d) mod 4294967296 mod 4" by (simp add: unat_word_ariths unat_of_nat mod_simps)
  also have "\<dots> = (unat p + ?d) mod 4" by (rule mod_mod_cancel) simp
  also have "\<dots> = 0" by (rule pad_4)
  finally have "(p + of_nat ?d) AND 3 = 0" by (simp add: unat_eq_zero)
  from run [OF this] obtain k where "k \<le> ?d" "(byte_phase P m p = Some (Inl (p + of_nat k)) \<and> first_at P m p k) \<or>
      (byte_phase P m p = Some (Inr (p + of_nat k)) \<and> (\<forall>i < k. \<not> P (m (p + of_nat i))))" by blast
  moreover have "?d < 4" by simp
  ultimately show ?thesis by (meson le_less_trans)
qed

lemma unat_plus_of_nat: "unat (p :: u32) + n < 4294967296 \<Longrightarrow> unat (p + of_nat n) = unat p + n"
  by (simp add: unat_plus_if' unat_of_nat)

lemma strnlen_words_found:
  assumes "first_at (\<lambda>b. b = 0) m lp n" and "unat lp + n < unat e"
  shows "strnlen_words m e lp cp = Some (lp + of_nat n)"
  using assms
proof (induction n arbitrary: lp cp rule: less_induct)
  case (less n)
  have lt: "lp < e" using less.prems(2) by (simp add: word_less_nat_alt)
  have b: "m (lp + of_nat i) \<noteq> 0" if "i < n" for i using less.prems that by (simp add: first_at_def)
  have h: "m (lp + of_nat n) = 0" using less.prems by (simp add: first_at_def)
  show ?case
  proof (cases "n < 4")
    case True
    with h have t: "(ld32 m lp - lomagic) AND himagic \<noteq> 0" by (intro strnlen_test zero_byte_ld32)
    from True consider "n = 0" | "n = 1" | "n = 2" | "n = 3" by linarith
    then show ?thesis using t h b [of 0] b [of 1] b [of 2] lt
      by cases (subst strnlen_words.simps, simp add: Let_def)+
  next
    case False
    have u: "unat (lp + of_nat 4) = unat lp + 4"
      using False less.prems(2) u32_bound [of e] by (intro unat_plus_of_nat) linarith
    have f: "first_at (\<lambda>b. b = 0) m (lp + of_nat 4) (n - 4)" using less.prems(1) False by (intro first_at_step) auto
    have "strnlen_words m e (lp + of_nat 4) e = Some (lp + of_nat 4 + of_nat (n - 4))"
      using less.IH [OF _ f] u False less.prems(2) by simp
    moreover have "lp + of_nat 4 + of_nat (n - 4) = lp + of_nat n" using False by (simp add: of_nat_diff)
    ultimately show ?thesis using b [of 0] b [of 1] b [of 2] b [of 3] lt False
      by (subst strnlen_words.simps) (simp add: Let_def)
  qed
qed

lemma strnlen_words_none:
  assumes "\<forall>i. unat lp + i < unat e \<longrightarrow> m (lp + of_nat i) \<noteq> 0" and "e \<le> lp \<longrightarrow> e \<le> cp" and "unat e + 4 \<le> 4294967296"
  shows "\<exists>q. strnlen_words m e lp cp = Some q \<and> e \<le> q"
  using assms(1,2)
proof (induction "unat e - unat lp" arbitrary: lp cp rule: less_induct)
  case less
  show ?case
  proof (cases "lp < e")
    case False
    then show ?thesis using less.prems(2) by (subst strnlen_words.simps) simp
  next
    case True
    then have lt: "unat lp < unat e" by (simp add: word_less_nat_alt)
    have u: "unat (lp + of_nat j) = unat lp + j" if "j \<le> 4" for j
      using that lt assms(3) by (intro unat_plus_of_nat) linarith
    have late: "e \<le> lp + of_nat j" if "m (lp + of_nat j) = 0" "j < 4" for j
      using less.prems(1) that u [of j] by (metis le_less_linear less_imp_le word_le_nat_alt)
    have "\<exists>q. strnlen_words m e (lp + of_nat 4) e = Some q \<and> e \<le> q"
    proof (rule less.hyps)
      show "unat e - unat (lp + of_nat 4) < unat e - unat lp" using u [of 4] lt by linarith
      show "\<forall>i. unat (lp + of_nat 4) + i < unat e \<longrightarrow> m (lp + of_nat 4 + of_nat i) \<noteq> 0"
      proof (intro allI impI)
        fix i assume "unat (lp + of_nat 4) + i < unat e"
        then have "unat lp + (4 + i) < unat e" using u [of 4] by linarith
        then have "m (lp + of_nat (4 + i)) \<noteq> 0" using less.prems(1) by blast
        then show "m (lp + of_nat 4 + of_nat i) \<noteq> 0" by (simp add: add.assoc)
      qed
    qed simp
    then show ?thesis using True late [of 0] late [of 1] late [of 2] late [of 3]
      by (subst strnlen_words.simps) (auto simp: Let_def)
  qed
qed

text \<open>\<open>strnlen\<close> on a range that does not reach the end of the address space.\<close>

lemma strnlen_eq:
  assumes len: "unat str + unat maxlen + 4 \<le> 4294967296" and n: "n \<le> unat maxlen"
    and nz: "\<forall>i < n. m (str + of_nat i) \<noteq> 0" and st: "n < unat maxlen \<longrightarrow> m (str + of_nat n) = 0"
  shows "strnlen m str maxlen = Some (of_nat n)"
proof (cases "maxlen = 0")
  case False
  let ?e = "str + maxlen"
  have ue: "unat ?e = unat str + unat maxlen" using len by (simp add: unat_plus_if')
  then have e: "\<not> ?e < str" by (simp add: word_less_nat_alt)
  have uk: "unat (str + of_nat k) = unat str + k" if "k < unat maxlen + 4" for k
    using that len by (intro unat_plus_of_nat) linarith
  have clamp: "(if ?e < q then ?e else q) = str + of_nat n" if "n = unat maxlen \<and> ?e \<le> q \<or> q = str + of_nat n" for q
  proof (cases "q = str + of_nat n")
    case True
    then show ?thesis using n uk [of n] ue by (simp add: word_less_nat_alt)
  next
    case False
    with that have "?e \<le> q" "?e = str + of_nat n" by simp_all
    then show ?thesis by auto
  qed
  obtain k where k: "k < 4" and bp:
    "(byte_phase (\<lambda>b. b = 0) m str = Some (Inl (str + of_nat k)) \<and> first_at (\<lambda>b. b = 0) m str k) \<or>
     (byte_phase (\<lambda>b. b = 0) m str = Some (Inr (str + of_nat k)) \<and> (\<forall>i < k. m (str + of_nat i) \<noteq> 0))"
    using byte_phase_total [of "\<lambda>b. b = 0" m str] by auto
  have far: "?e \<le> str + of_nat k" if "unat maxlen \<le> k"
    using that uk [of k] k ue by (simp add: word_le_nat_alt)
  have "\<exists>r q. byte_phase (\<lambda>b. b = 0) m str = Some r \<and> (case r of Inl p \<Rightarrow> Some p | Inr p \<Rightarrow> strnlen_words m ?e p p) = Some q \<and>
      (n = unat maxlen \<and> ?e \<le> q \<or> q = str + of_nat n)"
    using bp
  proof (elim disjE conjE)
    assume b: "byte_phase (\<lambda>b. b = 0) m str = Some (Inl (str + of_nat k))" "first_at (\<lambda>b. b = 0) m str k"
    have kz: "m (str + of_nat k) = 0" "\<forall>i < k. m (str + of_nat i) \<noteq> 0" using b(2) by (auto simp: first_at_def)
    have "n \<le> k" using nz kz(1) by (meson not_le)
    moreover have "k \<le> n" if "n < unat maxlen" using st that kz(2) by (meson not_le)
    ultimately have "k = n \<or> n = unat maxlen \<and> n \<le> k" using n by linarith
    with b far show ?thesis by auto
  next
    assume b: "byte_phase (\<lambda>b. b = 0) m str = Some (Inr (str + of_nat k))" "\<forall>i < k. m (str + of_nat i) \<noteq> 0"
    show ?thesis
    proof (cases "n < unat maxlen")
      case True
      have "k \<le> n" using b(2) st True by (meson not_le)
      moreover have "first_at (\<lambda>b. b = 0) m str n" using nz st True by (simp add: first_at_def)
      ultimately have f: "first_at (\<lambda>b. b = 0) m (str + of_nat k) (n - k)" by (intro first_at_step)
      have "strnlen_words m ?e (str + of_nat k) (str + of_nat k) = Some (str + of_nat k + of_nat (n - k))"
        using f \<open>k \<le> n\<close> True uk [of k] ue by (intro strnlen_words_found) simp_all
      with b(1) \<open>k \<le> n\<close> show ?thesis by (simp add: of_nat_diff)
    next
      case False
      then have n': "n = unat maxlen" using n by simp
      have "\<exists>q. strnlen_words m ?e (str + of_nat k) (str + of_nat k) = Some q \<and> ?e \<le> q"
      proof (rule strnlen_words_none)
        show "\<forall>i. unat (str + of_nat k) + i < unat ?e \<longrightarrow> m (str + of_nat k + of_nat i) \<noteq> 0"
        proof (intro allI impI)
          fix i assume "unat (str + of_nat k) + i < unat ?e"
          then have "k + i < n" using uk [of k] k ue n' by simp
          then have "m (str + of_nat (k + i)) \<noteq> 0" using nz by blast
          then show "m (str + of_nat k + of_nat i) \<noteq> 0" by (simp add: add.assoc)
        qed
      qed (use len ue in simp_all)
      with b(1) n' show ?thesis by auto
    qed
  qed
  then obtain r q where "byte_phase (\<lambda>b. b = 0) m str = Some r"
    "(case r of Inl p \<Rightarrow> Some p | Inr p \<Rightarrow> strnlen_words m ?e p p) = Some q" "(if ?e < q then ?e else q) = str + of_nat n"
    using clamp by blast
  then show ?thesis using False e by (simp add: strnlen_def Let_def)
qed (use n in \<open>simp add: strnlen_def\<close>)

section \<open>Strings\<close>

text \<open>The bytes \<open>xs\<close> and a terminating zero are at \<open>p\<close>.\<close>

primrec cstr :: "mem \<Rightarrow> u32 \<Rightarrow> u8 list \<Rightarrow> bool" where
  "cstr m p [] \<longleftrightarrow> m p = 0"
| "cstr m p (x # xs) \<longleftrightarrow> m p = x \<and> x \<noteq> 0 \<and> cstr m (p + 1) xs"

lemma cstr_first: "P 0 \<Longrightarrow> cstr m p xs \<Longrightarrow> first_at P m p (length (takeWhile (\<lambda>b. \<not> P b) xs))"
  by (induction xs arbitrary: p) (auto simp: first_at_0 first_at_Suc)

lemma cstr_drop: "cstr m p xs \<Longrightarrow> k \<le> length xs \<Longrightarrow> cstr m (p + of_nat k) (drop k xs)"
proof (induction xs arbitrary: p k)
  case (Cons x xs)
  then show ?case
  proof (cases k)
    case (Suc k')
    with Cons.IH [of "p + 1" k'] Cons.prems show ?thesis by (simp add: add.assoc)
  qed simp
qed simp

lemma cstr_nth: "cstr m p xs \<Longrightarrow> i \<le> length xs \<Longrightarrow> m (p + of_nat i) = (xs @ [0]) ! i"
proof (induction xs arbitrary: p i)
  case (Cons x xs)
  then show ?case
  proof (cases i)
    case (Suc i')
    with Cons.IH [of "p + 1" i'] Cons.prems show ?thesis by (simp add: add.assoc)
  qed simp
qed simp

lemma cstr_nonzero: "cstr m p xs \<Longrightarrow> 0 \<notin> set xs"
  by (induction xs arbitrary: p) auto

lemma strlen_cstr: "cstr m p xs \<Longrightarrow> strlen m p = Some (of_nat (length xs))"
proof -
  assume c: "cstr m p xs"
  have "takeWhile (\<lambda>b. \<not> b = 0) xs = xs" using cstr_nonzero [OF c] by (auto simp: takeWhile_eq_all_conv)
  with strlen_first [OF cstr_first [OF _ c]] show ?thesis by simp
qed

lemma takeWhile_nth_hit: "(xs @ [0]) ! length (takeWhile (\<lambda>b. \<not> (b = c \<or> b = (0 :: u8))) xs) = c \<longleftrightarrow> c = 0 \<or> c \<in> set xs"
  if "0 \<notin> set xs"
  using that by (induction xs) auto

lemma takeWhile_or_zero: "0 \<notin> set xs \<Longrightarrow> takeWhile (\<lambda>b. \<not> (P b \<or> b = (0 :: u8))) xs = takeWhile (\<lambda>b. \<not> P b) xs"
  by (induction xs) auto

lemma strchr_cstr:
  assumes c: "cstr m s xs"
  shows "strchr m s c = Some (if c = 0 \<or> c \<in> set xs then Some (s + of_nat (length (takeWhile (\<lambda>b. b \<noteq> c) xs))) else None)"
proof -
  let ?n = "length (takeWhile (\<lambda>b. \<not> (b = c \<or> b = 0)) xs)"
  have "m (s + of_nat ?n) = (xs @ [0]) ! ?n" using length_takeWhile_le by (intro cstr_nth [OF c])
  then have "m (s + of_nat ?n) = c \<longleftrightarrow> c = 0 \<or> c \<in> set xs" using takeWhile_nth_hit [OF cstr_nonzero [OF c], of c] by simp
  then show ?thesis
    using strchr_first [OF cstr_first [OF _ c, of "\<lambda>b. b = c \<or> b = 0"]] takeWhile_or_zero [OF cstr_nonzero [OF c], of "\<lambda>b. b = c"]
    by simp
qed

lemma strchrnul_cstr:
  assumes c: "cstr m s xs"
  shows "strchrnul m s c = Some (s + of_nat (length (takeWhile (\<lambda>b. b \<noteq> c) xs)))"
  using strchrnul_first [OF cstr_first [OF _ c, of "\<lambda>b. b = c \<or> b = 0"]] takeWhile_or_zero [OF cstr_nonzero [OF c], of "\<lambda>b. b = c"]
  by simp

lemma takeWhile_until: "c \<notin> set ys \<Longrightarrow> takeWhile (\<lambda>b. b \<noteq> c) (ys @ c # zs) = ys"
  by (induction ys) auto

lemma strrchr_loop_cstr:
  assumes "cstr m s xs" and c: "c \<noteq> 0"
  shows "strrchr_loop m s c found =
    Some (if c \<in> set xs then Some (s + of_nat (length xs - 1 - length (takeWhile (\<lambda>b. b \<noteq> c) (rev xs)))) else found)"
  using assms(1)
proof (induction "length xs" arbitrary: xs s found rule: less_induct)
  case less
  show ?case
  proof (cases "c \<in> set xs")
    case False
    then show ?thesis using strchr_cstr [OF less.prems, of c] c by (subst strrchr_loop.simps) simp
  next
    case True
    then obtain ys zs where xs: "xs = ys @ c # zs" "c \<notin> set ys" by (meson split_list_first)
    have "takeWhile (\<lambda>b. b \<noteq> c) xs = ys" using xs by (simp add: takeWhile_until)
    then have step: "strrchr_loop m s c found = strrchr_loop m (s + of_nat (length ys) + 1) c (Some (s + of_nat (length ys)))"
      using strchr_cstr [OF less.prems, of c] True by (subst strrchr_loop.simps) simp
    have "cstr m (s + of_nat (Suc (length ys))) (drop (Suc (length ys)) xs)" using less.prems xs by (intro cstr_drop) simp_all
    then have z: "cstr m (s + of_nat (length ys) + 1) zs" using xs by (simp add: ac_simps)
    have "strrchr_loop m (s + of_nat (length ys) + 1) c (Some (s + of_nat (length ys))) =
        Some (if c \<in> set zs then Some (s + of_nat (length ys) + 1 + of_nat (length zs - 1 - length (takeWhile (\<lambda>b. b \<noteq> c) (rev zs))))
              else Some (s + of_nat (length ys)))"
      using less.hyps [OF _ z] xs by simp
    moreover have "s + of_nat (length ys) + 1 + of_nat (length zs - 1 - length (takeWhile (\<lambda>b. b \<noteq> c) (rev zs))) =
        s + of_nat (length xs - 1 - length (takeWhile (\<lambda>b. b \<noteq> c) (rev xs)))" if cz: "c \<in> set zs"
    proof -
      have t: "takeWhile (\<lambda>b. b \<noteq> c) (rev xs) = takeWhile (\<lambda>b. b \<noteq> c) (rev zs)" using xs cz by (simp add: takeWhile_append1)
      obtain us vs where "rev zs = us @ c # vs" "c \<notin> set us" using cz by (metis set_rev split_list_first)
      then have "takeWhile (\<lambda>b. b \<noteq> c) (rev zs) = us" by (simp add: takeWhile_until)
      moreover have "length us < length zs" using \<open>rev zs = us @ c # vs\<close> by (metis add_Suc_right length_Cons length_append length_rev less_add_Suc1)
      ultimately have "length xs - 1 - length (takeWhile (\<lambda>b. b \<noteq> c) (rev xs)) =
          length ys + 1 + (length zs - 1 - length (takeWhile (\<lambda>b. b \<noteq> c) (rev zs)))"
        unfolding t using xs by simp
      then show ?thesis by (simp add: add.assoc)
    qed
    moreover have "length xs - 1 - length (takeWhile (\<lambda>b. b \<noteq> c) (rev xs)) = length ys" if "c \<notin> set zs"
      using xs that by (simp add: takeWhile_until)
    ultimately show ?thesis using True step by simp
  qed
qed

lemma reject_table_cstr:
  "cstr m s rs \<Longrightarrow> reject_table m s p = Some (\<lambda>b. if b = 0 \<or> b \<in> set rs then 1 else p b)"
proof (induction rs arbitrary: s p)
  case Nil
  then show ?case by (subst reject_table.simps) (auto simp: Let_def)
next
  case (Cons r rs)
  then have "reject_table m s p = reject_table m (s + 1) (p(r := 1))" by (subst reject_table.simps) (simp add: Let_def)
  moreover have "(\<lambda>b. if b = 0 \<or> b \<in> set rs then 1 else (p(r := 1)) b) = (\<lambda>b. if b = 0 \<or> b \<in> set (r # rs) then 1 else p b)"
    by auto
  moreover have "reject_table m (s + 1) (p(r := 1)) = Some (\<lambda>b. if b = 0 \<or> b \<in> set rs then 1 else (p(r := 1)) b)"
    by (rule Cons.IH) (use Cons.prems in simp)
  ultimately show ?case by (simp only:)
qed

lemma strcspn_words_first:
  assumes "first_at P m (s + 4) n" and tab: "\<And>b. tab b = (if P b then 1 else 0)"
  shows "strcspn_words m tab s = Some (s + 4 + of_nat n)"
  using assms(1)
proof (induction n arbitrary: s rule: less_induct)
  case (less n)
  have b: "\<not> P (m (s + 4 + of_nat i))" if "i < n" for i using less.prems that by (simp add: first_at_def)
  have h: "P (m (s + 4 + of_nat n))" using less.prems by (simp add: first_at_def)
  show ?case
  proof (cases "n < 4")
    case True
    then consider "n = 0" | "n = 1" | "n = 2" | "n = 3" by linarith
    then show ?thesis using h b [of 0] b [of 1] b [of 2]
      by cases (subst strcspn_words.simps, simp add: Let_def tab add.assoc)+
  next
    case False
    have "first_at P m (s + 4 + of_nat 4) (n - 4)" using less.prems False by (intro first_at_step) simp_all
    then have "strcspn_words m tab (s + 4) = Some (s + 4 + 4 + of_nat (n - 4))" using less.IH [of "n - 4" "s + 4"] False by simp
    moreover have "s + 4 + 4 + of_nat (n - 4) = s + 4 + of_nat n" using False by (simp add: of_nat_diff)
    ultimately show ?thesis using b [of 0] b [of 1] b [of 2] b [of 3] False
      by (subst strcspn_words.simps) (simp add: Let_def tab add.assoc)
  qed
qed

text \<open>\<open>strcspn\<close>: the length of the longest prefix without a byte of \<open>reject\<close>.\<close>

lemma and_plus_and_not: "(a AND b) + (a AND NOT b) = (a :: u32)"
proof -
  have "(a AND b) + (a AND NOT b) = (a AND b) OR (a AND NOT b)"
    by (rule disjunctive_add) (auto simp: bit_and_iff bit_not_iff)
  also have "\<dots> = a" by (rule bit_eqI) (auto simp: bit_and_iff bit_or_iff bit_not_iff)
  finally show ?thesis .
qed

lemma and_not_3: "\<exists>j < 4. str AND NOT 3 = str - of_nat j \<and> j = unat (str AND 3 :: u32)"
proof -
  have "str AND NOT 3 = str - (str AND 3)" using and_plus_and_not [of str 3] by (metis add_diff_cancel_left')
  moreover have "unat (str AND 3) < 4" by (simp add: and_3 take_bit_eq_mod unat_mod)
  ultimately show ?thesis by (intro exI [of _ "unat (str AND 3)"]) simp
qed

lemma strcspn_cstr:
  assumes c: "cstr m str xs" and r: "cstr m reject rs"
  shows "strcspn m str reject = Some (of_nat (length (takeWhile (\<lambda>b. b \<notin> set rs) xs)))"
proof (cases "length rs \<le> 1")
  case True
  then have short: "m reject = 0 \<or> m (reject + 1) = 0" using r by (cases rs) auto
  have "takeWhile (\<lambda>b. b \<noteq> m reject) xs = takeWhile (\<lambda>b. b \<notin> set rs) xs"
    using True r cstr_nonzero [OF c] by (cases rs; induction xs) auto
  then show ?thesis using short strchrnul_cstr [OF c, of "m reject"] by (simp add: strcspn_def)
next
  case False
  then have long: "\<not> (m reject = 0 \<or> m (reject + 1) = 0)" using r by (cases rs; cases "tl rs") auto
  define P where "P = (\<lambda>b :: u8. b = 0 \<or> b \<in> set rs)"
  let ?tab = "\<lambda>b. if P b then 1 else 0 :: u32" and ?n = "length (takeWhile (\<lambda>b. b \<notin> set rs) xs)"
  have tab: "reject_table m reject (\<lambda>_. 0) = Some ?tab" using reject_table_cstr [OF r, of "\<lambda>_. 0"] by (simp add: P_def)
  have "takeWhile (\<lambda>b. \<not> P b) xs = takeWhile (\<lambda>b. b \<notin> set rs) xs"
    using cstr_nonzero [OF c] by (induction xs) (auto simp: P_def)
  then have f: "first_at P m str ?n" using cstr_first [of P m str xs] c by (simp add: P_def)
  have h: "P (m (str + of_nat ?n))" and b: "\<And>i. i < ?n \<Longrightarrow> \<not> P (m (str + of_nat i))" using f by (auto simp: first_at_def)
  show ?thesis
  proof (cases "?n < 4")
    case True
    then consider "?n = 0" | "?n = 1" | "?n = 2" | "?n = 3" by linarith
    then show ?thesis using h b [of 0] b [of 1] b [of 2] long tab
      by cases (simp_all add: strcspn_def)
  next
    case False
    obtain j where j: "j < 4" "str AND NOT 3 = str - of_nat j" using and_not_3 [of str] by blast
    have "first_at P m (str + of_nat (4 - j)) (?n - (4 - j))" using False by (intro first_at_step [OF f]) simp
    moreover have "str + of_nat (4 - j) = str - of_nat j + 4" using j(1) by (simp add: of_nat_diff)
    ultimately have "strcspn_words m ?tab (str - of_nat j) = Some (str - of_nat j + 4 + of_nat (?n - (4 - j)))"
      by (intro strcspn_words_first [where P = P]) simp_all
    moreover have "str - of_nat j + 4 + of_nat (?n - (4 - j)) = str + of_nat ?n"
      using j(1) False by (simp add: of_nat_diff)
    ultimately have "strcspn_words m ?tab (str AND NOT 3) = Some (str + of_nat ?n)" using j(2) by simp
    moreover have "\<not> P (m str)" using b [of 0] False by fastforce
    ultimately show ?thesis using b [of 1] b [of 2] b [of 3] False long tab by (simp add: strcspn_def)
  qed
qed

section \<open>The properties\<close>

text \<open>Memory with the strings \<open>"ab/cd/e"\<close> at an odd address and \<open>"/:"\<close> at another.\<close>

definition mem_example :: mem where
  "mem_example = (\<lambda>_. 0)(0x1001 := 97, 0x1002 := 98, 0x1003 := 47, 0x1004 := 99, 0x1005 := 100, 0x1006 := 47, 0x1007 := 101,
     0x2000 := 47, 0x2001 := 58)"

lemma mem_example_cstr: "cstr mem_example 0x1001 [97, 98, 47, 99, 100, 47, 101]" "cstr mem_example 0x2000 [47, 58]"
  by (simp_all add: mem_example_def)

text \<open>The word-at-a-time searches end on every string and agree with a search byte by byte: \<open>strlen\<close> is the length,
  \<open>strchr\<close> and \<open>strrchr\<close> the first and the last occurrence of a byte or null, \<open>strchrnul\<close> the first occurrence or the end,
  and \<open>strcspn\<close> the length of the longest prefix without a byte of the second string.\<close>

theorem string_search_correct:
  assumes "cstr m s xs" and "cstr m r rs"
  shows "strlen m s = Some (of_nat (length xs)) \<and>
    strchr m s c = Some (if c = 0 \<or> c \<in> set xs then Some (s + of_nat (length (takeWhile (\<lambda>b. b \<noteq> c) xs))) else None) \<and>
    strchrnul m s c = Some (s + of_nat (length (takeWhile (\<lambda>b. b \<noteq> c) xs))) \<and>
    (c \<noteq> 0 \<longrightarrow> strrchr m s c =
           Some (if c \<in> set xs then Some (s + of_nat (length xs - 1 - length (takeWhile (\<lambda>b. b \<noteq> c) (rev xs)))) else None)) \<and>
    strcspn m s r = Some (of_nat (length (takeWhile (\<lambda>b. b \<notin> set rs) xs)))"
  using strlen_cstr [OF assms(1)] strchr_cstr [OF assms(1)] strchrnul_cstr [OF assms(1)] strrchr_loop_cstr [OF assms(1), of c]
    strcspn_cstr [OF assms]
  by (simp add: strrchr_def)

theorem string_search_correct_witness:
  "strlen mem_example 0x1001 = Some 7 \<and> strchr mem_example 0x1001 47 = Some (Some 0x1003) \<and>
   strrchr mem_example 0x1001 47 = Some (Some 0x1006) \<and> strchrnul mem_example 0x1001 120 = Some 0x1008 \<and>
   strcspn mem_example 0x1001 0x2000 = Some 2"
  using string_search_correct [OF mem_example_cstr, of 47] string_search_correct [OF mem_example_cstr, of 120]
  by simp

text \<open>\<open>strnlen\<close> ends, also on bytes without a terminator, and returns the number of bytes before the first zero, but
  at most \<open>maxlen\<close>, for a range that ends below the top of the address space.\<close>

theorem strnlen_correct:
  assumes "unat str + unat maxlen + 4 \<le> 4294967296"
  shows "strnlen m str maxlen = Some (of_nat (length (takeWhile (\<lambda>b. b \<noteq> 0) (map (\<lambda>i. m (str + of_nat i)) [0..<unat maxlen]))))"
proof (rule strnlen_eq [OF assms])
  let ?bs = "map (\<lambda>i. m (str + of_nat i)) [0..<unat maxlen]"
  let ?n = "length (takeWhile (\<lambda>b. b \<noteq> 0) ?bs)"
  show le: "?n \<le> unat maxlen" using length_takeWhile_le [of "\<lambda>b. b \<noteq> 0" ?bs] by simp
  show "\<forall>i < ?n. m (str + of_nat i) \<noteq> 0"
  proof (intro allI impI)
    fix i assume i: "i < ?n"
    then have "takeWhile (\<lambda>b. b \<noteq> 0) ?bs ! i \<in> set (takeWhile (\<lambda>b. b \<noteq> 0) ?bs)" by (rule nth_mem)
    then have "takeWhile (\<lambda>b. b \<noteq> 0) ?bs ! i \<noteq> 0" by (blast dest: set_takeWhileD)
    then show "m (str + of_nat i) \<noteq> 0" using i le by (simp add: takeWhile_nth)
  qed
  show "?n < unat maxlen \<longrightarrow> m (str + of_nat ?n) = 0"
    using nth_length_takeWhile [of "\<lambda>b. b \<noteq> 0" ?bs] by simp
qed

theorem strnlen_correct_witness:
  "strnlen mem_example 0x1001 100 = Some 7 \<and> strnlen mem_example 0x1001 5 = Some 5"
proof -
  have "map (\<lambda>i. mem_example (0x1001 + of_nat i)) [0..<5] = [97, 98, 47, 99, 100]"
    "takeWhile (\<lambda>b. b \<noteq> 0) (map (\<lambda>i. mem_example (0x1001 + of_nat i)) [0..<100]) = [97, 98, 47, 99, 100, 47, 101]"
    by code_simp+
  then show ?thesis using strnlen_correct [of "0x1001" 100 mem_example] strnlen_correct [of "0x1001" 5 mem_example] by simp
qed

end
