(* ===== verification/Mem_Block.thy ===== *)
theory Mem_Block
  imports Str_Scan
begin

text \<open>
  The block and comparison routines of \<open>kernel/utils/string/\<close>: \<open>memcmp\<close>, \<open>memcpy\<close>, \<open>memset\<close>, and the string routines
  built on them.

  \<open>memcmp\<close> compares word by word in loops that are entered at one of four labels; the labels are the values of a datatype
  and a jump is a call. The lemmas show that it computes the comparison byte by byte, whatever the alignments, and that
  \<open>memcpy\<close> and \<open>memset\<close> change exactly the bytes of their destination.
\<close>

section \<open>Comparison\<close>

text \<open>\<open>memcmp_bytes\<close> walks over the bytes of two different words; on equal words it would not stop.\<close>

function memcmp_bytes :: "nat \<Rightarrow> u32 \<Rightarrow> u32 \<Rightarrow> int option" where
  "memcmp_bytes i a b =
     (if i < 4 then
        let a0 = ucast (drop_bit (8 * i) a) :: u8; b0 = ucast (drop_bit (8 * i) b) :: u8
        in if a0 = b0 then memcmp_bytes (i + 1) a b else Some (uint a0 - uint b0)
      else None)"
  by pat_completeness auto
termination
  by (relation "measure (\<lambda>(i, a, b). 4 - i)") auto

declare memcmp_bytes.simps [simp del]

definition CMP_LT_OR_GT :: "u32 \<Rightarrow> u32 \<Rightarrow> int option" where
  "CMP_LT_OR_GT a b = memcmp_bytes 0 a b"

text \<open>The labels of the loops; \<open>Top\<close> is the beginning of the body, \<open>Do0\<close> the code behind the loop. The state is the
  label, the two pointers, the number of words, and the registers: \<open>a0\<close> to \<open>a3\<close> and \<open>b0\<close> to \<open>b3\<close> are \<open>a 0\<close> to \<open>a 3\<close> and
  \<open>b 0\<close> to \<open>b 3\<close>. The code from one label to the next loads one register of each group and compares others, so the loads
  stand behind the comparison here.\<close>

datatype cmp_label = Top | Do3 | Do2 | Do1 | Do0

type_synonym cmp_state = "cmp_label \<times> u32 \<times> u32 \<times> nat \<times> (nat \<Rightarrow> u32) \<times> (nat \<Rightarrow> u32)"

partial_function (option) run :: "('s \<Rightarrow> 'r option + 's) \<Rightarrow> 's \<Rightarrow> 'r option" where
  "run step s = (case step s of Inl r \<Rightarrow> r | Inr s' \<Rightarrow> run step s')"

fun common_step :: "mem \<Rightarrow> cmp_state \<Rightarrow> int option + cmp_state" where
  "common_step m (Top, srcp1, srcp2, len, a, b) =
     (if a 1 \<noteq> b 1 then Inl (CMP_LT_OR_GT (a 1) (b 1))
      else Inr (Do3, srcp1, srcp2, len, a(0 := ld32 m srcp1), b(0 := ld32 m srcp2)))"
| "common_step m (Do3, srcp1, srcp2, len, a, b) =
     (if a 0 \<noteq> b 0 then Inl (CMP_LT_OR_GT (a 0) (b 0))
      else Inr (Do2, srcp1, srcp2, len, a(1 := ld32 m (srcp1 + 4)), b(1 := ld32 m (srcp2 + 4))))"
| "common_step m (Do2, srcp1, srcp2, len, a, b) =
     (if a 1 \<noteq> b 1 then Inl (CMP_LT_OR_GT (a 1) (b 1))
      else Inr (Do1, srcp1, srcp2, len, a(0 := ld32 m (srcp1 + 8)), b(0 := ld32 m (srcp2 + 8))))"
| "common_step m (Do1, srcp1, srcp2, len, a, b) =
     (if a 0 \<noteq> b 0 then Inl (CMP_LT_OR_GT (a 0) (b 0))
      else Inr (if len \<noteq> 4 then Top else Do0, srcp1 + 16, srcp2 + 16, len - 4,
                a(1 := ld32 m (srcp1 + 12)), b(1 := ld32 m (srcp2 + 12))))"
| "common_step m (Do0, srcp1, srcp2, len, a, b) =
     Inl (if a 1 \<noteq> b 1 then CMP_LT_OR_GT (a 1) (b 1) else Some 0)"

text \<open>Registers without a value yet are 0. With four-byte words \<open>OP_T_THRES <= 3 * OPSIZ\<close> is false.\<close>

definition memcmp_common_alignment :: "mem \<Rightarrow> u32 \<Rightarrow> u32 \<Rightarrow> nat \<Rightarrow> int option" where
  "memcmp_common_alignment m srcp1 srcp2 len =
     (let v = ld32 m srcp1; w = ld32 m srcp2; r = (\<lambda>_. 0)
      in run (common_step m)
           (if len mod 4 = 2 then (Do1, srcp1 - 8, srcp2 - 8, len + 2, r(0 := v), r(0 := w))
            else if len mod 4 = 3 then (Do2, srcp1 - 4, srcp2 - 4, len + 1, r(1 := v), r(1 := w))
            else if len mod 4 = 0 then (Do3, srcp1, srcp2, len, r(0 := v), r(0 := w))
            else (Top, srcp1 + 4, srcp2 + 4, len - 1, r(1 := v), r(1 := w))))"

definition MERGE :: "u32 \<Rightarrow> nat \<Rightarrow> u32 \<Rightarrow> nat \<Rightarrow> u32" where
  "MERGE w0 sh_1 w1 sh_2 = drop_bit sh_1 w0 OR push_bit sh_2 w1"

fun merge_step :: "mem \<Rightarrow> nat \<Rightarrow> nat \<Rightarrow> cmp_state \<Rightarrow> int option + cmp_state" where
  "merge_step m shl shr (Top, srcp1, srcp2, len, a, b) =
     (let x = MERGE (a 2) shl (a 3) shr
      in if x \<noteq> b 3 then Inl (CMP_LT_OR_GT x (b 3))
         else Inr (Do3, srcp1, srcp2, len, a(0 := ld32 m srcp1), b(0 := ld32 m srcp2)))"
| "merge_step m shl shr (Do3, srcp1, srcp2, len, a, b) =
     (let x = MERGE (a 3) shl (a 0) shr
      in if x \<noteq> b 0 then Inl (CMP_LT_OR_GT x (b 0))
         else Inr (Do2, srcp1, srcp2, len, a(1 := ld32 m (srcp1 + 4)), b(1 := ld32 m (srcp2 + 4))))"
| "merge_step m shl shr (Do2, srcp1, srcp2, len, a, b) =
     (let x = MERGE (a 0) shl (a 1) shr
      in if x \<noteq> b 1 then Inl (CMP_LT_OR_GT x (b 1))
         else Inr (Do1, srcp1, srcp2, len, a(2 := ld32 m (srcp1 + 8)), b(2 := ld32 m (srcp2 + 8))))"
| "merge_step m shl shr (Do1, srcp1, srcp2, len, a, b) =
     (let x = MERGE (a 1) shl (a 2) shr
      in if x \<noteq> b 2 then Inl (CMP_LT_OR_GT x (b 2))
         else Inr (if len \<noteq> 4 then Top else Do0, srcp1 + 16, srcp2 + 16, len - 4,
                   a(3 := ld32 m (srcp1 + 12)), b(3 := ld32 m (srcp2 + 12))))"
| "merge_step m shl shr (Do0, srcp1, srcp2, len, a, b) =
     (let x = MERGE (a 2) shl (a 3) shr in Inl (if x \<noteq> b 3 then CMP_LT_OR_GT x (b 3) else Some 0))"

definition memcmp_not_common_alignment :: "mem \<Rightarrow> u32 \<Rightarrow> u32 \<Rightarrow> nat \<Rightarrow> int option" where
  "memcmp_not_common_alignment m srcp1 srcp2 len =
     (let shl = 8 * unat (srcp1 mod 4); shr = 8 * 4 - shl; srcp1 = srcp1 AND - 4;
          w0 = ld32 m srcp1; w1 = ld32 m (srcp1 + 4); w = ld32 m srcp2; r = (\<lambda>_. 0)
      in run (merge_step m shl shr)
           (if len mod 4 = 2 then (Do1, srcp1 - 4, srcp2 - 8, len + 2, r(1 := w0, 2 := w1), r(2 := w))
            else if len mod 4 = 3 then (Do2, srcp1, srcp2 - 4, len + 1, r(0 := w0, 1 := w1), r(1 := w))
            else if len mod 4 = 0 then (Do3, srcp1 + 4, srcp2, len, r(3 := w0, 0 := w1), r(0 := w))
            else (Top, srcp1 + 8, srcp2 + 4, len - 1, r(2 := w0, 3 := w1), r(3 := w))))"

text \<open>The two loops of \<open>memcmp\<close> over single bytes. The first returns, or ends at an aligned \<open>srcp2\<close>.\<close>

partial_function (option) memcmp_align :: "mem \<Rightarrow> u32 \<Rightarrow> u32 \<Rightarrow> nat \<Rightarrow> (int + u32 \<times> u32 \<times> nat) option" where
  "memcmp_align m srcp1 srcp2 len =
     (if srcp2 mod 4 \<noteq> 0 then
        let a0 = m srcp1; b0 = m srcp2
        in if uint a0 - uint b0 \<noteq> 0 then Some (Inl (uint a0 - uint b0)) else memcmp_align m (srcp1 + 1) (srcp2 + 1) (len - 1)
      else Some (Inr (srcp1, srcp2, len)))"

fun memcmp_tail :: "mem \<Rightarrow> u32 \<Rightarrow> u32 \<Rightarrow> nat \<Rightarrow> int" where
  "memcmp_tail m srcp1 srcp2 0 = 0"
| "memcmp_tail m srcp1 srcp2 (Suc len) =
     (if uint (m srcp1) - uint (m srcp2) \<noteq> 0 then uint (m srcp1) - uint (m srcp2)
      else memcmp_tail m (srcp1 + 1) (srcp2 + 1) len)"

definition OP_T_THRES :: nat where
  "OP_T_THRES = 16"

definition memcmp :: "mem \<Rightarrow> u32 \<Rightarrow> u32 \<Rightarrow> nat \<Rightarrow> int option" where
  "memcmp m s1 s2 len =
     (if OP_T_THRES \<le> len then
        do {
          r \<leftarrow> memcmp_align m s1 s2 len;
          (case r of
             Inl res \<Rightarrow> Some res
           | Inr (srcp1, srcp2, len) \<Rightarrow>
               do {
                 res \<leftarrow> (if srcp1 mod 4 = 0 then memcmp_common_alignment m srcp1 srcp2 (len div 4)
                         else memcmp_not_common_alignment m srcp1 srcp2 (len div 4));
                 Some (if res \<noteq> 0 then res
                       else memcmp_tail m (srcp1 + of_nat (len div 4 * 4)) (srcp2 + of_nat (len div 4 * 4)) (len mod 4))
               })
        }
      else Some (memcmp_tail m s1 s2 len))"

section \<open>The comparison byte by byte\<close>

text \<open>The reference is the difference of the first two bytes that differ, which is what \<open>memcmp_tail\<close> computes; a block is
  compared by comparing its parts.\<close>

lemma memcmp_tail_add:
  "memcmp_tail m p q (a + b) =
     (if memcmp_tail m p q a \<noteq> 0 then memcmp_tail m p q a else memcmp_tail m (p + of_nat a) (q + of_nat a) b)"
  by (induction a arbitrary: p q) (auto simp: add.assoc)

lemma byte_of_ld32: "k < 4 \<Longrightarrow> ucast (drop_bit (8 * k) (ld32 m a)) = m (a + of_nat k)"
proof (rule bit_eqI)
  fix n assume k: "k < 4" and "possible_bit TYPE(u8) n"
  then have n: "n < 8" by simp
  then show "bit (ucast (drop_bit (8 * k) (ld32 m a)) :: u8) n = bit (m (a + of_nat k)) n"
    using k by (simp add: bit_ucast_iff bit_drop_bit_eq bit_ld32)
qed

lemma CMP_ld32:
  assumes "ld32 m p \<noteq> ld32 m q"
  shows "CMP_LT_OR_GT (ld32 m p) (ld32 m q) = Some (memcmp_tail m p q 4) \<and> memcmp_tail m p q 4 \<noteq> 0"
proof -
  have step: "memcmp_bytes i (ld32 m p) (ld32 m q) =
      (if m (p + of_nat i) = m (q + of_nat i) then memcmp_bytes (i + 1) (ld32 m p) (ld32 m q)
       else Some (uint (m (p + of_nat i)) - uint (m (q + of_nat i))))" if "i < 4" for i
    using that by (subst memcmp_bytes.simps) (simp add: byte_of_ld32 Let_def)
  have "m p \<noteq> m q \<or> m (p + 1) \<noteq> m (q + 1) \<or> m (p + 2) \<noteq> m (q + 2) \<or> m (p + 3) \<noteq> m (q + 3)"
    using assms by (auto simp: ld32_eq_iff)
  then show ?thesis
    unfolding CMP_LT_OR_GT_def using step [of 0] step [of 1] step [of 2] step [of 3]
    by (auto simp: eval_nat_numeral add.assoc word_uint_eq_iff)
qed

lemma eq_ld32: "ld32 m p = ld32 m q \<Longrightarrow> memcmp_tail m p q 4 = 0"
  by (simp add: ld32_eq_iff eval_nat_numeral add.assoc)

text \<open>One word, and then the rest.\<close>

lemma cmp_word:
  assumes "rest = Some (memcmp_tail m (p + 4) (q + 4) n)"
  shows "(if ld32 m p \<noteq> ld32 m q then CMP_LT_OR_GT (ld32 m p) (ld32 m q) else rest) = Some (memcmp_tail m p q (4 + n))"
  using assms CMP_ld32 [of m p q] eq_ld32 [of m p q] unfolding memcmp_tail_add by auto

subsection \<open>Common alignment\<close>

lemma run_Inl: "step s = Inl r \<Longrightarrow> run step s = r"
  by (subst run.simps) simp

lemma run_Inr: "step s = Inr s' \<Longrightarrow> run step s = run step s'"
  by (subst run.simps) simp

text \<open>A step that compares a pair of words and goes on where the rest is compared correctly.\<close>

lemma run_cmp_word:
  assumes "step s = (if ld32 m p \<noteq> ld32 m q then Inl (CMP_LT_OR_GT (ld32 m p) (ld32 m q)) else Inr s')"
    and "run step s' = Some (memcmp_tail m (p + 4) (q + 4) n)"
  shows "run step s = Some (memcmp_tail m p q (4 + n))"
  using cmp_word [OF assms(2)] assms(1) by (cases "ld32 m p = ld32 m q") (simp_all add: run_Inl run_Inr)

text \<open>The four entries of the loop, given that the loop is correct from the next iteration on.\<close>

definition common_ok :: "mem \<Rightarrow> nat \<Rightarrow> bool" where
  "common_ok m k \<longleftrightarrow>
     (\<forall>s1 s2 a b. a 1 = ld32 m (s1 - 4) \<longrightarrow> b 1 = ld32 m (s2 - 4) \<longrightarrow>
        run (common_step m) (if k = 0 then Do0 else Top, s1, s2, 4 * k, a, b) = Some (memcmp_tail m (s1 - 4) (s2 - 4) (4 + 16 * k)))"

lemma common_okD:
  "common_ok m k \<Longrightarrow> a 1 = ld32 m (s1 - 4) \<Longrightarrow> b 1 = ld32 m (s2 - 4) \<Longrightarrow>
     run (common_step m) (if k = 0 then Do0 else Top, s1, s2, 4 * k, a, b) = Some (memcmp_tail m (s1 - 4) (s2 - 4) (4 + 16 * k))"
  unfolding common_ok_def by blast

lemma common_Do1:
  assumes "common_ok m k" and "a 0 = ld32 m (s1 + 8)" "b 0 = ld32 m (s2 + 8)"
  shows "run (common_step m) (Do1, s1, s2, 4 * Suc k, a, b) = Some (memcmp_tail m (s1 + 8) (s2 + 8) (4 + (4 + 16 * k)))"
proof (rule run_cmp_word)
  let ?a = "a(1 := ld32 m (s1 + 12))" and ?b = "b(1 := ld32 m (s2 + 12))"
  show "common_step m (Do1, s1, s2, 4 * Suc k, a, b) =
      (if ld32 m (s1 + 8) \<noteq> ld32 m (s2 + 8) then Inl (CMP_LT_OR_GT (ld32 m (s1 + 8)) (ld32 m (s2 + 8)))
       else Inr (if k = 0 then Do0 else Top, s1 + 16, s2 + 16, 4 * k, ?a, ?b))"
    using assms(2,3) by simp
  have "run (common_step m) (if k = 0 then Do0 else Top, s1 + 16, s2 + 16, 4 * k, ?a, ?b) =
      Some (memcmp_tail m (s1 + 16 - 4) (s2 + 16 - 4) (4 + 16 * k))"
    by (rule common_okD [OF assms(1)]) (simp_all add: add.commute)
  then show "run (common_step m) (if k = 0 then Do0 else Top, s1 + 16, s2 + 16, 4 * k, ?a, ?b) =
      Some (memcmp_tail m (s1 + 8 + 4) (s2 + 8 + 4) (4 + 16 * k))"
    by simp
qed

lemma common_Do2:
  assumes "common_ok m k" and "a 1 = ld32 m (s1 + 4)" "b 1 = ld32 m (s2 + 4)"
  shows "run (common_step m) (Do2, s1, s2, 4 * Suc k, a, b) = Some (memcmp_tail m (s1 + 4) (s2 + 4) (4 + (4 + (4 + 16 * k))))"
  by (rule run_cmp_word [where s' = "(Do1, s1, s2, 4 * Suc k, a(0 := ld32 m (s1 + 8)), b(0 := ld32 m (s2 + 8)))"])
     (use assms common_Do1 [OF assms(1), where ?s1.0 = s1 and ?s2.0 = s2] in \<open>simp_all add: add.assoc\<close>)

lemma common_Do3:
  assumes "common_ok m k" and "a 0 = ld32 m s1" "b 0 = ld32 m s2"
  shows "run (common_step m) (Do3, s1, s2, 4 * Suc k, a, b) = Some (memcmp_tail m s1 s2 (4 + (4 + (4 + (4 + 16 * k)))))"
  by (rule run_cmp_word [where s' = "(Do2, s1, s2, 4 * Suc k, a(1 := ld32 m (s1 + 4)), b(1 := ld32 m (s2 + 4)))"])
     (use assms common_Do2 [OF assms(1), where ?s1.0 = s1 and ?s2.0 = s2] in simp_all)

lemma common_Top:
  assumes "common_ok m k" and "a 1 = ld32 m (s1 - 4)" "b 1 = ld32 m (s2 - 4)"
  shows "run (common_step m) (Top, s1, s2, 4 * Suc k, a, b) =
    Some (memcmp_tail m (s1 - 4) (s2 - 4) (4 + (4 + (4 + (4 + (4 + 16 * k))))))"
  by (rule run_cmp_word [where s' = "(Do3, s1, s2, 4 * Suc k, a(0 := ld32 m s1), b(0 := ld32 m s2))"])
     (use assms common_Do3 [OF assms(1), where ?s1.0 = s1 and ?s2.0 = s2] in simp_all)

lemma common_ok_all: "common_ok m k"
proof (induction k)
  case 0
  show ?case
    unfolding common_ok_def
  proof (intro allI impI)
    fix s1 s2 :: u32 and a b :: "nat \<Rightarrow> u32"
    assume "a 1 = ld32 m (s1 - 4)" "b 1 = ld32 m (s2 - 4)"
    then have "run (common_step m) (Do0, s1, s2, 0, a, b) =
        (if ld32 m (s1 - 4) \<noteq> ld32 m (s2 - 4) then CMP_LT_OR_GT (ld32 m (s1 - 4)) (ld32 m (s2 - 4)) else Some 0)"
      by (subst run_Inl) simp_all
    also have "\<dots> = Some (memcmp_tail m (s1 - 4) (s2 - 4) (4 + 0))" by (rule cmp_word) simp
    finally show "run (common_step m) (if 0 = 0 then Do0 else Top, s1, s2, 4 * 0, a, b) = Some (memcmp_tail m (s1 - 4) (s2 - 4) (4 + 16 * 0))"
      by simp
  qed
next
  case (Suc k)
  show ?case
    unfolding common_ok_def using common_Top [OF Suc.IH] by (simp add: algebra_simps)
qed

text \<open>The cases of the switch on \<open>len % 4\<close>.\<close>

lemma len_mod_4_cases:
  assumes "2 \<le> len"
  obtains k where "len mod 4 = 0" "len = 4 * Suc k" "4 * len = 4 + (4 + (4 + (4 + 16 * k)))"
  | k where "len mod 4 = 1" "len - 1 = 4 * Suc k" "4 * len = 4 + (4 + (4 + (4 + (4 + 16 * k))))"
  | k where "len mod 4 = 2" "len + 2 = 4 * Suc k" "4 * len = 4 + (4 + 16 * k)"
  | k where "len mod 4 = 3" "len + 1 = 4 * Suc k" "4 * len = 4 + (4 + (4 + 16 * k))"
proof -
  have len: "len = 4 * (len div 4) + len mod 4" by simp
  have "len mod 4 < 4" by simp
  then consider "len mod 4 = 0" | "len mod 4 = 1" | "len mod 4 = 2" | "len mod 4 = 3" by linarith
  then show thesis
  proof cases
    case 1
    with len assms obtain k where k: "len div 4 = Suc k" by (cases "len div 4") auto
    from len have "len = 4 * Suc k" unfolding k 1 by simp
    with that(1) 1 show thesis by simp
  next
    case 2
    with len assms obtain k where k: "len div 4 = Suc k" by (cases "len div 4") auto
    from len have "len = 4 * Suc k + 1" unfolding k 2 by simp
    then have "len - 1 = 4 * Suc k" "4 * len = 4 + (4 + (4 + (4 + (4 + 16 * k))))" by simp_all
    with that(2) 2 show thesis by blast
  next
    case 3
    define d where "d = len div 4"
    have "len = 4 * d + 2" using len 3 by (simp only: d_def)
    then have "len + 2 = 4 * Suc d" "4 * len = 4 + (4 + 16 * d)" by simp_all
    with that(3) 3 show thesis by blast
  next
    case 4
    define d where "d = len div 4"
    have "len = 4 * d + 3" using len 4 by (simp only: d_def)
    then have "len + 1 = 4 * Suc d" "4 * len = 4 + (4 + (4 + 16 * d))" by simp_all
    with that(4) 4 show thesis by blast
  qed
qed

lemmas switch_simps = if_True if_False simp_thms zero_neq_numeral zero_neq_one numeral_neq_zero one_neq_zero one_eq_numeral_iff
  numeral_eq_one_iff numeral_eq_iff num.distinct num.inject

lemma memcmp_common_alignment_eq:
  assumes "2 \<le> len"
  shows "memcmp_common_alignment m p q len = Some (memcmp_tail m p q (4 * len))"
  using assms
proof (cases rule: len_mod_4_cases)
  case (1 k)
  have "run (common_step m) (Do3, p, q, 4 * Suc k, (\<lambda>_. 0)(0 := ld32 m p), (\<lambda>_. 0)(0 := ld32 m q)) =
      Some (memcmp_tail m p q (4 + (4 + (4 + (4 + 16 * k)))))"
    by (rule common_Do3 [OF common_ok_all]) simp_all
  with 1 show ?thesis unfolding memcmp_common_alignment_def Let_def by (simp only: switch_simps)
next
  case (2 k)
  have "run (common_step m) (Top, p + 4, q + 4, 4 * Suc k, (\<lambda>_. 0)(1 := ld32 m p), (\<lambda>_. 0)(1 := ld32 m q)) =
      Some (memcmp_tail m (p + 4 - 4) (q + 4 - 4) (4 + (4 + (4 + (4 + (4 + 16 * k))))))"
    by (rule common_Top [OF common_ok_all]) simp_all
  then show ?thesis unfolding memcmp_common_alignment_def Let_def 2(2,3) by (simp only: 2(1) switch_simps add_diff_cancel_right')
next
  case (3 k)
  have "run (common_step m) (Do1, p - 8, q - 8, 4 * Suc k, (\<lambda>_. 0)(0 := ld32 m p), (\<lambda>_. 0)(0 := ld32 m q)) =
      Some (memcmp_tail m (p - 8 + 8) (q - 8 + 8) (4 + (4 + 16 * k)))"
    by (rule common_Do1 [OF common_ok_all]) simp_all
  then show ?thesis unfolding memcmp_common_alignment_def Let_def 3(2,3) by (simp only: 3(1) switch_simps diff_add_cancel)
next
  case (4 k)
  have "run (common_step m) (Do2, p - 4, q - 4, 4 * Suc k, (\<lambda>_. 0)(1 := ld32 m p), (\<lambda>_. 0)(1 := ld32 m q)) =
      Some (memcmp_tail m (p - 4 + 4) (q - 4 + 4) (4 + (4 + (4 + 16 * k))))"
    by (rule common_Do2 [OF common_ok_all]) simp_all
  then show ?thesis unfolding memcmp_common_alignment_def Let_def 4(2,3)
    by (simp only: 4(1) switch_simps diff_add_cancel)
qed

subsection \<open>Different alignments\<close>

text \<open>\<open>MERGE\<close> of two neighbouring words is the word in between.\<close>

lemma MERGE_ld32:
  assumes "0 < j" "j < 4"
  shows "MERGE (ld32 m p) (8 * j) (ld32 m (p + 4)) (32 - 8 * j) = ld32 m (p + of_nat j)"
proof (rule bit_eqI)
  fix n assume "possible_bit TYPE(u32) n"
  then have n: "n < 32" by simp
  show "bit (MERGE (ld32 m p) (8 * j) (ld32 m (p + 4)) (32 - 8 * j)) n = bit (ld32 m (p + of_nat j)) n"
  proof (cases "8 * j + n < 32")
    case True
    have "(8 * j + n) div 8 = j + n div 8" "(8 * j + n) mod 8 = n mod 8" by simp_all
    moreover have "\<not> 32 - 8 * j \<le> n" using True by linarith
    ultimately show ?thesis
      using True n by (simp add: MERGE_def bit_or_iff bit_drop_bit_eq bit_push_bit_iff bit_ld32 add.assoc)
  next
    case False
    then have le: "32 - 8 * j \<le> n" "n - (32 - 8 * j) < 32" using n by linarith+
    have eq: "n - (32 - 8 * j) = 8 * j + n - 32" using False assms by linarith
    have "8 * j + n = 8 * 4 + (8 * j + n - 32)" using False by linarith
    then have d: "j + n div 8 = 4 + (8 * j + n - 32) div 8" "n mod 8 = (8 * j + n - 32) mod 8"
      by (metis div_mult_self4 mod_mult_self4 zero_neq_numeral)+
    have "\<not> bit (ld32 m p) (8 * j + n)" using False bit_imp_le_length [of "ld32 m p" "8 * j + n"] by auto
    moreover have "p + of_nat j + of_nat (n div 8) = p + of_nat (4 + (8 * j + n - 32) div 8)"
      using d(1) by (metis add.assoc of_nat_add)
    ultimately show ?thesis
      using le n d(2) eq by (simp add: MERGE_def bit_or_iff bit_drop_bit_eq bit_push_bit_iff bit_ld32 add.assoc)
  qed
qed

definition merge_ok :: "mem \<Rightarrow> nat \<Rightarrow> nat \<Rightarrow> bool" where
  "merge_ok m j k \<longleftrightarrow>
     (\<forall>s1 s2 a b. a 2 = ld32 m (s1 - 8) \<longrightarrow> a 3 = ld32 m (s1 - 4) \<longrightarrow> b 3 = ld32 m (s2 - 4) \<longrightarrow>
        run (merge_step m (8 * j) (32 - 8 * j)) (if k = 0 then Do0 else Top, s1, s2, 4 * k, a, b) =
          Some (memcmp_tail m (s1 - 8 + of_nat j) (s2 - 4) (4 + 16 * k)))"

lemma merge_okD:
  "merge_ok m j k \<Longrightarrow> a 2 = ld32 m (s1 - 8) \<Longrightarrow> a 3 = ld32 m (s1 - 4) \<Longrightarrow> b 3 = ld32 m (s2 - 4) \<Longrightarrow>
     run (merge_step m (8 * j) (32 - 8 * j)) (if k = 0 then Do0 else Top, s1, s2, 4 * k, a, b) =
       Some (memcmp_tail m (s1 - 8 + of_nat j) (s2 - 4) (4 + 16 * k))"
  unfolding merge_ok_def by blast

lemma merge_Do1:
  assumes ok: "merge_ok m j k" and j: "0 < j" "j < 4"
    and r: "a 1 = ld32 m (s1 + 4)" "a 2 = ld32 m (s1 + 4 + 4)" "b 2 = ld32 m (s2 + 8)"
  shows "run (merge_step m (8 * j) (32 - 8 * j)) (Do1, s1, s2, 4 * Suc k, a, b) =
    Some (memcmp_tail m (s1 + 4 + of_nat j) (s2 + 8) (4 + (4 + 16 * k)))"
proof (rule run_cmp_word)
  let ?a = "a(3 := ld32 m (s1 + 12))" and ?b = "b(3 := ld32 m (s2 + 12))"
  show "merge_step m (8 * j) (32 - 8 * j) (Do1, s1, s2, 4 * Suc k, a, b) =
      (if ld32 m (s1 + 4 + of_nat j) \<noteq> ld32 m (s2 + 8)
       then Inl (CMP_LT_OR_GT (ld32 m (s1 + 4 + of_nat j)) (ld32 m (s2 + 8)))
       else Inr (if k = 0 then Do0 else Top, s1 + 16, s2 + 16, 4 * k, ?a, ?b))"
    using r MERGE_ld32 [OF j, of m "s1 + 4"] by (simp add: Let_def)
  have "run (merge_step m (8 * j) (32 - 8 * j)) (if k = 0 then Do0 else Top, s1 + 16, s2 + 16, 4 * k, ?a, ?b) =
      Some (memcmp_tail m (s1 + 16 - 8 + of_nat j) (s2 + 16 - 4) (4 + 16 * k))"
    by (rule merge_okD [OF ok]) (use r in \<open>simp_all add: add.commute\<close>)
  then show "run (merge_step m (8 * j) (32 - 8 * j)) (if k = 0 then Do0 else Top, s1 + 16, s2 + 16, 4 * k, ?a, ?b) =
      Some (memcmp_tail m (s1 + 4 + of_nat j + 4) (s2 + 8 + 4) (4 + 16 * k))"
    by (simp add: algebra_simps)
qed

lemma merge_Do2:
  assumes ok: "merge_ok m j k" and j: "0 < j" "j < 4"
    and r: "a 0 = ld32 m s1" "a 1 = ld32 m (s1 + 4)" "b 1 = ld32 m (s2 + 4)"
  shows "run (merge_step m (8 * j) (32 - 8 * j)) (Do2, s1, s2, 4 * Suc k, a, b) =
    Some (memcmp_tail m (s1 + of_nat j) (s2 + 4) (4 + (4 + (4 + 16 * k))))"
  by (rule run_cmp_word [where s' = "(Do1, s1, s2, 4 * Suc k, a(2 := ld32 m (s1 + 8)), b(2 := ld32 m (s2 + 8)))"])
     (use r MERGE_ld32 [OF j, of m s1] merge_Do1 [OF ok j, where ?s1.0 = s1 and ?s2.0 = s2] in \<open>simp_all add: algebra_simps Let_def\<close>)

lemma merge_Do3:
  assumes ok: "merge_ok m j k" and j: "0 < j" "j < 4"
    and r: "a 3 = ld32 m (s1 - 4)" "a 0 = ld32 m (s1 - 4 + 4)" "b 0 = ld32 m s2"
  shows "run (merge_step m (8 * j) (32 - 8 * j)) (Do3, s1, s2, 4 * Suc k, a, b) =
    Some (memcmp_tail m (s1 - 4 + of_nat j) s2 (4 + (4 + (4 + (4 + 16 * k)))))"
  by (rule run_cmp_word [where s' = "(Do2, s1, s2, 4 * Suc k, a(1 := ld32 m (s1 + 4)), b(1 := ld32 m (s2 + 4)))"])
     (use r MERGE_ld32 [OF j, of m "s1 - 4"] merge_Do2 [OF ok j, where ?s1.0 = s1 and ?s2.0 = s2] in \<open>simp_all add: algebra_simps Let_def\<close>)

lemma merge_Top:
  assumes ok: "merge_ok m j k" and j: "0 < j" "j < 4"
    and r: "a 2 = ld32 m (s1 - 8)" "a 3 = ld32 m (s1 - 8 + 4)" "b 3 = ld32 m (s2 - 4)"
  shows "run (merge_step m (8 * j) (32 - 8 * j)) (Top, s1, s2, 4 * Suc k, a, b) =
    Some (memcmp_tail m (s1 - 8 + of_nat j) (s2 - 4) (4 + (4 + (4 + (4 + (4 + 16 * k))))))"
  by (rule run_cmp_word [where s' = "(Do3, s1, s2, 4 * Suc k, a(0 := ld32 m s1), b(0 := ld32 m s2))"])
     (use r MERGE_ld32 [OF j, of m "s1 - 8"] merge_Do3 [OF ok j, where ?s1.0 = s1 and ?s2.0 = s2] in \<open>simp_all add: algebra_simps Let_def\<close>)

lemma merge_ok_all:
  assumes j: "0 < j" "j < 4"
  shows "merge_ok m j k"
proof (induction k)
  case 0
  show ?case
    unfolding merge_ok_def
  proof (intro allI impI)
    fix s1 s2 :: u32 and a b :: "nat \<Rightarrow> u32"
    assume r: "a 2 = ld32 m (s1 - 8)" "a 3 = ld32 m (s1 - 4)" "b 3 = ld32 m (s2 - 4)"
    let ?x = "ld32 m (s1 - 8 + of_nat j)"
    have "run (merge_step m (8 * j) (32 - 8 * j)) (Do0, s1, s2, 0, a, b) =
        (if ?x \<noteq> ld32 m (s2 - 4) then CMP_LT_OR_GT ?x (ld32 m (s2 - 4)) else Some 0)"
      using r MERGE_ld32 [OF j, of m "s1 - 8"] by (subst run_Inl) (simp_all add: Let_def)
    also have "\<dots> = Some (memcmp_tail m (s1 - 8 + of_nat j) (s2 - 4) (4 + 0))" by (rule cmp_word) simp
    finally show "run (merge_step m (8 * j) (32 - 8 * j)) (if 0 = 0 then Do0 else Top, s1, s2, 4 * 0, a, b) =
        Some (memcmp_tail m (s1 - 8 + of_nat j) (s2 - 4) (4 + 16 * 0))"
      by simp
  qed
next
  case (Suc k)
  show ?case
    unfolding merge_ok_def using merge_Top [OF Suc.IH j] by (simp add: algebra_simps)
qed

lemma memcmp_not_common_alignment_eq:
  assumes len: "2 \<le> len" and u: "p mod 4 \<noteq> 0"
  shows "memcmp_not_common_alignment m p q len = Some (memcmp_tail m p q (4 * len))"
proof -
  define j where "j = unat (p mod 4)"
  have "0 < j" using u by (simp add: j_def unat_gt_0)
  moreover have "j < 4" by (simp add: j_def unat_mod)
  ultimately have j: "0 < j" "j < 4" by simp_all
  have "p AND NOT 3 = p - (p AND 3)" using and_plus_and_not [of p 3] by (metis add_diff_cancel_left')
  then have p: "p AND - 4 = p - of_nat j" by (simp add: and_3 take_bit_eq_mod j_def)
  let ?p = "p - of_nat j" and ?r = "\<lambda>_. 0 :: u32"
  note ok = merge_ok_all [OF j, of m] and alt = memcmp_not_common_alignment_def Let_def j_def [symmetric] p
  have s: "8 * 4 - 8 * j = 32 - 8 * j" by simp
  from len show ?thesis
  proof (cases rule: len_mod_4_cases)
    case (1 k)
    have "run (merge_step m (8 * j) (32 - 8 * j)) (Do3, ?p + 4, q, 4 * Suc k, ?r(3 := ld32 m ?p, 0 := ld32 m (?p + 4)), ?r(0 := ld32 m q)) =
        Some (memcmp_tail m (?p + 4 - 4 + of_nat j) q (4 + (4 + (4 + (4 + 16 * k)))))"
      by (rule merge_Do3 [OF ok j]) simp_all
    with 1 show ?thesis unfolding alt s by (simp only: switch_simps add_diff_cancel_right' diff_add_cancel)
  next
    case (2 k)
    have "run (merge_step m (8 * j) (32 - 8 * j))
          (Top, ?p + 8, q + 4, 4 * Suc k, ?r(2 := ld32 m ?p, 3 := ld32 m (?p + 4)), ?r(3 := ld32 m q)) =
        Some (memcmp_tail m (?p + 8 - 8 + of_nat j) (q + 4 - 4) (4 + (4 + (4 + (4 + (4 + 16 * k))))))"
      by (rule merge_Top [OF ok j]) simp_all
    then show ?thesis unfolding alt s 2(2,3) by (simp only: 2(1) switch_simps add_diff_cancel_right' diff_add_cancel)
  next
    case (3 k)
    have "run (merge_step m (8 * j) (32 - 8 * j))
          (Do1, ?p - 4, q - 8, 4 * Suc k, ?r(1 := ld32 m ?p, 2 := ld32 m (?p + 4)), ?r(2 := ld32 m q)) =
        Some (memcmp_tail m (?p - 4 + 4 + of_nat j) (q - 8 + 8) (4 + (4 + 16 * k)))"
      by (rule merge_Do1 [OF ok j]) simp_all
    then show ?thesis unfolding alt s 3(2,3) by (simp only: 3(1) switch_simps diff_add_cancel)
  next
    case (4 k)
    have "run (merge_step m (8 * j) (32 - 8 * j))
          (Do2, ?p, q - 4, 4 * Suc k, ?r(0 := ld32 m ?p, 1 := ld32 m (?p + 4)), ?r(1 := ld32 m q)) =
        Some (memcmp_tail m (?p + of_nat j) (q - 4 + 4) (4 + (4 + (4 + 16 * k))))"
      by (rule merge_Do2 [OF ok j]) simp_all
    then show ?thesis unfolding alt s 4(2,3) by (simp only: 4(1) switch_simps diff_add_cancel)
  qed
qed

subsection \<open>The whole comparison\<close>

lemma memcmp_align_run:
  assumes "(q + of_nat d) mod 4 = 0" and "d \<le> len"
  shows "(\<exists>k \<le> d. memcmp_tail m p q k = 0 \<and> memcmp_align m p q len = Some (Inr (p + of_nat k, q + of_nat k, len - k))) \<or>
    (memcmp_tail m p q len \<noteq> 0 \<and> memcmp_align m p q len = Some (Inl (memcmp_tail m p q len)))"
  using assms
proof (induction d arbitrary: p q len)
  case 0
  then have "memcmp_align m p q len = Some (Inr (p, q, len))" by (subst memcmp_align.simps) simp
  then show ?case by (intro disjI1 exI [of _ 0]) simp
next
  case (Suc d)
  then obtain l where len: "len = Suc l" by (cases len) auto
  consider "q mod 4 = 0" | "q mod 4 \<noteq> 0" "uint (m p) \<noteq> uint (m q)" | "q mod 4 \<noteq> 0" "uint (m p) = uint (m q)" by blast
  then show ?case
  proof cases
    case 1
    then have "memcmp_align m p q len = Some (Inr (p, q, len))" by (subst memcmp_align.simps) simp
    then show ?thesis by (intro disjI1 exI [of _ 0]) simp
  next
    case 2
    then have "memcmp_align m p q len = Some (Inl (memcmp_tail m p q len))" by (subst memcmp_align.simps) (simp add: Let_def len)
    then show ?thesis using 2 len by simp
  next
    case 3
    have step: "memcmp_align m p q len = memcmp_align m (p + 1) (q + 1) l" using 3 len by (subst memcmp_align.simps) (simp add: Let_def)
    have t: "memcmp_tail m p q (Suc n) = memcmp_tail m (p + 1) (q + 1) n" for n using 3 by simp
    have "(q + 1 + of_nat d) mod 4 = 0" "d \<le> l" using Suc.prems len by (simp_all add: add.assoc)
    from Suc.IH [OF this, of "p + 1"] show ?thesis
    proof (elim disjE exE conjE)
      fix k assume "k \<le> d" "memcmp_tail m (p + 1) (q + 1) k = 0"
        "memcmp_align m (p + 1) (q + 1) l = Some (Inr (p + 1 + of_nat k, q + 1 + of_nat k, l - k))"
      then show ?thesis using t step len by (intro disjI1 exI [of _ "Suc k"]) (simp add: add.assoc)
    next
      assume "memcmp_tail m (p + 1) (q + 1) l \<noteq> 0" "memcmp_align m (p + 1) (q + 1) l = Some (Inl (memcmp_tail m (p + 1) (q + 1) l))"
      then show ?thesis using t step len by (intro disjI2) simp
    qed
  qed
qed

lemma memcmp_eq: "memcmp m p q len = Some (memcmp_tail m p q len)"
proof (cases "OP_T_THRES \<le> len")
  case True
  let ?d = "(4 - unat q mod 4) mod 4"
  have d: "?d < 4" by simp
  have "unat (q + of_nat ?d) mod 4 = 0"
  proof -
    have "unat (q + of_nat ?d) mod 4 = (unat q + ?d) mod 4294967296 mod 4" by (simp add: unat_word_ariths unat_of_nat mod_simps)
    also have "\<dots> = (unat q + ?d) mod 4" by (rule mod_mod_cancel) simp
    also have "\<dots> = 0" by (rule pad_4)
    finally show ?thesis .
  qed
  then have "unat ((q + of_nat ?d) mod 4) = 0" by (simp add: unat_mod)
  then have al: "(q + of_nat ?d) mod 4 = 0" by (simp add: unat_eq_zero)
  have le: "?d \<le> len" using d True by (simp add: OP_T_THRES_def)
  from memcmp_align_run [OF al le, of m p] show ?thesis
  proof (elim disjE exE conjE)
    fix k assume k: "k \<le> ?d" "memcmp_tail m p q k = 0"
      and run: "memcmp_align m p q len = Some (Inr (p + of_nat k, q + of_nat k, len - k))"
    let ?p = "p + of_nat k" and ?q = "q + of_nat k" and ?l = "len - k"
    have l: "2 \<le> ?l div 4" using k(1) d True by (simp add: OP_T_THRES_def)
    have w: "(if ?p mod 4 = 0 then memcmp_common_alignment m ?p ?q (?l div 4) else memcmp_not_common_alignment m ?p ?q (?l div 4)) =
        Some (memcmp_tail m ?p ?q (?l div 4 * 4))"
      using memcmp_common_alignment_eq [OF l] memcmp_not_common_alignment_eq [OF l] by (simp add: mult.commute)
    have "memcmp_tail m p q len = memcmp_tail m p q (k + (?l div 4 * 4 + ?l mod 4))" using k(1) le by simp
    also have "\<dots> = (if memcmp_tail m ?p ?q (?l div 4 * 4) \<noteq> 0 then memcmp_tail m ?p ?q (?l div 4 * 4)
        else memcmp_tail m (?p + of_nat (?l div 4 * 4)) (?q + of_nat (?l div 4 * 4)) (?l mod 4))"
      using k(2) by (simp only: memcmp_tail_add simp_thms if_False)
    finally show ?thesis
      using True run w unfolding memcmp_def by simp
  qed (use True in \<open>simp add: memcmp_def\<close>)
qed (simp add: memcmp_def)

end
