(* ===== verification/Mem_Copy.thy ===== *)
theory Mem_Copy
  imports Mem_Block
begin

text \<open>
  The routines of \<open>kernel/utils/string/\<close> that write: \<open>memcpy\<close>, \<open>memset\<close>, \<open>strcpy\<close>, \<open>strncpy\<close>, \<open>strcat\<close>, \<open>strncat\<close>; and
  the comparisons \<open>strcmp\<close> and \<open>strncmp\<close> that end at a zero byte.

  The string instructions \<open>rep movsb\<close> and \<open>rep movsl\<close> with the direction flag clear copy bytes and words upwards. The
  lemmas show that a copy or a fill changes exactly the bytes of its destination.
\<close>

section \<open>The routines\<close>

primrec BYTE_COPY_FWD :: "nat \<Rightarrow> u32 \<Rightarrow> u32 \<Rightarrow> mem \<Rightarrow> mem" where
  "BYTE_COPY_FWD 0 dst_bp src_bp m = m"
| "BYTE_COPY_FWD (Suc n) dst_bp src_bp m = BYTE_COPY_FWD n (dst_bp + 1) (src_bp + 1) (m(dst_bp := m src_bp))"

primrec WORD_COPY_FWD :: "nat \<Rightarrow> u32 \<Rightarrow> u32 \<Rightarrow> mem \<Rightarrow> mem" where
  "WORD_COPY_FWD 0 dst_bp src_bp m = m"
| "WORD_COPY_FWD (Suc n) dst_bp src_bp m = WORD_COPY_FWD n (dst_bp + 4) (src_bp + 4) (st32 dst_bp (ld32 m src_bp) m)"

definition memcpy :: "u32 \<Rightarrow> u32 \<Rightarrow> nat \<Rightarrow> mem \<Rightarrow> mem" where
  "memcpy dstp srcp len m =
     (if 8 \<le> len then
        let a = unat (- dstp mod 4); len = len - a;
            m = BYTE_COPY_FWD a dstp srcp m; dstp = dstp + of_nat a; srcp = srcp + of_nat a;
            m = WORD_COPY_FWD (len div 4) dstp srcp m;
            dstp = dstp + of_nat (4 * (len div 4)); srcp = srcp + of_nat (4 * (len div 4))
        in BYTE_COPY_FWD (len mod 4) dstp srcp m
      else BYTE_COPY_FWD len dstp srcp m)"

text \<open>\<open>memset\<close>: its loops over bytes, over groups of eight words and over words.\<close>

primrec set_bytes :: "nat \<Rightarrow> u32 \<Rightarrow> u8 \<Rightarrow> mem \<Rightarrow> mem" where
  "set_bytes 0 dstp c m = m"
| "set_bytes (Suc n) dstp c m = set_bytes n (dstp + 1) c (m(dstp := c))"

primrec set_words :: "nat \<Rightarrow> u32 \<Rightarrow> u32 \<Rightarrow> mem \<Rightarrow> mem" where
  "set_words 0 dstp cccc m = m"
| "set_words (Suc n) dstp cccc m = set_words n (dstp + 4) cccc (st32 dstp cccc m)"

primrec set_words8 :: "nat \<Rightarrow> u32 \<Rightarrow> u32 \<Rightarrow> mem \<Rightarrow> mem" where
  "set_words8 0 dstp cccc m = m"
| "set_words8 (Suc n) dstp cccc m =
     set_words8 n (dstp + 32) cccc
       (st32 (dstp + 28) cccc (st32 (dstp + 24) cccc (st32 (dstp + 20) cccc (st32 (dstp + 16) cccc
         (st32 (dstp + 12) cccc (st32 (dstp + 8) cccc (st32 (dstp + 4) cccc (st32 dstp cccc m))))))))"

text \<open>The number of rounds of the first loop, which runs until the pointer is a multiple of four.\<close>

definition memset :: "u32 \<Rightarrow> u8 \<Rightarrow> nat \<Rightarrow> mem \<Rightarrow> mem" where
  "memset dstp c len m =
     (if 8 \<le> len then
        let cccc = ucast c :: u32; cccc = cccc OR push_bit 8 cccc; cccc = cccc OR push_bit 16 cccc;
            a = unat (- dstp mod 4); m = set_bytes a dstp c m; dstp = dstp + of_nat a; len = len - a;
            xlen = len div 32; m = set_words8 xlen dstp cccc m; dstp = dstp + of_nat (32 * xlen); len = len mod 32;
            xlen = len div 4; m = set_words xlen dstp cccc m; dstp = dstp + of_nat (4 * xlen); len = len mod 4
        in set_bytes len dstp c m
      else set_bytes len dstp c m)"

definition strcpy :: "u32 \<Rightarrow> u32 \<Rightarrow> mem \<Rightarrow> mem option" where
  "strcpy dest src m = do { n \<leftarrow> strlen m src; Some (memcpy dest src (unat (n + 1)) m) }"

definition strncpy :: "u32 \<Rightarrow> u32 \<Rightarrow> u32 \<Rightarrow> mem \<Rightarrow> mem option" where
  "strncpy s1 s2 n m =
     do {
       sz \<leftarrow> strnlen m s2 n;
       let m = (if sz \<noteq> n then memset (s1 + sz) 0 (unat (n - sz)) m else m);
       Some (memcpy s1 s2 (unat sz) m)
     }"

definition strcat :: "u32 \<Rightarrow> u32 \<Rightarrow> mem \<Rightarrow> mem option" where
  "strcat dest src m = do { n \<leftarrow> strlen m dest; strcpy (dest + n) src m }"

definition strncat :: "u32 \<Rightarrow> u32 \<Rightarrow> u32 \<Rightarrow> mem \<Rightarrow> mem option" where
  "strncat s1 s2 n m =
     do {
       l \<leftarrow> strlen m s1;
       let s1 = s1 + l;
       ss \<leftarrow> strnlen m s2 n;
       let m = m(s1 + ss := 0);
       Some (memcpy s1 s2 (unat ss) m)
     }"

partial_function (option) strcmp :: "mem \<Rightarrow> u32 \<Rightarrow> u32 \<Rightarrow> int option" where
  "strcmp m s1 s2 =
     (let c1 = m s1; c2 = m s2
      in if c1 = 0 then Some (uint c1 - uint c2)
         else if c1 = c2 then strcmp m (s1 + 1) (s2 + 1)
         else Some (uint c1 - uint c2))"

text \<open>\<open>strncmp\<close>, four bytes per round; \<open>Inl\<close> is a return from the loop. The last values of \<open>c1\<close> and \<open>c2\<close> are equal when the
  loop ends, so the final \<open>c1 - c2\<close> is 0.\<close>

primrec strncmp_bytes :: "nat \<Rightarrow> mem \<Rightarrow> u32 \<Rightarrow> u32 \<Rightarrow> int + u32 \<times> u32" where
  "strncmp_bytes 0 m s1 s2 = Inr (s1, s2)"
| "strncmp_bytes (Suc n) m s1 s2 =
     (let c1 = m s1; c2 = m s2
      in if c1 = 0 \<or> c1 \<noteq> c2 then Inl (uint c1 - uint c2) else strncmp_bytes n m (s1 + 1) (s2 + 1))"

primrec strncmp_rounds :: "nat \<Rightarrow> mem \<Rightarrow> u32 \<Rightarrow> u32 \<Rightarrow> int + u32 \<times> u32" where
  "strncmp_rounds 0 m s1 s2 = Inr (s1, s2)"
| "strncmp_rounds (Suc n4) m s1 s2 =
     (case strncmp_bytes 4 m s1 s2 of Inl r \<Rightarrow> Inl r | Inr (s1, s2) \<Rightarrow> strncmp_rounds n4 m s1 s2)"

definition strncmp :: "mem \<Rightarrow> u32 \<Rightarrow> u32 \<Rightarrow> nat \<Rightarrow> int" where
  "strncmp m s1 s2 n =
     (case (if 4 \<le> n then strncmp_rounds (n div 4) m s1 s2 else Inr (s1, s2)) of
        Inl r \<Rightarrow> r
      | Inr (s1, s2) \<Rightarrow>
          (case strncmp_bytes (if 4 \<le> n then n mod 4 else n) m s1 s2 of Inl r \<Rightarrow> r | Inr _ \<Rightarrow> 0))"

text \<open>The comparisons that ignore case. \<open>strcasecmp\<close> reads unsigned, \<open>strncasecmp\<close> signed characters.\<close>

definition tolower :: "int \<Rightarrow> int" where
  "tolower c = c + 0x20 * (if 65 \<le> c \<and> c \<le> 90 then 1 else 0)"

partial_function (option) strcasecmp_loop :: "mem \<Rightarrow> u32 \<Rightarrow> u32 \<Rightarrow> int option" where
  "strcasecmp_loop m p1 p2 =
     (let result = tolower (uint (m p1)) - tolower (uint (m p2))
      in if result = 0 then (if m p1 = 0 then Some result else strcasecmp_loop m (p1 + 1) (p2 + 1)) else Some result)"

definition strcasecmp :: "mem \<Rightarrow> u32 \<Rightarrow> u32 \<Rightarrow> int option" where
  "strcasecmp m s1 s2 = (if s1 = s2 then Some 0 else strcasecmp_loop m s1 s2)"

function strncasecmp :: "mem \<Rightarrow> u32 \<Rightarrow> u32 \<Rightarrow> int \<Rightarrow> int" where
  "strncasecmp m s1 s2 n =
     (let c1 = tolower (sint (m s1)); c2 = tolower (sint (m s2)); n = n - 1
      in if 0 < n \<and> c1 = c2 \<and> c1 \<noteq> 0 then strncasecmp m (s1 + 1) (s2 + 1) n else c1 - c2)"
  by pat_completeness auto
termination
  by (relation "measure (\<lambda>(m, s1, s2, n). nat n)") auto

declare strncasecmp.simps [simp del]

section \<open>Copies and fills\<close>

text \<open>\<open>m'\<close> is \<open>m\<close> with the \<open>n\<close> bytes \<open>f 0\<close>, \<open>f 1\<close>, ... written at \<open>d\<close>.\<close>

definition written :: "mem \<Rightarrow> mem \<Rightarrow> u32 \<Rightarrow> nat \<Rightarrow> (nat \<Rightarrow> u8) \<Rightarrow> bool" where
  "written m m' d n f \<longleftrightarrow>
     (\<forall>i < n. m' (d + of_nat i) = f i) \<and> (\<forall>x. (\<forall>i < n. x \<noteq> d + of_nat i) \<longrightarrow> m' x = m x)"

lemma of_nat_u32_inj: "i < 4294967296 \<Longrightarrow> j < 4294967296 \<Longrightarrow> (of_nat i :: u32) = of_nat j \<Longrightarrow> i = j"
  by (metis unat_of_nat_u32)

lemma written_0: "written m m d 0 f"
  by (simp add: written_def)

lemma written_append:
  assumes "written m m1 d a f" and "written m1 m2 (d + of_nat a) b (\<lambda>i. f (a + i))" and len: "a + b \<le> 4294967296"
  shows "written m m2 d (a + b) f"
  unfolding written_def
proof (intro conjI allI impI)
  fix i assume i: "i < a + b"
  show "m2 (d + of_nat i) = f i"
  proof (cases "i < a")
    case True
    have "d + of_nat i \<noteq> d + of_nat a + of_nat j" if "j < b" for j
    proof
      assume "d + of_nat i = d + of_nat a + of_nat j"
      then have "(of_nat i :: u32) = of_nat (a + j)" by (simp add: add.assoc)
      then have "i = a + j" using True that len by (intro of_nat_u32_inj) simp_all
      then show False using True by simp
    qed
    then have "m2 (d + of_nat i) = m1 (d + of_nat i)" using assms(2) by (simp add: written_def)
    with True assms(1) show ?thesis by (simp add: written_def)
  next
    case False
    have "\<forall>j < b. m2 (d + of_nat a + of_nat j) = f (a + j)" using assms(2) by (simp add: written_def)
    moreover have "i - a < b" using False i by simp
    ultimately have "m2 (d + of_nat a + of_nat (i - a)) = f (a + (i - a))" by blast
    with False show ?thesis by (simp add: of_nat_diff)
  qed
next
  fix x assume x: "\<forall>i < a + b. x \<noteq> d + of_nat i"
  have "x \<noteq> d + of_nat a + of_nat j" if "j < b" for j using x [rule_format, of "a + j"] that by (simp add: add.assoc)
  then have "m2 x = m1 x" using assms(2) by (simp add: written_def)
  also have "\<dots> = m x" using x assms(1) by (simp add: written_def)
  finally show "m2 x = m x" .
qed

lemma written_1: "written m (m(d := v)) d 1 (\<lambda>_. v)"
  by (simp add: written_def)

lemma less_4_cases: "(\<forall>i < 4. P i) \<longleftrightarrow> P 0 \<and> P 1 \<and> P 2 \<and> P (3 :: nat)"
  by (auto simp: less_Suc_eq numeral_eq_Suc)

lemma written_st32: "written m (st32 d w m) d 4 (\<lambda>i. ucast (drop_bit (8 * i) w))"
  unfolding written_def less_4_cases by (simp add: st32_def)

lemma written_cong: "written m m' d n f \<Longrightarrow> (\<And>i. i < n \<Longrightarrow> f i = g i) \<Longrightarrow> written m m' d n g"
  by (simp add: written_def)

text \<open>Source and destination do not overlap.\<close>

definition apart :: "u32 \<Rightarrow> u32 \<Rightarrow> nat \<Rightarrow> bool" where
  "apart d s n \<longleftrightarrow> (\<forall>i < n. \<forall>j < n. d + of_nat i \<noteq> s + of_nat j)"

lemma apart_step: "apart d s (a + b) \<Longrightarrow> apart (d + of_nat a) (s + of_nat a) b"
  unfolding apart_def
proof (intro allI impI)
  fix i j assume a: "\<forall>i < a + b. \<forall>j < a + b. d + of_nat i \<noteq> s + of_nat j" and "i < b" "j < b"
  then have "d + of_nat (a + i) \<noteq> s + of_nat (a + j)" by simp
  then show "d + of_nat a + of_nat i \<noteq> s + of_nat a + of_nat j" by (simp add: add.assoc)
qed

lemma apart_le: "apart d s n \<Longrightarrow> k \<le> n \<Longrightarrow> apart d s k"
  by (simp add: apart_def)

text \<open>A copy in two parts: the first part does not change what the second one reads.\<close>

lemma copy_append:
  assumes "written m m1 d a (\<lambda>i. m (s + of_nat i))"
    and "written m1 m2 (d + of_nat a) b (\<lambda>i. m1 (s + of_nat a + of_nat i))"
    and ap: "apart d s (a + b)" and len: "a + b \<le> 4294967296"
  shows "written m m2 d (a + b) (\<lambda>i. m (s + of_nat i))"
proof (rule written_append [OF assms(1) _ len])
  show "written m1 m2 (d + of_nat a) b (\<lambda>i. m (s + of_nat (a + i)))"
  proof (rule written_cong [OF assms(2)])
    fix i assume "i < b"
    then have "d + of_nat k \<noteq> s + of_nat (a + i)" if "k < a" for k
      using ap [unfolded apart_def, rule_format, of k "a + i"] that by simp
    then have "\<forall>k < a. s + of_nat (a + i) \<noteq> d + of_nat k" by metis
    then show "m1 (s + of_nat a + of_nat i) = m (s + of_nat (a + i))"
      using assms(1) by (simp add: written_def add.assoc)
  qed
qed

lemma BYTE_COPY_written:
  "apart d s n \<Longrightarrow> n \<le> 4294967296 \<Longrightarrow> written m (BYTE_COPY_FWD n d s m) d n (\<lambda>i. m (s + of_nat i))"
proof (induction n arbitrary: d s m)
  case (Suc n)
  define m1 where "m1 = m(d := m s)"
  have "written m m1 d 1 (\<lambda>i. m (s + of_nat i))" unfolding m1_def by (rule written_cong [OF written_1]) simp
  moreover have "written m1 (BYTE_COPY_FWD n (d + 1) (s + 1) m1) (d + of_nat 1) n (\<lambda>i. m1 (s + of_nat 1 + of_nat i))"
    using Suc.IH [of "d + 1" "s + 1" m1] apart_step [of d s 1 n] Suc.prems by simp
  ultimately have "written m (BYTE_COPY_FWD n (d + 1) (s + 1) m1) d (1 + n) (\<lambda>i. m (s + of_nat i))"
    using Suc.prems by (intro copy_append) simp_all
  then show ?case by (simp add: m1_def)
qed (simp add: written_0)

lemma WORD_COPY_written:
  "apart d s (4 * n) \<Longrightarrow> 4 * n \<le> 4294967296 \<Longrightarrow> written m (WORD_COPY_FWD n d s m) d (4 * n) (\<lambda>i. m (s + of_nat i))"
proof (induction n arbitrary: d s m)
  case (Suc n)
  let ?m = "st32 d (ld32 m s) m"
  have "written m ?m d 4 (\<lambda>i. m (s + of_nat i))" by (rule written_cong [OF written_st32]) (rule byte_of_ld32)
  moreover have "written ?m (WORD_COPY_FWD n (d + 4) (s + 4) ?m) (d + of_nat 4) (4 * n) (\<lambda>i. ?m (s + of_nat 4 + of_nat i))"
    using Suc.IH [of "d + 4" "s + 4" ?m] apart_step [of d s 4 "4 * n"] Suc.prems by simp
  ultimately have "written m (WORD_COPY_FWD n (d + 4) (s + 4) ?m) d (4 + 4 * n) (\<lambda>i. m (s + of_nat i))"
    using Suc.prems by (intro copy_append) simp_all
  then show ?case by simp
qed (simp add: written_0)

lemma memcpy_written:
  assumes ap: "apart d s len" and len: "len \<le> 4294967296"
  shows "written m (memcpy d s len m) d len (\<lambda>i. m (s + of_nat i))"
proof (cases "8 \<le> len")
  case True
  define a where "a = unat (- d mod 4)"
  have a: "a < 4" by (simp add: a_def unat_mod)
  define n w t where "n = (len - a) div 4" and "w = 4 * n" and "t = (len - a) mod 4"
  have l: "a + (w + t) = len" using a True by (simp add: n_def w_def t_def)
  define m1 where "m1 = BYTE_COPY_FWD a d s m"
  define m2 where "m2 = WORD_COPY_FWD n (d + of_nat a) (s + of_nat a) m1"
  define m3 where "m3 = BYTE_COPY_FWD t (d + of_nat a + of_nat w) (s + of_nat a + of_nat w) m2"
  have ap2: "apart (d + of_nat a) (s + of_nat a) (w + t)" using apart_step [of d s a "w + t"] ap l by simp
  have w1: "written m m1 d a (\<lambda>i. m (s + of_nat i))" unfolding m1_def
    using apart_le [OF ap, of a] l len by (intro BYTE_COPY_written) simp_all
  have w2: "written m1 m2 (d + of_nat a) w (\<lambda>i. m1 (s + of_nat a + of_nat i))" unfolding m2_def w_def
    using apart_le [OF ap2, of w] l len by (intro WORD_COPY_written) (simp_all add: w_def [symmetric])
  have w3: "written m2 m3 (d + of_nat a + of_nat w) t (\<lambda>i. m2 (s + of_nat a + of_nat w + of_nat i))" unfolding m3_def
    using apart_step [OF ap2] l len by (intro BYTE_COPY_written) simp_all
  have "written m1 m3 (d + of_nat a) (w + t) (\<lambda>i. m1 (s + of_nat a + of_nat i))"
    by (rule copy_append [OF w2 w3 ap2]) (use l len in simp)
  from copy_append [OF w1 this] have "written m m3 d (a + (w + t)) (\<lambda>i. m (s + of_nat i))" using ap l len by simp
  moreover have "memcpy d s len m = m3"
    using True by (simp add: memcpy_def Let_def m3_def m2_def m1_def n_def w_def t_def a_def)
  ultimately show ?thesis by (simp only: l)
qed (use BYTE_COPY_written [OF ap len] in \<open>simp add: memcpy_def\<close>)

subsection \<open>\<open>memset\<close>\<close>

lemma set_bytes_written: "n \<le> 4294967296 \<Longrightarrow> written m (set_bytes n d c m) d n (\<lambda>_. c)"
proof (induction n arbitrary: d m)
  case (Suc n)
  define m1 where "m1 = m(d := c)"
  have "written m m1 d 1 (\<lambda>_. c)" unfolding m1_def by (rule written_1)
  moreover have "written m1 (set_bytes n (d + 1) c m1) (d + of_nat 1) n (\<lambda>_. c)"
    using Suc.IH [of m1 "d + 1"] Suc.prems by simp
  ultimately have "written m (set_bytes n (d + 1) c m1) d (1 + n) (\<lambda>_. c)"
    by (rule written_append) (use Suc.prems in simp)
  then show ?case by (simp add: m1_def)
qed (simp add: written_0)

lemma st32_fill: "written m (st32 d (charmask c) m) d 4 (\<lambda>_. c)"
  by (rule written_cong [OF written_st32]) (simp add: charmask_ld32 byte_of_ld32)

lemma set_words_written: "4 * n \<le> 4294967296 \<Longrightarrow> written m (set_words n d (charmask c) m) d (4 * n) (\<lambda>_. c)"
proof (induction n arbitrary: d m)
  case (Suc n)
  have "written m (set_words n (d + 4) (charmask c) (st32 d (charmask c) m)) d (4 + 4 * n) (\<lambda>_. c)"
    using Suc.IH [of "st32 d (charmask c) m" "d + 4"] Suc.prems st32_fill [of m d c] by (intro written_append) simp_all
  then show ?case by simp
qed (simp add: written_0)

text \<open>Eight words per round are as good as one.\<close>

lemma set_words8_eq: "set_words8 n d w m = set_words (8 * n) d w m"
proof (induction n arbitrary: d m)
  case (Suc n)
  have "8 * Suc n = Suc (Suc (Suc (Suc (Suc (Suc (Suc (Suc (8 * n))))))))" by simp
  then have "set_words (8 * Suc n) d w m =
      set_words (8 * n) (d + 4 + 4 + 4 + 4 + 4 + 4 + 4 + 4) w (st32 (d + 4 + 4 + 4 + 4 + 4 + 4 + 4) w
        (st32 (d + 4 + 4 + 4 + 4 + 4 + 4) w (st32 (d + 4 + 4 + 4 + 4 + 4) w (st32 (d + 4 + 4 + 4 + 4) w
          (st32 (d + 4 + 4 + 4) w (st32 (d + 4 + 4) w (st32 (d + 4) w (st32 d w m))))))))"
    by (simp only: set_words.simps)
  then show ?case using Suc.IH by (simp add: add.assoc)
qed simp

lemma memset_written:
  assumes len: "len \<le> 4294967296"
  shows "written m (memset d c len m) d len (\<lambda>_. c)"
proof (cases "8 \<le> len")
  case True
  define a where "a = unat (- d mod 4)"
  have a: "a < 4" by (simp add: a_def unat_mod)
  define l1 where "l1 = len - a"
  define i j x y t where "i = 8 * (l1 div 32)" and "j = l1 mod 32 div 4" and "x = 4 * i" and "y = 4 * j" and "t = l1 mod 32 mod 4"
  have "4 * i + (4 * j + t) = l1" by (simp add: i_def j_def t_def)
  then have l: "a + (x + (y + t)) = len" using a True by (simp add: x_def y_def l1_def)
  have cc: "charmask c = (ucast c OR push_bit 8 (ucast c)) OR push_bit 16 (ucast c OR push_bit 8 (ucast c))"
    by (simp add: charmask_def Let_def)
  define m1 where "m1 = set_bytes a d c m"
  define m2 where "m2 = set_words i (d + of_nat a) (charmask c) m1"
  define m3 where "m3 = set_words j (d + of_nat a + of_nat x) (charmask c) m2"
  define m4 where "m4 = set_bytes t (d + of_nat a + of_nat x + of_nat y) c m3"
  have w1: "written m m1 d a (\<lambda>_. c)" unfolding m1_def using l len by (intro set_bytes_written) simp
  have w2: "written m1 m2 (d + of_nat a) x (\<lambda>_. c)" unfolding m2_def x_def using l len by (intro set_words_written) (simp add: x_def [symmetric])
  have w3: "written m2 m3 (d + of_nat a + of_nat x) y (\<lambda>_. c)" unfolding m3_def y_def
    using l len by (intro set_words_written) (simp add: y_def [symmetric])
  have w4: "written m3 m4 (d + of_nat a + of_nat x + of_nat y) t (\<lambda>_. c)" unfolding m4_def using l len by (intro set_bytes_written) simp
  have "written m2 m4 (d + of_nat a + of_nat x) (y + t) (\<lambda>_. c)" by (rule written_append [OF w3 w4]) (use l len in simp)
  from written_append [OF w2 this] have "written m1 m4 (d + of_nat a) (x + (y + t)) (\<lambda>_. c)" using l len by simp
  from written_append [OF w1 this] have "written m m4 d (a + (x + (y + t))) (\<lambda>_. c)" using l len by simp
  moreover have "memset d c len m = m4"
    using True by (simp add: memset_def Let_def set_words8_eq cc m4_def m3_def m2_def m1_def x_def y_def i_def j_def t_def l1_def a_def)
  ultimately show ?thesis by (simp only: l)
qed (use set_bytes_written [OF len] in \<open>simp add: memset_def\<close>)

section \<open>Strings\<close>

lemma written_cstr:
  assumes "written m m' d (length xs + 1) (\<lambda>i. (xs @ [0]) ! i)" and "0 \<notin> set xs"
  shows "cstr m' d xs"
  using assms
proof (induction xs arbitrary: m d)
  case Nil
  then show ?case by (simp add: written_def)
next
  case (Cons x xs)
  have v: "\<forall>i < Suc (Suc (length xs)). m' (d + of_nat i) = (x # xs @ [0]) ! i" using Cons.prems(1) by (simp add: written_def)
  have "written m' m' (d + 1) (length xs + 1) (\<lambda>i. (xs @ [0]) ! i)"
    unfolding written_def
  proof (intro conjI allI impI)
    fix i assume "i < length xs + 1"
    then have "m' (d + of_nat (Suc i)) = (x # xs @ [0]) ! Suc i" using v by (intro v [rule_format]) simp
    then show "m' (d + 1 + of_nat i) = (xs @ [0]) ! i" by (simp add: add.assoc)
  qed simp
  then have "cstr m' (d + 1) xs" using Cons.IH Cons.prems(2) by simp
  then show ?case using v [rule_format, of 0] Cons.prems(2) by simp
qed

lemma strcpy_cstr:
  assumes c: "cstr m src xs" and ap: "apart dest src (length xs + 1)" and len: "length xs + 1 < 4294967296"
  shows "\<exists>m'. strcpy dest src m = Some m' \<and> cstr m' dest xs \<and> (\<forall>x. (\<forall>i \<le> length xs. x \<noteq> dest + of_nat i) \<longrightarrow> m' x = m x)"
proof -
  let ?m = "memcpy dest src (length xs + 1) m"
  have u: "unat (of_nat (length xs) + 1 :: u32) = length xs + 1"
    using unat_of_nat_u32 [of "length xs + 1"] len by (simp add: add.commute)
  have w: "written m ?m dest (length xs + 1) (\<lambda>i. m (src + of_nat i))" using ap len by (intro memcpy_written) simp_all
  have "written m ?m dest (length xs + 1) (\<lambda>i. (xs @ [0]) ! i)"
    by (rule written_cong [OF w]) (simp add: cstr_nth [OF c])
  then have "cstr ?m dest xs" using cstr_nonzero [OF c] by (rule written_cstr)
  moreover have "\<forall>x. (\<forall>i \<le> length xs. x \<noteq> dest + of_nat i) \<longrightarrow> ?m x = m x" using w by (simp add: written_def less_Suc_eq_le)
  moreover have "strcpy dest src m = Some ?m" using strlen_cstr [OF c] u by (simp add: strcpy_def)
  ultimately show ?thesis by blast
qed

text \<open>The difference of the first two bytes that differ, the terminators included.\<close>

fun str_diff :: "u8 list \<Rightarrow> u8 list \<Rightarrow> int" where
  "str_diff [] [] = 0"
| "str_diff [] (y # ys) = - uint y"
| "str_diff (x # xs) [] = uint x"
| "str_diff (x # xs) (y # ys) = (if x = y then str_diff xs ys else uint x - uint y)"

lemma strcmp_cstr: "cstr m s1 xs \<Longrightarrow> cstr m s2 ys \<Longrightarrow> strcmp m s1 s2 = Some (str_diff xs ys)"
proof (induction xs ys arbitrary: s1 s2 rule: str_diff.induct)
  case (4 x xs y ys)
  then show ?case by (subst strcmp.simps) (simp add: Let_def)
qed (subst strcmp.simps; simp add: Let_def)+

lemma strncmp_bytes_cstr:
  "cstr m s1 xs \<Longrightarrow> cstr m s2 ys \<Longrightarrow>
     (if take n xs = take n ys \<and> n \<le> length xs then strncmp_bytes n m s1 s2 = Inr (s1 + of_nat n, s2 + of_nat n)
      else strncmp_bytes n m s1 s2 = Inl (str_diff (take n xs) (take n ys)))"
proof (induction n arbitrary: s1 s2 xs ys)
  case (Suc n)
  then show ?case
  proof (cases xs; cases ys)
    fix x xs' y ys' assume xy: "xs = x # xs'" "ys = y # ys'"
    then show ?thesis using Suc.IH [of "s1 + 1" xs' "s2 + 1" ys'] Suc.prems by (cases "x = y") (auto simp: Let_def add.assoc)
  qed (auto simp: Let_def)
qed simp

lemma strncmp_bytes_add:
  "strncmp_bytes (a + b) m s1 s2 =
     (case strncmp_bytes a m s1 s2 of Inl r \<Rightarrow> Inl r | Inr (s1, s2) \<Rightarrow> strncmp_bytes b m s1 s2)"
  by (induction a arbitrary: s1 s2) (auto simp: Let_def)

lemma strncmp_rounds_eq: "strncmp_rounds n m s1 s2 = strncmp_bytes (4 * n) m s1 s2"
proof (induction n arbitrary: s1 s2)
  case (Suc n)
  have "strncmp_bytes (4 * Suc n) m s1 s2 = strncmp_bytes (4 + 4 * n) m s1 s2" by (simp only: mult_Suc_right)
  then show ?case using Suc.IH unfolding strncmp_bytes_add by (simp only: strncmp_rounds.simps)
qed simp

lemma strncmp_eq: "strncmp m s1 s2 n = (case strncmp_bytes n m s1 s2 of Inl r \<Rightarrow> r | Inr _ \<Rightarrow> 0)"
proof (cases "4 \<le> n")
  case True
  have "strncmp_bytes n m s1 s2 = strncmp_bytes (4 * (n div 4) + n mod 4) m s1 s2" by simp
  also have "\<dots> = (case strncmp_bytes (4 * (n div 4)) m s1 s2 of Inl r \<Rightarrow> Inl r | Inr (s1, s2) \<Rightarrow> strncmp_bytes (n mod 4) m s1 s2)"
    by (rule strncmp_bytes_add)
  finally have e: "strncmp_bytes n m s1 s2 = \<dots>" .
  show ?thesis
    unfolding e using True
    by (cases "strncmp_bytes (4 * (n div 4)) m s1 s2") (simp_all add: strncmp_def strncmp_rounds_eq split: prod.split)
qed (simp add: strncmp_def)

lemma str_diff_self: "str_diff xs xs = 0"
  by (induction xs) auto

lemma strncmp_cstr: "cstr m s1 xs \<Longrightarrow> cstr m s2 ys \<Longrightarrow> strncmp m s1 s2 n = str_diff (take n xs) (take n ys)"
  using strncmp_bytes_cstr [of m s1 xs s2 ys n] by (auto simp: strncmp_eq str_diff_self split: if_splits)

lemma str_diff_0: "0 \<notin> set xs \<Longrightarrow> 0 \<notin> set ys \<Longrightarrow> str_diff xs ys = 0 \<longleftrightarrow> xs = ys"
  by (induction xs ys rule: str_diff.induct) (auto simp: word_uint_eq_iff)

lemma str_diff_less: "0 \<notin> set xs \<Longrightarrow> 0 \<notin> set ys \<Longrightarrow> str_diff xs ys < 0 \<longleftrightarrow> (xs, ys) \<in> lexord {(a, b). a < b}"
proof (induction xs ys rule: str_diff.induct)
  case (2 y ys)
  then have "uint y \<noteq> 0" by (auto simp: word_uint_eq_iff)
  then show ?case using uint_ge_0 [of y] by (simp add: less_le)
next
  case (3 x xs)
  then show ?case using uint_ge_0 [of x] by simp
next
  case (4 x xs y ys)
  then show ?case by (auto simp: word_less_def)
qed simp

lemma tolower_0: "0 \<le> c \<Longrightarrow> tolower c = 0 \<longleftrightarrow> c = 0" "0 \<le> c \<Longrightarrow> 0 = tolower c \<longleftrightarrow> c = 0" "tolower 0 = 0"
  by (auto simp: tolower_def)

lemma strcasecmp_loop_cstr:
  "cstr m s1 xs \<Longrightarrow> cstr m s2 ys \<Longrightarrow>
     \<exists>r. strcasecmp_loop m s1 s2 = Some r \<and> (r = 0 \<longleftrightarrow> map (tolower \<circ> uint) xs = map (tolower \<circ> uint) ys)"
proof (induction xs arbitrary: ys s1 s2)
  case Nil
  then show ?case by (cases ys) (subst strcasecmp_loop.simps; simp add: Let_def tolower_0 uint_0_iff)+
next
  case (Cons x xs)
  show ?case
  proof (cases ys)
    case Nil
    then show ?thesis using Cons.prems by (subst strcasecmp_loop.simps) (simp add: Let_def tolower_0 uint_0_iff)
  next
    case (Cons y ys')
    then show ?thesis using Cons.prems Cons.IH [of "s1 + 1" "s2 + 1" ys'] by (subst strcasecmp_loop.simps) (simp add: Let_def comp_def)
  qed
qed

lemma cstr_unique: "cstr m s xs \<Longrightarrow> cstr m s ys \<Longrightarrow> xs = ys"
proof (induction xs arbitrary: s ys)
  case Nil
  then show ?case by (cases ys) auto
next
  case (Cons x xs)
  then show ?case by (cases ys) auto
qed

section \<open>The properties\<close>

text \<open>The comparison of two blocks byte by byte.\<close>

definition block_diff :: "mem \<Rightarrow> u32 \<Rightarrow> u32 \<Rightarrow> nat \<Rightarrow> int" where
  "block_diff m p q n =
     (case find (\<lambda>i. m (p + of_nat i) \<noteq> m (q + of_nat i)) [0..<n] of
        None \<Rightarrow> 0 | Some i \<Rightarrow> uint (m (p + of_nat i)) - uint (m (q + of_nat i)))"

lemma find_upt_Suc: "find P [0..<Suc n] = (if P 0 then Some 0 else map_option Suc (find (\<lambda>i. P (Suc i)) [0..<n]))"
proof -
  have "[0..<Suc n] = 0 # map Suc [0..<n]" by (metis map_Suc_upt upt_conv_Cons zero_less_Suc)
  moreover have "find P (map Suc xs) = map_option Suc (find (\<lambda>i. P (Suc i)) xs)" for xs by (induction xs) auto
  ultimately show ?thesis by simp
qed

lemma memcmp_tail_diff: "memcmp_tail m p q n = block_diff m p q n"
proof (induction n arbitrary: p q)
  case (Suc n)
  then show ?case
    by (auto simp: block_diff_def find_upt_Suc word_uint_eq_iff add.assoc option.case_eq_if option.map_sel simp del: upt_Suc)
qed (simp add: block_diff_def)

text \<open>C16: \<open>memcmp\<close>, with its aligned and its shifted comparison of words, ends for all pointers and lengths and returns the
  difference of the first two bytes that differ, or 0.\<close>

theorem memcmp_correct: "memcmp m s1 s2 len = Some (block_diff m s1 s2 len)"
  by (simp add: memcmp_eq memcmp_tail_diff)

text \<open>The comparisons of terminated strings end: \<open>strcmp\<close> is 0 exactly for equal strings and negative exactly if the
  first one is before the second in the order of unsigned bytes, \<open>strncmp\<close> is 0 exactly if the first \<open>n\<close> bytes agree, and
  \<open>strcasecmp\<close> is 0 exactly if the strings agree up to case.\<close>

theorem string_compare_correct:
  assumes "cstr m s1 xs" and "cstr m s2 ys"
  shows "(\<exists>r. strcmp m s1 s2 = Some r \<and> (r = 0 \<longleftrightarrow> xs = ys) \<and> (r < 0 \<longleftrightarrow> (xs, ys) \<in> lexord {(a, b). a < b})) \<and>
    (strncmp m s1 s2 n = 0 \<longleftrightarrow> take n xs = take n ys) \<and>
    (\<exists>r. strcasecmp m s1 s2 = Some r \<and> (r = 0 \<longleftrightarrow> map (tolower \<circ> uint) xs = map (tolower \<circ> uint) ys))"
proof (intro conjI)
  note nz = cstr_nonzero [OF assms(1)] cstr_nonzero [OF assms(2)]
  show "\<exists>r. strcmp m s1 s2 = Some r \<and> (r = 0 \<longleftrightarrow> xs = ys) \<and> (r < 0 \<longleftrightarrow> (xs, ys) \<in> lexord {(a, b). a < b})"
    using strcmp_cstr [OF assms] str_diff_0 [OF nz] str_diff_less [OF nz] by simp
  have "0 \<notin> set (take n xs)" "0 \<notin> set (take n ys)" using nz by (auto dest: in_set_takeD)
  then show "strncmp m s1 s2 n = 0 \<longleftrightarrow> take n xs = take n ys" by (simp add: strncmp_cstr [OF assms] str_diff_0)
  show "\<exists>r. strcasecmp m s1 s2 = Some r \<and> (r = 0 \<longleftrightarrow> map (tolower \<circ> uint) xs = map (tolower \<circ> uint) ys)"
  proof (cases "s1 = s2")
    case True
    then have "xs = ys" using assms cstr_unique by blast
    then show ?thesis using True by (simp add: strcasecmp_def)
  next
    case False
    then show ?thesis using strcasecmp_loop_cstr [OF assms] by (simp add: strcasecmp_def)
  qed
qed

theorem string_compare_correct_witness:
  "(\<exists>r. strcmp mem_example 0x2000 0x1001 = Some r \<and> r < 0) \<and> strncmp mem_example 0x2000 0x1001 1 \<noteq> 0 \<and>
   strcasecmp mem_example 0x1001 0x1001 = Some 0"
  using string_compare_correct [OF mem_example_cstr(2) mem_example_cstr(1), of 1]
    string_compare_correct [OF mem_example_cstr(1) mem_example_cstr(1), of 1] by auto

text \<open>\<open>memcpy\<close> between blocks that do not overlap writes exactly the destination, each byte of it with the byte of the
  source; \<open>memset\<close> writes exactly the destination with the given byte; \<open>strcpy\<close> makes a copy of the string.\<close>

theorem memcpy_memset_correct:
  assumes "apart d s len" and "len < 4294967296"
  shows "(\<forall>i < len. memcpy d s len m (d + of_nat i) = m (s + of_nat i)) \<and>
    (\<forall>i < len. memset d c len m (d + of_nat i) = c) \<and>
    (\<forall>x. (\<forall>i < len. x \<noteq> d + of_nat i) \<longrightarrow> memcpy d s len m x = m x \<and> memset d c len m x = m x) \<and>
    (\<forall>xs. cstr m s xs \<and> length xs < len \<longrightarrow> (\<exists>m'. strcpy d s m = Some m' \<and> cstr m' d xs))"
proof (intro conjI allI impI; (elim conjE)?)
  have "len \<le> 4294967296" using assms(2) by simp
  note w = memcpy_written [OF assms(1) this, of m] memset_written [OF this, of m d c]
  show "memcpy d s len m (d + of_nat i) = m (s + of_nat i)" "memset d c len m (d + of_nat i) = c" if "i < len" for i
    using w that by (simp_all add: written_def)
  show "memcpy d s len m x = m x" "memset d c len m x = m x" if "\<forall>i < len. x \<noteq> d + of_nat i" for x
    using w that by (simp_all add: written_def)
  show "\<exists>m'. strcpy d s m = Some m' \<and> cstr m' d xs" if "cstr m s xs" "length xs < len" for xs
    using strcpy_cstr [OF that(1), of d] apart_le [OF assms(1), of "Suc (length xs)"] that(2) assms(2) by auto
qed

theorem memcpy_memset_correct_witness:
  "memcpy 0x3002 0x1001 8 mem_example 0x3004 = 47 \<and> memset 0x3002 7 8 mem_example 0x3009 = 7 \<and>
   (\<exists>m'. strcpy 0x3002 0x1001 mem_example = Some m' \<and> cstr m' 0x3002 [97, 98, 47, 99, 100, 47, 101])"
proof -
  have "(0x3002 :: u32) + of_nat i \<noteq> 0x1001 + of_nat j" if "i < 8" "j < 8" for i j
    using unat_plus_of_nat [of "0x3002" i] unat_plus_of_nat [of "0x1001" j] that by (intro notI) simp
  then have "apart 0x3002 0x1001 8" by (simp add: apart_def)
  note c = memcpy_memset_correct [OF this, of mem_example 7]
  from c have "\<forall>i < 8. memcpy 0x3002 0x1001 8 mem_example (0x3002 + of_nat i) = mem_example (0x1001 + of_nat i)" by simp
  from this [rule_format, of 2] have "memcpy 0x3002 0x1001 8 mem_example 0x3004 = 47" by (simp add: mem_example_def)
  moreover from c have "\<forall>i < 8. memset 0x3002 7 8 mem_example (0x3002 + of_nat i) = 7" by simp
  from this [rule_format, of 7] have "memset 0x3002 7 8 mem_example 0x3009 = 7" by simp
  moreover from c have "\<forall>xs. cstr mem_example 0x1001 xs \<and> length xs < 8 \<longrightarrow>
    (\<exists>m'. strcpy 0x3002 0x1001 mem_example = Some m' \<and> cstr m' 0x3002 xs)" by simp
  from this [rule_format, OF conjI, OF mem_example_cstr(1)]
  have "\<exists>m'. strcpy 0x3002 0x1001 mem_example = Some m' \<and> cstr m' 0x3002 [97, 98, 47, 99, 100, 47, 101]" by simp
  ultimately show ?thesis by blast
qed

end
