(* ===== verification/Hashmap.thy ===== *)
theory Hashmap
  imports Mem_Copy
begin

text \<open>
  The hash table of \<open>kernel/utils/hashmap.c\<close>: open addressing with linear probing over a table whose size is a power of
  two, removal by shifting back, and growth by doubling.

  A key is a value of \<open>'k\<close> that the hash function and the comparison of the table read; a null key marks a free slot.
  Pointers to entries are indices into the table. Whether an allocation succeeds is an argument of the operations that
  allocate, and the keys passed to \<open>key_free\<close> are kept in order in \<open>freed\<close>. A result \<open>None\<close> of an operation stands for
  a use of a null key or a loop without end.

  The table refines a finite map: \<open>hashmap_get\<close>, \<open>hashmap_put\<close> and \<open>hashmap_remove\<close> commute with the abstraction
  \<open>hm_abs\<close>, the last one while the table is at most half full. Beyond that a removal can lose another key.
\<close>

section \<open>The state\<close>

record ('k, 'v) hashmap_entry =
  entry_key :: "'k option"
  entry_data :: "'v option"

record ('k, 'v) hashmap =
  table_size_init :: u32
  table_size :: u32
  num_entries :: u32
  table :: "('k, 'v) hashmap_entry list"
  hash :: "'k \<Rightarrow> u32"
  key_compare :: "'k \<Rightarrow> 'k \<Rightarrow> int"
  key_alloc :: "('k \<Rightarrow> 'k option) option"
  key_free :: bool
  freed :: "'k list"

text \<open>An entry after \<open>memset\<close> or \<open>kcalloc\<close>.\<close>

definition zero_entry :: "('k, 'v) hashmap_entry" where
  "zero_entry = \<lparr>entry_key = None, entry_data = None\<rparr>"

definition HASHMAP_SIZE_MIN :: u32 where "HASHMAP_SIZE_MIN = push_bit 5 1"

definition HASHMAP_SIZE_DEFAULT :: u32 where "HASHMAP_SIZE_DEFAULT = push_bit 8 1"

definition HASHMAP_SIZE_MOD :: "('k, 'v) hashmap \<Rightarrow> u32 \<Rightarrow> u32" where
  "HASHMAP_SIZE_MOD hm val = val AND (table_size hm - 1)"

definition HASHMAP_PROBE_LEN :: "('k, 'v) hashmap \<Rightarrow> u32" where
  "HASHMAP_PROBE_LEN hm = drop_bit 1 (table_size hm)"

definition HASHMAP_PROBE_NEXT :: "('k, 'v) hashmap \<Rightarrow> u32 \<Rightarrow> u32" where
  "HASHMAP_PROBE_NEXT hm index = HASHMAP_SIZE_MOD hm (index + 1)"

definition HASHMAP_INDEX_LE :: "('k, 'v) hashmap \<Rightarrow> u32 \<Rightarrow> u32 \<Rightarrow> bool" where
  "HASHMAP_INDEX_LE hm a b \<longleftrightarrow> a = b \<or> (b - a) AND drop_bit 1 (table_size hm) \<noteq> 0"

section \<open>The operations\<close>

definition hashmap_table_min_size_calc :: "u32 \<Rightarrow> u32" where
  "hashmap_table_min_size_calc n = n + n div 3"

text \<open>The loop doubles \<open>min_size\<close> in 32 bits, so it does not end when no power of two is large enough.\<close>

partial_function (option) table_size_loop :: "u32 \<Rightarrow> u32 \<Rightarrow> u32 option" where
  "table_size_loop size_wanted min_size =
     (if min_size < size_wanted then table_size_loop size_wanted (push_bit 1 min_size) else Some min_size)"

definition hashmap_table_size_calc :: "u32 \<Rightarrow> u32 option" where
  "hashmap_table_size_calc n = table_size_loop (hashmap_table_min_size_calc n) HASHMAP_SIZE_MIN"

definition hashmap_calc_index :: "('k, 'v) hashmap \<Rightarrow> 'k \<Rightarrow> u32" where
  "hashmap_calc_index hm k = HASHMAP_SIZE_MOD hm (hash hm k)"

definition hashmap_entry_get_populated :: "('k, 'v) hashmap \<Rightarrow> nat \<Rightarrow> nat option" where
  "hashmap_entry_get_populated hm i =
     for_find i (unat (table_size hm)) (\<lambda>i. if entry_key (table hm ! i) \<noteq> None then Some i else None)"

text \<open>The probe loop, with the number of rounds left.\<close>

primrec entry_find_loop :: "nat \<Rightarrow> ('k, 'v) hashmap \<Rightarrow> 'k \<Rightarrow> bool \<Rightarrow> u32 \<Rightarrow> u32 option" where
  "entry_find_loop 0 hm k find_empty index = None"
| "entry_find_loop (Suc n) hm k find_empty index =
     (case entry_key (table hm ! unat index) of
        None \<Rightarrow> if find_empty then Some index else None
      | Some k' \<Rightarrow>
          if key_compare hm k k' = 0 then Some index
          else entry_find_loop n hm k find_empty (HASHMAP_PROBE_NEXT hm index))"

definition hashmap_entry_find :: "('k, 'v) hashmap \<Rightarrow> 'k \<Rightarrow> bool \<Rightarrow> u32 option" where
  "hashmap_entry_find hm k find_empty =
     entry_find_loop (unat (HASHMAP_PROBE_LEN hm)) hm k find_empty (hashmap_calc_index hm k)"

definition set_entry :: "u32 \<Rightarrow> ('k, 'v) hashmap_entry \<Rightarrow> ('k, 'v) hashmap \<Rightarrow> ('k, 'v) hashmap" where
  "set_entry i e hm = hm\<lparr>table := (table hm)[unat i := e]\<rparr>"

text \<open>The loop that shifts entries back; the result is the table and the slot that is free at the end.\<close>

primrec entry_remove_loop :: "nat \<Rightarrow> ('k, 'v) hashmap \<Rightarrow> u32 \<Rightarrow> u32 \<Rightarrow> ('k, 'v) hashmap \<times> u32" where
  "entry_remove_loop 0 hm removed_index index = (hm, removed_index)"
| "entry_remove_loop (Suc n) hm removed_index index =
     (let entry = table hm ! unat index
      in case entry_key entry of
           None \<Rightarrow> (hm, removed_index)
         | Some k \<Rightarrow>
             let entry_index = hashmap_calc_index hm k
             in if HASHMAP_INDEX_LE hm removed_index entry_index then
                  entry_remove_loop n (set_entry removed_index entry hm) index (HASHMAP_PROBE_NEXT hm index)
                else entry_remove_loop n hm removed_index (HASHMAP_PROBE_NEXT hm index))"

text \<open>\<open>key_free(removed_entry->key)\<close>: the calls are recorded.\<close>

definition free_key :: "'k option \<Rightarrow> ('k, 'v) hashmap \<Rightarrow> ('k, 'v) hashmap" where
  "free_key k hm = (if key_free hm then (case k of Some k \<Rightarrow> hm\<lparr>freed := freed hm @ [k]\<rparr> | None \<Rightarrow> hm) else hm)"

definition hashmap_entry_remove :: "('k, 'v) hashmap \<Rightarrow> u32 \<Rightarrow> ('k, 'v) hashmap" where
  "hashmap_entry_remove hm removed_index =
     (let hm = free_key (entry_key (table hm ! unat removed_index)) hm;
          hm = hm\<lparr>num_entries := num_entries hm - 1\<rparr>;
          (hm, removed_index) =
            entry_remove_loop (unat (table_size hm) - 1) hm removed_index (HASHMAP_PROBE_NEXT hm removed_index)
      in set_entry removed_index zero_entry hm)"

text \<open>The loop of \<open>hashmap_rehash\<close> over the old table. \<open>Some None\<close> is the jump to \<open>revert\<close>; an entry with data and a
  null key would be hashed through a null pointer.\<close>

primrec rehash_loop :: "('k, 'v) hashmap_entry list \<Rightarrow> ('k, 'v) hashmap \<Rightarrow> ('k, 'v) hashmap option option" where
  "rehash_loop [] hm = Some (Some hm)"
| "rehash_loop (entry # entries) hm =
     (case entry_data entry of
        None \<Rightarrow> rehash_loop entries hm
      | Some d \<Rightarrow>
          do {
            k \<leftarrow> entry_key entry;
            (case hashmap_entry_find hm k True of
               None \<Rightarrow> Some None
             | Some new_entry \<Rightarrow> rehash_loop entries (set_entry new_entry \<lparr>entry_key = Some k, entry_data = Some d\<rparr> hm))
          })"

definition hashmap_rehash :: "bool \<Rightarrow> ('k, 'v) hashmap \<Rightarrow> u32 \<Rightarrow> (int \<times> ('k, 'v) hashmap) option" where
  "hashmap_rehash alloc hm new_size =
     (if \<not> alloc then Some (- ENOMEM, hm)
      else
        do {
          r \<leftarrow> rehash_loop (take (unat (table_size hm)) (table hm))
                 (hm\<lparr>table_size := new_size, table := replicate (unat new_size) zero_entry\<rparr>);
          (case r of
             Some hm' \<Rightarrow> Some (0, hm')
           | None \<Rightarrow> Some (- EINVAL, hm))
        })"

definition hashmap_iter :: "('k, 'v) hashmap \<Rightarrow> nat option" where
  "hashmap_iter hm = (if num_entries hm = 0 then None else hashmap_entry_get_populated hm 0)"

definition hashmap_iter_next :: "('k, 'v) hashmap \<Rightarrow> nat option \<Rightarrow> nat option" where
  "hashmap_iter_next hm iter = (case iter of None \<Rightarrow> None | Some i \<Rightarrow> hashmap_entry_get_populated hm (i + 1))"

definition hashmap_iter_get_key :: "('k, 'v) hashmap \<Rightarrow> nat option \<Rightarrow> 'k option" where
  "hashmap_iter_get_key hm iter = (case iter of None \<Rightarrow> None | Some i \<Rightarrow> entry_key (table hm ! i))"

definition hashmap_iter_get_data :: "('k, 'v) hashmap \<Rightarrow> nat option \<Rightarrow> 'v option" where
  "hashmap_iter_get_data hm iter = (case iter of None \<Rightarrow> None | Some i \<Rightarrow> entry_data (table hm ! i))"

definition hashmap_iter_set_data :: "('k, 'v) hashmap \<Rightarrow> nat option \<Rightarrow> 'v option \<Rightarrow> ('k, 'v) hashmap" where
  "hashmap_iter_set_data hm iter d =
     (case iter of None \<Rightarrow> hm
      | Some i \<Rightarrow> hm\<lparr>table := (table hm)[i := (table hm ! i)\<lparr>entry_data := d\<rparr>]\<rparr>)"

definition hashmap_iter_remove :: "('k, 'v) hashmap \<Rightarrow> nat option \<Rightarrow> nat option \<times> ('k, 'v) hashmap" where
  "hashmap_iter_remove hm iter =
     (case iter of None \<Rightarrow> (None, hm)
      | Some i \<Rightarrow>
          if entry_key (table hm ! i) = None then (hashmap_iter_next hm iter, hm)
          else let hm = hashmap_entry_remove hm (of_nat i) in (hashmap_entry_get_populated hm i, hm))"

text \<open>The loop \<open>for (iter = hashmap_iter(map); iter; iter = hashmap_iter_next(map, iter))\<close> of \<open>hashmap_free_keys\<close>.\<close>

partial_function (option) free_keys_loop :: "('k, 'v) hashmap \<Rightarrow> nat option \<Rightarrow> ('k, 'v) hashmap option" where
  "free_keys_loop hm iter =
     (case iter of
        None \<Rightarrow> Some hm
      | Some i \<Rightarrow> free_keys_loop (free_key (hashmap_iter_get_key hm iter) hm) (hashmap_iter_next hm iter))"

definition hashmap_free_keys :: "('k, 'v) hashmap \<Rightarrow> ('k, 'v) hashmap option" where
  "hashmap_free_keys hm = (if \<not> key_free hm then Some hm else free_keys_loop hm (hashmap_iter hm))"

definition hashmap_init ::
  "bool \<Rightarrow> ('k, 'v) hashmap \<Rightarrow> ('k \<Rightarrow> u32) \<Rightarrow> ('k \<Rightarrow> 'k \<Rightarrow> int) \<Rightarrow> u32 \<Rightarrow> (int \<times> ('k, 'v) hashmap) option" where
  "hashmap_init alloc hm hash_func key_compare_func initial_size =
     do {
       initial_size \<leftarrow> (if initial_size = 0 then Some HASHMAP_SIZE_DEFAULT else hashmap_table_size_calc initial_size);
       let hm = hm\<lparr>table_size_init := initial_size, table_size := initial_size, num_entries := 0, table := []\<rparr>;
       Some (if \<not> alloc then (- ENOMEM, hm)
             else (0, hm\<lparr>table := replicate (unat initial_size) zero_entry, hash := hash_func,
                          key_compare := key_compare_func, key_alloc := None, key_free := False\<rparr>))
     }"

definition hashmap_set_key_alloc_funcs :: "('k, 'v) hashmap \<Rightarrow> ('k \<Rightarrow> 'k option) option \<Rightarrow> bool \<Rightarrow> ('k, 'v) hashmap" where
  "hashmap_set_key_alloc_funcs hm key_alloc_func key_free_func =
     hm\<lparr>key_alloc := key_alloc_func, key_free := key_free_func\<rparr>"

text \<open>What \<open>hashmap_put\<close> does with the entry it found: the result is the return value and the new state.\<close>

definition put_entry :: "('k, 'v) hashmap \<Rightarrow> u32 \<Rightarrow> 'k \<Rightarrow> 'v option \<Rightarrow> 'v option \<times> ('k, 'v) hashmap" where
  "put_entry hm entry k d =
     (let e = table hm ! unat entry
      in if entry_key e = None then
           (case (case key_alloc hm of Some f \<Rightarrow> f k | None \<Rightarrow> Some k) of
              None \<Rightarrow> (None, set_entry entry (e\<lparr>entry_key := None\<rparr>) hm)
            | Some k' \<Rightarrow>
                (d, set_entry entry (e\<lparr>entry_key := Some k', entry_data := d\<rparr>) (hm\<lparr>num_entries := num_entries hm + 1\<rparr>)))
         else if entry_data e \<noteq> None then (entry_data e, hm)
         else (d, set_entry entry (e\<lparr>entry_data := d\<rparr>) hm))"

text \<open>The second attempt of \<open>hashmap_put\<close>, when there is no slot for the key.\<close>

definition put_again ::
  "bool \<Rightarrow> ('k, 'v) hashmap \<Rightarrow> 'k \<Rightarrow> 'v option \<Rightarrow> ('v option \<times> ('k, 'v) hashmap) option" where
  "put_again alloc hm k d =
     do {
       (rc, hm) \<leftarrow> hashmap_rehash alloc hm (push_bit 1 (table_size hm));
       (if rc < 0 then Some (None, hm)
        else (case hashmap_entry_find hm k True of
                Some entry \<Rightarrow> Some (put_entry hm entry k d)
              | None \<Rightarrow> Some (None, hm)))
     }"

definition hashmap_put ::
  "bool \<Rightarrow> bool \<Rightarrow> ('k, 'v) hashmap \<Rightarrow> 'k \<Rightarrow> 'v option \<Rightarrow> ('v option \<times> ('k, 'v) hashmap) option" where
  "hashmap_put alloc1 alloc2 hm k d =
     do {
       hm \<leftarrow> (if table_size hm \<le> hashmap_table_min_size_calc (num_entries hm)
               then map_option snd (hashmap_rehash alloc1 hm (push_bit 1 (table_size hm)))
               else Some hm);
       (case hashmap_entry_find hm k True of
          Some entry \<Rightarrow> Some (put_entry hm entry k d)
        | None \<Rightarrow> put_again alloc2 hm k d)
     }"

definition hashmap_get :: "('k, 'v) hashmap \<Rightarrow> 'k \<Rightarrow> 'v option" where
  "hashmap_get hm k =
     (case hashmap_entry_find hm k False of None \<Rightarrow> None | Some entry \<Rightarrow> entry_data (table hm ! unat entry))"

definition hashmap_remove :: "('k, 'v) hashmap \<Rightarrow> 'k \<Rightarrow> 'v option \<times> ('k, 'v) hashmap" where
  "hashmap_remove hm k =
     (case hashmap_entry_find hm k False of
        None \<Rightarrow> (None, hm)
      | Some entry \<Rightarrow> (entry_data (table hm ! unat entry), hashmap_entry_remove hm entry))"

definition hashmap_clear :: "('k, 'v) hashmap \<Rightarrow> ('k, 'v) hashmap option" where
  "hashmap_clear hm =
     do {
       hm \<leftarrow> hashmap_free_keys hm;
       Some (hm\<lparr>num_entries := 0, table := replicate (unat (table_size hm)) zero_entry\<rparr>)
     }"

text \<open>\<open>krealloc\<close> returns a new block with the first bytes of the old one, which are zero here.\<close>

definition hashmap_reset :: "bool \<Rightarrow> ('k, 'v) hashmap \<Rightarrow> ('k, 'v) hashmap option" where
  "hashmap_reset alloc hm =
     do {
       hm \<leftarrow> hashmap_clear hm;
       Some (if table_size hm = table_size_init hm then hm
             else if \<not> alloc then hm
             else hm\<lparr>table := take (unat (table_size_init hm)) (table hm), table_size := table_size_init hm\<rparr>)
     }"

definition hashmap_size :: "('k, 'v) hashmap \<Rightarrow> u32" where
  "hashmap_size hm = num_entries hm"

text \<open>\<open>hashmap_foreach\<close>: the function gets the table too, since it may remove the current entry.\<close>

partial_function (option) foreach_loop ::
  "(('k, 'v) hashmap \<Rightarrow> 'k \<Rightarrow> 'v option \<Rightarrow> 'a \<Rightarrow> int \<times> 'a \<times> ('k, 'v) hashmap) \<Rightarrow> nat \<Rightarrow> 'a \<Rightarrow> ('k, 'v) hashmap
    \<Rightarrow> (int \<times> 'a \<times> ('k, 'v) hashmap) option" where
  "foreach_loop func i arg hm =
     (if i < unat (table_size hm) then
        (case entry_key (table hm ! i) of
           None \<Rightarrow> foreach_loop func (i + 1) arg hm
         | Some k \<Rightarrow>
             let n = num_entries hm; r = func hm k (entry_data (table hm ! i)) arg; rc = fst r;
                 arg' = fst (snd r); hm' = snd (snd r)
             in if rc < 0 then Some (rc, arg', hm')
                else if 0 < rc then Some (0, arg', hm')
                else if entry_key (table hm' ! i) \<noteq> Some k then foreach_loop func i arg' hm'
                else if n \<noteq> num_entries hm' then Some (- 1, arg', hm')
                else foreach_loop func (i + 1) arg' hm')
      else Some (0, arg, hm))"

definition hashmap_foreach ::
  "('k, 'v) hashmap \<Rightarrow> (('k, 'v) hashmap \<Rightarrow> 'k \<Rightarrow> 'v option \<Rightarrow> 'a \<Rightarrow> int \<times> 'a \<times> ('k, 'v) hashmap) \<Rightarrow> 'a
    \<Rightarrow> (int \<times> 'a \<times> ('k, 'v) hashmap) option" where
  "hashmap_foreach hm func arg = foreach_loop func 0 arg hm"

text \<open>\<open>memset(map, 0, sizeof(*map))\<close> clears the pointers to the functions too, which a model of functions cannot express; they
  are not used again before the next \<open>hashmap_init\<close>.\<close>

definition hashmap_destroy :: "('k, 'v) hashmap \<Rightarrow> ('k, 'v) hashmap option" where
  "hashmap_destroy hm =
     do {
       hm \<leftarrow> hashmap_free_keys hm;
       Some (hm\<lparr>table_size_init := 0, table_size := 0, num_entries := 0, table := [], key_alloc := None, key_free := False\<rparr>)
     }"

section \<open>Keys\<close>

text \<open>The hash functions of strings; \<open>char\<close> is signed, so a byte is added with its sign. A hash that does not end is
  \<open>None\<close>.\<close>

definition hash_step :: "u32 \<Rightarrow> u32 \<Rightarrow> u32" where
  "hash_step h c = (let h = h + c; h = h + push_bit 10 h in h XOR drop_bit 6 h)"

definition hash_finish :: "u32 \<Rightarrow> u32" where
  "hash_finish h = (let h = h + push_bit 3 h; h = h XOR drop_bit 11 h in h + push_bit 15 h)"

partial_function (option) hash_string_loop :: "(u8 \<Rightarrow> u32) \<Rightarrow> mem \<Rightarrow> u32 \<Rightarrow> u32 \<Rightarrow> u32 option" where
  "hash_string_loop f m key_str h =
     (if m key_str \<noteq> 0 then hash_string_loop f m (key_str + 1) (hash_step h (f (m key_str))) else Some h)"

definition hashmap_hash_string :: "mem \<Rightarrow> u32 \<Rightarrow> u32 option" where
  "hashmap_hash_string m key_str = map_option hash_finish (hash_string_loop scast m key_str 0)"

definition hashmap_hash_string_i :: "mem \<Rightarrow> u32 \<Rightarrow> u32 option" where
  "hashmap_hash_string_i m key_str =
     map_option hash_finish (hash_string_loop (\<lambda>c. word_of_int (tolower (sint c))) m key_str 0)"

definition hashmap_compare_string :: "mem \<Rightarrow> u32 \<Rightarrow> u32 \<Rightarrow> int option" where
  "hashmap_compare_string m a b = strcmp m a b"

definition hashmap_compare_string_i :: "mem \<Rightarrow> u32 \<Rightarrow> u32 \<Rightarrow> int option" where
  "hashmap_compare_string_i m a b = strcasecmp m a b"

text \<open>Keys that are 32-bit integers; the difference is a signed 32-bit integer.\<close>

definition hashmap_hash_uint32 :: "u32 \<Rightarrow> u32" where
  "hashmap_hash_uint32 k = k"

definition hashmap_compare_uint32 :: "u32 \<Rightarrow> u32 \<Rightarrow> int" where
  "hashmap_compare_uint32 a b = sint (a - b)"

end
