(* ===== verification/Hashmap_Probe.thy ===== *)
theory Hashmap_Probe
  imports Hashmap
begin

text \<open>
  Linear probing on a ring of cells: the invariant of the table, the search along a probe path, insertion into the first
  free cell of a path and removal by shifting back. Positions are integers; a position stands for the cell at its
  remainder by the size of the table, so that a path that wraps around is an interval.
\<close>

section \<open>Cells\<close>

definition cell :: "('k, 'v) hashmap_entry list \<Rightarrow> int \<Rightarrow> ('k, 'v) hashmap_entry" where
  "cell t p = t ! nat (p mod int (length t))"

definition key_at :: "('k, 'v) hashmap_entry list \<Rightarrow> int \<Rightarrow> 'k option" where
  "key_at t p = entry_key (cell t p)"

lemma cell_mod [simp]: "cell t (p mod int (length t)) = cell t p"
  by (simp add: cell_def)

lemma cell_cong: "p mod int (length t) = q mod int (length t) \<Longrightarrow> cell t p = cell t q"
  by (simp add: cell_def)

lemma key_at_cong: "p mod int (length t) = q mod int (length t) \<Longrightarrow> key_at t p = key_at t q"
  by (simp add: key_at_def cell_cong [of p t q])

lemma cell_nat: "i < length t \<Longrightarrow> cell t (int i) = t ! i"
  by (simp add: cell_def)

lemma pos_bound: "0 < length t \<Longrightarrow> nat (p mod int (length t)) < length t"
  by (simp add: nat_less_iff)

lemma cell_in_set: "0 < length t \<Longrightarrow> cell t p \<in> set t"
  unfolding cell_def by (rule nth_mem) (rule pos_bound)

lemma cell_update:
  assumes "0 < length t"
  shows "cell (t[nat (q mod int (length t)) := e]) p = (if p mod int (length t) = q mod int (length t) then e else cell t p)"
proof -
  have "nat (p mod int (length t)) = nat (q mod int (length t)) \<longleftrightarrow> p mod int (length t) = q mod int (length t)"
    using assms by (simp add: eq_nat_nat_iff)
  then show ?thesis using pos_bound [OF assms, of q] by (cases "p mod int (length t) = q mod int (length t)") (simp_all add: cell_def)
qed

lemma key_at_update:
  assumes "0 < length t"
  shows "key_at (t[nat (q mod int (length t)) := e]) p =
    (if p mod int (length t) = q mod int (length t) then entry_key e else key_at t p)"
  using cell_update [OF assms] by (simp add: key_at_def)

text \<open>Two positions less than a round apart are the same cell only if they are equal.\<close>

lemma mod_eq_near: "p mod n = q mod n \<Longrightarrow> \<bar>p - q\<bar> < n \<Longrightarrow> p = (q :: int)"
proof -
  assume "p mod n = q mod n" "\<bar>p - q\<bar> < n"
  then have "n dvd p - q" by (simp add: mod_eq_dvd_iff)
  then have "\<bar>n\<bar> \<le> \<bar>p - q\<bar>" if "p - q \<noteq> 0" using that by (rule dvd_imp_le_int [rotated])
  with \<open>\<bar>p - q\<bar> < n\<close> show ?thesis by (cases "p = q") simp_all
qed

section \<open>The invariant\<close>

text \<open>The probe distance of a key with home \<open>h k\<close> at position \<open>p\<close>.\<close>

definition probe_dist :: "nat \<Rightarrow> int \<Rightarrow> int \<Rightarrow> int" where
  "probe_dist n home p = (p - home) mod int n"

lemma probe_dist_bounds: "0 < n \<Longrightarrow> 0 \<le> probe_dist n h p \<and> probe_dist n h p < int n"
  by (simp add: probe_dist_def)

lemma probe_dist_cong: "p mod int n = q mod int n \<Longrightarrow> probe_dist n h p = probe_dist n h q"
  unfolding probe_dist_def by (metis mod_diff_left_eq)

lemma probe_dist_home: "(p - probe_dist n h p) mod int n = h mod int n"
  by (simp add: probe_dist_def mod_simps)

lemma probe_dist_path:
  assumes "0 \<le> i" "i < int n"
  shows "probe_dist n h (h + i) = i"
  using assms by (simp add: probe_dist_def)

text \<open>Every key lies less than half the table behind its home, and every cell from its home up to it is occupied,
  except for the cell \<open>r\<close> of a hole. No key occurs twice.\<close>

definition path_ok :: "('k \<Rightarrow> int) \<Rightarrow> ('k, 'v) hashmap_entry list \<Rightarrow> (int \<Rightarrow> bool) \<Rightarrow> bool" where
  "path_ok h t gap \<longleftrightarrow>
     (\<forall>p k. key_at t p = Some k \<longrightarrow>
        2 * probe_dist (length t) (h k) p < int (length t) \<and>
        (\<forall>q. p - probe_dist (length t) (h k) p \<le> q \<and> q < p \<longrightarrow> key_at t q \<noteq> None \<or> gap q))"

definition distinct_keys :: "('k, 'v) hashmap_entry list \<Rightarrow> bool" where
  "distinct_keys t \<longleftrightarrow>
     (\<forall>p q k. key_at t p = Some k \<and> key_at t q = Some k \<longrightarrow> p mod int (length t) = q mod int (length t))"

definition data_ok :: "('k, 'v) hashmap_entry list \<Rightarrow> bool" where
  "data_ok t \<longleftrightarrow> (\<forall>e \<in> set t. entry_key e = None \<longleftrightarrow> entry_data e = None)"

abbreviation probing :: "('k \<Rightarrow> int) \<Rightarrow> ('k, 'v) hashmap_entry list \<Rightarrow> bool" where
  "probing h t \<equiv> path_ok h t (\<lambda>_. False)"

text \<open>The number of occupied cells.\<close>

definition occupied :: "('k, 'v) hashmap_entry list \<Rightarrow> nat" where
  "occupied t = length (filter (\<lambda>e. entry_key e \<noteq> None) t)"

lemma occupied_card: "occupied t = card {i. i < length t \<and> entry_key (t ! i) \<noteq> None}"
  unfolding occupied_def by (rule length_filter_conv_card)

lemma occupied_update:
  "i < length t \<Longrightarrow> occupied (t[i := e]) + (if entry_key (t ! i) \<noteq> None then 1 else 0) =
     occupied t + (if entry_key e \<noteq> None then 1 else 0)"
proof -
  have "length (filter P (t[i := e])) + (if P (t ! i) then 1 else 0) = length (filter P t) + (if P e then 1 else 0)"
    if "i < length t" for P
    using that
  proof (induction t arbitrary: i)
    case (Cons a t)
    show ?case
    proof (cases i)
      case (Suc j)
      then show ?thesis using Cons.IH [of j] Cons.prems by simp
    qed simp
  qed simp
  then show "i < length t \<Longrightarrow> ?thesis" unfolding occupied_def .
qed

text \<open>If a run of \<open>l\<close> cells is occupied, there are \<open>l\<close> keys.\<close>

lemma occupied_run:
  assumes "l \<le> length t" and "\<And>j. j < l \<Longrightarrow> key_at t (p + int j) \<noteq> None"
  shows "l \<le> occupied t"
proof (cases "l = 0")
  case False
  then have n: "0 < length t" using assms(1) by linarith
  let ?f = "\<lambda>j. nat ((p + int j) mod int (length t))"
  have "inj_on ?f {..<l}"
  proof (rule inj_onI)
    fix i j assume "i \<in> {..<l}" "j \<in> {..<l}" "?f i = ?f j"
    then have "(p + int i) mod int (length t) = (p + int j) mod int (length t)" using n by (simp add: eq_nat_nat_iff)
    then have "p + int i = p + int j"
      by (rule mod_eq_near) (use \<open>i \<in> _\<close> \<open>j \<in> _\<close> assms(1) in auto)
    then show "i = j" by simp
  qed
  moreover have "?f ` {..<l} \<subseteq> {i. i < length t \<and> entry_key (t ! i) \<noteq> None}"
    using assms(2) n by (auto simp: key_at_def cell_def nat_less_iff)
  ultimately have "card {..<l} \<le> card {i. i < length t \<and> entry_key (t ! i) \<noteq> None}"
    by (intro card_inj_on_le) auto
  then show ?thesis by (simp add: occupied_card)
qed simp

section \<open>Insertion\<close>

lemma path_ok_insert:
  assumes ok: "probing h t" and n: "0 < length t"
    and i: "0 \<le> i" "2 * i < int (length t)" and path: "\<And>j. 0 \<le> j \<Longrightarrow> j < i \<Longrightarrow> key_at t (h k + j) \<noteq> None"
    and e: "entry_key e = Some k"
  shows "probing h (t[nat ((h k + i) mod int (length t)) := e])" (is "probing h ?t")
  unfolding path_ok_def
proof (intro allI impI)
  fix p k' assume a: "key_at ?t p = Some k'"
  have mono: "key_at t q \<noteq> None \<Longrightarrow> key_at ?t q \<noteq> None" for q
    using e by (simp add: key_at_update [OF n])
  show "2 * probe_dist (length ?t) (h k') p < int (length ?t) \<and>
    (\<forall>q. p - probe_dist (length ?t) (h k') p \<le> q \<and> q < p \<longrightarrow> key_at ?t q \<noteq> None \<or> False)"
  proof (cases "p mod int (length t) = (h k + i) mod int (length t)")
    case True
    then have k: "k' = k" using a e by (simp add: key_at_update [OF n])
    have d: "probe_dist (length t) (h k) p = i"
      using probe_dist_cong [OF True, of "h k"] probe_dist_path [of i "length t" "h k"] i by simp
    have "key_at ?t q \<noteq> None" if "p - i \<le> q" "q < p" for q
    proof -
      have "(h k + (q - (p - i))) mod int (length t) = (q - p + (h k + i)) mod int (length t)"
        by (simp add: algebra_simps)
      also have "\<dots> = (q - p + p) mod int (length t)" by (rule mod_add_cong [OF refl True [symmetric]])
      finally have "key_at t (h k + (q - (p - i))) = key_at t q" by (intro key_at_cong) simp
      then have "key_at t q \<noteq> None" using path [of "q - (p - i)"] that by simp
      then show ?thesis by (rule mono)
    qed
    then show ?thesis using k d i by simp
  next
    case False
    then have "key_at t p = Some k'" using a by (simp add: key_at_update [OF n])
    then show ?thesis using ok mono unfolding path_ok_def by simp
  qed
qed

lemma distinct_keys_insert:
  assumes "distinct_keys t" and n: "0 < length t" and "\<And>p. key_at t p \<noteq> Some k" and e: "entry_key e = Some k"
  shows "distinct_keys (t[nat (q mod int (length t)) := e])"
  using assms unfolding distinct_keys_def by (auto simp: key_at_update [OF n] split: if_splits)

lemma data_ok_update: "data_ok t \<Longrightarrow> (entry_key e = None \<longleftrightarrow> entry_data e = None) \<Longrightarrow> data_ok (t[i := e])"
  unfolding data_ok_def by (auto dest!: set_update_subset_insert [THEN subsetD])

section \<open>Removal\<close>

text \<open>The loop of a removal has a hole at \<open>r\<close> and looks at \<open>i\<close>, with \<open>t\<close> the table whose hole is cleared: only paths
  of keys from \<open>i\<close> on may pass the hole.\<close>

definition hole_inv :: "('k \<Rightarrow> int) \<Rightarrow> ('k, 'v) hashmap_entry list \<Rightarrow> int \<Rightarrow> int \<Rightarrow> bool" where
  "hole_inv h t r i \<longleftrightarrow>
     0 < length t \<and> r < i \<and> i < r + int (length t) \<and> key_at t r = None \<and>
     path_ok h t (\<lambda>q. q mod int (length t) = r mod int (length t)) \<and>
     (\<forall>p k. r < p \<and> p < i \<and> key_at t p = Some k \<longrightarrow> probe_dist (length t) (h k) p < p - r)"

lemma hole_inv_next:
  assumes "hole_inv h t r i" and "i + 1 < r + int (length t)"
    and "\<And>k. key_at t i = Some k \<Longrightarrow> probe_dist (length t) (h k) i < i - r"
  shows "hole_inv h t r (i + 1)"
proof -
  have "probe_dist (length t) (h k) p < p - r" if "r < p" "p < i + 1" "key_at t p = Some k" for p k
    using assms(1,3) that unfolding hole_inv_def by (cases "p = i") auto
  then show ?thesis using assms(1,2) unfolding hole_inv_def by simp
qed

text \<open>A free cell ends the loop: no path passes both it and the hole.\<close>

lemma hole_inv_end:
  assumes inv: "hole_inv h t r i" and free: "key_at t i = None"
  shows "probing h t"
  unfolding path_ok_def
proof (intro allI impI)
  fix p k assume k: "key_at t p = Some k"
  let ?n = "int (length t)"
  let ?d = "probe_dist (length t) (h k) p"
  define p' where "p' = r + (p - r) mod ?n"
  from inv have n: "0 < ?n" and rn: "r < i" "i < r + ?n" and kr: "key_at t r = None"
    and path: "path_ok h t (\<lambda>q. q mod ?n = r mod ?n)"
    and scanned: "\<And>p k. r < p \<Longrightarrow> p < i \<Longrightarrow> key_at t p = Some k \<Longrightarrow> probe_dist (length t) (h k) p < p - r"
    unfolding hole_inv_def by auto
  have m: "p' mod ?n = p mod ?n" by (simp add: p'_def mod_simps)
  have k': "key_at t p' = Some k" using key_at_cong [OF m] k by simp
  have d': "probe_dist (length t) (h k) p' = ?d" by (rule probe_dist_cong [OF m])
  have "0 \<le> (p - r) mod ?n" "(p - r) mod ?n < ?n" using n by simp_all
  then have p': "r \<le> p'" "p' < r + ?n" by (simp_all add: p'_def)
  moreover have "p' \<noteq> r" using k' kr by auto
  ultimately have p'r: "r < p'" by simp
  have half: "2 * ?d < ?n" using path k unfolding path_ok_def by blast
  have short: "?d < p' - r"
  proof (rule ccontr)
    assume "\<not> ?d < p' - r"
    then have d: "p' - ?d \<le> r" by simp
    have "\<not> p' < i" using scanned [OF p'r _ k'] d d' by auto
    moreover have "p' \<noteq> i" using k' free by auto
    ultimately have "i < p'" by simp
    moreover have "p' - probe_dist (length t) (h k) p' \<le> i" using d d' rn by simp
    ultimately have "key_at t i \<noteq> None \<or> i mod ?n = r mod ?n"
      using path k' unfolding path_ok_def by blast
    then have "i mod ?n = r mod ?n" using free by simp
    then have "i = r" by (rule mod_eq_near) (use rn in simp)
    then show False using rn by simp
  qed
  have "key_at t q \<noteq> None" if q: "p - ?d \<le> q" "q < p" for q
  proof -
    have "key_at t q \<noteq> None \<or> q mod ?n = r mod ?n" using path k q unfolding path_ok_def by blast
    moreover have "q mod ?n \<noteq> r mod ?n"
    proof
      assume "q mod ?n = r mod ?n"
      moreover have "(q - p + p') mod ?n = (q - p + p) mod ?n" by (rule mod_add_cong [OF refl m])
      ultimately have "(q - p + p') mod ?n = r mod ?n" by simp
      then have "q - p + p' = r" by (rule mod_eq_near) (use q short p' half n in linarith)
      then show False using q short by simp
    qed
    ultimately show ?thesis by blast
  qed
  then show "2 * ?d < ?n \<and> (\<forall>q. p - ?d \<le> q \<and> q < p \<longrightarrow> key_at t q \<noteq> None \<or> False)"
    using half by blast
qed

text \<open>Moving the key at \<open>i\<close> into the hole, when its path passes the hole, makes \<open>i\<close> the hole.\<close>

definition shift_back :: "('k, 'v) hashmap_entry list \<Rightarrow> int \<Rightarrow> int \<Rightarrow> ('k, 'v) hashmap_entry list" where
  "shift_back t r i =
     t[nat (r mod int (length t)) := cell t i, nat (i mod int (length t)) := zero_entry]"

lemma length_shift_back [simp]: "length (shift_back t r i) = length t"
  by (simp add: shift_back_def)

lemma cell_shift_back:
  assumes "0 < length t"
  shows "cell (shift_back t r i) p =
    (if p mod int (length t) = i mod int (length t) then zero_entry
     else if p mod int (length t) = r mod int (length t) then cell t i else cell t p)"
  using cell_update [OF assms, of r "cell t i" p] assms
    cell_update [of "t[nat (r mod int (length t)) := cell t i]" i zero_entry p]
  by (simp add: shift_back_def)

lemma key_at_shift_back:
  assumes "0 < length t"
  shows "key_at (shift_back t r i) p =
    (if p mod int (length t) = i mod int (length t) then None
     else if p mod int (length t) = r mod int (length t) then key_at t i else key_at t p)"
  using cell_shift_back [OF assms, of r i p] by (simp add: key_at_def zero_entry_def)

lemma hole_inv_shift:
  assumes inv: "hole_inv h t r i" and k: "key_at t i = Some k" and d: "i - r \<le> probe_dist (length t) (h k) i"
    and n2: "2 < length t"
  shows "hole_inv h (shift_back t r i) i (i + 1)"
proof -
  let ?n = "int (length t)"
  let ?t = "shift_back t r i"
  from inv have n: "0 < length t" and rn: "r < i" "i < r + ?n" and kr: "key_at t r = None"
    and path: "path_ok h t (\<lambda>q. q mod ?n = r mod ?n)"
    unfolding hole_inv_def by auto
  have ri: "r mod ?n \<noteq> i mod ?n" using mod_eq_near [of i ?n r] rn by auto
  note key = key_at_shift_back [OF n, of r i]
  have mono: "key_at ?t q \<noteq> None \<or> q mod ?n = i mod ?n" if "key_at t q \<noteq> None \<or> q mod ?n = r mod ?n" for q
    using that k by (auto simp: key)
  have "path_ok h ?t (\<lambda>q. q mod ?n = i mod ?n)"
    unfolding path_ok_def length_shift_back
  proof (intro allI impI)
    fix p k' assume a: "key_at ?t p = Some k'"
    let ?d = "probe_dist (length t) (h k') p"
    have pi: "p mod ?n \<noteq> i mod ?n" using a by (auto simp: key)
    show "2 * ?d < ?n \<and> (\<forall>q. p - ?d \<le> q \<and> q < p \<longrightarrow> key_at ?t q \<noteq> None \<or> q mod ?n = i mod ?n)"
    proof (cases "p mod ?n = r mod ?n")
      case False
      then have "key_at t p = Some k'" using a pi by (simp add: key)
      then show ?thesis using path mono unfolding path_ok_def by blast
    next
      case True
      then have k': "k' = k" using a pi k by (simp add: key)
      let ?e = "probe_dist (length t) (h k) i"
      have e: "0 \<le> ?e" "2 * ?e < ?n" using probe_dist_bounds [OF n] path k unfolding path_ok_def by blast+
      have "?d = probe_dist (length t) (h k) r" unfolding k' by (rule probe_dist_cong [OF True])
      also have "\<dots> = (i - h k - (i - r)) mod ?n" by (simp add: probe_dist_def algebra_simps)
      also have "\<dots> = ((i - h k) mod ?n - (i - r)) mod ?n" by (simp add: mod_simps)
      also have "\<dots> = (?e - (i - r)) mod ?n" by (simp only: probe_dist_def)
      also have "\<dots> = ?e - (i - r)" by (rule mod_pos_pos_trivial) (use d e rn in linarith)+
      finally have de: "?d = ?e - (i - r)" .
      have "key_at ?t q \<noteq> None \<or> q mod ?n = i mod ?n" if q: "p - ?d \<le> q" "q < p" for q
      proof -
        let ?q = "q - p + r"
        have m: "?q mod ?n = (q - p + p) mod ?n" by (rule mod_add_cong [OF refl True [symmetric]])
        have "i - ?e \<le> ?q" "?q < i" using q de rn by linarith+
        then have "key_at t ?q \<noteq> None \<or> ?q mod ?n = r mod ?n" using path k unfolding path_ok_def by blast
        then have "key_at t q \<noteq> None \<or> q mod ?n = r mod ?n" using key_at_cong [of ?q t q] m by simp
        then show ?thesis by (rule mono)
      qed
      then show ?thesis using de e d rn by auto
    qed
  qed
  moreover have "key_at ?t i = None" by (simp add: key)
  ultimately show ?thesis using n n2 unfolding hole_inv_def by auto
qed

text \<open>The keys and data of a table.\<close>

definition contents :: "('k, 'v) hashmap_entry list \<Rightarrow> ('k \<times> 'v option) set" where
  "contents t = {(k, d). \<exists>e \<in> set t. entry_key e = Some k \<and> entry_data e = d}"

lemma contents_cell:
  assumes "0 < length t"
  shows "(k, d) \<in> contents t \<longleftrightarrow> (\<exists>p. entry_key (cell t p) = Some k \<and> entry_data (cell t p) = d)"
proof -
  have "(\<exists>e \<in> set t. Q e) \<longleftrightarrow> (\<exists>p. Q (cell t p))" for Q
  proof
    assume "\<exists>e \<in> set t. Q e"
    then obtain i where "i < length t" "Q (t ! i)" by (auto simp: in_set_conv_nth)
    then show "\<exists>p. Q (cell t p)" by (intro exI [of _ "int i"]) (simp add: cell_nat)
  next
    assume "\<exists>p. Q (cell t p)"
    then show "\<exists>e \<in> set t. Q e" using pos_bound [OF assms] unfolding cell_def by (metis nth_mem)
  qed
  then show ?thesis by (simp add: contents_def)
qed

lemma contents_shift_back:
  assumes n: "0 < length t" and ri: "r mod int (length t) \<noteq> i mod int (length t)" and "key_at t r = None"
  shows "contents (shift_back t r i) = contents t"
proof -
  let ?t = "shift_back t r i"
  have n': "0 < length ?t" using n by simp
  have "(\<exists>p. entry_key (cell ?t p) = Some k \<and> entry_data (cell ?t p) = d) \<longleftrightarrow>
    (\<exists>p. entry_key (cell t p) = Some k \<and> entry_data (cell t p) = d)" (is "?L \<longleftrightarrow> ?R") for k d
  proof
    assume ?L
    then show ?R by (auto simp: cell_shift_back [OF n] zero_entry_def split: if_splits)
  next
    assume ?R
    then obtain p where p: "entry_key (cell t p) = Some k" "entry_data (cell t p) = d" by blast
    have "p mod int (length t) \<noteq> r mod int (length t)"
      using p(1) assms(3) cell_cong [of p t r] by (auto simp: key_at_def)
    show ?L
    proof (cases "p mod int (length t) = i mod int (length t)")
      case True
      then have "cell t i = cell t p" by (intro cell_cong) simp
      then show ?thesis using p ri by (intro exI [of _ r]) (simp add: cell_shift_back [OF n])
    next
      case False
      then show ?thesis using p \<open>p mod int (length t) \<noteq> r mod int (length t)\<close>
        by (intro exI [of _ p]) (simp add: cell_shift_back [OF n])
    qed
  qed
  then show ?thesis by (auto simp: contents_cell [OF n] contents_cell [OF n'])
qed

lemma occupied_shift_back:
  assumes n: "0 < length t" and ri: "r mod int (length t) \<noteq> i mod int (length t)" and "key_at t r = None"
  shows "occupied (shift_back t r i) = occupied t"
proof -
  let ?r = "nat (r mod int (length t))" and ?i = "nat (i mod int (length t))"
  have ne: "?r \<noteq> ?i" using ri n by (simp add: eq_nat_nat_iff)
  have b: "?r < length t" "?i < length t" using pos_bound [OF n] by simp_all
  show ?thesis
    using occupied_update [OF b(1), of "cell t i"] occupied_update [of ?i "t[?r := cell t i]" zero_entry] b ne assms(3)
    by (simp add: shift_back_def key_at_def cell_def zero_entry_def)
qed

lemma distinct_keys_shift_back:
  assumes n: "0 < length t" and "distinct_keys t"
  shows "distinct_keys (shift_back t r i)"
  unfolding distinct_keys_def length_shift_back
proof (intro allI impI, elim conjE)
  fix p q k assume a: "key_at (shift_back t r i) p = Some k" "key_at (shift_back t r i) q = Some k"
  let ?n = "int (length t)"
  let ?f = "\<lambda>p. if p mod ?n = r mod ?n then i else p"
  have f: "key_at t (?f p) = Some k \<and> p mod ?n \<noteq> i mod ?n" if "key_at (shift_back t r i) p = Some k" for p
    using that by (auto simp: key_at_shift_back [OF n] split: if_splits)
  then have "?f p mod ?n = ?f q mod ?n" using a assms(2) unfolding distinct_keys_def by blast
  then show "p mod ?n = q mod ?n" using f [OF a(1)] f [OF a(2)] by (auto split: if_splits)
qed

end
