(* ===== verification/Hashmap_Map.thy ===== *)
theory Hashmap_Map
  imports Hashmap_Probe
begin

text \<open>
  The hash table refines a finite map: the invariant \<open>hm_ok\<close> of the state, its abstraction \<open>hm_abs\<close>, and what every
  operation does to them.
\<close>

section \<open>Indices\<close>

definition size_ok :: "('k, 'v) hashmap \<Rightarrow> bool" where
  "size_ok hm \<longleftrightarrow> (\<exists>j. 2 \<le> j \<and> j \<le> 31 \<and> unat (table_size hm) = 2 ^ j) \<and> length (table hm) = unat (table_size hm)"

lemma size_ok_pow:
  assumes "size_ok hm"
  obtains j where "2 \<le> j" "j \<le> 31" "table_size hm = 2 ^ j" "length (table hm) = 2 ^ j"
proof -
  from assms obtain j where j: "2 \<le> j" "j \<le> 31" "unat (table_size hm) = 2 ^ j" "length (table hm) = 2 ^ j"
    unfolding size_ok_def by auto
  have "unat ((2 :: u32) ^ j) = 2 ^ j"
    using j(2) unat_of_nat [where 'a = 32, of "2 ^ j"] power_strict_increasing [of j 32 "2 :: nat"] by simp
  then have "table_size hm = 2 ^ j" using j(3) by (metis word_unat_eq_iff)
  with j that show thesis by blast
qed

lemma size_ok_length: "size_ok hm \<Longrightarrow> 4 \<le> length (table hm) \<and> even (length (table hm))"
  by (erule size_ok_pow) (use power_increasing [of 2 _ "2 :: nat"] in auto)

lemma size_ok_pos: "size_ok hm \<Longrightarrow> 0 < length (table hm)"
  using size_ok_length by fastforce

lemma unat_SIZE_MOD:
  assumes "size_ok hm"
  shows "unat (HASHMAP_SIZE_MOD hm v) = unat v mod length (table hm)"
proof -
  from assms obtain j where j: "2 \<le> j" "j \<le> 31" "table_size hm = 2 ^ j" "length (table hm) = 2 ^ j" by (erule size_ok_pow)
  have "HASHMAP_SIZE_MOD hm v = take_bit j v"
    by (simp add: HASHMAP_SIZE_MOD_def j(3) take_bit_eq_mask mask_eq_exp_minus_1)
  then have "unat (HASHMAP_SIZE_MOD hm v) = take_bit j (unat v)" by (simp only: unsigned_take_bit_eq)
  then show ?thesis by (simp add: j(4) take_bit_eq_mod)
qed

lemma unat_PROBE_NEXT:
  assumes "size_ok hm" and "int (unat i) = p mod int (length (table hm))"
  shows "int (unat (HASHMAP_PROBE_NEXT hm i)) = (p + 1) mod int (length (table hm))"
proof -
  from assms(1) obtain j where j: "2 \<le> j" "j \<le> 31" "table_size hm = 2 ^ j" "length (table hm) = 2 ^ j" by (erule size_ok_pow)
  have "unat (i + 1) mod length (table hm) = (unat i + 1) mod length (table hm)"
    using j le_imp_power_dvd [of j 32 "2 :: nat"] mod_mod_cancel [of "2 ^ j" "2 ^ 32" "unat i + 1"]
    by (simp add: unat_word_ariths)
  then have "int (unat (HASHMAP_PROBE_NEXT hm i)) = (int (unat i) + 1) mod int (length (table hm))"
    unfolding HASHMAP_PROBE_NEXT_def unat_SIZE_MOD [OF assms(1)] by (simp add: zmod_int add.commute)
  also have "\<dots> = (p + 1) mod int (length (table hm))" unfolding assms(2) by (simp add: mod_simps)
  finally show ?thesis .
qed

lemma unat_PROBE_LEN: "size_ok hm \<Longrightarrow> unat (HASHMAP_PROBE_LEN hm) = length (table hm) div 2"
  by (auto simp: size_ok_def HASHMAP_PROBE_LEN_def drop_bit_eq_div unat_div_distrib)

text \<open>\<open>HASHMAP_INDEX_LE\<close>: \<open>b\<close> is \<open>a\<close>, or less than half a table behind it.\<close>

lemma bit_mod_half: "bit (x :: int) j \<longleftrightarrow> 2 ^ j \<le> x mod 2 ^ Suc j"
proof -
  have "bit x j \<longleftrightarrow> bit (x mod 2 ^ Suc j) j" 
    using bit_take_bit_iff [of "Suc j" x j] by (simp add: take_bit_eq_mod)
  moreover define y where "y = x mod 2 ^ Suc j"
  have "0 \<le> y" "y < 2 * 2 ^ j" by (simp_all add: y_def)
  moreover have "odd (y div 2 ^ j) \<longleftrightarrow> 2 ^ j \<le> y"
  proof (cases "2 ^ j \<le> y")
    case True
    then have "y div 2 ^ j = 1"
      using \<open>y < 2 * 2 ^ j\<close> by (intro int_div_pos_eq [of y "2 ^ j" 1 "y - 2 ^ j"]) auto
    then show ?thesis using True by simp
  next
    case False
    then show ?thesis using \<open>0 \<le> y\<close> by simp
  qed
  ultimately show ?thesis by (simp add: y_def bit_iff_odd)
qed

lemma INDEX_LE_iff:
  assumes "size_ok hm"
  shows "HASHMAP_INDEX_LE hm a b \<longleftrightarrow> a = b \<or>
    int (length (table hm)) \<le> 2 * ((int (unat b) - int (unat a)) mod int (length (table hm)))"
proof -
  from assms obtain j where j: "2 \<le> j" "j \<le> 31" "table_size hm = 2 ^ j" "length (table hm) = 2 ^ j" by (erule size_ok_pow)
  then obtain i where i: "j = Suc i" by (cases j) auto
  have half: "drop_bit 1 (table_size hm) = 2 ^ i"
    using i j(2,3) by (intro bit_eqI) (auto simp: bit_simps bit_exp_iff)
  have "(b - a) AND drop_bit 1 (table_size hm) \<noteq> 0 \<longleftrightarrow> bit (b - a) i"
    unfolding half by (simp add: and_exp_eq_0_iff_not_bit)
  also have "\<dots> \<longleftrightarrow> bit (uint (b - a)) i" using i j(2) by (simp add: bit_uint_iff)
  also have "\<dots> \<longleftrightarrow> 2 ^ i \<le> uint (b - a) mod 2 ^ j" by (simp add: bit_mod_half i)
  also have "uint (b - a) mod 2 ^ j = (uint b - uint a) mod 2 ^ j"
    using j(2) le_imp_power_dvd [of j 32 "2 :: int"] mod_mod_cancel [of "2 ^ j" "2 ^ 32" "uint b - uint a"]
    by (simp add: uint_word_ariths)
  finally show ?thesis using i j(4) by (auto simp: HASHMAP_INDEX_LE_def)
qed

section \<open>The invariant and the map\<close>

definition home :: "('k, 'v) hashmap \<Rightarrow> 'k \<Rightarrow> int" where
  "home hm k = int (unat (hash hm k))"

text \<open>What the table relies on: the comparison is 0 exactly on equal keys, and an allocated key is a copy.\<close>

definition keys_ok :: "('k, 'v) hashmap \<Rightarrow> bool" where
  "keys_ok hm \<longleftrightarrow>
     (\<forall>a b. key_compare hm a b = 0 \<longleftrightarrow> a = b) \<and> (\<forall>f k k'. key_alloc hm = Some f \<and> f k = Some k' \<longrightarrow> k' = k)"

definition tbl_ok :: "('k, 'v) hashmap \<Rightarrow> bool" where
  "tbl_ok hm \<longleftrightarrow>
     size_ok hm \<and> keys_ok hm \<and> probing (home hm) (table hm) \<and> distinct_keys (table hm) \<and> data_ok (table hm)"

definition hm_ok :: "('k, 'v) hashmap \<Rightarrow> bool" where
  "hm_ok hm \<longleftrightarrow> tbl_ok hm \<and> unat (num_entries hm) = occupied (table hm)"

definition hm_abs :: "('k, 'v) hashmap \<Rightarrow> 'k \<Rightarrow> 'v option" where
  "hm_abs hm k = (case find (\<lambda>e. entry_key e = Some k) (table hm) of None \<Rightarrow> None | Some e \<Rightarrow> entry_data e)"

lemma tbl_okD:
  assumes "tbl_ok hm"
  shows "size_ok hm" "keys_ok hm" "probing (home hm) (table hm)" "distinct_keys (table hm)" "data_ok (table hm)"
    "0 < length (table hm)"
  using assms size_ok_pos unfolding tbl_ok_def by auto

lemma hm_okD: "hm_ok hm \<Longrightarrow> tbl_ok hm" "hm_ok hm \<Longrightarrow> unat (num_entries hm) = occupied (table hm)"
  by (simp_all add: hm_ok_def)

lemma hm_abs_iff:
  assumes "distinct_keys (table hm)" and n: "0 < length (table hm)"
  shows "hm_abs hm k = Some d \<longleftrightarrow> (k, Some d) \<in> contents (table hm)"
proof (cases "find (\<lambda>e. entry_key e = Some k) (table hm)")
  case None
  then have "\<forall>e \<in> set (table hm). entry_key e \<noteq> Some k" by (simp add: find_None_iff)
  then show ?thesis using None by (auto simp: hm_abs_def contents_def)
next
  case (Some e)
  then obtain i where i: "i < length (table hm)" "entry_key (table hm ! i) = Some k" "e = table hm ! i"
    by (auto simp: find_Some_iff)
  have "(k, Some d) \<in> contents (table hm) \<longleftrightarrow> entry_data e = Some d"
  proof
    assume "(k, Some d) \<in> contents (table hm)"
    then obtain p where p: "entry_key (cell (table hm) p) = Some k" "entry_data (cell (table hm) p) = Some d"
      unfolding contents_cell [OF n] by blast
    have "key_at (table hm) p = Some k" "key_at (table hm) (int i) = Some k"
      using p(1) i by (simp_all add: key_at_def cell_nat)
    then have "p mod int (length (table hm)) = int i mod int (length (table hm))"
      using assms(1) unfolding distinct_keys_def by blast
    then have "cell (table hm) p = cell (table hm) (int i)" by (rule cell_cong)
    then show "entry_data e = Some d" using i p(2) by (simp add: cell_nat)
  qed (use i in \<open>auto simp: contents_def\<close>)
  then show ?thesis using Some by (simp add: hm_abs_def)
qed

lemma hm_abs_present:
  assumes "tbl_ok hm" and k: "key_at (table hm) p = Some k"
  shows "hm_abs hm k = entry_data (cell (table hm) p)" and "hm_abs hm k \<noteq> None"
proof -
  note ok = tbl_okD [OF assms(1)]
  have "cell (table hm) p \<in> set (table hm)" by (rule cell_in_set [OF ok(6)])
  then obtain d where d: "entry_data (cell (table hm) p) = Some d"
    using ok(5) k unfolding data_ok_def key_at_def by force
  then have "(k, Some d) \<in> contents (table hm)" using k unfolding contents_cell [OF ok(6)] key_at_def by auto
  then have "hm_abs hm k = Some d" by (simp add: hm_abs_iff [OF ok(4,6)])
  then show "hm_abs hm k = entry_data (cell (table hm) p)" and "hm_abs hm k \<noteq> None" using d by simp_all
qed

lemma hm_abs_absent:
  assumes "tbl_ok hm"
  shows "hm_abs hm k = None \<longleftrightarrow> (\<forall>p. key_at (table hm) p \<noteq> Some k)"
proof -
  note ok = tbl_okD [OF assms]
  have "\<exists>p. key_at (table hm) p = Some k" if "hm_abs hm k = Some d" for d
    using that unfolding hm_abs_iff [OF ok(4,6)] contents_cell [OF ok(6)] key_at_def by blast
  then show ?thesis using hm_abs_present(2) [OF assms] by fastforce
qed

section \<open>Search\<close>

lemma find_loop_hit:
  assumes size: "size_ok hm" and cmp: "\<And>a b. key_compare hm a b = 0 \<longleftrightarrow> a = b"
  shows "i < n \<Longrightarrow> int (unat idx) = p mod int (length (table hm)) \<Longrightarrow>
    (\<And>j. j < i \<Longrightarrow> key_at (table hm) (p + int j) \<noteq> None \<and> key_at (table hm) (p + int j) \<noteq> Some k) \<Longrightarrow>
    key_at (table hm) (p + int i) = None \<or> key_at (table hm) (p + int i) = Some k \<Longrightarrow>
    \<exists>r. entry_find_loop n hm k fe idx = (if key_at (table hm) (p + int i) = None \<and> \<not> fe then None else Some r) \<and>
      int (unat r) = (p + int i) mod int (length (table hm))"
proof (induction n arbitrary: idx p i)
  case (Suc n)
  have here: "entry_key (table hm ! unat idx) = key_at (table hm) p"
  proof -
    have "nat (p mod int (length (table hm))) = unat idx" using Suc.prems(2) by linarith
    then show ?thesis by (simp add: key_at_def cell_def)
  qed
  show ?case
  proof (cases i)
    case 0
    then show ?thesis using Suc.prems(2,4) here cmp by (auto intro: exI [of _ idx])
  next
    case (Suc i')
    then obtain k' where k': "key_at (table hm) p = Some k'" "k' \<noteq> k" using Suc.prems(3) [of 0] by auto
    have "\<exists>r. entry_find_loop n hm k fe (HASHMAP_PROBE_NEXT hm idx) =
        (if key_at (table hm) (p + 1 + int i') = None \<and> \<not> fe then None else Some r) \<and>
      int (unat r) = (p + 1 + int i') mod int (length (table hm))"
    proof (rule Suc.IH)
      show "i' < n" using Suc Suc.prems(1) by simp
      show "int (unat (HASHMAP_PROBE_NEXT hm idx)) = (p + 1) mod int (length (table hm))"
        by (rule unat_PROBE_NEXT [OF size Suc.prems(2)])
      show "key_at (table hm) (p + 1 + int j) \<noteq> None \<and> key_at (table hm) (p + 1 + int j) \<noteq> Some k" if "j < i'" for j
        using Suc.prems(3) [of "Suc j"] Suc that by (simp add: algebra_simps)
      show "key_at (table hm) (p + 1 + int i') = None \<or> key_at (table hm) (p + 1 + int i') = Some k"
        using Suc.prems(4) Suc by (simp add: algebra_simps)
    qed
    then show ?thesis using k' here cmp Suc by (simp add: algebra_simps)
  qed
qed simp

lemma find_loop_miss:
  assumes size: "size_ok hm" and cmp: "\<And>a b. key_compare hm a b = 0 \<longleftrightarrow> a = b"
  shows "int (unat idx) = p mod int (length (table hm)) \<Longrightarrow>
    (\<And>j. j < n \<Longrightarrow> key_at (table hm) (p + int j) \<noteq> None \<and> key_at (table hm) (p + int j) \<noteq> Some k) \<Longrightarrow>
    entry_find_loop n hm k fe idx = None"
proof (induction n arbitrary: idx p)
  case (Suc n)
  have "nat (p mod int (length (table hm))) = unat idx" using Suc.prems(1) by linarith
  then have here: "entry_key (table hm ! unat idx) = key_at (table hm) p" by (simp add: key_at_def cell_def)
  obtain k' where k': "key_at (table hm) p = Some k'" "k' \<noteq> k" using Suc.prems(2) [of 0] by auto
  have "entry_find_loop n hm k fe (HASHMAP_PROBE_NEXT hm idx) = None"
  proof (rule Suc.IH)
    show "int (unat (HASHMAP_PROBE_NEXT hm idx)) = (p + 1) mod int (length (table hm))"
      by (rule unat_PROBE_NEXT [OF size Suc.prems(1)])
    show "key_at (table hm) (p + 1 + int j) \<noteq> None \<and> key_at (table hm) (p + 1 + int j) \<noteq> Some k" if "j < n" for j
      using Suc.prems(2) [of "Suc j"] that by (simp add: algebra_simps)
  qed
  then show ?case using k' here cmp by simp
qed simp

lemma calc_index_home: "size_ok hm \<Longrightarrow> int (unat (hashmap_calc_index hm k)) = home hm k mod int (length (table hm))"
  by (simp add: hashmap_calc_index_def unat_SIZE_MOD home_def zmod_int)

text \<open>A key of the table is found at its place.\<close>

lemma find_present:
  assumes "size_ok hm" "keys_ok hm" "probing (home hm) (table hm)" "distinct_keys (table hm)"
    and k: "key_at (table hm) p = Some k"
  shows "\<exists>r. hashmap_entry_find hm k fe = Some r \<and> int (unat r) = p mod int (length (table hm))"
proof -
  let ?n = "int (length (table hm))"
  have n: "0 < length (table hm)" using assms(1) by (rule size_ok_pos)
  define d where "d = probe_dist (length (table hm)) (home hm k) p"
  have d: "0 \<le> d" "2 * d < ?n" using probe_dist_bounds [OF n] assms(3) k unfolding d_def path_ok_def by blast+
  have m: "(home hm k + d) mod ?n = p mod ?n"
    using probe_dist_home [of p "length (table hm)" "home hm k"] unfolding d_def [symmetric]
    by (metis add.commute diff_add_cancel mod_add_right_eq)
  have shift: "key_at (table hm) (home hm k + x) = key_at (table hm) (p - d + x)" for x
  proof (rule key_at_cong)
    have "(home hm k + d + (x - d)) mod ?n = (p + (x - d)) mod ?n" by (rule mod_add_cong [OF m refl])
    then show "(home hm k + x) mod ?n = (p - d + x) mod ?n" by (simp add: algebra_simps)
  qed
  have "\<exists>r. entry_find_loop (unat (HASHMAP_PROBE_LEN hm)) hm k fe (hashmap_calc_index hm k) =
      (if key_at (table hm) (home hm k + int (nat d)) = None \<and> \<not> fe then None else Some r) \<and>
    int (unat r) = (home hm k + int (nat d)) mod ?n"
  proof (rule find_loop_hit [OF assms(1)])
    show "key_compare hm a b = 0 \<longleftrightarrow> a = b" for a b using assms(2) by (simp add: keys_ok_def)
    show "nat d < unat (HASHMAP_PROBE_LEN hm)" using d size_ok_length [OF assms(1)] by (auto simp: unat_PROBE_LEN [OF assms(1)])
    show "int (unat (hashmap_calc_index hm k)) = home hm k mod ?n" by (rule calc_index_home [OF assms(1)])
    show "key_at (table hm) (home hm k + int (nat d)) = None \<or> key_at (table hm) (home hm k + int (nat d)) = Some k"
      using d(1) k by (simp add: shift)
    fix j assume j: "j < nat d"
    have "key_at (table hm) (p - d + int j) \<noteq> None"
      using assms(3) k j unfolding path_ok_def d_def [symmetric] by (auto simp: d_def [symmetric])
    moreover have "key_at (table hm) (p - d + int j) \<noteq> Some k"
    proof
      assume "key_at (table hm) (p - d + int j) = Some k"
      then have "(p - d + int j) mod ?n = p mod ?n" using assms(4) k unfolding distinct_keys_def by blast
      then have "p - d + int j = p" by (rule mod_eq_near) (use d j in auto)
      then show False using j by simp
    qed
    ultimately show "key_at (table hm) (home hm k + int j) \<noteq> None \<and> key_at (table hm) (home hm k + int j) \<noteq> Some k"
      by (simp add: shift)
  qed
  then show ?thesis using d(1) m k shift [of d] by (simp add: hashmap_entry_find_def)
qed

text \<open>For another key the search ends at the first free cell, or after half the table.\<close>

lemma find_absent:
  assumes "size_ok hm" "keys_ok hm" and k: "\<And>p. key_at (table hm) p \<noteq> Some k"
  shows "hashmap_entry_find hm k False = None" (is ?F)
    and "(\<exists>r i. hashmap_entry_find hm k True = Some r \<and> 2 * i < length (table hm) \<and>
        int (unat r) = (home hm k + int i) mod int (length (table hm)) \<and> key_at (table hm) (home hm k + int i) = None \<and>
        (\<forall>j < i. key_at (table hm) (home hm k + int j) \<noteq> None)) \<or>
      hashmap_entry_find hm k True = None \<and> (\<forall>j. 2 * j < length (table hm) \<longrightarrow> key_at (table hm) (home hm k + int j) \<noteq> None)"
    (is ?T)
proof -
  have cmp: "key_compare hm a b = 0 \<longleftrightarrow> a = b" for a b using assms(2) by (simp add: keys_ok_def)
  note loop = calc_index_home [OF assms(1), of k]
  have len: "x < unat (HASHMAP_PROBE_LEN hm) \<longleftrightarrow> 2 * x < length (table hm)" for x
    using size_ok_length [OF assms(1)] by (auto simp: unat_PROBE_LEN [OF assms(1)] elim!: evenE)
  have "?F \<and> ?T"
  proof (cases "\<exists>i. 2 * i < length (table hm) \<and> key_at (table hm) (home hm k + int i) = None")
    case True
    define i where "i = (LEAST i. 2 * i < length (table hm) \<and> key_at (table hm) (home hm k + int i) = None)"
    have i: "2 * i < length (table hm)" "key_at (table hm) (home hm k + int i) = None"
      using LeastI_ex [OF True] unfolding i_def by auto
    have before: "key_at (table hm) (home hm k + int j) \<noteq> None" if "j < i" for j
      using not_less_Least [of j] that i(1) unfolding i_def [symmetric] using i_def by fastforce
    have "\<exists>r. entry_find_loop (unat (HASHMAP_PROBE_LEN hm)) hm k fe (hashmap_calc_index hm k) =
        (if key_at (table hm) (home hm k + int i) = None \<and> \<not> fe then None else Some r) \<and>
      int (unat r) = (home hm k + int i) mod int (length (table hm))" for fe
      by (rule find_loop_hit [OF assms(1) cmp _ loop]) (use i before k len in auto)
    from this [of False] this [of True] show ?thesis using i before unfolding hashmap_entry_find_def by auto
  next
    case False
    have "entry_find_loop (unat (HASHMAP_PROBE_LEN hm)) hm k fe (hashmap_calc_index hm k) = None" for fe
      by (rule find_loop_miss [OF assms(1) cmp loop]) (use False k len in auto)
    then show ?thesis using False unfolding hashmap_entry_find_def by auto
  qed
  then show ?F ?T by blast+
qed

section \<open>Lookup\<close>

lemma cell_unat: "int (unat r) = p mod int (length (table hm)) \<Longrightarrow> table hm ! unat r = cell (table hm) p"
  unfolding cell_def by (metis nat_int)

lemma hashmap_get_abs:
  assumes "tbl_ok hm"
  shows "hashmap_get hm k = hm_abs hm k"
proof (cases "\<exists>p. key_at (table hm) p = Some k")
  case True
  then obtain p where p: "key_at (table hm) p = Some k" ..
  obtain r where r: "hashmap_entry_find hm k False = Some r" "int (unat r) = p mod int (length (table hm))"
    using find_present [OF tbl_okD(1-4) [OF assms] p, of False] by blast
  show ?thesis using r(1) hm_abs_present(1) [OF assms p] cell_unat [OF r(2)] by (simp add: hashmap_get_def)
next
  case False
  then have "hm_abs hm k = None" "hashmap_entry_find hm k False = None"
    using find_absent(1) [OF tbl_okD(1,2) [OF assms]] hm_abs_absent [OF assms] by auto
  then show ?thesis by (simp add: hashmap_get_def)
qed

section \<open>Insertion\<close>

lemma set_entry_ok:
  assumes "size_ok hm" "keys_ok hm"
  shows "size_ok (set_entry r e hm)" "keys_ok (set_entry r e hm)"
  using assms unfolding size_ok_def keys_ok_def set_entry_def by auto

text \<open>A new key goes into the free cell that the search returns.\<close>

lemma insert_free:
  fixes d :: 'v
  assumes ok: "tbl_ok (hm :: ('k, 'v) hashmap)" and k: "hm_abs hm k = None" and r: "hashmap_entry_find hm k True = Some r"
  defines "hm' \<equiv> set_entry r \<lparr>entry_key = Some k, entry_data = Some d\<rparr> hm"
  shows "tbl_ok hm'" and "occupied (table hm') = occupied (table hm) + 1" and "hm_abs hm' = (hm_abs hm)(k \<mapsto> d)"
    and "entry_key (table hm ! unat r) = None"
proof -
  let ?n = "int (length (table hm))"
  let ?e = "\<lparr>entry_key = Some k, entry_data = Some d\<rparr>"
  note okD = tbl_okD [OF ok]
  have abs: "\<And>p. key_at (table hm) p \<noteq> Some k" using k hm_abs_absent [OF ok] by blast
  obtain i where i: "2 * i < length (table hm)" "int (unat r) = (home hm k + int i) mod ?n"
      "key_at (table hm) (home hm k + int i) = None" "\<forall>j < i. key_at (table hm) (home hm k + int j) \<noteq> None"
    using find_absent(2) [OF okD(1,2) abs] r by auto
  define q where "q = home hm k + int i"
  have ur: "unat r = nat (q mod ?n)" using i(2) unfolding q_def by (metis nat_int)
  have tab: "table hm' = (table hm)[nat (q mod ?n) := ?e]" by (simp add: hm'_def set_entry_def ur)
  have "home hm' = home hm" by (rule ext) (simp add: hm'_def set_entry_def home_def)
  note same = this set_entry_ok [OF okD(1,2), of r ?e, folded hm'_def]
  have "probing (home hm) (table hm')"
    unfolding tab q_def
  proof (rule path_ok_insert [OF okD(3,6)])
    show "key_at (table hm) (home hm k + j) \<noteq> None" if "0 \<le> j" "j < int i" for j
      using i(4) [rule_format, of "nat j"] that by simp
  qed (use i in auto)
  moreover have "distinct_keys (table hm')" unfolding tab by (rule distinct_keys_insert [OF okD(4,6) abs]) simp
  moreover have "data_ok (table hm')" unfolding tab by (rule data_ok_update [OF okD(5)]) simp
  ultimately show ok': "tbl_ok hm'" using same by (simp add: tbl_ok_def)
  have free: "entry_key (table hm ! nat (q mod ?n)) = None" using i(3) by (simp add: key_at_def cell_def q_def)
  then show "entry_key (table hm ! unat r) = None" by (simp add: ur)
  show "occupied (table hm') = occupied (table hm) + 1"
    using occupied_update [OF pos_bound [OF okD(6)], of q ?e] free by (simp add: tab)
  note cells = cell_update [OF okD(6), of q ?e]
  have n': "0 < length (table hm')" using okD(6) by (simp add: tab)
  have "(k', Some d') \<in> contents (table hm') \<longleftrightarrow> (if k' = k then d' = d else (k', Some d') \<in> contents (table hm))" for k' d'
  proof (cases "k' = k")
    case True
    have "\<exists>p. entry_key (cell (table hm') p) = Some k \<and> entry_data (cell (table hm') p) = Some d"
      by (rule exI [of _ q]) (simp add: tab cells)
    then show ?thesis
      using True abs unfolding contents_cell [OF n'] by (auto simp: tab cells key_at_def split: if_splits)
  next
    case False
    have "cell (table hm') p = cell (table hm) p" if "entry_key (cell (table hm) p) = Some k'" for p
    proof -
      have "p mod ?n \<noteq> q mod ?n" using that free by (auto simp: cell_def)
      then show ?thesis by (simp add: tab cells)
    qed
    moreover have "cell (table hm') p = cell (table hm) p" if "entry_key (cell (table hm') p) = Some k'" for p
      using that False by (auto simp: tab cells split: if_splits)
    ultimately show ?thesis
      using False unfolding contents_cell [OF n'] contents_cell [OF okD(6)] by metis
  qed
  then have "hm_abs hm' k' = Some d' \<longleftrightarrow> ((hm_abs hm)(k \<mapsto> d)) k' = Some d'" for k' d'
    using hm_abs_iff [OF tbl_okD(4,6) [OF ok']] hm_abs_iff [OF okD(4,6)] by auto
  then show "hm_abs hm' = (hm_abs hm)(k \<mapsto> d)" by (intro ext) (metis option.exhaust)
qed

text \<open>In a table that is less than half full the search finds a free cell.\<close>

lemma find_room:
  assumes ok: "tbl_ok hm" and k: "hm_abs hm k = None" and room: "2 * occupied (table hm) < length (table hm)"
  obtains r where "hashmap_entry_find hm k True = Some r"
proof (cases "hashmap_entry_find hm k True")
  case None
  note okD = tbl_okD [OF ok]
  have abs: "\<And>p. key_at (table hm) p \<noteq> Some k" using k hm_abs_absent [OF ok] by blast
  have full: "\<forall>j. 2 * j < length (table hm) \<longrightarrow> key_at (table hm) (home hm k + int j) \<noteq> None"
    using find_absent(2) [OF okD(1,2) abs] None by auto
  have "length (table hm) div 2 \<le> occupied (table hm)"
    by (rule occupied_run [of _ _ "home hm k"]) (use full size_ok_length [OF okD(1)] in \<open>auto elim!: evenE\<close>)
  then show thesis using room size_ok_length [OF okD(1)] by (auto elim!: evenE)
qed

text \<open>The loop of \<open>hashmap_rehash\<close> inserts the entries one by one, and there is room for them.\<close>

lemma rehash_loop_ok:
  assumes "tbl_ok hm" and "sorted_wrt (\<lambda>e e'. \<forall>k. entry_key e = Some k \<longrightarrow> entry_key e' \<noteq> Some k) es" and "data_ok es"
    and "\<And>e k. e \<in> set es \<Longrightarrow> entry_key e = Some k \<Longrightarrow> hm_abs hm k = None"
    and "2 * (occupied (table hm) + occupied es) \<le> length (table hm)"
  shows "\<exists>hm'. rehash_loop es hm = Some (Some hm') \<and> tbl_ok hm' \<and> hm' = hm\<lparr>table := table hm'\<rparr> \<and>
    length (table hm') = length (table hm) \<and> occupied (table hm') = occupied (table hm) + occupied es \<and>
    (\<forall>k. hm_abs hm' k = (case find (\<lambda>e. entry_key e = Some k) es of Some e \<Rightarrow> entry_data e | None \<Rightarrow> hm_abs hm k))"
  using assms
proof (induction es arbitrary: hm)
  case Nil
  then show ?case by (simp add: occupied_def)
next
  case (Cons e es)
  have data: "entry_key e = None \<longleftrightarrow> entry_data e = None" "data_ok es" using Cons.prems(3) by (auto simp: data_ok_def)
  show ?case
  proof (cases "entry_key e")
    case None
    have "\<exists>hm'. rehash_loop es hm = Some (Some hm') \<and> tbl_ok hm' \<and> hm' = hm\<lparr>table := table hm'\<rparr> \<and>
        length (table hm') = length (table hm) \<and> occupied (table hm') = occupied (table hm) + occupied es \<and>
        (\<forall>k. hm_abs hm' k = (case find (\<lambda>e. entry_key e = Some k) es of Some e \<Rightarrow> entry_data e | None \<Rightarrow> hm_abs hm k))"
      by (rule Cons.IH) (use Cons.prems data None in \<open>auto simp: occupied_def\<close>)
    then show ?thesis using None data(1) by (simp add: occupied_def)
  next
    case (Some k)
    then obtain d where d: "entry_data e = Some d" using data(1) by (cases "entry_data e") auto
    have occ: "occupied (e # es) = occupied es + 1" using Some by (simp add: occupied_def)
    have k: "hm_abs hm k = None" using Cons.prems(4) [of e k] Some by simp
    obtain r where r: "hashmap_entry_find hm k True = Some r"
      using find_room [OF Cons.prems(1) k] Cons.prems(5) occ by auto
    define hm1 where "hm1 = set_entry r \<lparr>entry_key = Some k, entry_data = Some d\<rparr> hm"
    note ins = insert_free(1-3) [OF Cons.prems(1) k r, of d, folded hm1_def]
    have len: "length (table hm1) = length (table hm)" "hm1 = hm\<lparr>table := table hm1\<rparr>"
      by (simp_all add: hm1_def set_entry_def)
    have new: "entry_key e' \<noteq> Some k" if "e' \<in> set es" for e' using Cons.prems(2) Some that by auto
    have "\<exists>hm'. rehash_loop es hm1 = Some (Some hm') \<and> tbl_ok hm' \<and> hm' = hm1\<lparr>table := table hm'\<rparr> \<and>
        length (table hm') = length (table hm1) \<and> occupied (table hm') = occupied (table hm1) + occupied es \<and>
        (\<forall>k. hm_abs hm' k = (case find (\<lambda>e. entry_key e = Some k) es of Some e \<Rightarrow> entry_data e | None \<Rightarrow> hm_abs hm1 k))"
    proof (rule Cons.IH [OF ins(1) _ data(2)])
      show "hm_abs hm1 k' = None" if "e' \<in> set es" "entry_key e' = Some k'" for e' k'
        using Cons.prems(4) [of e' k'] new [OF that(1)] that by (auto simp: ins(3))
    qed (use Cons.prems(2,5) occ ins(2) len in auto)
    then obtain hm' where hm': "rehash_loop es hm1 = Some (Some hm')" "tbl_ok hm'" "hm' = hm1\<lparr>table := table hm'\<rparr>"
        "length (table hm') = length (table hm1)" "occupied (table hm') = occupied (table hm1) + occupied es"
        "\<And>k. hm_abs hm' k = (case find (\<lambda>e. entry_key e = Some k) es of Some e \<Rightarrow> entry_data e | None \<Rightarrow> hm_abs hm1 k)"
      by blast
    have "rehash_loop (e # es) hm = Some (Some hm')" using Some d r hm'(1) by (simp add: hm1_def)
    moreover have "hm' = hm\<lparr>table := table hm'\<rparr>" by (subst hm'(3), subst len(2)) simp
    moreover have "hm_abs hm' k' =
        (case find (\<lambda>e. entry_key e = Some k') (e # es) of Some e \<Rightarrow> entry_data e | None \<Rightarrow> hm_abs hm k')" for k'
    proof (cases "k' = k")
      case True
      have "find (\<lambda>e. entry_key e = Some k) es = None" using new by (simp add: find_None_iff)
      then show ?thesis using True Some d by (simp add: hm'(6) ins(3))
    next
      case False
      then show ?thesis using Some by (simp add: hm'(6) ins(3) split: option.split)
    qed
    ultimately show ?thesis using hm'(2,4,5) len(1) ins(2) occ by auto
  qed
qed

lemma distinct_keys_sorted:
  assumes "distinct_keys t"
  shows "sorted_wrt (\<lambda>e e'. \<forall>k. entry_key e = Some k \<longrightarrow> entry_key e' \<noteq> Some k) t"
  unfolding sorted_wrt_iff_nth_less
proof (intro allI impI notI)
  fix i j k assume a: "i < j" "j < length t" "entry_key (t ! i) = Some k" "entry_key (t ! j) = Some k"
  then have "key_at t (int i) = Some k" "key_at t (int j) = Some k" by (simp_all add: key_at_def cell_nat)
  then have "int i mod int (length t) = int j mod int (length t)" using assms unfolding distinct_keys_def by blast
  then show False using a(1,2) by simp
qed

lemma occupied_le: "occupied t \<le> length t"
  unfolding occupied_def by (rule length_filter_le)

text \<open>A rehash to twice the size succeeds when the allocation does, and keeps the map.\<close>

lemma hashmap_rehash_ok:
  assumes ok: "hm_ok hm" and size: "length (table hm) \<le> 2 ^ 30"
  obtains hm' where "hashmap_rehash alloc hm (push_bit 1 (table_size hm)) = Some (if alloc then 0 else - ENOMEM, hm')"
    "hm_ok hm'" "hm_abs hm' = hm_abs hm" "key_alloc hm' = key_alloc hm" "num_entries hm' = num_entries hm"
    "length (table hm') = (if alloc then 2 * length (table hm) else length (table hm))"
proof (cases alloc)
  case False
  then show thesis using that [of hm] ok by (simp add: hashmap_rehash_def)
next
  case True
  note tok = hm_okD(1) [OF ok] and okD = tbl_okD [OF hm_okD(1) [OF ok]]
  obtain j where j: "2 \<le> j" "j \<le> 31" "table_size hm = 2 ^ j" "length (table hm) = 2 ^ j" using okD(1) by (rule size_ok_pow)
  have j30: "j \<le> 30"
  proof (rule ccontr)
    assume "\<not> j \<le> 30"
    then have "(2 :: nat) ^ 31 \<le> 2 ^ j" by (intro power_increasing) simp_all
    then show False using size j(4) by simp
  qed
  have new: "unat (push_bit 1 (table_size hm)) = 2 ^ Suc j"
    using j30 unat_of_nat [where 'a = 32, of "2 ^ Suc j"] power_strict_increasing [of "Suc j" 32 "2 :: nat"]
    by (simp add: j(3) push_bit_eq_mult mult.commute)
  define hm0 where "hm0 = hm\<lparr>table_size := push_bit 1 (table_size hm), table := replicate (2 ^ Suc j) zero_entry\<rparr>"
  have empty: "key_at (table hm0) p = None" for p
    using cell_in_set [of "table hm0" p] by (auto simp: hm0_def key_at_def zero_entry_def)
  have ok0: "tbl_ok hm0"
    unfolding tbl_ok_def
  proof (intro conjI)
    show "size_ok hm0" unfolding size_ok_def using j30 j(1) new by (auto simp: hm0_def intro!: exI [of _ "Suc j"])
    show "keys_ok hm0" using okD(2) unfolding keys_ok_def by (auto simp: hm0_def)
    show "path_ok (home hm0) (table hm0) (\<lambda>_. False)" by (simp add: path_ok_def empty)
    show "distinct_keys (table hm0)" by (simp add: distinct_keys_def empty)
    show "data_ok (table hm0)" by (simp add: data_ok_def hm0_def zero_entry_def)
  qed
  have abs0: "hm_abs hm0 k = None" for k using hm_abs_absent [OF ok0] empty by simp
  have occ0: "occupied (table hm0) = 0" by (simp add: occupied_def hm0_def zero_entry_def)
  have "\<exists>hm'. rehash_loop (table hm) hm0 = Some (Some hm') \<and> tbl_ok hm' \<and> hm' = hm0\<lparr>table := table hm'\<rparr> \<and>
      length (table hm') = length (table hm0) \<and> occupied (table hm') = occupied (table hm0) + occupied (table hm) \<and>
      (\<forall>k. hm_abs hm' k = (case find (\<lambda>e. entry_key e = Some k) (table hm) of Some e \<Rightarrow> entry_data e | None \<Rightarrow> hm_abs hm0 k))"
    by (rule rehash_loop_ok [OF ok0 distinct_keys_sorted [OF okD(4)] okD(5)])
      (use abs0 occ0 occupied_le [of "table hm"] j(4) in \<open>auto simp: hm0_def\<close>)
  then obtain hm' where hm': "rehash_loop (table hm) hm0 = Some (Some hm')" "tbl_ok hm'" "hm' = hm0\<lparr>table := table hm'\<rparr>"
      "length (table hm') = length (table hm0)" "occupied (table hm') = occupied (table hm)"
      "\<And>k. hm_abs hm' k = (case find (\<lambda>e. entry_key e = Some k) (table hm) of Some e \<Rightarrow> entry_data e | None \<Rightarrow> None)"
    unfolding occ0 abs0 by auto
  have num: "num_entries hm' = num_entries hm" "key_alloc hm' = key_alloc hm" by (subst hm'(3), simp add: hm0_def)+
  have "unat (table_size hm) = length (table hm)" using okD(1) by (simp add: size_ok_def)
  then have "hashmap_rehash alloc hm (push_bit 1 (table_size hm)) = Some (0, hm')"
    using True hm'(1) new by (simp add: hashmap_rehash_def hm0_def)
  moreover have "hm_abs hm' = hm_abs hm" by (rule ext) (simp only: hm'(6) hm_abs_def [of hm])
  ultimately show thesis
    using that [of hm'] True num hm'(2,4,5) hm_okD(2) [OF ok] j(4) by (simp add: hm_ok_def hm0_def)
qed

text \<open>The last part of \<open>hashmap_put\<close>, on an entry that was found.\<close>

definition key_copied :: "('k, 'v) hashmap \<Rightarrow> 'k \<Rightarrow> bool" where
  "key_copied hm k \<longleftrightarrow> (case key_alloc hm of None \<Rightarrow> True | Some f \<Rightarrow> f k \<noteq> None)"

lemma put_entry_present:
  assumes ok: "hm_ok hm" and k: "hm_abs hm k = Some d'"
  shows "\<exists>r. hashmap_entry_find hm k True = Some r \<and> put_entry hm r k d = (Some d', hm)"
proof -
  note tok = hm_okD(1) [OF ok]
  obtain p where p: "key_at (table hm) p = Some k" using hm_abs_absent [OF tok, of k] k by auto
  obtain r where r: "hashmap_entry_find hm k True = Some r" "int (unat r) = p mod int (length (table hm))"
    using find_present [OF tbl_okD(1-4) [OF tok] p, of True] by blast
  show ?thesis
    using r(1) p k hm_abs_present(1) [OF tok p] cell_unat [OF r(2)] by (simp add: put_entry_def key_at_def)
qed

lemma put_entry_absent:
  assumes ok: "hm_ok hm" and k: "hm_abs hm k = None" and r: "hashmap_entry_find hm k True = Some r"
  shows "\<exists>v hm'. put_entry hm r k (Some d) = (v, hm') \<and> hm_ok hm' \<and> table_size hm' = table_size hm \<and>
    (if key_copied hm k then v = Some d \<and> hm_abs hm' = (hm_abs hm)(k \<mapsto> d) else v = None \<and> hm_abs hm' = hm_abs hm)"
proof -
  note tok = hm_okD(1) [OF ok]
  let ?e = "table hm ! unat r"
  let ?new = "\<lparr>entry_key = Some k, entry_data = Some d\<rparr>"
  note ins = insert_free(1-3) [OF tok k r, of d] and free = insert_free(4) [OF tok k r]
  show ?thesis
  proof (cases "key_copied hm k")
    case True
    then have copy: "(case key_alloc hm of Some f \<Rightarrow> f k | None \<Rightarrow> Some k) = Some k"
      using tbl_okD(2) [OF tok] unfolding key_copied_def keys_ok_def by (cases "key_alloc hm") auto
    let ?hm = "set_entry r ?new (hm\<lparr>num_entries := num_entries hm + 1\<rparr>)"
    have upd: "?e\<lparr>entry_key := Some k, entry_data := Some d\<rparr> = ?new" by (cases ?e) simp
    have put: "put_entry hm r k (Some d) = (Some d, ?hm)"
      using copy free by (simp add: put_entry_def upd)
    have eq: "?hm = (set_entry r ?new hm)\<lparr>num_entries := num_entries hm + 1\<rparr>" by (simp add: set_entry_def)
    have t: "tbl_ok (x\<lparr>num_entries := n\<rparr>) = tbl_ok x" "hm_abs (x\<lparr>num_entries := n\<rparr>) = hm_abs x" for x :: "('a, 'b) hashmap" and n
      unfolding tbl_ok_def size_ok_def keys_ok_def home_def [abs_def] hm_abs_def [abs_def] by simp_all
    have "occupied (table (set_entry r ?new hm)) \<le> 2 ^ 31"
    proof -
      have "length (table hm) \<le> 2 ^ 31"
        using tbl_okD(1) [OF tok] by (rule size_ok_pow) (simp only: power_increasing [of _ 31 "2 :: nat"])
      then show ?thesis using occupied_le [of "table (set_entry r ?new hm)"] by (simp add: set_entry_def)
    qed
    then have "unat (num_entries hm + 1) = occupied (table (set_entry r ?new hm))"
      using ins(2) hm_okD(2) [OF ok] by (simp add: unat_word_ariths)
    then have "hm_ok ?hm" unfolding eq hm_ok_def t using ins(1) by simp
    moreover have "hm_abs ?hm = (hm_abs hm)(k \<mapsto> d)" unfolding eq t by (rule ins(3))
    moreover have "table_size ?hm = table_size hm" by (simp add: set_entry_def)
    ultimately show ?thesis using put True by auto
  next
    case False
    then have copy: "(case key_alloc hm of Some f \<Rightarrow> f k | None \<Rightarrow> Some k) = None"
      unfolding key_copied_def by (cases "key_alloc hm") auto
    have "set_entry r (?e\<lparr>entry_key := None\<rparr>) hm = hm"
    proof -
      have "?e\<lparr>entry_key := None\<rparr> = ?e" using free by (cases ?e) simp
      then show ?thesis by (simp add: set_entry_def)
    qed
    then have "put_entry hm r k (Some d) = (None, hm)" using copy free by (simp add: put_entry_def)
    then show ?thesis using False ok by simp
  qed
qed

lemma put_entry_ok:
  assumes ok: "hm_ok hm" and r: "hashmap_entry_find hm k True = Some r"
  shows "\<exists>v hm'. put_entry hm r k (Some d) = (v, hm') \<and> hm_ok hm' \<and> table_size hm' = table_size hm \<and>
    (case hm_abs hm k of
       Some d' \<Rightarrow> v = Some d' \<and> hm_abs hm' = hm_abs hm
     | None \<Rightarrow> if key_copied hm k then v = Some d \<and> hm_abs hm' = (hm_abs hm)(k \<mapsto> d) else v = None \<and> hm_abs hm' = hm_abs hm)"
proof (cases "hm_abs hm k")
  case None
  then show ?thesis using put_entry_absent [OF ok None r, of d] by simp
next
  case (Some d')
  then show ?thesis using put_entry_present [OF ok Some, of "Some d"] r ok by auto
qed

lemma key_copied_cong: "key_alloc hm' = key_alloc hm \<Longrightarrow> key_copied hm' k = key_copied hm k"
  by (simp add: key_copied_def)

lemma size_ok_unat: "size_ok hm \<Longrightarrow> unat (table_size hm) = length (table hm)"
  by (simp add: size_ok_def)

lemma put_again_ok:
  assumes ok: "hm_ok hm" and size: "length (table hm) \<le> 2 ^ 30" and k: "hashmap_entry_find hm k True = None"
  shows "\<exists>v hm'. put_again alloc hm k (Some d) = Some (v, hm') \<and> hm_ok hm' \<and> hm_abs hm k = None \<and>
    (v = Some d \<and> hm_abs hm' = (hm_abs hm)(k \<mapsto> d) \<or> v = None \<and> hm_abs hm' = hm_abs hm) \<and>
    (alloc \<and> key_copied hm k \<and> occupied (table hm) < length (table hm) \<longrightarrow> v = Some d)"
proof -
  note tok = hm_okD(1) [OF ok]
  have absent: "hm_abs hm k = None" using put_entry_present [OF ok, of k _ None] k by (cases "hm_abs hm k") auto
  obtain hm1 where hm1: "hashmap_rehash alloc hm (push_bit 1 (table_size hm)) = Some (if alloc then 0 else - ENOMEM, hm1)"
    "hm_ok hm1" "hm_abs hm1 = hm_abs hm" "key_alloc hm1 = key_alloc hm" "num_entries hm1 = num_entries hm"
    "length (table hm1) = (if alloc then 2 * length (table hm) else length (table hm))"
    using hashmap_rehash_ok [OF ok size] by blast
  show ?thesis
  proof (cases alloc)
    case False
    then show ?thesis using hm1 absent by (simp add: put_again_def ENOMEM_def)
  next
    case True
    have occ: "occupied (table hm1) = occupied (table hm)" using hm_okD(2) [OF ok] hm_okD(2) [OF hm1(2)] hm1(5) by simp
    show ?thesis
    proof (cases "hashmap_entry_find hm1 k True")
      case None
      then have "\<not> occupied (table hm) < length (table hm)"
        using find_room [OF hm_okD(1) [OF hm1(2)], of k] absent hm1(3,6) True occ by auto
      then show ?thesis using None True hm1 absent by (simp add: put_again_def)
    next
      case (Some r)
      then show ?thesis
        using put_entry_absent [OF hm1(2) _ Some, of d] absent hm1(1,3) True key_copied_cong [OF hm1(4), of k]
        by (auto simp: put_again_def split: if_splits)
    qed
  qed
qed

text \<open>\<open>hashmap_put\<close> as a whole. A put fails only if the key is not copied, or if the table was at least half full and one of
  the allocations failed.\<close>

lemma hashmap_put_ok:
  assumes ok: "hm_ok hm" and size: "length (table hm) \<le> 2 ^ 29"
  shows "\<exists>v hm'. hashmap_put alloc1 alloc2 hm k (Some d) = Some (v, hm') \<and> hm_ok hm' \<and>
    (case hm_abs hm k of
       Some d' \<Rightarrow> v = Some d' \<and> hm_abs hm' = hm_abs hm
     | None \<Rightarrow> (v = Some d \<and> hm_abs hm' = (hm_abs hm)(k \<mapsto> d) \<or> v = None \<and> hm_abs hm' = hm_abs hm) \<and>
         (key_copied hm k \<and> (alloc1 \<and> alloc2 \<or> 2 * occupied (table hm) < length (table hm)) \<longrightarrow> v = Some d)) \<and>
    (2 * occupied (table hm) < length (table hm) \<longrightarrow> table_size hm' = table_size hm)"
proof -
  note tok = hm_okD(1) [OF ok]
  let ?n = "length (table hm)" and ?o = "occupied (table hm)"
  have n: "unat (table_size hm) = ?n" using tbl_okD(1) [OF tok] by (rule size_ok_unat)
  have o: "unat (num_entries hm) = ?o" by (rule hm_okD(2) [OF ok])
  have "unat (num_entries hm div 3) = ?o div 3" by (simp add: unat_div_distrib o)
  then have min: "unat (hashmap_table_min_size_calc (num_entries hm)) = ?o + ?o div 3"
    using occupied_le [of "table hm"] size by (simp add: hashmap_table_min_size_calc_def unat_word_ariths o)
  let ?grow = "table_size hm \<le> hashmap_table_min_size_calc (num_entries hm)"
  have grow: "?grow \<longleftrightarrow> ?n \<le> ?o + ?o div 3" by (simp add: word_le_nat_alt n min)
  obtain hm1 where hm1: "(if ?grow then map_option snd (hashmap_rehash alloc1 hm (push_bit 1 (table_size hm))) else Some hm) = Some hm1"
    "hm_ok hm1" "hm_abs hm1 = hm_abs hm" "key_alloc hm1 = key_alloc hm" "num_entries hm1 = num_entries hm"
    "length (table hm1) = (if ?grow \<and> alloc1 then 2 * ?n else ?n)" "\<not> ?grow \<longrightarrow> hm1 = hm"
  proof (cases ?grow)
    case True
    have "?n \<le> 2 ^ 30" using size by simp
    then show thesis using hashmap_rehash_ok [OF ok, of alloc1] that True by fastforce
  next
    case False
    then show thesis using that [of hm] ok by simp
  qed
  have occ: "occupied (table hm1) = ?o" using hm_okD(2) [OF hm1(2)] hm1(5) o by simp
  have room: "occupied (table hm1) < length (table hm1)" if "alloc1"
    using that occ hm1(6) grow occupied_le [of "table hm"] size_ok_length [OF tbl_okD(1) [OF tok]] by (auto split: if_splits)
  have copied: "key_copied hm1 k = key_copied hm k" by (rule key_copied_cong [OF hm1(4)])
  have put: "hashmap_put alloc1 alloc2 hm k (Some d) =
      (case hashmap_entry_find hm1 k True of
         Some entry \<Rightarrow> Some (put_entry hm1 entry k (Some d)) | None \<Rightarrow> put_again alloc2 hm1 k (Some d))"
    unfolding hashmap_put_def hm1(1) by simp
  have half: "\<not> ?grow \<and> hm1 = hm" if "2 * ?o < ?n" using that hm1(7) grow by auto
  show ?thesis
  proof (cases "hashmap_entry_find hm1 k True")
    case (Some r)
    then show ?thesis
      using put_entry_ok [OF hm1(2) Some, of d] put hm1(3) copied half by (auto split: option.splits if_splits)
  next
    case None
    have "\<not> 2 * ?o < ?n"
    proof
      assume a: "2 * ?o < ?n"
      then have "hm1 = hm" using half by blast
      moreover have "hm_abs hm k = None"
      proof (cases "hm_abs hm k")
        case (Some d')
        then show ?thesis using put_entry_present [OF hm1(2), of k d' None] None hm1(3) by simp
      qed
      then obtain r where "hashmap_entry_find hm k True = Some r" using find_room [OF tok _ a] by blast
      ultimately show False using None by simp
    qed
    moreover have "length (table hm1) \<le> 2 ^ 30" using hm1(6) size by simp
    from put_again_ok [OF hm1(2) this None, of alloc2 d] obtain v hm' where
      "put_again alloc2 hm1 k (Some d) = Some (v, hm')" "hm_ok hm'" "hm_abs hm k = None"
      "v = Some d \<and> hm_abs hm' = (hm_abs hm)(k \<mapsto> d) \<or> v = None \<and> hm_abs hm' = hm_abs hm"
      "alloc2 \<and> key_copied hm k \<and> occupied (table hm1) < length (table hm1) \<longrightarrow> v = Some d"
      unfolding hm1(3) copied by blast
    ultimately show ?thesis using put None room by (intro exI [of _ v] exI [of _ hm']) simp
  qed
qed

section \<open>Removal\<close>

text \<open>The test of the loop: a key less than half a table behind the hole moves exactly if its path passes the hole.\<close>

lemma INDEX_LE_moves:
  assumes size: "size_ok hm" and r: "int (unat ri) = r mod int (length (table hm))"
    and d: "probe_dist (length (table hm)) (home hm k) i = d" "2 * d < int (length (table hm))"
    and g: "r < i" "2 * (i - r) < int (length (table hm))"
  shows "HASHMAP_INDEX_LE hm ri (hashmap_calc_index hm k) \<longleftrightarrow> i - r \<le> d"
proof -
  let ?n = "int (length (table hm))"
  have n: "0 < ?n" using size_ok_pos [OF size] by simp
  have d0: "0 \<le> d" using d(1) probe_dist_bounds [of "length (table hm)"] n by fastforce
  have h: "int (unat (hashmap_calc_index hm k)) = (i - d) mod ?n"
    unfolding calc_index_home [OF size] d(1) [symmetric] by (rule probe_dist_home [symmetric])
  have diff: "(int (unat (hashmap_calc_index hm k)) - int (unat ri)) mod ?n = (i - r - d) mod ?n"
    unfolding h r by (simp add: mod_simps algebra_simps)
  have eq: "ri = hashmap_calc_index hm k \<longleftrightarrow> (i - r - d) mod ?n = 0"
  proof
    assume "ri = hashmap_calc_index hm k"
    then show "(i - r - d) mod ?n = 0" using diff by simp
  next
    assume "(i - r - d) mod ?n = 0"
    then have "(int (unat (hashmap_calc_index hm k)) - int (unat ri)) mod ?n = 0" using diff by simp
    then have "int (unat (hashmap_calc_index hm k)) mod ?n = int (unat ri) mod ?n" by (simp only: mod_eq_dvd_iff dvd_eq_mod_eq_0)
    then have "int (unat (hashmap_calc_index hm k)) = int (unat ri)" unfolding h r by simp
    then show "ri = hashmap_calc_index hm k" by (metis of_nat_eq_iff word_unat_eq_iff)
  qed
  show ?thesis
  proof (cases "i - r \<le> d")
    case True
    have "i - r - d = 0 \<or> (i - r - d) mod ?n = i - r - d + ?n"
    proof (cases "i - r = d")
      case False
      have "(i - r - d) mod ?n = (i - r - d + ?n) mod ?n" by simp
      also have "\<dots> = i - r - d + ?n" by (rule mod_pos_pos_trivial) (use True False d g d0 in linarith)+
      finally show ?thesis ..
    qed simp
    then show ?thesis unfolding INDEX_LE_iff [OF size] eq diff using True d g by auto
  next
    case False
    have "i - r - d \<le> i - r" using d0 by simp
    also have "\<dots> < 2 * (i - r)" using g(1) by simp
    also note g(2)
    finally have "i - r - d < ?n" .
    then have "(i - r - d) mod ?n = i - r - d" using False by (intro mod_pos_pos_trivial) linarith
    then show ?thesis unfolding INDEX_LE_iff [OF size] eq diff using False d0 g by auto
  qed
qed

text \<open>The table with the hole cleared.\<close>

definition holed :: "('k, 'v) hashmap \<Rightarrow> int \<Rightarrow> ('k, 'v) hashmap_entry list" where
  "holed hm r = (table hm)[nat (r mod int (length (table hm))) := zero_entry]"

lemma length_holed [simp]: "length (holed hm r) = length (table hm)"
  by (simp add: holed_def)

lemma cell_holed:
  "0 < length (table hm) \<Longrightarrow> p mod int (length (table hm)) \<noteq> r mod int (length (table hm)) \<Longrightarrow> cell (holed hm r) p = cell (table hm) p"
  using cell_update [of "table hm" r zero_entry p] by (simp add: holed_def)

lemma holed_shift:
  assumes n: "0 < length (table hm)" and ri: "r mod int (length (table hm)) \<noteq> i mod int (length (table hm))"
    and ur: "int (unat r') = r mod int (length (table hm))"
  shows "holed (set_entry r' (cell (table hm) i) hm) i = shift_back (holed hm r) r i"
proof -
  have "unat r' = nat (r mod int (length (table hm)))" using ur by (metis nat_int)
  then show ?thesis
    using ri cell_holed [OF n, of i r] by (simp add: holed_def set_entry_def shift_back_def)
qed

lemma data_ok_shift_back:
  assumes "data_ok t" and "0 < length t"
  shows "data_ok (shift_back t r i)"
  unfolding shift_back_def using assms(1) cell_in_set [OF assms(2), of i]
  by (intro data_ok_update) (auto simp: data_ok_def zero_entry_def)

text \<open>The loop keeps the keys, and ends with a table without a hole in a path.\<close>

lemma entry_remove_loop_ok:
  assumes "size_ok hm" and "hole_inv (home hm) (holed hm r) r i" and "distinct_keys (holed hm r)" and "data_ok (holed hm r)"
    and "int (unat ri) = r mod int (length (table hm))" and "int (unat ii) = i mod int (length (table hm))"
    and "i \<le> e" and "2 * (e - r) \<le> int (length (table hm))" and "key_at (table hm) e = None" and "e - i < int fuel"
  shows "\<exists>hm' ri' r'. entry_remove_loop fuel hm ri ii = (hm', ri') \<and> int (unat ri') = r' mod int (length (table hm)) \<and>
    hm' = hm\<lparr>table := table hm'\<rparr> \<and> length (table hm') = length (table hm) \<and> probing (home hm) (holed hm' r') \<and>
    distinct_keys (holed hm' r') \<and> data_ok (holed hm' r') \<and> contents (holed hm' r') = contents (holed hm r) \<and>
    occupied (holed hm' r') = occupied (holed hm r)"
  using assms
proof (induction fuel arbitrary: hm r i ri ii)
  case (Suc fuel)
  let ?n = "int (length (table hm))"
  note size = Suc.prems(1) and inv = Suc.prems(2)
  have n: "0 < length (table hm)" by (rule size_ok_pos [OF size])
  from inv have ri: "r < i" "i < r + ?n" by (auto simp: hole_inv_def)
  have ne: "r mod ?n \<noteq> i mod ?n" using mod_eq_near [of i ?n r] ri by auto
  have entry: "table hm ! unat ii = cell (table hm) i" by (rule cell_unat [OF Suc.prems(6)])
  have cell: "cell (holed hm r) i = cell (table hm) i" using cell_holed [OF n] ne by simp
  show ?case
  proof (cases "key_at (table hm) i")
    case None
    have "probing (home hm) (holed hm r)" by (rule hole_inv_end [OF inv]) (use None cell in \<open>simp add: key_at_def\<close>)
    then show ?thesis
      using None entry Suc.prems(3,4,5) by (intro exI [of _ hm] exI [of _ ri] exI [of _ r]) (simp add: key_at_def)
  next
    case (Some k)
    then have key: "key_at (holed hm r) i = Some k" using cell by (simp add: key_at_def)
    define d where "d = probe_dist (length (table hm)) (home hm k) i"
    have d: "2 * d < ?n" using inv key unfolding hole_inv_def path_ok_def d_def by auto
    have ie: "i < e" using Suc.prems(7,9) Some by (cases "i = e") auto
    have le: "HASHMAP_INDEX_LE hm ri (hashmap_calc_index hm k) \<longleftrightarrow> i - r \<le> d"
      by (rule INDEX_LE_moves [OF size Suc.prems(5) d_def [symmetric] d]) (use ri ie Suc.prems(8) in auto)
    have nxt: "int (unat (HASHMAP_PROBE_NEXT hm ii)) = (i + 1) mod ?n" by (rule unat_PROBE_NEXT [OF size Suc.prems(6)])
    show ?thesis
    proof (cases "i - r \<le> d")
      case False
      have "hole_inv (home hm) (holed hm r) r (i + 1)"
        by (rule hole_inv_next [OF inv]) (use False key d_def ie ri Suc.prems(8) n in auto)
      from Suc.IH [OF size this Suc.prems(3,4,5) nxt _ Suc.prems(8,9)]
      show ?thesis using False le Some entry ie Suc.prems(10) by (simp add: key_at_def)
    next
      case True
      define hm1 where "hm1 = set_entry ri (cell (table hm) i) hm"
      have len: "length (table hm1) = length (table hm)" "hm1 = hm\<lparr>table := table hm1\<rparr>"
        by (simp_all add: hm1_def set_entry_def)
      have hol: "holed hm1 i = shift_back (holed hm r) r i"
        unfolding hm1_def by (rule holed_shift [OF n ne Suc.prems(5)])
      have hom: "home hm1 = home hm" by (rule ext) (simp add: hm1_def set_entry_def home_def)
      have n': "0 < length (holed hm r)" using n by simp
      have kr: "key_at (holed hm r) r = None" using inv by (simp add: hole_inv_def)
      have ne': "r mod int (length (holed hm r)) \<noteq> i mod int (length (holed hm r))" using ne by simp
      have inv1: "hole_inv (home hm1) (holed hm1 i) i (i + 1)"
        unfolding hol hom by (rule hole_inv_shift [OF inv key]) (use True size_ok_length [OF size] in \<open>auto simp: d_def\<close>)
      have size1: "size_ok hm1" using size by (simp add: hm1_def set_entry_def size_ok_def)
      have "e mod ?n \<noteq> r mod ?n" using mod_eq_near [of e ?n r] ri ie Suc.prems(8) n by auto
      then have ke: "key_at (table hm1) e = None"
      proof -
        have "unat ri = nat (r mod ?n)" using Suc.prems(5) by (metis nat_int)
        then show ?thesis
          using key_at_update [OF n, of r "cell (table hm) i" e] Suc.prems(9) \<open>e mod ?n \<noteq> r mod ?n\<close>
          by (simp add: hm1_def set_entry_def)
      qed
      have "\<exists>hm' ri' r'. entry_remove_loop fuel hm1 ii (HASHMAP_PROBE_NEXT hm ii) = (hm', ri') \<and>
          int (unat ri') = r' mod int (length (table hm1)) \<and>
          hm' = hm1\<lparr>table := table hm'\<rparr> \<and> length (table hm') = length (table hm1) \<and> probing (home hm1) (holed hm' r') \<and>
          distinct_keys (holed hm' r') \<and> data_ok (holed hm' r') \<and> contents (holed hm' r') = contents (holed hm1 i) \<and>
          occupied (holed hm' r') = occupied (holed hm1 i)"
      proof (rule Suc.IH [OF size1 inv1])
        show "distinct_keys (holed hm1 i)" unfolding hol by (rule distinct_keys_shift_back [OF n' Suc.prems(3)])
        show "data_ok (holed hm1 i)" unfolding hol by (rule data_ok_shift_back [OF Suc.prems(4) n'])
      qed (use Suc.prems nxt ie ke ri len(1) in auto)
      then obtain hm' ri' r' where IH: "entry_remove_loop fuel hm1 ii (HASHMAP_PROBE_NEXT hm ii) = (hm', ri')"
          "int (unat ri') = r' mod ?n" "hm' = hm1\<lparr>table := table hm'\<rparr>" "length (table hm') = length (table hm)"
          "probing (home hm) (holed hm' r')" "distinct_keys (holed hm' r')" "data_ok (holed hm' r')"
          "contents (holed hm' r') = contents (holed hm1 i)" "occupied (holed hm' r') = occupied (holed hm1 i)"
        unfolding len(1) hom by blast
      have "entry_remove_loop (Suc fuel) hm ri ii = (hm', ri')"
        using True le Some entry IH(1) by (simp add: key_at_def hm1_def)
      moreover have "hm' = hm\<lparr>table := table hm'\<rparr>" by (subst IH(3), subst len(2)) simp
      moreover have "contents (holed hm1 i) = contents (holed hm r)" "occupied (holed hm1 i) = occupied (holed hm r)"
        unfolding hol using contents_shift_back [OF n' ne' kr] occupied_shift_back [OF n' ne' kr] by simp_all
      ultimately show ?thesis using IH by metis
    qed
  qed
qed simp

end
