(* ===== verification/Hashmap_Spec.thy ===== *)
theory Hashmap_Spec
  imports Hashmap_Map
begin

text \<open>
  The contract of the hash table: removal from a table that is at most half full, what the other operations do, the
  interface of a map with a bounded number of keys that the table provides, and the properties.
\<close>

section \<open>Removal of an entry\<close>

lemma holed_ok:
  assumes ok: "tbl_ok hm" and k: "key_at (table hm) r = Some k"
  shows "hole_inv (home hm) (holed hm r) r (r + 1)" "distinct_keys (holed hm r)" "data_ok (holed hm r)"
    "occupied (holed hm r) + 1 = occupied (table hm)"
    "(k', d) \<in> contents (holed hm r) \<longleftrightarrow> k' \<noteq> k \<and> (k', d) \<in> contents (table hm)"
proof -
  note okD = tbl_okD [OF ok]
  let ?n = "int (length (table hm))"
  note key = key_at_update [OF okD(6), of r zero_entry, folded holed_def]
  note cell = cell_update [OF okD(6), of r zero_entry, folded holed_def]
  have zero: "entry_key zero_entry = None" by (simp add: zero_entry_def)
  have old: "key_at (table hm) p = Some k'" if "key_at (holed hm r) p = Some k'" for p k'
    using that by (auto simp: key zero split: if_splits)
  have "path_ok (home hm) (holed hm r) (\<lambda>q. q mod ?n = r mod ?n)"
    unfolding path_ok_def length_holed
  proof (intro allI impI)
    fix p k' assume "key_at (holed hm r) p = Some k'"
    then have "key_at (table hm) p = Some k'" by (rule old)
    then show "2 * probe_dist (length (table hm)) (home hm k') p < ?n \<and>
        (\<forall>q. p - probe_dist (length (table hm)) (home hm k') p \<le> q \<and> q < p \<longrightarrow>
          key_at (holed hm r) q \<noteq> None \<or> q mod ?n = r mod ?n)"
      using okD(3) unfolding path_ok_def by (auto simp: key)
  qed
  moreover have "1 < ?n" using size_ok_length [OF okD(1)] by linarith
  ultimately show "hole_inv (home hm) (holed hm r) r (r + 1)" using zero by (auto simp: hole_inv_def key)
  show "distinct_keys (holed hm r)"
    using okD(4) old unfolding distinct_keys_def length_holed by blast
  show "data_ok (holed hm r)" unfolding holed_def by (rule data_ok_update [OF okD(5)]) (simp add: zero_entry_def)
  have "entry_key (table hm ! nat (r mod ?n)) \<noteq> None" using k by (simp add: key_at_def cell_def)
  then show "occupied (holed hm r) + 1 = occupied (table hm)"
    using occupied_update [OF pos_bound [OF okD(6)], of r zero_entry] zero by (simp add: holed_def)
  have n': "0 < length (holed hm r)" using okD(6) by simp
  have new: "entry_key (cell (holed hm r) p) = Some k' \<longleftrightarrow> k' \<noteq> k \<and> entry_key (cell (table hm) p) = Some k'" for p
  proof (cases "p mod ?n = r mod ?n")
    case True
    then show ?thesis using k key_at_cong [OF True] by (auto simp: cell key_at_def zero)
  next
    case False
    then have "key_at (table hm) p \<noteq> Some k" using okD(4) k unfolding distinct_keys_def by blast
    then show ?thesis using False by (auto simp: cell key_at_def)
  qed
  have same: "cell (holed hm r) p = cell (table hm) p" if "entry_key (cell (holed hm r) p) = Some k'" for p
    using that by (auto simp: cell zero split: if_splits)
  show "(k', d) \<in> contents (holed hm r) \<longleftrightarrow> k' \<noteq> k \<and> (k', d) \<in> contents (table hm)"
    unfolding contents_cell [OF n'] contents_cell [OF okD(6)] using new same by metis
qed

text \<open>The next free cell behind a key is at most as far away as there are keys.\<close>

lemma next_free:
  assumes "size_ok hm" and half: "2 * occupied (table hm) \<le> length (table hm)" and k: "key_at (table hm) r \<noteq> None"
  obtains l where "0 < l" "2 * l \<le> length (table hm)" "key_at (table hm) (r + int l) = None"
proof -
  let ?P = "\<lambda>l. key_at (table hm) (r + int l) = None"
  have n: "4 \<le> length (table hm)" using size_ok_length [OF assms(1)] by simp
  have "\<exists>l. ?P l"
  proof (rule ccontr)
    assume "\<nexists>l. ?P l"
    then have "length (table hm) \<le> occupied (table hm)" by (intro occupied_run [of _ _ r]) auto
    then show False using half n by simp
  qed
  define l where "l = (LEAST l. ?P l)"
  have l: "?P l" unfolding l_def by (rule LeastI_ex) fact
  have before: "\<not> ?P j" if "j < l" for j using that not_less_Least unfolding l_def by blast
  have "min l (length (table hm)) \<le> occupied (table hm)"
    by (rule occupied_run [of _ _ r]) (use before in auto)
  then have "2 * l \<le> length (table hm)" using half n by (auto simp: min_def split: if_splits)
  moreover have "0 < l" using l k by (cases l) auto
  ultimately show thesis using that l by blast
qed

lemma hashmap_entry_remove_ok:
  assumes ok: "hm_ok hm" and half: "2 * occupied (table hm) \<le> length (table hm)"
    and k: "key_at (table hm) p = Some k" and r: "int (unat r) = p mod int (length (table hm))"
  defines "hm' \<equiv> hashmap_entry_remove hm r"
  shows "hm_ok hm'" and "hm_abs hm' = (hm_abs hm)(k := None)" and "num_entries hm' = num_entries hm - 1"
    and "table_size hm' = table_size hm" and "freed hm' = freed hm @ (if key_free hm then [k] else [])"
proof -
  note tok = hm_okD(1) [OF ok] and okD = tbl_okD [OF hm_okD(1) [OF ok]]
  let ?n = "int (length (table hm))"
  define hm0 where "hm0 = (free_key (Some k) hm)\<lparr>num_entries := num_entries (free_key (Some k) hm) - 1\<rparr>"
  have hm0: "table hm0 = table hm" "table_size hm0 = table_size hm" "home hm0 = home hm" "num_entries hm0 = num_entries hm - 1"
    "size_ok hm0" "keys_ok hm0" "holed hm0 = holed hm" "freed hm0 = freed hm @ (if key_free hm then [k] else [])"
    using okD(1,2) unfolding hm0_def free_key_def home_def [abs_def] size_ok_def keys_ok_def holed_def [abs_def] by auto
  have key: "entry_key (table hm ! unat r) = Some k" using cell_unat [OF r] k by (simp add: key_at_def)
  have nxt: "int (unat (HASHMAP_PROBE_NEXT hm0 r)) = (p + 1) mod ?n"
    using unat_PROBE_NEXT [OF hm0(5), of r p] r hm0(1) by simp
  note h = holed_ok [OF tok k]
  obtain l where l: "0 < l" "2 * l \<le> length (table hm)" "key_at (table hm) (p + int l) = None"
    using next_free [OF okD(1) half] k by auto
  have un: "unat (table_size hm) = length (table hm)" by (rule size_ok_unat [OF okD(1)])
  have "\<exists>hm1 ri' r'. entry_remove_loop (unat (table_size hm0) - 1) hm0 r (HASHMAP_PROBE_NEXT hm0 r) = (hm1, ri') \<and>
      int (unat ri') = r' mod int (length (table hm0)) \<and>
      hm1 = hm0\<lparr>table := table hm1\<rparr> \<and> length (table hm1) = length (table hm0) \<and> probing (home hm0) (holed hm1 r') \<and>
      distinct_keys (holed hm1 r') \<and> data_ok (holed hm1 r') \<and> contents (holed hm1 r') = contents (holed hm0 p) \<and>
      occupied (holed hm1 r') = occupied (holed hm0 p)"
    by (rule entry_remove_loop_ok [OF hm0(5), of p "p + 1" r _ "p + int l"])
      (use h(1-3) hm0 r nxt l un in auto)
  then obtain hm1 ri' r' where loop:
      "entry_remove_loop (unat (table_size hm0) - 1) hm0 r (HASHMAP_PROBE_NEXT hm0 r) = (hm1, ri')"
      "int (unat ri') = r' mod ?n" "hm1 = hm0\<lparr>table := table hm1\<rparr>" "length (table hm1) = length (table hm)"
      "probing (home hm) (holed hm1 r')" "distinct_keys (holed hm1 r')" "data_ok (holed hm1 r')"
      "contents (holed hm1 r') = contents (holed hm p)" "occupied (holed hm1 r') = occupied (holed hm p)"
    unfolding hm0 by blast
  have "table_size (free_key (Some k) hm) = table_size hm0" by (simp add: hm0_def)
  then have result: "hm' = set_entry ri' zero_entry hm1"
    using loop(1) key by (simp add: hm'_def hashmap_entry_remove_def Let_def hm0_def [symmetric])
  have "unat ri' = nat (r' mod ?n)" using loop(2) by (metis nat_int)
  then have tab: "table hm' = holed hm1 r'"
    using loop(4) by (simp add: result set_entry_def holed_def)
  have rest: "hm' = hm0\<lparr>table := table hm'\<rparr>"
  proof -
    have "hm' = hm1\<lparr>table := table hm'\<rparr>"
      by (simp add: result set_entry_def)
    then show ?thesis using loop(3) by (metis hashmap.update_convs(4) hashmap.surjective hashmap.simps(4))
  qed
  show num: "num_entries hm' = num_entries hm - 1" and sz: "table_size hm' = table_size hm"
    and "freed hm' = freed hm @ (if key_free hm then [k] else [])"
    by (subst rest, simp add: hm0)+
  have "hash hm' = hash hm0" by (subst rest) simp
  then have "home hm' = home hm" unfolding hm0(3) [symmetric] by (simp add: home_def [abs_def])
  moreover have "size_ok hm'" using okD(1) sz loop(4) unfolding size_ok_def tab by simp
  moreover have "keys_ok hm'" using hm0(6) by (subst rest) (auto simp: keys_ok_def)
  ultimately have tok': "tbl_ok hm'" using loop(5-7) by (simp add: tbl_ok_def tab)
  have "unat (num_entries hm - 1) = occupied (table hm) - 1"
    using hm_okD(2) [OF ok] h(4) by (metis Suc_eq_plus1 diff_Suc_1 nat.discI unat_eq_zero unat_minus_one)
  then show "hm_ok hm'" using tok' h(4) loop(9) unfolding hm_ok_def num tab by simp
  have "hm_abs hm' k' = Some d \<longleftrightarrow> ((hm_abs hm)(k := None)) k' = Some d" for k' d
    unfolding hm_abs_iff [OF tbl_okD(4,6) [OF tok']] tab loop(8) h(5) using hm_abs_iff [OF okD(4,6)] by auto
  then show "hm_abs hm' = (hm_abs hm)(k := None)" by (intro ext) (metis option.exhaust)
qed

lemma hashmap_remove_ok:
  assumes ok: "hm_ok hm" and half: "2 * occupied (table hm) \<le> length (table hm)"
  obtains hm' where "hashmap_remove hm k = (hm_abs hm k, hm')" "hm_ok hm'" "hm_abs hm' = (hm_abs hm)(k := None)"
    "table_size hm' = table_size hm" "num_entries hm' = num_entries hm - (if hm_abs hm k = None then 0 else 1)"
    "freed hm' = freed hm @ (if key_free hm \<and> hm_abs hm k \<noteq> None then [k] else [])"
proof (cases "hm_abs hm k")
  note tok = hm_okD(1) [OF ok]
  case None
  then have "hashmap_entry_find hm k False = None"
    using find_absent(1) [OF tbl_okD(1,2) [OF tok]] hm_abs_absent [OF tok] by blast
  then have "hashmap_remove hm k = (hm_abs hm k, hm)" using None by (simp add: hashmap_remove_def)
  moreover have "hm_abs hm = (hm_abs hm)(k := None)" using None by (simp add: fun_eq_iff)
  ultimately show thesis using that [of hm] ok None by simp
next
  note tok = hm_okD(1) [OF ok]
  case (Some d)
  then obtain p where p: "key_at (table hm) p = Some k" using hm_abs_absent [OF tok, of k] by auto
  obtain r where r: "hashmap_entry_find hm k False = Some r" "int (unat r) = p mod int (length (table hm))"
    using find_present [OF tbl_okD(1-4) [OF tok] p, of False] by blast
  have "hashmap_remove hm k = (hm_abs hm k, hashmap_entry_remove hm r)"
    using r(1) hm_abs_present(1) [OF tok p] cell_unat [OF r(2)] by (simp add: hashmap_remove_def)
  then show thesis using that hashmap_entry_remove_ok [OF ok half p r(2)] Some by simp
qed

section \<open>Sequences of operations\<close>

datatype ('k, 'v) map_op = Get 'k | Put 'k 'v | Remove 'k

text \<open>The results of a sequence of operations on a map, and on a store with operations to look up, insert and delete.\<close>

primrec spec_run :: "('k \<rightharpoonup> 'v) \<Rightarrow> ('k, 'v) map_op list \<Rightarrow> 'v option list \<times> ('k \<rightharpoonup> 'v)" where
  "spec_run m [] = ([], m)"
| "spec_run m (x # ops) =
     (let (v, m') = (case x of
          Get k \<Rightarrow> (m k, m)
        | Put k d \<Rightarrow> (case m k of Some d' \<Rightarrow> (Some d', m) | None \<Rightarrow> (Some d, m(k \<mapsto> d)))
        | Remove k \<Rightarrow> (m k, m(k := None)));
          (vs, m'') = spec_run m' ops
      in (v # vs, m''))"

primrec store_run ::
  "('s \<Rightarrow> 'k \<Rightarrow> 'v option) \<Rightarrow> ('s \<Rightarrow> 'k \<Rightarrow> 'v \<Rightarrow> ('v option \<times> 's) option) \<Rightarrow> ('s \<Rightarrow> 'k \<Rightarrow> 'v option \<times> 's)
    \<Rightarrow> 's \<Rightarrow> ('k, 'v) map_op list \<Rightarrow> ('v option list \<times> 's) option" where
  "store_run get ins del s [] = Some ([], s)"
| "store_run get ins del s (x # ops) =
     do {
       (v, s') \<leftarrow> (case x of Get k \<Rightarrow> Some (get s k, s) | Put k d \<Rightarrow> ins s k d | Remove k \<Rightarrow> Some (del s k));
       (vs, s'') \<leftarrow> store_run get ins del s' ops;
       Some (v # vs, s'')
     }"

text \<open>The map has room for every key that is put into it.\<close>

primrec fits :: "nat \<Rightarrow> ('k \<rightharpoonup> 'v) \<Rightarrow> ('k, 'v) map_op list \<Rightarrow> bool" where
  "fits cap m [] \<longleftrightarrow> True"
| "fits cap m (x # ops) \<longleftrightarrow>
     (case x of Put k d \<Rightarrow> card (dom m) < cap | _ \<Rightarrow> True) \<and> fits cap (snd (spec_run m [x])) ops"

text \<open>A store that keeps at most \<open>cap\<close> keys, without further memory.\<close>

locale bounded_map =
  fixes ok :: "'s \<Rightarrow> bool" and absf :: "'s \<Rightarrow> 'k \<rightharpoonup> 'v" and cap :: "'s \<Rightarrow> nat"
    and get :: "'s \<Rightarrow> 'k \<Rightarrow> 'v option" and ins :: "'s \<Rightarrow> 'k \<Rightarrow> 'v \<Rightarrow> ('v option \<times> 's) option"
    and del :: "'s \<Rightarrow> 'k \<Rightarrow> 'v option \<times> 's"
  assumes finite_dom: "ok s \<Longrightarrow> finite (dom (absf s))"
    and get_ok: "ok s \<Longrightarrow> get s k = absf s k"
    and ins_ok: "ok s \<Longrightarrow> card (dom (absf s)) < cap s \<Longrightarrow>
      \<exists>s'. ins s k d = Some (Some (case absf s k of Some d' \<Rightarrow> d' | None \<Rightarrow> d), s') \<and> ok s' \<and> cap s' = cap s \<and>
        absf s' = (case absf s k of Some d' \<Rightarrow> absf s | None \<Rightarrow> (absf s)(k \<mapsto> d))"
    and del_ok: "ok s \<Longrightarrow> card (dom (absf s)) \<le> cap s \<Longrightarrow>
      \<exists>s'. del s k = (absf s k, s') \<and> ok s' \<and> cap s' = cap s \<and> absf s' = (absf s)(k := None)"
begin

lemma run_refines:
  assumes "ok s" and "card (dom (absf s)) \<le> cap s" and "fits (cap s) (absf s) ops"
  shows "\<exists>s'. store_run get ins del s ops = Some (fst (spec_run (absf s) ops), s') \<and> ok s' \<and>
    absf s' = snd (spec_run (absf s) ops)"
  using assms
proof (induction ops arbitrary: s)
  case (Cons x ops)
  let ?r = "spec_run (absf s) [x]"
  have "\<exists>s'. (case x of Get k \<Rightarrow> Some (get s k, s) | Put k d \<Rightarrow> ins s k d | Remove k \<Rightarrow> Some (del s k)) =
      Some (hd (fst ?r), s') \<and> ok s' \<and> cap s' = cap s \<and> absf s' = snd ?r \<and> card (dom (absf s')) \<le> cap s"
  proof (cases x)
    case (Get k)
    then show ?thesis using Cons.prems get_ok by simp
  next
    case (Put k d)
    then have "card (dom (absf s)) < cap s" using Cons.prems(3) by simp
    then obtain s' where s': "ins s k d = Some (Some (case absf s k of Some d' \<Rightarrow> d' | None \<Rightarrow> d), s')" "ok s'"
        "cap s' = cap s" "absf s' = (case absf s k of Some d' \<Rightarrow> absf s | None \<Rightarrow> (absf s)(k \<mapsto> d))"
      using ins_ok [OF Cons.prems(1)] by blast
    moreover have "card (dom (absf s')) \<le> Suc (card (dom (absf s)))"
      using s'(4) card_insert_le_m1 [of "Suc (card (dom (absf s)))" "dom (absf s)" k]
      by (auto split: option.splits)
    ultimately show ?thesis using Put \<open>card (dom (absf s)) < cap s\<close> by (auto split: option.splits)
  next
    case (Remove k)
    then obtain s' where s': "del s k = (absf s k, s')" "ok s'" "cap s' = cap s" "absf s' = (absf s)(k := None)"
      using del_ok [OF Cons.prems(1,2)] by blast
    moreover have "card (dom (absf s')) \<le> card (dom (absf s))"
      unfolding s'(4) by (rule card_mono [OF finite_dom [OF Cons.prems(1)]]) auto
    ultimately show ?thesis using Remove Cons.prems(2) by auto
  qed
  then obtain s' where s': "(case x of Get k \<Rightarrow> Some (get s k, s) | Put k d \<Rightarrow> ins s k d | Remove k \<Rightarrow> Some (del s k)) =
      Some (hd (fst ?r), s')" "ok s'" "cap s' = cap s" "absf s' = snd ?r" "card (dom (absf s')) \<le> cap s"
    by blast
  obtain s'' where "store_run get ins del s' ops = Some (fst (spec_run (absf s') ops), s'')" "ok s''"
      "absf s'' = snd (spec_run (absf s') ops)"
    using Cons.IH [OF s'(2)] s'(3-5) Cons.prems(3) by auto
  moreover have "spec_run (absf s) (x # ops) =
      (hd (fst ?r) # fst (spec_run (snd ?r) ops), snd (spec_run (snd ?r) ops))"
    by (simp add: split_beta Let_def)
  ultimately show ?case using s'(1,4) by (intro exI [of _ s'']) simp
qed simp

end

text \<open>The keys of a table are the domain of its map.\<close>

lemma card_dom_abs:
  assumes "tbl_ok hm"
  shows "finite (dom (hm_abs hm))" and "card (dom (hm_abs hm)) \<le> occupied (table hm)" and "occupied (table hm) \<le> card (dom (hm_abs hm))"
proof -
  note okD = tbl_okD [OF assms]
  let ?I = "{i. i < length (table hm) \<and> entry_key (table hm ! i) \<noteq> None}"
  let ?f = "\<lambda>i. the (entry_key (table hm ! i))"
  have dom: "dom (hm_abs hm) = ?f ` ?I"
  proof (intro set_eqI iffI)
    fix k assume "k \<in> dom (hm_abs hm)"
    then obtain p where p: "key_at (table hm) p = Some k" using hm_abs_absent [OF assms, of k] by auto
    then show "k \<in> ?f ` ?I"
      using pos_bound [OF okD(6), of p] by (intro image_eqI [of _ _ "nat (p mod int (length (table hm)))"]) (auto simp: key_at_def cell_def)
  next
    fix k assume "k \<in> ?f ` ?I"
    then obtain i where "i < length (table hm)" "entry_key (table hm ! i) = Some k" by auto
    then have "key_at (table hm) (int i) = Some k" by (simp add: key_at_def cell_nat)
    then show "k \<in> dom (hm_abs hm)" using hm_abs_present(2) [OF assms] by auto
  qed
  have "inj_on ?f ?I"
  proof (rule inj_onI)
    fix i j assume a: "i \<in> ?I" "j \<in> ?I" "?f i = ?f j"
    then obtain k where "key_at (table hm) (int i) = Some k" "key_at (table hm) (int j) = Some k"
      by (auto simp: key_at_def cell_nat)
    then have "int i mod int (length (table hm)) = int j mod int (length (table hm))"
      using okD(4) unfolding distinct_keys_def by blast
    then show "i = j" using a by simp
  qed
  then have "card (dom (hm_abs hm)) = occupied (table hm)" by (simp add: dom card_image occupied_card)
  then show "card (dom (hm_abs hm)) \<le> occupied (table hm)" "occupied (table hm) \<le> card (dom (hm_abs hm))" by simp_all
  show "finite (dom (hm_abs hm))" unfolding dom by simp
qed

section \<open>The table as a bounded map\<close>

lemma rehash_loop_key_alloc: "rehash_loop es hm = Some (Some hm') \<Longrightarrow> key_alloc hm' = key_alloc hm"
  by (induction es arbitrary: hm) (auto simp: set_entry_def split: option.splits bind_splits)

lemma rehash_key_alloc: "hashmap_rehash alloc hm n = Some (rc, hm') \<Longrightarrow> key_alloc hm' = key_alloc hm"
  by (auto simp: hashmap_rehash_def dest!: rehash_loop_key_alloc split: option.splits bind_splits if_splits)

lemma put_entry_key_alloc: "put_entry hm r k d = (v, hm') \<Longrightarrow> key_alloc hm' = key_alloc hm"
  by (auto simp: put_entry_def Let_def set_entry_def split: option.splits if_splits)

lemma put_again_key_alloc: "put_again alloc hm k d = Some (v, hm') \<Longrightarrow> key_alloc hm' = key_alloc hm"
  by (auto simp: put_again_def dest!: rehash_key_alloc put_entry_key_alloc split: option.splits bind_splits if_splits)

lemma hashmap_put_key_alloc: "hashmap_put a1 a2 hm k d = Some (v, hm') \<Longrightarrow> key_alloc hm' = key_alloc hm"
  by (auto simp: hashmap_put_def dest!: rehash_key_alloc put_entry_key_alloc put_again_key_alloc
      split: option.splits bind_splits if_splits)

lemma entry_remove_loop_key_alloc: "key_alloc (fst (entry_remove_loop n hm r i)) = key_alloc hm"
  by (induction n arbitrary: hm r i) (auto simp: Let_def set_entry_def split: option.splits)

lemma hashmap_remove_key_alloc: "key_alloc (snd (hashmap_remove hm k)) = key_alloc hm"
  by (auto simp: hashmap_remove_def hashmap_entry_remove_def Let_def split_beta set_entry_def
      entry_remove_loop_key_alloc free_key_def split: option.splits)

text \<open>A table that stores the keys as they are and is not too large to be doubled twice.\<close>

definition plain_ok :: "('k, 'v) hashmap \<Rightarrow> bool" where
  "plain_ok hm \<longleftrightarrow> hm_ok hm \<and> key_alloc hm = None \<and> length (table hm) \<le> 2 ^ 29"

definition hashmap_run ::
  "bool \<Rightarrow> bool \<Rightarrow> ('k, 'v) hashmap \<Rightarrow> ('k, 'v) map_op list \<Rightarrow> ('v option list \<times> ('k, 'v) hashmap) option" where
  "hashmap_run a1 a2 = store_run hashmap_get (\<lambda>hm k d. hashmap_put a1 a2 hm k (Some d)) hashmap_remove"

lemma hm_ok_length: "hm_ok hm \<Longrightarrow> length (table hm) = unat (table_size hm)"
  by (simp add: hm_ok_def tbl_ok_def size_ok_def)

interpretation hmb: bounded_map plain_ok hm_abs "\<lambda>hm. length (table hm) div 2" hashmap_get
  "\<lambda>hm k d. hashmap_put a1 a2 hm k (Some d)" hashmap_remove
proof unfold_locales
  fix hm :: "('k, 'v) hashmap" and k :: 'k and d :: 'v
  assume "plain_ok hm"
  then have ok: "hm_ok hm" and alloc: "key_alloc hm = None" and size: "length (table hm) \<le> 2 ^ 29"
    by (simp_all add: plain_ok_def)
  note tok = hm_okD(1) [OF ok]
  show "finite (dom (hm_abs hm))" by (rule card_dom_abs(1) [OF tok])
  show "hashmap_get hm k = hm_abs hm k" by (rule hashmap_get_abs [OF tok])
  {
    assume "card (dom (hm_abs hm)) < length (table hm) div 2"
    then have room: "2 * occupied (table hm) < length (table hm)" using card_dom_abs(3) [OF tok] by simp
    obtain v hm' where put: "hashmap_put a1 a2 hm k (Some d) = Some (v, hm')" "hm_ok hm'" "table_size hm' = table_size hm"
        "case hm_abs hm k of Some d' \<Rightarrow> v = Some d' \<and> hm_abs hm' = hm_abs hm
          | None \<Rightarrow> v = Some d \<and> hm_abs hm' = (hm_abs hm)(k \<mapsto> d)"
    proof (cases "hm_abs hm k")
      case None
      then show thesis using that hashmap_put_ok [OF ok size, of a1 a2 k d] room alloc by (fastforce simp: key_copied_def)
    next
      case (Some d')
      then show thesis using that hashmap_put_ok [OF ok size, of a1 a2 k d] room by fastforce
    qed
    then have "plain_ok hm'" "length (table hm') = length (table hm)"
      using hashmap_put_key_alloc [OF put(1)] alloc size hm_ok_length [OF ok] hm_ok_length [OF put(2)] by (simp_all add: plain_ok_def)
    then show "\<exists>hm'. hashmap_put a1 a2 hm k (Some d) = Some (Some (case hm_abs hm k of Some d' \<Rightarrow> d' | None \<Rightarrow> d), hm') \<and>
        plain_ok hm' \<and> length (table hm') div 2 = length (table hm) div 2 \<and>
        hm_abs hm' = (case hm_abs hm k of Some d' \<Rightarrow> hm_abs hm | None \<Rightarrow> (hm_abs hm)(k \<mapsto> d))"
      using put by (intro exI [of _ hm']) (auto split: option.splits)
  next
    assume "card (dom (hm_abs hm)) \<le> length (table hm) div 2"
    then have half: "2 * occupied (table hm) \<le> length (table hm)" using card_dom_abs(3) [OF tok] by simp
    obtain hm' where rm: "hashmap_remove hm k = (hm_abs hm k, hm')" "hm_ok hm'" "hm_abs hm' = (hm_abs hm)(k := None)"
        "table_size hm' = table_size hm"
      using hashmap_remove_ok [OF ok half] by metis
    then have "plain_ok hm'" "length (table hm') = length (table hm)"
      using hashmap_remove_key_alloc [of hm k] alloc size hm_ok_length [OF ok] hm_ok_length [OF rm(2)] by (simp_all add: plain_ok_def)
    then show "\<exists>hm'. hashmap_remove hm k = (hm_abs hm k, hm') \<and> plain_ok hm' \<and>
        length (table hm') div 2 = length (table hm) div 2 \<and> hm_abs hm' = (hm_abs hm)(k := None)"
      using rm by auto
  }
qed

section \<open>The size of a table\<close>

lemma push_bit_pow: "push_bit 1 (2 ^ j :: u32) = 2 ^ Suc j"
  by (simp add: push_bit_eq_mult mult.commute)

lemma unat_pow: "j \<le> 31 \<Longrightarrow> unat (2 ^ j :: u32) = 2 ^ j"
  using unat_of_nat [where 'a = 32, of "2 ^ j"] power_strict_increasing [of j 32 "2 :: nat"] by simp

lemma table_size_loop_ok:
  assumes "j \<le> 31" and "unat w \<le> 2 ^ 31"
  shows "\<exists>i. j \<le> i \<and> i \<le> 31 \<and> table_size_loop w (2 ^ j) = Some (2 ^ i) \<and> unat w \<le> 2 ^ i \<and> (i = j \<or> 2 ^ (i - 1) < unat w)"
  using assms(1)
proof (induction "31 - j" arbitrary: j)
  case 0
  then have "j = 31" by simp
  then show ?case using assms(2) unat_pow [of 31]
    by (intro exI [of _ 31]) (simp add: table_size_loop.simps word_less_nat_alt)
next
  case (Suc n)
  show ?case
  proof (cases "2 ^ j < w")
    case True
    then have lt: "2 ^ j < unat w" using unat_pow [OF Suc.prems] by (simp add: word_less_nat_alt)
    obtain i where i: "Suc j \<le> i" "i \<le> 31" "table_size_loop w (2 ^ Suc j) = Some (2 ^ i)" "unat w \<le> 2 ^ i"
        "i = Suc j \<or> 2 ^ (i - 1) < unat w"
    proof -
      have "n = 31 - Suc j" "Suc j \<le> 31" using Suc.hyps(2) by simp_all
      from Suc.hyps(1) [OF this] show thesis using that by blast
    qed
    moreover have "table_size_loop w (2 ^ j) = table_size_loop w (2 ^ Suc j)"
      using True by (subst table_size_loop.simps) (simp only: push_bit_pow if_True)
    ultimately show ?thesis using lt by (intro exI [of _ i]) auto
  next
    case False
    then have "unat w \<le> 2 ^ j" using unat_pow [OF Suc.prems] by (simp add: word_less_nat_alt not_less)
    then show ?thesis using False Suc.prems by (intro exI [of _ j]) (simp add: table_size_loop.simps)
  qed
qed

text \<open>If no power of two is large enough, the loop does not end.\<close>

lemma table_size_loop_None:
  assumes "2 ^ 31 < w"
  shows "table_size_loop w (2 ^ j) = None"
proof -
  have "\<not> (w = u \<and> (\<exists>j. x = 2 ^ j))" if "table_size_loop u x = Some y" for u x y
    using that
  proof (rule table_size_loop.raw_induct [rotated])
    fix f u x y
    assume IH: "\<And>u x y. f u x = Some y \<Longrightarrow> \<not> (w = u \<and> (\<exists>j. x = 2 ^ j))"
      and eq: "(if x < u then f u (push_bit 1 x) else Some x) = Some y"
    show "\<not> (w = u \<and> (\<exists>j. x = 2 ^ j))"
    proof
      assume "w = u \<and> (\<exists>j. x = 2 ^ j)"
      then obtain j where u: "u = w" and j: "x = 2 ^ j" by blast
      have "x \<le> 2 ^ 31"
      proof (cases "j \<le> 31")
        case True
        then have "unat x \<le> unat (2 ^ 31 :: u32)" 
          unfolding j unat_pow [OF True] unat_pow [OF order_refl] using True by (intro power_increasing) simp_all
        then show ?thesis by (simp add: word_le_nat_alt)
      next
        case False
        then have "x = 0" unfolding j by (intro exp_eq_zero_iff [THEN iffD2]) simp
        then show ?thesis by simp
      qed
      then have "x < u" using assms u by simp
      then have "f u (2 ^ Suc j) = Some y" using eq by (simp only: if_True j push_bit_pow)
      then show False using IH [of u "2 ^ Suc j" y] u by blast
    qed
  qed
  then show ?thesis by fastforce
qed

lemma min_size_calc_unat:
  "unat n \<le> 3221225471 \<Longrightarrow> unat (hashmap_table_min_size_calc n) = unat n + unat n div 3"
  by (simp add: hashmap_table_min_size_calc_def unat_word_ariths unat_div_distrib)

lemma hashmap_table_size_calc_ok:
  assumes "unat n \<le> 1610612736"
  shows "\<exists>i. 5 \<le> i \<and> i \<le> 31 \<and> hashmap_table_size_calc n = Some (2 ^ i) \<and> unat n + unat n div 3 \<le> 2 ^ i \<and>
    (i = 5 \<or> 2 ^ (i - 1) < unat n + unat n div 3)"
proof -
  have u: "unat (hashmap_table_min_size_calc n) = unat n + unat n div 3" using assms by (intro min_size_calc_unat) simp
  have "HASHMAP_SIZE_MIN = 2 ^ 5" by (simp add: HASHMAP_SIZE_MIN_def push_bit_eq_mult)
  then show ?thesis
    using table_size_loop_ok [of 5 "hashmap_table_min_size_calc n"] assms unfolding u hashmap_table_size_calc_def by auto
qed

lemma hashmap_table_size_calc_None:
  assumes "1610612736 < unat n" and "unat n \<le> 3221225471"
  shows "hashmap_table_size_calc n = None"
proof -
  have "2 ^ 31 < unat (hashmap_table_min_size_calc n)" using assms min_size_calc_unat [OF assms(2)] by simp
  then have "2 ^ 31 < hashmap_table_min_size_calc n" using unat_pow [of 31] by (simp add: word_less_nat_alt)
  from table_size_loop_None [OF this, of 5] show ?thesis
    by (simp add: hashmap_table_size_calc_def HASHMAP_SIZE_MIN_def push_bit_eq_mult)
qed

text \<open>An empty table.\<close>

lemma empty_table_ok:
  assumes "size_ok hm" and "keys_ok hm" and "table hm = replicate n zero_entry" and "num_entries hm = 0"
  shows "hm_ok hm" and "hm_abs hm = Map.empty"
proof -
  have "0 < length (table hm)" by (rule size_ok_pos [OF assms(1)])
  then have empty: "key_at (table hm) p = None" for p
    using cell_in_set [of "table hm" p] assms(3) by (auto simp: key_at_def zero_entry_def)
  have tok: "tbl_ok hm"
    using assms empty by (auto simp: tbl_ok_def path_ok_def distinct_keys_def data_ok_def zero_entry_def)
  moreover have "occupied (table hm) = 0" by (simp add: occupied_def assms(3) zero_entry_def)
  ultimately show "hm_ok hm" using assms(4) by (simp add: hm_ok_def)
  show "hm_abs hm = Map.empty" by (rule ext) (use hm_abs_absent [OF tok] empty in simp)
qed

section \<open>Freeing the keys\<close>

text \<open>The keys of a table from slot \<open>i\<close> on, in the order of the slots.\<close>

definition keys_from :: "('k, 'v) hashmap \<Rightarrow> nat \<Rightarrow> 'k list" where
  "keys_from hm i = List.map_filter entry_key (drop i (table hm))"

lemma get_populated_cases:
  assumes "length (table hm) = unat (table_size hm)"
  shows "(case hashmap_entry_get_populated hm i of
       None \<Rightarrow> keys_from hm i = []
     | Some j \<Rightarrow> i \<le> j \<and> j < length (table hm) \<and> entry_key (table hm ! j) \<noteq> None \<and>
         keys_from hm i = the (entry_key (table hm ! j)) # keys_from hm (j + 1))"
proof (cases "i < length (table hm)")
  case True
  then show ?thesis
  proof (induction "length (table hm) - i" arbitrary: i)
    case (Suc n)
    have d: "drop i (table hm) = table hm ! i # drop (Suc i) (table hm)" using Suc.prems by (simp add: Cons_nth_drop_Suc)
    show ?case
    proof (cases "entry_key (table hm ! i)")
      case (Some k)
      have "hashmap_entry_get_populated hm i = Some i"
        using Suc.prems Some assms by (simp add: hashmap_entry_get_populated_def for_find_step)
      moreover have "keys_from hm i = k # keys_from hm (i + 1)" using Some d by (simp add: keys_from_def map_filter_simps)
      ultimately show ?thesis using Some Suc.prems by simp
    next
      case None
      have step: "hashmap_entry_get_populated hm i = hashmap_entry_get_populated hm (Suc i)"
        using Suc.prems None assms by (simp add: hashmap_entry_get_populated_def for_find_step)
      have keys: "keys_from hm i = keys_from hm (Suc i)" using None d by (simp add: keys_from_def map_filter_simps)
      show ?thesis
      proof (cases "Suc i < length (table hm)")
        case True
        moreover have "n = length (table hm) - Suc i" using Suc.hyps(2) by simp
        ultimately show ?thesis using Suc.hyps(1) [of "Suc i"] unfolding step keys by (auto split: option.splits)
      next
        case False
        then have "hashmap_entry_get_populated hm (Suc i) = None" "keys_from hm (Suc i) = []"
          using assms by (simp_all add: hashmap_entry_get_populated_def for_find_end keys_from_def map_filter_simps)
        then show ?thesis unfolding step keys by simp
      qed
    qed
  qed simp
next
  case False
  then show ?thesis using assms by (simp add: hashmap_entry_get_populated_def for_find_end keys_from_def map_filter_simps)
qed

lemma free_keys_loop_ok:
  assumes "length (table hm) = unat (table_size hm)" and "key_free hm"
  shows "free_keys_loop hm (hashmap_entry_get_populated hm i) = Some (hm\<lparr>freed := freed hm @ keys_from hm i\<rparr>)"
  using assms
proof (induction "length (table hm) - i" arbitrary: hm i rule: less_induct)
  case less
  note c = get_populated_cases [OF less.prems(1), of i]
  show ?case
  proof (cases "hashmap_entry_get_populated hm i")
    case None
    then show ?thesis using c by (simp add: free_keys_loop.simps)
  next
    case (Some j)
    with c obtain k where j: "i \<le> j" "j < length (table hm)" "entry_key (table hm ! j) = Some k"
        "keys_from hm i = k # keys_from hm (j + 1)" by auto
    define hm1 where "hm1 = hm\<lparr>freed := freed hm @ [k]\<rparr>"
    have same: "hashmap_entry_get_populated hm1 = hashmap_entry_get_populated hm" "keys_from hm1 = keys_from hm"
      by (simp_all add: hm1_def fun_eq_iff hashmap_entry_get_populated_def keys_from_def)
    have "free_keys_loop hm1 (hashmap_entry_get_populated hm1 (j + 1)) = Some (hm1\<lparr>freed := freed hm1 @ keys_from hm1 (j + 1)\<rparr>)"
      by (rule less.hyps) (use j less.prems in \<open>auto simp: hm1_def\<close>)
    moreover have "free_keys_loop hm (Some j) = free_keys_loop hm1 (hashmap_entry_get_populated hm (j + 1))"
      using j(3) less.prems(2)
      by (subst free_keys_loop.simps) (simp add: hashmap_iter_get_key_def hashmap_iter_next_def free_key_def hm1_def)
    ultimately show ?thesis using Some j(4) unfolding same by (simp add: hm1_def)
  qed
qed

lemma hashmap_free_keys_ok:
  assumes "hm_ok hm"
  shows "hashmap_free_keys hm = Some (hm\<lparr>freed := freed hm @ (if key_free hm then keys_from hm 0 else [])\<rparr>)"
proof (cases "key_free hm")
  case True
  have len: "length (table hm) = unat (table_size hm)" by (rule hm_ok_length [OF assms])
  show ?thesis
  proof (cases "num_entries hm = 0")
    case zero: True
    then have "\<forall>e \<in> set (table hm). entry_key e = None"
      using hm_okD(2) [OF assms] by (simp add: occupied_def filter_empty_conv)
    then have "keys_from hm 0 = []" by (simp add: keys_from_def map_filter_def filter_empty_conv)
    then show ?thesis using True zero by (simp add: hashmap_free_keys_def hashmap_iter_def free_keys_loop.simps)
  next
    case False
    then show ?thesis using True free_keys_loop_ok [OF len True, of 0] by (simp add: hashmap_free_keys_def hashmap_iter_def)
  qed
qed (simp add: hashmap_free_keys_def)

section \<open>Keys that are strings or integers\<close>

lemma hash_string_loop_cstr:
  "cstr m p xs \<Longrightarrow> hash_string_loop f m p h = Some (fold (\<lambda>x h. hash_step h (f x)) xs h)"
  by (induction xs arbitrary: p h) (simp_all add: hash_string_loop.simps)

lemma hashmap_hash_string_cstr:
  "cstr m p xs \<Longrightarrow> hashmap_hash_string m p = Some (hash_finish (fold (\<lambda>x h. hash_step h (scast x)) xs 0))"
  by (simp add: hashmap_hash_string_def hash_string_loop_cstr)

lemma compare_uint32_0: "hashmap_compare_uint32 a b = 0 \<longleftrightarrow> a = b"
proof -
  have "a - b = 0" if "sint (a - b) = 0" using that uint_sint [of "a - b"] by (simp add: uint_0_iff)
  then show ?thesis by (auto simp: hashmap_compare_uint32_def)
qed

section \<open>The properties\<close>

lemma fits_mono: "fits c m ops \<Longrightarrow> c \<le> c' \<Longrightarrow> fits c' m ops"
  by (induction ops arbitrary: m) (auto split: map_op.splits)

lemma get_abs: "hm_ok hm \<Longrightarrow> hashmap_get hm = hm_abs hm"
  by (rule ext) (rule hashmap_get_abs [OF hm_okD(1)])

text \<open>The table that \<open>hashmap_init\<close> makes.\<close>

lemma hashmap_init_ok:
  assumes "\<And>a b. cf a b = 0 \<longleftrightarrow> a = b" and "0 < unat n" and "unat n \<le> 402653184"
  obtains hm i where "hashmap_init True hm0 hf cf n = Some (0, hm)" "plain_ok hm" "hm_abs hm = Map.empty"
    "unat n + unat n div 3 \<le> length (table hm)" "table_size hm = 2 ^ i" "5 \<le> i" "i \<le> 29"
proof -
  obtain i where i: "5 \<le> i" "i \<le> 31" "hashmap_table_size_calc n = Some (2 ^ i)" "unat n + unat n div 3 \<le> 2 ^ i"
      "i = 5 \<or> 2 ^ (i - 1) < unat n + unat n div 3"
    using hashmap_table_size_calc_ok [of n] assms(3) by auto
  have i29: "i \<le> 29"
  proof (rule ccontr)
    assume "\<not> i \<le> 29"
    then have "(2 :: nat) ^ 29 \<le> 2 ^ (i - 1)" by (intro power_increasing) simp_all
    then show False using i(5) \<open>\<not> i \<le> 29\<close> assms(3) by auto
  qed
  define hm where "hm = hm0\<lparr>table_size_init := 2 ^ i, table_size := 2 ^ i, num_entries := 0,
    table := replicate (unat (2 ^ i :: u32)) zero_entry, hash := hf, key_compare := cf, key_alloc := None, key_free := False\<rparr>"
  have "n \<noteq> 0" using assms(2) by auto
  then have init: "hashmap_init True hm0 hf cf n = Some (0, hm)" using i(3) by (simp add: hashmap_init_def hm_def)
  have u: "unat (2 ^ i :: u32) = 2 ^ i" by (rule unat_pow [OF i(2)])
  have "(2 :: nat) ^ i \<le> 2 ^ 29" using i29 by (intro power_increasing) simp_all
  moreover have "size_ok hm" using i(1,2) u by (auto simp: size_ok_def hm_def)
  moreover have "keys_ok hm" using assms(1) by (simp add: keys_ok_def hm_def)
  moreover note empty_table_ok [OF calculation(2,3), of "unat (2 ^ i :: u32)"]
  ultimately show thesis using that [OF init _ _ _ _ i(1) i29] i(4) u by (simp add: plain_ok_def hm_def)
qed

text \<open>A put into the hash table, with the growth of the table it may start, returns the data of a key that is already
  there and changes nothing, or enters the key and leaves all others as they were; it fails without a change, and only if
  the key is not copied, or the table is at least half full and one of two allocations fails.\<close>

theorem hashmap_put_correct:
  assumes "hm_ok hm" and "length (table hm) \<le> 2 ^ 29"
  shows "\<exists>v hm'. hashmap_put alloc1 alloc2 hm k (Some d) = Some (v, hm') \<and> hm_ok hm' \<and>
    (case hashmap_get hm k of
       Some d' \<Rightarrow> v = Some d' \<and> hashmap_get hm' = hashmap_get hm
     | None \<Rightarrow> (v = Some d \<and> hashmap_get hm' = (hashmap_get hm)(k \<mapsto> d) \<or> v = None \<and> hashmap_get hm' = hashmap_get hm) \<and>
         (key_copied hm k \<and> (alloc1 \<and> alloc2 \<or> 2 * unat (hashmap_size hm) < length (table hm)) \<longrightarrow> v = Some d))"
proof -
  obtain v hm' where put: "hashmap_put alloc1 alloc2 hm k (Some d) = Some (v, hm')" "hm_ok hm'"
    "case hm_abs hm k of
       Some d' \<Rightarrow> v = Some d' \<and> hm_abs hm' = hm_abs hm
     | None \<Rightarrow> (v = Some d \<and> hm_abs hm' = (hm_abs hm)(k \<mapsto> d) \<or> v = None \<and> hm_abs hm' = hm_abs hm) \<and>
         (key_copied hm k \<and> (alloc1 \<and> alloc2 \<or> 2 * occupied (table hm) < length (table hm)) \<longrightarrow> v = Some d)"
    using hashmap_put_ok [OF assms, of alloc1 alloc2 k d] by blast
  then show ?thesis
    unfolding get_abs [OF assms(1)] hashmap_size_def hm_okD(2) [OF assms(1)] using get_abs [OF put(2)] by metis
qed

text \<open>An empty table with 32 slots for integer keys.\<close>

definition hm_example :: "(u32, u32) hashmap" where
  "hm_example = \<lparr>table_size_init = 32, table_size = 32, num_entries = 0, table = replicate 32 zero_entry,
     hash = hashmap_hash_uint32, key_compare = hashmap_compare_uint32, key_alloc = None, key_free = False, freed = []\<rparr>"

lemma hm_example_ok: "hm_ok hm_example" "hm_abs hm_example = Map.empty"
proof -
  have "size_ok hm_example" by (auto simp: size_ok_def hm_example_def intro: exI [of _ 5])
  moreover have "keys_ok hm_example" by (simp add: keys_ok_def hm_example_def compare_uint32_0)
  ultimately show "hm_ok hm_example" "hm_abs hm_example = Map.empty"
    using empty_table_ok [of hm_example 32] by (simp_all add: hm_example_def)
qed

theorem hashmap_put_correct_witness:
  "\<exists>hm'. hashmap_put False False hm_example 33 (Some 7) = Some (Some 7, hm') \<and> hashmap_get hm' 33 = Some 7 \<and>
    hashmap_get hm' 1 = None"
proof -
  have get: "hashmap_get hm_example = Map.empty" using get_abs [OF hm_example_ok(1)] hm_example_ok(2) by simp
  have "key_copied hm_example 33" "2 * unat (hashmap_size hm_example) < length (table hm_example)"
    by (simp_all add: key_copied_def hm_example_def hashmap_size_def)
  moreover have "length (table hm_example) \<le> 2 ^ 29" by (simp add: hm_example_def)
  ultimately show ?thesis using hashmap_put_correct [OF hm_example_ok(1), of False False 33 7] get by auto
qed

text \<open>C12: A fresh table for \<open>n\<close> entries answers every sequence of lookups, puts and removals like a finite map, as long as
  at most two thirds of \<open>n\<close> keys are in it at a time; no further allocation is needed for this.\<close>

theorem hashmap_sequence_correct:
  assumes "\<forall>a b. cf a b = 0 \<longleftrightarrow> a = b" and "0 < unat n" and "unat n \<le> 402653184"
    and "fits ((unat n + unat n div 3) div 2) Map.empty ops"
  shows "\<exists>hm hm'. hashmap_init True hm0 hf cf n = Some (0, hm) \<and>
    hashmap_run alloc1 alloc2 hm ops = Some (fst (spec_run Map.empty ops), hm') \<and>
    hashmap_get hm' = snd (spec_run Map.empty ops)"
proof -
  obtain hm i where hm: "hashmap_init True hm0 hf cf n = Some (0, hm)" "plain_ok hm" "hm_abs hm = Map.empty"
    "unat n + unat n div 3 \<le> length (table hm)"
    using hashmap_init_ok [OF _ assms(2,3), of cf hm0 hf] assms(1) by metis
  have "fits (length (table hm) div 2) (hm_abs hm) ops"
    unfolding hm(3) by (rule fits_mono [OF assms(4)]) (rule div_le_mono [OF hm(4)])
  then obtain hm' where "hashmap_run alloc1 alloc2 hm ops = Some (fst (spec_run Map.empty ops), hm')" "plain_ok hm'"
      "hm_abs hm' = snd (spec_run Map.empty ops)"
    using hmb.run_refines [OF hm(2), of ops alloc1 alloc2] hm(3) by (auto simp: hashmap_run_def)
  then show ?thesis using hm(1) get_abs [of hm'] by (auto simp: plain_ok_def)
qed

theorem hashmap_sequence_correct_witness:
  "\<exists>hm hm'. hashmap_init True hm_example hashmap_hash_uint32 hashmap_compare_uint32 24 = Some (0, hm) \<and>
    hashmap_run False False hm [Put 1 10, Put 33 20, Remove 1, Get 33, Get 1] =
      Some ([Some 10, Some 20, Some 10, Some 20, None], hm') \<and> hashmap_get hm' 33 = Some (20 :: u32)"
proof -
  let ?ops = "[Put 1 10, Put 33 20, Remove 1, Get 33, Get 1] :: (u32, u32) map_op list"
  have "fits ((unat (24 :: u32) + unat (24 :: u32) div 3) div 2) Map.empty ?ops" by simp
  from hashmap_sequence_correct [OF _ _ _ this, of hashmap_compare_uint32 hm_example hashmap_hash_uint32 False False]
  show ?thesis by (auto simp: compare_uint32_0)
qed

text \<open>The size computed for a table is the least power of two, at least 32, with a load of at most three quarters, for up
  to 1610612736 entries; above that, up to where the sum wraps around, the computation does not end.\<close>

theorem hashmap_table_size_calc_correct:
  "(unat n \<le> 1610612736 \<longrightarrow>
      (\<exists>i. 5 \<le> i \<and> i \<le> 31 \<and> hashmap_table_size_calc n = Some (2 ^ i) \<and> unat n + unat n div 3 \<le> 2 ^ i \<and>
        (i = 5 \<or> 2 ^ (i - 1) < unat n + unat n div 3))) \<and>
   (1610612736 < unat n \<and> unat n \<le> 3221225471 \<longrightarrow> hashmap_table_size_calc n = None)"
  using hashmap_table_size_calc_ok hashmap_table_size_calc_None by blast

theorem hashmap_table_size_calc_correct_witness:
  "(\<exists>i. hashmap_table_size_calc 100 = Some (2 ^ i) \<and> 133 \<le> (2 :: nat) ^ i) \<and> hashmap_table_size_calc 0x70000000 = None"
  using hashmap_table_size_calc_correct [of 100] hashmap_table_size_calc_correct [of "0x70000000"] by auto

text \<open>A removal can lose another key: with the keys 0 to 17 in a table of 32 slots, which is below the load at which the
  table grows, removing the key 0 makes the key 16 unreachable although its entry is still there.\<close>

theorem hashmap_remove_loses_key:
  "let hm = fold (\<lambda>k hm. snd (the (hashmap_put True True hm k (Some k)))) (map of_nat [0..<18]) hm_example
   in hashmap_get hm 16 = Some 16 \<and> hashmap_get (snd (hashmap_remove hm 0)) 16 = None \<and>
     hashmap_size (snd (hashmap_remove hm 0)) = 17"
  by code_simp

end
