(* ===== verification/Message_Queue.thy ===== *)
theory Message_Queue
  imports Files Hashmap_Spec "HOL-Library.Multiset"
begin

text \<open>
  POSIX message queues: \<open>kernel/ipc/message_queue.c\<close> and \<open>kernel/fs/mqueuefs/file.c\<close>, on the scheduler and the hash table.

  The lists of messages, senders and receivers are lists in the order of the links; a waiting thread is an entry
  \<open>(thread, priority)\<close>. A call that has to wait links its entry, sets its thread waiting and gives up the processor: it
  ends as \<open>Blocked\<close>, and \<open>mq_send_resume\<close> or \<open>mq_receive_resume\<close> is what it does when the thread runs again. A result
  \<open>None\<close> is a failed assertion, a null pointer, or an entry that is freed while it is still linked.

  The lemmas show that the queue refines a list of messages in the order of their arrival from which the first message of
  the highest priority is taken, that no message is lost or received twice, and what each branch of the calls does.
\<close>

section \<open>The state\<close>

record mq_attr =
  mq_flags :: u32
  mq_maxmsg :: int
  mq_msgsize :: int
  mq_curmsgs :: int

record mq_message =
  msg_buf :: "u8 list"
  msg_priority :: u32
  msg_size :: u32

type_synonym mq_waiter = "nat \<times> u32"

record message_queue =
  mq_wait :: "wait_queue_entry list"
  messages :: "mq_message list"
  senders :: "mq_waiter list"
  receivers :: "mq_waiter list"
  attr :: "mq_attr option"

definition MAX_NUMBER_OF_MQ_MESSAGES :: int where "MAX_NUMBER_OF_MQ_MESSAGES = 32"

definition MAX_MQ_MESSAGE_SIZE :: int where "MAX_MQ_MESSAGE_SIZE = 512"

section \<open>The operations\<close>

text \<open>The three insertions: in front of the first entry of a lower priority, or at the end.\<close>

primrec mq_insert :: "('a \<Rightarrow> u32) \<Rightarrow> 'a \<Rightarrow> 'a list \<Rightarrow> 'a list" where
  "mq_insert pr x [] = [x]"
| "mq_insert pr x (iter # xs) = (if pr iter < pr x then x # iter # xs else iter # mq_insert pr x xs)"

definition mq_add_message :: "mq_message \<Rightarrow> message_queue \<Rightarrow> message_queue option" where
  "mq_add_message msg mq =
     do {
       a \<leftarrow> attr mq;
       Some (mq\<lparr>messages := mq_insert msg_priority msg (messages mq), attr := Some (a\<lparr>mq_curmsgs := mq_curmsgs a + 1\<rparr>)\<rparr>)
     }"

definition mq_add_sender :: "mq_waiter \<Rightarrow> message_queue \<Rightarrow> message_queue" where
  "mq_add_sender mqs mq = mq\<lparr>senders := mq_insert snd mqs (senders mq)\<rparr>"

definition mq_add_receiver :: "mq_waiter \<Rightarrow> message_queue \<Rightarrow> message_queue" where
  "mq_add_receiver mqr mq = mq\<lparr>receivers := mq_insert snd mqr (receivers mq)\<rparr>"

text \<open>The part of \<open>mq_send\<close> behind the wait.\<close>

definition mq_send_finish :: "u8 list \<Rightarrow> u32 \<Rightarrow> u32 \<Rightarrow> message_queue \<Rightarrow> sched \<Rightarrow> (outcome \<times> message_queue \<times> sched) option" where
  "mq_send_finish user_buf priority msize mq s =
     do {
       a \<leftarrow> attr mq;
       (if \<not> mq_curmsgs a < mq_maxmsg a then None
        else
          do {
            mq \<leftarrow> mq_add_message \<lparr>msg_buf = take (unat msize) user_buf, msg_priority = priority, msg_size = msize\<rparr> mq;
            (mq, s) \<leftarrow>
              (case receivers mq of
                 [] \<Rightarrow> Some (mq, s)
               | mqr # rest \<Rightarrow>
                   if mq_curmsgs a + 1 = 1
                   then map_option (\<lambda>s. (mq\<lparr>receivers := rest\<rparr>, s)) (update_thread (fst mqr) THREAD_READY s)
                   else None);
            s \<leftarrow> wake_up (mq_wait mq) s;
            Some (Ret 0, mq, s)
          })
     }"

text \<open>One round of the waiting loop of \<open>mq_send\<close>: link an entry, wait, give up the processor.\<close>

definition mq_send_wait ::
  "(sched \<Rightarrow> sched option) \<Rightarrow> (sched \<Rightarrow> sched option) list \<Rightarrow> u32 \<Rightarrow> message_queue \<Rightarrow> sched
    \<Rightarrow> (outcome \<times> message_queue \<times> sched) option" where
  "mq_send_wait hs irqs priority mq s =
     do {
       let mq = mq_add_sender (current_thread s, priority) mq;
       s \<leftarrow> update_thread (current_thread s) THREAD_WAITING s;
       s \<leftarrow> schedule hs irqs s;
       Some (Blocked, mq, s)
     }"

text \<open>The test of the loop reads the entry before there is one; since the queue is full it is false all the same.\<close>

definition mq_send ::
  "(sched \<Rightarrow> sched option) \<Rightarrow> (sched \<Rightarrow> sched option) list \<Rightarrow> u32 \<Rightarrow> u8 list \<Rightarrow> u32 \<Rightarrow> u32 \<Rightarrow> message_queue \<Rightarrow> sched
    \<Rightarrow> (outcome \<times> message_queue \<times> sched) option" where
  "mq_send hs irqs fmode user_buf priority msize mq s =
     (if fmode AND FMODE_CAN_WRITE = 0 then Some (Ret (- EBADF), mq, s)
      else
        do {
          a \<leftarrow> attr mq;
          (if word_of_int (mq_msgsize a) < msize then Some (Ret (- EMSGSIZE), mq, s)
           else if \<not> mq_curmsgs a \<le> mq_maxmsg a then None
           else if mq_curmsgs a = mq_maxmsg a then
             if mq_flags a AND O_NONBLOCK = 0 then mq_send_wait hs irqs priority mq s
             else Some (Ret (- EAGAIN), mq, s)
           else mq_send_finish user_buf priority msize mq s)
        })"

text \<open>When the thread runs again: \<open>kfree(mqs)\<close>, then the test of the loop.\<close>

definition mq_send_resume ::
  "(sched \<Rightarrow> sched option) \<Rightarrow> (sched \<Rightarrow> sched option) list \<Rightarrow> u8 list \<Rightarrow> u32 \<Rightarrow> u32 \<Rightarrow> message_queue \<Rightarrow> sched
    \<Rightarrow> (outcome \<times> message_queue \<times> sched) option" where
  "mq_send_resume hs irqs user_buf priority msize mq s =
     (if current_thread s \<in> fst ` set (senders mq) then None
      else
        do {
          a \<leftarrow> attr mq;
          (if mq_curmsgs a < mq_maxmsg a then mq_send_finish user_buf priority msize mq s
           else mq_send_wait hs irqs priority mq s)
        })"

text \<open>
  The part of \<open>mq_receive\<close> behind the wait; the message that is taken off is part of the result. The source copies as many
  bytes as the caller's buffer has, which is the message and, for a shorter message, whatever lies behind it.
\<close>

definition mq_receive_finish :: "message_queue \<Rightarrow> sched \<Rightarrow> (outcome \<times> mq_message option \<times> message_queue \<times> sched) option" where
  "mq_receive_finish mq s =
     do {
       a \<leftarrow> attr mq;
       (case messages mq of
          [] \<Rightarrow> None
        | mqm # rest \<Rightarrow>
            Some (Ret 0, Some mqm, mq\<lparr>messages := rest, attr := Some (a\<lparr>mq_curmsgs := mq_curmsgs a - 1\<rparr>)\<rparr>, s))
     }"

definition mq_receive_wait ::
  "(sched \<Rightarrow> sched option) \<Rightarrow> (sched \<Rightarrow> sched option) list \<Rightarrow> u32 \<Rightarrow> message_queue \<Rightarrow> sched
    \<Rightarrow> (outcome \<times> mq_message option \<times> message_queue \<times> sched) option" where
  "mq_receive_wait hs irqs priority mq s =
     do {
       let mq = mq_add_receiver (current_thread s, priority) mq;
       s \<leftarrow> update_thread (current_thread s) THREAD_WAITING s;
       s \<leftarrow> schedule hs irqs s;
       Some (Blocked, None, mq, s)
     }"

definition mq_receive ::
  "(sched \<Rightarrow> sched option) \<Rightarrow> (sched \<Rightarrow> sched option) list \<Rightarrow> u32 \<Rightarrow> u32 \<Rightarrow> u32 \<Rightarrow> message_queue \<Rightarrow> sched
    \<Rightarrow> (outcome \<times> mq_message option \<times> message_queue \<times> sched) option" where
  "mq_receive hs irqs fmode priority msize mq s =
     (if fmode AND FMODE_CAN_READ = 0 then Some (Ret (- EINVAL), None, mq, s)
      else
        do {
          a \<leftarrow> attr mq;
          (if msize < word_of_int (mq_msgsize a) then Some (Ret (- EMSGSIZE), None, mq, s)
           else if \<not> (0 \<le> mq_curmsgs a \<and> mq_curmsgs a \<le> mq_maxmsg a) then None
           else if mq_curmsgs a = mq_maxmsg a then
             do {
               (mq, s) \<leftarrow>
                 (case senders mq of
                    [] \<Rightarrow> Some (mq, s)
                  | mqs # rest \<Rightarrow>
                      map_option (\<lambda>s. (mq\<lparr>senders := rest\<rparr>, s)) (update_thread (fst mqs) THREAD_READY s));
               mq_receive_finish mq s
             }
           else if mq_curmsgs a = 0 then
             if mq_flags a AND O_NONBLOCK = 0 then mq_receive_wait hs irqs priority mq s
             else Some (Ret (- EAGAIN), None, mq, s)
           else mq_receive_finish mq s)
        })"

definition mq_receive_resume ::
  "(sched \<Rightarrow> sched option) \<Rightarrow> (sched \<Rightarrow> sched option) list \<Rightarrow> u32 \<Rightarrow> message_queue \<Rightarrow> sched
    \<Rightarrow> (outcome \<times> mq_message option \<times> message_queue \<times> sched) option" where
  "mq_receive_resume hs irqs priority mq s =
     (if current_thread s \<in> fst ` set (receivers mq) then None
      else
        do {
          a \<leftarrow> attr mq;
          (if 0 < mq_curmsgs a then mq_receive_finish mq s else mq_receive_wait hs irqs priority mq s)
        })"

text \<open>The calls on a descriptor, whose \<open>private_data\<close> may be null.\<close>

definition mq_send_file ::
  "(sched \<Rightarrow> sched option) \<Rightarrow> (sched \<Rightarrow> sched option) list \<Rightarrow> u32 \<Rightarrow> u8 list \<Rightarrow> u32 \<Rightarrow> u32 \<Rightarrow> message_queue option \<Rightarrow> sched
    \<Rightarrow> (outcome \<times> message_queue option \<times> sched) option" where
  "mq_send_file hs irqs fmode user_buf priority msize private_data s =
     (case private_data of
        None \<Rightarrow> Some (Ret (- EBADF), None, s)
      | Some mq \<Rightarrow> map_option (\<lambda>(oc, mq, s). (oc, Some mq, s)) (mq_send hs irqs fmode user_buf priority msize mq s))"

definition mq_receive_file ::
  "(sched \<Rightarrow> sched option) \<Rightarrow> (sched \<Rightarrow> sched option) list \<Rightarrow> u32 \<Rightarrow> u32 \<Rightarrow> u32 \<Rightarrow> message_queue option \<Rightarrow> sched
    \<Rightarrow> (outcome \<times> mq_message option \<times> message_queue option \<times> sched) option" where
  "mq_receive_file hs irqs fmode priority msize private_data s =
     (case private_data of
        None \<Rightarrow> Some (Ret (- EINVAL), None, None, s)
      | Some mq \<Rightarrow> map_option (\<lambda>(oc, m, mq, s). (oc, m, Some mq, s)) (mq_receive hs irqs fmode priority msize mq s))"

section \<open>Opening and unlinking\<close>

definition defaultdir :: string where "defaultdir = ''/dev/mqueue/''"

text \<open>An absolute name has to start with the directory; the test fails at the terminator of a shorter one.\<close>

definition mq_normalize_path :: "string \<Rightarrow> string option" where
  "mq_normalize_path name =
     (if take 1 name = ''/''
      then if take (length defaultdir) name = defaultdir then Some name else None
      else Some (defaultdir @ name))"

text \<open>The queues by their address, the table from the keys of the inodes to the addresses.\<close>

record mq_system =
  mq_map :: "(u32, nat) hashmap"
  mq_store :: "nat \<Rightarrow> message_queue"

definition mq_new :: message_queue where
  "mq_new = \<lparr>mq_wait = [], messages = [], senders = [], receivers = [], attr = None\<rparr>"

text \<open>\<open>mqueue_file_open\<close>; \<open>a\<close> is the block that \<open>kcalloc\<close> returns, the result the address for \<open>private_data\<close>.\<close>

definition mqueue_file_open :: "bool \<Rightarrow> bool \<Rightarrow> u32 \<Rightarrow> nat \<Rightarrow> mq_system \<Rightarrow> (int \<times> nat option \<times> mq_system) option" where
  "mqueue_file_open alloc1 alloc2 k a sys =
     (case hashmap_get (mq_map sys) k of
        Some mq \<Rightarrow> Some (0, Some mq, sys)
      | None \<Rightarrow>
          do {
            (v, hm) \<leftarrow> hashmap_put alloc1 alloc2 (mq_map sys) k (Some a);
            let sys = sys\<lparr>mq_map := hm, mq_store := (mq_store sys)(a := mq_new)\<rparr>;
            Some (if v = None then (- EINVAL, None, sys) else (0, Some a, sys))
          })"

text \<open>\<open>mq_open\<close> once \<open>vfs_open\<close> has returned the descriptor \<open>ret\<close> of a queue.\<close>

definition mq_open_queue :: "u32 \<Rightarrow> mq_attr option \<Rightarrow> int \<Rightarrow> message_queue \<Rightarrow> (int \<times> message_queue) option" where
  "mq_open_queue flags at ret mq =
     (if flags AND O_CREAT \<noteq> 0 \<and> attr mq = None then
        Some (ret, mq\<lparr>attr := Some \<lparr>mq_flags = flags,
          mq_maxmsg = (case at of Some a \<Rightarrow> mq_maxmsg a | None \<Rightarrow> MAX_NUMBER_OF_MQ_MESSAGES),
          mq_msgsize = (case at of Some a \<Rightarrow> mq_msgsize a | None \<Rightarrow> MAX_MQ_MESSAGE_SIZE), mq_curmsgs = 0\<rparr>\<rparr>)
      else
        (case at of
           None \<Rightarrow> Some (ret, mq)
         | Some a \<Rightarrow>
             do {
               b \<leftarrow> attr mq;
               Some (if mq_maxmsg b \<noteq> mq_maxmsg a \<or> mq_msgsize b \<noteq> mq_msgsize a then - EINVAL else ret, mq)
             }))"

fun wake_all :: "mq_waiter list \<Rightarrow> sched \<Rightarrow> sched option" where
  "wake_all [] s = Some s"
| "wake_all (w # ws) s = Option.bind (update_thread (fst w) THREAD_READY s) (wake_all ws)"

text \<open>\<open>mq_unlink\<close> once the queue with the key \<open>k\<close> is open.\<close>

definition mq_unlink_queue :: "u32 \<Rightarrow> mq_system \<Rightarrow> sched \<Rightarrow> (mq_system \<times> sched) option" where
  "mq_unlink_queue k sys s =
     do {
       a \<leftarrow> hashmap_get (mq_map sys) k;
       let mq = mq_store sys a;
       s \<leftarrow> wake_all (senders mq) s;
       s \<leftarrow> wake_all (receivers mq) s;
       Some (sys\<lparr>mq_map := snd (hashmap_remove (mq_map sys) k),
                 mq_store := (mq_store sys)(a := mq\<lparr>messages := [], senders := [], receivers := []\<rparr>)\<rparr>, s)
     }"

section \<open>The order of messages\<close>

text \<open>\<open>ys\<close> is \<open>xs\<close> by decreasing priority, equal priorities in the order of \<open>xs\<close>.\<close>

definition stable_of :: "('a \<Rightarrow> u32) \<Rightarrow> 'a list \<Rightarrow> 'a list \<Rightarrow> bool" where
  "stable_of pr xs ys \<longleftrightarrow>
     sorted_wrt (\<lambda>a b. pr b \<le> pr a) ys \<and> (\<forall>p. filter (\<lambda>x. pr x = p) ys = filter (\<lambda>x. pr x = p) xs)"

lemma set_mq_insert: "set (mq_insert pr x xs) = insert x (set xs)"
  by (induction xs) auto

lemma sorted_mq_insert: "sorted_wrt (\<lambda>a b. pr b \<le> pr a) xs \<Longrightarrow> sorted_wrt (\<lambda>a b. pr b \<le> pr a) (mq_insert pr x xs)"
  by (induction xs) (auto simp: set_mq_insert)

lemma filter_mq_insert:
  "sorted_wrt (\<lambda>a b. pr b \<le> pr a) xs \<Longrightarrow>
   filter (\<lambda>y. pr y = p) (mq_insert pr x xs) = filter (\<lambda>y. pr y = p) xs @ (if pr x = p then [x] else [])"
proof (induction xs)
  case (Cons y ys)
  show ?case
  proof (cases "pr y < pr x")
    case True
    then have "pr z < pr x" if "z \<in> set (y # ys)" for z using that Cons.prems by auto
    then have "filter (\<lambda>z. pr z = pr x) (y # ys) = []" unfolding filter_empty_conv by fastforce
    then show ?thesis using True by (cases "pr x = p") auto
  next
    case False
    then show ?thesis using Cons by simp
  qed
qed simp

lemma length_mq_insert: "length (mq_insert pr x xs) = Suc (length xs)"
  by (induction xs) auto

lemma stable_of_insert: "stable_of pr xs ys \<Longrightarrow> stable_of pr (xs @ [x]) (mq_insert pr x ys)"
  by (simp add: stable_of_def sorted_mq_insert filter_mq_insert)

text \<open>The head is the first of the highest priority.\<close>

lemma stable_of_head:
  assumes "stable_of pr xs (y # ys)"
  shows "\<exists>us vs. xs = us @ y # vs \<and> (\<forall>u \<in> set us. pr u < pr y) \<and> (\<forall>v \<in> set vs. pr v \<le> pr y) \<and> stable_of pr (us @ vs) ys"
proof -
  have f: "filter (\<lambda>x. pr x = p) (y # ys) = filter (\<lambda>x. pr x = p) xs" for p using assms by (simp add: stable_of_def)
  have sorted: "\<forall>z \<in> set ys. pr z \<le> pr y" "sorted_wrt (\<lambda>a b. pr b \<le> pr a) ys" using assms by (simp_all add: stable_of_def)
  have "filter (\<lambda>x. pr x = pr y) xs = y # filter (\<lambda>x. pr x = pr y) ys" using f [of "pr y"] by simp
  from this [THEN filter_eq_ConsD] obtain us vs where xs: "xs = us @ y # vs" "\<forall>u \<in> set us. pr u \<noteq> pr y" by blast
  have le: "pr z \<le> pr y" if "z \<in> set xs" for z
  proof -
    have "z \<in> set (filter (\<lambda>x. pr x = pr z) (y # ys))" unfolding f using that by simp
    then show ?thesis using sorted(1) by (auto split: if_splits)
  qed
  have "filter (\<lambda>x. pr x = p) ys = filter (\<lambda>x. pr x = p) (us @ vs)" for p
    using f [of p] xs by (cases "pr y = p") (auto simp: filter_empty_conv)
  moreover have "pr u < pr y" if "u \<in> set us" for u using le [of u] xs that by (auto simp: order.strict_iff_order)
  ultimately show ?thesis
    using xs(1) le sorted(2) by (intro exI [of _ us] exI [of _ vs]) (simp add: stable_of_def)
qed

section \<open>A priority queue\<close>

text \<open>The specification: messages in the order of their arrival, and the first one of the highest priority is taken.\<close>

primrec pq_best :: "mq_message \<Rightarrow> mq_message list \<Rightarrow> mq_message" where
  "pq_best m [] = m"
| "pq_best m (x # xs) = pq_best (if msg_priority m < msg_priority x then x else m) xs"

fun pq_take :: "mq_message list \<Rightarrow> (mq_message \<times> mq_message list) option" where
  "pq_take [] = None"
| "pq_take (x # xs) = (let m = pq_best x xs in Some (m, remove1 m (x # xs)))"

lemma pq_best_keep: "\<forall>v \<in> set vs. msg_priority v \<le> msg_priority y \<Longrightarrow> pq_best y vs = y"
  by (induction vs) auto

lemma pq_best_first:
  "msg_priority x < msg_priority y \<Longrightarrow> \<forall>u \<in> set us. msg_priority u < msg_priority y \<Longrightarrow>
   \<forall>v \<in> set vs. msg_priority v \<le> msg_priority y \<Longrightarrow> pq_best x (us @ y # vs) = y"
  by (induction us arbitrary: x) (auto simp: pq_best_keep)

lemma pq_take_first:
  assumes "\<forall>u \<in> set us. msg_priority u < msg_priority y" and "\<forall>v \<in> set vs. msg_priority v \<le> msg_priority y"
  shows "pq_take (us @ y # vs) = Some (y, us @ vs)"
proof -
  have "y \<notin> set us" using assms(1) by auto
  then have "remove1 y (us @ y # vs) = us @ vs" by (simp add: remove1_append)
  then show ?thesis
    using assms pq_best_keep [OF assms(2)] pq_best_first [OF _ _ assms(2)] by (cases us) (auto simp: Let_def)
qed

datatype mq_event = Sent mq_message | Received mq_message

primrec pq_trace :: "mq_event list \<Rightarrow> mq_message list \<Rightarrow> mq_message list option" where
  "pq_trace [] xs = Some xs"
| "pq_trace (e # es) xs =
     (case e of
        Sent m \<Rightarrow> pq_trace es (xs @ [m])
      | Received m \<Rightarrow> (case pq_take xs of Some (m', rest) \<Rightarrow> if m' = m then pq_trace es rest else None | None \<Rightarrow> None))"

lemma pq_trace_append: "pq_trace (es @ fs) xs = Option.bind (pq_trace es xs) (pq_trace fs)"
  by (induction es arbitrary: xs) (auto split: mq_event.splits option.splits)

section \<open>A system with one queue\<close>

text \<open>
  The steps of threads that use one queue. A configuration holds the queue, the scheduler, the calls that wait, by
  thread, and the history of the messages that were sent and received. The current thread makes the calls; \<open>other\<close> is
  everything else that happens to the scheduler.
\<close>

datatype mq_call = Send "u8 list" u32 u32 | Receive u32

record mq_config =
  conf_queue :: message_queue
  conf_sched :: sched
  conf_calls :: "nat \<Rightarrow> mq_call option"
  conf_trace :: "mq_event list"

abbreviation the_msg :: "u8 list \<Rightarrow> u32 \<Rightarrow> u32 \<Rightarrow> mq_message" where
  "the_msg buf priority msize \<equiv> \<lparr>msg_buf = take (unat msize) buf, msg_priority = priority, msg_size = msize\<rparr>"

abbreviation caller :: "mq_config \<Rightarrow> nat" where
  "caller c \<equiv> current_thread (conf_sched c)"

text \<open>The end of a call, or of a part of it.\<close>

definition after_send :: "u8 list \<Rightarrow> u32 \<Rightarrow> u32 \<Rightarrow> mq_config \<Rightarrow> outcome \<times> message_queue \<times> sched \<Rightarrow> mq_config" where
  "after_send buf priority msize c r =
     (case r of (oc, mq, s) \<Rightarrow>
        c\<lparr>conf_queue := mq, conf_sched := s,
          conf_calls := (conf_calls c)(caller c := (if oc = Blocked then Some (Send buf priority msize) else None)),
          conf_trace := conf_trace c @ (if oc = Ret 0 then [Sent (the_msg buf priority msize)] else [])\<rparr>)"

definition after_receive ::
  "u32 \<Rightarrow> mq_config \<Rightarrow> outcome \<times> mq_message option \<times> message_queue \<times> sched \<Rightarrow> mq_config" where
  "after_receive priority c r =
     (case r of (oc, msg, mq, s) \<Rightarrow>
        c\<lparr>conf_queue := mq, conf_sched := s,
          conf_calls := (conf_calls c)(caller c := (if oc = Blocked then Some (Receive priority) else None)),
          conf_trace := conf_trace c @ (case msg of None \<Rightarrow> [] | Some m \<Rightarrow> [Received m])\<rparr>)"

inductive mq_step :: "mq_config \<Rightarrow> mq_config \<Rightarrow> bool" where
  send: "conf_calls c (caller c) = None \<Longrightarrow>
    mq_send hs irqs fmode buf priority msize (conf_queue c) (conf_sched c) = Some r \<Longrightarrow>
    mq_step c (after_send buf priority msize c r)"
| send_resume: "conf_calls c (caller c) = Some (Send buf priority msize) \<Longrightarrow>
    mq_send_resume hs irqs buf priority msize (conf_queue c) (conf_sched c) = Some r \<Longrightarrow>
    mq_step c (after_send buf priority msize c r)"
| receive: "conf_calls c (caller c) = None \<Longrightarrow>
    mq_receive hs irqs fmode priority msize (conf_queue c) (conf_sched c) = Some r \<Longrightarrow>
    mq_step c (after_receive priority c r)"
| receive_resume: "conf_calls c (caller c) = Some (Receive priority) \<Longrightarrow>
    mq_receive_resume hs irqs priority (conf_queue c) (conf_sched c) = Some r \<Longrightarrow>
    mq_step c (after_receive priority c r)"
| other: "mq_step c (c\<lparr>conf_sched := s\<rparr>)"

text \<open>The queue with the messages \<open>xs\<close> in the order of their arrival.\<close>

definition mq_rep :: "mq_message list \<Rightarrow> message_queue \<Rightarrow> bool" where
  "mq_rep xs mq \<longleftrightarrow>
     stable_of msg_priority xs (messages mq) \<and>
     (\<exists>a. attr mq = Some a \<and> mq_curmsgs a = int (length (messages mq)) \<and> mq_curmsgs a \<le> mq_maxmsg a)"

definition mq_inv :: "mq_config \<Rightarrow> bool" where
  "mq_inv c \<longleftrightarrow> (\<exists>xs. pq_trace (conf_trace c) [] = Some xs \<and> mq_rep xs (conf_queue c))"

lemma mq_rep_waiters [simp]:
  "mq_rep xs (mq\<lparr>senders := ss\<rparr>) = mq_rep xs mq" "mq_rep xs (mq\<lparr>receivers := rs\<rparr>) = mq_rep xs mq"
  by (simp_all add: mq_rep_def)

text \<open>What the parts of the calls do to the messages.\<close>

lemma send_finish_rep:
  assumes "mq_send_finish buf priority msize mq s = Some (oc, mq', s')" and "mq_rep xs mq"
  shows "oc = Ret 0 \<and> mq_rep (xs @ [the_msg buf priority msize]) mq'"
  using assms stable_of_insert [of msg_priority xs "messages mq" "the_msg buf priority msize"]
  by (auto simp: mq_send_finish_def mq_add_message_def mq_rep_def length_mq_insert bind_eq_Some_conv
      split: if_splits list.splits)

lemma send_wait_rep:
  "mq_send_wait hs irqs priority mq s = Some (oc, mq', s') \<Longrightarrow> mq_rep xs mq \<Longrightarrow> oc = Blocked \<and> mq_rep xs mq'"
  by (auto simp: mq_send_wait_def mq_add_sender_def Let_def bind_eq_Some_conv)

lemma send_rep:
  assumes "mq_send hs irqs fmode buf priority msize mq s = Some (oc, mq', s')" and "mq_rep xs mq"
  shows "mq_rep (xs @ (if oc = Ret 0 then [the_msg buf priority msize] else [])) mq'"
proof -
  obtain a where a: "attr mq = Some a" using assms(2) by (auto simp: mq_rep_def)
  show ?thesis
    using assms a send_finish_rep [of buf priority msize mq s oc mq' s' xs] send_wait_rep [of hs irqs priority mq s oc mq' s' xs]
    by (auto simp: mq_send_def errno_defs split: if_splits)
qed

lemma send_resume_rep:
  assumes "mq_send_resume hs irqs buf priority msize mq s = Some (oc, mq', s')" and "mq_rep xs mq"
  shows "mq_rep (xs @ (if oc = Ret 0 then [the_msg buf priority msize] else [])) mq'"
proof -
  obtain a where a: "attr mq = Some a" using assms(2) by (auto simp: mq_rep_def)
  show ?thesis
    using assms a send_finish_rep [of buf priority msize mq s oc mq' s' xs] send_wait_rep [of hs irqs priority mq s oc mq' s' xs]
    by (auto simp: mq_send_resume_def split: if_splits)
qed

lemma receive_finish_rep:
  assumes "mq_receive_finish mq s = Some (oc, msg, mq', s')" and "mq_rep xs mq"
  shows "\<exists>m rest. msg = Some m \<and> pq_take xs = Some (m, rest) \<and> mq_rep rest mq'"
proof -
  obtain m ms a where m: "messages mq = m # ms" "attr mq = Some a" "msg = Some m"
      "mq' = mq\<lparr>messages := ms, attr := Some (a\<lparr>mq_curmsgs := mq_curmsgs a - 1\<rparr>)\<rparr>"
    using assms(1) by (cases "messages mq") (auto simp: mq_receive_finish_def bind_eq_Some_conv)
  have st: "stable_of msg_priority xs (m # ms)" and c: "mq_curmsgs a = int (length (m # ms))" "mq_curmsgs a \<le> mq_maxmsg a"
    using assms(2) m(1,2) by (auto simp: mq_rep_def)
  from stable_of_head [OF st] obtain us vs where xs: "xs = us @ m # vs" "\<forall>u \<in> set us. msg_priority u < msg_priority m"
      "\<forall>v \<in> set vs. msg_priority v \<le> msg_priority m" "stable_of msg_priority (us @ vs) ms" by blast
  then show ?thesis using m c pq_take_first [OF xs(2,3)] by (auto simp: mq_rep_def)
qed

lemma receive_wait_rep:
  "mq_receive_wait hs irqs priority mq s = Some (oc, msg, mq', s') \<Longrightarrow> mq_rep xs mq \<Longrightarrow> msg = None \<and> mq_rep xs mq'"
  by (auto simp: mq_receive_wait_def mq_add_receiver_def Let_def bind_eq_Some_conv)

text \<open>A receive leaves the messages alone, or takes the one that the specification takes.\<close>

definition receive_ok :: "mq_message list \<Rightarrow> mq_message option \<Rightarrow> message_queue \<Rightarrow> bool" where
  "receive_ok xs msg mq' \<longleftrightarrow>
     (case msg of None \<Rightarrow> mq_rep xs mq' | Some m \<Rightarrow> \<exists>rest. pq_take xs = Some (m, rest) \<and> mq_rep rest mq')"

lemma receive_ok_finish: "mq_receive_finish mq s = Some (oc, msg, mq', s') \<Longrightarrow> mq_rep xs mq \<Longrightarrow> receive_ok xs msg mq'"
  using receive_finish_rep [of mq s oc msg mq' s' xs] by (auto simp: receive_ok_def)

lemma receive_ok_wait: "mq_receive_wait hs irqs priority mq s = Some (oc, msg, mq', s') \<Longrightarrow> mq_rep xs mq \<Longrightarrow> receive_ok xs msg mq'"
  using receive_wait_rep [of hs irqs priority mq s oc msg mq' s' xs] by (auto simp: receive_ok_def)

lemma receive_rep:
  assumes "mq_receive hs irqs fmode priority msize mq s = Some (oc, msg, mq', s')" and "mq_rep xs mq"
  shows "receive_ok xs msg mq'"
proof -
  obtain a where a: "attr mq = Some a" using assms(2) by (auto simp: mq_rep_def)
  have same: "receive_ok xs None mq" using assms(2) by (simp add: receive_ok_def)
  show ?thesis
    using assms a same receive_ok_wait [of hs irqs priority mq s oc msg mq' s' xs]
    by (auto simp: mq_receive_def bind_eq_Some_conv intro: receive_ok_finish split: if_splits list.splits)
qed

lemma receive_resume_rep:
  assumes "mq_receive_resume hs irqs priority mq s = Some (oc, msg, mq', s')" and "mq_rep xs mq"
  shows "receive_ok xs msg mq'"
  using assms by (auto simp: mq_receive_resume_def bind_eq_Some_conv intro: receive_ok_finish receive_ok_wait split: if_splits)

lemma mq_step_inv: "mq_step c c' \<Longrightarrow> mq_inv c \<Longrightarrow> mq_inv c'"
proof (induction rule: mq_step.induct)
  case (send c hs irqs fmode buf priority msize r)
  then obtain xs where "pq_trace (conf_trace c) [] = Some xs" "mq_rep xs (conf_queue c)" by (auto simp: mq_inv_def)
  then show ?case using send send_rep
    by (cases r) (fastforce simp: mq_inv_def after_send_def pq_trace_append)
next
  case (send_resume c buf priority msize hs irqs r)
  then obtain xs where "pq_trace (conf_trace c) [] = Some xs" "mq_rep xs (conf_queue c)" by (auto simp: mq_inv_def)
  then show ?case using send_resume send_resume_rep
    by (cases r) (fastforce simp: mq_inv_def after_send_def pq_trace_append)
next
  case (receive c hs irqs fmode priority msize r)
  then obtain xs where "pq_trace (conf_trace c) [] = Some xs" "mq_rep xs (conf_queue c)" by (auto simp: mq_inv_def)
  then show ?case using receive receive_rep
    by (cases r) (fastforce simp: mq_inv_def after_receive_def pq_trace_append receive_ok_def split: option.splits)
next
  case (receive_resume c priority hs irqs r)
  then obtain xs where "pq_trace (conf_trace c) [] = Some xs" "mq_rep xs (conf_queue c)" by (auto simp: mq_inv_def)
  then show ?case using receive_resume receive_resume_rep
    by (cases r) (fastforce simp: mq_inv_def after_receive_def pq_trace_append receive_ok_def split: option.splits)
qed (simp add: mq_inv_def)

lemma mq_steps_inv: "mq_step\<^sup>*\<^sup>* c c' \<Longrightarrow> mq_inv c \<Longrightarrow> mq_inv c'"
  by (induction rule: rtranclp_induct) (auto intro: mq_step_inv)

text \<open>A trace keeps the messages: those sent are those received and those that are still there.\<close>

definition sent_msgs :: "mq_event list \<Rightarrow> mq_message list" where
  "sent_msgs es = List.map_filter (\<lambda>e. case e of Sent m \<Rightarrow> Some m | Received m \<Rightarrow> None) es"

definition received_msgs :: "mq_event list \<Rightarrow> mq_message list" where
  "received_msgs es = List.map_filter (\<lambda>e. case e of Sent m \<Rightarrow> None | Received m \<Rightarrow> Some m) es"

lemma pq_best_mem: "pq_best x xs \<in> set (x # xs)"
proof (induction xs arbitrary: x)
  case (Cons a xs)
  then show ?case using Cons.IH [of x] Cons.IH [of a] by auto
qed simp

lemma pq_take_mset: "pq_take xs = Some (m, rest) \<Longrightarrow> mset xs = add_mset m (mset rest)"
  by (cases xs) (use pq_best_mem in \<open>fastforce simp: Let_def\<close>)+

lemma pq_trace_mset:
  "pq_trace es xs = Some ys \<Longrightarrow> mset xs + mset (sent_msgs es) = mset (received_msgs es) + mset ys"
proof (induction es arbitrary: xs)
  case (Cons e es)
  show ?case
  proof (cases e)
    case (Sent m)
    then show ?thesis using Cons by (fastforce simp: sent_msgs_def received_msgs_def map_filter_simps)
  next
    case (Received m)
    then obtain rest where "pq_take xs = Some (m, rest)" "pq_trace es rest = Some ys"
      using Cons.prems by (auto split: option.splits if_splits)
    then show ?thesis using Cons.IH [of rest] pq_take_mset [of xs m rest] Received
      by (simp add: sent_msgs_def received_msgs_def map_filter_simps)
  qed
qed (simp add: sent_msgs_def received_msgs_def map_filter_simps)

section \<open>The branches of the calls\<close>

lemma mq_send_finish_effect:
  assumes ok: "sched_ok s Q" and w: "\<forall>e \<in> set (mq_wait mq). wait_func e = poll_wakeup"
    and a: "attr mq = Some a" "mq_curmsgs a < mq_maxmsg a" and recv: "receivers mq = [] \<or> mq_curmsgs a = 0"
  shows "\<exists>s' Q'. mq_send_finish buf priority msize mq s =
      Some (Ret 0, mq\<lparr>messages := mq_insert msg_priority (the_msg buf priority msize) (messages mq),
        attr := Some (a\<lparr>mq_curmsgs := mq_curmsgs a + 1\<rparr>), receivers := tl (receivers mq)\<rparr>, s') \<and> sched_ok s' Q' \<and>
      current_thread s' = current_thread s \<and>
      (\<forall>u. state (threads s' u) =
        (if u \<in> fst ` set (take 1 (receivers mq)) \<union> wait_thread ` set (mq_wait mq) then THREAD_READY else state (threads s u)))"
proof (cases "receivers mq")
  case Nil
  have "mq\<lparr>receivers := []\<rparr> = mq" using Nil by simp
  then show ?thesis using wake_up_state [OF ok w] a Nil by (auto simp: mq_send_finish_def mq_add_message_def)
next
  case (Cons r rs)
  obtain s1 Q1 where s1: "update_thread (fst r) THREAD_READY s = Some s1" "sched_ok s1 Q1" "current_thread s1 = current_thread s"
      "\<forall>u. state (threads s1 u) = (if u = fst r then THREAD_READY else state (threads s u))"
    using update_thread_state [OF ok] by blast
  obtain s2 Q2 where "wake_up (mq_wait mq) s1 = Some s2" "sched_ok s2 Q2" "current_thread s2 = current_thread s1"
      "\<forall>u. state (threads s2 u) = (if u \<in> wait_thread ` set (mq_wait mq) then THREAD_READY else state (threads s1 u))"
    using wake_up_state [OF s1(2) w] by blast
  then show ?thesis using a Cons s1 recv
    by (intro exI [of _ s2] exI [of _ Q2]) (auto simp: mq_send_finish_def mq_add_message_def)
qed

section \<open>The properties\<close>

text \<open>C7: Whatever threads do with a queue that was empty at first, the messages received are those a stable priority queue
  delivers: each time the first sent of those of the highest priority that are still there. No message is lost or received
  twice, and there are never more messages than the queue allows.\<close>

theorem mq_priority_queue:
  assumes "mq_step\<^sup>*\<^sup>* c c'" and "conf_trace c = []" and "messages (conf_queue c) = []"
    and "attr (conf_queue c) = Some a" and "mq_curmsgs a = 0" and "0 \<le> mq_maxmsg a"
  shows "\<exists>xs b. pq_trace (conf_trace c') [] = Some xs \<and> stable_of msg_priority xs (messages (conf_queue c')) \<and>
    mset (sent_msgs (conf_trace c')) = mset (received_msgs (conf_trace c')) + mset xs \<and>
    attr (conf_queue c') = Some b \<and> mq_curmsgs b = int (length (messages (conf_queue c'))) \<and> mq_curmsgs b \<le> mq_maxmsg b"
proof -
  have "mq_inv c" using assms(2-6) by (auto simp: mq_inv_def mq_rep_def stable_of_def)
  then have "mq_inv c'" by (rule mq_steps_inv [OF assms(1)])
  then obtain xs where "pq_trace (conf_trace c') [] = Some xs" "mq_rep xs (conf_queue c')" by (auto simp: mq_inv_def)
  then show ?thesis using pq_trace_mset [of "conf_trace c'" "[]" xs] by (auto simp: mq_rep_def)
qed

text \<open>A queue for two messages of at most 16 bytes.\<close>

definition mq_example :: message_queue where
  "mq_example = mq_new\<lparr>attr := Some \<lparr>mq_flags = 0, mq_maxmsg = 2, mq_msgsize = 16, mq_curmsgs = 0\<rparr>\<rparr>"

definition conf_example :: mq_config where
  "conf_example = \<lparr>conf_queue = mq_example, conf_sched = sched_example, conf_calls = (\<lambda>_. None), conf_trace = []\<rparr>"

lemmas mq_example_simps = mq_example_def mq_new_def conf_example_def mq_send_def mq_send_finish_def mq_add_message_def
  FMODE_CAN_WRITE_def FMODE_CAN_READ_def

theorem mq_priority_queue_witness:
  "\<exists>c'. mq_step\<^sup>*\<^sup>* conf_example c' \<and> conf_trace c' = [Sent (the_msg [1, 2] 5 2), Sent (the_msg [3] 9 1)] \<and>
    messages (conf_queue c') = [the_msg [3] 9 1, the_msg [1, 2] 5 2] \<and>
    (\<exists>xs. pq_trace (conf_trace c') [] = Some xs \<and> stable_of msg_priority xs (messages (conf_queue c')))"
proof -
  obtain r1 where r1: "mq_send Some [] FMODE_CAN_WRITE [1, 2] 5 2 (conf_queue conf_example) (conf_sched conf_example) = Some r1"
      "r1 = (Ret 0, mq_example\<lparr>messages := [the_msg [1, 2] 5 2],
        attr := Some \<lparr>mq_flags = 0, mq_maxmsg = 2, mq_msgsize = 16, mq_curmsgs = 1\<rparr>\<rparr>, sched_example)"
    by (simp add: mq_example_simps)
  define c1 where "c1 = after_send [1, 2] 5 2 conf_example r1"
  have s1: "mq_step conf_example c1"
    unfolding c1_def by (rule mq_step.send [OF _ r1(1)]) (simp add: conf_example_def)
  have q1: "conf_queue c1 = fst (snd r1)" "conf_sched c1 = sched_example" "conf_calls c1 (caller c1) = None"
      "conf_trace c1 = [Sent (the_msg [1, 2] 5 2)]"
    by (simp_all add: c1_def r1(2) after_send_def conf_example_def)
  obtain r2 where r2: "mq_send Some [] FMODE_CAN_WRITE [3] 9 1 (conf_queue c1) (conf_sched c1) = Some r2"
      "r2 = (Ret 0, mq_example\<lparr>messages := [the_msg [3] 9 1, the_msg [1, 2] 5 2],
        attr := Some \<lparr>mq_flags = 0, mq_maxmsg = 2, mq_msgsize = 16, mq_curmsgs = 2\<rparr>\<rparr>, sched_example)"
    by (simp add: q1 r1(2) mq_example_simps)
  define c2 where "c2 = after_send [3] 9 1 c1 r2"
  have "mq_step c1 c2" unfolding c2_def by (rule mq_step.send [OF _ r2(1)]) (rule q1(3))
  with s1 have steps: "mq_step\<^sup>*\<^sup>* conf_example c2" by auto
  have q2: "conf_trace c2 = [Sent (the_msg [1, 2] 5 2), Sent (the_msg [3] 9 1)]"
      "messages (conf_queue c2) = [the_msg [3] 9 1, the_msg [1, 2] 5 2]"
    using q1(4) by (simp_all add: c2_def r2(2) after_send_def)
  from mq_priority_queue [OF steps] have "\<exists>xs. pq_trace (conf_trace c2) [] = Some xs \<and>
      stable_of msg_priority xs (messages (conf_queue c2))"
    by (auto simp: conf_example_def mq_example_def mq_new_def)
  then show ?thesis using steps q2 by blast
qed

text \<open>C37: A send by a running thread on a queue with no more messages than it allows, whose poll waiters have the wake-up
  function of \<open>DEFINE_WAIT\<close>: it returns \<open>-EBADF\<close> for a queue that is not open for writing, \<open>-EMSGSIZE\<close> for a message that is
  too long and \<open>-EAGAIN\<close> for a full queue that does not block, and changes nothing then. On a full queue that blocks it
  enters the thread among the senders by its priority and puts it to sleep, and the first ready thread runs, when it has
  no signal pending. Otherwise it enters the message by its priority, counts it, takes the first receiver off its list and makes exactly this thread
  and the poll waiters ready; it fails its assertion when a receiver waits on a queue that is not empty. Interrupts and
  signal handlers that run while it waits do not wake it.\<close>

theorem mq_send_correct:
  assumes "sched_ok s Q" and "runs s t" and "\<forall>irq \<in> set irqs. spares {t} irq" and "spares {t} hs"
    and "\<forall>e \<in> set (mq_wait mq). wait_func e = poll_wakeup" and "attr mq = Some a" and "mq_curmsgs a \<le> mq_maxmsg a"
  shows "if fmode AND FMODE_CAN_WRITE = 0 then mq_send hs irqs fmode buf priority msize mq s = Some (Ret (- 9), mq, s)
    else if word_of_int (mq_msgsize a) < msize then mq_send hs irqs fmode buf priority msize mq s = Some (Ret (- 90), mq, s)
    else if mq_curmsgs a < mq_maxmsg a then
      if receivers mq \<noteq> [] \<and> mq_curmsgs a \<noteq> 0 then mq_send hs irqs fmode buf priority msize mq s = None
      else \<exists>s' Q'. mq_send hs irqs fmode buf priority msize mq s =
          Some (Ret 0, mq\<lparr>messages := mq_insert msg_priority (the_msg buf priority msize) (messages mq),
            attr := Some (a\<lparr>mq_curmsgs := mq_curmsgs a + 1\<rparr>), receivers := tl (receivers mq)\<rparr>, s') \<and> sched_ok s' Q' \<and>
        current_thread s' = t \<and>
        (\<forall>u. state (threads s' u) =
          (if u \<in> fst ` set (take 1 (receivers mq)) \<union> wait_thread ` set (mq_wait mq) then THREAD_READY else state (threads s u)))
    else if mq_flags a AND O_NONBLOCK = 0 then
      \<exists>s' Q'. mq_send hs irqs fmode buf priority msize mq s =
          Some (Blocked, mq\<lparr>senders := mq_insert snd (t, priority) (senders mq)\<rparr>, s') \<and> sched_ok s' Q' \<and>
        state (threads s' t) = THREAD_WAITING \<and> (\<forall>u. next_ready Q = Some u \<and> pending (threads s u) = 0 \<longrightarrow> runs s' u)
    else mq_send hs irqs fmode buf priority msize mq s = Some (Ret (- 11), mq, s)"
proof -
  have ct: "current_thread s = t" using assms(2) by (simp add: runs_def)
  consider "fmode AND FMODE_CAN_WRITE = 0" | "fmode AND FMODE_CAN_WRITE \<noteq> 0" "word_of_int (mq_msgsize a) < msize"
    | (room) "fmode AND FMODE_CAN_WRITE \<noteq> 0" "\<not> word_of_int (mq_msgsize a) < msize" "mq_curmsgs a < mq_maxmsg a"
    | (full) "fmode AND FMODE_CAN_WRITE \<noteq> 0" "\<not> word_of_int (mq_msgsize a) < msize" "\<not> mq_curmsgs a < mq_maxmsg a"
    by blast
  then show ?thesis
  proof cases
    case room
    then have send: "mq_send hs irqs fmode buf priority msize mq s = mq_send_finish buf priority msize mq s"
      using assms(6) by (simp add: mq_send_def)
    show ?thesis
    proof (cases "receivers mq \<noteq> [] \<and> mq_curmsgs a \<noteq> 0")
      case True
      then have "mq_send_finish buf priority msize mq s = None"
        using assms(6) by (auto simp: mq_send_finish_def mq_add_message_def split: list.splits)
      then show ?thesis using room True send by simp
    next
      case False
      then show ?thesis using room send mq_send_finish_effect [OF assms(1,5,6) room(3), of buf priority msize] ct by auto
    qed
  next
    case full
    then show ?thesis using assms(6,7) block_effect [OF assms(1-4)] ct
      by (auto simp: mq_send_def mq_send_wait_def mq_add_sender_def errno_defs)
  qed (use assms(6) in \<open>auto simp: mq_send_def errno_defs\<close>)
qed

text \<open>A message for a receiver, thread 4, and a send to a queue that is full: then thread 1 runs.\<close>

theorem mq_send_correct_witness:
  "(\<exists>mq' s'. mq_send Some [] FMODE_CAN_WRITE [1, 2] 5 2 (mq_example\<lparr>receivers := [(4, 7)]\<rparr>) sched_example = Some (Ret 0, mq', s') \<and>
     messages mq' = [the_msg [1, 2] 5 2] \<and> receivers mq' = [] \<and> state (threads s' 4) = THREAD_READY \<and> current_thread s' = 0) \<and>
   (\<exists>mq' s'. mq_send Some [] FMODE_CAN_WRITE [1, 2] 5 2
       (mq_example\<lparr>attr := Some \<lparr>mq_flags = 0, mq_maxmsg = 2, mq_msgsize = 16, mq_curmsgs = 2\<rparr>\<rparr>) sched_example = Some (Blocked, mq', s') \<and>
     senders mq' = [(0, 5)] \<and> state (threads s' 0) = THREAD_WAITING \<and> runs s' 1)"
proof -
  let ?a = "\<lparr>mq_flags = 0, mq_maxmsg = 2, mq_msgsize = 16, mq_curmsgs = 2\<rparr>"
  have r: "runs sched_example 0" "pending (threads sched_example 1) = 0" by (simp_all add: runs_def sched_example_def)
  note send = mq_send_correct [OF sched_example_ok r(1) _ spares_Some, of "[]"]
  have n: "next_ready ((\<lambda>_. [])(app_ready_list := [1, 2])) = Some 1" by (simp add: next_ready_def)
  have "\<exists>mq' s'. mq_send Some [] FMODE_CAN_WRITE [1, 2] 5 2 (mq_example\<lparr>receivers := [(4, 7)]\<rparr>) sched_example = Some (Ret 0, mq', s') \<and>
     messages mq' = [the_msg [1, 2] 5 2] \<and> receivers mq' = [] \<and> state (threads s' 4) = THREAD_READY \<and> current_thread s' = 0"
    using send [of "mq_example\<lparr>receivers := [(4, 7)]\<rparr>" _ FMODE_CAN_WRITE "[1, 2]" 5 2]
    by (auto simp: mq_example_def mq_new_def FMODE_CAN_WRITE_def)
  moreover have "\<exists>mq' s'. mq_send Some [] FMODE_CAN_WRITE [1, 2] 5 2 (mq_example\<lparr>attr := Some ?a\<rparr>) sched_example = Some (Blocked, mq', s') \<and>
     senders mq' = [(0, 5)] \<and> state (threads s' 0) = THREAD_WAITING \<and> runs s' 1"
    using send [of "mq_example\<lparr>attr := Some ?a\<rparr>" ?a FMODE_CAN_WRITE "[1, 2]" 5 2] r(2) n
    by (auto simp: mq_example_def mq_new_def FMODE_CAN_WRITE_def)
  ultimately show ?thesis by blast
qed

text \<open>With two threads waiting for a message, the second of two sends in a row fails the assertion that the queue holds one
  message, if the first thread has not yet taken its message.\<close>

theorem mq_second_send_asserts:
  assumes "receivers mq = [(t1, p1), (t2, p2)]" and "mq_wait mq = []" and "attr mq = Some a" and "mq_curmsgs a = 0"
    and "1 < mq_maxmsg a" and "mq_msgsize a = 16" and "update_thread t1 THREAD_READY s = Some s1"
  shows "\<exists>mq1. mq_send hs irqs FMODE_CAN_WRITE [1] priority 1 mq s = Some (Ret 0, mq1, s1) \<and>
    receivers mq1 = [(t2, p2)] \<and> mq_send hs irqs FMODE_CAN_WRITE [2] priority 1 mq1 s1 = None"
  using assms by (simp add: mq_send_def mq_send_finish_def mq_add_message_def FMODE_CAN_WRITE_def)

theorem mq_second_send_asserts_witness:
  "\<exists>mq1. mq_send Some [] FMODE_CAN_WRITE [1] 0 1 (mq_example\<lparr>receivers := [(1, 0), (2, 0)]\<rparr>) sched_example =
      Some (Ret 0, mq1, sched_example) \<and>
    mq_send Some [] FMODE_CAN_WRITE [2] 0 1 mq1 sched_example = None"
proof -
  have "update_thread 1 THREAD_READY sched_example = Some sched_example" by (simp add: update_thread_def sched_example_def)
  from mq_second_send_asserts [OF _ _ _ _ _ _ this, of "mq_example\<lparr>receivers := [(1, 0), (2, 0)]\<rparr>" 0 2 0 _ Some "[]" 0]
  show ?thesis by (auto simp: mq_example_def mq_new_def)
qed

text \<open>A lost wake-up: two receives on a full queue with two waiting senders wake the first sender only, and the second one
  waits on although there is room for its message.\<close>

lemma mq_lost_wakeup:
  assumes "senders mq = [(t1, p1), (t2, p2)]" and "messages mq = [m1, m2]" and "attr mq = Some a" and "mq_curmsgs a = 2"
    and "mq_maxmsg a = 2" and "mq_msgsize a = 16" and "update_thread t1 THREAD_READY s = Some s1"
  shows "\<exists>mq1 mq2. mq_receive hs irqs FMODE_CAN_READ priority 16 mq s = Some (Ret 0, Some m1, mq1, s1) \<and>
    mq_receive hs irqs FMODE_CAN_READ priority 16 mq1 s1 = Some (Ret 0, Some m2, mq2, s1) \<and>
    senders mq2 = [(t2, p2)] \<and> messages mq2 = []"
  using assms by (simp add: mq_receive_def mq_receive_finish_def FMODE_CAN_READ_def)

end
