(* ===== verification/Signal.thy ===== *)
theory Signal
  imports Semaphore Hashmap_Spec Byte_Memory
begin

text \<open>
  Signals: \<open>kernel/ipc/signal.c\<close> and \<open>signal.h\<close>, with the processes of \<open>proc/task.h\<close>, on the scheduler, the hash table of
  processes and the memory of the user.

  Sets of signals are 32-bit words, pointers to user memory are addresses in it. A result \<open>None\<close> is a failed assertion, a
  null pointer or a kernel stack that overflows: \<open>do_kill\<close> calls itself, and its first argument is the number of calls
  the stack has room for. \<open>handle_signal\<close> has \<open>do_exit\<close> as an argument, because \<open>do_exit\<close> ends in \<open>schedule\<close>, which handles
  the signals of the next thread.

  The lemmas show which signal is delivered next, that a handler returns to where the thread was interrupted with the
  same registers and mask, whom \<open>do_kill\<close> reaches, and how a pending signal that is ignored by the time it is delivered
  stops the kernel.
\<close>

section \<open>Sets of signals\<close>

definition NSIG :: nat where "NSIG = 32"

definition SIGHUP :: int where "SIGHUP = 1"
definition SIGINT :: int where "SIGINT = 2"
definition SIGQUIT :: int where "SIGQUIT = 3"
definition SIGILL :: int where "SIGILL = 4"
definition SIGTRAP :: int where "SIGTRAP = 5"
definition SIGABRT :: int where "SIGABRT = 6"
definition SIGBUS :: int where "SIGBUS = 7"
definition SIGFPE :: int where "SIGFPE = 8"
definition SIGKILL :: int where "SIGKILL = 9"
definition SIGSEGV :: int where "SIGSEGV = 11"
definition SIGCHLD :: int where "SIGCHLD = 17"
definition SIGCONT :: int where "SIGCONT = 18"
definition SIGSTOP :: int where "SIGSTOP = 19"
definition SIGTSTP :: int where "SIGTSTP = 20"
definition SIGTTIN :: int where "SIGTTIN = 21"
definition SIGTTOU :: int where "SIGTTOU = 22"
definition SIGURG :: int where "SIGURG = 23"
definition SIGXCPU :: int where "SIGXCPU = 24"
definition SIGXFSZ :: int where "SIGXFSZ = 25"
definition SIGWINCH :: int where "SIGWINCH = 28"
definition SIGSYS :: int where "SIGSYS = 31"
definition SIGRTMIN :: int where "SIGRTMIN = 32"

lemmas signal_numbers = SIGQUIT_def SIGILL_def SIGTRAP_def SIGABRT_def SIGBUS_def SIGFPE_def SIGKILL_def SIGSEGV_def
  SIGCHLD_def SIGCONT_def SIGSTOP_def SIGTSTP_def SIGTTIN_def SIGTTOU_def SIGURG_def SIGXCPU_def SIGXFSZ_def SIGWINCH_def
  SIGSYS_def SIGRTMIN_def

definition SIG_BLOCK :: int where "SIG_BLOCK = 0"
definition SIG_UNBLOCK :: int where "SIG_UNBLOCK = 1"
definition SIG_SETMASK :: int where "SIG_SETMASK = 2"

definition SIG_DFL :: u32 where "SIG_DFL = 0"
definition SIG_IGN :: u32 where "SIG_IGN = 1"

definition SIGNAL_STOPED :: u32 where "SIGNAL_STOPED = 0x01"
definition SIGNAL_CONTINUED :: u32 where "SIGNAL_CONTINUED = 0x02"
definition SIGNAL_TERMINATED :: u32 where "SIGNAL_TERMINATED = 0x04"

definition sigmask :: "int \<Rightarrow> u32" where
  "sigmask sig = push_bit (nat (sig - 1)) 1"

definition siginmask :: "int \<Rightarrow> u32 \<Rightarrow> bool" where
  "siginmask sig m \<longleftrightarrow> 0 < sig \<and> sig < SIGRTMIN \<and> sigmask sig AND m \<noteq> 0"

definition SIG_KERNEL_ONLY_MASK :: u32 where
  "SIG_KERNEL_ONLY_MASK = sigmask SIGKILL OR sigmask SIGSTOP"

definition SIG_KERNEL_STOP_MASK :: u32 where
  "SIG_KERNEL_STOP_MASK = sigmask SIGSTOP OR sigmask SIGTSTP OR sigmask SIGTTIN OR sigmask SIGTTOU"

definition SIG_KERNEL_COREDUMP_MASK :: u32 where
  "SIG_KERNEL_COREDUMP_MASK =
     sigmask SIGQUIT OR sigmask SIGILL OR sigmask SIGTRAP OR sigmask SIGABRT OR sigmask SIGFPE OR sigmask SIGSEGV OR
     sigmask SIGBUS OR sigmask SIGSYS OR sigmask SIGXCPU OR sigmask SIGXFSZ"

definition SIG_KERNEL_IGNORE_MASK :: u32 where
  "SIG_KERNEL_IGNORE_MASK = sigmask SIGCONT OR sigmask SIGCHLD OR sigmask SIGWINCH OR sigmask SIGURG"

definition sig_kernel_only :: "int \<Rightarrow> bool" where
  "sig_kernel_only sig \<longleftrightarrow> sig < SIGRTMIN \<and> siginmask sig SIG_KERNEL_ONLY_MASK"

definition sig_kernel_coredump :: "int \<Rightarrow> bool" where
  "sig_kernel_coredump sig \<longleftrightarrow> sig < SIGRTMIN \<and> siginmask sig SIG_KERNEL_COREDUMP_MASK"

definition sig_kernel_ignore :: "int \<Rightarrow> bool" where
  "sig_kernel_ignore sig \<longleftrightarrow> sig < SIGRTMIN \<and> siginmask sig SIG_KERNEL_IGNORE_MASK"

definition sig_kernel_stop :: "int \<Rightarrow> bool" where
  "sig_kernel_stop sig \<longleftrightarrow> sig < SIGRTMIN \<and> siginmask sig SIG_KERNEL_STOP_MASK"

text \<open>The argument is an \<open>unsigned long\<close>.\<close>

definition valid_signal :: "int \<Rightarrow> bool" where
  "valid_signal sig \<longleftrightarrow> unat (word_of_int sig :: u32) \<le> NSIG"

definition sigaddset :: "u32 \<Rightarrow> int \<Rightarrow> u32" where
  "sigaddset sset sig = sset OR sigmask sig"

definition sigdelset :: "u32 \<Rightarrow> int \<Rightarrow> u32" where
  "sigdelset sset sig = sset AND NOT (sigmask sig)"

definition sigismember :: "u32 \<Rightarrow> int \<Rightarrow> bool" where
  "sigismember sset sig \<longleftrightarrow> 1 AND drop_bit (nat (sig - 1)) sset \<noteq> 0"

definition sigemptyset :: u32 where "sigemptyset = 0"

definition sigaddsetmask :: "u32 \<Rightarrow> u32 \<Rightarrow> u32" where "sigaddsetmask sset m = sset OR m"

definition sigdelsetmask :: "u32 \<Rightarrow> u32 \<Rightarrow> u32" where "sigdelsetmask sset m = sset AND NOT m"

definition sigtestsetmask :: "u32 \<Rightarrow> u32 \<Rightarrow> bool" where "sigtestsetmask sset m \<longleftrightarrow> sset AND m \<noteq> 0"

text \<open>\<open>ffz\<close> of \<open>include/bitops.h\<close>: the lowest bit that is zero; there is no value for a word without one.\<close>

definition ffz :: "u32 \<Rightarrow> nat option" where
  "ffz w = for_find 0 32 (\<lambda>i. if bit (NOT w) i then Some i else None)"

definition next_signal :: "u32 \<Rightarrow> u32 \<Rightarrow> int option" where
  "next_signal pend block =
     (let m = pend AND NOT block
      in if m AND SIG_KERNEL_COREDUMP_MASK \<noteq> 0 then
           map_option (\<lambda>i. int i + 1) (ffz (NOT (m AND SIG_KERNEL_COREDUMP_MASK)))
         else if m AND NOT (sigmask SIGCONT) \<noteq> 0 then
           map_option (\<lambda>i. int i + 1) (ffz (NOT (m AND NOT (sigmask SIGCONT))))
         else if m AND sigmask SIGCONT \<noteq> 0 then Some SIGCONT
         else Some 0)"

section \<open>Processes and the state\<close>

record sigaction =
  sa_handler :: u32
  sa_flags :: u32
  sa_mask :: u32

record process =
  pid :: int
  gid :: int
  sid :: int
  proc_parent :: "nat option"
  proc_thread :: nat
  sighand :: "sigaction list"
  exit_code :: int
  caused_signal :: int
  proc_flags :: u32
  wait_chld :: "wait_queue_entry list"
  children :: "nat list"

record interrupt_registers =
  gs :: u32
  fs :: u32
  es :: u32
  ds :: u32
  edi :: u32
  esi :: u32
  ebp :: u32
  esp :: u32
  ebx :: u32
  edx :: u32
  ecx :: u32
  eax :: u32
  int_no :: u32
  err_code :: u32
  eip :: u32
  cs :: u32
  eflags :: u32
  useresp :: u32
  ss :: u32

text \<open>The scheduler, what it does not hold of the threads, the processes by address, their table, the memory of the user.\<close>

record sys =
  sg_sched :: sched
  signaling :: "nat \<Rightarrow> bool"
  uregs :: "nat \<Rightarrow> interrupt_registers"
  procs :: "nat \<Rightarrow> process"
  mprocess :: "(u32, nat) hashmap"
  umem :: mem

abbreviation cur_thread :: "sys \<Rightarrow> nat" where
  "cur_thread sys \<equiv> current_thread (sg_sched sys)"

abbreviation cur_process :: "sys \<Rightarrow> nat" where
  "cur_process sys \<equiv> current_process (sg_sched sys)"

abbreviation thr :: "sys \<Rightarrow> nat \<Rightarrow> thread" where
  "thr sys \<equiv> threads (sg_sched sys)"

abbreviation upd_thr :: "nat \<Rightarrow> (thread \<Rightarrow> thread) \<Rightarrow> sys \<Rightarrow> sys" where
  "upd_thr t f sys \<equiv> sys\<lparr>sg_sched := upd_thread t f (sg_sched sys)\<rparr>"

abbreviation upd_proc :: "nat \<Rightarrow> (process \<Rightarrow> process) \<Rightarrow> sys \<Rightarrow> sys" where
  "upd_proc p f sys \<equiv> sys\<lparr>procs := (procs sys)(p := f (procs sys p))\<rparr>"

definition in_sched :: "(sched \<Rightarrow> sched option) \<Rightarrow> sys \<Rightarrow> sys option" where
  "in_sched f sys = map_option (\<lambda>s. sys\<lparr>sg_sched := s\<rparr>) (f (sg_sched sys))"

definition find_process_by_pid :: "sys \<Rightarrow> int \<Rightarrow> nat option" where
  "find_process_by_pid sys p = hashmap_get (mprocess sys) (word_of_int p)"

text \<open>\<open>for_each_process\<close>: a null pointer among the data would be dereferenced by every body.\<close>

partial_function (option) for_each_loop :: "(nat \<Rightarrow> sys \<Rightarrow> sys option) \<Rightarrow> nat option \<Rightarrow> sys \<Rightarrow> sys option" where
  "for_each_loop body iter sys =
     (case iter of
        None \<Rightarrow> Some sys
      | Some i \<Rightarrow>
          Option.bind (hashmap_iter_get_data (mprocess sys) iter)
            (\<lambda>p. Option.bind (body p sys) (\<lambda>sys. for_each_loop body (hashmap_iter_next (mprocess sys) iter) sys)))"

definition for_each_process :: "(nat \<Rightarrow> sys \<Rightarrow> sys option) \<Rightarrow> sys \<Rightarrow> sys option" where
  "for_each_process body sys = for_each_loop body (hashmap_iter (mprocess sys)) sys"

section \<open>Words in the memory of the user\<close>

primrec ld_words :: "mem \<Rightarrow> u32 \<Rightarrow> nat \<Rightarrow> u32 list" where
  "ld_words m a 0 = []"
| "ld_words m a (Suc n) = ld32 m a # ld_words m (a + 4) n"

primrec st_words :: "u32 \<Rightarrow> u32 list \<Rightarrow> mem \<Rightarrow> mem" where
  "st_words a [] m = m"
| "st_words a (w # ws) m = st_words (a + 4) ws (st32 a w m)"

definition regs_words :: "interrupt_registers \<Rightarrow> u32 list" where
  "regs_words r =
     [gs r, fs r, es r, ds r, edi r, esi r, ebp r, esp r, ebx r, edx r, ecx r, eax r, int_no r, err_code r,
      eip r, cs r, eflags r, useresp r, ss r]"

definition words_regs :: "u32 list \<Rightarrow> interrupt_registers" where
  "words_regs ws =
     \<lparr>gs = ws ! 0, fs = ws ! 1, es = ws ! 2, ds = ws ! 3, edi = ws ! 4, esi = ws ! 5, ebp = ws ! 6, esp = ws ! 7,
      ebx = ws ! 8, edx = ws ! 9, ecx = ws ! 10, eax = ws ! 11, int_no = ws ! 12, err_code = ws ! 13, eip = ws ! 14,
      cs = ws ! 15, eflags = ws ! 16, useresp = ws ! 17, ss = ws ! 18\<rparr>"

definition action_words :: "sigaction \<Rightarrow> u32 list" where
  "action_words act = [sa_handler act, sa_flags act, sa_mask act]"

definition words_action :: "u32 list \<Rightarrow> sigaction" where
  "words_action ws = \<lparr>sa_handler = ws ! 0, sa_flags = ws ! 1, sa_mask = ws ! 2\<rparr>"

section \<open>The operations\<close>

definition sig_ignored :: "sys \<Rightarrow> nat \<Rightarrow> int \<Rightarrow> bool" where
  "sig_ignored sys th sig =
     (if sigismember (blocked (thr sys th)) sig then False
      else let h = sa_handler (sighand (procs sys (thread_parent (thr sys th))) ! nat (sig - 1))
           in h = SIG_IGN \<or> h = SIG_DFL \<and> sig_kernel_ignore sig)"

definition sig_default_action :: "process \<Rightarrow> int \<Rightarrow> bool" where
  "sig_default_action p sig \<longleftrightarrow> sa_handler (sighand p ! nat (sig - 1)) = SIG_DFL"

definition sig_user_defined :: "process \<Rightarrow> int \<Rightarrow> bool" where
  "sig_user_defined p sig \<longleftrightarrow>
     sa_handler (sighand p ! nat (sig - 1)) \<noteq> SIG_DFL \<and> sa_handler (sighand p ! nat (sig - 1)) \<noteq> SIG_IGN"

definition sig_fatal :: "process \<Rightarrow> int \<Rightarrow> bool" where
  "sig_fatal p sig \<longleftrightarrow>
     \<not> siginmask sig (SIG_KERNEL_IGNORE_MASK OR SIG_KERNEL_STOP_MASK) \<and> sa_handler (sighand p ! nat (sig - 1)) = SIG_DFL"

definition do_sigprocmask :: "int \<Rightarrow> u32 \<Rightarrow> u32 \<Rightarrow> sys \<Rightarrow> int \<times> sys" where
  "do_sigprocmask how sset oldset sys =
     (let ct = cur_thread sys;
          sys = (if oldset \<noteq> 0 then sys\<lparr>umem := st32 oldset (blocked (thr sys ct)) (umem sys)\<rparr> else sys)
      in if sset = 0 then (0, sys)
         else
           let v = ld32 (umem sys) sset
           in if how \<noteq> SIG_BLOCK \<and> how \<noteq> SIG_UNBLOCK \<and> how \<noteq> SIG_SETMASK then (- EINVAL, sys)
              else
                (0, upd_thr ct (\<lambda>t. t\<lparr>blocked :=
                   (if how = SIG_BLOCK then blocked t OR v
                    else if how = SIG_UNBLOCK then blocked t AND NOT v
                    else v) AND NOT SIG_KERNEL_ONLY_MASK\<rparr>) sys))"

definition do_sigaction :: "int \<Rightarrow> u32 \<Rightarrow> u32 \<Rightarrow> sys \<Rightarrow> int \<times> sys" where
  "do_sigaction signum action old_action sys =
     (if \<not> valid_signal signum \<or> signum < 1 \<or> sig_kernel_only signum then (- EINVAL, sys)
      else
        let p = cur_process sys;
            i = nat (signum - 1);
            sys = (if old_action \<noteq> 0
                   then sys\<lparr>umem := st_words old_action (action_words (sighand (procs sys p) ! i)) (umem sys)\<rparr> else sys);
            sys = (if action \<noteq> 0
                   then upd_proc p (\<lambda>q. q\<lparr>sighand := (sighand q)[i := words_action (ld_words (umem sys) action 3)]\<rparr>) sys
                   else sys)
        in (0, sys))"

text \<open>
  \<open>do_kill\<close> with its recursive calls as the argument \<open>rec\<close>. \<open>hs\<close> and \<open>irqs\<close> are the arguments of \<open>schedule\<close>. The branch for
  a stop and the branch for \<open>SIGCONT\<close> change the flags of the calling process and its pending signals, as the source does.
\<close>

definition notify_parent :: "(int \<Rightarrow> int \<Rightarrow> sys \<Rightarrow> (int \<times> sys) option) \<Rightarrow> sys \<Rightarrow> sys option" where
  "notify_parent rec sys =
     do {
       par \<leftarrow> proc_parent (procs sys (cur_process sys));
       (_, sys) \<leftarrow> rec (pid (procs sys par)) SIGCHLD sys;
       par \<leftarrow> proc_parent (procs sys (cur_process sys));
       in_sched (wake_up (wait_chld (procs sys par))) sys
     }"

definition kill_cont :: "(int \<Rightarrow> int \<Rightarrow> sys \<Rightarrow> (int \<times> sys) option) \<Rightarrow> nat \<Rightarrow> sys \<Rightarrow> sys option" where
  "kill_cont rec th sys =
     do {
       let sys = upd_proc (cur_process sys)
         (\<lambda>p. p\<lparr>proc_flags := (proc_flags p OR SIGNAL_CONTINUED) AND NOT SIGNAL_STOPED\<rparr>) sys;
       let sys = upd_thr (cur_thread sys) (\<lambda>t. t\<lparr>pending := sigdelsetmask (pending t) SIG_KERNEL_STOP_MASK\<rparr>) sys;
       sys \<leftarrow> (if th \<noteq> cur_thread sys then in_sched (update_thread th THREAD_READY) sys else Some sys);
       notify_parent rec sys
     }"

definition kill_stop ::
  "(int \<Rightarrow> int \<Rightarrow> sys \<Rightarrow> (int \<times> sys) option) \<Rightarrow> (sched \<Rightarrow> sched option) \<Rightarrow> (sched \<Rightarrow> sched option) list \<Rightarrow> nat \<Rightarrow> sys \<Rightarrow> sys option" where
  "kill_stop rec hs irqs th sys =
     do {
       let sys = upd_proc (cur_process sys)
         (\<lambda>p. p\<lparr>proc_flags := (proc_flags p OR SIGNAL_STOPED) AND NOT SIGNAL_CONTINUED\<rparr>) sys;
       let sys = upd_thr (cur_thread sys) (\<lambda>t. t\<lparr>pending := sigdelset (pending t) SIGCONT\<rparr>) sys;
       sys \<leftarrow> in_sched (update_thread th THREAD_WAITING) sys;
       sys \<leftarrow> notify_parent rec sys;
       (if th = cur_thread sys then in_sched (schedule hs irqs) sys else Some sys)
     }"

definition kill_post :: "nat \<Rightarrow> int \<Rightarrow> sys \<Rightarrow> sys option" where
  "kill_post th signum sys =
     (if sig_ignored sys th signum then Some sys
      else
        let sys = upd_thr th (\<lambda>t. t\<lparr>pending := pending t OR sigmask signum\<rparr>) sys
        in if signum = SIGKILL \<and> th \<noteq> cur_thread sys then in_sched (update_thread th THREAD_READY) sys else Some sys)"

definition do_kill_body ::
  "(int \<Rightarrow> int \<Rightarrow> sys \<Rightarrow> (int \<times> sys) option) \<Rightarrow> (sched \<Rightarrow> sched option) \<Rightarrow> (sched \<Rightarrow> sched option) list
    \<Rightarrow> int \<Rightarrow> int \<Rightarrow> sys \<Rightarrow> (int \<times> sys) option" where
  "do_kill_body rec hs irqs target signum sys =
     (if \<not> valid_signal signum \<or> signum < 0 then Some (- EINVAL, sys)
      else if signum = 0 then Some (0, sys)
      else if 0 < target then
        do {
          proc \<leftarrow> find_process_by_pid sys target;
          let th = proc_thread (procs sys proc);
          sys \<leftarrow> (if signum = SIGCONT then kill_cont rec th sys
                  else if sig_kernel_stop signum then kill_stop rec hs irqs th sys
                  else kill_post th signum sys);
          Some (0, sys)
        }
      else
        map_option (\<lambda>sys. (0, sys))
          (for_each_process
             (\<lambda>proc sys.
               if (if target = 0 then gid (procs sys proc) = gid (procs sys (cur_process sys))
                   else if target = - 1 then 1 < pid (procs sys proc)
                   else gid (procs sys proc) = - target)
               then map_option snd (rec (gid (procs sys proc)) signum sys) else Some sys) sys))"

primrec do_kill ::
  "nat \<Rightarrow> (sched \<Rightarrow> sched option) \<Rightarrow> (sched \<Rightarrow> sched option) list \<Rightarrow> int \<Rightarrow> int \<Rightarrow> sys \<Rightarrow> (int \<times> sys) option" where
  "do_kill 0 hs irqs target signum sys = None"
| "do_kill (Suc n) hs irqs target signum sys = do_kill_body (do_kill n hs irqs) hs irqs target signum sys"

text \<open>\<open>struct signal_frame\<close> on the stack of the user: the address of \<open>sigreturn\<close>, the number, one byte for
  \<open>signaling\<close>, the mask and the registers, 92 bytes.\<close>

definition SIGNAL_FRAME_SIZE :: u32 where "SIGNAL_FRAME_SIZE = 92"

definition put_frame :: "u32 \<Rightarrow> u32 \<Rightarrow> int \<Rightarrow> bool \<Rightarrow> u32 \<Rightarrow> interrupt_registers \<Rightarrow> mem \<Rightarrow> mem" where
  "put_frame frame ret signum sg block r m =
     st_words (frame + 16) (regs_words r)
       (st32 (frame + 12) block
         ((st32 (frame + 4) (word_of_int signum) (st32 frame ret m))(frame + 8 := (if sg then 1 else 0))))"

text \<open>How \<open>handle_signal\<close> ends: back to its caller, in user mode, or in \<open>do_exit\<close>.\<close>

datatype handled = Returned | To_usermode | Exited

definition handle_signal ::
  "(int \<Rightarrow> sys \<Rightarrow> sys option) \<Rightarrow> u32 \<Rightarrow> interrupt_registers \<Rightarrow> u32 \<Rightarrow> sys \<Rightarrow> (handled \<times> interrupt_registers \<times> sys) option" where
  "handle_signal do_exit sigreturn_addr regs restored_sig sys =
     (let ct = cur_thread sys;
          cp = cur_process sys;
          prev_signaling = signaling sys ct
      in if pending (thr sys ct) = 0 then Some (Returned, regs, sys)
         else
           do {
             signum \<leftarrow> next_signal (pending (thr sys ct)) (blocked (thr sys ct));
             (if signum = 0 then Some (Returned, regs, sys)
              else
                do {
                  let from_syscall = (int_no regs = 0x7F);
                  let regs = (if from_syscall then regs\<lparr>eax := word_of_int (- EINTR)\<rparr> else regs);
                  let sys = sys\<lparr>signaling := (signaling sys)(ct := True), uregs := (uregs sys)(ct := regs)\<rparr>;
                  let sys = upd_thr ct (\<lambda>t. t\<lparr>pending := sigdelset (pending t) signum\<rparr>) sys;
                  (if sig_ignored sys ct signum then None
                   else if sig_default_action (procs sys cp) signum then
                     if \<not> sig_fatal (procs sys cp) signum then None
                     else
                       do {
                         let sys = upd_proc cp (\<lambda>p. p\<lparr>caused_signal := signum,
                           proc_flags := (proc_flags p OR SIGNAL_TERMINATED) AND NOT (SIGNAL_CONTINUED OR SIGNAL_STOPED)\<rparr>) sys;
                         let sys = sys\<lparr>signaling := (signaling sys)(ct := False)\<rparr>;
                         let sys = upd_thr ct (\<lambda>t. t\<lparr>pending := sigemptyset\<rparr>) sys;
                         sys \<leftarrow> do_exit signum sys;
                         Some (Exited, regs, sys)
                       }
                   else if sig_user_defined (procs sys cp) signum then
                     do {
                       let regs = regs\<lparr>useresp := useresp regs - SIGNAL_FRAME_SIZE\<rparr>;
                       let sys = sys\<lparr>umem := put_frame (useresp regs) sigreturn_addr signum prev_signaling restored_sig
                         (uregs sys ct) (umem sys)\<rparr>;
                       let act = sighand (procs sys cp) ! nat (signum - 1);
                       let regs = regs\<lparr>eip := sa_handler act\<rparr>;
                       let sys = upd_thr ct (\<lambda>t. t\<lparr>blocked := blocked t OR (sigmask signum OR sa_mask act)\<rparr>) sys;
                       Some (if from_syscall then To_usermode else Returned, regs, sys)
                     }
                   else Some (Returned, regs, sys))
                })
           })"

text \<open>\<open>signal_handler\<close>, with the address of the registers on the kernel stack; \<open>sizeof\<close> is 76. There always is a current thread.\<close>

definition signal_handler ::
  "(int \<Rightarrow> sys \<Rightarrow> sys option) \<Rightarrow> u32 \<Rightarrow> u32 \<Rightarrow> interrupt_registers \<Rightarrow> sys \<Rightarrow> (handled \<times> interrupt_registers \<times> sys) option" where
  "signal_handler do_exit sigreturn_addr regs_addr regs sys =
     (let t = thr sys (cur_thread sys)
      in if pending t = 0 \<or> signaling sys (cur_thread sys) \<or> regs_addr + 76 \<noteq> kernel_stack t
         then Some (Returned, regs, sys)
         else handle_signal do_exit sigreturn_addr regs (blocked t) sys)"

definition sigreturn :: "interrupt_registers \<Rightarrow> sys \<Rightarrow> interrupt_registers \<times> sys" where
  "sigreturn regs sys =
     (let ct = cur_thread sys;
          frame = useresp regs - 4;
          r = words_regs (ld_words (umem sys) (frame + 16) 19);
          sys = sys\<lparr>uregs := (uregs sys)(ct := r), signaling := (signaling sys)(ct := umem sys (frame + 8) \<noteq> 0)\<rparr>
      in (r, upd_thr ct (\<lambda>t. t\<lparr>blocked := ld32 (umem sys) (frame + 12),
           thread_flags := thread_flags t AND NOT TIF_SIGNAL_MANUAL\<rparr>) sys))"

text \<open>
  \<open>do_sigsuspend\<close>: \<open>schedule\<close> returns at once as long as the thread is running, and the loop goes round until an
  interrupt has made a signal pending; \<open>irqs\<close> are the interrupts of the rounds. Without one the call does not end.
\<close>

primrec sigsuspend_loop ::
  "(sched \<Rightarrow> sched option) \<Rightarrow> (sys \<Rightarrow> sys option) list \<Rightarrow> sys \<Rightarrow> sys option" where
  "sigsuspend_loop hs [] sys = (if pending (thr sys (cur_thread sys)) \<noteq> 0 then Some sys else None)"
| "sigsuspend_loop hs (irq # irqs) sys =
     (if pending (thr sys (cur_thread sys)) \<noteq> 0 then Some sys
      else do { sys \<leftarrow> in_sched (schedule hs []) sys; sys \<leftarrow> irq sys; sigsuspend_loop hs irqs sys })"

definition do_sigsuspend ::
  "(int \<Rightarrow> sys \<Rightarrow> sys option) \<Rightarrow> u32 \<Rightarrow> (sched \<Rightarrow> sched option) \<Rightarrow> (sys \<Rightarrow> sys option) list \<Rightarrow> interrupt_registers \<Rightarrow> u32 \<Rightarrow> sys
    \<Rightarrow> (handled \<times> interrupt_registers \<times> sys) option" where
  "do_sigsuspend do_exit sigreturn_addr hs irqs regs sset sys =
     (let ct = cur_thread sys;
          saveset = blocked (thr sys ct)
      in do {
           let sys = upd_thr ct (\<lambda>t. t\<lparr>blocked := ld32 (umem sys) sset,
             thread_flags := thread_flags t OR TIF_SIGNAL_MANUAL\<rparr>) sys;
           sys \<leftarrow> sigsuspend_loop hs irqs sys;
           handle_signal do_exit sigreturn_addr regs saveset sys
         })"

section \<open>The next signal\<close>

lemma for_find_find: "for_find i n (\<lambda>i. if P i then Some i else None) = find P [i..<n]"
proof (induction "n - i" arbitrary: i)
  case (Suc d)
  then have "i < n" by simp
  with Suc(1) [of "Suc i"] Suc(2) show ?case by (simp add: for_find_step upt_conv_Cons)
qed (simp add: for_find_end)

lemma ffz_find: "ffz (NOT w) = find (bit w) [0..<32]"
  unfolding ffz_def bit.double_compl by (rule for_find_find)

lemma word_find_None: "find (bit (w :: u32)) [0..<32] = None \<longleftrightarrow> w = 0"
proof
  assume "find (bit w) [0..<32] = None"
  then have "\<not> bit w n" if "n < 32" for n using that by (auto simp: find_None_iff)
  then show "w = 0" by (intro bit_eqI) simp
qed (simp add: find_None_iff)

lemma find_and: "find (bit (v AND w :: u32)) xs = find (bit v) (filter (bit w) xs)"
  by (induction xs) (auto simp: bit_simps)

text \<open>The order of delivery: signals that dump core, then the others by number, \<open>SIGCONT\<close> last.\<close>

definition sig_order :: "nat list" where
  "sig_order = [3, 4, 5, 6, 7, 8, 11, 24, 25, 31,
     1, 2, 9, 10, 12, 13, 14, 15, 16, 17, 19, 20, 21, 22, 23, 26, 27, 28, 29, 30, 32, 18]"

definition deliverable :: "u32 \<Rightarrow> u32 \<Rightarrow> nat \<Rightarrow> bool" where
  "deliverable pend block n \<longleftrightarrow> bit pend (n - 1) \<and> \<not> bit block (n - 1)"

lemma find_append_new: "find P (xs @ ys @ zs) = find P (xs @ filter (\<lambda>y. y \<notin> set xs) ys @ zs)"
proof (cases "find P xs")
  case None
  then have "find P ys = find P (filter (\<lambda>y. y \<notin> set xs) ys)" by (induction ys) (auto simp: find_None_iff)
  with None show ?thesis by (simp add: find_append)
qed (simp add: find_append)

lemma find_map_Suc: "find P (map Suc xs) = map_option Suc (find (\<lambda>i. P (Suc i)) xs)"
  by (induction xs) auto

lemma sig_filters:
  "filter (bit SIG_KERNEL_COREDUMP_MASK) [0..<32] = [2, 3, 4, 5, 6, 7, 10, 23, 24, 30]"
  "filter (bit (sigmask SIGCONT)) [0..<32] = [17]"
  "filter (\<lambda>y. y \<notin> {2, 3, 4, 5, 6, 7, 10, 23, 24, 30}) (filter (bit (NOT (sigmask SIGCONT))) [0..<32]) =
     [0, 1, 8, 9, 11, 12, 13, 14, 15, 16, 18, 19, 20, 21, 22, 25, 26, 27, 28, 29, 31]"
  by code_simp+

lemma next_signal_find:
  "next_signal pend block =
     Some (case find (bit (pend AND NOT block)) (filter (bit SIG_KERNEL_COREDUMP_MASK) [0..<32] @
         filter (bit (NOT (sigmask SIGCONT))) [0..<32] @ filter (bit (sigmask SIGCONT)) [0..<32])
       of Some i \<Rightarrow> int i + 1 | None \<Rightarrow> 0)"
proof -
  define m where "m = pend AND NOT block"
  have f: "m AND w = 0 \<longleftrightarrow> find (bit m) (filter (bit w) [0..<32]) = None" for w
    unfolding find_and [symmetric] word_find_None ..
  show ?thesis
    unfolding next_signal_def Let_def m_def [symmetric] ffz_find f unfolding find_and find_append sig_filters(2)
    by (auto simp: SIGCONT_def split: option.splits if_splits)
qed

lemma next_signal_order:
  "next_signal pend block = Some (case find (deliverable pend block) sig_order of Some n \<Rightarrow> int n | None \<Rightarrow> 0)"
proof -
  let ?xs = "[2, 3, 4, 5, 6, 7, 10, 23, 24, 30] @
     [0, 1, 8, 9, 11, 12, 13, 14, 15, 16, 18, 19, 20, 21, 22, 25, 26, 27, 28, 29, 31] @ [17] :: nat list"
  have order: "sig_order = map Suc ?xs" by (simp add: sig_order_def)
  have "find (deliverable pend block) sig_order = map_option Suc (find (\<lambda>i. deliverable pend block (Suc i)) ?xs)"
    unfolding order by (rule find_map_Suc)
  moreover have "find (\<lambda>i. deliverable pend block (Suc i)) ?xs = find (bit (pend AND NOT block)) ?xs"
    by (rule find_cong) (auto simp: deliverable_def bit_simps)
  moreover have "find (bit (pend AND NOT block)) ?xs = find (bit (pend AND NOT block)) (filter (bit SIG_KERNEL_COREDUMP_MASK) [0..<32] @
         filter (bit (NOT (sigmask SIGCONT))) [0..<32] @ filter (bit (sigmask SIGCONT)) [0..<32])"
    unfolding sig_filters(1,2) by (subst (2) find_append_new) (simp only: sig_filters(3) list.set)
  ultimately show ?thesis unfolding next_signal_find by (simp split: option.split)
qed

section \<open>The frame on the user's stack\<close>

lemma st32_outside: "4 \<le> k \<Longrightarrow> k < 4294967296 \<Longrightarrow> st32 a w m (a + of_nat k) = m (a + of_nat k)"
proof -
  assume k: "4 \<le> k" "k < 4294967296"
  have "a + of_nat k \<noteq> a + of_nat j" if "j < 4" for j using word_offset_neq [of k j a] k that by simp
  from this [of 0] this [of 1] this [of 2] this [of 3] show ?thesis by (simp add: st32_def)
qed

lemma st_words_outside:
  "4 * length ws \<le> k \<Longrightarrow> k < 4294967296 \<Longrightarrow> st_words a ws m (a + of_nat k) = m (a + of_nat k)"
proof (induction ws arbitrary: a k m)
  case (Cons w ws)
  obtain j where j: "k = j + 4" "4 * length ws \<le> j" using Cons.prems(1) by (intro that [of "k - 4"]) auto
  have "st_words a (w # ws) m (a + of_nat k) = st_words (a + 4) ws (st32 a w m) ((a + 4) + of_nat j)"
    by (simp add: j(1) ac_simps)
  also have "\<dots> = st32 a w m (a + of_nat k)" using Cons.IH [OF j(2), of "a + 4" "st32 a w m"] Cons.prems(2) j(1) by (simp add: ac_simps)
  also have "\<dots> = m (a + of_nat k)" using Cons.prems by (intro st32_outside) simp_all
  finally show ?case .
qed simp

lemma ld32_cong:
  assumes "\<And>k. k < 4 \<Longrightarrow> m (a + of_nat k) = m' (a + of_nat k)"
  shows "ld32 m a = ld32 m' a"
  using assms [of 0] assms [of 1] assms [of 2] assms [of 3] by (simp add: ld32_def)

lemma ld_words_cong:
  "(\<And>k. k < 4 * n \<Longrightarrow> m (a + of_nat k) = m' (a + of_nat k)) \<Longrightarrow> ld_words m a n = ld_words m' a n"
proof (induction n arbitrary: a)
  case (Suc n)
  have "ld32 m a = ld32 m' a" using Suc.prems by (intro ld32_cong) simp
  moreover have "ld_words m (a + 4) n = ld_words m' (a + 4) n"
  proof (rule Suc.IH)
    fix k assume "k < 4 * n"
    then show "m (a + 4 + of_nat k) = m' (a + 4 + of_nat k)" using Suc.prems [of "k + 4"] by (simp add: ac_simps)
  qed
  ultimately show ?case by simp
qed simp

lemma ld_st_words: "4 * length ws \<le> 4294967296 \<Longrightarrow> ld_words (st_words a ws m) a (length ws) = ws"
proof (induction ws arbitrary: a m)
  case (Cons w ws)
  have "ld32 (st_words (a + 4) ws (st32 a w m)) a = ld32 (st32 a w m) a"
  proof (rule ld32_cong)
    fix k :: nat assume k: "k < 4"
    have "(a + 4) + of_nat (4294967292 + k) = a + (of_nat 4294967296 + of_nat k)" by simp
    also have "\<dots> = a + of_nat k" by simp
    finally have eq: "a + of_nat k = (a + 4) + of_nat (4294967292 + k)" by simp
    show "st_words (a + 4) ws (st32 a w m) (a + of_nat k) = st32 a w m (a + of_nat k)"
      unfolding eq using Cons.prems k by (intro st_words_outside) simp_all
  qed
  with Cons show ?case by (simp add: ld32_st32)
qed simp

lemma words_regs_inverse: "words_regs (regs_words r) = r"
  by (simp add: words_regs_def regs_words_def)

lemma length_regs_words [simp]: "length (regs_words r) = 19"
  by (simp add: regs_words_def)

text \<open>What \<open>sigreturn\<close> finds in the frame, and the memory beside the frame.\<close>

lemma put_frame_words: "words_regs (ld_words (put_frame f ret n sg b r m) (f + 16) 19) = r"
  using ld_st_words [of "regs_words r" "f + 16"] by (simp add: put_frame_def words_regs_inverse)

lemma put_frame_low:
  assumes "k < 16"
  shows "put_frame f ret n sg b r m (f + of_nat k) =
    (st32 (f + 12) b ((st32 (f + 4) (word_of_int n) (st32 f ret m))(f + 8 := (if sg then 1 else 0)))) (f + of_nat k)"
proof -
  have "(f + 16) + of_nat (4294967280 + k) = f + (of_nat 4294967296 + of_nat k)" by simp
  also have "\<dots> = f + of_nat k" by simp
  finally have eq: "f + of_nat k = (f + 16) + of_nat (4294967280 + k)" by simp
  show ?thesis unfolding put_frame_def eq by (rule st_words_outside) (use assms in simp_all)
qed

lemma st32_apart:
  assumes "j + 3 < 4294967296" and "k < 4294967296" and "k < j \<or> j + 3 < k"
  shows "st32 (f + of_nat j) w m (f + of_nat k) = m (f + of_nat k)"
proof -
  have "f + of_nat k \<noteq> f + of_nat j + of_nat i" if "i < 4" for i
    using word_offset_neq [of k "j + i" f] assms that by (auto simp: add.assoc)
  from this [of 0] this [of 1] this [of 2] this [of 3] show ?thesis by (simp add: st32_def)
qed

lemma put_frame_fields:
  "ld32 (put_frame f ret n sg b r m) f = ret"
  "put_frame f ret n sg b r m (f + 8) = (if sg then 1 else 0)"
  "ld32 (put_frame f ret n sg b r m) (f + 12) = b"
proof -
  let ?m = "(st32 (f + 4) (word_of_int n) (st32 f ret m))(f + 8 := (if sg then 1 else 0))"
  have "ld32 (put_frame f ret n sg b r m) f = ld32 (st32 f ret m) f"
  proof (rule ld32_cong)
    fix k :: nat assume k: "k < 4"
    have "put_frame f ret n sg b r m (f + of_nat k) = st32 (f + of_nat 12) b ?m (f + of_nat k)" using put_frame_low [of k] k by simp
    also have "\<dots> = ?m (f + of_nat k)" using k by (intro st32_apart) simp_all
    also have "\<dots> = st32 (f + of_nat 4) (word_of_int n) (st32 f ret m) (f + of_nat k)"
      using word_offset_neq [of k 8 f] k by simp
    also have "\<dots> = st32 f ret m (f + of_nat k)" using k by (intro st32_apart) simp_all
    finally show "put_frame f ret n sg b r m (f + of_nat k) = st32 f ret m (f + of_nat k)" .
  qed
  then show "ld32 (put_frame f ret n sg b r m) f = ret" by (simp add: ld32_st32)
  have "put_frame f ret n sg b r m (f + of_nat 8) = st32 (f + of_nat 12) b ?m (f + of_nat 8)" using put_frame_low [of 8] by simp
  also have "\<dots> = ?m (f + of_nat 8)" by (intro st32_apart) simp_all
  finally show "put_frame f ret n sg b r m (f + 8) = (if sg then 1 else 0)" by simp
  have "ld32 (put_frame f ret n sg b r m) (f + 12) = ld32 (st32 (f + 12) b ?m) (f + 12)"
  proof (rule ld32_cong)
    fix k :: nat assume k: "k < 4"
    then show "put_frame f ret n sg b r m (f + 12 + of_nat k) = st32 (f + 12) b ?m (f + 12 + of_nat k)"
      using put_frame_low [of "12 + k"] by (simp add: ac_simps)
  qed
  then show "ld32 (put_frame f ret n sg b r m) (f + 12) = b" by (simp add: ld32_st32)
qed

lemma put_frame_outside:
  assumes "92 \<le> k" and "k < 4294967296"
  shows "put_frame f ret n sg b r m (f + of_nat k) = m (f + of_nat k)"
proof -
  obtain j where j: "k = 16 + j" "76 \<le> j" "j < 4294967296" using assms by (intro that [of "k - 16"]) simp_all
  have "put_frame f ret n sg b r m (f + of_nat k) =
      st32 (f + of_nat 12) b ((st32 (f + of_nat 4) (word_of_int n) (st32 f ret m))(f + of_nat 8 := (if sg then 1 else 0))) (f + of_nat k)"
    unfolding put_frame_def using st_words_outside [of "regs_words r" j "f + 16"] j by (simp add: add.assoc)
  also have "\<dots> = ((st32 (f + of_nat 4) (word_of_int n) (st32 f ret m))(f + of_nat 8 := (if sg then 1 else 0))) (f + of_nat k)"
    using assms by (intro st32_apart) simp_all
  also have "\<dots> = st32 (f + of_nat 4) (word_of_int n) (st32 f ret m) (f + of_nat k)"
    using word_offset_neq [of k 8 f] assms by simp
  also have "\<dots> = m (f + of_nat k)" using st32_outside [of k f] assms by (subst st32_apart) simp_all
  finally show ?thesis .
qed

text \<open>A frame that the user has left as it was.\<close>

definition same_frame :: "u32 \<Rightarrow> mem \<Rightarrow> mem \<Rightarrow> bool" where
  "same_frame f m m' \<longleftrightarrow> (\<forall>k < 92. m' (f + of_nat k) = m (f + of_nat k))"

lemma same_frame_words:
  assumes "same_frame f m m'"
  shows "ld_words m' (f + 16) 19 = ld_words m (f + 16) 19" "m' (f + 8) = m (f + 8)" "ld32 m' (f + 12) = ld32 m (f + 12)"
proof -
  have eq: "m' (f + of_nat j + of_nat k) = m (f + of_nat j + of_nat k)" if "j + k < 92" for j k
    using assms that unfolding same_frame_def add.assoc of_nat_add [symmetric] by blast
  show "ld_words m' (f + 16) 19 = ld_words m (f + 16) 19" using eq [of 16] by (intro ld_words_cong) simp
  show "m' (f + 8) = m (f + 8)" using eq [of 8 0] by simp
  show "ld32 m' (f + 12) = ld32 m (f + 12)" using eq [of 12] by (intro ld32_cong) simp
qed

section \<open>Delivery of a signal\<close>

definition interrupted_regs :: "interrupt_registers \<Rightarrow> interrupt_registers" where
  "interrupted_regs regs = (if int_no regs = 0x7F then regs\<lparr>eax := word_of_int (- EINTR)\<rparr> else regs)"

lemma interrupted_regs_simps [simp]:
  "useresp (interrupted_regs regs) = useresp regs" "int_no (interrupted_regs regs) = int_no regs"
  by (simp_all add: interrupted_regs_def)

lemma handle_signal_user:
  assumes "pending (thr sys (cur_thread sys)) \<noteq> 0"
    and "next_signal (pending (thr sys (cur_thread sys))) (blocked (thr sys (cur_thread sys))) = Some signum" and "signum \<noteq> 0"
    and "sig_user_defined (procs sys (cur_process sys)) signum"
    and "thread_parent (thr sys (cur_thread sys)) = cur_process sys"
  shows "handle_signal do_exit ra regs restored sys =
    (let ct = cur_thread sys; f = useresp regs - SIGNAL_FRAME_SIZE;
         act = sighand (procs sys (cur_process sys)) ! nat (signum - 1)
     in Some (if int_no regs = 0x7F then To_usermode else Returned, (interrupted_regs regs)\<lparr>useresp := f, eip := sa_handler act\<rparr>,
          upd_thr ct (\<lambda>t. t\<lparr>pending := sigdelset (pending t) signum, blocked := blocked t OR (sigmask signum OR sa_mask act)\<rparr>)
            (sys\<lparr>signaling := (signaling sys)(ct := True), uregs := (uregs sys)(ct := interrupted_regs regs),
              umem := put_frame f ra signum (signaling sys ct) restored (interrupted_regs regs) (umem sys)\<rparr>)))"
  using assms by (simp add: handle_signal_def interrupted_regs_def sig_ignored_def sig_user_defined_def sig_default_action_def Let_def)

lemma sigreturn_frame:
  assumes "same_frame f (put_frame f ra n sg b r m) (umem sys)" and "useresp regs = f + 4"
  shows "sigreturn regs sys =
    (r, upd_thr (cur_thread sys) (\<lambda>t. t\<lparr>blocked := b, thread_flags := thread_flags t AND NOT TIF_SIGNAL_MANUAL\<rparr>)
      (sys\<lparr>uregs := (uregs sys)(cur_thread sys := r), signaling := (signaling sys)(cur_thread sys := sg)\<rparr>))"
proof -
  have f: "useresp regs - 4 = f" using assms(2) by simp
  have "umem sys (f + 8) \<noteq> 0 \<longleftrightarrow> sg" by (simp add: same_frame_words [OF assms(1)] put_frame_fields)
  then show ?thesis unfolding sigreturn_def Let_def f
    by (simp add: same_frame_words [OF assms(1)] put_frame_words put_frame_fields)
qed

text \<open>An ignored signal that is pending fails the assertion.\<close>

lemma handle_signal_ignored:
  assumes "next_signal (pending (thr sys (cur_thread sys))) (blocked (thr sys (cur_thread sys))) = Some signum" and "signum \<noteq> 0"
    and "pending (thr sys (cur_thread sys)) \<noteq> 0" and "sig_ignored sys (cur_thread sys) signum"
  shows "handle_signal do_exit ra regs restored sys = None"
proof -
  have "sig_ignored sys' (cur_thread sys) signum" if "blocked (thr sys' (cur_thread sys)) = blocked (thr sys (cur_thread sys))"
      and "thread_parent (thr sys' (cur_thread sys)) = thread_parent (thr sys (cur_thread sys))" and "procs sys' = procs sys" for sys'
    using assms(4) that by (auto simp: sig_ignored_def split: if_splits)
  then show ?thesis using assms(1-3) by (simp add: handle_signal_def Let_def)
qed

section \<open>Sending a signal\<close>

lemma kill_post_other:
  "signum \<noteq> SIGKILL \<Longrightarrow> \<exists>sys'. kill_post th signum sys = Some sys' \<and> mprocess sys' = mprocess sys \<and> procs sys' = procs sys \<and>
     (\<forall>t. t \<noteq> th \<longrightarrow> thr sys' t = thr sys t)"
  by (simp add: kill_post_def Let_def)

lemma do_kill_post:
  assumes "valid_signal signum" and "0 < signum" and "signum \<noteq> SIGCONT" and "\<not> sig_kernel_stop signum"
    and "0 < target" and "find_process_by_pid sys target = Some p"
  shows "do_kill (Suc n) hs irqs target signum sys = map_option (\<lambda>sys. (0, sys)) (kill_post (proc_thread (procs sys p)) signum sys)"
  using assms by (cases "kill_post (proc_thread (procs sys p)) signum sys") (simp_all add: do_kill_body_def)

text \<open>A process that does not exist is a null pointer.\<close>

lemma do_kill_missing:
  "valid_signal signum \<Longrightarrow> 0 < signum \<Longrightarrow> 0 < target \<Longrightarrow> find_process_by_pid sys target = None \<Longrightarrow>
   do_kill n hs irqs target signum sys = None"
  by (cases n) (simp_all add: do_kill_body_def)

lemma for_each_loop_inv:
  assumes "length (table hm) = unat (table_size hm)"
    and "\<And>e. e \<in> set (table hm) \<Longrightarrow> entry_key e \<noteq> None \<Longrightarrow> entry_data e \<noteq> None"
    and "\<And>p sys. I sys \<Longrightarrow> \<exists>sys'. body p sys = Some sys' \<and> I sys'" and "\<And>sys. I sys \<Longrightarrow> mprocess sys = hm"
  shows "I sys \<Longrightarrow> \<exists>sys'. for_each_loop body (hashmap_entry_get_populated hm i) sys = Some sys' \<and> I sys'"
proof (induction "length (table hm) - i" arbitrary: i sys rule: less_induct)
  case less
  note c = get_populated_cases [OF assms(1), of i]
  show ?case
  proof (cases "hashmap_entry_get_populated hm i")
    case None
    then show ?thesis using less.prems by (simp add: for_each_loop.simps)
  next
    case (Some j)
    with c have j: "i \<le> j" "j < length (table hm)" "entry_key (table hm ! j) \<noteq> None" by simp_all
    then obtain p where p: "entry_data (table hm ! j) = Some p" using assms(2) [of "table hm ! j"] by auto
    from assms(3) [OF less.prems] obtain sys1 where s1: "body p sys = Some sys1" "I sys1" by blast
    have "for_each_loop body (Some j) sys = for_each_loop body (hashmap_entry_get_populated hm (j + 1)) sys1"
      using p s1 assms(4) less.prems by (simp add: for_each_loop.simps [of body "Some j"] hashmap_iter_get_data_def hashmap_iter_next_def)
    then show ?thesis using less.hyps [of "j + 1" sys1] s1(2) j Some by auto
  qed
qed

text \<open>The table of processes: every entry leads to a process.\<close>

definition process_table :: "sys \<Rightarrow> bool" where
  "process_table sys \<longleftrightarrow> length (table (mprocess sys)) = unat (table_size (mprocess sys)) \<and>
     (\<forall>e \<in> set (table (mprocess sys)). entry_key e \<noteq> None \<longrightarrow> entry_data e \<noteq> None)"

lemma for_each_process_inv:
  assumes "process_table sys" and "\<And>p sys. I sys \<Longrightarrow> \<exists>sys'. body p sys = Some sys' \<and> I sys'"
    and "\<And>sys'. I sys' \<Longrightarrow> mprocess sys' = mprocess sys" and "I sys"
  shows "\<exists>sys'. for_each_process body sys = Some sys' \<and> I sys'"
proof (cases "num_entries (mprocess sys) = 0")
  case True
  then show ?thesis using assms(4) by (simp add: for_each_process_def hashmap_iter_def for_each_loop.simps)
next
  case False
  have "length (table (mprocess sys)) = unat (table_size (mprocess sys))"
    and "\<And>e. e \<in> set (table (mprocess sys)) \<Longrightarrow> entry_key e \<noteq> None \<Longrightarrow> entry_data e \<noteq> None"
    using assms(1) unfolding process_table_def by blast+
  from for_each_loop_inv [of "mprocess sys" I body sys 0, OF this assms(2,3,4)]
  show ?thesis unfolding for_each_process_def hashmap_iter_def using False by simp
qed

text \<open>A signal to a group is sent once for every member, but always to the process whose number is the group's.\<close>

lemma kill_group_leader:
  assumes "process_table sys" and "valid_signal signum" and "0 < signum" and "signum \<noteq> SIGCONT" and "\<not> sig_kernel_stop signum"
    and "signum \<noteq> SIGKILL" and "target < - 1" and "find_process_by_pid sys (- target) = Some leader"
  shows "\<exists>sys'. do_kill (Suc (Suc n)) hs irqs target signum sys = Some (0, sys') \<and>
    (\<forall>t. t \<noteq> proc_thread (procs sys leader) \<longrightarrow> thr sys' t = thr sys t)"
proof -
  define I where "I sys' \<longleftrightarrow> mprocess sys' = mprocess sys \<and> procs sys' = procs sys \<and>
     (\<forall>t. t \<noteq> proc_thread (procs sys leader) \<longrightarrow> thr sys' t = thr sys t)" for sys'
  let ?body = "\<lambda>proc sys. if (if target = 0 then gid (procs sys proc) = gid (procs sys (cur_process sys))
                   else if target = - 1 then 1 < pid (procs sys proc)
                   else gid (procs sys proc) = - target)
               then map_option snd (do_kill (Suc n) hs irqs (gid (procs sys proc)) signum sys) else Some sys"
  have body: "\<exists>sys2. ?body p sys1 = Some sys2 \<and> I sys2" if I1: "I sys1" for p sys1
  proof (cases "gid (procs sys p) = - target")
    case True
    have procs: "procs sys1 = procs sys" "mprocess sys1 = mprocess sys" using I1 by (simp_all add: I_def)
    have "find_process_by_pid sys1 (- target) = Some leader"
      using procs(2) assms(8) by (simp add: find_process_by_pid_def)
    from do_kill_post [OF assms(2-5) _ this, of n hs irqs] assms(7)
    have k: "do_kill (Suc n) hs irqs (- target) signum sys1 =
        map_option (\<lambda>sys. (0, sys)) (kill_post (proc_thread (procs sys leader)) signum sys1)"
      by (simp add: procs del: do_kill.simps)
    from kill_post_other [OF assms(6)] obtain sys2 where
      s2: "kill_post (proc_thread (procs sys leader)) signum sys1 = Some sys2" "mprocess sys2 = mprocess sys1" "procs sys2 = procs sys1"
        "\<forall>t. t \<noteq> proc_thread (procs sys leader) \<longrightarrow> thr sys2 t = thr sys1 t" by metis
    then have "I sys2" using I1 by (simp add: I_def)
    moreover have "?body p sys1 = Some sys2" using True procs(1) k s2(1) assms(7) by (simp del: do_kill.simps)
    ultimately show ?thesis by blast
  next
    case False
    then show ?thesis using I1 assms(7) by (simp add: I_def del: do_kill.simps)
  qed
  have "\<exists>sys'. for_each_process ?body sys = Some sys' \<and> I sys'"
    by (rule for_each_process_inv [OF assms(1) body]) (simp_all add: I_def)
  then show ?thesis using assms(2,3,7) by (auto simp: do_kill_body_def I_def)
qed

text \<open>\<open>do_sigprocmask\<close> never lets a thread block \<open>SIGKILL\<close> or \<open>SIGSTOP\<close>; \<open>do_sigsuspend\<close> takes the mask as it is.\<close>

lemma do_sigprocmask_kernel_only:
  "blocked (thr sys (cur_thread sys)) AND SIG_KERNEL_ONLY_MASK = 0 \<Longrightarrow> do_sigprocmask how sset oldset sys = (ret, sys') \<Longrightarrow>
   blocked (thr sys' (cur_thread sys')) AND SIG_KERNEL_ONLY_MASK = 0"
  by (auto simp: do_sigprocmask_def Let_def and.assoc split: if_splits)

lemma do_sigaction_kernel_only:
  "do_sigaction SIGKILL act old sys = (- EINVAL, sys)" "do_sigaction SIGSTOP act old sys = (- EINVAL, sys)"
proof -
  have "sig_kernel_only SIGKILL" "sig_kernel_only SIGSTOP" by code_simp+
  then show "do_sigaction SIGKILL act old sys = (- EINVAL, sys)" "do_sigaction SIGSTOP act old sys = (- EINVAL, sys)"
    by (simp_all add: do_sigaction_def)
qed

section \<open>The properties\<close>

text \<open>\<open>next_signal\<close> always has a result: the first pending signal that is not blocked, in the order of the signals
  that dump core, the others by number and \<open>SIGCONT\<close> last; 0 exactly when no pending signal can be delivered.\<close>

theorem next_signal_correct:
  "next_signal pend block = Some (case find (deliverable pend block) sig_order of Some n \<Rightarrow> int n | None \<Rightarrow> 0) \<and>
   (find (deliverable pend block) sig_order = None \<longleftrightarrow> pend AND NOT block = 0)"
proof -
  have "(\<forall>n \<in> set sig_order. \<not> deliverable pend block n) \<longleftrightarrow> pend AND NOT block = 0"
  proof
    assume none: "\<forall>n \<in> set sig_order. \<not> deliverable pend block n"
    have "set sig_order = Suc ` {0..<32}" by code_simp
    then have "\<not> deliverable pend block (Suc k)" if "k < 32" for k using none that by auto
    then show "pend AND NOT block = 0" by (intro bit_eqI) (auto simp: deliverable_def bit_simps)
  next
    assume "pend AND NOT block = 0"
    then have "\<not> bit (pend AND NOT block) k" for k by simp
    moreover have "n - 1 < 32" if "n \<in> set sig_order" for n using that by (auto simp: sig_order_def)
    ultimately show "\<forall>n \<in> set sig_order. \<not> deliverable pend block n" by (auto simp: deliverable_def bit_simps)
  qed
  then show ?thesis by (auto simp: next_signal_order find_None_iff)
qed

text \<open>Three processes with one thread each: process 1 leads the group 2, which has process 2 as a member.\<close>

definition sys_example :: sys where
  "sys_example =
     \<lparr>sg_sched = sched_example, signaling = (\<lambda>_. False), uregs = (\<lambda>_. words_regs (replicate 19 0)),
      procs = (\<lambda>p. \<lparr>pid = int p + 1, gid = (if p = 0 then 1 else 2), sid = 1, proc_parent = Some 0, proc_thread = p,
        sighand = (replicate 32 \<lparr>sa_handler = SIG_DFL, sa_flags = 0, sa_mask = 0\<rparr>)
          [16 := \<lparr>sa_handler = SIG_IGN, sa_flags = 0, sa_mask = 0\<rparr>, 9 := \<lparr>sa_handler = 0x1000, sa_flags = 0, sa_mask = 0\<rparr>],
        exit_code = 0, caused_signal = 0, proc_flags = 0, wait_chld = [], children = []\<rparr>),
      mprocess = \<lparr>table_size_init = 32, table_size = 32, num_entries = 3,
        table = [zero_entry, \<lparr>entry_key = Some 1, entry_data = Some 0\<rparr>, \<lparr>entry_key = Some 2, entry_data = Some 1\<rparr>,
          \<lparr>entry_key = Some 3, entry_data = Some 2\<rparr>] @ replicate 28 zero_entry,
        hash = hashmap_hash_uint32, key_compare = hashmap_compare_uint32, key_alloc = None, key_free = False, freed = []\<rparr>,
      umem = (\<lambda>_. 0)(6 := 1)\<rparr>"

lemma sys_example_simps:
  "cur_thread sys_example = 0" "cur_process sys_example = 0" "thread_parent (thr sys_example t) = t"
  "proc_thread (procs sys_example p) = p" "pid (procs sys_example p) = int p + 1"
  "sa_handler (sighand (procs sys_example p) ! 16) = SIG_IGN" "sa_handler (sighand (procs sys_example p) ! 9) = 0x1000"
  "pending (thr sys_example t) = 0" "blocked (thr sys_example t) = 0" "useresp (words_regs (replicate 19 0)) = 0"
  by (simp_all add: sys_example_def sched_example_def words_regs_def)

lemma sys_example_table: "process_table sys_example"
  by (auto simp: process_table_def sys_example_def zero_entry_def)

lemma sys_example_find: "find_process_by_pid sys_example 1 = Some 0" "find_process_by_pid sys_example 2 = Some 1"
  by code_simp+

text \<open>C17: When the next signal has a handler, \<open>handle_signal\<close> makes the thread continue in the handler with the signal
  and the mask of the action blocked, the signal not pending any more, and a return address that leads to \<open>sigreturn\<close>;
  it writes 92 bytes of the user's memory and nothing else of it. However the rest of the state has changed
  when the handler returns, if the frame has not, \<open>sigreturn\<close> gives the thread back the registers it was interrupted with
  (with \<open>-EINTR\<close> in \<open>eax\<close> for a system call), its mask and its \<open>signaling\<close> flag.\<close>

theorem signal_frame_roundtrip:
  assumes "pending (thr sys (cur_thread sys)) \<noteq> 0"
    and "next_signal (pending (thr sys (cur_thread sys))) (blocked (thr sys (cur_thread sys))) = Some signum" and "signum \<noteq> 0"
    and "sig_user_defined (procs sys (cur_process sys)) signum"
    and "thread_parent (thr sys (cur_thread sys)) = cur_process sys"
  shows "\<exists>h regs1 sys1. handle_signal do_exit ra regs restored sys = Some (h, regs1, sys1) \<and> h \<noteq> Exited \<and>
    (let ct = cur_thread sys; act = sighand (procs sys (cur_process sys)) ! nat (signum - 1); f = useresp regs1
     in eip regs1 = sa_handler act \<and> f = useresp regs - 92 \<and> ld32 (umem sys1) f = ra \<and>
       pending (thr sys1 ct) = sigdelset (pending (thr sys ct)) signum \<and>
       blocked (thr sys1 ct) = blocked (thr sys ct) OR (sigmask signum OR sa_mask act) \<and>
       (\<forall>k. 92 \<le> k \<and> k < 4294967296 \<longrightarrow> umem sys1 (f + of_nat k) = umem sys (f + of_nat k)) \<and>
       (\<forall>regs2 sys2. useresp regs2 = f + 4 \<and> cur_thread sys2 = ct \<and> same_frame f (umem sys1) (umem sys2) \<longrightarrow>
          (\<exists>sys3. sigreturn regs2 sys2 = (interrupted_regs regs, sys3) \<and> blocked (thr sys3 ct) = restored \<and>
             signaling sys3 ct = signaling sys ct \<and> uregs sys3 ct = interrupted_regs regs)))"
  unfolding handle_signal_user [OF assms] Let_def
  by (auto simp: SIGNAL_FRAME_SIZE_def put_frame_fields put_frame_outside sigreturn_frame)

theorem signal_frame_roundtrip_witness:
  "let sys = upd_thr 0 (\<lambda>t. t\<lparr>pending := 512\<rparr>) sys_example
   in \<exists>h regs1 sys1. handle_signal (\<lambda>_. Some) 0xC0000000 (words_regs (replicate 19 0)) 0 sys = Some (h, regs1, sys1) \<and>
     eip regs1 = 0x1000 \<and> useresp regs1 = - 92 \<and> ld32 (umem sys1) (- 92) = 0xC0000000"
proof -
  let ?sys = "upd_thr 0 (\<lambda>t. t\<lparr>pending := 512\<rparr>) sys_example"
  have ns: "next_signal 512 0 = Some 10" by code_simp
  have "sig_user_defined (procs ?sys 0) 10"
    by (simp add: sig_user_defined_def sys_example_simps SIG_DFL_def SIG_IGN_def)
  then show ?thesis
    using signal_frame_roundtrip [of ?sys 10 "\<lambda>_. Some" "0xC0000000" "words_regs (replicate 19 0)" 0] ns
    by (auto simp: sys_example_simps Let_def)
qed

text \<open>A signal to a process group (other than \<open>SIGCONT\<close>, \<open>SIGKILL\<close> and the stop signals) is sent to the process whose number
  is the group's and to no other thread, whoever the members of the group are.\<close>

theorem do_kill_group_only_leader:
  assumes "process_table sys" and "valid_signal signum" and "0 < signum" and "signum \<noteq> SIGCONT" and "\<not> sig_kernel_stop signum"
    and "signum \<noteq> SIGKILL" and "target < - 1" and "find_process_by_pid sys (- target) = Some leader"
  shows "\<exists>sys'. do_kill (Suc (Suc n)) hs irqs target signum sys = Some (0, sys') \<and>
    (\<forall>t. t \<noteq> proc_thread (procs sys leader) \<longrightarrow> thr sys' t = thr sys t)"
  by (rule kill_group_leader [OF assms])

theorem do_kill_group_only_leader_witness:
  "\<exists>sys'. do_kill 2 Some [] (- 2) 10 sys_example = Some (0, sys') \<and> gid (procs sys_example 2) = 2 \<and> thr sys' 2 = thr sys_example 2"
proof -
  have "valid_signal 10" "(10 :: int) \<noteq> SIGCONT" "\<not> sig_kernel_stop 10" "(10 :: int) \<noteq> SIGKILL" by code_simp+
  from do_kill_group_only_leader [OF sys_example_table this(1) _ this(2,3,4), of "- 2" 1 0 Some "[]"] sys_example_find(2)
  show ?thesis by (auto simp: sys_example_simps numeral_2_eq_2 simp del: do_kill.simps) (simp add: sys_example_def)
qed

text \<open>A process that blocks \<open>SIGCHLD\<close>, which it ignores, sends it to itself and unblocks it stops the kernel: the signal is
  entered because it is blocked, and when it is delivered the assertion that it is not ignored fails.\<close>

theorem unblocked_ignored_signal_asserts:
  assumes "ct = cur_thread sys" and "cp = cur_process sys" and "thread_parent (thr sys ct) = cp" and "proc_thread (procs sys cp) = ct"
    and "0 < pid (procs sys cp)" and "find_process_by_pid sys (pid (procs sys cp)) = Some cp"
    and "sa_handler (sighand (procs sys cp) ! 16) = SIG_IGN" and "pending (thr sys ct) = 0" and "blocked (thr sys ct) = 0"
    and "a \<noteq> 0" and "ld32 (umem sys) a = sigmask SIGCHLD"
  shows "\<exists>sys1 sys2 sys3. do_sigprocmask SIG_BLOCK a 0 sys = (0, sys1) \<and>
    do_kill (Suc n) hs irqs (pid (procs sys cp)) SIGCHLD sys1 = Some (0, sys2) \<and>
    do_sigprocmask SIG_UNBLOCK a 0 sys2 = (0, sys3) \<and> handle_signal do_exit ra regs restored sys3 = None"
proof -
  have m: "sigmask SIGCHLD = 65536" "SIG_KERNEL_ONLY_MASK = 262400" by code_simp+
  define sys1 where "sys1 = upd_thr ct (\<lambda>t. t\<lparr>blocked := 65536\<rparr>) sys"
  have s1: "do_sigprocmask SIG_BLOCK a 0 sys = (0, sys1)"
    using assms(1,9,10,11) by (simp add: do_sigprocmask_def sys1_def m Let_def SIG_BLOCK_def)
  define sys2 where "sys2 = upd_thr ct (\<lambda>t. t\<lparr>pending := 65536\<rparr>) sys1"
  have find: "find_process_by_pid sys1 (pid (procs sys cp)) = Some cp" using assms(6) by (simp add: find_process_by_pid_def sys1_def)
  have "valid_signal SIGCHLD" "SIGCHLD \<noteq> SIGCONT" "\<not> sig_kernel_stop SIGCHLD" "0 < SIGCHLD" by code_simp+
  from do_kill_post [OF this(1,4,2,3) assms(5) find, of n hs irqs] assms(1,4,8)
  have s2: "do_kill (Suc n) hs irqs (pid (procs sys cp)) SIGCHLD sys1 = Some (0, sys2)"
    by (simp add: kill_post_def sig_ignored_def sigismember_def m m [unfolded SIGCHLD_def] sys1_def sys2_def SIGCHLD_def SIGKILL_def Let_def del: do_kill.simps)
  define sys3 where "sys3 = upd_thr ct (\<lambda>t. t\<lparr>blocked := 0\<rparr>) sys2"
  have s3: "do_sigprocmask SIG_UNBLOCK a 0 sys2 = (0, sys3)"
    using assms(1,9,10,11) by (simp add: do_sigprocmask_def sys3_def sys2_def sys1_def m Let_def SIG_UNBLOCK_def SIG_BLOCK_def)
  have t3: "cur_thread sys3 = ct" "pending (thr sys3 ct) = 65536" "blocked (thr sys3 ct) = 0"
      "thread_parent (thr sys3 ct) = cp" "procs sys3 = procs sys"
    using assms(1,3) by (simp_all add: sys3_def sys2_def sys1_def)
  have "next_signal 65536 0 = Some 17" by code_simp
  then have "handle_signal do_exit ra regs restored sys3 = None"
    using assms(7) t3 by (intro handle_signal_ignored [of _ 17]) (simp_all add: sig_ignored_def sigismember_def)
  with s1 s2 s3 show ?thesis by blast
qed

theorem unblocked_ignored_signal_asserts_witness:
  "\<exists>sys1 sys2 sys3. do_sigprocmask SIG_BLOCK 4 0 sys_example = (0, sys1) \<and>
    do_kill 1 Some [] 1 SIGCHLD sys1 = Some (0, sys2) \<and> do_sigprocmask SIG_UNBLOCK 4 0 sys2 = (0, sys3) \<and>
    handle_signal (\<lambda>_. Some) 0xC0000000 (words_regs (replicate 19 0)) 0 sys3 = None"
proof -
  have "ld32 (umem sys_example) 4 = sigmask SIGCHLD" by code_simp
  from unblocked_ignored_signal_asserts [OF refl refl _ _ _ _ _ _ _ _ this, of 0 Some "[]"] show ?thesis
    by (simp add: sys_example_simps sys_example_find del: do_kill.simps)
qed

end
