(* ===== verification/Str_Util.thy ===== *)
theory Str_Util
  imports Mem_Copy "HOL-Library.Signed_Division"
begin

text \<open>
  The helpers of \<open>kernel/utils/string.c\<close>: conversions between numbers and strings, trimming, replacement and the search for
  the last occurrence of a string, on the memory of bytes.

  A result \<open>None\<close> stands for an access outside an array, a division by zero, an overflow of a signed integer, or a loop
  without end. The lemmas give what each routine does to terminated strings, and that \<open>atoi\<close> reads back what \<open>itoa_s\<close> wrote.
\<close>

section \<open>Numbers\<close>

definition bchars :: "u8 list" where
  "bchars = [48, 49, 50, 51, 52, 53, 54, 55, 56, 57, 65, 66, 67, 68, 69, 70]"

primrec write_bytes :: "u8 list \<Rightarrow> u32 \<Rightarrow> mem \<Rightarrow> mem" where
  "write_bytes [] p m = m"
| "write_bytes (x # xs) p m = write_bytes xs (p + 1) (m(p := x))"

text \<open>The first loop of \<open>itoa\<close>, which fills \<open>tbuf\<close> with the digits from the last to the first. The remainder of a negative
  number is negative.\<close>

function itoa_digits :: "int \<Rightarrow> int \<Rightarrow> nat \<Rightarrow> u8 list \<Rightarrow> (nat \<times> u8 list) option" where
  "itoa_digits i base pos tbuf =
     (if i \<noteq> 0 then
        if base \<noteq> 0 \<and> pos < 32 \<and> 0 \<le> i smod base \<and> i smod base < 16
        then itoa_digits (i sdiv base) base (pos + 1) (tbuf[pos := bchars ! nat (i smod base)])
        else None
      else Some (pos, tbuf))"
  by pat_completeness auto
termination
  by (relation "measure (\<lambda>(i, base, pos, tbuf). 32 - pos)") auto

declare itoa_digits.simps [simp del]

text \<open>\<open>tbuf\<close> is static, but what an earlier call left in it is overwritten before it is read. A \<open>long long\<close> is the
  mathematical integer it stands for.\<close>

definition itoa :: "int \<Rightarrow> u32 \<Rightarrow> u32 \<Rightarrow> mem \<Rightarrow> mem option" where
  "itoa i base buf m =
     (if i = 0 \<or> 16 < base then Some (write_bytes [48, 0] buf m)
      else
        do {
          (top, tbuf) \<leftarrow> itoa_digits i (uint base) 0 (replicate 32 0);
          Some (write_bytes (rev (take top tbuf) @ [0]) buf m)
        })"

definition itoa_s :: "int \<Rightarrow> u32 \<Rightarrow> u32 \<Rightarrow> mem \<Rightarrow> mem option" where
  "itoa_s i base buf m =
     (if 16 < base then Some m
      else if i < 0 then
        (if i = - (2 ^ 63) then None else itoa (i * - 1) base (buf + 1) (m(buf := 45)))
      else itoa i base buf m)"

partial_function (option) atoi_loop :: "mem \<Rightarrow> u32 \<Rightarrow> int \<Rightarrow> int option" where
  "atoi_loop m s res =
     (if m s \<noteq> 0 \<and> 48 \<le> m s \<and> m s \<le> 57 then
        (if 10 * res + (uint (m s) - 48) \<le> 2147483647 then atoi_loop m (s + 1) (10 * res + (uint (m s) - 48)) else None)
      else Some res)"

definition atoi :: "mem \<Rightarrow> u32 \<Rightarrow> int option" where
  "atoi m s =
     (if m s = 45 then map_option (\<lambda>res. res * - 1) (atoi_loop m (s + 1) 0)
      else if m s = 43 then atoi_loop m (s + 1) 0
      else atoi_loop m s 0)"

section \<open>Strings\<close>

definition isspace :: "u8 \<Rightarrow> bool" where
  "isspace c \<longleftrightarrow> c = 32 \<or> 9 \<le> c \<and> c \<le> 13"

partial_function (option) skip_spaces :: "mem \<Rightarrow> u32 \<Rightarrow> u32 option" where
  "skip_spaces m str = (if isspace (m str) then skip_spaces m (str + 1) else Some str)"

partial_function (option) strim_back :: "mem \<Rightarrow> u32 \<Rightarrow> u32 \<Rightarrow> u32 option" where
  "strim_back m s e = (if s \<le> e \<and> isspace (m e) then strim_back m s (e - 1) else Some e)"

definition strim :: "mem \<Rightarrow> u32 \<Rightarrow> (u32 \<times> mem) option" where
  "strim m s =
     do {
       sz \<leftarrow> strlen m s;
       (if sz = 0 then Some (s, m)
        else
          do {
            e \<leftarrow> strim_back m s (s + sz - 1);
            let m = m(e + 1 := 0);
            r \<leftarrow> skip_spaces m s;
            Some (r, m)
          })
     }"

partial_function (option) strrstr_loop :: "mem \<Rightarrow> u32 \<Rightarrow> u32 \<Rightarrow> nat \<Rightarrow> u32 \<Rightarrow> u32 option option" where
  "strrstr_loop m str pat findlen cp =
     (if str \<le> cp then
        if strncmp m cp pat findlen = 0 then Some (Some cp) else strrstr_loop m str pat findlen (cp - 1)
      else Some None)"

definition strrstr :: "mem \<Rightarrow> u32 \<Rightarrow> u32 \<Rightarrow> u32 option option" where
  "strrstr m str pat =
     do {
       findlen \<leftarrow> strlen m pat;
       stringlen \<leftarrow> strlen m str;
       (if stringlen < findlen then Some None
        else strrstr_loop m str pat (unat findlen) (str + stringlen - findlen))
     }"

partial_function (option) strreplace :: "mem \<Rightarrow> u32 \<Rightarrow> u8 \<Rightarrow> u8 \<Rightarrow> (u32 \<times> mem) option" where
  "strreplace m s old new =
     (if m s \<noteq> 0 then
        (if m s = old then strreplace (m(s := new)) (s + 1) old new else strreplace m (s + 1) old new)
      else Some (s, m))"

definition striof :: "mem \<Rightarrow> u32 \<Rightarrow> u32 \<Rightarrow> int option" where
  "striof m s1 s2 = map_option (\<lambda>s. case s of Some s \<Rightarrow> sint (s - s1) | None \<Rightarrow> - 1) (strpbrk m s1 s2)"

definition strliof :: "mem \<Rightarrow> u32 \<Rightarrow> u32 \<Rightarrow> int option" where
  "strliof m s1 s2 = map_option (\<lambda>s. case s of Some s \<Rightarrow> sint (s - s1) | None \<Rightarrow> - 1) (strrstr m s1 s2)"

text \<open>\<open>strlsplat\<close>: the blocks \<open>a1\<close> and \<open>a2\<close> are the results of its two calls of \<open>kcalloc\<close>, \<open>sf\<close> and \<open>sl\<close> say whether the
  pointers are given; the result holds the values stored through them.\<close>

definition strlsplat ::
  "mem \<Rightarrow> u32 \<Rightarrow> int \<Rightarrow> bool \<Rightarrow> bool \<Rightarrow> u32 \<Rightarrow> u32 \<Rightarrow> (int \<times> u32 option \<times> u32 option \<times> mem) option" where
  "strlsplat m s1 pos sf sl a1 a2 =
     (if pos < 0 then Some (- 1, None, None, m)
      else
        do {
          len \<leftarrow> strlen m s1;
          let (r1, m) = (if pos \<noteq> 0 \<and> sf
            then (Some a1, memcpy a1 s1 (nat pos) (memset a1 0 (nat pos + 1) m)) else (None, m));
          let (r2, m) = (if pos < sint len \<and> sl
            then (Some a2, memcpy a2 (s1 + word_of_int pos + 1) (unat (len - 1 - word_of_int pos))
                   (memset a2 0 (unat (len - word_of_int pos)) m)) else (None, m));
          Some (0, r1, r2, m)
        })"

partial_function (option) count_pointers :: "mem \<Rightarrow> u32 \<Rightarrow> nat \<Rightarrow> nat option" where
  "count_pointers m a n = (if ld32 m a \<noteq> 0 then count_pointers m (a + 4) (n + 1) else Some n)"

definition count_array_of_pointers :: "mem \<Rightarrow> u32 \<Rightarrow> nat option" where
  "count_array_of_pointers m arr = (if arr = 0 then Some 0 else count_pointers m arr 0)"

section \<open>Digits\<close>

lemma write_bytes_written: "length xs \<le> 4294967296 \<Longrightarrow> written m (write_bytes xs p m) p (length xs) (\<lambda>i. xs ! i)"
proof (induction xs arbitrary: p m)
  case Nil
  then show ?case by (simp add: written_def)
next
  case (Cons x xs)
  have "written m (m(p := x)) p 1 (\<lambda>i. (x # xs) ! i)" by (simp add: written_def)
  moreover have "written (m(p := x)) (write_bytes xs (p + 1) (m(p := x))) (p + of_nat 1) (length xs) (\<lambda>i. (x # xs) ! (1 + i))"
    using Cons by simp
  ultimately have "written m (write_bytes xs (p + 1) (m(p := x))) p (1 + length xs) (\<lambda>i. (x # xs) ! i)"
    by (rule written_append) (use Cons.prems in simp)
  then show ?case by simp
qed

lemma write_bytes_cstr:
  assumes "0 \<notin> set xs" and "length xs < 4294967296"
  shows "cstr (write_bytes (xs @ [0]) p m) p xs"
  using write_bytes_written [of "xs @ [0]" m p] assms by (intro written_cstr) simp_all

lemma write_bytes_other:
  assumes "length xs \<le> 4294967296" and "\<And>i. i < length xs \<Longrightarrow> x \<noteq> p + of_nat i"
  shows "write_bytes xs p m x = m x"
  using write_bytes_written [OF assms(1), of m p] assms(2) unfolding written_def by blast

text \<open>The value of a digit and of a numeral.\<close>

definition digit :: "u8 \<Rightarrow> int" where
  "digit c = uint c - (if c \<le> 57 then 48 else 55)"

definition numeral_value :: "int \<Rightarrow> u8 list \<Rightarrow> int" where
  "numeral_value base ds = foldl (\<lambda>v c. v * base + digit c) 0 ds"

lemma digit_bchars: "n < 16 \<Longrightarrow> digit (bchars ! n) = int n \<and> bchars ! n \<noteq> 0 \<and> (bchars ! n = 48 \<longrightarrow> n = 0)"
proof -
  have "\<forall>n \<in> set [0..<16]. digit (bchars ! n) = int n \<and> bchars ! n \<noteq> 0 \<and> (bchars ! n = 48 \<longrightarrow> n = 0)" by code_simp
  then show "n < 16 \<Longrightarrow> ?thesis" by simp
qed

lemma decimal_digits: "c \<in> set (take 10 bchars) \<Longrightarrow> 48 \<le> c \<and> c \<le> 57 \<and> digit c = uint c - 48 \<and> 0 \<le> digit c \<and> c \<noteq> 0"
proof -
  have "\<forall>c \<in> set (take 10 bchars). 48 \<le> c \<and> c \<le> 57 \<and> digit c = uint c - 48 \<and> 0 \<le> digit c \<and> c \<noteq> 0" by code_simp
  then show "c \<in> set (take 10 bchars) \<Longrightarrow> ?thesis" by blast
qed

lemma bchars_take: "n < b \<Longrightarrow> b \<le> 16 \<Longrightarrow> bchars ! n \<in> set (take b bchars)"
  by (auto simp: in_set_conv_nth bchars_def intro!: exI [of _ n])

lemma itoa_digits_ok:
  assumes b: "2 \<le> b" "b \<le> 16"
  shows "0 \<le> i \<Longrightarrow> i < b ^ k \<Longrightarrow> pos + k \<le> 32 \<Longrightarrow> length tbuf = 32 \<Longrightarrow>
    \<exists>ds tb. itoa_digits i b pos tbuf = Some (pos + length ds, tb) \<and> length ds \<le> k \<and>
      take (pos + length ds) tb = take pos tbuf @ ds \<and> numeral_value b (rev ds) = i \<and>
      set ds \<subseteq> set (take (nat b) bchars) \<and> (i \<noteq> 0 \<longrightarrow> ds \<noteq> [] \<and> last ds \<noteq> 48)"
proof (induction k arbitrary: i pos tbuf)
  case 0
  then have "i = 0" by simp
  then show ?case by (intro exI [of _ "[]"] exI [of _ tbuf]) (simp add: itoa_digits.simps numeral_value_def)
next
  case (Suc k)
  show ?case
  proof (cases "i = 0")
    case True
    then show ?thesis by (intro exI [of _ "[]"] exI [of _ tbuf]) (simp add: itoa_digits.simps numeral_value_def)
  next
    case False
    define d where "d = i mod b"
    define c where "c = bchars ! nat d"
    have d: "0 \<le> d" "d < b" "d < 16" using b by (simp_all add: d_def order.strict_trans2 [OF pos_mod_bound])
    have sm: "i smod b = d" "i sdiv b = i div b" using Suc.prems(1) False b by (simp_all add: signed_modulo_int_def signed_divide_int_def d_def)
    have c: "digit c = d" "c = 48 \<longrightarrow> d = 0" "c \<in> set (take (nat b) bchars)"
    proof -
      have "nat d < 16" "nat d < nat b" "nat b \<le> 16" using d b by simp_all
      note digit_bchars [OF this(1)] bchars_take [OF this(2,3)]
      then show "digit c = d" "c = 48 \<longrightarrow> d = 0" "c \<in> set (take (nat b) bchars)"
        unfolding c_def using d(1) by auto
    qed
    have "i < b ^ k * b" using Suc.prems(2) by (simp add: mult.commute)
    have "i div b < b ^ k"
    proof (rule ccontr)
      assume "\<not> i div b < b ^ k"
      then have "b ^ k * b \<le> i div b * b" using b by (intro mult_right_mono) simp_all
      also have "\<dots> \<le> i" using b div_mult_mod_eq [of i b] pos_mod_sign [of b i] by linarith
      finally show False using \<open>i < b ^ k * b\<close> by simp
    qed
    moreover have "0 \<le> i div b" using Suc.prems(1) b by (simp add: pos_imp_zdiv_nonneg_iff)
    ultimately obtain ds tb where IH: "itoa_digits (i div b) b (pos + 1) (tbuf[pos := c]) = Some (pos + 1 + length ds, tb)"
        "length ds \<le> k" "take (pos + 1 + length ds) tb = take (pos + 1) (tbuf[pos := c]) @ ds"
        "numeral_value b (rev ds) = i div b" "set ds \<subseteq> set (take (nat b) bchars)" "i div b \<noteq> 0 \<longrightarrow> ds \<noteq> [] \<and> last ds \<noteq> 48"
      using Suc.IH [of "i div b" "pos + 1" "tbuf[pos := c]"] Suc.prems(3,4) by auto
    have "itoa_digits i b pos tbuf = Some (pos + length (c # ds), tb)"
      using False Suc.prems(3) b d IH(1) by (subst itoa_digits.simps) (simp add: sm c_def)
    moreover have "take (pos + 1) (tbuf[pos := c]) = take pos tbuf @ [c]"
      using Suc.prems(3,4) by (simp add: take_Suc_conv_app_nth)
    moreover have "numeral_value b (rev (c # ds)) = i"
      using IH(4) c(1) by (simp add: numeral_value_def d_def)
    moreover have "last (c # ds) \<noteq> 48"
    proof (cases "ds = []")
      case True
      then have "i div b = 0" using IH(6) by blast
      then have "d = i" using div_mult_mod_eq [of i b] by (simp add: d_def)
      then show ?thesis using c(2) False True by auto
    next
      case False
      show ?thesis
      proof (cases "i div b = 0")
        case True
        then have "itoa_digits (i div b) b (pos + 1) (tbuf[pos := c]) = Some (pos + 1, tbuf[pos := c])"
          by (simp add: itoa_digits.simps)
        then show ?thesis using IH(1) False by simp
      qed (use IH(6) False in simp)
    qed
    ultimately show ?thesis using IH(2,3,5) c(3) by (intro exI [of _ "c # ds"] exI [of _ tb]) simp
  qed
qed

text \<open>\<open>itoa\<close> writes the numeral without leading zeros.\<close>

lemma itoa_ok:
  assumes "2 \<le> base" "base \<le> 16" "0 \<le> i" "i < uint base ^ k" "0 < k" "k \<le> 32"
  shows "\<exists>ds. itoa i base buf m = Some (write_bytes (ds @ [0]) buf m) \<and> ds \<noteq> [] \<and> length ds \<le> k \<and>
    numeral_value (uint base) ds = i \<and> set ds \<subseteq> set (take (unat base) bchars) \<and> (hd ds = 48 \<longrightarrow> i = 0)"
proof -
  have b: "2 \<le> uint base" "uint base \<le> 16" using assms(1,2) by (simp_all add: word_le_def)
  show ?thesis
  proof (cases "i = 0")
    case True
    have "bchars ! 0 \<in> set (take (unat base) bchars)" 
      using assms(1,2) by (intro bchars_take) (simp_all add: word_le_nat_alt)
    then have "48 \<in> set (take (unat base) bchars)" by (simp add: bchars_def)
    then show ?thesis using True assms(5) by (intro exI [of _ "[48]"]) (simp add: itoa_def numeral_value_def digit_def)
  next
    case False
    obtain ds tb where d: "itoa_digits i (uint base) 0 (replicate 32 0) = Some (length ds, tb)" "length ds \<le> k"
        "take (length ds) tb = ds" "numeral_value (uint base) (rev ds) = i" "set ds \<subseteq> set (take (nat (uint base)) bchars)"
        "ds \<noteq> []" "last ds \<noteq> 48"
      using itoa_digits_ok [OF b assms(3,4), of 0 "replicate 32 0"] assms(6) False by auto
    moreover have "\<not> 16 < base" using assms(2) by simp
    ultimately show ?thesis using False by (intro exI [of _ "rev ds"]) (simp add: itoa_def hd_rev)
  qed
qed

section \<open>Reading a number\<close>

lemma decimal_mono:
  assumes "\<And>c. c \<in> set ds \<Longrightarrow> 0 \<le> digit c" and "0 \<le> v"
  shows "v \<le> foldl (\<lambda>v c. v * 10 + digit c) v ds"
  using assms
proof (induction ds arbitrary: v)
  case (Cons c ds)
  have "v \<le> v * 10 + digit c" using Cons.prems(1) [of c] Cons.prems(2) by simp
  also have "\<dots> \<le> foldl (\<lambda>v c. v * 10 + digit c) (v * 10 + digit c) ds"
    by (rule Cons.IH) (use Cons.prems in auto)
  finally show ?case by simp
qed simp

lemma atoi_loop_cstr:
  assumes "cstr m p ds" and "set ds \<subseteq> set (take 10 bchars)" and "0 \<le> v"
    and "foldl (\<lambda>v c. v * 10 + digit c) v ds \<le> 2147483647"
  shows "atoi_loop m p v = Some (foldl (\<lambda>v c. v * 10 + digit c) v ds)"
  using assms
proof (induction ds arbitrary: p v)
  case Nil
  then show ?case by (simp add: atoi_loop.simps)
next
  case (Cons c ds)
  have c: "48 \<le> c" "c \<le> 57" "digit c = uint c - 48" "0 \<le> digit c" using decimal_digits [of c] Cons.prems(2) by auto
  have "v * 10 + digit c \<le> foldl (\<lambda>v c. v * 10 + digit c) (v * 10 + digit c) ds"
    by (rule decimal_mono) (use Cons.prems(2,3) c decimal_digits in auto)
  then have "v * 10 + digit c \<le> 2147483647" using Cons.prems(4) by simp
  then have "atoi_loop m p v = atoi_loop m (p + 1) (v * 10 + digit c)"
    using Cons.prems(1) c by (subst atoi_loop.simps) (simp add: mult.commute)
  also have "\<dots> = Some (foldl (\<lambda>v c. v * 10 + digit c) (v * 10 + digit c) ds)"
    by (rule Cons.IH) (use Cons.prems c in auto)
  finally show ?case by simp
qed

lemma atoi_cstr:
  assumes "set ds \<subseteq> set (take 10 bchars)" and "numeral_value 10 ds \<le> 2147483647"
  shows "cstr m p ds \<Longrightarrow> atoi m p = Some (numeral_value 10 ds)"
    and "m p = 45 \<Longrightarrow> cstr m (p + 1) ds \<Longrightarrow> atoi m p = Some (- numeral_value 10 ds)"
proof -
  have loop: "atoi_loop m q 0 = Some (numeral_value 10 ds)" if "cstr m q ds" for q
    using atoi_loop_cstr [OF that assms(1), of 0] assms(2) by (simp add: numeral_value_def)
  show "atoi m p = Some (numeral_value 10 ds)" if c: "cstr m p ds"
  proof -
    have "m p \<noteq> 45 \<and> m p \<noteq> 43"
    proof (cases ds)
      case (Cons x ds')
      then show ?thesis using c decimal_digits [of x] assms(1) by (auto simp: word_le_nat_alt)
    qed (use c in simp)
    then show ?thesis using loop [OF c] by (simp add: atoi_def)
  qed
  show "atoi m p = Some (- numeral_value 10 ds)" if "m p = 45" "cstr m (p + 1) ds"
    using that loop [OF that(2)] by (simp add: atoi_def)
qed

section \<open>Trimming and searching\<close>

lemma skip_spaces_cstr:
  "cstr m p xs \<Longrightarrow> skip_spaces m p = Some (p + of_nat (length (takeWhile isspace xs)))"
proof (induction xs arbitrary: p)
  case Nil
  then show ?case by (simp add: skip_spaces.simps isspace_def)
next
  case (Cons x xs)
  then show ?case by (subst skip_spaces.simps) (simp add: add.assoc)
qed

lemma pred_below: "0 < unat s \<Longrightarrow> \<not> s \<le> s - (1 :: u32)"
  using unat_minus_one [of s] by (cases "s = 0") (auto simp: word_le_nat_alt)

text \<open>The loop backwards stops in front of the spaces at the end.\<close>

definition trimmed :: "u8 list \<Rightarrow> u8 list" where
  "trimmed xs = rev (dropWhile isspace (rev xs))"

lemma trimmed_snoc: "trimmed (xs @ [x]) = (if isspace x then trimmed xs else xs @ [x])"
  by (simp add: trimmed_def)

lemma trimmed_take: "trimmed xs = take (length (trimmed xs)) xs \<and> length (trimmed xs) \<le> length xs"
proof (induction xs rule: rev_induct)
  case (snoc x xs)
  then show ?case by (simp add: trimmed_snoc)
qed (simp add: trimmed_def)

lemma strim_back_ok:
  assumes "\<And>i. i < n \<Longrightarrow> m (s + of_nat i) = xs ! i" and "n \<le> length xs" and "0 < unat s" and "unat s + n < 4294967296"
  shows "strim_back m s (s + of_nat n - 1) = Some (s + of_nat (length (trimmed (take n xs))) - 1)"
  using assms
proof (induction n)
  case 0
  then have "\<not> s \<le> s - 1" by (intro pred_below)
  then show ?case by (simp add: strim_back.simps trimmed_def)
next
  case (Suc n)
  have e: "s + of_nat (Suc n) - 1 = s + of_nat n" by simp
  have "unat (s + of_nat n) = unat s + n" by (rule unat_plus_of_nat) (use Suc.prems(4) in simp)
  then have le: "s \<le> s + of_nat n" by (simp add: word_le_nat_alt)
  have x: "m (s + of_nat n) = xs ! n" using Suc.prems(1) by simp
  have t: "take (Suc n) xs = take n xs @ [xs ! n]" using Suc.prems(2) by (simp add: take_Suc_conv_app_nth)
  show ?case
  proof (cases "isspace (xs ! n)")
    case True
    then have "strim_back m s (s + of_nat n) = strim_back m s (s + of_nat n - 1)" using le x by (subst strim_back.simps) simp
    then show ?thesis using Suc True unfolding e t trimmed_snoc by simp
  next
    case False
    then have "strim_back m s (s + of_nat n) = Some (s + of_nat n)" using x by (subst strim_back.simps) simp
    then show ?thesis using False Suc.prems(2) unfolding e t trimmed_snoc by simp
  qed
qed

lemma cstr_cut:
  assumes "cstr m p xs" and "k \<le> length xs" and "length xs < 4294967296"
  shows "cstr (m(p + of_nat k := 0)) p (take k xs)"
  using assms
proof (induction xs arbitrary: p k)
  case (Cons x xs)
  show ?case
  proof (cases k)
    case (Suc j)
    have "p \<noteq> p + of_nat (Suc j)"
      using of_nat_u32_inj [of 0 "Suc j"] Suc Cons.prems(2,3) by auto
    moreover have "cstr (m(p + 1 + of_nat j := 0)) (p + 1) (take j xs)"
      by (rule Cons.IH) (use Cons.prems Suc in auto)
    moreover have eq: "p + 1 + of_nat j = p + of_nat k" using Suc by simp
    ultimately have "cstr (m(p + of_nat k := 0)) (p + 1) (take j xs)" "p \<noteq> p + of_nat k" using Suc by simp_all
    then show ?thesis using Cons.prems(1) unfolding Suc take_Suc_Cons cstr.simps by simp
  qed simp
qed simp

lemma strim_cstr:
  assumes c: "cstr m s xs" and s: "0 < unat s" "unat s + length xs < 4294967296"
  shows "\<exists>r m'. strim m s = Some (r, m') \<and> cstr m' r (dropWhile isspace (trimmed xs))"
proof (cases "xs = []")
  case True
  then have "strim m s = Some (s, m)" using strlen_cstr [OF c] by (simp add: strim_def)
  then show ?thesis using True c by (simp add: trimmed_def)
next
  case False
  let ?k = "length (trimmed xs)"
  have len: "length xs < 4294967296" using s by simp
  have nz: "of_nat (length xs) \<noteq> (0 :: u32)" using of_nat_u32_inj [of "length xs" 0] False len by auto
  have "m (s + of_nat i) = xs ! i" if "i < length xs" for i using cstr_nth [OF c, of i] that by (simp add: nth_append)
  then have bk: "strim_back m s (s + of_nat (length xs) - 1) = Some (s + of_nat ?k - 1)"
    using strim_back_ok [of "length xs" m s xs] s by simp
  define m' where "m' = m(s + of_nat ?k := 0)"
  have tr: "trimmed xs = take ?k xs" "?k \<le> length xs" using trimmed_take [of xs] by simp_all
  have c': "cstr m' s (trimmed xs)" unfolding m'_def using cstr_cut [OF c tr(2) len] tr(1) by simp
  have "strim m s = Some (s + of_nat (length (takeWhile isspace (trimmed xs))), m')"
    using strlen_cstr [OF c] nz bk skip_spaces_cstr [OF c'] by (simp add: strim_def m'_def)
  moreover have "cstr m' (s + of_nat (length (takeWhile isspace (trimmed xs)))) (dropWhile isspace (trimmed xs))"
    using cstr_drop [OF c', of "length (takeWhile isspace (trimmed xs))"] length_takeWhile_le [of isspace "trimmed xs"]
    by (simp add: dropWhile_eq_drop)
  ultimately show ?thesis by blast
qed

text \<open>The last occurrence of a string in another.\<close>

definition occurs_at :: "u8 list \<Rightarrow> u8 list \<Rightarrow> nat \<Rightarrow> bool" where
  "occurs_at ys xs i \<longleftrightarrow> take (length ys) (drop i xs) = ys"

lemma strncmp_occurs:
  assumes "cstr m s xs" and "cstr m pat ys" and "i \<le> length xs"
  shows "strncmp m (s + of_nat i) pat (length ys) = 0 \<longleftrightarrow> occurs_at ys xs i"
proof -
  have c: "cstr m (s + of_nat i) (drop i xs)" by (rule cstr_drop [OF assms(1,3)])
  have "0 \<notin> set (take (length ys) (drop i xs))" "0 \<notin> set ys"
    using cstr_nonzero [OF c] cstr_nonzero [OF assms(2)] by (auto dest: in_set_takeD)
  then show ?thesis unfolding strncmp_cstr [OF c assms(2)] by (simp add: str_diff_0 occurs_at_def)
qed

lemma strrstr_loop_ok:
  assumes c: "cstr m s xs" "cstr m pat ys" and s: "0 < unat s" "unat s + length xs < 4294967296"
  shows "n \<le> length xs \<Longrightarrow> strrstr_loop m s pat (length ys) (s + of_nat n) =
    Some (map_option (\<lambda>i. s + of_nat i) (find (occurs_at ys xs) (rev [0..<Suc n])))"
proof (induction n)
  case 0
  have "\<not> s \<le> s - 1" by (rule pred_below [OF s(1)])
  then show ?case
    using strncmp_occurs [OF c, of 0] by (simp add: strrstr_loop.simps [of m s pat "length ys" s] strrstr_loop.simps [of m s pat "length ys" "s - 1"])
next
  case (Suc n)
  have "unat (s + of_nat (Suc n)) = unat s + Suc n" by (rule unat_plus_of_nat) (use Suc.prems s in simp)
  then have le: "s \<le> s + of_nat (Suc n)" by (simp add: word_le_nat_alt)
  have "strrstr_loop m s pat (length ys) (s + of_nat (Suc n)) =
      (if strncmp m (s + of_nat (Suc n)) pat (length ys) = 0 then Some (Some (s + of_nat (Suc n)))
       else strrstr_loop m s pat (length ys) (s + of_nat n))"
    using le by (subst strrstr_loop.simps) simp
  then show ?case using Suc strncmp_occurs [OF c, of "Suc n"] by (simp del: of_nat_Suc)
qed

lemma strrstr_cstr:
  assumes c: "cstr m s xs" "cstr m pat ys" and s: "0 < unat s" "unat s + length xs < 4294967296" "length ys < 4294967296"
  shows "strrstr m s pat = Some (map_option (\<lambda>i. s + of_nat i) (find (occurs_at ys xs) (rev [0..<Suc (length xs)])))"
proof -
  have u: "unat (of_nat (length xs) :: u32) = length xs" "unat (of_nat (length ys) :: u32) = length ys"
    using s by (simp_all add: unat_of_nat_u32)
  have no: "\<not> occurs_at ys xs i" if "length xs < i + length ys" "ys \<noteq> []" for i
  proof
    assume "occurs_at ys xs i"
    then have "length (take (length ys) (drop i xs)) = length ys" unfolding occurs_at_def by simp
    then show False using that by (cases "i \<le> length xs") (auto simp: min_def split: if_splits)
  qed
  show ?thesis
  proof (cases "length xs < length ys")
    case True
    then have "find (occurs_at ys xs) (rev [0..<Suc (length xs)]) = None"
      unfolding find_None_iff using no by (metis add.commute add_less_cancel_left length_0_conv less_nat_zero_code trans_less_add2)
    then show ?thesis using True u strlen_cstr [OF c(1)] strlen_cstr [OF c(2)] by (simp add: strrstr_def word_less_nat_alt)
  next
    case False
    let ?n = "length xs - length ys"
    have "[0..<Suc (length xs)] = [0..<Suc ?n] @ [Suc ?n..<Suc (length xs)]"
      using upt_add_eq_append [of 0 "Suc ?n" "length ys"] False by simp
    then have r: "rev [0..<Suc (length xs)] = rev [Suc ?n..<Suc (length xs)] @ rev [0..<Suc ?n]" by (simp del: upt_Suc)
    have "find (occurs_at ys xs) (rev [Suc ?n..<Suc (length xs)]) = None"
      unfolding find_None_iff using no False by (cases "ys = []") (auto simp del: upt_Suc)
    then have f: "find (occurs_at ys xs) (rev [0..<Suc (length xs)]) = find (occurs_at ys xs) (rev [0..<Suc ?n])"
      unfolding r find_append by simp
    have "s + of_nat (length xs) - of_nat (length ys) = s + of_nat ?n" using False by (simp add: of_nat_diff)
    then have "strrstr m s pat = strrstr_loop m s pat (length ys) (s + of_nat ?n)"
      using False u strlen_cstr [OF c(1)] strlen_cstr [OF c(2)] by (simp add: strrstr_def word_less_nat_alt add_diff_eq)
    then show ?thesis unfolding f by (simp only: strrstr_loop_ok [OF c s(1,2), of ?n] diff_le_self)
  qed
qed

section \<open>The properties\<close>

lemma bchars_nonzero: "0 \<notin> set bchars"
  by (simp add: bchars_def)

text \<open>The buffer of \<open>itoa\<close> holds 32 digits, too few for base 2.\<close>

lemma itoa_overflow: "itoa 4294967296 2 buf m = None"
proof -
  have "itoa_digits 4294967296 2 0 (replicate 32 0) = None" by code_simp
  then show ?thesis by (simp add: itoa_def)
qed

text \<open>C39: \<open>itoa_s\<close> writes a sign for a negative number and the digits of its absolute value, for every base from 2 to 16 and
  every number of at most 32 digits, into at most 34 bytes from \<open>buf\<close>; \<open>atoi\<close> reads back every number of base 10 whose
  absolute value is below \<open>2^31\<close>.\<close>

theorem itoa_atoi_roundtrip:
  assumes "2 \<le> base" and "base \<le> 16" and "\<bar>i\<bar> < uint base ^ 32" and "\<bar>i\<bar> < 2 ^ 63"
  shows "\<exists>m' ds. itoa_s i base buf m = Some m' \<and> cstr m' buf ((if i < 0 then [45] else []) @ ds) \<and> ds \<noteq> [] \<and> length ds \<le> 32 \<and>
    numeral_value (uint base) ds = \<bar>i\<bar> \<and> (base = 10 \<and> \<bar>i\<bar> \<le> 2147483647 \<longrightarrow> atoi m' buf = Some i) \<and>
    (\<forall>x. (\<forall>j < 34. x \<noteq> buf + of_nat j) \<longrightarrow> m' x = m x)"
proof -
  let ?buf = "if i < 0 then buf + 1 else buf"
  let ?m = "if i < 0 then m(buf := 45) else m"
  obtain ds where ds: "itoa \<bar>i\<bar> base ?buf ?m = Some (write_bytes (ds @ [0]) ?buf ?m)" "ds \<noteq> []" "length ds \<le> 32"
      "numeral_value (uint base) ds = \<bar>i\<bar>" "set ds \<subseteq> set (take (unat base) bchars)"
    using itoa_ok [OF assms(1,2) _ assms(3), of ?buf ?m] by auto
  define m' where "m' = write_bytes (ds @ [0]) ?buf ?m"
  have "\<not> 16 < base" using assms(2) by simp
  then have run: "itoa_s i base buf m = Some m'" using ds(1) assms(4) by (auto simp: itoa_s_def m'_def abs_if split: if_splits)
  have nz: "0 \<notin> set ds" using ds(5) bchars_nonzero by (auto dest: in_set_takeD)
  have c: "cstr m' ?buf ds" unfolding m'_def by (rule write_bytes_cstr) (use nz ds(3) in auto)
  have sign: "m' buf = 45" if "i < 0"
  proof -
    have "buf \<noteq> buf + 1 + of_nat j" if "j < length (ds @ [0])" for j
      using of_nat_u32_inj [of 0 "Suc j"] that ds(3) by (auto simp: add.assoc)
    then have "m' buf = ?m buf" unfolding m'_def using that ds(3) by (intro write_bytes_other) auto
    then show ?thesis using that by simp
  qed
  have "m' x = m x" if x: "\<forall>j < 34. x \<noteq> buf + of_nat j" for x
  proof -
    have "x \<noteq> ?buf + of_nat j" if "j < length (ds @ [0])" for j
      using x [rule_format, of j] x [rule_format, of "Suc j"] that ds(3) by (auto simp: algebra_simps)
    then have "m' x = ?m x" unfolding m'_def using ds(3) by (intro write_bytes_other) auto
    then show ?thesis using x [rule_format, of 0] by auto
  qed
  moreover have "atoi m' buf = Some i" if "base = 10" "\<bar>i\<bar> \<le> 2147483647"
  proof -
    have ds': "set ds \<subseteq> set (take 10 bchars)" "numeral_value 10 ds \<le> 2147483647" "numeral_value 10 ds = \<bar>i\<bar>"
      using that ds(4,5) by simp_all
    show ?thesis
    proof (cases "i < 0")
      case True
      then show ?thesis using atoi_cstr(2) [OF ds'(1,2), of m' buf] sign c ds'(3) by simp
    next
      case False
      then show ?thesis using atoi_cstr(1) [OF ds'(1,2), of m' buf] c ds'(3) by simp
    qed
  qed
  moreover have "cstr m' buf ((if i < 0 then [45] else []) @ ds)" using c sign by (auto split: if_splits)
  ultimately show ?thesis using run ds(2-4) by (intro exI [of _ m'] exI [of _ ds]) blast
qed

theorem itoa_atoi_roundtrip_witness:
  "(\<exists>m'. itoa_s (- 4095) 10 0x5000 mem_example = Some m' \<and> atoi m' 0x5000 = Some (- 4095)) \<and>
   (\<exists>m' ds. itoa_s 255 16 0x5000 mem_example = Some m' \<and> cstr m' 0x5000 ds \<and> numeral_value 16 ds = 255)"
proof -
  have h: "(2 :: u32) \<le> 10" "(10 :: u32) \<le> 16" "\<bar>- 4095 :: int\<bar> < uint (10 :: u32) ^ 32" "\<bar>- 4095 :: int\<bar> < 2 ^ 63"
    "(2 :: u32) \<le> 16" "(16 :: u32) \<le> 16" "\<bar>255 :: int\<bar> < uint (16 :: u32) ^ 32" "\<bar>255 :: int\<bar> < 2 ^ 63"
    by simp_all
  from itoa_atoi_roundtrip [OF h(1-4), of "0x5000" mem_example]
  obtain m1 where "itoa_s (- 4095) 10 0x5000 mem_example = Some m1" "atoi m1 0x5000 = Some (- 4095)" by fastforce
  moreover from itoa_atoi_roundtrip [OF h(5-8), of "0x5000" mem_example]
  obtain m2 ds where "itoa_s 255 16 0x5000 mem_example = Some m2" "cstr m2 0x5000 ds" "numeral_value 16 ds = 255" by fastforce
  ultimately show ?thesis by blast
qed

text \<open>\<open>strim\<close> returns the string without the white space at its ends, and \<open>strrstr\<close> the last occurrence of a string in
  another, or null; both end.\<close>

theorem strim_strrstr_correct:
  assumes "cstr m s xs" and "cstr m pat ys" and "0 < unat s" and "unat s + length xs < 4294967296" and "length ys < 4294967296"
  shows "(\<exists>r m'. strim m s = Some (r, m') \<and> cstr m' r (dropWhile isspace (rev (dropWhile isspace (rev xs))))) \<and>
    strrstr m s pat = Some (map_option (\<lambda>i. s + of_nat i) (find (occurs_at ys xs) (rev [0..<Suc (length xs)])))"
  using strim_cstr [OF assms(1,3,4)] strrstr_cstr [OF assms] by (simp add: trimmed_def)

theorem strim_strrstr_correct_witness:
  "strrstr mem_example 0x1001 0x1006 = Some (Some 0x1006) \<and>
   (\<exists>r m'. strim mem_example 0x1001 = Some (r, m') \<and> cstr m' r [97, 98, 47, 99, 100, 47, 101])"
proof -
  have "cstr mem_example 0x1006 [47, 101]" by (simp add: mem_example_def)
  from strim_strrstr_correct [OF mem_example_cstr(1) this] show ?thesis
    by (simp add: isspace_def occurs_at_def upt_rec)
qed

end
