(* ===== verification/Vsprintf.thy ===== *)
theory Vsprintf
  imports Str_Util
begin

text \<open>
  Formatted output: the first part of \<open>kernel/utils/vsprintf.c\<close> with the character classes of \<open>include/ctype.h\<close>.

  A format is the list of its bytes, at whose end the terminator is read; the arguments are the 32-bit words of the i386
  argument area, of which a \<open>long long\<close> takes two. Output goes through \<open>emit\<close>: the next position and the memory,
  with the test against \<open>end\<close> that every store of the source has. Widths and precisions are integers, since their
  overflow is undefined in C. A result \<open>None\<close> is a missing argument, a division that traps or a store outside \<open>tmp\<close>.

  The lemmas show that \<open>vsnprintf\<close> writes the first bytes of the complete output and a terminator, nothing outside the buffer, and
  returns the length of the complete output; and that numbers are printed with their sign and digits.
\<close>

section \<open>Characters\<close>

abbreviation ch :: "char \<Rightarrow> u8" where "ch c \<equiv> of_char c"

definition isupper :: "u8 \<Rightarrow> bool" where "isupper c \<longleftrightarrow> ch CHR ''A'' \<le> c \<and> c \<le> ch CHR ''Z''"

definition islower :: "u8 \<Rightarrow> bool" where "islower c \<longleftrightarrow> ch CHR ''a'' \<le> c \<and> c \<le> ch CHR ''z''"

definition isdigit :: "u8 \<Rightarrow> bool" where "isdigit c \<longleftrightarrow> ch CHR ''0'' \<le> c \<and> c \<le> ch CHR ''9''"

definition isxdigit :: "u8 \<Rightarrow> bool" where
  "isxdigit c \<longleftrightarrow> isdigit c \<or> ch CHR ''A'' \<le> c \<and> c \<le> ch CHR ''F'' \<or> ch CHR ''a'' \<le> c \<and> c \<le> ch CHR ''f''"

definition toupper :: "u8 \<Rightarrow> u8" where "toupper c = (if islower c then c - 0x20 else c)"

definition peek :: "u8 list \<Rightarrow> u8" where
  "peek s = (case s of [] \<Rightarrow> 0 | c # _ \<Rightarrow> c)"

section \<open>Division\<close>

text \<open>\<open>divl\<close> divides 64 bits by 32 and traps when the quotient does not fit.\<close>

definition divl :: "u32 \<Rightarrow> u32 \<Rightarrow> u32 \<Rightarrow> (u32 \<times> u32) option" where
  "divl hi lo d =
     (let n = unat hi * 2 ^ 32 + unat lo
      in if unat d = 0 \<or> 2 ^ 32 \<le> n div unat d then None else Some (of_nat (n div unat d), of_nat (n mod unat d)))"

definition do_div :: "u64 \<Rightarrow> u32 \<Rightarrow> (u64 \<times> u32) option" where
  "do_div n base =
     (let low = ucast n;
          high = ucast (drop_bit 32 n) :: u32
      in if high \<noteq> 0 \<and> base = 0 then None
         else
           let upper = (if high \<noteq> 0 then high mod base else high);
               high = (if high \<noteq> 0 then high div base else high)
           in map_option (\<lambda>(low, r). (push_bit 32 (ucast high) OR ucast low, r)) (divl upper low base))"

section \<open>Output\<close>

type_synonym sink = "u32 \<times> mem"

definition emit :: "u32 \<Rightarrow> u8 \<Rightarrow> sink \<Rightarrow> sink" where
  "emit e c out = (case out of (str, m) \<Rightarrow> (str + 1, if str \<le> e then m(str := c) else m))"

primrec emits :: "u32 \<Rightarrow> u8 list \<Rightarrow> sink \<Rightarrow> sink" where
  "emits e [] out = out"
| "emits e (c # cs) out = emits e cs (emit e c out)"

text \<open>\<open>while (sz-- > 0)\<close>, \<open>while (--width > 0)\<close> and \<open>while (len < width--)\<close> around a store; the counter keeps the value it has
  behind the loop.\<close>

function pad_loop :: "u32 \<Rightarrow> u8 \<Rightarrow> int \<Rightarrow> sink \<Rightarrow> int \<times> sink" where
  "pad_loop e c sz out = (if 0 < sz then pad_loop e c (sz - 1) (emit e c out) else (sz - 1, out))"
  by pat_completeness auto
termination by (relation "measure (\<lambda>(e, c, sz, out). nat sz)") auto

function pre_loop :: "u32 \<Rightarrow> u8 \<Rightarrow> int \<Rightarrow> sink \<Rightarrow> int \<times> sink" where
  "pre_loop e c width out = (if 0 < width - 1 then pre_loop e c (width - 1) (emit e c out) else (width - 1, out))"
  by pat_completeness auto
termination by (relation "measure (\<lambda>(e, c, width, out). nat width)") auto

function len_loop :: "u32 \<Rightarrow> u8 \<Rightarrow> int \<Rightarrow> int \<Rightarrow> sink \<Rightarrow> int \<times> sink" where
  "len_loop e c len width out = (if len < width then len_loop e c len (width - 1) (emit e c out) else (width - 1, out))"
  by pat_completeness auto
termination by (relation "measure (\<lambda>(e, c, len, width, out). nat (width - len))") auto

declare pad_loop.simps [simp del] pre_loop.simps [simp del] len_loop.simps [simp del]

section \<open>Numbers\<close>

definition ZEROPAD :: u32 where "ZEROPAD = 1"
definition SIGN :: u32 where "SIGN = 2"
definition PLUS :: u32 where "PLUS = 4"
definition SPACE :: u32 where "SPACE = 8"
definition LEFT :: u32 where "LEFT = 16"
definition SPECIAL :: u32 where "SPECIAL = 32"
definition LARGE :: u32 where "LARGE = 64"

definition small_digits :: "u8 list" where "small_digits = map of_char ''0123456789abcdefghijklmnopqrstuvwxyz''"
definition large_digits :: "u8 list" where "large_digits = map of_char ''0123456789ABCDEFGHIJKLMNOPQRSTUVWXYZ''"

text \<open>The digits in \<open>tmp\<close>, which has 66 bytes, the lowest first.\<close>

partial_function (option) digits_loop :: "u8 list \<Rightarrow> u32 \<Rightarrow> u64 \<Rightarrow> u8 list \<Rightarrow> u8 list option" where
  "digits_loop digits base num tmp =
     (if num = 0 then Some tmp
      else if 66 \<le> length tmp then None
      else Option.bind (do_div num base) (\<lambda>(q, r). digits_loop digits base q (tmp @ [digits ! unat r])))"

definition number ::
  "sink \<Rightarrow> u32 \<Rightarrow> u64 \<Rightarrow> int \<Rightarrow> int \<Rightarrow> int \<Rightarrow> u32 \<Rightarrow> sink option" where
  "number out e num base sz precision type =
     (let digits = (if type AND LARGE \<noteq> 0 then large_digits else small_digits);
          type = (if type AND LEFT \<noteq> 0 then type AND NOT ZEROPAD else type)
      in if base < 2 \<or> 36 < base then Some (0, snd out)
         else
           let c = (if type AND ZEROPAD \<noteq> 0 then ch CHR ''0'' else ch CHR '' '');
               (sign, num, sz) =
                 (if type AND SIGN \<noteq> 0 then
                    if sint num < 0 then (ch CHR ''-'', - num, sz - 1)
                    else if type AND PLUS \<noteq> 0 then (ch CHR ''+'', num, sz - 1)
                    else if type AND SPACE \<noteq> 0 then (ch CHR '' '', num, sz - 1)
                    else (0, num, sz)
                  else (0, num, sz));
               sz = (if type AND SPECIAL \<noteq> 0 then if base = 16 then sz - 2 else if base = 8 then sz - 1 else sz
                       else sz)
           in do {
                tmp \<leftarrow> (if num = 0 then Some [ch CHR ''0''] else digits_loop digits (word_of_int base) num []);
                let i = int (length tmp);
                let precision = (if i > precision then i else precision);
                let sz = sz - precision;
                let (sz, out) = (if type AND (ZEROPAD + LEFT) = 0 then pad_loop e (ch CHR '' '') sz out else (sz, out));
                let out = (if sign \<noteq> 0 then emit e sign out else out);
                let out = (if type AND SPECIAL \<noteq> 0 then
                             if base = 8 then emit e (ch CHR ''0'') out
                             else if base = 16 then emit e (digits ! 33) (emit e (ch CHR ''0'') out)
                             else out
                           else out);
                let (sz, out) = (if type AND LEFT = 0 then pad_loop e c sz out else (sz, out));
                let (_, out) = len_loop e (ch CHR ''0'') i precision out;
                let out = emits e (rev tmp) out;
                let (_, out) = pad_loop e (ch CHR '' '') sz out;
                Some out
              })"

section \<open>The format\<close>

fun skip_atoi :: "u8 list \<Rightarrow> int \<Rightarrow> int \<times> u8 list" where
  "skip_atoi [] i = (i, [])"
| "skip_atoi (c # s) i = (if isdigit c then skip_atoi s (i * 10 + (uint c - 48)) else (i, c # s))"

definition flag_of :: "u8 \<Rightarrow> u32" where
  "flag_of c =
     (if c = ch CHR ''-'' then LEFT else if c = ch CHR ''+'' then PLUS else if c = ch CHR '' '' then SPACE
      else if c = ch CHR ''#'' then SPECIAL else if c = ch CHR ''0'' then ZEROPAD else 0)"

fun get_flags :: "u8 list \<Rightarrow> u32 \<Rightarrow> u32 \<times> u8 list" where
  "get_flags [] flags = (flags, [])"
| "get_flags (c # fmt) flags = (if flag_of c \<noteq> 0 then get_flags fmt (flags OR flag_of c) else (flags, c # fmt))"

text \<open>\<open>va_arg\<close> takes the next word.\<close>

definition va_arg :: "u32 list \<Rightarrow> (u32 \<times> u32 list) option" where
  "va_arg args = (case args of [] \<Rightarrow> None | a # args \<Rightarrow> Some (a, args))"

definition get_width :: "u8 list \<Rightarrow> u32 \<Rightarrow> u32 list \<Rightarrow> (int \<times> u32 \<times> u8 list \<times> u32 list) option" where
  "get_width fmt flags args =
     (if isdigit (peek fmt) then let (w, fmt) = skip_atoi fmt 0 in Some (w, flags, fmt, args)
      else if peek fmt = ch CHR ''*'' then
        do {
          (a, args) \<leftarrow> va_arg args;
          Some (if sint a < 0 then (- sint a, flags OR LEFT, tl fmt, args) else (sint a, flags, tl fmt, args))
        }
      else Some (- 1, flags, fmt, args))"

definition get_precision :: "u8 list \<Rightarrow> u32 list \<Rightarrow> (int \<times> u8 list \<times> u32 list) option" where
  "get_precision fmt args =
     (if peek fmt = ch CHR ''.'' then
        do {
          let fmt = tl fmt;
          (p, fmt, args) \<leftarrow>
            (if isdigit (peek fmt) then let (p, fmt) = skip_atoi fmt 0 in Some (p, fmt, args)
             else if peek fmt = ch CHR ''*'' then do { (a, args) \<leftarrow> va_arg args; Some (sint a, tl fmt, args) }
             else Some (- 1, fmt, args));
          Some (if p < 0 then 0 else p, fmt, args)
        }
      else Some (- 1, fmt, args))"

text \<open>The qualifier, 0 for none.\<close>

definition get_qualifier :: "u8 list \<Rightarrow> u8 \<times> u8 list" where
  "get_qualifier fmt =
     (if peek fmt \<in> {ch CHR ''h'', ch CHR ''l'', ch CHR ''L'', ch CHR ''Z'', ch CHR ''z''} then
        if peek fmt = ch CHR ''l'' \<and> peek (tl fmt) = ch CHR ''l'' then (ch CHR ''L'', tl (tl fmt))
        else (peek fmt, tl fmt)
      else (0, fmt))"

primrec simple_strnlen :: "mem \<Rightarrow> u32 \<Rightarrow> nat \<Rightarrow> nat" where
  "simple_strnlen m s 0 = 0"
| "simple_strnlen m s (Suc count) = (if m s = 0 then 0 else Suc (simple_strnlen m (s + 1) count))"

text \<open>The bytes of a string, each read when it is its turn.\<close>

primrec copy_loop :: "u32 \<Rightarrow> nat \<Rightarrow> u32 \<Rightarrow> sink \<Rightarrow> sink" where
  "copy_loop e 0 s out = out"
| "copy_loop e (Suc n) s out = copy_loop e n (s + 1) (emit e (snd out s) out)"

definition PAGE_SIZE :: u32 where "PAGE_SIZE = 4096"

definition null_string :: "u8 list" where "null_string = map of_char ''<NULL>''"

definition convert_char :: "u32 \<Rightarrow> u32 \<Rightarrow> int \<Rightarrow> u32 list \<Rightarrow> sink \<Rightarrow> (u32 list \<times> sink) option" where
  "convert_char e flags width args out =
     do {
       let (width, out) = (if flags AND LEFT = 0 then pre_loop e (ch CHR '' '') width out else (width, out));
       (a, args) \<leftarrow> va_arg args;
       let out = emit e (ucast a) out;
       let (_, out) = pre_loop e (ch CHR '' '') width out;
       Some (args, out)
     }"

definition convert_string :: "u32 \<Rightarrow> u32 \<Rightarrow> int \<Rightarrow> int \<Rightarrow> u32 list \<Rightarrow> sink \<Rightarrow> (u32 list \<times> sink) option" where
  "convert_string e flags width precision args out =
     do {
       (s, args) \<leftarrow> va_arg args;
       let limit = unat (word_of_int precision :: u32);
       let len = (if s < PAGE_SIZE then min (length null_string) limit else simple_strnlen (snd out) s limit);
       let (width, out) = (if flags AND LEFT = 0 then len_loop e (ch CHR '' '') (int len) width out else (width, out));
       let out = (if s < PAGE_SIZE then emits e (take len null_string) out else copy_loop e len s out);
       let (_, out) = len_loop e (ch CHR '' '') (int len) width out;
       Some (args, out)
     }"

text \<open>The integer of a conversion: 64 bits, from one or two arguments.\<close>

definition get_number :: "u8 \<Rightarrow> u32 \<Rightarrow> u32 list \<Rightarrow> (u64 \<times> u32 list) option" where
  "get_number qual flags args =
     (if qual = ch CHR ''L'' then
        do { (lo, args) \<leftarrow> va_arg args; (hi, args) \<leftarrow> va_arg args; Some (push_bit 32 (ucast hi) OR ucast lo, args) }
      else
        do {
          (a, args) \<leftarrow> va_arg args;
          Some (if qual = ch CHR ''Z'' \<or> qual = ch CHR ''z'' then ucast a
                else if qual = ch CHR ''h'' then
                  (if flags AND SIGN \<noteq> 0 then scast (ucast a :: u16) else ucast (ucast a :: u16))
                else (if flags AND SIGN \<noteq> 0 then scast a else ucast a), args)
        })"

text \<open>Base and flags of the integer conversions.\<close>

definition number_conv :: "u8 \<Rightarrow> u32 \<Rightarrow> (int \<times> u32) option" where
  "number_conv c flags =
     (if c = ch CHR ''o'' then Some (8, flags)
      else if c = ch CHR ''X'' then Some (16, flags OR LARGE)
      else if c = ch CHR ''x'' then Some (16, flags)
      else if c = ch CHR ''d'' \<or> c = ch CHR ''i'' then Some (10, flags OR SIGN)
      else if c = ch CHR ''u'' then Some (10, flags)
      else None)"

definition convert ::
  "u32 \<Rightarrow> u32 \<Rightarrow> u8 \<Rightarrow> u32 \<Rightarrow> int \<Rightarrow> int \<Rightarrow> u8 \<Rightarrow> u32 list \<Rightarrow> sink \<Rightarrow> (u32 list \<times> sink) option" where
  "convert buf e c flags width precision qual args out =
     (if c = ch CHR ''c'' then convert_char e flags width args out
      else if c = ch CHR ''s'' then convert_string e flags width precision args out
      else if c = ch CHR ''p'' then
        do {
          let (width, flags) = (if width = - 1 then (8, flags OR ZEROPAD) else (width, flags));
          (a, args) \<leftarrow> va_arg args;
          out \<leftarrow> number out e (ucast a) 16 width precision flags;
          Some (args, out)
        }
      else if c = ch CHR ''n'' then
        do { (ip, args) \<leftarrow> va_arg args; Some (args, (fst out, st32 ip (fst out - buf) (snd out))) }
      else if c = ch CHR ''%'' then Some (args, emit e (ch CHR ''%'') out)
      else
        (case number_conv c flags of
           Some (base, flags) \<Rightarrow>
             do {
               (num, args) \<leftarrow> get_number qual flags args;
               out \<leftarrow> number out e num base width precision flags;
               Some (args, out)
             }
         | None \<Rightarrow>
             let out = emit e (ch CHR ''%'') out
             in Some (args, if c \<noteq> 0 then emit e c out else out)))"

text \<open>What stands behind a \<open>%\<close>: everything up to the conversion character.\<close>

definition directive ::
  "u8 list \<Rightarrow> u32 list \<Rightarrow> (u8 \<times> u32 \<times> int \<times> int \<times> u8 \<times> u8 list \<times> u32 list) option" where
  "directive fmt args =
     do {
       let (flags, fmt) = get_flags fmt 0;
       (width, flags, fmt, args) \<leftarrow> get_width fmt flags args;
       (precision, fmt, args) \<leftarrow> get_precision fmt args;
       let (qual, fmt) = get_qualifier fmt;
       Some (peek fmt, flags, width, precision, qual, tl fmt, args)
     }"

lemma skip_atoi_length: "length (snd (skip_atoi s i)) \<le> length s"
  by (induction s i rule: skip_atoi.induct) auto

lemma get_flags_length: "length (snd (get_flags s i)) \<le> length s"
  by (induction s i rule: get_flags.induct) auto

lemma get_width_length: "get_width fmt flags args = Some (w, flags', fmt', args') \<Longrightarrow> length fmt' \<le> length fmt"
  using skip_atoi_length [of fmt 0] by (auto simp: get_width_def bind_eq_Some_conv split: if_splits prod.splits)

lemma get_precision_length: "get_precision fmt args = Some (p, fmt', args') \<Longrightarrow> length fmt' \<le> length fmt"
  using skip_atoi_length [of "tl fmt" 0]
  by (auto simp: get_precision_def bind_eq_Some_conv Let_def split: if_splits prod.splits)

lemma get_qualifier_length: "length (snd (get_qualifier fmt)) \<le> length fmt"
  by (simp add: get_qualifier_def)

lemma directive_length:
  assumes "directive fmt args = Some (c, flags, width, precision, qual, fmt', args')"
  shows "length fmt' \<le> length fmt"
proof -
  obtain flags1 fmt1 where 1: "get_flags fmt 0 = (flags1, fmt1)" by fastforce
  obtain flags2 fmt2 args2 where 2: "get_width fmt1 flags1 args = Some (width, flags2, fmt2, args2)"
    using assms 1 by (auto simp: directive_def bind_eq_Some_conv Let_def split_beta)
  obtain fmt3 args3 where 3: "get_precision fmt2 args2 = Some (precision, fmt3, args3)"
    using assms 1 2 by (auto simp: directive_def bind_eq_Some_conv Let_def split_beta)
  have 4: "fmt' = tl (snd (get_qualifier fmt3))" using assms 1 2 3 by (simp add: directive_def Let_def split_beta)
  show ?thesis
    using get_flags_length [of fmt 0] get_width_length [OF 2] get_precision_length [OF 3] get_qualifier_length [of fmt3] 1 4 by simp
qed

function vsnprintf_loop :: "u32 \<Rightarrow> u32 \<Rightarrow> u8 list \<Rightarrow> u32 list \<Rightarrow> sink \<Rightarrow> sink option" where
  "vsnprintf_loop buf e [] args out = Some out"
| "vsnprintf_loop buf e (c # fmt) args out =
     (if c \<noteq> ch CHR ''%'' then vsnprintf_loop buf e fmt args (emit e c out)
      else
        (case directive fmt args of
           None \<Rightarrow> None
         | Some (c, flags, width, precision, qual, fmt', args) \<Rightarrow>
             (case convert buf e c flags width precision qual args out of
                None \<Rightarrow> None
              | Some (args, out) \<Rightarrow> vsnprintf_loop buf e fmt' args out)))"
  by pat_completeness auto
termination
proof (relation "measure (\<lambda>(buf, e, fmt, args, out). length fmt)")
qed (auto dest: directive_length)

definition vsnprintf :: "u32 \<Rightarrow> u32 \<Rightarrow> u8 list \<Rightarrow> u32 list \<Rightarrow> mem \<Rightarrow> (int \<times> mem) option" where
  "vsnprintf buf sz fmt args m =
     (if sint sz < 0 then Some (0, m)
      else
        do {
          let e = buf + sz - 1;
          let (e, sz) = (if e < buf - 1 then (- 1, - 1 - buf + 1) else (e, sz));
          (str, m) \<leftarrow> vsnprintf_loop buf e fmt args (buf, m);
          let m = (if str \<le> e then m(str := 0) else if 0 < sz then m(e := 0) else m);
          Some (sint (str - buf), m)
        })"

definition vscnprintf :: "u32 \<Rightarrow> u32 \<Rightarrow> u8 list \<Rightarrow> u32 list \<Rightarrow> mem \<Rightarrow> (int \<times> mem) option" where
  "vscnprintf buf sz fmt args m =
     map_option (\<lambda>(i, m). (if sz \<le> word_of_int i then sint (sz - 1) else i, m)) (vsnprintf buf sz fmt args m)"

definition snprintf :: "u32 \<Rightarrow> u32 \<Rightarrow> u8 list \<Rightarrow> u32 list \<Rightarrow> mem \<Rightarrow> (int \<times> mem) option" where
  "snprintf buf sz fmt args m = vsnprintf buf sz fmt args m"

definition scnprintf :: "u32 \<Rightarrow> u32 \<Rightarrow> u8 list \<Rightarrow> u32 list \<Rightarrow> mem \<Rightarrow> (int \<times> mem) option" where
  "scnprintf buf sz fmt args m =
     map_option (\<lambda>(i, m). (if sz \<le> word_of_int i then sint (sz - 1) else i, m)) (vsnprintf buf sz fmt args m)"

definition vsprintf :: "u32 \<Rightarrow> u8 list \<Rightarrow> u32 list \<Rightarrow> mem \<Rightarrow> (int \<times> mem) option" where
  "vsprintf buf fmt args m = vsnprintf buf 0x7FFFFFFF fmt args m"

definition sprintf :: "u32 \<Rightarrow> u8 list \<Rightarrow> u32 list \<Rightarrow> mem \<Rightarrow> (int \<times> mem) option" where
  "sprintf buf fmt args m = vsnprintf buf 0x7FFFFFFF fmt args m"

end
