(* ===== verification/Tty.thy ===== *)
theory Tty
  imports Signal Vsprintf
begin

text \<open>
  Terminals: the line discipline \<open>kernel/devices/char/n_tty.c\<close>, the pseudo terminals \<open>pty.c\<close>, the terminal calls of \<open>tty.c\<close>
  and the output of \<open>serial.c\<close>, with the flags of \<open>termios.h\<close> and the macros of \<open>tty.h\<close>.

  Terminals are found by their address in \<open>ttys\<close>. A terminal points to the settings of its driver, so they are part of the
  driver. Whatever calls \<open>driver->tops->write\<close> has that operation as an argument; \<open>tops_write\<close> closes the circle with the
  depth to which echoes may nest. A call that waits ends as \<open>Blocked\<close> with its entry in the wait queue and goes on with
  \<open>ntty_read_loop\<close> or \<open>ntty_write_loop\<close>. A result \<open>None\<close> is a failed assertion, a null pointer or a store outside a buffer.
\<close>

section \<open>Settings\<close>

record termios =
  c_iflag :: u32
  c_oflag :: u32
  c_cflag :: u32
  c_lflag :: u32
  c_line :: u8
  c_cc :: "u8 list"

definition ISTRIP :: u32 where "ISTRIP = 0x20"
definition INLCR :: u32 where "INLCR = 0x40"
definition IGNCR :: u32 where "IGNCR = 0x80"
definition ICRNL :: u32 where "ICRNL = 0x100"
definition IUCLC :: u32 where "IUCLC = 0x200"
definition IXON :: u32 where "IXON = 0x400"

definition OPOST :: u32 where "OPOST = 1"
definition OLCUC :: u32 where "OLCUC = 2"
definition ONLCR :: u32 where "ONLCR = 4"
definition OCRNL :: u32 where "OCRNL = 8"

definition B38400 :: u32 where "B38400 = 0xF"
definition CS8 :: u32 where "CS8 = 0x30"
definition CREAD :: u32 where "CREAD = 0x80"
definition HUPCL :: u32 where "HUPCL = 0x400"

definition ISIG :: u32 where "ISIG = 1"
definition ICANON :: u32 where "ICANON = 2"
definition ECHO :: u32 where "ECHO = 8"
definition ECHOE :: u32 where "ECHOE = 0x10"
definition ECHOK :: u32 where "ECHOK = 0x20"
definition ECHONL :: u32 where "ECHONL = 0x40"
definition ECHOCTL :: u32 where "ECHOCTL = 0x200"
definition ECHOKE :: u32 where "ECHOKE = 0x800"
definition IEXTEN :: u32 where "IEXTEN = 0x8000"

definition INTR_CHAR :: "termios \<Rightarrow> u8" where "INTR_CHAR tm = c_cc tm ! 0"
definition QUIT_CHAR :: "termios \<Rightarrow> u8" where "QUIT_CHAR tm = c_cc tm ! 1"
definition ERASE_CHAR :: "termios \<Rightarrow> u8" where "ERASE_CHAR tm = c_cc tm ! 2"
definition KILL_CHAR :: "termios \<Rightarrow> u8" where "KILL_CHAR tm = c_cc tm ! 3"
definition EOF_CHAR :: "termios \<Rightarrow> u8" where "EOF_CHAR tm = c_cc tm ! 4"
definition MIN_CHAR :: "termios \<Rightarrow> u8" where "MIN_CHAR tm = c_cc tm ! 6"
definition SUSP_CHAR :: "termios \<Rightarrow> u8" where "SUSP_CHAR tm = c_cc tm ! 10"
definition EOL_CHAR :: "termios \<Rightarrow> u8" where "EOL_CHAR tm = c_cc tm ! 11"
definition WERASE_CHAR :: "termios \<Rightarrow> u8" where "WERASE_CHAR tm = c_cc tm ! 14"
definition EOL2_CHAR :: "termios \<Rightarrow> u8" where "EOL2_CHAR tm = c_cc tm ! 16"

definition I_FLAG :: "termios \<Rightarrow> u32 \<Rightarrow> bool" where "I_FLAG tm f \<longleftrightarrow> c_iflag tm AND f \<noteq> 0"
definition O_FLAG :: "termios \<Rightarrow> u32 \<Rightarrow> bool" where "O_FLAG tm f \<longleftrightarrow> c_oflag tm AND f \<noteq> 0"
definition L_FLAG :: "termios \<Rightarrow> u32 \<Rightarrow> bool" where "L_FLAG tm f \<longleftrightarrow> c_lflag tm AND f \<noteq> 0"

text \<open>The control characters are unsigned, the characters of the line are signed.\<close>

definition char_eq :: "u8 \<Rightarrow> u8 \<Rightarrow> bool" where "char_eq cc c \<longleftrightarrow> uint cc = sint c"

definition LINE_SEPARATOR :: "termios \<Rightarrow> u8 \<Rightarrow> bool" where
  "LINE_SEPARATOR tm c \<longleftrightarrow>
     char_eq (EOF_CHAR tm) c \<or> char_eq (EOL_CHAR tm) c \<or> char_eq (EOL2_CHAR tm) c \<and> L_FLAG tm IEXTEN \<or> c = ch CHR ''\<newline>''"

definition INIT_C_CC :: "u8 list" where
  "INIT_C_CC = [3, 0x1C, 0x7F, 0x15, 4, 0, 1, 0, 0x11, 0x13, 0x1A, 0, 0x12, 0xF, 0x17, 0x16, 0, 0, 0]"

definition tty_std_termios :: termios where
  "tty_std_termios =
     \<lparr>c_iflag = ICRNL OR IXON, c_oflag = OPOST OR ONLCR, c_cflag = B38400 OR CS8 OR CREAD OR HUPCL,
      c_lflag = ISIG OR ICANON OR ECHO OR ECHOE OR ECHOK OR ECHOCTL OR ECHOKE OR IEXTEN, c_line = 0, c_cc = INIT_C_CC\<rparr>"

definition ptm_termios :: termios where
  "ptm_termios = tty_std_termios\<lparr>c_iflag := 0, c_oflag := 0, c_cflag := B38400 OR CS8 OR CREAD, c_lflag := 0\<rparr>"

definition pts_termios :: termios where
  "pts_termios = tty_std_termios\<lparr>c_cflag := B38400 OR CS8 OR CREAD\<rparr>"

section \<open>The state\<close>

record winsize =
  ws_row :: u16
  ws_col :: u16
  ws_xpixel :: u16
  ws_ypixel :: u16

datatype tty_driver = Ptm_driver | Pts_driver | Serial_driver

record tty_struct =
  tty_index :: int
  tty_drv :: tty_driver
  tty_link :: "nat option"
  tty_winsize :: winsize
  tty_pgrp :: int
  tty_session :: int
  write_wait :: "wait_queue_entry list"
  read_wait :: "wait_queue_entry list"
  read_head :: int
  read_tail :: int
  read_count :: int
  read_buf :: "u8 list"

text \<open>The processes and the scheduler, the terminals, those of each driver and its settings, the terminal of each process,
  what the serial ports have sent.\<close>

record tty_state =
  base :: sys
  ttys :: "nat \<Rightarrow> tty_struct"
  driver_ttys :: "tty_driver \<Rightarrow> nat list"
  init_termios :: "tty_driver \<Rightarrow> termios"
  proc_tty :: "nat \<Rightarrow> nat option"
  serial_sent :: "(int \<times> u8) list"
  next_pty_number :: int

text \<open>What the calls of other parts need: the depth of \<open>do_kill\<close> and the arguments of \<open>schedule\<close>.\<close>

record kenv =
  kill_depth :: nat
  env_hs :: "sched \<Rightarrow> sched option"
  env_irqs :: "(sched \<Rightarrow> sched option) list"

type_synonym tty_write_op = "nat \<Rightarrow> u8 list \<Rightarrow> tty_state \<Rightarrow> (int \<times> tty_state) option"

abbreviation upd_tty :: "nat \<Rightarrow> (tty_struct \<Rightarrow> tty_struct) \<Rightarrow> tty_state \<Rightarrow> tty_state" where
  "upd_tty t f st \<equiv> st\<lparr>ttys := (ttys st)(t := f (ttys st t))\<rparr>"

abbreviation termios_of :: "nat \<Rightarrow> tty_state \<Rightarrow> termios" where
  "termios_of t st \<equiv> init_termios st (tty_drv (ttys st t))"

definition in_base :: "(sys \<Rightarrow> sys option) \<Rightarrow> tty_state \<Rightarrow> tty_state option" where
  "in_base f st = map_option (\<lambda>b. st\<lparr>base := b\<rparr>) (f (base st))"

definition kill :: "kenv \<Rightarrow> int \<Rightarrow> int \<Rightarrow> tty_state \<Rightarrow> tty_state option" where
  "kill e target sig = in_base (\<lambda>b. map_option snd (do_kill (kill_depth e) (env_hs e) (env_irqs e) target sig b))"

definition wake :: "wait_queue_entry list \<Rightarrow> tty_state \<Rightarrow> tty_state option" where
  "wake ws = in_base (in_sched (wake_up ws))"

text \<open>\<open>update_thread(current_thread, THREAD_WAITING); schedule();\<close>\<close>

definition wait_turn :: "kenv \<Rightarrow> tty_state \<Rightarrow> tty_state option" where
  "wait_turn e = in_base (in_sched (\<lambda>s. Option.bind (update_thread (current_thread s) THREAD_WAITING s) (schedule (env_hs e) (env_irqs e))))"

definition DEFINE_WAIT :: "tty_state \<Rightarrow> wait_queue_entry" where
  "DEFINE_WAIT st = \<lparr>wait_thread = cur_thread (base st), wait_func = poll_wakeup\<rparr>"

text \<open>\<open>list_del(&wait.sibling)\<close> of the entry of a thread.\<close>

primrec del_wait :: "nat \<Rightarrow> wait_queue_entry list \<Rightarrow> wait_queue_entry list" where
  "del_wait th [] = []"
| "del_wait th (w # ws) = (if wait_thread w = th then ws else w # del_wait th ws)"

section \<open>The read buffer\<close>

definition N_TTY_BUF_SIZE :: int where "N_TTY_BUF_SIZE = 4096"

definition N_TTY_BUF_ALIGN :: "int \<Rightarrow> int" where "N_TTY_BUF_ALIGN v = v mod N_TTY_BUF_SIZE"

definition put_tty_queue :: "u8 \<Rightarrow> tty_struct \<Rightarrow> tty_struct option" where
  "put_tty_queue c tty =
     (if N_TTY_BUF_SIZE \<le> read_count tty then None
      else if read_count tty \<noteq> 0 then
        let tail = N_TTY_BUF_ALIGN (read_tail tty + 1)
        in Some (tty\<lparr>read_tail := tail, read_buf := (read_buf tty)[nat tail := c], read_count := read_count tty + 1\<rparr>)
      else if read_head tty = read_tail tty then
        Some (tty\<lparr>read_buf := (read_buf tty)[nat (read_tail tty) := c], read_count := read_count tty + 1\<rparr>)
      else None)"

definition ntty_receive_room :: "tty_struct \<Rightarrow> int" where
  "ntty_receive_room tty = N_TTY_BUF_SIZE - read_count tty"

text \<open>The two loops of \<open>eraser\<close>: the length of the line behind the last separator, and of the word at its end.\<close>

function line_length :: "termios \<Rightarrow> tty_struct \<Rightarrow> int \<Rightarrow> int" where
  "line_length tm tty l =
     (if l < read_count tty then
        if LINE_SEPARATOR tm (read_buf tty ! nat (N_TTY_BUF_ALIGN (read_tail tty - l))) then l
        else if N_TTY_BUF_ALIGN (read_tail tty - (l + 1)) = read_head tty then l + 1
        else line_length tm tty (l + 1)
      else l)"
  by pat_completeness auto
termination by (relation "measure (\<lambda>(tm, tty, l). nat (read_count tty - l))") auto

function word_length :: "tty_struct \<Rightarrow> int \<Rightarrow> int \<Rightarrow> int" where
  "word_length tty n i =
     (if i < n then
        if isspace (read_buf tty ! nat (N_TTY_BUF_ALIGN (read_tail tty - i))) then i else word_length tty n (i + 1)
      else i)"
  by pat_completeness auto
termination by (relation "measure (\<lambda>(tty, n, i). nat (n - i))") auto

declare line_length.simps [simp del] word_length.simps [simp del]

section \<open>Output\<close>

primrec opost_chars :: "termios \<Rightarrow> u8 list \<Rightarrow> u8 list" where
  "opost_chars tm [] = []"
| "opost_chars tm (c # buf) =
     (if O_FLAG tm ONLCR \<and> c = ch CHR ''\<newline>'' then [0xD, c]
      else if O_FLAG tm OCRNL \<and> c = 0xD then [ch CHR ''\<newline>'']
      else [if O_FLAG tm OLCUC then toupper c else c]) @ opost_chars tm buf"

definition opost_block :: "tty_write_op \<Rightarrow> nat \<Rightarrow> u8 list \<Rightarrow> tty_state \<Rightarrow> (int \<times> tty_state) option" where
  "opost_block write t buf st =
     (let room = ntty_receive_room (ttys st t);
          buf = take (nat room) buf
      in if room = 0 then Some (0, st)
         else if O_FLAG (termios_of t st) OPOST then
           let wbuf = opost_chars (termios_of t st) buf
           in if N_TTY_BUF_SIZE < int (length wbuf) then None
              else map_option (\<lambda>(_, st). (int (length wbuf), st)) (write t wbuf st)
         else map_option (\<lambda>(_, st). (int (length buf), st)) (write t buf st))"

text \<open>An echo, whose result is not looked at.\<close>

definition echo_if :: "bool \<Rightarrow> tty_write_op \<Rightarrow> nat \<Rightarrow> u8 list \<Rightarrow> tty_state \<Rightarrow> tty_state option" where
  "echo_if b write t buf st = (if b then map_option snd (opost_block write t buf st) else Some st)"

definition eraser :: "tty_write_op \<Rightarrow> nat \<Rightarrow> u8 \<Rightarrow> tty_state \<Rightarrow> tty_state option" where
  "eraser write t c st =
     (let tm = termios_of t st;
          n = line_length tm (ttys st t) 0
      in if n = 0 then Some st
         else
           do {
             let erase = (if char_eq (WERASE_CHAR tm) c then word_length (ttys st t) n 0
                          else if char_eq (KILL_CHAR tm) c then n else 1);
             st \<leftarrow> echo_if (L_FLAG tm ECHO \<and> (char_eq (KILL_CHAR tm) c \<and> L_FLAG tm ECHOK \<or>
                       (char_eq (ERASE_CHAR tm) c \<or> char_eq (WERASE_CHAR tm) c) \<and> L_FLAG tm ECHOE)) write t [c] st;
             Some (upd_tty t (\<lambda>tty. tty\<lparr>read_count := read_count tty - erase,
               read_tail := (if read_head tty \<noteq> read_tail tty then N_TTY_BUF_ALIGN (read_tail tty - erase) else read_tail tty)\<rparr>) st)
           })"

section \<open>Reading\<close>

definition copy_from_read_buf :: "tty_struct \<Rightarrow> int \<Rightarrow> u8 list" where
  "copy_from_read_buf tty n = map (\<lambda>i. read_buf tty ! nat (N_TTY_BUF_ALIGN (read_head tty + int i))) [0..<nat n]"

definition assert_from_read_buf :: "tty_struct \<Rightarrow> int \<Rightarrow> bool" where
  "assert_from_read_buf tty n \<longleftrightarrow>
     n = 0 \<or>
     n \<le> read_count tty \<and>
     (if read_head tty \<noteq> read_tail tty then
        if read_tail tty < read_head tty then read_head tty + n - 1 \<le> read_tail tty + N_TTY_BUF_SIZE
        else read_head tty + n - 1 \<le> read_tail tty
      else n = 1)"

text \<open>The search for the end of the line, from the head to the tail; 0 when there is none.\<close>

partial_function (option) line_scan :: "termios \<Rightarrow> tty_struct \<Rightarrow> int \<Rightarrow> int \<Rightarrow> int option" where
  "line_scan tm tty pos count =
     (if LINE_SEPARATOR tm (read_buf tty ! nat pos) then Some (count + 1)
      else if pos = read_tail tty then Some 0
      else line_scan tm tty (N_TTY_BUF_ALIGN (pos + 1)) (count + 1))"

text \<open>Whether the loop is left, and with which length.\<close>

definition ntty_read_length :: "termios \<Rightarrow> tty_struct \<Rightarrow> (bool \<times> int) option" where
  "ntty_read_length tm tty =
     (if L_FLAG tm ICANON \<and> read_count tty \<noteq> 0 then
        map_option (\<lambda>n. (n \<noteq> 0, n)) (line_scan tm tty (read_head tty) 0)
      else if \<not> L_FLAG tm ICANON \<and> uint (MIN_CHAR tm) \<le> read_count tty then Some (True, read_count tty)
      else Some (False, 0))"

definition ntty_read_finish :: "nat \<Rightarrow> int \<Rightarrow> u32 \<Rightarrow> tty_state \<Rightarrow> (outcome \<times> u8 list \<times> tty_state) option" where
  "ntty_read_finish t len nr st =
     (let st = upd_tty t (\<lambda>tty. tty\<lparr>read_wait := del_wait (cur_thread (base st)) (read_wait tty)\<rparr>) st;
          tty = ttys st t
      in if len = 0 \<or> read_count tty < len then Some (Ret (- EFAULT), [], st)
         else
           let count = min len (sint nr)
           in if \<not> assert_from_read_buf tty count then None
              else
                do {
                  let buf = copy_from_read_buf tty count;
                  let st = upd_tty t (\<lambda>tty.
                    if count = read_count tty then tty\<lparr>read_head := 0, read_tail := 0, read_count := 0\<rparr>
                    else tty\<lparr>read_head := N_TTY_BUF_ALIGN (read_head tty + count), read_count := read_count tty - count\<rparr>) st;
                  st \<leftarrow> wake (write_wait tty) st;
                  Some (Ret count, buf, st)
                })"

definition ntty_read_loop :: "kenv \<Rightarrow> nat \<Rightarrow> u32 \<Rightarrow> tty_state \<Rightarrow> (outcome \<times> u8 list \<times> tty_state) option" where
  "ntty_read_loop e t nr st =
     do {
       (leave, len) \<leftarrow> ntty_read_length (termios_of t st) (ttys st t);
       (if leave then ntty_read_finish t len nr st
        else map_option (\<lambda>st. (Blocked, [], st)) (wait_turn e st))
     }"

text \<open>A process that is not in the foreground of its terminal.\<close>

definition in_background :: "nat \<Rightarrow> tty_state \<Rightarrow> bool" where
  "in_background t st \<longleftrightarrow>
     (let p = cur_process (base st)
      in proc_tty st p = Some t \<and> gid (procs (base st) p) \<noteq> tty_pgrp (ttys st t) \<and> pid (procs (base st) p) \<noteq> tty_session (ttys st t))"

definition ntty_read :: "kenv \<Rightarrow> nat \<Rightarrow> u32 \<Rightarrow> tty_state \<Rightarrow> (outcome \<times> u8 list \<times> tty_state) option" where
  "ntty_read e t nr st =
     (if in_background t st then
        map_option (\<lambda>st. (Ret (- ERESTARTSYS), [], st)) (kill e (- gid (procs (base st) (cur_process (base st)))) SIGTTIN st)
      else ntty_read_loop e t nr (upd_tty t (\<lambda>tty. tty\<lparr>read_wait := read_wait tty @ [DEFINE_WAIT st]\<rparr>) st))"

section \<open>Writing\<close>

definition ntty_write_loop :: "tty_write_op \<Rightarrow> kenv \<Rightarrow> nat \<Rightarrow> u8 list \<Rightarrow> tty_state \<Rightarrow> (outcome \<times> tty_state) option" where
  "ntty_write_loop write e t buf st =
     (if int (length buf) \<le> ntty_receive_room (ttys st t) then
        do {
          (_, st) \<leftarrow> opost_block write t buf st;
          Some (Ret (int (length buf)), upd_tty t (\<lambda>tty. tty\<lparr>write_wait := del_wait (cur_thread (base st)) (write_wait tty)\<rparr>) st)
        }
      else map_option (\<lambda>st. (Blocked, st)) (wait_turn e st))"

definition ntty_write :: "tty_write_op \<Rightarrow> kenv \<Rightarrow> nat \<Rightarrow> u8 list \<Rightarrow> tty_state \<Rightarrow> (outcome \<times> tty_state) option" where
  "ntty_write write e t buf st =
     (if in_background t st then
        map_option (\<lambda>st. (Ret (- ERESTARTSYS), st)) (kill e (- gid (procs (base st) (cur_process (base st)))) SIGTTOU st)
      else ntty_write_loop write e t buf (upd_tty t (\<lambda>tty. tty\<lparr>write_wait := write_wait tty @ [DEFINE_WAIT st]\<rparr>) st))"

section \<open>Receiving\<close>

definition put_tty :: "nat \<Rightarrow> u8 \<Rightarrow> tty_state \<Rightarrow> tty_state option" where
  "put_tty t c st = map_option (\<lambda>tty. st\<lparr>ttys := (ttys st)(t := tty)\<rparr>) (put_tty_queue c (ttys st t))"

text \<open>The character after the input flags, and \<open>None\<close> for a carriage return that is ignored.\<close>

definition input_char :: "termios \<Rightarrow> u8 \<Rightarrow> u8 option" where
  "input_char tm c =
     (let c = (if I_FLAG tm ISTRIP then c AND 0x7F else c);
          c = (if I_FLAG tm IUCLC \<and> L_FLAG tm IEXTEN then word_of_int (tolower (sint c)) else c)
      in if c = 0xD then
           if I_FLAG tm IGNCR then None else Some (if I_FLAG tm ICRNL then ch CHR ''\<newline>'' else c)
         else if c = ch CHR ''\<newline>'' \<and> I_FLAG tm INLCR then Some 0xD
         else Some c)"

definition char_signal :: "termios \<Rightarrow> u8 \<Rightarrow> int" where
  "char_signal tm c =
     (if \<not> L_FLAG tm ISIG then - 1
      else if char_eq (INTR_CHAR tm) c then SIGINT
      else if char_eq (QUIT_CHAR tm) c then SIGQUIT
      else if char_eq (SUSP_CHAR tm) c then SIGTSTP
      else - 1)"

text \<open>One turn of the loop in canonical mode, whose settings are looked at again in every turn.\<close>

definition receive_char :: "tty_write_op \<Rightarrow> kenv \<Rightarrow> nat \<Rightarrow> u8 \<Rightarrow> tty_state \<Rightarrow> tty_state option" where
  "receive_char write e t c st =
     (let tm = termios_of t st
      in case input_char tm c of
           None \<Rightarrow> Some st
         | Some c \<Rightarrow>
             let sig = char_signal tm c
             in if valid_signal sig \<and> 0 < sig then
                  if 0 < tty_pgrp (ttys st t) then kill e (- tty_pgrp (ttys st t)) sig st else Some st
                else if L_FLAG tm ICANON \<and>
                    (char_eq (ERASE_CHAR tm) c \<or> char_eq (KILL_CHAR tm) c \<or> char_eq (WERASE_CHAR tm) c \<and> L_FLAG tm IEXTEN) then
                  eraser write t c st
                else if L_FLAG tm ICANON \<and> char_eq (EOF_CHAR tm) c then
                  do { st \<leftarrow> put_tty t 0 st; wake (read_wait (ttys st t)) st }
                else if L_FLAG tm ICANON \<and>
                    (char_eq (EOL_CHAR tm) c \<or> char_eq (EOL2_CHAR tm) c \<and> L_FLAG tm IEXTEN \<or> c = ch CHR ''\<newline>'') then
                  do {
                    st \<leftarrow> put_tty t c st;
                    st \<leftarrow> echo_if (L_FLAG tm ECHONL \<and> c = ch CHR ''\<newline>'') write t [c] st;
                    wake (read_wait (ttys st t)) st
                  }
                else
                  do { st \<leftarrow> put_tty t c st; echo_if (L_FLAG tm ECHO) write t [c] st })"

primrec receive_chars :: "tty_write_op \<Rightarrow> kenv \<Rightarrow> nat \<Rightarrow> u8 list \<Rightarrow> tty_state \<Rightarrow> tty_state option" where
  "receive_chars write e t [] st = Some st"
| "receive_chars write e t (c # cp) st = Option.bind (receive_char write e t c st) (receive_chars write e t cp)"

primrec put_chars :: "nat \<Rightarrow> u8 list \<Rightarrow> tty_state \<Rightarrow> tty_state option" where
  "put_chars t [] st = Some st"
| "put_chars t (c # cp) st = Option.bind (put_tty t c st) (put_chars t cp)"

definition ntty_receive_buf :: "tty_write_op \<Rightarrow> kenv \<Rightarrow> nat \<Rightarrow> u8 list \<Rightarrow> tty_state \<Rightarrow> tty_state option" where
  "ntty_receive_buf write e t cp st =
     (if L_FLAG (termios_of t st) ICANON then receive_chars write e t cp st
      else
        do {
          st \<leftarrow> put_chars t cp st;
          st \<leftarrow> echo_if (L_FLAG (termios_of t st) ECHO) write t cp st;
          (if uint (MIN_CHAR (termios_of t st)) \<le> read_count (ttys st t) then wake (read_wait (ttys st t)) st else Some st)
        })"

section \<open>Drivers\<close>

definition pty_write :: "tty_write_op \<Rightarrow> kenv \<Rightarrow> tty_write_op" where
  "pty_write write e t buf st =
     (case tty_link (ttys st t) of
        None \<Rightarrow> Some (0, st)
      | Some to \<Rightarrow>
          let c = min (ntty_receive_room (ttys st to)) (int (length buf))
          in map_option (\<lambda>st. (c, st)) (ntty_receive_buf write e to (take (nat c) buf) st))"

definition pty_write_room :: "nat \<Rightarrow> tty_state \<Rightarrow> int" where
  "pty_write_room t st = (case tty_link (ttys st t) of None \<Rightarrow> 0 | Some to \<Rightarrow> ntty_receive_room (ttys st to))"

definition serial_write :: tty_write_op where
  "serial_write t buf st = Some (0, st\<lparr>serial_sent := serial_sent st @ map (Pair (tty_index (ttys st t))) buf\<rparr>)"

primrec tops_write :: "nat \<Rightarrow> kenv \<Rightarrow> tty_write_op" where
  "tops_write 0 e t buf st = None"
| "tops_write (Suc n) e t buf st =
     (if tty_drv (ttys st t) = Serial_driver then serial_write t buf st else pty_write (tops_write n e) e t buf st)"

section \<open>Polling\<close>

definition POLLIN :: u32 where "POLLIN = 0x0001"
definition POLLOUT :: u32 where "POLLOUT = 0x0004"
definition POLLRDNORM :: u32 where "POLLRDNORM = 0x0040"
definition POLLWRNORM :: u32 where "POLLWRNORM = 0x0100"

text \<open>\<open>poll_wait\<close> enters the current thread into a wait queue; the entry in the table of the poll is the way back to it.\<close>

definition poll_wait :: "tty_state \<Rightarrow> wait_queue_entry list \<Rightarrow> wait_queue_entry list" where
  "poll_wait st wh = wh @ [\<lparr>wait_thread = cur_thread (base st), wait_func = poll_wakeup\<rparr>]"

definition ntty_poll :: "nat \<Rightarrow> tty_state \<Rightarrow> u32 \<times> tty_state" where
  "ntty_poll t st =
     (let st = upd_tty t (\<lambda>tty. tty\<lparr>read_wait := poll_wait st (read_wait tty), write_wait := poll_wait st (write_wait tty)\<rparr>) st
      in ((if read_count (ttys st t) \<noteq> 0 then POLLIN OR POLLRDNORM else 0) OR
          (if read_count (ttys st t) < N_TTY_BUF_SIZE then POLLOUT OR POLLWRNORM else 0), st))"

section \<open>Terminals\<close>

definition ntty_open :: "tty_struct \<Rightarrow> tty_struct" where
  "ntty_open tty = tty\<lparr>read_buf := replicate (nat N_TTY_BUF_SIZE) 0, read_wait := [], write_wait := []\<rparr>"

definition find_tty_from_driver :: "tty_driver \<Rightarrow> int \<Rightarrow> tty_state \<Rightarrow> nat option" where
  "find_tty_from_driver d idx st = find (\<lambda>t. tty_index (ttys st t) = idx) (driver_ttys st d)"

text \<open>The structure at the address \<open>t\<close> that \<open>kcalloc\<close> returned; its name is left out.\<close>

definition create_tty_struct :: "tty_driver \<Rightarrow> int \<Rightarrow> nat \<Rightarrow> tty_state \<Rightarrow> tty_state" where
  "create_tty_struct d idx t st =
     st\<lparr>ttys := (ttys st)(t := ntty_open
          \<lparr>tty_index = idx, tty_drv = d, tty_link = None,
           tty_winsize = \<lparr>ws_row = 40, ws_col = 80, ws_xpixel = 0, ws_ypixel = 0\<rparr>,
           tty_pgrp = 0, tty_session = 0, write_wait = [], read_wait = [],
           read_head = 0, read_tail = 0, read_count = 0, read_buf = []\<rparr>),
        driver_ttys := (driver_ttys st)(d := driver_ttys st d @ [t])\<rparr>"

text \<open>\<open>for_each_process\<close> with the body that takes the terminal away.\<close>

partial_function (option) detach_loop :: "nat \<Rightarrow> nat option \<Rightarrow> tty_state \<Rightarrow> tty_state option" where
  "detach_loop t iter st =
     (case iter of
        None \<Rightarrow> Some st
      | Some i \<Rightarrow>
          Option.bind (hashmap_iter_get_data (mprocess (base st)) iter)
            (\<lambda>p. detach_loop t (hashmap_iter_next (mprocess (base st)) iter)
                   (st\<lparr>proc_tty := (\<lambda>q. if q = p \<and> proc_tty st q = Some t then None else proc_tty st q)\<rparr>)))"

abbreviation cur_proc :: "tty_state \<Rightarrow> process" where
  "cur_proc st \<equiv> procs (base st) (cur_process (base st))"

definition tiocsctty :: "nat \<Rightarrow> u32 \<Rightarrow> tty_state \<Rightarrow> (int \<times> tty_state) option" where
  "tiocsctty t arg st =
     (let p = cur_proc st
      in if pid p = sid p \<and> sid p = tty_session (ttys st t) then Some (0, st)
         else if pid p \<noteq> sid p \<or> proc_tty st (cur_process (base st)) \<noteq> None then Some (- EPERM, st)
         else if tty_session (ttys st t) \<noteq> 0 \<and> arg \<noteq> 1 then Some (- EPERM, st)
         else
           do {
             st \<leftarrow> (if tty_session (ttys st t) \<noteq> 0 then detach_loop t (hashmap_iter (mprocess (base st))) st else Some st);
             let st = st\<lparr>proc_tty := (proc_tty st)(cur_process (base st) := Some t)\<rparr>;
             Some (0, upd_tty t (\<lambda>tty. tty\<lparr>tty_session := sid p, tty_pgrp := gid p\<rparr>) st)
           })"

definition upd_umem :: "(mem \<Rightarrow> mem) \<Rightarrow> tty_state \<Rightarrow> tty_state" where
  "upd_umem f st = st\<lparr>base := (base st)\<lparr>umem := f (umem (base st))\<rparr>\<rparr>"

definition tiocgpgrp :: "nat \<Rightarrow> u32 \<Rightarrow> tty_state \<Rightarrow> int \<times> tty_state" where
  "tiocgpgrp t arg st =
     (if proc_tty st (cur_process (base st)) \<noteq> Some t then (- ENOTTY, st)
      else (0, if arg \<noteq> 0 then upd_umem (st32 arg (word_of_int (tty_pgrp (ttys st t)))) st else st))"

definition tiocspgrp :: "nat \<Rightarrow> u32 \<Rightarrow> tty_state \<Rightarrow> int \<times> tty_state" where
  "tiocspgrp t arg st =
     (let pgrp = sint (ld32 (umem (base st)) arg)
      in case find_process_by_pid (base st) pgrp of
           None \<Rightarrow> (- EINVAL, st)
         | Some p \<Rightarrow>
             if tty_session (ttys st t) \<noteq> sid (procs (base st) p) then (- EPERM, st)
             else (0, upd_tty t (\<lambda>tty. tty\<lparr>tty_pgrp := pgrp\<rparr>) st))"

text \<open>\<open>struct termios\<close> in memory: four words, \<open>c_line\<close> and 19 characters; \<open>struct winsize\<close>: four half words.\<close>

definition put_termios :: "u32 \<Rightarrow> termios \<Rightarrow> mem \<Rightarrow> mem" where
  "put_termios a tm m =
     write_bytes (c_line tm # c_cc tm) (a + 16) (st_words a [c_iflag tm, c_oflag tm, c_cflag tm, c_lflag tm] m)"

definition get_termios :: "u32 \<Rightarrow> mem \<Rightarrow> termios" where
  "get_termios a m =
     \<lparr>c_iflag = ld32 m a, c_oflag = ld32 m (a + 4), c_cflag = ld32 m (a + 8), c_lflag = ld32 m (a + 12),
      c_line = m (a + 16), c_cc = map (\<lambda>i. m (a + 17 + of_nat i)) [0..<19]\<rparr>"

definition tcgets :: "nat \<Rightarrow> u32 \<Rightarrow> tty_state \<Rightarrow> int \<times> tty_state" where
  "tcgets t arg st = (0, upd_umem (put_termios arg (termios_of t st)) st)"

definition tcsets :: "nat \<Rightarrow> u32 \<Rightarrow> tty_state \<Rightarrow> int \<times> tty_state" where
  "tcsets t arg st =
     (0, st\<lparr>init_termios := (init_termios st)(tty_drv (ttys st t) := get_termios arg (umem (base st)))\<rparr>)"

definition fionread :: "nat \<Rightarrow> u32 \<Rightarrow> tty_state \<Rightarrow> int \<times> tty_state" where
  "fionread t arg st = (0, upd_umem (st32 arg (word_of_int (read_count (ttys st t)))) st)"

definition half_bytes :: "u16 \<Rightarrow> u8 list" where
  "half_bytes w = [ucast w, ucast (drop_bit 8 w)]"

definition put_winsize :: "u32 \<Rightarrow> winsize \<Rightarrow> mem \<Rightarrow> mem" where
  "put_winsize a w m = write_bytes (half_bytes (ws_row w) @ half_bytes (ws_col w) @ half_bytes (ws_xpixel w) @ half_bytes (ws_ypixel w)) a m"

definition get_winsize :: "u32 \<Rightarrow> mem \<Rightarrow> winsize" where
  "get_winsize a m = \<lparr>ws_row = ld16 m a, ws_col = ld16 m (a + 2), ws_xpixel = ld16 m (a + 4), ws_ypixel = ld16 m (a + 6)\<rparr>"

definition tiocgwinsz :: "nat \<Rightarrow> u32 \<Rightarrow> tty_state \<Rightarrow> int \<times> tty_state" where
  "tiocgwinsz t arg st = (0, upd_umem (put_winsize arg (tty_winsize (ttys st t))) st)"

definition tiocswinsz :: "kenv \<Rightarrow> nat \<Rightarrow> u32 \<Rightarrow> tty_state \<Rightarrow> (int \<times> tty_state) option" where
  "tiocswinsz e t arg st =
     (let w = get_winsize arg (umem (base st));
          changes = (w \<noteq> tty_winsize (ttys st t));
          st = upd_tty t (\<lambda>tty. tty\<lparr>tty_winsize := w\<rparr>) st
      in if changes then map_option (Pair 0) (kill e (tty_pgrp (ttys st t)) SIGWINCH st) else Some (0, st))"

section \<open>Calls on a file\<close>

definition UNIX98_PTY_SLAVE_MAJOR :: u32 where "UNIX98_PTY_SLAVE_MAJOR = 136"
definition TTY_MAJOR :: u32 where "TTY_MAJOR = 4"
definition TTYAUX_MAJOR :: u32 where "TTYAUX_MAJOR = 5"
definition SERIAL_MINOR_BASE :: u32 where "SERIAL_MINOR_BASE = 64"
definition MINORBITS :: nat where "MINORBITS = 20"
definition MAJOR :: "u32 \<Rightarrow> u32" where "MAJOR dev = drop_bit MINORBITS dev"
definition MINOR :: "u32 \<Rightarrow> u32" where "MINOR dev = dev AND (push_bit MINORBITS 1 - 1)"

text \<open>The addresses of the two new terminals are arguments, the first of them becomes \<open>private_data\<close>; the node of the slave is
  made by the file system.\<close>

definition ptmx_open :: "nat \<Rightarrow> nat \<Rightarrow> tty_state \<Rightarrow> (nat \<times> tty_state) option" where
  "ptmx_open tm ts st =
     do {
       let index = next_pty_number st;
       let st = create_tty_struct Ptm_driver index tm (st\<lparr>next_pty_number := index + 1\<rparr>);
       (_, st) \<leftarrow> tiocsctty tm 0 st;
       let st = create_tty_struct Pts_driver index ts st;
       Some (tm, upd_tty ts (\<lambda>tty. tty\<lparr>tty_link := Some tm\<rparr>) (upd_tty tm (\<lambda>tty. tty\<lparr>tty_link := Some ts\<rparr>) st))
     }"

text \<open>Without a terminal \<open>tiocsctty\<close> reads through the null pointer, unless the process is not the leader of its session.\<close>

definition tty_open :: "nat \<Rightarrow> u32 \<Rightarrow> tty_state \<Rightarrow> (nat option \<times> tty_state) option" where
  "tty_open t dev st =
     (let (tty, st) =
        (if MAJOR dev = UNIX98_PTY_SLAVE_MAJOR then (find_tty_from_driver Pts_driver (uint (MINOR dev)) st, st)
         else if MAJOR dev = TTYAUX_MAJOR \<and> MINOR dev = 0 then (proc_tty st (cur_process (base st)), st)
         else if MAJOR dev = TTY_MAJOR \<and> SERIAL_MINOR_BASE \<le> MINOR dev then
           (case find_tty_from_driver Serial_driver (uint (MINOR dev)) st of
              Some tty \<Rightarrow> (Some tty, st)
            | None \<Rightarrow> (Some t, create_tty_struct Serial_driver (uint (MINOR dev - SERIAL_MINOR_BASE)) t st))
         else (None, st))
      in case tty of
           None \<Rightarrow> if pid (cur_proc st) = sid (cur_proc st) then None else Some (None, st)
         | Some t \<Rightarrow> map_option (\<lambda>(_, st). (Some t, st)) (tiocsctty t 0 st))"

text \<open>The test for a null pointer comes after its first use.\<close>

definition tty_read :: "kenv \<Rightarrow> nat option \<Rightarrow> u32 \<Rightarrow> tty_state \<Rightarrow> (outcome \<times> u8 list \<times> tty_state) option" where
  "tty_read e private_data count st = Option.bind private_data (\<lambda>t. ntty_read e t count st)"

definition tty_write :: "nat \<Rightarrow> kenv \<Rightarrow> nat option \<Rightarrow> u8 list \<Rightarrow> tty_state \<Rightarrow> (outcome \<times> tty_state) option" where
  "tty_write n e private_data buf st = Option.bind private_data (\<lambda>t. ntty_write (tops_write n e) e t buf st)"

definition tty_poll :: "nat option \<Rightarrow> tty_state \<Rightarrow> (u32 \<times> tty_state) option" where
  "tty_poll private_data st = map_option (\<lambda>t. ntty_poll t st) private_data"

definition IOC :: "u32 \<Rightarrow> u32 \<Rightarrow> u32 \<Rightarrow> u32 \<Rightarrow> u32" where
  "IOC dir type nr sz = push_bit 30 dir OR push_bit 8 type OR nr OR push_bit 16 sz"

definition IOR :: "char \<Rightarrow> u32 \<Rightarrow> u32 \<Rightarrow> u32" where "IOR type nr sz = IOC 2 (of_char type) nr sz"
definition IOW :: "char \<Rightarrow> u32 \<Rightarrow> u32 \<Rightarrow> u32" where "IOW type nr sz = IOC 1 (of_char type) nr sz"

definition TCGETS :: u32 where "TCGETS = 0x540D"
definition TCSETS :: u32 where "TCSETS = 0x540E"
definition TCSETSW :: u32 where "TCSETSW = 0x540F"
definition TCSETSF :: u32 where "TCSETSF = 0x5410"
definition TIOCSWINSZ :: u32 where "TIOCSWINSZ = IOW CHR ''t'' 103 8"
definition TIOCGWINSZ :: u32 where "TIOCGWINSZ = IOR CHR ''t'' 104 8"
definition TIOCSPGRP :: u32 where "TIOCSPGRP = IOW CHR ''t'' 118 4"
definition TIOCGPGRP :: u32 where "TIOCGPGRP = IOR CHR ''t'' 119 4"
definition FIONREAD :: u32 where "FIONREAD = 0x467F"
definition TIOCSCTTY :: u32 where "TIOCSCTTY = 0x5480"

definition tty_ioctl :: "kenv \<Rightarrow> nat option \<Rightarrow> u32 \<Rightarrow> u32 \<Rightarrow> tty_state \<Rightarrow> (int \<times> tty_state) option" where
  "tty_ioctl e private_data cmd arg st =
     (case private_data of
        None \<Rightarrow> Some (- ENODEV, st)
      | Some t \<Rightarrow>
          if cmd = TCGETS then Some (tcgets t arg st)
          else if cmd = TCSETS \<or> cmd = TCSETSW \<or> cmd = TCSETSF then Some (tcsets t arg st)
          else if cmd = TIOCSCTTY then tiocsctty t arg st
          else if cmd = TIOCGPGRP then Some (tiocgpgrp t arg st)
          else if cmd = TIOCSPGRP then Some (tiocspgrp t arg st)
          else if cmd = FIONREAD then Some (fionread t arg st)
          else if cmd = TIOCGWINSZ then Some (tiocgwinsz t arg st)
          else if cmd = TIOCSWINSZ then tiocswinsz e t arg st
          else Some (0, st))"

end
