(* ===== verification/Tty_Spec.thy ===== *)
theory Tty_Spec
  imports Tty
begin

text \<open>
  What the terminals promise: the read buffer is well-formed after every operation, it is a queue that the line discipline edits,
  and what is typed at the master of a pseudo terminal is read, line by line, at the slave.
\<close>

section \<open>The read buffer as a list\<close>

definition tty_ok :: "tty_struct \<Rightarrow> bool" where
  "tty_ok tty \<longleftrightarrow>
     length (read_buf tty) = 4096 \<and> 0 \<le> read_head tty \<and> read_head tty < 4096 \<and> 0 \<le> read_count tty \<and> read_count tty \<le> 4096 \<and>
     read_tail tty = (if read_count tty = 0 then read_head tty else (read_head tty + read_count tty - 1) mod 4096)"

definition contents :: "tty_struct \<Rightarrow> u8 list" where
  "contents tty = map (\<lambda>i. read_buf tty ! nat ((read_head tty + int i) mod 4096)) [0..<nat (read_count tty)]"

declare tops_write.simps(2) [simp del]

lemmas ntty_defs = N_TTY_BUF_SIZE_def N_TTY_BUF_ALIGN_def

lemma length_contents: "length (contents tty) = nat (read_count tty)"
  by (simp add: contents_def)

lemma nth_contents: "i < nat (read_count tty) \<Longrightarrow> contents tty ! i = read_buf tty ! nat ((read_head tty + int i) mod 4096)"
  by (simp add: contents_def)

lemma contents_cong:
  "read_buf tty' = read_buf tty \<Longrightarrow> read_head tty' = read_head tty \<Longrightarrow> read_count tty' = read_count tty \<Longrightarrow>
   contents tty' = contents tty"
  by (simp add: contents_def)

lemma tty_ok_cong:
  "read_buf tty' = read_buf tty \<Longrightarrow> read_head tty' = read_head tty \<Longrightarrow> read_tail tty' = read_tail tty \<Longrightarrow>
   read_count tty' = read_count tty \<Longrightarrow> tty_ok tty' = tty_ok tty"
  by (simp add: tty_ok_def)

lemma tty_ok_tail: "tty_ok tty \<Longrightarrow> 0 \<le> read_tail tty \<and> read_tail tty < 4096"
  by (auto simp: tty_ok_def split: if_splits)

text \<open>Distinct offsets of fewer than 4096 bytes are distinct places.\<close>

lemma ring_neq: "0 \<le> i \<Longrightarrow> i < j \<Longrightarrow> j < 4096 \<Longrightarrow> (h + i) mod 4096 \<noteq> (h + j) mod (4096 :: int)"
proof
  assume a: "0 \<le> i" "i < j" "j < 4096" "(h + i) mod 4096 = (h + j) mod (4096 :: int)"
  from mod_eq_dvd_iff [THEN iffD1, OF a(4)] have "4096 dvd j - i" by (simp add: dvd_diff_commute)
  then show False using a(1-3) by (auto dest: zdvd_imp_le)
qed

lemma contents_push:
  assumes "length (read_buf tty) = 4096" "0 \<le> read_count tty" "read_count tty < 4096"
    and "buf = (read_buf tty)[nat ((read_head tty + read_count tty) mod 4096) := c]"
    and "read_buf tty' = buf" "read_head tty' = read_head tty" "read_count tty' = read_count tty + 1"
  shows "contents tty' = contents tty @ [c]"
proof (rule nth_equalityI)
  let ?n = "nat (read_count tty)"
  show len: "length (contents tty') = length (contents tty @ [c])"
    using assms(2,7) by (simp add: length_contents nat_add_distrib)
  fix i assume "i < length (contents tty')"
  then have i: "i < Suc ?n" using len by (simp add: length_contents)
  have p: "0 \<le> (h :: int) mod 4096" "nat (h mod 4096) < 4096" for h by simp_all
  have "contents tty' ! i = buf ! nat ((read_head tty + int i) mod 4096)"
    using i assms(2,5-7) by (simp add: nth_contents nat_add_distrib)
  also have "\<dots> = (contents tty @ [c]) ! i"
  proof (cases "i = ?n")
    case True
    then show ?thesis using assms(1,2,4) by (simp add: length_contents nth_append)
  next
    case False
    then have "(read_head tty + int i) mod 4096 \<noteq> (read_head tty + read_count tty) mod 4096"
      using i assms(2,3) by (intro ring_neq) auto
    then have "nat ((read_head tty + int i) mod 4096) \<noteq> nat ((read_head tty + read_count tty) mod 4096)"
      by (simp add: nat_eq_iff)
    then show ?thesis using i False assms(4) by (simp add: length_contents nth_append nth_contents)
  qed
  finally show "contents tty' ! i = (contents tty @ [c]) ! i" .
qed

lemma put_tty_queue_ok:
  assumes ok: "tty_ok tty" and "read_count tty < 4096"
  shows "\<exists>tail buf. put_tty_queue c tty = Some (tty\<lparr>read_tail := tail, read_buf := buf, read_count := read_count tty + 1\<rparr>) \<and>
    tty_ok (tty\<lparr>read_tail := tail, read_buf := buf, read_count := read_count tty + 1\<rparr>) \<and>
    contents (tty\<lparr>read_tail := tail, read_buf := buf, read_count := read_count tty + 1\<rparr>) = contents tty @ [c]"
proof -
  define tail where "tail = (read_head tty + read_count tty) mod 4096"
  define buf where "buf = (read_buf tty)[nat tail := c]"
  have "put_tty_queue c tty = Some (tty\<lparr>read_tail := tail, read_buf := buf, read_count := read_count tty + 1\<rparr>)"
  proof (cases "read_count tty = 0")
    case True
    then show ?thesis
      using assms by (simp add: put_tty_queue_def tty_ok_def tail_def buf_def ntty_defs)
  next
    case False
    have "((read_head tty + read_count tty - 1) mod 4096 + 1) mod 4096 = tail"
      unfolding tail_def by (simp add: mod_add_left_eq)
    then show ?thesis
      using assms False by (simp add: put_tty_queue_def tty_ok_def buf_def ntty_defs Let_def)
  qed
  moreover have "tty_ok (tty\<lparr>read_tail := tail, read_buf := buf, read_count := read_count tty + 1\<rparr>)"
    using assms by (auto simp: tty_ok_def tail_def buf_def)
  moreover have "contents (tty\<lparr>read_tail := tail, read_buf := buf, read_count := read_count tty + 1\<rparr>) = contents tty @ [c]"
    using assms by (intro contents_push) (auto simp: tty_ok_def tail_def buf_def)
  ultimately show ?thesis by blast
qed

lemma put_tty_queue_full: "4096 \<le> read_count tty \<Longrightarrow> put_tty_queue c tty = None"
  by (simp add: put_tty_queue_def ntty_defs)

section \<open>Erasing\<close>

text \<open>The byte \<open>l\<close> places in front of the tail.\<close>

lemma from_tail:
  assumes "tty_ok tty" "0 \<le> l" "l < read_count tty"
  shows "read_buf tty ! nat (N_TTY_BUF_ALIGN (read_tail tty - l)) = rev (contents tty) ! nat l"
proof -
  have "(read_tail tty - l) mod 4096 = (read_head tty + (read_count tty - 1 - l)) mod 4096"
    using assms by (simp add: tty_ok_def mod_diff_left_eq algebra_simps)
  moreover have "rev (contents tty) ! nat l = contents tty ! nat (read_count tty - 1 - l)"
    using assms by (simp add: rev_nth length_contents nat_diff_distrib)
  ultimately show ?thesis using assms by (simp add: nth_contents ntty_defs)
qed

lemma at_head:
  assumes "tty_ok tty" "0 \<le> l" "l < read_count tty"
  shows "N_TTY_BUF_ALIGN (read_tail tty - (l + 1)) = read_head tty \<longleftrightarrow> l + 1 = read_count tty - 1"
proof -
  have eq: "(read_tail tty - (l + 1)) mod 4096 = (read_head tty + (read_count tty - 2 - l)) mod 4096"
    using assms by (simp add: tty_ok_def mod_diff_left_eq algebra_simps)
  have h: "read_head tty mod 4096 = read_head tty" using assms(1) by (simp add: tty_ok_def)
  have "(read_head tty + (read_count tty - 2 - l)) mod 4096 = read_head tty \<longleftrightarrow> read_count tty - 2 - l = 0"
  proof
    assume "(read_head tty + (read_count tty - 2 - l)) mod 4096 = read_head tty"
    then have "(read_head tty + (read_count tty - 2 - l)) mod 4096 = read_head tty mod 4096" using h by simp
    from mod_eq_dvd_iff [THEN iffD1, OF this] have "4096 dvd read_count tty - 2 - l" by simp
    then obtain k where k: "read_count tty - 2 - l = 4096 * k" by (elim dvdE)
    then show "read_count tty - 2 - l = 0" using assms by (auto simp: tty_ok_def)
  qed (use h in simp)
  then show ?thesis unfolding ntty_defs eq by auto
qed

definition line_end :: "termios \<Rightarrow> u8 list \<Rightarrow> nat" where
  "line_end tm xs = length (takeWhile (\<lambda>c. \<not> LINE_SEPARATOR tm c) (rev xs))"

text \<open>The length of the line that can be erased: the first byte of the buffer is never part of it when there are others.\<close>

definition erasable :: "termios \<Rightarrow> u8 list \<Rightarrow> nat" where
  "erasable tm xs = (if 2 \<le> length xs then min (line_end tm xs) (length xs - 1) else line_end tm xs)"

lemma takeWhile_drop:
  "i < length xs \<Longrightarrow> length (takeWhile P (drop i xs)) = (if P (xs ! i) then Suc (length (takeWhile P (drop (Suc i) xs))) else 0)"
  by (simp add: Cons_nth_drop_Suc [symmetric])

lemma line_length_eq:
  "tty_ok tty \<Longrightarrow> 0 \<le> l \<Longrightarrow> l \<le> read_count tty \<Longrightarrow> 2 \<le> read_count tty \<longrightarrow> l < read_count tty - 1 \<Longrightarrow>
   line_length tm tty l =
     (let n = l + int (length (takeWhile (\<lambda>c. \<not> LINE_SEPARATOR tm c) (drop (nat l) (rev (contents tty)))))
      in if 2 \<le> read_count tty then min n (read_count tty - 1) else n)"
proof (induction tm tty l rule: line_length.induct)
  case (1 tm tty l)
  let ?r = "rev (contents tty)"
  show ?case
  proof (cases "l < read_count tty")
    case True
    have len: "nat l < length ?r" using True "1.prems"(2) by (simp add: length_contents)
    note x = from_tail [OF "1.prems"(1,2) True] and h = at_head [OF "1.prems"(1,2) True]
    note tw = takeWhile_drop [OF len, of "\<lambda>c. \<not> LINE_SEPARATOR tm c"]
    have suc: "nat (l + 1) = Suc (nat l)" using "1.prems"(2) by simp
    consider "LINE_SEPARATOR tm (?r ! nat l)" | "\<not> LINE_SEPARATOR tm (?r ! nat l)" "l + 1 = read_count tty - 1"
      | "\<not> LINE_SEPARATOR tm (?r ! nat l)" "l + 1 \<noteq> read_count tty - 1" by blast
    then show ?thesis
    proof cases
      case 1
      then show ?thesis using True x tw "1.prems" by (simp add: line_length.simps [of tm tty l] Let_def)
    next
      case 2
      then show ?thesis using True x h tw "1.prems" by (simp add: line_length.simps [of tm tty l] Let_def)
    next
      case 3
      have "line_length tm tty l = line_length tm tty (l + 1)" using True x h 3 by (simp add: line_length.simps [of tm tty l])
      also have "\<dots> = (let n = l + 1 + int (length (takeWhile (\<lambda>c. \<not> LINE_SEPARATOR tm c) (drop (nat (l + 1)) ?r)))
        in if 2 \<le> read_count tty then min n (read_count tty - 1) else n)"
        using True x h 3 "1.prems" by (intro "1.IH") auto
      finally show ?thesis using tw 3 suc by (simp add: Let_def add.assoc)
    qed
  next
    case False
    then show ?thesis using "1.prems" by (simp add: line_length.simps [of tm tty "read_count tty"] Let_def length_contents)
  qed
qed

lemma line_length_erasable:
  assumes "tty_ok tty"
  shows "line_length tm tty 0 = int (erasable tm (contents tty))"
proof -
  obtain k where k: "read_count tty = int k" using assms by (auto simp: tty_ok_def intro: that [of "nat (read_count tty)"])
  then show ?thesis
    using line_length_eq [OF assms, of 0 tm]
    by (auto simp: Let_def erasable_def line_end_def length_contents min_def)
qed

lemma word_length_eq:
  "tty_ok tty \<Longrightarrow> 0 \<le> i \<Longrightarrow> i \<le> n \<Longrightarrow> n \<le> read_count tty \<Longrightarrow>
   word_length tty n i = i + int (length (takeWhile (\<lambda>c. \<not> isspace c) (drop (nat i) (take (nat n) (rev (contents tty))))))"
proof (induction tty n i rule: word_length.induct)
  case (1 tty n i)
  let ?r = "take (nat n) (rev (contents tty))"
  show ?case
  proof (cases "i < n")
    case True
    have len: "nat i < length ?r" using True "1.prems" by (simp add: length_contents)
    have x: "read_buf tty ! nat (N_TTY_BUF_ALIGN (read_tail tty - i)) = ?r ! nat i"
      using from_tail [OF "1.prems"(1,2)] True "1.prems"(2,4) by simp
    note tw = takeWhile_drop [OF len, of "\<lambda>c. \<not> isspace c"]
    have suc: "nat (i + 1) = Suc (nat i)" using "1.prems"(2) by simp
    show ?thesis
    proof (cases "isspace (?r ! nat i)")
      case True
      then show ?thesis using \<open>i < n\<close> x tw by (simp add: word_length.simps [of tty n i])
    next
      case False
      have "word_length tty n i = word_length tty n (i + 1)" using True x False by (simp add: word_length.simps [of tty n i])
      also have "\<dots> = i + 1 + int (length (takeWhile (\<lambda>c. \<not> isspace c) (drop (nat (i + 1)) ?r)))"
        using True x False "1.prems" by (intro "1.IH") auto
      finally show ?thesis using tw False suc by simp
    qed
  next
    case False
    then show ?thesis using "1.prems" by (simp add: word_length.simps [of tty n n] length_contents)
  qed
qed

text \<open>How many bytes an erase character takes away.\<close>

definition erase_count :: "termios \<Rightarrow> u8 list \<Rightarrow> u8 \<Rightarrow> nat" where
  "erase_count tm xs c =
     (let n = erasable tm xs
      in if n = 0 then 0
         else if char_eq (WERASE_CHAR tm) c then length (takeWhile (\<lambda>c. \<not> isspace c) (take n (rev xs)))
         else if char_eq (KILL_CHAR tm) c then n else 1)"

lemma erasable_le: "erasable tm xs \<le> length xs" "2 \<le> length xs \<Longrightarrow> erasable tm xs < length xs"
  using length_takeWhile_le [of "\<lambda>c. \<not> LINE_SEPARATOR tm c" "rev xs"] by (auto simp: erasable_def line_end_def)

lemma erase_count_le: "erase_count tm xs c \<le> erasable tm xs"
  using length_takeWhile_le [of "\<lambda>c. \<not> isspace c" "take (erasable tm xs) (rev xs)"] by (auto simp: erase_count_def Let_def)

lemma erased_ok:
  assumes "tty_ok tty" "n \<le> length (contents tty)" "2 \<le> length (contents tty) \<longrightarrow> n < length (contents tty)"
  defines "tty' \<equiv> tty\<lparr>read_count := read_count tty - int n,
     read_tail := (if read_head tty \<noteq> read_tail tty then N_TTY_BUF_ALIGN (read_tail tty - int n) else read_tail tty)\<rparr>"
  shows "tty_ok tty'" and "contents tty' = take (length (contents tty) - n) (contents tty)"
proof -
  have n: "int n \<le> read_count tty" "2 \<le> read_count tty \<longrightarrow> int n < read_count tty"
    using assms(1-3) by (auto simp: length_contents tty_ok_def)
  show "contents tty' = take (length (contents tty) - n) (contents tty)"
    using n(1) by (simp add: tty'_def contents_def take_map nat_diff_distrib)
  have "(read_head tty + read_count tty - 1) mod 4096 \<noteq> read_head tty" if "2 \<le> read_count tty"
    using ring_neq [of 0 "read_count tty - 1" "read_head tty"] that assms(1) by (auto simp: tty_ok_def algebra_simps)
  then show "tty_ok tty'"
    using assms(1) n unfolding tty_ok_def tty'_def ntty_defs
    by (auto simp: mod_diff_left_eq algebra_simps) 
qed

section \<open>The whole state\<close>

definition other_end :: "tty_driver \<Rightarrow> tty_driver" where
  "other_end d = (case d of Ptm_driver \<Rightarrow> Pts_driver | Pts_driver \<Rightarrow> Ptm_driver | Serial_driver \<Rightarrow> Serial_driver)"

text \<open>All read buffers are well-formed, a link joins a master and a slave, and masters do not echo.\<close>

definition ttys_ok :: "tty_state \<Rightarrow> bool" where
  "ttys_ok st \<longleftrightarrow>
     (\<forall>t. tty_ok (ttys st t) \<and>
        (\<forall>u. tty_link (ttys st t) = Some u \<longrightarrow>
           tty_drv (ttys st t) \<noteq> Serial_driver \<and> tty_drv (ttys st u) = other_end (tty_drv (ttys st t)))) \<and>
     \<not> L_FLAG (init_termios st Ptm_driver) ECHO \<and> \<not> L_FLAG (init_termios st Ptm_driver) ECHONL"

text \<open>What input and output leave alone: of a terminal everything but the read buffer.\<close>

definition same_tty :: "tty_struct \<Rightarrow> tty_struct \<Rightarrow> bool" where
  "same_tty tty tty' \<longleftrightarrow>
     tty_drv tty' = tty_drv tty \<and> tty_link tty' = tty_link tty \<and> tty_pgrp tty' = tty_pgrp tty \<and> tty_session tty' = tty_session tty \<and>
     read_wait tty' = read_wait tty \<and> write_wait tty' = write_wait tty"

definition same_frame :: "tty_state \<Rightarrow> tty_state \<Rightarrow> bool" where
  "same_frame st st' \<longleftrightarrow>
     init_termios st' = init_termios st \<and> driver_ttys st' = driver_ttys st \<and> proc_tty st' = proc_tty st \<and>
     (\<forall>t. same_tty (ttys st t) (ttys st' t))"

lemma same_frame_refl: "same_frame st st"
  by (simp add: same_frame_def same_tty_def)

lemma same_frame_trans: "same_frame st st' \<Longrightarrow> same_frame st' st2 \<Longrightarrow> same_frame st st2"
  by (simp add: same_frame_def same_tty_def)

lemma same_frame_ok: "same_frame st st' \<Longrightarrow> ttys_ok st \<Longrightarrow> \<forall>t. tty_ok (ttys st' t) \<Longrightarrow> ttys_ok st'"
  by (simp add: same_frame_def same_tty_def ttys_ok_def)

lemma same_frameD:
  assumes "same_frame st st'"
  shows "init_termios st' = init_termios st" "tty_drv (ttys st' t) = tty_drv (ttys st t)" "tty_link (ttys st' t) = tty_link (ttys st t)"
    "tty_pgrp (ttys st' t) = tty_pgrp (ttys st t)" "read_wait (ttys st' t) = read_wait (ttys st t)" "write_wait (ttys st' t) = write_wait (ttys st t)"
  using assms by (simp_all add: same_frame_def same_tty_def)

text \<open>An operation on the terminal \<open>t\<close> that keeps everything well-formed and changes no other terminal.\<close>

definition only_tty :: "nat \<Rightarrow> tty_state \<Rightarrow> tty_state \<Rightarrow> bool" where
  "only_tty t st st' \<longleftrightarrow> same_frame st st' \<and> (ttys_ok st \<longrightarrow> ttys_ok st') \<and> (\<forall>u. u \<noteq> t \<longrightarrow> ttys st' u = ttys st u)"

lemma only_tty_refl: "only_tty t st st"
  by (simp add: only_tty_def same_frame_refl)

lemma only_tty_upd:
  "same_tty (ttys st t) tty \<Longrightarrow> (ttys_ok st \<longrightarrow> tty_ok tty) \<Longrightarrow> only_tty t st (st\<lparr>ttys := (ttys st)(t := tty)\<rparr>)"
  unfolding only_tty_def
proof (intro conjI impI)
  assume a: "same_tty (ttys st t) tty" "ttys_ok st \<longrightarrow> tty_ok tty"
  then show f: "same_frame st (st\<lparr>ttys := (ttys st)(t := tty)\<rparr>)" by (simp add: same_frame_def same_tty_def)
  assume "ttys_ok st"
  then show "ttys_ok (st\<lparr>ttys := (ttys st)(t := tty)\<rparr>)"
    using a(2) by (intro same_frame_ok [OF f]) (simp_all add: ttys_ok_def)
qed simp

lemma only_tty_base: "st' = st\<lparr>base := b\<rparr> \<Longrightarrow> only_tty t st st'"
  by (simp add: only_tty_def same_frame_def same_tty_def ttys_ok_def)

lemma in_base_only: "in_base f st = Some st' \<Longrightarrow> only_tty t st st'"
  unfolding in_base_def by (elim map_option_eq_Some [THEN iffD1, elim_format] exE conjE) (rule only_tty_base, erule sym)

lemma base_only_tty:
  "kill e p sig st = Some st' \<Longrightarrow> only_tty t st st'" "wake ws st = Some st' \<Longrightarrow> only_tty t st st'"
  "wait_turn e st = Some st' \<Longrightarrow> only_tty t st st'"
  unfolding kill_def wake_def wait_turn_def by (simp_all add: in_base_only)

lemma put_tty_only: "put_tty t c st = Some st' \<Longrightarrow> only_tty t st st'"
proof -
  assume "put_tty t c st = Some st'"
  then obtain tty where put: "put_tty_queue c (ttys st t) = Some tty" and st': "st' = st\<lparr>ttys := (ttys st)(t := tty)\<rparr>"
    by (auto simp: put_tty_def)
  have "tty_ok tty" if "tty_ok (ttys st t)"
    using put_tty_queue_ok [OF that, of c] put put_tty_queue_full [of "ttys st t" c] by (cases "read_count (ttys st t) < 4096") auto
  then show ?thesis
    unfolding st' using put by (intro only_tty_upd) (auto simp: put_tty_queue_def ttys_ok_def same_tty_def Let_def split: if_splits)
qed

text \<open>A write operation that leaves the terminal it is called for alone, when that is no master.\<close>

definition write_apart :: "tty_write_op \<Rightarrow> bool" where
  "write_apart write \<longleftrightarrow>
     (\<forall>t buf st r st'. ttys_ok st \<longrightarrow> tty_drv (ttys st t) \<noteq> Ptm_driver \<longrightarrow> write t buf st = Some (r, st') \<longrightarrow>
        same_frame st st' \<and> ttys_ok st' \<and> ttys st' t = ttys st t)"

lemma opost_apart:
  assumes "write_apart write" "ttys_ok st" "tty_drv (ttys st t) \<noteq> Ptm_driver" "opost_block write t buf st = Some (r, st')"
  shows "same_frame st st' \<and> ttys_ok st' \<and> ttys st' t = ttys st t"
proof -
  have w: "write t b st = Some (r', st2) \<Longrightarrow> same_frame st st2 \<and> ttys_ok st2 \<and> ttys st2 t = ttys st t" for b r' st2
    using assms(1-3) unfolding write_apart_def by blast
  show ?thesis
    using assms(2,4) w same_frame_refl [of st] by (auto simp: opost_block_def Let_def split: if_splits)
qed

lemma echo_apart:
  assumes "write_apart write" "ttys_ok st" "b \<longrightarrow> tty_drv (ttys st t) \<noteq> Ptm_driver" "echo_if b write t buf st = Some st'"
  shows "same_frame st st' \<and> ttys_ok st' \<and> ttys st' t = ttys st t"
  using assms opost_apart [OF assms(1,2)] same_frame_refl [of st] by (auto simp: echo_if_def split: if_splits)

lemma no_master_echo:
  "ttys_ok st \<Longrightarrow> L_FLAG (termios_of t st) ECHO \<or> L_FLAG (termios_of t st) ECHONL \<Longrightarrow> tty_drv (ttys st t) \<noteq> Ptm_driver"
  by (auto simp: ttys_ok_def)

section \<open>The line editor\<close>

text \<open>What a character does to the bytes of the read buffer.\<close>

definition line_edit :: "termios \<Rightarrow> u8 list \<Rightarrow> u8 \<Rightarrow> u8 list" where
  "line_edit tm xs c =
     (case input_char tm c of
        None \<Rightarrow> xs
      | Some c \<Rightarrow>
          if valid_signal (char_signal tm c) \<and> 0 < char_signal tm c then xs
          else if L_FLAG tm ICANON \<and>
              (char_eq (ERASE_CHAR tm) c \<or> char_eq (KILL_CHAR tm) c \<or> char_eq (WERASE_CHAR tm) c \<and> L_FLAG tm IEXTEN)
            then take (length xs - erase_count tm xs c) xs
          else if L_FLAG tm ICANON \<and> char_eq (EOF_CHAR tm) c then xs @ [0]
          else xs @ [c])"

text \<open>A step on the terminal \<open>t\<close> that leaves it with the contents \<open>xs\<close>.\<close>

definition edits :: "nat \<Rightarrow> u8 list \<Rightarrow> tty_state \<Rightarrow> tty_state \<Rightarrow> bool" where
  "edits t xs st st' \<longleftrightarrow> same_frame st st' \<and> ttys_ok st' \<and> contents (ttys st' t) = xs"

lemma put_tty_edits:
  assumes "ttys_ok st" "put_tty t c st = Some st'"
  shows "edits t (contents (ttys st t) @ [c]) st st'"
proof -
  have ok: "tty_ok (ttys st t)" using assms(1) by (simp add: ttys_ok_def)
  have "read_count (ttys st t) < 4096"
    using assms(2) put_tty_queue_full [of "ttys st t" c] by (fastforce simp: put_tty_def)
  with put_tty_queue_ok [OF ok this, of c] have "contents (ttys st' t) = contents (ttys st t) @ [c]"
    using assms(2) by (auto simp: put_tty_def)
  then show ?thesis using put_tty_only [OF assms(2)] assms(1) by (simp add: edits_def only_tty_def)
qed

lemma edits_base: "edits t xs st st' \<Longrightarrow> wake ws st' = Some st2 \<Longrightarrow> edits t xs st st2"
proof -
  assume a: "edits t xs st st'" "wake ws st' = Some st2"
  then have "ttys st2 = ttys st'" by (auto simp: wake_def in_base_def)
  then show ?thesis using a base_only_tty(2) [OF a(2), of t] same_frame_trans [of st st' st2] by (simp add: edits_def only_tty_def)
qed

lemma edits_echo:
  assumes "write_apart write" "edits t xs st st'" "echo_if b write t buf st' = Some st2" "b \<longrightarrow> tty_drv (ttys st t) \<noteq> Ptm_driver"
  shows "edits t xs st st2"
proof -
  have "tty_drv (ttys st' t) = tty_drv (ttys st t)" using assms(2) by (simp add: edits_def same_frameD(2))
  then show ?thesis
    using echo_apart [OF assms(1) _ _ assms(3)] assms(2,4) same_frame_trans [of st st' st2] by (auto simp: edits_def)
qed

lemma eraser_edits:
  assumes "write_apart write" "ttys_ok st" "eraser write t c st = Some st'"
  shows "edits t (take (length (contents (ttys st t)) - erase_count (termios_of t st) (contents (ttys st t)) c) (contents (ttys st t))) st st'"
proof -
  let ?tm = "termios_of t st" and ?xs = "contents (ttys st t)"
  have ok: "tty_ok (ttys st t)" using assms(2) by (simp add: ttys_ok_def)
  have cnt: "0 \<le> read_count (ttys st t)" using ok by (simp add: tty_ok_def)
  note len = line_length_erasable [OF ok, of ?tm]
  show ?thesis
  proof (cases "erasable ?tm ?xs = 0")
    case True
    then show ?thesis using assms(2,3) len same_frame_refl by (simp add: eraser_def Let_def edits_def erase_count_def)
  next
    case False
    let ?n = "erase_count ?tm ?xs c"
    have "word_length (ttys st t) (int (erasable ?tm ?xs)) 0 = int (length (takeWhile (\<lambda>c. \<not> isspace c) (take (erasable ?tm ?xs) (rev ?xs))))"
      using word_length_eq [OF ok, of 0 "int (erasable ?tm ?xs)"] erasable_le(1) [of ?tm ?xs] cnt by (simp add: length_contents le_nat_iff)
    then have n: "(if char_eq (WERASE_CHAR ?tm) c then word_length (ttys st t) (int (erasable ?tm ?xs)) 0
         else if char_eq (KILL_CHAR ?tm) c then int (erasable ?tm ?xs) else 1) = int ?n"
      using False by (simp add: erase_count_def Let_def)
    obtain b st2 where e: "echo_if b write t [c] st = Some st2" "b \<longrightarrow> L_FLAG ?tm ECHO"
      and st': "st' = upd_tty t (\<lambda>tty. tty\<lparr>read_count := read_count tty - int ?n,
        read_tail := (if read_head tty \<noteq> read_tail tty then N_TTY_BUF_ALIGN (read_tail tty - int ?n) else read_tail tty)\<rparr>) st2"
      using assms(3) [unfolded eraser_def Let_def len n] False by (auto simp: bind_eq_Some_conv)
    have s2: "same_frame st st2" "ttys_ok st2" "ttys st2 t = ttys st t"
      using echo_apart [OF assms(1,2) _ e(1)] no_master_echo [OF assms(2)] e(2) by auto
    have le: "?n \<le> length ?xs" "2 \<le> length ?xs \<longrightarrow> ?n < length ?xs"
      using erase_count_le [of ?tm ?xs c] erasable_le(1) [of ?tm ?xs] erasable_le(2) [of ?xs ?tm] by auto
    note er = erased_ok [OF ok le]
    have "only_tty t st2 st'"
      unfolding st' using er(1) s2(3) by (intro only_tty_upd) (simp_all add: same_tty_def split: if_splits)
    moreover have "contents (ttys st' t) = take (length ?xs - ?n) ?xs"
      unfolding er(2) [symmetric] by (rule contents_cong) (simp_all add: st' s2(3))
    ultimately show ?thesis
      using s2(1,2) same_frame_trans [of st st2 st'] by (simp add: edits_def only_tty_def)
  qed
qed

lemma receive_char_edits:
  assumes "write_apart write" "ttys_ok st" "receive_char write e t c st = Some st'"
  shows "edits t (line_edit (termios_of t st) (contents (ttys st t)) c) st st'"
proof (cases "input_char (termios_of t st) c")
  case None
  then show ?thesis using assms(2,3) same_frame_refl by (simp add: receive_char_def line_edit_def edits_def)
next
  case (Some k)
  let ?tm = "termios_of t st"
  note echo = no_master_echo [OF assms(2), of t]
  consider (sig) "valid_signal (char_signal ?tm k) \<and> 0 < char_signal ?tm k"
    | (erase) "\<not> (valid_signal (char_signal ?tm k) \<and> 0 < char_signal ?tm k)" "L_FLAG ?tm ICANON \<and>
        (char_eq (ERASE_CHAR ?tm) k \<or> char_eq (KILL_CHAR ?tm) k \<or> char_eq (WERASE_CHAR ?tm) k \<and> L_FLAG ?tm IEXTEN)"
    | (put) "\<not> (valid_signal (char_signal ?tm k) \<and> 0 < char_signal ?tm k)" "\<not> (L_FLAG ?tm ICANON \<and>
        (char_eq (ERASE_CHAR ?tm) k \<or> char_eq (KILL_CHAR ?tm) k \<or> char_eq (WERASE_CHAR ?tm) k \<and> L_FLAG ?tm IEXTEN))" by blast
  then show ?thesis
  proof cases
    case sig
    then have "st' = st \<or> kill e (- tty_pgrp (ttys st t)) (char_signal ?tm k) st = Some st'"
      using assms(3) Some by (auto simp: receive_char_def Let_def split: if_splits)
    then have "only_tty t st st'" using base_only_tty(1) only_tty_refl by blast
    moreover have "ttys st' = ttys st"
      using \<open>st' = st \<or> kill e (- tty_pgrp (ttys st t)) (char_signal ?tm k) st = Some st'\<close> by (auto simp: kill_def in_base_def)
    ultimately have "ttys st' = ttys st" "only_tty t st st'" by auto
    then show ?thesis using assms(2) Some sig by (simp add: line_edit_def edits_def only_tty_def)
  next
    case erase
    then have "eraser write t k st = Some st'" using assms(3) Some by (auto simp: receive_char_def Let_def)
    from eraser_edits [OF assms(1,2) this] show ?thesis using Some erase by (auto simp: line_edit_def)
  next
    case put
    define x where "x = (if L_FLAG ?tm ICANON \<and> char_eq (EOF_CHAR ?tm) k then 0 else k)"
    obtain st1 where p: "put_tty t x st = Some st1"
      using assms(3) Some put by (auto simp: receive_char_def Let_def x_def bind_eq_Some_conv split: if_splits)
    note ed = put_tty_edits [OF assms(2) p]
    have "edits t (contents (ttys st t) @ [x]) st st'"
      using assms(3) Some put p edits_base [OF ed] edits_base [OF edits_echo [OF assms(1) ed]] edits_echo [OF assms(1) ed] echo
      by (auto simp: receive_char_def Let_def x_def bind_eq_Some_conv split: if_splits)
    then show ?thesis using Some put by (auto simp: line_edit_def x_def)
  qed
qed

lemma edits_trans: "edits t xs st st' \<Longrightarrow> edits t ys st' st2 \<Longrightarrow> edits t ys st st2"
  using same_frame_trans by (auto simp: edits_def)

lemma edits_refl: "ttys_ok st \<Longrightarrow> edits t (contents (ttys st t)) st st"
  by (simp add: edits_def same_frame_refl)

lemma edits_termios: "edits t xs st st' \<Longrightarrow> termios_of u st' = termios_of u st"
  by (simp add: edits_def same_frame_def same_tty_def)

lemma receive_chars_edits:
  assumes "write_apart write"
  shows "ttys_ok st \<Longrightarrow> receive_chars write e t cp st = Some st' \<Longrightarrow>
    edits t (foldl (line_edit (termios_of t st)) (contents (ttys st t)) cp) st st'"
proof (induction cp arbitrary: st)
  case (Cons c cp)
  obtain st1 where 1: "receive_char write e t c st = Some st1" "receive_chars write e t cp st1 = Some st'"
    using Cons.prems(2) by (auto simp: bind_eq_Some_conv)
  note ed = receive_char_edits [OF assms Cons.prems(1) 1(1)]
  then have "ttys_ok st1" "contents (ttys st1 t) = line_edit (termios_of t st) (contents (ttys st t)) c" by (simp_all add: edits_def)
  then show ?case using edits_trans [OF ed Cons.IH [OF _ 1(2)]] edits_termios [OF ed, of t] by simp
qed (simp add: edits_refl)

lemma put_chars_edits:
  "ttys_ok st \<Longrightarrow> put_chars t cp st = Some st' \<Longrightarrow> edits t (contents (ttys st t) @ cp) st st'"
proof (induction cp arbitrary: st)
  case (Cons c cp)
  obtain st1 where 1: "put_tty t c st = Some st1" "put_chars t cp st1 = Some st'"
    using Cons.prems(2) by (auto simp: bind_eq_Some_conv)
  note ed = put_tty_edits [OF Cons.prems(1) 1(1)]
  then have "ttys_ok st1" "contents (ttys st1 t) = contents (ttys st t) @ [c]" by (simp_all add: edits_def)
  then show ?case using edits_trans [OF ed Cons.IH [OF _ 1(2)]] by simp
qed (simp add: edits_refl)

text \<open>The effect of received bytes on the read buffer.\<close>

definition received :: "termios \<Rightarrow> u8 list \<Rightarrow> u8 list \<Rightarrow> u8 list" where
  "received tm xs cp = (if L_FLAG tm ICANON then foldl (line_edit tm) xs cp else xs @ cp)"

lemma ntty_receive_buf_edits:
  assumes "write_apart write" "ttys_ok st" "ntty_receive_buf write e t cp st = Some st'"
  shows "edits t (received (termios_of t st) (contents (ttys st t)) cp) st st'"
proof (cases "L_FLAG (termios_of t st) ICANON")
  case True
  then show ?thesis using assms receive_chars_edits by (simp add: ntty_receive_buf_def received_def)
next
  case False
  obtain st1 st2 where 1: "put_chars t cp st = Some st1" "echo_if (L_FLAG (termios_of t st1) ECHO) write t cp st1 = Some st2"
    and w: "st' = st2 \<or> wake (read_wait (ttys st2 t)) st2 = Some st'"
    using assms(3) False by (auto simp: ntty_receive_buf_def bind_eq_Some_conv split: if_splits)
  note ed = put_chars_edits [OF assms(2) 1(1)]
  then have "edits t (contents (ttys st t) @ cp) st st2"
    using edits_termios [OF ed, of t] no_master_echo [OF assms(2), of t] by (intro edits_echo [OF assms(1) ed 1(2)]) auto
  then show ?thesis using w edits_base False by (auto simp: received_def)
qed

text \<open>What reaches a master stays there.\<close>

definition no_write :: tty_write_op where
  "no_write t buf st = None"

lemma no_write_apart: "write_apart no_write"
  by (simp add: write_apart_def no_write_def)

lemma no_write_echo: "echo_if b no_write t buf st = Some st' \<Longrightarrow> st' = st"
  by (auto simp: echo_if_def opost_block_def no_write_def Let_def split: if_splits)

lemma no_write_others:
  assumes "u \<noteq> t"
  shows "put_tty t c st = Some st' \<Longrightarrow> ttys st' u = ttys st u"
    and "eraser no_write t c st = Some st' \<Longrightarrow> ttys st' u = ttys st u"
    and "receive_char no_write e t c st = Some st' \<Longrightarrow> ttys st' u = ttys st u"
proof -
  show p: "put_tty t c st = Some st' \<Longrightarrow> ttys st' u = ttys st u" for c st st' using assms by (auto simp: put_tty_def)
  show er: "eraser no_write t c st = Some st' \<Longrightarrow> ttys st' u = ttys st u" for c st st'
    using assms by (auto simp: eraser_def Let_def bind_eq_Some_conv dest!: no_write_echo split: if_splits)
  have w: "wake ws st = Some st' \<Longrightarrow> ttys st' = ttys st" "kill e pg sig st = Some st' \<Longrightarrow> ttys st' = ttys st" for ws st st' pg sig
    by (auto simp: wake_def kill_def in_base_def)
  show "receive_char no_write e t c st = Some st' \<Longrightarrow> ttys st' u = ttys st u"
    using assms by (auto simp: receive_char_def Let_def bind_eq_Some_conv dest!: no_write_echo p er w split: option.splits if_splits)
qed

lemma no_write_chars:
  assumes "u \<noteq> t"
  shows "receive_chars no_write e t cp st = Some st' \<Longrightarrow> ttys st' u = ttys st u"
    and "put_chars t cp st = Some st' \<Longrightarrow> ttys st' u = ttys st u"
  by (induction cp arbitrary: st) (auto simp: bind_eq_Some_conv dest!: no_write_others [OF assms])

lemma echo_False: "echo_if False write t buf = Some"
  by (simp add: echo_if_def fun_eq_iff)

lemma quiet_char:
  assumes "ttys_ok st" "tty_drv (ttys st t) = Ptm_driver"
  shows "receive_char write e t c st = receive_char no_write e t c st"
proof -
  let ?tm = "termios_of t st"
  have q: "L_FLAG ?tm ECHO = False" "L_FLAG ?tm ECHONL = False" using assms by (auto simp: ttys_ok_def)
  have er: "eraser write t k st = eraser no_write t k st" for k using q by (simp add: eraser_def echo_if_def Let_def)
  show ?thesis unfolding receive_char_def Let_def er q echo_False simp_thms ..
qed

lemma quiet_chars:
  assumes "tty_drv (ttys st t) = Ptm_driver"
  shows "ttys_ok st \<Longrightarrow> receive_chars write e t cp st = receive_chars no_write e t cp st"
  using assms
proof (induction cp arbitrary: st)
  case (Cons c cp)
  have "receive_chars write e t cp st1 = receive_chars no_write e t cp st1" if "receive_char no_write e t c st = Some st1" for st1
  proof -
    have "edits t (line_edit (termios_of t st) (contents (ttys st t)) c) st st1"
      by (rule receive_char_edits [OF no_write_apart Cons.prems(1) that])
    then show ?thesis using Cons.prems(2) by (intro Cons.IH) (auto simp: edits_def same_frame_def same_tty_def)
  qed
  then show ?case using quiet_char [OF Cons.prems, of "write" e c] by (cases "receive_char no_write e t c st") auto
qed simp

lemma quiet_receive:
  assumes "ttys_ok st" "tty_drv (ttys st t) = Ptm_driver" "ntty_receive_buf write e t cp st = Some st'"
  shows "same_frame st st' \<and> ttys_ok st' \<and> (\<forall>u. u \<noteq> t \<longrightarrow> ttys st' u = ttys st u)"
proof -
  have q: "\<not> L_FLAG (termios_of t st) ECHO" using assms by (auto simp: ttys_ok_def)
  have "termios_of t st1 = termios_of t st" if "put_chars t cp st = Some st1" for st1
    using edits_termios [OF put_chars_edits [OF assms(1) that]] .
  then have nw: "ntty_receive_buf no_write e t cp st = Some st'"
    using assms q quiet_chars [OF assms(2,1), of "write"]
    by (auto simp: ntty_receive_buf_def echo_if_def bind_eq_Some_conv split: if_splits)
  from ntty_receive_buf_edits [OF no_write_apart assms(1) nw] have "same_frame st st'" "ttys_ok st'" by (simp_all add: edits_def)
  moreover have "ttys st' u = ttys st u" if "u \<noteq> t" for u
    using nw by (auto simp: ntty_receive_buf_def bind_eq_Some_conv wake_def in_base_def dest!: no_write_chars [OF that] no_write_echo split: if_splits)
  ultimately show ?thesis by blast
qed

lemma tops_write_apart: "write_apart (tops_write n e)"
proof (cases n)
  case (Suc k)
  show ?thesis
    unfolding write_apart_def
  proof (intro allI impI)
    fix t buf st r st'
    assume a: "ttys_ok st" "tty_drv (ttys st t) \<noteq> Ptm_driver" "tops_write n e t buf st = Some (r, st')"
    show "same_frame st st' \<and> ttys_ok st' \<and> ttys st' t = ttys st t"
    proof (cases "tty_drv (ttys st t) = Serial_driver")
      case True
      then show ?thesis using a Suc by (auto simp: tops_write.simps serial_write_def same_frame_def same_tty_def ttys_ok_def)
    next
      case False
      then have pts: "tty_drv (ttys st t) = Pts_driver" using a(2) by (cases "tty_drv (ttys st t)") auto
      show ?thesis
      proof (cases "tty_link (ttys st t)")
        case None
        then show ?thesis using a False Suc same_frame_refl by (simp add: tops_write.simps pty_write_def)
      next
        case (Some u)
        have "tty_drv (ttys st u) = Ptm_driver" using a(1) Some pts by (auto simp: ttys_ok_def other_end_def)
        moreover have "u \<noteq> t" using calculation pts by auto
        ultimately show ?thesis
          using a False Suc Some quiet_receive [OF a(1), of u] by (auto simp: tops_write.simps pty_write_def Let_def)
      qed
    qed
  qed
qed (simp add: write_apart_def)

text \<open>Output on any terminal keeps the state well-formed; what is written on a master reaches its slave.\<close>

lemma tops_write_ok:
  assumes "ttys_ok st" "tops_write n e t buf st = Some (r, st')"
  shows "ttys_ok st'" and "same_frame st st'"
proof -
  have "ttys_ok st' \<and> same_frame st st'"
  proof (cases "tty_drv (ttys st t) = Ptm_driver")
    case False
    then show ?thesis using tops_write_apart [of n e] assms unfolding write_apart_def by blast
  next
    case True
    then obtain k where n: "n = Suc k" using assms(2) by (cases n) auto
    show ?thesis
    proof (cases "tty_link (ttys st t)")
      case None
      then show ?thesis using assms True n same_frame_refl by (simp add: tops_write.simps pty_write_def)
    next
      case (Some u)
      define c where "c = min (ntty_receive_room (ttys st u)) (int (length buf))"
      have "ntty_receive_buf (tops_write k e) e u (take (nat c) buf) st = Some st'"
        using assms(2) True n Some by (auto simp: tops_write.simps pty_write_def Let_def c_def)
      from ntty_receive_buf_edits [OF tops_write_apart assms(1) this] show ?thesis by (simp add: edits_def)
    qed
  qed
  then show "ttys_ok st'" "same_frame st st'" by blast+
qed

section \<open>Reading\<close>

text \<open>The length of the first line, with its separator; 0 when there is none.\<close>

definition first_line :: "termios \<Rightarrow> u8 list \<Rightarrow> nat" where
  "first_line tm xs =
     (let n = length (takeWhile (\<lambda>c. \<not> LINE_SEPARATOR tm c) xs) in if n < length xs then n + 1 else 0)"

lemma first_line_Cons:
  "first_line tm (x # xs) = (if LINE_SEPARATOR tm x then 1 else if first_line tm xs = 0 then 0 else first_line tm xs + 1)"
  by (simp add: first_line_def Let_def)

lemma first_line_le: "first_line tm xs \<le> length xs"
  by (simp add: first_line_def Let_def)

lemma at_tail:
  assumes "tty_ok tty" "0 \<le> j" "j < read_count tty"
  shows "(read_head tty + j) mod 4096 = read_tail tty \<longleftrightarrow> j = read_count tty - 1"
proof -
  have "read_tail tty = (read_head tty + (read_count tty - 1)) mod 4096" "read_count tty - 1 < 4096"
    using assms by (auto simp: tty_ok_def add_diff_eq)
  moreover have "j < read_count tty - 1 \<or> j = read_count tty - 1" using assms(3) by linarith
  ultimately show ?thesis using ring_neq [OF assms(2), of "read_count tty - 1" "read_head tty"] by auto
qed

lemma line_scan_eq:
  assumes "tty_ok tty"
  shows "Suc j + k = nat (read_count tty) \<Longrightarrow>
    line_scan tm tty ((read_head tty + int j) mod 4096) (int j) =
      Some (if first_line tm (drop j (contents tty)) = 0 then 0 else int j + int (first_line tm (drop j (contents tty))))"
proof (induction k arbitrary: j)
  case 0
  have j: "j < nat (read_count tty)" "int j = read_count tty - 1" using 0 by auto
  have d: "drop j (contents tty) = [contents tty ! j]"
    using 0 Cons_nth_drop_Suc [of j "contents tty"] by (simp add: length_contents)
  have x: "read_buf tty ! nat ((read_head tty + int j) mod 4096) = contents tty ! j" using j(1) by (simp add: nth_contents)
  have t: "(read_head tty + int j) mod 4096 = read_tail tty" using at_tail [OF assms, of "int j"] j by simp
  show ?case unfolding d line_scan.simps [of tm tty "(read_head tty + int j) mod 4096"] x
    using t by (simp add: first_line_Cons first_line_def)
next
  case (Suc k)
  have j: "j < nat (read_count tty)" "int j \<noteq> read_count tty - 1" "int j < read_count tty" using Suc.prems by auto
  have d: "drop j (contents tty) = contents tty ! j # drop (Suc j) (contents tty)"
    using j(1) Cons_nth_drop_Suc [of j "contents tty"] by (simp add: length_contents)
  have x: "read_buf tty ! nat ((read_head tty + int j) mod 4096) = contents tty ! j" using j(1) by (simp add: nth_contents)
  have t: "(read_head tty + int j) mod 4096 \<noteq> read_tail tty" using at_tail [OF assms, of "int j"] j by simp
  have a: "N_TTY_BUF_ALIGN ((read_head tty + int j) mod 4096 + 1) = (read_head tty + int (Suc j)) mod 4096"
    unfolding ntty_defs mod_add_left_eq by (simp add: ac_simps)
  show ?case unfolding d line_scan.simps [of tm tty "(read_head tty + int j) mod 4096"] x
    using t a Suc.IH [of "Suc j"] Suc.prems by (simp add: first_line_Cons add.commute [of 1])
qed

lemma ntty_read_length_eq:
  assumes "tty_ok tty"
  shows "ntty_read_length tm tty =
    Some (if L_FLAG tm ICANON then (first_line tm (contents tty) \<noteq> 0, int (first_line tm (contents tty)))
          else if uint (MIN_CHAR tm) \<le> read_count tty then (True, read_count tty) else (False, 0))"
proof (cases "read_count tty = 0")
  case True
  then have "contents tty = []" by (simp add: contents_def)
  then show ?thesis using True by (simp add: ntty_read_length_def first_line_def)
next
  case False
  then have "0 < read_count tty" using assms by (simp add: tty_ok_def)
  then obtain k where "Suc 0 + k = nat (read_count tty)" by (metis Suc_le_eq add.commute le_Suc_ex nat_0_iff not_less zero_less_nat_eq plus_1_eq_Suc One_nat_def)
  moreover have "read_head tty mod 4096 = read_head tty" using assms by (simp add: tty_ok_def)
  ultimately show ?thesis using line_scan_eq [OF assms, of 0 k tm] False by (simp add: ntty_read_length_def)
qed

lemma take_from_buffer:
  assumes ok: "tty_ok tty" and k: "0 \<le> k" "k \<le> read_count tty"
  defines "tty' \<equiv> (if k = read_count tty then tty\<lparr>read_head := 0, read_tail := 0, read_count := 0\<rparr>
    else tty\<lparr>read_head := N_TTY_BUF_ALIGN (read_head tty + k), read_count := read_count tty - k\<rparr>)"
  shows "assert_from_read_buf tty k" and "copy_from_read_buf tty k = take (nat k) (contents tty)"
    and "tty_ok tty'" and "contents tty' = drop (nat k) (contents tty)"
proof -
  have b: "0 \<le> read_head tty" "read_head tty < 4096" "read_count tty \<le> 4096" using ok by (simp_all add: tty_ok_def)
  have tail: "read_tail tty = (if read_head tty + read_count tty - 1 < 4096 then read_head tty + read_count tty - 1
      else read_head tty + read_count tty - 1 - 4096)" if "0 < read_count tty"
  proof -
    have "read_tail tty = (read_head tty + read_count tty - 1) mod 4096" using ok that by (simp add: tty_ok_def)
    moreover have "(read_head tty + read_count tty - 1) mod 4096 = read_head tty + read_count tty - 1 - 4096"
      if "4096 \<le> read_head tty + read_count tty - 1" using that b by (subst mod_pos_geq) auto
    ultimately show ?thesis using b that by auto
  qed
  show "assert_from_read_buf tty k"
    using k b tail by (cases "k = 0") (auto simp: assert_from_read_buf_def ntty_defs split: if_splits)
  show "copy_from_read_buf tty k = take (nat k) (contents tty)"
    using k by (simp add: copy_from_read_buf_def contents_def take_map ntty_defs)
  have "(read_head tty + (read_count tty - 1)) mod 4096 = ((read_head tty + k) mod 4096 + (read_count tty - k - 1)) mod 4096"
    by (simp add: mod_add_left_eq)
  then show "tty_ok tty'" using ok k by (auto simp: tty_ok_def tty'_def ntty_defs add_diff_eq)
  show "contents tty' = drop (nat k) (contents tty)"
  proof (cases "k = read_count tty")
    case True
    then show ?thesis by (simp add: tty'_def contents_def drop_map)
  next
    case False
    show ?thesis
    proof (rule nth_equalityI)
      show "length (contents tty') = length (drop (nat k) (contents tty))"
        using False k by (simp add: tty'_def length_contents nat_diff_distrib)
      fix i assume "i < length (contents tty')"
      then have i: "i < nat (read_count tty) - nat k" using False k by (simp add: tty'_def length_contents nat_diff_distrib)
      have "((read_head tty + k) mod 4096 + int i) mod 4096 = (read_head tty + int (nat k + i)) mod 4096"
        unfolding mod_add_left_eq using k(1) by (simp add: add.assoc)
      moreover have "contents tty' ! i = read_buf tty ! nat (((read_head tty + k) mod 4096 + int i) mod 4096)"
        using i False k(2) by (simp add: tty'_def nth_contents ntty_defs)
      moreover have "drop (nat k) (contents tty) ! i = read_buf tty ! nat ((read_head tty + int (nat k + i)) mod 4096)"
        using i nth_contents [of "nat k + i" tty] by (simp add: length_contents)
      ultimately show "contents tty' ! i = drop (nat k) (contents tty) ! i" by simp
    qed
  qed
qed

lemma del_wait_append: "th \<notin> wait_thread ` set ws \<Longrightarrow> wait_thread w = th \<Longrightarrow> del_wait th (ws @ [w]) = ws"
  by (induction ws) auto

lemma wake_Nil: "wake [] st = Some st"
  by (simp add: wake_def in_base_def in_sched_def)

text \<open>The bytes a read can return at once.\<close>

definition ready_length :: "termios \<Rightarrow> u8 list \<Rightarrow> nat" where
  "ready_length tm xs =
     (if L_FLAG tm ICANON then first_line tm xs else if uint (MIN_CHAR tm) \<le> int (length xs) then length xs else 0)"

lemma wake_ready:
  assumes "sched_ok (sg_sched (base st)) Q" and "\<forall>w \<in> set ws. wait_func w = poll_wakeup"
  shows "\<exists>st' Q'. wake ws st = Some st' \<and> ttys st' = ttys st \<and> sched_ok (sg_sched (base st')) Q' \<and>
    (\<forall>u. state (threads (sg_sched (base st')) u) =
      (if u \<in> wait_thread ` set ws then THREAD_READY else state (threads (sg_sched (base st)) u)))"
proof -
  obtain s' Q' where "wake_up ws (sg_sched (base st)) = Some s'" "sched_ok s' Q'"
      "\<forall>u. state (threads s' u) = (if u \<in> wait_thread ` set ws then THREAD_READY else state (threads (sg_sched (base st)) u))"
    using wake_up_state [OF assms] by blast
  then show ?thesis
    by (intro exI [of _ "st\<lparr>base := (base st)\<lparr>sg_sched := s'\<rparr>\<rparr>"] exI [of _ Q']) (simp add: wake_def in_base_def in_sched_def)
qed

text \<open>What the loop of a read in the foreground comes to.\<close>

lemma ntty_read_enters:
  assumes "ttys_ok st" and "\<not> in_background t st"
  defines "st1 \<equiv> upd_tty t (\<lambda>tty. tty\<lparr>read_wait := read_wait tty @ [DEFINE_WAIT st]\<rparr>) st"
    and "n \<equiv> ready_length (termios_of t st) (contents (ttys st t))"
  shows "ntty_read e t nr st =
      (if 0 < n \<or> \<not> L_FLAG (termios_of t st) ICANON \<and> MIN_CHAR (termios_of t st) = 0 then ntty_read_finish t (int n) nr st1
       else map_option (\<lambda>st. (Blocked, [], st)) (wait_turn e st1))"
    and "n \<le> length (contents (ttys st t))"
proof -
  let ?tm = "termios_of t st" and ?xs = "contents (ttys st t)"
  define tty where "tty = ttys st t"
  have ok: "tty_ok tty" using assms(1) by (simp add: ttys_ok_def tty_def)
  have t1: "ttys st1 t = tty\<lparr>read_wait := read_wait tty @ [DEFINE_WAIT st]\<rparr>" "termios_of t st1 = ?tm"
    by (simp_all add: st1_def tty_def)
  have ok1: "tty_ok (ttys st1 t)" and c1: "contents (ttys st1 t) = ?xs"
    using ok tty_ok_cong [of "ttys st1 t" tty] contents_cong [of "ttys st1 t" tty] by (simp_all add: t1 tty_def)
  have cnt: "0 \<le> read_count tty" "length ?xs = nat (read_count tty)" using ok by (simp_all add: tty_ok_def length_contents tty_def)
  have rc: "read_count (ttys st1 t) = read_count tty" by (simp add: t1)
  have len: "ntty_read_length ?tm (ttys st1 t) =
      Some (if L_FLAG ?tm ICANON then (first_line ?tm ?xs \<noteq> 0, int (first_line ?tm ?xs))
            else if uint (MIN_CHAR ?tm) \<le> read_count tty then (True, read_count tty) else (False, 0))"
    using ntty_read_length_eq [OF ok1, of ?tm] unfolding c1 rc .
  have m: "0 < uint (MIN_CHAR ?tm) \<longleftrightarrow> MIN_CHAR ?tm \<noteq> 0" by (simp add: word_neq_0_conv word_less_def)
  have "ntty_read_length ?tm (ttys st1 t) = Some (0 < n \<or> \<not> L_FLAG ?tm ICANON \<and> MIN_CHAR ?tm = 0, int n)"
    unfolding len using cnt m by (auto simp: n_def ready_length_def)
  then show "ntty_read e t nr st =
      (if 0 < n \<or> \<not> L_FLAG ?tm ICANON \<and> MIN_CHAR ?tm = 0 then ntty_read_finish t (int n) nr st1
       else map_option (\<lambda>st. (Blocked, [], st)) (wait_turn e st1))"
    using assms(2) by (simp add: ntty_read_def ntty_read_loop_def t1(2) flip: st1_def)
  show "n \<le> length ?xs" using first_line_le by (simp add: n_def ready_length_def)
qed

lemma read_wait_undone:
  "cur_thread (base st) \<notin> wait_thread ` set (read_wait (ttys st t)) \<Longrightarrow>
   upd_tty t (\<lambda>tty. tty\<lparr>read_wait := del_wait (cur_thread (base st)) (read_wait tty)\<rparr>)
     (upd_tty t (\<lambda>tty. tty\<lparr>read_wait := read_wait tty @ [DEFINE_WAIT st]\<rparr>) st) = st"
  by (simp add: del_wait_append DEFINE_WAIT_def)

lemma ntty_read_takes:
  assumes "ttys_ok st" and "nr < 0x80000000" and n: "0 < n" "n \<le> length (contents (ttys st t))"
    and "\<forall>w \<in> set (write_wait (ttys st t)). wait_func w = poll_wakeup" and "sched_ok (sg_sched (base st)) Q"
    and w: "cur_thread (base st) \<notin> wait_thread ` set (read_wait (ttys st t))"
  defines "st1 \<equiv> upd_tty t (\<lambda>tty. tty\<lparr>read_wait := read_wait tty @ [DEFINE_WAIT st]\<rparr>) st" and "k \<equiv> min n (unat nr)"
  shows "\<exists>st' Q'. ntty_read_finish t (int n) nr st1 = Some (Ret (int k), take k (contents (ttys st t)), st') \<and>
    contents (ttys st' t) = drop k (contents (ttys st t)) \<and> same_frame st st' \<and> ttys_ok st' \<and> (\<forall>u. u \<noteq> t \<longrightarrow> ttys st' u = ttys st u) \<and>
    sched_ok (sg_sched (base st')) Q' \<and>
    (\<forall>u. state (threads (sg_sched (base st')) u) =
      (if u \<in> wait_thread ` set (write_wait (ttys st t)) then THREAD_READY else state (threads (sg_sched (base st)) u)))"
proof -
  define tty where "tty = ttys st t"
  have ok: "tty_ok tty" using assms(1) by (simp add: ttys_ok_def tty_def)
  have cnt: "0 \<le> read_count tty" "length (contents (ttys st t)) = nat (read_count tty)"
    using ok by (simp_all add: tty_ok_def length_contents tty_def)
  have st1: "upd_tty t (\<lambda>tty. tty\<lparr>read_wait := del_wait (cur_thread (base st1)) (read_wait tty)\<rparr>) st1 = st"
    using read_wait_undone [OF w] by (simp add: st1_def)
  have k: "min (int n) (sint nr) = int k" using sint_small [OF assms(2)] by (simp add: of_nat_min k_def)
  have kc: "0 \<le> int k" "int k \<le> read_count tty" using n cnt by (auto simp: le_nat_iff k_def)
  have nc: "int n \<le> read_count tty" using n cnt by (auto simp: le_nat_iff)
  note tk = take_from_buffer [OF ok kc]
  define tty' where "tty' = (if int k = read_count tty then tty\<lparr>read_head := 0, read_tail := 0, read_count := 0\<rparr>
    else tty\<lparr>read_head := N_TTY_BUF_ALIGN (read_head tty + int k), read_count := read_count tty - int k\<rparr>)"
  let ?st = "st\<lparr>ttys := (ttys st)(t := tty')\<rparr>"
  have o: "only_tty t st ?st" using tk(3) by (intro only_tty_upd) (simp_all add: tty'_def same_tty_def tty_def)
  obtain st' Q' where st': "wake (write_wait tty) ?st = Some st'" "ttys st' = ttys ?st" "sched_ok (sg_sched (base st')) Q'"
      "\<forall>u. state (threads (sg_sched (base st')) u) =
        (if u \<in> wait_thread ` set (write_wait tty) then THREAD_READY else state (threads (sg_sched (base ?st)) u))"
    using wake_ready [of ?st Q "write_wait tty"] assms(5,6) by (auto simp: tty_def)
  have "nat (read_count tty) = k" if "int k = read_count tty" using that by linarith
  then have "ntty_read_finish t (int n) nr st1 = Some (Ret (int k), take k (contents (ttys st t)), st')"
    unfolding ntty_read_finish_def Let_def st1 k using n(1) nc tk(1,2) st'(1)
    by (cases "int k = read_count tty") (simp_all add: tty_def [symmetric] tty'_def)
  moreover have "same_frame st st' \<and> ttys_ok st'"
    using o assms(1) base_only_tty(2) [OF st'(1), of t] same_frame_trans [of st ?st st'] by (auto simp: only_tty_def)
  moreover have "contents (ttys st' t) = drop k (contents (ttys st t))" using tk(4) st'(2) by (simp add: tty'_def tty_def)
  ultimately show ?thesis using st' by (intro exI [of _ st'] exI [of _ Q']) (simp add: tty_def)
qed

lemma ntty_read_result:
  assumes "ttys_ok st" and "nr < 0x80000000" and "\<forall>w \<in> set (write_wait (ttys st t)). wait_func w = poll_wakeup"
    and w: "u \<notin> wait_thread ` set (read_wait (ttys st t))"
    and ok: "sched_ok (sg_sched (base st)) Q" and u: "runs (sg_sched (base st)) u"
    and irqs: "\<forall>irq \<in> set (env_irqs e). spares {u} irq" and hs: "spares {u} (env_hs e)" and bg: "\<not> in_background t st"
  defines "n \<equiv> ready_length (termios_of t st) (contents (ttys st t))"
  shows "if 0 < n then
      (\<exists>st' Q'. ntty_read e t nr st = Some (Ret (int (min n (unat nr))), take (min n (unat nr)) (contents (ttys st t)), st') \<and>
         contents (ttys st' t) = drop (min n (unat nr)) (contents (ttys st t)) \<and> same_frame st st' \<and> ttys_ok st' \<and>
         (\<forall>v. v \<noteq> t \<longrightarrow> ttys st' v = ttys st v) \<and> sched_ok (sg_sched (base st')) Q' \<and>
         (\<forall>v. state (threads (sg_sched (base st')) v) =
           (if v \<in> wait_thread ` set (write_wait (ttys st t)) then THREAD_READY else state (threads (sg_sched (base st)) v))))
    else if \<not> L_FLAG (termios_of t st) ICANON \<and> MIN_CHAR (termios_of t st) = 0 then ntty_read e t nr st = Some (Ret (- 14), [], st)
    else (\<exists>st' Q'. ntty_read e t nr st = Some (Blocked, [], st') \<and>
      ttys st' = (ttys st)(t := (ttys st t)\<lparr>read_wait := read_wait (ttys st t) @ [DEFINE_WAIT st]\<rparr>) \<and>
      sched_ok (sg_sched (base st')) Q' \<and> state (threads (sg_sched (base st')) u) = THREAD_WAITING \<and>
      (\<forall>v. next_ready Q = Some v \<and> pending (threads (sg_sched (base st)) v) = 0 \<longrightarrow> runs (sg_sched (base st')) v))"
proof -
  let ?tm = "termios_of t st"
  define st1 where "st1 = upd_tty t (\<lambda>tty. tty\<lparr>read_wait := read_wait tty @ [DEFINE_WAIT st]\<rparr>) st"
  have ct: "cur_thread (base st) = u" using u by (simp add: runs_def)
  note enters = ntty_read_enters(1) [OF assms(1) bg, of e nr, folded n_def st1_def]
  note le = ntty_read_enters(2) [OF assms(1) bg, folded n_def]
  consider (some) "0 < n" | (none) "n = 0" "\<not> L_FLAG ?tm ICANON \<and> MIN_CHAR ?tm = 0" | (wait) "n = 0" "\<not> (\<not> L_FLAG ?tm ICANON \<and> MIN_CHAR ?tm = 0)"
    by blast
  then show ?thesis
  proof cases
    case some
    then show ?thesis
      using enters ntty_read_takes [OF assms(1,2) some le assms(3) ok, folded st1_def] w ct by simp
  next
    case none
    have "ntty_read_finish t 0 nr st1 = Some (Ret (- 14), [], st)"
      using read_wait_undone [of st t] w ct by (simp add: ntty_read_finish_def Let_def st1_def EFAULT_def)
    then show ?thesis using enters none by simp
  next
    case wait
    obtain s1 s2 Q2 where s: "update_thread u THREAD_WAITING (sg_sched (base st)) = Some s1" "schedule (env_hs e) (env_irqs e) s1 = Some s2"
        "sched_ok s2 Q2" "state (threads s2 u) = THREAD_WAITING"
        "\<forall>v. next_ready Q = Some v \<and> pending (threads (sg_sched (base st)) v) = 0 \<longrightarrow> runs s2 v"
      using block_effect [OF ok u irqs hs] by blast
    have "wait_turn e st1 = Some (st1\<lparr>base := (base st)\<lparr>sg_sched := s2\<rparr>\<rparr>)"
      using s(1,2) ct by (simp add: wait_turn_def in_base_def in_sched_def st1_def)
    then show ?thesis using enters wait s(3-5)
      by (intro if_not_P [THEN iffD2]) (auto simp: st1_def intro!: exI [of _ "st1\<lparr>base := (base st)\<lparr>sg_sched := s2\<rparr>\<rparr>"] exI [of _ Q2])
  qed
qed

text \<open>
  The number of bytes the caller asks for is taken as an \<open>int\<close>: a read of \<open>2 ^ 31\<close> bytes or more returns a negative number and
  adds to the count of the read buffer instead of taking from it.
\<close>

lemma ntty_read_negative:
  assumes "ttys_ok st" and "\<not> in_background t st" and "sint nr < - 4096" and "write_wait (ttys st t) = []"
    and w: "cur_thread (base st) \<notin> wait_thread ` set (read_wait (ttys st t))"
    and "2 \<le> length (contents (ttys st t))" and "0 < ready_length (termios_of t st) (contents (ttys st t))"
  shows "\<exists>st'. ntty_read e t nr st = Some (Ret (sint nr), [], st') \<and> read_count (ttys st' t) = read_count (ttys st t) - sint nr \<and>
    \<not> tty_ok (ttys st' t)"
proof -
  let ?n = "ready_length (termios_of t st) (contents (ttys st t))"
  define st1 where "st1 = upd_tty t (\<lambda>tty. tty\<lparr>read_wait := read_wait tty @ [DEFINE_WAIT st]\<rparr>) st"
  define tty where "tty = ttys st t"
  have ok: "tty_ok tty" using assms(1) by (simp add: ttys_ok_def tty_def)
  have cnt: "2 \<le> read_count tty" "int ?n \<le> read_count tty"
    using ok assms(6) ntty_read_enters(2) [OF assms(1,2)] by (simp_all add: tty_ok_def length_contents tty_def)
  have st1: "upd_tty t (\<lambda>tty. tty\<lparr>read_wait := del_wait (cur_thread (base st1)) (read_wait tty)\<rparr>) st1 = st"
    using read_wait_undone [OF w] by (simp add: st1_def)
  have k: "min (int ?n) (sint nr) = sint nr" using assms(3) by simp
  have rb: "assert_from_read_buf tty (sint nr)" "copy_from_read_buf tty (sint nr) = []" "sint nr \<noteq> read_count tty"
  proof -
    have "(h + c - 1) mod 4096 \<noteq> h" if "0 \<le> h" "h < 4096" "2 \<le> c" "c \<le> 4096" for h c :: int
      using that minus_mod_self2 [of "h + c - 1" 4096]
      by (cases "h + c - 1 < 4096") (simp_all add: mod_pos_pos_trivial)
    then have "0 \<le> read_tail tty" "read_head tty < 4096" "read_tail tty \<noteq> read_head tty"
      using ok cnt(1) by (simp_all add: tty_ok_def)
    then show "assert_from_read_buf tty (sint nr)" using assms(3) cnt(1) by (simp add: assert_from_read_buf_def ntty_defs)
  qed (use assms(3) cnt(1) in \<open>simp_all add: copy_from_read_buf_def\<close>)
  have "ntty_read e t nr st = Some (Ret (sint nr), [], upd_tty t (\<lambda>tty.
      tty\<lparr>read_head := N_TTY_BUF_ALIGN (read_head tty + sint nr), read_count := read_count tty - sint nr\<rparr>) st)"
    using ntty_read_enters(1) [OF assms(1,2), of e nr, folded st1_def] assms(4,7) cnt(2) rb
    unfolding ntty_read_finish_def Let_def st1 k by (simp add: tty_def [symmetric] wake_Nil)
  moreover have "\<not> tty_ok (tty\<lparr>read_head := h, read_count := read_count tty - sint nr\<rparr>)" for h
    using assms(3) cnt(1) by (simp add: tty_ok_def)
  ultimately show ?thesis by (auto simp: tty_def)
qed

section \<open>Pseudo terminals\<close>

text \<open>A master and its slave, where no thread waits for input and no process group is in the foreground.\<close>

definition pty_pair :: "nat \<Rightarrow> nat \<Rightarrow> tty_state \<Rightarrow> bool" where
  "pty_pair m s st \<longleftrightarrow>
     ttys_ok st \<and> tty_drv (ttys st m) = Ptm_driver \<and> tty_link (ttys st m) = Some s \<and> tty_link (ttys st s) = Some m \<and>
     init_termios st Ptm_driver = ptm_termios \<and> read_wait (ttys st m) = [] \<and> read_wait (ttys st s) = [] \<and> tty_pgrp (ttys st s) \<le> 0"

lemma pty_pair_frame: "pty_pair m s st \<Longrightarrow> same_frame st st' \<Longrightarrow> ttys_ok st' \<Longrightarrow> pty_pair m s st'"
  by (simp add: pty_pair_def same_frame_def same_tty_def)

lemma ttys_ok_link: "ttys_ok st \<Longrightarrow> tty_link (ttys st t) = Some u \<Longrightarrow> tty_drv (ttys st u) = other_end (tty_drv (ttys st t))"
  by (simp add: ttys_ok_def)

lemma pty_pair_slave: "pty_pair m s st \<Longrightarrow> tty_drv (ttys st s) = Pts_driver"
  using ttys_ok_link [of st m s] by (simp add: pty_pair_def other_end_def)

lemma ok_count: "ttys_ok st \<Longrightarrow> int (length (contents (ttys st t))) = read_count (ttys st t)"
  by (simp add: ttys_ok_def tty_ok_def length_contents)

lemma put_tty_total: "ttys_ok st \<Longrightarrow> length (contents (ttys st t)) < 4096 \<Longrightarrow> \<exists>st'. put_tty t c st = Some st'"
  using put_tty_queue_ok [of "ttys st t" c] ok_count [of st t] by (auto simp: put_tty_def ttys_ok_def)

lemma put_chars_total: "ttys_ok st \<Longrightarrow> length (contents (ttys st t)) + length cp \<le> 4096 \<Longrightarrow> \<exists>st'. put_chars t cp st = Some st'"
proof (induction cp arbitrary: st)
  case (Cons c cp)
  obtain st1 where p: "put_tty t c st = Some st1" using put_tty_total [OF Cons.prems(1), of t c] Cons.prems(2) by auto
  from put_tty_edits [OF Cons.prems(1) p] have "ttys_ok st1" "contents (ttys st1 t) = contents (ttys st t) @ [c]"
    by (simp_all add: edits_def)
  then show ?case using Cons.IH [of st1] Cons.prems(2) p by simp
qed simp

lemma master_receive_total:
  assumes "pty_pair m s st" "length (contents (ttys st m)) + length cp \<le> 4096"
  shows "\<exists>st'. ntty_receive_buf write e m cp st = Some st'"
proof -
  have ok: "ttys_ok st" and tm: "termios_of m st = ptm_termios" and w: "read_wait (ttys st m) = []"
    using assms(1) by (simp_all add: pty_pair_def)
  have raw: "\<not> L_FLAG ptm_termios ICANON" "\<not> L_FLAG ptm_termios ECHO" by (simp_all add: L_FLAG_def ptm_termios_def)
  obtain st1 where p: "put_chars m cp st = Some st1" using put_chars_total [OF ok assms(2)] by blast
  from put_chars_edits [OF ok p] have "termios_of m st1 = ptm_termios" "read_wait (ttys st1 m) = []"
    using edits_termios tm w by (auto simp: edits_def same_frame_def same_tty_def)
  then show ?thesis using p raw tm by (simp add: ntty_receive_buf_def echo_False wake_Nil)
qed

lemma slave_write_total:
  assumes "pty_pair m s st"
  shows "\<exists>r st'. tops_write (Suc k) e s buf st = Some (r, st')"
proof -
  have l: "tty_link (ttys st s) = Some m" "ttys_ok st" using assms by (simp_all add: pty_pair_def)
  let ?c = "min (ntty_receive_room (ttys st m)) (int (length buf))"
  have "length (contents (ttys st m)) + length (take (nat ?c) buf) \<le> 4096"
  proof -
    have "length (contents (ttys st m)) \<le> 4096" using l(2) by (auto simp: ttys_ok_def tty_ok_def length_contents nat_le_iff)
    moreover have "nat (4096 - int (length (contents (ttys st m)))) = 4096 - length (contents (ttys st m))" by simp
    ultimately show ?thesis by (simp add: ntty_receive_room_def ntty_defs ok_count [OF l(2), symmetric])
  qed
  from master_receive_total [OF assms this, of "tops_write k e" e] show ?thesis
    using l pty_pair_slave [OF assms] by (auto simp: tops_write.simps pty_write_def Let_def)
qed

lemma opost_chars_length: "length (opost_chars tm cp) \<le> 2 * length cp"
  by (induction cp) auto

lemma echo_total:
  assumes "pty_pair m s st" "length cp \<le> 2048"
  shows "\<exists>st'. echo_if b (tops_write (Suc k) e) s cp st = Some st'"
proof -
  have "length (opost_chars tm (take n cp)) \<le> 4096" for tm n
    using opost_chars_length [of tm "take n cp"] assms(2) by simp
  then have "\<not> 4096 < int (length (opost_chars tm (take n cp)))" for tm n by (simp add: not_less)
  moreover have "\<exists>r. map_option f (tops_write (Suc k) e s buf st) = Some (f r)" for buf and f :: "int \<times> tty_state \<Rightarrow> int \<times> tty_state"
    using slave_write_total [OF assms(1), of k e buf] by (metis option.simps(9))
  then have "map_option f (tops_write (Suc k) e s buf st) \<noteq> None" for buf and f :: "int \<times> tty_state \<Rightarrow> int \<times> tty_state"
    by (metis option.distinct(1))
  ultimately show ?thesis by (simp add: echo_if_def opost_block_def Let_def ntty_defs not_None_eq [symmetric] del: not_None_eq)
qed

lemma edits_pair: "pty_pair m s st \<Longrightarrow> edits s xs st st' \<Longrightarrow> pty_pair m s st' \<and> read_wait (ttys st' s) = []"
  using pty_pair_frame [of m s st st'] by (auto simp: edits_def pty_pair_def)

lemma put_echo_total:
  assumes "pty_pair m s st" "length (contents (ttys st s)) < 4096"
  shows "\<exists>st'. Option.bind (put_tty s c st) (echo_if b (tops_write (Suc k) e) s [x]) = Some st' \<and> read_wait (ttys st' s) = []"
proof -
  have ok: "ttys_ok st" using assms(1) by (simp add: pty_pair_def)
  obtain st1 where 1: "put_tty s c st = Some st1" using put_tty_total [OF ok assms(2)] by blast
  note ed = put_tty_edits [OF ok 1]
  obtain st2 where 2: "echo_if b (tops_write (Suc k) e) s [x] st1 = Some st2"
    using echo_total [of m s st1 "[x]" b k e] edits_pair [OF assms(1) ed] by auto
  have "edits s (contents (ttys st s) @ [c]) st st2"
    using edits_echo [OF tops_write_apart ed 2] pty_pair_slave [OF assms(1)] by simp
  then show ?thesis using 1 2 edits_pair [OF assms(1)] by auto
qed

lemma receive_char_total:
  assumes "pty_pair m s st" "length (contents (ttys st s)) < 4096"
  shows "\<exists>st'. receive_char (tops_write (Suc k) e) e s c st = Some st'"
proof (cases "input_char (termios_of s st) c")
  case (Some x)
  let ?tm = "termios_of s st" and ?w = "tops_write (Suc k) e"
  have er: "\<exists>st'. eraser ?w s x st = Some st'"
    using echo_total [OF assms(1), of "[x]" "L_FLAG ?tm ECHO \<and> (char_eq (KILL_CHAR ?tm) x \<and> L_FLAG ?tm ECHOK \<or>
      (char_eq (ERASE_CHAR ?tm) x \<or> char_eq (WERASE_CHAR ?tm) x) \<and> L_FLAG ?tm ECHOE)" k e] by (auto simp: eraser_def Let_def)
  have "\<exists>st'. Option.bind (put_tty s y st) (\<lambda>st. Option.bind (echo_if b ?w s [x] st) (\<lambda>st. wake (read_wait (ttys st s)) st)) = Some st'" for y b
    using put_echo_total [OF assms, of y b k e x] by (auto simp: bind_eq_Some_conv wake_Nil)
  note w = this [of 0 False] this [of x]
  have p: "tty_pgrp (ttys st s) \<le> 0" using assms(1) by (simp add: pty_pair_def)
  show ?thesis
    unfolding receive_char_def Let_def Some option.case using er w put_echo_total [OF assms, of x _ k e x] p
    by (auto simp: echo_False)
qed (simp add: receive_char_def)

lemma line_edit_length: "length (line_edit tm xs c) \<le> Suc (length xs)"
  by (auto simp: line_edit_def split: option.split)

lemma receive_chars_total:
  "pty_pair m s st \<Longrightarrow> length (contents (ttys st s)) + length cp \<le> 4096 \<Longrightarrow>
   \<exists>st'. receive_chars (tops_write (Suc k) e) e s cp st = Some st'"
proof (induction cp arbitrary: st)
  case (Cons c cp)
  have ok: "ttys_ok st" using Cons.prems(1) by (simp add: pty_pair_def)
  obtain st1 where 1: "receive_char (tops_write (Suc k) e) e s c st = Some st1"
    using receive_char_total [OF Cons.prems(1), of k e c] Cons.prems(2) by auto
  note ed = receive_char_edits [OF tops_write_apart ok 1]
  have "length (contents (ttys st1 s)) \<le> Suc (length (contents (ttys st s)))" using ed line_edit_length by (simp add: edits_def)
  then have "length (contents (ttys st1 s)) + length cp \<le> 4096" using Cons.prems(2) by simp
  then show ?case using Cons.IH [of st1] edits_pair [OF Cons.prems(1) ed] 1 by simp
qed simp

lemma slave_receive_total:
  assumes "pty_pair m s st" "length (contents (ttys st s)) + length cp \<le> 4096" "length cp \<le> 2048"
  shows "\<exists>st'. ntty_receive_buf (tops_write (Suc k) e) e s cp st = Some st'"
proof (cases "L_FLAG (termios_of s st) ICANON")
  case True
  then show ?thesis using receive_chars_total [OF assms(1,2)] by (simp add: ntty_receive_buf_def)
next
  case False
  have ok: "ttys_ok st" using assms(1) by (simp add: pty_pair_def)
  obtain st1 where 1: "put_chars s cp st = Some st1" using put_chars_total [OF ok assms(2)] by blast
  note ed = put_chars_edits [OF ok 1]
  obtain st2 where 2: "echo_if (L_FLAG (termios_of s st1) ECHO) (tops_write (Suc k) e) s cp st1 = Some st2"
    using echo_total [OF _ assms(3)] edits_pair [OF assms(1) ed] by blast
  have "edits s (contents (ttys st s) @ cp) st st2"
    using edits_echo [OF tops_write_apart ed 2] pty_pair_slave [OF assms(1)] by simp
  from edits_pair [OF assms(1) this] show ?thesis using False 1 2 by (simp add: ntty_receive_buf_def wake_Nil)
qed

text \<open>The kill character leaves the first byte of a buffer that holds one unfinished line.\<close>

lemma kill_leaves_first:
  assumes "2 \<le> length xs" "\<forall>x \<in> set xs. \<not> LINE_SEPARATOR tm x" "char_eq (KILL_CHAR tm) c" "\<not> char_eq (WERASE_CHAR tm) c"
  shows "take (length xs - erase_count tm xs c) xs = take 1 xs"
proof -
  have "takeWhile (\<lambda>x. \<not> LINE_SEPARATOR tm x) (rev xs) = rev xs" using assms(2) by (simp add: takeWhile_eq_all_conv)
  then have "line_end tm xs = length xs" by (simp only: line_end_def length_rev)
  then have "erase_count tm xs c = length xs - 1" using assms by (auto simp: erase_count_def erasable_def Let_def)
  then show ?thesis using assms(1) by simp
qed

text \<open>A write of more bytes than the buffer has never ends.\<close>

lemma long_write_waits:
  "ttys_ok st \<Longrightarrow> 4096 < length buf \<Longrightarrow> ntty_write_loop write e t buf st = map_option (Pair Blocked) (wait_turn e st)"
  using ok_count [of st t] by (auto simp: ntty_write_loop_def ntty_receive_room_def ntty_defs)

section \<open>Every call\<close>

lemma ttys_ok_transfer:
  "init_termios st' = init_termios st \<Longrightarrow> \<forall>t. tty_drv (ttys st' t) = tty_drv (ttys st t) \<and> tty_link (ttys st' t) = tty_link (ttys st t) \<Longrightarrow>
   ttys_ok st \<Longrightarrow> \<forall>t. tty_ok (ttys st' t) \<Longrightarrow> ttys_ok st'"
  by (simp add: ttys_ok_def)

lemma ttys_ok_upd:
  assumes "ttys_ok st" "tty_drv tty = tty_drv (ttys st t)" "tty_link tty = tty_link (ttys st t)" "tty_ok tty"
  shows "ttys_ok (st\<lparr>ttys := (ttys st)(t := tty)\<rparr>)"
  using assms by (intro ttys_ok_transfer [OF _ _ assms(1)]) (auto simp: ttys_ok_def)

lemma only_wait:
  assumes "ttys_ok st"
  shows "ttys_ok (upd_tty t (\<lambda>tty. tty\<lparr>read_wait := ws tty\<rparr>) st)" and "ttys_ok (upd_tty t (\<lambda>tty. tty\<lparr>write_wait := ws tty\<rparr>) st)"
  using assms by (auto simp: ttys_ok_def [of st] tty_ok_def intro!: ttys_ok_upd)

lemma base_ok:
  assumes "ttys_ok st"
  shows "kill e p sig st = Some st' \<Longrightarrow> ttys_ok st'" "wake ws st = Some st' \<Longrightarrow> ttys_ok st'" "wait_turn e st = Some st' \<Longrightarrow> ttys_ok st'"
  using assms base_only_tty(1) [of e p sig st st' 0] base_only_tty(2) [of ws st st' 0] base_only_tty(3) [of e st st' 0]
  by (auto simp: only_tty_def)

lemma ntty_read_finish_ok:
  assumes "ttys_ok st" "nr < 0x80000000" "0 \<le> len" "ntty_read_finish t len nr st = Some (oc, buf, st')"
  shows "ttys_ok st'"
proof -
  define st1 where "st1 = upd_tty t (\<lambda>tty. tty\<lparr>read_wait := del_wait (cur_thread (base st)) (read_wait tty)\<rparr>) st"
  have ok: "ttys_ok st1" unfolding st1_def by (rule only_wait(1) [OF assms(1)])
  show ?thesis
  proof (cases "len = 0 \<or> read_count (ttys st1 t) < len")
    case True
    then show ?thesis using assms(4) ok by (simp add: ntty_read_finish_def Let_def st1_def [symmetric])
  next
    case False
    define k where "k = min len (sint nr)"
    have k: "0 \<le> k" "k \<le> read_count (ttys st1 t)" using False assms(3) sint_small [OF assms(2)] by (auto simp: k_def)
    define tty' where "tty' = (if k = read_count (ttys st1 t) then (ttys st1 t)\<lparr>read_head := 0, read_tail := 0, read_count := 0\<rparr>
      else (ttys st1 t)\<lparr>read_head := N_TTY_BUF_ALIGN (read_head (ttys st1 t) + k), read_count := read_count (ttys st1 t) - k\<rparr>)"
    have "tty_ok (ttys st1 t)" using ok by (simp add: ttys_ok_def)
    note tk = take_from_buffer [OF this k]
    have "only_tty t st1 (st1\<lparr>ttys := (ttys st1)(t := tty')\<rparr>)"
      using tk(3) by (intro only_tty_upd) (simp_all add: tty'_def same_tty_def)
    then have "ttys_ok (st1\<lparr>ttys := (ttys st1)(t := tty')\<rparr>)" using ok by (simp add: only_tty_def)
    moreover have "wake (write_wait (ttys st1 t)) (st1\<lparr>ttys := (ttys st1)(t := tty')\<rparr>) = Some st'"
      using assms(4) False tk(1) unfolding ntty_read_finish_def Let_def st1_def [symmetric] k_def [symmetric] tty'_def [symmetric]
      by (auto simp: bind_eq_Some_conv)
    ultimately show ?thesis by (rule base_ok(2))
  qed
qed

lemma ntty_read_loop_ok:
  assumes "ttys_ok st" "nr < 0x80000000" "ntty_read_loop e t nr st = Some (oc, buf, st')"
  shows "ttys_ok st'"
proof -
  have "tty_ok (ttys st t)" using assms(1) by (simp add: ttys_ok_def)
  note len = ntty_read_length_eq [OF this, of "termios_of t st"]
  then obtain leave n where n: "ntty_read_length (termios_of t st) (ttys st t) = Some (leave, n)" "0 \<le> n"
    using \<open>tty_ok (ttys st t)\<close> by (auto simp: tty_ok_def split: if_splits)
  then show ?thesis
    using assms(3) ntty_read_finish_ok [OF assms(1,2) n(2)] base_ok(3) [OF assms(1)]
    by (auto simp: ntty_read_loop_def split: if_splits)
qed

lemma ntty_read_ok:
  assumes "ttys_ok st" "nr < 0x80000000" "ntty_read e t nr st = Some (oc, buf, st')"
  shows "ttys_ok st'"
  using ntty_read_loop_ok [OF only_wait(1) [OF assms(1)] assms(2)] base_ok(1) [OF assms(1)] assms(3)
  by (auto simp: ntty_read_def split: if_splits)

lemma opost_ok: "ttys_ok st \<Longrightarrow> opost_block (tops_write n e) t buf st = Some (r, st') \<Longrightarrow> ttys_ok st'"
  using tops_write_ok(1) by (auto simp: opost_block_def Let_def split: if_splits)

lemma ntty_write_loop_ok:
  assumes "ttys_ok st" "ntty_write_loop (tops_write n e) e t buf st = Some (oc, st')"
  shows "ttys_ok st'"
proof (cases "int (length buf) \<le> ntty_receive_room (ttys st t)")
  case True
  then obtain r st1 where 1: "opost_block (tops_write n e) t buf st = Some (r, st1)"
    and st': "st' = upd_tty t (\<lambda>tty. tty\<lparr>write_wait := del_wait (cur_thread (base st1)) (write_wait tty)\<rparr>) st1"
    using assms(2) by (auto simp: ntty_write_loop_def bind_eq_Some_conv)
  show ?thesis unfolding st' by (rule only_wait(2) [OF opost_ok [OF assms(1) 1]])
next
  case False
  then show ?thesis using assms base_ok(3) [OF assms(1)] by (auto simp: ntty_write_loop_def)
qed

lemma ntty_write_ok:
  assumes "ttys_ok st" "ntty_write (tops_write n e) e t buf st = Some (oc, st')"
  shows "ttys_ok st'"
  using ntty_write_loop_ok [OF only_wait(2) [OF assms(1)]] base_ok(1) [OF assms(1)] assms(2)
  by (auto simp: ntty_write_def split: if_splits)

text \<open>Opening and the control calls.\<close>

lemma detach_keeps:
  assumes "detach_loop t iter st = Some st'"
  shows "\<exists>p. st' = st\<lparr>proc_tty := p\<rparr>"
  using assms
proof (rule detach_loop.raw_induct [rotated])
  fix f t iter st st'
  assume IH: "\<And>t iter st st'. f t iter st = Some st' \<Longrightarrow> \<exists>p. st' = st\<lparr>proc_tty := p\<rparr>"
    and eq: "(case iter of None \<Rightarrow> Some st
      | Some i \<Rightarrow> Option.bind (hashmap_iter_get_data (mprocess (base st)) iter)
          (\<lambda>p. f t (hashmap_iter_next (mprocess (base st)) iter)
             (st\<lparr>proc_tty := (\<lambda>q. if q = p \<and> proc_tty st q = Some t then None else proc_tty st q)\<rparr>))) = Some st'"
  show "\<exists>p. st' = st\<lparr>proc_tty := p\<rparr>"
  proof (cases iter)
    case None
    then have "st' = st\<lparr>proc_tty := proc_tty st\<rparr>" using eq by simp
    then show ?thesis by blast
  next
    case (Some i)
    then obtain q where "f t (hashmap_iter_next (mprocess (base st)) iter)
        (st\<lparr>proc_tty := (\<lambda>p. if p = q \<and> proc_tty st p = Some t then None else proc_tty st p)\<rparr>) = Some st'"
      using eq by (auto simp: bind_eq_Some_conv)
    from IH [OF this] show ?thesis by auto
  qed
qed

text \<open>A terminal with the same buffer and the same ends.\<close>

definition same_input :: "tty_struct \<Rightarrow> tty_struct \<Rightarrow> bool" where
  "same_input tty tty' \<longleftrightarrow>
     tty_drv tty' = tty_drv tty \<and> tty_link tty' = tty_link tty \<and> read_head tty' = read_head tty \<and> read_tail tty' = read_tail tty \<and>
     read_count tty' = read_count tty \<and> read_buf tty' = read_buf tty"

lemma same_input_ok:
  assumes "ttys_ok st" "init_termios st' = init_termios st" "\<forall>t. same_input (ttys st t) (ttys st' t)"
  shows "ttys_ok st'"
  using assms by (intro ttys_ok_transfer [OF assms(2) _ assms(1)]) (auto simp: same_input_def ttys_ok_def tty_ok_def)

lemma tiocsctty_keeps:
  assumes "tiocsctty t arg st = Some (r, st')"
  shows "init_termios st' = init_termios st \<and> (\<forall>u. same_input (ttys st u) (ttys st' u))"
  using assms by (auto simp: tiocsctty_def Let_def bind_eq_Some_conv same_input_def dest!: detach_keeps split: if_splits)

lemma tiocsctty_ok: "ttys_ok st \<Longrightarrow> tiocsctty t arg st = Some (r, st') \<Longrightarrow> ttys_ok st'"
  using tiocsctty_keeps same_input_ok by blast

text \<open>An address that no terminal links to.\<close>

definition unused_tty :: "nat \<Rightarrow> tty_state \<Rightarrow> bool" where
  "unused_tty t st \<longleftrightarrow> (\<forall>u. tty_link (ttys st u) \<noteq> Some t)"

lemma new_tty_ok: "tty_ok (ntty_open \<lparr>tty_index = i, tty_drv = d, tty_link = l, tty_winsize = w, tty_pgrp = pg, tty_session = se,
   write_wait = ww, read_wait = rw, read_head = 0, read_tail = 0, read_count = 0, read_buf = b\<rparr>)"
  by (simp add: tty_ok_def ntty_open_def ntty_defs)

lemma create_ok: "ttys_ok st \<Longrightarrow> unused_tty t st \<Longrightarrow> ttys_ok (create_tty_struct d i t st)"
  using new_tty_ok by (simp add: ttys_ok_def create_tty_struct_def unused_tty_def ntty_open_def)

lemma create_link: "tty_link (ttys (create_tty_struct d i t st) u) = (if u = t then None else tty_link (ttys st u))"
  by (simp add: create_tty_struct_def ntty_open_def)

lemma unused_create: "unused_tty u st \<Longrightarrow> unused_tty u (create_tty_struct d i t st)"
  by (simp add: unused_tty_def create_link)

lemma ptmx_open_ok:
  assumes "ttys_ok st" "unused_tty m st" "unused_tty s st" "m \<noteq> s" "ptmx_open m s st = Some (t, st')"
  shows "ttys_ok st'"
proof -
  define st0 where "st0 = create_tty_struct Ptm_driver (next_pty_number st) m (st\<lparr>next_pty_number := next_pty_number st + 1\<rparr>)"
  have ok0: "ttys_ok st0" and un0: "unused_tty s st0" "unused_tty m st0"
    using create_ok [of "st\<lparr>next_pty_number := next_pty_number st + 1\<rparr>" m] unused_create assms(1-3)
    by (simp_all add: st0_def ttys_ok_def unused_tty_def create_link)
  obtain r st1 where 1: "tiocsctty m 0 st0 = Some (r, st1)"
    and st': "st' = (let st2 = create_tty_struct Pts_driver (next_pty_number st) s st1
      in upd_tty s (\<lambda>tty. tty\<lparr>tty_link := Some m\<rparr>) (upd_tty m (\<lambda>tty. tty\<lparr>tty_link := Some s\<rparr>) st2))"
    using assms(5) by (auto simp: ptmx_open_def st0_def [symmetric] Let_def bind_eq_Some_conv)
  have ok1: "ttys_ok st1" by (rule tiocsctty_ok [OF ok0 1])
  have k: "same_input (ttys st0 u) (ttys st1 u)" for u using tiocsctty_keeps [OF 1] by simp
  have un1: "unused_tty s st1" "unused_tty m st1" using un0 k by (simp_all add: unused_tty_def same_input_def)
  have drv: "tty_drv (ttys st1 m) = Ptm_driver"
    using k [of m] by (simp add: same_input_def st0_def create_tty_struct_def ntty_open_def)
  define st2 where "st2 = create_tty_struct Pts_driver (next_pty_number st) s st1"
  have ok2: "ttys_ok st2" unfolding st2_def by (rule create_ok [OF ok1 un1(1)])
  have drv2: "tty_drv (ttys st2 m) = Ptm_driver" "tty_drv (ttys st2 s) = Pts_driver"
    using drv assms(4) by (simp_all add: st2_def create_tty_struct_def ntty_open_def)
  have un2: "unused_tty m st2" "unused_tty s st2" using unused_create un1 by (simp_all add: st2_def)
  show ?thesis
    unfolding st' Let_def st2_def [symmetric] using ok2 drv2 un2 assms(4)
    by (auto simp: ttys_ok_def tty_ok_def unused_tty_def other_end_def)
qed

lemma tty_open_ok:
  assumes "ttys_ok st" "unused_tty t st" "tty_open t dev st = Some (p, st')"
  shows "ttys_ok st'"
  using assms tiocsctty_ok [OF create_ok [OF assms(1,2)]] tiocsctty_ok [OF assms(1)]
  by (auto simp: tty_open_def Let_def split: if_splits option.splits)

lemma umem_ok: "ttys_ok st \<Longrightarrow> ttys_ok (upd_umem f st)"
  by (rule same_input_ok [of st]) (simp_all add: upd_umem_def same_input_def)

lemma tty_ioctl_ok:
  assumes "ttys_ok st" "tty_ioctl e p cmd arg st = Some (r, st')"
    and e: "\<not> L_FLAG (init_termios st' Ptm_driver) ECHO" "\<not> L_FLAG (init_termios st' Ptm_driver) ECHONL"
  shows "ttys_ok st'"
proof (cases p)
  case None
  then show ?thesis using assms by (simp add: tty_ioctl_def)
next
  case (Some t)
  have "ttys_ok (snd (tcsets t arg st))" if "st' = snd (tcsets t arg st)"
    using assms(1) e unfolding that by (simp add: ttys_ok_def tcsets_def)
  moreover have "ttys_ok (snd (tiocspgrp t arg st))"
    using assms(1) by (intro same_input_ok [OF assms(1)]) (auto simp: tiocspgrp_def Let_def same_input_def split: option.split)
  moreover have "ttys_ok (snd (tcgets t arg st))" "ttys_ok (snd (tiocgpgrp t arg st))" "ttys_ok (snd (fionread t arg st))"
    "ttys_ok (snd (tiocgwinsz t arg st))"
    using assms(1) umem_ok by (simp_all add: tcgets_def tiocgpgrp_def fionread_def tiocgwinsz_def)
  moreover have "ttys_ok st2" if "tiocswinsz e t arg st = Some (r2, st2)" for r2 st2
  proof -
    have "ttys_ok (upd_tty t (\<lambda>tty. tty\<lparr>tty_winsize := get_winsize arg (umem (base st))\<rparr>) st)"
      by (rule same_input_ok [OF assms(1)]) (simp_all add: same_input_def)
    then show ?thesis using that base_ok(1) by (auto simp: tiocswinsz_def Let_def split: if_splits)
  qed
  ultimately show ?thesis
    using assms Some tiocsctty_ok [OF assms(1)] by (auto simp: tty_ioctl_def split: if_splits)
qed

lemma tty_poll_ok: "ttys_ok st \<Longrightarrow> tty_poll p st = Some (r, st') \<Longrightarrow> ttys_ok st'"
  by (erule same_input_ok) (auto simp: tty_poll_def ntty_poll_def Let_def same_input_def)

section \<open>Sequences of calls\<close>

text \<open>What can happen to the terminals: the calls on their files, the second half of a call that waited, output of the kernel, and
  anything that changes only the rest of the kernel. A read asks for less than \<open>2 ^ 31\<close> bytes, and no control call turns on the
  echo of the masters: the two ends of a pseudo terminal would then answer each other's characters for ever, or edit a line
  while it is being edited.\<close>

inductive tty_step :: "tty_state \<Rightarrow> tty_state \<Rightarrow> bool" where
  ptmx: "unused_tty m st \<Longrightarrow> unused_tty s st \<Longrightarrow> m \<noteq> s \<Longrightarrow> ptmx_open m s st = Some (t, st') \<Longrightarrow> tty_step st st'"
| open_tty: "unused_tty t st \<Longrightarrow> tty_open t dev st = Some (p, st') \<Longrightarrow> tty_step st st'"
| reading: "nr < 0x80000000 \<Longrightarrow> tty_read e p nr st = Some (oc, buf, st') \<Longrightarrow> tty_step st st'"
| read_again: "nr < 0x80000000 \<Longrightarrow> ntty_read_loop e t nr st = Some (oc, buf, st') \<Longrightarrow> tty_step st st'"
| writing: "tty_write n e p buf st = Some (oc, st') \<Longrightarrow> tty_step st st'"
| write_again: "ntty_write_loop (tops_write n e) e t buf st = Some (oc, st') \<Longrightarrow> tty_step st st'"
| kernel_output: "tops_write n e t buf st = Some (r, st') \<Longrightarrow> tty_step st st'"
| polling: "tty_poll p st = Some (ev, st') \<Longrightarrow> tty_step st st'"
| control: "tty_ioctl e p cmd arg st = Some (r, st') \<Longrightarrow> \<not> L_FLAG (init_termios st' Ptm_driver) ECHO \<Longrightarrow>
    \<not> L_FLAG (init_termios st' Ptm_driver) ECHONL \<Longrightarrow> tty_step st st'"
| elsewhere: "tty_step st (st\<lparr>base := b\<rparr>)"

text \<open>Before the first terminal is opened.\<close>

definition tty_boot :: "sys \<Rightarrow> tty_state" where
  "tty_boot b =
     \<lparr>base = b,
      ttys = (\<lambda>_. ntty_open \<lparr>tty_index = 0, tty_drv = Serial_driver, tty_link = None,
        tty_winsize = \<lparr>ws_row = 0, ws_col = 0, ws_xpixel = 0, ws_ypixel = 0\<rparr>, tty_pgrp = 0, tty_session = 0,
        write_wait = [], read_wait = [], read_head = 0, read_tail = 0, read_count = 0, read_buf = []\<rparr>),
      driver_ttys = (\<lambda>_. []),
      init_termios = (\<lambda>d. case d of Ptm_driver \<Rightarrow> ptm_termios | Pts_driver \<Rightarrow> pts_termios | Serial_driver \<Rightarrow> tty_std_termios),
      proc_tty = (\<lambda>_. None), serial_sent = [], next_pty_number = 0\<rparr>"

lemma tty_boot_ok: "ttys_ok (tty_boot b)"
  using new_tty_ok by (simp add: ttys_ok_def tty_boot_def L_FLAG_def ptm_termios_def ntty_open_def)

lemma tty_step_ok: "tty_step st st' \<Longrightarrow> ttys_ok st \<Longrightarrow> ttys_ok st'"
proof (induction rule: tty_step.induct)
  case (reading nr e p st oc buf st')
  then show ?case using ntty_read_ok [OF reading(3,1)] by (auto simp: tty_read_def bind_eq_Some_conv)
next
  case (writing n e p buf st oc st')
  then show ?case using ntty_write_ok by (auto simp: tty_write_def bind_eq_Some_conv)
next
  case (elsewhere st b)
  then show ?case by (rule same_input_ok) (simp_all add: same_input_def)
qed (auto intro: ptmx_open_ok tty_open_ok ntty_read_loop_ok ntty_write_loop_ok tops_write_ok(1) tty_poll_ok tty_ioctl_ok)

text \<open>A pseudo terminal that was just opened: the master at 1, the slave at 2.\<close>

lemma ptmx_boot:
  "\<exists>st. ptmx_open 1 2 (tty_boot b) = Some (1, st) \<and> base st = b \<and> init_termios st = init_termios (tty_boot b) \<and> pty_pair 1 2 st \<and>
     contents (ttys st 1) = [] \<and> contents (ttys st 2) = [] \<and> write_wait (ttys st 2) = [] \<and> proc_tty st (cur_process b) \<noteq> Some 2"
proof -
  define st0 where "st0 = create_tty_struct Ptm_driver 0 1 ((tty_boot b)\<lparr>next_pty_number := 1\<rparr>)"
  have s0: "tty_session (ttys st0 1) = 0" by (simp add: st0_def create_tty_struct_def ntty_open_def)
  then obtain r st1 where 1: "tiocsctty 1 0 st0 = Some (r, st1)" by (fastforce simp: tiocsctty_def Let_def)
  have b1: "base st1 = b" "proc_tty st1 p \<noteq> Some 2" "read_wait (ttys st1 1) = []" for p
    using 1 s0 by (auto simp: tiocsctty_def Let_def st0_def create_tty_struct_def tty_boot_def ntty_open_def split: if_splits)
  have k1: "init_termios st1 = init_termios (tty_boot b)" "same_input (ttys st0 1) (ttys st1 1)"
    using conjunct1 [OF tiocsctty_keeps [OF 1]] spec [OF conjunct2 [OF tiocsctty_keeps [OF 1]], of 1]
    by (simp_all add: st0_def create_tty_struct_def)
  define st where "st = (let st2 = create_tty_struct Pts_driver 0 2 st1
    in upd_tty 2 (\<lambda>tty. tty\<lparr>tty_link := Some 1\<rparr>) (upd_tty 1 (\<lambda>tty. tty\<lparr>tty_link := Some 2\<rparr>) st2))"
  have n0: "next_pty_number (tty_boot b) = 0" by (simp add: tty_boot_def)
  have open_st: "ptmx_open 1 2 (tty_boot b) = Some (1, st)"
    using 1 [unfolded st0_def] by (simp add: ptmx_open_def n0 st_def Let_def)
  have "unused_tty t (tty_boot b)" for t by (simp add: unused_tty_def tty_boot_def ntty_open_def)
  then have ok: "ttys_ok st" by (intro ptmx_open_ok [OF tty_boot_ok _ _ _ open_st]) simp_all
  have "pty_pair 1 2 st"
    using ok k1 b1(3) by (simp add: pty_pair_def st_def create_tty_struct_def ntty_open_def same_input_def st0_def tty_boot_def)
  moreover have "contents (ttys st 1) = []" "contents (ttys st 2) = []" "write_wait (ttys st 2) = []"
    using k1(2) by (simp_all add: contents_def st_def create_tty_struct_def ntty_open_def same_input_def st0_def)
  moreover have "base st = b" "init_termios st = init_termios (tty_boot b)" "proc_tty st (cur_process b) \<noteq> Some 2"
    using b1 k1(1) by (simp_all add: st_def create_tty_struct_def)
  ultimately show ?thesis using open_st by blast
qed

text \<open>C19: whatever sequence of opening, reading, writing, polling and control calls happens from the start on, with calls that wait
  and go on later and any activity of the rest of the kernel in between, as long as reads ask for less than \<open>2 ^ 31\<close> bytes and no
  control call turns on the echo of the masters, the read buffer of every terminal stays well-formed: a
  ring of 4096 bytes whose head and tail are inside, whose count is between 0 and 4096 and whose tail is the place of the last
  byte; and a link always joins a master and a slave.\<close>

theorem ttys_stay_well_formed:
  assumes "tty_step\<^sup>*\<^sup>* (tty_boot b) st"
  shows "tty_ok (ttys st t) \<and>
    (\<forall>u. tty_link (ttys st t) = Some u \<longrightarrow> {tty_drv (ttys st t), tty_drv (ttys st u)} = {Ptm_driver, Pts_driver})"
proof -
  have "ttys_ok st" using assms by (induction rule: rtranclp_induct) (auto intro: tty_boot_ok tty_step_ok)
  then have "tty_ok (ttys st t)" and l: "\<forall>u. tty_link (ttys st t) = Some u \<longrightarrow>
     tty_drv (ttys st t) \<noteq> Serial_driver \<and> tty_drv (ttys st u) = other_end (tty_drv (ttys st t))" by (auto simp: ttys_ok_def)
  then show ?thesis by (cases "tty_drv (ttys st t)") (auto simp: other_end_def)
qed

theorem ttys_stay_well_formed_witness:
  "\<exists>st. tty_step\<^sup>*\<^sup>* (tty_boot sys_example) st \<and> tty_link (ttys st 1) = Some 2 \<and> tty_ok (ttys st 2) \<and>
    {tty_drv (ttys st 1), tty_drv (ttys st 2)} = {Ptm_driver, Pts_driver}"
proof -
  obtain st where st: "ptmx_open 1 2 (tty_boot sys_example) = Some (1, st)" "pty_pair 1 2 st" using ptmx_boot by blast
  have "unused_tty t (tty_boot sys_example)" for t by (simp add: unused_tty_def tty_boot_def ntty_open_def)
  then have "tty_step\<^sup>*\<^sup>* (tty_boot sys_example) st" using ptmx [OF _ _ _ st(1)] by auto
  moreover have "tty_link (ttys st 1) = Some 2" using st(2) by (simp add: pty_pair_def)
  ultimately show ?thesis using ttys_stay_well_formed [of sys_example st] by blast
qed

text \<open>C4: what is typed at the master of a pseudo terminal reaches the read buffer of the slave as its line discipline edits it: in
  canonical mode every character is mapped by the input flags and then entered, or erases a character, a word or the line, or is
  dropped because it stands for a signal; otherwise the bytes are appended.  The call returns the number of bytes, no assertion
  fails, whatever is echoed, and all read buffers stay well-formed.\<close>

theorem pty_line_discipline:
  assumes "pty_pair m s st" and "length (contents (ttys st s)) + length cp \<le> 4096" and "length cp \<le> 2048"
  shows "\<exists>st'. tops_write (Suc (Suc k)) e m cp st = Some (int (length cp), st') \<and>
    contents (ttys st' s) = received (init_termios st Pts_driver) (contents (ttys st s)) cp \<and> pty_pair m s st'"
proof -
  have p: "ttys_ok st" "tty_link (ttys st m) = Some s" "tty_drv (ttys st m) = Ptm_driver" using assms(1) by (simp_all add: pty_pair_def)
  obtain st' where st': "ntty_receive_buf (tops_write (Suc k) e) e s cp st = Some st'"
    using slave_receive_total [OF assms] by blast
  note ed = ntty_receive_buf_edits [OF tops_write_apart p(1) st']
  have c: "min (ntty_receive_room (ttys st s)) (int (length cp)) = int (length cp)"
    using assms(2) ok_count [OF p(1), of s] by (simp add: ntty_receive_room_def ntty_defs)
  have "tops_write (Suc (Suc k)) e m cp st = Some (int (length cp), st')"
    using p c st' by (simp add: tops_write.simps(2) [of "Suc k"] pty_write_def)
  then show ?thesis using ed edits_pair [OF assms(1) ed] pty_pair_slave [OF assms(1)] by (auto simp: edits_def)
qed

text \<open>Typing \<open>ls\<close>, a wrong letter, the erase character and a carriage return with the standard settings.\<close>

lemma char_signal_valid:
  "valid_signal (char_signal tm c) \<and> 0 < char_signal tm c \<longleftrightarrow>
   L_FLAG tm ISIG \<and> (char_eq (INTR_CHAR tm) c \<or> char_eq (QUIT_CHAR tm) c \<or> char_eq (SUSP_CHAR tm) c)"
  by (auto simp: char_signal_def valid_signal_def SIGINT_def SIGQUIT_def SIGTSTP_def NSIG_def)

lemmas pts_defs = pts_termios_def tty_std_termios_def INIT_C_CC_def INTR_CHAR_def QUIT_CHAR_def ERASE_CHAR_def KILL_CHAR_def EOF_CHAR_def
  SUSP_CHAR_def EOL_CHAR_def WERASE_CHAR_def EOL2_CHAR_def L_FLAG_def I_FLAG_def ISIG_def ICANON_def IEXTEN_def ICRNL_def IXON_def
  ISTRIP_def IUCLC_def IGNCR_def INLCR_def ECHO_def ECHOE_def ECHOK_def ECHOCTL_def ECHOKE_def

lemma put_chars_base: "put_chars t cp st = Some st' \<Longrightarrow> base st' = base st"
  by (induction cp arbitrary: st) (auto simp: bind_eq_Some_conv put_tty_def)

lemma typed_line: "received pts_termios [] [ch CHR ''l'', ch CHR ''x'', 0x7F, ch CHR ''s'', 0xD] = map ch ''ls\<newline>''"
  by (simp add: received_def line_edit_def char_signal_valid input_char_def char_eq_def erase_count_def erasable_def line_end_def
      LINE_SEPARATOR_def pts_defs)

theorem pty_line_discipline_witness:
  "\<exists>st st'. pty_pair 1 2 st \<and> tops_write 2 \<lparr>kill_depth = 0, env_hs = Some, env_irqs = []\<rparr> 1
     [ch CHR ''l'', ch CHR ''x'', 0x7F, ch CHR ''s'', 0xD] st = Some (5, st') \<and> contents (ttys st' 2) = map ch ''ls\<newline>''"
proof -
  obtain st where st: "pty_pair 1 2 st" "init_termios st = init_termios (tty_boot sys_example)" "contents (ttys st 2) = []"
    using ptmx_boot [of sys_example] by blast
  have "init_termios st Pts_driver = pts_termios" using st(2) by (simp add: tty_boot_def)
  then show ?thesis
    using pty_line_discipline [OF st(1), of "[ch CHR ''l'', ch CHR ''x'', 0x7F, ch CHR ''s'', 0xD]" 0] st typed_line
    by (fastforce simp: numeral_2_eq_2)
qed

text \<open>C27: reading less than \<open>2 ^ 31\<close> bytes from a terminal, by a thread that runs. A process in the background is sent \<open>SIGTTIN\<close>
  with its group and gets \<open>-ERESTARTSYS\<close>. Otherwise the first line in canonical mode and else all bytes, once there are as many
  as \<open>VMIN\<close> asks for, are returned, in both cases no more than the caller's buffer takes; these bytes leave the read buffer,
  the rest stays in order, the writers that wait are made ready and nothing else changes. With no byte in the buffer and
  \<open>VMIN\<close> 0 the result is \<open>-EFAULT\<close>, with nothing changed. When there is no complete line, or too few bytes, the thread is put on
  the wait queue and sleeps, and the first ready thread runs, when it has no signal pending. Interrupts and signal handlers
  that run while the thread sleeps do not wake it, and the writers wait with the wake-up function of \<open>DEFINE_WAIT\<close>.\<close>

theorem ntty_read_correct:
  assumes "ttys_ok st" and "nr < 0x80000000" and "\<forall>w \<in> set (write_wait (ttys st t)). wait_func w = poll_wakeup"
    and "u \<notin> wait_thread ` set (read_wait (ttys st t))" and "sched_ok (sg_sched (base st)) Q" and "runs (sg_sched (base st)) u"
    and "\<forall>irq \<in> set (env_irqs e). spares {u} irq" and "spares {u} (env_hs e)"
  shows "let n = ready_length (termios_of t st) (contents (ttys st t))
    in if in_background t st then ntty_read e t nr st =
      map_option (\<lambda>st. (Ret (- 512), [], st)) (kill e (- gid (procs (base st) (cur_process (base st)))) SIGTTIN st)
    else if 0 < n then
      (\<exists>st' Q'. ntty_read e t nr st = Some (Ret (int (min n (unat nr))), take (min n (unat nr)) (contents (ttys st t)), st') \<and>
         contents (ttys st' t) = drop (min n (unat nr)) (contents (ttys st t)) \<and> same_frame st st' \<and> ttys_ok st' \<and>
         (\<forall>v. v \<noteq> t \<longrightarrow> ttys st' v = ttys st v) \<and> sched_ok (sg_sched (base st')) Q' \<and>
         (\<forall>v. state (threads (sg_sched (base st')) v) =
           (if v \<in> wait_thread ` set (write_wait (ttys st t)) then THREAD_READY else state (threads (sg_sched (base st)) v))))
    else if \<not> L_FLAG (termios_of t st) ICANON \<and> MIN_CHAR (termios_of t st) = 0 then ntty_read e t nr st = Some (Ret (- 14), [], st)
    else (\<exists>st' Q'. ntty_read e t nr st = Some (Blocked, [], st') \<and>
      ttys st' = (ttys st)(t := (ttys st t)\<lparr>read_wait := read_wait (ttys st t) @ [DEFINE_WAIT st]\<rparr>) \<and>
      sched_ok (sg_sched (base st')) Q' \<and> state (threads (sg_sched (base st')) u) = THREAD_WAITING \<and>
      (\<forall>v. next_ready Q = Some v \<and> pending (threads (sg_sched (base st)) v) = 0 \<longrightarrow> runs (sg_sched (base st')) v))"
proof (cases "in_background t st")
  case True
  then show ?thesis by (simp add: ntty_read_def ERESTARTSYS_def Let_def)
next
  case False
  from ntty_read_result [OF assms this] show ?thesis unfolding Let_def if_not_P [OF False] .
qed

theorem ntty_read_correct_witness:
  "\<exists>st st'. contents (ttys st 2) = map ch ''ls\<newline>'' \<and>
     ntty_read \<lparr>kill_depth = 0, env_hs = Some, env_irqs = []\<rparr> 2 100 st = Some (Ret 3, map ch ''ls\<newline>'', st') \<and> contents (ttys st' 2) = []"
proof -
  let ?e = "\<lparr>kill_depth = 0, env_hs = Some, env_irqs = []\<rparr>"
  obtain st where st: "pty_pair 1 2 st" "init_termios st = init_termios (tty_boot sys_example)" "contents (ttys st 2) = []"
    "write_wait (ttys st 2) = []" "base st = sys_example" "proc_tty st (cur_process sys_example) \<noteq> Some 2"
    using ptmx_boot [of sys_example] by blast
  have tm: "init_termios st Pts_driver = pts_termios" using st(2) by (simp add: tty_boot_def)
  obtain st1 where 1: "put_chars 2 (map ch ''ls\<newline>'') st = Some st1"
    using put_chars_total [of st 2 "map ch ''ls\<newline>''"] st(1,3) by (auto simp: pty_pair_def)
  have "edits 2 (map ch ''ls\<newline>'') st st1" using put_chars_edits [OF _ 1] st(1,3) by (simp add: pty_pair_def)
  then have e: "ttys_ok st1" "contents (ttys st1 2) = map ch ''ls\<newline>''" "same_frame st st1" by (simp_all add: edits_def)
  have f: "write_wait (ttys st1 2) = []" "read_wait (ttys st1 2) = []" "proc_tty st1 = proc_tty st" "termios_of 2 st1 = pts_termios"
    using e(3) st(1,4) tm pty_pair_slave [OF st(1)] by (simp_all add: same_frame_def same_tty_def pty_pair_def)
  have b1: "base st1 = sys_example" using put_chars_base [OF 1] st(5) by simp
  then have b: "\<not> in_background 2 st1" using f(3) st(6) by (simp add: in_background_def Let_def)
  have r: "ready_length pts_termios (map ch ''ls\<newline>'') = 3"
    by (simp add: ready_length_def first_line_def LINE_SEPARATOR_def char_eq_def pts_defs)
  have "sched_ok (sg_sched (base st1)) ((\<lambda>_. [])(app_ready_list := [1, 2]))" "runs (sg_sched (base st1)) 0"
    using sched_example_ok by (simp_all add: b1 sys_example_def runs_def sched_example_def)
  note read = ntty_read_correct [OF e(1) _ _ _ this, of 100 2 ?e, unfolded Let_def if_not_P [OF b] e(2) f(1,2,4) r]
  have "\<exists>st'. ntty_read ?e 2 100 st1 = Some (Ret 3, map ch ''ls\<newline>'', st') \<and> contents (ttys st' 2) = []"
    using read spares_Some by simp blast
  then show ?thesis using e(2) by blast
qed

end
