(* ===== verification/Circular_Buffer.thy ===== *)
theory Circular_Buffer
  imports Kernel_Prelude
begin

text \<open>
  The byte ring of \<open>kernel/utils/circular_buffer.c\<close>: one definition per function, over a record
  with the fields of \<open>struct circular_buf_t\<close>. \<open>cb_items\<close> is the sequence of bytes a buffer
  holds, oldest first; the lemmas show that the operations are the queue operations on it. The
  locale \<open>bounded_queue\<close> is the part of that contract its clients (the pipes) rely on.
\<close>

section \<open>The operations\<close>

record circular_buf =
  buffer :: "u8 list"
  head :: u32
  tail :: u32
  max_size :: u32
  full :: bool

definition advance_pointer :: "circular_buf \<Rightarrow> circular_buf" where
  "advance_pointer cb =
     (let cb1 = (if full cb then cb\<lparr>tail := (tail cb + 1) mod max_size cb\<rparr> else cb);
          cb2 = cb1\<lparr>head := (head cb1 + 1) mod max_size cb1\<rparr>
      in cb2\<lparr>full := (head cb2 = tail cb2)\<rparr>)"

definition retreat_pointer :: "circular_buf \<Rightarrow> circular_buf" where
  "retreat_pointer cb = cb\<lparr>full := False, tail := (tail cb + 1) mod max_size cb\<rparr>"

definition circular_buf_reset :: "circular_buf \<Rightarrow> circular_buf" where
  "circular_buf_reset cb = cb\<lparr>head := 0, tail := 0, full := False\<rparr>"

text \<open>The structure comes zeroed from \<open>kcalloc\<close>.\<close>

definition circular_buf_init :: "u8 list \<Rightarrow> u32 \<Rightarrow> circular_buf" where
  "circular_buf_init buf sz =
     circular_buf_reset \<lparr>buffer = buf, head = 0, tail = 0, max_size = sz, full = False\<rparr>"

definition circular_buf_size :: "circular_buf \<Rightarrow> u32" where
  "circular_buf_size cb =
     (if \<not> full cb then
        (if head cb \<ge> tail cb then head cb - tail cb else max_size cb + head cb - tail cb)
      else max_size cb)"

definition circular_buf_capacity :: "circular_buf \<Rightarrow> u32" where
  "circular_buf_capacity cb = max_size cb"

definition circular_buf_empty :: "circular_buf \<Rightarrow> bool" where
  "circular_buf_empty cb \<longleftrightarrow> \<not> full cb \<and> head cb = tail cb"

definition circular_buf_full :: "circular_buf \<Rightarrow> bool" where
  "circular_buf_full cb = full cb"

definition circular_buf_put :: "circular_buf \<Rightarrow> u8 \<Rightarrow> circular_buf" where
  "circular_buf_put cb data = advance_pointer (cb\<lparr>buffer := (buffer cb)[unat (head cb) := data]\<rparr>)"

definition circular_buf_put2 :: "circular_buf \<Rightarrow> u8 \<Rightarrow> int \<times> circular_buf" where
  "circular_buf_put2 cb data =
     (if \<not> circular_buf_full cb
      then (0, advance_pointer (cb\<lparr>buffer := (buffer cb)[unat (head cb) := data]\<rparr>))
      else (-1, cb))"

text \<open>\<open>*data\<close> is passed in and out: it keeps its value when the buffer is empty.\<close>

definition circular_buf_get :: "circular_buf \<Rightarrow> u8 \<Rightarrow> int \<times> u8 \<times> circular_buf" where
  "circular_buf_get cb data =
     (if \<not> circular_buf_empty cb then (0, buffer cb ! unat (tail cb), retreat_pointer cb)
      else (-1, data, cb))"

lemmas circular_buf_defs = circular_buf_put_def circular_buf_put2_def circular_buf_get_def
  circular_buf_empty_def circular_buf_full_def circular_buf_size_def circular_buf_capacity_def
  circular_buf_init_def circular_buf_reset_def

section \<open>The bytes a buffer holds\<close>

definition cb_inv :: "circular_buf \<Rightarrow> bool" where
  "cb_inv cb \<longleftrightarrow> 0 < max_size cb \<and> head cb < max_size cb \<and> tail cb < max_size cb \<and>
     length (buffer cb) = unat (max_size cb) \<and> (full cb \<longrightarrow> head cb = tail cb)"

definition cb_items :: "circular_buf \<Rightarrow> u8 list" where
  "cb_items cb = map (\<lambda>i. buffer cb ! ((unat (tail cb) + i) mod unat (max_size cb)))
     [0..<unat (circular_buf_size cb)]"

lemma unat_succ_mod:
  assumes "(h :: u32) < n"
  shows "unat ((h + 1) mod n) = (unat h + 1) mod unat n"
proof -
  have "unat h + 1 < 2 ^ 32"
    using assms u32_bound [of n] by (simp add: word_less_nat_alt)
  then have "unat (h + 1) = unat h + 1"
    by (simp add: unat_plus_if')
  then show ?thesis
    by (simp add: unat_mod_distrib)
qed

lemma succ_mod_less: "(h :: u32) < n \<Longrightarrow> (h + 1) mod n < n"
  by (rule word_mod_less_divisor) (use word_neq_0_conv in fastforce)

lemma unat_size:
  assumes "cb_inv cb"
  shows "unat (circular_buf_size cb) =
    (if full cb then unat (max_size cb)
     else (unat (head cb) + unat (max_size cb) - unat (tail cb)) mod unat (max_size cb))"
proof -
  let ?h = "unat (head cb)" and ?t = "unat (tail cb)" and ?n = "unat (max_size cb)"
  have b: "?h < ?n" "?t < ?n"
    using assms by (simp_all add: cb_inv_def word_less_nat_alt)
  show ?thesis
  proof (cases "full cb")
    case False
    show ?thesis
    proof (cases "tail cb \<le> head cb")
      case True
      then have le: "?t \<le> ?h" by (simp add: word_le_nat_alt)
      then have "(?h + ?n - ?t) mod ?n = ?h - ?t"
        using b by (metis Nat.add_diff_assoc2 less_imp_diff_less mod_add_self2 mod_less)
      with True False le show ?thesis
        by (simp add: circular_buf_size_def unat_sub)
    next
      case gt: False
      then have lt: "?h < ?t" by (simp add: word_le_nat_alt)
      have eq: "max_size cb + head cb - tail cb = max_size cb - (tail cb - head cb)" by simp
      have d: "unat (tail cb - head cb) = ?t - ?h"
        using lt by (intro unat_sub) (simp add: word_le_nat_alt)
      have "unat (max_size cb - (tail cb - head cb)) = ?n - (?t - ?h)"
        using b lt d by (subst unat_sub) (simp_all add: word_le_nat_alt)
      moreover have "(?h + ?n - ?t) mod ?n = ?n - (?t - ?h)"
        using b lt by simp
      ultimately show ?thesis
        using gt False by (simp add: circular_buf_size_def eq)
    qed
  qed (simp add: circular_buf_size_def)
qed

lemma cb_nat:
  assumes "cb_inv cb"
  shows "unat (head cb) < unat (max_size cb)" and "unat (tail cb) < unat (max_size cb)"
    and "length (buffer cb) = unat (max_size cb)"
  using assms by (simp_all add: cb_inv_def word_less_nat_alt)

text \<open>The size is the number of steps from the tail to the head; a full buffer has gone round.\<close>

lemma size_unique:
  assumes "cb_inv cb" and "k \<le> unat (max_size cb)"
    and "unat (head cb) = (unat (tail cb) + k) mod unat (max_size cb)"
    and "k = unat (max_size cb) \<longleftrightarrow> full cb"
  shows "unat (circular_buf_size cb) = k"
proof (cases "full cb")
  case True
  with assms show ?thesis by (simp add: unat_size)
next
  case False
  let ?n = "unat (max_size cb)" and ?t = "unat (tail cb)"
  have "k < ?n" using assms(2,4) False by auto
  have "(unat (head cb) + ?n - ?t) mod ?n = ((?t + k) mod ?n + (?n - ?t)) mod ?n"
    using cb_nat [OF assms(1)] assms(3) by simp
  also have "\<dots> = (?t + k + (?n - ?t)) mod ?n"
    by (simp add: mod_add_left_eq)
  also have "?t + k + (?n - ?t) = k + ?n"
    using cb_nat [OF assms(1)] by simp
  also have "(k + ?n) mod ?n = k"
    using \<open>k < ?n\<close> by simp
  finally show ?thesis
    using False assms(1) by (simp add: unat_size)
qed

lemma size_head:
  assumes "cb_inv cb"
  shows "unat (circular_buf_size cb) \<le> unat (max_size cb)"
    and "unat (head cb) = (unat (tail cb) + unat (circular_buf_size cb)) mod unat (max_size cb)"
    and "unat (circular_buf_size cb) = unat (max_size cb) \<longleftrightarrow> full cb"
proof -
  let ?n = "unat (max_size cb)" and ?t = "unat (tail cb)" and ?h = "unat (head cb)"
  note b = cb_nat [OF assms]
  have pos: "0 < ?n" using b(1) by simp
  show "unat (circular_buf_size cb) \<le> ?n"
    using pos by (simp add: unat_size [OF assms] less_imp_le)
  show "?h = (?t + unat (circular_buf_size cb)) mod ?n"
  proof (cases "full cb")
    case True
    with assms b show ?thesis by (simp add: unat_size [OF assms] cb_inv_def)
  next
    case False
    have "(?t + (?h + ?n - ?t) mod ?n) mod ?n = (?t + (?h + ?n - ?t)) mod ?n"
      by (simp add: mod_add_right_eq)
    also have "?t + (?h + ?n - ?t) = ?h + ?n" using b by simp
    finally show ?thesis using False b by (simp add: unat_size [OF assms])
  qed
  have "(?h + ?n - ?t) mod ?n < ?n" using pos by (rule mod_less_divisor)
  then show "unat (circular_buf_size cb) = ?n \<longleftrightarrow> full cb"
    by (simp add: unat_size [OF assms])
qed

lemma length_cb_items [simp]: "length (cb_items cb) = unat (circular_buf_size cb)"
  by (simp add: cb_items_def)

lemma cb_empty_items:
  assumes "cb_inv cb"
  shows "circular_buf_empty cb \<longleftrightarrow> cb_items cb = []"
proof -
  note b = cb_nat [OF assms] and sh = size_head [OF assms]
  have "circular_buf_empty cb \<Longrightarrow> unat (circular_buf_size cb) = 0"
    using b by (intro size_unique [OF assms]) (simp_all add: circular_buf_empty_def)
  moreover have "circular_buf_empty cb" if "unat (circular_buf_size cb) = 0"
  proof -
    have "\<not> full cb" using that sh(3) b by simp
    moreover have "unat (head cb) = unat (tail cb)" using that sh(2) b by simp
    ultimately show ?thesis by (simp add: circular_buf_empty_def word_unat_eq_iff)
  qed
  moreover have "cb_items cb = [] \<longleftrightarrow> unat (circular_buf_size cb) = 0"
    using length_cb_items [of cb] by (metis length_0_conv)
  ultimately show ?thesis by (metis (full_types))
qed

lemma cb_full_items: "cb_inv cb \<Longrightarrow> circular_buf_full cb \<longleftrightarrow> length (cb_items cb) = unat (max_size cb)"
  using size_head [of cb] by (simp add: circular_buf_full_def)

lemma cb_inv_init [inv_intros]:
  "0 < sz \<Longrightarrow> length buf = unat sz \<Longrightarrow> cb_inv (circular_buf_init buf sz)"
  by (simp add: cb_inv_def circular_buf_init_def circular_buf_reset_def)

lemma cb_items_init: "cb_items (circular_buf_init buf sz) = []"
  by (simp add: cb_items_def circular_buf_size_def circular_buf_init_def circular_buf_reset_def)

subsection \<open>Putting\<close>

lemma cb_inv_put [inv_intros]: "cb_inv cb \<Longrightarrow> cb_inv (circular_buf_put cb d)"
  by (auto simp: cb_inv_def circular_buf_put_def advance_pointer_def Let_def succ_mod_less)

lemma max_size_put [simp]: "max_size (circular_buf_put cb d) = max_size cb"
  by (simp add: circular_buf_put_def advance_pointer_def Let_def)

lemma size_put_room:
  assumes "cb_inv cb" and "\<not> full cb"
  shows "unat (circular_buf_size (circular_buf_put cb d)) = Suc (unat (circular_buf_size cb))"
proof (rule size_unique [OF cb_inv_put [OF assms(1)]])
  let ?n = "unat (max_size cb)" and ?k = "unat (circular_buf_size cb)"
  note b = cb_nat [OF assms(1)] and sh = size_head [OF assms(1)]
  have lt: "head cb < max_size cb" using assms(1) by (simp add: cb_inv_def)
  have kn: "?k < ?n" using sh(1,3) assms(2) by (simp add: le_neq_implies_less)
  show "Suc ?k \<le> unat (max_size (circular_buf_put cb d))" using kn by simp
  have "head (circular_buf_put cb d) = (head cb + 1) mod max_size cb"
    using assms(2) by (simp add: circular_buf_put_def advance_pointer_def Let_def)
  then have "unat (head (circular_buf_put cb d)) = (unat (head cb) + 1) mod ?n"
    using unat_succ_mod [OF lt] by simp
  also have "\<dots> = (unat (tail cb) + Suc ?k) mod ?n"
    by (subst sh(2)) (simp add: mod_Suc_eq)
  finally have hd': "unat (head (circular_buf_put cb d)) = (unat (tail cb) + Suc ?k) mod ?n" .
  have tl': "tail (circular_buf_put cb d) = tail cb"
    using assms(2) by (simp add: circular_buf_put_def advance_pointer_def Let_def)
  show "unat (head (circular_buf_put cb d)) =
      (unat (tail (circular_buf_put cb d)) + Suc ?k) mod unat (max_size (circular_buf_put cb d))"
    using hd' tl' by simp
  have "full (circular_buf_put cb d) \<longleftrightarrow>
      head (circular_buf_put cb d) = tail (circular_buf_put cb d)"
    by (simp add: circular_buf_put_def advance_pointer_def Let_def)
  also have "\<dots> \<longleftrightarrow> (unat (tail cb) + Suc ?k) mod ?n = unat (tail cb) mod ?n"
    using hd' tl' b by (simp add: word_unat_eq_iff)
  also have "\<dots> \<longleftrightarrow> Suc ?k = ?n"
  proof
    assume eq: "(unat (tail cb) + Suc ?k) mod ?n = unat (tail cb) mod ?n"
    show "Suc ?k = ?n"
    proof (rule ccontr)
      assume "Suc ?k \<noteq> ?n"
      then have "Suc ?k < ?n" using kn by simp
      moreover have "(unat (tail cb) + Suc ?k) mod ?n = (unat (tail cb) + 0) mod ?n"
        using eq by simp
      ultimately have "Suc ?k = 0"
        using b(1) by (metis ring_index_inj gr_implies_not0 neq0_conv)
      then show False by simp
    qed
  qed simp
  finally show "Suc ?k = unat (max_size (circular_buf_put cb d)) \<longleftrightarrow> full (circular_buf_put cb d)"
    by simp
qed

lemma put_items_room:
  assumes "cb_inv cb" and "\<not> full cb"
  shows "cb_items (circular_buf_put cb d) = cb_items cb @ [d]"
proof -
  let ?n = "unat (max_size cb)" and ?k = "unat (circular_buf_size cb)" and ?t = "unat (tail cb)"
  note b = cb_nat [OF assms(1)] and sh = size_head [OF assms(1)]
  have kn: "?k < ?n" using sh(1,3) assms(2) by (simp add: le_neq_implies_less)
  have buf: "buffer (circular_buf_put cb d) = (buffer cb)[(?t + ?k) mod ?n := d]"
    and tl': "tail (circular_buf_put cb d) = tail cb"
    using assms(2) sh(2) by (simp_all add: circular_buf_put_def advance_pointer_def Let_def)
  have old: "(buffer cb)[(?t + ?k) mod ?n := d] ! ((?t + i) mod ?n) = buffer cb ! ((?t + i) mod ?n)"
    if "i < ?k" for i
  proof -
    have "(?t + i) mod ?n \<noteq> (?t + ?k) mod ?n"
      using that kn ring_index_inj [of ?t i ?n ?k] by auto
    then show ?thesis by (simp add: nth_list_update_neq)
  qed
  have new: "(buffer cb)[(?t + ?k) mod ?n := d] ! ((?t + ?k) mod ?n) = d"
    using b by (intro nth_list_update_eq) simp
  show ?thesis
    unfolding cb_items_def size_put_room [OF assms] buf tl' max_size_put
    by (simp add: old new cong: map_cong)
qed

text \<open>A full buffer loses its oldest byte.\<close>

lemma size_put_full:
  assumes "cb_inv cb" and "full cb"
  shows "circular_buf_size (circular_buf_put cb d) = max_size cb"
  using assms
  by (simp add: circular_buf_put_def advance_pointer_def Let_def circular_buf_size_def cb_inv_def)

lemma put_items_full:
  assumes "cb_inv cb" and "full cb"
  shows "cb_items (circular_buf_put cb d) = tl (cb_items cb) @ [d]"
proof -
  let ?n = "unat (max_size cb)" and ?t = "unat (tail cb)"
  note b = cb_nat [OF assms(1)]
  have ht: "head cb = tail cb" and lt: "tail cb < max_size cb"
    using assms by (simp_all add: cb_inv_def)
  have buf: "buffer (circular_buf_put cb d) = (buffer cb)[?t := d]"
    and tl': "tail (circular_buf_put cb d) = (tail cb + 1) mod max_size cb"
    using assms(2) ht by (simp_all add: circular_buf_put_def advance_pointer_def Let_def)
  obtain k where k: "?n = Suc k" using b(1) by (cases ?n) auto
  have idx: "((?t + 1) mod ?n + i) mod ?n = (?t + Suc i) mod ?n" for i
    by (simp add: mod_add_left_eq)
  have old: "(buffer cb)[?t := d] ! ((?t + Suc i) mod ?n) = buffer cb ! ((?t + Suc i) mod ?n)"
    if "i < k" for i
  proof -
    have "(?t + Suc i) mod ?n \<noteq> (?t + 0) mod ?n"
      using that k ring_index_inj [of ?t "Suc i" ?n 0] by auto
    then show ?thesis using b(2) by simp
  qed
  have new: "(buffer cb)[?t := d] ! ((?t + Suc k) mod ?n) = d"
    using b by (simp flip: k)
  have "cb_items (circular_buf_put cb d) =
      map (\<lambda>i. (buffer cb)[?t := d] ! ((?t + Suc i) mod ?n)) [0..<Suc k]"
    unfolding cb_items_def size_put_full [OF assms] buf tl' max_size_put unat_succ_mod [OF lt] idx
    by (simp only: k)
  also have "\<dots> = map (\<lambda>i. buffer cb ! ((?t + Suc i) mod ?n)) [0..<k] @ [d]"
    using old new by simp
  also have "map (\<lambda>i. buffer cb ! ((?t + Suc i) mod ?n)) [0..<k] =
      tl (map (\<lambda>i. buffer cb ! ((?t + i) mod ?n)) [0..<Suc k])"
    by (simp add: upt_conv_Cons map_Suc_upt [symmetric] comp_def del: upt_Suc)
  finally show ?thesis
    using assms(2) k by (simp add: cb_items_def circular_buf_size_def del: upt_Suc)
qed

lemma put2_eq:
  "circular_buf_put2 cb d = (if full cb then (-1, cb) else (0, circular_buf_put cb d))"
  by (simp add: circular_buf_put2_def circular_buf_put_def circular_buf_full_def)

subsection \<open>Getting\<close>

lemma cb_inv_get [inv_intros]: "cb_inv cb \<Longrightarrow> cb_inv (snd (snd (circular_buf_get cb d)))"
  by (auto simp: cb_inv_def circular_buf_get_def retreat_pointer_def succ_mod_less)

lemma max_size_get [simp]: "max_size (snd (snd (circular_buf_get cb d))) = max_size cb"
  by (simp add: circular_buf_get_def retreat_pointer_def)

lemma size_retreat:
  assumes "cb_inv cb" and "unat (circular_buf_size cb) = Suc k"
  shows "unat (circular_buf_size (retreat_pointer cb)) = k"
proof -
  let ?n = "unat (max_size cb)" and ?t = "unat (tail cb)"
  note b = cb_nat [OF assms(1)] and sh = size_head [OF assms(1)]
  have lt: "tail cb < max_size cb" using assms(1) by (simp add: cb_inv_def)
  have inv: "cb_inv (retreat_pointer cb)"
    using assms(1) by (simp add: cb_inv_def retreat_pointer_def succ_mod_less)
  have "((?t + 1) mod ?n + k) mod ?n = (?t + Suc k) mod ?n"
    by (simp add: mod_add_left_eq)
  then have "unat (head cb) = ((?t + 1) mod ?n + k) mod ?n"
    using sh(2) assms(2) by simp
  moreover have "k < ?n" using sh(1) assms(2) by simp
  ultimately show ?thesis
    using unat_succ_mod [OF lt]
    by (intro size_unique [OF inv]) (simp_all add: retreat_pointer_def)
qed

lemma get_items:
  assumes "cb_inv cb" and "cb_items cb \<noteq> []"
  shows "circular_buf_get cb d = (0, hd (cb_items cb), retreat_pointer cb)"
    and "cb_items (retreat_pointer cb) = tl (cb_items cb)"
proof -
  let ?n = "unat (max_size cb)" and ?t = "unat (tail cb)"
  note b = cb_nat [OF assms(1)]
  have lt: "tail cb < max_size cb" using assms(1) by (simp add: cb_inv_def)
  obtain k where k: "unat (circular_buf_size cb) = Suc k"
    using assms(2) by (cases "unat (circular_buf_size cb)") (auto simp: cb_items_def)
  have items: "cb_items cb = buffer cb ! ?t #
      map (\<lambda>i. buffer cb ! ((?t + Suc i) mod ?n)) [0..<k]"
    using b by (simp add: cb_items_def k upt_conv_Cons map_Suc_upt [symmetric] comp_def del: upt_Suc)
  show "circular_buf_get cb d = (0, hd (cb_items cb), retreat_pointer cb)"
    using cb_empty_items [OF assms(1)] assms(2) items by (simp add: circular_buf_get_def)
  have "((?t + 1) mod ?n + i) mod ?n = (?t + Suc i) mod ?n" for i
    by (simp add: mod_add_left_eq)
  moreover have "buffer (retreat_pointer cb) = buffer cb"
    "unat (tail (retreat_pointer cb)) = (?t + 1) mod ?n" "max_size (retreat_pointer cb) = max_size cb"
    using unat_succ_mod [OF lt] by (simp_all add: retreat_pointer_def)
  ultimately show "cb_items (retreat_pointer cb) = tl (cb_items cb)"
    unfolding items cb_items_def [of "retreat_pointer cb"] size_retreat [OF assms(1) k]
    by (simp only: list.sel)
qed

section \<open>The interface of a bounded queue of bytes\<close>

text \<open>The two loops in which clients use a queue: put a sequence of elements, get \<open>n\<close> elements.\<close>

fun put_list :: "('q \<Rightarrow> 'a \<Rightarrow> 'q option) \<Rightarrow> 'a list \<Rightarrow> 'q \<Rightarrow> 'q option" where
  "put_list put [] q = Some q"
| "put_list put (x # xs) q = Option.bind (put q x) (put_list put xs)"

fun get_list :: "('q \<Rightarrow> ('a \<times> 'q) option) \<Rightarrow> nat \<Rightarrow> 'q \<Rightarrow> ('a list \<times> 'q) option" where
  "get_list get 0 q = Some ([], q)"
| "get_list get (Suc n) q =
     Option.bind (get q) (\<lambda>(x, q1). map_option (\<lambda>(xs, q2). (x # xs, q2)) (get_list get n q1))"

locale bounded_queue =
  fixes items :: "'q \<Rightarrow> 'a list"
    and capacity :: "'q \<Rightarrow> nat"
    and invar :: "'q \<Rightarrow> bool"
    and put :: "'q \<Rightarrow> 'a \<Rightarrow> 'q option"
    and get :: "'q \<Rightarrow> ('a \<times> 'q) option"
  assumes items_bound: "invar q \<Longrightarrow> length (items q) \<le> capacity q"
    and put_room: "invar q \<Longrightarrow> length (items q) < capacity q \<Longrightarrow>
      \<exists>q'. put q x = Some q' \<and> invar q' \<and> items q' = items q @ [x] \<and> capacity q' = capacity q"
    and get_empty: "invar q \<Longrightarrow> items q = [] \<Longrightarrow> get q = None"
    and get_first: "invar q \<Longrightarrow> items q = x # xs \<Longrightarrow>
      \<exists>q'. get q = Some (x, q') \<and> invar q' \<and> items q' = xs \<and> capacity q' = capacity q"
begin

lemma put_list_room:
  "\<lbrakk>invar q; length (items q) + length xs \<le> capacity q\<rbrakk> \<Longrightarrow>
     \<exists>q'. put_list put xs q = Some q' \<and> invar q' \<and> items q' = items q @ xs \<and> capacity q' = capacity q"
proof (induction xs arbitrary: q)
  case (Cons x xs)
  then obtain q1 where q1: "put q x = Some q1" "invar q1" "items q1 = items q @ [x]"
    "capacity q1 = capacity q"
    using put_room [of q x] by auto
  moreover from q1 Cons.prems have "length (items q1) + length xs \<le> capacity q1" by simp
  ultimately show ?case
    using Cons.IH [of q1] by auto
qed simp

lemma get_list_items:
  "\<lbrakk>invar q; items q = xs @ ys\<rbrakk> \<Longrightarrow>
     \<exists>q'. get_list get (length xs) q = Some (xs, q') \<and> invar q' \<and> items q' = ys \<and> capacity q' = capacity q"
proof (induction xs arbitrary: q)
  case (Cons x xs)
  then obtain q1 where "get q = Some (x, q1)" "invar q1" "items q1 = xs @ ys" "capacity q1 = capacity q"
    using get_first [of q x "xs @ ys"] by auto
  with Cons.IH [of q1] show ?case by auto
qed simp

text \<open>What is put into a queue comes out of it, in order, once what was there before is out.\<close>

lemma put_list_get_list:
  assumes "invar q" and "length (items q) + length xs \<le> capacity q"
  shows "\<exists>q1 q2. put_list put xs q = Some q1 \<and>
           get_list get (length (items q) + length xs) q1 = Some (items q @ xs, q2) \<and> items q2 = []"
proof -
  obtain q1 where q1: "put_list put xs q = Some q1" "invar q1" "items q1 = items q @ xs"
    using put_list_room [OF assms] by blast
  then show ?thesis
    using get_list_items [of q1 "items q @ xs" "[]"] by auto
qed

end

definition cb_get :: "circular_buf \<Rightarrow> (u8 \<times> circular_buf) option" where
  "cb_get cb = (case circular_buf_get cb 0 of (r, d, cb') \<Rightarrow> if r = 0 then Some (d, cb') else None)"

interpretation cbq: bounded_queue cb_items "\<lambda>cb. unat (circular_buf_capacity cb)" cb_inv
  "\<lambda>cb d. Some (circular_buf_put cb d)" cb_get
proof
  fix q :: circular_buf and x :: u8 and xs :: "u8 list"
  assume inv: "cb_inv q"
  show "length (cb_items q) \<le> unat (circular_buf_capacity q)"
    using size_head(1) [OF inv] by (simp add: circular_buf_capacity_def)
  show "\<exists>q'. Some (circular_buf_put q x) = Some q' \<and> cb_inv q' \<and> cb_items q' = cb_items q @ [x] \<and>
      unat (circular_buf_capacity q') = unat (circular_buf_capacity q)"
    if "length (cb_items q) < unat (circular_buf_capacity q)"
  proof -
    have "\<not> full q"
      using that size_head(3) [OF inv] by (auto simp: circular_buf_capacity_def)
    then show ?thesis
      using inv put_items_room [OF inv] by (auto simp: circular_buf_capacity_def intro: cb_inv_put)
  qed
  show "cb_get q = None" if "cb_items q = []"
    using that cb_empty_items [OF inv] by (simp add: cb_get_def circular_buf_get_def)
  show "\<exists>q'. cb_get q = Some (x, q') \<and> cb_inv q' \<and> cb_items q' = xs \<and>
      unat (circular_buf_capacity q') = unat (circular_buf_capacity q)" if "cb_items q = x # xs"
    using that get_items(1) [OF inv, of 0] get_items(2) [OF inv] cb_inv_get [OF inv, of 0] max_size_get [of q 0]
    by (auto simp: cb_get_def circular_buf_capacity_def)
qed

section \<open>Properties\<close>

text \<open>C31: The circular buffer is a bounded queue of bytes. On a well-formed buffer \<open>circular_buf_put\<close>
  appends its byte, dropping the oldest one exactly when the buffer is full; \<open>circular_buf_put2\<close>
  appends it and returns 0, or leaves a full buffer alone and returns -1; \<open>circular_buf_get\<close> delivers
  and removes the oldest byte and returns 0, or returns -1 and delivers nothing when there is none.
  Every operation keeps the buffer well-formed.\<close>

theorem circular_buf_is_queue:
  assumes "cb_inv cb"
  shows "cb_items (circular_buf_put cb d) =
           (if circular_buf_full cb then tl (cb_items cb) else cb_items cb) @ [d] \<and>
         circular_buf_put2 cb d =
           (if circular_buf_full cb then (-1, cb) else (0, circular_buf_put cb d)) \<and>
         (case cb_items cb of
            [] \<Rightarrow> circular_buf_get cb e = (-1, e, cb)
          | x # xs \<Rightarrow> \<exists>cb'. circular_buf_get cb e = (0, x, cb') \<and> cb_items cb' = xs) \<and>
         cb_inv (circular_buf_put cb d) \<and> cb_inv (snd (snd (circular_buf_get cb e)))"
proof -
  have "case cb_items cb of [] \<Rightarrow> circular_buf_get cb e = (-1, e, cb)
        | x # xs \<Rightarrow> \<exists>cb'. circular_buf_get cb e = (0, x, cb') \<and> cb_items cb' = xs"
  proof (cases "cb_items cb")
    case Nil
    then show ?thesis
      using cb_empty_items [OF assms] by (simp add: circular_buf_get_def)
  next
    case (Cons x xs)
    then show ?thesis
      using get_items(1) [OF assms, of e] get_items(2) [OF assms] by auto
  qed
  then show ?thesis
    using assms put_items_room [OF assms] put_items_full [OF assms]
    by (simp add: put2_eq circular_buf_full_def cb_inv_put cb_inv_get)
qed

theorem circular_buf_is_queue_witness:
  "cb_inv (circular_buf_init [0, 0] 2) \<and>
   cb_items (circular_buf_put (circular_buf_init [0, 0] 2) 7) = [7]"
proof -
  have inv: "cb_inv (circular_buf_init [0, 0] 2)"
    by (rule cb_inv_init) simp_all
  have "\<not> circular_buf_full (circular_buf_init [0, 0] 2)"
    by (simp add: circular_buf_full_def circular_buf_init_def circular_buf_reset_def)
  with circular_buf_is_queue [OF inv, of 7] inv show ?thesis
    by (simp add: cb_items_init)
qed

text \<open>The reported size is the number of bytes held, it never exceeds the capacity, and the
  empty and full tests agree with it.\<close>

theorem circular_buf_size_correct:
  assumes "cb_inv cb"
  shows "unat (circular_buf_size cb) = length (cb_items cb) \<and>
         circular_buf_size cb \<le> circular_buf_capacity cb \<and>
         (circular_buf_empty cb \<longleftrightarrow> circular_buf_size cb = 0) \<and>
         (circular_buf_full cb \<longleftrightarrow> circular_buf_size cb = circular_buf_capacity cb)"
  using size_head [OF assms] cb_empty_items [OF assms]
  by (auto simp: circular_buf_capacity_def circular_buf_full_def word_le_nat_alt word_unat_eq_iff
      simp flip: length_0_conv)

theorem circular_buf_size_correct_witness:
  "cb_inv (circular_buf_init [0] 1) \<and> circular_buf_size (circular_buf_init [0] 1) \<le> 1"
proof -
  have inv: "cb_inv (circular_buf_init [0] 1)"
    by (rule cb_inv_init) simp_all
  from circular_buf_size_correct [OF this] inv show ?thesis
    by (simp add: circular_buf_capacity_def circular_buf_init_def circular_buf_reset_def)
qed

end
