(* ===== verification/Pipe.thy ===== *)
theory Pipe
  imports Files Circular_Buffer
begin

text \<open>
  Pipes, \<open>kernel/fs/pipefs/pipe.c\<close>, on the circular buffer, the semaphores and the descriptors.

  Every operation takes the mutex of the pipe; when it is not free the call ends as \<open>Blocked\<close>, and the definition with the
  suffix \<open>locked\<close> is what it does once it has the mutex. The lemmas show that a pipe is a queue of bytes that drops the oldest
  ones when more is written than fits, and that the descriptors of \<open>do_pipe\<close> can neither be read nor written.
\<close>

section \<open>The operations\<close>

definition PIPE_SIZE :: u32 where "PIPE_SIZE = 0x10000"

record pipe =
  pipe_buf :: circular_buf
  mutex :: semaphore
  pipe_files :: u32
  readers :: u32
  writers :: u32

text \<open>The loops over the bytes of the user's buffer; \<open>circular_buf_get\<close> leaves a byte alone when the pipe is empty.\<close>

primrec get_bytes :: "circular_buf \<Rightarrow> u8 list \<Rightarrow> u8 list \<times> circular_buf" where
  "get_bytes cb [] = ([], cb)"
| "get_bytes cb (d # buf) =
     (let (_, d', cb) = circular_buf_get cb d; (buf', cb) = get_bytes cb buf in (d' # buf', cb))"

primrec put_bytes :: "circular_buf \<Rightarrow> u8 list \<Rightarrow> circular_buf" where
  "put_bytes cb [] = cb"
| "put_bytes cb (d # buf) = put_bytes (circular_buf_put cb d) buf"

definition pipe_read_locked :: "u8 list \<Rightarrow> pipe \<Rightarrow> sched \<Rightarrow> (outcome \<times> u8 list \<times> pipe \<times> sched) option" where
  "pipe_read_locked buf p s =
     do {
       let (buf, cb) = get_bytes (pipe_buf p) buf;
       (sem, s) \<leftarrow> release_semaphore (mutex p) s;
       Some (Ret 0, buf, p\<lparr>pipe_buf := cb, mutex := sem\<rparr>, s)
     }"

definition pipe_read ::
  "(sched \<Rightarrow> sched option) \<Rightarrow> (sched \<Rightarrow> sched option) list \<Rightarrow> u32 \<Rightarrow> u8 list \<Rightarrow> pipe \<Rightarrow> sched
    \<Rightarrow> (outcome \<times> u8 list \<times> pipe \<times> sched) option" where
  "pipe_read hs irqs flags buf p s =
     (if flags AND O_WRONLY \<noteq> 0 then Some (Ret (- EINVAL), buf, p, s)
      else
        do {
          let free = (0 < sem_count (mutex p));
          (sem, s) \<leftarrow> acquire_semaphore hs irqs (mutex p) s;
          let p = p\<lparr>mutex := sem\<rparr>;
          (if free then pipe_read_locked buf p s else Some (Blocked, buf, p, s))
        })"

definition pipe_write_locked :: "u8 list \<Rightarrow> pipe \<Rightarrow> sched \<Rightarrow> (outcome \<times> pipe \<times> sched) option" where
  "pipe_write_locked buf p s =
     do {
       let cb = put_bytes (pipe_buf p) buf;
       (sem, s) \<leftarrow> release_semaphore (mutex p) s;
       Some (Ret 0, p\<lparr>pipe_buf := cb, mutex := sem\<rparr>, s)
     }"

definition pipe_write ::
  "(sched \<Rightarrow> sched option) \<Rightarrow> (sched \<Rightarrow> sched option) list \<Rightarrow> u32 \<Rightarrow> u8 list \<Rightarrow> pipe \<Rightarrow> sched
    \<Rightarrow> (outcome \<times> pipe \<times> sched) option" where
  "pipe_write hs irqs flags buf p s =
     (if flags AND O_RDONLY \<noteq> 0 then Some (Ret (- EINVAL), p, s)
      else
        do {
          let free = (0 < sem_count (mutex p));
          (sem, s) \<leftarrow> acquire_semaphore hs irqs (mutex p) s;
          let p = p\<lparr>mutex := sem\<rparr>;
          (if free then pipe_write_locked buf p s else Some (Blocked, p, s))
        })"

text \<open>\<open>assert_not_implemented\<close> only logs.\<close>

definition pipe_open_locked :: "u32 \<Rightarrow> pipe \<Rightarrow> sched \<Rightarrow> (outcome \<times> pipe \<times> sched) option" where
  "pipe_open_locked flags p s =
     do {
       let p = (if flags = O_RDONLY then p\<lparr>readers := readers p + 1\<rparr>
                else if flags = O_WRONLY then p\<lparr>writers := writers p + 1\<rparr>
                else p);
       (sem, s) \<leftarrow> release_semaphore (mutex p) s;
       Some (Ret 0, p\<lparr>mutex := sem\<rparr>, s)
     }"

definition pipe_open ::
  "(sched \<Rightarrow> sched option) \<Rightarrow> (sched \<Rightarrow> sched option) list \<Rightarrow> u32 \<Rightarrow> pipe \<Rightarrow> sched \<Rightarrow> (outcome \<times> pipe \<times> sched) option" where
  "pipe_open hs irqs flags p s =
     do {
       let free = (0 < sem_count (mutex p));
       (sem, s) \<leftarrow> acquire_semaphore hs irqs (mutex p) s;
       let p = p\<lparr>mutex := sem\<rparr>;
       (if free then pipe_open_locked flags p s else Some (Blocked, p, s))
     }"

text \<open>The result is \<open>i_pipe\<close> afterwards: null when the pipe has been freed.\<close>

definition pipe_release_locked :: "u32 \<Rightarrow> pipe \<Rightarrow> sched \<Rightarrow> (outcome \<times> pipe option \<times> sched) option" where
  "pipe_release_locked flags p s =
     do {
       let p = p\<lparr>pipe_files := pipe_files p - 1\<rparr>;
       let p = (if flags = O_RDONLY then p\<lparr>readers := readers p - 1\<rparr>
                else if flags = O_WRONLY then p\<lparr>writers := writers p - 1\<rparr>
                else p);
       (sem, s) \<leftarrow> release_semaphore (mutex p) s;
       let p = p\<lparr>mutex := sem\<rparr>;
       Some (Ret 0, if pipe_files p = 0 \<and> writers p = 0 \<and> readers p = 0 then None else Some p, s)
     }"

definition pipe_release ::
  "(sched \<Rightarrow> sched option) \<Rightarrow> (sched \<Rightarrow> sched option) list \<Rightarrow> u32 \<Rightarrow> pipe \<Rightarrow> sched
    \<Rightarrow> (outcome \<times> pipe option \<times> sched) option" where
  "pipe_release hs irqs flags p s =
     do {
       let free = (0 < sem_count (mutex p));
       (sem, s) \<leftarrow> acquire_semaphore hs irqs (mutex p) s;
       let p = p\<lparr>mutex := sem\<rparr>;
       (if free then pipe_release_locked flags p s else Some (Blocked, Some p, s))
     }"

definition alloc_pipe :: pipe where
  "alloc_pipe =
     \<lparr>pipe_buf = circular_buf_init (replicate (unat PIPE_SIZE) 0) PIPE_SIZE, mutex = sema_init 1, pipe_files = 0, readers = 0, writers = 0\<rparr>"

text \<open>The pipe of \<open>get_pipe_inode\<close>; the other fields of the inode are not modelled.\<close>

definition get_pipe_inode :: pipe where
  "get_pipe_inode = alloc_pipe\<lparr>readers := 1, writers := 1, pipe_files := 2\<rparr>"

text \<open>\<open>do_pipe\<close>, with the addresses of the two files and the number of the new inode.\<close>

definition do_pipe :: "'o \<Rightarrow> nat \<Rightarrow> nat \<Rightarrow> nat \<Rightarrow> nat \<Rightarrow> 'o files \<Rightarrow> (int \<times> int \<times> int \<times> 'o files) option" where
  "do_pipe pipe_fops p inode a1 a2 fs =
     do {
       let f1 = get_empty_filp\<lparr>f_flags := O_RDONLY, f_op := Some pipe_fops, f_inode := inode\<rparr>;
       let f2 = get_empty_filp\<lparr>f_flags := O_WRONLY, f_op := Some pipe_fops, f_inode := inode\<rparr>;
       let fs = fs\<lparr>filps := (filps fs)(a1 := Some f1, a2 := Some f2)\<rparr>;
       ufd1 \<leftarrow> find_unused_fd_slot p 0 fs;
       fs \<leftarrow> set_fd p ufd1 (Some a1) fs;
       ufd2 \<leftarrow> find_unused_fd_slot p 0 fs;
       fs \<leftarrow> set_fd p ufd2 (Some a2) fs;
       Some (0, ufd1, ufd2, fs)
     }"

section \<open>A pipe is a queue of bytes\<close>

definition last_n :: "nat \<Rightarrow> 'a list \<Rightarrow> 'a list" where
  "last_n n xs = drop (length xs - n) xs"

lemma last_n_fits: "length xs \<le> n \<Longrightarrow> last_n n xs = xs"
  by (simp add: last_n_def)

lemma last_n_append: "last_n n (last_n n xs @ ys) = last_n n (xs @ ys)"
proof (cases "length xs \<le> n")
  case False
  let ?k = "length xs - n"
  have "last_n n (xs @ ys) = drop (length xs + length ys - n) (xs @ ys)" by (simp add: last_n_def)
  also have "length xs + length ys - n = length ys + ?k" using False by simp
  also have "drop (length ys + ?k) (xs @ ys) = drop (length ys) (drop ?k (xs @ ys))" by (simp add: add.commute)
  also have "drop ?k (xs @ ys) = drop ?k xs @ ys" by simp
  also have "drop (length ys) (drop ?k xs @ ys) = last_n n (last_n n xs @ ys)" using False by (simp add: last_n_def)
  finally show ?thesis by simp
qed (simp add: last_n_fits)

lemma put_one:
  assumes "cb_inv cb"
  shows "cb_items (circular_buf_put cb d) = last_n (unat (max_size cb)) (cb_items cb @ [d])"
proof (cases "full cb")
  case True
  then have "length (cb_items cb) = unat (max_size cb)" using cb_full_items [OF assms] by (simp add: circular_buf_full_def)
  moreover have "0 < unat (max_size cb)" using assms by (simp add: cb_inv_def word_less_nat_alt)
  ultimately show ?thesis using put_items_full [OF assms True] by (cases "cb_items cb") (auto simp: last_n_def)
next
  case False
  have "length (cb_items cb) \<le> unat (max_size cb)" using cbq.items_bound [OF assms] by (simp add: circular_buf_capacity_def)
  moreover have "length (cb_items cb) \<noteq> unat (max_size cb)"
    using False cb_full_items [OF assms] by (simp add: circular_buf_full_def)
  ultimately show ?thesis using put_items_room [OF assms False] by (simp add: last_n_fits)
qed

lemma put_bytes_items:
  "cb_inv cb \<Longrightarrow> cb_inv (put_bytes cb ds) \<and> max_size (put_bytes cb ds) = max_size cb \<and>
   cb_items (put_bytes cb ds) = last_n (unat (max_size cb)) (cb_items cb @ ds)"
proof (induction ds arbitrary: cb)
  case Nil
  then show ?case using cbq.items_bound [OF Nil] by (simp add: last_n_fits circular_buf_capacity_def)
next
  case (Cons d ds)
  have inv: "cb_inv (circular_buf_put cb d)" using Cons.prems by (rule cb_inv_put)
  have "last_n (unat (max_size cb)) (cb_items (circular_buf_put cb d) @ ds) = last_n (unat (max_size cb)) (cb_items cb @ d # ds)"
    unfolding put_one [OF Cons.prems] last_n_append by simp
  then show ?case using Cons.IH [OF inv] by simp
qed

lemma get_bytes_items:
  "cb_inv cb \<Longrightarrow> \<exists>cb'. get_bytes cb buf = (take (length buf) (cb_items cb) @ drop (length (cb_items cb)) buf, cb') \<and>
     cb_inv cb' \<and> cb_items cb' = drop (length buf) (cb_items cb)"
proof (induction buf arbitrary: cb)
  case (Cons d buf)
  show ?case
  proof (cases "cb_items cb")
    case Nil
    then have "circular_buf_get cb d = (-1, d, cb)" using cb_empty_items [OF Cons.prems] by (simp add: circular_buf_get_def)
    then show ?thesis using Cons.IH [OF Cons.prems] Nil by auto
  next
    case (Cons x xs)
    have ne: "cb_items cb \<noteq> []" using Cons by simp
    have "cb_inv (retreat_pointer cb)" using cb_inv_get [OF Cons.prems, of d] get_items(1) [OF Cons.prems ne, of d] by simp
    from Cons.IH [OF this] show ?thesis using get_items [OF Cons.prems ne] Cons by auto
  qed
qed simp

lemma acquire_release:
  assumes "\<not> sem_lock sem" and "sem_count sem = 1" and "sem_capacity sem = 1" and "sem_wait_list sem = []" and "sched_ok s Q"
  shows "\<exists>sem1 s1 s2. acquire_semaphore hs irqs sem s = Some (sem1, s1) \<and> release_semaphore sem1 s1 = Some (sem, s2) \<and> sched_ok s2 Q"
  using assms acquire_free [OF assms(1), of hs irqs s]
  by (auto simp: release_semaphore_def spin_lock_def spin_unlock_def)

text \<open>A pipe that no thread is using.\<close>

definition pipe_idle :: "pipe \<Rightarrow> bool" where
  "pipe_idle p \<longleftrightarrow> cb_inv (pipe_buf p) \<and> \<not> sem_lock (mutex p) \<and> sem_count (mutex p) = 1 \<and> sem_capacity (mutex p) = 1 \<and>
     sem_wait_list (mutex p) = []"

lemma pipe_idle_new: "pipe_idle get_pipe_inode" "cb_items (pipe_buf get_pipe_inode) = []"
  using cb_inv_init [of PIPE_SIZE "replicate (unat PIPE_SIZE) 0"]
  by (simp_all add: pipe_idle_def get_pipe_inode_def alloc_pipe_def sema_init_def cb_items_init PIPE_SIZE_def)

section \<open>The descriptors of a pipe\<close>

text \<open>\<open>do_pipe\<close> takes the two lowest free descriptors and keeps the counts of files; neither descriptor can be read or
  written, because the mode of the files is never set.\<close>

lemma do_pipe_correct:
  assumes "files_ok fs" and "filps fs a1 = None" and "filps fs a2 = None" and "a1 \<noteq> a2"
    and "do_pipe pipe_fops p inode a1 a2 fs = Some (ret, i, j, fs')"
  shows "files_ok fs' \<and> 0 \<le> i \<and> i < j \<and> j < int MAX_FD \<and> fd fs' p ! nat i = Some a1 \<and> fd fs' p ! nat j = Some a2 \<and>
    (\<forall>f \<in> {a1, a2}. \<exists>file. filps fs' f = Some file \<and> f_mode file = 0)"
proof -
  define f1 where "f1 = get_empty_filp\<lparr>f_flags := O_RDONLY, f_op := Some pipe_fops, f_inode := inode\<rparr>"
  define f2 where "f2 = get_empty_filp\<lparr>f_flags := O_WRONLY, f_op := Some pipe_fops, f_inode := inode\<rparr>"
  define fs1 where "fs1 = fs\<lparr>filps := (filps fs)(a1 := Some f1), fd := (fd fs)(p := (fd fs p)[nat i := Some a1])\<rparr>"
  have find1: "find_unused_fd_slot p 0 fs = Some i" and i0: "0 \<le> i"
    and find2: "find_unused_fd_slot p 0 fs1 = Some j" and j0: "0 \<le> j" "j < int MAX_FD"
    and fs': "fs' = fs1\<lparr>filps := (filps fs)(a1 := Some f1, a2 := Some f2), fd := (fd fs1)(p := (fd fs1 p)[nat j := Some a2])\<rparr>"
    using assms(5) by (auto simp: do_pipe_def set_fd_def find_unused_fd_slot_def f1_def [symmetric] f2_def [symmetric] fs1_def
        bind_eq_Some_conv Let_def split: if_splits)
  note u1 = unused_slot [OF find1 i0] and u2 = unused_slot [OF find2 j0(1)]
  have len: "length (fd fs p) = MAX_FD" by (rule files_okD(1) [OF assms(1)])
  have ok1: "files_ok fs1"
    using u1 i0 by (intro files_ok_new [OF assms(1,2), of "nat i" p f1]) (auto simp: fs1_def f1_def get_empty_filp_def)
  have "files_ok fs'"
    using u2 j0 assms(3,4)
    by (intro files_ok_new [OF ok1, of a2 "nat j" p f2]) (auto simp: fs' fs1_def f2_def get_empty_filp_def)
  moreover have "fd fs1 p ! nat i = Some a1" using u1 i0 len by (auto simp: fs1_def nat_less_iff)
  then have "i \<noteq> j" "\<not> j < i" using u2 u1 i0 j0 len by (auto simp: fs1_def nth_list_update split: if_splits)
  moreover have "fd fs' p ! nat i = Some a1" "fd fs' p ! nat j = Some a2"
    using \<open>fd fs1 p ! nat i = Some a1\<close> \<open>i \<noteq> j\<close> i0 j0 len by (auto simp: fs' fs1_def nth_list_update)
  moreover have "\<forall>f \<in> {a1, a2}. \<exists>file. filps fs' f = Some file \<and> f_mode file = 0"
    using assms(4) by (auto simp: fs' f1_def f2_def get_empty_filp_def)
  ultimately show ?thesis using i0 j0 by auto
qed

lemma no_mode_no_access:
  assumes "0 \<le> i" and "i < int MAX_FD" and "fd fs p ! nat i = Some a" and "filps fs a = Some f" and "f_mode f = 0"
  shows "vfs_fread ops p i buf fs st = Some (- EINVAL, buf, st)" "vfs_fwrite ops p i buf fs st = Some (- EINVAL, st)"
  using assms by (simp_all add: vfs_fread_def vfs_fwrite_def fd_slot_def Let_def)

section \<open>The properties\<close>

text \<open>C36: A pipe that nobody else uses is a queue of bytes: a write appends its bytes and, when they do not fit, drops the oldest
  ones without an error; a read takes as many bytes as there are from the front, up to the size of the buffer, and leaves the
  rest of the buffer alone; both return 0, give the mutex back and keep the invariants of the buffer and the scheduler.\<close>

theorem pipe_write_read_correct:
  assumes "pipe_idle p" and "sched_ok s Q"
  shows "(\<exists>p' s'. pipe_write hs irqs flags bytes p s = Some (Ret 0, p', s') \<and> pipe_idle p' \<and> sched_ok s' Q \<and>
      cb_items (pipe_buf p') = last_n (unat (max_size (pipe_buf p))) (cb_items (pipe_buf p) @ bytes)) \<and>
    (if flags AND O_WRONLY = 0 then
       \<exists>p' s'. pipe_read hs irqs flags buf p s =
           Some (Ret 0, take (length buf) (cb_items (pipe_buf p)) @ drop (length (cb_items (pipe_buf p))) buf, p', s') \<and>
         pipe_idle p' \<and> sched_ok s' Q \<and> cb_items (pipe_buf p') = drop (length buf) (cb_items (pipe_buf p))
     else pipe_read hs irqs flags buf p s = Some (Ret (- 22), buf, p, s))"
proof -
  have inv: "cb_inv (pipe_buf p)" and sem: "\<not> sem_lock (mutex p)" "sem_count (mutex p) = 1" "sem_capacity (mutex p) = 1"
      "sem_wait_list (mutex p) = []"
    using assms(1) by (simp_all add: pipe_idle_def)
  from acquire_release [OF sem assms(2), of hs irqs] obtain sem1 s1 s2 where
    lock: "acquire_semaphore hs irqs (mutex p) s = Some (sem1, s1)" "release_semaphore sem1 s1 = Some (mutex p, s2)" "sched_ok s2 Q" by blast
  have "pipe_write hs irqs flags bytes p s = Some (Ret 0, p\<lparr>pipe_buf := put_bytes (pipe_buf p) bytes, mutex := mutex p\<rparr>, s2)"
    using lock(1,2) sem(2) by (simp add: pipe_write_def pipe_write_locked_def O_RDONLY_def)
  moreover obtain cb where cb: "get_bytes (pipe_buf p) buf =
      (take (length buf) (cb_items (pipe_buf p)) @ drop (length (cb_items (pipe_buf p))) buf, cb)"
      "cb_inv cb" "cb_items cb = drop (length buf) (cb_items (pipe_buf p))"
    using get_bytes_items [OF inv] by blast
  have "flags AND O_WRONLY = 0 \<Longrightarrow> pipe_read hs irqs flags buf p s =
      Some (Ret 0, take (length buf) (cb_items (pipe_buf p)) @ drop (length (cb_items (pipe_buf p))) buf,
        p\<lparr>pipe_buf := cb, mutex := mutex p\<rparr>, s2)"
    using lock(1,2) sem(2) by (simp add: pipe_read_def pipe_read_locked_def cb(1))
  ultimately show ?thesis
    using put_bytes_items [OF inv, of bytes] cb(2,3) lock(3) sem by (auto simp: pipe_idle_def pipe_read_def errno_defs)
qed

theorem pipe_write_read_correct_witness:
  "\<exists>p' s'. pipe_write Some [] 1 [1, 2, 3] get_pipe_inode sched_example = Some (Ret 0, p', s') \<and> cb_items (pipe_buf p') = [1, 2, 3]"
proof -
  have "unat (max_size (pipe_buf get_pipe_inode)) = 65536"
    by (simp add: get_pipe_inode_def alloc_pipe_def circular_buf_init_def circular_buf_reset_def PIPE_SIZE_def)
  then show ?thesis
    using pipe_write_read_correct [OF pipe_idle_new(1) sched_example_ok, of Some "[]" 1 "[1, 2, 3]" "[]"] pipe_idle_new(2)
    by (auto simp: last_n_def)
qed

text \<open>The two descriptors that \<open>do_pipe\<close> returns are the lowest free ones, and every read from and write to either of them fails
  with \<open>-EINVAL\<close>: the file modes that \<open>vfs_fread\<close> and \<open>vfs_fwrite\<close> test are never set.\<close>

theorem pipe_descriptors_unusable:
  assumes "files_ok fs" and "filps fs a1 = None" and "filps fs a2 = None" and "a1 \<noteq> a2"
    and "do_pipe pipe_fops p inode a1 a2 fs = Some (ret, i, j, fs')" and "k = i \<or> k = j"
  shows "files_ok fs' \<and> 0 \<le> i \<and> i < j \<and> j < int MAX_FD \<and>
    vfs_fread ops p k buf fs' st = Some (- 22, buf, st) \<and> vfs_fwrite ops p k buf fs' st = Some (- 22, st)"
proof -
  note d = do_pipe_correct [OF assms(1-5)]
  have "0 \<le> k" "k < int MAX_FD" using d assms(6) by auto
  moreover obtain a f where "fd fs' p ! nat k = Some a" "filps fs' a = Some f" "f_mode f = 0" using d assms(6) by blast
  ultimately show ?thesis
    using d no_mode_no_access [of k fs' p a f ops buf st] by (simp add: errno_defs)
qed

theorem pipe_descriptors_unusable_witness:
  "\<exists>ret i j fs'. do_pipe () 1 5 7 8 files_example = Some (ret, i, j, fs') \<and>
    vfs_fread ops_example 1 i [0] fs' () = Some (- 22, [0], ()) \<and> vfs_fwrite ops_example 1 j [1] fs' () = Some (- 22, ())"
proof -
  have "refs files_example a = {}" for a by (auto simp: files_example_def refs_def MAX_FD_def)
  then have ok: "files_ok files_example" "filps files_example a = None" for a
    by (simp_all add: files_example_def files_ok_def MAX_FD_def counted_def)
  obtain i j fs' where d: "do_pipe () 1 5 7 8 files_example = Some (0, i, j, fs')"
    by (simp add: do_pipe_def find_unused_fd_slot_def for_find_step set_fd_def MAX_FD_def files_example_def)
  show ?thesis
    using d pipe_descriptors_unusable [OF ok(1) ok(2) ok(2) _ d, of i ops_example "[0]" "()"]
      pipe_descriptors_unusable [OF ok(1) ok(2) ok(2) _ d, of j ops_example "[1]" "()"] by auto
qed

end
