(* ===== verification/Vsprintf_Spec.thy ===== *)
theory Vsprintf_Spec
  imports Vsprintf
begin

text \<open>
  What \<open>vsnprintf\<close> and \<open>number\<close> write: the complete output of a format as a list of bytes (\<open>format_out\<close>, \<open>number_out\<close>), and the
  proof that the memory receives as much of it as fits.
\<close>

section \<open>Division\<close>

lemma unat_split64: "unat (n :: u64) = unat (ucast (drop_bit 32 n) :: u32) * 2 ^ 32 + unat (ucast n :: u32)"
proof -
  have "unat n < 2 ^ 64" using unsigned_less [of n] by simp
  then have "unat n div 2 ^ 32 < 2 ^ 32" by (simp add: less_mult_imp_div_less)
  then have "unat (ucast (drop_bit 32 n) :: u32) = unat n div 2 ^ 32"
    by (simp add: unsigned_ucast_eq unsigned_drop_bit_eq drop_bit_eq_div take_bit_eq_mod unat_div_distrib)
  moreover have "unat (ucast n :: u32) = unat n mod 2 ^ 32" by (simp add: unsigned_ucast_eq take_bit_eq_mod)
  ultimately show ?thesis by simp
qed

lemma unat_ucast64: "unat (ucast (x :: u32) :: u64) = unat x"
proof -
  have "unat x < 2 ^ 64" using u32_bound [of x] by simp
  then show ?thesis by (simp add: unsigned_ucast_eq take_bit_eq_mod)
qed

lemma join64: "push_bit 32 (ucast (h :: u32)) OR ucast (l :: u32) = (of_nat (unat h * 2 ^ 32 + unat l) :: u64)"
proof -
  have "push_bit 32 (ucast h) OR ucast l = (push_bit 32 (ucast h) + ucast l :: u64)"
    by (rule disjunctive_add_eq_or [symmetric]) (auto simp: bit_eq_iff bit_simps dest: bit_imp_le_length)
  also have "\<dots> = of_nat (unat h * 2 ^ 32 + unat l)" by (simp add: push_bit_eq_mult)
  finally show ?thesis .
qed

lemma do_div_correct:
  assumes "base \<noteq> 0"
  shows "do_div n base = Some (n div ucast base, ucast (n mod ucast base))"
proof -
  define h where "h = (ucast (drop_bit 32 n) :: u32)"
  define l where "l = (ucast n :: u32)"
  have n: "unat n = unat h * 2 ^ 32 + unat l" unfolding h_def l_def by (rule unat_split64)
  have b: "0 < unat base" using assms by (simp add: unat_eq_0 neq0_conv [symmetric])
  have ub: "unat (ucast base :: u64) = unat base" by (rule unat_ucast64)
  define u where "u = (if h \<noteq> 0 then h mod base else h)"
  define h' where "h' = (if h \<noteq> 0 then h div base else h)"
  have u: "unat u = unat h mod unat base" by (simp add: u_def unat_mod_distrib)
  have h': "unat h' = unat h div unat base" by (simp add: h'_def unat_div_distrib)
  let ?q = "(unat u * 2 ^ 32 + unat l) div unat base"
  have "unat l < 2 ^ 32" using unsigned_less [of l] by simp
  moreover have "unat u < unat base" using b unfolding u by simp
  then have "(unat u + 1) * 2 ^ 32 \<le> unat base * 2 ^ 32" by (intro mult_right_mono) simp_all
  ultimately have "unat u * 2 ^ 32 + unat l < unat base * 2 ^ 32" by (simp add: algebra_simps)
  then have q: "?q < 2 ^ 32" using b by (simp add: less_mult_imp_div_less mult.commute)
  have split: "unat n = unat base * (unat h' * 2 ^ 32) + (unat u * 2 ^ 32 + unat l)"
  proof -
    have "unat h = unat base * unat h' + unat u" unfolding u h' by simp
    then show ?thesis unfolding n by (simp add: algebra_simps)
  qed
  have quot: "unat n div unat base = unat h' * 2 ^ 32 + ?q" unfolding split using b by (simp add: div_mult_self4)
  have rem: "unat n mod unat base = (unat u * 2 ^ 32 + unat l) mod unat base" unfolding split by simp
  have d: "divl u l base = Some (of_nat ?q, of_nat ((unat u * 2 ^ 32 + unat l) mod unat base))"
    using b q by (simp add: divl_def Let_def not_le)
  have "do_div n base = Some (push_bit 32 (ucast h') OR ucast (of_nat ?q :: u32), of_nat (unat n mod unat base))"
    using assms d unfolding rem do_div_def Let_def h_def [symmetric] l_def [symmetric] u_def [symmetric] h'_def [symmetric] by simp
  also have "push_bit 32 (ucast h') OR ucast (of_nat ?q :: u32) = (of_nat (unat h' * 2 ^ 32 + ?q) :: u64)"
    using q by (simp add: join64 unat_of_nat)
  also have "\<dots> = of_nat (unat (n div ucast base))" unfolding quot [symmetric] by (simp add: unat_div_distrib ub)
  also have "\<dots> = n div ucast base" by simp
  also have "(of_nat (unat n mod unat base) :: u32) = ucast (n mod ucast base)"
    by (simp add: unat_mod_distrib [symmetric] ub [symmetric])
  finally show ?thesis .
qed

section \<open>Digits\<close>

text \<open>The digits of a number, the lowest first.\<close>

function base_digits :: "nat \<Rightarrow> nat \<Rightarrow> nat list" where
  "base_digits b n = (if n = 0 \<or> b < 2 then [] else n mod b # base_digits b (n div b))"
  by pat_completeness auto
termination by (relation "measure snd") auto

declare base_digits.simps [simp del]

lemma base_digits_0 [simp]: "base_digits b 0 = []"
  by (simp add: base_digits.simps)

lemma base_digits_length: "n < b ^ k \<Longrightarrow> length (base_digits b n) \<le> k"
proof (induction k arbitrary: n)
  case (Suc k)
  show ?case
  proof (cases "n = 0 \<or> b < 2")
    case False
    then have "n div b < b ^ k" using Suc.prems by (simp add: less_mult_imp_div_less mult.commute)
    then show ?thesis using Suc.IH False by (simp add: base_digits.simps [of b n])
  qed (simp add: base_digits.simps [of b n])
qed simp

lemma base_digits_range: "d \<in> set (base_digits b n) \<Longrightarrow> d < b"
  by (induction b n rule: base_digits.induct) (subst (asm) (2) base_digits.simps, auto split: if_splits)

lemma base_digits_value: "2 \<le> b \<Longrightarrow> foldr (\<lambda>d v. v * b + d) (base_digits b n) 0 = n"
  by (induction b n rule: base_digits.induct) (subst base_digits.simps, simp)

lemma digits_loop_eq:
  assumes "2 \<le> b" "b \<le> 36"
  shows "unat num < 2 ^ k \<Longrightarrow> length tmp + k \<le> 66 \<Longrightarrow>
    digits_loop ds (of_nat b) num tmp = Some (tmp @ map (\<lambda>d. ds ! d) (base_digits b (unat num)))"
proof (induction k arbitrary: num tmp)
  case 0
  then have "num = 0" by (simp add: unat_eq_0)
  then show ?case by (simp add: digits_loop.simps)
next
  case (Suc k)
  show ?case
  proof (cases "num = 0")
    case True
    then show ?thesis by (simp add: digits_loop.simps)
  next
    case False
    have b32: "unat (of_nat b :: u32) = b" and b64: "unat (ucast (of_nat b :: u32) :: u64) = b"
      using assms by (simp_all add: unat_of_nat unat_ucast64)
    have bnz: "(of_nat b :: u32) \<noteq> 0" using b32 assms by auto
    let ?q = "num div ucast (of_nat b :: u32)" and ?r = "ucast (num mod ucast (of_nat b :: u32)) :: u32"
    have q: "unat ?q = unat num div b" by (simp add: unat_div_distrib b64)
    have m: "unat (num mod ucast (of_nat b :: u32)) = unat num mod b" by (simp add: unat_mod_distrib b64)
    have "unat num mod b < b" using assms by simp
    then have "unat num mod b < 4294967296" using assms by linarith
    then have r: "unat ?r = unat num mod b" unfolding unsigned_ucast_eq take_bit_eq_mod m by simp
    have "unat num div b \<le> unat num div 2" using assms by (intro div_le_mono2) simp_all
    then have lt: "unat ?q < 2 ^ k" using Suc.prems(1) unfolding q by simp
    have "unat num \<noteq> 0" using False by (simp add: unat_eq_0)
    then have "base_digits b (unat num) = unat num mod b # base_digits b (unat num div b)"
      using assms by (subst base_digits.simps) simp
    moreover have "digits_loop ds (of_nat b) num tmp = digits_loop ds (of_nat b) ?q (tmp @ [ds ! unat ?r])"
      using False Suc.prems(2) by (subst digits_loop.simps) (simp add: do_div_correct [OF bnz])
    ultimately show ?thesis using Suc.IH [OF lt, of "tmp @ [ds ! unat ?r]"] Suc.prems(2) q r by simp
  qed
qed

section \<open>The loops\<close>

lemma emits_append: "emits e (xs @ ys) out = emits e ys (emits e xs out)"
  by (induction xs arbitrary: out) auto

lemma emit_emits: "emit e c out = emits e [c] out"
  by simp

lemma pad_loop_eq: "pad_loop e c n out = (min n 0 - 1, emits e (replicate (nat n) c) out)"
proof (induction e c n out rule: pad_loop.induct)
  case (1 e c n out)
  show ?case
  proof (cases "0 < n")
    case True
    then have "nat n = Suc (nat (n - 1))" by simp
    then show ?thesis using 1 True by (subst pad_loop.simps) simp
  qed (simp add: pad_loop.simps)
qed

lemma pre_loop_eq: "pre_loop e c n out = (min (n - 1) 0, emits e (replicate (nat (n - 1)) c) out)"
proof (induction e c n out rule: pre_loop.induct)
  case (1 e c n out)
  show ?case
  proof (cases "0 < n - 1")
    case True
    then have "nat (n - 1) = Suc (nat (n - 1 - 1))" by simp
    then show ?thesis using 1 True by (subst pre_loop.simps) simp
  qed (simp add: pre_loop.simps)
qed

lemma len_loop_eq: "len_loop e c l n out = (min n l - 1, emits e (replicate (nat (n - l)) c) out)"
proof (induction e c l n out rule: len_loop.induct)
  case (1 e c l n out)
  show ?case
  proof (cases "l < n")
    case True
    then have "nat (n - l) = Suc (nat (n - 1 - l))" by simp
    then show ?thesis using 1 True by (subst len_loop.simps) simp
  qed (simp add: len_loop.simps)
qed

section \<open>The output of a number\<close>

text \<open>Sign, prefix and digits, padded to the width: with spaces behind them, with zeros between prefix and digits, or with spaces
  in front.\<close>

definition number_sign :: "u64 \<Rightarrow> u32 \<Rightarrow> u8 list" where
  "number_sign num type =
     (if type AND SIGN = 0 then []
      else if sint num < 0 then [ch CHR ''-'']
      else if type AND PLUS \<noteq> 0 then [ch CHR ''+'']
      else if type AND SPACE \<noteq> 0 then [ch CHR '' ''] else [])"

definition number_prefix :: "u8 list \<Rightarrow> int \<Rightarrow> u32 \<Rightarrow> u8 list" where
  "number_prefix digits base type =
     (if type AND SPECIAL = 0 then []
      else if base = 8 then [ch CHR ''0''] else if base = 16 then [ch CHR ''0'', digits ! 33] else [])"

definition number_digits :: "u8 list \<Rightarrow> int \<Rightarrow> u64 \<Rightarrow> u8 list" where
  "number_digits digits base num =
     (if num = 0 then [ch CHR ''0''] else rev (map (\<lambda>d. digits ! d) (base_digits (nat base) (unat num))))"

definition number_out :: "u64 \<Rightarrow> int \<Rightarrow> int \<Rightarrow> int \<Rightarrow> u32 \<Rightarrow> u8 list" where
  "number_out num base width precision type =
     (let digits = (if type AND LARGE \<noteq> 0 then large_digits else small_digits);
          sign = number_sign num type;
          prefix = number_prefix digits base type;
          ds = number_digits digits base (if type AND SIGN \<noteq> 0 \<and> sint num < 0 then - num else num);
          body = replicate (nat (precision - int (length ds))) (ch CHR ''0'') @ ds;
          w = nat (width - int (length sign + length prefix + length body))
      in if type AND LEFT \<noteq> 0 then sign @ prefix @ body @ replicate w (ch CHR '' '')
         else if type AND ZEROPAD \<noteq> 0 then sign @ prefix @ replicate w (ch CHR ''0'') @ body
         else replicate w (ch CHR '' '') @ sign @ prefix @ body)"

lemma flag_clear: "m AND ZEROPAD = 0 \<Longrightarrow> (type AND NOT ZEROPAD) AND m = type AND (m :: u32)"
  by (intro bit_eqI) (auto simp: bit_eq_iff bit_simps)

lemma zeropad_left: "type AND (ZEROPAD + LEFT) = 0 \<longleftrightarrow> type AND ZEROPAD = 0 \<and> type AND LEFT = 0"
proof -
  have "ZEROPAD + LEFT = ZEROPAD OR LEFT" by (simp add: ZEROPAD_def LEFT_def)
  then show ?thesis by (auto simp: bit_eq_iff bit_simps)
qed

lemmas type_flags = ZEROPAD_def SIGN_def PLUS_def SPACE_def LEFT_def SPECIAL_def LARGE_def

lemma cleared_flags:
  "(type AND NOT ZEROPAD) AND LARGE = type AND LARGE" "(type AND NOT ZEROPAD) AND LEFT = type AND LEFT"
  "(type AND NOT ZEROPAD) AND SIGN = type AND SIGN" "(type AND NOT ZEROPAD) AND PLUS = type AND PLUS"
  "(type AND NOT ZEROPAD) AND SPACE = type AND SPACE" "(type AND NOT ZEROPAD) AND SPECIAL = type AND SPECIAL"
  "(type AND NOT ZEROPAD) AND ZEROPAD = 0"
  by (simp_all add: flag_clear type_flags and.assoc)

lemma number_tmp:
  assumes "2 \<le> base" "base \<le> 36"
  shows "(if num = 0 then Some [ch CHR ''0''] else digits_loop digits (word_of_int base) num []) =
    Some (rev (number_digits digits base num))"
proof -
  have "unat num < 2 ^ 64" using unsigned_less [of num] by simp
  from digits_loop_eq [of "nat base" num 64 "[]", OF _ _ this] assms show ?thesis
    by (simp add: number_digits_def)
qed

lemma number_eq:
  assumes "2 \<le> base" "base \<le> 36"
  shows "number out e num base width precision type = Some (emits e (number_out num base width precision type) out)"
proof -
  define digits where "digits = (if type AND LARGE \<noteq> 0 then large_digits else small_digits)"
  define sg where "sg = number_sign num type"
  define pf where "pf = number_prefix digits base type"
  define num' where "num' = (if type AND SIGN \<noteq> 0 \<and> sint num < 0 then - num else num)"
  define ds where "ds = number_digits digits base num'"
  define type' where "type' = (if type AND LEFT \<noteq> 0 then type AND NOT ZEROPAD else type)"
  define p where "p = max (int (length ds)) precision"
  have type': "type' AND LARGE = type AND LARGE" "type' AND LEFT = type AND LEFT" "type' AND SIGN = type AND SIGN"
      "type' AND PLUS = type AND PLUS" "type' AND SPACE = type AND SPACE" "type' AND SPECIAL = type AND SPECIAL"
      "type' AND ZEROPAD = (if type AND LEFT \<noteq> 0 then 0 else type AND ZEROPAD)"
    by (simp_all add: type'_def cleared_flags)
  have sign: "(if type' AND SIGN \<noteq> 0 then
                    if sint num < 0 then (ch CHR ''-'', - num, width - 1)
                    else if type' AND PLUS \<noteq> 0 then (ch CHR ''+'', num, width - 1)
                    else if type' AND SPACE \<noteq> 0 then (ch CHR '' '', num, width - 1)
                    else (0, num, width)
                  else (0, num, width)) = (if sg = [] then 0 else hd sg, num', width - int (length sg))"
    by (simp add: type' sg_def num'_def number_sign_def)
  have sg: "(if (if sg = [] then 0 else hd sg) \<noteq> 0 then emit e (if sg = [] then 0 else hd sg) o1 else o1) = emits e sg o1" for o1
    by (simp add: sg_def number_sign_def)
  have pf: "(if type' AND SPECIAL \<noteq> 0 then
               if base = 8 then emit e (ch CHR ''0'') o1
               else if base = 16 then emit e (digits ! 33) (emit e (ch CHR ''0'') o1)
               else o1
             else o1) = emits e pf o1" for o1
    by (simp add: type' pf_def number_prefix_def)
  have w: "(if type' AND SPECIAL \<noteq> 0 then if base = 16 then x - 2 else if base = 8 then x - 1 else x else x) = x - int (length pf)" for x
    by (simp add: type' pf_def number_prefix_def)
  have tmp: "(if num' = 0 then Some [ch CHR ''0''] else digits_loop digits (word_of_int base) num' []) = Some (rev ds)"
    unfolding ds_def by (rule number_tmp [OF assms])
  have p: "(if int (length (rev ds)) > precision then int (length (rev ds)) else precision) = p"
    by (simp add: p_def)
  let ?w = "width - int (length sg) - int (length pf) - p"
  have "number out e num base width precision type = Some
     (let (size, o1) = (if type' AND (ZEROPAD + LEFT) = 0 then pad_loop e (ch CHR '' '') ?w out else (?w, out));
          o1 = emits e pf (emits e sg o1);
          (size, o1) = (if type' AND LEFT = 0
            then pad_loop e (if type' AND ZEROPAD \<noteq> 0 then ch CHR ''0'' else ch CHR '' '') size o1 else (size, o1));
          o1 = emits e ds (emits e (replicate (nat (p - int (length ds))) (ch CHR ''0'')) o1)
      in snd (pad_loop e (ch CHR '' '') size o1))"
    unfolding number_def Let_def digits_def [symmetric] type'_def [symmetric] sign case_prod_conv w tmp bind.bind_lunit p sg pf
    using assms by (simp add: len_loop_eq split_beta)
  also have "\<dots> = Some (emits e (number_out num base width precision type) out)"
    unfolding number_out_def Let_def digits_def [symmetric] sg_def [symmetric] pf_def [symmetric] num'_def [symmetric] ds_def [symmetric] zeropad_left
    by (simp add: pad_loop_eq type' emits_append p_def max_def algebra_simps split: if_splits)
  finally show ?thesis .
qed

section \<open>The output of a format\<close>

definition spaces :: "int \<Rightarrow> u8 list" where
  "spaces n = replicate (nat n) (ch CHR '' '')"

text \<open>The bytes a conversion puts out, the addresses it reads from memory, and the arguments that are left.\<close>

definition string_bytes :: "mem \<Rightarrow> u32 \<Rightarrow> nat \<Rightarrow> u8 list" where
  "string_bytes m s limit =
     (if s < PAGE_SIZE then take limit null_string
      else map (\<lambda>i. m (s + of_nat i)) [0..<simple_strnlen m s limit])"

definition string_reads :: "mem \<Rightarrow> u32 \<Rightarrow> nat \<Rightarrow> u32 list" where
  "string_reads m s limit =
     (if s < PAGE_SIZE then [] else map (\<lambda>i. s + of_nat i) [0..<Suc (simple_strnlen m s limit)])"

definition conv_out ::
  "mem \<Rightarrow> u8 \<Rightarrow> u32 \<Rightarrow> int \<Rightarrow> int \<Rightarrow> u8 \<Rightarrow> u32 list \<Rightarrow> (u8 list \<times> u32 list \<times> u32 list) option" where
  "conv_out m c flags width precision qual args =
     (if c = ch CHR ''c'' then
        do {
          (a, args) \<leftarrow> va_arg args;
          Some (if flags AND LEFT = 0 then spaces (width - 1) @ [ucast a] else ucast a # spaces (width - 1), [], args)
        }
      else if c = ch CHR ''s'' then
        do {
          (s, args) \<leftarrow> va_arg args;
          let limit = unat (word_of_int precision :: u32);
          let bs = string_bytes m s limit;
          let pad = spaces (width - int (length bs));
          Some (if flags AND LEFT = 0 then pad @ bs else bs @ pad, string_reads m s limit, args)
        }
      else if c = ch CHR ''p'' then
        do {
          (a, args) \<leftarrow> va_arg args;
          Some (if width = - 1 then number_out (ucast a) 16 8 precision (flags OR ZEROPAD)
                else number_out (ucast a) 16 width precision flags, [], args)
        }
      else if c = ch CHR ''n'' then None
      else if c = ch CHR ''%'' then Some ([ch CHR ''%''], [], args)
      else
        (case number_conv c flags of
           Some (base, flags) \<Rightarrow>
             map_option (\<lambda>(num, args). (number_out num base width precision flags, [], args)) (get_number qual flags args)
         | None \<Rightarrow> Some (ch CHR ''%'' # (if c \<noteq> 0 then [c] else []), [], args)))"

function format_out :: "mem \<Rightarrow> u8 list \<Rightarrow> u32 list \<Rightarrow> (u8 list \<times> u32 list) option" where
  "format_out m [] args = Some ([], [])"
| "format_out m (c # fmt) args =
     (if c \<noteq> ch CHR ''%'' then map_option (\<lambda>(cs, rs). (c # cs, rs)) (format_out m fmt args)
      else
        (case directive fmt args of
           None \<Rightarrow> None
         | Some (c, flags, width, precision, qual, fmt', args) \<Rightarrow>
             (case conv_out m c flags width precision qual args of
                None \<Rightarrow> None
              | Some (cs, rs, args) \<Rightarrow> map_option (\<lambda>(cs', rs'). (cs @ cs', rs @ rs')) (format_out m fmt' args))))"
  by pat_completeness auto
termination
proof (relation "measure (\<lambda>(m, fmt, args). length fmt)")
qed (auto dest: directive_length)

section \<open>What is written\<close>

lemma fst_emits: "fst (emits e cs out) = fst out + of_nat (length cs)"
  by (induction cs arbitrary: out) (auto simp: emit_def split: prod.splits)

lemma emits_outside: "unat (fst out) + length cs < 4294967296 \<Longrightarrow> a < fst out \<or> e < a \<Longrightarrow> snd (emits e cs out) a = snd out a"
proof (induction cs arbitrary: out)
  case (Cons c cs)
  obtain str m where out: "out = (str, m)" by fastforce
  have u: "unat (str + 1) = unat str + 1" using Cons.prems(1) out by (simp add: unat_plus_if')
  have "snd (emits e cs (emit e c out)) a = snd (emit e c out) a"
    using Cons.prems out u by (intro Cons.IH) (auto simp: emit_def word_less_nat_alt)
  also have "\<dots> = m a" using Cons.prems(2) out by (auto simp: emit_def)
  finally show ?case by (simp add: out)
qed simp

lemma emits_inside:
  "unat (fst out) + length cs < 4294967296 \<Longrightarrow> i < length cs \<Longrightarrow> fst out + of_nat i \<le> e \<Longrightarrow>
   snd (emits e cs out) (fst out + of_nat i) = cs ! i"
proof (induction cs arbitrary: out i)
  case (Cons c cs)
  obtain str m where out: "out = (str, m)" by fastforce
  have u: "unat (str + 1) = unat str + 1" using Cons.prems(1) out by (simp add: unat_plus_if')
  show ?case
  proof (cases i)
    case 0
    have "snd (emits e cs (emit e c out)) str = snd (emit e c out) str"
      using Cons.prems(1) out u by (intro emits_outside) (auto simp: emit_def word_less_nat_alt)
    then show ?thesis using 0 Cons.prems(3) out by (simp add: emit_def)
  next
    case (Suc j)
    have eq: "fst out + of_nat i = fst (emit e c out) + of_nat j" by (simp add: out emit_def Suc)
    have "snd (emits e cs (emit e c out)) (fst (emit e c out) + of_nat j) = cs ! j"
      using Cons.prems out u eq Suc by (intro Cons.IH) (auto simp: emit_def add.assoc)
    then show ?thesis unfolding eq by (simp add: Suc)
  qed
qed simp

text \<open>Behind \<open>n\<close> bytes of output nothing else happens than that the position moves on.\<close>

lemma emits_beyond:
  "unat (fst out) + length cs < 4294967296 \<Longrightarrow> i < length cs \<Longrightarrow> snd (emits e cs out) (fst out + of_nat i) =
    (if fst out + of_nat i \<le> e then cs ! i else snd out (fst out + of_nat i))"
  by (auto simp: emits_inside emits_outside not_le)

section \<open>Conversions\<close>

text \<open>The strings that are read lie outside the buffer, and the memory is as it was outside the buffer.\<close>

definition apart :: "u32 \<Rightarrow> u32 \<Rightarrow> mem \<Rightarrow> mem \<Rightarrow> u32 list \<Rightarrow> bool" where
  "apart buf e m m' rs \<longleftrightarrow> (\<forall>a \<in> set rs. (a < buf \<or> e < a) \<and> m' a = m a)"

lemma strnlen_cong:
  "(\<And>i. i \<le> simple_strnlen m s n \<Longrightarrow> m' (s + of_nat i) = m (s + of_nat i)) \<Longrightarrow> simple_strnlen m' s n = simple_strnlen m s n"
proof (induction n arbitrary: s)
  case (Suc n)
  have "m' s = m s" using Suc.prems [of 0] by simp
  moreover have "simple_strnlen m' (s + 1) n = simple_strnlen m (s + 1) n" if "m s \<noteq> 0"
  proof (rule Suc.IH)
    fix i assume "i \<le> simple_strnlen m (s + 1) n"
    then show "m' (s + 1 + of_nat i) = m (s + 1 + of_nat i)" using Suc.prems [of "Suc i"] that by (simp add: add.assoc)
  qed
  ultimately show ?case by simp
qed simp

lemma copy_loop_eq:
  assumes "unat (fst out) + n < 4294967296" and "buf \<le> fst out"
    and "\<And>i. i < n \<Longrightarrow> (s + of_nat i < buf \<or> e < s + of_nat i) \<and> snd out (s + of_nat i) = m (s + of_nat i)"
  shows "copy_loop e n s out = emits e (map (\<lambda>i. m (s + of_nat i)) [0..<n]) out"
  using assms
proof (induction n arbitrary: s out)
  case (Suc n)
  obtain str m' where out: "out = (str, m')" by fastforce
  have u: "unat (str + 1) = unat str + 1" using Suc.prems(1) out by (simp add: unat_plus_if')
  have head: "snd out s = m s" using Suc.prems(3) [of 0] by simp
  have "copy_loop e n (s + 1) (emit e (m s) out) = emits e (map (\<lambda>i. m (s + 1 + of_nat i)) [0..<n]) (emit e (m s) out)"
  proof (rule Suc.IH)
    show "unat (fst (emit e (m s) out)) + n < 4294967296" "buf \<le> fst (emit e (m s) out)"
      using Suc.prems(1,2) u by (simp_all add: out emit_def word_le_nat_alt)
    fix i assume "i < n"
    then have "(s + 1 + of_nat i < buf \<or> e < s + 1 + of_nat i) \<and> m' (s + 1 + of_nat i) = m (s + 1 + of_nat i)"
      using Suc.prems(3) [of "Suc i"] by (simp add: out add.assoc)
    moreover have "buf \<le> str" using Suc.prems(2) out by simp
    ultimately show "(s + 1 + of_nat i < buf \<or> e < s + 1 + of_nat i) \<and> snd (emit e (m s) out) (s + 1 + of_nat i) = m (s + 1 + of_nat i)"
      by (auto simp: out emit_def)
  qed
  moreover have "map (\<lambda>i. m (s + of_nat i)) [0..<Suc n] = m s # map (\<lambda>i. m (s + 1 + of_nat i)) [0..<n]"
    by (simp add: upt_conv_Cons map_Suc_upt [symmetric] add.assoc del: upt_Suc)
  ultimately show ?case using head by simp
qed simp

lemma fits_append: "unat (fst out) + (length cs + n) < 4294967296 \<Longrightarrow> unat (fst (emits e cs out)) = unat (fst out) + length cs"
  by (simp add: fst_emits unat_plus_if' unat_of_nat)

lemma emits_ge: "unat (fst out) + length cs < 4294967296 \<Longrightarrow> buf \<le> fst out \<Longrightarrow> buf \<le> fst (emits e cs out)"
  using fits_append [of out cs 0 e] by (simp add: word_le_nat_alt)

lemma apart_emits:
  assumes "unat (fst out) + length cs < 4294967296" and "buf \<le> fst out" and "apart buf e m (snd out) rs"
  shows "apart buf e m (snd (emits e cs out)) rs"
  unfolding apart_def
proof
  fix a assume "a \<in> set rs"
  then have a: "(a < buf \<or> e < a) \<and> snd out a = m a" using assms(3) by (simp add: apart_def)
  then have "a < fst out \<or> e < a" using assms(2) by auto
  then show "(a < buf \<or> e < a) \<and> snd (emits e cs out) a = m a" using emits_outside [OF assms(1)] a by simp
qed

lemma apart_append: "apart buf e m m' (rs @ rs') \<longleftrightarrow> apart buf e m m' rs \<and> apart buf e m m' rs'"
  by (auto simp: apart_def)

lemma convert_char_eq:
  "va_arg args = Some (a, args') \<Longrightarrow> convert_char e flags width args out =
     Some (args', emits e (if flags AND LEFT = 0 then spaces (width - 1) @ [ucast a] else ucast a # spaces (width - 1)) out)"
  by (auto simp: convert_char_def pre_loop_eq spaces_def emits_append min_def)

lemma string_len:
  assumes "apart buf e m m' (string_reads m s limit)"
  shows "(if s < PAGE_SIZE then min (length null_string) limit else simple_strnlen m' s limit) = length (string_bytes m s limit)"
proof (cases "s < PAGE_SIZE")
  case False
  have "simple_strnlen m' s limit = simple_strnlen m s limit"
    using assms False by (intro strnlen_cong) (auto simp: apart_def string_reads_def)
  then show ?thesis using False by (simp add: string_bytes_def)
qed (simp add: string_bytes_def)

lemma string_copy:
  assumes "apart buf e m (snd out) (string_reads m s limit)" and "buf \<le> fst out"
    and "unat (fst out) + length (string_bytes m s limit) < 4294967296"
  shows "(if s < PAGE_SIZE then emits e (take (length (string_bytes m s limit)) null_string) out
          else copy_loop e (length (string_bytes m s limit)) s out) = emits e (string_bytes m s limit) out"
proof (cases "s < PAGE_SIZE")
  case False
  have bs: "string_bytes m s limit = map (\<lambda>i. m (s + of_nat i)) [0..<simple_strnlen m s limit]"
    using False by (simp add: string_bytes_def)
  have "copy_loop e (simple_strnlen m s limit) s out = emits e (map (\<lambda>i. m (s + of_nat i)) [0..<simple_strnlen m s limit]) out"
  proof (rule copy_loop_eq)
    show "unat (fst out) + simple_strnlen m s limit < 4294967296" using assms(3) bs by simp
    fix i assume "i < simple_strnlen m s limit"
    then have "s + of_nat i \<in> set (string_reads m s limit)" using False by (auto simp: string_reads_def)
    then show "(s + of_nat i < buf \<or> e < s + of_nat i) \<and> snd out (s + of_nat i) = m (s + of_nat i)"
      using assms(1) by (simp add: apart_def)
  qed (rule assms(2))
  then show ?thesis using False bs by simp
qed (simp add: string_bytes_def min_def)

lemma convert_string_eq:
  assumes "va_arg args = Some (s, args')" and limit: "limit = unat (word_of_int precision :: u32)"
    and bs: "bs = string_bytes m s limit" and pad: "pad = spaces (width - int (length bs))"
    and fits: "unat (fst out) + (length bs + length pad) < 4294967296" and "buf \<le> fst out"
    and "apart buf e m (snd out) (string_reads m s limit)"
  shows "convert_string e flags width precision args out =
    Some (args', emits e (if flags AND LEFT = 0 then pad @ bs else bs @ pad) out)"
proof -
  define out' where "out' = (if flags AND LEFT = 0 then emits e pad out else out)"
  have "unat (fst out') + length bs < 4294967296" "buf \<le> fst out'" "apart buf e m (snd out') (string_reads m s limit)"
    using fits fits_append [of out pad "length bs" e] emits_ge [of out pad buf e] apart_emits [of out pad buf e m] assms(6,7)
    by (auto simp: out'_def ac_simps)
  note copy = string_copy [OF this(3,2) this(1) [unfolded bs], folded bs]
  note len = string_len [OF assms(7), folded bs]
  show ?thesis
    unfolding convert_string_def using assms(1) len copy
    by (auto simp: Let_def limit [symmetric] out'_def len_loop_eq pad spaces_def emits_append min_def split: if_splits)
qed

lemma convert_eq:
  assumes conv: "conv_out m c flags width precision qual args = Some (cs, rs, args')"
    and fits: "unat (fst out) + length cs < 4294967296" "buf \<le> fst out" and "apart buf e m (snd out) rs"
  shows "convert buf' e c flags width precision qual args out = Some (args', emits e cs out)"
proof -
  consider (c) "c = ch CHR ''c''" | (s) "c = ch CHR ''s''" | (p) "c = ch CHR ''p''"
    | (n) "c \<notin> {ch CHR ''c'', ch CHR ''s'', ch CHR ''p''}" by blast
  then show ?thesis
  proof cases
    case c
    then show ?thesis using conv by (auto simp: conv_out_def convert_def convert_char_eq bind_eq_Some_conv)
  next
    case s
    define limit where "limit = unat (word_of_int precision :: u32)"
    obtain a where a: "va_arg args = Some (a, args')" and rs: "rs = string_reads m a limit"
      and cs: "cs = (let bs = string_bytes m a limit; pad = spaces (width - int (length bs))
                     in if flags AND LEFT = 0 then pad @ bs else bs @ pad)"
      using conv s by (auto simp: conv_out_def bind_eq_Some_conv Let_def limit_def)
    have "convert_string e flags width precision args out = Some (args', emits e cs out)"
      using convert_string_eq [OF a limit_def refl refl, of out m width buf e flags] fits assms(4) cs rs
      by (auto simp: Let_def add.commute split: if_splits)
    then show ?thesis using s by (simp add: convert_def)
  next
    case p
    then show ?thesis using conv by (auto simp: conv_out_def convert_def number_eq bind_eq_Some_conv split: if_splits)
  next
    case n
    then show ?thesis using conv
      by (auto simp: conv_out_def convert_def number_eq number_conv_def bind_eq_Some_conv split: if_splits)
  qed
qed

lemma vsnprintf_loop_eq:
  assumes "format_out m fmt args = Some (cs, rs)"
    and "unat (fst out) + length cs < 4294967296" "buf \<le> fst out" "apart buf e m (snd out) rs"
  shows "vsnprintf_loop buf' e fmt args out = Some (emits e cs out)"
  using assms
proof (induction m fmt args arbitrary: cs rs out rule: format_out.induct)
  case (2 m c fmt args)
  show ?case
  proof (cases "c = ch CHR ''%''")
    case False
    then obtain cs' where cs: "cs = c # cs'" and out: "format_out m fmt args = Some (cs', rs)"
      using "2.prems"(1) by auto
    have "vsnprintf_loop buf' e fmt args (emits e [c] out) = Some (emits e cs' (emits e [c] out))"
    proof (rule "2.IH"(1) [OF False out])
      show "unat (fst (emits e [c] out)) + length cs' < 4294967296"
        using fits_append [of out "[c]" "length cs'" e] "2.prems"(2) cs by simp
      show "buf \<le> fst (emits e [c] out)" "apart buf e m (snd (emits e [c] out)) rs"
        using emits_ge [of out "[c]"] apart_emits [of out "[c]"] "2.prems"(2-4) cs by auto
    qed
    then show ?thesis using False cs by simp
  next
    case True
    then obtain k flags width precision qual fmt' args1 where d: "directive fmt args = Some (k, flags, width, precision, qual, fmt', args1)"
      using "2.prems"(1) by (auto split: option.splits)
    then obtain cs1 rs1 args2 where k: "conv_out m k flags width precision qual args1 = Some (cs1, rs1, args2)"
      using "2.prems"(1) True by (auto split: option.splits)
    then obtain cs2 rs2 where rest: "format_out m fmt' args2 = Some (cs2, rs2)" and cs: "cs = cs1 @ cs2" and rs: "rs = rs1 @ rs2"
      using "2.prems"(1) True d by auto
    have "convert buf' e k flags width precision qual args1 out = Some (args2, emits e cs1 out)"
      using "2.prems"(2-4) cs rs by (intro convert_eq [OF k]) (auto simp: apart_append)
    moreover have "vsnprintf_loop buf' e fmt' args2 (emits e cs1 out) = Some (emits e cs2 (emits e cs1 out))"
    proof (rule "2.IH"(2) [OF _ d refl refl refl refl refl refl k refl refl rest])
      show "unat (fst (emits e cs1 out)) + length cs2 < 4294967296"
        using fits_append [of out cs1 "length cs2" e] "2.prems"(2) cs by (simp add: add.assoc)
      show "buf \<le> fst (emits e cs1 out)" "apart buf e m (snd (emits e cs1 out)) rs2"
        using emits_ge [of out cs1] apart_emits [of out cs1] "2.prems"(2-4) cs rs by (auto simp: apart_append)
    qed (use True in simp)
    ultimately show ?thesis using True d cs by (simp add: emits_append)
  qed
qed simp

section \<open>The whole function\<close>

lemma buffer_end:
  assumes "(buf :: u32) \<noteq> 0" and "unat buf + unat sz \<le> 4294967296"
  shows "unat (buf + sz - 1) = unat buf + unat sz - 1" and "\<not> buf + sz - 1 < buf - 1"
proof -
  have "0 < unat buf" using assms(1) by (simp add: unat_gt_0)
  then show u: "unat (buf + sz - 1) = unat buf + unat sz - 1"
    using assms(2) by (simp add: add_diff_eq [symmetric] unat_plus_if' unat_sub_if' diff_add_eq [symmetric])
  have "unat (buf - 1) = unat buf - 1" using \<open>0 < unat buf\<close> by (simp add: unat_sub_if')
  then show "\<not> buf + sz - 1 < buf - 1" using u by (simp add: word_less_nat_alt)
qed

lemma offset_le_end:
  assumes "(buf :: u32) \<noteq> 0" and "unat buf + unat sz \<le> 4294967296" and "unat buf + i < 4294967296"
  shows "buf + of_nat i \<le> buf + sz - 1 \<longleftrightarrow> i < unat sz"
proof -
  have "unat (buf + of_nat i) = unat buf + i" using assms(3) by (simp add: unat_plus_if' unat_of_nat)
  moreover have "0 < unat buf" using assms(1) by (simp add: unat_gt_0)
  ultimately show ?thesis using buffer_end(1) [OF assms(1,2)] by (auto simp: word_le_nat_alt)
qed

definition terminated :: "u32 \<Rightarrow> u32 \<Rightarrow> nat \<Rightarrow> mem \<Rightarrow> mem" where
  "terminated buf sz n m = (if n < unat sz then m(buf + of_nat n := 0) else if 0 < sz then m(buf + sz - 1 := 0) else m)"

lemma vsnprintf_eq:
  assumes "format_out m fmt args = Some (cs, rs)" and "buf \<noteq> 0" and "sz < 0x80000000" and "unat buf + unat sz \<le> 4294967296"
    and "unat buf + length cs < 4294967296" and "length cs < 2147483648" and "\<forall>a \<in> set rs. a < buf \<or> unat buf + unat sz \<le> unat a"
  shows "vsnprintf buf sz fmt args m =
    Some (int (length cs), terminated buf sz (length cs) (snd (emits (buf + sz - 1) cs (buf, m))))"
proof -
  define e where "e = buf + sz - 1"
  have pos: "\<not> sint sz < 0" using sint_small [OF assms(3)] by simp
  have "unat e < unat a" if "unat buf + unat sz \<le> unat a" for a
    using that assms(2) buffer_end(1) [OF assms(2,4)] unat_gt_0 [of buf] by (simp add: e_def)
  then have "apart buf e m m rs" using assms(7) by (auto simp: apart_def word_less_nat_alt)
  then have "vsnprintf_loop buf e fmt args (buf, m) = Some (emits e cs (buf, m))"
    using assms(5) by (intro vsnprintf_loop_eq [OF assms(1), of _ buf]) auto
  moreover have "fst (emits e cs (buf, m)) = buf + of_nat (length cs)"
    using fst_emits [of e cs "(buf, m)"] by simp
  moreover have "sint (word_of_nat (length cs) :: u32) = int (length cs)"
  proof -
    have "take_bit 32 (length cs) = length cs" using assms(6) by (simp add: take_bit_nat_eq_self_iff)
    then show ?thesis using assms(6) sint_small [of "word_of_nat (length cs)"] by (simp add: word_less_nat_alt unsigned_of_nat)
  qed
  ultimately show ?thesis
    using pos buffer_end(2) [OF assms(2,4)] offset_le_end [OF assms(2,4,5)]
    unfolding vsnprintf_def terminated_def e_def [symmetric] by (simp add: Let_def split_beta)
qed

lemma vsnprintf_written:
  assumes "format_out m fmt args = Some (cs, rs)" and "buf \<noteq> 0" and "sz < 0x80000000" and "unat buf + unat sz \<le> 4294967296"
    and "unat buf + length cs < 4294967296" and "length cs < 2147483648" and "\<forall>a \<in> set rs. a < buf \<or> unat buf + unat sz \<le> unat a"
  shows "\<exists>m'. vsnprintf buf sz fmt args m = Some (int (length cs), m') \<and>
    (\<forall>i < min (length cs) (unat sz - 1). m' (buf + of_nat i) = cs ! i) \<and>
    (0 < sz \<longrightarrow> m' (buf + of_nat (min (length cs) (unat sz - 1))) = 0) \<and>
    (\<forall>a. unat a < unat buf \<or> unat buf + unat sz \<le> unat a \<longrightarrow> m' a = m a)"
proof (intro exI conjI allI impI)
  define e M where "e = buf + sz - 1" and "M = snd (emits e cs (buf, m))"
  have u: "unat (buf + of_nat i) = unat buf + i" if "i \<le> length cs" for i
    using that assms(5) by (simp add: unat_plus_if' unat_of_nat)
  have ue: "unat e = unat buf + unat sz - 1" using buffer_end(1) [OF assms(2,4)] by (simp add: e_def)
  have ub: "0 < unat buf" using assms(2) by (simp add: unat_gt_0)
  show "vsnprintf buf sz fmt args m = Some (int (length cs), terminated buf sz (length cs) M)"
    unfolding M_def e_def by (rule vsnprintf_eq [OF assms])
  have tm: "terminated buf sz (length cs) M = (if 0 < sz then M(buf + of_nat (min (length cs) (unat sz - 1)) := 0) else M)"
  proof (cases "length cs < unat sz")
    case True
    then have "min (length cs) (unat sz - 1) = length cs" by simp
    then show ?thesis using True by (auto simp: terminated_def word_gt_0)
  next
    case False
    then have "min (length cs) (unat sz - 1) = unat sz - 1" by simp
    moreover have "buf + of_nat (unat sz - 1) = buf + sz - 1" if "0 < sz"
      using that by (simp add: of_nat_diff Suc_le_eq unat_gt_0 word_gt_0)
    ultimately show ?thesis using False by (auto simp: terminated_def add_diff_eq)
  qed
  show "terminated buf sz (length cs) M (buf + of_nat (min (length cs) (unat sz - 1))) = 0" if "0 < sz"
    using that by (simp add: tm)
  show "terminated buf sz (length cs) M (buf + of_nat i) = cs ! i" if i: "i < min (length cs) (unat sz - 1)" for i
  proof -
    have "M (buf + of_nat i) = cs ! i"
    proof -
      have "i < unat sz" "unat buf + i < 4294967296" "i < length cs" using i assms(5) by auto
      then show ?thesis
        using emits_inside [of "(buf, m)" cs i e] assms(5) offset_le_end [OF assms(2,4), of i] by (simp add: M_def e_def)
    qed
    moreover have "buf + of_nat i \<noteq> buf + of_nat (min (length cs) (unat sz - 1))"
      using u [of i] u [of "min (length cs) (unat sz - 1)"] i by (auto dest: arg_cong [of _ _ unat])
    ultimately show ?thesis by (simp add: tm)
  qed
  show "terminated buf sz (length cs) M a = m a" if a: "unat a < unat buf \<or> unat buf + unat sz \<le> unat a" for a
  proof -
    have "M a = m a"
      using emits_outside [of "(buf, m)" cs a e] a assms(5) ue ub by (auto simp: M_def word_less_nat_alt)
    moreover have "a \<noteq> buf + of_nat (min (length cs) (unat sz - 1))" if "0 < sz"
      using a u [of "min (length cs) (unat sz - 1)"] that by (auto simp: word_gt_0 unat_gt_0 [symmetric])
    ultimately show ?thesis by (simp add: tm)
  qed
qed

text \<open>C2: \<open>vsnprintf\<close> never writes outside the \<open>size\<close> bytes of its buffer, whatever the format asks for: for a format whose complete output is
  \<open>cs\<close> (the literal bytes, and for every conversion the sign, prefix, digits, string and padding that its flags, width and precision
  ask for), it returns the length of \<open>cs\<close>, the buffer begins with the first \<open>size - 1\<close> bytes of \<open>cs\<close> followed by the terminating
  zero, and the rest of the memory is as before.  With a size of zero it writes nothing.\<close>

theorem vsnprintf_correct:
  assumes "format_out m fmt args = Some (cs, rs)" and "buf \<noteq> 0" and "sz < 0x80000000" and "unat buf + unat sz \<le> 4294967296"
    and "unat buf + length cs < 4294967296" and "length cs < 2147483648" and "\<forall>a \<in> set rs. a < buf \<or> unat buf + unat sz \<le> unat a"
  shows "\<exists>m'. vsnprintf buf sz fmt args m = Some (int (length cs), m') \<and>
    (\<forall>i < min (length cs) (unat sz - 1). m' (buf + of_nat i) = cs ! i) \<and>
    (0 < sz \<longrightarrow> m' (buf + of_nat (min (length cs) (unat sz - 1))) = 0) \<and>
    (\<forall>a. unat a < unat buf \<or> unat buf + unat sz \<le> unat a \<longrightarrow> m' a = m a)"
  by (rule vsnprintf_written [OF assms])

text \<open>\<open>snprintf(0x10000, 8, "%05d|%.2s", -42, "hi")\<close> returns 8 and leaves \<open>-0042|h\<close> and the terminator.\<close>

definition sample_mem :: mem where
  "sample_mem a = (if a = 0x2000 then ch CHR ''h'' else if a = 0x2001 then ch CHR ''i'' else 0)"

lemma sample_format:
  "format_out sample_mem (map ch ''%05d|%.2s'') [- 42, 0x2000] = Some (map ch ''-0042|hi'', [0x2000, 0x2001, 0x2002])"
  by code_simp

theorem vsnprintf_correct_witness:
  "\<exists>m'. vsnprintf 0x10000 8 (map ch ''%05d|%.2s'') [- 42, 0x2000] sample_mem = Some (8, m') \<and>
    (\<forall>i < 7. m' (0x10000 + of_nat i) = map ch ''-0042|h'' ! i) \<and> m' 0x10007 = 0"
proof -
  have "\<exists>m'. vsnprintf 0x10000 8 (map ch ''%05d|%.2s'') [- 42, 0x2000] sample_mem = Some (int (length (map ch ''-0042|hi'')), m') \<and>
    (\<forall>i < min (length (map ch ''-0042|hi'')) (unat (8 :: u32) - 1). m' (0x10000 + of_nat i) = map ch ''-0042|hi'' ! i) \<and>
    ((0 :: u32) < 8 \<longrightarrow> m' (0x10000 + of_nat (min (length (map ch ''-0042|hi'')) (unat (8 :: u32) - 1))) = 0) \<and>
    (\<forall>a. unat a < unat (0x10000 :: u32) \<or> unat (0x10000 :: u32) + unat (8 :: u32) \<le> unat a \<longrightarrow> m' a = sample_mem a)"
    by (rule vsnprintf_correct [OF sample_format]) simp_all
  then obtain m' where "vsnprintf 0x10000 8 (map ch ''%05d|%.2s'') [- 42, 0x2000] sample_mem = Some (8, m')"
    "\<forall>i < 7. m' (0x10000 + of_nat i) = map ch ''-0042|hi'' ! i" "m' 0x10007 = 0" by auto
  moreover have "map ch ''-0042|hi'' ! i = map ch ''-0042|h'' ! i" if "i < 7" for i
    using that by (auto simp: less_Suc_eq numeral_eq_Suc)
  ultimately show ?thesis by metis
qed

end
