(* ===== verification/Vsscanf.thy ===== *)
theory Vsscanf
  imports Vsprintf_Spec
begin

text \<open>
  Formatted input: the number parsers and \<open>vsscanf\<close> of \<open>kernel/utils/vsprintf.c\<close>.

  The string that is scanned and the format are the lists of their bytes, at whose end the terminator is read; the arguments are
  pointers, through which the memory is written. That none of them points into the string or the format is built into this form.

  The lemmas show that the parsers read back the digits that \<open>number\<close> writes, in every base up to 16, and that \<open>sscanf\<close> with
  \<open>%d\<close> stores the integer that \<open>snprintf\<close> with \<open>%d\<close> printed.
\<close>

section \<open>Numbers\<close>

text \<open>The value of a hexadecimal digit.\<close>

definition digit_value :: "u8 \<Rightarrow> u8" where
  "digit_value c = (if isdigit c then c - ch CHR ''0'' else toupper c - ch CHR ''A'' + 10)"

text \<open>The base and where the digits begin.\<close>

definition number_base :: "u8 list \<Rightarrow> u32 \<Rightarrow> u32 \<times> u8 list" where
  "number_base cp base =
     (if base = 0 then
        if peek cp = ch CHR ''0'' then
          if toupper (peek (tl cp)) = ch CHR ''X'' \<and> isxdigit (peek (tl (tl cp))) then (16, tl (tl cp)) else (8, tl cp)
        else (10, cp)
      else if base = 16 \<and> peek cp = ch CHR ''0'' \<and> toupper (peek (tl cp)) = ch CHR ''X'' then (16, tl (tl cp))
      else (base, cp))"

fun strtoul_loop :: "u32 \<Rightarrow> 'a :: len word \<Rightarrow> u8 list \<Rightarrow> 'a word \<times> u8 list" where
  "strtoul_loop base res [] = (res, [])"
| "strtoul_loop base res (c # cp) =
     (if isxdigit c \<and> ucast (digit_value c) < base then strtoul_loop base (res * ucast base + ucast (digit_value c)) cp
      else (res, c # cp))"

definition simple_strtoul :: "u8 list \<Rightarrow> u32 \<Rightarrow> u32 \<times> u8 list" where
  "simple_strtoul cp base = (case number_base cp base of (base, cp) \<Rightarrow> strtoul_loop base 0 cp)"

definition simple_strtol :: "u8 list \<Rightarrow> u32 \<Rightarrow> u32 \<times> u8 list" where
  "simple_strtol cp base =
     (if peek cp = ch CHR ''-'' then case simple_strtoul (tl cp) base of (v, next) \<Rightarrow> (- v, next) else simple_strtoul cp base)"

definition simple_strtoull :: "u8 list \<Rightarrow> u32 \<Rightarrow> u64 \<times> u8 list" where
  "simple_strtoull cp base = (case number_base cp base of (base, cp) \<Rightarrow> strtoul_loop base 0 cp)"

definition simple_strtoll :: "u8 list \<Rightarrow> u32 \<Rightarrow> u64 \<times> u8 list" where
  "simple_strtoll cp base =
     (if peek cp = ch CHR ''-'' then case simple_strtoull (tl cp) base of (v, next) \<Rightarrow> (- v, next) else simple_strtoull cp base)"

section \<open>Conversions\<close>

definition scan_width :: "u8 list \<Rightarrow> int \<times> u8 list" where
  "scan_width fmt = (if isdigit (peek fmt) then skip_atoi fmt 0 else (- 1, fmt))"

text \<open>The qualifier, 0 for none and \<open>H\<close> for \<open>hh\<close>.\<close>

definition scan_qualifier :: "u8 list \<Rightarrow> u8 \<times> u8 list" where
  "scan_qualifier fmt =
     (let q = peek fmt
      in if q \<in> {ch CHR ''h'', ch CHR ''l'', ch CHR ''L'', ch CHR ''Z'', ch CHR ''z''} then
           if q = peek (tl fmt) \<and> q = ch CHR ''h'' then (ch CHR ''H'', tl (tl fmt))
           else if q = peek (tl fmt) \<and> q = ch CHR ''l'' then (ch CHR ''L'', tl (tl fmt))
           else (q, tl fmt)
         else (0, fmt))"

text \<open>The loops of \<open>%c\<close> and \<open>%s\<close>.\<close>

fun scan_chars :: "int \<Rightarrow> u32 \<Rightarrow> u8 list \<Rightarrow> mem \<Rightarrow> u8 list \<times> mem" where
  "scan_chars width s [] m = ([], m)"
| "scan_chars width s (c # str) m =
     (if 0 < width - 1 \<and> peek str \<noteq> 0 then scan_chars (width - 1) (s + 1) str (m(s := c)) else (str, m(s := c)))"

fun scan_word :: "int \<Rightarrow> u32 \<Rightarrow> u8 list \<Rightarrow> mem \<Rightarrow> u8 list \<times> mem" where
  "scan_word width s [] m = ([], m(s := 0))"
| "scan_word width s (c # str) m =
     (if c \<noteq> 0 \<and> \<not> isspace c \<and> width \<noteq> 0 then scan_word (width - 1) (s + 1) str (m(s := c)) else (c # str, m(s := 0)))"

text \<open>Base and sign of the integer conversions.\<close>

definition scan_base :: "u8 \<Rightarrow> (u32 \<times> bool) option" where
  "scan_base c =
     (if c = ch CHR ''o'' then Some (8, False)
      else if c = ch CHR ''x'' \<or> c = ch CHR ''X'' then Some (16, False)
      else if c = ch CHR ''i'' then Some (0, True)
      else if c = ch CHR ''d'' then Some (10, True)
      else if c = ch CHR ''u'' then Some (10, False)
      else None)"

text \<open>Whether a number of the base begins here.\<close>

definition scan_digit :: "u32 \<Rightarrow> bool \<Rightarrow> u8 list \<Rightarrow> bool" where
  "scan_digit base is_sign str =
     (let digit = (if is_sign \<and> peek str = ch CHR ''-'' then peek (tl str) else peek str)
      in \<not> (digit = 0 \<or> base = 16 \<and> \<not> isxdigit digit \<or> base = 10 \<and> \<not> isdigit digit \<or>
            base = 8 \<and> (\<not> isdigit digit \<or> digit > ch CHR ''7'') \<or> base = 0 \<and> \<not> isdigit digit))"

definition scan_number :: "u8 \<Rightarrow> bool \<Rightarrow> u32 \<Rightarrow> u32 \<Rightarrow> u8 list \<Rightarrow> mem \<Rightarrow> u8 list \<times> mem" where
  "scan_number qual is_sign base p str m =
     (if qual = ch CHR ''L'' then
        let (v, next) = (if is_sign then simple_strtoll str base else simple_strtoull str base)
        in (next, st32 (p + 4) (ucast (drop_bit 32 v)) (st32 p (ucast v) m))
      else
        let (v, next) =
              (if is_sign \<and> qual \<noteq> ch CHR ''Z'' \<and> qual \<noteq> ch CHR ''z'' then simple_strtol str base else simple_strtoul str base)
        in (next,
            if qual = ch CHR ''H'' then m(p := ucast v)
            else if qual = ch CHR ''h'' then m(p := ucast v, p + 1 := ucast (drop_bit 8 v))
            else st32 p v m))"

section \<open>The format\<close>

text \<open>What happens at a conversion: the scan stops, or goes on behind it.\<close>

datatype scanned = Stop | Scanned "u8 list" "u8 list" "u32 list" int mem

definition scan_convert ::
  "nat \<Rightarrow> u8 list \<Rightarrow> u8 list \<Rightarrow> u32 list \<Rightarrow> int \<Rightarrow> mem \<Rightarrow> scanned option" where
  "scan_convert len fmt str args num m =
     (let (width, fmt) = scan_width fmt;
          (qual, fmt) = scan_qualifier fmt;
          c = peek fmt
      in if c = 0 \<or> peek str = 0 then Some Stop
         else if c = ch CHR ''c'' then
           do {
             (s, args) \<leftarrow> va_arg args;
             let (str, m) = scan_chars (if width = - 1 then 1 else width) s str m;
             Some (Scanned (tl fmt) str args (num + 1) m)
           }
         else if c = ch CHR ''s'' then
           do {
             (s, args) \<leftarrow> va_arg args;
             let (str, m) = scan_word (if width = - 1 then 0x7FFFFFFF else width) s (dropWhile isspace str) m;
             Some (Scanned (tl fmt) str args (num + 1) m)
           }
         else if c = ch CHR ''n'' then
           do {
             (i, args) \<leftarrow> va_arg args;
             Some (Scanned (tl fmt) str args num (st32 i (of_nat (len - length str)) m))
           }
         else if c = ch CHR ''%'' then
           Some (if peek str \<noteq> ch CHR ''%'' then Stop else Scanned (tl fmt) (tl str) args num m)
         else
           (case scan_base c of
              None \<Rightarrow> Some Stop
            | Some (base, is_sign) \<Rightarrow>
                let str = dropWhile isspace str
                in if \<not> scan_digit base is_sign str then Some Stop
                   else
                     do {
                       (p, args) \<leftarrow> va_arg args;
                       let (str, m) = scan_number qual is_sign base p str m;
                       Some (Scanned (tl fmt) str args (num + 1) m)
                     }))"

lemma scan_convert_length:
  assumes "scan_convert len fmt str args num m = Some (Scanned fmt' str' args' num' m')"
  shows "length fmt' \<le> length fmt"
proof -
  obtain w fmt1 q fmt2 where 1: "scan_width fmt = (w, fmt1)" and 2: "scan_qualifier fmt1 = (q, fmt2)" by fastforce
  have "fmt' = tl fmt2"
    using assms 1 2
    by (simp add: scan_convert_def Let_def bind_eq_Some_conv split_beta split: if_splits option.splits) auto
  moreover have "length fmt1 \<le> length fmt"
    using 1 skip_atoi_length [of fmt 0] by (auto simp: scan_width_def split: if_splits)
  moreover have "length fmt2 \<le> length fmt1" using 2 by (auto simp: scan_qualifier_def Let_def split: if_splits)
  ultimately show ?thesis by simp
qed

lemma skipped_length:
  "(fmt', str') = (if isspace (peek fmt) then (dropWhile isspace fmt, dropWhile isspace str) else (fmt, str)) \<Longrightarrow>
   length fmt' \<le> length fmt"
  by (simp add: length_dropWhile_le split: if_splits)

lemma peek_length: "peek fmt \<noteq> 0 \<Longrightarrow> Suc (length (tl fmt)) = length fmt"
  by (cases fmt) (simp_all add: peek_def)

function vsscanf_loop ::
  "nat \<Rightarrow> u8 list \<Rightarrow> u8 list \<Rightarrow> u32 list \<Rightarrow> int \<Rightarrow> mem \<Rightarrow> (int \<times> mem) option" where
  "vsscanf_loop len fmt str args num m =
     (if peek fmt = 0 \<or> peek str = 0 then Some (num, m)
      else
        let (fmt, str) = (if isspace (peek fmt) then (dropWhile isspace fmt, dropWhile isspace str) else (fmt, str))
        in if peek fmt = 0 then Some (num, m)
           else if peek fmt \<noteq> ch CHR ''%'' then
             if peek fmt \<noteq> peek str then Some (num, m) else vsscanf_loop len (tl fmt) (tl str) args num m
           else if peek (tl fmt) = ch CHR ''*'' then
             vsscanf_loop len (dropWhile (\<lambda>c. \<not> isspace c \<and> c \<noteq> 0) (tl fmt)) (dropWhile (\<lambda>c. \<not> isspace c \<and> c \<noteq> 0) str) args num m
           else
             (case scan_convert len (tl fmt) str args num m of
                None \<Rightarrow> None
              | Some Stop \<Rightarrow> Some (num, m)
              | Some (Scanned fmt str args num m) \<Rightarrow> vsscanf_loop len fmt str args num m))"
  by pat_completeness auto
termination
proof (relation "measure (\<lambda>(len, fmt, str, args, num, m). length fmt)", goal_cases)
  case (2 len fmt str args num m x fmt' str')
  then show ?case using skipped_length [of fmt' str' fmt str] peek_length [of fmt'] by simp
next
  case (3 len fmt str args num m x fmt' str')
  then show ?case
    using skipped_length [of fmt' str' fmt str] peek_length [of fmt'] length_dropWhile_le [of _ "tl fmt'"]
    by (simp add: order.strict_trans1 [OF length_dropWhile_le])
next
  case (4 len fmt str args num m x fmt' str' sc fmt2 str2 args2 num2 m2)
  then show ?case using skipped_length [of fmt' str' fmt str] peek_length [of fmt'] scan_convert_length [of len "tl fmt'"] by fastforce
qed simp

definition vsscanf :: "u8 list \<Rightarrow> u8 list \<Rightarrow> u32 list \<Rightarrow> mem \<Rightarrow> (int \<times> mem) option" where
  "vsscanf buf fmt args m = vsscanf_loop (length buf) fmt buf args 0 m"

definition sscanf :: "u8 list \<Rightarrow> u8 list \<Rightarrow> u32 list \<Rightarrow> mem \<Rightarrow> (int \<times> mem) option" where
  "sscanf buf fmt args m = vsscanf buf fmt args m"

section \<open>Reading back printed numbers\<close>

lemma digit_chars: "d < 16 \<Longrightarrow> ds \<in> {small_digits, large_digits} \<Longrightarrow> isxdigit (ds ! d) \<and> digit_value (ds ! d) = of_nat d"
proof -
  have "\<forall>d \<in> set [0..<16]. \<forall>ds \<in> set [small_digits, large_digits]. isxdigit (ds ! d) \<and> digit_value (ds ! d) = of_nat d"
    by code_simp
  then show "d < 16 \<Longrightarrow> ds \<in> {small_digits, large_digits} \<Longrightarrow> isxdigit (ds ! d) \<and> digit_value (ds ! d) = of_nat d" by auto
qed

lemma ucast_of_nat8: "d < 256 \<Longrightarrow> ucast (of_nat d :: u8) = (of_nat d :: 'b :: len word)"
proof -
  assume "d < 256"
  then have "unat (of_nat d :: u8) = d" by (simp add: unat_of_nat)
  then show ?thesis by (metis of_nat_unat)
qed

lemma ucast_of_nat32: "d < 4294967296 \<Longrightarrow> ucast (of_nat d :: u32) = (of_nat d :: 'b :: len word)"
  by (metis of_nat_unat unat_of_nat_u32)

lemma strtoul_loop_digits:
  assumes "b \<le> 16" and ds: "ds \<in> {small_digits, large_digits}" and "\<not> isxdigit (peek rest)"
  shows "\<forall>d \<in> set xs. d < b \<Longrightarrow>
    strtoul_loop (of_nat b) r (map (\<lambda>d. ds ! d) xs @ rest) = (foldl (\<lambda>v d. v * of_nat b + of_nat d) r xs, rest)"
proof (induction xs arbitrary: r)
  case Nil
  then show ?case using assms(3) by (cases rest) (simp_all add: peek_def)
next
  case (Cons d xs)
  have d: "d < b" "d < 16" using Cons.prems assms(1) by auto
  have "(of_nat d :: u32) < of_nat b" using d assms(1) by (simp add: word_less_nat_alt unat_of_nat)
  then show ?case using digit_chars [OF d(2) ds] Cons d(2) assms(1) by (simp add: ucast_of_nat8 ucast_of_nat32)
qed

lemma foldl_digits_value:
  "2 \<le> b \<Longrightarrow> foldl (\<lambda>v d. v * of_nat b + of_nat d) (0 :: 'a :: len word) (rev (base_digits b n)) = of_nat n"
proof -
  assume "2 \<le> b"
  have "foldr (\<lambda>d v. v * of_nat b + of_nat d) xs (0 :: 'a word) = of_nat (foldr (\<lambda>d v. v * b + d) xs 0)" for xs
    by (induction xs) simp_all
  then show ?thesis using base_digits_value [OF \<open>2 \<le> b\<close>, of n] by (simp add: foldl_conv_foldr)
qed

lemma base_digits_last: "2 \<le> b \<Longrightarrow> n \<noteq> 0 \<Longrightarrow> base_digits b n \<noteq> [] \<and> last (base_digits b n) \<noteq> 0"
proof (induction b n rule: base_digits.induct)
  case (1 b n)
  show ?case
  proof (cases "n div b = 0")
    case True
    then have "n mod b = n" using mod_div_mult_eq [of n b] by simp
    then show ?thesis using 1 True by (simp add: base_digits.simps [of b n])
  next
    case False
    then show ?thesis using 1 by (simp add: base_digits.simps [of b n])
  qed
qed

lemma number_digits_hd:
  assumes "2 \<le> base" "base \<le> 16" "ds \<in> {small_digits, large_digits}"
  shows "\<exists>d xs. number_digits ds base num = ds ! d # xs \<and> d < nat base \<and> (d = 0 \<longleftrightarrow> num = 0) \<and> (d = 0 \<longrightarrow> xs = [])"
proof (cases "num = 0")
  case True
  have "ds ! 0 = ch CHR ''0''" using assms(3) by (auto simp: small_digits_def large_digits_def)
  then show ?thesis using True assms(1) by (auto simp: number_digits_def)
next
  case False
  let ?xs = "base_digits (nat base) (unat num)"
  have "unat num \<noteq> 0" using False by (simp add: unat_eq_0)
  then have l: "?xs \<noteq> []" "last ?xs \<noteq> 0" using base_digits_last [of "nat base" "unat num"] assms(1) by auto
  obtain ys y where xs: "?xs = ys @ [y]" using l(1) by (meson rev_exhaust)
  have "y < nat base" using base_digits_range [of y "nat base" "unat num"] xs by simp
  moreover have "y \<noteq> 0" using l(2) xs by simp
  ultimately show ?thesis using False xs by (intro exI [of _ y] exI [of _ "map (\<lambda>d. ds ! d) (rev ys)"]) (simp add: number_digits_def rev_map)
qed

lemma zero_char:
  assumes "d < 16" "ds \<in> {small_digits, large_digits}" "ds ! d = ch CHR ''0''"
  shows "d = 0"
proof -
  have "digit_value (ch CHR ''0'') = of_nat d" using digit_chars [OF assms(1,2)] assms(3) by simp
  then have "(of_nat d :: u8) = 0" by (simp add: digit_value_def isdigit_def)
  then have "unat (of_nat d :: u8) = 0" by simp
  then show ?thesis using assms(1) by (simp add: unat_of_nat)
qed

lemma strtoul_loop_number:
  assumes "2 \<le> base" "base \<le> 16" "ds \<in> {small_digits, large_digits}" "\<not> isxdigit (peek rest)"
  shows "strtoul_loop (word_of_int base) (0 :: 'a :: len word) (number_digits ds base num @ rest) = (of_nat (unat num), rest)"
proof -
  have base: "word_of_int base = (of_nat (nat base) :: u32)" using assms(1) by simp
  have z: "ds ! 0 = ch CHR ''0''" using assms(3) by (auto simp: small_digits_def large_digits_def)
  have "number_digits ds base num = map (\<lambda>d. ds ! d) (if num = 0 then [0] else rev (base_digits (nat base) (unat num)))"
    using z by (simp add: number_digits_def rev_map)
  moreover have "\<forall>d \<in> set (if num = 0 then [0] else rev (base_digits (nat base) (unat num))). d < nat base"
    using assms(1) base_digits_range by auto
  ultimately have "strtoul_loop (word_of_int base) (0 :: 'a word) (number_digits ds base num @ rest) =
    (foldl (\<lambda>v d. v * of_nat (nat base) + of_nat d) 0 (if num = 0 then [0] else rev (base_digits (nat base) (unat num))), rest)"
    unfolding base using assms(2) by (simp add: strtoul_loop_digits [OF _ assms(3,4)] del: map_append)
  moreover have "2 \<le> nat base" using assms(1) by linarith
  ultimately show ?thesis using foldl_digits_value [of "nat base" "unat num"] by (simp split: if_splits)
qed

lemma number_base_number:
  assumes "2 \<le> base" "base \<le> 16" "ds \<in> {small_digits, large_digits}" "toupper (peek rest) \<noteq> ch CHR ''X''"
  shows "number_base (number_digits ds base num @ rest) (word_of_int base) = (word_of_int base, number_digits ds base num @ rest)"
proof -
  obtain d xs where d: "number_digits ds base num = ds ! d # xs" "d < nat base" "d = 0 \<longrightarrow> xs = []"
    using number_digits_hd [OF assms(1-3)] by blast
  have "d < 16" using d(2) assms(2) by linarith
  moreover have "(word_of_int base :: u32) \<noteq> 0" using assms(1,2) by (simp add: word_of_int_eq_0_iff zdvd_not_zless)
  ultimately show ?thesis using d zero_char [of d ds] assms by (auto simp: number_base_def peek_def)
qed

text \<open>The parsers read back what \<open>number\<close> prints, in every base up to 16.\<close>

lemma simple_strtoul_number:
  assumes "2 \<le> base" "base \<le> 16" "ds \<in> {small_digits, large_digits}" "\<not> isxdigit (peek rest)" "toupper (peek rest) \<noteq> ch CHR ''X''"
  shows "simple_strtoul (number_digits ds base num @ rest) (word_of_int base) = (ucast num, rest)"
    and "simple_strtoull (number_digits ds base num @ rest) (word_of_int base) = (num, rest)"
  by (simp_all add: simple_strtoul_def simple_strtoull_def number_base_number [OF assms(1-3,5)] strtoul_loop_number [OF assms(1-4)])

section \<open>Printing and scanning\<close>

text \<open>The bytes of an integer.\<close>

definition int_bytes :: "int \<Rightarrow> u8 list" where
  "int_bytes k = (if k < 0 then [ch CHR ''-''] else []) @ number_digits small_digits 10 (word_of_int \<bar>k\<bar>)"

lemma sint32: "- 2147483648 \<le> sint (x :: u32)" "sint (x :: u32) < 2147483648"
  using sint_ge [of x] sint_lt [of x] by simp_all

lemma format_d: "format_out m (map ch ''%d'') [x] = Some (int_bytes (sint x), [])"
proof -
  define n where "n = (scast x :: u64)"
  have "directive (map ch ''d'') [x] = Some (ch CHR ''d'', 0, - 1, - 1, 0, [], [x])"
    by (simp add: directive_def get_width_def get_precision_def get_qualifier_def flag_of_def peek_def isdigit_def)
  then have "format_out m (map ch ''%d'') [x] = Some (number_out n 10 (- 1) (- 1) SIGN, [])"
    by (simp add: conv_out_def number_conv_def get_number_def va_arg_def n_def SIGN_def)
  moreover have s: "sint n = sint x" unfolding n_def by (rule sint_up_scast) (simp add: is_up)
  moreover have "n = word_of_int (sint x)" unfolding s [symmetric] by simp
  moreover have "number_out n 10 (- 1) (- 1) SIGN = int_bytes (sint x)"
    using calculation(2,3) by (simp add: number_out_def number_sign_def number_prefix_def int_bytes_def type_flags Let_def)
  ultimately show ?thesis by simp
qed

lemma decimal_chars: "d < 10 \<Longrightarrow> isdigit (small_digits ! d)"
proof -
  have "\<forall>d \<in> set [0..<10]. isdigit (small_digits ! d)" by code_simp
  then show "d < 10 \<Longrightarrow> isdigit (small_digits ! d)" by auto
qed

lemma number_digits_decimal: "c \<in> set (number_digits small_digits 10 num) \<Longrightarrow> isdigit c"
  using base_digits_range [of _ 10 "unat num"] decimal_chars by (auto simp: number_digits_def isdigit_def split: if_splits)

lemma decimal_length: "unat num < 10 ^ Suc k \<Longrightarrow> length (number_digits small_digits 10 num) \<le> Suc k"
  using base_digits_length [of "unat num" 10 "Suc k"] by (simp add: number_digits_def)

lemma abs_word: "\<bar>k\<bar> < 2 ^ 64 \<Longrightarrow> unat (word_of_int \<bar>k\<bar> :: u64) = nat \<bar>k\<bar>"
  by (simp add: unat_eq_nat_uint unsigned_of_int take_bit_int_eq_self)

lemma int_bytes_length: "\<bar>k\<bar> < 10 ^ Suc 9 \<Longrightarrow> length (int_bytes k) \<le> 11"
proof -
  assume k: "\<bar>k\<bar> < 10 ^ Suc 9"
  then have "unat (word_of_int \<bar>k\<bar> :: u64) < 10 ^ Suc 9" using abs_word [of k] by auto
  from decimal_length [OF this] show ?thesis by (auto simp: int_bytes_def)
qed

lemma int_bytes_nonzero: "0 \<notin> set (int_bytes k)"
  using number_digits_decimal [of 0 "word_of_int \<bar>k\<bar>"] by (auto simp: int_bytes_def isdigit_def)

lemma int_bytes_hd: "\<exists>c cs. int_bytes k = (if k < 0 then [ch CHR ''-''] else []) @ c # cs \<and> isdigit c"
proof -
  obtain d xs where "number_digits small_digits 10 (word_of_int \<bar>k\<bar>) = small_digits ! d # xs"
    using number_digits_hd [of 10 small_digits "word_of_int \<bar>k\<bar>"] by auto
  then show ?thesis using number_digits_decimal [of "small_digits ! d" "word_of_int \<bar>k\<bar>"] by (simp add: int_bytes_def)
qed

lemma strtol_int_bytes: "simple_strtol (int_bytes (sint x)) 10 = (x, [])"
proof -
  let ?n = "word_of_int \<bar>sint x\<bar> :: u64"
  have p: "simple_strtoul (number_digits small_digits 10 ?n) 10 = (ucast ?n, [])"
    using simple_strtoul_number(1) [of 10 small_digits "[]" ?n] by (simp add: peek_def isxdigit_def isdigit_def toupper_def islower_def)
  have u: "(ucast ?n :: u32) = word_of_int \<bar>sint x\<bar>"
  proof -
    have "unat ?n = nat \<bar>sint x\<bar>" using sint32 [of x] by (intro abs_word) auto
    then have "(ucast ?n :: u32) = of_nat (nat \<bar>sint x\<bar>)" by (metis of_nat_unat)
    moreover have "(word_of_int (int (nat \<bar>sint x\<bar>)) :: u32) = of_nat (nat \<bar>sint x\<bar>)" by (rule of_int_of_nat_eq)
    ultimately show ?thesis by (simp only: int_nat_eq abs_ge_zero if_True)
  qed
  obtain c cs where c: "number_digits small_digits 10 ?n = c # cs" "isdigit c"
    using int_bytes_hd [of "sint x"] by (auto simp: int_bytes_def split: if_splits)
  show ?thesis
  proof (cases "sint x < 0")
    case True
    then show ?thesis using p u by (simp add: simple_strtol_def int_bytes_def peek_def)
  next
    case False
    have "c \<noteq> ch CHR ''-''" using c(2) by (auto simp: isdigit_def)
    then show ?thesis using False p u c(1) by (simp add: simple_strtol_def int_bytes_def peek_def)
  qed
qed

lemma sscanf_d: "sscanf (int_bytes (sint x)) (map ch ''%d'') [p] m = Some (1, st32 p x m)"
proof -
  let ?s = "int_bytes (sint x)"
  obtain c cs where c: "?s = (if sint x < 0 then [ch CHR ''-''] else []) @ c # cs" "isdigit c" using int_bytes_hd by blast
  have "c \<noteq> ch CHR ''-''" "\<not> isspace c" "c \<noteq> 0" using c(2) by (auto simp: isdigit_def isspace_def word_le_nat_alt)
  then have s: "peek ?s \<noteq> 0" "dropWhile isspace ?s = ?s" "scan_digit 10 True ?s"
    using c by (auto simp: peek_def isspace_def scan_digit_def)
  have "scan_convert (length ?s) (map ch ''d'') ?s [p] 0 m = Some (Scanned [] [] [] 1 (st32 p x m))"
    using s by (simp add: scan_convert_def scan_width_def scan_qualifier_def scan_base_def scan_number_def peek_def [of "_ # _"]
        isdigit_def va_arg_def strtol_int_bytes)
  then show ?thesis using s by (simp add: sscanf_def vsscanf_def vsscanf_loop.simps peek_def [of "[]"] peek_def [of "_ # _"] isspace_def)
qed

text \<open>C29: printing and scanning are inverse: for every 32-bit integer, \<open>snprintf\<close> with \<open>%d\<close> into a buffer of at least 12 bytes
  leaves a terminated string, and \<open>sscanf\<close> with \<open>%d\<close> on that string returns 1 and stores the integer it was printed from.\<close>

theorem print_scan_roundtrip:
  assumes "buf \<noteq> 0" and "12 \<le> sz" and "sz < 0x80000000" and "unat buf + unat sz \<le> 4294967296"
  shows "\<exists>n m'. snprintf buf sz (map ch ''%d'') [x] m = Some (int n, m') \<and> n < unat sz \<and> m' (buf + of_nat n) = 0 \<and>
    (let s = map (\<lambda>i. m' (buf + of_nat i)) [0..<n]
     in 0 \<notin> set s \<and> (\<exists>m2. sscanf s (map ch ''%d'') [p] m' = Some (1, m2) \<and> ld32 m2 p = x))"
proof -
  let ?s = "int_bytes (sint x)"
  have len: "length ?s \<le> 11" using sint32 [of x] by (intro int_bytes_length) auto
  have "unat (12 :: u32) \<le> unat sz" using assms(2) by (simp only: word_le_nat_alt)
  then have sz: "12 \<le> unat sz" by simp
  have b: "unat buf + length ?s < 4294967296" "length ?s < 2147483648" "0 < sz" using len sz assms(2,4) by (auto simp: word_gt_0)
  have "min (length ?s) (unat sz - 1) = length ?s" using len sz by simp
  then obtain m' where m': "vsnprintf buf sz (map ch ''%d'') [x] m = Some (int (length ?s), m')"
    "\<forall>i < length ?s. m' (buf + of_nat i) = ?s ! i" "m' (buf + of_nat (length ?s)) = 0"
    using vsnprintf_written [OF format_d assms(1,3,4) b(1,2), of m] b(3) by auto
  have s: "map (\<lambda>i. m' (buf + of_nat i)) [0..<length ?s] = ?s"
    using m'(2) by (intro nth_equalityI) simp_all
  show ?thesis
    using m' len sz s int_bytes_nonzero [of "sint x"] sscanf_d [of x p m']
    by (intro exI [of _ "length ?s"] exI [of _ m']) (simp add: snprintf_def ld32_st32)
qed

theorem print_scan_roundtrip_witness:
  "\<exists>n m'. snprintf 0x1000 16 (map ch ''%d'') [- 42] (\<lambda>_. 0) = Some (int n, m') \<and> n < 16 \<and> m' (0x1000 + of_nat n) = 0 \<and>
    (let s = map (\<lambda>i. m' (0x1000 + of_nat i)) [0..<n]
     in 0 \<notin> set s \<and> (\<exists>m2. sscanf s (map ch ''%d'') [0x2000] m' = Some (1, m2) \<and> ld32 m2 0x2000 = - 42))"
  using print_scan_roundtrip [where buf = "0x1000" and sz = 16 and x = "- 42" and m = "\<lambda>_. 0" and p = "0x2000"] by simp

end
