(* ===== verification/Net_Packet.thy ===== *)
theory Net_Packet
  imports Str_Util
begin

text \<open>
  Packets in memory: byte order (\<open>include/if_ether.h\<close>), buffers (\<open>net/sk_buff.c\<close>), the checksum of \<open>net/net.c\<close>, and the
  headers of Ethernet, IP and TCP.

  A header is a range of bytes at an address; a field is read and written at its offset in the packed structure, in the byte
  order of the processor, and the code converts it. The addresses that \<open>kcalloc\<close> returns are arguments.
\<close>

section \<open>Byte order and bit fields\<close>

definition htonl :: "u32 \<Rightarrow> u32" where
  "htonl l = push_bit 24 (l AND 0xFF) OR push_bit 8 (l AND 0xFF00) OR drop_bit 8 (l AND 0xFF0000) OR drop_bit 24 (l AND 0xFF000000)"

definition htons :: "u16 \<Rightarrow> u16" where
  "htons s = push_bit 8 (s AND 0xFF) OR drop_bit 8 (s AND 0xFF00)"

abbreviation ntohl :: "u32 \<Rightarrow> u32" where "ntohl \<equiv> htonl"
abbreviation ntohs :: "u16 \<Rightarrow> u16" where "ntohs \<equiv> htons"

definition get_bits :: "nat \<Rightarrow> nat \<Rightarrow> u8 \<Rightarrow> u8" where
  "get_bits pos width b = take_bit width (drop_bit pos b)"

definition set_bits :: "nat \<Rightarrow> nat \<Rightarrow> u8 \<Rightarrow> u8 \<Rightarrow> u8" where
  "set_bits pos width v b = (b AND NOT (push_bit pos (mask width))) OR push_bit pos (take_bit width v)"

lemma get_set_bits: "pos + width \<le> 8 \<Longrightarrow> get_bits pos width (set_bits pos width v b) = take_bit width v"
  by (rule bit_eqI) (auto simp: get_bits_def set_bits_def bit_simps)

lemma get_set_bits_other:
  "pos + width \<le> pos' \<or> pos' + width' \<le> pos \<Longrightarrow> get_bits pos' width' (set_bits pos width v b) = get_bits pos' width' b"
  by (rule bit_eqI) (auto simp: get_bits_def set_bits_def bit_simps dest: bit_u8)

lemma htons_bit: "n < 16 \<Longrightarrow> bit (htons s) n \<longleftrightarrow> bit s (if n < 8 then n + 8 else n - 8)"
proof -
  assume n: "n < 16"
  have m: "(0xFF :: u16) = mask 8" "(0xFF00 :: u16) = push_bit 8 (mask 8)" by (simp_all add: mask_eq_exp_minus_1 push_bit_eq_mult)
  show ?thesis using n by (cases "n < 8") (auto simp: htons_def m bit_simps ac_simps)
qed

lemma htonl_bit: "n < 32 \<Longrightarrow> bit (htonl l) n \<longleftrightarrow> bit l (n mod 8 + 8 * (3 - n div 8))"
proof -
  assume n: "n < 32"
  have m: "(0xFF :: u32) = mask 8" "(0xFF00 :: u32) = push_bit 8 (mask 8)" "(0xFF0000 :: u32) = push_bit 16 (mask 8)"
    "(0xFF000000 :: u32) = push_bit 24 (mask 8)" by (simp_all add: mask_eq_exp_minus_1 push_bit_eq_mult)
  consider "n < 8" | "8 \<le> n" "n < 16" | "16 \<le> n" "n < 24" | "24 \<le> n" using n by linarith
  then show ?thesis
  proof cases
    case 1
    then show ?thesis by (auto simp: htonl_def m bit_simps ac_simps)
  next
    case 2
    then have "n div 8 = 1" "n mod 8 = n - 8" by (simp_all add: le_div_geq le_mod_geq)
    with 2 show ?thesis by (auto simp: htonl_def m bit_simps)
  next
    case 3
    then have "n div 8 = 2" "n mod 8 = n - 16" by (simp_all add: le_div_geq le_mod_geq)
    with 3 show ?thesis by (auto simp: htonl_def m bit_simps)
  next
    case 4
    then have "n div 8 = 3" "n mod 8 = n - 24" using n by (simp_all add: le_div_geq le_mod_geq)
    with 4 n show ?thesis by (auto simp: htonl_def m bit_simps)
  qed
qed

lemma ntohs_htons [simp]: "ntohs (htons s) = s"
proof (rule bit_eqI)
  fix n assume "possible_bit TYPE(u16) n"
  then show "bit (ntohs (htons s)) n = bit s n" by (cases "n < 8") (auto simp: htons_bit not_less)
qed

lemma htons_eq_iff: "htons x = y \<longleftrightarrow> x = htons y"
  by auto

lemma ntohl_htonl [simp]: "ntohl (htonl l) = l"
proof (rule bit_eqI)
  fix n assume "possible_bit TYPE(u32) n"
  then have n: "n < 32" by simp
  define k where "k = n mod 8 + 8 * (3 - n div 8)"
  have "k div 8 = 3 - n div 8" "k mod 8 = n mod 8" by (simp_all add: k_def)
  then have "k mod 8 + 8 * (3 - k div 8) = n mod 8 + 8 * (n div 8)" using n by simp
  moreover have "k < 32" using n unfolding k_def by simp
  ultimately show "bit (ntohl (htonl l)) n = bit l n" using n by (simp add: htonl_bit flip: k_def)
qed

section \<open>Buffers\<close>

text \<open>The bytes of a structure that is copied from elsewhere, and those found at an address.\<close>

definition get_bytes :: "mem \<Rightarrow> u32 \<Rightarrow> nat \<Rightarrow> u8 list" where
  "get_bytes m a n = map (\<lambda>i. m (a + of_nat i)) [0..<n]"

definition clear_bytes :: "u32 \<Rightarrow> u32 \<Rightarrow> mem \<Rightarrow> mem" where
  "clear_bytes a n m = write_bytes (replicate (unat n) 0) a m"

record sk_buff =
  skb_len :: u32
  true_size :: u32
  skb_h :: u32
  skb_nh :: u32
  skb_mac :: u32
  skb_head :: u32
  skb_data :: u32
  skb_tail :: u32
  skb_end :: u32

definition SKB_SIZE :: u32 where "SKB_SIZE = 92"
definition WORD_SIZE :: u32 where "WORD_SIZE = 4"

definition WORD_ALIGN :: "u32 \<Rightarrow> u32" where
  "WORD_ALIGN addr = (addr + WORD_SIZE - 1) AND NOT (WORD_SIZE - 1)"

definition skb_put :: "u32 \<Rightarrow> sk_buff \<Rightarrow> sk_buff" where
  "skb_put n skb = skb\<lparr>skb_tail := skb_tail skb + n, skb_len := skb_len skb + n\<rparr>"

definition skb_push :: "u32 \<Rightarrow> sk_buff \<Rightarrow> sk_buff" where
  "skb_push n skb = skb\<lparr>skb_data := skb_data skb - n, skb_len := skb_len skb + n\<rparr>"

definition skb_pull :: "u32 \<Rightarrow> sk_buff \<Rightarrow> sk_buff" where
  "skb_pull n skb = skb\<lparr>skb_data := skb_data skb + n, skb_len := skb_len skb - n\<rparr>"

definition skb_reserve :: "u32 \<Rightarrow> sk_buff \<Rightarrow> sk_buff" where
  "skb_reserve n skb = skb\<lparr>skb_data := skb_data skb + n, skb_tail := skb_tail skb + n\<rparr>"

text \<open>\<open>kdata\<close> is the address that \<open>kcalloc\<close> returns for the packet.\<close>

definition skb_alloc :: "u32 \<Rightarrow> u32 \<Rightarrow> u32 \<Rightarrow> mem \<Rightarrow> sk_buff \<times> mem" where
  "skb_alloc header_size payload_size kdata m =
     (let packet_size = header_size + payload_size + WORD_SIZE;
          start = WORD_ALIGN (kdata + header_size)
      in (\<lparr>skb_len = 0, true_size = packet_size + SKB_SIZE, skb_h = 0, skb_nh = 0, skb_mac = 0,
           skb_head = kdata, skb_data = start, skb_tail = start, skb_end = kdata + packet_size\<rparr>,
          clear_bytes kdata packet_size m))"

definition skb_clone :: "sk_buff \<Rightarrow> u32 \<Rightarrow> mem \<Rightarrow> sk_buff \<times> mem" where
  "skb_clone skb packet m =
     (let packet_size = true_size skb - SKB_SIZE
      in (skb\<lparr>skb_head := packet, skb_data := packet + (skb_data skb - skb_head skb),
              skb_tail := packet + (skb_tail skb - skb_head skb), skb_end := packet + packet_size\<rparr>,
          write_bytes (get_bytes m (skb_head skb) (unat packet_size)) packet m))"

section \<open>The checksum\<close>

definition CHECKSUM_MASK :: u32 where "CHECKSUM_MASK = 0xFFFF"

function checksum_loop :: "mem \<Rightarrow> u32 \<Rightarrow> u16 \<Rightarrow> u32 \<Rightarrow> u32" where
  "checksum_loop m chunk ibytes checksum =
     (if ibytes > 1 then checksum_loop m (chunk + 2) (ibytes - 2) (checksum + ucast (ld16 m chunk))
      else if ibytes = 1 then checksum + ucast (m chunk)
      else checksum)"
  by pat_completeness auto
termination
  by (relation "measure (\<lambda>(m, chunk, ibytes, checksum). unat ibytes)") (auto simp: word_less_nat_alt unat_sub_if')

declare checksum_loop.simps [simp del]

lemma checksum_fold_step: "unat ((c AND CHECKSUM_MASK) + drop_bit 16 c) = unat c mod 65536 + unat c div 65536"
proof -
  have "CHECKSUM_MASK = mask 16" by (simp add: CHECKSUM_MASK_def mask_eq_exp_minus_1)
  then have "c AND CHECKSUM_MASK = take_bit 16 c" by (simp only: take_bit_eq_mask)
  then have "unat (c AND CHECKSUM_MASK) = unat c mod 65536" by (simp add: take_bit_eq_mod unat_mod_distrib)
  moreover have "unat (drop_bit 16 c) = unat c div 65536" by (simp add: drop_bit_eq_div unat_div_distrib)
  moreover have "unat c div 65536 < 65536" using u32_bound [of c] by simp
  ultimately show ?thesis by (simp add: unat_plus_if')
qed

lemma checksum_fold_less: "c > CHECKSUM_MASK \<Longrightarrow> unat c mod 65536 + unat c div 65536 < unat c"
proof -
  assume "c > CHECKSUM_MASK"
  then have "65536 \<le> unat c" by (simp add: CHECKSUM_MASK_def word_less_nat_alt)
  then have "1 \<le> unat c div 65536" by simp
  then have "unat c div 65536 < unat c div 65536 * 65536" by linarith
  then show ?thesis using div_mult_mod_eq [of "unat c" 65536] by linarith
qed

function fold_checksum :: "u32 \<Rightarrow> u32" where
  "fold_checksum checksum =
     (if checksum > CHECKSUM_MASK then fold_checksum ((checksum AND CHECKSUM_MASK) + drop_bit 16 checksum) else checksum)"
  by pat_completeness auto
termination
  by (relation "measure unat") (simp_all add: checksum_fold_step checksum_fold_less)

declare fold_checksum.simps [simp del]

definition packet_checksum_start :: "mem \<Rightarrow> u32 \<Rightarrow> u16 \<Rightarrow> u32" where
  "packet_checksum_start m packet sz = fold_checksum (checksum_loop m packet sz 0)"

definition singular_checksum :: "mem \<Rightarrow> u32 \<Rightarrow> u16 \<Rightarrow> u16" where
  "singular_checksum m packet sz = ucast (NOT (packet_checksum_start m packet sz) AND CHECKSUM_MASK)"

text \<open>The pseudo header is built in a zeroed buffer of its own, which is freed again.\<close>

definition ip4_pseudo_header :: "u16 \<Rightarrow> u8 \<Rightarrow> u32 \<Rightarrow> u32 \<Rightarrow> mem" where
  "ip4_pseudo_header segment_len protocal source_ip dest_ip =
     st16 10 (htons segment_len) ((st32 4 (htonl dest_ip) (st32 0 (htonl source_ip) (\<lambda>_. 0)))(8 := 0, 9 := protocal))"

definition transport_calculate_checksum :: "mem \<Rightarrow> u32 \<Rightarrow> u16 \<Rightarrow> u8 \<Rightarrow> u32 \<Rightarrow> u32 \<Rightarrow> u16" where
  "transport_calculate_checksum m segment segment_len protocal source_ip dest_ip =
     (let ip4_checksum_start = packet_checksum_start (ip4_pseudo_header segment_len protocal source_ip dest_ip) 0 12;
          udp_checksum_start = packet_checksum_start m segment segment_len;
          checksum = fold_checksum (ip4_checksum_start + udp_checksum_start)
      in ucast (NOT checksum AND CHECKSUM_MASK))"

text \<open>The sum of the 16-bit words of a range, an odd last byte counting as a word.\<close>

definition byte_sum :: "mem \<Rightarrow> u32 \<Rightarrow> nat \<Rightarrow> nat" where
  "byte_sum m a n = (\<Sum>i<n. unat (m (a + of_nat i)) * (if even i then 1 else 256))"

text \<open>The one's complement sum that stands for it: between 1 and 65535, and 0 only for 0.\<close>

definition ones_sum :: "nat \<Rightarrow> nat" where
  "ones_sum n = (if n = 0 then 0 else (n - 1) mod 65535 + 1)"

lemma ones_sum_cong: "a mod 65535 = b mod 65535 \<Longrightarrow> 0 < a \<Longrightarrow> 0 < b \<Longrightarrow> ones_sum a = ones_sum b"
proof -
  have eq: "ones_sum n = (if n mod 65535 = 0 then 65535 else n mod 65535)" if "0 < n" for n
    using that by (cases n) (auto simp: ones_sum_def mod_Suc)
  assume "a mod 65535 = b mod 65535" "0 < a" "0 < b"
  then show ?thesis by (simp add: eq)
qed

lemma ones_sum_mod: "ones_sum n mod 65535 = n mod 65535"
  by (cases n) (auto simp: ones_sum_def mod_Suc)

lemma ones_sum_le: "ones_sum n \<le> 65535"
proof -
  have "(n - 1) mod 65535 < 65535" by (rule mod_less_divisor) simp
  moreover have "ones_sum n = 0 \<or> ones_sum n = (n - 1) mod 65535 + 1" by (simp add: ones_sum_def)
  ultimately show ?thesis by linarith
qed

lemma ones_sum_small: "n \<le> 65535 \<Longrightarrow> ones_sum n = n"
  by (simp add: ones_sum_def)

lemma unat_fold_checksum: "unat (fold_checksum c) = ones_sum (unat c)"
proof (induction c rule: fold_checksum.induct)
  case (1 c)
  show ?case
  proof (cases "c > CHECKSUM_MASK")
    case True
    let ?c' = "unat c mod 65536 + unat c div 65536"
    have "unat c = ?c' + 65535 * (unat c div 65536)" using div_mult_mod_eq [of "unat c" 65536] by linarith
    then have "unat c mod 65535 = ?c' mod 65535" by (metis mod_mult_self2)
    moreover have "0 < unat c" using True by (simp add: CHECKSUM_MASK_def word_less_nat_alt)
    moreover have "0 < ?c'" using \<open>0 < unat c\<close> by (metis add_gr_0 div_eq_0_iff mod_less neq0_conv zero_neq_numeral)
    ultimately have "ones_sum (unat c) = ones_sum ?c'" by (rule ones_sum_cong)
    then show ?thesis using "1.IH" [OF True] True by (simp add: fold_checksum.simps [of c] checksum_fold_step)
  next
    case False
    then have "unat c \<le> 65535" by (simp add: CHECKSUM_MASK_def word_less_nat_alt not_less)
    then show ?thesis using False by (simp add: fold_checksum.simps [of c] ones_sum_small)
  qed
qed

lemma unat_ld16: "unat (ld16 m a) = unat (m a) + 256 * unat (m (a + 1))"
proof -
  have "ld16 m a = ucast (m a) + push_bit 8 (ucast (m (a + 1)))"
    unfolding ld16_def by (rule disjunctive_add_eq_or [symmetric]) (auto simp: bit_eq_iff bit_simps dest: bit_u8)
  moreover have "unat (push_bit 8 (ucast (m (a + 1)) :: u16)) = 256 * unat (m (a + 1))"
    using u8_bound [of "m (a + 1)"] by (simp add: push_bit_eq_mult unat_mult_lem [THEN iffD1] unsigned_ucast_eq take_bit_eq_mod unat_word_ariths)
  moreover have "unat (ucast (m a) :: u16) = unat (m a)" using u8_bound [of "m a"] by (simp add: unsigned_ucast_eq take_bit_eq_mod)
  ultimately show ?thesis using u8_bound [of "m a"] u8_bound [of "m (a + 1)"] by (simp add: unat_plus_if')
qed

lemma byte_sum_0 [simp]: "byte_sum m a 0 = 0"
  by (simp add: byte_sum_def)

lemma byte_sum_1 [simp]: "byte_sum m a 1 = unat (m a)" "byte_sum m a (Suc 0) = unat (m a)"
  by (simp_all add: byte_sum_def)

lemma byte_sum_Suc2: "byte_sum m a (n + 2) = unat (ld16 m a) + byte_sum m (a + 2) n"
proof -
  let ?f = "\<lambda>a i. unat (m (a + of_nat i)) * (if even i then 1 else 256)"
  have "byte_sum m a (n + 2) = ?f a 0 + (?f a 1 + (\<Sum>i<n. ?f a (Suc (Suc i))))"
    unfolding byte_sum_def add_2_eq_Suc' sum.lessThan_Suc_shift by simp
  also have "(\<Sum>i<n. ?f a (Suc (Suc i))) = byte_sum m (a + 2) n"
    unfolding byte_sum_def by (rule sum.cong) (simp_all add: ac_simps)
  finally show ?thesis by (simp add: unat_ld16)
qed

lemma unat_checksum_loop:
  "unat c + 65535 * ((unat n + 1) div 2) < 4294967296 \<Longrightarrow> unat (checksum_loop m p n c) = unat c + byte_sum m p (unat n)"
proof (induction m p n c rule: checksum_loop.induct)
  case (1 m p n c)
  have w: "unat (ucast (ld16 m p) :: u32) = unat (ld16 m p)" "unat (ucast (m p) :: u32) = unat (m p)"
    using u16_bound [of "ld16 m p"] u8_bound [of "m p"] by (simp_all add: unsigned_ucast_eq take_bit_eq_mod)
  have l: "unat (ld16 m p) \<le> 65535" using u16_bound [of "ld16 m p"] by simp
  consider "n > 1" | "n = 1" | "n = 0"
    by (metis linorder_neqE word_gt_0 word_less_1)
  then show ?case
  proof cases
    case 1
    then have n: "2 \<le> unat n" by (simp add: word_less_nat_alt)
    then have n2: "unat (n - 2) = unat n - 2" by (simp add: unat_sub word_le_nat_alt)
    have d: "(unat n + 1) div 2 = Suc ((unat n - 2 + 1) div 2)" using n by linarith
    have c: "unat (c + ucast (ld16 m p)) = unat c + unat (ld16 m p)"
      using "1.prems" l unfolding d by (simp add: unat_plus_if' w)
    have "unat (checksum_loop m (p + 2) (n - 2) (c + ucast (ld16 m p))) = unat c + unat (ld16 m p) + byte_sum m (p + 2) (unat n - 2)"
      using "1.IH" [OF 1] "1.prems" l unfolding d by (simp add: c n2)
    moreover have "byte_sum m p (unat n) = unat (ld16 m p) + byte_sum m (p + 2) (unat n - 2)"
      using byte_sum_Suc2 [of m p "unat n - 2"] by (simp only: le_add_diff_inverse2 [OF n])
    ultimately show ?thesis using 1 by (simp add: checksum_loop.simps [of m p n])
  next
    case 2
    then show ?thesis using "1.prems" u8_bound [of "m p"] by (simp add: checksum_loop.simps [of m p 1] unat_plus_if' w)
  next
    case 3
    then show ?thesis by (simp add: checksum_loop.simps [of m p 0])
  qed
qed

lemma unat_packet_checksum_start: "unat (packet_checksum_start m p n) = ones_sum (byte_sum m p (unat n))"
proof -
  have "65535 * ((unat n + 1) div 2) < 4294967296" using u16_bound [of n] by linarith
  then show ?thesis by (simp add: packet_checksum_start_def unat_fold_checksum unat_checksum_loop)
qed

section \<open>Ethernet and IP\<close>

definition ETH_P_IP :: u16 where "ETH_P_IP = 0x0800"
definition ETH_P_ARP :: u16 where "ETH_P_ARP = 0x0806"
definition ETH_SIZE :: u32 where "ETH_SIZE = 14"
definition IP4_SIZE :: u32 where "IP4_SIZE = 20"

definition ethernet_build_header :: "u32 \<Rightarrow> u16 \<Rightarrow> u8 list \<Rightarrow> u8 list \<Rightarrow> mem \<Rightarrow> mem" where
  "ethernet_build_header packet protocal source_mac dest_mac m =
     write_bytes source_mac (packet + 6) (write_bytes dest_mac packet (st16 (packet + 12) (htons protocal) m))"

definition ethernet_rcv :: "sk_buff \<Rightarrow> int \<times> sk_buff" where
  "ethernet_rcv skb = (0, skb_pull ETH_SIZE (skb\<lparr>skb_mac := skb_data skb\<rparr>))"

definition IP4_TTL :: u8 where "IP4_TTL = 0x80"
definition IP4_PROTOCAL_ICMP :: u8 where "IP4_PROTOCAL_ICMP = 1"
definition IP4_PROTOCAL_TCP :: u8 where "IP4_PROTOCAL_TCP = 6"
definition IP4_PROTOCAL_UDP :: u8 where "IP4_PROTOCAL_UDP = 17"

text \<open>\<open>struct ip4_packet\<close>: \<open>ihl\<close> and \<open>version\<close> share the first byte, \<open>fragment_offset\<close> and \<open>flags\<close> the bytes 6 and 7.\<close>

definition ip_ihl :: "mem \<Rightarrow> u32 \<Rightarrow> u8" where "ip_ihl m p = get_bits 0 4 (m p)"
definition ip_version :: "mem \<Rightarrow> u32 \<Rightarrow> u8" where "ip_version m p = get_bits 4 4 (m p)"
definition ip_total_length :: "mem \<Rightarrow> u32 \<Rightarrow> u16" where "ip_total_length m p = ld16 m (p + 2)"
definition ip_protocal :: "mem \<Rightarrow> u32 \<Rightarrow> u8" where "ip_protocal m p = m (p + 9)"
definition ip_source_ip :: "mem \<Rightarrow> u32 \<Rightarrow> u32" where "ip_source_ip m p = ld32 m (p + 12)"
definition ip_dest_ip :: "mem \<Rightarrow> u32 \<Rightarrow> u32" where "ip_dest_ip m p = ld32 m (p + 16)"

definition ip4_validate_header :: "u32 \<Rightarrow> u8 \<Rightarrow> mem \<Rightarrow> int \<times> mem" where
  "ip4_validate_header ip protocal m =
     (let received_checksum = ld16 m (ip + 10);
          m1 = st16 (ip + 10) 0 m;
          packet_checksum = singular_checksum m1 ip (ucast IP4_SIZE);
          ret = (if ip_version m1 ip \<noteq> 4 \<or> ip_ihl m1 ip \<noteq> 5 \<or> ip_protocal m1 ip \<noteq> protocal \<or> received_checksum \<noteq> packet_checksum
                 then - EPROTO else 0)
      in (ret, st16 (ip + 10) received_checksum m1))"

definition ip4_fields :: "u32 \<Rightarrow> u16 \<Rightarrow> u8 \<Rightarrow> u32 \<Rightarrow> u32 \<Rightarrow> u32 \<Rightarrow> mem \<Rightarrow> mem" where
  "ip4_fields packet packet_size protocal source_ip dest_ip identification m =
     (let m1 = m(packet := set_bits 4 4 4 (m packet));
          m2 = m1(packet := set_bits 0 4 5 (m1 packet));
          m3 = m2(packet + 1 := 0);
          m4 = st16 (packet + 2) (htons packet_size) m3;
          m5 = st16 (packet + 4) (ucast (htonl identification)) m4;
          m6 = m5(packet + 7 := set_bits 5 3 0 (m5 (packet + 7)));
          m7 = m6(packet + 6 := 0, packet + 7 := set_bits 0 5 0 (m6 (packet + 7)));
          m8 = m7(packet + 8 := IP4_TTL);
          m9 = m8(packet + 9 := protocal);
          m10 = st32 (packet + 12) (htonl source_ip) m9
      in st32 (packet + 16) (htonl dest_ip) m10)"

definition ip4_build_header :: "u32 \<Rightarrow> u16 \<Rightarrow> u8 \<Rightarrow> u32 \<Rightarrow> u32 \<Rightarrow> u32 \<Rightarrow> mem \<Rightarrow> mem" where
  "ip4_build_header packet packet_size protocal source_ip dest_ip identification m =
     (let m1 = ip4_fields packet packet_size protocal source_ip dest_ip identification m
      in st16 (packet + 10) (singular_checksum m1 packet (ucast IP4_SIZE)) m1)"

definition ip4_rcv :: "mem \<Rightarrow> sk_buff \<Rightarrow> int \<times> sk_buff" where
  "ip4_rcv m skb =
     (if htons (ld16 m (skb_mac skb + 12)) \<noteq> ETH_P_IP then (- EPROTO, skb)
      else (0, skb_pull IP4_SIZE (skb\<lparr>skb_nh := skb_data skb\<rparr>)))"

section \<open>TCP segments\<close>

definition TCP_SIZE :: u32 where "TCP_SIZE = 20"
definition MAX_TCP_HEADER :: u32 where "MAX_TCP_HEADER = ETH_SIZE + IP4_SIZE + TCP_SIZE"
definition MAX_OPTION_LEN :: u32 where "MAX_OPTION_LEN = 40"

definition TCPCB_FLAG_FIN :: u16 where "TCPCB_FLAG_FIN = 0x01"
definition TCPCB_FLAG_SYN :: u16 where "TCPCB_FLAG_SYN = 0x02"
definition TCPCB_FLAG_RST :: u16 where "TCPCB_FLAG_RST = 0x04"
definition TCPCB_FLAG_PSH :: u16 where "TCPCB_FLAG_PSH = 0x08"
definition TCPCB_FLAG_ACK :: u16 where "TCPCB_FLAG_ACK = 0x10"
definition TCPCB_FLAG_URG :: u16 where "TCPCB_FLAG_URG = 0x20"

lemmas tcp_flag_defs = TCPCB_FLAG_FIN_def TCPCB_FLAG_SYN_def TCPCB_FLAG_RST_def TCPCB_FLAG_PSH_def TCPCB_FLAG_ACK_def
  TCPCB_FLAG_URG_def

text \<open>\<open>struct tcp_packet\<close>: the data offset is the upper half of byte 12, the flags are the bits of byte 13.\<close>

definition tcp_data_offset :: "mem \<Rightarrow> u32 \<Rightarrow> u8" where "tcp_data_offset m p = get_bits 4 4 (m (p + 12))"

definition tcp_calculate_checksum :: "u32 \<Rightarrow> u16 \<Rightarrow> u32 \<Rightarrow> u32 \<Rightarrow> mem \<Rightarrow> u16 \<times> mem" where
  "tcp_calculate_checksum tcp tcp_len source_ip dest_ip m =
     (let m1 = st16 (tcp + 16) 0 m
      in (transport_calculate_checksum m1 tcp tcp_len IP4_PROTOCAL_TCP source_ip dest_ip, m1))"

definition tcp_validate_header :: "u32 \<Rightarrow> u16 \<Rightarrow> u32 \<Rightarrow> u32 \<Rightarrow> mem \<Rightarrow> int \<times> mem" where
  "tcp_validate_header tcp tcp_len source_ip dest_ip m =
     (let received_checksum = ld16 m (tcp + 16);
          (packet_checksum, m1) = tcp_calculate_checksum tcp tcp_len source_ip dest_ip m
      in (if packet_checksum \<noteq> received_checksum then - EPROTO else 0, st16 (tcp + 16) received_checksum m1))"

definition flag_bit :: "u16 \<Rightarrow> u16 \<Rightarrow> u8" where
  "flag_bit flags f = (if flags AND f \<noteq> 0 then 1 else 0)"

text \<open>A failed assertion is \<open>None\<close>; \<open>options\<close> are the \<open>option_len\<close> bytes the argument points to.\<close>

definition tcp_flags_byte :: "u16 \<Rightarrow> u8 \<Rightarrow> u8" where
  "tcp_flags_byte flags b0 =
     (let b1 = set_bits 5 1 (flag_bit flags TCPCB_FLAG_URG) b0;
          b2 = set_bits 4 1 (flag_bit flags TCPCB_FLAG_ACK) b1;
          b3 = set_bits 3 1 (flag_bit flags TCPCB_FLAG_PSH) b2;
          b4 = set_bits 2 1 (flag_bit flags TCPCB_FLAG_RST) b3;
          b5 = set_bits 1 1 (flag_bit flags TCPCB_FLAG_SYN) b4
      in set_bits 0 1 (flag_bit flags TCPCB_FLAG_FIN) b5)"

definition tcp_fields :: "u32 \<Rightarrow> u16 \<Rightarrow> u16 \<Rightarrow> u32 \<Rightarrow> u32 \<Rightarrow> u16 \<Rightarrow> u16 \<Rightarrow> u32 \<Rightarrow> mem \<Rightarrow> mem" where
  "tcp_fields tcp source_port dest_port seq_number ack_number flags window option_len m =
     (let m1 = st16 tcp (htons source_port) m;
          m2 = st16 (tcp + 2) (htons dest_port) m1;
          m3 = st32 (tcp + 4) (htonl seq_number) m2;
          m4 = st32 (tcp + 8) (htonl ack_number) m3;
          m5 = m4(tcp + 12 := set_bits 4 4 (ucast ((TCP_SIZE + option_len) div 4)) (m4 (tcp + 12)));
          m6 = m5(tcp + 13 := tcp_flags_byte flags (m5 (tcp + 13)));
          m7 = st16 (tcp + 14) (htons window) m6;
          m8 = st16 (tcp + 16) 0 m7
      in st16 (tcp + 18) 0 m8)"

definition tcp_build_header ::
    "u32 \<Rightarrow> u32 \<Rightarrow> u16 \<Rightarrow> u32 \<Rightarrow> u16 \<Rightarrow> u32 \<Rightarrow> u32 \<Rightarrow> u16 \<Rightarrow> u16 \<Rightarrow> u8 list \<Rightarrow> u32 \<Rightarrow> mem \<Rightarrow> mem option" where
  "tcp_build_header tcp source_ip source_port dest_ip dest_port seq_number ack_number flags window options packet_len m =
     (let option_len = of_nat (length options) :: u32
      in if option_len mod 4 \<noteq> 0 then None
         else
           let m1 = tcp_fields tcp source_port dest_port seq_number ack_number flags window option_len m;
               m2 = write_bytes options (tcp + TCP_SIZE) m1;
               (checksum, m3) = tcp_calculate_checksum tcp (ucast packet_len) source_ip dest_ip m2
           in Some (st16 (tcp + 16) checksum m3))"

definition tcp_option_length :: "mem \<Rightarrow> u32 \<Rightarrow> u16" where
  "tcp_option_length m tcph = ucast (tcp_data_offset m tcph) * 4 - ucast TCP_SIZE"

definition tcp_payload :: "mem \<Rightarrow> u32 \<Rightarrow> u32" where
  "tcp_payload m tcph = tcph + TCP_SIZE + ucast (tcp_option_length m tcph)"

definition tcp_payload_lenth :: "mem \<Rightarrow> u32 \<Rightarrow> u32 \<Rightarrow> u16 option" where
  "tcp_payload_lenth m iph tcph =
     (let payload_len = int (unat (ntohs (ip_total_length m iph))) - (uint (ip_ihl m iph) + uint (tcp_data_offset m tcph)) * 4
      in if payload_len \<ge> 0 then Some (word_of_int payload_len) else None)"

text \<open>A segment as the rest of the stack sees it: the fields in the order of the processor, the options and
  the data, which are \<open>None\<close> when the assertion of \<open>tcp_payload_lenth\<close> fails.\<close>

record tcp_segment =
  seg_source_port :: u16
  seg_dest_port :: u16
  seg_seq :: u32
  seg_ack :: u32
  seg_fin :: bool
  seg_syn :: bool
  seg_rst :: bool
  seg_push :: bool
  seg_acked :: bool
  seg_window :: u16
  seg_options :: "u8 list"
  seg_data :: "u8 list option"

definition read_segment :: "mem \<Rightarrow> u32 \<Rightarrow> u32 \<Rightarrow> tcp_segment" where
  "read_segment m iph tcph =
       \<lparr>seg_source_port = ntohs (ld16 m tcph), seg_dest_port = ntohs (ld16 m (tcph + 2)),
        seg_seq = ntohl (ld32 m (tcph + 4)), seg_ack = ntohl (ld32 m (tcph + 8)),
        seg_fin = bit (m (tcph + 13)) 0, seg_syn = bit (m (tcph + 13)) 1, seg_rst = bit (m (tcph + 13)) 2,
        seg_push = bit (m (tcph + 13)) 3, seg_acked = bit (m (tcph + 13)) 4, seg_window = ntohs (ld16 m (tcph + 14)),
        seg_options = get_bytes m (tcph + TCP_SIZE) (unat (tcp_option_length m tcph)),
        seg_data = map_option (\<lambda>n. get_bytes m (tcp_payload m tcph) (unat n)) (tcp_payload_lenth m iph tcph)\<rparr>"

record sockaddr_in =
  sin_port :: u16
  sin_addr :: u32

text \<open>\<open>tcp_create_skb\<close> down to the bytes. \<open>kdata\<close> is the address of the packet, \<open>rnd\<close> the value of \<open>rand()\<close>, \<open>dest_mac\<close> the
  result of \<open>lookup_mac_addr_for_ethernet\<close>.\<close>

definition tcp_create_frame ::
    "sockaddr_in \<Rightarrow> sockaddr_in \<Rightarrow> u8 list \<Rightarrow> u8 list \<Rightarrow> u32 \<Rightarrow> u32 \<Rightarrow> u32 \<Rightarrow> u32 \<Rightarrow> u16 \<Rightarrow> u32 \<Rightarrow> u8 list \<Rightarrow> u8 list \<Rightarrow> mem \<Rightarrow>
     (sk_buff \<times> mem) option" where
  "tcp_create_frame ssin dsin dev_addr dest_mac kdata rnd sequence_number ack_number flags rcv_wnd options payload m =
     do {
       let option_len = (of_nat (length options) :: u32);
       let payload_len = (of_nat (length payload) :: u32);
       let (skb0, m0) = skb_alloc (MAX_TCP_HEADER + option_len) payload_len kdata m;
       let skb1 = skb_put payload_len skb0;
       let m1 = write_bytes payload (skb_data skb1) m0;
       let skb2 = skb_push (TCP_SIZE + option_len) skb1;
       let skb3 = skb2\<lparr>skb_h := skb_data skb2\<rparr>;
       m2 \<leftarrow> tcp_build_header (skb_h skb3) (sin_addr ssin) (sin_port ssin) (sin_addr dsin) (sin_port dsin)
              sequence_number ack_number flags (ucast rcv_wnd) options (skb_len skb3) m1;
       let skb4 = skb_push IP4_SIZE skb3;
       let skb5 = skb4\<lparr>skb_nh := skb_data skb4\<rparr>;
       let m3 = ip4_build_header (skb_nh skb5) (ucast (skb_len skb5)) IP4_PROTOCAL_TCP (sin_addr ssin) (sin_addr dsin) rnd m2;
       let skb6 = skb_push ETH_SIZE skb5;
       let skb7 = skb6\<lparr>skb_mac := skb_data skb6\<rparr>;
       let m4 = ethernet_build_header (skb_mac skb7) ETH_P_IP dev_addr dest_mac m3;
       Some (skb7, m4)
     }"

text \<open>The checks of \<open>tcp_handler\<close>; the segment is for the socket when the buffer comes back with \<open>h\<close> set.\<close>

definition tcp_rcv :: "sockaddr_in \<Rightarrow> sockaddr_in \<Rightarrow> sk_buff \<Rightarrow> mem \<Rightarrow> int \<times> sk_buff option \<times> mem" where
  "tcp_rcv ssin dsin skb m =
     (let (ret, skb1) = ethernet_rcv skb
      in if ret < 0 then (ret, None, m)
      else let (ret, skb2) = ip4_rcv m skb1
      in if ret < 0 then (ret, None, m)
      else if ip_protocal m (skb_nh skb2) \<noteq> IP4_PROTOCAL_TCP then (- EPROTO, None, m)
      else
        let tcp = skb_data skb2;
            iph = skb_nh skb2;
            tcp_len = ntohs (ip_total_length m iph) - ucast IP4_SIZE;
            (ret, m1) = tcp_validate_header tcp tcp_len (ntohl (ip_source_ip m iph)) (ntohl (ip_dest_ip m iph)) m
        in if ret < 0 then (ret, None, m1)
        else if sin_addr ssin = ntohl (ip_dest_ip m1 iph) \<and> sin_port ssin = ntohs (ld16 m1 (tcp + 2)) \<and>
                sin_addr dsin = ntohl (ip_source_ip m1 iph) \<and> sin_port dsin = ntohs (ld16 m1 tcp)
        then (0, Some (skb2\<lparr>skb_h := tcp\<rparr>), m1)
        else (0, None, m1))"

section \<open>Reading what was written\<close>

lemma ld16_st16 [simp]: "ld16 (st16 a w m) a = w"
proof (rule bit_eqI)
  fix n assume "possible_bit TYPE(u16) n"
  then show "bit (ld16 (st16 a w m) a) n = bit w n" by (cases "n < 8") (auto simp: ld16_def st16_def bit_simps)
qed

lemma ld16_cong: "m a = m' a \<Longrightarrow> m (a + 1) = m' (a + 1) \<Longrightarrow> ld16 m a = ld16 m' a"
  by (simp add: ld16_def)

lemma st16_st16 [simp]: "st16 a w (st16 a v m) = st16 a w m"
  by (rule ext) (simp add: st16_def)

lemma st16_ld16 [simp]: "st16 a (ld16 m a) m = m"
proof (rule ext)
  fix x
  have "ucast (ld16 m a) = m a" "ucast (drop_bit 8 (ld16 m a)) = m (a + 1)"
    by (rule bit_eqI, auto simp: ld16_def bit_simps dest: bit_u8)+
  then show "st16 a (ld16 m a) m x = m x" by (simp add: st16_def)
qed

lemma st16_at: "x \<noteq> a \<Longrightarrow> x \<noteq> a + 1 \<Longrightarrow> st16 a w m x = m x"
  by (simp add: st16_def)

lemma st32_at: "x \<noteq> a \<Longrightarrow> x \<noteq> a + 1 \<Longrightarrow> x \<noteq> a + 2 \<Longrightarrow> x \<noteq> a + 3 \<Longrightarrow> st32 a w m x = m x"
  by (simp add: st32_def)

lemma ld16_upd: "x \<noteq> a \<Longrightarrow> x \<noteq> a + 1 \<Longrightarrow> ld16 (m(x := v)) a = ld16 m a"
  by (simp add: ld16_def)

lemma ld32_upd: "x \<noteq> a \<Longrightarrow> x \<noteq> a + 1 \<Longrightarrow> x \<noteq> a + 2 \<Longrightarrow> x \<noteq> a + 3 \<Longrightarrow> ld32 (m(x := v)) a = ld32 m a"
  by (simp add: ld32_def)

lemma ld16_st16_other: "b \<noteq> a \<Longrightarrow> b \<noteq> a + 1 \<Longrightarrow> b + 1 \<noteq> a \<Longrightarrow> ld16 (st16 b w m) a = ld16 m a"
  by (simp add: st16_def ld16_upd)

lemma ld16_st32_other:
  "b \<noteq> a \<Longrightarrow> b + 1 \<noteq> a \<Longrightarrow> b + 2 \<noteq> a \<Longrightarrow> b + 3 \<noteq> a \<Longrightarrow> b \<noteq> a + 1 \<Longrightarrow> b + 1 \<noteq> a + 1 \<Longrightarrow> b + 2 \<noteq> a + 1 \<Longrightarrow> b + 3 \<noteq> a + 1 \<Longrightarrow>
   ld16 (st32 b w m) a = ld16 m a"
  by (simp add: st32_def ld16_def del: add_right_cancel)

lemma ld32_st16_other:
  "b \<noteq> a \<Longrightarrow> b + 1 \<noteq> a \<Longrightarrow> b \<noteq> a + 1 \<Longrightarrow> b + 1 \<noteq> a + 1 \<Longrightarrow> b \<noteq> a + 2 \<Longrightarrow> b + 1 \<noteq> a + 2 \<Longrightarrow> b \<noteq> a + 3 \<Longrightarrow> b + 1 \<noteq> a + 3 \<Longrightarrow>
   ld32 (st16 b w m) a = ld32 m a"
  by (simp add: st16_def ld32_def del: add_right_cancel)

lemma ld32_st32_other:
  "b \<noteq> a \<Longrightarrow> b + 1 \<noteq> a \<Longrightarrow> b + 2 \<noteq> a \<Longrightarrow> b + 3 \<noteq> a \<Longrightarrow> b \<noteq> a + 1 \<Longrightarrow> b + 1 \<noteq> a + 1 \<Longrightarrow> b + 2 \<noteq> a + 1 \<Longrightarrow> b + 3 \<noteq> a + 1 \<Longrightarrow>
   b \<noteq> a + 2 \<Longrightarrow> b + 1 \<noteq> a + 2 \<Longrightarrow> b + 2 \<noteq> a + 2 \<Longrightarrow> b + 3 \<noteq> a + 2 \<Longrightarrow> b \<noteq> a + 3 \<Longrightarrow> b + 1 \<noteq> a + 3 \<Longrightarrow> b + 2 \<noteq> a + 3 \<Longrightarrow> b + 3 \<noteq> a + 3 \<Longrightarrow>
   ld32 (st32 b w m) a = ld32 m a"
  by (simp add: st32_def ld32_def del: add_right_cancel)

lemmas mem_simps = st16_at st32_at ld16_upd ld32_upd ld16_st16_other ld16_st32_other ld32_st16_other ld32_st32_other ld32_st32

lemma ip4_build_header_fields:
  fixes p :: u32
  assumes "m' = ip4_build_header p packet_size protocal source_ip dest_ip identification m"
  shows "ip_version m' p = 4" "ip_ihl m' p = 5" "ip_total_length m' p = htons packet_size" "ip_protocal m' p = protocal"
    "ip_source_ip m' p = htonl source_ip" "ip_dest_ip m' p = htonl dest_ip"
proof -
  note d = assms ip4_build_header_def ip4_fields_def Let_def
  show "ip_version m' p = 4" "ip_ihl m' p = 5"
    by (simp_all add: d ip_version_def ip_ihl_def mem_simps get_set_bits get_set_bits_other)
  show "ip_protocal m' p = protocal" by (simp add: d ip_protocal_def mem_simps)
  show "ip_total_length m' p = htons packet_size" by (simp add: d ip_total_length_def mem_simps)
  show "ip_source_ip m' p = htonl source_ip" "ip_dest_ip m' p = htonl dest_ip"
    by (simp_all add: d ip_source_ip_def ip_dest_ip_def mem_simps)
qed

section \<open>Headers that pass the checks, and what the checksum detects\<close>

lemma byte_sum_upd:
  assumes "k < n" and "n \<le> 65536"
  shows "byte_sum (m(p + of_nat k := b)) p n + unat (m (p + of_nat k)) * (if even k then 1 else 256) =
    byte_sum m p n + unat b * (if even k then 1 else 256)"
proof -
  let ?w = "\<lambda>i :: nat. if even i then 1 else 256 :: nat"
  have ne: "p + of_nat i \<noteq> p + of_nat k" if "i < n" "i \<noteq> k" for i
    using word_offset_neq [of i k p] that assms by simp
  have rest: "(\<Sum>i\<in>{..<n} - {k}. unat ((m(p + of_nat k := b)) (p + of_nat i)) * ?w i) = (\<Sum>i\<in>{..<n} - {k}. unat (m (p + of_nat i)) * ?w i)"
    by (rule sum.cong) (use ne in auto)
  have "byte_sum m' p n = unat (m' (p + of_nat k)) * ?w k + (\<Sum>i\<in>{..<n} - {k}. unat (m' (p + of_nat i)) * ?w i)" for m'
    unfolding byte_sum_def using assms(1) by (intro sum.remove) simp_all
  from this [of m] this [of "m(p + of_nat k := b)"] show ?thesis unfolding rest by simp
qed

lemma byte_sum_upd_mod:
  assumes "k < n" and "n \<le> 65536" and "b \<noteq> m (p + of_nat k)"
  shows "byte_sum (m(p + of_nat k := b)) p n mod 65535 \<noteq> byte_sum m p n mod 65535"
proof
  let ?w = "if even k then 1 else 256 :: nat" and ?c = "m (p + of_nat k)"
  let ?S = "byte_sum m p n" and ?S' = "byte_sum (m(p + of_nat k := b)) p n"
  assume "?S' mod 65535 = ?S mod 65535"
  then have "(?S' + unat ?c * ?w) mod 65535 = (?S + unat ?c * ?w) mod 65535" by (rule mod_add_cong) simp
  then have "(?S + unat b * ?w) mod 65535 = (?S + unat ?c * ?w) mod 65535" by (simp only: byte_sum_upd [OF assms(1,2)])
  moreover have "unat b * ?w < 65535" "unat ?c * ?w < 65535" using u8_bound [of b] u8_bound [of ?c] by auto
  ultimately have "unat b * ?w = unat ?c * ?w" by (rule ring_index_inj)
  then have "unat b = unat ?c" by (auto split: if_splits)
  then show False using assms(3) by (simp add: word_unat_eq_iff)
qed

lemma complement_eq: "x \<le> CHECKSUM_MASK \<Longrightarrow> y \<le> CHECKSUM_MASK \<Longrightarrow>
  (ucast (NOT x AND CHECKSUM_MASK) :: u16) = ucast (NOT y AND CHECKSUM_MASK) \<Longrightarrow> x = y"
proof (rule bit_eqI)
  fix n
  have mask: "CHECKSUM_MASK = mask 16" by (simp add: CHECKSUM_MASK_def mask_eq_exp_minus_1)
  assume "x \<le> CHECKSUM_MASK" "y \<le> CHECKSUM_MASK"
    and eq: "(ucast (NOT x AND CHECKSUM_MASK) :: u16) = ucast (NOT y AND CHECKSUM_MASK)"
  then have lt: "x < 2 ^ 16" "y < 2 ^ 16" by (simp_all add: CHECKSUM_MASK_def word_le_nat_alt word_less_nat_alt)
  show "bit x n = bit y n"
  proof (cases "n < 16")
    case True
    have "bit (ucast (NOT x AND CHECKSUM_MASK) :: u16) n = bit (ucast (NOT y AND CHECKSUM_MASK) :: u16) n" using eq by simp
    then show ?thesis using True by (simp add: mask bit_simps)
  next
    case False
    moreover have "take_bit 16 x = x" "take_bit 16 y = y" using lt by (simp_all add: take_bit_eq_mod word_unat_eq_iff unat_mod_distrib word_less_nat_alt)
    ultimately show ?thesis by (metis bit_take_bit_iff)
  qed
qed

lemma le_CHECKSUM_MASK: "x \<le> CHECKSUM_MASK \<longleftrightarrow> unat x \<le> 65535"
  by (simp add: CHECKSUM_MASK_def word_le_nat_alt)

text \<open>A changed byte changes the checksum of the range it lies in.\<close>

lemma singular_checksum_upd:
  assumes "k < unat n" and "b \<noteq> m (p + of_nat k)"
  shows "singular_checksum (m(p + of_nat k := b)) p n \<noteq> singular_checksum m p n"
proof
  assume "singular_checksum (m(p + of_nat k := b)) p n = singular_checksum m p n"
  then have "packet_checksum_start (m(p + of_nat k := b)) p n = packet_checksum_start m p n"
    unfolding singular_checksum_def by (intro complement_eq) (simp_all add: le_CHECKSUM_MASK unat_packet_checksum_start ones_sum_le)
  then have "ones_sum (byte_sum (m(p + of_nat k := b)) p (unat n)) = ones_sum (byte_sum m p (unat n))"
    by (metis unat_packet_checksum_start)
  then have "byte_sum (m(p + of_nat k := b)) p (unat n) mod 65535 = byte_sum m p (unat n) mod 65535" by (metis ones_sum_mod)
  moreover have "unat n \<le> 65536" using u16_bound [of n] by simp
  ultimately show False using byte_sum_upd_mod assms by blast
qed

lemma transport_checksum_upd:
  assumes "k < unat n" and "b \<noteq> m (p + of_nat k)"
  shows "transport_calculate_checksum (m(p + of_nat k := b)) p n protocal s d \<noteq> transport_calculate_checksum m p n protocal s d"
proof
  let ?h = "ones_sum (byte_sum (ip4_pseudo_header n protocal s d) 0 12)"
  let ?S = "\<lambda>m. ?h + ones_sum (byte_sum m p (unat n))"
  define c where "c m = fold_checksum (packet_checksum_start (ip4_pseudo_header n protocal s d) 0 12 + packet_checksum_start m p n)" for m
  have c: "unat (c m) = ones_sum (?S m)" for m
  proof -
    have "?h \<le> 65535" "ones_sum (byte_sum m p (unat n)) \<le> 65535" by (rule ones_sum_le)+
    then show ?thesis unfolding c_def unat_fold_checksum by (simp add: unat_plus_if' unat_packet_checksum_start)
  qed
  assume "transport_calculate_checksum (m(p + of_nat k := b)) p n protocal s d = transport_calculate_checksum m p n protocal s d"
  then have "c (m(p + of_nat k := b)) = c m" 
    unfolding transport_calculate_checksum_def Let_def c_def [symmetric]
    by (intro complement_eq) (simp_all add: le_CHECKSUM_MASK c ones_sum_le)
  then have "?S (m(p + of_nat k := b)) mod 65535 = ?S m mod 65535" by (metis c ones_sum_mod)
  moreover have "(x + ones_sum y) mod 65535 = (x + y) mod 65535" for x y by (metis mod_add_right_eq ones_sum_mod)
  ultimately have "(?h + byte_sum (m(p + of_nat k := b)) p (unat n)) mod 65535 = (?h + byte_sum m p (unat n)) mod 65535" by simp
  then have "(?h + byte_sum (m(p + of_nat k := b)) p (unat n) mod 65535) mod 65535 = (?h + byte_sum m p (unat n) mod 65535) mod 65535"
    by (simp add: mod_add_right_eq)
  then have "byte_sum (m(p + of_nat k := b)) p (unat n) mod 65535 = byte_sum m p (unat n) mod 65535"
    by (rule ring_index_inj) simp_all
  moreover have "unat n \<le> 65536" using u16_bound [of n] by simp
  ultimately show False using byte_sum_upd_mod assms by blast
qed

lemma ld16_upd_neq: "b \<noteq> m x \<Longrightarrow> x = a \<or> x = a + 1 \<Longrightarrow> ld16 (m(x := b)) a \<noteq> ld16 m a"
proof
  assume "b \<noteq> m x" and "x = a \<or> x = a + 1" and "ld16 (m(x := b)) a = ld16 m a"
  then have "unat ((m(x := b)) a) + 256 * unat ((m(x := b)) (a + 1)) = unat (m a) + 256 * unat (m (a + 1))"
    by (metis unat_ld16)
  moreover have "unat y + 256 * v = unat z + 256 * w \<longleftrightarrow> unat y = unat z \<and> v = w" for y z :: u8 and v w :: nat
  proof
    assume eq: "unat y + 256 * v = unat z + 256 * w"
    have "(unat y + 256 * v) mod 256 = unat y" "(unat z + 256 * w) mod 256 = unat z" using u8_bound [of y] u8_bound [of z] by simp_all
    then have "unat y = unat z" using eq by metis
    with eq show "unat y = unat z \<and> v = w" by simp
  qed simp
  ultimately have "(m(x := b)) a = m a" "(m(x := b)) (a + 1) = m (a + 1)" by (simp_all add: word_unat_eq_iff [where 'a = 8])
  then show False using \<open>b \<noteq> m x\<close> \<open>x = a \<or> x = a + 1\<close> by auto
qed

lemma st16_upd_commute: "x \<noteq> a \<Longrightarrow> x \<noteq> a + 1 \<Longrightarrow> st16 a w (m(x := b)) = (st16 a w m)(x := b)"
  by (rule ext) (simp add: st16_def)

lemma st16_upd_absorb: "x = a \<or> x = a + 1 \<Longrightarrow> st16 a w (m(x := b)) = st16 a w m"
  by (rule ext) (auto simp: st16_def)

text \<open>Every check of a header with a checksum at \<open>a\<close> has this form.\<close>

lemma checksum_upd_detected:
  assumes ok: "ld16 m a = f (st16 a 0 m)" and ne: "b \<noteq> m x"
    and f: "\<And>m. b \<noteq> m x \<Longrightarrow> f (m(x := b)) \<noteq> f m"
  shows "ld16 (m(x := b)) a \<noteq> f (st16 a 0 (m(x := b)))"
proof (cases "x = a \<or> x = a + 1")
  case True
  then show ?thesis using ok ld16_upd_neq [of b m x a] ne by (simp add: st16_upd_absorb)
next
  case False
  then have "b \<noteq> st16 a 0 m x" using ne by (simp add: st16_at)
  from f [of "st16 a 0 m", OF this] show ?thesis using False ok by (simp add: st16_upd_commute ld16_upd)
qed

lemma ip4_validate_zero_iff:
  "ip4_validate_header p protocal m = (0, m) \<longleftrightarrow>
     ip_version m p = 4 \<and> ip_ihl m p = 5 \<and> ip_protocal m p = protocal \<and> ld16 m (p + 10) = singular_checksum (st16 (p + 10) 0 m) p 20"
  "ip4_validate_header p protocal m \<noteq> (0, m) \<Longrightarrow> ip4_validate_header p protocal m = (- EPROTO, m)"
proof -
  have "ip_version (st16 (p + 10) 0 m) p = ip_version m p" "ip_ihl (st16 (p + 10) 0 m) p = ip_ihl m p"
    "ip_protocal (st16 (p + 10) 0 m) p = ip_protocal m p"
    by (simp_all add: ip_version_def ip_ihl_def ip_protocal_def mem_simps)
  then show "ip4_validate_header p protocal m = (0, m) \<longleftrightarrow>
      ip_version m p = 4 \<and> ip_ihl m p = 5 \<and> ip_protocal m p = protocal \<and> ld16 m (p + 10) = singular_checksum (st16 (p + 10) 0 m) p 20"
    "ip4_validate_header p protocal m \<noteq> (0, m) \<Longrightarrow> ip4_validate_header p protocal m = (- EPROTO, m)"
    by (auto simp: ip4_validate_header_def Let_def EPROTO_def IP4_SIZE_def)
qed

lemma ip4_built_checksum:
  assumes "ld16 m (p + 10) = 0" and "m' = ip4_build_header p packet_size protocal source_ip dest_ip identification m"
  shows "ld16 m' (p + 10) = singular_checksum (st16 (p + 10) 0 m') p 20"
proof -
  define m1 where "m1 = ip4_fields p packet_size protocal source_ip dest_ip identification m"
  have "ld16 m1 (p + 10) = 0" using assms(1) by (simp add: m1_def ip4_fields_def Let_def mem_simps)
  then have "st16 (p + 10) 0 m1 = m1" using st16_ld16 [of "p + 10" m1] by simp
  then show ?thesis by (simp add: assms(2) ip4_build_header_def Let_def IP4_SIZE_def flip: m1_def)
qed

text \<open>C23: a header that \<open>ip4_build_header\<close> writes into a fresh buffer passes \<open>ip4_validate_header\<close>, which leaves the memory
  as it was, and its fields are those of the arguments; and when any one byte of the 20 is changed afterwards the header is
  refused with \<open>- EPROTO\<close>.\<close>

theorem ip4_header_checked:
  assumes fresh: "ld16 m (p + 10) = 0" and m': "m' = ip4_build_header p packet_size protocal source_ip dest_ip identification m"
  shows "ip4_validate_header p protocal m' = (0, m') \<and> ntohs (ip_total_length m' p) = packet_size \<and>
    ntohl (ip_source_ip m' p) = source_ip \<and> ntohl (ip_dest_ip m' p) = dest_ip \<and>
    (\<forall>k b. k < 20 \<and> b \<noteq> m' (p + of_nat k) \<longrightarrow>
       ip4_validate_header p protocal (m'(p + of_nat k := b)) = (- EPROTO, m'(p + of_nat k := b)))"
proof (intro conjI allI impI)
  note ck = ip4_built_checksum [OF fresh m'] and flds = ip4_build_header_fields [OF m']
  show "ip4_validate_header p protocal m' = (0, m')" unfolding ip4_validate_zero_iff using ck flds by simp
  show "ntohs (ip_total_length m' p) = packet_size" "ntohl (ip_source_ip m' p) = source_ip" "ntohl (ip_dest_ip m' p) = dest_ip"
    using flds by simp_all
  fix k b assume kb: "k < 20 \<and> b \<noteq> m' (p + of_nat k)"
  have "ld16 (m'(p + of_nat k := b)) (p + 10) \<noteq> singular_checksum (st16 (p + 10) 0 (m'(p + of_nat k := b))) p 20"
    by (rule checksum_upd_detected [where f = "\<lambda>m. singular_checksum m p 20", OF ck]) (use kb in \<open>simp_all add: singular_checksum_upd\<close>)
  then show "ip4_validate_header p protocal (m'(p + of_nat k := b)) = (- EPROTO, m'(p + of_nat k := b))"
    using ip4_validate_zero_iff by blast
qed

theorem ip4_header_checked_witness:
  "ld16 (\<lambda>_. 0) (0x1000 + 10) = 0 \<and>
   ip4_validate_header 0x1000 6 (ip4_build_header 0x1000 60 6 0x0A000002 0x0A000001 7 (\<lambda>_. 0)) =
     (0, ip4_build_header 0x1000 60 6 0x0A000002 0x0A000001 7 (\<lambda>_. 0))"
  using ip4_header_checked [of "\<lambda>_. 0" "0x1000", OF _ refl, of 6 60 "0x0A000002" "0x0A000001" 7] by (simp add: ld16_def)

section \<open>A frame with a TCP segment\<close>

text \<open>Memories that agree on a range, and what each writer leaves alone.\<close>

definition agree :: "mem \<Rightarrow> mem \<Rightarrow> u32 \<Rightarrow> nat \<Rightarrow> bool" where
  "agree m m' a n \<longleftrightarrow> (\<forall>k < n. m (a + of_nat k) = m' (a + of_nat k))"

lemma agreeD: "agree m m' a n \<Longrightarrow> k < n \<Longrightarrow> m (a + of_nat k) = m' (a + of_nat k)"
  by (simp add: agree_def)

lemma agree_trans: "agree m m' a n \<Longrightarrow> agree m' m'' a n \<Longrightarrow> agree m m'' a n"
  by (simp add: agree_def)

lemma agree_sub: "agree m m' a n \<Longrightarrow> i + j \<le> n \<Longrightarrow> agree m m' (a + of_nat i) j"
  using agreeD [of m m' a n "i + _"] by (simp add: agree_def add.assoc)

lemma agree_ld16: "agree m m' a 2 \<Longrightarrow> ld16 m a = ld16 m' a"
  using agreeD [of m m' a 2 0] agreeD [of m m' a 2 1] by (simp add: ld16_def)

lemma agree_ld32: "agree m m' a 4 \<Longrightarrow> ld32 m a = ld32 m' a"
  using agreeD [of m m' a 4 0] agreeD [of m m' a 4 1] agreeD [of m m' a 4 2] agreeD [of m m' a 4 3] by (simp add: ld32_def)

lemma agree_get_bytes: "agree m m' a n \<Longrightarrow> get_bytes m a n = get_bytes m' a n"
  by (simp add: get_bytes_def agree_def)

lemma agree_outside:
  assumes "\<And>x. (\<And>j. j < l \<Longrightarrow> x \<noteq> a + of_nat (i + j)) \<Longrightarrow> m' x = m x" and "k + n \<le> i \<or> i + l \<le> k"
    and "i + l \<le> 4294967296" and "k + n \<le> 4294967296"
  shows "agree m' m (a + of_nat k) n"
  unfolding agree_def
proof (intro allI impI)
  fix q assume q: "q < n"
  have "a + of_nat k + of_nat q \<noteq> a + of_nat (i + j)" if "j < l" for j
    using word_offset_neq [of "k + q" "i + j" a] assms(2-4) q that by (auto simp: add.assoc)
  then show "m' (a + of_nat k + of_nat q) = m (a + of_nat k + of_nat q)" by (rule assms(1))
qed

lemma get_write_bytes: "length xs \<le> 4294967296 \<Longrightarrow> get_bytes (write_bytes xs a m) a (length xs) = xs"
  using write_bytes_written [of xs m a] by (intro nth_equalityI) (simp_all add: get_bytes_def written_def)

lemma agree_write_bytes:
  assumes "k + n \<le> i \<or> i + length xs \<le> k" "i + length xs \<le> 4294967296" "k + n \<le> 4294967296"
  shows "agree (write_bytes xs (a + of_nat i) m) m (a + of_nat k) n"
proof (rule agree_outside [OF _ assms])
  fix x assume "\<And>j. j < length xs \<Longrightarrow> x \<noteq> a + of_nat (i + j)"
  then show "write_bytes xs (a + of_nat i) m x = m x" using assms(2) by (intro write_bytes_other) (auto simp: add.assoc)
qed

lemma byte_sum_cong: "agree m m' p n \<Longrightarrow> byte_sum m p n = byte_sum m' p n"
  unfolding byte_sum_def agree_def by (rule sum.cong) simp_all

lemma packet_checksum_start_cong: "agree m m' p (unat n) \<Longrightarrow> packet_checksum_start m p n = packet_checksum_start m' p n"
  by (drule byte_sum_cong) (simp add: word_unat_eq_iff unat_packet_checksum_start)

lemma transport_checksum_cong:
  "agree m m' p (unat n) \<Longrightarrow> transport_calculate_checksum m p n protocal s d = transport_calculate_checksum m' p n protocal s d"
  by (drule packet_checksum_start_cong) (simp add: transport_calculate_checksum_def)

lemma tcp_validate_zero_iff:
  "tcp_validate_header t n s d m = (0, m) \<longleftrightarrow> ld16 m (t + 16) = transport_calculate_checksum (st16 (t + 16) 0 m) t n IP4_PROTOCAL_TCP s d"
  "tcp_validate_header t n s d m \<noteq> (0, m) \<Longrightarrow> tcp_validate_header t n s d m = (- EPROTO, m)"
  by (auto simp: tcp_validate_header_def tcp_calculate_checksum_def Let_def EPROTO_def)

lemma tcp_built_checksum:
  assumes "tcp_build_header t s sp d dp seq ack flags wnd options len m = Some m'"
  shows "ld16 m' (t + 16) = transport_calculate_checksum (st16 (t + 16) 0 m') t (ucast len) IP4_PROTOCAL_TCP s d"
  using assms by (auto simp: tcp_build_header_def tcp_calculate_checksum_def Let_def split: if_splits)

lemma all_less_20: "(\<And>j. j < 20 \<Longrightarrow> x \<noteq> (a :: u32) + of_nat j) \<Longrightarrow> x \<noteq> a \<and> x \<noteq> a + 1 \<and> x \<noteq> a + 2 \<and> x \<noteq> a + 3 \<and> x \<noteq> a + 4 \<and>
  x \<noteq> a + 5 \<and> x \<noteq> a + 6 \<and> x \<noteq> a + 7 \<and> x \<noteq> a + 8 \<and> x \<noteq> a + 9 \<and> x \<noteq> a + 10 \<and> x \<noteq> a + 11 \<and> x \<noteq> a + 12 \<and> x \<noteq> a + 13 \<and>
  x \<noteq> a + 14 \<and> x \<noteq> a + 15 \<and> x \<noteq> a + 16 \<and> x \<noteq> a + 17 \<and> x \<noteq> a + 18 \<and> x \<noteq> a + 19"
proof -
  assume *: "\<And>j. j < 20 \<Longrightarrow> x \<noteq> a + of_nat j"
  from * [of 0] * [of 1] * [of 2] * [of 3] * [of 4] * [of 5] * [of 6] * [of 7] * [of 8] * [of 9] * [of 10] * [of 11] * [of 12]
    * [of 13] * [of 14] * [of 15] * [of 16] * [of 17] * [of 18] * [of 19] show ?thesis by simp
qed

lemma ip4_build_header_outside:
  "(\<And>j. j < 20 \<Longrightarrow> x \<noteq> p + of_nat j) \<Longrightarrow> ip4_build_header p plen protocal s d ident m x = m x"
  by (drule all_less_20) (simp add: ip4_build_header_def ip4_fields_def Let_def st16_def st32_def ac_simps)

lemma tcp_fields_outside:
  "(\<And>j. j < 20 \<Longrightarrow> x \<noteq> p + of_nat j) \<Longrightarrow> tcp_fields p sp dp seq ack flags wnd ol m x = m x"
  by (drule all_less_20) (simp add: tcp_fields_def Let_def st16_def st32_def ac_simps)

lemma tcp_flags_byte_bits:
  "bit (tcp_flags_byte flags b) 0 \<longleftrightarrow> flags AND TCPCB_FLAG_FIN \<noteq> 0" "bit (tcp_flags_byte flags b) 1 \<longleftrightarrow> flags AND TCPCB_FLAG_SYN \<noteq> 0"
  "bit (tcp_flags_byte flags b) 2 \<longleftrightarrow> flags AND TCPCB_FLAG_RST \<noteq> 0" "bit (tcp_flags_byte flags b) 3 \<longleftrightarrow> flags AND TCPCB_FLAG_PSH \<noteq> 0"
  "bit (tcp_flags_byte flags b) 4 \<longleftrightarrow> flags AND TCPCB_FLAG_ACK \<noteq> 0"
  by (simp_all add: tcp_flags_byte_def Let_def set_bits_def bit_simps flag_bit_def)

lemma tcp_fields_read:
  fixes t :: u32
  assumes "m' = tcp_fields t sp dp seq ack flags wnd ol m"
  shows "ld16 m' t = htons sp" "ld16 m' (t + 2) = htons dp" "ld32 m' (t + 4) = htonl seq" "ld32 m' (t + 8) = htonl ack"
    "tcp_data_offset m' t = take_bit 4 (ucast ((TCP_SIZE + ol) div 4))" "\<exists>b. m' (t + 13) = tcp_flags_byte flags b"
    "ld16 m' (t + 14) = htons wnd"
proof -
  note d = assms tcp_fields_def Let_def
  show "ld16 m' t = htons sp" "ld16 m' (t + 2) = htons dp" "ld16 m' (t + 14) = htons wnd" by (simp_all add: d mem_simps)
  show "ld32 m' (t + 4) = htonl seq" "ld32 m' (t + 8) = htonl ack" by (simp_all add: d mem_simps)
  show "tcp_data_offset m' t = take_bit 4 (ucast ((TCP_SIZE + ol) div 4))" 
    by (simp add: d tcp_data_offset_def mem_simps get_set_bits)
  show "\<exists>b. m' (t + 13) = tcp_flags_byte flags b" by (simp add: d mem_simps) blast
qed

lemma tcp_build_header_parts:
  assumes b: "tcp_build_header t s sp d dp seq ack flags wnd options len m = Some m'" and l: "length options \<le> 40"
  shows "agree m' (tcp_fields t sp dp seq ack flags wnd (of_nat (length options)) m) t 16"
    and "get_bytes m' (t + 20) (length options) = options"
    and "\<And>x. (\<And>j. j < 20 + length options \<Longrightarrow> x \<noteq> t + of_nat j) \<Longrightarrow> m' x = m x"
    and "length options mod 4 = 0"
proof -
  define F where "F = tcp_fields t sp dp seq ack flags wnd (of_nat (length options)) m"
  define W where "W = write_bytes options (t + of_nat 20) F"
  obtain ck where m': "m' = st16 (t + of_nat 16) ck W" and al: "(of_nat (length options) :: u32) mod 4 = 0"
    using b by (auto simp: tcp_build_header_def tcp_calculate_checksum_def Let_def W_def F_def TCP_SIZE_def split: if_splits)
  have st: "m' x = W x" if "\<And>j. j < 2 \<Longrightarrow> x \<noteq> t + of_nat (16 + j)" for x
    using that [of 0] that [of 1] by (simp add: m' st16_def ac_simps)
  have "agree m' W (t + of_nat 0) 16" by (rule agree_outside [where i = 16 and l = 2]) (use st in auto)
  moreover have "agree W F (t + of_nat 0) 16" unfolding W_def by (rule agree_write_bytes) (use l in auto)
  ultimately show "agree m' (tcp_fields t sp dp seq ack flags wnd (of_nat (length options)) m) t 16"
    unfolding F_def by (auto intro: agree_trans)
  have "agree m' W (t + of_nat 20) (length options)" by (rule agree_outside [where i = 16 and l = 2]) (use st l in auto)
  then have "get_bytes m' (t + of_nat 20) (length options) = get_bytes W (t + of_nat 20) (length options)" by (rule agree_get_bytes)
  then show "get_bytes m' (t + 20) (length options) = options" unfolding W_def using get_write_bytes [of options] l by simp
  show "m' x = m x" if x: "\<And>j. j < 20 + length options \<Longrightarrow> x \<noteq> t + of_nat j" for x
  proof -
    have "m' x = W x" by (rule st, rule x) simp
    also have "\<dots> = F x" unfolding W_def
    proof (rule write_bytes_other)
      show "x \<noteq> t + of_nat 20 + of_nat i" if "i < length options" for i using x [of "20 + i"] that by (simp add: add.assoc)
    qed (use l in simp)
    also have "\<dots> = m x" unfolding F_def by (rule tcp_fields_outside) (use x in simp)
    finally show ?thesis .
  qed
  have "unat ((of_nat (length options) :: u32) mod 4) = length options mod 4"
    using l by (simp add: unat_mod_distrib unat_of_nat_u32)
  then show "length options mod 4 = 0" using al by simp
qed

lemma WORD_ALIGN_offset: "\<exists>d < 4. WORD_ALIGN x = x + of_nat d"
proof -
  have "WORD_ALIGN x = (x + 3) AND (- (2 ^ 2))" by (simp add: WORD_ALIGN_def WORD_SIZE_def add.commute)
  then have "WORD_ALIGN x = x + 3 - (x + 3) mod 4" unfolding and_minus_power by simp
  moreover define r where "r = unat ((x + 3) mod 4)"
  have "r < 4" unfolding r_def by (simp add: unat_mod_distrib)
  moreover have "(x + 3) mod 4 = of_nat r" by (simp add: r_def)
  ultimately have "WORD_ALIGN x = x + of_nat (3 - r)" by (simp add: of_nat_diff)
  then show ?thesis by (intro exI [of _ "3 - r"]) simp
qed

text \<open>Where the parts of a frame lie.\<close>

lemma tcp_create_frame_layout:
  assumes f: "tcp_create_frame ssin dsin dev_addr dest_mac kdata rnd seq ack flags rcv_wnd options payload m = Some (skb, m')"
  obtains e d m2 where "skb_data skb = e" "e = kdata + of_nat d" "d < 4"
    "tcp_build_header (e + 34) (sin_addr ssin) (sin_port ssin) (sin_addr dsin) (sin_port dsin) seq ack flags (ucast rcv_wnd)
       options (20 + of_nat (length options) + of_nat (length payload))
       (write_bytes payload (e + 54 + of_nat (length options))
         (clear_bytes kdata (58 + of_nat (length options) + of_nat (length payload)) m)) = Some m2"
    "m' = ethernet_build_header e ETH_P_IP dev_addr dest_mac
       (ip4_build_header (e + 14) (ucast (40 + of_nat (length options) + of_nat (length payload) :: u32)) IP4_PROTOCAL_TCP
         (sin_addr ssin) (sin_addr dsin) rnd m2)"
    "skb_len skb = 54 + of_nat (length options) + of_nat (length payload)"
proof -
  obtain d where d: "d < 4" "WORD_ALIGN (kdata + (54 + of_nat (length options))) = kdata + (54 + of_nat (length options)) + of_nat d"
    using WORD_ALIGN_offset by blast
  define e where "e = kdata + of_nat d"
  have w: "WORD_ALIGN (kdata + (of_nat (length options) + 54)) = e + (of_nat (length options) + 54)"
    using d(2) by (simp add: e_def ac_simps)
  have e: "e + (l + 54) - l - 54 = e" "e + (l + 54) - l - 40 = e + 14" "e + (l + 54) - (l + 20) = e + 34" for l by simp_all
  note defs = tcp_create_frame_def skb_alloc_def skb_put_def skb_push_def MAX_TCP_HEADER_def ETH_SIZE_def IP4_SIZE_def TCP_SIZE_def
    WORD_SIZE_def Let_def
  obtain m2 where "tcp_build_header (e + 34) (sin_addr ssin) (sin_port ssin) (sin_addr dsin) (sin_port dsin) seq ack flags (ucast rcv_wnd)
       options (20 + of_nat (length options) + of_nat (length payload))
       (write_bytes payload (e + 54 + of_nat (length options))
         (clear_bytes kdata (58 + of_nat (length options) + of_nat (length payload)) m)) = Some m2"
    "m' = ethernet_build_header e ETH_P_IP dev_addr dest_mac
       (ip4_build_header (e + 14) (ucast (40 + of_nat (length options) + of_nat (length payload) :: u32)) IP4_PROTOCAL_TCP
         (sin_addr ssin) (sin_addr dsin) rnd m2)"
    "skb_data skb = e" "skb_len skb = 54 + of_nat (length options) + of_nat (length payload)"
    using f unfolding defs by (auto simp: w e ac_simps bind_eq_Some_conv)
  with d(1) e_def show ?thesis by (intro that [of e d m2])
qed

definition made_segment :: "sockaddr_in \<Rightarrow> sockaddr_in \<Rightarrow> u32 \<Rightarrow> u32 \<Rightarrow> u16 \<Rightarrow> u16 \<Rightarrow> u8 list \<Rightarrow> u8 list \<Rightarrow> tcp_segment" where
  "made_segment ssin dsin seq ack flags wnd options payload =
     \<lparr>seg_source_port = sin_port ssin, seg_dest_port = sin_port dsin, seg_seq = seq, seg_ack = ack,
      seg_fin = (flags AND TCPCB_FLAG_FIN \<noteq> 0), seg_syn = (flags AND TCPCB_FLAG_SYN \<noteq> 0),
      seg_rst = (flags AND TCPCB_FLAG_RST \<noteq> 0), seg_push = (flags AND TCPCB_FLAG_PSH \<noteq> 0),
      seg_acked = (flags AND TCPCB_FLAG_ACK \<noteq> 0), seg_window = wnd, seg_options = options, seg_data = Some payload\<rparr>"

lemma ethernet_outside:
  assumes "length dev_addr = 6" "length dest_mac = 6" "\<And>j. j < 14 \<Longrightarrow> x \<noteq> e + of_nat j"
  shows "ethernet_build_header e proto dev_addr dest_mac m x = m x"
proof -
  have "x \<noteq> e + 6 + of_nat i" if "i < 6" for i using assms(3) [of "6 + i"] that by (simp add: add.assoc)
  moreover have "x \<noteq> e + 12" "x \<noteq> e + 12 + 1" using assms(3) [of 12] assms(3) [of 13] by (simp_all add: add.assoc)
  ultimately show ?thesis
    unfolding ethernet_build_header_def using assms by (simp add: write_bytes_other st16_def)
qed

lemma ethernet_type:
  assumes "length dev_addr = 6" "length dest_mac = 6"
  shows "ld16 (ethernet_build_header e proto dev_addr dest_mac m) (e + 12) = htons proto"
proof -
  let ?m = "st16 (e + 12) (htons proto) m"
  have "agree (write_bytes dest_mac (e + of_nat 0) ?m) ?m (e + of_nat 12) 2"
    by (rule agree_write_bytes) (use assms in simp_all)
  moreover have "agree (write_bytes dev_addr (e + of_nat 6) m') m' (e + of_nat 12) 2" for m'
    by (rule agree_write_bytes) (use assms in simp_all)
  ultimately have "agree (write_bytes dev_addr (e + of_nat 6) (write_bytes dest_mac (e + of_nat 0) ?m)) ?m (e + of_nat 12) 2"
    by (blast intro: agree_trans)
  then show ?thesis unfolding ethernet_build_header_def by (simp add: agree_ld16)
qed

text \<open>The two layers below leave the segment alone.\<close>

lemma frame_agree:
  assumes "length dev_addr = 6" "length dest_mac = 6" and m': "m' = ethernet_build_header e ETH_P_IP dev_addr dest_mac m3"
    and m3: "m3 = ip4_build_header (e + 14) n proto s d rnd m2" and l: "l \<le> 65536"
  shows "agree m' m3 (e + 14) 20" "agree m' m2 (e + 34) l"
proof -
  have eth: "m' x = m3 x" if "\<And>j. j < 14 \<Longrightarrow> x \<noteq> e + of_nat (0 + j)" for x
    unfolding m' by (rule ethernet_outside) (use assms(1,2) that in simp_all)
  have ip: "m3 x = m2 x" if "\<And>j. j < 20 \<Longrightarrow> x \<noteq> e + of_nat (14 + j)" for x
    unfolding m3 by (rule ip4_build_header_outside) (use that in \<open>simp add: add.assoc\<close>)
  have "agree m' m3 (e + of_nat 14) 20" by (rule agree_outside [where i = 0 and l = 14]) (use eth in auto)
  then show "agree m' m3 (e + 14) 20" by simp
  have "agree m' m3 (e + of_nat 34) l" by (rule agree_outside [where i = 0 and l = 14]) (use eth l in auto)
  moreover have "agree m3 m2 (e + of_nat 34) l" by (rule agree_outside [where i = 14 and l = 20]) (use ip l in auto)
  ultimately show "agree m' m2 (e + 34) l" by (auto intro: agree_trans)
qed

lemma unat_of_nat_u16: "n < 65536 \<Longrightarrow> unat (of_nat n :: u16) = n"
  by (simp add: unat_of_nat)

lemma agree_sub_0: "agree m m' a n \<Longrightarrow> j \<le> n \<Longrightarrow> agree m m' a j"
  by (simp add: agree_def)

text \<open>What a receiver reads of a segment whose header was built at \<open>t\<close> below an IP header at \<open>ip\<close>.\<close>

lemma read_built_segment:
  fixes t :: u32
  assumes b: "tcp_build_header t s sp d dp seq ack flags wnd options len m1 = Some m2"
    and m1: "get_bytes m1 (t + 20 + of_nat (length options)) (length payload) = payload"
    and l: "length options \<le> 40" "20 + length options + length payload \<le> 65535"
    and ag: "agree m' m2 t (20 + length options + length payload)"
    and ip: "ntohs (ip_total_length m' ip) = of_nat (40 + length options + length payload)" "ip_ihl m' ip = 5"
      "40 + length options + length payload < 65536"
  shows "read_segment m' ip t = made_segment \<lparr>sin_port = sp, sin_addr = s\<rparr> \<lparr>sin_port = dp, sin_addr = d\<rparr> seq ack flags wnd options payload"
proof -
  let ?ol = "length options" and ?pl = "length payload"
  note parts = tcp_build_header_parts [OF b l(1)]
  define F where "F = tcp_fields t sp dp seq ack flags wnd (of_nat ?ol) m1"
  have F: "agree m' F t 16" using agree_trans [OF agree_sub_0 [OF ag] parts(1)] by (simp add: F_def)
  note rd = tcp_fields_read [OF F_def]
  have sub: "agree m' F (t + of_nat i) j" if "i + j \<le> 16" for i j using agree_sub [OF F that] .
  have h: "ld16 m' t = htons sp" "ld16 m' (t + 2) = htons dp" "ld32 m' (t + 4) = htonl seq" "ld32 m' (t + 8) = htonl ack"
    "ld16 m' (t + 14) = htons wnd"
    using agree_ld16 [OF sub [of 0 2]] agree_ld16 [OF sub [of 2 2]] agree_ld16 [OF sub [of 14 2]]
      agree_ld32 [OF sub [of 4 4]] agree_ld32 [OF sub [of 8 4]] rd by simp_all
  obtain fb where fb: "m' (t + 13) = tcp_flags_byte flags fb" using agreeD [OF F, of 13] rd(6) by auto
  have "unat ((20 + of_nat ?ol) div 4 :: u32) = (20 + ?ol) div 4"
    using l by (simp add: unat_div_distrib unat_of_nat_u32 unat_plus_if')
  then have "unat (ucast ((20 + of_nat ?ol) div 4 :: u32) :: u8) = (20 + ?ol) div 4"
    using l by (simp add: unsigned_ucast_eq take_bit_eq_mod)
  then have "unat (take_bit 4 (ucast ((TCP_SIZE + of_nat ?ol) div 4) :: u8)) = (20 + ?ol) div 4"
    using l by (simp add: unsigned_take_bit_eq take_bit_nat_eq_self TCP_SIZE_def)
  then have off: "unat (tcp_data_offset m' t) = (20 + ?ol) div 4"
    using agreeD [OF F, of 12] rd(5) by (simp add: tcp_data_offset_def)
  have al: "4 * ((20 + ?ol) div 4) = 20 + ?ol" using parts(4) by auto
  have "ucast (tcp_data_offset m' t) = (of_nat ((20 + ?ol) div 4) :: u16)" using off by (metis of_nat_unat)
  then have "tcp_option_length m' t = of_nat (4 * ((20 + ?ol) div 4)) - 20" by (simp add: tcp_option_length_def TCP_SIZE_def)
  then have ol: "tcp_option_length m' t = of_nat ?ol" unfolding al by simp
  have "int (unat (ntohs (ip_total_length m' ip))) = int (40 + ?ol + ?pl)"
    unfolding ip(1) using ip(3) by (simp only: unat_of_nat_u16)
  moreover have "uint (tcp_data_offset m' t) * 4 = int (20 + ?ol)" using off al by (metis int_ops(7) mult.commute of_nat_numeral uint_nat)
  ultimately have "tcp_payload_lenth m' ip t = Some (of_nat ?pl)" 
    using ip(2) by (simp add: tcp_payload_lenth_def Let_def)
  moreover have "get_bytes m' (t + 20) ?ol = options"
    using agree_get_bytes [OF agree_sub [OF ag, of 20 ?ol]] parts(2) by simp
  moreover have "get_bytes m' (t + 20 + of_nat ?ol) ?pl = payload"
  proof -
    have "agree m2 m1 (t + of_nat (20 + ?ol)) ?pl"
      by (rule agree_outside [where i = 0 and l = "20 + ?ol"]) (use parts(3) l in auto)
    then have "agree m' m1 (t + of_nat (20 + ?ol)) ?pl" using agree_sub [OF ag, of "20 + ?ol" ?pl] by (auto intro: agree_trans)
    from agree_get_bytes [OF this] show ?thesis using m1 by (simp add: add.assoc)
  qed
  moreover have "unat (of_nat ?ol :: u16) = ?ol" "unat (of_nat ?pl :: u16) = ?pl" using l by (simp_all add: unat_of_nat_u16)
  moreover from this have "ucast (of_nat ?ol :: u16) = (of_nat ?ol :: u32)" by (metis of_nat_unat)
  ultimately show ?thesis
    using h fb ol by (simp add: read_segment_def made_segment_def tcp_payload_def TCP_SIZE_def tcp_flags_byte_bits
        tcp_flags_byte_bits(2) [unfolded One_nat_def])
qed

lemma ucast_of_nat_u16: "n < 65536 \<Longrightarrow> (ucast (of_nat n :: u32) :: u16) = of_nat n"
  by (simp add: word_unat_eq_iff unsigned_ucast_eq take_bit_eq_mod unat_of_nat)

lemma agree_st16: "agree m m' a n \<Longrightarrow> agree (st16 x w m) (st16 x w m') a n"
  by (simp add: agree_def st16_def)

text \<open>What \<open>tcp_rcv\<close> makes of a frame at \<open>e\<close> is decided by the headers of the two layers below and the check of the segment.\<close>

definition ip_frame :: "sockaddr_in \<Rightarrow> sockaddr_in \<Rightarrow> u32 \<Rightarrow> nat \<Rightarrow> mem \<Rightarrow> bool" where
  "ip_frame ssin dsin e n m \<longleftrightarrow>
     ld16 m (e + 12) = htons ETH_P_IP \<and> ip_total_length m (e + 14) = htons (of_nat (20 + n)) \<and> ip_ihl m (e + 14) = 5 \<and>
     ip_protocal m (e + 14) = IP4_PROTOCAL_TCP \<and> ip_source_ip m (e + 14) = htonl (sin_addr ssin) \<and>
     ip_dest_ip m (e + 14) = htonl (sin_addr dsin)"

lemma ip_frame_agree: "ip_frame ssin dsin e n m \<Longrightarrow> agree m' m e 34 \<Longrightarrow> ip_frame ssin dsin e n m'"
proof -
  assume fr: "ip_frame ssin dsin e n m" and ag: "agree m' m e 34"
  have "agree m' m (e + of_nat i) j" if "i + j \<le> 34" for i j using agree_sub [OF ag that] .
  from agree_ld16 [OF this [of 12 2]] agree_ld16 [OF this [of 16 2]] agree_ld32 [OF this [of 26 4]] agree_ld32 [OF this [of 30 4]]
    agreeD [OF ag, of 14] agreeD [OF ag, of 23] fr
  show ?thesis by (simp add: ip_frame_def ip_total_length_def ip_ihl_def ip_protocal_def ip_source_ip_def ip_dest_ip_def add.assoc)
qed

lemma tcp_rcv_frame:
  assumes "ip_frame ssin dsin e n m" and "skb_data rskb = e"
  shows "tcp_validate_header (e + 34) (of_nat n) (sin_addr ssin) (sin_addr dsin) m = (- EPROTO, m) \<Longrightarrow> tcp_rcv dsin ssin rskb m = (- EPROTO, None, m)"
    and "tcp_validate_header (e + 34) (of_nat n) (sin_addr ssin) (sin_addr dsin) m = (0, m) \<Longrightarrow>
      ld16 m (e + 34) = htons (sin_port ssin) \<Longrightarrow> ld16 m (e + 36) = htons (sin_port dsin) \<Longrightarrow>
      \<exists>skb'. tcp_rcv dsin ssin rskb m = (0, Some skb', m) \<and> skb_nh skb' = e + 14 \<and> skb_h skb' = e + 34"
proof -
  have l: "of_nat (20 + n) - (20 :: u16) = of_nat n" by simp
  note d = tcp_rcv_def ethernet_rcv_def ip4_rcv_def skb_pull_def ETH_SIZE_def IP4_SIZE_def Let_def
  note fr = assms(1) [unfolded ip_frame_def] assms(2)
  show "tcp_rcv dsin ssin rskb m = (- EPROTO, None, m)"
    if "tcp_validate_header (e + 34) (of_nat n) (sin_addr ssin) (sin_addr dsin) m = (- EPROTO, m)"
    using fr that l by (simp add: d EPROTO_def add.assoc)
  show "\<exists>skb'. tcp_rcv dsin ssin rskb m = (0, Some skb', m) \<and> skb_nh skb' = e + 14 \<and> skb_h skb' = e + 34"
    if "tcp_validate_header (e + 34) (of_nat n) (sin_addr ssin) (sin_addr dsin) m = (0, m)"
      "ld16 m (e + 34) = htons (sin_port ssin)" "ld16 m (e + 36) = htons (sin_port dsin)"
    using fr that l by (simp add: d add.assoc)
qed

lemma tcp_frame_parts:
  assumes f: "tcp_create_frame ssin dsin dev_addr dest_mac kdata rnd seq ack flags rcv_wnd options payload m = Some (skb, m')"
    and mac: "length dev_addr = 6" "length dest_mac = 6" and l: "length options \<le> 40" "length options + length payload < 65496"
    and n: "n = 20 + length options + length payload"
  obtains m2 where "ip_frame ssin dsin (skb_data skb) n m'" "agree m' m2 (skb_data skb + 34) n"
    "tcp_build_header (skb_data skb + 34) (sin_addr ssin) (sin_port ssin) (sin_addr dsin) (sin_port dsin) seq ack flags (ucast rcv_wnd)
       options (of_nat n) (write_bytes payload (skb_data skb + 54 + of_nat (length options))
         (clear_bytes kdata (58 + of_nat (length options) + of_nat (length payload)) m)) = Some m2"
proof -
  let ?ol = "length options" and ?pl = "length payload"
  from tcp_create_frame_layout [OF f] obtain e d m2 where e: "skb_data skb = e"
    and b: "tcp_build_header (e + 34) (sin_addr ssin) (sin_port ssin) (sin_addr dsin) (sin_port dsin) seq ack flags (ucast rcv_wnd)
       options (20 + of_nat ?ol + of_nat ?pl)
       (write_bytes payload (e + 54 + of_nat ?ol) (clear_bytes kdata (58 + of_nat ?ol + of_nat ?pl) m)) = Some m2"
    and m': "m' = ethernet_build_header e ETH_P_IP dev_addr dest_mac
       (ip4_build_header (e + 14) (ucast (40 + of_nat ?ol + of_nat ?pl :: u32)) IP4_PROTOCAL_TCP (sin_addr ssin) (sin_addr dsin) rnd m2)"
    by blast
  define m3 where "m3 = ip4_build_header (e + 14) (of_nat (20 + n)) IP4_PROTOCAL_TCP (sin_addr ssin) (sin_addr dsin) rnd m2"
  have "(ucast (of_nat (20 + n) :: u32) :: u16) = of_nat (20 + n)" using l by (intro ucast_of_nat_u16) (simp add: n)
  then have m'3: "m' = ethernet_build_header e ETH_P_IP dev_addr dest_mac m3"
    using m' by (simp add: m3_def n ac_simps)
  have ag: "agree m' m3 (e + 14) 20" "agree m' m2 (e + 34) n"
    using frame_agree [OF mac m'3 m3_def, of n] l by (simp_all add: n)
  have "ip_frame ssin dsin e n m'"
    using ip4_build_header_fields [OF m3_def] agree_ld16 [OF agree_sub [OF ag(1), of 2 2]] agreeD [OF ag(1), of 0] agreeD [OF ag(1), of 9]
      agree_ld32 [OF agree_sub [OF ag(1), of 12 4]] agree_ld32 [OF agree_sub [OF ag(1), of 16 4]] ethernet_type [OF mac]
    by (simp add: ip_frame_def m'3 ip_total_length_def ip_ihl_def ip_protocal_def ip_source_ip_def ip_dest_ip_def)
  then show ?thesis using that [of m2] ag(2) b by (simp add: e n add.assoc)
qed

text \<open>C10: a frame that \<open>tcp_create_skb\<close> makes is accepted by the checks of \<open>tcp_handler\<close> at the other end of the connection,
  and what is read there is the segment that was asked for: ports, numbers, flags, window, options and data. If any byte of
  the segment changes on the way, the frame is refused. The frame may lie anywhere in memory.\<close>

theorem tcp_frame_roundtrip:
  assumes f: "tcp_create_frame ssin dsin dev_addr dest_mac kdata rnd seq ack flags rcv_wnd options payload m = Some (skb, m')"
    and mac: "length dev_addr = 6" "length dest_mac = 6" and l: "length options \<le> 40" "length options + length payload < 65496"
    and r: "skb_data rskb = skb_data skb"
  shows "\<exists>skb'. tcp_rcv dsin ssin rskb m' = (0, Some skb', m') \<and>
    read_segment m' (skb_nh skb') (skb_h skb') = made_segment ssin dsin seq ack flags (ucast rcv_wnd) options payload \<and>
    (\<forall>k b. k < 20 + length options + length payload \<and> b \<noteq> m' (skb_h skb' + of_nat k) \<longrightarrow>
       tcp_rcv dsin ssin rskb (m'(skb_h skb' + of_nat k := b)) = (- EPROTO, None, m'(skb_h skb' + of_nat k := b)))"
proof -
  let ?ol = "length options" and ?pl = "length payload" and ?e = "skb_data skb"
  define n where "n = 20 + ?ol + ?pl"
  from tcp_frame_parts [OF f mac l n_def] obtain m2 where fr: "ip_frame ssin dsin ?e n m'" and ag: "agree m' m2 (?e + 34) n"
    and b: "tcp_build_header (?e + 34) (sin_addr ssin) (sin_port ssin) (sin_addr dsin) (sin_port dsin) seq ack flags (ucast rcv_wnd)
       options (of_nat n) (write_bytes payload (?e + 54 + of_nat ?ol) (clear_bytes kdata (58 + of_nat ?ol + of_nat ?pl) m)) = Some m2" .
  have "n < 65536" using l by (simp add: n_def)
  then have n: "n < 65536" "unat (of_nat n :: u16) = n" by (simp_all only: unat_of_nat_u16)
  have "read_segment m' (?e + 14) (?e + 34) = made_segment \<lparr>sin_port = sin_port ssin, sin_addr = sin_addr ssin\<rparr>
      \<lparr>sin_port = sin_port dsin, sin_addr = sin_addr dsin\<rparr> seq ack flags (ucast rcv_wnd) options payload"
    by (rule read_built_segment [OF b])
      (use l ag fr in \<open>simp_all add: n_def ip_frame_def get_write_bytes add.assoc\<close>)
  then have rd: "read_segment m' (?e + 14) (?e + 34) = made_segment ssin dsin seq ack flags (ucast rcv_wnd) options payload"
    by (simp add: made_segment_def)
  then have ports: "ld16 m' (?e + 34) = htons (sin_port ssin)" "ld16 m' (?e + 36) = htons (sin_port dsin)"
    by (auto simp: read_segment_def made_segment_def add.assoc htons_eq_iff)
  let ?f = "\<lambda>m. transport_calculate_checksum m (?e + 34) (of_nat n) IP4_PROTOCAL_TCP (sin_addr ssin) (sin_addr dsin)"
  have "ld16 m' (?e + 34 + 16) = ld16 m2 (?e + 34 + 16)" using agree_ld16 [OF agree_sub [OF ag, of 16 2]] by (simp add: n_def)
  also have "\<dots> = ?f (st16 (?e + 34 + 16) 0 m2)" using tcp_built_checksum [OF b] n by (simp add: ucast_of_nat_u16)
  also have "\<dots> = ?f (st16 (?e + 34 + 16) 0 m')" by (rule transport_checksum_cong [OF agree_st16]) (use ag n in \<open>simp add: agree_def\<close>)
  finally have ck: "ld16 m' (?e + 34 + 16) = ?f (st16 (?e + 34 + 16) 0 m')" .
  then have "tcp_validate_header (?e + 34) (of_nat n) (sin_addr ssin) (sin_addr dsin) m' = (0, m')" by (simp only: tcp_validate_zero_iff)
  from tcp_rcv_frame(2) [OF fr r this ports] obtain skb' where
    skb': "tcp_rcv dsin ssin rskb m' = (0, Some skb', m')" "skb_nh skb' = ?e + 14" "skb_h skb' = ?e + 34" by blast
  have "tcp_rcv dsin ssin rskb (m'(?e + 34 + of_nat k := v)) = (- EPROTO, None, m'(?e + 34 + of_nat k := v))"
    if k: "k < n" "v \<noteq> m' (?e + 34 + of_nat k)" for k v
  proof (rule tcp_rcv_frame(1) [OF _ r])
    let ?m = "m'(?e + 34 + of_nat k := v)"
    have "?e + of_nat i \<noteq> ?e + of_nat (34 + k)" if "i < 34" for i using word_offset_neq [of i "34 + k"] that k n by simp
    then have "agree ?m m' ?e 34" by (simp add: agree_def add.assoc)
    then show "ip_frame ssin dsin ?e n ?m" by (rule ip_frame_agree [OF fr])
    have "ld16 ?m (?e + 34 + 16) \<noteq> ?f (st16 (?e + 34 + 16) 0 ?m)"
      by (rule checksum_upd_detected [where f = ?f, OF ck k(2)]) (use k n in \<open>simp add: transport_checksum_upd\<close>)
    then show "tcp_validate_header (?e + 34) (of_nat n) (sin_addr ssin) (sin_addr dsin) ?m = (- EPROTO, ?m)"
      using tcp_validate_zero_iff by blast
  qed
  then show ?thesis using skb' rd by (intro exI [of _ skb']) (simp add: n_def)
qed

theorem tcp_frame_roundtrip_witness:
  "\<exists>skb m' skb'. tcp_create_frame \<lparr>sin_port = 4000, sin_addr = 0x0A00020F\<rparr> \<lparr>sin_port = 80, sin_addr = 0x0A000202\<rparr>
       (replicate 6 1) (replicate 6 2) 0x1000 7 100 200 (TCPCB_FLAG_ACK OR TCPCB_FLAG_PSH) 65535 [] [104, 105] (\<lambda>_. 0) = Some (skb, m') \<and>
     tcp_rcv \<lparr>sin_port = 80, sin_addr = 0x0A000202\<rparr> \<lparr>sin_port = 4000, sin_addr = 0x0A00020F\<rparr> skb m' = (0, Some skb', m') \<and>
     seg_data (read_segment m' (skb_nh skb') (skb_h skb')) = Some [104, 105]"
proof -
  let ?s = "\<lparr>sin_port = 4000, sin_addr = 0x0A00020F\<rparr>" and ?d = "\<lparr>sin_port = 80, sin_addr = 0x0A000202\<rparr>"
  obtain skb m' where f: "tcp_create_frame ?s ?d (replicate 6 1) (replicate 6 2) 0x1000 7 100 200 (TCPCB_FLAG_ACK OR TCPCB_FLAG_PSH)
      65535 [] [104, 105] (\<lambda>_. 0) = Some (skb, m')"
    by (simp add: tcp_create_frame_def tcp_build_header_def Let_def split_beta)
  from tcp_frame_roundtrip [OF f _ _ _ _ refl] obtain skb' where
    "tcp_rcv ?d ?s skb m' = (0, Some skb', m')"
    "read_segment m' (skb_nh skb') (skb_h skb') =
       made_segment ?s ?d 100 200 (TCPCB_FLAG_ACK OR TCPCB_FLAG_PSH) (ucast (65535 :: u32)) [] [104, 105]"
    by auto
  then show ?thesis using f by (auto simp: made_segment_def)
qed

section \<open>Options\<close>

definition tcp_set_option_value :: "u32 \<Rightarrow> u8 \<Rightarrow> u8 list \<Rightarrow> mem \<Rightarrow> u32 \<times> mem" where
  "tcp_set_option_value options code val m =
     (let len = of_nat (length val) :: u8
      in (options + 2 + ucast len, write_bytes val (options + 2) (m(options := code, options + 1 := len + 2))))"

definition tcp_build_syn_options :: "u32 \<Rightarrow> u32 \<Rightarrow> mem \<Rightarrow> u32 \<times> mem" where
  "tcp_build_syn_options snd_mss options m =
     (let m0 = clear_bytes options MAX_OPTION_LEN m;
          mss = htons (ucast snd_mss);
          (i1, m1) = tcp_set_option_value options 2 [ucast mss, ucast (drop_bit 8 mss)] m0;
          (i2, m2) = tcp_set_option_value i1 3 [0] m1
      in (WORD_ALIGN (i2 - options), m2))"

text \<open>The value is an \<open>int\<close> in the source; the caller takes as many of its low bytes as it asked for.\<close>

definition tcp_get_option_value :: "mem \<Rightarrow> u32 \<Rightarrow> u8 \<Rightarrow> int + u32" where
  "tcp_get_option_value m options len =
     (if len = 1 then Inr (ucast (m options))
      else if len = 2 then Inr (ucast (m options) + push_bit 8 (ucast (m (options + 1))))
      else if len = 4 then
        Inr (ucast (m options) + push_bit 8 (ucast (m (options + 1))) + push_bit 16 (ucast (m (options + 2))) + push_bit 24 (ucast (m (options + 3))))
      else Inl (- ERANGE))"

text \<open>The two local variables are not initialised, so their values on entry are arguments; the 16 bits of an option are
  stored in the lower half of the first. An option of length 0 keeps the loop where it is.\<close>

partial_function (option) syn_options_loop :: "mem \<Rightarrow> u32 \<Rightarrow> u32 \<Rightarrow> u32 \<Rightarrow> u32 \<Rightarrow> u8 \<Rightarrow> (u32 \<times> u8) option" where
  "syn_options_loop m options len i opt_rmms opt_window_scale =
     (if i < len then
        if m (options + i) = 0 \<or> m (options + i) = 1 then syn_options_loop m options len (i + 1) opt_rmms opt_window_scale
        else if m (options + i) = 2 then
          syn_options_loop m options len (i + ucast (m (options + i + 1)))
            (case tcp_get_option_value m (options + i + 2) 2 of Inr v \<Rightarrow> (opt_rmms AND 0xFFFF0000) OR (v AND 0xFFFF) | Inl _ \<Rightarrow> opt_rmms)
            opt_window_scale
        else if m (options + i) = 3 then
          syn_options_loop m options len (i + ucast (m (options + i + 1))) opt_rmms
            (case tcp_get_option_value m (options + i + 2) 1 of Inr v \<Rightarrow> ucast v | Inl _ \<Rightarrow> opt_window_scale)
        else syn_options_loop m options len (i + ucast (m (options + i + 1))) opt_rmms opt_window_scale
      else Some (opt_rmms, opt_window_scale))"

definition tcp_parse_syn_options :: "mem \<Rightarrow> u32 \<Rightarrow> u32 \<Rightarrow> u32 \<Rightarrow> u8 \<Rightarrow> (u32 \<times> u8) option" where
  "tcp_parse_syn_options m options len rmms0 ws0 =
     do {
       (opt_rmms, opt_window_scale) \<leftarrow> syn_options_loop m options len 0 rmms0 ws0;
       Some (ucast (ntohs (ucast opt_rmms)), opt_window_scale)
     }"

definition stuck_option :: "mem \<Rightarrow> u32 \<Rightarrow> u32 \<Rightarrow> u32 \<Rightarrow> bool" where
  "stuck_option m options len i \<longleftrightarrow> i < len \<and> m (options + i) \<noteq> 0 \<and> m (options + i) \<noteq> 1 \<and> m (options + i + 1) = 0"

lemma syn_options_not_stuck: "syn_options_loop m options len i r w = Some y \<Longrightarrow> \<not> stuck_option m options len i"
proof (rule syn_options_loop.raw_induct [rotated, where P = "\<lambda>m options len i r w y. \<not> stuck_option m options len i"])
  fix f m options len i r w y
  assume IH: "\<And>m options len i r w y. f m options len i r w = Some y \<Longrightarrow> \<not> stuck_option m options len i"
    and eq: "(if i < len then
        if m (options + i) = 0 \<or> m (options + i) = 1 then f m options len (i + 1) r w
        else if m (options + i) = 2 then
          f m options len (i + ucast (m (options + i + 1)))
            (case tcp_get_option_value m (options + i + 2) 2 of Inl _ \<Rightarrow> r | Inr v \<Rightarrow> (r AND 0xFFFF0000) OR (v AND 0xFFFF)) w
        else if m (options + i) = 3 then
          f m options len (i + ucast (m (options + i + 1))) r
            (case tcp_get_option_value m (options + i + 2) 1 of Inl _ \<Rightarrow> w | Inr v \<Rightarrow> ucast v)
        else f m options len (i + ucast (m (options + i + 1))) r w
      else Some (r, w)) = Some y"
  show "\<not> stuck_option m options len i"
  proof
    assume st: "stuck_option m options len i"
    then obtain r' w' where "f m options len i r' w' = Some y" using eq by (auto simp: stuck_option_def split: if_splits)
    from IH [OF this] st show False by simp
  qed
qed

lemma syn_options_stuck: "stuck_option m options len i \<Longrightarrow> syn_options_loop m options len i r w = None"
  using syn_options_not_stuck by (cases "syn_options_loop m options len i r w") auto

text \<open>From the start of one option to the start of the one behind it, as the parser goes.\<close>

definition next_option :: "mem \<Rightarrow> u32 \<Rightarrow> u32 \<Rightarrow> u32 \<Rightarrow> u32 \<Rightarrow> bool" where
  "next_option m options len i j \<longleftrightarrow> i < len \<and>
     j = i + (if m (options + i) = 0 \<or> m (options + i) = 1 then 1 else ucast (m (options + i + 1)))"

lemma syn_options_next:
  "next_option m options len i j \<Longrightarrow> \<exists>r' w'. syn_options_loop m options len i r w = syn_options_loop m options len j r' w'"
  by (subst syn_options_loop.simps) (auto simp: next_option_def)

lemma syn_options_ends:
  assumes "syn_options_loop m options len i r w = Some y" and "(next_option m options len)\<^sup>*\<^sup>* i j"
  shows "\<not> stuck_option m options len j"
  using assms(2,1)
proof (induction arbitrary: r w rule: converse_rtranclp_induct)
  case base
  then show ?case by (rule syn_options_not_stuck)
next
  case (step i i')
  then show ?case using syn_options_next [of m options len i i' r w] by metis
qed

lemma syn_options_total:
  assumes "\<And>j. (next_option m options len)\<^sup>*\<^sup>* i j \<Longrightarrow> \<not> stuck_option m options len j" and len: "len \<le> 0xFFFFFF00"
  shows "\<exists>y. syn_options_loop m options len i r w = Some y"
  using assms(1)
proof (induction "unat len - unat i" arbitrary: i r w rule: less_induct)
  case less
  show ?case
  proof (cases "i < len")
    case True
    let ?d = "if m (options + i) = 0 \<or> m (options + i) = 1 then 1 else ucast (m (options + i + 1)) :: u32"
    have nxt: "next_option m options len i (i + ?d)" using True by (simp add: next_option_def)
    have "unat ?d < 256"
      using u8_bound [of "m (options + i + 1)"] by (simp add: unsigned_ucast_eq take_bit_eq_mod)
    moreover have "(ucast b :: u32) = 0 \<longleftrightarrow> b = 0" for b :: u8
      using u8_bound [of b] by (simp add: word_unat_eq_iff unsigned_ucast_eq take_bit_eq_mod)
    then have "0 < unat ?d"
      using less.prems [of i] True by (auto simp: stuck_option_def unsigned_ucast_eq take_bit_eq_mod unat_gt_0)
    moreover have "unat i < unat len" "unat len \<le> 4294967040" using True len by (simp_all add: word_less_nat_alt word_le_nat_alt)
    ultimately have "unat len - unat (i + ?d) < unat len - unat i" by (simp only: unat_plus_if') (simp split: if_split)
    moreover have "\<not> stuck_option m options len j" if "(next_option m options len)\<^sup>*\<^sup>* (i + ?d) j" for j
      using less.prems [of j] that nxt by (meson converse_rtranclp_into_rtranclp)
    ultimately have "\<exists>y. syn_options_loop m options len (i + ?d) r' w' = Some y" for r' w' using less.hyps by blast
    then show ?thesis using syn_options_next [OF nxt, of r w] by metis
  next
    case False
    then show ?thesis by (simp add: syn_options_loop.simps [of m options len i r w])
  qed
qed

lemma clear_bytes_at: "k < unat n \<Longrightarrow> clear_bytes a n m (a + of_nat k) = 0"
  using write_bytes_written [of "replicate (unat n) 0" m a] u32_bound [of n] by (simp add: clear_bytes_def written_def)

lemma syn_options_bytes:
  assumes "tcp_build_syn_options mss a m = (len, m')"
  shows "len = 8" "m' a = 2" "m' (a + 1) = 4" "m' (a + 2) = ucast (htons (ucast mss))" "m' (a + 3) = ucast (drop_bit 8 (htons (ucast mss)))"
    "m' (a + 4) = 3" "m' (a + 5) = 3" "m' (a + 6) = 0" "m' (a + 7) = 0"
proof -
  note d = tcp_build_syn_options_def tcp_set_option_value_def Let_def
  show "len = 8" using assms by (auto simp: d WORD_ALIGN_def WORD_SIZE_def)
  have "clear_bytes a MAX_OPTION_LEN m (a + 7) = 0" using clear_bytes_at [of 7 MAX_OPTION_LEN a m] by (simp add: MAX_OPTION_LEN_def)
  then show "m' a = 2" "m' (a + 1) = 4" "m' (a + 2) = ucast (htons (ucast mss))" "m' (a + 3) = ucast (drop_bit 8 (htons (ucast mss)))"
    "m' (a + 4) = 3" "m' (a + 5) = 3" "m' (a + 6) = 0" "m' (a + 7) = 0"
    using assms by (auto simp: d)
qed

lemma syn_options_read_back:
  assumes "tcp_build_syn_options mss a m = (len, m')"
  shows "tcp_parse_syn_options m' a len r w = Some (ucast (ucast mss :: u16), 0)"
proof -
  note b = syn_options_bytes [OF assms]
  define v where "v = htons (ucast mss)"
  let ?x = "ucast (ucast v :: u8) :: u32" and ?y = "push_bit 8 (ucast (ucast (drop_bit 8 v) :: u8)) :: u32"
  have "?x + ?y = ?x OR ?y" by (rule disjunctive_add_eq_or) (auto simp: bit_eq_iff bit_simps)
  also have "\<dots> = ucast v" by (rule bit_eqI) (auto simp: bit_simps dest: bit_imp_le_length)
  finally have sum: "?x + ?y = ucast v" .
  have "(0xFFFF :: u32) = mask 16" "(0xFFFF0000 :: u32) = push_bit 16 (mask 16)" by (simp_all add: mask_eq_exp_minus_1 push_bit_eq_mult)
  then have low: "ucast ((r AND 0xFFFF0000) OR ((?x + ?y) AND 0xFFFF)) = v" for r :: u32
    unfolding sum by (intro bit_eqI) (auto simp only: bit_simps, auto)
  have "syn_options_loop m' a 8 0 r w = Some ((r AND 0xFFFF0000) OR ((?x + ?y) AND 0xFFFF), 0)"
    using b by (simp add: syn_options_loop.simps [of _ _ _ 0] syn_options_loop.simps [of _ _ _ 4] syn_options_loop.simps [of _ _ _ 7]
        syn_options_loop.simps [of _ _ _ 8] tcp_get_option_value_def v_def add.commute [of _ a])
  then show ?thesis using b(1) low by (simp add: tcp_parse_syn_options_def v_def)
qed

text \<open>C26: the options that \<open>tcp_build_syn_options\<close> puts into a SYN segment are read back by \<open>tcp_parse_syn_options\<close> as the
  announced segment size and the window scale 0. The parser ends on an option field exactly when none of the options it comes to,
  going from each to the one behind it, has the length 0; what the values of the options hold does not matter. An option of
  length 0, which any peer can send, keeps it in its loop for ever. The length of the field is at most \<open>0xFFFFFF00\<close>; that of a
  segment is at most 40.\<close>

theorem tcp_syn_options_parsed:
  assumes "tcp_build_syn_options mss a m = (len, m')"
  shows "tcp_parse_syn_options m' a len r w = Some (ucast (ucast mss :: u16), 0) \<and>
    (\<forall>m a len r w. len \<le> 0xFFFFFF00 \<longrightarrow>
      ((\<exists>v. tcp_parse_syn_options m a len r w = Some v) \<longleftrightarrow> (\<forall>j. (next_option m a len)\<^sup>*\<^sup>* 0 j \<longrightarrow> \<not> stuck_option m a len j)))"
proof (intro conjI allI impI)
  show "tcp_parse_syn_options m' a len r w = Some (ucast (ucast mss :: u16), 0)" using syn_options_read_back [OF assms] .
  show "(\<exists>v. tcp_parse_syn_options m a len r w = Some v) \<longleftrightarrow> (\<forall>j. (next_option m a len)\<^sup>*\<^sup>* 0 j \<longrightarrow> \<not> stuck_option m a len j)"
    if len: "len \<le> 0xFFFFFF00" for m a len r w
  proof -
    have "(\<exists>v. tcp_parse_syn_options m a len r w = Some v) \<longleftrightarrow> (\<exists>y. syn_options_loop m a len 0 r w = Some y)"
      by (cases "syn_options_loop m a len 0 r w") (auto simp: tcp_parse_syn_options_def)
    then show ?thesis using syn_options_total [of m a len 0 r w] syn_options_ends [of m a len 0 r w] len by blast
  qed
qed

text \<open>The options this kernel sends, and a segment size of 1280, whose second byte is 0.\<close>

theorem tcp_syn_options_parsed_witness:
  "\<exists>len m'. tcp_build_syn_options 1460 0x2000 (\<lambda>_. 0) = (len, m') \<and> tcp_parse_syn_options m' 0x2000 len 0 0 = Some (1460, 0) \<and>
     (\<exists>v. tcp_parse_syn_options ((\<lambda>_. 0)(0 := 2, 1 := 4, 2 := 5, 3 := 0)) 0 4 0 0 = Some v)"
proof -
  let ?m = "(\<lambda>_. 0)(0 := 2, 1 := 4, 2 := 5, 3 := 0) :: mem"
  obtain len m' where *: "tcp_build_syn_options 1460 0x2000 (\<lambda>_. 0) = (len, m')" by fastforce
  note parsed = tcp_syn_options_parsed [OF *, of 0 0]
  have "j = 0 \<or> j = 4" if "(next_option ?m 0 4)\<^sup>*\<^sup>* 0 j" for j
    using that by induction (auto simp: next_option_def)
  moreover have "\<not> stuck_option ?m 0 4 0" "\<not> stuck_option ?m 0 4 4" by (simp_all add: stuck_option_def)
  ultimately have "\<forall>j. (next_option ?m 0 4)\<^sup>*\<^sup>* 0 j \<longrightarrow> \<not> stuck_option ?m 0 4 j" by blast
  then have "\<exists>v. tcp_parse_syn_options ?m 0 4 0 0 = Some v" using conjunct2 [OF parsed, rule_format, of 4 ?m 0 0 0] by simp
  then show ?thesis using parsed * by auto
qed

end
