(* ===== verification/Tcp.thy ===== *)
theory Tcp
  imports Net_Packet Semaphore
begin

text \<open>
  TCP: the control block, output, input and timers of \<open>net/tcp.c\<close>, \<open>net/tcp_output.c\<close>, \<open>net/tcp_input.c\<close> and
  \<open>net/tcp_timer.c\<close>, on the segments of \<open>Net_Packet\<close> and the scheduler.

  A buffer has a number for its address; \<open>skbs\<close> gives the segment in it and its control block, and the two queues of a socket
  are lists of numbers. A timer is \<open>Some\<close> of its expiry while it is linked into the list of timers. \<open>wire\<close> collects the
  segments handed to the network card. The hardware address of the peer, which the source looks up while it makes a segment, is
  an argument of \<open>tcp_create_frame\<close> and plays no role here.

  The result \<open>None\<close> is a failed assertion, a dangling pointer or a loop that does not end. A call that waits ends with
  \<open>Blocked\<close>, and a definition of its own says how it goes on when its thread runs again.
\<close>

section \<open>The state\<close>

datatype tcp_state = TCP_ESTABLISHED | TCP_SYN_SENT | TCP_SYN_RECV | TCP_FIN_WAIT1 | TCP_FIN_WAIT2 | TCP_TIME_WAIT |
  TCP_CLOSE | TCP_CLOSE_WAIT | TCP_LAST_ACK | TCP_LISTEN | TCP_CLOSING

datatype socket_state = SS_UNCONNECTED | SS_CONNECTING | SS_CONNECTED | SS_DISCONNECTING | SS_DISCONNECTED

text \<open>A buffer with a TCP segment: the segment and \<open>struct tcp_skb_cb\<close>.\<close>

record tcp_skb =
  segment :: tcp_segment
  cb_seq :: u32
  cb_end_seq :: u32
  cb_flags :: u16
  cb_expires :: u64
  cb_when :: u64

text \<open>\<open>struct tcp_sock\<close> with the parts of \<open>struct socket\<close> and \<open>struct sock\<close> that TCP uses.\<close>

record tcp_sock =
  sock_state :: socket_state
  owner_thread :: nat
  rx_queue :: "nat list"
  rx_length :: u32
  tx_queue :: "nat list"
  send_head :: "nat option"
  ssin :: sockaddr_in
  dsin :: sockaddr_in
  tstate :: tcp_state
  msl_timer :: "u64 option"
  snd_mss :: u32
  snd_iss :: u32
  snd_una :: u32
  snd_nxt :: u32
  snd_wnd :: u32
  snd_wl1 :: u32
  snd_wl2 :: u32
  snd_wds :: u8
  rcv_mss :: u32
  rcv_irs :: u32
  rcv_nxt :: u32
  rcv_wnd :: u32
  ssthresh :: u32
  cwnd :: u32
  number_of_dup_acks :: u8
  flight_size :: u32
  rto :: u32
  retransmit_timer :: "u64 option"
  srtt :: u32
  rttvar :: u32
  persist_timer :: "u64 option"
  persist_backoff :: u16
  rtt_end_seq :: u32
  rtt_time :: u64
  syn_retries :: u8

text \<open>The rest of the kernel that TCP touches. \<open>stack_rmms\<close> and \<open>stack_scale\<close> are what two uninitialised variables hold.\<close>

record tcp_world =
  tsk :: tcp_sock
  skbs :: "nat \<Rightarrow> tcp_skb"
  next_skb :: nat
  wire :: "tcp_segment list"
  clock :: u64
  rseed :: u32
  nsched :: sched
  stack_rmms :: u32
  stack_scale :: u8

abbreviation upd_tsk :: "(tcp_sock \<Rightarrow> tcp_sock) \<Rightarrow> tcp_world \<Rightarrow> tcp_world" where
  "upd_tsk f w \<equiv> w\<lparr>tsk := f (tsk w)\<rparr>"

definition ETH_DATA_LEN :: u32 where "ETH_DATA_LEN = 1500"
definition ETH_MAX_MTU :: u32 where "ETH_MAX_MTU = 0xFFFF"
definition MAX_SEGMENT_LIFETIME :: u64 where "MAX_SEGMENT_LIFETIME = 15"

section \<open>Random numbers\<close>

definition rand_r :: "u32 \<Rightarrow> u32 \<times> u32" where
  "rand_r seed =
     (let n1 = seed * 1103515245 + 12345;
          r1 = (n1 div 65536) mod 2048;
          n2 = n1 * 1103515245 + 12345;
          r2 = push_bit 10 r1 XOR ((n2 div 65536) mod 1024);
          n3 = n2 * 1103515245 + 12345;
          r3 = push_bit 10 r2 XOR ((n3 div 65536) mod 1024)
      in (r3, n3))"

definition rand :: "tcp_world \<Rightarrow> u32 \<times> tcp_world" where
  "rand w = (let (r, n) = rand_r (rseed w) in (r, w\<lparr>rseed := n\<rparr>))"

section \<open>The control block\<close>

text \<open>\<open>round(ETH_DATA_LEN - (sizeof(struct ip4_packet) + sizeof(struct tcp_packet)), 4)\<close>\<close>

definition local_mss :: u32 where
  "local_mss = (ETH_DATA_LEN - (IP4_SIZE + TCP_SIZE)) div 4 * 4"

definition tcp_create_tcb :: "tcp_sock \<Rightarrow> tcp_sock" where
  "tcp_create_tcb t = t\<lparr>
     tstate := TCP_CLOSE, msl_timer := None,
     snd_mss := local_mss, snd_iss := 0, snd_una := 0, snd_nxt := 0 + 1, snd_wl1 := 0, snd_wl2 := 0, snd_wnd := ETH_MAX_MTU, snd_wds := 0,
     rcv_mss := local_mss, rcv_irs := 0, rcv_nxt := 0, rcv_wnd := ETH_MAX_MTU,
     ssthresh := ETH_MAX_MTU, cwnd := local_mss, flight_size := 0, number_of_dup_acks := 0,
     rto := 1000, retransmit_timer := None, persist_backoff := 1000, persist_timer := None,
     rtt_end_seq := 0, rtt_time := 0, syn_retries := 0\<rparr>"

definition tcp_delete_tcb :: "tcp_sock \<Rightarrow> tcp_sock" where
  "tcp_delete_tcb t = t\<lparr>
     msl_timer := None, rto := 1000, retransmit_timer := None, persist_backoff := 1000, persist_timer := None,
     rtt_end_seq := 0, rtt_time := 0, syn_retries := 0\<rparr>"

definition tcp_enter_close_state :: "tcp_sock \<Rightarrow> tcp_sock" where
  "tcp_enter_close_state t = t\<lparr>tstate := TCP_CLOSE, retransmit_timer := None\<rparr>"

definition tcp_flush_tx :: "tcp_sock \<Rightarrow> tcp_sock" where
  "tcp_flush_tx t = t\<lparr>tx_queue := [], send_head := None\<rparr>"

definition tcp_flush_rx :: "tcp_sock \<Rightarrow> tcp_sock" where
  "tcp_flush_rx t = t\<lparr>rx_queue := []\<rparr>"

text \<open>The flags arrive as a byte.\<close>

definition tcp_next_state :: "tcp_state \<Rightarrow> u8 \<Rightarrow> tcp_state" where
  "tcp_next_state prev_state flags =
     (case prev_state of
        TCP_CLOSE \<Rightarrow> if flags = ucast TCPCB_FLAG_SYN then TCP_SYN_SENT else TCP_CLOSE
      | TCP_LISTEN \<Rightarrow> if flags = ucast TCPCB_FLAG_SYN then TCP_SYN_SENT else TCP_LISTEN
      | TCP_SYN_SENT \<Rightarrow>
          if flags = ucast (TCPCB_FLAG_ACK OR TCPCB_FLAG_SYN) then TCP_SYN_RECV
          else if flags = ucast TCPCB_FLAG_ACK then TCP_ESTABLISHED
          else if flags = ucast TCPCB_FLAG_RST then TCP_CLOSE
          else TCP_SYN_SENT
      | TCP_ESTABLISHED \<Rightarrow> if flags AND ucast TCPCB_FLAG_FIN \<noteq> 0 then TCP_FIN_WAIT1 else TCP_ESTABLISHED
      | TCP_CLOSE_WAIT \<Rightarrow> if flags AND ucast TCPCB_FLAG_FIN \<noteq> 0 then TCP_LAST_ACK else TCP_CLOSE_WAIT
      | st \<Rightarrow> st)"

definition tcp_state_transition :: "u8 \<Rightarrow> tcp_sock \<Rightarrow> tcp_sock" where
  "tcp_state_transition flags t =
     (let prev_state = tstate t;
          t1 = t\<lparr>tstate := tcp_next_state prev_state flags\<rparr>
      in if prev_state \<noteq> tstate t1 \<and> tstate t1 = TCP_ESTABLISHED \<and> syn_retries t1 > 0
         then t1\<lparr>rto := 3, cwnd := snd_mss t1\<rparr> else t1)"

definition tcp_return_code :: "tcp_sock \<Rightarrow> int \<Rightarrow> int" where
  "tcp_return_code t success_code = (if tstate t = TCP_ESTABLISHED \<or> tstate t = TCP_FIN_WAIT1 then success_code else - 1)"

text \<open>The two lines with \<open>double\<close> arithmetic: the sums are multiples of a quarter and of an eighth, which the type holds
  exactly, and the assignment drops the fraction. \<open>long\<close> has 32 bits.\<close>

definition tcp_calculate_rto :: "u32 \<Rightarrow> tcp_sock \<Rightarrow> tcp_sock" where
  "tcp_calculate_rto rtt t =
     (let t1 = (if srtt t = 0 then t\<lparr>srtt := rtt, rttvar := rtt div 2\<rparr>
                else
                  let d = sint (srtt t) - sint rtt;
                      t' = t\<lparr>rttvar := word_of_int ((3 * uint (rttvar t) + \<bar>d\<bar>) div 4)\<rparr>
                  in t'\<lparr>srtt := word_of_int ((7 * uint (srtt t') + uint rtt) div 8)\<rparr>)
      in t1\<lparr>rto := max (srtt t1 + max 100 (4 * rttvar t1)) 1000\<rparr>)"

definition tcp_calculate_congestion :: "u32 \<Rightarrow> tcp_sock \<Rightarrow> tcp_sock" where
  "tcp_calculate_congestion ack t =
     (let c = (if cwnd t \<le> ssthresh t then cwnd t + min (ack - snd_una t) (snd_mss t) else cwnd t + snd_mss t * snd_mss t div cwnd t)
      in t\<lparr>cwnd := min c ETH_MAX_MTU\<rparr>)"

definition tcp_sender_available_window :: "tcp_sock \<Rightarrow> u32" where
  "tcp_sender_available_window t = snd_una t + snd_wnd t - snd_nxt t"

section \<open>Output\<close>

definition wake_owner :: "tcp_world \<Rightarrow> tcp_world option" where
  "wake_owner w = map_option (\<lambda>s. w\<lparr>nsched := s\<rparr>) (update_thread (owner_thread (tsk w)) THREAD_READY (nsched w))"

text \<open>The new buffer with its segment and its control block.\<close>

definition new_skb :: "tcp_sock \<Rightarrow> u32 \<Rightarrow> u32 \<Rightarrow> u16 \<Rightarrow> u8 list \<Rightarrow> u8 list \<Rightarrow> tcp_skb" where
  "new_skb t sequence_number ack_number flags options payload =
     \<lparr>segment = made_segment (ssin t) (dsin t) sequence_number ack_number flags (ucast (rcv_wnd t)) options payload,
      cb_seq = sequence_number, cb_end_seq = sequence_number + word_of_int (max 0 (int (length payload) - 1)), cb_flags = flags,
      cb_expires = 0, cb_when = 0\<rparr>"

definition tcp_create_skb :: "u32 \<Rightarrow> u32 \<Rightarrow> u16 \<Rightarrow> u8 list \<Rightarrow> u8 list \<Rightarrow> tcp_world \<Rightarrow> (nat \<times> tcp_world) option" where
  "tcp_create_skb sequence_number ack_number flags options payload w =
     (if length options mod 4 \<noteq> 0 then None
      else
        let skb = next_skb w;
            (rnd, w1) = rand w
        in Some (skb, w1\<lparr>next_skb := Suc skb,
             skbs := (skbs w1)(skb := new_skb (tsk w1) sequence_number ack_number flags options payload)\<rparr>))"

definition payload_lenth :: "tcp_skb \<Rightarrow> u16 option" where
  "payload_lenth skb = map_option (\<lambda>xs. of_nat (length xs)) (seg_data (segment skb))"

definition tcp_send_skb :: "nat \<Rightarrow> bool \<Rightarrow> tcp_world \<Rightarrow> tcp_world option" where
  "tcp_send_skb a is_retransmitted w =
     do {
       let skb = skbs w a;
       payload_len \<leftarrow> payload_lenth skb;
       let is_actived_send = (\<not> is_retransmitted \<and> (payload_len > 0 \<or> seg_syn (segment skb) \<or> seg_fin (segment skb)));
       let t1 = (tsk w)\<lparr>flight_size := flight_size (tsk w) + ucast payload_len\<rparr>;
       let t2 = (if is_actived_send then t1\<lparr>snd_nxt := cb_end_seq skb + 1\<rparr> else t1);
       let skb1 = skb\<lparr>cb_when := clock w, cb_expires := clock w + ucast (rto t2)\<rparr>;
       let t3 = tcp_state_transition (ucast (cb_flags skb1)) t2;
       let t4 = (if retransmit_timer t3 = None \<and> is_actived_send then t3\<lparr>retransmit_timer := Some (cb_expires skb1)\<rparr> else t3);
       Some (w\<lparr>tsk := t4, skbs := (skbs w)(a := skb1), wire := wire w @ [segment skb1]\<rparr>)
     }"

text \<open>A segment without data that is made and sent at once.\<close>

definition send_new :: "u32 \<Rightarrow> u32 \<Rightarrow> u16 \<Rightarrow> tcp_world \<Rightarrow> tcp_world option" where
  "send_new sequence_number ack_number flags w =
     do {
       (a, w1) \<leftarrow> tcp_create_skb sequence_number ack_number flags [] [] w;
       tcp_send_skb a False w1
     }"

text \<open>The inner loop of \<open>tcp_transmit\<close> over the part of the queue that begins with \<open>send_head\<close>.\<close>

primrec transmit_from :: "nat list \<Rightarrow> tcp_world \<Rightarrow> tcp_world option" where
  "transmit_from [] w = Some w"
| "transmit_from (a # rest) w =
     (if tcp_sender_available_window (tsk w) > 0 then
        do {
          w1 \<leftarrow> tcp_send_skb a False w;
          let w2 = upd_tsk (\<lambda>t. t\<lparr>send_head := (case rest of [] \<Rightarrow> None | b # _ \<Rightarrow> Some b)\<rparr>) w1;
          w3 \<leftarrow> (if rtt_time (tsk w2) = 0 then
                   if take 1 (tx_queue (tsk w2)) = [a] then
                     Some (upd_tsk (\<lambda>t. t\<lparr>rtt_end_seq := cb_end_seq (skbs w2 a), rtt_time := cb_when (skbs w2 a)\<rparr>) w2)
                   else None
                 else Some w2);
          transmit_from rest w3
        }
      else Some w)"

definition transmit_pending :: "tcp_world \<Rightarrow> tcp_world option" where
  "transmit_pending w =
     (case send_head (tsk w) of
        None \<Rightarrow> Some w
      | Some h \<Rightarrow> (case dropWhile (\<lambda>a. a \<noteq> h) (tx_queue (tsk w)) of [] \<Rightarrow> None | q \<Rightarrow> transmit_from q w))"

text \<open>\<open>tcp_transmit\<close> returns at once with an empty queue (\<open>True\<close>); otherwise it sends what the window allows and waits.\<close>

definition tcp_transmit :: "(sched \<Rightarrow> sched option) \<Rightarrow> (sched \<Rightarrow> sched option) list \<Rightarrow> tcp_world \<Rightarrow> (bool \<times> tcp_world) option" where
  "tcp_transmit hs irqs w =
     (if tx_queue (tsk w) = [] then Some (True, w)
      else
        do {
          let w1 = w\<lparr>nsched := lock_scheduler (nsched w)\<rparr>;
          w2 \<leftarrow> transmit_pending w1;
          s1 \<leftarrow> update_thread (current_thread (nsched w2)) THREAD_WAITING (nsched w2);
          s2 \<leftarrow> schedule hs irqs (unlock_scheduler s1);
          Some (False, w2\<lparr>nsched := s2\<rparr>)
        })"

definition tcp_tx_queue_add_skb :: "nat \<Rightarrow> tcp_sock \<Rightarrow> tcp_sock" where
  "tcp_tx_queue_add_skb a t =
     (let t1 = (if send_head t = None then t\<lparr>send_head := Some a\<rparr> else t) in t1\<lparr>tx_queue := tx_queue t1 @ [a]\<rparr>)"

definition tcp_transmit_skb ::
    "(sched \<Rightarrow> sched option) \<Rightarrow> (sched \<Rightarrow> sched option) list \<Rightarrow> nat \<Rightarrow> tcp_world \<Rightarrow> (bool \<times> tcp_world) option" where
  "tcp_transmit_skb hs irqs a w = tcp_transmit hs irqs (upd_tsk (tcp_tx_queue_add_skb a) w)"

section \<open>Input\<close>

text \<open>The loop over the sent segments: those that are acknowledged leave the queue, and the next one to send must not be
  among them. \<open>acked\<close> says which.\<close>

primrec acked_loop :: "(nat \<Rightarrow> bool) \<Rightarrow> nat option \<Rightarrow> nat list \<Rightarrow> nat list option" where
  "acked_loop acked sh [] = Some []"
| "acked_loop acked sh (a # q) =
     (if acked a then if sh \<noteq> Some a then acked_loop acked sh q else None
      else map_option (Cons a) (acked_loop acked sh q))"

definition tcp_accept_ack :: "u32 \<Rightarrow> bool \<Rightarrow> tcp_world \<Rightarrow> tcp_world option" where
  "tcp_accept_ack ack_number is_acked_all w =
     do {
       let t0 = tsk w;
       let t1 = t0\<lparr>snd_una := ack_number, flight_size := snd_nxt t0 - ack_number, number_of_dup_acks := 0\<rparr>;
       let ack_from_retransmitted = (tx_queue t1 \<noteq> [] \<and> send_head t1 = Some (hd (tx_queue t1)) \<and> rtt_time t1 = 0);
       let t2 = (if ack_from_retransmitted
                 then t1\<lparr>cwnd := ssthresh t1, send_head := (case tl (tx_queue t1) of [] \<Rightarrow> None | b # _ \<Rightarrow> Some b)\<rparr> else t1);
       q \<leftarrow> acked_loop (\<lambda>a. cb_end_seq (skbs w a) < ack_number \<or> is_acked_all) (send_head t2) (tx_queue t2);
       let t3 = t2\<lparr>tx_queue := q\<rparr>;
       t4 \<leftarrow> (if q \<noteq> [] \<and> \<not> ack_from_retransmitted then
                if cb_expires (skbs w (hd q)) \<noteq> 0 then Some (t3\<lparr>retransmit_timer := Some (cb_expires (skbs w (hd q)))\<rparr>) else None
              else Some (t3\<lparr>retransmit_timer := None\<rparr>));
       Some (w\<lparr>tsk := (if rtt_time t4 \<noteq> 0 \<and> rtt_end_seq t4 < ack_number
                       then (tcp_calculate_rto (ucast (clock w - rtt_time t4)) t4)\<lparr>rtt_time := 0\<rparr> else t4)\<rparr>)
     }"

definition tcp_is_fin_acked :: "tcp_world \<Rightarrow> bool" where
  "tcp_is_fin_acked w = list_all (\<lambda>a. \<not> seg_fin (segment (skbs w a))) (tx_queue (tsk w))"

definition tcp_handler_close :: "nat \<Rightarrow> tcp_world \<Rightarrow> tcp_world option" where
  "tcp_handler_close a w =
     do {
       let sg = segment (skbs w a);
       payload_len \<leftarrow> payload_lenth (skbs w a);
       if seg_rst sg then Some w
       else if \<not> seg_acked sg then send_new 0 (seg_seq sg + ucast payload_len) (TCPCB_FLAG_ACK OR TCPCB_FLAG_RST) w
       else send_new (seg_ack sg) (rcv_nxt (tsk w)) TCPCB_FLAG_RST w
     }"

text \<open>The options of a received segment as memory: behind them comes the data, and behind that the zeroed end of the buffer.\<close>

definition options_mem :: "tcp_segment \<Rightarrow> mem" where
  "options_mem sg a =
     (let xs = seg_options sg @ (case seg_data sg of Some d \<Rightarrow> d | None \<Rightarrow> [])
      in if unat a < length xs then xs ! unat a else 0)"

definition initial_cwnd :: "u32 \<Rightarrow> u32" where
  "initial_cwnd mss = (if mss > 2190 then 2 else if mss > 1095 then 3 else 4) * mss"

definition tcp_handler_sync :: "nat \<Rightarrow> tcp_world \<Rightarrow> tcp_world option" where
  "tcp_handler_sync a w =
     (let sg = segment (skbs w a);
          ack_number = seg_ack sg;
          acceptable_ack = (seg_acked sg \<and> snd_una (tsk w) \<le> ack_number \<and> ack_number \<le> snd_nxt (tsk w))
      in if seg_acked sg \<and> (ack_number \<le> snd_iss (tsk w) \<or> ack_number > snd_nxt (tsk w)) then
           if \<not> seg_rst sg then do { w1 \<leftarrow> send_new ack_number 0 TCPCB_FLAG_RST w; wake_owner w1 } else Some w
         else if seg_rst sg then
           Some (if acceptable_ack then upd_tsk (\<lambda>t. tcp_delete_tcb (tcp_enter_close_state t)) w else w)
         else if seg_syn sg \<and> acceptable_ack then
           do {
             w1 \<leftarrow> (if seg_options sg \<noteq> [] then
                      do {
                        (rmms, scale) \<leftarrow> tcp_parse_syn_options (options_mem sg) 0 (of_nat (length (seg_options sg))) (stack_rmms w) (stack_scale w);
                        Some (upd_tsk (\<lambda>t. t\<lparr>rcv_mss := rmms, snd_wds := scale\<rparr>) w)
                      }
                    else Some w);
             let w2 = upd_tsk (\<lambda>t. t\<lparr>rcv_irs := seg_seq sg, rcv_nxt := seg_seq sg + 1, snd_nxt := ack_number,
                                     snd_wnd := ucast (seg_window sg)\<rparr>) w1;
             w3 \<leftarrow> tcp_accept_ack ack_number False w2;
             if snd_una (tsk w3) > snd_iss (tsk w3) then
               do {
                 let w4 = upd_tsk (\<lambda>t. t\<lparr>cwnd := initial_cwnd (snd_mss t), ssthresh := ucast (seg_window sg)\<rparr>) w3;
                 w5 \<leftarrow> send_new (snd_nxt (tsk w4)) (rcv_nxt (tsk w4)) TCPCB_FLAG_ACK w4;
                 wake_owner w5
               }
             else send_new (snd_iss (tsk w3)) (rcv_nxt (tsk w3)) (TCPCB_FLAG_ACK OR TCPCB_FLAG_SYN) w3
           }
         else Some w)"

text \<open>Step one of \<open>tcp_handler_established\<close>.\<close>

definition acceptable_segment :: "tcp_sock \<Rightarrow> u32 \<Rightarrow> u16 \<Rightarrow> bool" where
  "acceptable_segment t seq payload_len =
     (let in_window = (\<lambda>x. rcv_nxt t \<le> x \<and> x < rcv_nxt t + rcv_wnd t)
      in if rcv_wnd t \<noteq> 0 then if payload_len > 0 then in_window seq \<or> in_window (seq + ucast payload_len) else in_window seq
         else if payload_len > 0 then False else seq = rcv_nxt t)"

text \<open>The parts of the handler say whether it returns after them.\<close>

datatype flow = Return tcp_world | Continue tcp_world

definition close_and_wake :: "tcp_world \<Rightarrow> flow option" where
  "close_and_wake w = map_option Return (wake_owner (upd_tsk tcp_enter_close_state w))"

text \<open>Step two: a reset.\<close>

definition established_rst :: "tcp_segment \<Rightarrow> tcp_world \<Rightarrow> flow option" where
  "established_rst sg w =
     (if \<not> seg_rst sg then Some (Continue w)
      else case tstate (tsk w) of
        TCP_SYN_RECV \<Rightarrow> do { w1 \<leftarrow> tcp_accept_ack 0 True w; close_and_wake w1 }
      | TCP_ESTABLISHED \<Rightarrow> close_and_wake (upd_tsk (\<lambda>t. tcp_flush_rx (tcp_flush_tx t)) w)
      | TCP_FIN_WAIT1 \<Rightarrow> close_and_wake (upd_tsk (\<lambda>t. tcp_flush_rx (tcp_flush_tx t)) w)
      | TCP_FIN_WAIT2 \<Rightarrow> close_and_wake (upd_tsk (\<lambda>t. tcp_flush_rx (tcp_flush_tx t)) w)
      | TCP_CLOSING \<Rightarrow> close_and_wake w
      | TCP_LAST_ACK \<Rightarrow> close_and_wake w
      | TCP_TIME_WAIT \<Rightarrow> close_and_wake w
      | _ \<Rightarrow> Some (Continue w))"

text \<open>Step four: a SYN inside the window.\<close>

definition established_syn :: "tcp_segment \<Rightarrow> tcp_world \<Rightarrow> flow option" where
  "established_syn sg w =
     (if seg_syn sg \<and> tstate (tsk w) \<in> {TCP_SYN_RECV, TCP_ESTABLISHED, TCP_FIN_WAIT1, TCP_FIN_WAIT2, TCP_CLOSE_WAIT, TCP_CLOSING,
                                          TCP_LAST_ACK, TCP_TIME_WAIT}
      then
        do {
          w1 \<leftarrow> send_new (seg_ack sg) (rcv_nxt (tsk w)) TCPCB_FLAG_RST w;
          close_and_wake (upd_tsk (\<lambda>t. tcp_flush_rx (tcp_flush_tx t)) w1)
        }
      else Some (Continue w))"

text \<open>Step five: new data acknowledged, a window update, a duplicate, or an acknowledgement of what was never sent.\<close>

definition seg_wnd :: "tcp_sock \<Rightarrow> tcp_segment \<Rightarrow> u32" where
  "seg_wnd t sg = push_bit (unat (snd_wds t) mod 32) (ucast (seg_window sg))"

definition established_ack :: "tcp_segment \<Rightarrow> u32 \<Rightarrow> u16 \<Rightarrow> tcp_world \<Rightarrow> flow option" where
  "established_ack sg wnd payload_len w =
     (let t = tsk w; ack = seg_ack sg; seq = seg_seq sg
      in if snd_una t < ack \<and> ack \<le> snd_nxt t then
           do {
             w1 \<leftarrow> tcp_accept_ack ack False (upd_tsk (tcp_calculate_congestion ack) w);
             Some (Continue (upd_tsk (\<lambda>t. if snd_wl1 t < seq \<or> (snd_wl1 t = seq \<and> snd_wl2 t \<le> ack)
                                          then t\<lparr>snd_wnd := wnd, snd_wl1 := seq, snd_wl2 := ack\<rparr> else t) w1))
           }
         else if snd_una t = ack \<and> rcv_nxt t = seq \<and> snd_wnd t \<noteq> wnd \<and> payload_len = 0 then
           Some (Continue (upd_tsk (\<lambda>t. (if snd_wnd t = 0 \<and> wnd \<noteq> 0 then tcp_flush_tx t else t)\<lparr>snd_wnd := wnd\<rparr>) w))
         else if flight_size t > 0 \<and> \<not> seg_syn sg \<and> \<not> seg_fin sg \<and> snd_una t = ack \<and> wnd > 0 then
           let t1 = t\<lparr>number_of_dup_acks := number_of_dup_acks t + 1\<rparr>
           in if number_of_dup_acks t1 = 3 then
                let th = max (flight_size t1 div 2) (2 * snd_mss t1);
                    t2 = t1\<lparr>ssthresh := th, cwnd := th + 3 * snd_mss t1\<rparr>
                in case tx_queue t2 of [] \<Rightarrow> None | a # _ \<Rightarrow> map_option Continue (tcp_send_skb a True (w\<lparr>tsk := t2\<rparr>))
              else Some (Continue (w\<lparr>tsk := (if number_of_dup_acks t1 > 3 then t1\<lparr>cwnd := cwnd t1 + snd_mss t1\<rparr> else t1)\<rparr>))
         else if ack > snd_nxt t then map_option Return (send_new (snd_nxt t) (rcv_nxt t) TCPCB_FLAG_ACK w)
         else Some (Continue w))"

definition established_ack_state :: "tcp_segment \<Rightarrow> u32 \<Rightarrow> u16 \<Rightarrow> tcp_world \<Rightarrow> flow option" where
  "established_ack_state sg wnd payload_len w =
     (case tstate (tsk w) of
        TCP_SYN_RECV \<Rightarrow>
          if snd_una (tsk w) < seg_ack sg \<and> seg_ack sg \<le> snd_nxt (tsk w) then Some (Continue (upd_tsk (\<lambda>t. t\<lparr>tstate := TCP_ESTABLISHED\<rparr>) w))
          else if \<not> acceptable_segment (tsk w) (seg_seq sg) payload_len then
            map_option Continue (send_new (snd_nxt (tsk w)) (rcv_nxt (tsk w)) TCPCB_FLAG_RST w)
          else Some (Continue w)
      | TCP_ESTABLISHED \<Rightarrow> established_ack sg wnd payload_len w
      | TCP_CLOSE_WAIT \<Rightarrow> established_ack sg wnd payload_len w
      | TCP_FIN_WAIT1 \<Rightarrow> established_ack sg wnd payload_len w
      | TCP_FIN_WAIT2 \<Rightarrow> established_ack sg wnd payload_len w
      | TCP_CLOSING \<Rightarrow> established_ack sg wnd payload_len w
      | _ \<Rightarrow> Some (Continue w))"

text \<open>The changes of state once the own FIN is acknowledged.\<close>

definition established_fin_acked :: "tcp_world \<Rightarrow> flow option" where
  "established_fin_acked w =
     (case tstate (tsk w) of
        TCP_FIN_WAIT1 \<Rightarrow> Some (Continue (if tcp_is_fin_acked w then upd_tsk (\<lambda>t. t\<lparr>tstate := TCP_FIN_WAIT2\<rparr>) w else w))
      | TCP_CLOSING \<Rightarrow> Some (Continue (if tcp_is_fin_acked w then upd_tsk (\<lambda>t. t\<lparr>tstate := TCP_TIME_WAIT\<rparr>) w else w))
      | TCP_LAST_ACK \<Rightarrow> if tcp_is_fin_acked w then close_and_wake w else Some (Continue w)
      | TCP_TIME_WAIT \<Rightarrow> map_option Continue (send_new (snd_nxt (tsk w)) (rcv_nxt (tsk w)) TCPCB_FLAG_ACK w)
      | _ \<Rightarrow> Some (Continue w))"

text \<open>Step seven: the data. The result says whether an acknowledgement was sent.\<close>

definition established_data :: "nat \<Rightarrow> u16 \<Rightarrow> tcp_world \<Rightarrow> (bool \<times> tcp_world) option" where
  "established_data a payload_len w =
     (if tstate (tsk w) \<in> {TCP_ESTABLISHED, TCP_FIN_WAIT1, TCP_FIN_WAIT2} then
        do {
          let w1 = (if payload_len > 0 \<or> seg_push (segment (skbs w a)) then upd_tsk (\<lambda>t. t\<lparr>rx_queue := rx_queue t @ [a]\<rparr>) w else w);
          if payload_len > 0 then
            do {
              let w2 = upd_tsk (\<lambda>t. t\<lparr>rcv_nxt := rcv_nxt t + ucast payload_len\<rparr>) w1;
              w3 \<leftarrow> send_new (snd_nxt (tsk w2)) (rcv_nxt (tsk w2)) TCPCB_FLAG_ACK w2;
              Some (True, w3)
            }
          else Some (False, w1)
        }
      else Some (False, w))"

definition enter_time_wait :: "u64 \<Rightarrow> tcp_sock \<Rightarrow> tcp_sock" where
  "enter_time_wait now t =
     t\<lparr>tstate := TCP_TIME_WAIT, retransmit_timer := None, persist_timer := None, msl_timer := Some (now + MAX_SEGMENT_LIFETIME * 2)\<rparr>"

text \<open>Step eight: a FIN.\<close>

definition established_fin :: "bool \<Rightarrow> tcp_world \<Rightarrow> flow option" where
  "established_fin is_sent_ack w =
     (if tstate (tsk w) \<in> {TCP_CLOSE, TCP_LISTEN, TCP_SYN_SENT} then Some (Return w)
      else
        do {
          let w1 = upd_tsk (\<lambda>t. case tstate t of
                TCP_SYN_RECV \<Rightarrow> t\<lparr>tstate := TCP_CLOSE_WAIT\<rparr>
              | TCP_ESTABLISHED \<Rightarrow> t\<lparr>tstate := TCP_CLOSE_WAIT\<rparr>
              | TCP_FIN_WAIT1 \<Rightarrow> if tcp_is_fin_acked w then enter_time_wait (clock w) t else t\<lparr>tstate := TCP_CLOSING\<rparr>
              | TCP_FIN_WAIT2 \<Rightarrow> enter_time_wait (clock w) t
              | TCP_TIME_WAIT \<Rightarrow> t\<lparr>msl_timer := Some (clock w + MAX_SEGMENT_LIFETIME * 2)\<rparr>
              | _ \<Rightarrow> t) w;
          if \<not> is_sent_ack then
            do {
              let w2 = upd_tsk (\<lambda>t. t\<lparr>rcv_nxt := rcv_nxt t + 1\<rparr>) w1;
              let flags = (if tstate (tsk w2) = TCP_CLOSE_WAIT then TCPCB_FLAG_FIN else 0);
              w3 \<leftarrow> send_new (snd_nxt (tsk w2)) (rcv_nxt (tsk w2)) (flags OR TCPCB_FLAG_ACK) w2;
              Some (Continue w3)
            }
          else Some (Continue w1)
        })"

text \<open>Later parts run only when the earlier ones have not returned.\<close>

definition and_then :: "flow option \<Rightarrow> (tcp_world \<Rightarrow> flow option) \<Rightarrow> flow option" where
  "and_then r f = (case r of None \<Rightarrow> None | Some (Return w) \<Rightarrow> Some (Return w) | Some (Continue w) \<Rightarrow> f w)"

definition flow_end :: "flow \<Rightarrow> tcp_world option" where
  "flow_end r = (case r of Return w \<Rightarrow> Some w | Continue w \<Rightarrow> wake_owner w)"

definition tcp_handler_established :: "nat \<Rightarrow> tcp_world \<Rightarrow> tcp_world option" where
  "tcp_handler_established a w =
     do {
       let sg = segment (skbs w a);
       let wnd = seg_wnd (tsk w) sg;
       payload_len \<leftarrow> payload_lenth (skbs w a);
       if \<not> acceptable_segment (tsk w) (seg_seq sg) payload_len then
         do {
           w1 \<leftarrow> (if \<not> seg_rst sg then send_new (snd_nxt (tsk w)) (rcv_nxt (tsk w)) TCPCB_FLAG_ACK w else Some w);
           wake_owner w1
         }
       else
         Option.bind
           (and_then (and_then (and_then (and_then (established_rst sg w)
             (established_syn sg))
             (\<lambda>w. if \<not> seg_acked sg then Some (Return w) else established_ack_state sg wnd payload_len w))
             established_fin_acked)
             (\<lambda>w. do {
                (is_sent_ack, w1) \<leftarrow> established_data a payload_len w;
                if seg_fin sg then established_fin is_sent_ack w1 else Some (Continue w1)
              }))
           flow_end
     }"

text \<open>The received buffer gets the next number.\<close>

definition receive_skb :: "tcp_segment \<Rightarrow> tcp_world \<Rightarrow> nat \<times> tcp_world" where
  "receive_skb sg w =
     (next_skb w, w\<lparr>next_skb := Suc (next_skb w), skbs := (skbs w)(next_skb w :=
        \<lparr>segment = sg, cb_seq = 0, cb_end_seq = 0, cb_flags = 0, cb_expires = 0, cb_when = 0\<rparr>)\<rparr>)"

definition tcp_dispatch :: "nat \<Rightarrow> tcp_world \<Rightarrow> tcp_world option" where
  "tcp_dispatch a w =
     (case tstate (tsk w) of
        TCP_CLOSE \<Rightarrow> tcp_handler_close a w
      | TCP_SYN_SENT \<Rightarrow> tcp_handler_sync a w
      | TCP_LISTEN \<Rightarrow> Some w
      | _ \<Rightarrow> tcp_handler_established a w)"

definition tcp_handler :: "sk_buff \<Rightarrow> mem \<Rightarrow> tcp_world \<Rightarrow> (int \<times> mem \<times> tcp_world) option" where
  "tcp_handler skb m w =
     (if sock_state (tsk w) = SS_DISCONNECTED then Some (- ESHUTDOWN, m, w)
      else case tcp_rcv (ssin (tsk w)) (dsin (tsk w)) skb m of
        (ret, None, m1) \<Rightarrow> Some (ret, m1, w)
      | (ret, Some skb1, m1) \<Rightarrow>
          let (a, w1) = receive_skb (read_segment m1 (skb_nh skb1) (skb_h skb1)) w
          in map_option (\<lambda>w2. (0, m1, w2)) (tcp_dispatch a w1))"

section \<open>Timers\<close>

definition tcp_retransmit_timer :: "tcp_world \<Rightarrow> tcp_world option" where
  "tcp_retransmit_timer w =
     do {
       let t0 = (tsk w)\<lparr>rto := rto (tsk w) * 2\<rparr>;
       let t1 = t0\<lparr>retransmit_timer := Some (clock w + ucast (rto t0))\<rparr>;
       a \<leftarrow> (case tx_queue t1 of [] \<Rightarrow> None | a # _ \<Rightarrow> Some a);
       w2 \<leftarrow> tcp_send_skb a True (w\<lparr>tsk := t1\<rparr>);
       let t2 = tsk w2;
       let t3 = (if send_head t2 \<noteq> Some a then t2\<lparr>ssthresh := max (flight_size t2 div 2) (2 * snd_mss t2), cwnd := snd_mss t2\<rparr> else t2);
       let t4 = t3\<lparr>send_head := Some a\<rparr>;
       let t5 = (if seg_syn (segment (skbs w2 a)) then t4\<lparr>syn_retries := syn_retries t4 + 1\<rparr> else t4);
       t6 \<leftarrow> (if rtt_time t5 \<noteq> 0 then if cb_end_seq (skbs w2 a) = rtt_end_seq t5 then Some (t5\<lparr>rtt_time := 0\<rparr>) else None else Some t5);
       Some (w2\<lparr>tsk := (if rto t6 \<ge> 128 * 1000 then t6\<lparr>srtt := 0, rttvar := 0\<rparr> else t6)\<rparr>)
     }"

definition tcp_persist_timer :: "tcp_world \<Rightarrow> tcp_world option" where
  "tcp_persist_timer w =
     (if snd_wnd (tsk w) \<noteq> 0 then Some (upd_tsk (\<lambda>t. t\<lparr>persist_timer := None, persist_backoff := 1000\<rparr>) w)
      else
        let t0 = (tsk w)\<lparr>persist_backoff := persist_backoff (tsk w) * 2\<rparr>;
            t1 = t0\<lparr>persist_timer := Some (clock w + ucast (persist_backoff t0))\<rparr>
        in case tx_queue t1 of
             [] \<Rightarrow> None
           | a # _ \<Rightarrow> if payload_lenth (skbs w a) = Some 1 then tcp_send_skb a True (w\<lparr>tsk := t1\<rparr>) else None)"

definition tcp_msl_timer :: "tcp_world \<Rightarrow> tcp_world option" where
  "tcp_msl_timer w =
     do {
       let w1 = upd_tsk (\<lambda>t. t\<lparr>msl_timer := None\<rparr>) w;
       if tstate (tsk w1) = TCP_TIME_WAIT \<or> tstate (tsk w1) = TCP_LAST_ACK
       then wake_owner (upd_tsk (\<lambda>t. tcp_delete_tcb (t\<lparr>tstate := TCP_CLOSE\<rparr>)) w1)
       else None
     }"

section \<open>The calls of a process\<close>

definition tcp_bind :: "sockaddr_in \<Rightarrow> tcp_world \<Rightarrow> int \<times> tcp_world" where
  "tcp_bind myaddr w = (0, upd_tsk (\<lambda>t. t\<lparr>ssin := myaddr\<rparr>) w)"

text \<open>\<open>tcp_listen\<close> and \<open>tcp_accept\<close> end in \<open>assert(false)\<close>.\<close>

definition tcp_listen :: "tcp_world \<Rightarrow> (int \<times> tcp_world) option" where
  "tcp_listen w = (let w1 = upd_tsk tcp_create_tcb w in None)"

definition tcp_accept :: "tcp_world \<Rightarrow> (int \<times> tcp_world) option" where
  "tcp_accept w = None"

definition syn_options :: "u32 \<Rightarrow> u8 list" where
  "syn_options mss = (let (len, m) = tcp_build_syn_options mss 0 (\<lambda>_. 0) in get_bytes m 0 (unat len))"

text \<open>\<open>tcp_connect\<close> up to the wait in \<open>tcp_transmit\<close>, and from there on.\<close>

definition connect_done :: "tcp_world \<Rightarrow> int \<times> tcp_world" where
  "connect_done w = (let w1 = upd_tsk (\<lambda>t. t\<lparr>sock_state := SS_CONNECTED\<rparr>) w in (tcp_return_code (tsk w1) 0, w1))"

definition connect_resume :: "(sched \<Rightarrow> sched option) \<Rightarrow> (sched \<Rightarrow> sched option) list \<Rightarrow> tcp_world \<Rightarrow> (outcome \<times> tcp_world) option" where
  "connect_resume hs irqs w =
     do {
       (ended, w1) \<leftarrow> tcp_transmit hs irqs w;
       Some (if ended then (let (r, w2) = connect_done w1 in (Ret r, w2)) else (Blocked, w1))
     }"

definition tcp_connect ::
    "(sched \<Rightarrow> sched option) \<Rightarrow> (sched \<Rightarrow> sched option) list \<Rightarrow> sockaddr_in \<Rightarrow> tcp_world \<Rightarrow> (outcome \<times> tcp_world) option" where
  "tcp_connect hs irqs vaddr w =
     do {
       let w1 = upd_tsk (\<lambda>t. tcp_create_tcb (t\<lparr>sock_state := SS_CONNECTING, dsin := vaddr\<rparr>)) w;
       let (sequence_number, w2) = rand w1;
       let w3 = upd_tsk (\<lambda>t. t\<lparr>snd_iss := sequence_number\<rparr>) w2;
       (a, w4) \<leftarrow> tcp_create_skb sequence_number 0 TCPCB_FLAG_SYN (syn_options (snd_mss (tsk w3))) [] w3;
       (ended, w5) \<leftarrow> tcp_transmit_skb hs irqs a w4;
       Some (if ended then (let (r, w6) = connect_done w5 in (Ret r, w6)) else (Blocked, w5))
     }"

text \<open>The inner loop of \<open>tcp_sendmsg\<close>: segments for the bytes that the windows allow, without trimming the last one to them.\<close>

partial_function (option) batch_loop ::
    "u8 list \<Rightarrow> u32 \<Rightarrow> u32 \<Rightarrow> u32 \<Rightarrow> u32 \<Rightarrow> u32 \<Rightarrow> tcp_world \<Rightarrow> (u32 \<times> tcp_world) option" where
  "batch_loop msg mmss mwnd starting_nxt iwnd msg_sent_len w =
     (if iwnd < mwnd then
        let msg_len = of_nat (length msg);
            advertised_window = min (min mmss mwnd) (msg_len - msg_sent_len);
            flags = (if msg_sent_len + advertised_window = msg_len then TCPCB_FLAG_PSH else 0)
        in if msg_sent_len + advertised_window \<le> msg_len then
             Option.bind
               (tcp_create_skb (starting_nxt + msg_sent_len) (rcv_nxt (tsk w)) (TCPCB_FLAG_ACK OR flags) []
                  (take (unat (ucast advertised_window :: u16)) (drop (unat msg_sent_len) msg)) w)
               (\<lambda>(a, w1). batch_loop msg mmss mwnd starting_nxt (iwnd + advertised_window) (msg_sent_len + advertised_window)
                  (upd_tsk (tcp_tx_queue_add_skb a) w1))
           else None
      else Some (msg_sent_len, w))"

text \<open>Where \<open>tcp_sendmsg\<close> waits: for the answer to a probe of a closed window, or for the acknowledgements of a batch.\<close>

datatype sendmsg_wait = Probing u32 | Sending u32
datatype sendmsg_outcome = Sent int | SendWait sendmsg_wait

definition sendmsg_loop ::
    "(sched \<Rightarrow> sched option) \<Rightarrow> (sched \<Rightarrow> sched option) list \<Rightarrow> u8 list \<Rightarrow> u32 \<Rightarrow> u32 \<Rightarrow> u32 \<Rightarrow> tcp_world \<Rightarrow> (sendmsg_outcome \<times> tcp_world) option" where
  "sendmsg_loop hs irqs msg mmss starting_nxt msg_sent_len w =
     (let t = tsk w; msg_len = of_nat (length msg)
      in if msg_sent_len < msg_len \<and> tstate t = TCP_ESTABLISHED then
           let mwnd = min (min (cwnd t) (tcp_sender_available_window t)) (msg_len - msg_sent_len)
           in if mwnd = 0 then
                if snd_una t = snd_nxt t \<and> snd_wnd t = 0 then
                  do {
                    let flags = (if msg_sent_len + 1 = msg_len then TCPCB_FLAG_PSH else 0);
                    (a, w1) \<leftarrow> tcp_create_skb (snd_nxt t) (rcv_nxt t) (flags OR TCPCB_FLAG_ACK) [] (take 1 (drop (unat msg_sent_len) msg)) w;
                    let w2 = upd_tsk (\<lambda>t. t\<lparr>persist_timer := Some (clock w1 + 1000)\<rparr>) w1;
                    (_, w3) \<leftarrow> tcp_transmit_skb hs irqs a w2;
                    Some (SendWait (Probing msg_sent_len), w3)
                  }
                else None
              else
                do {
                  (sent, w1) \<leftarrow> batch_loop msg mmss mwnd starting_nxt 0 msg_sent_len w;
                  (_, w2) \<leftarrow> tcp_transmit hs irqs w1;
                  Some (SendWait (Sending sent), w2)
                }
         else Some (Sent (tcp_return_code t (uint msg_sent_len)), w))"

text \<open>The thread runs again: \<open>tcp_transmit\<close> goes round as long as the queue is not empty.\<close>

definition sendmsg_resume ::
    "(sched \<Rightarrow> sched option) \<Rightarrow> (sched \<Rightarrow> sched option) list \<Rightarrow> u8 list \<Rightarrow> u32 \<Rightarrow> u32 \<Rightarrow> sendmsg_wait \<Rightarrow> tcp_world \<Rightarrow>
     (sendmsg_outcome \<times> tcp_world) option" where
  "sendmsg_resume hs irqs msg mmss starting_nxt pc w =
     do {
       (ended, w1) \<leftarrow> tcp_transmit hs irqs w;
       if \<not> ended then Some (SendWait pc, w1)
       else case pc of
         Probing sent \<Rightarrow> sendmsg_loop hs irqs msg mmss starting_nxt sent (upd_tsk (\<lambda>t. t\<lparr>persist_timer := None\<rparr>) w1)
       | Sending sent \<Rightarrow> sendmsg_loop hs irqs msg mmss starting_nxt sent w1
     }"

definition tcp_sendmsg ::
    "(sched \<Rightarrow> sched option) \<Rightarrow> (sched \<Rightarrow> sched option) list \<Rightarrow> u8 list \<Rightarrow> tcp_world \<Rightarrow> (sendmsg_outcome \<times> tcp_world) option" where
  "tcp_sendmsg hs irqs msg w =
     (if sock_state (tsk w) = SS_DISCONNECTED then Some (Sent (- ESHUTDOWN), w)
      else sendmsg_loop hs irqs msg (min (snd_mss (tsk w)) (rcv_mss (tsk w))) (snd_nxt (tsk w)) 0 w)"

text \<open>The search of \<open>tcp_recvmsg\<close> for the buffer that completes the message.\<close>

primrec recv_scan :: "tcp_world \<Rightarrow> u32 \<Rightarrow> u16 \<Rightarrow> nat list \<Rightarrow> nat option option" where
  "recv_scan w msg_len received_len [] = Some None"
| "recv_scan w msg_len received_len (a # q) =
     do {
       n \<leftarrow> payload_lenth (skbs w a);
       let received = received_len + n;
       if ucast received \<le> msg_len then
         if msg_len = ucast received \<or> seg_push (segment (skbs w a)) then Some (Some a) else recv_scan w msg_len received q
       else None
     }"

text \<open>The loop that takes the buffers off the queue, up to the last one, and copies their data.\<close>

primrec recv_copy :: "tcp_world \<Rightarrow> nat option \<Rightarrow> nat list \<Rightarrow> (u8 list \<times> nat list) option" where
  "recv_copy w last_skb [] = Some ([], [])"
| "recv_copy w last_skb (a # q) =
     do {
       d \<leftarrow> seg_data (segment (skbs w a));
       if last_skb = Some a then Some (d, q)
       else do { (ds, q1) \<leftarrow> recv_copy w last_skb q; Some (d @ ds, q1) }
     }"

definition recv_finish :: "nat option \<Rightarrow> tcp_world \<Rightarrow> (int \<times> u8 list \<times> tcp_world) option" where
  "recv_finish last_skb w =
     do {
       (d, q) \<leftarrow> recv_copy w last_skb (rx_queue (tsk w));
       let w1 = upd_tsk (\<lambda>t. t\<lparr>rx_queue := q, rx_length := 0\<rparr>) w;
       Some (tcp_return_code (tsk w1) (int (length d)), d, w1)
     }"

datatype recv_outcome = Received int "u8 list" | RecvWait

definition recvmsg_loop ::
    "(sched \<Rightarrow> sched option) \<Rightarrow> (sched \<Rightarrow> sched option) list \<Rightarrow> u32 \<Rightarrow> tcp_world \<Rightarrow> (recv_outcome \<times> tcp_world) option" where
  "recvmsg_loop hs irqs msg_len w =
     (if tstate (tsk w) = TCP_ESTABLISHED \<or> tstate (tsk w) = TCP_FIN_WAIT1 then
        do {
          last_skb \<leftarrow> recv_scan w msg_len 0 (rx_queue (tsk w));
          if last_skb \<noteq> None then do { (r, d, w1) \<leftarrow> recv_finish last_skb w; Some (Received r d, w1) }
          else
            do {
              s1 \<leftarrow> update_thread (current_thread (nsched w)) THREAD_WAITING (nsched w);
              s2 \<leftarrow> schedule hs irqs s1;
              Some (RecvWait, w\<lparr>nsched := s2\<rparr>)
            }
        }
      else do { (r, d, w1) \<leftarrow> recv_finish None w; Some (Received r d, w1) })"

definition tcp_recvmsg ::
    "(sched \<Rightarrow> sched option) \<Rightarrow> (sched \<Rightarrow> sched option) list \<Rightarrow> u32 \<Rightarrow> tcp_world \<Rightarrow> (recv_outcome \<times> tcp_world) option" where
  "tcp_recvmsg hs irqs msg_len w =
     (if sock_state (tsk w) = SS_DISCONNECTED then Some (Received (- ESHUTDOWN) [], w)
      else recvmsg_loop hs irqs msg_len (upd_tsk (\<lambda>t. t\<lparr>rx_length := msg_len\<rparr>) w))"

text \<open>\<open>tcp_shutdown\<close> waits twice: in \<open>tcp_transmit\<close>, and then for the closed state.\<close>

definition shutdown_wait :: "(sched \<Rightarrow> sched option) \<Rightarrow> (sched \<Rightarrow> sched option) list \<Rightarrow> tcp_world \<Rightarrow> (outcome \<times> tcp_world) option" where
  "shutdown_wait hs irqs w =
     (if tstate (tsk w) \<noteq> TCP_CLOSE then
        do {
          s1 \<leftarrow> update_thread (current_thread (nsched w)) THREAD_WAITING (nsched w);
          s2 \<leftarrow> schedule hs irqs s1;
          Some (Blocked, w\<lparr>nsched := s2\<rparr>)
        }
      else Some (Ret 0, w))"

definition shutdown_transmit :: "(sched \<Rightarrow> sched option) \<Rightarrow> (sched \<Rightarrow> sched option) list \<Rightarrow> tcp_world \<Rightarrow> (outcome \<times> tcp_world) option" where
  "shutdown_transmit hs irqs w =
     do {
       (ended, w1) \<leftarrow> tcp_transmit hs irqs w;
       if ended then shutdown_wait hs irqs w1 else Some (Blocked, w1)
     }"

definition tcp_shutdown :: "(sched \<Rightarrow> sched option) \<Rightarrow> (sched \<Rightarrow> sched option) list \<Rightarrow> tcp_world \<Rightarrow> (outcome \<times> tcp_world) option" where
  "tcp_shutdown hs irqs w =
     (if sock_state (tsk w) = SS_DISCONNECTED then Some (Ret (- ESHUTDOWN), w)
      else
        do {
          (a, w1) \<leftarrow> tcp_create_skb (snd_nxt (tsk w)) (rcv_nxt (tsk w)) (TCPCB_FLAG_ACK OR TCPCB_FLAG_FIN) [] [] w;
          shutdown_transmit hs irqs (upd_tsk (tcp_tx_queue_add_skb a) w1)
        })"

end
