(* ===== verification/Tcp_Spec.thy ===== *)
theory Tcp_Spec
  imports Tcp
begin

text \<open>
  What TCP guarantees: the segments that \<open>tcp_sendmsg\<close> makes of a message, their delivery by \<open>tcp_handler_established\<close> and
  \<open>tcp_recvmsg\<close> at the peer, and the acknowledgements that let \<open>tcp_sendmsg\<close> go on and return. A message takes several rounds
  when the windows are smaller than it, and a closed window is probed by the persist timer until it opens.
\<close>

section \<open>The segments of a message\<close>

text \<open>Segments with consecutive sequence numbers that carry the pieces \<open>ps\<close> of a message; \<open>mk\<close> makes one from its offset and
  its piece.\<close>

primrec data_segments :: "(nat \<Rightarrow> u8 list \<Rightarrow> 'a) \<Rightarrow> nat \<Rightarrow> u8 list list \<Rightarrow> 'a list" where
  "data_segments mk off [] = []"
| "data_segments mk off (p # ps) = mk off p # data_segments mk (off + length p) ps"

lemma map_data_segments: "map f (data_segments mk off ps) = data_segments (\<lambda>off p. f (mk off p)) off ps"
  by (induction ps arbitrary: off) simp_all

lemma length_data_segments [simp]: "length (data_segments mk off ps) = length ps"
  by (induction ps arbitrary: off) simp_all

definition message_skb :: "tcp_sock \<Rightarrow> u32 \<Rightarrow> nat \<Rightarrow> nat \<Rightarrow> u8 list \<Rightarrow> tcp_skb" where
  "message_skb t starting_nxt msg_len off p =
     new_skb t (starting_nxt + of_nat off) (rcv_nxt t)
       (TCPCB_FLAG_ACK OR (if off + length p = msg_len then TCPCB_FLAG_PSH else 0)) [] p"

text \<open>What the two operations of the batch do to the socket and the buffers.\<close>

definition queued :: "nat list \<Rightarrow> tcp_sock \<Rightarrow> tcp_sock" where
  "queued as t = t\<lparr>tx_queue := tx_queue t @ as, send_head := (if send_head t = None \<and> as \<noteq> [] then Some (hd as) else send_head t)\<rparr>"

lemma queued_simps [simp]: "queued [] t = t" "queued bs (queued (a # as) t) = queued (a # as @ bs) t"
  "tcp_tx_queue_add_skb a t = queued [a] t"
  by (simp_all add: queued_def tcp_tx_queue_add_skb_def Let_def)

lemma queued_fields [simp]: "ssin (queued as t) = ssin t" "dsin (queued as t) = dsin t" "rcv_nxt (queued as t) = rcv_nxt t"
  "rcv_wnd (queued as t) = rcv_wnd t" "tx_queue (queued as t) = tx_queue t @ as" "tstate (queued as t) = tstate t"
  by (simp_all add: queued_def)

lemma tcp_create_skb_eq:
  "length options mod 4 = 0 \<Longrightarrow> tcp_create_skb seq ack flags options payload w =
     Some (next_skb w, w\<lparr>rseed := snd (rand_r (rseed w)), next_skb := Suc (next_skb w),
       skbs := (skbs w)(next_skb w := new_skb (tsk w) seq ack flags options payload)\<rparr>)"
  by (simp add: tcp_create_skb_def rand_def Let_def split_beta)

text \<open>One round of the loop.\<close>

lemma unat_min_u32: "unat (min (a :: u32) b) = min (unat a) (unat b)"
  by (simp add: min_def word_le_nat_alt)

lemma batch_loop_step:
  fixes msg :: "u8 list"
  assumes iw: "iwnd < mwnd" and mss: "mmss \<noteq> 0" "mmss \<le> 65535" and len: "length msg < 2147483648"
    and sent: "unat sent \<le> length msg" and room: "unat mwnd - unat iwnd \<le> length msg - unat sent"
  obtains k skb where "0 < k" "k \<le> unat mmss" "unat sent + k \<le> length msg"
    "skb = message_skb (tsk w) start (length msg) (unat sent) (take k (drop (unat sent) msg))"
    "batch_loop msg mmss mwnd start iwnd sent w = batch_loop msg mmss mwnd start (iwnd + of_nat k) (sent + of_nat k)
       (w\<lparr>rseed := snd (rand_r (rseed w)), next_skb := Suc (next_skb w), skbs := (skbs w)(next_skb w := skb), tsk := queued [next_skb w] (tsk w)\<rparr>)"
proof -
  let ?len = "of_nat (length msg) :: u32"
  define aw where "aw = min (min mmss mwnd) (?len - sent)"
  define k where "k = unat aw"
  have l: "unat ?len = length msg" using len by (simp add: unat_of_nat_u32)
  have "sent \<le> ?len" using sent l by (simp add: word_le_nat_alt)
  then have rem: "unat (?len - sent) = length msg - unat sent" using l by (simp add: unat_sub)
  have iw': "unat iwnd < unat mwnd" using iw by (simp add: word_less_nat_alt)
  have m: "0 < unat mmss" "unat mmss \<le> 65535" using mss by (simp_all add: unat_gt_0 word_le_nat_alt)
  have k: "k = min (min (unat mmss) (unat mwnd)) (length msg - unat sent)" by (simp add: k_def aw_def unat_min_u32 rem)
  then have kb: "0 < k" "k \<le> unat mmss" "unat sent + k \<le> length msg" using m iw' room sent by linarith+
  have aw: "aw = of_nat k" by (simp add: k_def)
  have cut: "unat (ucast aw :: u16) = k" using kb m by (simp add: unsigned_ucast_eq take_bit_eq_mod flip: k_def)
  have sum: "unat (sent + aw) = unat sent + k" using kb len by (simp add: unat_plus_if' flip: k_def)
  have le: "sent + aw \<le> ?len" using sum kb l by (simp add: word_le_nat_alt)
  have psh: "sent + aw = ?len \<longleftrightarrow> unat sent + k = length msg" using sum l by (simp add: word_unat_eq_iff)
  let ?p = "take k (drop (unat sent) msg)"
  let ?skb = "new_skb (tsk w) (start + sent) (rcv_nxt (tsk w)) (TCPCB_FLAG_ACK OR (if sent + aw = ?len then TCPCB_FLAG_PSH else 0)) [] ?p"
  have "length ?p = k" using kb by simp
  then have "?skb = message_skb (tsk w) start (length msg) (unat sent) ?p"
    unfolding psh by (simp add: message_skb_def)
  moreover have "batch_loop msg mmss mwnd start iwnd sent w = batch_loop msg mmss mwnd start (iwnd + of_nat k) (sent + of_nat k)
       (w\<lparr>rseed := snd (rand_r (rseed w)), next_skb := Suc (next_skb w), skbs := (skbs w)(next_skb w := ?skb), tsk := queued [next_skb w] (tsk w)\<rparr>)"
    unfolding batch_loop.simps [of msg mmss mwnd start iwnd sent w] Let_def aw_def [symmetric] aw [symmetric]
    using iw le cut by (simp add: tcp_create_skb_eq)
  ultimately show ?thesis using kb by (intro that [of k ?skb])
qed

lemma message_skb_queued [simp]: "message_skb (queued as t) = message_skb t"
  by (intro ext) (simp add: message_skb_def new_skb_def)

text \<open>The world with new buffers in the queue, and nothing else changed.\<close>

definition batched :: "tcp_skb list \<Rightarrow> tcp_world \<Rightarrow> tcp_world \<Rightarrow> bool" where
  "batched sks w w' \<longleftrightarrow>
     (let as = [next_skb w..<next_skb w + length sks]
      in next_skb w' = next_skb w + length sks \<and> tsk w' = queued as (tsk w) \<and> map (skbs w') as = sks \<and>
         (\<forall>b < next_skb w. skbs w' b = skbs w b) \<and> wire w' = wire w \<and> clock w' = clock w \<and> nsched w' = nsched w)"

lemma batched_Nil: "batched [] w w"
  by (simp add: batched_def)

lemma batched_Cons:
  assumes b: "batched sks (w\<lparr>rseed := r, next_skb := Suc (next_skb w), skbs := (skbs w)(next_skb w := skb), tsk := queued [next_skb w] (tsk w)\<rparr>) w'"
  shows "batched (skb # sks) w w'"
proof -
  define as where "as = [Suc (next_skb w)..<Suc (next_skb w) + length sks]"
  have up: "[next_skb w..<next_skb w + length (skb # sks)] = next_skb w # as" by (simp add: as_def upt_conv_Cons del: upt_Suc)
  have f: "next_skb w' = Suc (next_skb w) + length sks" "tsk w' = queued as (queued [next_skb w] (tsk w))" "map (skbs w') as = sks"
    "wire w' = wire w" "clock w' = clock w" "nsched w' = nsched w"
    using b by (simp_all add: batched_def Let_def as_def del: upt_Suc)
  have old: "skbs w' c = (if c = next_skb w then skb else skbs w c)" if "c \<le> next_skb w" for c
    using b that by (simp add: batched_def Let_def)
  show ?thesis unfolding batched_def Let_def up using f old by simp
qed

lemma batch_loop_correct:
  fixes msg :: "u8 list"
  assumes mss: "mmss \<noteq> 0" "mmss \<le> 65535" and len: "length msg < 2147483648" and mw: "unat mwnd < 2147483648"
  shows "unat sent \<le> length msg \<Longrightarrow> unat mwnd - unat iwnd \<le> length msg - unat sent \<Longrightarrow>
    \<exists>ps w'. batch_loop msg mmss mwnd start iwnd sent w = Some (sent + of_nat (length (concat ps)), w') \<and>
      concat ps = take (length (concat ps)) (drop (unat sent) msg) \<and> (\<forall>p \<in> set ps. p \<noteq> [] \<and> length p \<le> unat mmss) \<and>
      unat mwnd \<le> unat iwnd + length (concat ps) \<and> unat sent + length (concat ps) \<le> length msg \<and>
      (ps \<noteq> [] \<longrightarrow> unat iwnd + length (concat (butlast ps)) < unat mwnd) \<and>
      batched (data_segments (message_skb (tsk w) start (length msg)) (unat sent) ps) w w'"
proof (induction "unat mwnd - unat iwnd" arbitrary: iwnd sent w rule: less_induct)
  case less
  show ?case
  proof (cases "iwnd < mwnd")
    case False
    then have "batch_loop msg mmss mwnd start iwnd sent w = Some (sent, w)" by (simp add: batch_loop.simps [of msg mmss mwnd start iwnd sent w])
    then show ?thesis using False less.prems by (intro exI [of _ "[]"]) (simp add: batched_Nil word_less_nat_alt)
  next
    case True
    obtain k skb where k: "0 < k" "k \<le> unat mmss" "unat sent + k \<le> length msg"
      and sg: "skb = message_skb (tsk w) start (length msg) (unat sent) (take k (drop (unat sent) msg))"
      and eq: "batch_loop msg mmss mwnd start iwnd sent w = batch_loop msg mmss mwnd start (iwnd + of_nat k) (sent + of_nat k)
        (w\<lparr>rseed := snd (rand_r (rseed w)), next_skb := Suc (next_skb w), skbs := (skbs w)(next_skb w := skb), tsk := queued [next_skb w] (tsk w)\<rparr>)"
      (is "_ = batch_loop _ _ _ _ _ _ ?w1")
      using batch_loop_step [OF True mss len less.prems] by metis
    have mb: "unat mmss \<le> 65535" using mss by (simp add: word_le_nat_alt)
    have uk: "unat (of_nat k :: u32) = k" using k mb by (simp add: unat_of_nat_u32)
    have iw: "unat (iwnd + of_nat k) = unat iwnd + k"
      using True k mb mw by (simp add: unat_plus_if' uk word_less_nat_alt)
    have st: "unat (sent + of_nat k) = unat sent + k" using k len by (simp add: unat_plus_if' uk)
    have "unat mwnd - unat (iwnd + of_nat k) < unat mwnd - unat iwnd" using True k by (simp add: iw word_less_nat_alt)
    moreover have "unat (sent + of_nat k) \<le> length msg" using k st by simp
    moreover have "unat mwnd - unat (iwnd + of_nat k) \<le> length msg - unat (sent + of_nat k)" using less.prems k st iw by linarith
    ultimately have "\<exists>ps w'. batch_loop msg mmss mwnd start (iwnd + of_nat k) (sent + of_nat k) ?w1 =
        Some (sent + of_nat k + of_nat (length (concat ps)), w') \<and>
      concat ps = take (length (concat ps)) (drop (unat sent + k) msg) \<and> (\<forall>p \<in> set ps. p \<noteq> [] \<and> length p \<le> unat mmss) \<and>
      unat mwnd \<le> unat iwnd + k + length (concat ps) \<and> unat sent + k + length (concat ps) \<le> length msg \<and>
      (ps \<noteq> [] \<longrightarrow> unat iwnd + k + length (concat (butlast ps)) < unat mwnd) \<and>
      batched (data_segments (message_skb (tsk w) start (length msg)) (unat sent + k) ps) ?w1 w'"
      using less.hyps [of "iwnd + of_nat k" "sent + of_nat k" ?w1] by (simp add: iw st)
    then obtain ps w' where ps: "batch_loop msg mmss mwnd start (iwnd + of_nat k) (sent + of_nat k) ?w1 =
        Some (sent + of_nat k + of_nat (length (concat ps)), w')"
      "concat ps = take (length (concat ps)) (drop (unat sent + k) msg)" "\<forall>p \<in> set ps. p \<noteq> [] \<and> length p \<le> unat mmss"
      "unat mwnd \<le> unat iwnd + k + length (concat ps)" "unat sent + k + length (concat ps) \<le> length msg"
      "ps \<noteq> [] \<longrightarrow> unat iwnd + k + length (concat (butlast ps)) < unat mwnd"
      "batched (data_segments (message_skb (tsk w) start (length msg)) (unat sent + k) ps) ?w1 w'" by blast
    let ?p = "take k (drop (unat sent) msg)"
    have lp: "length ?p = k" using k by simp
    have "take (k + length (concat ps)) (drop (unat sent) msg) = ?p @ take (length (concat ps)) (drop (unat sent + k) msg)"
      by (simp add: take_add add.commute)
    then have "concat (?p # ps) = take (length (concat (?p # ps))) (drop (unat sent) msg)" using ps(2) lp by simp
    moreover have "batched (data_segments (message_skb (tsk w) start (length msg)) (unat sent) (?p # ps)) w w'"
      using batched_Cons [OF ps(7)] sg lp by simp
    moreover have "unat iwnd + length (concat (butlast (?p # ps))) < unat mwnd"
      using ps(6) lp True by (cases "ps = []") (simp_all add: word_less_nat_alt)
    ultimately show ?thesis using ps(1,3,4,5) eq lp k
      by (intro exI [of _ "?p # ps"] exI [of _ w']) (auto simp: add.assoc)
  qed
qed

section \<open>Delivery at the peer\<close>

primrec deliver :: "tcp_segment list \<Rightarrow> tcp_world \<Rightarrow> tcp_world option" where
  "deliver [] w = Some w"
| "deliver (sg # sgs) w = (let (a, w1) = receive_skb sg w in Option.bind (tcp_dispatch a w1) (deliver sgs))"

lemma wake_owner_ok:
  assumes "sched_ok (nsched w) Q"
  obtains s' Q' where "wake_owner w = Some (w\<lparr>nsched := s'\<rparr>)" "sched_ok s' Q'" "state (threads s' (owner_thread (tsk w))) = THREAD_READY"
proof (cases "state (threads (nsched w) (owner_thread (tsk w))) = THREAD_READY")
  case True
  then have "wake_owner w = Some (w\<lparr>nsched := nsched w\<rparr>)" by (simp add: wake_owner_def update_thread_def)
  with True assms show ?thesis by (intro that)
next
  case False
  from update_thread_ok [OF sched_ok_but [OF assms] False] show ?thesis by (auto simp: wake_owner_def intro: that)
qed

definition ack_segment :: "tcp_sock \<Rightarrow> u32 \<Rightarrow> tcp_segment" where
  "ack_segment t ack = made_segment (ssin t) (dsin t) (snd_nxt t) ack TCPCB_FLAG_ACK (ucast (rcv_wnd t)) [] []"

text \<open>A segment without data, SYN or FIN changes the socket only by the transition for its flags.\<close>

lemma send_new_empty:
  assumes "flags AND TCPCB_FLAG_SYN = 0" "flags AND TCPCB_FLAG_FIN = 0"
  obtains r sk where "send_new seq ack flags w = Some (w\<lparr>tsk := tcp_state_transition (ucast flags) (tsk w), rseed := r, next_skb := Suc (next_skb w),
    skbs := (skbs w)(next_skb w := sk),
    wire := wire w @ [made_segment (ssin (tsk w)) (dsin (tsk w)) seq ack flags (ucast (rcv_wnd (tsk w))) [] []]\<rparr>)"
  using assms
  by (intro that [where r = "snd (rand_r (rseed w))" and
        sk = "(new_skb (tsk w) seq ack flags [] [])\<lparr>cb_when := clock w, cb_expires := clock w + ucast (rto (tsk w))\<rparr>"])
    (simp add: send_new_def tcp_create_skb_eq tcp_send_skb_def payload_lenth_def new_skb_def made_segment_def Let_def)

lemma tcp_state_transition_id: "tcp_next_state (tstate t) flags = tstate t \<Longrightarrow> tcp_state_transition flags t = t"
  by (simp add: tcp_state_transition_def)

text \<open>An acknowledgement changes nothing in the socket once the connection is open.\<close>

lemma send_ack:
  assumes "tstate (tsk w) = TCP_ESTABLISHED"
  obtains r sk where "send_new (snd_nxt (tsk w)) ack TCPCB_FLAG_ACK w = Some (w\<lparr>rseed := r, next_skb := Suc (next_skb w),
    skbs := (skbs w)(next_skb w := sk), wire := wire w @ [ack_segment (tsk w) ack]\<rparr>)"
proof -
  have "tcp_state_transition (ucast TCPCB_FLAG_ACK) (tsk w) = tsk w"
    by (rule tcp_state_transition_id) (simp add: assms tcp_next_state_def tcp_flag_defs)
  moreover obtain r sk where "send_new (snd_nxt (tsk w)) ack TCPCB_FLAG_ACK w =
      Some (w\<lparr>tsk := tcp_state_transition (ucast TCPCB_FLAG_ACK) (tsk w), rseed := r, next_skb := Suc (next_skb w),
        skbs := (skbs w)(next_skb w := sk),
        wire := wire w @ [made_segment (ssin (tsk w)) (dsin (tsk w)) (snd_nxt (tsk w)) ack TCPCB_FLAG_ACK (ucast (rcv_wnd (tsk w))) [] []]\<rparr>)"
    by (rule send_new_empty [of TCPCB_FLAG_ACK]) (simp_all add: tcp_flag_defs)
  ultimately show ?thesis by (intro that [where r = r and sk = sk]) (simp add: ack_segment_def)
qed

lemma acceptable_in_order:
  assumes "rcv_wnd t \<noteq> 0" "unat (rcv_nxt t) + unat (rcv_wnd t) < 4294967296"
  shows "acceptable_segment t (rcv_nxt t) n"
proof -
  have "rcv_nxt t < rcv_nxt t + rcv_wnd t"
    using assms by (simp add: word_less_nat_alt unat_plus_if' unat_gt_0)
  then show ?thesis using assms(1) by (simp add: acceptable_segment_def)
qed

text \<open>A socket that has nothing outstanding, and the segments it can take.\<close>

definition quiet :: "tcp_sock \<Rightarrow> bool" where
  "quiet t \<longleftrightarrow> tstate t = TCP_ESTABLISHED \<and> flight_size t = 0 \<and> snd_una t = snd_nxt t"

definition data_segment :: "tcp_sock \<Rightarrow> u8 list \<Rightarrow> tcp_segment \<Rightarrow> bool" where
  "data_segment t p sg \<longleftrightarrow>
     seg_seq sg = rcv_nxt t \<and> seg_ack sg = snd_una t \<and> seg_data sg = Some p \<and> p \<noteq> [] \<and> length p < 65536 \<and>
     \<not> seg_rst sg \<and> \<not> seg_syn sg \<and> \<not> seg_fin sg \<and> seg_acked sg"

lemma deliver_data_segment:
  assumes q: "quiet (tsk w)" and sg: "data_segment (tsk w) p sg"
    and win: "rcv_wnd (tsk w) \<noteq> 0" "unat (rcv_nxt (tsk w)) + unat (rcv_wnd (tsk w)) < 4294967296" and ok: "sched_ok (nsched w) Q"
  shows "\<exists>w' Q'. (let (a, w1) = receive_skb sg w in tcp_dispatch a w1) = Some w' \<and>
    tsk w' = (tsk w)\<lparr>rx_queue := rx_queue (tsk w) @ [next_skb w], rcv_nxt := rcv_nxt (tsk w) + of_nat (length p)\<rparr> \<and>
    segment (skbs w' (next_skb w)) = sg \<and> (\<forall>b < next_skb w. skbs w' b = skbs w b) \<and> next_skb w' = next_skb w + 2 \<and>
    wire w' = wire w @ [ack_segment (tsk w) (rcv_nxt (tsk w) + of_nat (length p))] \<and>
    sched_ok (nsched w') Q' \<and> state (threads (nsched w') (owner_thread (tsk w))) = THREAD_READY"
proof -
  obtain a w1 where aw: "receive_skb sg w = (a, w1)" by fastforce
  then have a: "a = next_skb w" "tsk w1 = tsk w" "segment (skbs w1 a) = sg" "next_skb w1 = Suc (next_skb w)" "wire w1 = wire w"
    "nsched w1 = nsched w" "\<And>b. b < next_skb w \<Longrightarrow> skbs w1 b = skbs w b"
    by (auto simp: receive_skb_def)
  let ?n = "of_nat (length p) :: u16"
  have n: "ucast ?n = (of_nat (length p) :: u32)" "0 < ?n" "?n \<noteq> 0"
  proof -
    have "unat ?n = length p" using sg by (simp add: data_segment_def unat_of_nat_u16)
    then show "ucast ?n = (of_nat (length p) :: u32)" "0 < ?n" "?n \<noteq> 0"
      using sg by (metis of_nat_unat, simp_all add: data_segment_def word_less_nat_alt word_unat_eq_iff)
  qed
  let ?w2 = "upd_tsk (\<lambda>t. t\<lparr>rx_queue := rx_queue t @ [a], rcv_nxt := rcv_nxt t + of_nat (length p)\<rparr>) w1"
  obtain r sk where ack: "send_new (snd_nxt (tsk ?w2)) (rcv_nxt (tsk ?w2)) TCPCB_FLAG_ACK ?w2 = Some (?w2\<lparr>rseed := r, next_skb := Suc (next_skb ?w2),
    skbs := (skbs ?w2)(next_skb ?w2 := sk), wire := wire ?w2 @ [ack_segment (tsk ?w2) (rcv_nxt (tsk ?w2))]\<rparr>)" (is "_ = Some ?w3")
    by (rule send_ack [of ?w2]) (use q a in \<open>simp add: quiet_def\<close>)
  have "sched_ok (nsched ?w3) Q" using ok a by simp
  from wake_owner_ok [OF this] obtain s' Q' where wk: "wake_owner ?w3 = Some (?w3\<lparr>nsched := s'\<rparr>)" "sched_ok s' Q'"
    "state (threads s' (owner_thread (tsk ?w3))) = THREAD_READY" .
  have st: "established_rst sg w1 = Some (Continue w1)" "established_syn sg w1 = Some (Continue w1)"
    "established_ack_state sg (seg_wnd (tsk w1) sg) ?n w1 = Some (Continue w1)" "established_fin_acked w1 = Some (Continue w1)"
    using q sg a(2) n(3)
    by (simp_all add: quiet_def data_segment_def established_rst_def established_syn_def established_ack_state_def established_ack_def
        established_fin_acked_def Let_def)
  have "established_data a ?n w1 = Some (True, ?w3)"
    using q a n(1,2) ack by (simp add: quiet_def established_data_def Let_def)
  then have "tcp_dispatch a w1 = Some (?w3\<lparr>nsched := s'\<rparr>)"
    using q sg a(2,3) wk(1) acceptable_in_order [OF win] st
    by (simp add: tcp_dispatch_def tcp_handler_established_def payload_lenth_def quiet_def data_segment_def and_then_def flow_end_def Let_def)
  then show ?thesis using aw a wk
    by (intro exI [of _ "?w3\<lparr>nsched := s'\<rparr>"] exI [of _ Q']) (simp add: ack_segment_def)
qed

lemma message_data_segment:
  assumes "rcv_nxt t' = start + of_nat off" "snd_una t' = rcv_nxt t" "p \<noteq> []" "length p < 65536"
  shows "data_segment t' p (segment (message_skb t start n off p))"
proof -
  have "(TCPCB_FLAG_ACK OR (if b then TCPCB_FLAG_PSH else 0)) AND TCPCB_FLAG_SYN = 0" "(TCPCB_FLAG_ACK OR (if b then TCPCB_FLAG_PSH else 0)) AND TCPCB_FLAG_FIN = 0"
    "(TCPCB_FLAG_ACK OR (if b then TCPCB_FLAG_PSH else 0)) AND TCPCB_FLAG_RST = 0" "(TCPCB_FLAG_ACK OR (if b then TCPCB_FLAG_PSH else 0)) AND TCPCB_FLAG_ACK \<noteq> 0"
    for b by (cases b; simp add: tcp_flag_defs)+
  then show ?thesis using assms by (simp add: data_segment_def message_skb_def new_skb_def made_segment_def)
qed

lemma deliver_message:
  assumes "quiet (tsk w)" "rcv_nxt (tsk w) = start + of_nat off" "snd_una (tsk w) = rcv_nxt t" "\<forall>p \<in> set ps. p \<noteq> [] \<and> length p < 65536"
    "rcv_wnd (tsk w) \<noteq> 0" "unat (rcv_nxt (tsk w)) + length (concat ps) + unat (rcv_wnd (tsk w)) < 4294967296" "sched_ok (nsched w) Q"
  shows "\<exists>w' Q' bs. deliver (data_segments (\<lambda>off p. segment (message_skb t start n off p)) off ps) w = Some w' \<and>
    tsk w' = (tsk w)\<lparr>rx_queue := rx_queue (tsk w) @ bs, rcv_nxt := rcv_nxt (tsk w) + of_nat (length (concat ps))\<rparr> \<and>
    map (\<lambda>b. segment (skbs w' b)) bs = data_segments (\<lambda>off p. segment (message_skb t start n off p)) off ps \<and>
    (\<forall>b < next_skb w. skbs w' b = skbs w b) \<and> (\<forall>b \<in> set bs. next_skb w \<le> b \<and> b < next_skb w') \<and> distinct bs \<and> next_skb w \<le> next_skb w' \<and>
    wire w' = wire w @ data_segments (\<lambda>off p. ack_segment (tsk w) (start + of_nat (off + length p))) off ps \<and> sched_ok (nsched w') Q'"
  using assms
proof (induction ps arbitrary: w off Q)
  case Nil
  then show ?case by (intro exI [of _ w] exI [of _ Q] exI [of _ "[]"]) simp
next
  case (Cons p ps)
  let ?sg = "segment (message_skb t start n off p)"
  have "data_segment (tsk w) p ?sg" using Cons.prems by (intro message_data_segment) simp_all
  from deliver_data_segment [OF Cons.prems(1) this Cons.prems(5) _ Cons.prems(7)] Cons.prems(6) obtain w1 Q1 where
    w1: "(let (a, w1) = receive_skb ?sg w in tcp_dispatch a w1) = Some w1"
      "tsk w1 = (tsk w)\<lparr>rx_queue := rx_queue (tsk w) @ [next_skb w], rcv_nxt := rcv_nxt (tsk w) + of_nat (length p)\<rparr>"
      "segment (skbs w1 (next_skb w)) = ?sg" "\<forall>b < next_skb w. skbs w1 b = skbs w b" "next_skb w1 = next_skb w + 2"
      "wire w1 = wire w @ [ack_segment (tsk w) (rcv_nxt (tsk w) + of_nat (length p))]" "sched_ok (nsched w1) Q1" by auto
  have "unat (rcv_nxt (tsk w1)) = unat (rcv_nxt (tsk w)) + length p"
    using Cons.prems(6) by (simp add: w1(2) unat_plus_if' unat_of_nat_u32)
  then have p6: "unat (rcv_nxt (tsk w1)) + length (concat ps) + unat (rcv_wnd (tsk w1)) < 4294967296" using Cons.prems(6) w1(2) by simp
  have p: "quiet (tsk w1)" "rcv_nxt (tsk w1) = start + of_nat (off + length p)" "snd_una (tsk w1) = rcv_nxt t"
    "\<forall>p \<in> set ps. p \<noteq> [] \<and> length p < 65536" "rcv_wnd (tsk w1) \<noteq> 0"
    using Cons.prems w1(2) by (auto simp: quiet_def add.assoc)
  from Cons.IH [OF p p6 w1(7)] obtain w2 Q2 bs where w2: "deliver (data_segments (\<lambda>off p. segment (message_skb t start n off p)) (off + length p) ps) w1 = Some w2"
    "tsk w2 = (tsk w1)\<lparr>rx_queue := rx_queue (tsk w1) @ bs, rcv_nxt := rcv_nxt (tsk w1) + of_nat (length (concat ps))\<rparr>"
    "map (\<lambda>b. segment (skbs w2 b)) bs = data_segments (\<lambda>off p. segment (message_skb t start n off p)) (off + length p) ps"
    "\<forall>b < next_skb w1. skbs w2 b = skbs w1 b" "\<forall>b \<in> set bs. next_skb w1 \<le> b \<and> b < next_skb w2" "distinct bs" "next_skb w1 \<le> next_skb w2"
    "wire w2 = wire w1 @ data_segments (\<lambda>off p. ack_segment (tsk w1) (start + of_nat (off + length p))) (off + length p) ps" "sched_ok (nsched w2) Q2" by blast
  have acks: "ack_segment (tsk w1) = ack_segment (tsk w)" by (rule ext) (simp add: ack_segment_def w1(2))
  have "deliver (data_segments (\<lambda>off p. segment (message_skb t start n off p)) off (p # ps)) w = Some w2"
    using w1(1) w2(1) by (simp add: Let_def split_beta)
  moreover have "segment (skbs w2 (next_skb w)) = ?sg" using w1(3,5) w2(4) by simp
  moreover have "next_skb w \<notin> set bs" "\<forall>b \<in> set bs. next_skb w \<le> b \<and> b < next_skb w2" "next_skb w < next_skb w2" using w2(5,7) w1(5) by auto
  ultimately show ?case using w1 w2(2-4,6,9) w2(8) [unfolded acks] Cons.prems(2)
    by (intro exI [of _ w2] exI [of _ Q2] exI [of _ "next_skb w # bs"]) (simp add: add.assoc)
qed

section \<open>Reading the message\<close>

lemma message_push: "seg_push (segment (message_skb t start n off p)) \<longleftrightarrow> off + length p = n"
  and message_data: "seg_data (segment (message_skb t start n off p)) = Some p"
  by (simp_all add: message_skb_def new_skb_def made_segment_def tcp_flag_defs)

lemma recv_scan_message:
  assumes "map (\<lambda>b. segment (skbs w b)) bs = data_segments (\<lambda>off p. segment (message_skb t start n off p)) off ps" "ps \<noteq> []"
    "off + length (concat ps) = n" "n < 65536" "n \<le> unat len" "\<forall>p \<in> set ps. p \<noteq> []"
  shows "recv_scan w len (of_nat off) bs = Some (Some (last bs))"
  using assms
proof (induction ps arbitrary: bs off)
  case (Cons p ps)
  then obtain b bs' where bs: "bs = b # bs'" "segment (skbs w b) = segment (message_skb t start n off p)"
    "map (\<lambda>b. segment (skbs w b)) bs' = data_segments (\<lambda>off p. segment (message_skb t start n off p)) (off + length p) ps" by auto
  have le: "off + length p \<le> n" using Cons.prems(3) by simp
  have pl: "payload_lenth (skbs w b) = Some (of_nat (length p))" using bs(2) by (simp add: payload_lenth_def message_data)
  have r: "unat (of_nat off + of_nat (length p) :: u16) = off + length p"
    using le Cons.prems(4) unat_of_nat_u16 [of "off + length p"] by simp
  have u: "unat (ucast (of_nat off + of_nat (length p) :: u16) :: u32) = off + length p"
    using r le Cons.prems(4) by (simp add: unsigned_ucast_eq take_bit_eq_mod)
  then have fits: "ucast (of_nat off + of_nat (length p) :: u16) \<le> len" using le Cons.prems(5) by (simp add: word_le_nat_alt)
  show ?case
  proof (cases ps)
    case Nil
    then show ?thesis using Cons.prems(3) bs pl fits by (simp add: message_push)
  next
    case (Cons q qs)
    have "q \<noteq> []" using Cons.prems(6) Cons by simp
    then have "off + length p < n" using Cons.prems(3) Cons by (cases q) simp_all
    then have "len \<noteq> ucast (of_nat off + of_nat (length p) :: u16)" "\<not> seg_push (segment (skbs w b))"
      using u Cons.prems(5) bs(2) by (auto simp: message_push)
    moreover have "recv_scan w len (of_nat (off + length p)) bs' = Some (Some (last bs'))"
      using Cons.prems Cons by (intro Cons.IH [OF bs(3)]) simp_all
    moreover have "bs' \<noteq> []" using bs(3) Cons by auto
    ultimately show ?thesis using bs pl fits by simp
  qed
qed simp

lemma recv_copy_message:
  assumes "map (\<lambda>b. segment (skbs w b)) bs = data_segments (\<lambda>off p. segment (message_skb t start n off p)) off ps" "distinct bs"
    "bs \<noteq> []"
  shows "recv_copy w (Some (last bs)) bs = Some (concat ps, [])"
  using assms
proof (induction ps arbitrary: bs off)
  case (Cons p ps)
  then obtain b bs' where bs: "bs = b # bs'" "segment (skbs w b) = segment (message_skb t start n off p)"
    "map (\<lambda>b. segment (skbs w b)) bs' = data_segments (\<lambda>off p. segment (message_skb t start n off p)) (off + length p) ps" by auto
  show ?case
  proof (cases "bs' = []")
    case True
    then have "ps = []" using bs(3) by (cases ps) auto
    then show ?thesis using True bs by (simp add: message_data)
  next
    case False
    then have "last bs' \<noteq> b" using Cons.prems(2) bs(1) by auto
    moreover have "recv_copy w (Some (last bs')) bs' = Some (concat ps, [])"
      using Cons.prems(2) bs(1) False by (intro Cons.IH [OF bs(3)]) simp_all
    ultimately show ?thesis using False bs by (simp add: message_data)
  qed
qed simp

lemma recvmsg_message:
  assumes "map (\<lambda>b. segment (skbs w b)) (rx_queue (tsk w)) = data_segments (\<lambda>off p. segment (message_skb t start (length msg) off p)) 0 ps"
    "distinct (rx_queue (tsk w))" "concat ps = msg" "\<forall>p \<in> set ps. p \<noteq> []" "msg \<noteq> []" "length msg < 65536" "length msg \<le> unat len"
    "tstate (tsk w) = TCP_ESTABLISHED"
  shows "recvmsg_loop hs irqs len w = Some (Received (int (length msg)) msg, upd_tsk (\<lambda>t. t\<lparr>rx_queue := [], rx_length := 0\<rparr>) w)"
proof -
  have "ps \<noteq> []" using assms(3,5) by auto
  moreover have "length (rx_queue (tsk w)) = length ps" using arg_cong [OF assms(1), of length] by simp
  ultimately have ne: "ps \<noteq> []" "rx_queue (tsk w) \<noteq> []" by auto
  have "recv_scan w len 0 (rx_queue (tsk w)) = Some (Some (last (rx_queue (tsk w))))"
    using recv_scan_message [OF assms(1) ne(1)] assms by simp
  then show ?thesis using recv_copy_message [OF assms(1,2) ne(2)] assms(3,8)
    by (simp add: recvmsg_loop_def recv_finish_def tcp_return_code_def)
qed

section \<open>Sending the segments\<close>

definition stamped :: "tcp_world \<Rightarrow> tcp_skb \<Rightarrow> tcp_skb" where
  "stamped w skb = skb\<lparr>cb_when := clock w, cb_expires := clock w + ucast (rto (tsk w))\<rparr>"

definition armed :: "tcp_world \<Rightarrow> u64 option" where
  "armed w = Some (case retransmit_timer (tsk w) of None \<Rightarrow> clock w + ucast (rto (tsk w)) | Some e \<Rightarrow> e)"

lemma message_end_seq: "p \<noteq> [] \<Longrightarrow> cb_end_seq (message_skb t start n off p) + 1 = start + of_nat (off + length p)"
proof -
  assume "p \<noteq> []"
  then have "max 0 (int (length p) - 1) = int (length p) - 1" by (cases p) simp_all
  then show ?thesis by (simp add: message_skb_def new_skb_def)
qed

lemma send_message_skb:
  assumes "skbs w a = message_skb t start n off p" "tstate (tsk w) = TCP_ESTABLISHED" "p \<noteq> []" "length p < 65536"
  shows "tcp_send_skb a False w = Some (w\<lparr>
    tsk := (tsk w)\<lparr>flight_size := flight_size (tsk w) + of_nat (length p), snd_nxt := start + of_nat (off + length p), retransmit_timer := armed w\<rparr>,
    skbs := (skbs w)(a := stamped w (skbs w a)), wire := wire w @ [segment (skbs w a)]\<rparr>)"
proof -
  have n: "ucast (of_nat (length p) :: u16) = (of_nat (length p) :: u32)" "0 < (of_nat (length p) :: u16)"
  proof -
    have "unat (of_nat (length p) :: u16) = length p" using assms(4) by (rule unat_of_nat_u16)
    then show "ucast (of_nat (length p) :: u16) = (of_nat (length p) :: u32)" "0 < (of_nat (length p) :: u16)"
      using assms(3) by (metis of_nat_unat, simp add: word_less_nat_alt)
  qed
  have fl: "tcp_next_state TCP_ESTABLISHED (ucast (cb_flags (skbs w a))) = TCP_ESTABLISHED"
    by (simp add: assms(1) message_skb_def new_skb_def tcp_next_state_def tcp_flag_defs)
  have "payload_lenth (skbs w a) = Some (of_nat (length p))" by (simp add: payload_lenth_def assms(1) message_data)
  moreover have "cb_end_seq (skbs w a) + 1 = start + of_nat (off + length p)" using message_end_seq [OF assms(3)] by (simp only: assms(1))
  ultimately show ?thesis using n fl assms(2)
    by (cases "retransmit_timer (tsk w)") (simp_all add: tcp_send_skb_def tcp_state_transition_id stamped_def armed_def Let_def)
qed

text \<open>What \<open>tcp_transmit\<close> leaves behind when the window is open at the start of each segment.\<close>

definition transmitted :: "u32 \<Rightarrow> nat \<Rightarrow> nat \<Rightarrow> tcp_world \<Rightarrow> tcp_sock" where
  "transmitted start off a w = (tsk w)\<lparr>flight_size := flight_size (tsk w) + of_nat a, snd_nxt := start + of_nat (off + a), send_head := None,
     retransmit_timer := armed w\<rparr>"

lemma transmit_message:
  assumes "map (skbs w) as = data_segments (message_skb t start n) off ps" "distinct as" "tstate (tsk w) = TCP_ESTABLISHED"
    "\<forall>p \<in> set ps. p \<noteq> [] \<and> length p < 65536" "snd_nxt (tsk w) = start + of_nat off" "snd_una (tsk w) + snd_wnd (tsk w) = start + of_nat wn"
    "off + length (concat (butlast ps)) < wn" "wn < off + 4294967296" "rtt_time (tsk w) \<noteq> 0 \<or> take 1 (tx_queue (tsk w)) = take 1 as \<and> clock w \<noteq> 0" "ps \<noteq> []"
  shows "\<exists>w'. transmit_from as w = Some w' \<and>
    tsk w' = (transmitted start off (length (concat ps)) w)\<lparr>rtt_end_seq := (if rtt_time (tsk w) = 0 then cb_end_seq (skbs w (hd as)) else rtt_end_seq (tsk w)),
      rtt_time := (if rtt_time (tsk w) = 0 then clock w else rtt_time (tsk w))\<rparr> \<and>
    wire w' = wire w @ map (\<lambda>a. segment (skbs w a)) as \<and> (\<forall>a. skbs w' a = (if a \<in> set as then stamped w (skbs w a) else skbs w a)) \<and>
    clock w' = clock w \<and> nsched w' = nsched w \<and> next_skb w' = next_skb w"
  using assms
proof (induction ps arbitrary: as off w)
  case (Cons p ps)
  then obtain a as' where as: "as = a # as'" "skbs w a = message_skb t start n off p"
    "map (skbs w) as' = data_segments (message_skb t start n) (off + length p) ps" "a \<notin> set as'" "distinct as'" by auto
  have p: "p \<noteq> []" "length p < 65536" using Cons.prems(4) by simp_all
  have off: "off < wn" using Cons.prems(7) by simp
  have "tcp_sender_available_window (tsk w) = of_nat wn - of_nat off"
    using Cons.prems(5,6) by (simp add: tcp_sender_available_window_def)
  moreover have "(of_nat wn :: u32) \<noteq> of_nat off"
    using word_offset_neq [of "wn - off" 0 "of_nat off"] off Cons.prems(8) by (simp flip: of_nat_add)
  ultimately have win: "tcp_sender_available_window (tsk w) > 0" by (simp add: word_gt_0)
  define w1 where "w1 = w\<lparr>skbs := (skbs w)(a := stamped w (skbs w a)), wire := wire w @ [segment (skbs w a)],
    tsk := (tsk w)\<lparr>flight_size := flight_size (tsk w) + of_nat (length p), snd_nxt := start + of_nat (off + length p),
      retransmit_timer := armed w, send_head := (case as' of [] \<Rightarrow> None | b # _ \<Rightarrow> Some b)\<rparr>\<rparr>"
  define w2 where "w2 = (if rtt_time (tsk w) = 0 then upd_tsk (\<lambda>t. t\<lparr>rtt_end_seq := cb_end_seq (skbs w a), rtt_time := clock w\<rparr>) w1 else w1)"
  have eq: "transmit_from as w = transmit_from as' w2"
    using win send_message_skb [OF as(2) Cons.prems(3) p] Cons.prems(9)
    by (auto simp: as(1) w2_def w1_def stamped_def)
  have old: "skbs w2 = (skbs w)(a := stamped w (skbs w a))" "wire w2 = wire w @ [segment (skbs w a)]" "clock w2 = clock w" "nsched w2 = nsched w"
    "next_skb w2 = next_skb w" "rto (tsk w2) = rto (tsk w)" by (simp_all add: w2_def w1_def)
  then have st: "stamped w2 = stamped w" by (intro ext) (simp add: stamped_def)
  have ar: "armed w2 = armed w" by (simp add: armed_def w2_def w1_def)
  show ?case
  proof (cases "ps = []")
    case True
    then have "as' = []" using as(3) by simp
    then show ?thesis using True eq old
      by (intro exI [of _ w2]) (simp add: as(1) transmitted_def w2_def w1_def stamped_def)
  next
    case False
    have "skbs w2 b = skbs w b" if "b \<in> set as'" for b using that as(4) old(1) by auto
    then have "map (skbs w2) as' = map (skbs w) as'" "map (\<lambda>a. segment (skbs w2 a)) as' = map (\<lambda>a. segment (skbs w a)) as'"
      by (auto intro: map_cong)
    moreover have "rtt_time (tsk w2) \<noteq> 0" using Cons.prems(9) by (auto simp: w2_def w1_def)
    moreover have "\<exists>w'. transmit_from as' w2 = Some w' \<and>
      tsk w' = (transmitted start (off + length p) (length (concat ps)) w2)\<lparr>rtt_end_seq := rtt_end_seq (tsk w2), rtt_time := rtt_time (tsk w2)\<rparr> \<and>
      wire w' = wire w2 @ map (\<lambda>a. segment (skbs w2 a)) as' \<and> (\<forall>a. skbs w' a = (if a \<in> set as' then stamped w2 (skbs w2 a) else skbs w2 a)) \<and>
      clock w' = clock w2 \<and> nsched w' = nsched w2 \<and> next_skb w' = next_skb w2"
      using Cons.IH [of w2 as' "off + length p"] Cons.prems calculation as(3,5) False
      by (simp add: w2_def w1_def add.assoc)
    ultimately obtain w' where w': "transmit_from as' w2 = Some w'"
      "tsk w' = (transmitted start (off + length p) (length (concat ps)) w2)\<lparr>rtt_end_seq := rtt_end_seq (tsk w2), rtt_time := rtt_time (tsk w2)\<rparr>"
      "wire w' = wire w2 @ map (\<lambda>a. segment (skbs w a)) as'" "\<forall>a. skbs w' a = (if a \<in> set as' then stamped w2 (skbs w2 a) else skbs w2 a)"
      "clock w' = clock w2" "nsched w' = nsched w2" "next_skb w' = next_skb w2" by auto
    have "tsk w' = (transmitted start off (length (concat (p # ps))) w)\<lparr>
      rtt_end_seq := (if rtt_time (tsk w) = 0 then cb_end_seq (skbs w (hd as)) else rtt_end_seq (tsk w)),
      rtt_time := (if rtt_time (tsk w) = 0 then clock w else rtt_time (tsk w))\<rparr>"
      unfolding w'(2) transmitted_def ar by (simp add: as(1) w2_def w1_def add.assoc)
    moreover have "skbs w' b = (if b \<in> set as then stamped w (skbs w b) else skbs w b)" for b
      using w'(4) as(4) by (auto simp: as(1) old(1) st)
    ultimately show ?thesis using w' eq old by (intro exI [of _ w']) (simp add: as(1))
  qed
qed simp

lemma transmit_waits:
  assumes tx: "tx_queue (tsk w) \<noteq> []" and p: "transmit_pending (w\<lparr>nsched := lock_scheduler (nsched w)\<rparr>) = Some w1"
    and ns: "nsched w1 = lock_scheduler (nsched w)" and ok: "sched_ok (nsched w) Q" and irqs: "\<forall>irq \<in> set irqs. keeps_ok irq" "keeps_ok hs"
  obtains s' Q' where "tcp_transmit hs irqs w = Some (False, w1\<lparr>nsched := s'\<rparr>)" "sched_ok s' Q'"
proof -
  have "sched_ok (nsched w1) Q" using ok ns by simp
  from keeps_okD [OF keeps_ok_update_thread [of "current_thread (nsched w1)" THREAD_WAITING] this] obtain s1 Q1 where
    s1: "update_thread (current_thread (nsched w1)) THREAD_WAITING (nsched w1) = Some s1" "sched_ok s1 Q1" by metis
  then have "sched_ok (unlock_scheduler s1) Q1" by simp
  from schedule_total [OF this irqs] obtain s2 Q2 where "schedule hs irqs (unlock_scheduler s1) = Some s2" "sched_ok s2 Q2" by blast
  then show ?thesis using tx p s1 by (intro that [of s2 Q2]) (simp_all add: tcp_transmit_def)
qed

text \<open>What the control of the flow needs: no window is closed, and the segment size and the congestion window fit 16 bits.\<close>

definition flow_ok :: "tcp_sock \<Rightarrow> bool" where
  "flow_ok t \<longleftrightarrow> cwnd t \<noteq> 0 \<and> cwnd t \<le> ETH_MAX_MTU \<and> snd_wnd t \<noteq> 0 \<and> snd_mss t \<noteq> 0 \<and> snd_mss t \<le> ETH_MAX_MTU"

definition clock_ok :: "u64 \<Rightarrow> bool" where
  "clock_ok c \<longleftrightarrow> c \<noteq> 0 \<and> unat c < 9223372036854775808"

lemma clock_ok_expires: "clock_ok c \<Longrightarrow> c + ucast (r :: u32) \<noteq> 0"
proof -
  assume c: "clock_ok c"
  have "unat (ucast r :: u64) < 4294967296" using u32_bound [of r] by (simp add: unsigned_ucast_eq take_bit_eq_mod)
  then have "unat (c + ucast r) = unat c + unat (ucast r :: u64)" using c by (simp add: clock_ok_def unat_plus_if')
  moreover have "unat c \<noteq> 0" using c by (simp add: clock_ok_def unat_eq_0)
  ultimately show ?thesis by (metis add_is_0 unat_0)
qed

text \<open>A sender that has nothing outstanding, with the first \<open>off\<close> bytes of the message behind it.\<close>

definition sender_at :: "u32 \<Rightarrow> nat \<Rightarrow> tcp_world \<Rightarrow> bool" where
  "sender_at start off w \<longleftrightarrow>
     tstate (tsk w) = TCP_ESTABLISHED \<and> tx_queue (tsk w) = [] \<and> send_head (tsk w) = None \<and>
     snd_una (tsk w) = start + of_nat off \<and> snd_nxt (tsk w) = start + of_nat off \<and> flow_ok (tsk w) \<and> rto (tsk w) \<noteq> 0 \<and> clock_ok (clock w)"

text \<open>One round of the loop of \<open>tcp_sendmsg\<close>: pieces of the rest of the message are queued, sent, and the thread waits.\<close>

lemma loop_sends:
  assumes r: "sender_at start off w" and off: "off < length msg" and len: "length msg < 2147483648" and mss: "mmss \<noteq> 0" "mmss \<le> 65535"
    and ok: "sched_ok (nsched w) Q" and irqs: "\<forall>irq \<in> set irqs. keeps_ok irq" "keeps_ok hs"
  obtains ps w' Q' as e c where
    "sendmsg_loop hs irqs msg mmss start (of_nat off) w = Some (SendWait (Sending (of_nat (off + length (concat ps)))), w')" "sched_ok (nsched w') Q'"
    "ps \<noteq> []" "\<forall>p \<in> set ps. p \<noteq> [] \<and> length p < 65536" "concat ps = take (length (concat ps)) (drop off msg)" "off + length (concat ps) \<le> length msg"
    "as = [next_skb w..<next_skb w + length ps]" "next_skb w' = next_skb w + length ps" "clock w' = clock w"
    "tsk w' = (tsk w)\<lparr>tx_queue := as, flight_size := flight_size (tsk w) + of_nat (length (concat ps)),
       snd_nxt := start + of_nat (off + length (concat ps)), retransmit_timer := armed w, rtt_end_seq := e, rtt_time := c\<rparr>"
    "map (skbs w') as = map (stamped w) (data_segments (message_skb (tsk w) start (length msg)) off ps)"
    "wire w' = wire w @ data_segments (\<lambda>off p. segment (message_skb (tsk w) start (length msg) off p)) off ps"
proof -
  let ?n = "length msg"
  note rd = r [unfolded sender_at_def]
  have ln: "unat (of_nat ?n :: u32) = ?n" "unat (of_nat off :: u32) = off" using off len by (simp_all add: unat_of_nat_u32)
  then have lt: "(of_nat off :: u32) < of_nat ?n" using off by (simp add: word_less_nat_alt)
  then have rem: "unat (of_nat ?n - of_nat off :: u32) = ?n - off" using ln by (simp add: unat_sub less_imp_le)
  have avail: "tcp_sender_available_window (tsk w) = snd_wnd (tsk w)" using rd by (simp add: tcp_sender_available_window_def)
  define mw where "mw = min (min (cwnd (tsk w)) (tcp_sender_available_window (tsk w))) (of_nat ?n - of_nat off)"
  have mw: "unat mw = min (min (unat (cwnd (tsk w))) (unat (snd_wnd (tsk w)))) (?n - off)" by (simp add: mw_def unat_min_u32 rem avail)
  have mwb: "unat mw < 2147483648" "unat mw \<le> ?n - off" "unat mw \<le> unat (snd_wnd (tsk w))" using mw len by linarith+
  have "0 < unat (cwnd (tsk w))" "0 < unat (snd_wnd (tsk w))" using rd by (simp_all add: flow_ok_def unat_gt_0)
  then have mw0: "0 < unat mw" using mw off by linarith
  then have mwn: "mw \<noteq> 0" by (rule unat_gt_0 [THEN iffD1])
  obtain ps w1 where b: "batch_loop msg mmss mw start 0 (of_nat off) w = Some (of_nat off + of_nat (length (concat ps)), w1)"
    "concat ps = take (length (concat ps)) (drop off msg)" "\<forall>p \<in> set ps. p \<noteq> [] \<and> length p \<le> unat mmss" "unat mw \<le> length (concat ps)"
    "off + length (concat ps) \<le> ?n" "ps \<noteq> [] \<longrightarrow> length (concat (butlast ps)) < unat mw"
    "batched (data_segments (message_skb (tsk w) start ?n) off ps) w w1"
    using batch_loop_correct [OF mss len mwb(1), of "of_nat off" 0 start w] mwb(2) off ln by auto
  have ne: "ps \<noteq> []" using b(4) mw0 by auto
  define as where "as = [next_skb w..<next_skb w + length ps]"
  have as: "as \<noteq> []" "distinct as" using ne by (simp_all add: as_def)
  note bt = b(7) [unfolded batched_def Let_def length_data_segments, folded as_def]
  let ?w1 = "w1\<lparr>nsched := lock_scheduler (nsched w1)\<rparr>"
  have t1: "tsk ?w1 = queued as (tsk w)" "clock ?w1 = clock w" "wire ?w1 = wire w" using bt by simp_all
  have sk1: "map (skbs ?w1) as = data_segments (message_skb (tsk w) start ?n) off ps" using bt by simp
  have "unat mmss \<le> 65535" using mss by (simp add: word_le_nat_alt)
  then have small: "\<forall>p \<in> set ps. p \<noteq> [] \<and> length p < 65536" using b(3) by fastforce
  let ?wn = "off + unat (snd_wnd (tsk w))"
  have q1: "tstate (tsk ?w1) = TCP_ESTABLISHED" "snd_nxt (tsk ?w1) = start + of_nat off" "snd_una (tsk ?w1) + snd_wnd (tsk ?w1) = start + of_nat ?wn"
    "off + length (concat (butlast ps)) < ?wn" "?wn < off + 4294967296"
    "rtt_time (tsk ?w1) \<noteq> 0 \<or> take 1 (tx_queue (tsk ?w1)) = take 1 as \<and> clock ?w1 \<noteq> 0"
    unfolding t1 using rd b(6) ne mwb(3) u32_bound [of "snd_wnd (tsk w)"] by (simp_all add: queued_def clock_ok_def)
  from transmit_message [OF sk1 as(2) q1(1) small q1(2-6) ne] obtain w2 where w2: "transmit_from as ?w1 = Some w2"
    "tsk w2 = (transmitted start off (length (concat ps)) ?w1)\<lparr>
      rtt_end_seq := (if rtt_time (tsk ?w1) = 0 then cb_end_seq (skbs ?w1 (hd as)) else rtt_end_seq (tsk ?w1)),
      rtt_time := (if rtt_time (tsk ?w1) = 0 then clock ?w1 else rtt_time (tsk ?w1))\<rparr>"
    "wire w2 = wire ?w1 @ map (\<lambda>a. segment (skbs ?w1 a)) as" "\<forall>a. skbs w2 a = (if a \<in> set as then stamped ?w1 (skbs ?w1 a) else skbs ?w1 a)"
    "clock w2 = clock ?w1" "nsched w2 = nsched ?w1" "next_skb w2 = next_skb ?w1" by blast
  have "transmit_pending ?w1 = transmit_from as ?w1"
    using t1(1) rd as(1) by (cases as) (simp_all add: transmit_pending_def queued_def)
  with w2(1) have "transmit_pending ?w1 = Some w2" by simp
  moreover have "tx_queue (tsk w1) \<noteq> []" "nsched w2 = lock_scheduler (nsched w1)" "sched_ok (nsched w1) Q"
    using bt as(1) ok w2(6) by simp_all
  ultimately obtain s' Q' where tr: "tcp_transmit hs irqs w1 = Some (False, w2\<lparr>nsched := s'\<rparr>)" "sched_ok s' Q'"
    using transmit_waits irqs by metis
  have st: "stamped ?w1 = stamped w" "armed ?w1 = armed w" using t1 by (auto simp: stamped_def armed_def queued_def split: option.split)
  show ?thesis
  proof (rule that [of ps "w2\<lparr>nsched := s'\<rparr>" Q' as, OF _ _ ne small b(2,5) as_def])
    show "sendmsg_loop hs irqs msg mmss start (of_nat off) w = Some (SendWait (Sending (of_nat (off + length (concat ps)))), w2\<lparr>nsched := s'\<rparr>)"
      using rd lt mwn b(1) tr(1) by (simp add: sendmsg_loop_def Let_def flip: mw_def)
    show "sched_ok (nsched (w2\<lparr>nsched := s'\<rparr>)) Q'" using tr(2) by simp
    show "next_skb (w2\<lparr>nsched := s'\<rparr>) = next_skb w + length ps" "clock (w2\<lparr>nsched := s'\<rparr>) = clock w" using w2 bt by simp_all
    show "tsk (w2\<lparr>nsched := s'\<rparr>) = (tsk w)\<lparr>tx_queue := as, flight_size := flight_size (tsk w) + of_nat (length (concat ps)),
       snd_nxt := start + of_nat (off + length (concat ps)), retransmit_timer := armed w,
       rtt_end_seq := (if rtt_time (tsk w) = 0 then cb_end_seq (skbs w1 (hd as)) else rtt_end_seq (tsk w)),
       rtt_time := (if rtt_time (tsk w) = 0 then clock w else rtt_time (tsk w))\<rparr>"
      using rd w2(2) t1 st by (simp add: transmitted_def queued_def)
    show "map (skbs (w2\<lparr>nsched := s'\<rparr>)) as = map (stamped w) (data_segments (message_skb (tsk w) start ?n) off ps)"
      using w2(4) st(1) by (simp flip: sk1)
    show "wire (w2\<lparr>nsched := s'\<rparr>) = wire w @ data_segments (\<lambda>off p. segment (message_skb (tsk w) start ?n off p)) off ps"
      using w2(3) t1(3) arg_cong [OF sk1, of "map segment"] by (simp add: map_data_segments comp_def)
  qed
qed

section \<open>Acknowledgements at the sender\<close>

definition ack_only :: "tcp_sock \<Rightarrow> u32 \<Rightarrow> tcp_segment \<Rightarrow> bool" where
  "ack_only t ack sg \<longleftrightarrow> seg_seq sg = rcv_nxt t \<and> seg_ack sg = ack \<and> seg_data sg = Some [] \<and>
     \<not> seg_rst sg \<and> \<not> seg_syn sg \<and> \<not> seg_fin sg \<and> \<not> seg_push sg \<and> seg_acked sg"

text \<open>The part of the socket that an acknowledgement leaves alone.\<close>

definition same_connection :: "tcp_sock \<Rightarrow> tcp_sock \<Rightarrow> bool" where
  "same_connection t t' \<longleftrightarrow> sock_state t' = sock_state t \<and> tstate t' = tstate t \<and> send_head t' = send_head t \<and> snd_nxt t' = snd_nxt t \<and>
     rcv_nxt t' = rcv_nxt t \<and> rcv_wnd t' = rcv_wnd t \<and> rx_queue t' = rx_queue t \<and> owner_thread t' = owner_thread t \<and>
     snd_iss t' = snd_iss t \<and> ssin t' = ssin t \<and> dsin t' = dsin t \<and> snd_mss t' = snd_mss t \<and> snd_wds t' = snd_wds t \<and>
     rto t \<noteq> 0 \<and> rto t' \<noteq> 0"

text \<open>The congestion window grows, up to its bound.\<close>

lemma congestion_flow_ok:
  assumes "flow_ok t"
  shows "flow_ok (tcp_calculate_congestion ack t)"
proof -
  let ?c = "if cwnd t \<le> ssthresh t then cwnd t + min (ack - snd_una t) (snd_mss t) else cwnd t + snd_mss t * snd_mss t div cwnd t"
  have c: "0 < unat (cwnd t)" "unat (cwnd t) \<le> 65535" "unat (snd_mss t) \<le> 65535"
    using assms by (simp_all add: flow_ok_def ETH_MAX_MTU_def unat_gt_0 word_le_nat_alt)
  have "unat (min (ack - snd_una t) (snd_mss t)) \<le> 65535" using c(3) by (simp add: unat_min_u32)
  then have slow: "unat (cwnd t + min (ack - snd_una t) (snd_mss t)) = unat (cwnd t) + unat (min (ack - snd_una t) (snd_mss t))"
    using c(2) by (simp add: unat_plus_if')
  have sq: "unat (snd_mss t) * unat (snd_mss t) \<le> 65535 * 65535" using c(3) by (intro mult_le_mono)
  have "unat (snd_mss t * snd_mss t div cwnd t) \<le> unat (snd_mss t * snd_mss t)" by (simp add: unat_div div_le_dividend)
  also have "\<dots> \<le> 65535 * 65535" using sq by (simp add: unat_word_ariths mod_less_eq_dividend [THEN order_trans])
  finally have "unat (cwnd t + snd_mss t * snd_mss t div cwnd t) = unat (cwnd t) + unat (snd_mss t * snd_mss t div cwnd t)"
    using c(2) by (simp add: unat_plus_if')
  with slow have "0 < unat ?c" using c(1) by simp
  then have "?c \<noteq> 0" by (rule unat_gt_0 [THEN iffD1])
  moreover have "min x ETH_MAX_MTU \<noteq> 0" if "x \<noteq> 0" for x using that by (auto simp: min_def ETH_MAX_MTU_def)
  ultimately have "min ?c ETH_MAX_MTU \<noteq> 0" by blast
  then show ?thesis using assms by (simp add: flow_ok_def tcp_calculate_congestion_def Let_def)
qed

lemma acked_loop_filter: "\<forall>a \<in> set q. sh \<noteq> Some a \<Longrightarrow> acked_loop acked sh q = Some (filter (\<lambda>a. \<not> acked a) q)"
  by (induction q) auto

lemma calculate_rto_changes:
  "\<exists>a b c. tcp_calculate_rto r t = t\<lparr>srtt := a, rttvar := b, rto := c\<rparr> \<or> tcp_calculate_rto r t = t\<lparr>rttvar := b, srtt := a, rto := c\<rparr>"
proof (cases "srtt t = 0")
  case True
  show ?thesis unfolding tcp_calculate_rto_def Let_def if_P [OF True] by blast
next
  case False
  show ?thesis unfolding tcp_calculate_rto_def Let_def if_not_P [OF False] by blast
qed

lemma calculate_rto_fields [simp]:
  "sock_state (tcp_calculate_rto r t) = sock_state t" "tstate (tcp_calculate_rto r t) = tstate t" "send_head (tcp_calculate_rto r t) = send_head t"
  "snd_nxt (tcp_calculate_rto r t) = snd_nxt t" "rcv_nxt (tcp_calculate_rto r t) = rcv_nxt t" "rcv_wnd (tcp_calculate_rto r t) = rcv_wnd t"
  "rx_queue (tcp_calculate_rto r t) = rx_queue t" "owner_thread (tcp_calculate_rto r t) = owner_thread t"
  "snd_iss (tcp_calculate_rto r t) = snd_iss t" "ssin (tcp_calculate_rto r t) = ssin t" "dsin (tcp_calculate_rto r t) = dsin t"
  "snd_una (tcp_calculate_rto r t) = snd_una t" "tx_queue (tcp_calculate_rto r t) = tx_queue t" "snd_mss (tcp_calculate_rto r t) = snd_mss t"
  "snd_wds (tcp_calculate_rto r t) = snd_wds t" "cwnd (tcp_calculate_rto r t) = cwnd t" "snd_wnd (tcp_calculate_rto r t) = snd_wnd t"
  using calculate_rto_changes [of r t] by auto

lemma calculate_rto_min: "1000 \<le> rto (tcp_calculate_rto r t)"
  by (simp add: tcp_calculate_rto_def Let_def)

lemma accept_ack_in_order:
  assumes sh: "send_head (tsk w) = None" and ex: "filter (\<lambda>a. \<not> cb_end_seq (skbs w a) < ack) (tx_queue (tsk w)) \<noteq> [] \<Longrightarrow>
      cb_expires (skbs w (hd (filter (\<lambda>a. \<not> cb_end_seq (skbs w a) < ack) (tx_queue (tsk w))))) \<noteq> 0" and rto: "rto (tsk w) \<noteq> 0"
  obtains w' where "tcp_accept_ack ack False w = Some w'" "same_connection (tsk w) (tsk w')" "snd_una (tsk w') = ack"
    "tx_queue (tsk w') = filter (\<lambda>a. \<not> cb_end_seq (skbs w a) < ack) (tx_queue (tsk w))" "w' = w\<lparr>tsk := tsk w'\<rparr>"
    "cwnd (tsk w') = cwnd (tsk w)" "snd_wnd (tsk w') = snd_wnd (tsk w)"
proof -
  define q where "q = filter (\<lambda>a. \<not> cb_end_seq (skbs w a) < ack) (tx_queue (tsk w))"
  define t1 where "t1 = (tsk w)\<lparr>snd_una := ack, flight_size := snd_nxt (tsk w) - ack, number_of_dup_acks := 0, tx_queue := q,
    retransmit_timer := (if q \<noteq> [] then Some (cb_expires (skbs w (hd q))) else None)\<rparr>"
  define t2 where "t2 = (if rtt_time t1 \<noteq> 0 \<and> rtt_end_seq t1 < ack then (tcp_calculate_rto (ucast (clock w - rtt_time t1)) t1)\<lparr>rtt_time := 0\<rparr> else t1)"
  have "acked_loop (\<lambda>a. cb_end_seq (skbs w a) < ack) None (tx_queue (tsk w)) = Some q" by (simp add: acked_loop_filter q_def)
  then have eq: "tcp_accept_ack ack False w = Some (w\<lparr>tsk := t2\<rparr>)"
    using sh ex unfolding q_def [symmetric] by (simp add: tcp_accept_ack_def t1_def t2_def Let_def)
  have one: "same_connection (tsk w) t1 \<and> snd_una t1 = ack \<and> tx_queue t1 = q \<and> cwnd t1 = cwnd (tsk w) \<and> snd_wnd t1 = snd_wnd (tsk w)" using rto by (simp add: same_connection_def t1_def)
  have two: "same_connection (tsk w) t2 \<and> snd_una t2 = ack \<and> tx_queue t2 = q \<and> cwnd t2 = cwnd (tsk w) \<and> snd_wnd t2 = snd_wnd (tsk w)"
  proof (cases "rtt_time t1 \<noteq> 0 \<and> rtt_end_seq t1 < ack")
    case True
    have "rto (tcp_calculate_rto (ucast (clock w - rtt_time t1)) t1) \<noteq> 0"
      using calculate_rto_min [of "ucast (clock w - rtt_time t1)" t1] by auto
    then show ?thesis using one True by (simp add: t2_def same_connection_def)
  next
    case False
    then have "t2 = t1" unfolding t2_def by (rule if_not_P)
    then show ?thesis using one by simp
  qed
  show ?thesis by (rule that [OF eq]) (use two in \<open>simp_all add: q_def\<close>)
qed

lemma ack_step:
  assumes st: "tstate (tsk w) = TCP_ESTABLISHED" and sh: "send_head (tsk w) = None" and sg: "ack_only (tsk w) ack sg"
    and win: "rcv_wnd (tsk w) \<noteq> 0" "unat (rcv_nxt (tsk w)) + unat (rcv_wnd (tsk w)) < 4294967296"
    and ack: "snd_una (tsk w) < ack" "ack \<le> snd_nxt (tsk w)" and rto: "rto (tsk w) \<noteq> 0"
    and new: "\<forall>a \<in> set (tx_queue (tsk w)). a < next_skb w \<and> cb_expires (skbs w a) \<noteq> 0" and ok: "sched_ok (nsched w) Q"
  obtains w' Q' where "(let (a, w1) = receive_skb sg w in tcp_dispatch a w1) = Some w'" "same_connection (tsk w) (tsk w')" "snd_una (tsk w') = ack"
    "tx_queue (tsk w') = filter (\<lambda>a. \<not> cb_end_seq (skbs w a) < ack) (tx_queue (tsk w))" "\<forall>b < next_skb w. skbs w' b = skbs w b"
    "next_skb w \<le> next_skb w'" "clock w' = clock w" "sched_ok (nsched w') Q'" "state (threads (nsched w') (owner_thread (tsk w))) = THREAD_READY"
    "wire w' = wire w" "flow_ok (tsk w) \<and> seg_wnd (tsk w) sg \<noteq> 0 \<longrightarrow> flow_ok (tsk w')"
proof -
  obtain a w1 where aw: "receive_skb sg w = (a, w1)" by fastforce
  then have a: "a = next_skb w" "tsk w1 = tsk w" "segment (skbs w1 a) = sg" "next_skb w1 = Suc (next_skb w)" "wire w1 = wire w"
    "nsched w1 = nsched w" "\<And>b. b < next_skb w \<Longrightarrow> skbs w1 b = skbs w b" "clock w1 = clock w"
    by (auto simp: receive_skb_def)
  let ?t = "tcp_calculate_congestion ack (tsk w)"
  have cg: "same_connection (tsk w) ?t" "tx_queue ?t = tx_queue (tsk w)" "rtt_time ?t = rtt_time (tsk w)"
    using rto by (simp_all add: tcp_calculate_congestion_def same_connection_def Let_def)
  let ?w2 = "w1\<lparr>tsk := ?t\<rparr>"
  let ?q = "filter (\<lambda>a. \<not> cb_end_seq (skbs w a) < ack) (tx_queue (tsk w))"
  have q: "filter (\<lambda>a. \<not> cb_end_seq (skbs ?w2 a) < ack) (tx_queue (tsk ?w2)) = ?q"
    using new a(7) cg(2) by (auto intro: filter_cong)
  have "?q \<noteq> [] \<Longrightarrow> cb_expires (skbs ?w2 (hd ?q)) \<noteq> 0"
  proof -
    assume "?q \<noteq> []"
    then have "hd ?q \<in> set (tx_queue (tsk w))" using hd_in_set [of ?q] by simp
    then show ?thesis using new a(7) by auto
  qed
  then have ex: "filter (\<lambda>a. \<not> cb_end_seq (skbs ?w2 a) < ack) (tx_queue (tsk ?w2)) \<noteq> [] \<Longrightarrow>
      cb_expires (skbs ?w2 (hd (filter (\<lambda>a. \<not> cb_end_seq (skbs ?w2 a) < ack) (tx_queue (tsk ?w2))))) \<noteq> 0" unfolding q .
  have "send_head (tsk ?w2) = None" "rto (tsk ?w2) \<noteq> 0" using cg(1) sh by (simp_all add: same_connection_def)
  from accept_ack_in_order [OF this(1) ex this(2)] obtain w3 where w3: "tcp_accept_ack ack False ?w2 = Some w3" "same_connection (tsk ?w2) (tsk w3)"
    "snd_una (tsk w3) = ack" "tx_queue (tsk w3) = ?q" "w3 = ?w2\<lparr>tsk := tsk w3\<rparr>" "cwnd (tsk w3) = cwnd ?t" "snd_wnd (tsk w3) = snd_wnd ?t"
    unfolding q by auto
  let ?wnd = "seg_wnd (tsk w) sg"
  define t4 where "t4 = (if snd_wl1 (tsk w3) < seg_seq sg \<or> (snd_wl1 (tsk w3) = seg_seq sg \<and> snd_wl2 (tsk w3) \<le> ack)
    then (tsk w3)\<lparr>snd_wnd := ?wnd, snd_wl1 := seg_seq sg, snd_wl2 := ack\<rparr> else tsk w3)"
  let ?w4 = "w3\<lparr>tsk := t4\<rparr>"
  have t4: "same_connection (tsk w) t4" "snd_una t4 = ack" "tx_queue t4 = ?q"
    using w3(2-4) cg(1) by (simp_all add: t4_def same_connection_def)
  have fl: "flow_ok t4" if "flow_ok (tsk w)" "?wnd \<noteq> 0"
    using congestion_flow_ok [OF that(1), of ack] that(2) w3(2,6,7) by (simp add: t4_def flow_ok_def same_connection_def)
  have "sched_ok (nsched ?w4) Q" using ok a(6) by (subst w3(5)) simp
  from wake_owner_ok [OF this] obtain s' Q' where wk: "wake_owner ?w4 = Some (?w4\<lparr>nsched := s'\<rparr>)" "sched_ok s' Q'"
    "state (threads s' (owner_thread (tsk ?w4))) = THREAD_READY" .
  have stages: "established_rst sg w1 = Some (Continue w1)" "established_syn sg w1 = Some (Continue w1)"
    "established_ack_state sg ?wnd 0 w1 = Some (Continue ?w4)" "established_fin_acked ?w4 = Some (Continue ?w4)"
    using st sg a(2) ack w3(1) t4(1)
    by (simp_all add: ack_only_def established_rst_def established_syn_def established_ack_state_def established_ack_def
        established_fin_acked_def same_connection_def t4_def Let_def)
  have "segment (skbs ?w4 a) = sg" using a(3) by (subst w3(5)) simp
  then have data: "established_data a 0 ?w4 = Some (False, ?w4)" using sg t4(1) st by (simp add: established_data_def ack_only_def same_connection_def)
  have "tcp_dispatch a w1 = Some (?w4\<lparr>nsched := s'\<rparr>)"
    using st sg a(2,3) wk(1) acceptable_in_order [OF win] stages data
    by (simp add: tcp_dispatch_def tcp_handler_established_def payload_lenth_def ack_only_def and_then_def flow_end_def Let_def)
  moreover have "skbs ?w4 = skbs w1" "next_skb ?w4 = next_skb w1" "clock ?w4 = clock w1" "wire ?w4 = wire w1" by (subst w3(5), simp)+
  ultimately show ?thesis using aw a t4 wk fl
    by (intro that [of "?w4\<lparr>nsched := s'\<rparr>" Q']) (simp_all add: same_connection_def)
qed

lemma in_data_segments:
  "x \<in> set (data_segments mk off ps) \<Longrightarrow> \<exists>o' p. x = mk o' p \<and> p \<in> set ps \<and> off \<le> o' \<and> o' + length p \<le> off + length (concat ps)"
proof (induction ps arbitrary: off)
  case (Cons q ps)
  from Cons.prems consider "x = mk off q" | "x \<in> set (data_segments mk (off + length q) ps)" by auto
  then show ?case
  proof cases
    case 1
    then show ?thesis by (intro exI [of _ off] exI [of _ q]) simp
  next
    case 2
    from Cons.IH [OF this] obtain o' p where "x = mk o' p" "p \<in> set ps" "off + length q \<le> o'" "o' + length p \<le> off + length q + length (concat ps)" by blast
    then show ?thesis by (intro exI [of _ o'] exI [of _ p]) simp
  qed
qed simp

lemma unat_message_end_seq:
  assumes "p \<noteq> []" "unat start + off + length p < 4294967296"
  shows "unat (cb_end_seq (message_skb t start n off p)) = unat start + off + length p - 1"
proof -
  have "cb_end_seq (message_skb t start n off p) = start + of_nat (off + length p) - 1"
    using message_end_seq [OF assms(1)] by (metis add_diff_cancel_right')
  also have "\<dots> = of_nat (unat start + off + length p - 1)" using assms(1) by (cases p) (simp_all add: add.assoc)
  finally show ?thesis using assms(2) by (simp add: unat_of_nat_u32)
qed

lemma stamped_end_seq [simp]: "cb_end_seq (stamped w sk) = cb_end_seq sk" "cb_expires (stamped w sk) = clock w + ucast (rto (tsk w))"
  by (simp_all add: stamped_def)

lemma deliver_acks:
  assumes "map (skbs w) (tx_queue (tsk w)) = map (stamped w0) (data_segments (message_skb t start n) off ps)"
    "tstate (tsk w) = TCP_ESTABLISHED" "send_head (tsk w) = None" "rto (tsk w) \<noteq> 0" "snd_una (tsk w) = start + of_nat off"
    "snd_nxt (tsk w) = start + of_nat (off + length (concat ps))" "unat start + off + length (concat ps) < 4294967296" "\<forall>p \<in> set ps. p \<noteq> []"
    "rcv_wnd (tsk w) \<noteq> 0" "unat (rcv_nxt (tsk w)) + unat (rcv_wnd (tsk w)) < 4294967296" "snd_nxt tb = rcv_nxt (tsk w)"
    "\<forall>a \<in> set (tx_queue (tsk w)). a < next_skb w" "clock w0 + ucast (rto (tsk w0)) \<noteq> 0" "sched_ok (nsched w) Q"
    "flow_ok (tsk w)" "seg_wnd (tsk w) (ack_segment tb 0) \<noteq> 0"
  shows "\<exists>w' Q'. deliver (data_segments (\<lambda>off p. ack_segment tb (start + of_nat (off + length p))) off ps) w = Some w' \<and>
    tx_queue (tsk w') = [] \<and> same_connection (tsk w) (tsk w') \<and> snd_una (tsk w') = start + of_nat (off + length (concat ps)) \<and>
    flow_ok (tsk w') \<and> wire w' = wire w \<and> clock w' = clock w \<and> sched_ok (nsched w') Q' \<and>
    (ps \<noteq> [] \<longrightarrow> state (threads (nsched w') (owner_thread (tsk w))) = THREAD_READY)"
  using assms
proof (induction ps arbitrary: w off Q)
  case Nil
  then show ?case by (intro exI [of _ w] exI [of _ Q]) (simp add: same_connection_def)
next
  case (Cons p ps)
  then obtain a q where tx: "tx_queue (tsk w) = a # q" "skbs w a = stamped w0 (message_skb t start n off p)"
    "map (skbs w) q = map (stamped w0) (data_segments (message_skb t start n) (off + length p) ps)" by auto
  let ?ack = "start + of_nat (off + length p)"
  let ?sg = "ack_segment tb ?ack"
  have p: "p \<noteq> []" "0 < length p" using Cons.prems(8) by auto
  have nw: "unat start + off + length p + length (concat ps) < 4294967296" using Cons.prems(7) by simp
  have u: "unat (start + of_nat k) = unat start + k" if "k \<le> off + length p + length (concat ps)" for k
    using that nw by (simp add: unat_plus_if' unat_of_nat_u32)
  have ao: "ack_only (tsk w) ?ack ?sg" using Cons.prems(11) by (simp add: ack_only_def ack_segment_def made_segment_def tcp_flag_defs)
  have le: "snd_una (tsk w) < ?ack" "?ack \<le> snd_nxt (tsk w)"
    using Cons.prems(5,6) p(2) u [of off] u [of "off + length p"] u [of "off + length (concat (p # ps))"]
    by (simp_all only: word_less_nat_alt word_le_nat_alt) simp_all
  have new: "\<forall>b \<in> set (tx_queue (tsk w)). b < next_skb w \<and> cb_expires (skbs w b) \<noteq> 0"
  proof
    fix b assume b: "b \<in> set (tx_queue (tsk w))"
    then have "skbs w b \<in> set (map (skbs w) (tx_queue (tsk w)))" by simp
    then obtain sk where "skbs w b = stamped w0 sk" unfolding Cons.prems(1) by auto
    then show "b < next_skb w \<and> cb_expires (skbs w b) \<noteq> 0" using Cons.prems(12,13) b by simp
  qed
  obtain w1 Q1 where w1: "(let (a, w1) = receive_skb ?sg w in tcp_dispatch a w1) = Some w1" "same_connection (tsk w) (tsk w1)"
    "snd_una (tsk w1) = ?ack" "tx_queue (tsk w1) = filter (\<lambda>a. \<not> cb_end_seq (skbs w a) < ?ack) (tx_queue (tsk w))"
    "\<forall>b < next_skb w. skbs w1 b = skbs w b" "next_skb w \<le> next_skb w1" "clock w1 = clock w" "sched_ok (nsched w1) Q1"
    "state (threads (nsched w1) (owner_thread (tsk w))) = THREAD_READY" "wire w1 = wire w" "flow_ok (tsk w) \<and> seg_wnd (tsk w) ?sg \<noteq> 0 \<longrightarrow> flow_ok (tsk w1)"
    by (rule ack_step [OF Cons.prems(2,3) ao Cons.prems(9,10) le Cons.prems(4) new Cons.prems(14)])
  have "unat (cb_end_seq (skbs w a)) < unat ?ack"
    using unat_message_end_seq [of p start off t n] p nw u [of "off + length p"] by (simp add: tx(2) del: of_nat_add length_greater_0_conv)
  moreover have "\<not> cb_end_seq (skbs w b) < ?ack" if "b \<in> set q" for b
  proof -
    from that have "skbs w b \<in> set (map (skbs w) q)" by simp
    then obtain sk where sk: "skbs w b = stamped w0 sk" "sk \<in> set (data_segments (message_skb t start n) (off + length p) ps)"
      unfolding tx(3) by auto
    from in_data_segments [OF sk(2)] obtain o' p' where o': "sk = message_skb t start n o' p'" "p' \<in> set ps" "off + length p \<le> o'"
      "o' + length p' \<le> off + length p + length (concat ps)" by blast
    have "p' \<noteq> []" "0 < length p'" using o'(2) Cons.prems(8) by auto
    then show ?thesis using unat_message_end_seq [of p' start o' t n] o' nw u [of "off + length p"] sk(1)
      by (simp add: word_less_nat_alt del: of_nat_add length_greater_0_conv)
  qed
  ultimately have q: "tx_queue (tsk w1) = q" unfolding w1(4) tx(1) by (simp add: word_less_nat_alt filter_id_conv)
  have sk: "map (skbs w1) (tx_queue (tsk w1)) = map (stamped w0) (data_segments (message_skb t start n) (off + length p) ps)"
    unfolding q tx(3) [symmetric] using w1(5) Cons.prems(12) tx(1) by auto
  have "\<forall>a \<in> set (tx_queue (tsk w1)). a < next_skb w1" using q Cons.prems(12) tx(1) w1(6) by auto
  moreover have "flow_ok (tsk w1)" "seg_wnd (tsk w1) (ack_segment tb 0) \<noteq> 0"
    using w1(2,11) Cons.prems(15,16) by (simp_all add: seg_wnd_def ack_segment_def made_segment_def same_connection_def)
  ultimately have "\<exists>w' Q'. deliver (data_segments (\<lambda>off p. ack_segment tb (start + of_nat (off + length p))) (off + length p) ps) w1 = Some w' \<and>
    tx_queue (tsk w') = [] \<and> same_connection (tsk w1) (tsk w') \<and> snd_una (tsk w') = start + of_nat (off + length p + length (concat ps)) \<and>
    flow_ok (tsk w') \<and> wire w' = wire w1 \<and> clock w' = clock w1 \<and> sched_ok (nsched w') Q' \<and>
    (ps \<noteq> [] \<longrightarrow> state (threads (nsched w') (owner_thread (tsk w1))) = THREAD_READY)"
    using Cons.prems w1(2,3,8) by (intro Cons.IH [OF sk]) (simp_all add: same_connection_def add.assoc)
  then obtain w2 Q2 where w2: "deliver (data_segments (\<lambda>off p. ack_segment tb (start + of_nat (off + length p))) (off + length p) ps) w1 = Some w2"
    "tx_queue (tsk w2) = []" "same_connection (tsk w1) (tsk w2)" "snd_una (tsk w2) = start + of_nat (off + length p + length (concat ps))"
    "flow_ok (tsk w2)" "wire w2 = wire w1" "clock w2 = clock w1" "sched_ok (nsched w2) Q2"
    "ps \<noteq> [] \<longrightarrow> state (threads (nsched w2) (owner_thread (tsk w1))) = THREAD_READY" by blast
  have "state (threads (nsched w2) (owner_thread (tsk w))) = THREAD_READY"
  proof (cases "ps = []")
    case True
    then show ?thesis using w2(1) w1(9) by simp
  next
    case False
    then show ?thesis using w2(9) w1(2) by (simp add: same_connection_def)
  qed
  moreover have "same_connection (tsk w) (tsk w2)" using w1(2) w2(3) by (simp add: same_connection_def)
  moreover have "deliver (data_segments (\<lambda>off p. ack_segment tb (start + of_nat (off + length p))) off (p # ps)) w = Some w2"
    using w1(1) w2(1) by (simp add: Let_def split_beta)
  ultimately show ?case using w1(7,10) w2 by (intro exI [of _ w2] exI [of _ Q2]) (simp add: add.assoc)
qed

section \<open>A message from one end to the other\<close>

text \<open>The rounds between two ends. What the sender has put on the wire is handled by the other end, and the answers by the sender, whose
  thread they wake; when it runs again, at a later time and with the scheduler in some other state, it goes on where it waited. The list
  has the time and the scheduler of each round.\<close>

primrec exchange ::
    "(sched \<Rightarrow> sched option) \<Rightarrow> (sched \<Rightarrow> sched option) list \<Rightarrow> u8 list \<Rightarrow> u32 \<Rightarrow> u32 \<Rightarrow> (u64 \<times> sched) list \<Rightarrow> sendmsg_outcome \<times> tcp_world \<Rightarrow>
     tcp_world \<Rightarrow> (sendmsg_outcome \<times> tcp_world \<times> tcp_world) option" where
  "exchange hs irqs msg mmss start [] r wb = Some (fst r, snd r, wb)"
| "exchange hs irqs msg mmss start (e # es) r wb =
     (case fst r of
        Sent n \<Rightarrow> Some (fst r, snd r, wb)
      | SendWait pc \<Rightarrow>
          do {
            let wa = snd r;
            wb1 \<leftarrow> deliver (wire wa) wb;
            wa1 \<leftarrow> deliver (wire wb1) (wa\<lparr>wire := []\<rparr>);
            if state (threads (nsched wa1) (owner_thread (tsk wa1))) = THREAD_READY then
              do {
                r1 \<leftarrow> sendmsg_resume hs irqs msg mmss start pc (wa1\<lparr>clock := fst e, nsched := snd e\<rparr>);
                exchange hs irqs msg mmss start es r1 (wb1\<lparr>wire := []\<rparr>)
              }
            else None
          })"

text \<open>Two ends agree on the sequence numbers, the sender has nothing outstanding, the receiver has nothing in flight and nothing queued,
  it announces an open window, and no window wraps around.\<close>

definition sender_ready :: "u8 list \<Rightarrow> tcp_world \<Rightarrow> bool" where
  "sender_ready msg w \<longleftrightarrow> sock_state (tsk w) \<noteq> SS_DISCONNECTED \<and> sender_at (snd_nxt (tsk w)) 0 w \<and> rcv_mss (tsk w) \<noteq> 0 \<and> msg \<noteq> []"

definition linked :: "u8 list \<Rightarrow> u32 \<Rightarrow> tcp_world \<Rightarrow> tcp_world \<Rightarrow> bool" where
  "linked msg start wa wb \<longleftrightarrow>
     sock_state (tsk wb) \<noteq> SS_DISCONNECTED \<and> quiet (tsk wb) \<and> snd_nxt (tsk wb) = rcv_nxt (tsk wa) \<and> rcv_wnd (tsk wa) \<noteq> 0 \<and> rcv_wnd (tsk wb) \<noteq> 0 \<and>
     unat start + length msg + unat (rcv_wnd (tsk wb)) < 4294967296 \<and> unat (rcv_nxt (tsk wa)) + unat (rcv_wnd (tsk wa)) < 4294967296 \<and>
     seg_wnd (tsk wa) (ack_segment (tsk wb) 0) \<noteq> 0 \<and> wire wa = [] \<and> wire wb = []"

definition connected :: "u8 list \<Rightarrow> tcp_world \<Rightarrow> tcp_world \<Rightarrow> bool" where
  "connected msg wa wb \<longleftrightarrow> linked msg (snd_nxt (tsk wa)) wa wb \<and> rcv_nxt (tsk wb) = snd_nxt (tsk wa) \<and> rx_queue (tsk wb) = []"

text \<open>Between two rounds the first \<open>off\<close> bytes are in the receiver's queue, in pieces, and acknowledged.\<close>

definition received :: "tcp_sock \<Rightarrow> u32 \<Rightarrow> u8 list \<Rightarrow> nat \<Rightarrow> tcp_world \<Rightarrow> bool" where
  "received t start msg off w \<longleftrightarrow> rcv_nxt (tsk w) = start + of_nat off \<and> distinct (rx_queue (tsk w)) \<and> (\<forall>b \<in> set (rx_queue (tsk w)). b < next_skb w) \<and>
     (\<exists>ps. concat ps = take off msg \<and> (\<forall>p \<in> set ps. p \<noteq> []) \<and>
        map (\<lambda>b. segment (skbs w b)) (rx_queue (tsk w)) = data_segments (\<lambda>o' p. segment (message_skb t start (length msg) o' p)) 0 ps)"

definition transferred :: "tcp_sock \<Rightarrow> u32 \<Rightarrow> u8 list \<Rightarrow> nat \<Rightarrow> tcp_world \<Rightarrow> tcp_world \<Rightarrow> bool" where
  "transferred t start msg off wa wb \<longleftrightarrow> sender_at start off wa \<and> message_skb (tsk wa) = message_skb t \<and> linked msg start wa wb \<and>
     received t start msg off wb \<and> (\<exists>Q. sched_ok (nsched wa) Q) \<and> (\<exists>Q. sched_ok (nsched wb) Q)"

lemma data_segments_append: "data_segments mk off (ps @ qs) = data_segments mk off ps @ data_segments mk (off + length (concat ps)) qs"
  by (induction ps arbitrary: off) (simp_all add: add.assoc)

lemma message_skb_same:
  "ssin t' = ssin t \<Longrightarrow> dsin t' = dsin t \<Longrightarrow> rcv_nxt t' = rcv_nxt t \<Longrightarrow> rcv_wnd t' = rcv_wnd t \<Longrightarrow> message_skb t' = message_skb t"
  by (intro ext) (simp add: message_skb_def new_skb_def)

text \<open>The receiver takes the segments of one round behind those it has.\<close>

lemma deliver_round:
  assumes rc: "received t start msg off w" and q: "quiet (tsk w)" "snd_una (tsk w) = rcv_nxt t" "rcv_wnd (tsk w) \<noteq> 0"
      "unat start + length msg + unat (rcv_wnd (tsk w)) < 4294967296" "sched_ok (nsched w) Q"
    and ps: "\<forall>p \<in> set ps. p \<noteq> [] \<and> length p < 65536" "concat ps = take (length (concat ps)) (drop off msg)" "off + length (concat ps) \<le> length msg"
  shows "\<exists>w' Q'. deliver (data_segments (\<lambda>o' p. segment (message_skb t start (length msg) o' p)) off ps) w = Some w' \<and>
    received t start msg (off + length (concat ps)) w' \<and> (\<exists>q r. tsk w' = (tsk w)\<lparr>rx_queue := q, rcv_nxt := r\<rparr>) \<and>
    wire w' = wire w @ data_segments (\<lambda>o' p. ack_segment (tsk w) (start + of_nat (o' + length p))) off ps \<and> sched_ok (nsched w') Q'"
proof -
  let ?segs = "\<lambda>o' p. segment (message_skb t start (length msg) o' p)"
  note rd = rc [unfolded received_def]
  then obtain ps0 where ps0: "concat ps0 = take off msg" "\<forall>p \<in> set ps0. p \<noteq> []" "map (\<lambda>b. segment (skbs w b)) (rx_queue (tsk w)) = data_segments ?segs 0 ps0" by blast
  have off: "length (concat ps0) = off" unfolding ps0(1) using ps(3) by simp
  have "unat (start + of_nat off) = unat start + off" using ps(3) q(4) by (simp add: unat_plus_if' unat_of_nat_u32)
  then have "unat (rcv_nxt (tsk w)) + length (concat ps) + unat (rcv_wnd (tsk w)) < 4294967296" using rd ps(3) q(4) by simp
  moreover have "rcv_nxt (tsk w) = start + of_nat off" using rd by blast
  ultimately obtain w' Q' bs where
    w': "deliver (data_segments ?segs off ps) w = Some w'"
      "tsk w' = (tsk w)\<lparr>rx_queue := rx_queue (tsk w) @ bs, rcv_nxt := rcv_nxt (tsk w) + of_nat (length (concat ps))\<rparr>"
      "map (\<lambda>b. segment (skbs w' b)) bs = data_segments ?segs off ps" "\<forall>b < next_skb w. skbs w' b = skbs w b"
      "\<forall>b \<in> set bs. next_skb w \<le> b \<and> b < next_skb w'" "distinct bs" "next_skb w \<le> next_skb w'"
      "wire w' = wire w @ data_segments (\<lambda>o' p. ack_segment (tsk w) (start + of_nat (o' + length p))) off ps" "sched_ok (nsched w') Q'"
    using deliver_message [OF q(1) _ q(2) ps(1) q(3) _ q(5), of start off "length msg"] by blast
  have "map (\<lambda>b. segment (skbs w' b)) (rx_queue (tsk w)) = data_segments ?segs 0 ps0"
    unfolding ps0(3) [symmetric] using rd w'(4) by (intro map_cong) auto
  then have "map (\<lambda>b. segment (skbs w' b)) (rx_queue (tsk w')) = data_segments ?segs 0 (ps0 @ ps)"
    using w'(2,3) off by (simp add: data_segments_append)
  moreover have "concat (ps0 @ ps) = take (off + length (concat ps)) msg" using ps0(1) ps(2) by (simp add: take_add)
  moreover have "\<forall>p \<in> set (ps0 @ ps). p \<noteq> []" using ps0(2) ps(1) by auto
  moreover have "set (rx_queue (tsk w)) \<inter> set bs = {}" using rd w'(5) by fastforce
  then have "distinct (rx_queue (tsk w'))" using rd w'(2,6) by simp
  moreover have "\<forall>b \<in> set (rx_queue (tsk w)). b < next_skb w'" using rd w'(7) by auto
  then have "\<forall>b \<in> set (rx_queue (tsk w')). b < next_skb w'" using w'(2,5) by auto
  moreover have "rcv_nxt (tsk w') = start + of_nat (off + length (concat ps))" using rd w'(2) by (simp add: add.assoc)
  ultimately have "received t start msg (off + length (concat ps)) w'" unfolding received_def by blast
  then show ?thesis using w'(1,2,8,9) by blast
qed

text \<open>One round: bytes of the message are sent, delivered and acknowledged, and the sender is awake.\<close>

lemma transfer_round:
  assumes tr: "transferred t start msg off wa wb" and off: "off < length msg" and len: "length msg < 65536" and mss: "mmss \<noteq> 0" "mmss \<le> 65535"
    and irqs: "\<forall>irq \<in> set irqs. keeps_ok irq" "keeps_ok hs"
  obtains k wa1 wb1 wa2 where "0 < k" "off + k \<le> length msg"
    "sendmsg_loop hs irqs msg mmss start (of_nat off) wa = Some (SendWait (Sending (of_nat (off + k))), wa1)"
    "deliver (wire wa1) wb = Some wb1" "deliver (wire wb1) (wa1\<lparr>wire := []\<rparr>) = Some wa2"
    "state (threads (nsched wa2) (owner_thread (tsk wa2))) = THREAD_READY"
    "\<And>c s Q. clock_ok c \<Longrightarrow> sched_ok s Q \<Longrightarrow> transferred t start msg (off + k) (wa2\<lparr>clock := c, nsched := s\<rparr>) (wb1\<lparr>wire := []\<rparr>)"
proof -
  let ?n = "length msg"
  from tr obtain Qa Qb where T: "sender_at start off wa" "message_skb (tsk wa) = message_skb t" "linked msg start wa wb" "received t start msg off wb"
    "sched_ok (nsched wa) Qa" "sched_ok (nsched wb) Qb" by (auto simp: transferred_def)
  note sa = T(1) [unfolded sender_at_def] and lk = T(3) [unfolded linked_def]
  have n31: "?n < 2147483648" using len by simp
  obtain ps wa1 Q1 as e c where s: "sendmsg_loop hs irqs msg mmss start (of_nat off) wa = Some (SendWait (Sending (of_nat (off + length (concat ps)))), wa1)"
    "sched_ok (nsched wa1) Q1" "ps \<noteq> []" "\<forall>p \<in> set ps. p \<noteq> [] \<and> length p < 65536" "concat ps = take (length (concat ps)) (drop off msg)"
    "off + length (concat ps) \<le> ?n" "as = [next_skb wa..<next_skb wa + length ps]" "next_skb wa1 = next_skb wa + length ps" "clock wa1 = clock wa"
    "tsk wa1 = (tsk wa)\<lparr>tx_queue := as, flight_size := flight_size (tsk wa) + of_nat (length (concat ps)),
       snd_nxt := start + of_nat (off + length (concat ps)), retransmit_timer := armed wa, rtt_end_seq := e, rtt_time := c\<rparr>"
    "map (skbs wa1) as = map (stamped wa) (data_segments (message_skb (tsk wa) start ?n) off ps)"
    "wire wa1 = wire wa @ data_segments (\<lambda>off p. segment (message_skb (tsk wa) start ?n off p)) off ps"
    by (rule loop_sends [OF T(1) off n31 mss T(5) irqs])
  let ?k = "length (concat ps)"
  have k: "0 < ?k" using s(3,4) by (cases ps) auto
  have tm: "message_skb t = message_skb (tsk wa)" using T(2) by simp
  have "received (tsk wa) start msg off wb" using T(4) unfolding received_def tm .
  from deliver_round [OF this _ _ _ _ T(6) s(4-6)] lk obtain wb1 Q2 q r where
    b: "deliver (data_segments (\<lambda>o' p. segment (message_skb (tsk wa) start ?n o' p)) off ps) wb = Some wb1"
      "received (tsk wa) start msg (off + ?k) wb1" "tsk wb1 = (tsk wb)\<lparr>rx_queue := q, rcv_nxt := r\<rparr>"
      "wire wb1 = data_segments (\<lambda>o' p. ack_segment (tsk wb) (start + of_nat (o' + length p))) off ps" "sched_ok (nsched wb1) Q2"
    by (auto simp: quiet_def)
  let ?wa1 = "wa1\<lparr>wire := []\<rparr>"
  have ex: "clock wa + ucast (rto (tsk wa)) \<noteq> 0" using sa by (simp add: clock_ok_expires)
  have fl: "flow_ok (tsk ?wa1)" "seg_wnd (tsk ?wa1) (ack_segment (tsk wb) 0) \<noteq> 0" using sa lk s(10) by (simp_all add: flow_ok_def seg_wnd_def)
  obtain wa2 Q3 where a: "deliver (data_segments (\<lambda>o' p. ack_segment (tsk wb) (start + of_nat (o' + length p))) off ps) ?wa1 = Some wa2"
    "tx_queue (tsk wa2) = []" "same_connection (tsk ?wa1) (tsk wa2)" "snd_una (tsk wa2) = start + of_nat (off + ?k)" "flow_ok (tsk wa2)"
    "wire wa2 = []" "sched_ok (nsched wa2) Q3" "state (threads (nsched wa2) (owner_thread (tsk wa1))) = THREAD_READY"
    using deliver_acks [of ?wa1 wa "tsk wa" start ?n off ps "tsk wb" Q1] s sa lk fl ex by auto
  show ?thesis
  proof (rule that [of ?k wa1 wb1 wa2, OF k s(6) s(1)])
    show "deliver (wire wa1) wb = Some wb1" "deliver (wire wb1) ?wa1 = Some wa2" using s(12) b(1,4) a(1) lk by simp_all
    show "state (threads (nsched wa2) (owner_thread (tsk wa2))) = THREAD_READY" using a(3,8) by (simp add: same_connection_def)
  next
    fix c s Q assume cs: "clock_ok c" "sched_ok s Q"
    have sc: "tstate (tsk wa2) = TCP_ESTABLISHED" "send_head (tsk wa2) = None" "snd_nxt (tsk wa2) = start + of_nat (off + ?k)" "rto (tsk wa2) \<noteq> 0"
      "ssin (tsk wa2) = ssin (tsk wa)" "dsin (tsk wa2) = dsin (tsk wa)" "rcv_nxt (tsk wa2) = rcv_nxt (tsk wa)" "rcv_wnd (tsk wa2) = rcv_wnd (tsk wa)"
      "snd_wds (tsk wa2) = snd_wds (tsk wa)" using a(3) sa s(10) by (simp_all add: same_connection_def)
    have "linked msg start (wa2\<lparr>clock := c, nsched := s\<rparr>) (wb1\<lparr>wire := []\<rparr>)"
      using lk sc a(6) b(3) by (simp add: linked_def quiet_def seg_wnd_def ack_segment_def made_segment_def)
    moreover have "received t start msg (off + ?k) (wb1\<lparr>wire := []\<rparr>)" using b(2) unfolding received_def tm by simp
    moreover have "sender_at start (off + ?k) (wa2\<lparr>clock := c, nsched := s\<rparr>)" using sc(1-4) a(2,4,5) cs(1) by (simp add: sender_at_def)
    ultimately show "transferred t start msg (off + ?k) (wa2\<lparr>clock := c, nsched := s\<rparr>) (wb1\<lparr>wire := []\<rparr>)"
      using message_skb_same [OF sc(5-8)] cs(2) b(5) tm by (auto simp: transferred_def)
  qed
qed

text \<open>All rounds: each carries at least one byte.\<close>

lemma exchange_transfers:
  assumes "transferred t start msg off wa wb" "off \<le> length msg" "length msg - off \<le> length es" "length msg < 65536" "mmss \<noteq> 0" "mmss \<le> 65535"
    "\<forall>e \<in> set es. clock_ok (fst e) \<and> (\<exists>Q. sched_ok (snd e) Q)" "\<forall>irq \<in> set irqs. keeps_ok irq" "keeps_ok hs"
  shows "\<exists>r wa' wb'. sendmsg_loop hs irqs msg mmss start (of_nat off) wa = Some r \<and>
    exchange hs irqs msg mmss start es r wb = Some (Sent (int (length msg)), wa', wb') \<and> transferred t start msg (length msg) wa' wb'"
  using assms
proof (induction "length msg - off" arbitrary: off wa wb es rule: less_induct)
  case less
  show ?case
  proof (cases "off = length msg")
    case True
    have "uint (of_nat (length msg) :: u32) = int (length msg)" using less.prems(4) by (simp add: uint_nat unat_of_nat_u32)
    moreover have "tstate (tsk wa) = TCP_ESTABLISHED" using less.prems(1) by (simp add: transferred_def sender_at_def)
    ultimately have "sendmsg_loop hs irqs msg mmss start (of_nat off) wa = Some (Sent (int (length msg)), wa)"
      using True by (simp add: sendmsg_loop_def tcp_return_code_def)
    moreover have "exchange hs irqs msg mmss start es (Sent (int (length msg)), wa) wb = Some (Sent (int (length msg)), wa, wb)" by (cases es) simp_all
    ultimately show ?thesis using less.prems(1) True by blast
  next
    case False
    then have off: "off < length msg" using less.prems(2) by simp
    then obtain e es' where es: "es = e # es'" using less.prems(3) by (cases es) auto
    obtain Q where e: "clock_ok (fst e)" "sched_ok (snd e) Q" using less.prems(7) es by auto
    obtain k wa1 wb1 wa2 where r: "0 < k" "off + k \<le> length msg"
      "sendmsg_loop hs irqs msg mmss start (of_nat off) wa = Some (SendWait (Sending (of_nat (off + k))), wa1)"
      "deliver (wire wa1) wb = Some wb1" "deliver (wire wb1) (wa1\<lparr>wire := []\<rparr>) = Some wa2"
      "state (threads (nsched wa2) (owner_thread (tsk wa2))) = THREAD_READY"
      "\<And>c s Q. clock_ok c \<Longrightarrow> sched_ok s Q \<Longrightarrow> transferred t start msg (off + k) (wa2\<lparr>clock := c, nsched := s\<rparr>) (wb1\<lparr>wire := []\<rparr>)"
      using transfer_round [OF less.prems(1) off less.prems(4-6,8,9)] by metis
    let ?wa = "wa2\<lparr>clock := fst e, nsched := snd e\<rparr>"
    note tr = r(7) [OF e]
    have "tx_queue (tsk ?wa) = []" using tr by (simp add: transferred_def sender_at_def)
    then have res: "sendmsg_resume hs irqs msg mmss start (Sending (of_nat (off + k))) ?wa = sendmsg_loop hs irqs msg mmss start (of_nat (off + k)) ?wa"
      by (simp add: sendmsg_resume_def tcp_transmit_def)
    have "length msg - (off + k) < length msg - off" "length msg - (off + k) \<le> length es'" using r(1,2) less.prems(3) es by auto
    then obtain r' wa' wb' where "sendmsg_loop hs irqs msg mmss start (of_nat (off + k)) ?wa = Some r'"
      "exchange hs irqs msg mmss start es' r' (wb1\<lparr>wire := []\<rparr>) = Some (Sent (int (length msg)), wa', wb')" "transferred t start msg (length msg) wa' wb'"
      using less.hyps [OF _ tr r(2), of es'] less.prems(4-9) es by auto
    then show ?thesis using r(3-6) res es
      by (intro exI [of _ "(SendWait (Sending (of_nat (off + k))), wa1)"] exI [of _ wa'] exI [of _ wb']) simp
  qed
qed

section \<open>A closed window\<close>

text \<open>The same sender when the other end has announced a window of zero, and the segment that opens it.\<close>

definition closed_window :: "tcp_world \<Rightarrow> tcp_world" where
  "closed_window w = upd_tsk (\<lambda>t. t\<lparr>snd_wnd := 0\<rparr>) w"

definition window_update :: "tcp_sock \<Rightarrow> tcp_segment \<Rightarrow> bool" where
  "window_update t sg \<longleftrightarrow> ack_only t (snd_una t) sg \<and> seg_wnd t sg \<noteq> 0"

text \<open>The timer fires a number of times.\<close>

primrec probes :: "nat \<Rightarrow> tcp_world \<Rightarrow> tcp_world option" where
  "probes 0 w = Some w"
| "probes (Suc j) w = Option.bind (tcp_persist_timer w) (probes j)"

text \<open>A thread that waits with one byte in the queue.\<close>

definition probing :: "tcp_sock \<Rightarrow> tcp_skb \<Rightarrow> tcp_world \<Rightarrow> bool" where
  "probing t sk w \<longleftrightarrow> (\<exists>a x y z c e. tsk w = t\<lparr>snd_wnd := 0, tx_queue := [a], send_head := Some a, flight_size := x, persist_timer := y, persist_backoff := z\<rparr> \<and>
     skbs w a = sk\<lparr>cb_when := c, cb_expires := e\<rparr>) \<and> (\<exists>Q. sched_ok (nsched w) Q)"

lemma probe_waits:
  assumes r: "sender_at start off w" and off: "off < length msg" and len: "length msg < 2147483648"
    and ok: "sched_ok (nsched w) Q" and irqs: "\<forall>irq \<in> set irqs. keeps_ok irq" "keeps_ok hs"
  obtains w' where "sendmsg_loop hs irqs msg mmss start (of_nat off) (closed_window w) = Some (SendWait (Probing (of_nat off)), w')"
    "probing (tsk w) (message_skb (tsk w) start (length msg) off [msg ! off]) w'" "wire w' = wire w" "clock w' = clock w"
proof -
  let ?n = "length msg" and ?w0 = "closed_window w"
  note rd = r [unfolded sender_at_def]
  have ln: "unat (of_nat ?n :: u32) = ?n" "unat (of_nat off :: u32) = off" "unat (of_nat off + 1 :: u32) = off + 1"
    using off len unat_of_nat_u32 [of "off + 1"] by (simp_all add: unat_of_nat_u32 add.commute)
  have lt: "(of_nat off :: u32) < of_nat ?n" using off ln by (simp add: word_less_nat_alt)
  have psh: "(of_nat off + 1 :: u32) = of_nat ?n \<longleftrightarrow> off + 1 = ?n" using ln by (metis word_unat_eq_iff)
  let ?fl = "(if (of_nat off + 1 :: u32) = of_nat ?n then TCPCB_FLAG_PSH else 0) OR TCPCB_FLAG_ACK"
  have one: "take 1 (drop off msg) = [msg ! off]" using off by (simp add: take_Suc_conv_app_nth)
  have sk: "new_skb (tsk ?w0) (snd_nxt (tsk ?w0)) (rcv_nxt (tsk ?w0)) ?fl [] [msg ! off] = message_skb (tsk w) start ?n off [msg ! off]"
    using rd psh by (simp add: message_skb_def new_skb_def closed_window_def or.commute)
  define w1 where "w1 = ?w0\<lparr>rseed := snd (rand_r (rseed w)), next_skb := Suc (next_skb w),
    skbs := (skbs w)(next_skb w := message_skb (tsk w) start ?n off [msg ! off])\<rparr>"
  define w2 where "w2 = upd_tsk (\<lambda>t. queued [next_skb w] (t\<lparr>persist_timer := Some (clock w + 1000)\<rparr>)) w1"
  let ?w2 = "w2\<lparr>nsched := lock_scheduler (nsched w2)\<rparr>"
  have w2: "tsk w2 = (tsk w)\<lparr>snd_wnd := 0, tx_queue := [next_skb w], send_head := Some (next_skb w), persist_timer := Some (clock w + 1000)\<rparr>"
    "skbs w2 (next_skb w) = message_skb (tsk w) start ?n off [msg ! off]" "nsched w2 = nsched w" "wire w2 = wire w" "clock w2 = clock w"
    using rd by (simp_all add: w2_def w1_def closed_window_def queued_def)
  then have "tcp_sender_available_window (tsk ?w2) = 0" using rd by (simp add: tcp_sender_available_window_def)
  then have "transmit_pending ?w2 = Some ?w2" using w2(1) by (simp add: transmit_pending_def)
  moreover have "tx_queue (tsk w2) \<noteq> []" "sched_ok (nsched w2) Q" using w2(1,3) ok by simp_all
  ultimately obtain s' Q' where tr: "tcp_transmit hs irqs w2 = Some (False, w2\<lparr>nsched := s'\<rparr>)" "sched_ok s' Q'"
    using transmit_waits [of w2 ?w2 Q irqs hs] irqs by auto
  have cr: "tcp_create_skb (snd_nxt (tsk ?w0)) (rcv_nxt (tsk ?w0)) ?fl [] (take 1 (drop (unat (of_nat off :: u32)) msg)) ?w0 = Some (next_skb w, w1)"
    using sk one ln(2) by (simp add: tcp_create_skb_eq w1_def closed_window_def)
  have w0: "tstate (tsk ?w0) = TCP_ESTABLISHED" "snd_una (tsk ?w0) = snd_nxt (tsk ?w0)" "snd_wnd (tsk ?w0) = 0"
    "tcp_sender_available_window (tsk ?w0) = 0" using rd by (simp_all add: closed_window_def tcp_sender_available_window_def)
  have "tcp_transmit_skb hs irqs (next_skb w) (upd_tsk (\<lambda>t. t\<lparr>persist_timer := Some (clock w1 + 1000)\<rparr>) w1) = Some (False, w2\<lparr>nsched := s'\<rparr>)"
    using tr(1) by (simp add: tcp_transmit_skb_def w2_def w1_def closed_window_def)
  then have "sendmsg_loop hs irqs msg mmss start (of_nat off) ?w0 = Some (SendWait (Probing (of_nat off)), w2\<lparr>nsched := s'\<rparr>)"
    using lt w0 cr by (simp add: sendmsg_loop_def Let_def)
  moreover have "probing (tsk w) (message_skb (tsk w) start ?n off [msg ! off]) (w2\<lparr>nsched := s'\<rparr>)"
  proof -
    have "tsk (w2\<lparr>nsched := s'\<rparr>) = (tsk w)\<lparr>snd_wnd := 0, tx_queue := [next_skb w], send_head := Some (next_skb w), flight_size := flight_size (tsk w),
      persist_timer := Some (clock w + 1000), persist_backoff := persist_backoff (tsk w)\<rparr>" using w2(1) by simp
    moreover have "skbs (w2\<lparr>nsched := s'\<rparr>) (next_skb w) = (message_skb (tsk w) start ?n off [msg ! off])\<lparr>cb_when := 0, cb_expires := 0\<rparr>"
      using w2(2) by (simp add: message_skb_def new_skb_def)
    ultimately show ?thesis using tr(2) unfolding probing_def by fastforce
  qed
  ultimately show ?thesis using w2(4,5) by (intro that [of "w2\<lparr>nsched := s'\<rparr>"]) simp_all
qed

text \<open>Each time the timer fires the byte is sent once more, and the sequence numbers stay.\<close>

lemma probe_fires:
  assumes "probing t sk w" "sk = message_skb t start n off [b]" "tstate t = TCP_ESTABLISHED"
  shows "\<exists>w'. probes j w = Some w' \<and> probing t sk w' \<and> wire w' = wire w @ replicate j (segment sk) \<and> clock w' = clock w"
  using assms
proof (induction j arbitrary: w)
  case (Suc j)
  then obtain a x y z c e Q where p: "tsk w = t\<lparr>snd_wnd := 0, tx_queue := [a], send_head := Some a, flight_size := x, persist_timer := y, persist_backoff := z\<rparr>"
    "skbs w a = sk\<lparr>cb_when := c, cb_expires := e\<rparr>" "sched_ok (nsched w) Q" unfolding probing_def by blast
  let ?t = "t\<lparr>snd_wnd := 0, tx_queue := [a], send_head := Some a, flight_size := x + 1, persist_timer := Some (clock w + ucast (z * 2)), persist_backoff := z * 2\<rparr>"
  let ?w = "w\<lparr>tsk := ?t, skbs := (skbs w)(a := sk\<lparr>cb_when := clock w, cb_expires := clock w + ucast (rto t)\<rparr>), wire := wire w @ [segment sk]\<rparr>"
  have fl: "tcp_next_state TCP_ESTABLISHED (ucast (cb_flags sk)) = TCP_ESTABLISHED"
    by (simp add: Suc.prems(2) message_skb_def new_skb_def tcp_next_state_def tcp_flag_defs)
  have "payload_lenth (skbs w a) = Some 1" using Suc.prems(2) by (simp add: p(2) payload_lenth_def message_data)
  then have "tcp_persist_timer w = Some ?w"
    using p(1,2) fl Suc.prems(3)
    by (simp add: tcp_persist_timer_def tcp_send_skb_def tcp_state_transition_id Let_def)
  moreover have "probing t sk ?w" using p(3) unfolding probing_def by fastforce
  ultimately show ?case using Suc.IH [of ?w] Suc.prems(2,3) by (simp add: replicate_app_Cons_same)
qed simp

text \<open>The window opens: the byte leaves the queue unsent as far as the sequence numbers go, and the thread is awake.\<close>

lemma window_opens:
  assumes p: "probing t sk w" and t: "tstate t = TCP_ESTABLISHED" "snd_una t = start + of_nat off" "snd_nxt t = start + of_nat off" "flow_ok t" "rto t \<noteq> 0"
      "rcv_wnd t \<noteq> 0" "unat (rcv_nxt t) + unat (rcv_wnd t) < 4294967296" and sg: "window_update t sg"
  obtains w' x y z where "deliver [sg] w = Some w'" "wire w' = wire w" "state (threads (nsched w') (owner_thread (tsk w'))) = THREAD_READY"
    "tsk w' = t\<lparr>snd_wnd := seg_wnd t sg, tx_queue := [], send_head := None, flight_size := x, persist_timer := y, persist_backoff := z\<rparr>"
proof -
  obtain a x y z Q where w: "tsk w = t\<lparr>snd_wnd := 0, tx_queue := [a], send_head := Some a, flight_size := x, persist_timer := y, persist_backoff := z\<rparr>"
    "sched_ok (nsched w) Q" using p unfolding probing_def by blast
  note sg' = sg [unfolded window_update_def ack_only_def]
  obtain b w1 where bw: "receive_skb sg w = (b, w1)" by fastforce
  then have b: "tsk w1 = tsk w" "segment (skbs w1 b) = sg" "wire w1 = wire w" "nsched w1 = nsched w" by (auto simp: receive_skb_def)
  let ?w2 = "upd_tsk (\<lambda>t. (tcp_flush_tx t)\<lparr>snd_wnd := seg_wnd t sg\<rparr>) w1"
  have "sched_ok (nsched ?w2) Q" using w(2) b(4) by simp
  from wake_owner_ok [OF this] obtain s' Q' where wk: "wake_owner ?w2 = Some (?w2\<lparr>nsched := s'\<rparr>)"
    "state (threads s' (owner_thread (tsk ?w2))) = THREAD_READY" .
  have wnd: "seg_wnd (tsk w1) sg = seg_wnd t sg" using b(1) w(1) by (simp add: seg_wnd_def)
  have acc: "acceptable_segment (tsk w1) (seg_seq sg) 0"
    using acceptable_in_order [of "tsk w1" 0] b(1) w(1) t(6,7) sg' by simp
  have st: "established_rst sg w1 = Some (Continue w1)" "established_syn sg w1 = Some (Continue w1)"
    "established_ack_state sg (seg_wnd t sg) 0 w1 = Some (Continue ?w2)" "established_fin_acked ?w2 = Some (Continue ?w2)"
    using t(1-3) sg' b(1) w(1) wnd
    by (simp_all add: established_rst_def established_syn_def established_ack_state_def established_ack_def established_fin_acked_def tcp_flush_tx_def Let_def)
  have "established_data b 0 ?w2 = Some (False, ?w2)" using b sg' w(1) t(1) by (simp add: established_data_def tcp_flush_tx_def)
  then have "tcp_dispatch b w1 = Some (?w2\<lparr>nsched := s'\<rparr>)"
    using t(1) sg' b(1,2) w(1) wk(1) acc st wnd
    by (simp add: tcp_dispatch_def tcp_handler_established_def payload_lenth_def and_then_def flow_end_def Let_def)
  then show ?thesis using bw b w(1) wk(2) wnd
    by (intro that [where w' = "?w2\<lparr>nsched := s'\<rparr>" and x = x and y = y and z = z]) (simp_all add: tcp_flush_tx_def)
qed

text \<open>A receiver that takes the byte of the probe acknowledges it. The sender does not count the byte as sent, refuses the
  acknowledgement as one of the future, and goes on probing.\<close>

lemma probe_ack_refused:
  assumes p: "probing t sk w" and t: "tstate t = TCP_ESTABLISHED" "snd_una t = snd_nxt t" "snd_nxt t < snd_nxt t + 1"
      "rcv_wnd t \<noteq> 0" "unat (rcv_nxt t) + unat (rcv_wnd t) < 4294967296" and sg: "ack_only t (snd_nxt t + 1) sg"
  obtains w' where "deliver [sg] w = Some w'" "tsk w' = tsk w" "nsched w' = nsched w" "wire w' = wire w @ [ack_segment t (rcv_nxt t)]"
proof -
  obtain a x y z where w: "tsk w = t\<lparr>snd_wnd := 0, tx_queue := [a], send_head := Some a, flight_size := x, persist_timer := y, persist_backoff := z\<rparr>"
    using p unfolding probing_def by blast
  note sg' = sg [unfolded ack_only_def]
  obtain b w1 where bw: "receive_skb sg w = (b, w1)" by fastforce
  then have b: "tsk w1 = tsk w" "segment (skbs w1 b) = sg" "wire w1 = wire w" "nsched w1 = nsched w" by (auto simp: receive_skb_def)
  have "tstate (tsk w1) = TCP_ESTABLISHED" using b(1) w t(1) by simp
  from send_ack [OF this, of "rcv_nxt (tsk w1)"] obtain r sk' where
    sa: "send_new (snd_nxt (tsk w1)) (rcv_nxt (tsk w1)) TCPCB_FLAG_ACK w1 = Some (w1\<lparr>rseed := r, next_skb := Suc (next_skb w1),
      skbs := (skbs w1)(next_skb w1 := sk'), wire := wire w1 @ [ack_segment (tsk w1) (rcv_nxt (tsk w1))]\<rparr>)" (is "_ = Some ?w2") .
  have acc: "acceptable_segment (tsk w1) (seg_seq sg) 0" using acceptable_in_order [of "tsk w1" 0] b(1) w t(4,5) sg' by simp
  have "\<not> snd_nxt t + 1 \<le> snd_nxt t" "snd_nxt t \<noteq> snd_nxt t + 1" using t(3) by auto
  then have "established_ack_state sg wnd 0 w1 = Some (Return ?w2)" for wnd
    using t(1-3) sg' b(1) w sa by (simp add: established_ack_state_def established_ack_def Let_def)
  moreover have "established_rst sg w1 = Some (Continue w1)" "established_syn sg w1 = Some (Continue w1)"
    using sg' by (simp_all add: established_rst_def established_syn_def)
  ultimately have "tcp_dispatch b w1 = Some ?w2"
    using t(1) sg' b(1,2) w acc by (simp add: tcp_dispatch_def tcp_handler_established_def payload_lenth_def and_then_def flow_end_def Let_def)
  then show ?thesis using bw b w by (intro that [of ?w2]) (simp_all add: ack_segment_def)
qed

lemma probing_resumes:
  assumes T: "transferred t start msg off wa wb" and t: "t = tsk wa"
    and w: "tsk w = t\<lparr>snd_wnd := seg_wnd t sg, tx_queue := [], send_head := None, flight_size := x, persist_timer := y, persist_backoff := z\<rparr>"
      "wire w = []" and sg: "window_update t sg" and e: "clock_ok c" "sched_ok s Q"
  shows "transferred t start msg off (upd_tsk (\<lambda>t. t\<lparr>persist_timer := None\<rparr>) (w\<lparr>clock := c, nsched := s\<rparr>)) wb"
proof -
  let ?w = "upd_tsk (\<lambda>t. t\<lparr>persist_timer := None\<rparr>) (w\<lparr>clock := c, nsched := s\<rparr>)"
  have "message_skb (tsk ?w) = message_skb t" using w(1) t by (intro message_skb_same) simp_all
  moreover have "sender_at start off ?w" using T w sg e t by (simp add: transferred_def sender_at_def flow_ok_def window_update_def)
  moreover have "linked msg start ?w wb" using T w t by (simp add: transferred_def linked_def seg_wnd_def)
  ultimately show ?thesis using T e(2) by (auto simp: transferred_def)
qed

lemma received_message:
  assumes "transferred t start msg (length msg) wa wb" "msg \<noteq> []" "length msg < 65536" "length msg \<le> unat len"
  shows "\<exists>wb'. tcp_recvmsg hs irqs len wb = Some (Received (int (length msg)) msg, wb') \<and> rx_queue (tsk wb') = []"
proof -
  from assms(1) obtain ps where ps: "concat ps = msg" "\<forall>p \<in> set ps. p \<noteq> []" "distinct (rx_queue (tsk wb))"
    "map (\<lambda>b. segment (skbs wb b)) (rx_queue (tsk wb)) = data_segments (\<lambda>o' p. segment (message_skb t start (length msg) o' p)) 0 ps"
    "tstate (tsk wb) = TCP_ESTABLISHED" "sock_state (tsk wb) \<noteq> SS_DISCONNECTED"
    by (auto simp: transferred_def received_def linked_def quiet_def)
  let ?wb = "upd_tsk (\<lambda>t. t\<lparr>rx_length := len\<rparr>) wb"
  have "recvmsg_loop hs irqs len ?wb = Some (Received (int (length msg)) msg, upd_tsk (\<lambda>t. t\<lparr>rx_queue := [], rx_length := 0\<rparr>) ?wb)"
    using ps assms(2-4) by (intro recvmsg_message [where ps = ps and t = t and start = start]) simp_all
  then show ?thesis using ps(6) by (simp add: tcp_recvmsg_def)
qed

text \<open>The end of a transfer, at the sender and at the receiver.\<close>

definition delivered ::
    "(sched \<Rightarrow> sched option) \<Rightarrow> (sched \<Rightarrow> sched option) list \<Rightarrow> u8 list \<Rightarrow> u32 \<Rightarrow> u32 \<Rightarrow> (sendmsg_outcome \<times> tcp_world \<times> tcp_world) option \<Rightarrow> bool" where
  "delivered hs irqs msg start len r \<longleftrightarrow>
     (\<exists>wa wb wb'. r = Some (Sent (int (length msg)), wa, wb) \<and> tx_queue (tsk wa) = [] \<and> snd_una (tsk wa) = start + of_nat (length msg) \<and>
        tcp_recvmsg hs irqs len wb = Some (Received (int (length msg)) msg, wb') \<and> rx_queue (tsk wb') = [])"

lemma transferred_delivered:
  assumes "transferred t start msg (length msg) wa wb" "msg \<noteq> []" "length msg < 65536" "length msg \<le> unat len"
  shows "delivered hs irqs msg start len (Some (Sent (int (length msg)), wa, wb))"
  using received_message [OF assms, of hs irqs] assms(1) by (auto simp: delivered_def transferred_def sender_at_def)

lemma probed_delivered:
  assumes T: "transferred t start msg 0 wa wb" and t: "t = tsk wa" and n: "msg \<noteq> []" "length msg < 65536" "length msg \<le> unat len"
    and mss: "mmss \<noteq> 0" "mmss \<le> 65535" and irqs: "\<forall>irq \<in> set irqs. keeps_ok irq" "keeps_ok hs"
    and es: "length msg < length es" "\<forall>e \<in> set es. clock_ok (fst e) \<and> (\<exists>Q. sched_ok (snd e) Q)" and sg: "window_update t sg"
  shows "\<exists>w1 w2 w3. sendmsg_loop hs irqs msg mmss start 0 (closed_window wa) = Some (SendWait (Probing 0), w1) \<and> wire w1 = [] \<and>
    probes j w1 = Some w2 \<and> wire w2 = replicate j (segment (message_skb t start (length msg) 0 [hd msg])) \<and> deliver [sg] (w2\<lparr>wire := []\<rparr>) = Some w3 \<and>
    delivered hs irqs msg start len (exchange hs irqs msg mmss start es (SendWait (Probing 0), w3) wb)"
proof -
  let ?sk = "message_skb t start (length msg) 0 [msg ! 0]"
  obtain Qa where sa: "sender_at start 0 wa" "sched_ok (nsched wa) Qa" "linked msg start wa wb" using T by (auto simp: transferred_def)
  have n31: "0 < length msg" "length msg < 2147483648" using n by simp_all
  obtain w1 where w1: "sendmsg_loop hs irqs msg mmss start 0 (closed_window wa) = Some (SendWait (Probing 0), w1)"
    "probing t ?sk w1" "wire w1 = []"
    using probe_waits [OF sa(1) n31 sa(2) irqs, of mmss] sa(3) t by (auto simp: linked_def)
  have tt: "tstate t = TCP_ESTABLISHED" using sa(1) t by (simp add: sender_at_def)
  obtain w2 where w2: "probes j w1 = Some w2" "probing t ?sk w2" "wire w2 = replicate j (segment ?sk)"
    using probe_fires [OF w1(2) refl tt, of j] w1(3) by auto
  have pr: "probing t ?sk (w2\<lparr>wire := []\<rparr>)" using w2(2) by (simp add: probing_def)
  have ts: "snd_una t = start + of_nat 0" "snd_nxt t = start + of_nat 0" "flow_ok t" "rto t \<noteq> 0" "rcv_wnd t \<noteq> 0"
    "unat (rcv_nxt t) + unat (rcv_wnd t) < 4294967296" using sa t by (simp_all add: sender_at_def linked_def)
  obtain w3 x y z where w3: "deliver [sg] (w2\<lparr>wire := []\<rparr>) = Some w3" "wire w3 = []"
    "state (threads (nsched w3) (owner_thread (tsk w3))) = THREAD_READY"
    "tsk w3 = t\<lparr>snd_wnd := seg_wnd t sg, tx_queue := [], send_head := None, flight_size := x, persist_timer := y, persist_backoff := z\<rparr>"
    by (rule window_opens [OF pr tt ts sg]) simp
  obtain e es' Q where e: "es = e # es'" "clock_ok (fst e)" "sched_ok (snd e) Q" using es by (cases es) auto
  let ?w = "w3\<lparr>clock := fst e, nsched := snd e\<rparr>"
  have res: "sendmsg_resume hs irqs msg mmss start (Probing 0) ?w = sendmsg_loop hs irqs msg mmss start 0 (upd_tsk (\<lambda>t. t\<lparr>persist_timer := None\<rparr>) ?w)"
    using w3(4) by (simp add: sendmsg_resume_def tcp_transmit_def)
  obtain r wa' wb' where x: "sendmsg_loop hs irqs msg mmss start 0 (upd_tsk (\<lambda>t. t\<lparr>persist_timer := None\<rparr>) ?w) = Some r"
    "exchange hs irqs msg mmss start es' r wb = Some (Sent (int (length msg)), wa', wb')" "transferred t start msg (length msg) wa' wb'"
    using exchange_transfers [OF probing_resumes [OF T t w3(4,2) sg e(2,3)], of es' mmss irqs hs] n(2) mss irqs es e(1) by auto
  have wires: "wb\<lparr>wire := []\<rparr> = wb" "w3\<lparr>wire := []\<rparr> = w3" using sa(3) w3(2) by (simp_all add: linked_def)
  have "exchange hs irqs msg mmss start es (SendWait (Probing 0), w3) wb =
    Option.bind (sendmsg_resume hs irqs msg mmss start (Probing 0) (w3\<lparr>wire := []\<rparr>\<lparr>clock := fst e, nsched := snd e\<rparr>))
      (\<lambda>r1. exchange hs irqs msg mmss start es' r1 (wb\<lparr>wire := []\<rparr>))"
    using w3(2,3) sa(3) e(1) by (simp add: linked_def)
  also have "\<dots> = Some (Sent (int (length msg)), wa', wb')" unfolding wires res x(1) using x(2) by simp
  finally have "exchange hs irqs msg mmss start es (SendWait (Probing 0), w3) wb = Some (Sent (int (length msg)), wa', wb')" .
  then show ?thesis using w1(1,3) w2(1,3) w3(1) transferred_delivered [OF x(3) n, of hs irqs] n(1) by (auto simp: hd_conv_nth)
qed

text \<open>C3: a message of less than 64 KiB sent through an established connection arrives. \<open>tcp_sendmsg\<close> cuts it into segments, as many at
  a time as the congestion window and the announced window allow, and waits; the other end accepts each segment and answers with an
  acknowledgement; the acknowledgements wake the sender, which goes on with the next bytes. However many rounds this takes, one byte
  each at worst, \<open>tcp_sendmsg\<close> returns the length of the message with an empty queue and everything acknowledged, and \<open>tcp_recvmsg\<close>
  at the other end returns exactly the message. When the announced window is closed at the start, \<open>tcp_sendmsg\<close> sends nothing and
  waits, the timer sends the first byte as a probe as often as it fires, and after a segment that opens the window the message is
  transferred in the same way. The network loses and reorders nothing, the other end sends no data of its own, drops the probes and
  keeps the window open once it is, and the sequence numbers do not pass \<open>2\<^sup>3\<^sup>2\<close>; the clock and the scheduler
  of the sender are arbitrary in each round.\<close>

theorem tcp_message_delivered:
  assumes r: "sender_ready msg wa" and c: "connected msg wa wb" and len: "length msg < 65536" "length msg \<le> unat len"
    and ok: "sched_ok (nsched wa) Qa" "sched_ok (nsched wb) Qb" and irqs: "\<forall>irq \<in> set irqs. keeps_ok irq" "keeps_ok hs"
    and es: "length msg < length es" "\<forall>e \<in> set es. clock_ok (fst e) \<and> (\<exists>Q. sched_ok (snd e) Q)" and sg: "window_update (tsk wa) sg"
  defines "mmss \<equiv> min (snd_mss (tsk wa)) (rcv_mss (tsk wa))" and "start \<equiv> snd_nxt (tsk wa)"
  shows "(\<exists>sent. tcp_sendmsg hs irqs msg wa = Some sent \<and> delivered hs irqs msg start len (exchange hs irqs msg mmss start es sent wb)) \<and>
    (\<exists>w1 w2 w3. tcp_sendmsg hs irqs msg (closed_window wa) = Some (SendWait (Probing 0), w1) \<and> wire w1 = [] \<and>
       probes j w1 = Some w2 \<and> wire w2 = replicate j (segment (message_skb (tsk wa) start (length msg) 0 [hd msg])) \<and>
       deliver [sg] (w2\<lparr>wire := []\<rparr>) = Some w3 \<and>
       delivered hs irqs msg start len (exchange hs irqs msg mmss start es (SendWait (Probing 0), w3) wb))"
proof -
  note rd = r [unfolded sender_ready_def] and cn = c [unfolded connected_def]
  have "received (tsk wa) start msg 0 wb" using cn by (auto simp: received_def start_def intro: exI [of _ "[]"])
  then have T: "transferred (tsk wa) start msg 0 wa wb" using rd cn ok by (auto simp: transferred_def start_def)
  have mss: "mmss \<noteq> 0" "mmss \<le> 65535"
    using rd by (auto simp: mmss_def sender_at_def flow_ok_def ETH_MAX_MTU_def min_def word_le_nat_alt)
  have call: "tcp_sendmsg hs irqs msg wa = sendmsg_loop hs irqs msg mmss start 0 wa"
    "tcp_sendmsg hs irqs msg (closed_window wa) = sendmsg_loop hs irqs msg mmss start 0 (closed_window wa)"
    using rd by (simp_all add: tcp_sendmsg_def mmss_def start_def closed_window_def)
  obtain sent wa' wb' where "sendmsg_loop hs irqs msg mmss start 0 wa = Some sent"
    "exchange hs irqs msg mmss start es sent wb = Some (Sent (int (length msg)), wa', wb')" "transferred (tsk wa) start msg (length msg) wa' wb'"
    using exchange_transfers [OF T, of es mmss irqs hs] mss len(1) es irqs by auto
  then show ?thesis using transferred_delivered [OF _ _ len, of "tsk wa" start wa' wb' hs irqs] rd
      probed_delivered [OF T refl _ len mss irqs es sg, of j] by (simp add: call)
qed

text \<open>Two ends of a connection and a short message.\<close>

definition sock_example :: "u32 \<Rightarrow> u32 \<Rightarrow> tcp_sock" where
  "sock_example sn rn =
     \<lparr>sock_state = SS_CONNECTED, owner_thread = 1, rx_queue = [], rx_length = 0, tx_queue = [], send_head = None,
      ssin = \<lparr>sin_port = 1, sin_addr = 2\<rparr>, dsin = \<lparr>sin_port = 3, sin_addr = 4\<rparr>, tstate = TCP_ESTABLISHED, msl_timer = None,
      snd_mss = 2, snd_iss = sn - 1, snd_una = sn, snd_nxt = sn, snd_wnd = 100, snd_wl1 = 0, snd_wl2 = 0, snd_wds = 0,
      rcv_mss = 1460, rcv_irs = rn - 1, rcv_nxt = rn, rcv_wnd = 100, ssthresh = 65535, cwnd = 3, number_of_dup_acks = 0, flight_size = 0,
      rto = 1000, retransmit_timer = None, srtt = 0, rttvar = 0, persist_timer = None, persist_backoff = 1000, rtt_end_seq = 0, rtt_time = 0,
      syn_retries = 0\<rparr>"

definition world_example :: "tcp_sock \<Rightarrow> tcp_world" where
  "world_example t = \<lparr>tsk = t, skbs = (\<lambda>_. new_skb t 0 0 0 [] []), next_skb = 0, wire = [], clock = 5, rseed = 1, nsched = sched_example,
     stack_rmms = 0, stack_scale = 0\<rparr>"

lemma world_example_sched: "sched_ok (nsched (world_example t)) ((\<lambda>_. [])(app_ready_list := [1, 2]))"
  by (simp only: world_example_def tcp_world.simps sched_example_ok)

text \<open>Eleven bytes with a congestion window of three: one round is not enough.\<close>

definition update_example :: tcp_segment where
  "update_example = ack_segment (sock_example 20 10) 10"

theorem tcp_message_delivered_witness:
  "(\<exists>sent. tcp_sendmsg Some [] [104, 101, 108, 108, 111, 32, 119, 111, 114, 108, 100] (world_example (sock_example 10 20)) = Some sent \<and>
     delivered Some [] [104, 101, 108, 108, 111, 32, 119, 111, 114, 108, 100] 10 64
       (exchange Some [] [104, 101, 108, 108, 111, 32, 119, 111, 114, 108, 100] 2 10 (replicate 12 (7, sched_example)) sent (world_example (sock_example 20 10)))) \<and>
   (\<exists>w1 w2 w3. tcp_sendmsg Some [] [104, 101, 108, 108, 111, 32, 119, 111, 114, 108, 100] (closed_window (world_example (sock_example 10 20))) =
       Some (SendWait (Probing 0), w1) \<and> probes 2 w1 = Some w2 \<and> length (wire w2) = 2 \<and> deliver [update_example] (w2\<lparr>wire := []\<rparr>) = Some w3 \<and>
     delivered Some [] [104, 101, 108, 108, 111, 32, 119, 111, 114, 108, 100] 10 64
       (exchange Some [] [104, 101, 108, 108, 111, 32, 119, 111, 114, 108, 100] 2 10 (replicate 12 (7, sched_example)) (SendWait (Probing 0), w3)
         (world_example (sock_example 20 10))))"
proof -
  let ?a = "world_example (sock_example 10 20)" and ?b = "world_example (sock_example 20 10)"
    and ?msg = "[104, 101, 108, 108, 111, 32, 119, 111, 114, 108, 100] :: u8 list" and ?es = "replicate 12 (7 :: u64, sched_example)"
  have r: "sender_ready ?msg ?a"
    by (simp add: sender_ready_def sender_at_def flow_ok_def clock_ok_def ETH_MAX_MTU_def world_example_def sock_example_def)
  have c: "connected ?msg ?a ?b"
    by (simp add: connected_def linked_def quiet_def seg_wnd_def ack_segment_def made_segment_def world_example_def sock_example_def)
  have u: "window_update (tsk ?a) update_example"
    by (simp add: window_update_def ack_only_def update_example_def seg_wnd_def ack_segment_def made_segment_def tcp_flag_defs world_example_def sock_example_def)
  have t: "min (snd_mss (tsk ?a)) (rcv_mss (tsk ?a)) = 2" "snd_nxt (tsk ?a) = 10" by (simp_all add: world_example_def sock_example_def)
  have es: "\<forall>e \<in> set ?es. clock_ok (fst e) \<and> (\<exists>Q. sched_ok (snd e) Q)" using sched_example_ok by (auto simp: clock_ok_def)
  have k: "\<forall>irq \<in> set []. keeps_ok irq" "length ?msg < 65536" "length ?msg \<le> unat (64 :: u32)" "length ?msg < length ?es" by simp_all
  have l: "length xs = n" if "xs = replicate n (y :: tcp_segment)" for xs n y using that by simp
  show ?thesis
    using tcp_message_delivered [OF r c k(2,3) world_example_sched world_example_sched k(1) keeps_ok_Some k(4) es u, of 2] unfolding t
    by (blast intro: l)
qed

end
