(* ===== verification/Tcp_States.thy ===== *)
theory Tcp_States
  imports Tcp_Spec
begin

text \<open>
  The connections of \<open>Tcp\<close> as a state machine: the opening handshake, and which changes of state the handlers and the timers can
  make.
\<close>

unbundle bit_operations_syntax

section \<open>The handshake\<close>

lemma rand_r_bound: "unat (fst (rand_r seed)) < 2147483648"
proof -
  have m: "x mod 2048 = take_bit 11 x" "x mod 1024 = take_bit 10 x" for x :: u32 by (simp_all add: take_bit_eq_mod)
  define r2 where "r2 = push_bit 10 (take_bit 11 ((seed * 1103515245 + 12345) div 65536)) XOR
    take_bit 10 (((seed * 1103515245 + 12345) * 1103515245 + 12345) div 65536)"
  obtain z :: u32 where z: "fst (rand_r seed) = push_bit 10 r2 XOR take_bit 10 z"
    by (simp add: rand_r_def Let_def m r2_def)
  have "take_bit 21 r2 = r2" unfolding r2_def by (rule bit_eqI) (auto simp: bit_simps)
  then have r2: "bit r2 n \<Longrightarrow> n < 21" for n by (metis bit_take_bit_iff)
  have "take_bit 31 (fst (rand_r seed)) = fst (rand_r seed)"
    unfolding z by (rule bit_eqI) (auto simp: bit_simps dest: r2)
  then have "unat (fst (rand_r seed)) = take_bit 31 (unat (fst (rand_r seed)))" by (metis unsigned_take_bit_eq)
  then show ?thesis using take_bit_nat_less_exp [of 31 "unat (fst (rand_r seed))"] by simp
qed

lemma length_syn_options: "length (syn_options mss) = 8"
proof -
  obtain len m' where b: "tcp_build_syn_options mss 0 (\<lambda>_. 0) = (len, m')" by fastforce
  from syn_options_bytes(1) [OF b] show ?thesis by (simp add: syn_options_def b get_bytes_def)
qed

abbreviation first_seq :: "tcp_world \<Rightarrow> u32" where
  "first_seq w \<equiv> fst (rand_r (rseed w))"

definition syn_segment :: "sockaddr_in \<Rightarrow> tcp_world \<Rightarrow> tcp_segment" where
  "syn_segment vaddr w = made_segment (ssin (tsk w)) vaddr (first_seq w) 0 TCPCB_FLAG_SYN (ucast ETH_MAX_MTU) (syn_options local_mss) []"

text \<open>The socket between the SYN segment and the answer.\<close>

definition syn_sent :: "u32 \<Rightarrow> nat \<Rightarrow> tcp_world \<Rightarrow> bool" where
  "syn_sent iss a w \<longleftrightarrow>
     tstate (tsk w) = TCP_SYN_SENT \<and> tx_queue (tsk w) = [a] \<and> send_head (tsk w) = None \<and> snd_iss (tsk w) = iss \<and> snd_una (tsk w) = 0 \<and>
     snd_nxt (tsk w) = iss + 1 \<and> rto (tsk w) \<noteq> 0 \<and> cb_end_seq (skbs w a) = iss \<and> a < next_skb w"

lemma transmit_syn:
  assumes q: "tx_queue (tsk w) = [a]" "send_head (tsk w) = Some a" and st: "tstate (tsk w) = TCP_CLOSE" "snd_una (tsk w) = 0" "snd_nxt (tsk w) = 1"
      "snd_wnd (tsk w) = ETH_MAX_MTU" "rtt_time (tsk w) = 0" "rto (tsk w) \<noteq> 0" "snd_iss (tsk w) = iss" "a < next_skb w"
    and sk: "skbs w a = new_skb t iss 0 TCPCB_FLAG_SYN opts []"
  obtains w' where "transmit_pending w = Some w'" "nsched w' = nsched w" "wire w' = wire w @ [segment (skbs w a)]" "syn_sent iss a w'"
    "owner_thread (tsk w') = owner_thread (tsk w)"
proof -
  have win: "0 < tcp_sender_available_window (tsk w)" using st by (simp add: tcp_sender_available_window_def ETH_MAX_MTU_def)
  have sg: "payload_lenth (skbs w a) = Some 0" "seg_syn (segment (skbs w a))" "cb_end_seq (skbs w a) = iss" "cb_flags (skbs w a) = TCPCB_FLAG_SYN"
    by (simp_all add: sk payload_lenth_def new_skb_def made_segment_def tcp_flag_defs)
  have fl: "tcp_next_state TCP_CLOSE (ucast TCPCB_FLAG_SYN) = TCP_SYN_SENT" by (simp add: tcp_next_state_def)
  obtain w1 where w1: "tcp_send_skb a False w = Some w1" "nsched w1 = nsched w" "wire w1 = wire w @ [segment (skbs w a)]"
    "tstate (tsk w1) = TCP_SYN_SENT" "tx_queue (tsk w1) = [a]" "snd_iss (tsk w1) = iss" "snd_una (tsk w1) = 0" "snd_nxt (tsk w1) = iss + 1"
    "rto (tsk w1) \<noteq> 0" "cb_end_seq (skbs w1 a) = iss" "a < next_skb w1" "owner_thread (tsk w1) = owner_thread (tsk w)" "rtt_time (tsk w1) = 0"
    using q st sg fl by (simp add: tcp_send_skb_def tcp_state_transition_def Let_def)
  show ?thesis
    by (rule that [of "upd_tsk (\<lambda>t. t\<lparr>send_head := None, rtt_end_seq := cb_end_seq (skbs w1 a), rtt_time := cb_when (skbs w1 a)\<rparr>) w1"])
      (use q win w1 in \<open>simp_all add: transmit_pending_def syn_sent_def\<close>)
qed

lemma connect_sends:
  assumes "tx_queue (tsk w) = []" "send_head (tsk w) = None" and ok: "sched_ok (nsched w) Q" and irqs: "\<forall>irq \<in> set irqs. keeps_ok irq" "keeps_ok hs"
  obtains w' Q' where "tcp_connect hs irqs vaddr w = Some (Blocked, w')" "sched_ok (nsched w') Q'" "wire w' = wire w @ [syn_segment vaddr w]"
    "syn_sent (first_seq w) (next_skb w) w'" "owner_thread (tsk w') = owner_thread (tsk w)"
proof -
  let ?iss = "first_seq w" and ?a = "next_skb w"
  let ?t = "(tcp_create_tcb ((tsk w)\<lparr>sock_state := SS_CONNECTING, dsin := vaddr\<rparr>))\<lparr>snd_iss := ?iss\<rparr>"
  let ?w3 = "w\<lparr>rseed := snd (rand_r (rseed w)), tsk := ?t\<rparr>"
  obtain w4 where w4: "tcp_create_skb ?iss 0 TCPCB_FLAG_SYN (syn_options (snd_mss (tsk ?w3))) [] ?w3 = Some (?a, w4)" "tsk w4 = ?t"
    "nsched w4 = nsched w" "wire w4 = wire w" "next_skb w4 = Suc ?a"
    "skbs w4 ?a = new_skb ?t ?iss 0 TCPCB_FLAG_SYN (syn_options local_mss) []"
    by (simp add: tcp_create_skb_eq length_syn_options tcp_create_tcb_def)
  let ?w5 = "upd_tsk (tcp_tx_queue_add_skb ?a) w4"
  have tx: "tx_queue (tsk ?w5) \<noteq> []" by simp
  have seg: "segment (skbs w4 ?a) = syn_segment vaddr w"
    by (simp add: w4(6) syn_segment_def new_skb_def tcp_create_tcb_def)
  have "skbs ?w5 ?a = new_skb ?t ?iss 0 TCPCB_FLAG_SYN (syn_options local_mss) []" by (simp add: w4(6))
  then obtain w6 where w6: "transmit_pending (?w5\<lparr>nsched := lock_scheduler (nsched ?w5)\<rparr>) = Some w6" "nsched w6 = lock_scheduler (nsched ?w5)"
    "wire w6 = wire w @ [syn_segment vaddr w]" "syn_sent ?iss ?a w6" "owner_thread (tsk w6) = owner_thread (tsk w)"
    using transmit_syn [of "?w5\<lparr>nsched := lock_scheduler (nsched ?w5)\<rparr>" ?a ?iss ?t "syn_options local_mss"] assms(1,2) w4(2,4,5) seg
    by (auto simp: queued_def tcp_create_tcb_def)
  from transmit_waits [OF tx w6(1,2) _ irqs] ok w4(3) obtain s' Q' where
    "tcp_transmit hs irqs ?w5 = Some (False, w6\<lparr>nsched := s'\<rparr>)" "sched_ok s' Q'" by auto
  then show ?thesis using w4(1) w6(3-5)
    by (intro that [of "w6\<lparr>nsched := s'\<rparr>" Q']) (simp_all add: tcp_connect_def rand_def split_beta Let_def tcp_transmit_skb_def syn_sent_def)
qed

text \<open>The answer of the other end: it acknowledges the SYN, brings its own, and its options can be parsed.\<close>

definition synack :: "u32 \<Rightarrow> tcp_world \<Rightarrow> tcp_segment \<Rightarrow> bool" where
  "synack iss w sg \<longleftrightarrow>
     seg_acked sg \<and> seg_syn sg \<and> \<not> seg_rst sg \<and> seg_ack sg = iss + 1 \<and>
     (seg_options sg \<noteq> [] \<longrightarrow>
        tcp_parse_syn_options (options_mem sg) 0 (of_nat (length (seg_options sg))) (stack_rmms w) (stack_scale w) \<noteq> None)"

lemma synack_establishes:
  assumes w: "syn_sent iss a w" "unat iss < 2147483648" and sg: "synack iss w sg" and ok: "sched_ok (nsched w) Q"
  obtains w' Q' where "deliver [sg] w = Some w'" "tstate (tsk w') = TCP_ESTABLISHED" "tx_queue (tsk w') = []" "rcv_nxt (tsk w') = seg_seq sg + 1"
    "snd_una (tsk w') = iss + 1" "snd_nxt (tsk w') = iss + 1" "sched_ok (nsched w') Q'" "state (threads (nsched w') (owner_thread (tsk w))) = THREAD_READY"
    "wire w' = wire w @ [made_segment (ssin (tsk w)) (dsin (tsk w)) (iss + 1) (seg_seq sg + 1) TCPCB_FLAG_ACK (ucast (rcv_wnd (tsk w))) [] []]"
proof -
  note sy = w(1) [unfolded syn_sent_def] and sa = sg [unfolded synack_def]
  obtain b w1 where bw: "receive_skb sg w = (b, w1)" by fastforce
  then have b: "segment (skbs w1 b) = sg" "tsk w1 = tsk w" "skbs w1 a = skbs w a" "wire w1 = wire w" "nsched w1 = nsched w"
    "stack_rmms w1 = stack_rmms w" "stack_scale w1 = stack_scale w"
    using sy by (auto simp: receive_skb_def)
  have lt: "iss < iss + 1" "\<not> iss + 1 \<le> iss" "iss < iss + 1 \<or> iss + 1 < iss + 1" using w(2) by (simp_all add: word_less_nat_alt word_le_nat_alt unat_plus_if')
  obtain r sc where w2: "(if seg_options sg \<noteq> [] then
      do {
        (rmms, scale) \<leftarrow> tcp_parse_syn_options (options_mem sg) 0 (of_nat (length (seg_options sg))) (stack_rmms w1) (stack_scale w1);
        Some (upd_tsk (\<lambda>t. t\<lparr>rcv_mss := rmms, snd_wds := scale\<rparr>) w1)
      } else Some w1) = Some (upd_tsk (\<lambda>t. t\<lparr>rcv_mss := r, snd_wds := sc\<rparr>) w1)"
  proof (cases "seg_options sg = []")
    case True
    then show ?thesis by (intro that [where r = "rcv_mss (tsk w1)" and sc = "snd_wds (tsk w1)"]) simp
  next
    case False
    then show ?thesis using sa that b(6,7) by auto
  qed
  let ?w2 = "upd_tsk (\<lambda>t. t\<lparr>rcv_mss := r, snd_wds := sc, rcv_irs := seg_seq sg, rcv_nxt := seg_seq sg + 1, snd_nxt := seg_ack sg, snd_wnd := ucast (seg_window sg)\<rparr>) w1"
  have q: "filter (\<lambda>a. \<not> cb_end_seq (skbs ?w2 a) < iss + 1) (tx_queue (tsk ?w2)) = []" using sy b(2,3) lt(1) by simp
  obtain w3 where w3: "tcp_accept_ack (iss + 1) False ?w2 = Some w3" "same_connection (tsk ?w2) (tsk w3)" "snd_una (tsk w3) = iss + 1"
    "tx_queue (tsk w3) = []" "w3 = ?w2\<lparr>tsk := tsk w3\<rparr>"
    using accept_ack_in_order [of ?w2 "iss + 1"] q sy b(2) by auto
  let ?w4 = "upd_tsk (\<lambda>t. t\<lparr>cwnd := initial_cwnd (snd_mss t), ssthresh := ucast (seg_window sg)\<rparr>) w3"
  have fls: "TCPCB_FLAG_ACK AND TCPCB_FLAG_SYN = 0" "TCPCB_FLAG_ACK AND TCPCB_FLAG_FIN = 0" by (simp_all add: tcp_flag_defs)
  obtain rs sk where w5: "send_new (snd_nxt (tsk ?w4)) (rcv_nxt (tsk ?w4)) TCPCB_FLAG_ACK ?w4 =
      Some (?w4\<lparr>tsk := tcp_state_transition (ucast TCPCB_FLAG_ACK) (tsk ?w4), rseed := rs, next_skb := Suc (next_skb ?w4),
        skbs := (skbs ?w4)(next_skb ?w4 := sk),
        wire := wire ?w4 @ [made_segment (ssin (tsk ?w4)) (dsin (tsk ?w4)) (snd_nxt (tsk ?w4)) (rcv_nxt (tsk ?w4)) TCPCB_FLAG_ACK (ucast (rcv_wnd (tsk ?w4))) [] []]\<rparr>)"
    (is "_ = Some ?w5") by (rule send_new_empty [OF fls, of "snd_nxt (tsk ?w4)" "rcv_nxt (tsk ?w4)" ?w4])
  have "nsched w3 = nsched w" using b(5) by (subst w3(5)) simp
  then have "sched_ok (nsched ?w5) Q" using ok by simp
  then obtain s' Q' where s': "wake_owner ?w5 = Some (?w5\<lparr>nsched := s'\<rparr>)" "sched_ok s' Q'" "state (threads s' (owner_thread (tsk ?w5))) = THREAD_READY"
    by (rule wake_owner_ok)
  have fl: "tcp_next_state TCP_SYN_SENT (ucast TCPCB_FLAG_ACK) = TCP_ESTABLISHED" by (simp add: tcp_next_state_def tcp_flag_defs)
  have t4: "tstate (tsk ?w4) = TCP_SYN_SENT" "tx_queue (tsk ?w4) = []" "rcv_nxt (tsk ?w4) = seg_seq sg + 1" "snd_una (tsk ?w4) = iss + 1"
    "snd_nxt (tsk ?w4) = iss + 1" "owner_thread (tsk ?w4) = owner_thread (tsk w)" "ssin (tsk ?w4) = ssin (tsk w)" "dsin (tsk ?w4) = dsin (tsk w)"
    "rcv_wnd (tsk ?w4) = rcv_wnd (tsk w)" "snd_iss (tsk w3) = iss"
    using w3(2-4) sy sa b(2) by (simp_all add: same_connection_def)
  have "wire w3 = wire w" using b(4) by (subst w3(5)) simp
  then have w4: "wire ?w4 = wire w" by simp
  have t5: "tx_queue (tcp_state_transition f t) = tx_queue t" "rcv_nxt (tcp_state_transition f t) = rcv_nxt t"
    "snd_una (tcp_state_transition f t) = snd_una t" "snd_nxt (tcp_state_transition f t) = snd_nxt t"
    "owner_thread (tcp_state_transition f t) = owner_thread t" "tstate (tcp_state_transition f t) = tcp_next_state (tstate t) f" for f t
    by (simp_all add: tcp_state_transition_def Let_def)
  have "tcp_handler_sync b w1 = Some (?w5\<lparr>nsched := s'\<rparr>)"
    using sa sy b(1,2) lt w2 w3(1,3) w5 s'(1) t4(10) by (simp add: tcp_handler_sync_def)
  then have dl: "deliver [sg] w = Some (?w5\<lparr>nsched := s'\<rparr>)" using bw b(2) sy by (simp add: tcp_dispatch_def)
  show ?thesis
    by (rule that [OF dl, of Q']) (use s'(2,3) t4 w4 fl in \<open>simp_all add: t5\<close>)
qed

text \<open>C14: \<open>tcp_connect\<close> on a fresh socket sends one SYN segment with a random sequence number, and waits. Whatever SYN segment of the
  other end then acknowledges it, \<open>tcp_handler\<close> answers with an acknowledgement of that SYN, wakes the thread, and \<open>tcp_connect\<close>
  returns 0 with the connection established and nothing left to send.\<close>

theorem tcp_connect_handshake:
  assumes q: "tx_queue (tsk w) = []" "send_head (tsk w) = None" and ok: "sched_ok (nsched w) Q" and irqs: "\<forall>irq \<in> set irqs. keeps_ok irq" "keeps_ok hs"
  shows "\<exists>w1. tcp_connect hs irqs vaddr w = Some (Blocked, w1) \<and> wire w1 = wire w @ [syn_segment vaddr w] \<and> tstate (tsk w1) = TCP_SYN_SENT \<and>
    (\<forall>sg. synack (first_seq w) w1 sg \<longrightarrow>
      (\<exists>w2 w3 ack. deliver [sg] w1 = Some w2 \<and> wire w2 = wire w1 @ [ack] \<and>
         seg_seq ack = first_seq w + 1 \<and> seg_ack ack = seg_seq sg + 1 \<and> seg_acked ack \<and> \<not> seg_syn ack \<and> \<not> seg_fin ack \<and> \<not> seg_rst ack \<and>
         state (threads (nsched w2) (owner_thread (tsk w))) = THREAD_READY \<and>
         connect_resume hs irqs w2 = Some (Ret 0, w3) \<and> tstate (tsk w3) = TCP_ESTABLISHED \<and> sock_state (tsk w3) = SS_CONNECTED \<and>
         tx_queue (tsk w3) = [] \<and> snd_una (tsk w3) = first_seq w + 1 \<and> snd_nxt (tsk w3) = first_seq w + 1 \<and> rcv_nxt (tsk w3) = seg_seq sg + 1))"
proof -
  obtain w1 Q1 where w1: "tcp_connect hs irqs vaddr w = Some (Blocked, w1)" "sched_ok (nsched w1) Q1" "wire w1 = wire w @ [syn_segment vaddr w]"
    "syn_sent (first_seq w) (next_skb w) w1" "owner_thread (tsk w1) = owner_thread (tsk w)"
    by (rule connect_sends [OF q ok irqs])
  have "\<exists>w2 w3 ack. deliver [sg] w1 = Some w2 \<and> wire w2 = wire w1 @ [ack] \<and>
         seg_seq ack = first_seq w + 1 \<and> seg_ack ack = seg_seq sg + 1 \<and> seg_acked ack \<and> \<not> seg_syn ack \<and> \<not> seg_fin ack \<and> \<not> seg_rst ack \<and>
         state (threads (nsched w2) (owner_thread (tsk w))) = THREAD_READY \<and>
         connect_resume hs irqs w2 = Some (Ret 0, w3) \<and> tstate (tsk w3) = TCP_ESTABLISHED \<and> sock_state (tsk w3) = SS_CONNECTED \<and>
         tx_queue (tsk w3) = [] \<and> snd_una (tsk w3) = first_seq w + 1 \<and> snd_nxt (tsk w3) = first_seq w + 1 \<and> rcv_nxt (tsk w3) = seg_seq sg + 1"
    if sg: "synack (first_seq w) w1 sg" for sg
  proof -
    obtain w2 Q2 where w2: "deliver [sg] w1 = Some w2" "tstate (tsk w2) = TCP_ESTABLISHED" "tx_queue (tsk w2) = []" "rcv_nxt (tsk w2) = seg_seq sg + 1"
      "snd_una (tsk w2) = first_seq w + 1" "snd_nxt (tsk w2) = first_seq w + 1" "state (threads (nsched w2) (owner_thread (tsk w1))) = THREAD_READY"
      "wire w2 = wire w1 @ [made_segment (ssin (tsk w1)) (dsin (tsk w1)) (first_seq w + 1) (seg_seq sg + 1) TCPCB_FLAG_ACK (ucast (rcv_wnd (tsk w1))) [] []]"
      by (rule synack_establishes [OF w1(4) rand_r_bound sg w1(2)])
    let ?w3 = "upd_tsk (\<lambda>t. t\<lparr>sock_state := SS_CONNECTED\<rparr>) w2"
    have "connect_resume hs irqs w2 = Some (Ret 0, ?w3)"
      using w2(2,3) by (simp add: connect_resume_def tcp_transmit_def connect_done_def tcp_return_code_def)
    then show ?thesis using w2 w1(5)
      by (intro exI [of _ w2] exI [of _ ?w3] exI [of _ "made_segment (ssin (tsk w1)) (dsin (tsk w1)) (first_seq w + 1) (seg_seq sg + 1) TCPCB_FLAG_ACK (ucast (rcv_wnd (tsk w1))) [] []"])
        (simp add: made_segment_def tcp_flag_defs)
  qed
  then show ?thesis using w1(1,3,4) by (intro exI [of _ w1]) (simp add: syn_sent_def)
qed

definition synack_example :: "u32 \<Rightarrow> tcp_segment" where
  "synack_example iss = made_segment \<lparr>sin_port = 3, sin_addr = 4\<rparr> \<lparr>sin_port = 1, sin_addr = 2\<rparr> 700 (iss + 1) (TCPCB_FLAG_ACK OR TCPCB_FLAG_SYN) 512 [] []"

theorem tcp_connect_handshake_witness:
  "\<exists>w1 w2 w3 ack. tcp_connect Some [] \<lparr>sin_port = 3, sin_addr = 4\<rparr> (world_example (sock_example 0 0)) = Some (Blocked, w1) \<and>
     deliver [synack_example (first_seq (world_example (sock_example 0 0)))] w1 = Some w2 \<and> wire w2 = wire w1 @ [ack] \<and> seg_ack ack = 701 \<and>
     connect_resume Some [] w2 = Some (Ret 0, w3) \<and> tstate (tsk w3) = TCP_ESTABLISHED"
proof -
  let ?w = "world_example (sock_example 0 0)"
  have q: "tx_queue (tsk ?w) = []" "send_head (tsk ?w) = None" by (simp_all add: world_example_def sock_example_def)
  have irqs: "\<forall>irq \<in> set []. keeps_ok irq" by simp
  have sa: "synack (first_seq ?w) w1 (synack_example (first_seq ?w))" for w1
    by (simp add: synack_def synack_example_def made_segment_def tcp_flag_defs)
  have ack: "701 = seg_seq (synack_example (first_seq ?w)) + 1" by (simp add: synack_example_def made_segment_def)
  show ?thesis unfolding ack
    using tcp_connect_handshake [OF q world_example_sched irqs keeps_ok_Some, of "\<lparr>sin_port = 3, sin_addr = 4\<rparr>"] sa by blast
qed

section \<open>Changes of state\<close>

text \<open>The arrows of the state diagram of RFC 793, apart from the opening of a closed connection. A reset or an error closes.\<close>

inductive arrow :: "tcp_state \<Rightarrow> tcp_state \<Rightarrow> bool" where
  "arrow TCP_SYN_SENT TCP_SYN_RECV"
| "arrow TCP_SYN_SENT TCP_ESTABLISHED"
| "arrow TCP_SYN_RECV TCP_ESTABLISHED"
| "arrow TCP_SYN_RECV TCP_CLOSE_WAIT"
| "arrow TCP_ESTABLISHED TCP_FIN_WAIT1"
| "arrow TCP_ESTABLISHED TCP_CLOSE_WAIT"
| "arrow TCP_FIN_WAIT1 TCP_FIN_WAIT2"
| "arrow TCP_FIN_WAIT1 TCP_CLOSING"
| "arrow TCP_FIN_WAIT1 TCP_TIME_WAIT"
| "arrow TCP_FIN_WAIT2 TCP_TIME_WAIT"
| "arrow TCP_CLOSING TCP_TIME_WAIT"
| "arrow TCP_CLOSE_WAIT TCP_LAST_ACK"
| "st \<noteq> TCP_LISTEN \<Longrightarrow> arrow st TCP_CLOSE"

inductive_cases arrow_from_close: "arrow TCP_CLOSE st"
inductive_cases arrow_from_time_wait: "arrow TCP_TIME_WAIT st"
inductive_cases arrow_from_listen: "arrow TCP_LISTEN st"

lemma closed_stays: "arrow\<^sup>*\<^sup>* TCP_CLOSE st \<Longrightarrow> st = TCP_CLOSE"
  by (induction rule: rtranclp_induct) (auto elim: arrow_from_close)

text \<open>A path never leads back: each state has a level that the arrows raise.\<close>

fun level :: "tcp_state \<Rightarrow> nat" where
  "level TCP_LISTEN = 0"
| "level TCP_SYN_SENT = 0"
| "level TCP_SYN_RECV = 1"
| "level TCP_ESTABLISHED = 2"
| "level TCP_FIN_WAIT1 = 3"
| "level TCP_CLOSE_WAIT = 3"
| "level TCP_FIN_WAIT2 = 4"
| "level TCP_CLOSING = 4"
| "level TCP_LAST_ACK = 4"
| "level TCP_TIME_WAIT = 5"
| "level TCP_CLOSE = 6"

lemma level_closed: "st \<noteq> TCP_CLOSE \<Longrightarrow> level st < 6"
  by (cases st) simp_all

lemma arrow_level: "arrow s t \<Longrightarrow> s = t \<or> level s < level t"
  by (induction rule: arrow.induct) (auto dest: level_closed)

lemma arrows_level: "arrow\<^sup>*\<^sup>* s t \<Longrightarrow> s = t \<or> level s < level t"
proof (induction rule: rtranclp_induct)
  case (step y z)
  then show ?case using arrow_level [OF step.hyps(2)] by auto
qed simp

abbreviation steps :: "tcp_world \<Rightarrow> tcp_world \<Rightarrow> bool" where
  "steps w w' \<equiv> arrow\<^sup>*\<^sup>* (tstate (tsk w)) (tstate (tsk w'))"

lemma arrows_close: "st \<noteq> TCP_LISTEN \<Longrightarrow> arrow\<^sup>*\<^sup>* st TCP_CLOSE"
  by (auto intro: arrow.intros)

lemma next_state_arrows:
  assumes "st \<noteq> TCP_CLOSE \<and> st \<noteq> TCP_LISTEN \<or> flags \<noteq> ucast TCPCB_FLAG_SYN"
  shows "arrow\<^sup>*\<^sup>* st (tcp_next_state st flags)"
  using assms by (cases st) (auto simp: tcp_next_state_def intro: arrow.intros)

lemma tstate_transition [simp]: "tstate (tcp_state_transition flags t) = tcp_next_state (tstate t) flags"
  by (simp add: tcp_state_transition_def Let_def)

lemma send_skb_tstate:
  "tcp_send_skb a r w = Some w' \<Longrightarrow> tstate (tsk w') = tcp_next_state (tstate (tsk w)) (ucast (cb_flags (skbs w a)))"
  by (auto simp: tcp_send_skb_def Let_def split: bind_splits)

lemma send_new_tstate: "send_new sn an flags w = Some w' \<Longrightarrow> tstate (tsk w') = tcp_next_state (tstate (tsk w)) (ucast flags)"
  by (auto simp: send_new_def tcp_create_skb_eq new_skb_def dest: send_skb_tstate)

lemma accept_ack_tstate: "tcp_accept_ack ack al w = Some w' \<Longrightarrow> tstate (tsk w') = tstate (tsk w)"
  by (auto simp: tcp_accept_ack_def Let_def split: bind_splits if_splits)

lemma wake_owner_tsk: "wake_owner w = Some w' \<Longrightarrow> tsk w' = tsk w"
  by (auto simp: wake_owner_def)


definition flow_world :: "flow \<Rightarrow> tcp_world" where
  "flow_world r = (case r of Return w \<Rightarrow> w | Continue w \<Rightarrow> w)"

lemma flow_world_simps [simp]: "flow_world (Return w) = w" "flow_world (Continue w) = w"
  by (simp_all add: flow_world_def)

lemma and_then_steps:
  assumes x: "and_then r f = Some x" and r: "\<And>y. r = Some y \<Longrightarrow> steps w (flow_world y)" and f: "\<And>w1 y. f w1 = Some y \<Longrightarrow> steps w1 (flow_world y)"
  shows "steps w (flow_world x)"
proof -
  from x obtain y where y: "r = Some y" by (cases r) (simp_all add: and_then_def)
  from r [OF this] have s: "steps w (flow_world y)" .
  show ?thesis
  proof (cases y)
    case (Return w1)
    then show ?thesis using x y s by (simp add: and_then_def)
  next
    case (Continue w1)
    then have "f w1 = Some x" using x y by (simp add: and_then_def)
    from f [OF this] s Continue show ?thesis by (metis flow_world_simps(2) rtranclp_trans)
  qed
qed

lemma close_and_wake_steps: "close_and_wake w = Some r \<Longrightarrow> tstate (tsk (flow_world r)) = TCP_CLOSE"
  by (auto simp: close_and_wake_def tcp_enter_close_state_def dest: wake_owner_tsk)

lemma established_rst_steps: "established_rst sg w = Some r \<Longrightarrow> steps w (flow_world r)"
  by (auto simp: established_rst_def split: if_splits tcp_state.splits bind_splits dest!: close_and_wake_steps accept_ack_tstate intro!: arrows_close)

lemma send_new_arrows:
  assumes "send_new sn an f w = Some w'" "(ucast f :: u8) \<noteq> ucast TCPCB_FLAG_SYN"
  shows "steps w w'"
  using next_state_arrows [of "tstate (tsk w)" "ucast f"] assms by (simp add: send_new_tstate)

lemma plain_flags: "(ucast TCPCB_FLAG_ACK :: u8) \<noteq> ucast TCPCB_FLAG_SYN" "(ucast TCPCB_FLAG_RST :: u8) \<noteq> ucast TCPCB_FLAG_SYN"
  "(ucast (TCPCB_FLAG_ACK OR TCPCB_FLAG_RST) :: u8) \<noteq> ucast TCPCB_FLAG_SYN" "(ucast (TCPCB_FLAG_FIN OR TCPCB_FLAG_ACK) :: u8) \<noteq> ucast TCPCB_FLAG_SYN"
  "(ucast (TCPCB_FLAG_ACK OR TCPCB_FLAG_SYN) :: u8) \<noteq> ucast TCPCB_FLAG_SYN"
  by (simp_all add: tcp_flag_defs)

lemmas send_new_steps = plain_flags [THEN send_new_arrows [rotated]]
lemmas arrow_step = arrow.intros [THEN r_into_rtranclp [of arrow]]

lemma established_syn_steps: "established_syn sg w = Some r \<Longrightarrow> steps w (flow_world r)"
  by (auto simp: established_syn_def split: if_splits bind_splits dest!: close_and_wake_steps intro!: arrows_close)

lemma established_ack_steps:
  assumes "established_ack sg wnd n w = Some r" "tstate (tsk w) \<notin> {TCP_CLOSE, TCP_LISTEN}"
  shows "steps w (flow_world r)"
proof -
  have send: "arrow\<^sup>*\<^sup>* (tstate (tsk w)) (tstate (tsk w2))" if "tcp_send_skb a b w1 = Some w2" "tstate (tsk w1) = tstate (tsk w)" for a b w1 w2
    using next_state_arrows [of "tstate (tsk w)"] send_skb_tstate [OF that(1)] that(2) assms(2) by simp
  have cg: "tstate (tcp_calculate_congestion x t) = tstate t" for x t by (simp add: tcp_calculate_congestion_def)
  show ?thesis using assms(1)
    by (auto simp: established_ack_def Let_def cg tcp_flush_tx_def split: if_splits bind_splits list.splits dest!: accept_ack_tstate
        dest: send_new_steps send)
qed

lemma established_ack_state_steps: "established_ack_state sg wnd n w = Some r \<Longrightarrow> steps w (flow_world r)"
  using established_ack_steps [of sg wnd n w r]
  by (cases "tstate (tsk w)") (auto simp: established_ack_state_def split: if_splits intro: arrow_step dest: send_new_steps)

lemma established_fin_acked_steps: "established_fin_acked w = Some r \<Longrightarrow> steps w (flow_world r)"
  by (cases "tstate (tsk w)")
    (auto simp: established_fin_acked_def split: if_splits dest!: close_and_wake_steps dest: send_new_steps intro: arrow_step arrows_close)

lemma established_data_steps: "established_data a n w = Some (b, w') \<Longrightarrow> steps w w'"
  by (auto simp: established_data_def Let_def split: if_splits bind_splits dest: send_new_steps)

lemma established_fin_steps:
  assumes "established_fin b w = Some r"
  shows "steps w (flow_world r)"
proof -
  define t where "t = (case tstate (tsk w) of
                TCP_SYN_RECV \<Rightarrow> (tsk w)\<lparr>tstate := TCP_CLOSE_WAIT\<rparr>
              | TCP_ESTABLISHED \<Rightarrow> (tsk w)\<lparr>tstate := TCP_CLOSE_WAIT\<rparr>
              | TCP_FIN_WAIT1 \<Rightarrow> if tcp_is_fin_acked w then enter_time_wait (clock w) (tsk w) else (tsk w)\<lparr>tstate := TCP_CLOSING\<rparr>
              | TCP_FIN_WAIT2 \<Rightarrow> enter_time_wait (clock w) (tsk w)
              | TCP_TIME_WAIT \<Rightarrow> (tsk w)\<lparr>msl_timer := Some (clock w + MAX_SEGMENT_LIFETIME * 2)\<rparr>
              | _ \<Rightarrow> tsk w)"
  have t: "arrow\<^sup>*\<^sup>* (tstate (tsk w)) (tstate t)"
    by (cases "tstate (tsk w)") (auto simp: t_def enter_time_wait_def intro: arrow_step)
  show ?thesis
    using assms t unfolding established_fin_def t_def [symmetric]
    by (auto simp: Let_def split: if_splits bind_splits dest!: send_new_steps elim: rtranclp_trans)
qed

lemma flow_end_steps: "flow_end r = Some w' \<Longrightarrow> tsk w' = tsk (flow_world r)"
  by (auto simp: flow_end_def split: flow.splits dest: wake_owner_tsk)

lemma handler_established_steps:
  assumes "tcp_handler_established a w = Some w'"
  shows "steps w w'"
proof -
  let ?sg = "segment (skbs w a)"
  obtain n where n: "payload_lenth (skbs w a) = Some n" using assms by (cases "payload_lenth (skbs w a)") (simp_all add: tcp_handler_established_def)
  show ?thesis
  proof (cases "acceptable_segment (tsk w) (seg_seq ?sg) n")
    case True
    let ?ack = "\<lambda>w1. if \<not> seg_acked ?sg then Some (Return w1) else established_ack_state ?sg (seg_wnd (tsk w) ?sg) n w1"
    let ?data = "\<lambda>w1. do {
                (is_sent_ack, w2) \<leftarrow> established_data a n w1;
                if seg_fin ?sg then established_fin is_sent_ack w2 else Some (Continue w2)
              }"
    obtain r where r: "and_then (and_then (and_then (and_then (established_rst ?sg w) (established_syn ?sg)) ?ack) established_fin_acked) ?data = Some r"
      "flow_end r = Some w'"
      using assms True n by (auto simp: tcp_handler_established_def Let_def split: bind_splits)
    have ack: "?ack w1 = Some y \<Longrightarrow> steps w1 (flow_world y)" for w1 y using established_ack_state_steps by (auto split: if_splits)
    have data: "?data w1 = Some y \<Longrightarrow> steps w1 (flow_world y)" for w1 y
      by (auto split: bind_splits if_splits dest!: established_data_steps established_fin_steps elim: rtranclp_trans)
    have "steps w (flow_world r)"
      using r(1) by (rule and_then_steps) (erule and_then_steps established_rst_steps established_syn_steps ack established_fin_acked_steps data)+
    then show ?thesis using flow_end_steps [OF r(2)] by simp
  next
    case False
    then show ?thesis using assms n
      by (auto simp: tcp_handler_established_def split: if_splits bind_splits dest!: wake_owner_tsk dest: send_new_steps)
  qed
qed

lemma handler_sync_steps:
  assumes "tcp_handler_sync a w = Some w'" "tstate (tsk w) = TCP_SYN_SENT"
  shows "steps w w'"
proof -
  have close: "tstate (tcp_delete_tcb (tcp_enter_close_state t)) = TCP_CLOSE" for t by (simp add: tcp_delete_tcb_def tcp_enter_close_state_def)
  show ?thesis using assms unfolding tcp_handler_sync_def Let_def
    by (auto simp: close split: if_splits bind_splits dest!: wake_owner_tsk accept_ack_tstate dest: send_new_steps intro: arrow_step)
qed

lemma handler_close_steps: "tcp_handler_close a w = Some w' \<Longrightarrow> steps w w'"
  by (auto simp: tcp_handler_close_def Let_def split: if_splits bind_splits dest: send_new_steps)

lemma dispatch_steps: "tcp_dispatch a w = Some w' \<Longrightarrow> steps w w'"
  by (auto simp: tcp_dispatch_def split: tcp_state.splits dest!: handler_established_steps handler_close_steps handler_sync_steps)

text \<open>A timer sends the first segment of the queue again. When that segment is a SYN and the connection is closed, the sending opens
  the connection once more.\<close>

definition reopens :: "tcp_world \<Rightarrow> tcp_world \<Rightarrow> bool" where
  "reopens w w' \<longleftrightarrow> tstate (tsk w) \<in> {TCP_CLOSE, TCP_LISTEN} \<and> tstate (tsk w') = TCP_SYN_SENT \<and>
     (\<exists>a q. tx_queue (tsk w) = a # q \<and> (ucast (cb_flags (skbs w a)) :: u8) = ucast TCPCB_FLAG_SYN)"

lemma resend_steps:
  assumes "tx_queue (tsk w) = a # q" "tstate t = tcp_next_state (tstate (tsk w)) (ucast (cb_flags (skbs w a)))" "tsk w' = t"
  shows "steps w w' \<or> reopens w w'"
proof (cases "tstate (tsk w) \<in> {TCP_CLOSE, TCP_LISTEN} \<and> (ucast (cb_flags (skbs w a)) :: u8) = ucast TCPCB_FLAG_SYN")
  case True
  then show ?thesis using assms by (auto simp: reopens_def tcp_next_state_def)
next
  case False
  then show ?thesis using assms next_state_arrows [of "tstate (tsk w)" "ucast (cb_flags (skbs w a))"] by auto
qed

lemma retransmit_timer_tstate:
  "tcp_retransmit_timer w = Some w' \<Longrightarrow> tx_queue (tsk w) = a # q \<Longrightarrow>
   tstate (tsk w') = tcp_next_state (tstate (tsk w)) (ucast (cb_flags (skbs w a)))"
  by (auto simp: tcp_retransmit_timer_def Let_def split: if_splits bind_splits dest!: send_skb_tstate)

lemma retransmit_timer_steps:
  assumes "tcp_retransmit_timer w = Some w'"
  shows "steps w w' \<or> reopens w w'"
proof -
  obtain a q where q: "tx_queue (tsk w) = a # q" using assms by (auto simp: tcp_retransmit_timer_def split: list.splits)
  with retransmit_timer_tstate [OF assms q] show ?thesis by (intro resend_steps) simp_all
qed

lemma retransmit_timer_returns:
  assumes q: "tx_queue (tsk w) = a # q" and pl: "payload_lenth (skbs w a) = Some n"
    and rtt: "rtt_time (tsk w) = 0 \<or> rtt_end_seq (tsk w) = cb_end_seq (skbs w a)"
  shows "\<exists>w'. tcp_retransmit_timer w = Some w'"
proof -
  let ?w = "w\<lparr>tsk := (tsk w)\<lparr>rto := rto (tsk w) * 2, retransmit_timer := Some (clock w + ucast (rto (tsk w) * 2))\<rparr>\<rparr>"
  have "\<exists>w2. tcp_send_skb a True ?w = Some w2 \<and> (rtt_time (tsk w2) = 0 \<or> rtt_end_seq (tsk w2) = cb_end_seq (skbs w2 a))"
    using pl rtt by (simp add: tcp_send_skb_def tcp_state_transition_def Let_def)
  then obtain w2 where "tcp_send_skb a True ?w = Some w2" "rtt_time (tsk w2) = 0 \<or> rtt_end_seq (tsk w2) = cb_end_seq (skbs w2 a)" by blast
  then show ?thesis using q by (auto simp: tcp_retransmit_timer_def Let_def)
qed

lemma persist_timer_steps:
  assumes "tcp_persist_timer w = Some w'"
  shows "steps w w' \<or> reopens w w'"
proof (cases "snd_wnd (tsk w) = 0")
  case True
  obtain a q where q: "tx_queue (tsk w) = a # q" using assms True by (auto simp: tcp_persist_timer_def Let_def split: list.splits)
  then have "tstate (tsk w') = tcp_next_state (tstate (tsk w)) (ucast (cb_flags (skbs w a)))"
    using assms True by (auto simp: tcp_persist_timer_def Let_def split: if_splits dest!: send_skb_tstate)
  with q show ?thesis by (rule resend_steps) simp
next
  case False
  then show ?thesis using assms by (auto simp: tcp_persist_timer_def)
qed

lemma msl_timer_closes: "tcp_msl_timer w = Some w' \<Longrightarrow> tstate (tsk w) \<in> {TCP_TIME_WAIT, TCP_LAST_ACK} \<and> tstate (tsk w') = TCP_CLOSE"
  by (auto simp: tcp_msl_timer_def tcp_delete_tcb_def Let_def split: if_splits dest!: wake_owner_tsk)

text \<open>The FIN that answers a FIN is sent at once, outside the queue, and starts the timer of retransmission. Should the timer fire, it
  finds no segment to send again and its assertion fails.\<close>

lemma send_new_fin:
  assumes "flags AND TCPCB_FLAG_FIN \<noteq> 0"
  shows "\<exists>w'. send_new sn an flags w = Some w' \<and> retransmit_timer (tsk w') \<noteq> None \<and> tx_queue (tsk w') = tx_queue (tsk w) \<and> nsched w' = nsched w"
proof -
  have t: "tx_queue (tcp_state_transition f t) = tx_queue t" for f t by (simp add: tcp_state_transition_def Let_def)
  have p: "payload_lenth (new_skb t sn an flags [] []) = Some 0" "seg_fin (segment (new_skb t sn an flags [] []))" for t
    using assms by (simp_all add: payload_lenth_def new_skb_def made_segment_def)
  show ?thesis by (simp add: send_new_def tcp_create_skb_eq tcp_send_skb_def p t Let_def)
qed

lemma lost_fin_asserts:
  assumes w: "tstate (tsk w) = TCP_ESTABLISHED" "tx_queue (tsk w) = []" "retransmit_timer (tsk w) = None" "snd_una (tsk w) = snd_nxt (tsk w)"
      "flight_size (tsk w) = 0" "rcv_wnd (tsk w) \<noteq> 0" "unat (rcv_nxt (tsk w)) + unat (rcv_wnd (tsk w)) < 4294967296" and ok: "sched_ok (nsched w) Q"
    and sg: "seg_seq sg = rcv_nxt (tsk w)" "seg_ack sg = snd_una (tsk w)" "seg_wnd (tsk w) sg = snd_wnd (tsk w)" "seg_data sg = Some []"
      "seg_fin sg" "seg_acked sg" "\<not> seg_rst sg" "\<not> seg_syn sg" "\<not> seg_push sg"
  obtains w' where "deliver [sg] w = Some w'" "tstate (tsk w') = TCP_LAST_ACK" "retransmit_timer (tsk w') \<noteq> None" "tcp_retransmit_timer w' = None"
proof -
  obtain b w1 where bw: "receive_skb sg w = (b, w1)" by fastforce
  then have b: "segment (skbs w1 b) = sg" "tsk w1 = tsk w" "nsched w1 = nsched w" by (auto simp: receive_skb_def)
  have acc: "acceptable_segment (tsk w) (seg_seq sg) 0" using w(6,7) sg(1) by (simp add: acceptable_in_order)
  have pl: "payload_lenth (skbs w1 b) = Some 0" using sg(4) b(1) by (simp add: payload_lenth_def)
  have ack: "established_ack_state sg (seg_wnd (tsk w) sg) 0 w1 = Some (Continue w1)"
    using w sg b(2) by (simp add: established_ack_state_def established_ack_def Let_def)
  let ?w2 = "upd_tsk (\<lambda>t. t\<lparr>rcv_nxt := rcv_nxt t + 1\<rparr>) (upd_tsk (\<lambda>t. t\<lparr>tstate := TCP_CLOSE_WAIT\<rparr>) w1)"
  have fl: "tcp_next_state TCP_CLOSE_WAIT (ucast (TCPCB_FLAG_FIN OR TCPCB_FLAG_ACK)) = TCP_LAST_ACK" by (simp add: tcp_next_state_def tcp_flag_defs)
  have fins: "(TCPCB_FLAG_FIN OR TCPCB_FLAG_ACK) AND TCPCB_FLAG_FIN \<noteq> 0" by (simp add: tcp_flag_defs)
  from send_new_fin [OF fins, of "snd_nxt (tsk ?w2)" "rcv_nxt (tsk ?w2)" ?w2] obtain w3 where
    s3: "send_new (snd_nxt (tsk ?w2)) (rcv_nxt (tsk ?w2)) (TCPCB_FLAG_FIN OR TCPCB_FLAG_ACK) ?w2 = Some w3"
      "retransmit_timer (tsk w3) \<noteq> None" "tx_queue (tsk w3) = tx_queue (tsk ?w2)" "nsched w3 = nsched ?w2" by blast
  have w3: "tstate (tsk w3) = TCP_LAST_ACK" "retransmit_timer (tsk w3) \<noteq> None" "tx_queue (tsk w3) = []" "nsched w3 = nsched w"
    using send_new_tstate [OF s3(1)] fl s3(2-4) w(2) b(2,3) by simp_all
  have fin: "established_fin False w1 = Some (Continue w3)" using s3(1) w(1) b(2) by (simp add: established_fin_def Let_def)
  have "established_data b 0 w1 = Some (False, w1)" using sg(9) b by (simp add: established_data_def)
  then have h: "tcp_handler_established b w1 = wake_owner w3"
    using pl acc ack fin sg b(1,2) w(1)
    by (simp add: tcp_handler_established_def and_then_def flow_end_def established_rst_def established_syn_def established_fin_acked_def)
  have "sched_ok (nsched w3) Q" using ok w3(4) by simp
  then obtain s' Q' where s': "wake_owner w3 = Some (w3\<lparr>nsched := s'\<rparr>)" by (rule wake_owner_ok)
  show ?thesis
    by (rule that [of "w3\<lparr>nsched := s'\<rparr>"]) (use bw b(2) w(1) h s' w3 in \<open>simp_all add: tcp_dispatch_def tcp_retransmit_timer_def\<close>)
qed

text \<open>A connection that has sent its SYN and receives an acknowledgement of something else sends a reset and is closed, but the SYN
  stays in the queue and the timer stays armed. When the timer fires, the SYN is sent again and the closed connection is opening.\<close>

lemma closed_reopens:
  assumes w: "syn_sent iss a w" "cb_flags (skbs w a) = TCPCB_FLAG_SYN" "seg_data (segment (skbs w a)) \<noteq> None" and ok: "sched_ok (nsched w) Q"
    and rtt: "rtt_time (tsk w) = 0 \<or> rtt_end_seq (tsk w) = iss" and rt: "retransmit_timer (tsk w) \<noteq> None"
    and sg: "seg_acked sg" "\<not> seg_rst sg" "seg_ack sg \<le> iss \<or> seg_ack sg > iss + 1"
  obtains w1 w2 where "deliver [sg] w = Some w1" "tstate (tsk w1) = TCP_CLOSE" "tx_queue (tsk w1) = [a]" "retransmit_timer (tsk w1) \<noteq> None"
    "tcp_retransmit_timer w1 = Some w2" "tstate (tsk w2) = TCP_SYN_SENT"
proof -
  note ss = w(1) [unfolded syn_sent_def]
  obtain b v where bv: "receive_skb sg w = (b, v)" by fastforce
  then have b: "segment (skbs v b) = sg" "tsk v = tsk w" "nsched v = nsched w" "skbs v a = skbs w a" "a < next_skb v"
    using ss by (auto simp: receive_skb_def)
  let ?t = "tcp_state_transition (ucast TCPCB_FLAG_RST) (tsk v)"
  have t: "?t = (tsk w)\<lparr>tstate := TCP_CLOSE\<rparr>" using ss b(2) by (simp add: tcp_state_transition_def tcp_next_state_def tcp_flag_defs Let_def)
  have "TCPCB_FLAG_RST AND TCPCB_FLAG_SYN = 0" "TCPCB_FLAG_RST AND TCPCB_FLAG_FIN = 0" by (simp_all add: tcp_flag_defs)
  from send_new_empty [OF this, of "seg_ack sg" 0 v] obtain r sk where
    n: "send_new (seg_ack sg) 0 TCPCB_FLAG_RST v = Some (v\<lparr>tsk := ?t, rseed := r, next_skb := Suc (next_skb v), skbs := (skbs v)(next_skb v := sk),
      wire := wire v @ [made_segment (ssin (tsk v)) (dsin (tsk v)) (seg_ack sg) 0 TCPCB_FLAG_RST (ucast (rcv_wnd (tsk v))) [] []]\<rparr>)" (is "_ = Some ?v") .
  have "sched_ok (nsched ?v) Q" using ok b(3) by simp
  then obtain s' Q' where s': "wake_owner ?v = Some (?v\<lparr>nsched := s'\<rparr>)" by (rule wake_owner_ok)
  let ?w1 = "?v\<lparr>nsched := s'\<rparr>"
  have d: "deliver [sg] w = Some ?w1" using bv b(1,2) ss sg n s' by (simp add: tcp_dispatch_def tcp_handler_sync_def)
  have t1: "tsk ?w1 = (tsk w)\<lparr>tstate := TCP_CLOSE\<rparr>" "skbs ?w1 a = skbs w a" using t b(4,5) by simp_all
  obtain pl where "payload_lenth (skbs ?w1 a) = Some pl" using w(3) t1(2) by (auto simp: payload_lenth_def)
  moreover have q1: "tx_queue (tsk ?w1) = [a]" and "rtt_time (tsk ?w1) = 0 \<or> rtt_end_seq (tsk ?w1) = cb_end_seq (skbs ?w1 a)"
    unfolding t1 using ss rtt by auto
  ultimately obtain w2 where w2: "tcp_retransmit_timer ?w1 = Some w2" using retransmit_timer_returns by blast
  have "tstate (tsk w2) = tcp_next_state TCP_CLOSE (ucast TCPCB_FLAG_SYN)"
    using retransmit_timer_tstate [OF w2 q1] unfolding t1 using w(2) by simp
  then have "tstate (tsk w2) = TCP_SYN_SENT" by (simp add: tcp_next_state_def)
  with d w2 show ?thesis using ss rt t1(1) by (intro that [of ?w1 w2]) simp_all
qed

text \<open>C15: whatever segment arrives, the state of a connection moves along the arrows of the diagram, so it never goes back: it stays or
  rises in the order \<open>level\<close>, and a segment does not open a closed connection. A timer that sends again moves it along the arrows as
  well, with one exception: in a closed (or listening) connection whose queue begins with a SYN, the SYN is sent and the connection is
  opening again. The timer of the final waiting time closes a connection, and only from the two states that use it.\<close>

theorem tcp_state_changes:
  "(tcp_dispatch a w = Some w' \<longrightarrow> steps w w') \<and>
   (tcp_retransmit_timer w = Some w' \<or> tcp_persist_timer w = Some w' \<longrightarrow> steps w w' \<or> reopens w w') \<and>
   (tcp_msl_timer w = Some w' \<longrightarrow> tstate (tsk w) \<in> {TCP_TIME_WAIT, TCP_LAST_ACK} \<and> tstate (tsk w') = TCP_CLOSE) \<and>
   (steps w w' \<longrightarrow> tstate (tsk w') = tstate (tsk w) \<or> level (tstate (tsk w)) < level (tstate (tsk w'))) \<and>
   (steps w w' \<and> tstate (tsk w) = TCP_CLOSE \<longrightarrow> tstate (tsk w') = TCP_CLOSE)"
  using dispatch_steps [of a w w'] retransmit_timer_steps [of w w'] persist_timer_steps [of w w'] msl_timer_closes [of w w']
    arrows_level [of "tstate (tsk w)" "tstate (tsk w')"] closed_stays [of "tstate (tsk w')"]
  by auto

theorem tcp_state_changes_witness:
  "\<exists>w'. tcp_dispatch 0 (world_example (sock_example 10 20)\<lparr>skbs := (\<lambda>_. new_skb (sock_example 20 10) 20 10 TCPCB_FLAG_RST [] [])\<rparr>) = Some w' \<and>
     tstate (tsk w') = TCP_CLOSE \<and> arrow\<^sup>*\<^sup>* TCP_ESTABLISHED (tstate (tsk w'))"
proof -
  let ?w = "world_example (sock_example 10 20)\<lparr>skbs := (\<lambda>_. new_skb (sock_example 20 10) 20 10 TCPCB_FLAG_RST [] [])\<rparr>"
  let ?sg = "segment (skbs ?w 0)"
  let ?w1 = "upd_tsk (\<lambda>t. tcp_enter_close_state (tcp_flush_rx (tcp_flush_tx t))) ?w"
  have t: "tsk ?w = sock_example 10 20" by (simp add: world_example_def)
  have st: "tstate (tsk ?w) = TCP_ESTABLISHED" "acceptable_segment (tsk ?w) 20 0" unfolding t by (simp_all add: sock_example_def acceptable_segment_def)
  have sg: "seg_rst ?sg" "seg_seq ?sg = 20" "payload_lenth (skbs ?w 0) = Some 0"
    by (simp_all add: new_skb_def made_segment_def payload_lenth_def tcp_flag_defs)
  have "sched_ok (nsched ?w1) ((\<lambda>_. [])(app_ready_list := [1, 2]))" using world_example_sched by simp
  then obtain s' Q' where s': "wake_owner ?w1 = Some (?w1\<lparr>nsched := s'\<rparr>)" by (rule wake_owner_ok)
  then have "established_rst ?sg ?w = Some (Return (?w1\<lparr>nsched := s'\<rparr>))"
    using st(1) sg(1) by (simp add: established_rst_def close_and_wake_def)
  then have d: "tcp_dispatch 0 ?w = Some (?w1\<lparr>nsched := s'\<rparr>)"
    using st sg by (simp add: tcp_dispatch_def tcp_handler_established_def and_then_def flow_end_def)
  moreover have "tstate (tsk (?w1\<lparr>nsched := s'\<rparr>)) = TCP_CLOSE" by (simp add: tcp_enter_close_state_def)
  ultimately show ?thesis using tcp_state_changes [of 0 ?w "?w1\<lparr>nsched := s'\<rparr>"] st(1) by auto
qed

end
