(* ===== verification/Net_Sockets.thy ===== *)
theory Net_Sockets
  imports Tcp
begin

text \<open>
  The sockets other than TCP: UDP (\<open>net/udp.c\<close>), raw (\<open>net/raw.c\<close>) and packet sockets (\<open>net/af_packet.c\<close>); the answers of the
  kernel itself to ICMP and ARP (\<open>net/icmp.c\<close>, \<open>net/arp.c\<close>, \<open>net/neighbour.c\<close>); and the receive loop of \<open>net/net.c\<close>.

  A packet is a buffer together with the memory as its owner sees it: every buffer has a block of its own from \<open>kcalloc\<close>, and
  the blocks do not overlap (\<open>Malloc\<close>). \<open>packet_addr\<close> gives the address of the n-th block, and \<open>pool\<close> what lies around it. Sockets
  have numbers; \<open>fd_files\<close> gives for every process what its 256 descriptors refer to. \<open>sent\<close> collects the frames given to the
  network card. The scheduler, the clock, the random numbers and the buffers of TCP are those of \<open>Tcp\<close>. A call that has to wait
  ends with the place where it waits.
\<close>

unbundle bit_operations_syntax

section \<open>Data\<close>

record packet =
  pk_skb :: sk_buff
  pk_mem :: mem

datatype socket_type = SOCK_STREAM | SOCK_DGRAM | SOCK_RAW
datatype proto_ops = tcp_proto_ops | udp_proto_ops | raw_proto_ops | packet_proto_ops

text \<open>\<open>struct socket\<close> with \<open>struct sock\<close> behind it, and the parts of \<open>inet_sock\<close>, \<open>packet_sock\<close> and \<open>tcp_sock\<close>.\<close>

record socket =
  sk_protocol :: u16
  sk_type :: socket_type
  sk_state :: socket_state
  sk_ops :: "proto_ops option"
  sk_owner :: nat
  sk_rx_queue :: "packet list"
  sk_ssin :: sockaddr_in
  sk_dsin :: sockaddr_in
  sk_sll_addr :: "u8 list"
  sk_tcp :: "tcp_sock option"

record net_device =
  dev_state :: u32
  dev_addr :: "u8 list"
  broadcast_addr :: "u8 list"
  zero_addr :: "u8 list"
  router_addr :: "u8 list"
  dns_server_ip :: u32
  local_ip :: u32
  subnet_mask :: u32

record neighbour =
  nb_ha :: "u8 list"
  nb_ip :: u32
  nud_state :: u8
  nb_dev :: net_device

text \<open>What a descriptor refers to: a file of \<open>sockfs\<close> with its socket, or any other file.\<close>

datatype net_file = Socket_file nat | Other_file

record net_world =
  sockets :: "nat \<Rightarrow> socket"
  next_socket :: nat
  lsocket :: "nat list"
  lrx_skb :: "packet list"
  lneighbour :: "neighbour list"
  current_netdev :: net_device
  net_thread :: nat
  sent :: "u8 list list"
  packet_addr :: "nat \<Rightarrow> u32"
  npackets :: nat
  pool :: mem
  fd_files :: "nat \<Rightarrow> nat \<Rightarrow> net_file option"
  base :: tcp_world

abbreviation upd_sock :: "nat \<Rightarrow> (socket \<Rightarrow> socket) \<Rightarrow> net_world \<Rightarrow> net_world" where
  "upd_sock i f w \<equiv> w\<lparr>sockets := (sockets w)(i := f (sockets w i))\<rparr>"

definition ETH_P_ALL :: u16 where "ETH_P_ALL = 0x0003"
definition NETDEV_STATE_OFF :: u32 where "NETDEV_STATE_OFF = 1"
definition NETDEV_STATE_UP :: u32 where "NETDEV_STATE_UP = 2"
definition NETDEV_STATE_CONNECTED :: u32 where "NETDEV_STATE_CONNECTED = 4"
definition NUD_REACHABLE :: u8 where "NUD_REACHABLE = 2"
definition PF_INET :: int where "PF_INET = 2"
definition PF_PACKET :: int where "PF_PACKET = 17"
definition SIOCGIFADDR :: u32 where "SIOCGIFADDR = 0x8915"
definition SIOCGIFDNSADDR :: u32 where "SIOCGIFDNSADDR = 0x8900"

section \<open>Common parts\<close>

definition wake :: "nat \<Rightarrow> thread_state \<Rightarrow> net_world \<Rightarrow> net_world option" where
  "wake t st w = map_option (\<lambda>s. w\<lparr>base := (base w)\<lparr>nsched := s\<rparr>\<rparr>) (update_thread t st (nsched (base w)))"

definition alloc_packet :: "u32 \<Rightarrow> u32 \<Rightarrow> net_world \<Rightarrow> packet \<times> net_world" where
  "alloc_packet header_size payload_size w =
     (let (skb, m) = skb_alloc header_size payload_size (packet_addr w (npackets w)) (pool w)
      in (\<lparr>pk_skb = skb, pk_mem = m\<rparr>, w\<lparr>npackets := Suc (npackets w)\<rparr>))"

definition clone_packet :: "packet \<Rightarrow> net_world \<Rightarrow> packet \<times> net_world" where
  "clone_packet p w =
     (let (skb, m) = skb_clone (pk_skb p) (packet_addr w (npackets w)) (pk_mem p)
      in (\<lparr>pk_skb = skb, pk_mem = m\<rparr>, w\<lparr>npackets := Suc (npackets w)\<rparr>))"

definition ethernet_sendmsg :: "packet \<Rightarrow> net_world \<Rightarrow> net_world" where
  "ethernet_sendmsg p w = w\<lparr>sent := sent w @ [get_bytes (pk_mem p) (skb_mac (pk_skb p)) (unat (skb_len (pk_skb p)))]\<rparr>"

definition push_rx_queue :: "u8 list \<Rightarrow> net_world \<Rightarrow> net_world" where
  "push_rx_queue data w =
     (let n = of_nat (length data);
          (p, w1) = alloc_packet 0 n w;
          skb = skb_put n (pk_skb p)
      in w1\<lparr>lrx_skb := lrx_skb w1 @ [\<lparr>pk_skb = skb, pk_mem = write_bytes data (skb_data skb) (pk_mem p)\<rparr>]\<rparr>)"

text \<open>A new socket is zeroed memory, but for its device, its owner and its empty queues. \<open>None\<close> is the
  zeroed control block of a TCP socket that was never connected.\<close>

definition sock_setup :: "nat \<Rightarrow> net_world \<Rightarrow> net_world" where
  "sock_setup i w =
     upd_sock i (\<lambda>s. s\<lparr>sk_owner := current_thread (nsched (base w)), sk_rx_queue := [], sk_ssin := \<lparr>sin_port = 0, sin_addr = 0\<rparr>,
       sk_dsin := \<lparr>sin_port = 0, sin_addr = 0\<rparr>, sk_sll_addr := replicate 6 0, sk_tcp := None\<rparr>) w"

definition socket_setup :: "int \<Rightarrow> socket_type \<Rightarrow> u16 \<Rightarrow> nat \<Rightarrow> net_world \<Rightarrow> net_world" where
  "socket_setup family type protocal i w =
     (let sops = (if family = PF_INET then
                    Some (case type of SOCK_STREAM \<Rightarrow> tcp_proto_ops | SOCK_DGRAM \<Rightarrow> udp_proto_ops | SOCK_RAW \<Rightarrow> raw_proto_ops)
                  else if family = PF_PACKET then Some packet_proto_ops
                  else None);
          w1 = upd_sock i (\<lambda>s. s\<lparr>sk_protocol := protocal, sk_type := type, sk_state := SS_UNCONNECTED, sk_ops := sops\<rparr>) w;
          w2 = w1\<lparr>lsocket := lsocket w1 @ [i]\<rparr>
      in sock_setup i w2)"

text \<open>The descriptor that \<open>find_unused_fd_slot\<close> finds.\<close>

definition unused_fd :: "(nat \<Rightarrow> net_file option) \<Rightarrow> nat option" where
  "unused_fd fds = find (\<lambda>i. fds i = None) [0..<256]"

abbreviation net_process :: "net_world \<Rightarrow> nat" where
  "net_process w \<equiv> current_process (nsched (base w))"

text \<open>A new file of \<open>sockfs\<close> is opened, with a new socket behind it. When all descriptors are in use \<open>vfs_open\<close> goes on with
  \<open>-EINVAL\<close> and writes the file in front of the table.\<close>

definition sys_socket :: "int \<Rightarrow> socket_type \<Rightarrow> u16 \<Rightarrow> net_world \<Rightarrow> (nat \<times> net_world) option" where
  "sys_socket family type protocal w =
     (case unused_fd (fd_files w (net_process w)) of
        None \<Rightarrow> None
      | Some fd \<Rightarrow>
          let i = next_socket w;
              fds = (fd_files w (net_process w))(fd \<mapsto> Socket_file i);
              w1 = w\<lparr>next_socket := Suc i, fd_files := (fd_files w)(net_process w := fds)\<rparr>
          in Some (fd, socket_setup family type protocal i w1))"

definition sockfd_lookup :: "nat \<Rightarrow> net_world \<Rightarrow> nat option" where
  "sockfd_lookup sockfd w = (case fd_files w (net_process w) sockfd of Some (Socket_file i) \<Rightarrow> Some i | _ \<Rightarrow> None)"

definition socket_shutdown :: "nat \<Rightarrow> net_world \<Rightarrow> net_world" where
  "socket_shutdown i w =
     (let w1 = upd_sock i (\<lambda>s. s\<lparr>sk_state := SS_DISCONNECTED\<rparr>) w
      in w1\<lparr>lsocket := removeAll i (lsocket w1)\<rparr>)"

definition is_broadcast_mac_address :: "u8 list \<Rightarrow> net_world \<Rightarrow> bool" where
  "is_broadcast_mac_address maddr w = (broadcast_addr (current_netdev w) = maddr \<or> zero_addr (current_netdev w) = maddr)"

text \<open>The address that \<open>ifr\<close> holds afterwards.\<close>

definition inet_ioctl :: "u32 \<Rightarrow> u32 \<Rightarrow> net_world \<Rightarrow> int \<times> u32" where
  "inet_ioctl cmd ifr_addr w =
     (0, if cmd = SIOCGIFADDR then local_ip (current_netdev w)
         else if cmd = SIOCGIFDNSADDR then dns_server_ip (current_netdev w)
         else ifr_addr)"

text \<open>What a receiving call gives back: the return value and the bytes, or the thread waits.\<close>

datatype recv_result = Got int "u8 list" | Asleep

definition wait_for_packet ::
    "(sched \<Rightarrow> sched option) \<Rightarrow> (sched \<Rightarrow> sched option) list \<Rightarrow> nat \<Rightarrow> net_world \<Rightarrow> (recv_result \<times> net_world) option" where
  "wait_for_packet hs irqs i w =
     do {
       w1 \<leftarrow> wake (sk_owner (sockets w i)) THREAD_WAITING w;
       s \<leftarrow> schedule hs irqs (nsched (base w1));
       Some (Asleep, w1\<lparr>base := (base w1)\<lparr>nsched := s\<rparr>\<rparr>)
     }"

section \<open>Packet sockets\<close>

definition packet_connect :: "nat \<Rightarrow> u8 list \<Rightarrow> net_world \<Rightarrow> net_world" where
  "packet_connect i addr w = upd_sock i (\<lambda>s. s\<lparr>sk_sll_addr := addr\<rparr>) w"

definition packet_sendmsg :: "nat \<Rightarrow> u8 list \<Rightarrow> net_world \<Rightarrow> int \<times> net_world" where
  "packet_sendmsg i msg w =
     (let sock = sockets w i
      in if sk_state sock = SS_DISCONNECTED then (- ESHUTDOWN, w)
         else
           let msg_len = of_nat (length msg);
               (p, w1) = alloc_packet ETH_SIZE msg_len w;
               skb1 = skb_put msg_len (pk_skb p);
               m1 = write_bytes msg (skb_data skb1) (pk_mem p);
               p2 = (if sk_type sock \<noteq> SOCK_RAW then
                       let skb2 = skb_push ETH_SIZE skb1;
                           skb3 = skb2\<lparr>skb_mac := skb_data skb2\<rparr>
                       in \<lparr>pk_skb = skb3, pk_mem = ethernet_build_header (skb_mac skb3) (sk_protocol sock) (dev_addr (current_netdev w1)) (sk_sll_addr sock) m1\<rparr>
                     else \<lparr>pk_skb = skb1\<lparr>skb_mac := skb_data skb1\<rparr>, pk_mem = m1\<rparr>)
           in (0, ethernet_sendmsg p2 w1))"

definition packet_recv :: "nat \<Rightarrow> u32 \<Rightarrow> net_world \<Rightarrow> (recv_result \<times> net_world) option" where
  "packet_recv i msg_len w =
     (case sk_rx_queue (sockets w i) of
        [] \<Rightarrow> None
      | p # q \<Rightarrow>
          let w1 = upd_sock i (\<lambda>s. s\<lparr>sk_rx_queue := q\<rparr>) w;
              (skb, buff) = (if sk_type (sockets w i) \<noteq> SOCK_RAW then (skb_pull ETH_SIZE (pk_skb p), skb_mac (pk_skb p) + ETH_SIZE)
                             else (pk_skb p, skb_mac (pk_skb p)));
              payload_len = min msg_len (skb_len skb)
          in Some (Got (sint payload_len) (get_bytes (pk_mem p) buff (unat payload_len)), w1))"

definition packet_recvmsg ::
    "(sched \<Rightarrow> sched option) \<Rightarrow> (sched \<Rightarrow> sched option) list \<Rightarrow> nat \<Rightarrow> u32 \<Rightarrow> net_world \<Rightarrow> (recv_result \<times> net_world) option" where
  "packet_recvmsg hs irqs i msg_len w =
     (if sk_state (sockets w i) = SS_DISCONNECTED then Some (Got (- ESHUTDOWN) [], w)
      else if sk_rx_queue (sockets w i) = [] then wait_for_packet hs irqs i w
      else packet_recv i msg_len w)"

definition enqueue_packet :: "nat \<Rightarrow> packet \<Rightarrow> net_world \<Rightarrow> (int \<times> net_world) option" where
  "enqueue_packet i p w =
     map_option (Pair 0) (wake (sk_owner (sockets w i)) THREAD_READY (upd_sock i (\<lambda>s. s\<lparr>sk_rx_queue := sk_rx_queue s @ [p]\<rparr>) w))"

definition packet_handler :: "nat \<Rightarrow> packet \<Rightarrow> net_world \<Rightarrow> (int \<times> net_world) option" where
  "packet_handler i p w =
     (let sock = sockets w i; eh = skb_data (pk_skb p)
      in if sk_state sock = SS_DISCONNECTED then Some (- ESHUTDOWN, w)
         else if ld16 (pk_mem p) (eh + 12) \<noteq> htons (sk_protocol sock) \<and> sk_protocol sock \<noteq> ETH_P_ALL then Some (- EPROTO, w)
         else enqueue_packet i (p\<lparr>pk_skb := (pk_skb p)\<lparr>skb_mac := eh\<rparr>\<rparr>) w)"

section \<open>ARP and the neighbours\<close>

definition ARP_SIZE :: u32 where "ARP_SIZE = 28"
definition ARP_ETHERNET :: u16 where "ARP_ETHERNET = 1"
definition ARP_REQUEST :: u16 where "ARP_REQUEST = 1"
definition ARP_REPLY :: u16 where "ARP_REPLY = 2"

definition arp_validate_packet :: "u32 \<Rightarrow> mem \<Rightarrow> int" where
  "arp_validate_packet ap m =
     (if ld16 m ap \<noteq> htons ARP_ETHERNET \<or> ld16 m (ap + 2) \<noteq> htons ETH_P_IP \<or> m (ap + 4) \<noteq> 6 \<or> m (ap + 5) \<noteq> 4 then - EPROTO else 0)"

text \<open>The packet that is built in zeroed memory.\<close>

definition arp_create_packet :: "u8 list \<Rightarrow> u32 \<Rightarrow> u8 list \<Rightarrow> u32 \<Rightarrow> u16 \<Rightarrow> u8 list" where
  "arp_create_packet source_mac source_ip dest_mac dest_ip op' =
     (let m1 = st16 0 (htons ARP_ETHERNET) (\<lambda>_. 0);
          m2 = st16 2 (htons ETH_P_IP) m1;
          m3 = m2(4 := 6);
          m4 = m3(5 := 4);
          m5 = st16 6 (htons op') m4;
          m6 = write_bytes source_mac 8 m5;
          m7 = st32 14 (htonl source_ip) m6;
          m8 = write_bytes dest_mac 18 m7;
          m9 = st32 24 (htonl dest_ip) m8
      in get_bytes m9 0 (unat ARP_SIZE))"

definition arp_rcv :: "packet \<Rightarrow> int \<times> packet" where
  "arp_rcv p =
     (let ap = skb_data (pk_skb p);
          ret = arp_validate_packet ap (pk_mem p)
      in if ret < 0 then (ret, p) else (0, p\<lparr>pk_skb := (pk_skb p)\<lparr>skb_nh := ap\<rparr>\<rparr>))"

definition arp_send :: "u8 list \<Rightarrow> u32 \<Rightarrow> u8 list \<Rightarrow> u32 \<Rightarrow> u16 \<Rightarrow> net_world \<Rightarrow> (int \<times> net_world) option" where
  "arp_send source_mac source_ip dest_mac dest_ip type w =
     do {
       (sockfd, w1) \<leftarrow> sys_socket PF_PACKET SOCK_DGRAM ETH_P_ARP w;
       i \<leftarrow> sockfd_lookup sockfd w1;
       Some
         (if dev_state (current_netdev w1) AND NETDEV_STATE_OFF \<noteq> 0 then (- EBUSY, w1)
          else
            let w2 = packet_connect i dest_mac w1;
                sarp = arp_create_packet source_mac source_ip dest_mac dest_ip type;
                (ret, w3) = packet_sendmsg i sarp w2
            in (0, socket_shutdown i w3))
     }"

text \<open>The address that is returned is the one of the own device, not that of the neighbour.\<close>

primrec get_mac_addr_from_ip :: "u32 \<Rightarrow> neighbour list \<Rightarrow> u8 list option" where
  "get_mac_addr_from_ip ip [] = None"
| "get_mac_addr_from_ip ip (nb # nbs) =
     (if nb_ip nb = ip \<and> nud_state nb AND NUD_REACHABLE \<noteq> 0 then Some (dev_addr (nb_dev nb)) else get_mac_addr_from_ip ip nbs)"

text \<open>A lookup ends with an address, or with the null pointer, or waits on its socket for the answer; \<open>rarp\<close> is the
  buffer for the answer.\<close>

datatype lookup_result = Resolved "u8 list option" | Resolving nat u32 mem

definition lookup_finish :: "nat \<Rightarrow> mem \<Rightarrow> net_world \<Rightarrow> lookup_result \<times> net_world" where
  "lookup_finish i rarp w =
     (let w1 = socket_shutdown i w;
          ha = get_bytes rarp 8 6;
          nb = \<lparr>nb_ha = ha, nb_ip = ld32 rarp 14, nud_state = NUD_REACHABLE, nb_dev = current_netdev w1\<rparr>
      in (Resolved (Some ha), w1\<lparr>lneighbour := lneighbour w1 @ [nb]\<rparr>))"

partial_function (option) lookup_loop ::
    "(sched \<Rightarrow> sched option) \<Rightarrow> (sched \<Rightarrow> sched option) list \<Rightarrow> nat \<Rightarrow> u32 \<Rightarrow> mem \<Rightarrow> net_world \<Rightarrow> (lookup_result \<times> net_world) option" where
  "lookup_loop hs irqs i ip rarp w =
     Option.bind (packet_recvmsg hs irqs i ARP_SIZE w) (\<lambda>(r, w1).
       case r of
         Asleep \<Rightarrow> Some (Resolving i ip rarp, w1)
       | Got ret bs \<Rightarrow>
           if ld16 (write_bytes bs 0 rarp) 6 = htons ARP_REPLY \<and> ld32 (write_bytes bs 0 rarp) 14 = htonl ip
           then Some (lookup_finish i (write_bytes bs 0 rarp) w1)
           else lookup_loop hs irqs i ip (write_bytes bs 0 rarp) w1)"

definition lookup_mac_addr_from_ip ::
    "(sched \<Rightarrow> sched option) \<Rightarrow> (sched \<Rightarrow> sched option) list \<Rightarrow> u32 \<Rightarrow> net_world \<Rightarrow> (lookup_result \<times> net_world) option" where
  "lookup_mac_addr_from_ip hs irqs ip w =
     (case get_mac_addr_from_ip ip (lneighbour w) of
        Some maddr \<Rightarrow> Some (Resolved (Some maddr), w)
      | None \<Rightarrow>
          do {
            (sockfd, w1) \<leftarrow> sys_socket PF_PACKET SOCK_DGRAM ETH_P_ARP w;
            i \<leftarrow> sockfd_lookup sockfd w1;
            let dev = current_netdev w1;
            (if dev_state dev AND NETDEV_STATE_OFF \<noteq> 0 then Some (Resolved None, w1)
             else
               let w2 = packet_connect i (broadcast_addr dev) w1;
                   sarp = arp_create_packet (dev_addr dev) (local_ip dev) (broadcast_addr dev) ip ARP_REQUEST;
                   (ret, w3) = packet_sendmsg i sarp w2
               in lookup_loop hs irqs i ip (\<lambda>_. 0) w3)
          })"

text \<open>The right side of the comparison is a truth value, 0 or 1: the source has \<open>&&\<close> where it means \<open>&\<close>.\<close>

definition lookup_mac_addr_for_ethernet ::
    "(sched \<Rightarrow> sched option) \<Rightarrow> (sched \<Rightarrow> sched option) list \<Rightarrow> u32 \<Rightarrow> net_world \<Rightarrow> (lookup_result \<times> net_world) option" where
  "lookup_mac_addr_for_ethernet hs irqs ip w =
     (let dev = current_netdev w
      in if subnet_mask dev AND ip = (if local_ip dev \<noteq> 0 \<and> subnet_mask dev \<noteq> 0 then 1 else 0)
         then lookup_mac_addr_from_ip hs irqs ip w
         else Some (Resolved (Some (router_addr dev)), w))"

text \<open>\<open>prev_nb\<close> is not initialised: when the stack holds anything but a null pointer there, it is followed and freed.\<close>

definition neighbour_update_mapping :: "bool \<Rightarrow> u8 list \<Rightarrow> u32 \<Rightarrow> net_world \<Rightarrow> net_world option" where
  "neighbour_update_mapping stale mac_address ip w =
     (if stale then None
      else
        let kept = filter (\<lambda>nb. \<not> ((nb_ip nb = ip \<or> nb_ha nb = mac_address) \<and> nud_state nb AND NUD_REACHABLE \<noteq> 0)) (lneighbour w);
            nb = \<lparr>nb_ha = mac_address, nb_ip = ip, nud_state = NUD_REACHABLE, nb_dev = current_netdev w\<rparr>
        in Some (w\<lparr>lneighbour := kept @ [nb]\<rparr>))"

section \<open>Sending through IP\<close>

text \<open>A sending call ends with its value, or waits for the hardware address; then the frame goes out.\<close>

datatype send_result = Done int | Unresolved nat u32 mem packet

definition ip4_transmit :: "packet \<Rightarrow> u8 list option \<Rightarrow> net_world \<Rightarrow> net_world option" where
  "ip4_transmit p dest_mac w =
     map_option (\<lambda>mac. ethernet_sendmsg (p\<lparr>pk_mem := ethernet_build_header (skb_mac (pk_skb p)) ETH_P_IP (dev_addr (current_netdev w)) mac (pk_mem p)\<rparr>) w) dest_mac"

definition ip4_resolved :: "packet \<Rightarrow> lookup_result \<times> net_world \<Rightarrow> (send_result \<times> net_world) option" where
  "ip4_resolved p r =
     (case r of
        (Resolved mac, w) \<Rightarrow> map_option (Pair (Done 0)) (ip4_transmit p mac w)
      | (Resolving i ip rarp, w) \<Rightarrow> Some (Unresolved i ip rarp p, w))"

definition ip4_sendmsg ::
    "(sched \<Rightarrow> sched option) \<Rightarrow> (sched \<Rightarrow> sched option) list \<Rightarrow> nat \<Rightarrow> packet \<Rightarrow> net_world \<Rightarrow> (send_result \<times> net_world) option" where
  "ip4_sendmsg hs irqs i p w =
     (let skb1 = skb_push ETH_SIZE (pk_skb p);
          p1 = p\<lparr>pk_skb := skb1\<lparr>skb_mac := skb_data skb1\<rparr>\<rparr>
      in Option.bind (lookup_mac_addr_for_ethernet hs irqs (sin_addr (sk_dsin (sockets w i))) w) (ip4_resolved p1))"

text \<open>The thread runs again.\<close>

definition ip4_sendmsg_resume ::
    "(sched \<Rightarrow> sched option) \<Rightarrow> (sched \<Rightarrow> sched option) list \<Rightarrow> nat \<Rightarrow> u32 \<Rightarrow> mem \<Rightarrow> packet \<Rightarrow> net_world \<Rightarrow> (send_result \<times> net_world) option" where
  "ip4_sendmsg_resume hs irqs i ip rarp p w = Option.bind (lookup_loop hs irqs i ip rarp w) (ip4_resolved p)"

section \<open>UDP\<close>

definition UDP_SIZE :: u32 where "UDP_SIZE = 8"
definition MAX_UDP_HEADER :: u32 where "MAX_UDP_HEADER = ETH_SIZE + IP4_SIZE + UDP_SIZE"

definition udp_calculate_checksum :: "u32 \<Rightarrow> u16 \<Rightarrow> u32 \<Rightarrow> u32 \<Rightarrow> mem \<Rightarrow> u16 \<times> mem" where
  "udp_calculate_checksum udp packet_len source_ip dest_ip m =
     (let m1 = st16 (udp + 6) 0 m
      in (transport_calculate_checksum m1 udp packet_len IP4_PROTOCAL_UDP source_ip dest_ip, m1))"

definition udp_validate_header :: "u32 \<Rightarrow> u32 \<Rightarrow> u32 \<Rightarrow> mem \<Rightarrow> int \<times> mem" where
  "udp_validate_header udp source_ip dest_ip m =
     (let received_checksum = ld16 m (udp + 6)
      in if received_checksum = 0 then (0, m)
         else
           let (packet_checksum, m1) = udp_calculate_checksum udp (ntohs (ld16 m (udp + 4))) source_ip dest_ip m
           in (if packet_checksum \<noteq> received_checksum then - EPROTO else 0, st16 (udp + 6) received_checksum m1))"

definition udp_build_header :: "u32 \<Rightarrow> u16 \<Rightarrow> u32 \<Rightarrow> u16 \<Rightarrow> u32 \<Rightarrow> u16 \<Rightarrow> mem \<Rightarrow> mem" where
  "udp_build_header udp packet_len source_ip source_port dest_ip dest_port m =
     (let m1 = st16 udp (htons source_port) m;
          m2 = st16 (udp + 2) (htons dest_port) m1;
          m3 = st16 (udp + 4) (htons packet_len) m2;
          (checksum, m4) = udp_calculate_checksum udp packet_len source_ip dest_ip m3
      in st16 (udp + 6) checksum m4)"

definition udp_bind :: "nat \<Rightarrow> sockaddr_in \<Rightarrow> net_world \<Rightarrow> int \<times> net_world" where
  "udp_bind i myaddr w = (0, upd_sock i (\<lambda>s. s\<lparr>sk_ssin := myaddr\<rparr>) w)"

definition udp_connect :: "nat \<Rightarrow> sockaddr_in \<Rightarrow> net_world \<Rightarrow> int \<times> net_world" where
  "udp_connect i vaddr w = (0, upd_sock i (\<lambda>s. s\<lparr>sk_dsin := vaddr, sk_state := SS_CONNECTED\<rparr>) w)"

definition net_rand :: "net_world \<Rightarrow> u32 \<times> net_world" where
  "net_rand w = (let (r, b) = rand (base w) in (r, w\<lparr>base := b\<rparr>))"

text \<open>The datagram down to the IP header.\<close>

definition udp_create :: "sockaddr_in \<Rightarrow> sockaddr_in \<Rightarrow> u8 list \<Rightarrow> net_world \<Rightarrow> packet \<times> net_world" where
  "udp_create sa da msg w =
     (let msg_len = of_nat (length msg);
          (p, w1) = alloc_packet MAX_UDP_HEADER msg_len w;
          skb1 = skb_put msg_len (pk_skb p);
          m1 = write_bytes msg (skb_data skb1) (pk_mem p);
          skb2 = skb_push UDP_SIZE skb1;
          skb3 = skb2\<lparr>skb_h := skb_data skb2\<rparr>;
          m2 = udp_build_header (skb_h skb3) (ucast (skb_len skb3)) (sin_addr sa) (sin_port sa) (sin_addr da) (sin_port da) m1;
          skb4 = skb_push IP4_SIZE skb3;
          skb5 = skb4\<lparr>skb_nh := skb_data skb4\<rparr>;
          (rnd, w2) = net_rand w1;
          m3 = ip4_build_header (skb_nh skb5) (ucast (skb_len skb5)) IP4_PROTOCAL_UDP (sin_addr sa) (sin_addr da) rnd m2
      in (\<lparr>pk_skb = skb5, pk_mem = m3\<rparr>, w2))"

definition udp_sendmsg ::
    "(sched \<Rightarrow> sched option) \<Rightarrow> (sched \<Rightarrow> sched option) list \<Rightarrow> nat \<Rightarrow> u8 list \<Rightarrow> net_world \<Rightarrow> (send_result \<times> net_world) option" where
  "udp_sendmsg hs irqs i msg w =
     (if sk_state (sockets w i) = SS_DISCONNECTED then Some (Done (- ESHUTDOWN), w)
      else let (p, w1) = udp_create (sk_ssin (sockets w i)) (sk_dsin (sockets w i)) msg w in ip4_sendmsg hs irqs i p w1)"

definition udp_recvmsg ::
    "(sched \<Rightarrow> sched option) \<Rightarrow> (sched \<Rightarrow> sched option) list \<Rightarrow> nat \<Rightarrow> u32 \<Rightarrow> net_world \<Rightarrow> (recv_result \<times> net_world) option" where
  "udp_recvmsg hs irqs i msg_len w =
     (if sk_state (sockets w i) = SS_DISCONNECTED then Some (Got (- ESHUTDOWN) [], w)
      else case sk_rx_queue (sockets w i) of
        [] \<Rightarrow> wait_for_packet hs irqs i w
      | p # q \<Rightarrow>
          let w1 = upd_sock i (\<lambda>s. s\<lparr>sk_rx_queue := q\<rparr>) w;
              udph = skb_h (pk_skb p);
              payload_len = min msg_len (ucast (htons (ld16 (pk_mem p) (udph + 4))) - UDP_SIZE)
          in Some (Got (sint payload_len) (get_bytes (pk_mem p) (udph + UDP_SIZE) (unat payload_len)), w1))"

definition udp_handler :: "nat \<Rightarrow> packet \<Rightarrow> net_world \<Rightarrow> (int \<times> net_world) option" where
  "udp_handler i p w =
     (if sk_state (sockets w i) = SS_DISCONNECTED then Some (- ESHUTDOWN, w)
      else let (ret, skb1) = ethernet_rcv (pk_skb p)
      in if ret < 0 then Some (ret, w)
      else let (ret, skb2) = ip4_rcv (pk_mem p) skb1
      in if ret < 0 then Some (ret, w)
      else if ip_protocal (pk_mem p) (skb_nh skb2) \<noteq> IP4_PROTOCAL_UDP then Some (- EPROTO, w)
      else
        let udp = skb_data skb2;
            iph = skb_nh skb2;
            (ret, m) = udp_validate_header udp (ntohl (ip_source_ip (pk_mem p) iph)) (ntohl (ip_dest_ip (pk_mem p) iph)) (pk_mem p);
            sock = sockets w i
        in if ret < 0 then Some (ret, w)
           else if htonl (ip_dest_ip m iph) = sin_addr (sk_ssin sock) \<and> htons (ld16 m (udp + 2)) = sin_port (sk_ssin sock) \<and>
                   htonl (ip_source_ip m iph) = sin_addr (sk_dsin sock) \<and> htons (ld16 m udp) = sin_port (sk_dsin sock)
           then enqueue_packet i \<lparr>pk_skb = skb2\<lparr>skb_h := udp\<rparr>, pk_mem = m\<rparr> w
           else Some (0, w))"

section \<open>Raw sockets\<close>

definition RAW_HEADER_SIZE :: u32 where "RAW_HEADER_SIZE = ETH_SIZE + IP4_SIZE"

definition raw_bind :: "nat \<Rightarrow> sockaddr_in \<Rightarrow> net_world \<Rightarrow> int \<times> net_world" where
  "raw_bind i myaddr w = (0, upd_sock i (\<lambda>s. s\<lparr>sk_ssin := myaddr\<rparr>) w)"

definition raw_connect :: "nat \<Rightarrow> sockaddr_in \<Rightarrow> net_world \<Rightarrow> int \<times> net_world" where
  "raw_connect i vaddr w = (0, upd_sock i (\<lambda>s. s\<lparr>sk_dsin := vaddr, sk_state := SS_CONNECTED\<rparr>) w)"

definition raw_sendmsg ::
    "(sched \<Rightarrow> sched option) \<Rightarrow> (sched \<Rightarrow> sched option) list \<Rightarrow> nat \<Rightarrow> u8 list \<Rightarrow> net_world \<Rightarrow> (send_result \<times> net_world) option" where
  "raw_sendmsg hs irqs i msg w =
     (let sock = sockets w i
      in if sk_state sock = SS_DISCONNECTED then Some (Done (- ESHUTDOWN), w)
         else
           let msg_len = of_nat (length msg);
               (p, w1) = alloc_packet RAW_HEADER_SIZE msg_len w;
               skb1 = skb_put msg_len (pk_skb p);
               m1 = write_bytes msg (skb_data skb1) (pk_mem p);
               skb2 = skb_push IP4_SIZE skb1;
               skb3 = skb2\<lparr>skb_nh := skb_data skb2\<rparr>;
               m2 = ip4_build_header (skb_nh skb3) (ucast (skb_len skb3)) (ucast (sk_protocol sock)) (sin_addr (sk_ssin sock)) (sin_addr (sk_dsin sock)) 0 m1
           in ip4_sendmsg hs irqs i \<lparr>pk_skb = skb3, pk_mem = m2\<rparr> w1)"

text \<open>The handler has already taken the Ethernet header off; this call takes another one.\<close>

definition raw_recvmsg ::
    "(sched \<Rightarrow> sched option) \<Rightarrow> (sched \<Rightarrow> sched option) list \<Rightarrow> nat \<Rightarrow> u32 \<Rightarrow> net_world \<Rightarrow> (recv_result \<times> net_world) option" where
  "raw_recvmsg hs irqs i msg_len w =
     (if sk_state (sockets w i) = SS_DISCONNECTED then Some (Got (- ESHUTDOWN) [], w)
      else case sk_rx_queue (sockets w i) of
        [] \<Rightarrow> wait_for_packet hs irqs i w
      | p # q \<Rightarrow>
          let w1 = upd_sock i (\<lambda>s. s\<lparr>sk_rx_queue := q\<rparr>) w;
              skb1 = skb_pull ETH_SIZE ((pk_skb p)\<lparr>skb_mac := skb_data (pk_skb p)\<rparr>);
              iph = skb_data skb1;
              payload_len = min msg_len (ucast (ntohs (ip_total_length (pk_mem p) iph)) - IP4_SIZE)
          in Some (Got (sint payload_len) (get_bytes (pk_mem p) (iph + IP4_SIZE) (unat payload_len)), w1))"

definition raw_handler :: "nat \<Rightarrow> packet \<Rightarrow> net_world \<Rightarrow> (int \<times> net_world) option" where
  "raw_handler i p w =
     (let sock = sockets w i; m = pk_mem p; eh = skb_data (pk_skb p)
      in if sk_state sock = SS_DISCONNECTED then Some (- ESHUTDOWN, w)
         else if htons (ld16 m (eh + 12)) \<noteq> ETH_P_IP then Some (- EPROTO, w)
         else
           let skb1 = skb_pull ETH_SIZE ((pk_skb p)\<lparr>skb_mac := eh\<rparr>);
               iph = skb_data skb1
           in if htonl (ip_source_ip m iph) = sin_addr (sk_dsin sock) \<and> htonl (ip_dest_ip m iph) = local_ip (current_netdev w) \<and>
                 ucast (ip_protocal m iph) = sk_protocol sock
              then enqueue_packet i (p\<lparr>pk_skb := skb1\<lparr>skb_nh := iph\<rparr>\<rparr>) w
              else Some (0, w))"

section \<open>ICMP\<close>

definition ICMP_SIZE :: u32 where "ICMP_SIZE = 8"
definition ICMP_ECHO :: u8 where "ICMP_ECHO = 0"
definition ICMP_REPLY :: u8 where "ICMP_REPLY = 0"
definition ICMP_REQUEST :: u8 where "ICMP_REQUEST = 8"

definition icmp_validate_packet :: "u32 \<Rightarrow> mem \<Rightarrow> int" where
  "icmp_validate_packet icmp m = 0"

definition icmp_create_packet :: "u32 \<Rightarrow> u8 \<Rightarrow> u32 \<Rightarrow> u8 list \<Rightarrow> mem \<Rightarrow> mem" where
  "icmp_create_packet icmp type rest_of_header payload m =
     (let icmp_packet_size = ucast ICMP_SIZE + of_nat (length payload);
          m1 = m(icmp := type);
          m2 = m1(icmp + 1 := 0);
          m3 = st32 (icmp + 4) (htonl rest_of_header) m2;
          m4 = write_bytes payload (icmp + ICMP_SIZE) m3
      in st16 (icmp + 2) (singular_checksum m4 icmp icmp_packet_size) m4)"

text \<open>The answer is built in a block of \<open>total_len\<close> zeroed bytes. When that sum wraps around, the copy of the payload
  runs over the end of the block.\<close>

definition icmp_reply :: "u32 \<Rightarrow> u8 list \<Rightarrow> u32 \<Rightarrow> u32 \<Rightarrow> u32 \<Rightarrow> u32 \<Rightarrow> u32 \<Rightarrow> mem \<Rightarrow> net_world \<Rightarrow> net_world option" where
  "icmp_reply source_ip dest_mac dest_ip identification rest_of_header payload payload_len m w =
     do {
       (sockfd, w1) \<leftarrow> sys_socket PF_PACKET SOCK_DGRAM ETH_P_IP w;
       i \<leftarrow> sockfd_lookup sockfd w1;
       let w2 = packet_connect i dest_mac w1;
       let total_len = IP4_SIZE + ICMP_SIZE + payload_len;
       (if total_len < payload_len then None
        else
          let b1 = ip4_build_header 0 (ucast total_len) IP4_PROTOCAL_ICMP source_ip dest_ip identification (\<lambda>_. 0);
              b2 = icmp_create_packet IP4_SIZE ICMP_REPLY rest_of_header (get_bytes m payload (unat payload_len)) b1;
              (ret, w3) = packet_sendmsg i (get_bytes b2 0 (unat total_len)) w2
          in Some (socket_shutdown i w3))
     }"

definition icmp_rcv :: "packet \<Rightarrow> int \<times> packet" where
  "icmp_rcv p =
     (if ip_protocal (pk_mem p) (skb_nh (pk_skb p)) \<noteq> IP4_PROTOCAL_ICMP then (- EPROTO, p)
      else
        let icmp = skb_data (pk_skb p);
            ret = icmp_validate_packet icmp (pk_mem p)
        in if ret < 0 then (ret, p) else (0, p\<lparr>pk_skb := (pk_skb p)\<lparr>skb_h := icmp\<rparr>\<rparr>))"

section \<open>Receiving\<close>

definition answer_icmp :: "packet \<Rightarrow> net_world \<Rightarrow> (int \<times> net_world) option" where
  "answer_icmp p w =
     (let (ret, p1) = icmp_rcv p; m = pk_mem p1; iph = skb_nh (pk_skb p1); icmph = skb_h (pk_skb p1); eh = skb_mac (pk_skb p1)
      in if ret < 0 then Some (ret, w)
         else if m (icmph + 1) = ICMP_ECHO \<and> m icmph = ICMP_REQUEST \<and> ip_dest_ip m iph = htonl (local_ip (current_netdev w)) then
           let payload_len = ucast (ntohs (ip_total_length m iph)) - IP4_SIZE - ICMP_SIZE
           in map_option (Pair 0) (icmp_reply (local_ip (current_netdev w)) (get_bytes m (eh + 6) 6) (ntohl (ip_source_ip m iph))
                (ntohl (ucast (ld16 m (iph + 4)))) (ntohl (ld32 m (icmph + 4))) (icmph + ICMP_SIZE) payload_len m w)
         else Some (0, w))"

definition answer_arp :: "bool \<Rightarrow> packet \<Rightarrow> net_world \<Rightarrow> (int \<times> net_world) option" where
  "answer_arp stale p w =
     (let (ret, p1) = arp_rcv p; m = pk_mem p1; arph = skb_nh (pk_skb p1)
      in if ret < 0 then Some (ret, w)
         else if ld32 m (arph + 24) = htonl (local_ip (current_netdev w)) then
           map_option (\<lambda>(ret, w1). (0, w1))
             (arp_send (dev_addr (current_netdev w)) (local_ip (current_netdev w)) (get_bytes m (arph + 8) 6) (ntohl (ld32 m (arph + 14))) ARP_REPLY w)
         else if ld32 m (arph + 24) = ld32 m (arph + 14) \<and> is_broadcast_mac_address (get_bytes m (arph + 18) 6) w then
           map_option (Pair 0) (neighbour_update_mapping stale (get_bytes m (arph + 8) 6) (ld32 m (arph + 14)) w)
         else Some (0, w))"

definition net_default_rx_handler :: "bool \<Rightarrow> packet \<Rightarrow> net_world \<Rightarrow> (int \<times> net_world) option" where
  "net_default_rx_handler stale p w =
     (let (ret, skb1) = ethernet_rcv (pk_skb p); m = pk_mem p
      in if ret < 0 then Some (ret, w)
         else if ld16 m (skb_mac skb1 + 12) = htons ETH_P_IP then
           let (ret, skb2) = ip4_rcv m skb1
           in if ret < 0 then Some (ret, w)
              else if ip_protocal m (skb_nh skb2) = IP4_PROTOCAL_ICMP then answer_icmp (p\<lparr>pk_skb := skb2\<rparr>) w
              else Some (0, w)
         else if ld16 m (skb_mac skb1 + 12) = ntohs ETH_P_ARP then answer_arp stale (p\<lparr>pk_skb := skb1\<rparr>) w
         else Some (0, w))"

text \<open>The handler of a TCP socket runs on its control block; a zeroed one is in no state that \<open>tcp_handler\<close> knows.\<close>

definition tcp_socket_handler :: "nat \<Rightarrow> packet \<Rightarrow> net_world \<Rightarrow> (int \<times> net_world) option" where
  "tcp_socket_handler i p w =
     (case sk_tcp (sockets w i) of
        None \<Rightarrow> Some (fst (tcp_rcv (sk_ssin (sockets w i)) (sk_dsin (sockets w i)) (pk_skb p) (pk_mem p)), w)
      | Some t \<Rightarrow>
          map_option (\<lambda>(ret, m, b). (ret, upd_sock i (\<lambda>s. s\<lparr>sk_tcp := Some (tsk b)\<rparr>) (w\<lparr>base := b\<lparr>tsk := tsk (base w)\<rparr>\<rparr>)))
            (tcp_handler (pk_skb p) (pk_mem p) ((base w)\<lparr>tsk := t\<rparr>)))"

definition handler :: "nat \<Rightarrow> packet \<Rightarrow> net_world \<Rightarrow> (int \<times> net_world) option" where
  "handler i p w =
     (case sk_ops (sockets w i) of
        None \<Rightarrow> None
      | Some tcp_proto_ops \<Rightarrow> tcp_socket_handler i p w
      | Some udp_proto_ops \<Rightarrow> udp_handler i p w
      | Some raw_proto_ops \<Rightarrow> raw_handler i p w
      | Some packet_proto_ops \<Rightarrow> packet_handler i p w)"

text \<open>Every socket gets a copy of the packet of its own.\<close>

primrec offer :: "packet \<Rightarrow> nat list \<Rightarrow> net_world \<Rightarrow> net_world option" where
  "offer p [] w = Some w"
| "offer p (i # is) w =
     (let (p', w1) = clone_packet p w in do { (ret, w2) \<leftarrow> handler i p' w1; offer p is w2 })"

primrec deliver_packets :: "bool \<Rightarrow> packet list \<Rightarrow> net_world \<Rightarrow> net_world option" where
  "deliver_packets stale [] w = Some w"
| "deliver_packets stale (p # ps) w =
     do {
       w1 \<leftarrow> offer p (lsocket w) w;
       w2 \<leftarrow> (if dev_state (current_netdev w1) AND NETDEV_STATE_CONNECTED \<noteq> 0
                then map_option snd (net_default_rx_handler stale p w1) else Some w1);
       deliver_packets stale ps w2
     }"

text \<open>One round of the thread that receives: all packets of the queue, which is empty afterwards; then it waits.\<close>

definition net_rx_round ::
    "(sched \<Rightarrow> sched option) \<Rightarrow> (sched \<Rightarrow> sched option) list \<Rightarrow> bool \<Rightarrow> net_world \<Rightarrow> net_world option" where
  "net_rx_round hs irqs stale w =
     do {
       let w1 = w\<lparr>base := (base w)\<lparr>nsched := lock_scheduler (nsched (base w))\<rparr>\<rparr>;
       w2 \<leftarrow> deliver_packets stale (lrx_skb w1) w1;
       w3 \<leftarrow> wake (net_thread w2) THREAD_WAITING (w2\<lparr>lrx_skb := []\<rparr>);
       s \<leftarrow> schedule hs irqs (unlock_scheduler (nsched (base w3)));
       Some (w3\<lparr>base := (base w3)\<lparr>nsched := s\<rparr>\<rparr>)
     }"

text \<open>The end of the interrupt of the network card.\<close>

definition net_switch :: "(sched \<Rightarrow> sched option) \<Rightarrow> (sched \<Rightarrow> sched option) list \<Rightarrow> net_world \<Rightarrow> net_world option" where
  "net_switch hs irqs w =
     (let cur = current_thread (nsched (base w))
      in if lrx_skb w = [] then Some w
         else if net_thread w \<noteq> cur then
           do {
             w1 \<leftarrow> wake (net_thread w) THREAD_READY w;
             w2 \<leftarrow> (if state (threads (nsched (base w1)) cur) = THREAD_RUNNING then wake cur THREAD_READY w1 else Some w1);
             s \<leftarrow> schedule hs irqs (nsched (base w2));
             Some (w2\<lparr>base := (base w2)\<lparr>nsched := s\<rparr>\<rparr>)
           }
         else wake (net_thread w) THREAD_READY w)"

end
