(* ===== verification/Net_Spec.thy ===== *)
theory Net_Spec
  imports Net_Sockets Tcp_Spec
begin

text \<open>
  What the sockets of \<open>Net_Sockets\<close> promise: a datagram that is sent arrives at the socket it is addressed to and at no other,
  and an echo request is answered with its own data.
\<close>

unbundle bit_operations_syntax

section \<open>Frames that lie elsewhere\<close>

definition same_bytes :: "mem \<Rightarrow> u32 \<Rightarrow> mem \<Rightarrow> u32 \<Rightarrow> nat \<Rightarrow> bool" where
  "same_bytes m a m' a' n \<longleftrightarrow> (\<forall>k < n. m (a + of_nat k) = m' (a' + of_nat k))"

lemma same_bytesD: "same_bytes m a m' a' n \<Longrightarrow> k < n \<Longrightarrow> m (a + of_nat k) = m' (a' + of_nat k)"
  by (simp add: same_bytes_def)

lemma same_bytes_sub: "same_bytes m a m' a' n \<Longrightarrow> i + j \<le> n \<Longrightarrow> same_bytes m (a + of_nat i) m' (a' + of_nat i) j"
  using same_bytesD [of m a m' a' n "i + _"] by (simp add: same_bytes_def add.assoc)

lemma same_bytes_trans: "same_bytes m a m' a' n \<Longrightarrow> same_bytes m' a' m'' a'' n \<Longrightarrow> same_bytes m a m'' a'' n"
  by (simp add: same_bytes_def)

lemma same_bytes_agree: "agree m m' a n \<Longrightarrow> same_bytes m a m' a n"
  by (simp add: same_bytes_def agree_def)

lemma same_ld16: "same_bytes m a m' a' n \<Longrightarrow> i + 2 \<le> n \<Longrightarrow> ld16 m (a + of_nat i) = ld16 m' (a' + of_nat i)"
  using same_bytesD [of m a m' a' n i] same_bytesD [of m a m' a' n "i + 1"] by (simp add: ld16_def ac_simps)

lemma same_ld32: "same_bytes m a m' a' n \<Longrightarrow> i + 4 \<le> n \<Longrightarrow> ld32 m (a + of_nat i) = ld32 m' (a' + of_nat i)"
  using same_bytesD [of m a m' a' n i] same_bytesD [of m a m' a' n "i + 1"] same_bytesD [of m a m' a' n "i + 2"]
    same_bytesD [of m a m' a' n "i + 3"] by (simp add: ld32_def ac_simps)

lemma same_get_bytes: "same_bytes m a m' a' n \<Longrightarrow> i + j \<le> n \<Longrightarrow> get_bytes m (a + of_nat i) j = get_bytes m' (a' + of_nat i) j"
  using same_bytes_sub [of m a m' a' n i j] by (simp add: get_bytes_def same_bytes_def)

lemma same_st16:
  assumes "same_bytes m a m' a' n" "i + 2 \<le> n" "n \<le> 4294967296"
  shows "same_bytes (st16 (a + of_nat i) v m) a (st16 (a' + of_nat i) v m') a' n"
  unfolding same_bytes_def
proof (intro allI impI)
  fix k assume k: "k < n"
  have "a + of_nat k = a + of_nat j \<longleftrightarrow> k = j" if "j < n" for j and a :: u32 using word_offset_neq [of k j a] that k assms(3) by auto
  from this [of i] this [of "i + 1"] show "st16 (a + of_nat i) v m (a + of_nat k) = st16 (a' + of_nat i) v m' (a' + of_nat k)"
    using same_bytesD [OF assms(1) k] assms(2) by (simp add: st16_def ac_simps)
qed

lemma same_checksum_start: "same_bytes m a m' a' n \<Longrightarrow> i + unat l \<le> n \<Longrightarrow> packet_checksum_start m (a + of_nat i) l = packet_checksum_start m' (a' + of_nat i) l"
proof -
  assume s: "same_bytes m a m' a' n" "i + unat l \<le> n"
  have "byte_sum m (a + of_nat i) (unat l) = byte_sum m' (a' + of_nat i) (unat l)"
    unfolding byte_sum_def using same_bytes_sub [OF s] by (intro sum.cong) (simp_all add: same_bytes_def)
  then show ?thesis by (simp add: word_unat_eq_iff unat_packet_checksum_start)
qed

lemma same_written: "length xs \<le> 4294967296 \<Longrightarrow> n \<le> length xs \<Longrightarrow> xs = get_bytes m a (length xs) \<Longrightarrow> same_bytes m a (write_bytes xs a' m') a' n"
proof -
  assume n: "length xs \<le> 4294967296" "n \<le> length xs" and xs: "xs = get_bytes m a (length xs)"
  have "xs ! k = m (a + of_nat k)" if "k < length xs" for k using that by (subst xs) (simp add: get_bytes_def)
  then show ?thesis using write_bytes_written [OF n(1), of m' a'] n(2) by (simp add: same_bytes_def written_def)
qed

section \<open>Datagrams\<close>

lemma ip_headers_built:
  assumes mac: "length dev = 6" "length dest = 6" and m': "m' = ethernet_build_header e ETH_P_IP dev dest m3"
    and m3: "m3 = ip4_build_header (e + 14) n proto s d rnd m2"
  shows "ld16 m' (e + 12) = htons ETH_P_IP" "ip_total_length m' (e + 14) = htons n" "ip_protocal m' (e + 14) = proto"
    "ip_source_ip m' (e + 14) = htonl s" "ip_dest_ip m' (e + 14) = htonl d" "agree m' m3 (e + 14) 20"
proof -
  show ag: "agree m' m3 (e + 14) 20" by (rule frame_agree(1) [OF mac m' m3, of 0]) simp
  note f = ip4_build_header_fields [OF m3]
  show "ld16 m' (e + 12) = htons ETH_P_IP" unfolding m' by (rule ethernet_type [OF mac])
  show "ip_total_length m' (e + 14) = htons n" "ip_protocal m' (e + 14) = proto" "ip_source_ip m' (e + 14) = htonl s" "ip_dest_ip m' (e + 14) = htonl d"
    using f agree_ld16 [OF agree_sub [OF ag, of 2 2]] agreeD [OF ag, of 9] agree_ld32 [OF agree_sub [OF ag, of 12 4]]
      agree_ld32 [OF agree_sub [OF ag, of 16 4]]
    by (simp_all add: ip_total_length_def ip_protocal_def ip_source_ip_def ip_dest_ip_def)
qed

definition udp_frame :: "sockaddr_in \<Rightarrow> sockaddr_in \<Rightarrow> u8 list \<Rightarrow> u32 \<Rightarrow> mem \<Rightarrow> bool" where
  "udp_frame sa da msg e m \<longleftrightarrow>
     ld16 m (e + 12) = htons ETH_P_IP \<and> ip_protocal m (e + 14) = IP4_PROTOCAL_UDP \<and> ip_source_ip m (e + 14) = htonl (sin_addr sa) \<and>
     ip_dest_ip m (e + 14) = htonl (sin_addr da) \<and> ld16 m (e + 34) = htons (sin_port sa) \<and> ld16 m (e + 36) = htons (sin_port da) \<and>
     ld16 m (e + 38) = htons (of_nat (8 + length msg)) \<and>
     ld16 m (e + 40) = transport_calculate_checksum (st16 (e + 40) 0 m) (e + 34) (of_nat (8 + length msg)) IP4_PROTOCAL_UDP (sin_addr sa) (sin_addr da) \<and>
     get_bytes m (e + 42) (length msg) = msg"

lemma udp_frame_move:
  assumes f: "udp_frame sa da msg e m" and s: "same_bytes m e m' e' (42 + length msg)" and l: "length msg \<le> 65507"
  shows "udp_frame sa da msg e' m'"
proof -
  have u: "unat (of_nat (8 + length msg) :: u16) = 8 + length msg" using l by (intro unat_of_nat_u16) simp
  have "same_bytes (st16 (e + of_nat 40) 0 m) e (st16 (e' + of_nat 40) 0 m') e' (42 + length msg)"
    using s l by (intro same_st16) simp_all
  then have ck: "packet_checksum_start (st16 (e + of_nat 40) 0 m) (e + of_nat 34) (of_nat (8 + length msg)) =
      packet_checksum_start (st16 (e' + of_nat 40) 0 m') (e' + of_nat 34) (of_nat (8 + length msg))"
    by (rule same_checksum_start) (unfold u, simp)
  have "ld16 m (e + of_nat i) = ld16 m' (e' + of_nat i)" if "i \<le> 40" for i using same_ld16 [OF s, of i] that by simp
  from this [of 12] this [of 34] this [of 36] this [of 38] this [of 40]
  have h: "ld16 m (e + 12) = ld16 m' (e' + 12)" "ld16 m (e + 34) = ld16 m' (e' + 34)" "ld16 m (e + 36) = ld16 m' (e' + 36)"
    "ld16 m (e + 38) = ld16 m' (e' + 38)" "ld16 m (e + 40) = ld16 m' (e' + 40)" by simp_all
  have "m (e + 23) = m' (e' + 23)" "ld32 m (e + 26) = ld32 m' (e' + 26)" "ld32 m (e + 30) = ld32 m' (e' + 30)"
    "get_bytes m (e + 42) (length msg) = get_bytes m' (e' + 42) (length msg)"
    using same_bytesD [OF s, of 23] same_ld32 [OF s, of 26] same_ld32 [OF s, of 30] same_get_bytes [OF s, of 42 "length msg"] by simp_all
  then show ?thesis using f h ck
    by (simp add: udp_frame_def ip_protocal_def ip_source_ip_def ip_dest_ip_def transport_calculate_checksum_def Let_def add.assoc)
qed

lemma udp_build_header_read:
  fixes u :: u32
  assumes "m' = udp_build_header u len s sp d dp m"
  shows "ld16 m' u = htons sp" "ld16 m' (u + 2) = htons dp" "ld16 m' (u + 4) = htons len"
    "ld16 m' (u + 6) = transport_calculate_checksum (st16 (u + 6) 0 m') u len IP4_PROTOCAL_UDP s d"
    "\<And>x. (\<And>j. j < 8 \<Longrightarrow> x \<noteq> u + of_nat j) \<Longrightarrow> m' x = m x"
proof -
  note d = assms udp_build_header_def udp_calculate_checksum_def Let_def
  show "ld16 m' u = htons sp" "ld16 m' (u + 2) = htons dp" "ld16 m' (u + 4) = htons len" by (simp_all add: d mem_simps)
  show "ld16 m' (u + 6) = transport_calculate_checksum (st16 (u + 6) 0 m') u len IP4_PROTOCAL_UDP s d" by (simp add: d)
  show "m' x = m x" if x: "\<And>j. j < 8 \<Longrightarrow> x \<noteq> u + of_nat j" for x
    using x [of 0] x [of 1] x [of 2] x [of 3] x [of 4] x [of 5] x [of 6] x [of 7] by (simp add: d st16_def ac_simps)
qed

lemma udp_frame_built:
  assumes mac: "length dev = 6" "length dest = 6" and l: "length msg \<le> 65507"
    and m2: "m2 = udp_build_header (e + 34) (of_nat (8 + length msg)) (sin_addr sa) (sin_port sa) (sin_addr da) (sin_port da) (write_bytes msg (e + 42) m0)"
    and m3: "m3 = ip4_build_header (e + 14) n IP4_PROTOCAL_UDP (sin_addr sa) (sin_addr da) rnd m2"
    and m': "m' = ethernet_build_header e ETH_P_IP dev dest m3"
  shows "udp_frame sa da msg e m'"
proof -
  let ?l = "8 + length msg"
  note ip = ip_headers_built [OF mac m' m3] and b = udp_build_header_read [OF m2]
  have ag: "agree m' m2 (e + 34) ?l" using frame_agree(2) [OF mac m' m3] l by simp
  have sub: "agree m' m2 (e + 34 + of_nat i) j" if "i + j \<le> ?l" for i j using agree_sub [OF ag that] .
  have h: "ld16 m' (e + 34) = htons (sin_port sa)" "ld16 m' (e + 36) = htons (sin_port da)" "ld16 m' (e + 38) = htons (of_nat ?l)"
    "ld16 m' (e + 40) = ld16 m2 (e + 40)"
    using agree_ld16 [OF sub [of 0 2]] agree_ld16 [OF sub [of 2 2]] agree_ld16 [OF sub [of 4 2]] agree_ld16 [OF sub [of 6 2]] b(1-3)
    by (simp_all add: add.assoc)
  have u: "unat (of_nat ?l :: u16) = ?l" using l by (intro unat_of_nat_u16) simp
  have ck: "transport_calculate_checksum (st16 (e + 40) 0 m2) (e + 34) (of_nat ?l) IP4_PROTOCAL_UDP (sin_addr sa) (sin_addr da) =
      transport_calculate_checksum (st16 (e + 40) 0 m') (e + 34) (of_nat ?l) IP4_PROTOCAL_UDP (sin_addr sa) (sin_addr da)"
    by (rule transport_checksum_cong [OF agree_st16]) (use ag u in \<open>simp add: agree_def\<close>)
  have "agree m2 (write_bytes msg (e + 34 + of_nat 8) m0) (e + 34 + of_nat 8) (length msg)"
    by (rule agree_outside [where i = 0 and l = 8]) (use b(5) l in \<open>auto simp: add.assoc\<close>)
  then have "agree m' (write_bytes msg (e + 42) m0) (e + 42) (length msg)"
    using sub [of 8 "length msg"] by (auto intro: agree_trans simp: add.assoc)
  then have "get_bytes m' (e + 42) (length msg) = msg" using get_write_bytes [of msg "e + 42" m0] l by (simp add: agree_get_bytes)
  then show ?thesis using ip h ck b(4) by (simp add: udp_frame_def add.assoc)
qed

text \<open>The usual case of \<open>lookup_mac_addr_for_ethernet\<close>: the packet goes to the router.\<close>

definition routed :: "u32 \<Rightarrow> net_device \<Rightarrow> bool" where
  "routed ip dev \<longleftrightarrow> subnet_mask dev AND ip \<noteq> (if local_ip dev \<noteq> 0 \<and> subnet_mask dev \<noteq> 0 then 1 else 0) \<and>
     length (dev_addr dev) = 6 \<and> length (router_addr dev) = 6"

lemma udp_sends:
  assumes st: "sk_state (sockets w i) \<noteq> SS_DISCONNECTED" and rt: "routed (sin_addr (sk_dsin (sockets w i))) (current_netdev w)"
    and l: "length msg \<le> 65507"
  obtains w' e m where "udp_sendmsg hs irqs i msg w = Some (Done 0, w')" "sent w' = sent w @ [get_bytes m e (42 + length msg)]"
    "udp_frame (sk_ssin (sockets w i)) (sk_dsin (sockets w i)) msg e m"
proof -
  let ?sa = "sk_ssin (sockets w i)" and ?da = "sk_dsin (sockets w i)" and ?k = "packet_addr w (npackets w)" and ?n = "length msg"
  let ?dev = "current_netdev w"
  obtain d where "WORD_ALIGN (?k + 42) = ?k + 42 + of_nat d" using WORD_ALIGN_offset by blast
  moreover define e where "e = ?k + of_nat d"
  ultimately have al: "WORD_ALIGN (?k + 42) = e + 42" by (simp add: ac_simps)
  define m0 where "m0 = clear_bytes ?k (42 + of_nat ?n + WORD_SIZE) (pool w)"
  define m2 where "m2 = udp_build_header (e + 34) (of_nat (8 + ?n)) (sin_addr ?sa) (sin_port ?sa) (sin_addr ?da) (sin_port ?da) (write_bytes msg (e + 42) m0)"
  obtain rnd b where r: "rand (base w) = (rnd, b)" by fastforce
  define m3 where "m3 = ip4_build_header (e + 14) (ucast (of_nat (28 + ?n) :: u32)) IP4_PROTOCAL_UDP (sin_addr ?sa) (sin_addr ?da) rnd m2"
  define m' where "m' = ethernet_build_header e ETH_P_IP (dev_addr ?dev) (router_addr ?dev) m3"
  have u8: "(ucast (of_nat ?n + 8 :: u32) :: u16) = 8 + of_nat ?n"
    using ucast_of_nat_u16 [of "8 + ?n"] l by (simp add: ac_simps)
  obtain skb where c: "udp_create ?sa ?da msg w = (\<lparr>pk_skb = skb, pk_mem = m3\<rparr>, w\<lparr>npackets := Suc (npackets w), base := b\<rparr>)"
    "skb_data skb = e + 14" "skb_len skb = of_nat (28 + ?n)"
    by (simp add: udp_create_def alloc_packet_def skb_alloc_def skb_put_def skb_push_def MAX_UDP_HEADER_def ETH_SIZE_def IP4_SIZE_def UDP_SIZE_def
        Let_def split_beta al net_rand_def r m3_def m2_def m0_def u8 ac_simps)
  have "udp_frame ?sa ?da msg e m'"
    using rt l by (intro udp_frame_built [OF _ _ l m2_def m3_def m'_def]) (simp_all add: routed_def)
  moreover have "unat (of_nat (42 + ?n) :: u32) = 42 + ?n" using l by (intro unat_of_nat_u32) simp
  ultimately show ?thesis
    using st rt c by (intro that [of "w\<lparr>npackets := Suc (npackets w), base := b, sent := sent w @ [get_bytes m' e (42 + ?n)]\<rparr>" m' e])
      (simp_all add: udp_sendmsg_def ip4_sendmsg_def lookup_mac_addr_for_ethernet_def routed_def ip4_resolved_def ip4_transmit_def
        ethernet_sendmsg_def skb_push_def ETH_SIZE_def m'_def Let_def)
qed

section \<open>Receiving\<close>

text \<open>A packet of the queue holds the bytes of a frame, inside its block.\<close>

definition frame_in :: "u8 list \<Rightarrow> packet \<Rightarrow> bool" where
  "frame_in f p \<longleftrightarrow> (\<exists>d. skb_data (pk_skb p) = skb_head (pk_skb p) + of_nat d \<and> d + length f \<le> unat (true_size (pk_skb p) - SKB_SIZE)) \<and>
     get_bytes (pk_mem p) (skb_data (pk_skb p)) (length f) = f"

lemma push_rx_queue_frame:
  assumes "length f < 4294967000"
  obtains p where "push_rx_queue f w = w\<lparr>npackets := Suc (npackets w), lrx_skb := lrx_skb w @ [p]\<rparr>" "frame_in f p"
proof -
  let ?k = "packet_addr w (npackets w)" and ?n = "of_nat (length f) :: u32"
  obtain d where d: "d < 4" "WORD_ALIGN (?k + 0) = ?k + 0 + of_nat d" using WORD_ALIGN_offset by blast
  let ?skb = "\<lparr>skb_len = ?n, true_size = 0 + ?n + WORD_SIZE + SKB_SIZE, skb_h = 0, skb_nh = 0, skb_mac = 0, skb_head = ?k,
    skb_data = ?k + of_nat d, skb_tail = ?k + of_nat d + ?n, skb_end = ?k + (0 + ?n + WORD_SIZE)\<rparr>"
  let ?p = "\<lparr>pk_skb = ?skb, pk_mem = write_bytes f (?k + of_nat d) (clear_bytes ?k (0 + ?n + WORD_SIZE) (pool w))\<rparr>"
  have "unat (true_size ?skb - SKB_SIZE) = length f + 4"
    using assms by (simp add: WORD_SIZE_def unat_plus_if' unat_of_nat_u32)
  then have "frame_in f ?p" using d(1) assms by (auto simp: frame_in_def get_write_bytes)
  moreover have "push_rx_queue f w = w\<lparr>npackets := Suc (npackets w), lrx_skb := lrx_skb w @ [?p]\<rparr>"
    using d(2) by (simp add: push_rx_queue_def alloc_packet_def skb_alloc_def skb_put_def Let_def)
  ultimately show ?thesis by (rule that [rotated])
qed

lemma clone_packet_frame:
  assumes "frame_in f p"
  obtains p' where "clone_packet p w = (p', w\<lparr>npackets := Suc (npackets w)\<rparr>)" "frame_in f p'"
    "same_bytes (pk_mem p) (skb_data (pk_skb p)) (pk_mem p') (skb_data (pk_skb p')) (length f)"
proof -
  let ?k = "packet_addr w (npackets w)" and ?skb = "pk_skb p" and ?m = "pk_mem p"
  from assms obtain d where d: "skb_data ?skb = skb_head ?skb + of_nat d" "d + length f \<le> unat (true_size ?skb - SKB_SIZE)"
    and f: "get_bytes ?m (skb_data ?skb) (length f) = f" by (auto simp: frame_in_def)
  define xs where "xs = get_bytes ?m (skb_head ?skb) (unat (true_size ?skb - SKB_SIZE))"
  obtain p' where p': "clone_packet p w = (p', w\<lparr>npackets := Suc (npackets w)\<rparr>)" "skb_head (pk_skb p') = ?k"
      "skb_data (pk_skb p') = ?k + of_nat d" "true_size (pk_skb p') = true_size ?skb" "pk_mem p' = write_bytes xs ?k ?m"
    using d(1) by (simp add: clone_packet_def skb_clone_def xs_def Let_def split_beta)
  have len: "length xs = unat (true_size ?skb - SKB_SIZE)" by (simp add: xs_def get_bytes_def)
  have "same_bytes ?m (skb_head ?skb) (pk_mem p') ?k (length xs)"
    unfolding p'(5) using u32_bound [of "true_size ?skb - SKB_SIZE"] len by (intro same_written) (simp_all add: xs_def get_bytes_def)
  then have same: "same_bytes ?m (skb_data ?skb) (pk_mem p') (skb_data (pk_skb p')) (length f)"
    using same_bytes_sub [of ?m "skb_head ?skb" "pk_mem p'" ?k "length xs" d "length f"] d len by (simp add: p'(3))
  then have "get_bytes (pk_mem p') (skb_data (pk_skb p')) (length f) = f"
    using same_get_bytes [OF same, of 0 "length f"] f by simp
  then have "frame_in f p'" using d(2) p'(2-4) by (auto simp: frame_in_def)
  with p'(1) same show ?thesis by (intro that)
qed

lemma enqueue_ok:
  assumes "sched_ok (nsched (base w)) Q"
  obtains sc Q' where "enqueue_packet i p w =
      Some (0, w\<lparr>sockets := (sockets w)(i := (sockets w i)\<lparr>sk_rx_queue := sk_rx_queue (sockets w i) @ [p]\<rparr>), base := (base w)\<lparr>nsched := sc\<rparr>\<rparr>)"
    "sched_ok sc Q'"
proof -
  from keeps_okD [OF keeps_ok_update_thread [of "sk_owner (sockets w i)" THREAD_READY] assms] obtain sc Q' where
    "update_thread (sk_owner (sockets w i)) THREAD_READY (nsched (base w)) = Some sc" "sched_ok sc Q'" by metis
  then show ?thesis by (intro that [of sc Q']) (simp_all add: enqueue_packet_def wake_def)
qed

definition datagram_socket :: "socket \<Rightarrow> bool" where
  "datagram_socket s \<longleftrightarrow> sk_ops s \<in> {Some udp_proto_ops, Some raw_proto_ops, Some packet_proto_ops}"

text \<open>What a handler may do: put something into the queue of its socket and wake its owner.\<close>

definition handled :: "nat \<Rightarrow> net_world \<Rightarrow> net_world \<Rightarrow> bool" where
  "handled i w w' \<longleftrightarrow> (\<exists>q sc Q. w' = w\<lparr>sockets := (sockets w)(i := (sockets w i)\<lparr>sk_rx_queue := sk_rx_queue (sockets w i) @ q\<rparr>), base := (base w)\<lparr>nsched := sc\<rparr>\<rparr> \<and>
     sched_ok sc Q)"

lemma handled_refl: "sched_ok (nsched (base w)) Q \<Longrightarrow> handled i w w"
  unfolding handled_def by (rule exI [of _ "[]"], rule exI [of _ "nsched (base w)"], rule exI [of _ Q]) simp

lemma enqueue_handled: "sched_ok (nsched (base w)) Q \<Longrightarrow> \<exists>w'. enqueue_packet i p w = Some (0, w') \<and> handled i w w'"
  by (rule enqueue_ok [of w Q i p]) (auto simp: handled_def)

lemma handler_handled:
  assumes s: "datagram_socket (sockets w i)" and ok: "sched_ok (nsched (base w)) Q"
  shows "\<exists>ret w'. handler i p w = Some (ret, w') \<and> handled i w w'"
proof -
  define P where "P x \<longleftrightarrow> (\<exists>ret w'. x = Some (ret :: int, w') \<and> handled i w w')" for x
  have e: "P (enqueue_packet i p' w)" for p' using enqueue_handled [OF ok, of i p'] unfolding P_def by blast
  have r: "P (Some (ret, w))" for ret using handled_refl [OF ok] unfolding P_def by blast
  from s consider "sk_ops (sockets w i) = Some udp_proto_ops" | "sk_ops (sockets w i) = Some raw_proto_ops" | "sk_ops (sockets w i) = Some packet_proto_ops"
    by (auto simp: datagram_socket_def)
  then have "P (handler i p w)"
  proof cases
    case 1
    then have "handler i p w = udp_handler i p w" by (simp add: handler_def)
    then show ?thesis by (simp add: udp_handler_def Let_def split_beta e r)
  next
    case 2
    then have "handler i p w = raw_handler i p w" by (simp add: handler_def)
    then show ?thesis by (simp add: raw_handler_def Let_def split_beta e r)
  next
    case 3
    then have "handler i p w = packet_handler i p w" by (simp add: handler_def)
    then show ?thesis by (simp add: packet_handler_def Let_def split_beta e r)
  qed
  then show ?thesis unfolding P_def .
qed

text \<open>A datagram in the queue of a socket.\<close>

definition datagram :: "sockaddr_in \<Rightarrow> sockaddr_in \<Rightarrow> u8 list \<Rightarrow> packet \<Rightarrow> bool" where
  "datagram sa da msg p \<longleftrightarrow> (\<exists>e. skb_h (pk_skb p) = e + 34 \<and> udp_frame sa da msg e (pk_mem p))"

definition addressed :: "sockaddr_in \<Rightarrow> sockaddr_in \<Rightarrow> socket \<Rightarrow> bool" where
  "addressed sa da s \<longleftrightarrow> sk_ops s = Some udp_proto_ops \<and> sk_state s \<noteq> SS_DISCONNECTED \<and> sk_ssin s = da \<and> sk_dsin s = sa"

lemma udp_handler_frame:
  assumes f: "udp_frame sa da msg (skb_data (pk_skb p)) (pk_mem p)" and l: "length msg \<le> 65507" and st: "sk_state (sockets w i) \<noteq> SS_DISCONNECTED"
  shows "\<exists>p'. datagram sa da msg p' \<and>
    udp_handler i p w = (if sk_ssin (sockets w i) = da \<and> sk_dsin (sockets w i) = sa then enqueue_packet i p' w else Some (0, w))"
proof -
  let ?e = "skb_data (pk_skb p)" and ?m = "pk_mem p"
  let ?skb = "skb_pull IP4_SIZE ((skb_pull ETH_SIZE ((pk_skb p)\<lparr>skb_mac := ?e\<rparr>))\<lparr>skb_nh := ?e + 14\<rparr>)"
  note fr = f [unfolded udp_frame_def]
  let ?ck = "transport_calculate_checksum (st16 (?e + 40) 0 ?m) (?e + 34) (of_nat (8 + length msg)) IP4_PROTOCAL_UDP (sin_addr sa) (sin_addr da)"
  have ck: "ld16 ?m (?e + 40) = ?ck" using fr by blast
  have "st16 (?e + 40) ?ck ?m = ?m" unfolding ck [symmetric] by (rule st16_ld16)
  then have v: "udp_validate_header (?e + 34) (sin_addr sa) (sin_addr da) ?m = (0, ?m)"
    using fr by (simp add: udp_validate_header_def udp_calculate_checksum_def Let_def add.assoc)
  have eq: "sin_addr da = sin_addr s1 \<and> sin_port da = sin_port s1 \<and> sin_addr sa = sin_addr s2 \<and> sin_port sa = sin_port s2 \<longleftrightarrow> s1 = da \<and> s2 = sa"
    for s1 s2 :: sockaddr_in by (cases s1; cases s2; cases sa; cases da) auto
  have "udp_handler i p w = (if sk_ssin (sockets w i) = da \<and> sk_dsin (sockets w i) = sa
      then enqueue_packet i \<lparr>pk_skb = ?skb\<lparr>skb_h := ?e + 34\<rparr>, pk_mem = ?m\<rparr> w else Some (0, w))"
    using fr v st eq by (simp add: udp_handler_def ethernet_rcv_def ip4_rcv_def skb_pull_def ETH_SIZE_def IP4_SIZE_def Let_def add.assoc)
  moreover have "datagram sa da msg \<lparr>pk_skb = ?skb\<lparr>skb_h := ?e + 34\<rparr>, pk_mem = ?m\<rparr>" using f by (auto simp: datagram_def)
  ultimately show ?thesis by blast
qed

text \<open>What the sockets hold after they were offered a datagram.\<close>

definition took :: "sockaddr_in \<Rightarrow> sockaddr_in \<Rightarrow> u8 list \<Rightarrow> socket \<Rightarrow> socket \<Rightarrow> bool" where
  "took sa da msg s s' \<longleftrightarrow> (\<exists>q. s' = s\<lparr>sk_rx_queue := sk_rx_queue s @ q\<rparr> \<and>
     (sk_ops s = Some udp_proto_ops \<longrightarrow> (if addressed sa da s then \<exists>p'. q = [p'] \<and> datagram sa da msg p' else q = [])))"

definition offered :: "sockaddr_in \<Rightarrow> sockaddr_in \<Rightarrow> u8 list \<Rightarrow> nat list \<Rightarrow> net_world \<Rightarrow> net_world \<Rightarrow> bool" where
  "offered sa da msg is w w' \<longleftrightarrow>
     (\<forall>k. k \<notin> set is \<longrightarrow> sockets w' k = sockets w k) \<and>
     (\<forall>k \<in> set is. took sa da msg (sockets w k) (sockets w' k)) \<and>
     lsocket w' = lsocket w \<and> current_netdev w' = current_netdev w \<and> net_thread w' = net_thread w \<and> sent w' = sent w"

lemma handled_fields:
  assumes "handled i w w'"
  obtains q sc Q where "sockets w' = (sockets w)(i := (sockets w i)\<lparr>sk_rx_queue := sk_rx_queue (sockets w i) @ q\<rparr>)" "sched_ok (nsched (base w')) Q"
    "lsocket w' = lsocket w" "current_netdev w' = current_netdev w" "net_thread w' = net_thread w" "sent w' = sent w"
  using assms unfolding handled_def by fastforce

lemma handler_frame:
  assumes f: "udp_frame sa da msg (skb_data (pk_skb p)) (pk_mem p)" and l: "length msg \<le> 65507" and s: "datagram_socket (sockets w i)"
    and ok: "sched_ok (nsched (base w)) Q"
  obtains ret w' Q' where "handler i p w = Some (ret, w')" "offered sa da msg [i] w w'" "sched_ok (nsched (base w')) Q'"
proof (cases "sk_ops (sockets w i) = Some udp_proto_ops \<and> sk_state (sockets w i) \<noteq> SS_DISCONNECTED")
  case True
  then have st: "sk_state (sockets w i) \<noteq> SS_DISCONNECTED" by simp
  from udp_handler_frame [OF f l, of w i, OF st] obtain p' where p': "datagram sa da msg p'"
    "udp_handler i p w = (if sk_ssin (sockets w i) = da \<and> sk_dsin (sockets w i) = sa then enqueue_packet i p' w else Some (0, w))" by blast
  have h: "handler i p w = udp_handler i p w" using True by (simp add: handler_def)
  show ?thesis
  proof (cases "sk_ssin (sockets w i) = da \<and> sk_dsin (sockets w i) = sa")
    case match: True
    obtain sc Q' where "enqueue_packet i p' w =
      Some (0, w\<lparr>sockets := (sockets w)(i := (sockets w i)\<lparr>sk_rx_queue := sk_rx_queue (sockets w i) @ [p']\<rparr>), base := (base w)\<lparr>nsched := sc\<rparr>\<rparr>)"
      "sched_ok sc Q'" by (rule enqueue_ok [OF ok])
    moreover have "took sa da msg (sockets w i) ((sockets w i)\<lparr>sk_rx_queue := sk_rx_queue (sockets w i) @ [p']\<rparr>)"
      unfolding took_def using p'(1) match True by (intro exI [of _ "[p']"]) (simp add: addressed_def)
    ultimately show ?thesis using h p'(2) match by (intro that) (auto simp: offered_def)
  next
    case False
    then show ?thesis using h p'(2) True ok by (intro that [of 0 w Q]) (auto simp: offered_def took_def addressed_def)
  qed
next
  case False
  from handler_handled [OF s ok, of p] obtain ret w' where h: "handler i p w = Some (ret, w')" "handled i w w'" by blast
  show ?thesis
  proof (cases "sk_ops (sockets w i) = Some udp_proto_ops")
    case True
    then have "handler i p w = Some (- ESHUTDOWN, w)" using False by (simp add: handler_def udp_handler_def)
    then show ?thesis using False True ok by (intro that [of "- ESHUTDOWN" w Q]) (auto simp: offered_def took_def addressed_def)
  next
    case other: False
    from h(2) show ?thesis by (rule handled_fields) (use other in \<open>intro that [OF h(1)], auto simp: offered_def took_def addressed_def\<close>)
  qed
qed

lemma offered_trans:
  assumes o: "offered sa da msg [i] w w1" "offered sa da msg is w1 w'" "i \<notin> set is"
  shows "offered sa da msg (i # is) w w'"
proof -
  have 1: "sockets w1 k = sockets w k" if "k \<noteq> i" for k using o(1) that by (auto simp: offered_def)
  have 2: "sockets w' k = sockets w1 k" if "k \<notin> set is" for k using o(2) that by (auto simp: offered_def)
  have "took sa da msg (sockets w k) (sockets w' k)" if "k \<in> set (i # is)" for k
  proof (cases "k = i")
    case True
    then show ?thesis using o(1) 2 [of i] o(3) by (auto simp: offered_def)
  next
    case False
    then show ?thesis using o(2) 1 [of k] that by (auto simp: offered_def)
  qed
  then show ?thesis using o 1 2 by (auto simp: offered_def)
qed

lemma offer_frame:
  assumes "frame_in f p" "length f = 42 + length msg" "udp_frame sa da msg (skb_data (pk_skb p)) (pk_mem p)" "length msg \<le> 65507"
    "\<forall>i \<in> set is. datagram_socket (sockets w i)" "distinct is" "sched_ok (nsched (base w)) Q"
  shows "\<exists>w' Q'. offer p is w = Some w' \<and> offered sa da msg is w w' \<and> sched_ok (nsched (base w')) Q'"
  using assms
proof (induction "is" arbitrary: w Q)
  case Nil
  then show ?case by (auto simp: offered_def)
next
  case (Cons i "is")
  obtain p' where p': "clone_packet p w = (p', w\<lparr>npackets := Suc (npackets w)\<rparr>)" "frame_in f p'"
    "same_bytes (pk_mem p) (skb_data (pk_skb p)) (pk_mem p') (skb_data (pk_skb p')) (length f)"
    by (rule clone_packet_frame [OF Cons.prems(1)])
  let ?w = "w\<lparr>npackets := Suc (npackets w)\<rparr>"
  have f: "udp_frame sa da msg (skb_data (pk_skb p')) (pk_mem p')"
    using udp_frame_move [OF Cons.prems(3) p'(3) [unfolded Cons.prems(2)] Cons.prems(4)] .
  have d: "datagram_socket (sockets ?w i)" "sched_ok (nsched (base ?w)) Q" using Cons.prems(5,7) by simp_all
  obtain ret w1 Q1 where h: "handler i p' ?w = Some (ret, w1)" "offered sa da msg [i] ?w w1" "sched_ok (nsched (base w1)) Q1"
    by (rule handler_frame [OF f Cons.prems(4) d])
  have o1: "offered sa da msg [i] w w1" using h(2) by (simp add: offered_def)
  have "datagram_socket (sockets w1 k)" if "k \<in> set is" for k
  proof -
    have "sockets w1 k = sockets w k" using o1 that Cons.prems(6) by (auto simp: offered_def)
    then show ?thesis using Cons.prems(5) that by simp
  qed
  then obtain w' Q' where "offer p is w1 = Some w'" "offered sa da msg is w1 w'" "sched_ok (nsched (base w')) Q'"
    using Cons.IH [of w1 Q1] Cons.prems(1-4,6) h(3) by auto
  then show ?case using p'(1) h(1) offered_trans [OF o1] Cons.prems(6) by auto
qed

lemma default_rx_udp:
  assumes "udp_frame sa da msg (skb_data (pk_skb p)) (pk_mem p)"
  shows "net_default_rx_handler stale p w = Some (0, w)"
  using assms by (simp add: net_default_rx_handler_def ethernet_rcv_def ip4_rcv_def skb_pull_def ETH_SIZE_def udp_frame_def
      IP4_PROTOCAL_UDP_def IP4_PROTOCAL_ICMP_def Let_def)

lemma wake_ok:
  assumes "sched_ok (nsched (base w)) Q"
  obtains sc Q' where "wake t st w = Some (w\<lparr>base := (base w)\<lparr>nsched := sc\<rparr>\<rparr>)" "sched_ok sc Q'"
proof -
  from keeps_okD [OF keeps_ok_update_thread [of t st] assms] obtain sc Q' where
    "update_thread t st (nsched (base w)) = Some sc" "sched_ok sc Q'" by metis
  then show ?thesis by (intro that [of sc Q']) (simp_all add: wake_def)
qed

lemma net_rx_round_udp:
  assumes rx: "lrx_skb w = [p]" "frame_in f p" "length f = 42 + length msg" "udp_frame sa da msg (skb_data (pk_skb p)) (pk_mem p)" "length msg \<le> 65507"
    and s: "\<forall>i \<in> set (lsocket w). datagram_socket (sockets w i)" "distinct (lsocket w)"
    and ok: "sched_ok (nsched (base w)) Q" and irqs: "\<forall>irq \<in> set irqs. keeps_ok irq" "keeps_ok hs"
  obtains w' Q' where "net_rx_round hs irqs stale w = Some w'" "lrx_skb w' = []" "offered sa da msg (lsocket w) w w'" "sched_ok (nsched (base w')) Q'"
proof -
  let ?w1 = "w\<lparr>base := (base w)\<lparr>nsched := lock_scheduler (nsched (base w))\<rparr>\<rparr>"
  have "sched_ok (nsched (base ?w1)) Q" using ok by simp
  from offer_frame [OF rx(2-5), of "lsocket w" ?w1, OF _ s(2) this] s(1) obtain w2 Q2 where
    w2: "offer p (lsocket w) ?w1 = Some w2" "offered sa da msg (lsocket w) ?w1 w2" "sched_ok (nsched (base w2)) Q2" by auto
  have dp: "deliver_packets stale (lrx_skb ?w1) ?w1 = Some w2"
    using rx(1) w2(1) default_rx_udp [OF rx(4), of stale w2] by simp
  have "sched_ok (nsched (base (w2\<lparr>lrx_skb := []\<rparr>))) Q2" using w2(3) by simp
  then obtain sc Q3 where w3: "wake (net_thread w2) THREAD_WAITING (w2\<lparr>lrx_skb := []\<rparr>) = Some (w2\<lparr>lrx_skb := [], base := (base w2)\<lparr>nsched := sc\<rparr>\<rparr>)"
    "sched_ok sc Q3" by (rule wake_ok [where t = "net_thread w2" and st = THREAD_WAITING]) simp
  have "sched_ok (unlock_scheduler sc) Q3" using w3(2) by simp
  from schedule_total [OF this irqs] obtain s2 Q4 where s2: "schedule hs irqs (unlock_scheduler sc) = Some s2" "sched_ok s2 Q4" by blast
  show ?thesis
    by (rule that [of "w2\<lparr>lrx_skb := [], base := (base w2)\<lparr>nsched := s2\<rparr>\<rparr>" Q4])
      (use dp w3(1) s2 w2(2) in \<open>simp_all add: net_rx_round_def offered_def\<close>)
qed

lemma udp_receives:
  assumes "sk_state (sockets w i) \<noteq> SS_DISCONNECTED" "sk_rx_queue (sockets w i) = p # q" "datagram sa da msg p" "length msg \<le> 65507" "length msg \<le> unat len"
  shows "udp_recvmsg hs irqs i len w = Some (Got (int (length msg)) msg, upd_sock i (\<lambda>s. s\<lparr>sk_rx_queue := q\<rparr>) w)"
proof -
  from assms(3) obtain e where e: "skb_h (pk_skb p) = e + 34" "udp_frame sa da msg e (pk_mem p)" by (auto simp: datagram_def)
  let ?n = "of_nat (length msg) :: u32"
  have "unat (of_nat (8 + length msg) :: u16) = 8 + length msg" using assms(4) by (intro unat_of_nat_u16) simp
  then have "ucast (of_nat (8 + length msg) :: u16) = (of_nat (8 + length msg) :: u32)" by (metis of_nat_unat)
  then have "ucast (htons (ld16 (pk_mem p) (e + 38))) - UDP_SIZE = ?n" using e(2) by (simp add: udp_frame_def UDP_SIZE_def)
  moreover have n: "unat ?n = length msg" using assms(4) by (intro unat_of_nat_u32) simp
  moreover have "sint ?n = int (length msg)" using n assms(4) by (subst sint_small) (simp_all add: word_less_nat_alt uint_nat)
  moreover have "min len ?n = ?n" using n assms(5) by (intro min_absorb2) (simp add: word_le_nat_alt)
  ultimately show ?thesis using assms(1,2) e by (simp add: udp_recvmsg_def udp_frame_def UDP_SIZE_def Let_def add.assoc)
qed

lemma udp_frame_of_bytes:
  assumes fr: "udp_frame sa da msg e m" and f: "f = get_bytes m e (42 + length msg)" and p: "frame_in f p" and l: "length msg \<le> 65507"
  shows "udp_frame sa da msg (skb_data (pk_skb p)) (pk_mem p)"
proof (rule udp_frame_move [OF fr _ l])
  have len: "length f = 42 + length msg" by (simp add: f get_bytes_def)
  then have "get_bytes m e (42 + length msg) = get_bytes (pk_mem p) (skb_data (pk_skb p)) (42 + length msg)"
    using p f by (simp add: frame_in_def)
  then show "same_bytes m e (pk_mem p) (skb_data (pk_skb p)) (42 + length msg)" by (simp add: get_bytes_def same_bytes_def)
qed

text \<open>C6: a datagram arrives where it is addressed to. What \<open>udp_sendmsg\<close> gives to the network card of one machine is, once it is in the
  receive queue of another machine and the receiving thread has run, what \<open>udp_recvmsg\<close> returns on the socket with these two
  addresses; the queues of other UDP sockets do not change.\<close>

theorem udp_datagram_delivered:
  assumes a: "sk_state (sockets wa i) \<noteq> SS_DISCONNECTED" "routed (sin_addr (sk_dsin (sockets wa i))) (current_netdev wa)"
    and l: "length msg \<le> 65507" "length msg \<le> unat len"
    and b: "lrx_skb wb = []" "\<forall>k \<in> set (lsocket wb). datagram_socket (sockets wb k)" "distinct (lsocket wb)"
      "j \<in> set (lsocket wb)" "addressed (sk_ssin (sockets wa i)) (sk_dsin (sockets wa i)) (sockets wb j)" "sk_rx_queue (sockets wb j) = []"
    and ok: "sched_ok (nsched (base wb)) Q" and irqs: "\<forall>irq \<in> set irqs. keeps_ok irq" "keeps_ok hs"
  shows "\<exists>wa' f wb1 wb2. udp_sendmsg hs irqs i msg wa = Some (Done 0, wa') \<and> sent wa' = sent wa @ [f] \<and>
    net_rx_round hs irqs stale (push_rx_queue f wb) = Some wb1 \<and> lrx_skb wb1 = [] \<and>
    udp_recvmsg hs irqs j len wb1 = Some (Got (int (length msg)) msg, wb2) \<and> sk_rx_queue (sockets wb2 j) = [] \<and>
    (\<forall>k. sk_ops (sockets wb k) = Some udp_proto_ops \<and> \<not> addressed (sk_ssin (sockets wa i)) (sk_dsin (sockets wa i)) (sockets wb k) \<longrightarrow>
       sk_rx_queue (sockets wb1 k) = sk_rx_queue (sockets wb k))"
proof -
  let ?sa = "sk_ssin (sockets wa i)" and ?da = "sk_dsin (sockets wa i)"
  obtain wa' e m where sd: "udp_sendmsg hs irqs i msg wa = Some (Done 0, wa')" "sent wa' = sent wa @ [get_bytes m e (42 + length msg)]"
    "udp_frame ?sa ?da msg e m" by (rule udp_sends [OF a l(1)])
  define f where "f = get_bytes m e (42 + length msg)"
  have lf: "length f = 42 + length msg" by (simp add: f_def get_bytes_def)
  have "length f < 4294967000" using lf l(1) by simp
  then obtain p where p: "push_rx_queue f wb = wb\<lparr>npackets := Suc (npackets wb), lrx_skb := lrx_skb wb @ [p]\<rparr>" "frame_in f p"
    by (rule push_rx_queue_frame)
  let ?wb = "wb\<lparr>npackets := Suc (npackets wb), lrx_skb := lrx_skb wb @ [p]\<rparr>"
  have fr: "udp_frame ?sa ?da msg (skb_data (pk_skb p)) (pk_mem p)" by (rule udp_frame_of_bytes [OF sd(3) f_def p(2) l(1)])
  have pre: "lrx_skb ?wb = [p]" "\<forall>k \<in> set (lsocket ?wb). datagram_socket (sockets ?wb k)" "distinct (lsocket ?wb)" "sched_ok (nsched (base ?wb)) Q"
    using b(1-3) ok by simp_all
  obtain wb1 Q' where r: "net_rx_round hs irqs stale ?wb = Some wb1" "lrx_skb wb1 = []" "offered ?sa ?da msg (lsocket ?wb) ?wb wb1"
    by (rule net_rx_round_udp [OF pre(1) p(2) lf fr l(1) pre(2-4) irqs])
  have took: "took ?sa ?da msg (sockets wb k) (sockets wb1 k)" if "k \<in> set (lsocket wb)" for k using r(3) that by (simp add: offered_def)
  obtain p' where p': "sockets wb1 j = (sockets wb j)\<lparr>sk_rx_queue := [p']\<rparr>" "datagram ?sa ?da msg p'"
    using took [OF b(4)] b(5,6) by (auto simp: took_def addressed_def)
  have "sk_state (sockets wb1 j) \<noteq> SS_DISCONNECTED" "sk_rx_queue (sockets wb1 j) = [p']" using p'(1) b(5) by (simp_all add: addressed_def)
  from udp_receives [OF this p'(2) l] have rc: "udp_recvmsg hs irqs j len wb1 = Some (Got (int (length msg)) msg, upd_sock j (\<lambda>s. s\<lparr>sk_rx_queue := []\<rparr>) wb1)" .
  have "sk_rx_queue (sockets wb1 k) = sk_rx_queue (sockets wb k)" if "sk_ops (sockets wb k) = Some udp_proto_ops" "\<not> addressed ?sa ?da (sockets wb k)" for k
  proof (cases "k \<in> set (lsocket wb)")
    case True
    then show ?thesis using took [OF True] that by (auto simp: took_def)
  next
    case False
    then show ?thesis using r(3) by (simp add: offered_def)
  qed
  then show ?thesis
    using sd(1) sd(2) [folded f_def] r(1) [folded p(1)] r(2) rc
    by (intro exI [of _ wa'] exI [of _ f] exI [of _ wb1] exI [of _ "upd_sock j (\<lambda>s. s\<lparr>sk_rx_queue := []\<rparr>) wb1"]) simp
qed

definition dev_example :: net_device where
  "dev_example = \<lparr>dev_state = 4, dev_addr = replicate 6 1, broadcast_addr = replicate 6 255, zero_addr = replicate 6 0, router_addr = replicate 6 2,
     dns_server_ip = 0, local_ip = 0x0A00020F, subnet_mask = 0xFFFFFF00\<rparr>"

definition net_example :: "sockaddr_in \<Rightarrow> sockaddr_in \<Rightarrow> net_world" where
  "net_example own peer =
     \<lparr>sockets = (\<lambda>_. \<lparr>sk_protocol = 0, sk_type = SOCK_DGRAM, sk_state = SS_CONNECTED, sk_ops = Some udp_proto_ops, sk_owner = 1, sk_rx_queue = [],
        sk_ssin = own, sk_dsin = peer, sk_sll_addr = [], sk_tcp = None\<rparr>),
      next_socket = 1, lsocket = [0], lrx_skb = [], lneighbour = [], current_netdev = dev_example, net_thread = 2, sent = [],
      packet_addr = (\<lambda>n. 0x1000 * of_nat n), npackets = 0, pool = (\<lambda>_. 0), fd_files = (\<lambda>_ _. None), base = world_example (sock_example 0 0)\<rparr>"

theorem udp_datagram_delivered_witness:
  "\<exists>wa' f wb1 wb2.
     udp_sendmsg Some [] 0 [104, 105] (net_example \<lparr>sin_port = 1, sin_addr = 0x0A00020F\<rparr> \<lparr>sin_port = 7, sin_addr = 0x08080808\<rparr>) = Some (Done 0, wa') \<and>
     sent wa' = [f] \<and>
     net_rx_round Some [] False (push_rx_queue f (net_example \<lparr>sin_port = 7, sin_addr = 0x08080808\<rparr> \<lparr>sin_port = 1, sin_addr = 0x0A00020F\<rparr>)) = Some wb1 \<and>
     udp_recvmsg Some [] 0 64 wb1 = Some (Got 2 [104, 105], wb2)"
proof -
  let ?a = "\<lparr>sin_port = 1, sin_addr = 0x0A00020F\<rparr> :: sockaddr_in" and ?b = "\<lparr>sin_port = 7, sin_addr = 0x08080808\<rparr> :: sockaddr_in"
  have a: "sk_state (sockets (net_example ?a ?b) 0) \<noteq> SS_DISCONNECTED"
    "routed (sin_addr (sk_dsin (sockets (net_example ?a ?b) 0))) (current_netdev (net_example ?a ?b))" "sent (net_example ?a ?b) = []"
    by (simp_all add: net_example_def routed_def dev_example_def)
  have b: "lrx_skb (net_example ?b ?a) = []" "\<forall>k \<in> set (lsocket (net_example ?b ?a)). datagram_socket (sockets (net_example ?b ?a) k)"
    "distinct (lsocket (net_example ?b ?a))" "0 \<in> set (lsocket (net_example ?b ?a))"
    "addressed (sk_ssin (sockets (net_example ?a ?b) 0)) (sk_dsin (sockets (net_example ?a ?b) 0)) (sockets (net_example ?b ?a) 0)"
    "sk_rx_queue (sockets (net_example ?b ?a) 0) = []"
    by (simp_all add: net_example_def datagram_socket_def addressed_def)
  have ok: "sched_ok (nsched (base (net_example ?b ?a))) ((\<lambda>_. [])(app_ready_list := [1, 2]))"
    by (simp only: net_example_def net_world.simps world_example_sched)
  have l: "length [104, 105 :: u8] \<le> 65507" "length [104, 105 :: u8] \<le> unat (64 :: u32)" "\<forall>irq \<in> set []. keeps_ok irq" by simp_all
  from udp_datagram_delivered [OF a(1,2) l(1,2) b ok l(3) keeps_ok_Some, of False] a(3) show ?thesis by auto
qed

section \<open>Echo requests\<close>

definition echo_request :: "u8 list \<Rightarrow> u32 \<Rightarrow> u32 \<Rightarrow> u32 \<Rightarrow> u8 list \<Rightarrow> u32 \<Rightarrow> mem \<Rightarrow> bool" where
  "echo_request mac source dest rest payload e m \<longleftrightarrow>
     get_bytes m (e + 6) 6 = mac \<and> ld16 m (e + 12) = htons ETH_P_IP \<and> ip_total_length m (e + 14) = htons (of_nat (28 + length payload)) \<and>
     ip_protocal m (e + 14) = IP4_PROTOCAL_ICMP \<and> ip_source_ip m (e + 14) = htonl source \<and> ip_dest_ip m (e + 14) = htonl dest \<and>
     m (e + 34) = ICMP_REQUEST \<and> m (e + 35) = 0 \<and> ld32 m (e + 38) = rest \<and> get_bytes m (e + 42) (length payload) = payload"

definition echo_reply :: "u8 list \<Rightarrow> u8 list \<Rightarrow> u32 \<Rightarrow> u32 \<Rightarrow> u32 \<Rightarrow> u8 list \<Rightarrow> u32 \<Rightarrow> mem \<Rightarrow> bool" where
  "echo_reply own mac source dest rest payload e m \<longleftrightarrow>
     get_bytes m e 6 = mac \<and> get_bytes m (e + 6) 6 = own \<and> ld16 m (e + 12) = htons ETH_P_IP \<and>
     ip4_validate_header (e + 14) IP4_PROTOCAL_ICMP m = (0, m) \<and> ip_total_length m (e + 14) = htons (of_nat (28 + length payload)) \<and>
     ip_source_ip m (e + 14) = htonl source \<and> ip_dest_ip m (e + 14) = htonl dest \<and>
     m (e + 34) = ICMP_REPLY \<and> m (e + 35) = 0 \<and> ld16 m (e + 36) = singular_checksum (st16 (e + 36) 0 m) (e + 34) (of_nat (8 + length payload)) \<and>
     ld32 m (e + 38) = rest \<and> get_bytes m (e + 42) (length payload) = payload"

text \<open>The packet that \<open>icmp_reply\<close> builds.\<close>

lemma icmp_create_packet_read:
  assumes l: "length payload \<le> 65507" and z: "m (icmp + 2) = 0" "m (icmp + 3) = 0" and m': "m' = icmp_create_packet icmp type rest payload m"
  shows "m' icmp = type" "m' (icmp + 1) = 0" "ld32 m' (icmp + 4) = htonl rest" "get_bytes m' (icmp + 8) (length payload) = payload"
    "ld16 m' (icmp + 2) = singular_checksum (st16 (icmp + 2) 0 m') icmp (of_nat (8 + length payload))"
    "\<And>x. (\<And>j. j < 8 + length payload \<Longrightarrow> x \<noteq> icmp + of_nat j) \<Longrightarrow> m' x = m x"
proof -
  define m3 where "m3 = st32 (icmp + 4) (htonl rest) (m(icmp := type, icmp + 1 := 0))"
  define m4 where "m4 = write_bytes payload (icmp + 8) m3"
  have m'4: "m' = st16 (icmp + 2) (singular_checksum m4 icmp (of_nat (8 + length payload))) m4"
    by (simp add: m' icmp_create_packet_def Let_def ICMP_SIZE_def m4_def m3_def)
  have ag: "agree m4 m3 icmp 8" using agree_write_bytes [of 0 8 8 payload icmp m3] l by (simp add: m4_def)
  have st: "m' x = m4 x" if "x \<noteq> icmp + 2" "x \<noteq> icmp + 3" for x using that by (simp add: m'4 st16_def ac_simps)
  have m3: "m3 icmp = type" "m3 (icmp + 1) = 0" "ld32 m3 (icmp + 4) = htonl rest" "m3 (icmp + 2) = 0" "m3 (icmp + 3) = 0"
    using z by (simp_all add: m3_def mem_simps)
  have m4: "m4 icmp = type" "m4 (icmp + 1) = 0" "ld32 m4 (icmp + 4) = htonl rest" "m4 (icmp + 2) = 0" "m4 (icmp + 3) = 0"
    using m3 agreeD [OF ag, of 0] agreeD [OF ag, of 1] agreeD [OF ag, of 2] agreeD [OF ag, of 3] agree_ld32 [OF agree_sub [OF ag, of 4 4]] by simp_all
  show "m' icmp = type" "m' (icmp + 1) = 0" using st m4(1,2) by simp_all
  show "ld32 m' (icmp + 4) = htonl rest" using m4(3) by (simp add: m'4 mem_simps)
  have "ld16 m4 (icmp + 2) = 0" using m4(4,5) by (simp add: ld16_def add.assoc)
  then have "st16 (icmp + 2) 0 m4 = m4" by (metis st16_ld16)
  then show "ld16 m' (icmp + 2) = singular_checksum (st16 (icmp + 2) 0 m') icmp (of_nat (8 + length payload))" by (simp add: m'4)
  have "m' x = m4 x" if x: "\<And>j. j < 2 \<Longrightarrow> x \<noteq> icmp + of_nat (2 + j)" for x using x [of 0] x [of 1] by (intro st) simp_all
  then have "agree m' m4 (icmp + of_nat 8) (length payload)" by (rule agree_outside [where i = 2 and l = 2]) (use l in simp_all)
  from agree_get_bytes [OF this] show "get_bytes m' (icmp + 8) (length payload) = payload" using l by (simp add: m4_def get_write_bytes)
  show "m' x = m x" if x: "\<And>j. j < 8 + length payload \<Longrightarrow> x \<noteq> icmp + of_nat j" for x
  proof -
    have "m' x = m4 x" using x [of 2] x [of 3] by (intro st) simp_all
    also have "\<dots> = m3 x" unfolding m4_def using x [of "8 + _"] l by (intro write_bytes_other) (simp_all add: add.assoc)
    also have "\<dots> = m x" using x [of 0] x [of 1] x [of 4] x [of 5] x [of 6] x [of 7] by (simp add: m3_def st32_def ac_simps)
    finally show ?thesis .
  qed
qed

lemma ethernet_addresses:
  assumes "length own = 6" "length mac = 6"
  shows "get_bytes (ethernet_build_header e proto own mac m) e 6 = mac" "get_bytes (ethernet_build_header e proto own mac m) (e + 6) 6 = own"
proof -
  let ?m = "write_bytes mac e (st16 (e + 12) (htons proto) m)"
  have "agree (write_bytes own (e + of_nat 6) ?m) ?m (e + of_nat 0) 6" by (rule agree_write_bytes) (use assms in simp_all)
  from agree_get_bytes [OF this] show "get_bytes (ethernet_build_header e proto own mac m) e 6 = mac"
    using get_write_bytes [of mac e "st16 (e + 12) (htons proto) m"] assms by (simp add: ethernet_build_header_def)
  show "get_bytes (ethernet_build_header e proto own mac m) (e + 6) 6 = own"
    using get_write_bytes [of own "e + 6" ?m] assms by (simp add: ethernet_build_header_def)
qed

lemma packet_sends:
  assumes s: "sk_state (sockets w i) \<noteq> SS_DISCONNECTED" "sk_type (sockets w i) \<noteq> SOCK_RAW"
    and mac: "length (dev_addr (current_netdev w)) = 6" "length (sk_sll_addr (sockets w i)) = 6" and l: "length msg \<le> 65535"
  obtains e m where "packet_sendmsg i msg w = (0, w\<lparr>npackets := Suc (npackets w), sent := sent w @ [get_bytes m e (14 + length msg)]\<rparr>)"
    "get_bytes m e 6 = sk_sll_addr (sockets w i)" "get_bytes m (e + 6) 6 = dev_addr (current_netdev w)" "ld16 m (e + 12) = htons (sk_protocol (sockets w i))"
    "get_bytes m (e + 14) (length msg) = msg"
proof -
  let ?k = "packet_addr w (npackets w)" and ?n = "length msg"
  obtain d where "WORD_ALIGN (?k + 14) = ?k + 14 + of_nat d" using WORD_ALIGN_offset by blast
  moreover define e where "e = ?k + of_nat d"
  ultimately have al: "WORD_ALIGN (?k + 14) = e + 14" by (simp add: ac_simps)
  define m1 where "m1 = write_bytes msg (e + 14) (clear_bytes ?k (14 + of_nat ?n + WORD_SIZE) (pool w))"
  define m where "m = ethernet_build_header e (sk_protocol (sockets w i)) (dev_addr (current_netdev w)) (sk_sll_addr (sockets w i)) m1"
  have "unat (of_nat (14 + ?n) :: u32) = 14 + ?n" using l by (intro unat_of_nat_u32) simp
  then have snd: "packet_sendmsg i msg w = (0, w\<lparr>npackets := Suc (npackets w), sent := sent w @ [get_bytes m e (14 + ?n)]\<rparr>)"
    using s by (simp add: packet_sendmsg_def alloc_packet_def skb_alloc_def skb_put_def skb_push_def ETH_SIZE_def al ethernet_sendmsg_def m_def m1_def Let_def ac_simps)
  have "m x = m1 x" if "\<And>j. j < 14 \<Longrightarrow> x \<noteq> e + of_nat (0 + j)" for x
    unfolding m_def by (rule ethernet_outside) (use mac that in simp_all)
  then have "agree m m1 (e + of_nat 14) ?n" by (rule agree_outside [where i = 0 and l = 14]) (use l in simp_all)
  from agree_get_bytes [OF this] have "get_bytes m (e + 14) ?n = msg" using l by (simp add: m1_def get_write_bytes)
  with snd show ?thesis
    by (intro that [of m e]) (use mac in \<open>simp_all add: m_def ethernet_addresses ethernet_type\<close>)
qed

text \<open>The bytes of the answer before the Ethernet header.\<close>

lemma echo_reply_moved:
  assumes l: "length payload \<le> 65507" and b1: "b1 = ip4_build_header 0 (of_nat (28 + length payload)) IP4_PROTOCAL_ICMP source dest ident (\<lambda>_. 0)"
    and b2: "b2 = icmp_create_packet 20 ICMP_REPLY (ntohl rest) payload b1"
    and m: "get_bytes m (e + 14) (28 + length payload) = get_bytes b2 0 (28 + length payload)"
    and eth: "get_bytes m e 6 = mac" "get_bytes m (e + 6) 6 = own" "ld16 m (e + 12) = htons ETH_P_IP"
  shows "echo_reply own mac source dest rest payload e m"
proof -
  let ?n = "length payload"
  have out: "b1 (20 + of_nat j) = 0" if "j < 65516" for j
    unfolding b1 using word_offset_neq [of "20 + j" _ 0] that by (intro ip4_build_header_outside [where p = 0, THEN trans]) auto
  have z: "b1 (20 + 2) = 0" "b1 (20 + 3) = 0" using out [of 2] out [of 3] by simp_all
  note ic = icmp_create_packet_read [OF l z b2]
  have same: "same_bytes b2 0 m (e + 14) (28 + ?n)" using m by (simp add: get_bytes_def same_bytes_def)
  have ag: "agree b2 b1 (0 + of_nat 0) 20"
    by (rule agree_outside [where i = 20 and l = "8 + ?n"]) (use ic(6) l in \<open>simp_all add: add.assoc\<close>)
  have hd: "same_bytes b1 0 m (e + 14) 20"
    using agreeD [OF ag] same_bytesD [OF same] by (simp add: same_bytes_def)
  note ip = ip4_build_header_fields [OF b1]
  have "ld16 b1 (0 + 10) = singular_checksum (st16 (0 + 10) 0 b1) 0 20" by (rule ip4_built_checksum [OF _ b1]) (simp add: ld16_def)
  moreover have "same_bytes (st16 (0 + of_nat 10) 0 b1) 0 (st16 (e + 14 + of_nat 10) 0 m) (e + 14) 20" by (rule same_st16 [OF hd]) simp_all
  from same_checksum_start [OF this, of 0 20] have "singular_checksum (st16 (0 + 10) 0 b1) 0 20 = singular_checksum (st16 (e + 14 + 10) 0 m) (e + 14) 20"
    by (simp add: singular_checksum_def)
  ultimately have ck: "ld16 m (e + 14 + 10) = singular_checksum (st16 (e + 14 + 10) 0 m) (e + 14) 20"
    using same_ld16 [OF hd, of 10] by simp
  have v: "ip4_validate_header (e + 14) IP4_PROTOCAL_ICMP m = (0, m)"
    unfolding ip4_validate_zero_iff using ip(1,2,4) ck same_bytesD [OF hd, of 0] same_bytesD [OF hd, of 9]
    by (simp add: ip_version_def ip_ihl_def ip_protocal_def)
  have h: "ip_total_length m (e + 14) = htons (of_nat (28 + ?n))" "ip_source_ip m (e + 14) = htonl source" "ip_dest_ip m (e + 14) = htonl dest"
    using ip(3,5,6) same_ld16 [OF hd, of 2] same_ld32 [OF hd, of 12] same_ld32 [OF hd, of 16]
    by (simp_all add: ip_total_length_def ip_source_ip_def ip_dest_ip_def)
  have u: "unat (of_nat (8 + ?n) :: u16) = 8 + ?n" using l by (intro unat_of_nat_u16) simp
  have "same_bytes (st16 (0 + of_nat 22) 0 b2) 0 (st16 (e + 14 + of_nat 22) 0 m) (e + 14) (28 + ?n)" by (rule same_st16 [OF same]) (use l in simp_all)
  from same_checksum_start [OF this, of 20 "of_nat (8 + ?n)", unfolded u]
  have "singular_checksum (st16 22 0 b2) 20 (of_nat (8 + ?n)) = singular_checksum (st16 (e + 36) 0 m) (e + 34) (of_nat (8 + ?n))"
    by (simp add: singular_checksum_def add.assoc)
  then have ick: "ld16 m (e + 36) = singular_checksum (st16 (e + 36) 0 m) (e + 34) (of_nat (8 + ?n))"
    using ic(5) same_ld16 [OF same, of 22] by (simp add: add.assoc)
  have "m (e + 34) = ICMP_REPLY" "m (e + 35) = 0" "ld32 m (e + 38) = rest" "get_bytes m (e + 42) ?n = payload"
    using ic(1-4) same_bytesD [OF same, of 20] same_bytesD [OF same, of 21] same_ld32 [OF same, of 24] same_get_bytes [OF same, of 28 ?n]
    by (simp_all add: add.assoc)
  then show ?thesis using eth v h ick by (simp add: echo_reply_def)
qed

lemma icmp_reply_sends:
  assumes l: "unat n \<le> 65507" and mac: "length mac = 6" "length (dev_addr (current_netdev w)) = 6" and new: "next_socket w \<notin> set (lsocket w)"
    and fd: "unused_fd (fd_files w (net_process w)) = Some fd"
  obtains w' e m' where "icmp_reply source mac dest ident (ntohl rest) payload n m w = Some w'" "sent w' = sent w @ [get_bytes m' e (42 + unat n)]"
    "echo_reply (dev_addr (current_netdev w)) mac source dest rest (get_bytes m payload (unat n)) e m'"
    "lrx_skb w' = lrx_skb w" "lsocket w' = lsocket w" "\<forall>k. k \<noteq> next_socket w \<longrightarrow> sockets w' k = sockets w k"
    "lneighbour w' = lneighbour w" "base w' = base w" "current_netdev w' = current_netdev w"
    "fd_files w' = (fd_files w)(net_process w := (fd_files w (net_process w))(fd \<mapsto> Socket_file (next_socket w)))"
proof -
  let ?i = "next_socket w" and ?pl = "get_bytes m payload (unat n)"
  obtain w2 where w2: "sys_socket PF_PACKET SOCK_DGRAM ETH_P_IP w = Some (fd, w2)" using fd by (simp add: sys_socket_def Let_def)
  have lk: "sockfd_lookup fd w2 = Some ?i"
    using w2 fd by (auto simp: sockfd_lookup_def sys_socket_def socket_setup_def sock_setup_def Let_def)
  let ?w = "packet_connect ?i mac w2"
  have len: "length ?pl = unat n" by (simp add: get_bytes_def)
  have sk: "sk_state (sockets ?w ?i) \<noteq> SS_DISCONNECTED" "sk_type (sockets ?w ?i) \<noteq> SOCK_RAW" "sk_sll_addr (sockets ?w ?i) = mac"
    "sk_protocol (sockets ?w ?i) = ETH_P_IP" "sent ?w = sent w" "current_netdev ?w = current_netdev w" "lsocket ?w = lsocket w @ [?i]"
    "lrx_skb ?w = lrx_skb w" "\<forall>k. k \<noteq> ?i \<longrightarrow> sockets ?w k = sockets w k" "lneighbour ?w = lneighbour w" "base ?w = base w"
    "fd_files ?w = (fd_files w)(net_process w := (fd_files w (net_process w))(fd \<mapsto> Socket_file ?i))"
    using w2 fd by (auto simp: packet_connect_def sys_socket_def socket_setup_def sock_setup_def PF_PACKET_def PF_INET_def Let_def)
  define b1 where "b1 = ip4_build_header 0 (of_nat (28 + length ?pl)) IP4_PROTOCAL_ICMP source dest ident (\<lambda>_. 0)"
  define b2 where "b2 = icmp_create_packet 20 ICMP_REPLY (ntohl rest) ?pl b1"
  let ?msg = "get_bytes b2 0 (28 + unat n)"
  have lm: "length ?msg = 28 + unat n" by (simp add: get_bytes_def)
  have pr: "length (dev_addr (current_netdev ?w)) = 6" "length (sk_sll_addr (sockets ?w ?i)) = 6" "length ?msg \<le> 65535"
    using sk(3,6) mac l lm by simp_all
  obtain e m' where s: "packet_sendmsg ?i ?msg ?w = (0, ?w\<lparr>npackets := Suc (npackets ?w), sent := sent ?w @ [get_bytes m' e (14 + length ?msg)]\<rparr>)"
    "get_bytes m' e 6 = sk_sll_addr (sockets ?w ?i)" "get_bytes m' (e + 6) 6 = dev_addr (current_netdev ?w)"
    "ld16 m' (e + 12) = htons (sk_protocol (sockets ?w ?i))" "get_bytes m' (e + 14) (length ?msg) = ?msg"
    by (rule packet_sends [OF sk(1,2) pr])
  have tl: "unat (20 + 8 + n) = 28 + unat n" "\<not> 20 + 8 + n < n" "ucast (20 + 8 + n) = (of_nat (28 + unat n) :: u16)"
  proof -
    show a: "unat (20 + 8 + n) = 28 + unat n" using l by (simp add: unat_plus_if')
    then show "\<not> 20 + 8 + n < n" by (simp add: word_less_nat_alt)
    have "20 + 8 + n = of_nat (28 + unat n)" by simp
    then show "ucast (20 + 8 + n) = (of_nat (28 + unat n) :: u16)" using ucast_of_nat_u16 [of "28 + unat n"] l by simp
  qed
  have rp: "icmp_reply source mac dest ident (ntohl rest) payload n m w =
      Some (socket_shutdown ?i (?w\<lparr>npackets := Suc (npackets ?w), sent := sent ?w @ [get_bytes m' e (14 + length ?msg)]\<rparr>))"
    using w2 lk s(1) tl by (simp add: icmp_reply_def IP4_SIZE_def ICMP_SIZE_def b1_def b2_def len)
  have er: "echo_reply (dev_addr (current_netdev w)) mac source dest rest ?pl e m'"
    by (rule echo_reply_moved [OF _ b1_def b2_def]) (use s sk(3,4,6) l len lm in simp_all)
  show ?thesis
    by (rule that [OF rp _ er]) (use sk(5-12) lm new in \<open>simp_all add: socket_shutdown_def Let_def\<close>)
qed

text \<open>C18: a request to the address of the machine, of at most 65507 bytes, is answered as long as the process has a descriptor
  left: \<open>net_default_rx_handler\<close> sends one frame, to the hardware address that the request came from, with valid checksums, the
  addresses exchanged, and the identifier, the sequence number and the data of the request. The sockets in use, the queues and the
  neighbours stay as they were; the first unused descriptor of the process is used up and refers to the socket of the answer,
  which is shut down, and no other descriptor changes. With no descriptor left the handler leaves the table of descriptors.\<close>

theorem ping_answered:
  assumes rq: "echo_request mac source (local_ip (current_netdev w)) rest payload (skb_data (pk_skb p)) (pk_mem p)"
    and l: "length payload \<le> 65507" and dev: "length (dev_addr (current_netdev w)) = 6" and new: "next_socket w \<notin> set (lsocket w)"
  shows "(\<forall>fd. unused_fd (fd_files w (net_process w)) = Some fd \<longrightarrow>
    (\<exists>w' e m. net_default_rx_handler stale p w = Some (0, w') \<and> sent w' = sent w @ [get_bytes m e (42 + length payload)] \<and>
      echo_reply (dev_addr (current_netdev w)) mac (local_ip (current_netdev w)) source rest payload e m \<and>
      lsocket w' = lsocket w \<and> (\<forall>k \<in> set (lsocket w). sockets w' k = sockets w k) \<and> lrx_skb w' = lrx_skb w \<and> lneighbour w' = lneighbour w \<and>
      base w' = base w \<and> next_socket w \<notin> set (lsocket w') \<and>
      fd_files w' = (fd_files w)(net_process w := (fd_files w (net_process w))(fd \<mapsto> Socket_file (next_socket w))))) \<and>
    (unused_fd (fd_files w (net_process w)) = None \<longrightarrow> net_default_rx_handler stale p w = None)"
proof -
  let ?e = "skb_data (pk_skb p)" and ?m = "pk_mem p" and ?n = "of_nat (length payload) :: u32"
  note r = rq [unfolded echo_request_def]
  have n: "unat ?n = length payload" using l by (intro unat_of_nat_u32) simp
  have "unat (of_nat (28 + length payload) :: u16) = 28 + length payload" using l by (intro unat_of_nat_u16) simp
  then have "ucast (of_nat (28 + length payload) :: u16) = (of_nat (28 + length payload) :: u32)" by (metis of_nat_unat)
  then have pl: "ucast (ntohs (ip_total_length ?m (?e + 14))) - IP4_SIZE - ICMP_SIZE = ?n" using r by (simp add: IP4_SIZE_def ICMP_SIZE_def)
  have mac: "length mac = 6" using r by (auto simp: get_bytes_def)
  have pay: "get_bytes ?m (?e + 42) (unat ?n) = payload" using r n by simp
  have n': "unat ?n \<le> 65507" using n l by simp
  let ?id = "ntohl (ucast (ld16 ?m (?e + 18)))"
  let ?reply = "icmp_reply (local_ip (current_netdev w)) mac source ?id (ntohl rest) (?e + 42) ?n ?m w"
  have "answer_icmp (p\<lparr>pk_skb := skb_pull 20 ((skb_pull 14 ((pk_skb p)\<lparr>skb_mac := ?e\<rparr>))\<lparr>skb_nh := ?e + 14\<rparr>)\<rparr>) w = map_option (Pair 0) ?reply"
    using r pl by (simp add: answer_icmp_def icmp_rcv_def icmp_validate_packet_def skb_pull_def ICMP_ECHO_def ICMP_SIZE_def Let_def add.assoc)
  then have handler: "net_default_rx_handler stale p w = map_option (Pair 0) ?reply"
    using r by (simp add: net_default_rx_handler_def ethernet_rcv_def ip4_rcv_def ETH_SIZE_def IP4_SIZE_def skb_pull_def Let_def)
  show ?thesis
  proof (intro conjI allI impI)
    fix fd assume fd: "unused_fd (fd_files w (net_process w)) = Some fd"
    obtain w' e m' where w': "?reply = Some w'"
      "sent w' = sent w @ [get_bytes m' e (42 + unat ?n)]"
      "echo_reply (dev_addr (current_netdev w)) mac (local_ip (current_netdev w)) source rest (get_bytes ?m (?e + 42) (unat ?n)) e m'"
      "lrx_skb w' = lrx_skb w" "lsocket w' = lsocket w" "\<forall>k. k \<noteq> next_socket w \<longrightarrow> sockets w' k = sockets w k"
      "lneighbour w' = lneighbour w" "base w' = base w" "current_netdev w' = current_netdev w"
      "fd_files w' = (fd_files w)(net_process w := (fd_files w (net_process w))(fd \<mapsto> Socket_file (next_socket w)))"
      by (rule icmp_reply_sends [OF n' mac dev new fd])
    have "\<forall>k \<in> set (lsocket w). sockets w' k = sockets w k" using w'(6) new by metis
    then show "\<exists>w' e m. net_default_rx_handler stale p w = Some (0, w') \<and> sent w' = sent w @ [get_bytes m e (42 + length payload)] \<and>
        echo_reply (dev_addr (current_netdev w)) mac (local_ip (current_netdev w)) source rest payload e m \<and>
        lsocket w' = lsocket w \<and> (\<forall>k \<in> set (lsocket w). sockets w' k = sockets w k) \<and> lrx_skb w' = lrx_skb w \<and> lneighbour w' = lneighbour w \<and>
        base w' = base w \<and> next_socket w \<notin> set (lsocket w') \<and>
        fd_files w' = (fd_files w)(net_process w := (fd_files w (net_process w))(fd \<mapsto> Socket_file (next_socket w)))"
      using handler w'(1-5,7,8,10) new pay n by (intro exI [of _ w'] exI [of _ e] exI [of _ m']) simp
  next
    assume "unused_fd (fd_files w (net_process w)) = None"
    then show "net_default_rx_handler stale p w = None" using handler by (simp add: icmp_reply_def sys_socket_def)
  qed
qed

definition ping_example :: packet where
  "ping_example =
     (let xs = [1, 1, 1, 1, 1, 1] @ [3, 3, 3, 3, 3, 3] @ [8, 0] @
            [0x45, 0, 0, 30, 0, 0, 0, 0, 128, 1, 0, 0, 10, 0, 2, 2, 10, 0, 2, 15] @ [8, 0, 0, 0, 0, 1, 0, 2] @ [104, 105]
      in \<lparr>pk_skb = \<lparr>skb_len = 44, true_size = 140, skb_h = 0, skb_nh = 0, skb_mac = 0, skb_head = 0, skb_data = 0, skb_tail = 44, skb_end = 48\<rparr>,
          pk_mem = (\<lambda>a. if unat a < 44 then xs ! unat a else 0)\<rparr>)"

theorem ping_answered_witness:
  "\<exists>w' e m. net_default_rx_handler False ping_example (net_example \<lparr>sin_port = 1, sin_addr = 2\<rparr> \<lparr>sin_port = 3, sin_addr = 4\<rparr>) = Some (0, w') \<and>
     sent w' = [get_bytes m e 44] \<and> echo_reply (replicate 6 1) (replicate 6 3) 0x0A00020F 0x0A000202 0x02000100 [104, 105] e m \<and> fd_files w' 0 0 = Some (Socket_file 1)"
proof -
  let ?w = "net_example \<lparr>sin_port = 1, sin_addr = 2\<rparr> \<lparr>sin_port = 3, sin_addr = 4\<rparr>"
  have w: "local_ip (current_netdev ?w) = 0x0A00020F" "dev_addr (current_netdev ?w) = replicate 6 1" "sent ?w = []" "next_socket ?w \<notin> set (lsocket ?w)"
    by (simp_all add: net_example_def dev_example_def)
  have six: "[0..<6] = [0, 1, 2, 3, 4, 5]" "replicate 6 (3 :: u8) = [3, 3, 3, 3, 3, 3]" by (simp_all add: upt_rec numeral_eq_Suc)
  have rq: "echo_request (replicate 6 3) 0x0A000202 0x0A00020F 0x02000100 [104, 105] (skb_data (pk_skb ping_example)) (pk_mem ping_example)"
    by (simp add: echo_request_def ping_example_def get_bytes_def six ld16_def ld32_def ip_total_length_def ip_protocal_def ip_source_ip_def ip_dest_ip_def
        htons_def htonl_def ETH_P_IP_def IP4_PROTOCAL_ICMP_def ICMP_REQUEST_def Let_def)
  have "length [104, 105 :: u8] \<le> 65507" "length (dev_addr (current_netdev ?w)) = 6" using w(2) by simp_all
  note ping = ping_answered [OF rq [folded w(1)] this w(4), of False]
  have fd: "unused_fd (fd_files ?w (net_process ?w)) = Some 0" by (simp add: unused_fd_def net_example_def upt_rec)
  have "next_socket ?w = 1" "net_process ?w = 0" by (simp_all add: net_example_def world_example_def sched_example_def)
  with conjunct1 [OF ping, rule_format, OF fd] w(1-3) show ?thesis by (elim exE conjE) (intro exI conjI, assumption, simp_all)
qed

section \<open>Lengths that are not checked\<close>

text \<open>The length of the data is taken from the header of the packet: a datagram that gives its length as less than its own header returns
  as many bytes of kernel memory as the caller has room for.\<close>

lemma udp_short_length_leaks:
  assumes "sk_state (sockets w i) \<noteq> SS_DISCONNECTED" "sk_rx_queue (sockets w i) = p # q" "ld16 (pk_mem p) (skb_h (pk_skb p) + 4) = 0" "len \<le> 0xFFFFFFF8"
  shows "\<exists>w'. udp_recvmsg hs irqs i len w = Some (Got (sint len) (get_bytes (pk_mem p) (skb_h (pk_skb p) + 8) (unat len)), w')"
proof -
  have "(0 - 8 :: u32) = 0xFFFFFFF8" by simp
  then have "min len (0 - 8) = len" using assms(4) by (simp only: min_absorb1)
  then show ?thesis using assms(1-3) by (simp add: udp_recvmsg_def UDP_SIZE_def htons_def Let_def)
qed

text \<open>An echo request whose IP header gives a total length of less than 28 bytes makes the copy of the data overrun the block for the answer.\<close>

lemma short_ping_overruns:
  assumes "unat n < 28"
  shows "icmp_reply source mac dest ident rest payload (n - 28) m w = None"
proof -
  have "n < n - 28" using assms by (simp add: word_less_nat_alt unat_sub_if')
  then have "IP4_SIZE + ICMP_SIZE + (n - 28) < n - 28" by (simp add: IP4_SIZE_def ICMP_SIZE_def)
  then show ?thesis by (simp add: icmp_reply_def bind_eq_None_conv split_beta Let_def)
qed

text \<open>\<open>raw_handler\<close> leaves the packet behind its Ethernet header, and \<open>raw_recvmsg\<close> skips another 14 bytes: what it takes for the length are two
  bytes of the destination address.\<close>

lemma raw_length_is_address:
  assumes "sk_state (sockets w i) \<noteq> SS_DISCONNECTED" "sk_rx_queue (sockets w i) = p # q" "skb_data (pk_skb p) = iph"
  shows "\<exists>w'. raw_recvmsg hs irqs i len w =
    (let n = min len (ucast (ntohs (ucast (ip_dest_ip (pk_mem p) iph))) - 20) in Some (Got (sint n) (get_bytes (pk_mem p) (iph + 34) (unat n)), w'))"
proof -
  have "(ucast (ld32 (pk_mem p) (iph + 16)) :: u16) = ld16 (pk_mem p) (iph + 16)"
    by (rule bit_eqI) (auto simp: ld32_def ld16_def bit_simps dest: bit_u8)
  then show ?thesis using assms
    by (simp add: raw_recvmsg_def skb_pull_def ETH_SIZE_def IP4_SIZE_def ip_total_length_def ip_dest_ip_def Let_def add.assoc)
qed

end
