(* ===== verification/Ext2.thy ===== *)
theory Ext2
  imports Kernel_Prelude
begin

text \<open>
  The ext2 file system: \<open>kernel/fs/ext2/super.c\<close>, \<open>inode.c\<close>, \<open>file.c\<close>, and \<open>bread\<close> and \<open>bwrite\<close> of \<open>kernel/fs/buffer.c\<close>.

  The disk is a byte for every position; \<open>ata_read\<close> and \<open>ata_write\<close> transfer whole sectors of it. Buffers from \<open>kcalloc\<close> are
  lists of bytes, and the structures on the disk are records with the translations from and to their bytes. A state is the
  disk with the superblock in memory; inodes in memory are arguments and results. \<open>None\<close> is an access outside a buffer, an
  assertion that fails, a null pointer, or a loop that does not end. The time of day is an argument.
\<close>

section \<open>Bytes in buffers\<close>

definition le16 :: "u16 \<Rightarrow> u8 list" where
  "le16 w = [ucast w, ucast (drop_bit 8 w)]"

definition le32 :: "u32 \<Rightarrow> u8 list" where
  "le32 w = [ucast w, ucast (drop_bit 8 w), ucast (drop_bit 16 w), ucast (drop_bit 24 w)]"

definition rd16 :: "nat \<Rightarrow> u8 list \<Rightarrow> u16" where
  "rd16 off bs = ucast (bs ! off) OR push_bit 8 (ucast (bs ! (off + 1)))"

definition rd32 :: "nat \<Rightarrow> u8 list \<Rightarrow> u32" where
  "rd32 off bs = ucast (bs ! off) OR push_bit 8 (ucast (bs ! (off + 1))) OR push_bit 16 (ucast (bs ! (off + 2))) OR
     push_bit 24 (ucast (bs ! (off + 3)))"

text \<open>\<open>memcpy\<close> out of a buffer and into it.\<close>

definition peek :: "nat \<Rightarrow> nat \<Rightarrow> u8 list \<Rightarrow> u8 list option" where
  "peek off n bs = (if off + n \<le> length bs then Some (take n (drop off bs)) else None)"

definition poke :: "nat \<Rightarrow> u8 list \<Rightarrow> u8 list \<Rightarrow> u8 list option" where
  "poke off xs bs = (if off + length xs \<le> length bs then Some (take off bs @ xs @ drop (off + length xs) bs) else None)"

section \<open>The disk\<close>

type_synonym disk = "nat \<Rightarrow> u8"

definition BYTES_PER_SECTOR :: u32 where "BYTES_PER_SECTOR = 512"

text \<open>The address of a sector has 28 bits. An error of the device is not reported to the callers of \<open>bread\<close> and \<open>bwrite\<close>.\<close>

definition ata_read :: "disk \<Rightarrow> u32 \<Rightarrow> u8 \<Rightarrow> u8 list" where
  "ata_read d lba n_sectors = (let s = 512 * unat (lba AND 0x0FFFFFFF) in map d [s ..< s + 512 * unat n_sectors])"

definition ata_write :: "disk \<Rightarrow> u32 \<Rightarrow> u8 \<Rightarrow> u8 list \<Rightarrow> disk option" where
  "ata_write d lba n_sectors buf =
     (let s = 512 * unat (lba AND 0x0FFFFFFF)
      in if 512 * unat n_sectors \<le> length buf
         then Some (\<lambda>a. if s \<le> a \<and> a < s + 512 * unat n_sectors then buf ! (a - s) else d a)
         else None)"

text \<open>The number of sectors is passed as a byte; what is not read stays zero.\<close>

definition bread :: "disk \<Rightarrow> u32 \<Rightarrow> u32 \<Rightarrow> u8 list" where
  "bread d sector sz =
     (let n = div_ceil sz BYTES_PER_SECTOR; xs = ata_read d sector (ucast n)
      in xs @ replicate (unat (n * BYTES_PER_SECTOR) - length xs) 0)"

definition bwrite :: "disk \<Rightarrow> u32 \<Rightarrow> u8 list \<Rightarrow> u32 \<Rightarrow> disk option" where
  "bwrite d sector buf sz = ata_write d sector (ucast (div_ceil sz BYTES_PER_SECTOR)) buf"

section \<open>The structures on the disk\<close>

definition EXT2_INO_UPPER_LEVEL0 :: nat where "EXT2_INO_UPPER_LEVEL0 = 12"
definition EXT2_INO_UPPER_LEVEL1 :: nat where "EXT2_INO_UPPER_LEVEL1 = 268"
definition EXT2_INO_UPPER_LEVEL2 :: nat where "EXT2_INO_UPPER_LEVEL2 = 65804"
definition EXT2_INO_UPPER_LEVEL3 :: nat where "EXT2_INO_UPPER_LEVEL3 = 16843020"
definition EXT2_ROOT_INO :: u32 where "EXT2_ROOT_INO = 2"
definition EXT2_STARTING_INO :: nat where "EXT2_STARTING_INO = 1"
definition EXT2_SUPER_MAGIC :: u16 where "EXT2_SUPER_MAGIC = 0xEF53"
definition EXT2_MIN_BLOCK_SIZE :: u32 where "EXT2_MIN_BLOCK_SIZE = 1024"
definition NAME_MAX :: nat where "NAME_MAX = 255"
definition ENOSPC :: int where "ENOSPC = 28"

lemmas ext2_constants = EXT2_INO_UPPER_LEVEL0_def EXT2_INO_UPPER_LEVEL1_def EXT2_INO_UPPER_LEVEL2_def EXT2_INO_UPPER_LEVEL3_def
  EXT2_ROOT_INO_def EXT2_STARTING_INO_def EXT2_SUPER_MAGIC_def EXT2_MIN_BLOCK_SIZE_def NAME_MAX_def

text \<open>The superblock; fields without a role in the code are kept as bytes.\<close>

record ext2_superblock =
  s_inodes_count :: u32
  s_blocks_count :: u32
  s_r_blocks_count :: u32
  s_free_blocks_count :: u32
  s_free_inodes_count :: u32
  s_first_data_block :: u32
  s_log_block_size :: u32
  s_log_frag_size :: u32
  s_blocks_per_group :: u32
  s_frags_per_group :: u32
  s_inodes_per_group :: u32
  s_times_and_counts :: "u8 list"
  s_magic :: u16
  s_state_to_first_ino :: "u8 list"
  s_inode_size :: u16
  s_rest :: "u8 list"

definition superblock_of :: "u8 list \<Rightarrow> ext2_superblock" where
  "superblock_of bs =
     \<lparr>s_inodes_count = rd32 0 bs, s_blocks_count = rd32 4 bs, s_r_blocks_count = rd32 8 bs, s_free_blocks_count = rd32 12 bs,
      s_free_inodes_count = rd32 16 bs, s_first_data_block = rd32 20 bs, s_log_block_size = rd32 24 bs, s_log_frag_size = rd32 28 bs,
      s_blocks_per_group = rd32 32 bs, s_frags_per_group = rd32 36 bs, s_inodes_per_group = rd32 40 bs,
      s_times_and_counts = take 12 (drop 44 bs), s_magic = rd16 56 bs, s_state_to_first_ino = take 30 (drop 58 bs),
      s_inode_size = rd16 88 bs, s_rest = drop 90 bs\<rparr>"

definition superblock_bytes :: "ext2_superblock \<Rightarrow> u8 list" where
  "superblock_bytes s =
     le32 (s_inodes_count s) @ le32 (s_blocks_count s) @ le32 (s_r_blocks_count s) @ le32 (s_free_blocks_count s) @
     le32 (s_free_inodes_count s) @ le32 (s_first_data_block s) @ le32 (s_log_block_size s) @ le32 (s_log_frag_size s) @
     le32 (s_blocks_per_group s) @ le32 (s_frags_per_group s) @ le32 (s_inodes_per_group s) @ s_times_and_counts s @
     le16 (s_magic s) @ s_state_to_first_ino s @ le16 (s_inode_size s) @ s_rest s"

record ext2_group_desc =
  bg_block_bitmap :: u32
  bg_inode_bitmap :: u32
  bg_inode_table :: u32
  bg_free_blocks_count :: u16
  bg_free_inodes_count :: u16
  bg_used_dirs_count :: u16
  bg_pad :: u16
  bg_reserved :: "u8 list"

definition group_desc_of :: "u8 list \<Rightarrow> ext2_group_desc" where
  "group_desc_of bs =
     \<lparr>bg_block_bitmap = rd32 0 bs, bg_inode_bitmap = rd32 4 bs, bg_inode_table = rd32 8 bs, bg_free_blocks_count = rd16 12 bs,
      bg_free_inodes_count = rd16 14 bs, bg_used_dirs_count = rd16 16 bs, bg_pad = rd16 18 bs, bg_reserved = drop 20 bs\<rparr>"

definition group_desc_bytes :: "ext2_group_desc \<Rightarrow> u8 list" where
  "group_desc_bytes g =
     le32 (bg_block_bitmap g) @ le32 (bg_inode_bitmap g) @ le32 (bg_inode_table g) @ le16 (bg_free_blocks_count g) @
     le16 (bg_free_inodes_count g) @ le16 (bg_used_dirs_count g) @ le16 (bg_pad g) @ bg_reserved g"

text \<open>\<open>ei_rest\<close> is the file version, the access lists, the fragment and the second part that depends on the system.\<close>

record ext2_inode =
  ei_mode :: u16
  ei_uid :: u16
  ei_size :: u32
  ei_atime :: u32
  ei_ctime :: u32
  ei_mtime :: u32
  ei_dtime :: u32
  ei_gid :: u16
  ei_links_count :: u16
  ei_blocks :: u32
  ei_flags :: u32
  ei_osd1 :: u32
  ei_block :: "u32 list"
  ei_rest :: "u8 list"

definition ext2_inode_of :: "u8 list \<Rightarrow> ext2_inode" where
  "ext2_inode_of bs =
     \<lparr>ei_mode = rd16 0 bs, ei_uid = rd16 2 bs, ei_size = rd32 4 bs, ei_atime = rd32 8 bs, ei_ctime = rd32 12 bs, ei_mtime = rd32 16 bs,
      ei_dtime = rd32 20 bs, ei_gid = rd16 24 bs, ei_links_count = rd16 26 bs, ei_blocks = rd32 28 bs, ei_flags = rd32 32 bs,
      ei_osd1 = rd32 36 bs, ei_block = map (\<lambda>k. rd32 (40 + 4 * k) bs) [0 ..< 15], ei_rest = drop 100 bs\<rparr>"

definition ext2_inode_bytes :: "ext2_inode \<Rightarrow> u8 list" where
  "ext2_inode_bytes e =
     le16 (ei_mode e) @ le16 (ei_uid e) @ le32 (ei_size e) @ le32 (ei_atime e) @ le32 (ei_ctime e) @ le32 (ei_mtime e) @
     le32 (ei_dtime e) @ le16 (ei_gid e) @ le16 (ei_links_count e) @ le32 (ei_blocks e) @ le32 (ei_flags e) @ le32 (ei_osd1 e) @
     concat (map le32 (ei_block e)) @ ei_rest e"

section \<open>The structures in memory\<close>

record vfs_superblock =
  s_blocksize :: u32
  s_blocksize_bits :: u8
  s_fs_info :: ext2_superblock

datatype inode_operations = Ext2_file_inode_operations | Ext2_dir_inode_operations | Ext2_special_inode_operations | No_inode_operations
datatype file_operations = Ext2_file_operations | Ext2_dir_operations | Def_chr_fops | No_file_operations

record vfs_inode =
  vi_ino :: u32
  vi_mode :: u16
  vi_nlink :: u32
  vi_uid :: u32
  vi_gid :: u32
  vi_rdev :: u32
  vi_atime :: u64
  vi_mtime :: u64
  vi_ctime :: u64
  vi_blocks :: u32
  vi_blksize :: u32
  vi_flags :: u32
  vi_size :: u32
  vi_op :: inode_operations
  vi_fop :: file_operations
  vi_fs_info :: ext2_inode

record ext2_fs =
  fs_disk :: disk
  fs_sb :: vfs_superblock

definition S_IFMT :: u16 where "S_IFMT = 0xF000"
definition S_IFREG :: u16 where "S_IFREG = 0x8000"
definition S_IFDIR :: u16 where "S_IFDIR = 0x4000"
definition S_IFCHR :: u16 where "S_IFCHR = 0x2000"

definition S_ISREG :: "u16 \<Rightarrow> bool" where "S_ISREG m \<longleftrightarrow> m AND S_IFMT = S_IFREG"
definition S_ISDIR :: "u16 \<Rightarrow> bool" where "S_ISDIR m \<longleftrightarrow> m AND S_IFMT = S_IFDIR"
definition S_ISCHR :: "u16 \<Rightarrow> bool" where "S_ISCHR m \<longleftrightarrow> m AND S_IFMT = S_IFCHR"

lemmas mode_defs = S_IFMT_def S_IFREG_def S_IFDIR_def S_IFCHR_def S_ISREG_def S_ISDIR_def S_ISCHR_def

definition EXT2_SB :: "ext2_fs \<Rightarrow> ext2_superblock" where
  "EXT2_SB fs = s_fs_info (fs_sb fs)"

definition set_EXT2_SB :: "ext2_superblock \<Rightarrow> ext2_fs \<Rightarrow> ext2_fs" where
  "set_EXT2_SB s fs = fs\<lparr>fs_sb := (fs_sb fs)\<lparr>s_fs_info := s\<rparr>\<rparr>"

definition EXT2_BLOCK_SIZE :: "ext2_superblock \<Rightarrow> u32" where
  "EXT2_BLOCK_SIZE s = push_bit (unat (s_log_block_size s)) EXT2_MIN_BLOCK_SIZE"

definition EXT2_INODES_PER_BLOCK :: "ext2_superblock \<Rightarrow> u32" where
  "EXT2_INODES_PER_BLOCK s = EXT2_BLOCK_SIZE s div ucast (s_inode_size s)"

definition EXT2_GROUPS_PER_BLOCK :: "ext2_superblock \<Rightarrow> u32" where
  "EXT2_GROUPS_PER_BLOCK s = EXT2_BLOCK_SIZE s div 32"

text \<open>The macros are used with numbers of 32 and of 64 bits.\<close>

definition get_group_from_inode :: "ext2_superblock \<Rightarrow> 'a :: len word \<Rightarrow> 'a word" where
  "get_group_from_inode s ino = (ino - 1) div ucast (s_inodes_per_group s)"

definition get_relative_inode_in_group :: "ext2_superblock \<Rightarrow> 'a :: len word \<Rightarrow> 'a word" where
  "get_relative_inode_in_group s ino = (ino - 1) mod ucast (s_inodes_per_group s)"

definition get_group_from_block :: "ext2_superblock \<Rightarrow> u32 \<Rightarrow> u32" where
  "get_group_from_block s block = (block - s_first_data_block s) div s_blocks_per_group s"

definition get_relative_block_in_group :: "ext2_superblock \<Rightarrow> u32 \<Rightarrow> u32" where
  "get_relative_block_in_group s block = (block - s_first_data_block s) mod s_blocks_per_group s"

section \<open>Blocks, groups and inodes: super.c\<close>

definition ext2_bread :: "ext2_fs \<Rightarrow> u32 \<Rightarrow> u32 \<Rightarrow> u8 list" where
  "ext2_bread fs block sz = bread (fs_disk fs) (block * (s_blocksize (fs_sb fs) div BYTES_PER_SECTOR)) sz"

definition ext2_bread_block :: "ext2_fs \<Rightarrow> u32 \<Rightarrow> u8 list" where
  "ext2_bread_block fs block = ext2_bread fs block (s_blocksize (fs_sb fs))"

definition ext2_bwrite :: "ext2_fs \<Rightarrow> u32 \<Rightarrow> u8 list \<Rightarrow> u32 \<Rightarrow> ext2_fs option" where
  "ext2_bwrite fs block buf sz =
     map_option (\<lambda>d. fs\<lparr>fs_disk := d\<rparr>) (bwrite (fs_disk fs) (block * (s_blocksize (fs_sb fs) div BYTES_PER_SECTOR)) buf sz)"

definition ext2_bwrite_block :: "ext2_fs \<Rightarrow> u32 \<Rightarrow> u8 list \<Rightarrow> ext2_fs option" where
  "ext2_bwrite_block fs block buf = ext2_bwrite fs block buf (s_blocksize (fs_sb fs))"

definition ext2_get_group_desc :: "ext2_fs \<Rightarrow> u32 \<Rightarrow> ext2_group_desc option" where
  "ext2_get_group_desc fs gr =
     (let s = EXT2_SB fs;
          block = s_first_data_block s + 1 + gr div EXT2_GROUPS_PER_BLOCK s;
          offset = gr mod EXT2_GROUPS_PER_BLOCK s * 32
      in map_option group_desc_of (peek (unat offset) 32 (ext2_bread_block fs block)))"

definition ext2_write_group_desc :: "ext2_fs \<Rightarrow> ext2_group_desc \<Rightarrow> ext2_fs option" where
  "ext2_write_group_desc fs gdp =
     (let s = EXT2_SB fs;
          gr = get_group_from_block s (bg_block_bitmap gdp);
          block = s_first_data_block s + 1 + gr div EXT2_GROUPS_PER_BLOCK s;
          offset = gr mod EXT2_GROUPS_PER_BLOCK s * 32
      in Option.bind (poke (unat offset) (group_desc_bytes gdp) (ext2_bread_block fs block)) (ext2_bwrite_block fs block))"

text \<open>The block and the offset of an inode in the table of its group.\<close>

definition inode_position :: "ext2_superblock \<Rightarrow> ext2_group_desc \<Rightarrow> 'a :: len word \<Rightarrow> u32 \<times> nat" where
  "inode_position s gdp ino =
     (bg_inode_table gdp + ucast (get_relative_inode_in_group s ino div ucast (EXT2_INODES_PER_BLOCK s)),
      unat (ucast (get_relative_inode_in_group s ino mod ucast (EXT2_INODES_PER_BLOCK s)) * (128 :: u32)))"

definition ext2_get_inode :: "ext2_fs \<Rightarrow> u64 \<Rightarrow> ext2_inode option" where
  "ext2_get_inode fs ino =
     do {
       let s = EXT2_SB fs;
       gdp \<leftarrow> ext2_get_group_desc fs (ucast (get_group_from_inode s ino));
       let (block, offset) = inode_position s gdp ino;
       map_option ext2_inode_of (peek offset 128 (ext2_bread_block fs block))
     }"

definition init_special_inode :: "vfs_inode \<Rightarrow> u16 \<Rightarrow> u32 \<Rightarrow> vfs_inode" where
  "init_special_inode inode mode dev =
     (let inode = inode\<lparr>vi_mode := mode\<rparr>
      in if S_ISCHR mode then inode\<lparr>vi_fop := Def_chr_fops, vi_rdev := dev\<rparr> else inode)"

text \<open>A new inode is zero; \<open>i_fs_info\<close> is set by the callers before it is used.\<close>

definition zero_ext2_inode :: ext2_inode where
  "zero_ext2_inode =
     \<lparr>ei_mode = 0, ei_uid = 0, ei_size = 0, ei_atime = 0, ei_ctime = 0, ei_mtime = 0, ei_dtime = 0, ei_gid = 0, ei_links_count = 0,
      ei_blocks = 0, ei_flags = 0, ei_osd1 = 0, ei_block = replicate 15 0, ei_rest = replicate 28 0\<rparr>"

definition ext2_alloc_inode :: vfs_inode where
  "ext2_alloc_inode =
     \<lparr>vi_ino = 0, vi_mode = 0, vi_nlink = 0, vi_uid = 0, vi_gid = 0, vi_rdev = 0, vi_atime = 0, vi_mtime = 0, vi_ctime = 0, vi_blocks = 0,
      vi_blksize = 0, vi_flags = 0, vi_size = 0, vi_op = No_inode_operations, vi_fop = No_file_operations, vi_fs_info = zero_ext2_inode\<rparr>"

definition ext2_read_inode :: "ext2_fs \<Rightarrow> vfs_inode \<Rightarrow> vfs_inode option" where
  "ext2_read_inode fs i =
     map_option (\<lambda>raw_node.
       let i = i\<lparr>vi_mode := ei_mode raw_node, vi_nlink := ucast (ei_links_count raw_node), vi_uid := ucast (ei_uid raw_node),
                 vi_gid := ucast (ei_gid raw_node), vi_atime := ucast (ei_atime raw_node), vi_mtime := ucast (ei_mtime raw_node),
                 vi_ctime := ucast (ei_ctime raw_node), vi_blocks := ei_blocks raw_node, vi_blksize := PMM_FRAME_SIZE,
                 vi_flags := ei_flags raw_node, vi_size := ei_size raw_node, vi_fs_info := raw_node\<rparr>
       in if S_ISREG (vi_mode i) then i\<lparr>vi_op := Ext2_file_inode_operations, vi_fop := Ext2_file_operations\<rparr>
          else if S_ISDIR (vi_mode i) then i\<lparr>vi_op := Ext2_dir_inode_operations, vi_fop := Ext2_dir_operations\<rparr>
          else init_special_inode (i\<lparr>vi_op := Ext2_special_inode_operations\<rparr>) (vi_mode i) (ei_block raw_node ! 0))
       (ext2_get_inode fs (ucast (vi_ino i)))"

definition ext2_write_inode :: "ext2_fs \<Rightarrow> vfs_inode \<Rightarrow> (vfs_inode \<times> ext2_fs) option" where
  "ext2_write_inode fs i =
     do {
       let s = EXT2_SB fs;
       let ei = (vi_fs_info i)\<lparr>ei_mode := vi_mode i, ei_uid := ucast (vi_uid i), ei_size := vi_size i, ei_atime := ucast (vi_atime i),
                  ei_ctime := ucast (vi_ctime i), ei_mtime := ucast (vi_mtime i), ei_gid := ucast (vi_gid i),
                  ei_links_count := ucast (vi_nlink i), ei_blocks := vi_blocks i, ei_flags := vi_flags i\<rparr>;
       let ei = (if S_ISCHR (vi_mode i) then ei\<lparr>ei_block := (ei_block ei)[0 := vi_rdev i]\<rparr> else ei);
       gdp \<leftarrow> ext2_get_group_desc fs (get_group_from_inode s (vi_ino i));
       let (block, offset) = inode_position s gdp (vi_ino i);
       buf \<leftarrow> poke offset (ext2_inode_bytes ei) (ext2_bread_block fs block);
       fs \<leftarrow> ext2_bwrite_block fs block buf;
       Some (i\<lparr>vi_fs_info := ei\<rparr>, fs)
     }"

definition ext2_write_super :: "ext2_fs \<Rightarrow> ext2_fs option" where
  "ext2_write_super fs = ext2_bwrite_block fs (s_first_data_block (EXT2_SB fs)) (superblock_bytes (EXT2_SB fs))"

text \<open>
  \<open>ext2_fill_super\<close> reads block 1 of a file system with blocks of 1024 bytes. Its result is not looked at: without the magic
  number \<open>s_fs_info\<close> stays null, and \<open>ext2_mount\<close> follows it.
\<close>

definition ext2_fill_super :: "disk \<Rightarrow> int \<times> vfs_superblock option" where
  "ext2_fill_super d =
     (let ext2_sb = superblock_of (bread d (1 * (EXT2_MIN_BLOCK_SIZE div BYTES_PER_SECTOR)) EXT2_MIN_BLOCK_SIZE)
      in if s_magic ext2_sb \<noteq> EXT2_SUPER_MAGIC then (- EINVAL, None)
         else (0, Some \<lparr>s_blocksize = EXT2_BLOCK_SIZE ext2_sb, s_blocksize_bits = ucast (s_log_block_size ext2_sb), s_fs_info = ext2_sb\<rparr>))"

definition ext2_mount :: "disk \<Rightarrow> (ext2_fs \<times> vfs_inode) option" where
  "ext2_mount d =
     do {
       sb \<leftarrow> snd (ext2_fill_super d);
       let fs = \<lparr>fs_disk = d, fs_sb = sb\<rparr>;
       i_root \<leftarrow> ext2_read_inode fs (ext2_alloc_inode\<lparr>vi_ino := EXT2_ROOT_INO\<rparr>);
       Some (fs, i_root)
     }"

section \<open>Bitmaps and new blocks: inode.c\<close>

text \<open>The first clear bit of a bitmap, looked for by bytes and then by bits.\<close>

definition first_clear :: "u8 list \<Rightarrow> nat \<Rightarrow> (nat \<times> nat) option" where
  "first_clear bitmap blocksize =
     for_find 0 blocksize (\<lambda>i.
       if bitmap ! i \<noteq> 0xFF then for_find 0 8 (\<lambda>j. if bitmap ! i AND push_bit j 1 = 0 then Some (i, j) else None) else None)"

definition number_of_groups :: "ext2_superblock \<Rightarrow> nat" where
  "number_of_groups s = unat (div_ceil (s_blocks_count s) (s_blocks_per_group s))"

definition find_unused_block_number :: "ext2_fs \<Rightarrow> int option" where
  "find_unused_block_number fs =
     (let s = EXT2_SB fs
      in case for_find 0 (number_of_groups s) (\<lambda>gr.
           case ext2_get_group_desc fs (of_nat gr) of
             None \<Rightarrow> Some None
           | Some gdp \<Rightarrow>
               map_option (\<lambda>(i, j). Some (sint (of_nat gr * s_blocks_per_group s + of_nat i * 8 + of_nat j + s_first_data_block s)))
                 (first_clear (ext2_bread_block fs (bg_block_bitmap gdp)) (unat (s_blocksize (fs_sb fs))))) of
           Some r \<Rightarrow> r
         | None \<Rightarrow> Some (- ENOSPC))"

definition find_unused_inode_number :: "ext2_fs \<Rightarrow> int option" where
  "find_unused_inode_number fs =
     (let s = EXT2_SB fs
      in case for_find 0 (number_of_groups s) (\<lambda>gr.
           case ext2_get_group_desc fs (of_nat gr) of
             None \<Rightarrow> Some None
           | Some gdp \<Rightarrow>
               map_option (\<lambda>(i, j). Some (sint (of_nat gr * s_inodes_per_group s + of_nat i * 8 + of_nat j + of_nat EXT2_STARTING_INO :: u32)))
                 (first_clear (ext2_bread_block fs (bg_inode_bitmap gdp)) (unat (s_blocksize (fs_sb fs))))) of
           Some r \<Rightarrow> r
         | None \<Rightarrow> Some (- ENOSPC))"

text \<open>\<open>bitmap[n / 8] |= 1 << (n % 8)\<close>.\<close>

definition set_bitmap :: "nat \<Rightarrow> u8 list \<Rightarrow> u8 list option" where
  "set_bitmap n bitmap = (if n div 8 < length bitmap then Some (bitmap[n div 8 := bitmap ! (n div 8) OR push_bit (n mod 8) 1]) else None)"

text \<open>The result of the search is not checked: -ENOSPC is used as the number of a block.\<close>

definition ext2_create_block :: "ext2_fs \<Rightarrow> (u32 \<times> ext2_fs) option" where
  "ext2_create_block fs =
     do {
       n \<leftarrow> find_unused_block_number fs;
       let block = (word_of_int n :: u32);
       let s = EXT2_SB fs;
       fs \<leftarrow> ext2_write_super (set_EXT2_SB (s\<lparr>s_free_blocks_count := s_free_blocks_count s - 1\<rparr>) fs);
       gdp \<leftarrow> ext2_get_group_desc fs (get_group_from_block (EXT2_SB fs) block);
       let gdp = gdp\<lparr>bg_free_blocks_count := bg_free_blocks_count gdp - 1\<rparr>;
       fs \<leftarrow> ext2_write_group_desc fs gdp;
       bitmap_buf \<leftarrow> set_bitmap (unat (get_relative_block_in_group (EXT2_SB fs) block)) (ext2_bread_block fs (bg_block_bitmap gdp));
       fs \<leftarrow> ext2_bwrite_block fs (bg_block_bitmap gdp) bitmap_buf;
       fs \<leftarrow> ext2_bwrite_block fs block (replicate (unat (s_blocksize (fs_sb fs))) 0);
       Some (block, fs)
     }"

section \<open>Directory blocks: inode.c\<close>

definition EXT2_DIR_REC_LEN :: "nat \<Rightarrow> nat" where
  "EXT2_DIR_REC_LEN name_len = (name_len + 8 + 3) div 4 * 4"

text \<open>
  The header of the entry at a position of a block: inode, length of the record, length of the name. The position in the
  block and the variable \<open>size\<close> of the loops are always the same number.
\<close>

definition entry_at :: "nat \<Rightarrow> u8 list \<Rightarrow> (u32 \<times> u16 \<times> u8) option" where
  "entry_at off buf = map_option (\<lambda>h. (rd32 0 h, rd16 4 h, h ! 6)) (peek off 8 buf)"

text \<open>The name is copied to an array of \<open>NAME_MAX\<close> bytes and a zero is put behind it.\<close>

definition entry_name :: "nat \<Rightarrow> u8 \<Rightarrow> u8 list \<Rightarrow> u8 list option" where
  "entry_name off name_len buf =
     (if unat name_len < NAME_MAX then map_option (takeWhile (\<lambda>c. c \<noteq> 0)) (peek (off + 8) (unat name_len) buf) else None)"

partial_function (option) find_ino_loop :: "nat \<Rightarrow> u8 list \<Rightarrow> u8 list \<Rightarrow> nat \<Rightarrow> int option" where
  "find_ino_loop blocksize buf name sz =
     (if sz < blocksize
      then
        do {
          (ino, rec_len, name_len) \<leftarrow> entry_at sz buf;
          tmpname \<leftarrow> entry_name sz name_len buf;
          (if tmpname = name then Some (sint ino) else find_ino_loop blocksize buf name (sz + unat rec_len))
        }
      else Some (- ENOENT))"

definition ext2_find_ino :: "u8 list \<Rightarrow> u32 \<Rightarrow> ext2_fs \<Rightarrow> (int \<times> ext2_fs) option" where
  "ext2_find_ino name block fs =
     map_option (\<lambda>ret. (ret, fs)) (find_ino_loop (unat (s_blocksize (fs_sb fs))) (ext2_bread_block fs block) name 0)"

text \<open>The result of \<open>delete_entry_loop\<close> is the inode and the changed block, or nothing when the name is not there.\<close>

partial_function (option) delete_entry_loop ::
    "nat \<Rightarrow> u8 list \<Rightarrow> u8 list \<Rightarrow> nat option \<Rightarrow> nat \<Rightarrow> (u32 \<times> u8 list) option option" where
  "delete_entry_loop blocksize buf name prev sz =
     (if sz < blocksize
      then
        do {
          (ino, rec_len, name_len) \<leftarrow> entry_at sz buf;
          tmpname \<leftarrow> entry_name sz name_len buf;
          (if tmpname = name
           then
             do {
               buf \<leftarrow> poke sz (le32 0) buf;
               buf \<leftarrow> (case prev of
                         None \<Rightarrow> Some buf
                       | Some q \<Rightarrow>
                           do {
                             (_, prev_len, _) \<leftarrow> entry_at q buf;
                             poke (q + 4) (le16 (prev_len + rec_len)) buf
                           });
               Some (Some (ino, buf))
             }
           else delete_entry_loop blocksize buf name (Some sz) (sz + unat rec_len))
        }
      else Some None)"

definition ext2_delete_entry :: "u8 list \<Rightarrow> u32 \<Rightarrow> ext2_fs \<Rightarrow> (int \<times> ext2_fs) option" where
  "ext2_delete_entry name block fs =
     do {
       r \<leftarrow> delete_entry_loop (unat (s_blocksize (fs_sb fs))) (ext2_bread_block fs block) name None 0;
       (case r of
          None \<Rightarrow> Some (- ENOENT, fs)
        | Some (ino, buf) \<Rightarrow> map_option (\<lambda>fs. (sint ino, fs)) (ext2_bwrite_block fs block buf))
     }"

text \<open>The type of an entry; other kinds of files end in \<open>assert_not_implemented\<close>.\<close>

definition entry_type :: "u16 \<Rightarrow> u8 option" where
  "entry_type mode = (if S_ISREG mode then Some 1 else if S_ISDIR mode then Some 2 else None)"

text \<open>Filling an unused entry.\<close>

definition fill_entry :: "nat \<Rightarrow> u8 list \<Rightarrow> u32 \<Rightarrow> u16 \<Rightarrow> u16 \<Rightarrow> nat \<Rightarrow> u8 list \<Rightarrow> u8 list option" where
  "fill_entry sz name ino mode rec_len new_rec_len buf =
     do {
       ft \<leftarrow> entry_type mode;
       let name_len = (of_nat (length name) :: u8);
       buf \<leftarrow> poke sz (le32 ino) buf;
       buf \<leftarrow> poke (sz + 7) [ft] buf;
       buf \<leftarrow> poke (sz + 6) [name_len] buf;
       buf \<leftarrow> poke (sz + 8) (take (unat name_len) name) buf;
       poke (sz + 4) (le16 (max (of_nat new_rec_len) rec_len)) buf
     }"

partial_function (option) add_entry_loop ::
    "nat \<Rightarrow> u8 list \<Rightarrow> u32 \<Rightarrow> u16 \<Rightarrow> u8 list \<Rightarrow> nat \<Rightarrow> nat \<Rightarrow> u8 list option option" where
  "add_entry_loop blocksize name ino mode buf sz new_rec_len =
     (if sz < blocksize
      then
        do {
          (e_ino, rec_len, name_len) \<leftarrow> entry_at sz buf;
          (if e_ino = 0 \<and> (rec_len = 0 \<or> EXT2_DIR_REC_LEN (length name) \<le> unat rec_len)
           then map_option Some (fill_entry sz name ino mode rec_len new_rec_len buf)
           else if EXT2_DIR_REC_LEN (length name) + EXT2_DIR_REC_LEN (unat name_len) < unat rec_len
           then
             do {
               let keep = EXT2_DIR_REC_LEN (unat name_len);
               let rest = unat rec_len - keep;
               buf \<leftarrow> poke (sz + 4) (le16 (of_nat keep)) buf;
               buf \<leftarrow> poke (sz + keep) (replicate rest 0) buf;
               add_entry_loop blocksize name ino mode buf (sz + keep) rest
             }
           else add_entry_loop blocksize name ino mode buf (sz + unat rec_len) (blocksize - (sz + unat rec_len)))
        }
      else Some None)"

definition ext2_add_entry :: "u8 list \<Rightarrow> u32 \<Rightarrow> u16 \<Rightarrow> u32 \<Rightarrow> ext2_fs \<Rightarrow> (int \<times> ext2_fs) option" where
  "ext2_add_entry name ino mode block fs =
     do {
       r \<leftarrow> add_entry_loop (unat (s_blocksize (fs_sb fs))) name ino mode (ext2_bread_block fs block) 0 0;
       (case r of
          None \<Rightarrow> Some (- ENOENT, fs)
        | Some buf \<Rightarrow> map_option (\<lambda>fs. (0, fs)) (ext2_bwrite_block fs block buf))
     }"

section \<open>Directories: inode.c\<close>

text \<open>An action on a block, or on the blocks below it until one of them gives a result that is not negative.\<close>

primrec action_loop :: "(u32 \<Rightarrow> ext2_fs \<Rightarrow> (int \<times> ext2_fs) option) \<Rightarrow> u32 list \<Rightarrow> int \<Rightarrow> ext2_fs \<Rightarrow> (int \<times> ext2_fs) option" where
  "action_loop f [] ret fs = Some (ret, fs)"
| "action_loop f (b # bs) ret fs = do { (ret, fs) \<leftarrow> f b fs; (if ret \<ge> 0 then Some (ret, fs) else action_loop f bs ret fs) }"

definition block_numbers :: "ext2_fs \<Rightarrow> u32 \<Rightarrow> u32 list" where
  "block_numbers fs block =
     (let buf = ext2_bread_block fs block in map (\<lambda>k. rd32 (4 * k) buf) [0 ..< unat (s_blocksize (fs_sb fs) div 4)])"

primrec ext2_recursive_block_action ::
    "nat \<Rightarrow> (u32 \<Rightarrow> ext2_fs \<Rightarrow> (int \<times> ext2_fs) option) \<Rightarrow> u32 \<Rightarrow> ext2_fs \<Rightarrow> (int \<times> ext2_fs) option" where
  "ext2_recursive_block_action 0 action block fs = action block fs"
| "ext2_recursive_block_action (Suc level) action block fs =
     action_loop (ext2_recursive_block_action level action) (block_numbers fs block) (- ENOENT) fs"

text \<open>
  The loop of \<open>ext2_lookup_inode\<close> and \<open>ext2_unlink\<close> over \<open>i_block\<close>, which has 15 elements; \<open>i_blocks\<close> counts sectors in the
  file systems made by other tools. The result is the inode, or nothing when no block has the name.
\<close>

definition level_of :: "nat \<Rightarrow> (nat \<times> nat) option" where
  "level_of i =
     (if i < EXT2_INO_UPPER_LEVEL0 then Some (0, i)
      else if i < EXT2_INO_UPPER_LEVEL1 then Some (1, 12)
      else if i < EXT2_INO_UPPER_LEVEL2 then Some (2, 13)
      else if i < EXT2_INO_UPPER_LEVEL3 then Some (3, 14)
      else None)"

function dir_loop ::
    "(u32 \<Rightarrow> ext2_fs \<Rightarrow> (int \<times> ext2_fs) option) \<Rightarrow> ext2_inode \<Rightarrow> nat \<Rightarrow> ext2_fs \<Rightarrow> (int option \<times> ext2_fs) option" where
  "dir_loop action ei i fs =
     (if i < unat (ei_blocks ei)
      then
        if length (ei_block ei) \<le> i then None
        else if ei_block ei ! i = 0 then dir_loop action ei (Suc i) fs
        else (case level_of i of
                None \<Rightarrow> dir_loop action ei (Suc i) fs
              | Some (level, k) \<Rightarrow>
                  Option.bind (ext2_recursive_block_action level action (ei_block ei ! k) fs) (\<lambda>(ino, fs).
                    if ino > 0 then Some (Some ino, fs) else dir_loop action ei (Suc i) fs))
      else Some (None, fs))"
  by pat_completeness auto
termination
  by (relation "measure (\<lambda>(action, ei, i, fs). unat (ei_blocks ei) - i)") auto

declare dir_loop.simps [simp del]

definition ext2_lookup_inode :: "ext2_fs \<Rightarrow> vfs_inode \<Rightarrow> u8 list \<Rightarrow> vfs_inode option option" where
  "ext2_lookup_inode fs dir name =
     do {
       (r, fs) \<leftarrow> dir_loop (ext2_find_ino name) (vi_fs_info dir) 0 fs;
       (case r of
          None \<Rightarrow> Some None
        | Some ino \<Rightarrow> map_option Some (ext2_read_inode fs (ext2_alloc_inode\<lparr>vi_ino := word_of_int ino\<rparr>)))
     }"

definition ext2_unlink :: "ext2_fs \<Rightarrow> vfs_inode \<Rightarrow> u8 list \<Rightarrow> (int \<times> ext2_fs) option" where
  "ext2_unlink fs dir name =
     do {
       (r, fs) \<leftarrow> dir_loop (ext2_delete_entry name) (vi_fs_info dir) 0 fs;
       (case r of
          None \<Rightarrow> Some (0, fs)
        | Some ino \<Rightarrow>
            do {
              inode \<leftarrow> ext2_read_inode fs (ext2_alloc_inode\<lparr>vi_ino := word_of_int ino\<rparr>);
              (inode, fs) \<leftarrow> ext2_write_inode fs (inode\<lparr>vi_nlink := vi_nlink inode - 1\<rparr>);
              Some (0, fs)
            })
     }"

text \<open>The bound \<open>i_blocks\<close> of the directory grows in the loop; from the twelfth block on an assertion fails.\<close>

function create_entry_loop ::
    "u8 list \<Rightarrow> u32 \<Rightarrow> u16 \<Rightarrow> nat \<Rightarrow> vfs_inode \<Rightarrow> ext2_fs \<Rightarrow> (int \<times> vfs_inode \<times> ext2_fs) option" where
  "create_entry_loop name ino mode i dir fs =
     (if i < unat (vi_blocks dir)
      then
        if i \<ge> EXT2_INO_UPPER_LEVEL0 then None
        else
          Option.bind
            (let block = ei_block (vi_fs_info dir) ! i
             in if block = 0
                then
                  do {
                    (block, fs) \<leftarrow> ext2_create_block fs;
                    let dir = dir\<lparr>vi_fs_info := (vi_fs_info dir)\<lparr>ei_block := (ei_block (vi_fs_info dir))[i := block]\<rparr>,
                                  vi_blocks := vi_blocks dir + 1, vi_size := vi_size dir + s_blocksize (fs_sb fs)\<rparr>;
                    (dir, fs) \<leftarrow> ext2_write_inode fs dir;
                    Some (block, dir, fs)
                  }
                else Some (block, dir, fs))
            (\<lambda>(block, dir, fs).
               Option.bind (ext2_add_entry name ino mode block fs) (\<lambda>(ret, fs).
                 if ret \<ge> 0 then Some (0, dir, fs) else create_entry_loop name ino mode (Suc i) dir fs))
      else Some (- ENOENT, dir, fs))"
  by pat_completeness auto
termination
  by (relation "measure (\<lambda>(name, ino, mode, i, dir, fs). EXT2_INO_UPPER_LEVEL0 - i)") auto

declare create_entry_loop.simps [simp del]

definition ext2_create_entry :: "u8 list \<Rightarrow> u32 \<Rightarrow> u16 \<Rightarrow> vfs_inode \<Rightarrow> ext2_fs \<Rightarrow> (int \<times> vfs_inode \<times> ext2_fs) option" where
  "ext2_create_entry name ino mode dir fs = create_entry_loop name ino mode 0 dir fs"

text \<open>The two entries of a new directory.\<close>

definition dot_entries :: "u32 \<Rightarrow> u32 \<Rightarrow> u32 \<Rightarrow> u8 list \<Rightarrow> u8 list option" where
  "dot_entries ino parent blocksize buf =
     do {
       let rec_len = (of_nat (EXT2_DIR_REC_LEN 1) :: u16);
       buf \<leftarrow> poke 0 (le32 ino) buf;
       buf \<leftarrow> poke 8 [0x2E] buf;
       buf \<leftarrow> poke 6 [1] buf;
       buf \<leftarrow> poke 4 (le16 rec_len) buf;
       buf \<leftarrow> poke 7 [2] buf;
       let off = unat rec_len;
       buf \<leftarrow> poke off (le32 parent) buf;
       buf \<leftarrow> poke (off + 8) [0x2E, 0x2E] buf;
       buf \<leftarrow> poke (off + 6) [2] buf;
       buf \<leftarrow> poke (off + 4) (le16 (ucast (blocksize - ucast rec_len))) buf;
       poke (off + 7) [2] buf
     }"

text \<open>
  \<open>ext2_create_inode\<close>: the counters and the bitmap, the inode, for a directory its first block, and the entry in the parent
  directory. \<open>now\<close> is the time. The result is the new inode, or nothing for a null pointer, and the directory.
\<close>

definition mark_inode :: "u32 \<Rightarrow> u32 \<Rightarrow> ext2_fs \<Rightarrow> ext2_fs option" where
  "mark_inode ino mode fs =
     do {
       let s = EXT2_SB fs;
       gdp \<leftarrow> ext2_get_group_desc fs (get_group_from_inode s ino);
       fs \<leftarrow> ext2_write_super (set_EXT2_SB (s\<lparr>s_free_inodes_count := s_free_inodes_count s - 1\<rparr>) fs);
       let gdp = gdp\<lparr>bg_free_inodes_count := bg_free_inodes_count gdp - 1\<rparr>;
       let gdp = (if S_ISDIR (ucast mode) then gdp\<lparr>bg_used_dirs_count := bg_used_dirs_count gdp + 1\<rparr> else gdp);
       fs \<leftarrow> ext2_write_group_desc fs gdp;
       buf \<leftarrow> set_bitmap (unat (get_relative_inode_in_group s ino)) (ext2_bread_block fs (bg_inode_bitmap gdp));
       ext2_bwrite_block fs (bg_inode_bitmap gdp) buf
     }"

definition new_inode :: "u64 \<Rightarrow> u32 \<Rightarrow> u32 \<Rightarrow> vfs_inode" where
  "new_inode now ino mode =
     ext2_alloc_inode\<lparr>vi_ino := ino, vi_mode := ucast mode, vi_nlink := 1, vi_atime := now, vi_mtime := now, vi_ctime := now,
       vi_blocks := 0, vi_flags := 0, vi_size := 0, vi_fs_info := zero_ext2_inode\<lparr>ei_links_count := 1\<rparr>\<rparr>"

definition make_directory :: "u32 \<Rightarrow> vfs_inode \<Rightarrow> ext2_fs \<Rightarrow> (vfs_inode \<times> ext2_fs) option" where
  "make_directory parent inode fs =
     do {
       let inode = inode\<lparr>vi_op := Ext2_dir_inode_operations, vi_fop := Ext2_dir_operations\<rparr>;
       (block, fs) \<leftarrow> ext2_create_block fs;
       let inode = inode\<lparr>vi_fs_info := (vi_fs_info inode)\<lparr>ei_block := (ei_block (vi_fs_info inode))[0 := block]\<rparr>,
                         vi_blocks := vi_blocks inode + 1, vi_size := vi_size inode + s_blocksize (fs_sb fs)\<rparr>;
       (inode, fs) \<leftarrow> ext2_write_inode fs inode;
       buf \<leftarrow> dot_entries (vi_ino inode) parent (s_blocksize (fs_sb fs)) (ext2_bread_block fs block);
       fs \<leftarrow> ext2_bwrite_block fs block buf;
       Some (inode, fs)
     }"

definition ext2_create_inode ::
    "u64 \<Rightarrow> vfs_inode \<Rightarrow> u8 list \<Rightarrow> u32 \<Rightarrow> ext2_fs \<Rightarrow> (vfs_inode option \<times> vfs_inode \<times> ext2_fs) option" where
  "ext2_create_inode now dir name mode fs =
     do {
       n \<leftarrow> find_unused_inode_number fs;
       let ino = (word_of_int n :: u32);
       fs \<leftarrow> mark_inode ino mode fs;
       let inode = new_inode now ino mode;
       (inode, fs) \<leftarrow>
         (if S_ISREG (ucast mode)
          then Some (inode\<lparr>vi_op := Ext2_file_inode_operations, vi_fop := Ext2_file_operations\<rparr>, fs)
          else if S_ISDIR (ucast mode) then make_directory (vi_ino dir) inode fs
          else None);
       (inode, fs) \<leftarrow> ext2_write_inode fs inode;
       (ret, dir, fs) \<leftarrow> ext2_create_entry name ino (vi_mode inode) dir fs;
       Some (if ret \<ge> 0 then Some inode else None, dir, fs)
     }"

definition ext2_mknod :: "u64 \<Rightarrow> vfs_inode \<Rightarrow> u8 list \<Rightarrow> u32 \<Rightarrow> u32 \<Rightarrow> ext2_fs \<Rightarrow> (vfs_inode \<times> vfs_inode \<times> ext2_fs) option" where
  "ext2_mknod now dir name mode dev fs =
     do {
       found \<leftarrow> ext2_lookup_inode fs dir name;
       (r, dir, fs) \<leftarrow> (case found of Some inode \<Rightarrow> Some (Some inode, dir, fs) | None \<Rightarrow> ext2_create_inode now dir name mode fs);
       inode \<leftarrow> r;
       (inode, fs) \<leftarrow> ext2_write_inode fs (init_special_inode (inode\<lparr>vi_rdev := dev\<rparr>) (ucast mode) dev);
       Some (inode, dir, fs)
     }"

definition ext2_rename :: "vfs_inode \<Rightarrow> vfs_inode \<Rightarrow> u8 list \<Rightarrow> ext2_fs \<Rightarrow> (int \<times> vfs_inode \<times> ext2_fs) option" where
  "ext2_rename inode new_dir new_name fs = ext2_create_entry new_name (vi_ino inode) (vi_mode inode) new_dir fs"

section \<open>Reading and writing: file.c\<close>

text \<open>\<open>loff_t\<close> has 64 bits and a sign; division rounds towards zero.\<close>

definition loff_div :: "int \<Rightarrow> int \<Rightarrow> int" where
  "loff_div a b = (if a < 0 then - ((- a) div b) else a div b)"

text \<open>What is skipped at the beginning and at the end of the block at position \<open>p\<close>.\<close>

definition pstart :: "int \<Rightarrow> u32 \<Rightarrow> u32" where
  "pstart ppos p = (if ppos > uint p then word_of_int (ppos - uint p) else 0)"

definition pend :: "int \<Rightarrow> u32 \<Rightarrow> u32 \<Rightarrow> u32 \<Rightarrow> u32" where
  "pend ppos count p blocksize =
     (if ppos + uint count < uint (p + blocksize) then word_of_int (uint (p + blocksize) - ppos - uint count) else 0)"

text \<open>The state of the reading loops: the bytes copied to the buffer, and the position \<open>p\<close>.\<close>

primrec read_blocks :: "(u32 \<Rightarrow> u8 list \<times> u32 \<Rightarrow> (u8 list \<times> u32) option) \<Rightarrow> int \<Rightarrow> u32 list \<Rightarrow> u8 list \<times> u32 \<Rightarrow> (u8 list \<times> u32) option" where
  "read_blocks f end_pos [] st = Some st"
| "read_blocks f end_pos (b # bs) st =
     (if uint (snd st) < end_pos then Option.bind (f b st) (read_blocks f end_pos bs) else Some st)"

primrec ext2_read_nth_block :: "nat \<Rightarrow> ext2_fs \<Rightarrow> int \<Rightarrow> u32 \<Rightarrow> u32 \<Rightarrow> u8 list \<times> u32 \<Rightarrow> (u8 list \<times> u32) option" where
  "ext2_read_nth_block 0 fs ppos count block st =
     (let (out, p) = st;
          bs = s_blocksize (fs_sb fs);
          n = bs - pstart ppos p - pend ppos count p bs
      in map_option (\<lambda>xs. (out @ xs, p + bs)) (peek (unat (pstart ppos p)) (unat n) (ext2_bread_block fs block)))"
| "ext2_read_nth_block (Suc level) fs ppos count block st =
     read_blocks (ext2_read_nth_block level fs ppos count) (ppos + uint count) (block_numbers fs block) st"

partial_function (option) read_file_loop :: "ext2_fs \<Rightarrow> ext2_inode \<Rightarrow> int \<Rightarrow> u32 \<Rightarrow> u8 list \<times> u32 \<Rightarrow> (u8 list \<times> u32) option" where
  "read_file_loop fs ei ppos count st =
     (if uint (snd st) < ppos + uint count
      then
        (case level_of (unat (snd st div s_blocksize (fs_sb fs))) of
           None \<Rightarrow> None
         | Some (level, k) \<Rightarrow>
             Option.bind (ext2_read_nth_block level fs ppos count (ei_block ei ! k) st) (read_file_loop fs ei ppos count))
      else Some st)"

text \<open>The result is the number of bytes, the bytes written to the buffer, and the new position of the file.\<close>

definition ext2_read_file :: "ext2_fs \<Rightarrow> vfs_inode \<Rightarrow> u32 \<Rightarrow> int \<Rightarrow> (u32 \<times> u8 list \<times> int) option" where
  "ext2_read_file fs inode count ppos =
     (let ei = vi_fs_info inode;
          bs = s_blocksize (fs_sb fs);
          count = word_of_int (uint (min (word_of_int (ppos + uint count)) (ei_size ei)) - ppos) :: u32;
          p = word_of_int (loff_div ppos (uint bs) * uint bs)
      in map_option (\<lambda>(out, p). (count, out, ppos + uint count)) (read_file_loop fs ei ppos count ([], p)))"

text \<open>Only the direct blocks of a file can be written. \<open>rest\<close> is what of the buffer is still to be written.\<close>

partial_function (option) write_file_loop ::
    "u64 \<Rightarrow> int \<Rightarrow> u32 \<Rightarrow> vfs_inode \<Rightarrow> u8 list \<Rightarrow> u32 \<Rightarrow> ext2_fs \<Rightarrow> (vfs_inode \<times> ext2_fs) option" where
  "write_file_loop now ppos count inode rest p fs =
     (if uint p < ppos + uint count
      then
        do {
          let bs = s_blocksize (fs_sb fs);
          let relative_block = unat (p div bs);
          (block, inode, fs) \<leftarrow>
            (if relative_block < EXT2_INO_UPPER_LEVEL0
             then
               let block = ei_block (vi_fs_info inode) ! relative_block
               in if block = 0
                  then
                    do {
                      (block, fs) \<leftarrow> ext2_create_block fs;
                      let inode = inode\<lparr>vi_fs_info := (vi_fs_info inode)\<lparr>ei_block := (ei_block (vi_fs_info inode))[relative_block := block]\<rparr>,
                                        vi_mtime := now\<rparr>;
                      (inode, fs) \<leftarrow> ext2_write_inode fs inode;
                      Some (block, inode, fs)
                    }
                  else Some (block, inode, fs)
             else None);
          let n = unat (bs - pstart ppos p - pend ppos count p bs);
          xs \<leftarrow> peek 0 n rest;
          buf \<leftarrow> poke (unat (pstart ppos p)) xs (ext2_bread_block fs block);
          fs \<leftarrow> ext2_bwrite_block fs block buf;
          write_file_loop now ppos count inode (drop n rest) (p + bs) fs
        }
      else Some (inode, fs))"

definition ext2_write_file :: "u64 \<Rightarrow> vfs_inode \<Rightarrow> u8 list \<Rightarrow> int \<Rightarrow> ext2_fs \<Rightarrow> (u32 \<times> int \<times> vfs_inode \<times> ext2_fs) option" where
  "ext2_write_file now inode buf ppos fs =
     do {
       let count = (of_nat (length buf) :: u32);
       let bs = s_blocksize (fs_sb fs);
       (inode, fs) \<leftarrow>
         (if ppos + uint count > uint (vi_size inode)
          then
            let total = ppos + uint count
            in ext2_write_inode fs (inode\<lparr>vi_size := word_of_int total,
                                     vi_blocks := word_of_int (loff_div total 512 + (if total mod 512 > 0 then 1 else 0))\<rparr>)
          else Some (inode, fs));
       (inode, fs) \<leftarrow> write_file_loop now ppos count inode buf (word_of_int (loff_div ppos (uint bs) * uint bs)) fs;
       Some (count, ppos + uint count, inode, fs)
     }"

text \<open>
  \<open>ext2_readdir\<close> fills the buffer of the caller with records that are up to 9 bytes longer than those of the disk. The result is
  their total length, the records (inode, length, type, name) and the new position.
\<close>

partial_function (option) readdir_loop :: "u8 list \<Rightarrow> nat \<Rightarrow> nat \<Rightarrow> int \<Rightarrow> (u32 \<times> u16 \<times> u8 \<times> u8 list) list \<Rightarrow> (int \<times> (u32 \<times> u16 \<times> u8 \<times> u8 list) list) option" where
  "readdir_loop buf count off entries_size out =
     (if off < count
      then
        do {
          (ino, rec_len, name_len) \<leftarrow> entry_at off buf;
          ft \<leftarrow> peek (off + 7) 1 buf;
          name \<leftarrow> peek (off + 8) (unat name_len) buf;
          let d_reclen = (16 + ucast name_len + 1 :: u16);
          readdir_loop buf count (off + unat rec_len) (entries_size + uint d_reclen) (out @ [(ino, d_reclen, hd ft, name)])
        }
      else Some (entries_size, out))"

definition ext2_readdir :: "ext2_fs \<Rightarrow> vfs_inode \<Rightarrow> u32 \<Rightarrow> int \<Rightarrow> (int \<times> (u32 \<times> u16 \<times> u8 \<times> u8 list) list \<times> int) option" where
  "ext2_readdir fs inode count pos =
     do {
       (n, out, pos') \<leftarrow> ext2_read_file fs inode count pos;
       buf \<leftarrow> poke 0 out (replicate (unat count) 0);
       (entries_size, records) \<leftarrow> readdir_loop buf (unat n) 0 0 [];
       Some (entries_size, records, pos')
     }"

end
