(* ===== verification/Ext2_Dir.thy ===== *)
theory Ext2_Dir
  imports Ext2
begin

text \<open>
  Blocks of directories as lists of entries: what \<open>ext2_find_ino\<close>, \<open>ext2_add_entry\<close> and \<open>ext2_delete_entry\<close> do with the bytes
  of a block is shown to be what one expects of a map from names to inodes.
\<close>

section \<open>Numbers in buffers\<close>

lemma length_le [simp]: "length (le32 w) = 4" "length (le16 v) = 2"
  by (simp_all add: le32_def le16_def)

lemma bytes32: "(ucast (ucast w :: u8) :: u32) OR push_bit 8 (ucast (ucast (drop_bit 8 w) :: u8)) OR
    push_bit 16 (ucast (ucast (drop_bit 16 w) :: u8)) OR push_bit 24 (ucast (ucast (drop_bit 24 w) :: u8)) = (w :: u32)"
proof (rule bit_eqI)
  fix n assume "possible_bit TYPE(u32) n"
  then have "n < 32" by simp
  moreover have "24 + (n - 24) = n" if "\<not> n < 24" using that by simp
  ultimately show "bit ((ucast (ucast w :: u8) :: u32) OR push_bit 8 (ucast (ucast (drop_bit 8 w) :: u8)) OR
    push_bit 16 (ucast (ucast (drop_bit 16 w) :: u8)) OR push_bit 24 (ucast (ucast (drop_bit 24 w) :: u8))) n = bit w n"
    by (cases "n < 24"; cases "n < 16") (auto simp: bit_simps not_less)
qed

lemma bytes16: "(ucast (ucast w :: u8) :: u16) OR push_bit 8 (ucast (ucast (drop_bit 8 w) :: u8)) = (w :: u16)"
proof (rule bit_eqI)
  fix n assume "possible_bit TYPE(u16) n"
  then have "n < 16" by simp
  then show "bit ((ucast (ucast w :: u8) :: u16) OR push_bit 8 (ucast (ucast (drop_bit 8 w) :: u8))) n = bit w n"
    by (auto simp: bit_simps not_less)
qed

lemma nth_at: "length xs = off \<Longrightarrow> (xs @ y # ys) ! off = y"
  by auto

lemma rd32_at: "length xs = off \<Longrightarrow> rd32 off (xs @ le32 w @ ys) = w"
  by (auto simp: rd32_def le32_def nth_append bytes32)

lemma rd16_at: "length xs = off \<Longrightarrow> rd16 off (xs @ le16 w @ ys) = w"
  by (auto simp: rd16_def le16_def nth_append bytes16)

lemma rd32_0 [simp]: "rd32 0 (le32 w @ ys) = w"
  using rd32_at [of "[]" 0 w ys] by simp

lemma rd16_0 [simp]: "rd16 0 (le16 w @ ys) = w"
  using rd16_at [of "[]" 0 w ys] by simp

lemma rd32_skip [simp]: "length xs \<le> off \<Longrightarrow> rd32 off (xs @ ys) = rd32 (off - length xs) ys"
  by (auto simp: le_iff_add rd32_def nth_append)

lemma rd16_skip [simp]: "length xs \<le> off \<Longrightarrow> rd16 off (xs @ ys) = rd16 (off - length xs) ys"
  by (auto simp: le_iff_add rd16_def nth_append)

lemma peek_at: "length xs = off \<Longrightarrow> length ys = n \<Longrightarrow> peek off n (xs @ ys @ zs) = Some ys"
  by (simp add: peek_def)

lemma poke_at: "length xs = off \<Longrightarrow> length ys = length ys' \<Longrightarrow> poke off ys' (xs @ ys @ zs) = Some (xs @ ys' @ zs)"
  by (auto simp: poke_def)

lemma length_poke: "poke off xs bs = Some bs' \<Longrightarrow> length bs' = length bs"
  by (auto simp: poke_def split: if_splits)

section \<open>Entries\<close>

record dent =
  de_ino :: u32
  de_type :: u8
  de_name :: "u8 list"
  de_pad :: "u8 list"

definition dent_len :: "dent \<Rightarrow> nat" where
  "dent_len e = 8 + length (de_name e) + length (de_pad e)"

definition dent_bytes :: "dent \<Rightarrow> u8 list" where
  "dent_bytes e = le32 (de_ino e) @ le16 (of_nat (dent_len e)) @ [of_nat (length (de_name e)), de_type e] @ de_name e @ de_pad e"

definition dents :: "dent list \<Rightarrow> u8 list" where
  "dents es = concat (map dent_bytes es)"

definition dent_ok :: "dent \<Rightarrow> bool" where
  "dent_ok e \<longleftrightarrow> length (de_name e) < 255 \<and> 0 \<notin> set (de_name e) \<and> dent_len e < 65536 \<and> 4 dvd dent_len e \<and> de_ino e < 0x80000000"

lemma dents_simps [simp]:
  "dents [] = []" "dents (e # es) = dent_bytes e @ dents es" "dents (es @ es') = dents es @ dents es'"
  by (simp_all add: dents_def)

lemma length_dent_bytes [simp]: "length (dent_bytes e) = dent_len e"
  by (simp add: dent_bytes_def dent_len_def)

lemma dent_len_pos: "8 \<le> dent_len e"
  by (simp add: dent_len_def)

lemma unat_u16: "n < 65536 \<Longrightarrow> unat (of_nat n :: u16) = n"
  by (simp add: unat_of_nat)

lemma unat_u8: "n < 256 \<Longrightarrow> unat (of_nat n :: u8) = n"
  by (simp add: unat_of_nat)

lemma entry_at_dent:
  assumes "length xs = off"
  shows "entry_at off (xs @ dent_bytes e @ ys) = Some (de_ino e, of_nat (dent_len e), of_nat (length (de_name e)))"
proof -
  define h where "h = le32 (de_ino e) @ le16 (of_nat (dent_len e)) @ [of_nat (length (de_name e)), de_type e]"
  have "peek off 8 (xs @ h @ (de_name e @ de_pad e @ ys)) = Some h"
    using assms by (intro peek_at) (simp_all add: h_def)
  moreover have "xs @ dent_bytes e @ ys = xs @ h @ (de_name e @ de_pad e @ ys)" by (simp add: dent_bytes_def h_def)
  moreover have "rd32 0 h = de_ino e" "rd16 4 h = of_nat (dent_len e)" "h ! 6 = of_nat (length (de_name e))"
    by (simp_all add: h_def nth_append)
  ultimately show ?thesis by (simp add: entry_at_def)
qed

lemma entry_name_dent:
  assumes "length xs = off" and "dent_ok e"
  shows "entry_name off (of_nat (length (de_name e))) (xs @ dent_bytes e @ ys) = Some (de_name e)"
proof -
  have n: "unat (of_nat (length (de_name e)) :: u8) = length (de_name e)" and z: "0 \<notin> set (de_name e)"
    using assms(2) by (simp_all add: dent_ok_def unat_u8)
  define h where "h = le32 (de_ino e) @ le16 (of_nat (dent_len e)) @ [of_nat (length (de_name e)), de_type e]"
  have "peek (off + 8) (length (de_name e)) ((xs @ h) @ de_name e @ (de_pad e @ ys)) = Some (de_name e)"
    using assms(1) by (intro peek_at) (simp_all add: h_def)
  moreover have "xs @ dent_bytes e @ ys = (xs @ h) @ de_name e @ (de_pad e @ ys)" by (simp add: dent_bytes_def h_def)
  moreover have "takeWhile (\<lambda>c. c \<noteq> 0) (de_name e) = de_name e"
    using z by (simp add: takeWhile_eq_all_conv) metis
  ultimately show ?thesis using assms(2) by (simp add: entry_name_def n dent_ok_def NAME_MAX_def)
qed

lemmas entry_dent = entry_at_dent entry_name_dent

lemma length_dents_less: "e \<in> set es \<Longrightarrow> dent_len e \<le> length (dents es)"
  by (induction es) auto

section \<open>Looking for a name\<close>

definition dir_find :: "u8 list \<Rightarrow> dent list \<Rightarrow> int" where
  "dir_find name es = (case find (\<lambda>e. de_name e = name) es of None \<Rightarrow> - ENOENT | Some e \<Rightarrow> sint (de_ino e))"

lemma find_ino_loop_dents:
  assumes "\<forall>e \<in> set es. dent_ok e" and "length (dents pre) + length (dents es) = bs"
  shows "find_ino_loop bs (dents pre @ dents es) name (length (dents pre)) = Some (dir_find name es)"
  using assms
proof (induction es arbitrary: pre)
  case Nil
  then show ?case by (subst find_ino_loop.simps) (simp add: dir_find_def)
next
  case (Cons e es)
  have IH: "find_ino_loop bs (dents pre @ dent_bytes e @ dents es) name (length (dents pre) + dent_len e) = Some (dir_find name es)"
    using Cons.IH [of "pre @ [e]"] Cons.prems by simp
  have u: "unat (of_nat (dent_len e) :: u16) = dent_len e"
    using Cons.prems(1) by (simp add: dent_ok_def unat_u16)
  have "length (dents pre) < bs" using Cons.prems(2) dent_len_pos [of e] by simp
  then show ?case
    using Cons.prems(1) IH
    by (subst find_ino_loop.simps) (simp add: entry_dent u dir_find_def)
qed

lemma find_ino_dents:
  "\<forall>e \<in> set es. dent_ok e \<Longrightarrow> length (dents es) = bs \<Longrightarrow> find_ino_loop bs (dents es) name 0 = Some (dir_find name es)"
  using find_ino_loop_dents [of es "[]" bs name] by simp

section \<open>Deleting a name\<close>

text \<open>The record of a deleted entry becomes part of the record before it; the first entry of a block is only marked.\<close>

definition merge_dent :: "dent \<Rightarrow> dent \<Rightarrow> dent" where
  "merge_dent q e = q\<lparr>de_pad := de_pad q @ dent_bytes (e\<lparr>de_ino := 0\<rparr>)\<rparr>"

primrec delete_after :: "dent \<Rightarrow> u8 list \<Rightarrow> dent list \<Rightarrow> (u32 \<times> dent list) option" where
  "delete_after q name [] = None"
| "delete_after q name (e # es) =
     (if de_name e = name then Some (de_ino e, merge_dent q e # es) else map_option (apsnd (Cons q)) (delete_after e name es))"

fun dir_delete :: "u8 list \<Rightarrow> dent list \<Rightarrow> (u32 \<times> dent list) option" where
  "dir_delete name [] = None"
| "dir_delete name (e # es) = (if de_name e = name then Some (de_ino e, e\<lparr>de_ino := 0\<rparr> # es) else delete_after e name es)"

lemma dent_len_merge [simp]: "dent_len (merge_dent q e) = dent_len q + dent_len e"
  by (simp add: dent_len_def merge_dent_def)

lemma dent_len_ino [simp]: "dent_len (e\<lparr>de_ino := i\<rparr>) = dent_len e"
  by (simp add: dent_len_def)

lemma poke_ino: "length xs = off \<Longrightarrow> poke off (le32 i) (xs @ dent_bytes e @ ys) = Some (xs @ dent_bytes (e\<lparr>de_ino := i\<rparr>) @ ys)"
  using poke_at [of xs off "le32 (de_ino e)" "le32 i" "le16 (of_nat (dent_len e)) @ [of_nat (length (de_name e)), de_type e] @ de_name e @ de_pad e @ ys"]
  by (simp add: dent_bytes_def)

lemma poke_rec_len:
  assumes "length xs = off" and "dent_len q + dent_len e = n"
  shows "poke (off + 4) (le16 (of_nat n)) (xs @ dent_bytes q @ dent_bytes (e\<lparr>de_ino := 0\<rparr>) @ ys) =
    Some (xs @ dent_bytes (merge_dent q e) @ ys)"
proof -
  let ?r = "[of_nat (length (de_name q)), de_type q] @ de_name q @ de_pad q @ dent_bytes (e\<lparr>de_ino := 0\<rparr>) @ ys"
  have "poke (off + 4) (le16 (of_nat n)) ((xs @ le32 (de_ino q)) @ le16 (of_nat (dent_len q)) @ ?r) =
      Some ((xs @ le32 (de_ino q)) @ le16 (of_nat n) @ ?r)"
    using assms(1) by (intro poke_at) simp_all
  moreover have "(xs @ le32 (de_ino q)) @ le16 (of_nat n) @ ?r = xs @ dent_bytes (merge_dent q e) @ ys"
    by (simp add: dent_bytes_def [of "merge_dent q e"] assms(2)) (simp add: merge_dent_def)
  ultimately show ?thesis by (simp add: dent_bytes_def [of q])
qed

lemma delete_after_loop:
  assumes "\<forall>e \<in> set es. dent_ok e" and "length (dents pre) + dent_len q + length (dents es) = bs"
  shows "delete_entry_loop bs (dents pre @ dent_bytes q @ dents es) name (Some (length (dents pre))) (length (dents pre) + dent_len q) =
    Some (map_option (apsnd (\<lambda>xs. dents pre @ dents xs)) (delete_after q name es))"
  using assms
proof (induction es arbitrary: pre q)
  case Nil
  then show ?case by (subst delete_entry_loop.simps) simp
next
  case (Cons e es)
  have ok: "dent_ok e" and u: "unat (of_nat (dent_len e) :: u16) = dent_len e"
    using Cons.prems(1) by (simp_all add: dent_ok_def unat_u16)
  have lt: "length (dents pre) + dent_len q < bs" using Cons.prems(2) dent_len_pos [of e] by simp
  let ?sz = "length (dents pre) + dent_len q"
  have at: "entry_at ?sz (dents pre @ dent_bytes q @ dent_bytes e @ dents es) = Some (de_ino e, of_nat (dent_len e), of_nat (length (de_name e)))"
    "entry_name ?sz (of_nat (length (de_name e))) (dents pre @ dent_bytes q @ dent_bytes e @ dents es) = Some (de_name e)"
    using entry_dent [of "dents pre @ dent_bytes q" ?sz e "dents es"] ok by simp_all
  show ?case
  proof (cases "de_name e = name")
    case True
    let ?buf = "dents pre @ dent_bytes q @ dent_bytes (e\<lparr>de_ino := 0\<rparr>) @ dents es"
    have "poke ?sz (le32 0) (dents pre @ dent_bytes q @ dent_bytes e @ dents es) = Some ?buf"
      using poke_ino [of "dents pre @ dent_bytes q" ?sz 0 e "dents es"] by simp
    moreover have "entry_at (length (dents pre)) ?buf = Some (de_ino q, of_nat (dent_len q), of_nat (length (de_name q)))"
      by (rule entry_at_dent) simp
    moreover have "poke (length (dents pre) + 4) (le16 (of_nat (dent_len q) + of_nat (dent_len e))) ?buf =
        Some (dents pre @ dent_bytes (merge_dent q e) @ dents es)"
      using poke_rec_len [of "dents pre" "length (dents pre)" q e "dent_len q + dent_len e" "dents es"] by simp
    ultimately show ?thesis using True lt at by (subst delete_entry_loop.simps) simp
  next
    case False
    have "delete_entry_loop bs (dents pre @ dent_bytes q @ dent_bytes e @ dents es) name (Some ?sz) (?sz + dent_len e) =
        Some (map_option (apsnd (\<lambda>xs. dents pre @ dent_bytes q @ dents xs)) (delete_after e name es))"
      using Cons.IH [of "pre @ [q]" e] Cons.prems by simp
    then show ?thesis using False lt at u
      by (subst delete_entry_loop.simps) (simp add: option.map_comp comp_def apsnd_compose)
  qed
qed

lemma delete_entry_dents:
  assumes "\<forall>e \<in> set es. dent_ok e" and "length (dents es) = bs"
  shows "delete_entry_loop bs (dents es) name None 0 = Some (map_option (apsnd dents) (dir_delete name es))"
proof (cases es)
  case Nil
  with assms(2) show ?thesis by (subst delete_entry_loop.simps) simp
next
  case (Cons e es')
  have ok: "dent_ok e" and u: "unat (of_nat (dent_len e) :: u16) = dent_len e"
    using assms(1) Cons by (simp_all add: dent_ok_def unat_u16)
  have lt: "0 < bs" using assms(2) Cons dent_len_pos [of e] by simp
  have at: "entry_at 0 (dent_bytes e @ dents es') = Some (de_ino e, of_nat (dent_len e), of_nat (length (de_name e)))"
    "entry_name 0 (of_nat (length (de_name e))) (dent_bytes e @ dents es') = Some (de_name e)"
    using entry_dent [of "[]" 0 e "dents es'"] ok by simp_all
  have "poke 0 (le32 0) (dent_bytes e @ dents es') = Some (dent_bytes (e\<lparr>de_ino := 0\<rparr>) @ dents es')"
    using poke_ino [of "[]" 0 0 e "dents es'"] by simp
  moreover have "delete_entry_loop bs (dent_bytes e @ dents es') name (Some 0) (dent_len e) =
      Some (map_option (apsnd dents) (delete_after e name es'))"
    using delete_after_loop [of es' "[]" e bs name] assms Cons by simp
  ultimately show ?thesis using lt at u Cons by (subst delete_entry_loop.simps) simp
qed

section \<open>Adding a name\<close>

definition reuse_dent :: "u8 list \<Rightarrow> u32 \<Rightarrow> u8 \<Rightarrow> dent \<Rightarrow> dent" where
  "reuse_dent name ino ft e = \<lparr>de_ino = ino, de_type = ft, de_name = name, de_pad = drop (length name) (de_name e @ de_pad e)\<rparr>"

definition shrink_dent :: "dent \<Rightarrow> dent" where
  "shrink_dent e = e\<lparr>de_pad := take (EXT2_DIR_REC_LEN (length (de_name e)) - 8 - length (de_name e)) (de_pad e)\<rparr>"

definition new_dent :: "u8 list \<Rightarrow> u32 \<Rightarrow> u8 \<Rightarrow> nat \<Rightarrow> dent" where
  "new_dent name ino ft n = \<lparr>de_ino = ino, de_type = ft, de_name = name, de_pad = replicate (n - 8 - length name) 0\<rparr>"

primrec dir_add :: "u8 list \<Rightarrow> u32 \<Rightarrow> u8 \<Rightarrow> dent list \<Rightarrow> dent list option" where
  "dir_add name ino ft [] = None"
| "dir_add name ino ft (e # es) =
     (if de_ino e = 0 \<and> EXT2_DIR_REC_LEN (length name) \<le> dent_len e then Some (reuse_dent name ino ft e # es)
      else if EXT2_DIR_REC_LEN (length name) + EXT2_DIR_REC_LEN (length (de_name e)) < dent_len e
      then Some (shrink_dent e # new_dent name ino ft (dent_len e - EXT2_DIR_REC_LEN (length (de_name e))) # es)
      else map_option (Cons e) (dir_add name ino ft es))"

lemma rec_len_ge: "8 + n \<le> EXT2_DIR_REC_LEN n" "EXT2_DIR_REC_LEN n \<le> n + 11" "4 dvd EXT2_DIR_REC_LEN n"
proof -
  have "(n + 11) div 4 * 4 + (n + 11) mod 4 = n + 11" by simp
  moreover have "(n + 11) mod 4 < 4" by simp
  ultimately show "8 + n \<le> EXT2_DIR_REC_LEN n" "EXT2_DIR_REC_LEN n \<le> n + 11" by (simp_all add: EXT2_DIR_REC_LEN_def)
qed (simp add: EXT2_DIR_REC_LEN_def)

lemma fill_entry_at:
  assumes "length xs = off" and "length h = 8" and "length name \<le> length t" and "length name < 255"
    and "entry_type mode = Some ft" and "max (of_nat nrl) rl = (v :: u16)"
  shows "fill_entry off name ino mode rl nrl (xs @ h @ t @ ys) =
    Some (xs @ (le32 ino @ le16 v @ [of_nat (length name), ft]) @ name @ drop (length name) t @ ys)"
proof -
  define i4 r2 l f where "i4 = take 4 h" and "r2 = take 2 (drop 4 h)" and "l = take 1 (drop 6 h)" and "f = drop 7 h"
  have h: "h = i4 @ r2 @ l @ f"
    using assms(2) by (auto simp: i4_def r2_def l_def f_def numeral_eq_Suc length_Suc_conv)
  have len: "length i4 = 4" "length r2 = 2" "length l = 1" "length f = 1"
    using assms(2) by (simp_all add: i4_def r2_def l_def f_def)
  have n: "unat (of_nat (length name) :: u8) = length name" using assms(4) by (simp add: unat_u8)
  have t: "take (length name) t @ drop (length name) t @ ys = t @ ys" by (simp flip: append_assoc)
  have p1: "poke off (le32 ino) (xs @ i4 @ r2 @ l @ f @ t @ ys) = Some (xs @ le32 ino @ r2 @ l @ f @ t @ ys)"
    using assms(1) len by (intro poke_at) simp_all
  have p2: "poke (off + 7) [ft] (xs @ le32 ino @ r2 @ l @ f @ t @ ys) = Some (xs @ le32 ino @ r2 @ l @ [ft] @ t @ ys)"
    using poke_at [of "xs @ le32 ino @ r2 @ l" "off + 7" f "[ft]" "t @ ys"] assms(1) len by simp
  have p3: "poke (off + 6) [of_nat (length name)] (xs @ le32 ino @ r2 @ l @ [ft] @ t @ ys) =
      Some (xs @ le32 ino @ r2 @ [of_nat (length name)] @ [ft] @ t @ ys)"
    using poke_at [of "xs @ le32 ino @ r2" "off + 6" l "[of_nat (length name)]" "[ft] @ t @ ys"] assms(1) len by simp
  have p4: "poke (off + 8) name (xs @ le32 ino @ r2 @ [of_nat (length name)] @ [ft] @ t @ ys) =
      Some (xs @ le32 ino @ r2 @ [of_nat (length name)] @ [ft] @ name @ drop (length name) t @ ys)"
    using poke_at [of "xs @ le32 ino @ r2 @ [of_nat (length name)] @ [ft]" "off + 8" "take (length name) t" name "drop (length name) t @ ys"]
      assms(1,3) len t by simp
  have p5: "poke (off + 4) (le16 v) (xs @ le32 ino @ r2 @ [of_nat (length name)] @ [ft] @ name @ drop (length name) t @ ys) =
      Some (xs @ le32 ino @ le16 v @ [of_nat (length name)] @ [ft] @ name @ drop (length name) t @ ys)"
    using poke_at [of "xs @ le32 ino" "off + 4" r2 "le16 v" "[of_nat (length name)] @ [ft] @ name @ drop (length name) t @ ys"] assms(1) len
    by simp
  show ?thesis
    using p1 p2 p3 p4 p5 by (simp add: fill_entry_def h n assms(5,6))
qed

text \<open>Splitting off the free part of a record.\<close>

lemma split_entry:
  assumes "length xs = off" and "keep = EXT2_DIR_REC_LEN (length (de_name e))" and "keep \<le> dent_len e" and "dent_len e = keep + n"
  shows "Option.bind (poke (off + 4) (le16 (of_nat keep)) (xs @ dent_bytes e @ ys)) (poke (off + keep) (replicate n 0)) =
    Some (xs @ dent_bytes (shrink_dent e) @ replicate n 0 @ ys)" (is "?split = _")
    and "dent_len (shrink_dent e) = keep"
proof -
  let ?k = "keep - 8 - length (de_name e)"
  have k: "8 + length (de_name e) \<le> keep" using rec_len_ge(1) assms(2) by simp
  have pad: "take ?k (de_pad e) @ drop ?k (de_pad e) @ ys = de_pad e @ ys" "length (drop ?k (de_pad e)) = n"
    using assms(3,4) k by (simp_all add: dent_len_def flip: append_assoc)
  show len: "dent_len (shrink_dent e) = keep"
    using assms(2-4) k by (simp add: dent_len_def shrink_dent_def)
  let ?h = "[of_nat (length (de_name e)), de_type e] @ de_name e"
  have "poke (off + 4) (le16 (of_nat keep)) ((xs @ le32 (de_ino e)) @ le16 (of_nat (dent_len e)) @ (?h @ de_pad e @ ys)) =
      Some ((xs @ le32 (de_ino e)) @ le16 (of_nat keep) @ (?h @ de_pad e @ ys))"
    using assms(1) by (intro poke_at) simp_all
  moreover have eq: "(xs @ le32 (de_ino e) @ le16 (of_nat keep) @ ?h @ take ?k (de_pad e)) @ drop ?k (de_pad e) @ ys =
      (xs @ le32 (de_ino e)) @ le16 (of_nat keep) @ (?h @ de_pad e @ ys)"
    using pad(1) by simp
  have "poke (off + keep) (replicate n 0)
      ((xs @ le32 (de_ino e) @ le16 (of_nat keep) @ ?h @ take ?k (de_pad e)) @ drop ?k (de_pad e) @ ys) =
      Some ((xs @ le32 (de_ino e) @ le16 (of_nat keep) @ ?h @ take ?k (de_pad e)) @ replicate n 0 @ ys)"
    using assms(1,3) k pad(2) by (intro poke_at) (simp_all add: dent_len_def)
  note this [unfolded eq]
  moreover have "dent_bytes (shrink_dent e) = le32 (de_ino e) @ le16 (of_nat keep) @ ?h @ take ?k (de_pad e)"
    by (simp add: dent_bytes_def len) (simp add: shrink_dent_def assms(2))
  ultimately show "?split = Some (xs @ dent_bytes (shrink_dent e) @ replicate n 0 @ ys)"
    by (simp add: dent_bytes_def [of e])
qed

lemma fill_reuse:
  assumes "length xs = off" and "entry_type mode = Some ft" and "length name < 255" and "8 + length name \<le> dent_len e"
  shows "fill_entry off name ino mode (of_nat (dent_len e)) 0 (xs @ dent_bytes e @ ys) = Some (xs @ dent_bytes (reuse_dent name ino ft e) @ ys)"
proof -
  let ?h = "le32 (de_ino e) @ le16 (of_nat (dent_len e)) @ [of_nat (length (de_name e)), de_type e]"
  have l: "dent_len (reuse_dent name ino ft e) = dent_len e"
    using assms(4) by (simp add: dent_len_def reuse_dent_def)
  have "fill_entry off name ino mode (of_nat (dent_len e)) 0 (xs @ ?h @ (de_name e @ de_pad e) @ ys) =
    Some (xs @ (le32 ino @ le16 (of_nat (dent_len e)) @ [of_nat (length name), ft]) @ name @ drop (length name) (de_name e @ de_pad e) @ ys)"
    using assms by (intro fill_entry_at) (simp_all add: dent_len_def max_def)
  moreover have "dent_bytes (reuse_dent name ino ft e) =
      le32 ino @ le16 (of_nat (dent_len e)) @ [of_nat (length name), ft] @ name @ drop (length name) (de_name e @ de_pad e)"
    by (simp add: dent_bytes_def l) (simp add: reuse_dent_def)
  ultimately show ?thesis by (simp add: dent_bytes_def [of e])
qed

lemma fill_new:
  assumes "length xs = off" and "entry_type mode = Some ft" and "length name < 255" and "8 + length name \<le> n"
  shows "fill_entry off name ino mode 0 n (xs @ replicate n 0 @ ys) = Some (xs @ dent_bytes (new_dent name ino ft n) @ ys)"
    and "dent_len (new_dent name ino ft n) = n"
proof -
  show l: "dent_len (new_dent name ino ft n) = n"
    using assms(4) by (simp add: dent_len_def new_dent_def)
  have "replicate n (0 :: u8) = replicate 8 0 @ replicate (n - 8) 0" using assms(4) by (simp flip: replicate_add)
  then have "fill_entry off name ino mode 0 n (xs @ replicate n 0 @ ys) =
      fill_entry off name ino mode 0 n (xs @ replicate 8 0 @ replicate (n - 8) 0 @ ys)" by simp
  also have "\<dots> = Some (xs @ (le32 ino @ le16 (of_nat n) @ [of_nat (length name), ft]) @ name @ drop (length name) (replicate (n - 8) 0) @ ys)"
    using assms by (intro fill_entry_at) (simp_all add: max_def)
  also have "\<dots> = Some (xs @ dent_bytes (new_dent name ino ft n) @ ys)"
    by (simp add: dent_bytes_def l) (simp add: new_dent_def)
  finally show "fill_entry off name ino mode 0 n (xs @ replicate n 0 @ ys) = Some (xs @ dent_bytes (new_dent name ino ft n) @ ys)" .
qed

lemma entry_at_zero: "length xs = off \<Longrightarrow> 8 \<le> n \<Longrightarrow> entry_at off (xs @ replicate n 0 @ ys) = Some (0, 0, 0)"
proof -
  assume a: "length xs = off" "8 \<le> n"
  have "peek off 8 (xs @ replicate 8 0 @ (replicate (n - 8) 0 @ ys)) = Some (replicate 8 0)"
    using a(1) by (intro peek_at) simp_all
  moreover have "replicate n (0 :: u8) = replicate 8 0 @ replicate (n - 8) 0" using a(2) by (simp flip: replicate_add)
  moreover have "rd32 0 (replicate 8 0) = 0" "rd16 4 (replicate 8 0) = 0" "replicate 8 (0 :: u8) ! 6 = 0"
    by (simp_all add: rd32_def rd16_def)
  ultimately show ?thesis by (simp add: entry_at_def)
qed

lemma add_entry_loop_dents:
  assumes "\<forall>e \<in> set es. dent_ok e" and "length (dents pre) + length (dents es) = bs" and "entry_type mode = Some ft"
    and "length name < 255" and "\<forall>e \<in> set es. de_ino e \<noteq> 0 \<or> pre = []" and "\<forall>e \<in> set (tl es). de_ino e \<noteq> 0"
    and "pre = [] \<longrightarrow> nrl = 0" and "bs < 65536"
  shows "add_entry_loop bs name ino mode (dents pre @ dents es) (length (dents pre)) nrl =
    Some (map_option (\<lambda>xs. dents pre @ dents xs) (dir_add name ino ft es))"
  using assms
proof (induction es arbitrary: pre nrl)
  case Nil
  then show ?case by (subst add_entry_loop.simps) simp
next
  case (Cons e es)
  have ok: "dent_ok e" and u: "unat (of_nat (dent_len e) :: u16) = dent_len e"
    and u8: "unat (of_nat (length (de_name e)) :: u8) = length (de_name e)"
    using Cons.prems(1) by (simp_all add: dent_ok_def unat_u16 unat_u8)
  have nz: "(of_nat (dent_len e) :: u16) \<noteq> 0"
    using u dent_len_pos [of e] by (metis not_numeral_le_zero unsigned_0)
  have lt: "length (dents pre) < bs" using Cons.prems(2) dent_len_pos [of e] by simp
  have at: "entry_at (length (dents pre)) (dents pre @ dent_bytes e @ dents es) = Some (de_ino e, of_nat (dent_len e), of_nat (length (de_name e)))"
    by (rule entry_at_dent) simp
  let ?need = "EXT2_DIR_REC_LEN (length name)" and ?keep = "EXT2_DIR_REC_LEN (length (de_name e))"
  consider (reuse) "de_ino e = 0" "?need \<le> dent_len e"
    | (split) "\<not> (de_ino e = 0 \<and> ?need \<le> dent_len e)" "?need + ?keep < dent_len e"
    | (skip) "\<not> (de_ino e = 0 \<and> ?need \<le> dent_len e)" "\<not> ?need + ?keep < dent_len e" by blast
  then show ?case
  proof cases
    case reuse
    then have "pre = []" "nrl = 0" using Cons.prems(5,7) by auto
    moreover have "8 + length name \<le> dent_len e" using reuse(2) rec_len_ge(1) [of "length name"] by simp
    ultimately show ?thesis
      using reuse lt at u Cons.prems(3,4) fill_reuse [of "dents pre" "length (dents pre)" mode ft name e ino "dents es"]
      by (subst add_entry_loop.simps) simp
  next
    case split
    define n where "n = dent_len e - ?keep"
    have n: "dent_len e = ?keep + n" "?need < n" using split(2) by (simp_all add: n_def)
    have n8: "8 + length name \<le> n" using n(2) rec_len_ge(1) [of "length name"] by simp
    have step: "Option.bind (poke (length (dents pre) + 4) (le16 (of_nat ?keep)) (dents pre @ dent_bytes e @ dents es))
        (poke (length (dents pre) + ?keep) (replicate n 0)) = Some (dents pre @ dent_bytes (shrink_dent e) @ replicate n 0 @ dents es)"
      using split_entry(1) [of "dents pre" "length (dents pre)" ?keep e n "dents es"] n(1) by simp
    let ?xs = "dents pre @ dent_bytes (shrink_dent e)" and ?sz = "length (dents pre) + ?keep"
    have xs: "length ?xs = ?sz" using split_entry(2) [of "dents pre" "length (dents pre)" ?keep e n] n(1) by simp
    have ad: "?sz < bs" using Cons.prems(2) n(1) n8 by simp
    have "add_entry_loop bs name ino mode (?xs @ replicate n 0 @ dents es) ?sz n = Some (Some (?xs @ dent_bytes (new_dent name ino ft n) @ dents es))"
      using ad entry_at_zero [OF xs, of n "dents es"] n8 fill_new(1) [OF xs Cons.prems(3,4) n8, of ino "dents es"]
      by (subst add_entry_loop.simps) simp
    moreover obtain b where "poke (length (dents pre) + 4) (le16 (of_nat ?keep)) (dents pre @ dent_bytes e @ dents es) = Some b"
      "poke ?sz (replicate n 0) b = Some (?xs @ replicate n 0 @ dents es)"
      using step by (auto simp: bind_eq_Some_conv)
    ultimately show ?thesis
      using split lt at u u8
      by (subst add_entry_loop.simps) (simp add: n_def [symmetric])
  next
    case skip
    have tl: "\<forall>x \<in> set (tl es). de_ino x \<noteq> 0" using Cons.prems(6) by (cases es) auto
    have "add_entry_loop bs name ino mode (dents (pre @ [e]) @ dents es) (length (dents (pre @ [e]))) (bs - (length (dents pre) + dent_len e)) =
        Some (map_option (\<lambda>xs. dents (pre @ [e]) @ dents xs) (dir_add name ino ft es))"
      by (rule Cons.IH) (use Cons.prems tl in auto)
    then show ?thesis
      using skip lt at u u8 nz
      by (subst add_entry_loop.simps) (auto simp: option.map_comp comp_def)
  qed
qed

lemma add_entry_dents:
  assumes "\<forall>e \<in> set es. dent_ok e" and "length (dents es) = bs" and "entry_type mode = Some ft" and "length name < 255"
    and "\<forall>e \<in> set (tl es). de_ino e \<noteq> 0" and "bs < 65536"
  shows "add_entry_loop bs name ino mode (dents es) 0 0 = Some (map_option dents (dir_add name ino ft es))"
  using add_entry_loop_dents [of es "[]" bs mode ft name 0 ino] assms by simp

section \<open>The map of a block\<close>

definition dir_map :: "dent list \<Rightarrow> u8 list \<Rightarrow> u32 option" where
  "dir_map es = map_of (map (\<lambda>e. (de_name e, de_ino e)) (filter (\<lambda>e. de_ino e \<noteq> 0) es))"

definition dir_ok :: "nat \<Rightarrow> dent list \<Rightarrow> bool" where
  "dir_ok bs es \<longleftrightarrow> (\<forall>e \<in> set es. dent_ok e) \<and> length (dents es) = bs \<and> (\<forall>e \<in> set (tl es). de_ino e \<noteq> 0) \<and> distinct (map de_name es)"

lemma dir_map_simps [simp]:
  "dir_map [] = Map.empty"
  "dir_map (e # es) = (if de_ino e = 0 then dir_map es else (dir_map es)(de_name e \<mapsto> de_ino e))"
  by (simp_all add: dir_map_def)

lemma dir_map_None: "n \<notin> de_name ` set es \<Longrightarrow> dir_map es n = None"
  by (induction es) auto

lemma dir_map_dom: "\<forall>e \<in> set es. de_ino e \<noteq> 0 \<Longrightarrow> dir_map es n = None \<longleftrightarrow> n \<notin> de_name ` set es"
  by (induction es) auto

lemma sint_ino: "ino < 0x80000000 \<Longrightarrow> 0 \<le> sint (ino :: u32)" "ino < 0x80000000 \<Longrightarrow> 0 < sint (ino :: u32) \<longleftrightarrow> ino \<noteq> 0"
proof -
  assume "ino < 0x80000000"
  then have "sint ino = uint ino" by (rule sint_small)
  then show "0 \<le> sint ino" "0 < sint ino \<longleftrightarrow> ino \<noteq> 0"
    by (simp_all add: less_le) (metis unsigned_0 unsigned_word_eqI)
qed

lemma dir_find_simps [simp]:
  "dir_find name [] = - ENOENT" "dir_find name (e # es) = (if de_name e = name then sint (de_ino e) else dir_find name es)"
  by (simp_all add: dir_find_def)

lemma dir_find_map:
  assumes "\<forall>e \<in> set es. dent_ok e" and "distinct (map de_name es)"
  shows "case dir_map es name of Some ino \<Rightarrow> dir_find name es = sint ino \<and> 0 < sint ino | None \<Rightarrow> dir_find name es \<le> 0"
  using assms
proof (induction es)
  case Nil
  show ?case by (simp add: ENOENT_def)
next
  case (Cons e es)
  have "de_ino e < 0x80000000" using Cons.prems(1) by (simp add: dent_ok_def)
  note s = sint_ino [OF this]
  have "dir_map es (de_name e) = None" using Cons.prems(2) by (intro dir_map_None) auto
  then show ?case using Cons s by (cases "de_name e = name") (auto split: option.splits)
qed

text \<open>Deleting.\<close>

lemma dent_ok_ino: "dent_ok e \<Longrightarrow> i < 0x80000000 \<Longrightarrow> dent_ok (e\<lparr>de_ino := i\<rparr>)"
  by (simp add: dent_ok_def)

lemma dent_ok_merge: "dent_ok q \<Longrightarrow> dent_ok e \<Longrightarrow> dent_len q + dent_len e < 65536 \<Longrightarrow> dent_ok (merge_dent q e)"
  by (simp add: dent_ok_def) (simp add: merge_dent_def)

lemma merge_dent_sel [simp]: "de_name (merge_dent q e) = de_name q" "de_ino (merge_dent q e) = de_ino q"
  by (simp_all add: merge_dent_def)

lemma delete_after_ok:
  assumes "delete_after q name es = Some (ino, es')" and "\<forall>e \<in> set (q # es). dent_ok e" and "length (dents (q # es)) < 65536"
    and "\<forall>e \<in> set es. de_ino e \<noteq> 0" and "distinct (map de_name (q # es))" and "de_name q \<noteq> name"
  shows "(\<forall>e \<in> set es'. dent_ok e) \<and> length (dents es') = length (dents (q # es)) \<and> dir_map es name = Some ino \<and>
    dir_map es' = (dir_map (q # es))(name := None) \<and> (\<exists>q' xs. es' = q' # xs \<and> (\<forall>e \<in> set xs. de_ino e \<noteq> 0) \<and> de_ino q' = de_ino q) \<and>
    distinct (map de_name es') \<and> de_name ` set es' \<subseteq> de_name ` set (q # es)"
  using assms
proof (induction es arbitrary: q es')
  case (Cons e es)
  show ?case
  proof (cases "de_name e = name")
    case True
    then have [simp]: "es' = merge_dent q e # es" "ino = de_ino e" using Cons.prems(1) by simp_all
    have "dir_map es name = None" using Cons.prems(5) True by (intro dir_map_None) auto
    then show ?thesis
      using Cons.prems True by (auto simp: dent_ok_merge fun_upd_idem fun_upd_twist)
  next
    case False
    then obtain xs where d: "delete_after e name es = Some (ino, xs)" and e: "es' = q # xs" using Cons.prems(1) by auto
    have *: "(\<forall>e \<in> set xs. dent_ok e) \<and> length (dents xs) = length (dents (e # es)) \<and> dir_map es name = Some ino \<and>
        dir_map xs = (dir_map (e # es))(name := None) \<and> (\<exists>q' zs. xs = q' # zs \<and> (\<forall>e \<in> set zs. de_ino e \<noteq> 0) \<and> de_ino q' = de_ino e) \<and>
        distinct (map de_name xs) \<and> de_name ` set xs \<subseteq> de_name ` set (e # es)"
      by (rule Cons.IH [OF d]) (use Cons.prems False in auto)
    then have "dir_map es' = (dir_map (q # e # es))(name := None)"
      using e Cons.prems(6) by (auto simp: fun_eq_iff)
    with * show ?thesis using e Cons.prems False by auto
  qed
qed simp

lemma delete_after_None: "delete_after q name es = None \<longleftrightarrow> name \<notin> de_name ` set es"
  by (induction es arbitrary: q) auto

lemma dir_delete_ok:
  assumes "dir_ok bs es" and "bs < 65536"
  shows "case dir_delete name es of
      None \<Rightarrow> dir_map es name = None
    | Some (ino, es') \<Rightarrow> dir_ok bs es' \<and> dir_map es' = (dir_map es)(name := None) \<and> dir_map es name = (if ino = 0 then None else Some ino) \<and>
        ino < 0x80000000"
proof (cases es)
  case (Cons e xs)
  note ok = assms(1) [unfolded dir_ok_def Cons]
  have e: "dent_ok e" "de_ino e < 0x80000000" using ok by (simp_all add: dent_ok_def)
  show ?thesis
  proof (cases "de_name e = name")
    case True
    have "dir_map xs name = None" using ok True by (intro dir_map_None) auto
    then show ?thesis using True ok e Cons by (auto simp: dir_ok_def dent_ok_ino fun_eq_iff)
  next
    case False
    show ?thesis
    proof (cases "delete_after e name xs")
      case None
      then have "dir_map xs name = None" by (simp add: delete_after_None dir_map_None)
      with None show ?thesis using False Cons by simp
    next
      case (Some r)
      obtain ino es' where r: "r = (ino, es')" by (cases r)
      have d: "(\<forall>e \<in> set es'. dent_ok e) \<and> length (dents es') = length (dents (e # xs)) \<and> dir_map xs name = Some ino \<and>
          dir_map es' = (dir_map (e # xs))(name := None) \<and> (\<exists>q' zs. es' = q' # zs \<and> (\<forall>e \<in> set zs. de_ino e \<noteq> 0) \<and> de_ino q' = de_ino e) \<and>
          distinct (map de_name es') \<and> de_name ` set es' \<subseteq> de_name ` set (e # xs)"
        by (rule delete_after_ok) (use Some r ok assms(2) False in auto)
      then obtain x where x: "x \<in> set xs" "de_ino x = ino" "ino \<noteq> 0"
        by (auto simp: dir_map_def dest!: map_of_SomeD)
      then have "ino < 0x80000000" using ok by (auto simp: dent_ok_def)
      then show ?thesis using d x(3) Some r ok False Cons by (auto simp: dir_ok_def)
    qed
  qed
qed simp

text \<open>Adding.\<close>

definition name_ok :: "u8 list \<Rightarrow> bool" where
  "name_ok name \<longleftrightarrow> length name < 255 \<and> 0 \<notin> set name"

definition has_room :: "u8 list \<Rightarrow> dent \<Rightarrow> bool" where
  "has_room name e \<longleftrightarrow> de_ino e = 0 \<and> EXT2_DIR_REC_LEN (length name) \<le> dent_len e \<or>
     EXT2_DIR_REC_LEN (length name) + EXT2_DIR_REC_LEN (length (de_name e)) < dent_len e"

lemma dir_add_None: "dir_add name ino ft es = None \<longleftrightarrow> (\<forall>e \<in> set es. \<not> has_room name e)"
  by (induction es) (auto simp: has_room_def)

lemma rec_len_le: "8 + length name \<le> n \<Longrightarrow> 4 dvd n \<Longrightarrow> EXT2_DIR_REC_LEN (length name) \<le> n"
  by (auto simp: EXT2_DIR_REC_LEN_def elim!: dvdE)

lemma dent_ok_shrink:
  assumes "dent_ok e" and "EXT2_DIR_REC_LEN (length (de_name e)) \<le> dent_len e"
  shows "dent_ok (shrink_dent e)" and "dent_len (shrink_dent e) = EXT2_DIR_REC_LEN (length (de_name e))"
proof -
  show "dent_len (shrink_dent e) = EXT2_DIR_REC_LEN (length (de_name e))"
    by (rule split_entry(2) [of "[]" 0 _ e "dent_len e - EXT2_DIR_REC_LEN (length (de_name e))"]) (use assms in simp_all)
  then show "dent_ok (shrink_dent e)" using assms rec_len_ge(3) [of "length (de_name e)"]
    by (simp add: dent_ok_def) (simp add: shrink_dent_def)
qed

lemma dent_sels [simp]:
  "de_name (shrink_dent e) = de_name e" "de_ino (shrink_dent e) = de_ino e"
  "de_name (new_dent name ino ft n) = name" "de_ino (new_dent name ino ft n) = ino"
  "de_name (reuse_dent name ino ft e) = name" "de_ino (reuse_dent name ino ft e) = ino"
  by (simp_all add: shrink_dent_def new_dent_def reuse_dent_def)

lemma split_ok:
  assumes "dent_ok e" and "EXT2_DIR_REC_LEN (length name) + EXT2_DIR_REC_LEN (length (de_name e)) < dent_len e"
    and "name_ok name" and "ino < 0x80000000" and d_def: "d = new_dent name ino ft (dent_len e - EXT2_DIR_REC_LEN (length (de_name e)))"
  shows "dent_ok (shrink_dent e)" and "dent_ok d" and "dent_len (shrink_dent e) + dent_len d = dent_len e"
proof -
  let ?n = "dent_len e - EXT2_DIR_REC_LEN (length (de_name e))"
  have n: "8 + length name \<le> ?n" using assms(2) rec_len_ge(1) [of "length name"] by linarith
  have len: "dent_len d = ?n" using n by (simp add: d_def dent_len_def new_dent_def)
  have "4 dvd ?n" using assms(1) rec_len_ge(3) by (simp add: dent_ok_def dvd_diff_nat)
  moreover have "?n < 65536" using assms(1) by (simp add: dent_ok_def less_imp_diff_less)
  ultimately show "dent_ok d" using len assms(3,4) by (simp add: dent_ok_def name_ok_def) (simp add: d_def)
  show "dent_ok (shrink_dent e)" by (rule dent_ok_shrink(1)) (use assms in simp_all)
  show "dent_len (shrink_dent e) + dent_len d = dent_len e"
    using dent_ok_shrink(2) [of e] assms(1,2) len by simp
qed

lemma dir_add_tail:
  assumes "dir_add name ino ft es = Some es'" and "\<forall>e \<in> set es. dent_ok e \<and> de_ino e \<noteq> 0" and "distinct (map de_name es)"
    and "name_ok name" and "ino \<noteq> 0" and "ino < 0x80000000" and "name \<notin> de_name ` set es"
  shows "(\<forall>e \<in> set es'. dent_ok e \<and> de_ino e \<noteq> 0) \<and> length (dents es') = length (dents es) \<and> distinct (map de_name es') \<and>
    de_name ` set es' = insert name (de_name ` set es) \<and> dir_map es' = (dir_map es)(name \<mapsto> ino)"
  using assms
proof (induction es arbitrary: es')
  case (Cons e es)
  show ?case
  proof (cases "EXT2_DIR_REC_LEN (length name) + EXT2_DIR_REC_LEN (length (de_name e)) < dent_len e")
    case True
    note ok = split_ok(1) [OF _ True Cons.prems(4,6) refl] split_ok(2,3) [OF _ True Cons.prems(4,6) refl, of ft]
    have "es' = shrink_dent e # new_dent name ino ft (dent_len e - EXT2_DIR_REC_LEN (length (de_name e))) # es"
      using True Cons.prems(1,2) by auto
    then show ?thesis using ok Cons.prems by (auto simp: fun_upd_twist)
  next
    case False
    then obtain xs where d: "dir_add name ino ft es = Some xs" and e: "es' = e # xs" using Cons.prems(1,2) by auto
    have "(\<forall>e \<in> set xs. dent_ok e \<and> de_ino e \<noteq> 0) \<and> length (dents xs) = length (dents es) \<and> distinct (map de_name xs) \<and>
      de_name ` set xs = insert name (de_name ` set es) \<and> dir_map xs = (dir_map es)(name \<mapsto> ino)"
      by (rule Cons.IH [OF d]) (use Cons.prems in auto)
    then show ?thesis using e Cons.prems by (auto simp: fun_upd_twist)
  qed
qed simp

lemma dir_add_ok:
  assumes "dir_add name ino ft es = Some es'" and "dir_ok bs es" and "name_ok name" and "ino \<noteq> 0" and "ino < 0x80000000"
    and "dir_map es name = None"
  shows "dir_ok bs es' \<and> dir_map es' = (dir_map es)(name \<mapsto> ino)"
proof (cases es)
  case (Cons e xs)
  note ok = assms(2) [unfolded dir_ok_def Cons]
  have nx: "name \<notin> de_name ` set xs"
    using assms(6) ok Cons dir_map_dom [of xs name] by (auto split: if_splits)
  consider (reuse) "de_ino e = 0" "EXT2_DIR_REC_LEN (length name) \<le> dent_len e"
    | (other) "\<not> (de_ino e = 0 \<and> EXT2_DIR_REC_LEN (length name) \<le> dent_len e)" by blast
  then show ?thesis
  proof cases
    case reuse
    then have e: "es' = reuse_dent name ino ft e # xs" using assms(1) Cons by simp
    have "8 + length name \<le> dent_len e" using reuse(2) rec_len_ge(1) [of "length name"] by simp
    then have "dent_len (reuse_dent name ino ft e) = dent_len e" by (simp add: dent_len_def reuse_dent_def)
    moreover from this have "dent_ok (reuse_dent name ino ft e)" using ok assms(3,5) by (simp add: dent_ok_def name_ok_def)
    ultimately show ?thesis using e ok nx reuse(1) assms(4) Cons by (auto simp: dir_ok_def)
  next
    case other
    have ne: "de_name e \<noteq> name"
    proof
      assume eq: "de_name e = name"
      then have "de_ino e = 0" using assms(6) Cons by (auto split: if_splits)
      moreover have "EXT2_DIR_REC_LEN (length name) \<le> dent_len e"
        using ok eq by (intro rec_len_le) (auto simp: dent_ok_def dent_len_def)
      ultimately show False using other by blast
    qed
    show ?thesis
    proof (cases "EXT2_DIR_REC_LEN (length name) + EXT2_DIR_REC_LEN (length (de_name e)) < dent_len e")
      case True
      note so = split_ok(1) [OF _ True assms(3,5) refl] split_ok(2,3) [OF _ True assms(3,5) refl, of ft]
      have "es' = shrink_dent e # new_dent name ino ft (dent_len e - EXT2_DIR_REC_LEN (length (de_name e))) # xs"
        using True other assms(1) Cons by auto
      then show ?thesis using so ok nx ne assms(4) Cons by (auto simp: dir_ok_def fun_upd_twist)
    next
      case False
      then obtain zs where d: "dir_add name ino ft xs = Some zs" and e: "es' = e # zs" using other assms(1) Cons by auto
      have "(\<forall>e \<in> set zs. dent_ok e \<and> de_ino e \<noteq> 0) \<and> length (dents zs) = length (dents xs) \<and> distinct (map de_name zs) \<and>
        de_name ` set zs = insert name (de_name ` set xs) \<and> dir_map zs = (dir_map xs)(name \<mapsto> ino)"
        by (rule dir_add_tail [OF d]) (use ok nx assms in auto)
      then show ?thesis using e ok ne Cons by (auto simp: dir_ok_def fun_upd_twist)
    qed
  qed
qed (use assms(1) in simp)

end
