(* ===== verification/Ext2_Blocks.thy ===== *)
theory Ext2_Blocks
  imports Ext2_Dir
begin

text \<open>
  Blocks of 1024 bytes on the disk, and directories as maps from names to inodes: the contract of the three operations on a
  block, a client that runs any sequence of them, and the proof that \<open>inode.c\<close> keeps the contract.
\<close>

section \<open>Blocks of the disk\<close>

definition blk :: "disk \<Rightarrow> nat \<Rightarrow> u8 list" where
  "blk d b = map d [1024 * b ..< 1024 * b + 1024]"

definition put_blk :: "nat \<Rightarrow> u8 list \<Rightarrow> disk \<Rightarrow> disk" where
  "put_blk b buf d = (\<lambda>a. if a div 1024 = b then buf ! (a mod 1024) else d a)"

lemma length_blk [simp]: "length (blk d b) = 1024"
  by (simp add: blk_def)

lemma blk_nth: "i < 1024 \<Longrightarrow> blk d b ! i = d (1024 * b + i)"
  by (simp add: blk_def)

lemma blk_put: "length buf = 1024 \<Longrightarrow> blk (put_blk b buf d) c = (if c = b then buf else blk d c)"
  by (rule nth_equalityI) (simp_all add: blk_nth put_blk_def)

lemma blk_eqI: "(\<And>a. a div 1024 = b \<Longrightarrow> d a = d' a) \<Longrightarrow> blk d b = blk d' b"
  by (rule nth_equalityI) (simp_all add: blk_nth)

lemma put_blk_other: "a div 1024 \<noteq> b \<Longrightarrow> put_blk b buf d a = d a"
  by (simp add: put_blk_def)

lemma sector_of_block:
  fixes block :: u32
  assumes "unat block < 2 ^ 27"
  shows "512 * unat ((block * 2) AND 0x0FFFFFFF) = 1024 * unat block"
proof -
  have "unat (block * 2) = unat block * 2" using assms by (simp add: unat_word_ariths)
  moreover have "unat (block * 2 AND 0x0FFFFFFF) = unat (block * 2) mod 2 ^ 28"
  proof -
    have "block * 2 AND 0x0FFFFFFF = take_bit 28 (block * 2)" by (simp add: take_bit_eq_mask mask_eq_exp_minus_1)
    then show ?thesis by (simp add: unsigned_take_bit_eq take_bit_eq_mod unat_mod_distrib)
  qed
  ultimately show ?thesis using assms by simp
qed

lemma two_sectors: "div_ceil 1024 512 = 2" "(1024 :: u32) div 512 = 2" "unat (ucast (2 :: u32) :: u8) = 2"
  by (simp_all add: div_ceil_def)

lemma bread_blk:
  assumes "s_blocksize (fs_sb fs) = 1024" and "unat block < 2 ^ 27"
  shows "ext2_bread_block fs block = blk (fs_disk fs) (unat block)"
  using sector_of_block [OF assms(2)]
  by (simp add: ext2_bread_block_def ext2_bread_def bread_def ata_read_def assms(1) BYTES_PER_SECTOR_def two_sectors Let_def blk_def)

lemma bwrite_blk:
  assumes "s_blocksize (fs_sb fs) = 1024" and "unat block < 2 ^ 27" and "length buf = 1024"
  shows "ext2_bwrite_block fs block buf = Some (fs\<lparr>fs_disk := put_blk (unat block) buf (fs_disk fs)\<rparr>)"
proof -
  have "(\<lambda>a. if 1024 * unat block \<le> a \<and> a < 1024 * unat block + 1024 then buf ! (a - 1024 * unat block) else fs_disk fs a) =
      put_blk (unat block) buf (fs_disk fs)"
  proof
    fix a
    have "(1024 * unat block \<le> a \<and> a < 1024 * unat block + 1024) = (a div 1024 = unat block)" by linarith
    moreover have "a - 1024 * unat block = a mod 1024" if "a div 1024 = unat block" using that by (metis minus_mult_div_eq_mod)
    ultimately show "(if 1024 * unat block \<le> a \<and> a < 1024 * unat block + 1024 then buf ! (a - 1024 * unat block) else fs_disk fs a) =
        put_blk (unat block) buf (fs_disk fs) a" by (simp add: put_blk_def)
  qed
  then show ?thesis
    using sector_of_block [OF assms(2)] assms(3)
    by (simp add: ext2_bwrite_block_def ext2_bwrite_def bwrite_def ata_write_def assms(1) BYTES_PER_SECTOR_def two_sectors Let_def)
qed

section \<open>The contract of a directory\<close>

datatype dir_op = Find "u8 list" | Add "u8 list" u32 u16 | Delete "u8 list"

text \<open>
  What an operation may be asked of a directory with the entries \<open>es\<close>, what it returns, and the entries and the map from names
  to inodes it leaves. An addition succeeds exactly when there is an entry with room for the name.
\<close>

fun op_ok :: "dir_op \<Rightarrow> dent list \<Rightarrow> bool" where
  "op_ok (Add name ino mode) es \<longleftrightarrow> name_ok name \<and> dir_map es name = None \<and> ino \<noteq> 0 \<and> ino < 0x80000000 \<and> entry_type mode \<noteq> None"
| "op_ok (Find name) es \<longleftrightarrow> True"
| "op_ok (Delete name) es \<longleftrightarrow> True"

definition found :: "u32 option \<Rightarrow> int \<Rightarrow> bool" where
  "found v r \<longleftrightarrow> (case v of Some ino \<Rightarrow> r = sint ino \<and> 0 < r | None \<Rightarrow> r \<le> 0)"

fun op_spec :: "dir_op \<Rightarrow> dent list \<Rightarrow> int \<Rightarrow> dent list \<Rightarrow> bool" where
  "op_spec (Find name) es r es' \<longleftrightarrow> found (dir_map es name) r \<and> es' = es"
| "op_spec (Add name ino mode) es r es' \<longleftrightarrow>
     (if \<exists>e \<in> set es. has_room name e
      then r = 0 \<and> dir_map es' = (dir_map es)(name \<mapsto> ino) \<and> (\<exists>ft. entry_type mode = Some ft \<and> dir_add name ino ft es = Some es')
      else r = - ENOENT \<and> es' = es)"
| "op_spec (Delete name) es r es' \<longleftrightarrow>
     found (dir_map es name) r \<and> dir_map es' = (dir_map es)(name := None) \<and>
     es' = (case dir_delete name es of None \<Rightarrow> es | Some (ino, es1) \<Rightarrow> es1)"

primrec spec_run :: "dir_op list \<Rightarrow> dent list \<Rightarrow> int list \<Rightarrow> dent list \<Rightarrow> bool" where
  "spec_run [] es rs es' \<longleftrightarrow> rs = [] \<and> es' = es"
| "spec_run (op # ops) es rs es' \<longleftrightarrow> (\<exists>r rs' es1. rs = r # rs' \<and> op_spec op es r es1 \<and> spec_run ops es1 rs' es')"

text \<open>A sequence of operations each of which may be asked when its turn comes.\<close>

primrec legal :: "dir_op list \<Rightarrow> dent list \<Rightarrow> bool" where
  "legal [] es \<longleftrightarrow> True"
| "legal (op # ops) es \<longleftrightarrow> op_ok op es \<and> (\<forall>r es1. op_spec op es r es1 \<longrightarrow> legal ops es1)"

primrec run_with :: "(dir_op \<Rightarrow> 's \<Rightarrow> (int \<times> 's) option) \<Rightarrow> dir_op list \<Rightarrow> 's \<Rightarrow> (int list \<times> 's) option" where
  "run_with step [] s = Some ([], s)"
| "run_with step (op # ops) s = do { (r, s1) \<leftarrow> step op s; (rs, s2) \<leftarrow> run_with step ops s1; Some (r # rs, s2) }"

locale directory =
  fixes holds :: "'s \<Rightarrow> dent list \<Rightarrow> bool"
    and step :: "dir_op \<Rightarrow> 's \<Rightarrow> (int \<times> 's) option"
  assumes step_refines: "holds s es \<Longrightarrow> op_ok op es \<Longrightarrow> \<exists>r s' es'. step op s = Some (r, s') \<and> op_spec op es r es' \<and> holds s' es'"
begin

lemma run_refines:
  "holds s es \<Longrightarrow> legal ops es \<Longrightarrow> \<exists>rs s' es'. run_with step ops s = Some (rs, s') \<and> spec_run ops es rs es' \<and> holds s' es'"
proof (induction ops arbitrary: s es)
  case (Cons op ops)
  obtain r s1 es1 where 1: "step op s = Some (r, s1)" "op_spec op es r es1" "holds s1 es1"
    using step_refines [OF Cons.prems(1), of op] Cons.prems(2) unfolding legal.simps by blast
  have "legal ops es1" using Cons.prems(2) 1(2) unfolding legal.simps by blast
  then obtain rs s' es' where "run_with step ops s1 = Some (rs, s')" "spec_run ops es1 rs es'" "holds s' es'"
    using Cons.IH [OF 1(3)] by blast
  with 1(1,2) show ?case
    by (intro exI [of _ "r # rs"] exI [of _ s'] exI [of _ es']) (simp del: op_spec.simps, blast)
qed simp

end

section \<open>Directory blocks keep the contract\<close>

text \<open>The block of \<open>fs\<close> holds the entries, and nothing but the block differs from \<open>fs0\<close>.\<close>

definition dir_block :: "ext2_fs \<Rightarrow> u32 \<Rightarrow> ext2_fs \<Rightarrow> dent list \<Rightarrow> bool" where
  "dir_block fs0 block fs es \<longleftrightarrow> fs_sb fs = fs_sb fs0 \<and> s_blocksize (fs_sb fs0) = 1024 \<and> unat block < 2 ^ 27 \<and>
     (\<forall>a. a div 1024 \<noteq> unat block \<longrightarrow> fs_disk fs a = fs_disk fs0 a) \<and>
     dir_ok 1024 es \<and> blk (fs_disk fs) (unat block) = dents es"

fun dir_step :: "u32 \<Rightarrow> dir_op \<Rightarrow> ext2_fs \<Rightarrow> (int \<times> ext2_fs) option" where
  "dir_step block (Find name) fs = ext2_find_ino name block fs"
| "dir_step block (Add name ino mode) fs = ext2_add_entry name ino mode block fs"
| "dir_step block (Delete name) fs = ext2_delete_entry name block fs"

lemma dir_block_put:
  assumes "dir_block fs0 block fs es0" and "dir_ok 1024 es"
  shows "ext2_bwrite_block fs block (dents es) = Some (fs\<lparr>fs_disk := put_blk (unat block) (dents es) (fs_disk fs)\<rparr>)"
    and "dir_block fs0 block (fs\<lparr>fs_disk := put_blk (unat block) (dents es) (fs_disk fs)\<rparr>) es"
proof -
  have len: "length (dents es) = 1024" using assms(2) by (simp add: dir_ok_def)
  show "ext2_bwrite_block fs block (dents es) = Some (fs\<lparr>fs_disk := put_blk (unat block) (dents es) (fs_disk fs)\<rparr>)"
    using assms(1) len by (intro bwrite_blk) (simp_all add: dir_block_def)
  show "dir_block fs0 block (fs\<lparr>fs_disk := put_blk (unat block) (dents es) (fs_disk fs)\<rparr>) es"
    using assms blk_put [OF len, of "unat block" "fs_disk fs" "unat block"] by (auto simp: dir_block_def put_blk_other)
qed

lemma dir_block_step:
  assumes "dir_block fs0 block fs es" and "op_ok op es"
  shows "\<exists>r fs' es'. dir_step block op fs = Some (r, fs') \<and> op_spec op es r es' \<and> dir_block fs0 block fs' es'"
proof -
  have es: "dir_ok 1024 es" "blk (fs_disk fs) (unat block) = dents es" using assms(1) by (auto simp: dir_block_def)
  note ok = es(1) [unfolded dir_ok_def]
  have bs: "unat (s_blocksize (fs_sb fs)) = 1024" using assms(1) by (simp add: dir_block_def)
  have rd: "ext2_bread_block fs block = dents es"
    using assms(1) es(2) by (subst bread_blk) (simp_all add: dir_block_def)
  show ?thesis
  proof (cases op)
    case (Find name)
    have "ext2_find_ino name block fs = Some (dir_find name es, fs)"
      using find_ino_dents [of es 1024 name] ok by (simp add: ext2_find_ino_def bs rd)
    moreover have "found (dir_map es name) (dir_find name es)"
      using dir_find_map [of es name] ok by (auto simp: found_def split: option.splits)
    ultimately show ?thesis using Find assms(1) by auto
  next
    case (Add name ino mode)
    then have a: "name_ok name" "dir_map es name = None" "ino \<noteq> 0" "ino < 0x80000000" using assms(2) by auto
    obtain ft where ft: "entry_type mode = Some ft" using assms(2) Add by auto
    have loop: "add_entry_loop 1024 name ino mode (dents es) 0 0 = Some (map_option dents (dir_add name ino ft es))"
      by (rule add_entry_dents) (use ok ft a(1) in \<open>auto simp: name_ok_def\<close>)
    show ?thesis
    proof (cases "dir_add name ino ft es")
      case None
      then have "ext2_add_entry name ino mode block fs = Some (- ENOENT, fs)" using loop by (simp add: ext2_add_entry_def bs rd)
      moreover have "\<forall>e \<in> set es. \<not> has_room name e" using None by (simp add: dir_add_None)
      ultimately show ?thesis using Add assms(1) by auto
    next
      case (Some es')
      have "dir_ok 1024 es' \<and> dir_map es' = (dir_map es)(name \<mapsto> ino)"
        by (rule dir_add_ok [OF Some es(1) a(1,3,4,2)])
      moreover have "\<exists>e \<in> set es. has_room name e" using dir_add_None [of name ino ft es] Some by auto
      ultimately show ?thesis
        using Add loop Some ft dir_block_put [OF assms(1), of es'] by (auto simp: ext2_add_entry_def bs rd)
    qed
  next
    case (Delete name)
    have loop: "delete_entry_loop 1024 (dents es) name None 0 = Some (map_option (apsnd dents) (dir_delete name es))"
      by (rule delete_entry_dents) (use ok in auto)
    note d = dir_delete_ok [OF es(1), of name]
    show ?thesis
    proof (cases "dir_delete name es")
      case None
      then have "dir_map es name = None" using d by simp
      moreover from this have "(dir_map es)(name := None) = dir_map es" by auto
      moreover have "ext2_delete_entry name block fs = Some (- ENOENT, fs)" using loop None by (simp add: ext2_delete_entry_def bs rd)
      ultimately show ?thesis using Delete None assms(1) by (auto simp: found_def ENOENT_def)
    next
      case (Some x)
      obtain ino es' where x: "x = (ino, es')" by (cases x)
      then have d': "dir_ok 1024 es'" "dir_map es' = (dir_map es)(name := None)" "dir_map es name = (if ino = 0 then None else Some ino)" "ino < 0x80000000"
        using d Some by auto
      then have "found (dir_map es name) (sint ino)" using sint_ino [OF d'(4)] by (auto simp: found_def)
      then show ?thesis
        using Delete loop Some x d' dir_block_put [OF assms(1) d'(1)] by (auto simp: ext2_delete_entry_def bs rd)
    qed
  qed
qed

interpretation ext2_dir: directory "dir_block fs0 block" "dir_step block" for fs0 block
  by unfold_locales (rule dir_block_step)

text \<open>C5: Any sequence of lookups, additions of absent names and deletions on a block of a directory returns what a map from names
  to inodes would return and leaves the entries of that map; an addition succeeds exactly when one of the entries the block then
  has leaves room for the name, and is refused with the directory unchanged otherwise. The block stays well formed and no other
  byte of the disk changes.
\<close>

theorem ext2_directory_is_map:
  assumes "dir_block fs block fs es" and "legal ops es"
  shows "\<exists>rs fs' es'. run_with (dir_step block) ops fs = Some (rs, fs') \<and> spec_run ops es rs es' \<and> dir_block fs block fs' es'"
  by (rule ext2_dir.run_refines [OF assms])

text \<open>A directory with the two entries that every directory has.\<close>

definition dir_example_entries :: "dent list" where
  "dir_example_entries =
     [\<lparr>de_ino = 2, de_type = 2, de_name = [0x2E], de_pad = replicate 3 0\<rparr>,
      \<lparr>de_ino = 2, de_type = 2, de_name = [0x2E, 0x2E], de_pad = replicate 1002 0\<rparr>]"

definition dir_example :: ext2_fs where
  "dir_example =
     \<lparr>fs_disk = put_blk 5 (dents dir_example_entries) (\<lambda>_. 0),
      fs_sb = \<lparr>s_blocksize = 1024, s_blocksize_bits = 0, s_fs_info = superblock_of (replicate 1024 0)\<rparr>\<rparr>"

lemma dir_example_block: "dir_block dir_example 5 dir_example dir_example_entries"
proof -
  have ok: "dir_ok 1024 dir_example_entries"
    by (simp add: dir_ok_def dir_example_entries_def dent_ok_def dent_len_def)
  moreover have "blk (fs_disk dir_example) 5 = dents dir_example_entries"
    using ok by (simp add: dir_example_def blk_put dir_ok_def)
  ultimately show ?thesis by (auto simp: dir_block_def) (simp add: dir_example_def)
qed

text \<open>A name is added, found, deleted and gone.\<close>

theorem ext2_directory_is_map_witness:
  "\<exists>r fs' es'. run_with (dir_step 5) [Add [0x61] 12 0x81A4, Find [0x61], Delete [0x61], Find [0x61]] dir_example = Some ([0, 12, 12, r], fs') \<and>
     r \<le> 0 \<and> dir_block dir_example 5 fs' es' \<and> dir_map es' = [[0x2E] \<mapsto> 2, [0x2E, 0x2E] \<mapsto> 2]"
proof -
  let ?ops = "[Add [0x61] 12 0x81A4, Find [0x61], Delete [0x61], Find [0x61]]"
  have m: "dir_map dir_example_entries = [[0x2E] \<mapsto> 2, [0x2E, 0x2E] \<mapsto> 2]"
    by (simp add: dir_example_entries_def fun_upd_twist)
  have "legal ?ops dir_example_entries"
    by (simp add: m name_ok_def entry_type_def mode_defs del: op_spec.simps)
  then obtain rs fs' es' where 1: "run_with (dir_step 5) ?ops dir_example = Some (rs, fs')" "spec_run ?ops dir_example_entries rs es'"
      "dir_block dir_example 5 fs' es'"
    using ext2_directory_is_map [OF dir_example_block] by blast
  have "\<exists>e \<in> set dir_example_entries. has_room [0x61] e"
    by (simp add: dir_example_entries_def has_room_def dent_len_def EXT2_DIR_REC_LEN_def)
  then obtain r es1 es2 where 2: "rs = [0, 12, 12, r]" "dir_map es1 = (dir_map dir_example_entries)([0x61] \<mapsto> 12)"
      "dir_map es2 = (dir_map es1)([0x61] := None)" "found (dir_map es2 [0x61]) r" "es' = es2"
    using 1(2) by (auto simp: found_def)
  then have "r \<le> 0" "dir_map es' = [[0x2E] \<mapsto> 2, [0x2E, 0x2E] \<mapsto> 2]" by (simp_all add: found_def m fun_eq_iff)
  with 1 2(1) show ?thesis by blast
qed

section \<open>A new block of a directory\<close>

text \<open>
  \<open>ext2_create_entry\<close> adds the entry to a zeroed block when all other blocks are full. The length of its record stays 0, and the
  loop of a later lookup of another name stays where it is.
\<close>

lemma find_ino_hangs:
  assumes "entry_at sz buf = Some (ino, 0, name_len)" and "entry_name sz name_len buf = Some tmpname" and "tmpname \<noteq> name" and "sz < bs"
  shows "find_ino_loop bs buf name sz = None"
proof -
  have "\<not> (a = bs \<and> b = buf \<and> c = name \<and> d = sz)" if "find_ino_loop a b c d = Some y" for a b c d y
    using that
  proof (rule find_ino_loop.raw_induct [rotated, where P = "\<lambda>a b c d y. \<not> (a = bs \<and> b = buf \<and> c = name \<and> d = sz)"])
    fix f a b c d y
    assume IH: "\<And>a b c d y. f a b c d = Some y \<Longrightarrow> \<not> (a = bs \<and> b = buf \<and> c = name \<and> d = sz)"
      and eq: "(if d < a then
          do {
            (ino, rec_len, name_len) \<leftarrow> entry_at d b;
            tmpname \<leftarrow> entry_name d name_len b;
            (if tmpname = c then Some (sint ino) else f a b c (d + unat rec_len))
          } else Some (- ENOENT)) = Some y"
    show "\<not> (a = bs \<and> b = buf \<and> c = name \<and> d = sz)"
    proof
      assume "a = bs \<and> b = buf \<and> c = name \<and> d = sz"
      then have "f bs buf name sz = Some y" using eq assms by simp
      then show False using IH by blast
    qed
  qed
  then show ?thesis by (cases "find_ino_loop bs buf name sz") blast+
qed

lemma new_dir_block_hangs:
  assumes "name_ok name" and "entry_type mode = Some ft" and "name' \<noteq> name"
  obtains buf where "add_entry_loop 1024 name ino mode (replicate 1024 0) 0 0 = Some (Some buf)" and "find_ino_loop 1024 buf name' 0 = None"
proof -
  let ?h = "le32 ino @ le16 0 @ [of_nat (length name), ft]"
  let ?buf = "?h @ name @ replicate (1016 - length name) 0"
  have len: "length name < 255" "0 \<notin> set name" using assms(1) by (simp_all add: name_ok_def)
  have n: "unat (of_nat (length name) :: u8) = length name" using len(1) by (simp add: unat_u8)
  have r: "replicate 1024 (0 :: u8) = replicate 8 0 @ replicate 1016 0" by (simp flip: replicate_add)
  have "fill_entry 0 name ino mode 0 0 ([] @ replicate 8 0 @ replicate 1016 0 @ []) =
      Some ([] @ ?h @ name @ drop (length name) (replicate 1016 0) @ [])"
    by (rule fill_entry_at) (use len assms(2) in simp_all)
  then have "fill_entry 0 name ino mode 0 0 (replicate 1024 0) = Some ?buf" using r by simp
  then have add: "add_entry_loop 1024 name ino mode (replicate 1024 0) 0 0 = Some (Some ?buf)"
    using entry_at_zero [of "[]" 0 1024 "[]"] by (subst add_entry_loop.simps) simp
  have "peek 0 8 ([] @ ?h @ name @ replicate (1016 - length name) 0) = Some ?h" by (rule peek_at) simp_all
  then have at: "entry_at 0 ?buf = Some (ino, 0, of_nat (length name))"
    by (simp add: entry_at_def nth_append)
  have "peek 8 (length name) (?h @ name @ replicate (1016 - length name) 0) = Some name" by (rule peek_at) simp_all
  moreover have "takeWhile (\<lambda>c. c \<noteq> 0) name = name" using len(2) by (simp add: takeWhile_eq_all_conv) metis
  ultimately have "entry_name 0 (of_nat (length name)) ?buf = Some name"
    using len(1) by (simp add: entry_name_def n NAME_MAX_def)
  then have "find_ino_loop 1024 ?buf name' 0 = None" by (rule find_ino_hangs [OF at]) (use assms(3) in auto)
  with add show thesis by (rule that)
qed

end
