(* ===== verification/Ext2_Read.thy ===== *)
theory Ext2_Read
  imports Ext2_Blocks
begin

text \<open>
  Reading a file: the blocks of a file through the three levels of indirection, and the proof that a read which starts in the
  direct blocks and meets no hole returns the bytes of the file. A read that starts further on begins with the wrong block, and in
  a hole the code reads the first block of the disk.
\<close>

section \<open>The contents of a file\<close>

text \<open>
  Block \<open>k\<close> of the tree of the given height below a block. The block number 0, at any height, stands for blocks that were
  never written: there the file has a hole, of zero bytes.
\<close>

primrec tree_data :: "ext2_fs \<Rightarrow> nat \<Rightarrow> u32 \<Rightarrow> nat \<Rightarrow> u32 option" where
  "tree_data fs 0 b k = (if b = 0 then None else Some b)"
| "tree_data fs (Suc level) b k =
     (if b = 0 then None else tree_data fs level (block_numbers fs b ! (k div 256 ^ level)) (k mod 256 ^ level))"

text \<open>The layout of ext2: twelve direct blocks, then trees of height one, two and three.\<close>

definition file_block :: "ext2_fs \<Rightarrow> ext2_inode \<Rightarrow> nat \<Rightarrow> u32 option" where
  "file_block fs ei n =
     (if n < 12 then tree_data fs 0 (ei_block ei ! n) 0
      else if n < 268 then tree_data fs 1 (ei_block ei ! 12) (n - 12)
      else if n < 65804 then tree_data fs 2 (ei_block ei ! 13) (n - 268)
      else tree_data fs 3 (ei_block ei ! 14) (n - 65804))"

definition file_byte :: "ext2_fs \<Rightarrow> ext2_inode \<Rightarrow> nat \<Rightarrow> u8" where
  "file_byte fs ei a =
     (case file_block fs ei (a div 1024) of None \<Rightarrow> 0 | Some b \<Rightarrow> ext2_bread_block fs b ! (a mod 1024))"

definition no_hole :: "ext2_fs \<Rightarrow> ext2_inode \<Rightarrow> nat \<Rightarrow> nat \<Rightarrow> bool" where
  "no_hole fs ei lo hi \<longleftrightarrow> (\<forall>a \<in> {lo ..< hi}. file_block fs ei (a div 1024) \<noteq> None)"

text \<open>
  The code follows the block numbers without looking for 0. The block it reaches in this way, and the byte it finds there, are
  those of the file outside the holes.
\<close>

primrec tree_block :: "ext2_fs \<Rightarrow> nat \<Rightarrow> u32 \<Rightarrow> nat \<Rightarrow> u32" where
  "tree_block fs 0 b k = b"
| "tree_block fs (Suc level) b k = tree_block fs level (block_numbers fs b ! (k div 256 ^ level)) (k mod 256 ^ level)"

definition tree_byte :: "ext2_fs \<Rightarrow> nat \<Rightarrow> u32 \<Rightarrow> nat \<Rightarrow> u8" where
  "tree_byte fs level b a = ext2_bread_block fs (tree_block fs level b (a div 1024)) ! (a mod 1024)"

definition reached_block :: "ext2_fs \<Rightarrow> ext2_inode \<Rightarrow> nat \<Rightarrow> u32" where
  "reached_block fs ei n =
     (if n < 12 then ei_block ei ! n
      else if n < 268 then tree_block fs 1 (ei_block ei ! 12) (n - 12)
      else if n < 65804 then tree_block fs 2 (ei_block ei ! 13) (n - 268)
      else tree_block fs 3 (ei_block ei ! 14) (n - 65804))"

definition reached_byte :: "ext2_fs \<Rightarrow> ext2_inode \<Rightarrow> nat \<Rightarrow> u8" where
  "reached_byte fs ei a = ext2_bread_block fs (reached_block fs ei (a div 1024)) ! (a mod 1024)"

lemma tree_data_reached: "tree_data fs level b k = Some c \<Longrightarrow> tree_block fs level b k = c"
  by (induction level arbitrary: b k) (auto split: if_splits)

lemma reached_byte_eq:
  assumes "file_block fs ei (a div 1024) \<noteq> None"
  shows "reached_byte fs ei a = file_byte fs ei a"
proof -
  obtain c where c: "file_block fs ei (a div 1024) = Some c" using assms by blast
  then have "reached_block fs ei (a div 1024) = c"
    unfolding file_block_def reached_block_def by (auto simp del: tree_data.simps dest!: tree_data_reached split: if_splits)
  then show ?thesis using c by (simp add: reached_byte_def file_byte_def)
qed

lemma map_reached_byte: "no_hole fs ei lo hi \<Longrightarrow> map (reached_byte fs ei) [lo ..< hi] = map (file_byte fs ei) [lo ..< hi]"
  by (auto simp: no_hole_def intro: reached_byte_eq)

lemma length_bread_block: "s_blocksize (fs_sb fs) = 1024 \<Longrightarrow> length (ext2_bread_block fs b) = 1024"
  by (simp add: ext2_bread_block_def ext2_bread_def bread_def ata_read_def BYTES_PER_SECTOR_def two_sectors Let_def)

lemma length_block_numbers: "s_blocksize (fs_sb fs) = 1024 \<Longrightarrow> length (block_numbers fs b) = 256"
  by (simp add: block_numbers_def Let_def)

section \<open>Reading a tree of blocks\<close>

text \<open>A step that reads what of the next \<open>len\<close> bytes lies in the window, from the position \<open>p\<close> on.\<close>

definition reads_ok :: "nat \<Rightarrow> (u32 \<Rightarrow> u8 list \<times> u32 \<Rightarrow> (u8 list \<times> u32) option) \<Rightarrow> (u32 \<Rightarrow> nat \<Rightarrow> u8) \<Rightarrow> nat \<Rightarrow> nat \<Rightarrow> bool" where
  "reads_ok len f byte lo hi \<longleftrightarrow>
     (\<forall>b out p. unat p mod 1024 = 0 \<and> lo < unat p + 1024 \<and> unat p < hi \<longrightarrow>
       (\<exists>p'. f b (out, p) = Some (out @ map (\<lambda>a. byte b (a - unat p)) [max lo (unat p) ..< min hi (unat p + len)], p') \<and>
         unat p' mod 1024 = 0 \<and> (unat p' = unat p + len \<or> hi \<le> unat p' \<and> unat p' \<le> unat p + len)))"

lemma reads_okE:
  assumes "reads_ok len f byte lo hi" and "unat p mod 1024 = 0" and "lo < unat p + 1024" and "unat p < hi"
  obtains p' where "f b (out, p) = Some (out @ map (\<lambda>a. byte b (a - unat p)) [max lo (unat p) ..< min hi (unat p + len)], p')"
    and "unat p' mod 1024 = 0" and "unat p' = unat p + len \<or> hi \<le> unat p' \<and> unat p' \<le> unat p + len"
  using assms unfolding reads_ok_def by meson

lemma upt_join: "i \<le> j \<Longrightarrow> j \<le> k \<Longrightarrow> [i ..< j] @ [j ..< k] = [i ..< k]"
  by (metis le_add_diff_inverse upt_add_eq_append)

lemma reads_blocks:
  assumes f: "reads_ok len f byte lo hi" and len: "1024 \<le> len"
    and p: "unat p mod 1024 = 0" "lo < unat p + 1024"
  shows "\<exists>p'. read_blocks f (int hi) bs (out, p) =
      Some (out @ map (\<lambda>a. byte (bs ! ((a - unat p) div len)) ((a - unat p) mod len)) [max lo (unat p) ..< min hi (unat p + len * length bs)], p') \<and>
    unat p' mod 1024 = 0 \<and> (unat p' = unat p + len * length bs \<or> hi \<le> unat p' \<and> unat p' \<le> unat p + len * length bs)"
  using p
proof (induction bs arbitrary: out p)
  case Nil
  then show ?case by (auto simp: max_def min_def)
next
  case (Cons b bs)
  let ?P = "unat p" and ?g = "\<lambda>a. byte ((b # bs) ! ((a - unat p) div len)) ((a - unat p) mod len)"
  let ?stop = "?P + len * length (b # bs)"
  show ?case
  proof (cases "?P < hi")
    case False
    then have "[max lo ?P ..< min hi ?stop] = []" by simp
    moreover have "\<not> uint p < int hi" using False uint_nat [of p] by linarith
    ultimately show ?thesis using False Cons.prems by (intro exI [of _ p]) simp
  next
    case True
    obtain p1 where p1: "f b (out, p) = Some (out @ map (\<lambda>a. byte b (a - ?P)) [max lo ?P ..< min hi (?P + len)], p1)"
      "unat p1 mod 1024 = 0" "unat p1 = ?P + len \<or> hi \<le> unat p1 \<and> unat p1 \<le> ?P + len"
      using reads_okE [OF f Cons.prems True] by metis
    have "map (\<lambda>a. byte b (a - ?P)) [max lo ?P ..< min hi (?P + len)] = map ?g [max lo ?P ..< min hi (?P + len)]"
      by (rule map_cong) auto
    note out1 = p1(1) [unfolded this]
    have lt: "uint p < int hi" using True uint_nat [of p] by linarith
    have step: "read_blocks f (int hi) (b # bs) (out, p) = Option.bind (f b (out, p)) (read_blocks f (int hi) bs)"
      using lt by simp
    have lo1: "lo < unat p1 + 1024" using Cons.prems(2) p1(3) len True by linarith
    obtain p2 where p2: "read_blocks f (int hi) bs (out @ map ?g [max lo ?P ..< min hi (?P + len)], p1) =
        Some ((out @ map ?g [max lo ?P ..< min hi (?P + len)]) @
          map (\<lambda>a. byte (bs ! ((a - unat p1) div len)) ((a - unat p1) mod len)) [max lo (unat p1) ..< min hi (unat p1 + len * length bs)], p2)"
      "unat p2 mod 1024 = 0" "unat p2 = unat p1 + len * length bs \<or> hi \<le> unat p2 \<and> unat p2 \<le> unat p1 + len * length bs"
      using Cons.IH [OF p1(2) lo1, of "out @ map ?g [max lo ?P ..< min hi (?P + len)]"] by (elim exE conjE) (rule that)
    show ?thesis
    proof (cases "hi \<le> ?P + len")
      case True
      then have "hi \<le> unat p1" using p1(3) by auto
      then have "[max lo (unat p1) ..< min hi (unat p1 + len * length bs)] = []" by simp
      moreover have "min hi (?P + len) = min hi ?stop" using True by simp
      moreover have "hi \<le> unat p2 \<and> unat p2 \<le> ?stop"
        using p2(3) p1(3) \<open>hi \<le> unat p1\<close> by (auto simp: algebra_simps)
      ultimately show ?thesis using out1 step p2(1,2) by auto
    next
      case False
      then have q: "unat p1 = ?P + len" using p1(3) by auto
      have "map (\<lambda>a. byte (bs ! ((a - unat p1) div len)) ((a - unat p1) mod len)) [max lo (unat p1) ..< min hi (unat p1 + len * length bs)] =
          map ?g [?P + len ..< min hi ?stop]"
      proof (rule map_cong)
        show "[max lo (unat p1) ..< min hi (unat p1 + len * length bs)] = [?P + len ..< min hi ?stop]"
          using q Cons.prems(2) len by (simp add: max_absorb2 algebra_simps)
        fix a assume "a \<in> set [?P + len ..< min hi ?stop]"
        then have a: "?P + len \<le> a" by simp
        then have "a - ?P = (a - unat p1) + len" using q by simp
        then have "(a - ?P) div len = Suc ((a - unat p1) div len)" "(a - ?P) mod len = (a - unat p1) mod len"
          using less_le_trans [OF _ len, of 0] by (simp_all add: div_add_self2)
        then show "byte (bs ! ((a - unat p1) div len)) ((a - unat p1) mod len) = ?g a" by simp
      qed
      moreover have "[max lo ?P ..< min hi (?P + len)] @ [?P + len ..< min hi ?stop] = [max lo ?P ..< min hi ?stop]"
        using False Cons.prems(2) len by (simp add: upt_join)
      moreover have "unat p2 = ?stop \<or> hi \<le> unat p2 \<and> unat p2 \<le> ?stop" using p2(3) q by (auto simp: algebra_simps)
      ultimately show ?thesis using out1 step p2(1,2) by (auto simp flip: map_append)
    qed
  qed
qed

lemma window_start: "pstart (int lo) p = of_nat (max lo (unat p) - unat p)"
proof (cases "unat p < lo")
  case True
  then have "uint p < int lo" and eq: "int lo - uint p = int (lo - unat p)" using uint_nat [of p] by linarith+
  then have "pstart (int lo) p = of_int (int (lo - unat p))" by (simp only: pstart_def eq if_True)
  then show ?thesis using True by (simp only: of_int_of_nat_eq max_def not_less [symmetric] if_False if_True) simp
next
  case False
  then have "\<not> uint p < int lo" using uint_nat [of p] by linarith
  then show ?thesis using False by (simp add: pstart_def)
qed

lemma window_end:
  assumes "unat p + 1024 < 2 ^ 32" and "hi = lo + unat count"
  shows "pend (int lo) count p 1024 = of_nat (unat p + 1024 - min hi (unat p + 1024))"
proof -
  have p: "uint (p + 1024) = int (unat p + 1024)"
    using assms(1) by (subst uint_nat) (simp add: unat_word_ariths)
  have c: "int lo + uint count = int hi" using assms(2) uint_nat [of count] by simp
  show ?thesis
  proof (cases "hi < unat p + 1024")
    case True
    then have lt: "int lo + uint count < uint (p + 1024)" and eq: "uint (p + 1024) - int lo - uint count = int (unat p + 1024 - hi)"
      using p c by linarith+
    have "pend (int lo) count p 1024 = of_int (int (unat p + 1024 - hi))" by (simp only: pend_def eq lt if_True)
    then show ?thesis using True by (simp only: of_int_of_nat_eq min_def) simp
  next
    case False
    then have "\<not> int lo + uint count < uint (p + 1024)" using p c by linarith
    then show ?thesis using False by (simp add: pend_def)
  qed
qed

lemma sub_window: "s + e \<le> 1024 \<Longrightarrow> (1024 :: u32) - of_nat s - of_nat e = of_nat (1024 - (s + e))"
  by (simp add: of_nat_diff)

lemma peek_window:
  assumes "length buf = 1024" and "q \<le> x" and "x \<le> y" and "y \<le> q + 1024"
  shows "peek (x - q) (y - x) buf = Some (map (\<lambda>a. buf ! ((a - q) mod 1024)) [x ..< y])"
proof -
  have "take (y - x) (drop (x - q) buf) = map (\<lambda>a. buf ! ((a - q) mod 1024)) [x ..< y]"
    by (rule nth_equalityI) (use assms in \<open>simp_all add: add.commute\<close>)
  then show ?thesis using assms by (simp add: peek_def)
qed

lemma block_window:
  assumes "unat p + 1024 < 2 ^ 32" and "hi = lo + unat count" and "unat p < hi" and "lo < unat p + 1024"
  shows "unat (1024 - pstart (int lo) p - pend (int lo) count p 1024) = min hi (unat p + 1024) - max lo (unat p)"
    and "unat (pstart (int lo) p) = max lo (unat p) - unat p"
proof -
  let ?s = "max lo (unat p) - unat p" and ?e = "unat p + 1024 - min hi (unat p + 1024)"
  have le: "?s + ?e \<le> 1024" using assms(2-4) by auto
  have "(1024 :: u32) - of_nat ?s - of_nat ?e = of_nat (1024 - (?s + ?e))" by (rule sub_window [OF le])
  moreover have "unat (of_nat (1024 - (?s + ?e)) :: u32) = 1024 - (?s + ?e)" by (rule unat_of_nat_u32) simp
  moreover have "1024 - (?s + ?e) = min hi (unat p + 1024) - max lo (unat p)" using assms(2-4) by auto
  ultimately show "unat (1024 - pstart (int lo) p - pend (int lo) count p 1024) = min hi (unat p + 1024) - max lo (unat p)"
    by (simp only: window_start window_end [OF assms(1,2)])
  show "unat (pstart (int lo) p) = max lo (unat p) - unat p"
    unfolding window_start by (rule unat_of_nat_u32) (use le in simp)
qed

lemma read_one_block:
  assumes "s_blocksize (fs_sb fs) = 1024" and "hi = lo + unat count" and "hi \<le> 2 ^ 32 - 1024"
  shows "reads_ok 1024 (ext2_read_nth_block 0 fs (int lo) count) (tree_byte fs 0) lo hi"
  unfolding reads_ok_def
proof (intro allI impI, elim conjE)
  fix b out and p :: u32
  assume p: "unat p mod 1024 = 0" "lo < unat p + 1024" "unat p < hi"
  have "unat p \<noteq> 2 ^ 32 - 1024" using p(3) assms(3) by simp
  have bound: "unat p + 1024 < 2 ^ 32" using p(3) assms(3) by simp
  note w = block_window [OF bound assms(2) p(3) p(2)]
  let ?buf = "ext2_bread_block fs b" and ?from = "max lo (unat p)" and ?to = "min hi (unat p + 1024)"
  have le: "?from \<le> ?to" "?to \<le> unat p + 1024" using p assms(2) by auto
  have "tree_byte fs 0 b (a - unat p) = ?buf ! ((a - unat p) mod 1024)" for a by (simp add: tree_byte_def)
  then have "peek (?from - unat p) (?to - ?from) ?buf = Some (map (\<lambda>a. tree_byte fs 0 b (a - unat p)) [?from ..< ?to])"
    using peek_window [OF length_bread_block [OF assms(1), of b] _ le, of] by simp
  moreover have "unat (p + 1024) = unat p + 1024" using bound by (simp add: unat_word_ariths)
  ultimately show "\<exists>p'. ext2_read_nth_block 0 fs (int lo) count b (out, p) =
      Some (out @ map (\<lambda>a. tree_byte fs 0 b (a - unat p)) [?from ..< ?to], p') \<and> unat p' mod 1024 = 0 \<and>
      (unat p' = unat p + 1024 \<or> hi \<le> unat p' \<and> unat p' \<le> unat p + 1024)"
    using w p(1) assms(1) by (intro exI [of _ "p + 1024"]) simp
qed

lemma tree_byte_Suc:
  "tree_byte fs (Suc level) b a =
    tree_byte fs level (block_numbers fs b ! (a div (1024 * 256 ^ level))) (a mod (1024 * 256 ^ level))"
proof -
  have "a div 1024 div 256 ^ level = a div (1024 * 256 ^ level)" by (simp add: div_mult2_eq)
  moreover have "a div 1024 mod 256 ^ level = a mod (1024 * 256 ^ level) div 1024"
    by (simp add: mod_mult2_eq)
  moreover have "a mod 1024 = a mod (1024 * 256 ^ level) mod 1024" by (simp add: mod_mult2_eq)
  ultimately show ?thesis by (simp add: tree_byte_def)
qed

text \<open>A tree is read from its first block on.\<close>

lemma read_tree:
  assumes "s_blocksize (fs_sb fs) = 1024" and "hi = lo + unat count" and "hi \<le> 2 ^ 32 - 1024"
  shows "reads_ok (1024 * 256 ^ level) (ext2_read_nth_block level fs (int lo) count) (tree_byte fs level) lo hi"
proof (induction level)
  case 0
  show ?case unfolding power_0 mult_1_right by (rule read_one_block [OF assms])
next
  case (Suc level)
  show ?case unfolding reads_ok_def
  proof (intro allI impI, elim conjE)
    fix b out and p :: u32
    assume p: "unat p mod 1024 = 0" "lo < unat p + 1024" "unat p < hi"
    have e: "int lo + uint count = int hi" using assms(2) uint_nat [of count] by simp
    have "\<exists>p'. read_blocks (ext2_read_nth_block level fs (int lo) count) (int hi) (block_numbers fs b) (out, p) =
        Some (out @ map (\<lambda>a. tree_byte fs level (block_numbers fs b ! ((a - unat p) div (1024 * 256 ^ level))) ((a - unat p) mod (1024 * 256 ^ level)))
          [max lo (unat p) ..< min hi (unat p + 1024 * 256 ^ level * length (block_numbers fs b))], p') \<and>
        unat p' mod 1024 = 0 \<and> (unat p' = unat p + 1024 * 256 ^ level * length (block_numbers fs b) \<or>
          hi \<le> unat p' \<and> unat p' \<le> unat p + 1024 * 256 ^ level * length (block_numbers fs b))"
      by (rule reads_blocks [OF Suc]) (use p in simp_all)
    then show "\<exists>p'. ext2_read_nth_block (Suc level) fs (int lo) count b (out, p) =
        Some (out @ map (\<lambda>a. tree_byte fs (Suc level) b (a - unat p)) [max lo (unat p) ..< min hi (unat p + 1024 * 256 ^ Suc level)], p') \<and>
        unat p' mod 1024 = 0 \<and> (unat p' = unat p + 1024 * 256 ^ Suc level \<or> hi \<le> unat p' \<and> unat p' \<le> unat p + 1024 * 256 ^ Suc level)"
      by (simp add: tree_byte_Suc length_block_numbers [OF assms(1)] e mult.assoc mult.commute [of 256])
  qed
qed

section \<open>Reading a file\<close>

text \<open>The positions from which the loop of \<open>ext2_read_file\<close> goes on with the right block.\<close>

definition good_start :: "nat \<Rightarrow> bool" where
  "good_start n \<longleftrightarrow> n < 12 \<or> n = 12 \<or> n = 268 \<or> n = 65804"

text \<open>The tree that begins at such a position.\<close>

lemma file_tree:
  assumes "good_start n"
  obtains level k where "level_of n = Some (level, k)"
    and "\<And>m. n \<le> m \<Longrightarrow> m < n + 256 ^ level \<Longrightarrow> reached_block fs ei m = tree_block fs level (ei_block ei ! k) (m - n)"
    and "1024 * (n + 256 ^ level) \<ge> 2 ^ 32 \<or> good_start (n + 256 ^ level)"
proof -
  consider (0) "n < 12" | (1) "n = 12" | (2) "n = 268" | (3) "n = 65804" using assms by (auto simp: good_start_def)
  then show thesis
  proof cases
    case 0
    then show thesis by (intro that [of 0 n]) (auto simp: level_of_def ext2_constants reached_block_def good_start_def le_less_Suc_eq)
  next
    case 1
    then show thesis by (intro that [of 1 12]) (auto simp: level_of_def ext2_constants reached_block_def good_start_def)
  next
    case 2
    then show thesis by (intro that [of 2 13]) (auto simp: level_of_def ext2_constants reached_block_def good_start_def)
  next
    case 3
    then show thesis by (intro that [of 3 14]) (auto simp: level_of_def ext2_constants reached_block_def good_start_def)
  qed
qed

lemma read_file_step:
  assumes bs: "s_blocksize (fs_sb fs) = 1024" and hi: "hi = lo + unat count" "hi \<le> 2 ^ 32 - 1024"
    and p: "unat p mod 1024 = 0" "lo < unat p + 1024" "unat p < hi" and good: "good_start (unat p div 1024)"
  obtains level k p' where "level_of (unat (p div s_blocksize (fs_sb fs))) = Some (level, k)"
    and "ext2_read_nth_block level fs (int lo) count (ei_block ei ! k) (out, p) =
      Some (out @ map (reached_byte fs ei) [max lo (unat p) ..< min hi (unat p')], p')"
    and "unat p' mod 1024 = 0" and "unat p < unat p'" and "hi \<le> unat p' \<or> good_start (unat p' div 1024)"
proof -
  let ?n = "unat p div 1024"
  have n: "unat (p div s_blocksize (fs_sb fs)) = ?n" by (simp add: bs unat_div_distrib)
  have P: "unat p = 1024 * ?n" using p(1) by (metis mult.commute div_mult_mod_eq add.right_neutral)
  obtain level k where lv: "level_of ?n = Some (level, k)"
    and tree: "\<And>m. ?n \<le> m \<Longrightarrow> m < ?n + 256 ^ level \<Longrightarrow> reached_block fs ei m = tree_block fs level (ei_block ei ! k) (m - ?n)"
    and nxt: "1024 * (?n + 256 ^ level) \<ge> 2 ^ 32 \<or> good_start (?n + 256 ^ level)"
    using file_tree [OF good, of fs ei] by metis
  have byte: "tree_byte fs level (ei_block ei ! k) (a - unat p) = reached_byte fs ei a" if a: "unat p \<le> a" "a < unat p + 1024 * 256 ^ level" for a
  proof -
    have "a = 1024 * ?n + (a - unat p)" using P a(1) by simp
    then have d: "a div 1024 = ?n + (a - unat p) div 1024" "a mod 1024 = (a - unat p) mod 1024"
      by (metis div_mult_self4 zero_neq_numeral add.commute, metis mod_mult_self4)
    moreover have "(a - unat p) div 1024 < 256 ^ level" using a by (simp add: less_mult_imp_div_less mult.commute)
    ultimately show ?thesis using tree [of "a div 1024"] by (simp add: tree_byte_def reached_byte_def)
  qed
  have good': "unat p + 1024 * 256 ^ level \<ge> 2 ^ 32 \<or> good_start ((unat p + 1024 * 256 ^ level) div 1024)"
  proof -
    have "unat p + 1024 * 256 ^ level = 1024 * (?n + 256 ^ level)" using P by simp
    then show ?thesis using nxt by (simp add: add.commute)
  qed
  obtain p' where p': "ext2_read_nth_block level fs (int lo) count (ei_block ei ! k) (out, p) =
      Some (out @ map (\<lambda>a. tree_byte fs level (ei_block ei ! k) (a - unat p)) [max lo (unat p) ..< min hi (unat p + 1024 * 256 ^ level)], p')"
    "unat p' mod 1024 = 0" "unat p' = unat p + 1024 * 256 ^ level \<or> hi \<le> unat p' \<and> unat p' \<le> unat p + 1024 * 256 ^ level"
    using reads_okE [OF read_tree [OF bs hi] p] by blast
  have m: "min hi (unat p + 1024 * 256 ^ level) = min hi (unat p')" using p'(3) by auto
  have "map (\<lambda>a. tree_byte fs level (ei_block ei ! k) (a - unat p)) [max lo (unat p) ..< min hi (unat p + 1024 * 256 ^ level)] =
      map (reached_byte fs ei) [max lo (unat p) ..< min hi (unat p')]"
    unfolding m [symmetric] by (rule map_cong) (use byte in auto)
  moreover have "unat p < unat p'" using p'(3) p(3) by auto
  moreover have "hi \<le> unat p' \<or> good_start (unat p' div 1024)"
    using p'(3) good' u32_bound [of p'] by auto
  ultimately show thesis using that lv p'(1,2) n by simp
qed

lemma next_block: "x mod 1024 = 0 \<Longrightarrow> y mod 1024 = 0 \<Longrightarrow> x < y \<Longrightarrow> x + 1024 \<le> (y :: nat)"
  by (auto elim!: dvdE simp: dvd_eq_mod_eq_0 [symmetric])

lemma read_file_loop_correct:
  assumes bs: "s_blocksize (fs_sb fs) = 1024" and hi: "hi = lo + unat count" "hi \<le> 2 ^ 32 - 1024"
    and p: "unat p mod 1024 = 0" "lo < unat p + 1024" and good: "hi \<le> unat p \<or> good_start (unat p div 1024)"
  shows "\<exists>p'. read_file_loop fs ei (int lo) count (out, p) = Some (out @ map (reached_byte fs ei) [max lo (unat p) ..< hi], p')"
  using p good
proof (induction "2 ^ 32 - unat p" arbitrary: p out rule: less_induct)
  case less
  have e: "uint p < int lo + uint count \<longleftrightarrow> unat p < hi" using hi(1) uint_nat [of count] uint_nat [of p] by linarith
  show ?case
  proof (cases "unat p < hi")
    case False
    then have "[max lo (unat p) ..< hi] = []" by simp
    then show ?thesis using False e by (subst read_file_loop.simps) simp
  next
    case True
    have g: "good_start (unat p div 1024)" using less.prems(3) True by simp
    obtain level k p1 where st: "level_of (unat (p div s_blocksize (fs_sb fs))) = Some (level, k)"
      "ext2_read_nth_block level fs (int lo) count (ei_block ei ! k) (out, p) = Some (out @ map (reached_byte fs ei) [max lo (unat p) ..< min hi (unat p1)], p1)"
      "unat p1 mod 1024 = 0" "unat p < unat p1" "hi \<le> unat p1 \<or> good_start (unat p1 div 1024)"
      by (rule read_file_step [OF bs hi less.prems(1,2) True g])
    have dec: "2 ^ 32 - unat p1 < 2 ^ 32 - unat p" using st(4) u32_bound [of p1] by simp
    have q: "unat p + 1024 \<le> unat p1" by (rule next_block [OF less.prems(1) st(3,4)])
    then have lo1: "lo < unat p1 + 1024" using less.prems(2) by simp
    obtain p2 where "read_file_loop fs ei (int lo) count (out @ map (reached_byte fs ei) [max lo (unat p) ..< min hi (unat p1)], p1) =
        Some ((out @ map (reached_byte fs ei) [max lo (unat p) ..< min hi (unat p1)]) @ map (reached_byte fs ei) [max lo (unat p1) ..< hi], p2)"
      using less.hyps [OF dec st(3) lo1 st(5), of "out @ map (reached_byte fs ei) [max lo (unat p) ..< min hi (unat p1)]"] by (elim exE) (rule that)
    moreover have join: "[max lo (unat p) ..< min hi (unat p1)] @ [max lo (unat p1) ..< hi] = [max lo (unat p) ..< hi]"
    proof (cases "hi \<le> unat p1")
      case False
      then have "min hi (unat p1) = max lo (unat p1)" "max lo (unat p) \<le> max lo (unat p1)" "max lo (unat p1) \<le> hi"
        using q less.prems(2) True by auto
      then show ?thesis by (simp add: upt_join)
    qed (use True in simp)
    moreover have "(out @ map (reached_byte fs ei) [max lo (unat p) ..< min hi (unat p1)]) @ map (reached_byte fs ei) [max lo (unat p1) ..< hi] =
        out @ map (reached_byte fs ei) [max lo (unat p) ..< hi]"
      using join by (metis append_assoc map_append)
    ultimately show ?thesis
      using True e st(1,2) by (subst read_file_loop.simps) simp
  qed
qed

text \<open>What \<open>ext2_read_file\<close> computes before its loop.\<close>

lemma read_file_prepared:
  assumes "s_blocksize (fs_sb fs) = 1024" and "lo \<le> unat (ei_size (vi_fs_info inode))" and "lo + unat count < 2 ^ 32"
    and n: "n = min (unat count) (unat (ei_size (vi_fs_info inode)) - lo)"
  shows "ext2_read_file fs inode count (int lo) = map_option (\<lambda>(out, p). (of_nat n, out, int (lo + n)))
    (read_file_loop fs (vi_fs_info inode) (int lo) (of_nat n) ([], of_nat (lo div 1024 * 1024)))"
    and "unat (of_nat n :: u32) = n" and "unat (of_nat (lo div 1024 * 1024) :: u32) = lo div 1024 * 1024"
proof -
  let ?ei = "vi_fs_info inode"
  let ?sz = "unat (ei_size ?ei)"
  define c :: u32 where "c = of_nat n"
  show un: "unat (of_nat n :: u32) = n" using assms(3) n by (intro unat_of_nat_u32) simp
  have w: "word_of_int (int lo + uint count) = (of_nat (lo + unat count) :: u32)"
    using uint_nat [of count] by simp
  have "unat (min (of_nat (lo + unat count)) (ei_size ?ei)) = min (lo + unat count) ?sz"
    using assms(3) unat_of_nat_u32 [of "lo + unat count"] by (simp add: min_def word_le_nat_alt)
  then have "uint (min (of_nat (lo + unat count)) (ei_size ?ei)) - int lo = int n"
    using assms(2) uint_nat [of "min (of_nat (lo + unat count)) (ei_size ?ei)"] by (simp add: n)
  then have count: "word_of_int (uint (min (word_of_int (int lo + uint count)) (ei_size ?ei)) - int lo) = c"
    unfolding w c_def by (simp only: of_int_of_nat_eq)
  have "lo div 1024 * 1024 \<le> lo" by simp
  then show "unat (of_nat (lo div 1024 * 1024) :: u32) = lo div 1024 * 1024" using assms(3) by (intro unat_of_nat_u32) simp
  have start: "word_of_int (loff_div (int lo) (uint (1024 :: u32)) * uint (1024 :: u32)) = (of_nat (lo div 1024 * 1024) :: u32)"
    by (simp add: loff_div_def) (metis of_int_of_nat_eq zdiv_int of_nat_numeral)
  have "int lo + uint c = int (lo + n)" using un uint_nat [of c] by (simp add: c_def)
  then show "ext2_read_file fs inode count (int lo) = map_option (\<lambda>(out, p). (of_nat n, out, int (lo + n)))
      (read_file_loop fs (vi_fs_info inode) (int lo) (of_nat n) ([], of_nat (lo div 1024 * 1024)))"
    by (simp only: ext2_read_file_def Let_def count assms(1) start c_def [symmetric])
qed

lemma read_file_bytes:
  assumes "s_blocksize (fs_sb fs) = 1024" and "lo \<le> unat (ei_size (vi_fs_info inode))" and "lo + unat count < 2 ^ 32"
    and n: "n = min (unat count) (unat (ei_size (vi_fs_info inode)) - lo)" and hi: "lo + n \<le> 2 ^ 32 - 1024" and good: "good_start (lo div 1024)"
  shows "ext2_read_file fs inode count (int lo) = Some (of_nat n, map (reached_byte fs (vi_fs_info inode)) [lo ..< lo + n], int (lo + n))"
proof -
  let ?ei = "vi_fs_info inode" and ?p = "of_nat (lo div 1024 * 1024) :: u32"
  note r = read_file_prepared [OF assms(1-3) n]
  have "lo < unat ?p + 1024" "max lo (unat ?p) = lo" unfolding r(3) by simp_all
  moreover have "unat ?p mod 1024 = 0" "unat ?p div 1024 = lo div 1024" unfolding r(3) by simp_all
  ultimately obtain p' where "read_file_loop fs ?ei (int lo) (of_nat n) ([], ?p) = Some (map (reached_byte fs ?ei) [lo ..< lo + n], p')"
    using read_file_loop_correct [OF assms(1), of "lo + n" lo "of_nat n" ?p ?ei "[]"] r(2) hi good by auto
  then show ?thesis using r(1) by simp
qed

text \<open>C8: On a disk with blocks of 1024 bytes, a read of a file of at most \<open>2 ^ 32 - 1024\<close> bytes that starts in the direct
  blocks, at the first block behind them or at the first block of a later level, that starts not behind the end of the file, that
  asks for no position beyond \<open>2 ^ 32\<close> and meets no hole, ends and returns exactly the bytes of the file from there on, as many
  as were asked for and the file has, through all levels of indirection; the position moves by that number.
\<close>

theorem ext2_read_file_correct:
  assumes "s_blocksize (fs_sb fs) = 1024" and "lo \<le> unat (ei_size (vi_fs_info inode))" and "unat (ei_size (vi_fs_info inode)) \<le> 2 ^ 32 - 1024"
    and "lo + unat count < 2 ^ 32" and "good_start (lo div 1024)"
    and "no_hole fs (vi_fs_info inode) lo (min (lo + unat count) (unat (ei_size (vi_fs_info inode))))"
  shows "let n = min (unat count) (unat (ei_size (vi_fs_info inode)) - lo)
    in ext2_read_file fs inode count (int lo) = Some (of_nat n, map (file_byte fs (vi_fs_info inode)) [lo ..< lo + n], int (lo + n))"
proof -
  let ?n = "min (unat count) (unat (ei_size (vi_fs_info inode)) - lo)"
  have n: "lo + ?n = min (lo + unat count) (unat (ei_size (vi_fs_info inode)))" using assms(2) by simp
  then have "lo + ?n \<le> 2 ^ 32 - 1024" using assms(3) by simp
  note r = read_file_bytes [OF assms(1,2,4) refl this assms(5)]
  have "map (reached_byte fs (vi_fs_info inode)) [lo ..< lo + ?n] = map (file_byte fs (vi_fs_info inode)) [lo ..< lo + ?n]"
    by (rule map_reached_byte) (unfold n, rule assms(6))
  then show ?thesis unfolding Let_def using r by simp
qed

definition file_example :: vfs_inode where
  "file_example = ext2_alloc_inode\<lparr>vi_fs_info := zero_ext2_inode\<lparr>ei_size := 20, ei_block := 5 # replicate 14 0\<rparr>\<rparr>"

theorem ext2_read_file_correct_witness:
  "good_start 0 \<and> ext2_read_file dir_example file_example 100 (int 8) =
    Some (12, map (file_byte dir_example (vi_fs_info file_example)) [8 ..< 20], 20)"
proof -
  have "no_hole dir_example (vi_fs_info file_example) 8 20"
    by (auto simp: no_hole_def file_block_def file_example_def)
  then show ?thesis
    using ext2_read_file_correct [of dir_example 8 file_example 100]
    by (simp add: dir_example_def file_example_def good_start_def)
qed

text \<open>
  In a hole, which a write behind the end of the file leaves, the bytes of the first block of the disk are returned.
\<close>

lemma hole_reads_first_block:
  assumes bs: "s_blocksize (fs_sb fs) = 1024" and q: "q < 12" "ei_block (vi_fs_info inode) ! q = 0" and count: "count \<le> 1024"
    and sz: "1024 * q + count \<le> unat (ei_size (vi_fs_info inode))"
  shows "ext2_read_file fs inode (of_nat count) (int (1024 * q)) = Some (of_nat count, take count (blk (fs_disk fs) 0), int (1024 * q + count))"
proof -
  let ?ei = "vi_fs_info inode" and ?c = "of_nat count :: u32"
  have c: "unat ?c = count" using count by (intro unat_of_nat_u32) simp
  have "good_start (1024 * q div 1024)" using q(1) by (simp add: good_start_def)
  then have "ext2_read_file fs inode ?c (int (1024 * q)) =
      Some (?c, map (reached_byte fs ?ei) [1024 * q ..< 1024 * q + count], int (1024 * q + count))"
    by (intro read_file_bytes [OF bs]) (use c q(1) count sz in simp_all)
  moreover have "map (reached_byte fs ?ei) [1024 * q ..< 1024 * q + count] = take count (blk (fs_disk fs) 0)"
  proof (rule nth_equalityI)
    fix i assume "i < length (map (reached_byte fs ?ei) [1024 * q ..< 1024 * q + count])"
    then have i: "i < count" "i < 1024" using count by simp_all
    then have "(1024 * q + i) div 1024 = q" "(1024 * q + i) mod 1024 = i" by simp_all
    then show "map (reached_byte fs ?ei) [1024 * q ..< 1024 * q + count] ! i = take count (blk (fs_disk fs) 0) ! i"
      using i q bread_blk [OF bs, of 0] by (simp add: reached_byte_def reached_block_def)
  qed (use count in simp)
  ultimately show ?thesis by simp
qed

text \<open>
  A read that starts inside the blocks of level one gets its first block from the beginning of the level, whatever its position.
\<close>

lemma indirect_read_wrong:
  assumes bs: "s_blocksize (fs_sb fs) = 1024" and q: "12 < q" "q < 268" and count: "0 < count" "count \<le> 1024"
    and sz: "1024 * q + count \<le> unat (ei_size (vi_fs_info inode))"
  shows "ext2_read_file fs inode (of_nat count) (int (1024 * q)) =
    Some (of_nat count, take count (ext2_bread_block fs (block_numbers fs (ei_block (vi_fs_info inode) ! 12) ! 0)), int (1024 * q + count))"
proof -
  let ?ei = "vi_fs_info inode" and ?lo = "1024 * q"
  let ?c = "of_nat count :: u32" and ?p = "of_nat ?lo :: u32" and ?hi = "1024 * q + count"
  let ?bn = "block_numbers fs (ei_block ?ei ! 12)"
  have lo: "?lo < 2 ^ 32 - 2048" using q(2) by simp
  have c: "unat ?c = count" using count(2) by (intro unat_of_nat_u32) simp
  have p: "unat ?p = ?lo" using lo by (intro unat_of_nat_u32) simp
  have n: "count = min (unat ?c) (unat (ei_size ?ei) - ?lo)" using c sz by simp
  have "?lo + unat ?c < 2 ^ 32" using c count(2) lo by simp
  note r = read_file_prepared [OF bs _ this n]
  have hi: "?hi = ?lo + unat ?c" "?hi \<le> 2 ^ 32 - 1024" using c count(2) lo by simp_all
  have e: "int ?lo + uint ?c = int ?hi" using c uint_nat [of ?c] by simp
  obtain p1 where p1: "ext2_read_nth_block 0 fs (int ?lo) ?c (?bn ! 0) ([], ?p) =
      Some (map (\<lambda>a. tree_byte fs 0 (?bn ! 0) (a - unat ?p)) [max ?lo (unat ?p) ..< min ?hi (unat ?p + 1024)], p1)"
    "unat p1 = unat ?p + 1024 \<or> ?hi \<le> unat p1 \<and> unat p1 \<le> unat ?p + 1024"
    using reads_okE [OF read_one_block [OF bs hi], of ?p "?bn ! 0" "[]"] p count by auto
  have "map (\<lambda>a. tree_byte fs 0 (?bn ! 0) (a - unat ?p)) [max ?lo (unat ?p) ..< min ?hi (unat ?p + 1024)] = take count (ext2_bread_block fs (?bn ! 0))"
    by (rule nth_equalityI) (use p count(2) length_bread_block [OF bs, of "?bn ! 0"] in \<open>simp_all add: tree_byte_def\<close>)
  note first = p1(1) [unfolded this]
  have stop: "\<not> uint p1 < int ?hi" using p1(2) p count(2) uint_nat [of p1] by linarith
  obtain bs' where bn: "?bn = ?bn ! 0 # bs'"
    using length_block_numbers [OF bs, of "ei_block ?ei ! 12"] by (cases ?bn) auto
  have "uint ?p < int ?hi" using p count(1) uint_nat [of ?p] by linarith
  then have "read_blocks (ext2_read_nth_block 0 fs (int ?lo) ?c) (int ?hi) (?bn ! 0 # bs') ([], ?p) = Some (take count (ext2_bread_block fs (?bn ! 0)), p1)"
    using first stop by (cases bs') (simp_all del: ext2_read_nth_block.simps)
  then have "ext2_read_nth_block 1 fs (int ?lo) ?c (ei_block ?ei ! 12) ([], ?p) = Some (take count (ext2_bread_block fs (?bn ! 0)), p1)"
    unfolding One_nat_def ext2_read_nth_block.simps(2) e bn [symmetric] .
  moreover have "level_of (unat (?p div s_blocksize (fs_sb fs))) = Some (1, 12)"
    using p q bs by (simp add: unat_div_distrib level_of_def ext2_constants)
  moreover have "read_file_loop fs ?ei (int ?lo) ?c (xs, p1) = Some (xs, p1)" for xs
    by (subst read_file_loop.simps) (simp only: e snd_conv stop if_False)
  ultimately have "read_file_loop fs ?ei (int ?lo) ?c ([], ?p) = Some (take count (ext2_bread_block fs (?bn ! 0)), p1)"
    using \<open>uint ?p < int ?hi\<close>
    by (subst read_file_loop.simps) (simp only: e snd_conv if_True option.case prod.case Option.bind.simps)
  moreover have "?lo div 1024 * 1024 = ?lo" by simp
  ultimately show ?thesis using r(1) sz by (simp only: option.map prod.case)
qed

end
