(* ===== verification/Ext2_Write.thy ===== *)
theory Ext2_Write
  imports Ext2_Read
begin

text \<open>
  Overwriting a file: a write to direct blocks that the file already has changes exactly the bytes it should, in these blocks and
  nowhere else on the disk, and a read gets the data back.
\<close>

section \<open>One block\<close>

text \<open>Block \<open>j\<close> of a file after the bytes from \<open>lo\<close> on were written.\<close>

definition overlay :: "nat \<Rightarrow> u8 list \<Rightarrow> nat \<Rightarrow> u8 list \<Rightarrow> u8 list" where
  "overlay lo buf j old =
     map (\<lambda>i. if lo \<le> 1024 * j + i \<and> 1024 * j + i < lo + length buf then buf ! (1024 * j + i - lo) else old ! i) [0 ..< 1024]"

lemma length_overlay [simp]: "length (overlay lo buf j old) = 1024"
  by (simp add: overlay_def)

lemma nth_overlay:
  "i < 1024 \<Longrightarrow> overlay lo buf j old ! i =
    (if lo \<le> 1024 * j + i \<and> 1024 * j + i < lo + length buf then buf ! (1024 * j + i - lo) else old ! i)"
  by (simp add: overlay_def)

lemma nth_poke:
  "s + length xs \<le> length old \<Longrightarrow> i < length old \<Longrightarrow>
    (take s old @ xs @ drop (s + length xs) old) ! i = (if i < s then old ! i else if i < s + length xs then xs ! (i - s) else old ! i)"
  by (auto simp: nth_append)

lemma poke_overlay:
  assumes "length old = 1024" and "x = max lo (1024 * j)" and "y = min (lo + length buf) (1024 * j + 1024)" and "x \<le> y"
  shows "poke (x - 1024 * j) (take (y - x) (drop (x - lo) buf)) old = Some (overlay lo buf j old)"
proof -
  let ?xs = "take (y - x) (drop (x - lo) buf)" and ?s = "x - 1024 * j"
  have len: "length ?xs = y - x" using assms(2-4) by auto
  have fit: "?s + (y - x) \<le> 1024" using assms(2-4) by auto
  have "take ?s old @ ?xs @ drop (?s + (y - x)) old = overlay lo buf j old"
  proof (rule nth_equalityI)
    show "length (take ?s old @ ?xs @ drop (?s + (y - x)) old) = length (overlay lo buf j old)"
      using len fit assms(1) by simp
    fix i assume "i < length (take ?s old @ ?xs @ drop (?s + (y - x)) old)"
    then have i: "i < 1024" using len fit assms(1) by simp
    have lhs: "(take ?s old @ ?xs @ drop (?s + (y - x)) old) ! i = (if i < ?s then old ! i else if i < ?s + (y - x) then ?xs ! (i - ?s) else old ! i)"
      using nth_poke [of ?s ?xs old i] len fit assms(1) i by simp
    consider (before) "i < ?s" | (inside) "?s \<le> i" "i < ?s + (y - x)" | (after) "?s + (y - x) \<le> i" by linarith
    then show "(take ?s old @ ?xs @ drop (?s + (y - x)) old) ! i = overlay lo buf j old ! i"
    proof cases
      case before
      then have "\<not> lo \<le> 1024 * j + i" using assms(2) by auto
      then show ?thesis using before i lhs by (simp add: nth_overlay)
    next
      case inside
      have "i - ?s < y - x" "x - lo \<le> length buf" using inside assms(2-4) by linarith+
      then have "?xs ! (i - ?s) = buf ! (x - lo + (i - ?s))" by simp
      also have "x - lo + (i - ?s) = 1024 * j + i - lo" using inside assms(2) by auto
      finally have "?xs ! (i - ?s) = buf ! (1024 * j + i - lo)" .
      moreover have "lo \<le> 1024 * j + i \<and> 1024 * j + i < lo + length buf" using inside assms(2,3) by auto
      ultimately show ?thesis
        unfolding lhs if_not_P [OF leD [OF inside(1)]] if_P [OF inside(2)] nth_overlay [OF i] by simp
    next
      case after
      then have "\<not> (lo \<le> 1024 * j + i \<and> 1024 * j + i < lo + length buf)" using i assms(2-4) by auto
      then show ?thesis using after i lhs by (auto simp: nth_overlay)
    qed
  qed
  then show ?thesis using len fit assms(1) by (simp add: poke_def)
qed

section \<open>The loop\<close>

text \<open>The blocks from \<open>k\<close> on that a write touches.\<close>

definition touched :: "ext2_inode \<Rightarrow> nat \<Rightarrow> nat \<Rightarrow> nat set" where
  "touched ei k hi = {unat (ei_block ei ! j) |j. k \<le> j \<and> 1024 * j < hi}"

text \<open>All direct blocks up to the end of the write are there, on the disk and different.\<close>

definition allocated :: "ext2_inode \<Rightarrow> nat \<Rightarrow> bool" where
  "allocated ei hi \<longleftrightarrow> hi \<le> 1024 * 12 \<and> (\<forall>j. 1024 * j < hi \<longrightarrow> ei_block ei ! j \<noteq> 0 \<and> unat (ei_block ei ! j) < 2 ^ 27) \<and>
     (\<forall>i j. 1024 * i < hi \<longrightarrow> 1024 * j < hi \<longrightarrow> ei_block ei ! i = ei_block ei ! j \<longrightarrow> i = j)"

lemma write_file_loop_correct:
  assumes ei: "allocated (vi_fs_info inode) hi" and hi: "hi = lo + unat count" "unat count = length buf"
    and bs: "s_blocksize (fs_sb fs) = 1024" and p: "unat p = 1024 * k" "lo < unat p + 1024"
    and rest: "unat p < hi \<Longrightarrow> rest = drop (max lo (unat p) - lo) buf"
  shows "\<exists>d. write_file_loop now (int lo) count inode rest p fs = Some (inode, fs\<lparr>fs_disk := d\<rparr>) \<and>
    (\<forall>j. k \<le> j \<longrightarrow> 1024 * j < hi \<longrightarrow> blk d (unat (ei_block (vi_fs_info inode) ! j)) =
      overlay lo buf j (blk (fs_disk fs) (unat (ei_block (vi_fs_info inode) ! j)))) \<and>
    (\<forall>b. b \<notin> touched (vi_fs_info inode) k hi \<longrightarrow> blk d b = blk (fs_disk fs) b)"
  using bs p rest
proof (induction "hi - unat p" arbitrary: k p rest fs rule: less_induct)
  case less
  let ?ei = "vi_fs_info inode"
  have e: "uint p < int lo + uint count \<longleftrightarrow> unat p < hi" using hi(1) uint_nat [of count] uint_nat [of p] by linarith
  show ?case
  proof (cases "unat p < hi")
    case False
    then have "write_file_loop now (int lo) count inode rest p fs = Some (inode, fs\<lparr>fs_disk := fs_disk fs\<rparr>)"
      using e by (subst write_file_loop.simps) simp
    moreover have "\<not> 1024 * j < hi" if "k \<le> j" for j using that False less.prems(2) by simp
    ultimately show ?thesis by blast
  next
    case True
    let ?b = "ei_block ?ei ! k"
    have k: "1024 * k < hi" "k < 12" using True less.prems(2) ei by (auto simp: allocated_def)
    then have b: "?b \<noteq> 0" "unat ?b < 2 ^ 27" using ei by (auto simp: allocated_def)
    have bound: "unat p + 1024 < 2 ^ 32" using k(2) less.prems(2) by simp
    note w = block_window [OF bound hi(1) True less.prems(3)]
    define x y where "x = max lo (1024 * k)" and "y = min (lo + length buf) (1024 * k + 1024)"
    have xy: "x \<le> y" using True less.prems(2,3) hi by (auto simp: x_def y_def)
    have rest: "rest = drop (x - lo) buf" using less.prems(4) True less.prems(2) by (simp add: x_def)
    have n: "unat (1024 - pstart (int lo) p - pend (int lo) count p 1024) = y - x" "unat (pstart (int lo) p) = x - 1024 * k"
      using w hi less.prems(2) by (simp_all add: x_def y_def)
    have pk: "peek 0 (y - x) rest = Some (take (y - x) (drop (x - lo) buf))"
      using rest xy hi True less.prems(2,3) by (auto simp: peek_def x_def y_def)
    let ?new = "overlay lo buf k (blk (fs_disk fs) (unat ?b))"
    have pv: "poke (x - 1024 * k) (take (y - x) (drop (x - lo) buf)) (ext2_bread_block fs ?b) = Some ?new"
      unfolding bread_blk [OF less.prems(1) b(2)] by (rule poke_overlay) (use x_def y_def xy in simp_all)
    let ?fs1 = "fs\<lparr>fs_disk := put_blk (unat ?b) ?new (fs_disk fs)\<rparr>"
    have wr: "ext2_bwrite_block fs ?b ?new = Some ?fs1" by (rule bwrite_blk [OF less.prems(1) b(2)]) simp
    have rel: "unat (p div 1024) = k" using less.prems(2) by (simp add: unat_div_distrib)
    have step: "write_file_loop now (int lo) count inode rest p fs =
        write_file_loop now (int lo) count inode (drop (y - x) rest) (p + 1024) ?fs1"
      using True e rel k(2) b(1) less.prems(1) n pk pv wr
      by (subst write_file_loop.simps) (simp add: Let_def ext2_constants)
    have p1: "unat (p + 1024) = 1024 * Suc k" using bound less.prems(2) by (simp add: unat_word_ariths)
    have "drop (y - x) rest = drop (max lo (unat (p + 1024)) - lo) buf" if "unat (p + 1024) < hi"
    proof -
      have "y - x + (x - lo) = max lo (unat (p + 1024)) - lo"
        using that p1 less.prems(2,3) hi by (auto simp: x_def y_def)
      then show ?thesis using rest by simp
    qed
    then have "\<exists>d. write_file_loop now (int lo) count inode (drop (y - x) rest) (p + 1024) ?fs1 = Some (inode, ?fs1\<lparr>fs_disk := d\<rparr>) \<and>
        (\<forall>j. Suc k \<le> j \<longrightarrow> 1024 * j < hi \<longrightarrow> blk d (unat (ei_block ?ei ! j)) = overlay lo buf j (blk (fs_disk ?fs1) (unat (ei_block ?ei ! j)))) \<and>
        (\<forall>b. b \<notin> touched ?ei (Suc k) hi \<longrightarrow> blk d b = blk (fs_disk ?fs1) b)"
      by (intro less.hyps) (use p1 less.prems(1-3) True in simp_all)
    then obtain d where d: "write_file_loop now (int lo) count inode (drop (y - x) rest) (p + 1024) ?fs1 = Some (inode, ?fs1\<lparr>fs_disk := d\<rparr>)"
      "\<And>j. Suc k \<le> j \<Longrightarrow> 1024 * j < hi \<Longrightarrow> blk d (unat (ei_block ?ei ! j)) = overlay lo buf j (blk (fs_disk ?fs1) (unat (ei_block ?ei ! j)))"
      "\<And>b. b \<notin> touched ?ei (Suc k) hi \<Longrightarrow> blk d b = blk (fs_disk ?fs1) b"
      by blast
    have other: "unat (ei_block ?ei ! j) \<noteq> unat ?b" if "1024 * j < hi" "j \<noteq> k" for j
      using that k(1) ei unfolding allocated_def by (metis word_unat_eq_iff)
    have f1: "blk (fs_disk ?fs1) c = (if c = unat ?b then ?new else blk (fs_disk fs) c)" for c by (simp add: blk_put)
    have "blk d (unat (ei_block ?ei ! j)) = overlay lo buf j (blk (fs_disk fs) (unat (ei_block ?ei ! j)))" if j: "k \<le> j" "1024 * j < hi" for j
    proof (cases "j = k")
      case True
      have "unat ?b \<notin> touched ?ei (Suc k) hi"
      proof
        assume "unat ?b \<in> touched ?ei (Suc k) hi"
        then obtain i where "Suc k \<le> i" "1024 * i < hi" "unat (ei_block ?ei ! i) = unat ?b" by (auto simp: touched_def)
        then show False using other [of i] by simp
      qed
      then show ?thesis using d(3) f1 True by simp
    next
      case False
      then show ?thesis using d(2) [of j] j f1 other [of j] by simp
    qed
    moreover have "blk d c = blk (fs_disk fs) c" if c: "c \<notin> touched ?ei k hi" for c
    proof -
      have "c \<notin> touched ?ei (Suc k) hi" "c \<noteq> unat ?b" using c k(1) by (auto simp: touched_def)
      then show ?thesis using d(3) f1 by simp
    qed
    ultimately show ?thesis using step d(1) by (intro exI [of _ d]) simp
  qed
qed

section \<open>Writing and reading back\<close>

lemma direct_byte:
  assumes "s_blocksize (fs_sb fs) = 1024" and "a div 1024 < 12" and "unat (ei_block ei ! (a div 1024)) < 2 ^ 27"
    and "ei_block ei ! (a div 1024) \<noteq> 0"
  shows "file_byte fs ei a = blk (fs_disk fs) (unat (ei_block ei ! (a div 1024))) ! (a mod 1024)"
  using assms by (simp add: file_byte_def file_block_def bread_blk)

text \<open>What \<open>ext2_write_file\<close> computes before its loop.\<close>

lemma write_file_prepared:
  assumes "s_blocksize (fs_sb fs) = 1024" and "hi = lo + length buf" and "hi \<le> unat (vi_size inode)"
  shows "ext2_write_file now inode buf (int lo) fs =
    map_option (\<lambda>(inode, fs). (of_nat (length buf), int hi, inode, fs))
      (write_file_loop now (int lo) (of_nat (length buf)) inode buf (of_nat (lo div 1024 * 1024)) fs)"
    and "unat (of_nat (length buf) :: u32) = length buf" and "unat (of_nat (lo div 1024 * 1024) :: u32) = 1024 * (lo div 1024)"
proof -
  have hi: "hi < 4294967296" using assms(3) u32_bound [of "vi_size inode"] by simp
  show n: "unat (of_nat (length buf) :: u32) = length buf" using hi assms(2) by (intro unat_of_nat_u32) simp
  have "lo div 1024 * 1024 < 4294967296" using hi assms(2) by (intro le_less_trans [OF div_times_less_eq_dividend]) simp
  then show "unat (of_nat (lo div 1024 * 1024) :: u32) = 1024 * (lo div 1024)" by (subst unat_of_nat_u32) simp_all
  have sum: "int lo + uint (of_nat (length buf) :: u32) = int hi" using n assms(2) uint_nat [of "of_nat (length buf) :: u32"] by simp
  have fits: "\<not> uint (vi_size inode) < int hi"
    using assms(3) uint_nat [of "vi_size inode"] by linarith
  have start: "word_of_int (loff_div (int lo) (uint (1024 :: u32)) * uint (1024 :: u32)) = (of_nat (lo div 1024 * 1024) :: u32)"
    by (simp add: loff_div_def) (metis of_int_of_nat_eq zdiv_int of_nat_numeral)
  show "ext2_write_file now inode buf (int lo) fs =
    map_option (\<lambda>(inode, fs). (of_nat (length buf), int hi, inode, fs))
      (write_file_loop now (int lo) (of_nat (length buf)) inode buf (of_nat (lo div 1024 * 1024)) fs)"
    unfolding ext2_write_file_def Let_def assms(1) start sum if_not_P [OF fits]
    by (cases "write_file_loop now (int lo) (of_nat (length buf)) inode buf (of_nat (lo div 1024 * 1024)) fs") (use fits in auto)
qed

text \<open>C9: A write inside a file to direct blocks the file already has ends and returns the number of bytes. Afterwards a read
  at the same position returns exactly the data; every other byte of these blocks, every other block of the disk, the superblock
  and the inode are as before.\<close>

theorem ext2_overwrite_correct:
  assumes "s_blocksize (fs_sb fs) = 1024" and "hi = lo + length buf" and "hi \<le> unat (vi_size inode)"
    and "vi_size inode = ei_size (vi_fs_info inode)" and "allocated (vi_fs_info inode) hi"
  shows "\<exists>d. ext2_write_file now inode buf (int lo) fs = Some (of_nat (length buf), int hi, inode, fs\<lparr>fs_disk := d\<rparr>) \<and>
    ext2_read_file (fs\<lparr>fs_disk := d\<rparr>) inode (of_nat (length buf)) (int lo) = Some (of_nat (length buf), buf, int hi) \<and>
    (\<forall>a. 1024 * (a div 1024) < hi \<longrightarrow> file_byte (fs\<lparr>fs_disk := d\<rparr>) (vi_fs_info inode) a =
      (if lo \<le> a \<and> a < hi then buf ! (a - lo) else file_byte fs (vi_fs_info inode) a)) \<and>
    (\<forall>b. b \<notin> touched (vi_fs_info inode) (lo div 1024) hi \<longrightarrow> blk d b = blk (fs_disk fs) b)"
proof -
  let ?ei = "vi_fs_info inode" and ?k = "lo div 1024" and ?c = "of_nat (length buf) :: u32"
  let ?p = "of_nat (lo div 1024 * 1024) :: u32"
  note pre = write_file_prepared [OF assms(1-3)]
  have p: "unat ?p = 1024 * ?k" "lo < unat ?p + 1024" "max lo (unat ?p) = lo" unfolding pre(3) by simp_all
  have "buf = drop (max lo (unat ?p) - lo) buf" unfolding p(3) by simp
  then obtain d where d: "write_file_loop now (int lo) ?c inode buf ?p fs = Some (inode, fs\<lparr>fs_disk := d\<rparr>)"
    "\<And>j. ?k \<le> j \<Longrightarrow> 1024 * j < hi \<Longrightarrow> blk d (unat (ei_block ?ei ! j)) = overlay lo buf j (blk (fs_disk fs) (unat (ei_block ?ei ! j)))"
    "\<And>b. b \<notin> touched ?ei ?k hi \<Longrightarrow> blk d b = blk (fs_disk fs) b"
    using write_file_loop_correct [OF assms(5), of lo ?c buf fs ?p ?k buf now] assms(1,2) pre(2) p(1,2) by metis
  let ?fs = "fs\<lparr>fs_disk := d\<rparr>"
  have byte: "file_byte ?fs ?ei a = (if lo \<le> a \<and> a < hi then buf ! (a - lo) else file_byte fs ?ei a)" if a: "1024 * (a div 1024) < hi" for a
  proof -
    let ?j = "a div 1024"
    have j: "?j < 12" "unat (ei_block ?ei ! ?j) < 2 ^ 27" "ei_block ?ei ! ?j \<noteq> 0" using assms(5) a by (auto simp: allocated_def)
    have at: "1024 * ?j + a mod 1024 = a" by simp
    have new: "file_byte ?fs ?ei a = blk d (unat (ei_block ?ei ! ?j)) ! (a mod 1024)"
      using direct_byte [OF _ j, of ?fs] assms(1) by simp
    show ?thesis
    proof (cases "?k \<le> ?j")
      case True
      then have "blk d (unat (ei_block ?ei ! ?j)) ! (a mod 1024) =
          (if lo \<le> a \<and> a < lo + length buf then buf ! (a - lo) else blk (fs_disk fs) (unat (ei_block ?ei ! ?j)) ! (a mod 1024))"
        unfolding d(2) [OF True a] by (subst nth_overlay) simp_all
      then show ?thesis using new direct_byte [OF assms(1) j] assms(2) by simp
    next
      case False
      have "unat (ei_block ?ei ! ?j) \<notin> touched ?ei ?k hi"
      proof
        assume "unat (ei_block ?ei ! ?j) \<in> touched ?ei ?k hi"
        then obtain i where i: "?k \<le> i" "1024 * i < hi" "ei_block ?ei ! i = ei_block ?ei ! ?j"
          by (auto simp: touched_def word_unat_eq_iff)
        then have "i = ?j" using assms(5) a unfolding allocated_def by blast
        then show False using i(1) False by simp
      qed
      moreover have "\<not> lo \<le> a" using False by (meson div_le_mono)
      ultimately show ?thesis using new d(3) direct_byte [OF assms(1) j] by simp
    qed
  qed
  have "map (file_byte ?fs ?ei) [lo ..< lo + length buf] = buf"
  proof (rule nth_equalityI)
    fix i assume "i < length (map (file_byte ?fs ?ei) [lo ..< lo + length buf])"
    then have i: "i < length buf" by simp
    moreover have "1024 * ((lo + i) div 1024) \<le> lo + i" by simp
    ultimately have "1024 * ((lo + i) div 1024) < hi" using assms(2) by linarith
    from byte [OF this] show "map (file_byte ?fs ?ei) [lo ..< lo + length buf] ! i = buf ! i" using i assms(2) by simp
  qed simp
  moreover have "ext2_read_file ?fs inode ?c (int lo) =
      Some (of_nat (length buf), map (reached_byte ?fs ?ei) [lo ..< lo + length buf], int (lo + length buf))"
  proof (rule read_file_bytes)
    have h: "hi \<le> 12288" using assms(5) by (simp add: allocated_def)
    show "lo \<le> unat (ei_size ?ei)" "length buf = min (unat ?c) (unat (ei_size ?ei) - lo)" using assms(2-4) pre(2) by simp_all
    show "lo + unat ?c < 2 ^ 32" "lo + length buf \<le> 2 ^ 32 - 1024" using h assms(2) pre(2) by simp_all
    have "lo div 1024 \<le> 12288 div 1024" using h assms(2) by (intro div_le_mono) simp
    then show "good_start ?k" by (auto simp: good_start_def)
  qed (simp add: assms(1))
  moreover have "map (reached_byte ?fs ?ei) [lo ..< lo + length buf] = map (file_byte ?fs ?ei) [lo ..< lo + length buf]"
  proof (rule map_reached_byte)
    have "file_block ?fs ?ei (a div 1024) \<noteq> None" if a: "a < lo + length buf" for a
    proof -
      have "1024 * (a div 1024) \<le> a" by simp
      then have "1024 * (a div 1024) < hi" using a assms(2) by linarith
      then have "a div 1024 < 12" "ei_block ?ei ! (a div 1024) \<noteq> 0" using assms(5) by (auto simp: allocated_def)
      then show ?thesis by (simp add: file_block_def)
    qed
    then show "no_hole ?fs ?ei lo (lo + length buf)" by (simp add: no_hole_def)
  qed
  ultimately show ?thesis using d(1,3) byte pre(1) assms(2) by (intro exI [of _ d]) simp
qed

text \<open>A file of one block with 20 bytes.\<close>

definition write_example :: vfs_inode where
  "write_example = ext2_alloc_inode\<lparr>vi_size := 20, vi_fs_info := zero_ext2_inode\<lparr>ei_size := 20, ei_block := 5 # replicate 14 0\<rparr>\<rparr>"

theorem ext2_overwrite_correct_witness:
  "allocated (vi_fs_info write_example) 7 \<and>
   (\<exists>d. ext2_write_file 0 write_example [1, 2, 3] (int 4) dir_example = Some (3, 7, write_example, dir_example\<lparr>fs_disk := d\<rparr>) \<and>
     ext2_read_file (dir_example\<lparr>fs_disk := d\<rparr>) write_example 3 (int 4) = Some (3, [1, 2, 3], 7))"
proof -
  have "allocated (vi_fs_info write_example) 7"
  proof -
    have "1024 * j < 7 \<longleftrightarrow> j = 0" for j :: nat by auto
    then show ?thesis by (simp add: allocated_def write_example_def)
  qed
  with ext2_overwrite_correct [of dir_example 7 4 "[1, 2, 3]" write_example 0]
  show ?thesis by (auto simp: dir_example_def write_example_def)
qed

end
