(* ===== verification/Spec2Isabelle.thy ===== *)
theory Spec2Isabelle
  imports Highmem Malloc Mmap Timer Message_Queue Tty_Spec Pipe Str_Util Vsscanf Tcp_States Net_Spec Ext2_Write
begin

text \<open>
  A verification library for the kernel of mOS, a UNIX-like operating system for the i386 (\<open>src/src/kernel\<close>).

  \<^bold>\<open>The parts of the kernel and their theories.\<close> Files are named relative to \<open>src/src/kernel\<close>; a definition has the name of the
  C function, structure or macro it translates, and further definitions name the loops and branches of long functions.

  \<^item> \<open>Kernel_Prelude\<close>: machine integers, loops that return from their body, the rounding macros of \<open>utils/math.h\<close> and
    \<open>memory/pmm.h\<close>, the error numbers of \<open>include/errno.h\<close>.
  \<^item> \<open>List_Head\<close>: the doubly linked lists of \<open>include/list.h\<close> as rings of pointers in a store, with the locale
    \<open>entry_list\<close>. \<open>Plist\<close>: the priority lists of \<open>utils/plist.c\<close> on two interleaved rings, with the locale \<open>prio_lists\<close>.
  \<^item> \<open>Sched\<close>: threads, the five lists of threads, \<open>schedule\<close>, the timer interrupt and wait queues (\<open>proc/sched.c\<close>,
    \<open>proc/wait.h\<close>). \<open>Semaphore\<close>: \<open>locking/semaphore.c\<close> and \<open>spinlock.h\<close> on it.
  \<^item> \<open>Frame_Bitmap\<close>, \<open>Pmm\<close>, \<open>Vmm\<close>, \<open>Highmem\<close>: page frames (\<open>memory/pmm.c\<close>), page tables behind the recursive directory
    entry (\<open>memory/vmm.c\<close>), temporary mappings (\<open>memory/highmem.c\<close>); the locale \<open>frame_bitmap\<close> is the contract of the two
    bitmaps.
  \<^item> \<open>Malloc\<close> (\<open>memory/malloc.c\<close>, \<open>sbrk.c\<close>): the kernel heap. \<open>Mmap\<close> (\<open>memory/mmap.c\<close>): the memory areas of a process.
  \<^item> \<open>Timer\<close> (\<open>system/timer.c\<close>): software timers.
  \<^item> \<open>Byte_Memory\<close>, \<open>Str_Scan\<close>, \<open>Mem_Block\<close>, \<open>Mem_Copy\<close>, \<open>Str_Util\<close>: memory as bytes and words, and the routines of
    \<open>utils/string/\<close> and \<open>utils/string.c\<close>.
  \<^item> \<open>Circular_Buffer\<close> (\<open>utils/circular_buffer.c\<close>) with the locale \<open>bounded_queue\<close>.
  \<^item> \<open>Hashmap\<close>, \<open>Hashmap_Probe\<close>, \<open>Hashmap_Map\<close>, \<open>Hashmap_Spec\<close> (\<open>utils/hashmap.c\<close>): the operations, linear probing on a ring
    of slots, the abstraction to a finite map, and the locale \<open>bounded_map\<close> with its interpretation.
  \<^item> \<open>Files\<close>: descriptors and open files (\<open>fs/open.c\<close>, \<open>read_write.c\<close>, \<open>fcntl.c\<close>). \<open>Pipe\<close> (\<open>fs/pipefs/pipe.c\<close>) on them.
  \<^item> \<open>Message_Queue\<close> (\<open>ipc/message_queue.c\<close>): POSIX message queues on the scheduler, the hash table and the files.
  \<^item> \<open>Signal\<close> (\<open>ipc/signal.c\<close>): signals on the scheduler, the table of processes and the memory of the user.
  \<^item> \<open>Tty\<close>, \<open>Tty_Spec\<close> (\<open>devices/char/\<close>): the line discipline, terminals and pseudo terminals; the read buffer as a queue that
    the line discipline edits, and what a slave reads of what is typed at the master.
  \<^item> \<open>Vsprintf\<close>, \<open>Vsprintf_Spec\<close>, \<open>Vsscanf\<close> (\<open>utils/vsprintf.c\<close>): formatted output and input, with the complete output of a
    format as a list of bytes.
  \<^item> \<open>Net_Packet\<close>: buffers, checksums and the headers of Ethernet, IP and TCP down to the bytes (\<open>net/sk_buff.c\<close>, \<open>net.c\<close>,
    \<open>ethernet.c\<close>, \<open>ip.c\<close>, the options of \<open>tcp.c\<close>).
  \<^item> \<open>Tcp\<close>, \<open>Tcp_Spec\<close>, \<open>Tcp_States\<close> (\<open>net/tcp.c\<close>, \<open>tcp_output.c\<close>, \<open>tcp_input.c\<close>, \<open>tcp_timer.c\<close>): TCP on whole segments; a message
    from one end of a connection to the other, in several rounds and through a window that is closed at first; the handshake and the
    changes of state.
  \<^item> \<open>Net_Sockets\<close>, \<open>Net_Spec\<close> (\<open>net/udp.c\<close>, \<open>raw.c\<close>, \<open>af_packet.c\<close>, \<open>icmp.c\<close>, \<open>arp.c\<close>, \<open>neighbour.c\<close>, the rest of
    \<open>net.c\<close>): the other sockets and the thread that hands every received frame to them; a datagram from \<open>udp_sendmsg\<close>
    to \<open>udp_recvmsg\<close>, and the answer to an echo request.
  \<^item> \<open>Ext2\<close>, \<open>Ext2_Dir\<close>, \<open>Ext2_Blocks\<close>, \<open>Ext2_Read\<close>, \<open>Ext2_Write\<close> (\<open>fs/ext2/\<close>, \<open>fs/buffer.c\<close>): the file system on a disk of bytes; the bytes of
    a directory block as a list of entries, the locale \<open>directory\<close> with its interpretation; reading a file and
    overwriting it.

  \<^bold>\<open>How the state corresponds.\<close> A C structure is a record; \<open>uint32_t\<close>, \<open>size_t\<close> and pointers are 32-bit words wherever
  wrap-around can matter. Global variables and objects behind pointers are fields of a state record or stores from addresses
  to objects, and every function takes and returns that state. \<open>None\<close> is a call that does not return normally: an
  assertion that fails, a null or dangling pointer, an access outside an array, or a loop that does not end. A thread
  that has to wait ends its call with the value \<open>Blocked\<close>, and the part behind the wait is a definition of its own. Interrupts
  that arrive while the processor waits are an argument: the list of their effects. The handling of signals inside
  \<open>schedule\<close> is an argument of \<open>schedule\<close>, because it leads back into it.

  \<^bold>\<open>What the lemmas show.\<close> For each component there is an invariant that its operations keep and a theorem for the
  behaviour of its operations on all branches; the pointer structures are related to lists and maps by abstraction functions.
  Properties over sequences of operations by several threads or processes are stated with step relations and rule
  induction: semaphores, message queues, files. The two sides of an exchange are put together where the code has both: what is
  formatted is scanned back, a frame that is built is parsed by the other end, a message sent by TCP is received there, what is
  written to a file is read back, and the states of a connection follow the arrows of the diagram. Where a thread has to wait, the
  theorems say that it sleeps, who wakes it, and what the call does when it runs again. Where the code does not do what it should,
  a theorem or a lemma states what it does.

  \<^bold>\<open>Bounds and fuel.\<close> Loops that may run forever are defined with \<open>partial_function\<close>, and the theorems state that they end.
  \<open>do_kill\<close> has the depth of its recursion as an argument, and two levels are enough for the calls that are shown to end.
  \<open>tops_write\<close> has the depth to which the echo of one terminal may write to another: a master and its slave need two levels,
  and the theorems on pseudo terminals state that these are enough.
  The rounds of \<open>entry_find_loop\<close> are counted down from the \<open>HASHMAP_PROBE_LEN\<close> of the source. The rounds of \<open>exchange\<close>
  between two TCP ends are those of a list; one for each byte of the message and one for the probe are enough. There is no other fuel.

  \<^bold>\<open>Not modelled.\<close> Assembly and device registers (\<open>cpu/\<close>, the drivers in \<open>devices/\<close> and \<open>net/devices/\<close>), because there is no
  description of the hardware in the repository to state anything against: below \<open>bread\<close> and \<open>bwrite\<close> is a disk of bytes, below
  \<open>push_rx_queue\<close> and \<open>ethernet_sendmsg\<close> are lists of frames. Log output. Path lookup, mounts and the file systems in memory (\<open>fs/namei.c\<close>,
  \<open>fs/vfs.c\<close>, \<open>tmpfs\<close>, \<open>devfs\<close>), where a tree of dentries joins several file systems by tables of functions: files are modelled
  from the open file on, ext2 from the inode on. The start, replacement and end of processes (\<open>proc/task.c\<close>, \<open>elf.c\<close>, \<open>exit.c\<close>) but for
  their descriptors, because they build stack frames for the assembly of the context switch. The DHCP and DNS clients, which are
  programs on the sockets. Of ext2, \<open>ext2_mmap_file\<close>. The user-space libraries and programs under \<open>libraries/\<close> and \<open>apps/\<close>, whose
  string routines, heap and hash table are copies of the kernel's; the examples under \<open>src/examples\<close>, which are other systems.
\<close>

end
